(* ===== verification/Prelude.thy ===== *)
theory Prelude
  imports Main "HOL-Library.Monad_Syntax"
begin

text \<open>
  Types, automation and list facts shared by every component of the development.

  A pointer to a node of an operation tree is a \<open>ptr\<close>; the null pointer is \<open>None\<close> of
  \<open>ptr option\<close>. A resource kind (\<open>scheduler::ResourceType\<close>, an alias of the architecture
  dialect's \<open>KindAttr\<close>, see \<open>Analysis/Mapping.h\<close>) is its name.

  A call that does not return normally (a failed \<open>assert\<close>, a null or dangling dereference,
  an endless loop) is \<open>None\<close> of an \<open>option\<close> result; a call that returns
  \<open>mlir::failure()\<close> or a null pointer to say that it failed is a value of the result.
\<close>

type_synonym ptr = nat
type_synonym resource = string

text \<open>
  An \<open>mlir::Attribute\<close>: a resource kind, or an attribute of another class.
  \<open>llvm::dyn_cast<ResourceType>\<close> is \<open>as_kind\<close>.
\<close>

datatype attribute = KindAttr resource | OtherAttr string

definition as_kind :: "attribute \<Rightarrow> resource option" where
  "as_kind a = (case a of KindAttr r \<Rightarrow> Some r | OtherAttr _ \<Rightarrow> None)"

text \<open>Of the modes of a data transfer the program only tells \<open>Copy\<close> from the rest.\<close>

datatype transfer_mode = Copy | OtherMode string

text \<open>Collections: unfolding of setters, and the laws of chains of pointers.\<close>

named_theorems setter_defs "definitions of the single-field updates of a store"
named_theorems chain_laws "laws of chains of sibling links"

subsection \<open>Lists\<close>

text \<open>The position of the first occurrence, used to say that one element precedes another.\<close>

fun index_of :: "'a list \<Rightarrow> 'a \<Rightarrow> nat" where
  "index_of [] a = 0"
| "index_of (x # xs) a = (if x = a then 0 else Suc (index_of xs a))"

lemma index_of_le: "index_of xs a \<le> length xs"
  by (induction xs) auto

lemma index_of_less: "index_of xs a < length xs \<longleftrightarrow> a \<in> set xs"
  by (induction xs) auto

lemma index_of_append:
  "index_of (xs @ ys) a = (if a \<in> set xs then index_of xs a else length xs + index_of ys a)"
  by (induction xs) auto

lemma nth_index_of [simp]: "a \<in> set xs \<Longrightarrow> xs ! index_of xs a = a"
  by (induction xs) auto

lemma index_of_nth: "distinct xs \<Longrightarrow> i < length xs \<Longrightarrow> index_of xs (xs ! i) = i"
  by (metis index_of_less nth_eq_iff_index_eq nth_index_of nth_mem)

lemma index_of_snoc_less:
  "a \<in> set xs \<Longrightarrow> index_of (xs @ [b]) a < index_of (xs @ [b]) b \<longleftrightarrow>
     (if b \<in> set xs then index_of xs a < index_of xs b else True)"
  by (auto simp: index_of_append index_of_less)

lemma distinct_concat_unique:
  "distinct (concat (map f xs)) \<Longrightarrow> x \<in> set xs \<Longrightarrow> y \<in> set xs \<Longrightarrow> v \<in> set (f x) \<Longrightarrow> v \<in> set (f y) \<Longrightarrow> x = y"
  by (induction xs) auto

lemma distinct_snoc: "distinct (xs @ [x]) \<longleftrightarrow> distinct xs \<and> x \<notin> set xs"
  by auto

lemma size_list_rev [termination_simp]: "size_list f (rev xs) = size_list f xs"
  by (induction xs) simp_all

text \<open>Insertion of an element right after another one.\<close>

fun insert_after :: "'a \<Rightarrow> 'a \<Rightarrow> 'a list \<Rightarrow> 'a list" where
  "insert_after p c [] = []"
| "insert_after p c (x # xs) = (if x = p then x # c # xs else x # insert_after p c xs)"

lemma set_insert_after: "p \<in> set xs \<Longrightarrow> set (insert_after p c xs) = insert c (set xs)"
  by (induction xs) auto

lemma insert_after_append:
  "insert_after p c (xs @ ys) =
     (if p \<in> set xs then insert_after p c xs @ ys else xs @ insert_after p c ys)"
  by (induction xs) auto

lemma find_append: "find P (xs @ ys) = (case find P xs of None \<Rightarrow> find P ys | Some x \<Rightarrow> Some x)"
  by (induction xs) auto

lemma takeWhile_until: "x \<notin> set as \<Longrightarrow> takeWhile (\<lambda>y. y \<noteq> x) (as @ x # bs) = as"
  by (induction as) auto

lemma split_at: "x \<in> set xs \<Longrightarrow> \<exists>as bs. xs = as @ x # bs \<and> x \<notin> set as"
  by (fact split_list_first)

text \<open>
  The operations of a block as a list: \<open>isBeforeInBlock\<close>, \<open>moveBefore\<close> and \<open>moveAfter\<close> of MLIR.
\<close>

definition before_in :: "'a list \<Rightarrow> 'a \<Rightarrow> 'a \<Rightarrow> bool" where
  "before_in xs a b \<longleftrightarrow> index_of xs a < index_of xs b"

definition moveOpBefore :: "'a \<Rightarrow> 'a \<Rightarrow> 'a list \<Rightarrow> 'a list" where
  "moveOpBefore x e body =
     (let rest = filter (\<lambda>y. y \<noteq> x) body in takeWhile (\<lambda>y. y \<noteq> e) rest @ x # dropWhile (\<lambda>y. y \<noteq> e) rest)"

definition moveOpAfter :: "'a \<Rightarrow> 'a \<Rightarrow> 'a list \<Rightarrow> 'a list" where
  "moveOpAfter x e body = insert_after e x (filter (\<lambda>y. y \<noteq> x) body)"

lemma before_in_append:
  "a \<in> set xs \<Longrightarrow> b \<notin> set xs \<Longrightarrow> before_in (xs @ ys) a b"
  using index_of_less [of xs a] by (simp add: before_in_def index_of_append)

lemma before_in_filter:
  assumes "a \<in> set xs" and "b \<in> set xs" and "Q a" and "Q b"
  shows "before_in (filter Q xs) a b \<longleftrightarrow> before_in xs a b"
  using assms
proof (induction xs)
  case (Cons x xs)
  have other: "before_in (x # ys) a b \<longleftrightarrow> (if x = a then x \<noteq> b else x \<noteq> b \<and> before_in ys a b)" for ys
    by (auto simp: before_in_def)
  show ?case
  proof (cases "x = a \<or> x = b")
    case True
    then show ?thesis using Cons.prems by (auto simp: before_in_def)
  next
    case False
    then have "before_in (filter Q xs) a b \<longleftrightarrow> before_in xs a b" using Cons by auto
    then show ?thesis using False by (simp add: before_in_def)
  qed
qed simp

subsection \<open>Loops over a list that may stop without a result\<close>

fun foldM :: "('a \<Rightarrow> 's \<Rightarrow> 's option) \<Rightarrow> 'a list \<Rightarrow> 's \<Rightarrow> 's option" where
  "foldM f [] s = Some s"
| "foldM f (x # xs) s = Option.bind (f x s) (foldM f xs)"

lemma foldM_append: "foldM f (xs @ ys) s = Option.bind (foldM f xs s) (foldM f ys)"
  by (induction xs arbitrary: s) (auto split: Option.bind_split)

lemma foldM_stuck: "x \<in> set xs \<Longrightarrow> (\<And>s. f x s = None) \<Longrightarrow> foldM f xs s = None"
proof (induction xs arbitrary: s)
  case (Cons y ys)
  then show ?case by (cases "f y s") auto
qed simp

lemma foldM_invariant:
  assumes "foldM f xs s = Some s'" and "P s"
    and "\<And>x s s'. x \<in> set xs \<Longrightarrow> P s \<Longrightarrow> f x s = Some s' \<Longrightarrow> P s'"
  shows "P s'"
  using assms
proof (induction xs arbitrary: s)
  case (Cons x xs)
  then obtain t where t: "f x s = Some t" "foldM f xs t = Some s'"
    by (auto split: Option.bind_splits)
  have "P t" using Cons.prems(3) [of x s t] Cons.prems(2) t(1) by simp
  moreover have "P s'" if "y \<in> set xs" "P s" "f y s = Some s'" for y s s'
    using Cons.prems(3) [of y s s'] that by simp
  ultimately show ?case by (rule Cons.IH [OF t(2)])
qed simp

text \<open>
  A call that may also report failure: \<open>None\<close> is no return, \<open>Some None\<close> is \<open>mlir::failure()\<close> or a
  null result, \<open>Some (Some x)\<close> is success. \<open>attempt\<close> goes on after success only, as the early
  returns of the source do; \<open>foldA\<close> is a loop whose body may return early in this way.
\<close>

type_synonym 'a outcome = "'a option option"

abbreviation failure :: "'a outcome" where
  "failure \<equiv> Some None"

abbreviation success :: "'a \<Rightarrow> 'a outcome" where
  "success x \<equiv> Some (Some x)"

definition attempt :: "'a outcome \<Rightarrow> ('a \<Rightarrow> 'b outcome) \<Rightarrow> 'b outcome" where
  "attempt m f = (case m of None \<Rightarrow> None | Some None \<Rightarrow> failure | Some (Some x) \<Rightarrow> f x)"

lemma attempt_simps [simp]:
  "attempt None f = None" "attempt failure f = failure" "attempt (success x) f = f x"
  by (simp_all add: attempt_def)

lemma attempt_success [simp]:
  "attempt m f = success y \<longleftrightarrow> (\<exists>x. m = success x \<and> f x = success y)"
  by (auto simp: attempt_def split: option.splits)

lemma attempt_cong [fundef_cong]:
  "m = m' \<Longrightarrow> (\<And>x. m' = success x \<Longrightarrow> f x = f' x) \<Longrightarrow> attempt m f = attempt m' f'"
  by (auto simp: attempt_def split: option.splits)

fun foldA :: "('a \<Rightarrow> 's \<Rightarrow> 's outcome) \<Rightarrow> 'a list \<Rightarrow> 's \<Rightarrow> 's outcome" where
  "foldA f [] s = success s"
| "foldA f (x # xs) s = attempt (f x s) (foldA f xs)"

lemma foldA_append: "foldA f (xs @ ys) s = attempt (foldA f xs s) (foldA f ys)"
  by (induction xs arbitrary: s) (auto simp: attempt_def split: option.splits)

lemma foldA_invariant:
  assumes "foldA f xs s = success s'" and "P s"
    and "\<And>x s s'. x \<in> set xs \<Longrightarrow> P s \<Longrightarrow> f x s = success s' \<Longrightarrow> P s'"
  shows "P s'"
  using assms
proof (induction xs arbitrary: s)
  case (Cons x xs)
  then obtain t where t: "f x s = success t" "foldA f xs t = success s'" by auto
  have "P t" using Cons.prems(3) [of x s t] Cons.prems(2) t(1) by simp
  moreover have "P s'" if "y \<in> set xs" "P s" "f y s = success s'" for y s s'
    using Cons.prems(3) [of y s s'] that by simp
  ultimately show ?case by (rule Cons.IH [OF t(2)])
qed simp

text \<open>A loop that establishes something for every element and keeps it.\<close>

lemma foldA_collects:
  assumes "foldA f xs s = success s'" and "P A s"
    and "\<And>x B s s'. x \<in> set xs \<Longrightarrow> P B s \<Longrightarrow> f x s = success s' \<Longrightarrow> P (B \<union> h x) s'"
  shows "P (A \<union> (\<Union>x\<in>set xs. h x)) s'"
  using assms
proof (induction xs arbitrary: s A)
  case (Cons x xs)
  then obtain t where t: "f x s = success t" "foldA f xs t = success s'" by auto
  have "P (A \<union> h x) t" using Cons.prems(3) [of x A s t] Cons.prems(2) t(1) by simp
  moreover have "P (B \<union> h y) s'" if "y \<in> set xs" "P B s" "f y s = success s'" for y B s s'
    using Cons.prems(3) [of y B s s'] that by simp
  ultimately have "P (A \<union> h x \<union> (\<Union>y\<in>set xs. h y)) s'" by (rule Cons.IH [OF t(2)])
  then show ?case by (simp add: Un_assoc)
qed simp

lemma foldM_collects:
  assumes "foldM f xs s = Some s'" and "P A s"
    and "\<And>x B s s'. x \<in> set xs \<Longrightarrow> P B s \<Longrightarrow> f x s = Some s' \<Longrightarrow> P (B \<union> h x) s'"
  shows "P (A \<union> (\<Union>x\<in>set xs. h x)) s'"
proof -
  have "foldM f xs s = Some s' \<Longrightarrow> foldA (\<lambda>x s. map_option Some (f x s)) xs s = success s'" for s
    by (induction xs arbitrary: s) (auto simp: bind_eq_Some_conv)
  from foldA_collects [OF this [OF assms(1)], of P A h] assms(2,3) show ?thesis by auto
qed

text \<open>The elements of a list without repetition, in the order in which they first occur.\<close>

definition first_occurrences :: "'a list \<Rightarrow> 'a list" where
  "first_occurrences xs = rev (remdups (rev xs))"

lemma first_occurrences_simps [simp]:
  "set (first_occurrences xs) = set xs" "distinct (first_occurrences xs)"
  by (simp_all add: first_occurrences_def)

section \<open>Chains of links\<close>

text \<open>\<open>links nx p xs q\<close>: following \<open>nx\<close> from \<open>p\<close> passes through \<open>xs\<close> and arrives at \<open>q\<close>.\<close>

fun links :: "(ptr \<Rightarrow> ptr option) \<Rightarrow> ptr option \<Rightarrow> ptr list \<Rightarrow> ptr option \<Rightarrow> bool" where
  "links nx p [] q \<longleftrightarrow> p = q"
| "links nx p (x # xs) q \<longleftrightarrow> p = Some x \<and> links nx (nx x) xs q"

lemma links_append [simp]:
  "links nx p (xs @ ys) r \<longleftrightarrow> (\<exists>q. links nx p xs q \<and> links nx q ys r)"
  by (induction xs arbitrary: p) auto

lemma links_None_start [simp]: "links nx None xs None \<longleftrightarrow> xs = []"
  by (cases xs) auto

lemma links_frame [chain_laws]:
  "x \<notin> set xs \<Longrightarrow> links (nx(x := v)) p xs q \<longleftrightarrow> links nx p xs q"
  by (induction xs arbitrary: p) auto

lemma links_unique: "links nx p xs None \<Longrightarrow> links nx p ys None \<Longrightarrow> xs = ys"
proof (induction xs arbitrary: p ys)
  case Nil
  then show ?case by (cases ys) auto
next
  case (Cons x xs)
  then show ?case by (cases ys) auto
qed

lemma links_suffix: "links nx p (as @ x # bs) None \<Longrightarrow> links nx (Some x) (x # bs) None"
  by auto

lemma links_distinct: "links nx p xs None \<Longrightarrow> distinct xs"
proof (induction xs arbitrary: p)
  case (Cons x xs)
  have "x \<notin> set xs"
  proof
    assume "x \<in> set xs"
    then obtain as bs where "xs = as @ x # bs" by (meson split_list)
    with Cons.prems have "links nx (Some x) (x # as @ x # bs) None"
      and "links nx (Some x) (x # bs) None" by auto
    then have "x # as @ x # bs = x # bs" by (rule links_unique)
    then show False by simp
  qed
  with Cons show ?case by auto
qed simp

lemma links_last: "links nx p xs None \<Longrightarrow> xs \<noteq> [] \<Longrightarrow> nx (last xs) = None"
  by (induction xs arbitrary: p) auto

lemma links_snoc:
  "links nx p xs None \<Longrightarrow> xs \<noteq> [] \<Longrightarrow> c \<notin> set xs \<Longrightarrow> nx c = None \<Longrightarrow>
     links (nx(last xs := Some c)) p (xs @ [c]) None"
proof -
  assume a: "links nx p xs None" "xs \<noteq> []" "c \<notin> set xs" "nx c = None"
  then obtain ys y where xs: "xs = ys @ [y]" by (metis rev_exhaust)
  with links_distinct [OF a(1)] have "y \<notin> set ys" by simp
  with a xs show ?thesis by (auto simp: links_frame)
qed


section \<open>Hash maps\<close>

text \<open>
  A \<open>DenseMap\<close> as its entries. \<open>dm_insert\<close> is assignment through \<open>operator[]\<close>; iteration
  visits the entries in an order the map does not promise, which is a parameter of the loops
  that iterate.
\<close>

definition dm_insert :: "'k \<Rightarrow> 'v \<Rightarrow> ('k \<times> 'v) list \<Rightarrow> ('k \<times> 'v) list" where
  "dm_insert k v m = filter (\<lambda>e. fst e \<noteq> k) m @ [(k, v)]"

lemma map_of_dm_insert [simp]: "map_of (dm_insert k v m) = (map_of m)(k := Some v)"
proof (rule ext)
  fix x
  have "map_of (filter (\<lambda>e. fst e \<noteq> k) m) x = (if x = k then None else map_of m x)"
    by (induction m) auto
  then show "map_of (dm_insert k v m) x = ((map_of m)(k := Some v)) x"
    by (auto simp: dm_insert_def map_add_def split: option.split)
qed

lemma distinct_dm_insert: "distinct (map fst m) \<Longrightarrow> distinct (map fst (dm_insert k v m))"
  by (auto simp: dm_insert_def distinct_map inj_on_def)

lemma set_dm_insert: "fst ` set (dm_insert k v m) = insert k (fst ` set m)"
  by (auto simp: dm_insert_def)

text \<open>An iteration order: every entry once.\<close>

definition iteration_order :: "('a list \<Rightarrow> 'a list) \<Rightarrow> bool" where
  "iteration_order ord \<longleftrightarrow> (\<forall>xs. distinct xs \<longrightarrow> distinct (ord xs) \<and> set (ord xs) = set xs)"

lemma iteration_order_id [simp]: "iteration_order (\<lambda>xs. xs)" "iteration_order rev"
  by (simp_all add: iteration_order_def)

end
