(* ===== verification/OperationTree.thy ===== *)
theory OperationTree
  imports Prelude
begin

text \<open>
  The left-child right-sibling tree of \<open>lib/Analysis/OperationTree.cpp\<close> and
  \<open>include/.../Analysis/OperationTree.h\<close>. Nodes are pointers into a store that holds the
  three links of every node; each member function is a function on the store. The abstraction
  \<open>tree_abs h F\<close> says that the links represent the child lists \<open>F\<close>; the refinement
  lemmas state what every operation does to \<open>F\<close>, and the walks are shown to visit the
  nodes of the represented rose tree in the order their names promise.
\<close>

section \<open>The store\<close>

text \<open>
  The links of the nodes, and which nodes are allocated: \<open>delete\<close> ends the life of a node.
\<close>

record lcrs =
  parent_node :: "ptr \<Rightarrow> ptr option"
  first_child :: "ptr \<Rightarrow> ptr option"
  next_sibling :: "ptr \<Rightarrow> ptr option"
  allocated :: "ptr \<Rightarrow> bool"

definition setParentNode :: "ptr \<Rightarrow> ptr option \<Rightarrow> 'a lcrs_scheme \<Rightarrow> 'a lcrs_scheme" where
  [setter_defs]: "setParentNode n p h = h\<lparr>parent_node := (parent_node h)(n := p)\<rparr>"

definition setFirstChild :: "ptr \<Rightarrow> ptr option \<Rightarrow> 'a lcrs_scheme \<Rightarrow> 'a lcrs_scheme" where
  [setter_defs]: "setFirstChild n c h = h\<lparr>first_child := (first_child h)(n := c)\<rparr>"

definition setNextSibling :: "ptr \<Rightarrow> ptr option \<Rightarrow> 'a lcrs_scheme \<Rightarrow> 'a lcrs_scheme" where
  [setter_defs]: "setNextSibling n s h = h\<lparr>next_sibling := (next_sibling h)(n := s)\<rparr>"

section \<open>Navigation\<close>

text \<open>The \<open>while (child)\<close> loop of \<open>getNumberOfChildren\<close>; \<open>unsigned\<close> does not wrap below \<open>2^32\<close> nodes.\<close>

partial_function (option) count_siblings ::
  "'a lcrs_scheme \<Rightarrow> ptr option \<Rightarrow> nat \<Rightarrow> nat option" where
  "count_siblings h child count =
     (case child of
        None \<Rightarrow> Some count
      | Some c \<Rightarrow> count_siblings h (next_sibling h c) (Suc count))"

declare count_siblings.simps [code]

definition getNumberOfChildren :: "'a lcrs_scheme \<Rightarrow> ptr \<Rightarrow> nat option" where
  "getNumberOfChildren h n = count_siblings h (first_child h n) 0"

partial_function (option) last_sibling :: "'a lcrs_scheme \<Rightarrow> ptr \<Rightarrow> ptr option" where
  "last_sibling h child =
     (case next_sibling h child of
        None \<Rightarrow> Some child
      | Some c \<Rightarrow> last_sibling h c)"

declare last_sibling.simps [code]

text \<open>The result is itself a pointer that may be null.\<close>

definition getLastChild :: "'a lcrs_scheme \<Rightarrow> ptr \<Rightarrow> ptr option option" where
  "getLastChild h n =
     (case first_child h n of
        None \<Rightarrow> Some None
      | Some c \<Rightarrow> do { l \<leftarrow> last_sibling h c; Some (Some l) })"

partial_function (option) find_prev ::
  "'a lcrs_scheme \<Rightarrow> ptr \<Rightarrow> ptr option \<Rightarrow> ptr option option" where
  "find_prev h self prev =
     (case prev of
        None \<Rightarrow> Some None
      | Some p \<Rightarrow>
          (if next_sibling h p = Some self then Some (Some p)
           else find_prev h self (next_sibling h p)))"

declare find_prev.simps [code]

text \<open>\<open>assert(getParentNode())\<close> is the outer \<open>None\<close>.\<close>

definition getPrevSibling :: "'a lcrs_scheme \<Rightarrow> ptr \<Rightarrow> ptr option option" where
  "getPrevSibling h self =
     (case parent_node h self of
        None \<Rightarrow> None
      | Some par \<Rightarrow>
          (let prev = first_child h par in
           if prev = Some self then Some None else find_prev h self prev))"

partial_function (option) climb :: "'a lcrs_scheme \<Rightarrow> ptr \<Rightarrow> nat \<Rightarrow> nat option" where
  "climb h node depth =
     (case parent_node h node of
        None \<Rightarrow> Some depth
      | Some p \<Rightarrow> climb h p (Suc depth))"

declare climb.simps [code]

definition getDepth :: "'a lcrs_scheme \<Rightarrow> ptr \<Rightarrow> nat option" where
  "getDepth h n = climb h n 0"

definition isLeaf :: "'a lcrs_scheme \<Rightarrow> ptr \<Rightarrow> bool" where
  "isLeaf h n \<longleftrightarrow> first_child h n = None"

definition isOutermost :: "'a lcrs_scheme \<Rightarrow> ptr \<Rightarrow> bool option" where
  "isOutermost h n = do { d \<leftarrow> getDepth h n; Some (d = 1) }"

partial_function (option) find_up ::
  "'a lcrs_scheme \<Rightarrow> (ptr \<Rightarrow> bool) \<Rightarrow> ptr option \<Rightarrow> ptr option option" where
  "find_up h predicate current =
     (case current of
        None \<Rightarrow> Some None
      | Some c \<Rightarrow> (if predicate c then Some (Some c) else find_up h predicate (parent_node h c)))"

declare find_up.simps [code]

definition findParent :: "'a lcrs_scheme \<Rightarrow> ptr \<Rightarrow> (ptr \<Rightarrow> bool) \<Rightarrow> ptr option option" where
  "findParent h n predicate = find_up h predicate (parent_node h n)"

section \<open>Manipulation\<close>

definition insertChildNode ::
  "'a lcrs_scheme \<Rightarrow> ptr \<Rightarrow> ptr \<Rightarrow> ptr option \<Rightarrow> 'a lcrs_scheme option" where
  "insertChildNode h n child pos =
     (if isLeaf h n then
        (if pos = None then Some (setParentNode child (Some n) (setFirstChild n (Some child) h))
         else None)
      else case pos of
        Some p \<Rightarrow>
          (if parent_node h p = Some n then
             (let old_pos_next = next_sibling h p;
                  h1 = setNextSibling p (Some child) h;
                  h2 = setNextSibling child old_pos_next h1
              in Some (setParentNode child (Some n) h2))
           else None)
      | None \<Rightarrow>
          do { last \<leftarrow> getLastChild h n;
               case last of
                 None \<Rightarrow> None
               | Some l \<Rightarrow> Some (setParentNode child (Some n) (setNextSibling l (Some child) h)) })"

definition insertAsFirstChild ::
  "'a lcrs_scheme \<Rightarrow> ptr \<Rightarrow> ptr \<Rightarrow> 'a lcrs_scheme" where
  "insertAsFirstChild h n child =
     (let old_first_child = first_child h n;
          h1 = (case old_first_child of
                  Some c \<Rightarrow> setNextSibling child (Some c) h
                | None \<Rightarrow> h);
          h2 = setFirstChild n (Some child) h1
      in setParentNode child (Some n) h2)"

definition unlink :: "'a lcrs_scheme \<Rightarrow> ptr \<Rightarrow> 'a lcrs_scheme option" where
  "unlink h x =
     do { prev_sibling \<leftarrow> getPrevSibling h x;
          h1 \<leftarrow> (case prev_sibling of
                   Some p \<Rightarrow> Some (setNextSibling p (next_sibling h x) h)
                 | None \<Rightarrow>
                     (case parent_node h x of
                        None \<Rightarrow> None
                      | Some par \<Rightarrow> Some (setFirstChild par (next_sibling h x) h)));
          Some (setParentNode x None (setNextSibling x None h1)) }"

text \<open>The loop of \<open>unlinkNode\<close> that hands the children to the parent.\<close>

partial_function (option) reparent ::
  "ptr \<Rightarrow> ptr option \<Rightarrow> ptr option \<Rightarrow> ptr option \<Rightarrow> 'a lcrs_scheme \<Rightarrow> 'a lcrs_scheme option" where
  "reparent par last_child next child h =
     (case child of
        None \<Rightarrow> Some h
      | Some c \<Rightarrow>
          (let h1 = setParentNode c (Some par) h in
           if Some c = last_child then Some (setNextSibling c next h1)
           else reparent par last_child next (next_sibling h1 c) h1))"

declare reparent.simps [code]

definition unlinkNode :: "'a lcrs_scheme \<Rightarrow> ptr \<Rightarrow> 'a lcrs_scheme option" where
  "unlinkNode h x =
     (case parent_node h x of
        None \<Rightarrow> Some h
      | Some par \<Rightarrow>
          do { prev_sibling \<leftarrow> getPrevSibling h x;
               last_child \<leftarrow> getLastChild h x;
               h2 \<leftarrow> (case first_child h x of
                  Some fc \<Rightarrow>
                    (let h1 = (case prev_sibling of
                                 Some p \<Rightarrow> setNextSibling p (Some fc) h
                               | None \<Rightarrow> setFirstChild par (Some fc) h)
                     in reparent par last_child (next_sibling h x) (Some fc) h1)
                | None \<Rightarrow>
                    (case prev_sibling of
                       Some p \<Rightarrow> Some (setNextSibling p (next_sibling h x) h)
                     | None \<Rightarrow> Some (setFirstChild par (next_sibling h x) h)));
               Some (setParentNode x None (setNextSibling x None (setFirstChild x None h2))) })"

section \<open>Walks\<close>

text \<open>
  A walk is modelled by the sequence of nodes it hands to its action, for an action that does
  not change the links. The recursion over a node and the loop over its children are one
  recursion over a node and its right siblings.
\<close>

partial_function (option) pre_loop :: "'a lcrs_scheme \<Rightarrow> ptr option \<Rightarrow> ptr list option" where
  "pre_loop h child =
     (case child of
        None \<Rightarrow> Some []
      | Some c \<Rightarrow>
          do { below \<leftarrow> pre_loop h (first_child h c);
               right \<leftarrow> pre_loop h (next_sibling h c);
               Some (c # below @ right) })"

declare pre_loop.simps [code]

definition preOrderWalk :: "'a lcrs_scheme \<Rightarrow> ptr \<Rightarrow> ptr list option" where
  "preOrderWalk h n = do { below \<leftarrow> pre_loop h (first_child h n); Some (n # below) }"

partial_function (option) post_loop :: "'a lcrs_scheme \<Rightarrow> ptr option \<Rightarrow> ptr list option" where
  "post_loop h child =
     (case child of
        None \<Rightarrow> Some []
      | Some c \<Rightarrow>
          do { below \<leftarrow> post_loop h (first_child h c);
               right \<leftarrow> post_loop h (next_sibling h c);
               Some (below @ c # right) })"

declare post_loop.simps [code]

definition postOrderWalk :: "'a lcrs_scheme \<Rightarrow> ptr \<Rightarrow> ptr list option" where
  "postOrderWalk h n = do { below \<leftarrow> post_loop h (first_child h n); Some (below @ [n]) }"

text \<open>
  In a guided walk the action returns the sibling to visit next; the \<open>assert\<close> demands a
  node with the same parent.
\<close>

definition true_sibling :: "'a lcrs_scheme \<Rightarrow> ptr \<Rightarrow> ptr option \<Rightarrow> bool" where
  "true_sibling h n next_node \<longleftrightarrow>
     (case next_node of None \<Rightarrow> True | Some m \<Rightarrow> parent_node h n = parent_node h m)"

partial_function (option) pre_guided_loop ::
  "'a lcrs_scheme \<Rightarrow> (ptr \<Rightarrow> ptr option) \<Rightarrow> ptr option \<Rightarrow> ptr list option" where
  "pre_guided_loop h action child =
     (case child of
        None \<Rightarrow> Some []
      | Some c \<Rightarrow>
          (let next_node = action c in
           if true_sibling h c next_node then
             do { below \<leftarrow> pre_guided_loop h action (first_child h c);
                  right \<leftarrow> pre_guided_loop h action next_node;
                  Some (c # below @ right) }
           else None))"

declare pre_guided_loop.simps [code]

definition preOrderGuidedWalk ::
  "'a lcrs_scheme \<Rightarrow> ptr \<Rightarrow> (ptr \<Rightarrow> ptr option) \<Rightarrow> (ptr option \<times> ptr list) option" where
  "preOrderGuidedWalk h n action =
     (let next_node = action n in
      if true_sibling h n next_node then
        do { below \<leftarrow> pre_guided_loop h action (first_child h n);
             Some (next_node, n # below) }
      else None)"

partial_function (option) post_guided_loop ::
  "'a lcrs_scheme \<Rightarrow> (ptr \<Rightarrow> ptr option) \<Rightarrow> ptr option \<Rightarrow> ptr list option" where
  "post_guided_loop h action child =
     (case child of
        None \<Rightarrow> Some []
      | Some c \<Rightarrow>
          do { below \<leftarrow> post_guided_loop h action (first_child h c);
               let next_node = action c;
               if true_sibling h c next_node then
                 do { right \<leftarrow> post_guided_loop h action next_node;
                      Some (below @ c # right) }
               else None })"

declare post_guided_loop.simps [code]

definition postOrderGuidedWalk ::
  "'a lcrs_scheme \<Rightarrow> ptr \<Rightarrow> (ptr \<Rightarrow> ptr option) \<Rightarrow> (ptr option \<times> ptr list) option" where
  "postOrderGuidedWalk h n action =
     do { below \<leftarrow> post_guided_loop h action (first_child h n);
          let next_node = action n;
          if true_sibling h n next_node then Some (next_node, below @ [n]) else None }"

text \<open>The loop that collects a node and its right siblings in order.\<close>

partial_function (option) siblings_from :: "'a lcrs_scheme \<Rightarrow> ptr option \<Rightarrow> ptr list option" where
  "siblings_from h child =
     (case child of
        None \<Rightarrow> Some []
      | Some c \<Rightarrow> do { right \<leftarrow> siblings_from h (next_sibling h c); Some (c # right) })"

declare siblings_from.simps [code]

partial_function (option) bfs_loop :: "'a lcrs_scheme \<Rightarrow> ptr list \<Rightarrow> ptr list option" where
  "bfs_loop h queue =
     (case queue of
        [] \<Rightarrow> Some []
      | curr_node # rest \<Rightarrow>
          do { children \<leftarrow> siblings_from h (first_child h curr_node);
               later \<leftarrow> bfs_loop h (rest @ children);
               Some (curr_node # later) })"

declare bfs_loop.simps [code]

definition breadthFirstWalk :: "'a lcrs_scheme \<Rightarrow> ptr \<Rightarrow> ptr list option" where
  "breadthFirstWalk h n = bfs_loop h [n]"

text \<open>
  The first loop of \<open>reverseBreadthFirstWalk\<close> fills \<open>stack\<close>; \<open>keep_order\<close> pushes the
  children from right to left. The second loop pops the stack from its back.
\<close>

partial_function (option) reverse_bfs_loop ::
  "'a lcrs_scheme \<Rightarrow> bool \<Rightarrow> ptr list \<Rightarrow> ptr list \<Rightarrow> ptr list option" where
  "reverse_bfs_loop h keep_order queue stack =
     (case queue of
        [] \<Rightarrow> Some stack
      | curr_node # rest \<Rightarrow>
          do { s \<leftarrow> siblings_from h (first_child h curr_node);
               let pushed = (if keep_order then rev s else s);
               reverse_bfs_loop h keep_order (rest @ pushed) (stack @ [curr_node]) })"

declare reverse_bfs_loop.simps [code]

definition reverseBreadthFirstWalk :: "'a lcrs_scheme \<Rightarrow> ptr \<Rightarrow> bool \<Rightarrow> ptr list option" where
  "reverseBreadthFirstWalk h n keep_order =
     do { stack \<leftarrow> reverse_bfs_loop h keep_order [n] []; Some (rev stack) }"

section \<open>Deleting\<close>

text \<open>\<open>delete\<close> on every node of a list: undefined on a node that is not allocated, or no longer.\<close>

fun delete_nodes :: "ptr list \<Rightarrow> 'a lcrs_scheme \<Rightarrow> 'a lcrs_scheme option" where
  "delete_nodes [] h = Some h"
| "delete_nodes (n # ns) h =
     (if allocated h n then delete_nodes ns (h\<lparr>allocated := (allocated h)(n := False)\<rparr>) else None)"

text \<open>\<open>OperationTree::clear()\<close>: the new store and the new \<open>root_\<close>.\<close>

definition clear :: "'a lcrs_scheme \<Rightarrow> ptr option \<Rightarrow> ('a lcrs_scheme \<times> ptr option) option" where
  "clear h root =
     (case root of
        None \<Rightarrow> Some (h, None)
      | Some r \<Rightarrow>
          (if first_child h r \<noteq> None then
             do { ns \<leftarrow> postOrderWalk h r; h' \<leftarrow> delete_nodes ns h; Some (h', None) }
           else do { h' \<leftarrow> delete_nodes [r] h; Some (h', None) }))"

text \<open>
  \<open>OperationTree::clear(start)\<close>, which is \<open>remove\<close>. The call \<open>start->unlink()\<close> reads
  the node, so it needs it allocated.
\<close>

definition clear_from ::
  "'a lcrs_scheme \<Rightarrow> ptr option \<Rightarrow> ptr \<Rightarrow> ('a lcrs_scheme \<times> ptr option) option" where
  "clear_from h root start =
     do { (h1, root1) \<leftarrow> (if root = Some start then clear h root else Some (h, root));
          if \<not> allocated h1 start then None
          else do { h2 \<leftarrow> unlink h1 start;
                    ns \<leftarrow> postOrderWalk h2 start;
                    h3 \<leftarrow> delete_nodes ns h2;
                    Some (h3, root1) } }"

section \<open>The child lists a store represents\<close>

text \<open>
  \<open>tree_abs h F\<close>: the links of \<open>h\<close> represent the child lists \<open>F\<close>. Every child list is a
  chain from the first child; a node is in the list of \<open>n\<close> exactly when \<open>n\<close> is its
  parent; a node without a parent has no right sibling (as \<open>getRoot\<close> asserts of the root).
\<close>

definition tree_abs :: "'a lcrs_scheme \<Rightarrow> (ptr \<Rightarrow> ptr list) \<Rightarrow> bool" where
  "tree_abs h F \<longleftrightarrow>
     (\<forall>n. links (next_sibling h) (first_child h n) (F n) None) \<and>
     (\<forall>n c. c \<in> set (F n) \<longleftrightarrow> parent_node h c = Some n) \<and>
     (\<forall>c. parent_node h c = None \<longrightarrow> next_sibling h c = None)"

lemma tree_abs_links: "tree_abs h F \<Longrightarrow> links (next_sibling h) (first_child h n) (F n) None"
  by (simp add: tree_abs_def)

lemma tree_abs_parent: "tree_abs h F \<Longrightarrow> c \<in> set (F n) \<longleftrightarrow> parent_node h c = Some n"
  by (simp add: tree_abs_def)

lemma tree_abs_distinct: "tree_abs h F \<Longrightarrow> distinct (F n)"
  by (blast dest: tree_abs_links links_distinct)

lemma tree_abs_leaf: "tree_abs h F \<Longrightarrow> first_child h n = None \<longleftrightarrow> F n = []"
  using tree_abs_links [of h F n] by (cases "F n") auto

lemma tree_abs_first: "tree_abs h F \<Longrightarrow> first_child h n = Some c \<longleftrightarrow> (\<exists>xs. F n = c # xs)"
  using tree_abs_links [of h F n] by (cases "F n") auto

lemma tree_abs_unique: "tree_abs h F \<Longrightarrow> tree_abs h G \<Longrightarrow> F = G"
  by (rule ext) (blast intro: links_unique dest: tree_abs_links)

lemma tree_absI:
  assumes "\<And>n. links (next_sibling h) (first_child h n) (F n) None"
    and "\<And>n c. c \<in> set (F n) \<longleftrightarrow> parent_node h c = Some n"
    and "\<And>c. parent_node h c = None \<Longrightarrow> next_sibling h c = None"
  shows "tree_abs h F"
  using assms by (simp add: tree_abs_def)

lemma tree_abs_links_cong:
  "tree_abs h F \<Longrightarrow> parent_node h' = parent_node h \<Longrightarrow> first_child h' = first_child h \<Longrightarrow>
    next_sibling h' = next_sibling h \<Longrightarrow> tree_abs h' F"
  by (simp add: tree_abs_def)

subsection \<open>Navigation reads the child lists\<close>

lemma count_siblings_links:
  "links (next_sibling h) p xs None \<Longrightarrow> count_siblings h p k = Some (k + length xs)"
  by (induction xs arbitrary: p k) (simp_all add: count_siblings.simps)

lemma last_sibling_links:
  "links (next_sibling h) (Some c) (c # xs) None \<Longrightarrow> last_sibling h c = Some (last (c # xs))"
proof (induction xs arbitrary: c)
  case (Cons y ys)
  then show ?case by (subst last_sibling.simps) auto
qed (simp add: last_sibling.simps)

lemma find_prev_links:
  "links (next_sibling h) p (a # as @ x # bs) None \<Longrightarrow> find_prev h x p = Some (Some (last (a # as)))"
proof (induction as arbitrary: p a)
  case (Cons y ys)
  from Cons.prems have "distinct (a # (y # ys) @ x # bs)" by (rule links_distinct)
  with Cons show ?case by (subst find_prev.simps) auto
qed (simp add: find_prev.simps)

lemma siblings_from_links:
  "links (next_sibling h) p xs None \<Longrightarrow> siblings_from h p = Some xs"
  by (induction xs arbitrary: p) (simp_all add: siblings_from.simps)

lemma getNumberOfChildren_abs:
  "tree_abs h F \<Longrightarrow> getNumberOfChildren h n = Some (length (F n))"
  by (simp add: getNumberOfChildren_def count_siblings_links [OF tree_abs_links])

lemma getLastChild_abs:
  assumes "tree_abs h F"
  shows "getLastChild h n = Some (if F n = [] then None else Some (last (F n)))"
proof (cases "F n")
  case (Cons c xs)
  with tree_abs_links [OF assms, of n] have "first_child h n = Some c"
    and "links (next_sibling h) (Some c) (c # xs) None" by auto
  with last_sibling_links [of h c xs] Cons show ?thesis by (simp add: getLastChild_def)
next
  case Nil
  with tree_abs_leaf [OF assms, of n] show ?thesis by (simp add: getLastChild_def)
qed

text \<open>The left neighbour of a child, null for the first one.\<close>

definition left_of :: "'a list \<Rightarrow> 'a \<Rightarrow> 'a option" where
  "left_of xs x = (case takeWhile (\<lambda>y. y \<noteq> x) xs of [] \<Rightarrow> None | ys \<Rightarrow> Some (last ys))"

lemma left_of_split: "x \<notin> set as \<Longrightarrow> left_of (as @ x # bs) x = (if as = [] then None else Some (last as))"
  by (cases as) (auto simp: left_of_def takeWhile_until)

lemma left_of_hd [simp]: "left_of (x # bs) x = None"
  by (simp add: left_of_def)

lemma getPrevSibling_abs:
  assumes "tree_abs h F" and "parent_node h x = Some n"
  shows "getPrevSibling h x = Some (left_of (F n) x)"
proof -
  from assms have "x \<in> set (F n)" by (simp add: tree_abs_parent)
  then obtain as bs where F: "F n = as @ x # bs" "x \<notin> set as" by (meson split_at)
  have l: "links (next_sibling h) (first_child h n) (as @ x # bs) None"
    using tree_abs_links [OF assms(1), of n] F by simp
  show ?thesis
  proof (cases as)
    case Nil
    with l F assms show ?thesis by (simp add: getPrevSibling_def left_of_split)
  next
    case (Cons a as')
    with l have "links (next_sibling h) (first_child h n) (a # as' @ x # bs) None" by simp
    from find_prev_links [OF this] this Cons F assms left_of_split [of x "a # as'" bs] show ?thesis
      by (auto simp: getPrevSibling_def)
  qed
qed

lemma getPrevSibling_orphan: "parent_node h x = None \<Longrightarrow> getPrevSibling h x = None"
  by (simp add: getPrevSibling_def)

subsection \<open>Every manipulation is an update of the child lists\<close>

lemma tree_abs_other: "tree_abs h F \<Longrightarrow> x \<in> set (F n) \<Longrightarrow> m \<noteq> n \<Longrightarrow> x \<notin> set (F m)"
  by (simp add: tree_abs_parent)

lemma tree_abs_orphan: "tree_abs h F \<Longrightarrow> parent_node h c = None \<Longrightarrow> c \<notin> set (F n)"
  by (simp add: tree_abs_parent)

lemma tree_abs_orphan_next: "tree_abs h F \<Longrightarrow> parent_node h c = None \<Longrightarrow> next_sibling h c = None"
  by (simp add: tree_abs_def)

lemma insertChildNode_last_abs:
  assumes abs: "tree_abs h F" and orphan: "parent_node h c = None"
  shows "\<exists>h'. insertChildNode h n c None = Some h' \<and> tree_abs h' (F(n := F n @ [c]))"
proof (cases "F n")
  case Nil
  let ?h = "setParentNode c (Some n) (setFirstChild n (Some c) h)"
  have "insertChildNode h n c None = Some ?h"
    using tree_abs_leaf [OF abs, of n] Nil by (simp add: insertChildNode_def isLeaf_def)
  moreover have "\<And>d. parent_node h d \<noteq> Some n"
    using tree_abs_parent [OF abs, of _ n] Nil by auto
  then have "tree_abs ?h (F(n := F n @ [c]))"
    by (intro tree_absI)
      (use abs orphan Nil tree_abs_orphan [OF abs orphan] in
        \<open>auto simp: setter_defs tree_abs_links tree_abs_orphan_next tree_abs_parent split: if_splits\<close>)
  ultimately show ?thesis by blast
next
  case (Cons a as)
  then have ne: "F n \<noteq> []" by simp
  let ?h = "setParentNode c (Some n) (setNextSibling (last (F n)) (Some c) h)"
  have l: "last (F n) \<in> set (F n)" using ne by simp
  have "insertChildNode h n c None = Some ?h"
    using tree_abs_leaf [OF abs, of n] getLastChild_abs [OF abs, of n] ne
    by (auto simp: insertChildNode_def isLeaf_def)
  moreover have "tree_abs ?h (F(n := F n @ [c]))"
  proof (rule tree_absI)
    fix m
    show "links (next_sibling ?h) (first_child ?h m) ((F(n := F n @ [c])) m) None"
    proof (cases "m = n")
      case True
      have "links ((next_sibling h)(last (F n) := Some c)) (first_child h n) (F n @ [c]) None"
        by (rule links_snoc) (use abs orphan ne tree_abs_orphan tree_abs_orphan_next tree_abs_links in auto)
      with True show ?thesis by (simp add: setter_defs del: links_append)
    next
      case False
      with tree_abs_other [OF abs l] abs show ?thesis
        by (simp add: setter_defs links_frame tree_abs_links)
    qed
  qed (use abs orphan l tree_abs_orphan [OF abs orphan] in
        \<open>auto simp: setter_defs tree_abs_orphan_next tree_abs_parent split: if_splits\<close>)
  ultimately show ?thesis by blast
qed

text \<open>A child inserted at a position goes right after that sibling.\<close>

lemma links_insert:
  assumes "links nx p (as @ x # bs) None" and "c \<notin> set (as @ x # bs)"
  shows "links (nx(x := Some c, c := nx x)) p (as @ x # c # bs) None"
proof -
  have d: "x \<notin> set as" "x \<notin> set bs" using links_distinct [OF assms(1)] by auto
  with assms show ?thesis by (auto simp: links_frame fun_upd_twist)
qed

lemma insertChildNode_after_abs:
  assumes abs: "tree_abs h F" and orphan: "parent_node h c = None" and pos: "parent_node h p = Some n"
  shows "\<exists>h'. insertChildNode h n c (Some p) = Some h' \<and>
    tree_abs h' (F(n := insert_after p c (F n)))"
proof -
  have p: "p \<in> set (F n)" using abs pos by (simp add: tree_abs_parent)
  then obtain as bs where F: "F n = as @ p # bs" "p \<notin> set as" by (meson split_at)
  have c: "\<And>m. c \<notin> set (F m)" using abs orphan by (rule tree_abs_orphan)
  have ins: "insert_after p c (F n) = as @ p # c # bs" using F by (simp add: insert_after_append)
  let ?h = "setParentNode c (Some n) (setNextSibling c (next_sibling h p) (setNextSibling p (Some c) h))"
  have "\<not> isLeaf h n" using tree_abs_leaf [OF abs, of n] F by (simp add: isLeaf_def)
  then have "insertChildNode h n c (Some p) = Some ?h" using pos by (simp add: insertChildNode_def)
  moreover have "tree_abs ?h (F(n := insert_after p c (F n)))"
  proof (rule tree_absI)
    fix m
    show "links (next_sibling ?h) (first_child ?h m) ((F(n := insert_after p c (F n))) m) None"
    proof (cases "m = n")
      case True
      have "links (next_sibling h) (first_child h n) (as @ p # bs) None"
        using tree_abs_links [OF abs, of n] F by simp
      from links_insert [OF this, of c] c [of n] F True ins show ?thesis
        by (simp add: setter_defs)
    next
      case False
      with tree_abs_other [OF abs p] c [of m] abs show ?thesis
        by (simp add: setter_defs links_frame tree_abs_links)
    qed
  next
    fix m d
    show "d \<in> set ((F(n := insert_after p c (F n))) m) \<longleftrightarrow> parent_node ?h d = Some m"
      using abs p c [of m] by (auto simp: setter_defs set_insert_after tree_abs_parent)
  qed (use abs orphan pos in \<open>auto simp: setter_defs tree_abs_orphan_next split: if_splits\<close>)
  ultimately show ?thesis by blast
qed

lemma insertAsFirstChild_abs:
  assumes abs: "tree_abs h F" and orphan: "parent_node h c = None"
  shows "tree_abs (insertAsFirstChild h n c) (F(n := c # F n))"
proof (rule tree_absI)
  let ?h = "insertAsFirstChild h n c"
  have c: "\<And>m. c \<notin> set (F m)" using abs orphan by (rule tree_abs_orphan)
  fix m
  show "links (next_sibling ?h) (first_child ?h m) ((F(n := c # F n)) m) None"
  proof (cases "first_child h n")
    case None
    with abs orphan tree_abs_leaf [OF abs, of n] show ?thesis
      by (simp add: insertAsFirstChild_def setter_defs tree_abs_links tree_abs_orphan_next)
  next
    case (Some d)
    with abs c [of m] c [of n] tree_abs_links [OF abs, of n] show ?thesis
      by (auto simp: insertAsFirstChild_def setter_defs tree_abs_links links_frame)
  qed
qed (use abs orphan tree_abs_orphan [OF abs orphan] in
      \<open>auto simp: insertAsFirstChild_def setter_defs tree_abs_orphan_next tree_abs_parent
        split: option.splits if_splits\<close>)

text \<open>Unlinking takes the node, with everything below it, out of its parent's list.\<close>

lemma links_remove:
  assumes "links nx p (as @ x # bs) None"
  shows "links (nx(x := None)) (if as = [] then nx x else p) bs None \<or> as \<noteq> []"
    and "as \<noteq> [] \<Longrightarrow> links (nx(last as := nx x, x := None)) p (as @ bs) None"
proof -
  have d: "distinct (as @ x # bs)" using assms by (rule links_distinct)
  show "links (nx(x := None)) (if as = [] then nx x else p) bs None \<or> as \<noteq> []"
    using assms d by (auto simp: links_frame)
  assume "as \<noteq> []"
  then obtain cs a where as: "as = cs @ [a]" by (metis rev_exhaust)
  with assms d show "links (nx(last as := nx x, x := None)) p (as @ bs) None"
    by (auto simp: links_frame)
qed

lemma unlink_abs:
  assumes abs: "tree_abs h F" and par: "parent_node h x = Some n"
  shows "\<exists>h'. unlink h x = Some h' \<and> tree_abs h' (F(n := remove1 x (F n))) \<and>
    parent_node h' = (parent_node h)(x := None)"
proof -
  have x: "x \<in> set (F n)" using abs par by (simp add: tree_abs_parent)
  then obtain as bs where F: "F n = as @ x # bs" "x \<notin> set as" by (meson split_at)
  have l: "links (next_sibling h) (first_child h n) (as @ x # bs) None"
    using tree_abs_links [OF abs, of n] F by simp
  have rem: "remove1 x (F n) = as @ bs" using F by (simp add: remove1_append)
  have x': "x \<notin> set (as @ bs)" using links_distinct [OF l] by auto
  have prev: "getPrevSibling h x = Some (if as = [] then None else Some (last as))"
    using getPrevSibling_abs [OF abs par] F left_of_split [of x as bs] by simp
  let ?h1 = "if as = [] then setFirstChild n (next_sibling h x) h
    else setNextSibling (last as) (next_sibling h x) h"
  let ?h = "setParentNode x None (setNextSibling x None ?h1)"
  have "unlink h x = Some ?h" using prev par by (simp add: unlink_def)
  moreover have "tree_abs ?h (F(n := remove1 x (F n)))"
  proof (rule tree_absI)
    fix m
    show "links (next_sibling ?h) (first_child ?h m) ((F(n := remove1 x (F n))) m) None"
    proof (cases "m = n")
      case True
      with links_remove [OF l] l rem show ?thesis by (auto simp: setter_defs)
    next
      case False
      have "x \<notin> set (F m)" using tree_abs_other [OF abs x False] .
      moreover have "as \<noteq> [] \<Longrightarrow> last as \<notin> set (F m)"
        using tree_abs_other [OF abs, of "last as" n m] F False by simp
      ultimately show ?thesis using False abs by (simp add: setter_defs links_frame tree_abs_links)
    qed
  next
    fix m d
    show "d \<in> set ((F(n := remove1 x (F n))) m) \<longleftrightarrow> parent_node ?h d = Some m"
      using abs par tree_abs_distinct [OF abs, of n] by (auto simp: setter_defs tree_abs_parent)
  next
    fix d
    have "as \<noteq> [] \<Longrightarrow> parent_node h (last as) = Some n"
      using abs F by (metis in_set_conv_decomp last_in_set tree_abs_parent append_Cons append_assoc)
    then show "parent_node ?h d = None \<Longrightarrow> next_sibling ?h d = None"
      using abs by (auto simp: setter_defs tree_abs_orphan_next split: if_splits)
  qed
  moreover have "parent_node ?h = (parent_node h)(x := None)" by (simp add: setter_defs)
  ultimately show ?thesis by blast
qed

text \<open>\<open>unlinkNode\<close> removes only the node: its children take its place.\<close>

lemma reparent_links:
  "links (next_sibling h) (Some c) (c # xs) None \<Longrightarrow>
     reparent par (Some (last (c # xs))) nx (Some c) h =
       Some (h\<lparr>parent_node := (\<lambda>d. if d \<in> set (c # xs) then Some par else parent_node h d),
               next_sibling := (next_sibling h)(last (c # xs) := nx)\<rparr>)"
proof (induction xs arbitrary: c h)
  case Nil
  then show ?case
    by (subst reparent.simps) (auto simp: setter_defs fun_eq_iff Let_def intro!: lcrs.equality)
next
  case (Cons y ys)
  let ?h = "setParentNode c (Some par) h"
  have "c \<noteq> last (y # ys)"
    using links_distinct [OF Cons.prems] by (metis distinct.simps(2) last_in_set list.discI)
  moreover have "links (next_sibling ?h) (Some y) (y # ys) None"
    using Cons.prems by (simp add: setter_defs)
  ultimately show ?case
    using Cons.prems Cons.IH [of ?h y]
    by (subst reparent.simps) (auto simp: setter_defs fun_eq_iff intro!: lcrs.equality)
qed

lemma links_splice:
  assumes l: "links nx p (as @ x # bs) None" and k: "links nx q cs None" and ne: "cs \<noteq> []"
    and disj: "set cs \<inter> set (as @ x # bs) = {}"
  shows "as \<noteq> [] \<Longrightarrow> links (nx(last as := q, last cs := nx x, x := None)) p (as @ cs @ bs) None"
    and "links (nx(last cs := nx x, x := None)) q (cs @ bs) None"
proof -
  obtain ds z where cs: "cs = ds @ [z]" using ne by (metis rev_exhaust)
  have d: "distinct (as @ x # bs)" and d': "distinct cs" using l k by (blast dest: links_distinct)+
  show "links (nx(last cs := nx x, x := None)) q (cs @ bs) None"
    using l k d d' disj cs by (auto simp: links_frame)
  assume "as \<noteq> []"
  then obtain es a where as: "as = es @ [a]" by (metis rev_exhaust)
  show "links (nx(last as := q, last cs := nx x, x := None)) p (as @ cs @ bs) None"
    using l k d d' disj cs as by (auto simp: links_frame)
qed

lemma unlinkNode_eq:
  assumes abs: "tree_abs h F" and par: "parent_node h x = Some n"
    and F: "F n = as @ x # bs" "x \<notin> set as" and ne: "F x \<noteq> []" and neq: "x \<noteq> n"
  shows "unlinkNode h x = Some (h\<lparr>
     parent_node := (\<lambda>d. if d \<in> set (F x) then Some n else parent_node h d)(x := None),
     first_child := (if as = [] then (first_child h)(n := first_child h x) else first_child h)(x := None),
     next_sibling := (if as = [] then next_sibling h else (next_sibling h)(last as := first_child h x))
        (last (F x) := next_sibling h x, x := None)\<rparr>)"
proof -
  obtain c cs where Fx: "F x = c # cs" using ne by (cases "F x") auto
  have fc: "first_child h x = Some c" using abs Fx by (simp add: tree_abs_first)
  have prev: "getPrevSibling h x = Some (if as = [] then None else Some (last as))"
    using getPrevSibling_abs [OF abs par] F left_of_split [of x as bs] by simp
  have lc: "getLastChild h x = Some (Some (last (c # cs)))"
    using getLastChild_abs [OF abs, of x] Fx by simp
  let ?h1 = "if as = [] then setFirstChild n (Some c) h else setNextSibling (last as) (Some c) h"
  have "as \<noteq> [] \<Longrightarrow> last as \<notin> set (c # cs)"
    using tree_abs_other [OF abs, of "last as" n x] F Fx neq by simp
  then have "links (next_sibling ?h1) (Some c) (c # cs) None"
    using tree_abs_links [OF abs, of x] Fx fc by (auto simp: setter_defs links_frame)
  from reparent_links [OF this] prev lc par fc Fx show ?thesis
    by (auto simp: unlinkNode_def setter_defs fun_eq_iff Let_def intro!: lcrs.equality)
qed

text \<open>The list with the element replaced by others.\<close>

definition splice_at :: "'a \<Rightarrow> 'a list \<Rightarrow> 'a list \<Rightarrow> 'a list" where
  "splice_at x cs xs = takeWhile (\<lambda>y. y \<noteq> x) xs @ cs @ tl (dropWhile (\<lambda>y. y \<noteq> x) xs)"

lemma dropWhile_until: "x \<notin> set as \<Longrightarrow> dropWhile (\<lambda>y. y \<noteq> x) (as @ x # bs) = x # bs"
  by (induction as) auto

lemma splice_at_split: "x \<notin> set as \<Longrightarrow> splice_at x cs (as @ x # bs) = as @ cs @ bs"
  by (simp add: splice_at_def takeWhile_until dropWhile_until)

text \<open>C15: \<open>unlinkNode\<close> refines the removal of one child from a child list: its own children
  take its place in order, and it keeps none.\<close>

theorem unlinkNode_abs:
  assumes abs: "tree_abs h F" and par: "parent_node h x = Some n"
    and neq: "x \<noteq> n"
  shows "\<exists>h'. unlinkNode h x = Some h' \<and> tree_abs h' (F(n := splice_at x (F x) (F n), x := []))"
proof -
  have x: "x \<in> set (F n)" using abs par by (simp add: tree_abs_parent)
  then obtain as bs where F: "F n = as @ x # bs" "x \<notin> set as" by (meson split_at)
  have l: "links (next_sibling h) (first_child h n) (as @ x # bs) None"
    using tree_abs_links [OF abs, of n] F by simp
  have dist: "distinct (as @ x # bs)" using l by (rule links_distinct)
  have spl: "splice_at x (F x) (F n) = as @ F x @ bs" using F by (simp add: splice_at_split)
  have prev: "getPrevSibling h x = Some (if as = [] then None else Some (last as))"
    using getPrevSibling_abs [OF abs par] F left_of_split [of x as bs] by simp
  have xx: "x \<notin> set (F x)" using tree_abs_other [OF abs x neq] .
  have k: "links (next_sibling h) (first_child h x) (F x) None" using abs by (rule tree_abs_links)
  have disj: "set (F x) \<inter> set (as @ x # bs) = {}"
    using abs neq F(1) by (metis disjoint_iff tree_abs_other)
  have other: "\<And>m y. m \<noteq> n \<Longrightarrow> y \<in> set (F n) \<Longrightarrow> y \<notin> set (F m)"
    "\<And>m y. m \<noteq> x \<Longrightarrow> y \<in> set (F x) \<Longrightarrow> y \<notin> set (F m)"
    using tree_abs_other [OF abs] by blast+
  have memn: "\<And>d. d = x \<or> d \<in> set as \<or> d \<in> set bs \<longleftrightarrow> parent_node h d = Some n"
    using tree_abs_parent [OF abs, of _ n] F by auto
  have la: "as \<noteq> [] \<Longrightarrow> last as \<in> set (F n) \<and> last as \<noteq> x" using F dist by auto
  show ?thesis
  proof (cases "F x = []")
    case True
    then have fc: "first_child h x = None" using tree_abs_leaf [OF abs, of x] by simp
    obtain h' where h': "unlink h x = Some h'" "tree_abs h' (F(n := remove1 x (F n)))"
      using unlink_abs [OF abs par] by blast
    have fc': "first_child h' x = None"
      using tree_abs_leaf [OF h'(2), of x] True neq by simp
    have "unlinkNode h x = Some h'"
      using h'(1) fc prev par fc' getLastChild_abs [OF abs, of x] True neq
      by (auto simp: unlinkNode_def unlink_def setter_defs fun_upd_idem_iff fun_eq_iff
            intro!: lcrs.equality split: if_splits)
    moreover have "F(n := remove1 x (F n)) = F(n := splice_at x (F x) (F n), x := [])"
      using True spl F neq by (auto simp: fun_eq_iff remove1_append)
    ultimately show ?thesis using h'(2) by metis
  next
    case False
    note eq = unlinkNode_eq [OF abs par F False neq]
    let ?h = "the (unlinkNode h x)"
    have par_sel: "parent_node ?h d =
        (if d = x then None else if d \<in> set (F x) then Some n else parent_node h d)" for d
      by (simp add: eq)
    have next_sel: "next_sibling ?h d = (if d = x then None else if d = last (F x) then next_sibling h x
        else if as \<noteq> [] \<and> d = last as then first_child h x else next_sibling h d)" for d
      by (simp add: eq)
    have "tree_abs ?h (F(n := splice_at x (F x) (F n), x := []))"
    proof (rule tree_absI)
      fix m
      show "links (next_sibling ?h) (first_child ?h m)
          ((F(n := splice_at x (F x) (F n), x := [])) m) None"
      proof (cases "m = n \<or> m = x")
        case True
        with eq spl neq F dist disj links_splice [OF l k False disj] l show ?thesis
          by (auto simp: links_frame)
      next
        case m: False
        have "last (F x) \<notin> set (F m)" "x \<notin> set (F m)" "as \<noteq> [] \<Longrightarrow> last as \<notin> set (F m)"
          using other m False x la by auto
        with m eq abs show ?thesis by (simp add: links_frame tree_abs_links)
      qed
    next
      fix m d
      show "d \<in> set ((F(n := splice_at x (F x) (F n), x := [])) m) \<longleftrightarrow> parent_node ?h d = Some m"
        using eq spl neq F dist xx memn par by (auto simp: tree_abs_parent [OF abs])
    next
      fix d
      assume d: "parent_node ?h d = None"
      show "next_sibling ?h d = None"
      proof (cases "d = x")
        case True
        then show ?thesis by (simp add: next_sel)
      next
        case neq_x: False
        with d have d': "d \<notin> set (F x)" "parent_node h d = None"
          by (simp_all add: par_sel split: if_splits)
        then have "d \<noteq> last (F x)" "\<not> (as \<noteq> [] \<and> d = last as)"
          using False la memn [of d] by auto
        with neq_x show ?thesis
          by (auto simp: next_sel tree_abs_orphan_next [OF abs d'(2)])
      qed
    qed
    then show ?thesis by (simp add: eq)
  qed
qed

section \<open>The walks visit the represented tree in the promised order\<close>

datatype rtree = RNode (node: ptr) (subtrees: "rtree list")

text \<open>\<open>forest_rep h p ts\<close>: the node \<open>p\<close> and its right siblings are the roots of \<open>ts\<close>.\<close>

fun forest_rep :: "'a lcrs_scheme \<Rightarrow> ptr option \<Rightarrow> rtree list \<Rightarrow> bool" where
  "forest_rep h p [] \<longleftrightarrow> p = None"
| "forest_rep h p (RNode c cs # ts) \<longleftrightarrow>
     p = Some c \<and> forest_rep h (first_child h c) cs \<and> forest_rep h (next_sibling h c) ts"

text \<open>The tree below a node, whatever the node's own siblings are.\<close>

definition tree_rep :: "'a lcrs_scheme \<Rightarrow> ptr \<Rightarrow> rtree \<Rightarrow> bool" where
  "tree_rep h n t \<longleftrightarrow> node t = n \<and> forest_rep h (first_child h n) (subtrees t)"

fun preorder :: "rtree list \<Rightarrow> ptr list" where
  "preorder [] = []"
| "preorder (RNode c cs # ts) = c # preorder cs @ preorder ts"

fun postorder :: "rtree list \<Rightarrow> ptr list" where
  "postorder [] = []"
| "postorder (RNode c cs # ts) = postorder cs @ c # postorder ts"

fun at_depth :: "nat \<Rightarrow> rtree list \<Rightarrow> ptr list" where
  "at_depth 0 ts = map node ts"
| "at_depth (Suc k) ts = at_depth k (concat (map subtrees ts))"

fun height :: "rtree list \<Rightarrow> nat" where
  "height [] = 0"
| "height (RNode c cs # ts) = max (Suc (height cs)) (height ts)"

lemma pre_loop_rep: "forest_rep h p ts \<Longrightarrow> pre_loop h p = Some (preorder ts)"
  by (induction h p ts rule: forest_rep.induct) (simp_all add: pre_loop.simps)

lemma post_loop_rep: "forest_rep h p ts \<Longrightarrow> post_loop h p = Some (postorder ts)"
  by (induction h p ts rule: forest_rep.induct) (simp_all add: post_loop.simps)

lemma preOrderWalk_rep: "tree_rep h n t \<Longrightarrow> preOrderWalk h n = Some (preorder [t])"
  by (cases t) (auto simp: tree_rep_def preOrderWalk_def pre_loop_rep)

lemma postOrderWalk_rep: "tree_rep h n t \<Longrightarrow> postOrderWalk h n = Some (postorder [t])"
  by (cases t) (auto simp: tree_rep_def postOrderWalk_def post_loop_rep)

lemma set_postorder: "set (postorder ts) = set (preorder ts)"
  by (induction ts rule: preorder.induct) auto

lemma siblings_from_rep: "forest_rep h p ts \<Longrightarrow> siblings_from h p = Some (map node ts)"
  by (induction h p ts rule: forest_rep.induct) (simp_all add: siblings_from.simps)

text \<open>A guided walk whose action answers with the next sibling is the plain walk.\<close>

lemma pre_guided_loop_rep:
  assumes sib: "\<And>c d. next_sibling h c = Some d \<Longrightarrow> parent_node h c = parent_node h d"
  shows "forest_rep h p ts \<Longrightarrow> pre_guided_loop h (next_sibling h) p = Some (preorder ts)"
proof (induction ts arbitrary: p rule: preorder.induct)
  case (2 c cs ts)
  have "true_sibling h c (next_sibling h c)"
    using sib by (auto simp: true_sibling_def split: option.splits)
  with 2 show ?case by (subst pre_guided_loop.simps) (simp add: Let_def)
qed (simp add: pre_guided_loop.simps)

lemma post_guided_loop_rep:
  assumes sib: "\<And>c d. next_sibling h c = Some d \<Longrightarrow> parent_node h c = parent_node h d"
  shows "forest_rep h p ts \<Longrightarrow> post_guided_loop h (next_sibling h) p = Some (postorder ts)"
proof (induction ts arbitrary: p rule: preorder.induct)
  case (2 c cs ts)
  have "true_sibling h c (next_sibling h c)"
    using sib by (auto simp: true_sibling_def split: option.splits)
  with 2 show ?case by (subst post_guided_loop.simps) (simp add: Let_def)
qed (simp add: post_guided_loop.simps)

text \<open>Breadth first: the nodes of depth 0, then of depth 1, and so on.\<close>

fun forest_bfs :: "rtree list \<Rightarrow> ptr list" where
  "forest_bfs [] = []"
| "forest_bfs (RNode c cs # ts) = c # forest_bfs (ts @ cs)"

lemma forest_bfs_level:
  "forest_bfs (as @ bs) = map node as @ forest_bfs (bs @ concat (map subtrees as))"
proof (induction as arbitrary: bs)
  case (Cons a as)
  show ?case using Cons.IH [of "bs @ subtrees a"] by (cases a) simp
qed simp

lemma height_subtrees: "ts \<noteq> [] \<Longrightarrow> height ts = Suc (height (concat (map subtrees ts)))"
proof -
  have app: "height (as @ bs) = max (height as) (height bs)" for as bs
    by (induction as rule: height.induct) auto
  show "ts \<noteq> [] \<Longrightarrow> height ts = Suc (height (concat (map subtrees ts)))"
  proof (induction ts)
    case (Cons t ts)
    then show ?case by (cases t; cases ts) (auto simp: app)
  qed simp
qed

lemma forest_bfs_levels:
  "forest_bfs ts = concat (map (\<lambda>k. at_depth k ts) [0..<height ts])"
proof (induction "height ts" arbitrary: ts)
  case 0
  then show ?case using height_subtrees [of ts] by (cases ts) simp_all
next
  case (Suc n)
  then have ne: "ts \<noteq> []" by auto
  let ?us = "concat (map subtrees ts)"
  have h: "height ts = Suc (height ?us)" using height_subtrees [OF ne] .
  have "forest_bfs ts = map node ts @ forest_bfs ?us" using forest_bfs_level [of ts "[]"] by simp
  also have "forest_bfs ?us = concat (map (\<lambda>k. at_depth k ?us) [0..<height ?us])"
    using Suc.hyps h by auto
  also have "\<dots> = concat (map (\<lambda>k. at_depth k ts) (map Suc [0..<height ?us]))"
    by (simp add: comp_def)
  finally show ?case using h by (simp add: map_Suc_upt upt_conv_Cons del: upt_Suc)
qed

lemma forest_rep_tree_rep: "forest_rep h p us \<Longrightarrow> t \<in> set us \<Longrightarrow> tree_rep h (node t) t"
  by (induction h p us rule: forest_rep.induct) (auto simp: tree_rep_def)

lemma bfs_loop_rep:
  "\<forall>t \<in> set ts. tree_rep h (node t) t \<Longrightarrow> bfs_loop h (map node ts) = Some (forest_bfs ts)"
proof (induction ts rule: forest_bfs.induct)
  case (2 c cs ts)
  then have c: "forest_rep h (first_child h c) cs" by (simp add: tree_rep_def)
  with "2.prems" have "\<forall>t \<in> set (ts @ cs). tree_rep h (node t) t"
    by (auto dest: forest_rep_tree_rep)
  with "2.IH" c show ?case by (subst bfs_loop.simps) (simp add: siblings_from_rep)
qed (simp add: bfs_loop.simps)

lemma breadthFirstWalk_rep:
  assumes "tree_rep h n t"
  shows "breadthFirstWalk h n = Some (concat (map (\<lambda>k. at_depth k [t]) [0..<height [t]]))"
proof -
  have "node t = n" using assms by (simp add: tree_rep_def)
  with bfs_loop_rep [of "[t]" h] assms show ?thesis
    by (simp add: breadthFirstWalk_def forest_bfs_levels)
qed

text \<open>Bottom up: the same levels from the deepest one, each right to left or left to right.\<close>

lemma reverse_bfs_loop_rep:
  "\<forall>t \<in> set ts. tree_rep h (node t) t \<Longrightarrow>
     reverse_bfs_loop h False (map node ts) acc = Some (acc @ forest_bfs ts)"
proof (induction ts arbitrary: acc rule: forest_bfs.induct)
  case (2 c cs ts)
  then have c: "forest_rep h (first_child h c) cs" by (simp add: tree_rep_def)
  with "2.prems" have "\<forall>t \<in> set (ts @ cs). tree_rep h (node t) t"
    by (auto dest: forest_rep_tree_rep)
  with "2.IH" c show ?case by (subst reverse_bfs_loop.simps) (simp add: siblings_from_rep)
qed (simp add: reverse_bfs_loop.simps)

fun forest_bfs_rev :: "rtree list \<Rightarrow> ptr list" where
  "forest_bfs_rev [] = []"
| "forest_bfs_rev (RNode c cs # ts) = c # forest_bfs_rev (ts @ rev cs)"

lemma keep_order_loop_rep:
  "\<forall>t \<in> set ts. tree_rep h (node t) t \<Longrightarrow>
     reverse_bfs_loop h True (map node ts) acc = Some (acc @ forest_bfs_rev ts)"
proof (induction ts arbitrary: acc rule: forest_bfs_rev.induct)
  case (2 c cs ts)
  then have c: "forest_rep h (first_child h c) cs" by (simp add: tree_rep_def)
  with "2.prems" have "\<forall>t \<in> set (ts @ rev cs). tree_rep h (node t) t"
    by (auto dest: forest_rep_tree_rep)
  with "2.IH" c show ?case
    by (subst reverse_bfs_loop.simps) (simp add: siblings_from_rep rev_map)
qed (simp add: reverse_bfs_loop.simps)

lemma forest_bfs_rev_level:
  "forest_bfs_rev (as @ bs) =
     map node as @ forest_bfs_rev (bs @ concat (map (\<lambda>t. rev (subtrees t)) as))"
proof (induction as arbitrary: bs)
  case (Cons a as)
  show ?case using Cons.IH [of "bs @ rev (subtrees a)"] by (cases a) simp
qed simp

lemma concat_rev_subtrees:
  "concat (map (\<lambda>t. rev (subtrees t)) (rev ts)) = rev (concat (map subtrees ts))"
  by (induction ts) auto

lemma forest_bfs_rev_levels:
  "forest_bfs_rev (rev ts) = concat (map (\<lambda>k. rev (at_depth k ts)) [0..<height ts])"
proof (induction "height ts" arbitrary: ts)
  case 0
  then show ?case using height_subtrees [of ts] by (cases ts) simp_all
next
  case (Suc n)
  then have ne: "ts \<noteq> []" by auto
  let ?us = "concat (map subtrees ts)"
  have h: "height ts = Suc (height ?us)" using height_subtrees [OF ne] .
  have "forest_bfs_rev (rev ts) = map node (rev ts) @ forest_bfs_rev (rev ?us)"
    using forest_bfs_rev_level [of "rev ts" "[]"] by (simp add: concat_rev_subtrees)
  also have "forest_bfs_rev (rev ?us) = concat (map (\<lambda>k. rev (at_depth k ?us)) [0..<height ?us])"
    using Suc.hyps h by auto
  also have "\<dots> = concat (map (\<lambda>k. rev (at_depth k ts)) (map Suc [0..<height ?us]))"
    by (simp add: comp_def)
  finally show ?case using h by (simp add: map_Suc_upt upt_conv_Cons rev_map del: upt_Suc)
qed

lemma reverseBreadthFirstWalk_rep:
  assumes "tree_rep h n t"
  shows "reverseBreadthFirstWalk h n False =
      Some (concat (map (\<lambda>k. rev (at_depth k [t])) (rev [0..<height [t]])))"
    and "reverseBreadthFirstWalk h n True =
      Some (concat (map (\<lambda>k. at_depth k [t]) (rev [0..<height [t]])))"
proof -
  have n: "node t = n" using assms by (simp add: tree_rep_def)
  show "reverseBreadthFirstWalk h n False =
      Some (concat (map (\<lambda>k. rev (at_depth k [t])) (rev [0..<height [t]])))"
    using reverse_bfs_loop_rep [of "[t]" h "[]"] assms n
    by (simp add: reverseBreadthFirstWalk_def forest_bfs_levels rev_concat rev_map comp_def)
  show "reverseBreadthFirstWalk h n True =
      Some (concat (map (\<lambda>k. at_depth k [t]) (rev [0..<height [t]])))"
    using keep_order_loop_rep [of "[t]" h "[]"] forest_bfs_rev_levels [of "[t]"] assms n
    by (simp add: reverseBreadthFirstWalk_def rev_concat rev_map comp_def)
qed

section \<open>Deleting a subtree\<close>

lemma delete_nodes_result:
  "delete_nodes ns h =
     (if distinct ns \<and> (\<forall>n\<in>set ns. allocated h n)
      then Some (h\<lparr>allocated := (\<lambda>n. allocated h n \<and> n \<notin> set ns)\<rparr>) else None)"
proof (induction ns arbitrary: h)
  case (Cons n ns)
  have "(\<lambda>m. ((allocated h)(n := False)) m \<and> m \<notin> set ns) = (\<lambda>m. allocated h m \<and> m \<notin> set (n # ns))" by auto
  then show ?case using Cons.IH [of "h\<lparr>allocated := (allocated h)(n := False)\<rparr>"] by auto
qed simp

lemma distinct_postorder: "distinct (postorder ts) \<longleftrightarrow> distinct (preorder ts)"
  by (induction ts rule: preorder.induct) (auto simp: set_postorder)

text \<open>
  \<open>clear\<close> deletes the nodes of the tree and no other node, each of them once; it is defined exactly
  on the trees whose nodes are different and still allocated.
\<close>

lemma clear_rep:
  assumes "tree_rep h r t"
  shows "clear h (Some r) =
    (if distinct (preorder [t]) \<and> (\<forall>n\<in>set (preorder [t]). allocated h n)
     then Some (h\<lparr>allocated := (\<lambda>n. allocated h n \<and> n \<notin> set (preorder [t]))\<rparr>, None) else None)"
proof (cases "first_child h r")
  case None
  with assms have "t = RNode r []"
    by (cases t; cases "subtrees t" rule: preorder.cases) (auto simp: tree_rep_def)
  with None show ?thesis by (simp add: clear_def delete_nodes_result del: delete_nodes.simps)
next
  case (Some c)
  with Some show ?thesis
    using postOrderWalk_rep [OF assms]
    by (simp add: clear_def delete_nodes_result set_postorder distinct_postorder del: preorder.simps postorder.simps delete_nodes.simps)
qed

text \<open>The nodes of a tree whose links are consistent are different.\<close>

definition child_rel :: "(ptr \<Rightarrow> ptr list) \<Rightarrow> (ptr \<times> ptr) set" where
  "child_rel F = {(n, c). c \<in> set (F n)}"

lemma forest_rep_links: "forest_rep h p ts \<Longrightarrow> links (next_sibling h) p (map node ts) None"
  by (induction h p ts rule: forest_rep.induct) simp_all

lemma forest_rep_children:
  "tree_abs h F \<Longrightarrow> forest_rep h (first_child h n) ts \<Longrightarrow> F n = map node ts"
  by (blast intro: links_unique dest: tree_abs_links forest_rep_links)

lemma forest_rep_unique: "forest_rep h p ts \<Longrightarrow> forest_rep h p us \<Longrightarrow> ts = us"
proof (induction h p ts arbitrary: us rule: forest_rep.induct)
  case (1 h p)
  then show ?case by (cases us rule: preorder.cases) simp_all
next
  case (2 h p c cs ts)
  then show ?case by (cases us rule: preorder.cases) auto
qed

lemma subtree_below:
  assumes "tree_abs h F" and "tree_rep h n t" and "(n, m) \<in> (child_rel F)\<^sup>+"
  shows "\<exists>s. tree_rep h m s \<and> size s < size t"
  using assms(3)
proof induction
  case (base m)
  have f: "forest_rep h (first_child h n) (subtrees t)" using assms(2) by (simp add: tree_rep_def)
  have "m \<in> node ` set (subtrees t)" using base forest_rep_children [OF assms(1) f] by (simp add: child_rel_def)
  then obtain s where s: "s \<in> set (subtrees t)" "node s = m" by blast
  have "size s < size t" using size_list_estimation' [OF s(1), of "size s" size] by (cases t) simp
  then show ?case using forest_rep_tree_rep [OF f] s by blast
next
  case (step k m)
  then obtain s where s: "tree_rep h k s" "size s < size t" by blast
  then have f: "forest_rep h (first_child h k) (subtrees s)" by (simp add: tree_rep_def)
  have "m \<in> node ` set (subtrees s)" using step(2) forest_rep_children [OF assms(1) f] by (simp add: child_rel_def)
  then obtain u where u: "u \<in> set (subtrees s)" "node u = m" by blast
  have "size u < size s" using size_list_estimation' [OF u(1), of "size u" size] by (cases s) simp
  then show ?case using forest_rep_tree_rep [OF f] u s(2) by fastforce
qed

lemma no_cycle_below:
  assumes "tree_abs h F" and "tree_rep h n t"
  shows "(n, n) \<notin> (child_rel F)\<^sup>+"
proof
  assume "(n, n) \<in> (child_rel F)\<^sup>+"
  then obtain s where s: "tree_rep h n s" "size s < size t" using subtree_below [OF assms] by blast
  then have "subtrees s = subtrees t" "node s = node t"
    using assms(2) forest_rep_unique by (auto simp: tree_rep_def)
  then show False using s(2) by (cases s; cases t) simp
qed

lemma preorder_reach:
  assumes "tree_abs h F" and "forest_rep h p ts" and "x \<in> set (preorder ts)"
  shows "\<exists>t\<in>set ts. (node t, x) \<in> (child_rel F)\<^sup>*"
  using assms
proof (induction h p ts rule: forest_rep.induct)
  case (2 h p c cs ts)
  consider "x = c" | "x \<in> set (preorder cs)" | "x \<in> set (preorder ts)" using 2(5) by auto
  then show ?case
  proof cases
    case 1 then show ?thesis by simp
  next
    case below: 2
    have f: "forest_rep h (first_child h c) cs" using 2(4) by simp
    obtain t where t: "t \<in> set cs" "(node t, x) \<in> (child_rel F)\<^sup>*" using 2(1) [OF 2(3) f below] by blast
    then have "(c, node t) \<in> child_rel F" using forest_rep_children [OF 2(3) f] by (simp add: child_rel_def)
    then show ?thesis using t(2) by (simp add: converse_rtrancl_into_rtrancl)
  next
    case 3
    then show ?thesis using 2(2) [OF 2(3)] 2(4) by auto
  qed
qed simp

lemma siblings_apart:
  assumes abs: "tree_abs h F" and ab: "a \<in> set (F n)" "b \<in> set (F n)" "tree_rep h a s" "tree_rep h b t"
    and x: "(a, x) \<in> (child_rel F)\<^sup>*" "(b, x) \<in> (child_rel F)\<^sup>*"
  shows "a = b"
proof (rule ccontr)
  assume ne: "a \<noteq> b"
  have sv: "single_valued ((child_rel F)\<inverse>)"
    by (rule single_valuedI) (auto simp: child_rel_def tree_abs_parent [OF abs])
  have up: "(n, a) \<in> child_rel F" "(n, b) \<in> child_rel F" using ab(1,2) by (simp_all add: child_rel_def)
  have cyc: False if cd: "(c, d) \<in> (child_rel F)\<^sup>*" "c \<noteq> d" "(n, c) \<in> child_rel F" "(n, d) \<in> child_rel F" "tree_rep h c u" for c d u
  proof -
    obtain k where k: "(c, k) \<in> (child_rel F)\<^sup>*" "(k, d) \<in> child_rel F" using cd(1,2) by (meson rtranclE)
    then have "k = n" using single_valuedD [OF sv] cd(4) by simp
    then have "(c, c) \<in> (child_rel F)\<^sup>+" using k(1) cd(3) by simp
    then show False using no_cycle_below [OF abs cd(5)] by blast
  qed
  have "(x, a) \<in> ((child_rel F)\<inverse>)\<^sup>*" "(x, b) \<in> ((child_rel F)\<inverse>)\<^sup>*" using x by (simp_all add: rtrancl_converse)
  then have "(a, b) \<in> ((child_rel F)\<inverse>)\<^sup>* \<or> (b, a) \<in> ((child_rel F)\<inverse>)\<^sup>*" using single_valued_confluent [OF sv] by blast
  then have "(b, a) \<in> (child_rel F)\<^sup>* \<or> (a, b) \<in> (child_rel F)\<^sup>*" by (simp add: rtrancl_converse)
  then show False using cyc [of a b s] cyc [of b a t] ne up ab(3,4) by blast
qed

lemma forest_rep_distinct:
  assumes abs: "tree_abs h F" and "forest_rep h p ts" and "set (map node ts) \<subseteq> set (F n)" and "distinct (map node ts)"
  shows "distinct (preorder ts)"
  using assms
proof (induction h p ts arbitrary: n rule: forest_rep.induct)
  case (2 h p c cs ts)
  have f: "forest_rep h (first_child h c) cs" "forest_rep h (next_sibling h c) ts" using 2(4) by simp_all
  have c: "tree_rep h c (RNode c cs)" using f(1) by (simp add: tree_rep_def)
  have kids: "F c = map node cs" by (rule forest_rep_children [OF 2(3) f(1)])
  have d1: "distinct (preorder cs)" using 2(1) [OF 2(3) f(1), of c] kids tree_abs_distinct [OF 2(3), of c] by simp
  have d2: "distinct (preorder ts)" using 2(2) [OF 2(3) f(2), of n] 2(5,6) by simp
  have below: "(c, x) \<in> (child_rel F)\<^sup>+" if x: "x \<in> set (preorder cs)" for x
  proof -
    obtain t where t: "t \<in> set cs" "(node t, x) \<in> (child_rel F)\<^sup>*" using preorder_reach [OF 2(3) f(1) x] by blast
    then have "(c, node t) \<in> child_rel F" using kids by (simp add: child_rel_def)
    then show ?thesis using t(2) by (rule rtrancl_into_trancl2)
  qed
  have "c \<notin> set (preorder cs)" using below no_cycle_below [OF 2(3) c] by blast
  moreover have "x \<notin> set (preorder ts)" if x: "(c, x) \<in> (child_rel F)\<^sup>*" for x
  proof
    assume "x \<in> set (preorder ts)"
    then obtain t where t: "t \<in> set ts" "(node t, x) \<in> (child_rel F)\<^sup>*" using preorder_reach [OF 2(3) f(2)] by blast
    have "c = node t"
      by (rule siblings_apart [OF 2(3) _ _ c forest_rep_tree_rep [OF f(2) t(1)] x t(2)]) (use 2(5) t(1) in auto)
    then show False using 2(6) t(1) by auto
  qed
  ultimately show ?case using d1 d2 below by (auto dest: trancl_into_rtrancl)
qed simp

lemma tree_rep_distinct:
  assumes "tree_abs h F" and "tree_rep h r t"
  shows "distinct (preorder [t])"
proof -
  obtain cs where t: "t = RNode r cs" using assms(2) by (cases t) (simp add: tree_rep_def)
  have f: "forest_rep h (first_child h r) cs" using assms(2) by (simp add: tree_rep_def t)
  have kids: "F r = map node cs" by (rule forest_rep_children [OF assms(1) f])
  have "distinct (preorder cs)" using forest_rep_distinct [OF assms(1) f, of r] kids tree_abs_distinct [OF assms(1), of r] by simp
  moreover have "r \<notin> set (preorder cs)"
  proof
    assume "r \<in> set (preorder cs)"
    then obtain s where s: "s \<in> set cs" "(node s, r) \<in> (child_rel F)\<^sup>*" using preorder_reach [OF assms(1) f] by blast
    then have "(r, node s) \<in> child_rel F" using kids by (simp add: child_rel_def)
    then show False using no_cycle_below [OF assms] s(2) by (meson rtrancl_into_trancl2)
  qed
  ultimately show ?thesis by (simp add: t)
qed

text \<open>
  Removing the root: \<open>clear()\<close> has deleted it when \<open>start->unlink()\<close> reads it, so the call
  does not return normally, on any store that represents a tree.
\<close>

lemma clear_from_root:
  assumes "tree_rep h r t"
  shows "clear_from h (Some r) r = None"
  using clear_rep [OF assms] assms by (cases t) (auto simp: tree_rep_def clear_from_def)

section \<open>Only the links change\<close>

text \<open>The manipulating operations leave the fields of derived classes and the allocation alone.\<close>

definition same_rest :: "'a lcrs_scheme \<Rightarrow> 'a lcrs_scheme \<Rightarrow> bool" where
  "same_rest h h' \<longleftrightarrow> lcrs.more h' = lcrs.more h \<and> allocated h' = allocated h"

named_theorems rest_intros "operations that change only the links"

lemma same_rest_refl [simp]: "same_rest h h"
  by (simp add: same_rest_def)

lemma same_rest_trans [trans]: "same_rest h h1 \<Longrightarrow> same_rest h1 h2 \<Longrightarrow> same_rest h h2"
  by (simp add: same_rest_def)

lemma same_rest_setters [simp]:
  "same_rest h (setParentNode n p h1) \<longleftrightarrow> same_rest h h1"
  "same_rest h (setFirstChild n p h1) \<longleftrightarrow> same_rest h h1"
  "same_rest h (setNextSibling n p h1) \<longleftrightarrow> same_rest h h1"
  by (simp_all add: same_rest_def setter_defs)

lemma insertChildNode_rest [rest_intros]: "insertChildNode h n c p = Some h' \<Longrightarrow> same_rest h h'"
  by (auto simp: insertChildNode_def Let_def split: if_splits option.splits Option.bind_splits)

lemma insertAsFirstChild_rest [rest_intros]: "same_rest h (insertAsFirstChild h n c)"
  by (simp add: insertAsFirstChild_def Let_def split: option.split)

lemma unlink_rest [rest_intros]: "unlink h x = Some h' \<Longrightarrow> same_rest h h'"
  by (auto simp: unlink_def Let_def split: if_splits option.splits Option.bind_splits)

text \<open>Both ways to insert, as one update of the child list.\<close>

lemma insertChildNode_abs:
  assumes "tree_abs h F" and "parent_node h c = None" and "pos \<in> insert None (Some ` set (F n))"
  shows "\<exists>h'. insertChildNode h n c pos = Some h' \<and> same_rest h h' \<and>
    tree_abs h' (F(n := (case pos of None \<Rightarrow> F n @ [c] | Some p \<Rightarrow> insert_after p c (F n))))"
proof (cases pos)
  case None
  with insertChildNode_last_abs [OF assms(1,2), of n] show ?thesis
    by (auto intro: insertChildNode_rest)
next
  case (Some p)
  then have "parent_node h p = Some n" using assms(1,3) by (auto simp: tree_abs_parent)
  from insertChildNode_after_abs [OF assms(1,2) this] Some show ?thesis
    by (auto intro: insertChildNode_rest)
qed

section \<open>The interface that the clients of the tree rely on\<close>

text \<open>
  What the pipeline legalizer and the path-expansion planner use of the tree: children are kept
  in order without repetition, every node is a child of at most one node, a node that is
  nobody's child can be appended, and a child can be detached.
\<close>

locale child_lists =
  fixes abs :: "'h \<Rightarrow> (ptr \<Rightarrow> ptr list) \<Rightarrow> bool"
    and append_child :: "'h \<Rightarrow> ptr \<Rightarrow> ptr \<Rightarrow> 'h option"
    and detach :: "'h \<Rightarrow> ptr \<Rightarrow> 'h option"
  assumes distinct_children: "abs h F \<Longrightarrow> distinct (F n)"
    and one_parent: "abs h F \<Longrightarrow> c \<in> set (F n) \<Longrightarrow> c \<in> set (F m) \<Longrightarrow> n = m"
    and append_law: "abs h F \<Longrightarrow> (\<And>m. c \<notin> set (F m)) \<Longrightarrow>
      \<exists>h'. append_child h n c = Some h' \<and> abs h' (F(n := F n @ [c]))"
    and detach_law: "abs h F \<Longrightarrow> x \<in> set (F n) \<Longrightarrow>
      \<exists>h'. detach h x = Some h' \<and> abs h' (F(n := remove1 x (F n)))"
begin

text \<open>Moving some children of \<open>n\<close>, one by one and in order, to the end of the list of \<open>dst\<close>.\<close>

lemma move_law:
  assumes "abs h F" and "distinct xs" and "set xs \<subseteq> set (F n)" and "n \<noteq> dst"
  shows "\<exists>h'. foldM (\<lambda>x h. Option.bind (detach h x) (\<lambda>h1. append_child h1 dst x)) xs h = Some h' \<and>
    abs h' (F(n := filter (\<lambda>y. y \<notin> set xs) (F n), dst := F dst @ xs))"
  using assms
proof (induction xs arbitrary: h F)
  case Nil
  have "F(n := filter (\<lambda>y. y \<notin> set []) (F n), dst := F dst @ []) = F" by simp
  with Nil show ?case by (simp only: foldM.simps) blast
next
  case (Cons x xs)
  then have x: "x \<in> set (F n)" by simp
  obtain h1 where h1: "detach h x = Some h1" "abs h1 (F(n := remove1 x (F n)))"
    using detach_law [OF Cons.prems(1) x] by blast
  have free: "x \<notin> set ((F(n := remove1 x (F n))) m)" for m
    using one_parent [OF Cons.prems(1) x] distinct_children [OF Cons.prems(1), of n] by auto
  obtain h2 where h2: "append_child h1 dst x = Some h2"
    "abs h2 (F(n := remove1 x (F n), dst := F dst @ [x]))"
  proof -
    have "(F(n := remove1 x (F n))) dst = F dst" using Cons.prems(4) by simp
    then show ?thesis using append_law [OF h1(2) free, of dst] that by metis
  qed
  let ?F2 = "F(n := remove1 x (F n), dst := F dst @ [x])"
  have sub: "set xs \<subseteq> set (?F2 n)"
    using Cons.prems(2-4) distinct_children [OF Cons.prems(1), of n] by (auto simp: set_remove1_eq)
  obtain h3 where h3:
    "foldM (\<lambda>x h. Option.bind (detach h x) (\<lambda>h1. append_child h1 dst x)) xs h2 = Some h3"
    "abs h3 (?F2(n := filter (\<lambda>y. y \<notin> set xs) (?F2 n), dst := ?F2 dst @ xs))"
  proof -
    have "distinct xs" using Cons.prems(2) by simp
    then show ?thesis using Cons.IH [OF h2(2) _ sub Cons.prems(4)] that by blast
  qed
  have "remove1 x (F n) = filter (\<lambda>y. y \<noteq> x) (F n)"
    using distinct_children [OF Cons.prems(1), of n] by (simp add: distinct_remove1_removeAll removeAll_filter_not_eq eq_commute)
  then have fin: "?F2(n := filter (\<lambda>y. y \<notin> set xs) (?F2 n), dst := ?F2 dst @ xs) =
      F(n := filter (\<lambda>y. y \<notin> set (x # xs)) (F n), dst := F dst @ x # xs)"
    using Cons.prems(4) by (auto simp: fun_eq_iff conj_commute intro: filter_cong)
  show ?case
    by (rule exI [of _ h3]) (use h1(1) h2(1) h3(1) h3(2) [unfolded fin] in \<open>simp only: foldM.simps Option.bind.simps simp_thms\<close>)
qed

end

locale ordered_children = child_lists +
  fixes insert_at :: "'a \<Rightarrow> ptr \<Rightarrow> ptr \<Rightarrow> ptr \<Rightarrow> 'a option"
  assumes insert_law: "abs h F \<Longrightarrow> (\<And>m. c \<notin> set (F m)) \<Longrightarrow> p \<in> set (F n) \<Longrightarrow>
    \<exists>h'. insert_at h n c p = Some h' \<and> abs h' (F(n := insert_after p c (F n)))"
begin

text \<open>Placing a list of orphans one after another behind the child \<open>p\<close>.\<close>

lemma place_law:
  assumes "abs h F" and "distinct cs" and "\<And>c m. c \<in> set cs \<Longrightarrow> c \<notin> set (F m)" and "p \<in> set (F n)"
  shows "\<exists>h'. foldM (\<lambda>c (h, q). Option.bind (insert_at h n c q) (\<lambda>h1. Some (h1, c))) cs (h, p) =
      Some (h', last (p # cs)) \<and>
    abs h' (F(n := splice_at p (p # cs) (F n)))"
  using assms
proof (induction cs arbitrary: h F p)
  case Nil
  obtain as bs where F: "F n = as @ p # bs" "p \<notin> set as" using Nil.prems(4) by (meson split_at)
  then have "F(n := splice_at p [p] (F n)) = F" by (auto simp: splice_at_split fun_eq_iff)
  with Nil show ?case by simp
next
  case (Cons c cs)
  obtain h1 where h1: "insert_at h n c p = Some h1" "abs h1 (F(n := insert_after p c (F n)))"
  proof -
    have "c \<notin> set (F m)" for m using Cons.prems(3) by simp
    from insert_law [OF Cons.prems(1) this Cons.prems(4)] show ?thesis using that by blast
  qed
  let ?F1 = "F(n := insert_after p c (F n))"
  obtain as bs where F: "F n = as @ p # bs" "p \<notin> set as" using Cons.prems(4) by (meson split_at)
  have F1: "?F1 n = (as @ [p]) @ c # bs" using F by (simp add: insert_after_append)
  have c: "c \<notin> set (as @ [p])" using Cons.prems(3) [of c n] F by simp
  have *: "d \<notin> set (?F1 m)" if "d \<in> set cs" for d m
    using that Cons.prems(2) Cons.prems(3) [of d m] by (auto simp: set_insert_after [OF Cons.prems(4)])
  obtain h2 where h2:
    "foldM (\<lambda>c (h, q). Option.bind (insert_at h n c q) (\<lambda>h1. Some (h1, c))) cs (h1, c) =
       Some (h2, last (c # cs))"
    "abs h2 (?F1(n := splice_at c (c # cs) (?F1 n)))"
  proof -
    have "c \<in> set (?F1 n)" using F1 by simp
    moreover have "distinct cs" using Cons.prems(2) by simp
    ultimately show ?thesis using Cons.IH [OF h1(2) _ *] that by blast
  qed
  have fin: "?F1(n := splice_at c (c # cs) (?F1 n)) = F(n := splice_at p (p # c # cs) (F n))"
    using F F1 splice_at_split [OF c, of "c # cs" bs] splice_at_split [OF F(2), of "p # c # cs" bs]
    by (simp add: fun_eq_iff)
  show ?case
    by (rule exI [of _ h2]) (use h1(1) h2(1) h2(2) [unfolded fin] in
      \<open>simp only: foldM.simps Option.bind.simps prod.case last.simps simp_thms list.distinct if_False\<close>)
qed

end

lemma tree_abs_orphan_iff: "tree_abs h F \<Longrightarrow> parent_node h c = None \<longleftrightarrow> (\<forall>m. c \<notin> set (F m))"
  by (auto simp: tree_abs_parent)

interpretation op_tree: ordered_children tree_abs "\<lambda>h n c. insertChildNode h n c None" unlink
  "\<lambda>h n c p. insertChildNode h n c (Some p)"
proof unfold_locales
  fix h :: "'a lcrs_scheme" and F n m c x p
  show "tree_abs h F \<Longrightarrow> distinct (F n)" by (rule tree_abs_distinct)
  show "tree_abs h F \<Longrightarrow> c \<in> set (F n) \<Longrightarrow> c \<in> set (F m) \<Longrightarrow> n = m"
    by (auto simp: tree_abs_parent)
  show "tree_abs h F \<Longrightarrow> (\<And>m. c \<notin> set (F m)) \<Longrightarrow>
      \<exists>h'. insertChildNode h n c None = Some h' \<and> tree_abs h' (F(n := F n @ [c]))"
    by (rule insertChildNode_last_abs) (auto simp: tree_abs_orphan_iff)
  show "tree_abs h F \<Longrightarrow> x \<in> set (F n) \<Longrightarrow>
      \<exists>h'. unlink h x = Some h' \<and> tree_abs h' (F(n := remove1 x (F n)))"
    using unlink_abs [of h F x n] by (auto simp: tree_abs_parent)
  show "tree_abs h F \<Longrightarrow> (\<And>m. c \<notin> set (F m)) \<Longrightarrow> p \<in> set (F n) \<Longrightarrow>
      \<exists>h'. insertChildNode h n c (Some p) = Some h' \<and> tree_abs h' (F(n := insert_after p c (F n)))"
    by (rule insertChildNode_after_abs) (auto simp: tree_abs_orphan_iff tree_abs_parent)
qed

section \<open>Properties\<close>

theorem insertChildNode_refines:
  assumes "tree_abs h F" and "parent_node h c = None" and "pos \<in> insert None (Some ` set (F n))"
  shows "\<exists>h'. insertChildNode h n c pos = Some h' \<and> same_rest h h' \<and>
    tree_abs h' (F(n := (case pos of None \<Rightarrow> F n @ [c] | Some p \<Rightarrow> insert_after p c (F n))))"
  using assms by (rule insertChildNode_abs)

theorem unlink_refines:
  assumes "tree_abs h F" and "x \<in> set (F n)"
  shows "\<exists>h'. unlink h x = Some h' \<and> same_rest h h' \<and> tree_abs h' (F(n := remove1 x (F n))) \<and>
    parent_node h' = (parent_node h)(x := None)"
  using unlink_abs [of h F x n] assms by (auto simp: tree_abs_parent intro: unlink_rest)

text \<open>C16: The walks return on every store that represents a tree and visit its nodes in pre-order, in
  post-order, level by level from the top, and level by level from the bottom (right to left or
  left to right).\<close>

theorem walks_visit_tree:
  assumes "tree_rep h n t"
  shows "preOrderWalk h n = Some (preorder [t]) \<and> postOrderWalk h n = Some (postorder [t]) \<and>
    breadthFirstWalk h n = Some (concat (map (\<lambda>k. at_depth k [t]) [0..<height [t]])) \<and>
    reverseBreadthFirstWalk h n False =
      Some (concat (map (\<lambda>k. rev (at_depth k [t])) (rev [0..<height [t]]))) \<and>
    reverseBreadthFirstWalk h n True =
      Some (concat (map (\<lambda>k. at_depth k [t]) (rev [0..<height [t]])))"
  using assms by (intro conjI preOrderWalk_rep postOrderWalk_rep breadthFirstWalk_rep
      reverseBreadthFirstWalk_rep)

text \<open>C17: On a tree with consistent links \<open>clear\<close> deletes every node once, no other node, and
  leaves the tree without a root, provided every node is still allocated; if one has been
  deleted before, it does not return.\<close>

theorem clear_deletes_tree:
  assumes "tree_abs h F" and "tree_rep h r t"
  shows "clear h (Some r) =
    (if \<forall>n\<in>set (preorder [t]). allocated h n
     then Some (h\<lparr>allocated := (\<lambda>n. allocated h n \<and> n \<notin> set (preorder [t]))\<rparr>, None) else None)"
  using clear_rep [OF assms(2)] tree_rep_distinct [OF assms] by simp

text \<open>A tree to try the operations on: \<open>0\<close> has the children 1, 2 and 3, and 2 has 4 and 5; 6 is alone.\<close>

definition small_tree :: lcrs where
  "small_tree = \<lparr>parent_node = [1 \<mapsto> 0, 2 \<mapsto> 0, 3 \<mapsto> 0, 4 \<mapsto> 2, 5 \<mapsto> 2], first_child = [0 \<mapsto> 1, 2 \<mapsto> 4],
     next_sibling = [1 \<mapsto> 2, 2 \<mapsto> 3, 4 \<mapsto> 5], allocated = (\<lambda>n. n < 7)\<rparr>"

definition small_children :: "ptr \<Rightarrow> ptr list" where
  "small_children n = (if n = 0 then [1, 2, 3] else if n = 2 then [4, 5] else [])"

lemma small_tree_abs: "tree_abs small_tree small_children"
  by (rule tree_absI) (auto simp: small_tree_def small_children_def split: if_splits)

lemma small_tree_rep:
  "tree_rep small_tree 0 (RNode 0 [RNode 1 [], RNode 2 [RNode 4 [], RNode 5 []], RNode 3 []])"
  by (simp add: tree_rep_def small_tree_def)

theorem insertChildNode_refines_witness:
  "(\<exists>h'. insertChildNode small_tree 0 6 (Some 2) = Some h' \<and> same_rest small_tree h' \<and>
     tree_abs h' (small_children(0 := [1, 2, 6, 3])))"
  using insertChildNode_refines [OF small_tree_abs, of 6 "Some 2" 0]
  by (simp add: small_children_def) (simp add: small_tree_def)

theorem unlink_refines_witness:
  "\<exists>h'. unlink small_tree 2 = Some h' \<and> same_rest small_tree h' \<and>
     tree_abs h' (small_children(0 := [1, 3])) \<and> parent_node h' = (parent_node small_tree)(2 := None)"
  using unlink_refines [OF small_tree_abs, of 2 0] by (simp add: small_children_def)

theorem unlinkNode_abs_witness:
  "\<exists>h'. unlinkNode small_tree 2 = Some h' \<and> tree_abs h' (small_children(0 := [1, 4, 5, 3], 2 := []))"
  using unlinkNode_abs [OF small_tree_abs, of 2 0]
  by (simp add: small_children_def splice_at_def) (simp add: small_tree_def)

theorem walks_visit_tree_witness:
  "breadthFirstWalk small_tree 0 = Some [0, 1, 2, 3, 4, 5] \<and>
   reverseBreadthFirstWalk small_tree 0 False = Some [5, 4, 3, 2, 1, 0] \<and>
   reverseBreadthFirstWalk small_tree 0 True = Some [4, 5, 1, 2, 3, 0]"
  using walks_visit_tree [OF small_tree_rep] by (simp add: eval_nat_numeral)

theorem clear_deletes_tree_witness:
  "\<exists>h'. clear small_tree (Some 0) = Some (h', None) \<and> (\<forall>n. allocated h' n \<longleftrightarrow> n = 6)"
proof -
  have "n < 7 \<and> n \<notin> {0, 1, 2, 4, 5, 3} \<longleftrightarrow> n = 6" for n :: nat by (simp, presburger)
  with clear_deletes_tree [OF small_tree_abs small_tree_rep] show ?thesis by (simp add: small_tree_def)
qed

theorem clear_from_root_property:
  assumes "tree_rep h r t"
  shows "clear_from h (Some r) r = None"
  using assms by (rule clear_from_root)

theorem clear_from_root_property_witness: "clear_from small_tree (Some 0) 0 = None"
  by (rule clear_from_root_property [OF small_tree_rep])

end
