(* ===== verification/Kahn.thy ===== *)
theory Kahn
  imports Prelude
begin

text \<open>
  Kahn's algorithm as both \<open>PipelineTree::topologicalSortStages\<close> and
  \<open>mlir::ktdf::topologicalSortStages\<close> write it: a work list of nodes whose in-degree has
  reached zero, and the in-degrees decremented along the edges of the node taken from the front.
  The loop is a partial function (a null node has no edges to read); it is shown to return on
  every graph whose edges stay inside the node list, with a list that has all nodes exactly when
  the graph is acyclic, every node after its predecessors.
\<close>

section \<open>The loop\<close>

text \<open>Decrementing the in-degree of the targets of the node taken; one that reaches zero is pushed.\<close>

fun relax :: "'a list \<Rightarrow> ('a \<Rightarrow> int) \<Rightarrow> 'a list \<Rightarrow> ('a \<Rightarrow> int) \<times> 'a list" where
  "relax [] in_degree worklist = (in_degree, worklist)"
| "relax (d # ds) in_degree worklist =
     (let in_degree' = in_degree(d := in_degree d - 1)
      in relax ds in_degree' (if in_degree' d = 0 then worklist @ [d] else worklist))"

partial_function (option) kahn_loop ::
  "('a \<Rightarrow> 'a list option) \<Rightarrow> 'a list \<Rightarrow> ('a \<Rightarrow> int) \<Rightarrow> 'a list \<Rightarrow> 'a list option" where
  "kahn_loop succ worklist in_degree result =
     (case worklist of
        [] \<Rightarrow> Some result
      | current # rest \<Rightarrow>
          Option.bind (succ current) (\<lambda>ds.
            kahn_loop succ (snd (relax ds in_degree rest)) (fst (relax ds in_degree rest))
              (result @ [current])))"

declare kahn_loop.simps [code]

section \<open>Graphs\<close>

text \<open>The edges of \<open>succ\<close> stay inside the node list.\<close>

definition closed_graph :: "'a list \<Rightarrow> ('a \<Rightarrow> 'a list option) \<Rightarrow> bool" where
  "closed_graph ns succ \<longleftrightarrow> distinct ns \<and>
     (\<forall>u\<in>set ns. \<exists>ds. succ u = Some ds \<and> set ds \<subseteq> set ns)"

definition edges :: "'a list \<Rightarrow> ('a \<Rightarrow> 'a list option) \<Rightarrow> ('a \<times> 'a) set" where
  "edges ns succ = {(u, v). u \<in> set ns \<and> v \<in> set (the (succ u))}"

text \<open>Edges from a set of nodes into \<open>v\<close>, with multiplicity.\<close>

definition indeg :: "'a set \<Rightarrow> ('a \<Rightarrow> 'a list option) \<Rightarrow> 'a \<Rightarrow> int" where
  "indeg us succ v = (\<Sum>u\<in>us. int (count_list (the (succ u)) v))"

text \<open>Every node of the list has its predecessors before it.\<close>

definition topological :: "('a \<times> 'a) set \<Rightarrow> 'a list \<Rightarrow> bool" where
  "topological r xs \<longleftrightarrow> (\<forall>as v bs. xs = as @ v # bs \<longrightarrow> (\<forall>u. (u, v) \<in> r \<longrightarrow> u \<in> set as))"

lemma topological_Nil [simp]: "topological r []"
  by (simp add: topological_def)

lemma topological_snoc:
  "topological r (xs @ [x]) \<longleftrightarrow> topological r xs \<and> (\<forall>u. (u, x) \<in> r \<longrightarrow> u \<in> set xs)"
proof
  assume a: "topological r (xs @ [x])"
  have "\<forall>u. (u, v) \<in> r \<longrightarrow> u \<in> set as" if "xs = as @ v # bs" for as v bs
    using a that unfolding topological_def by (metis append.assoc append_Cons)
  moreover have "\<forall>u. (u, x) \<in> r \<longrightarrow> u \<in> set xs" using a unfolding topological_def by blast
  ultimately show "topological r xs \<and> (\<forall>u. (u, x) \<in> r \<longrightarrow> u \<in> set xs)"
    unfolding topological_def by blast
next
  assume a: "topological r xs \<and> (\<forall>u. (u, x) \<in> r \<longrightarrow> u \<in> set xs)"
  have "\<forall>u. (u, v) \<in> r \<longrightarrow> u \<in> set as" if e: "xs @ [x] = as @ v # bs" for as v bs
  proof (cases bs rule: rev_cases)
    case Nil with e a show ?thesis by simp
  next
    case (snoc cs y)
    with e have "xs = as @ v # cs" by simp
    then show ?thesis using a unfolding topological_def by blast
  qed
  then show "topological r (xs @ [x])" unfolding topological_def by blast
qed

lemma topological_prefix: "topological r (xs @ ys) \<Longrightarrow> topological r xs"
proof (induction ys rule: rev_induct)
  case (snoc y ys)
  then have "topological r ((xs @ ys) @ [y])" by simp
  then show ?case using snoc.IH unfolding topological_snoc by blast
qed simp

lemma topological_index:
  assumes "topological r xs" and "(u, v) \<in> r" and "v \<in> set xs"
  shows "index_of xs u < index_of xs v"
proof -
  obtain as bs where xs: "xs = as @ v # bs" "v \<notin> set as" using assms(3) by (meson split_at)
  then have "u \<in> set as" using assms(1,2) unfolding topological_def by blast
  then show ?thesis using xs by (simp add: index_of_append index_of_less)
qed

lemma topological_acyclic:
  assumes "topological r xs" and "snd ` r \<subseteq> set xs"
  shows "acyclic r"
proof -
  have "r \<subseteq> measure (index_of xs)" using topological_index [OF assms(1)] assms(2) by fastforce
  then have "wf r" using wf_measure wf_subset by blast
  then show ?thesis by (rule wf_acyclic)
qed

section \<open>Correctness\<close>

lemma relax_spec:
  assumes "\<forall>v. int (count_list ds v) \<le> deg v \<or> v \<notin> set ds"
  shows "\<exists>new. relax ds deg wl = (\<lambda>v. deg v - int (count_list ds v), wl @ new) \<and> distinct new \<and>
    set new = {v \<in> set ds. deg v = int (count_list ds v)}"
  using assms
proof (induction ds arbitrary: deg wl)
  case (Cons d ds)
  let ?deg = "deg(d := deg d - 1)"
  have pre: "\<forall>v. int (count_list ds v) \<le> ?deg v \<or> v \<notin> set ds"
  proof
    fix v
    show "int (count_list ds v) \<le> ?deg v \<or> v \<notin> set ds"
      using Cons.prems [rule_format, of v] by (cases "v = d") (simp_all split: if_splits)
  qed
  have d1: "int (count_list ds d) + 1 \<le> deg d" using Cons.prems [rule_format, of d] by simp
  have fn: "(\<lambda>v. ?deg v - int (count_list ds v)) = (\<lambda>v. deg v - int (count_list (d # ds) v))"
    by (auto simp: fun_eq_iff)
  show ?case
  proof (cases "?deg d = 0")
    case True
    then have no: "d \<notin> set ds" using d1 by (simp add: count_list_0_iff)
    obtain new where new: "relax ds ?deg (wl @ [d]) =
        (\<lambda>v. ?deg v - int (count_list ds v), (wl @ [d]) @ new)" "distinct new"
        "set new = {v \<in> set ds. ?deg v = int (count_list ds v)}"
      using Cons.IH [OF pre, of "wl @ [d]"] by blast
    have "relax (d # ds) deg wl = (\<lambda>v. deg v - int (count_list (d # ds) v), wl @ d # new)"
      by (simp only: relax.simps Let_def True if_True refl new(1) fn append_assoc append_Cons append_Nil)
    moreover have "set (d # new) = {v \<in> set (d # ds). deg v = int (count_list (d # ds) v)}"
    proof -
      have e: "deg v = int (count_list (d # ds) v) \<longleftrightarrow> ?deg v = int (count_list ds v)" if "v \<noteq> d" for v
        using that by simp
      have z: "deg d = int (count_list (d # ds) d)" using True no by (simp add: count_list_0_iff)
      have n: "v \<in> set new \<longleftrightarrow> v \<in> set ds \<and> ?deg v = int (count_list ds v)" for v using new(3) by blast
      show ?thesis
      proof (rule set_eqI)
        fix v
        show "v \<in> set (d # new) \<longleftrightarrow> v \<in> {v \<in> set (d # ds). deg v = int (count_list (d # ds) v)}"
          using e [of v] z n [of v] no
          by (cases "v = d") (simp_all del: fun_upd_apply count_list.simps)
      qed
    qed
    moreover have "distinct (d # new)" using new no by auto
    ultimately show ?thesis by (intro exI [of _ "d # new"] conjI)
  next
    case False
    obtain new where new: "relax ds ?deg wl =
        (\<lambda>v. ?deg v - int (count_list ds v), wl @ new)" "distinct new"
        "set new = {v \<in> set ds. ?deg v = int (count_list ds v)}"
      using Cons.IH [OF pre, of wl] by blast
    have "relax (d # ds) deg wl = (\<lambda>v. deg v - int (count_list (d # ds) v), wl @ new)"
      by (simp only: relax.simps Let_def False if_False new(1) fn)
    moreover have "set new = {v \<in> set (d # ds). deg v = int (count_list (d # ds) v)}"
    proof -
      have "deg v = int (count_list (d # ds) v) \<longleftrightarrow> ?deg v = int (count_list ds v)" for v
        by (cases "v = d") auto
      moreover have "d \<in> set ds" if "?deg d = int (count_list ds d)"
        using that False count_list_0_iff [of ds d] by linarith
      ultimately show ?thesis using new(3) False by (auto simp: count_list_0_iff)
    qed
    ultimately show ?thesis using new(2) by (intro exI [of _ new] conjI)
  qed
qed simp

text \<open>What holds at the head of the loop.\<close>

definition kahn_inv ::
  "'a list \<Rightarrow> ('a \<Rightarrow> 'a list option) \<Rightarrow> 'a list \<Rightarrow> ('a \<Rightarrow> int) \<Rightarrow> 'a list \<Rightarrow> bool" where
  "kahn_inv ns succ wl deg srt \<longleftrightarrow>
     distinct (srt @ wl) \<and> set (srt @ wl) \<subseteq> set ns \<and>
     (\<forall>v\<in>set ns. deg v = indeg (set ns - set srt) succ v) \<and>
     (\<forall>v\<in>set ns. deg v = 0 \<longleftrightarrow> v \<in> set (srt @ wl)) \<and>
     topological (edges ns succ) (srt @ wl)"

lemma indeg_nonneg [simp]: "0 \<le> indeg us succ v"
  by (simp add: indeg_def sum_nonneg)

lemma indeg_remove:
  assumes "finite us" and "u \<in> us"
  shows "indeg us succ v = int (count_list (the (succ u)) v) + indeg (us - {u}) succ v"
  unfolding indeg_def using assms by (rule sum.remove)

lemma indeg_zero: "finite us \<Longrightarrow> indeg us succ v = 0 \<longleftrightarrow> (\<forall>u\<in>us. v \<notin> set (the (succ u)))"
  unfolding indeg_def by (subst sum_nonneg_eq_0_iff) (auto simp: count_list_0_iff)

lemma topological_append_free:
  assumes "topological r xs" and "\<And>v u. v \<in> set ys \<Longrightarrow> (u, v) \<in> r \<Longrightarrow> u \<in> set xs"
  shows "topological r (xs @ ys)"
  using assms(2)
proof (induction ys rule: rev_induct)
  case (snoc y ys)
  have "topological r (xs @ ys)" using snoc.prems by (intro snoc.IH) auto
  moreover have "\<forall>u. (u, y) \<in> r \<longrightarrow> u \<in> set (xs @ ys)" using snoc.prems [of y] by auto
  ultimately have "topological r ((xs @ ys) @ [y])" unfolding topological_snoc by blast
  then show ?case by simp
qed (simp add: assms(1))

lemma kahn_step:
  assumes g: "closed_graph ns succ" and inv: "kahn_inv ns succ (c # rest) deg srt"
  obtains ds where "succ c = Some ds"
    and "kahn_inv ns succ (snd (relax ds deg rest)) (fst (relax ds deg rest)) (srt @ [c])"
proof -
  note I = inv [unfolded kahn_inv_def]
  have cns: "c \<in> set ns" using I by auto
  obtain ds where ds: "succ c = Some ds" "set ds \<subseteq> set ns"
    using g cns unfolding closed_graph_def by blast
  have c: "c \<in> set ns - set srt" using I by auto
  have drop: "set ns - set srt - {c} = set ns - set (srt @ [c])" by auto
  have ind: "deg v = int (count_list ds v) + indeg (set ns - set (srt @ [c])) succ v"
    if "v \<in> set ns" for v
    using I that indeg_remove [of "set ns - set srt" c succ v] c ds(1) unfolding drop by simp
  have "\<forall>v. int (count_list ds v) \<le> deg v \<or> v \<notin> set ds"
  proof
    fix v
    show "int (count_list ds v) \<le> deg v \<or> v \<notin> set ds"
      using ind [of v] ds(2) indeg_nonneg [of "set ns - set (srt @ [c])" succ v]
      by (cases "v \<in> set ns") (simp, blast)
  qed
  then obtain new where new: "relax ds deg rest =
      (\<lambda>v. deg v - int (count_list ds v), rest @ new)" "distinct new"
      "set new = {v \<in> set ds. deg v = int (count_list ds v)}"
    using relax_spec [of ds deg rest] by blast
  have pos: "deg v \<noteq> 0" if "v \<in> set new" for v
    using that new(3) by (auto simp: count_list_0_iff)
  have fresh: "set new \<inter> set (srt @ c # rest) = {}" using pos I new(3) ds(2) by blast
  have zero: "indeg (set ns - set (srt @ [c])) succ v = 0" if "v \<in> set new" for v
    using that ind [of v] new(3) ds(2) by auto
  have "kahn_inv ns succ (rest @ new) (\<lambda>v. deg v - int (count_list ds v)) (srt @ [c])"
    unfolding kahn_inv_def
  proof (intro conjI ballI)
    have "distinct (srt @ c # rest)" "set (srt @ c # rest) \<subseteq> set ns" using I by blast+
    then show "distinct ((srt @ [c]) @ rest @ new)" "set ((srt @ [c]) @ rest @ new) \<subseteq> set ns"
      using new(2,3) fresh ds(2) by auto
    show "deg v - int (count_list ds v) = indeg (set ns - set (srt @ [c])) succ v"
      if "v \<in> set ns" for v using ind [OF that] by simp
    show "(deg v - int (count_list ds v) = 0) = (v \<in> set ((srt @ [c]) @ rest @ new))"
      if v: "v \<in> set ns" for v
    proof -
      have z: "deg v = 0 \<longleftrightarrow> v \<in> set (srt @ c # rest)" using I v by blast
      have n: "v \<in> set new \<longleftrightarrow> v \<in> set ds \<and> deg v = int (count_list ds v)" using new(3) by blast
      have d: "v \<notin> set ds" if "deg v = 0"
      proof -
        have "0 \<le> indeg (set ns - set (srt @ [c])) succ v" by simp
        then have "count_list ds v = 0" using ind [OF v] that by linarith
        then show ?thesis by (simp add: count_list_0_iff)
      qed
      have "deg v - int (count_list ds v) = 0 \<longleftrightarrow> deg v = 0 \<or> v \<in> set new"
        using d n by (cases "v \<in> set ds") (auto simp: count_list_0_iff)
      then show ?thesis using z by simp
    qed
    have "topological (edges ns succ) ((srt @ c # rest) @ new)"
    proof (rule topological_append_free)
      show "topological (edges ns succ) (srt @ c # rest)" using I by blast
      fix v u assume v: "v \<in> set new" and e: "(u, v) \<in> edges ns succ"
      then have "u \<notin> set ns - set (srt @ [c])"
        using zero [OF v] indeg_zero [of "set ns - set (srt @ [c])" succ v] unfolding edges_def by blast
      then show "u \<in> set (srt @ c # rest)" using e unfolding edges_def by auto
    qed
    then show "topological (edges ns succ) ((srt @ [c]) @ rest @ new)" by simp
  qed
  with new(1) ds(1) that show thesis by simp
qed

lemma kahn_returns:
  assumes g: "closed_graph ns succ" and inv: "kahn_inv ns succ wl deg srt"
  shows "\<exists>out deg'. kahn_loop succ wl deg srt = Some out \<and> kahn_inv ns succ [] deg' out"
  using inv
proof (induction "length ns - length srt" arbitrary: wl deg srt rule: less_induct)
  case less
  show ?case
  proof (cases wl)
    case Nil
    then show ?thesis using less.prems by (subst kahn_loop.simps) auto
  next
    case (Cons c rest)
    obtain ds where ds: "succ c = Some ds"
      "kahn_inv ns succ (snd (relax ds deg rest)) (fst (relax ds deg rest)) (srt @ [c])"
      using kahn_step [OF g] less.prems unfolding Cons by metis
    have "distinct (srt @ [c])" "set (srt @ [c]) \<subseteq> set ns"
      using ds(2) unfolding kahn_inv_def by auto
    then have "length (srt @ [c]) \<le> length ns"
      using card_mono [of "set ns" "set (srt @ [c])"] g
      by (simp add: closed_graph_def distinct_card)
    then have "length ns - length (srt @ [c]) < length ns - length srt" by simp
    then show ?thesis using less.hyps [OF _ ds(2)] ds(1) Cons by (subst kahn_loop.simps) simp
  qed
qed

lemma kahn_start:
  assumes "closed_graph ns succ" and "\<forall>v\<in>set ns. deg v = indeg (set ns) succ v"
  shows "kahn_inv ns succ (filter (\<lambda>v. deg v = 0) ns) deg []"
  unfolding kahn_inv_def
proof (intro conjI)
  show "distinct ([] @ filter (\<lambda>v. deg v = 0) ns)" using assms(1) by (simp add: closed_graph_def)
  have "topological (edges ns succ) ([] @ filter (\<lambda>v. deg v = 0) ns)"
  proof (rule topological_append_free)
    fix v u assume v: "v \<in> set (filter (\<lambda>v. deg v = 0) ns)" and e: "(u, v) \<in> edges ns succ"
    then have "\<forall>u\<in>set ns. v \<notin> set (the (succ u))"
      using assms(2) indeg_zero [of "set ns" succ v] by auto
    then show "u \<in> set []" using e by (auto simp: edges_def)
  qed simp
  then show "topological (edges ns succ) ([] @ filter (\<lambda>v. deg v = 0) ns)" .
qed (use assms in auto)

lemma kahn_complete:
  assumes g: "closed_graph ns succ" and inv: "kahn_inv ns succ [] deg out"
  shows "acyclic (edges ns succ) \<longleftrightarrow> length out = length ns"
proof
  note I = inv [unfolded kahn_inv_def]
  assume ac: "acyclic (edges ns succ)"
  have fin: "finite (edges ns succ)"
    by (rule finite_subset [of _ "set ns \<times> (\<Union>u\<in>set ns. set (the (succ u)))"]) (auto simp: edges_def)
  have wf: "wf (edges ns succ)" using finite_acyclic_wf [OF fin ac] .
  have "set out = set ns"
  proof (rule ccontr)
    assume "set out \<noteq> set ns"
    then obtain x where "x \<in> set ns - set out" using I by auto
    then obtain v where v: "v \<in> set ns - set out"
      and m: "\<And>u. (u, v) \<in> edges ns succ \<Longrightarrow> u \<notin> set ns - set out"
      using wf unfolding wf_eq_minimal by metis
    have "indeg (set ns - set out) succ v = 0"
      using m indeg_zero [of "set ns - set out" succ v] unfolding edges_def by auto
    then show False using I v by auto
  qed
  then show "length out = length ns"
    using I g distinct_card by (metis append_Nil2 closed_graph_def)
next
  note I = inv [unfolded kahn_inv_def]
  assume l: "length out = length ns"
  then have "set out = set ns"
    using I g card_subset_eq [of "set ns" "set out"] by (simp add: closed_graph_def distinct_card)
  then have "snd ` edges ns succ \<subseteq> set out" using g by (fastforce simp: edges_def closed_graph_def)
  then show "acyclic (edges ns succ)" using I topological_acyclic by auto
qed

text \<open>
  The whole algorithm: with the in-degrees counted right, the loop returns; the list has all the
  nodes exactly when the graph is acyclic, and then it is a topological order of them.
\<close>

lemma kahn_correct:
  assumes "closed_graph ns succ" and "\<forall>v\<in>set ns. deg v = indeg (set ns) succ v"
  obtains out where "kahn_loop succ (filter (\<lambda>v. deg v = 0) ns) deg [] = Some out"
    and "distinct out" and "set out \<subseteq> set ns" and "topological (edges ns succ) out"
    and "acyclic (edges ns succ) \<longleftrightarrow> length out = length ns"
    and "length out = length ns \<longrightarrow> set out = set ns"
proof -
  obtain out deg' where out: "kahn_loop succ (filter (\<lambda>v. deg v = 0) ns) deg [] = Some out"
    "kahn_inv ns succ [] deg' out"
    using kahn_returns [OF assms(1) kahn_start [OF assms]] by blast
  have *: "distinct out" "set out \<subseteq> set ns" "topological (edges ns succ) out"
    using out(2) unfolding kahn_inv_def by auto
  have "length out = length ns \<longrightarrow> set out = set ns"
    using * assms(1) card_subset_eq [of "set ns" "set out"]
    by (simp add: closed_graph_def distinct_card)
  with * show thesis using that [OF out(1) *] kahn_complete [OF assms(1) out(2)] by blast
qed

section \<open>What a client of the order relies on\<close>

text \<open>
  The passes over sorted stages: marking everything fed by a node of \<open>A\<close> or by a marked node in
  one forward pass, and everything that feeds one in one backward pass.
\<close>

definition mark_after :: "('n \<Rightarrow> 'n list) \<Rightarrow> 'n set \<Rightarrow> 'n list \<Rightarrow> 'n set" where
  "mark_after succ_of A ns =
     fold (\<lambda>x M. if x \<in> A \<or> x \<in> M then fold insert (succ_of x) M else M) ns {}"

definition mark_before :: "('n \<Rightarrow> 'n list) \<Rightarrow> 'n set \<Rightarrow> 'n list \<Rightarrow> 'n set" where
  "mark_before succ_of A ns =
     fold (\<lambda>x M. if \<exists>y\<in>set (succ_of x). y \<in> A \<or> y \<in> M then insert x M else M) (rev ns) {}"

lemma fold_insert_set: "fold insert xs M = set xs \<union> M"
  by (induction xs arbitrary: M) auto

lemma topological_after:
  assumes "topological r (as @ x # bs)" and "distinct (as @ x # bs)"
    and "(x, y) \<in> r" and "y \<in> set (as @ x # bs)"
  shows "y \<in> set bs"
proof -
  have i: "index_of (as @ x # bs) x < index_of (as @ x # bs) y"
    using topological_index [OF assms(1,3,4)] .
  have "y \<notin> set as"
  proof
    assume y: "y \<in> set as"
    then have "index_of (as @ x # bs) y < length as" by (simp add: index_of_append index_of_less)
    moreover have "index_of (as @ x # bs) x = length as" using assms(2) by (simp add: index_of_append)
    ultimately show False using i by simp
  qed
  moreover have "y \<noteq> x" using i by auto
  ultimately show ?thesis using assms(4) by auto
qed

lemma mark_after_prefix:
  assumes top: "topological r (ps @ qs)" and A: "\<And>a. a \<in> A \<Longrightarrow> (a, v) \<in> r \<Longrightarrow> True"
    and succ: "\<And>x y. x \<in> set (ps @ qs) \<Longrightarrow> y \<in> set (succ_of x) \<longleftrightarrow> (x, y) \<in> r"
  shows "mark_after succ_of A ps =
    {v. \<exists>u\<in>set ps. (u \<in> A \<or> (\<exists>a\<in>A. (a, u) \<in> r\<^sup>+)) \<and> (u, v) \<in> r}"
  using top succ
proof (induction ps arbitrary: qs rule: rev_induct)
  case Nil
  show ?case by (simp add: mark_after_def)
next
  case (snoc x ps)
  have IH: "mark_after succ_of A ps =
      {v. \<exists>u\<in>set ps. (u \<in> A \<or> (\<exists>a\<in>A. (a, u) \<in> r\<^sup>+)) \<and> (u, v) \<in> r}"
    by (rule snoc.IH [of "x # qs"]) (use snoc.prems in auto)
  have "topological r (ps @ [x])" using snoc.prems(1) by (rule topological_prefix)
  then have pred: "u \<in> set ps" if "(u, x) \<in> r" for u using that by (simp add: topological_snoc)
  have x: "x \<in> mark_after succ_of A ps \<longleftrightarrow> (\<exists>a\<in>A. (a, x) \<in> r\<^sup>+)"
  proof
    assume "x \<in> mark_after succ_of A ps"
    then show "\<exists>a\<in>A. (a, x) \<in> r\<^sup>+" unfolding IH by (blast intro: trancl_into_trancl)
  next
    assume "\<exists>a\<in>A. (a, x) \<in> r\<^sup>+"
    then obtain a where a: "a \<in> A" "(a, x) \<in> r\<^sup>+" by blast
    from a(2) obtain u where "(u, x) \<in> r" "u = a \<or> (a, u) \<in> r\<^sup>+"
      by (cases rule: tranclE) blast+
    then show "x \<in> mark_after succ_of A ps" unfolding IH using pred a(1) by blast
  qed
  have "mark_after succ_of A (ps @ [x]) = mark_after succ_of A ps \<union>
      (if x \<in> A \<or> x \<in> mark_after succ_of A ps then set (succ_of x) else {})"
    unfolding mark_after_def fold_append comp_def fold_simps id_apply fold_insert_set by auto
  also have "\<dots> = {v. \<exists>u\<in>set (ps @ [x]). (u \<in> A \<or> (\<exists>a\<in>A. (a, u) \<in> r\<^sup>+)) \<and> (u, v) \<in> r}"
  proof -
    have "set (succ_of x) = {v. (x, v) \<in> r}" using snoc.prems(2) [of x] by auto
    then show ?thesis unfolding x unfolding IH by (simp add: Collect_disj_eq Un_commute)
  qed
  finally show ?case .
qed

lemma mark_before_suffix:
  assumes top: "topological r (ps @ qs)" and dist: "distinct (ps @ qs)"
    and inside: "r \<subseteq> set (ps @ qs) \<times> set (ps @ qs)"
    and succ: "\<And>x y. x \<in> set (ps @ qs) \<Longrightarrow> y \<in> set (succ_of x) \<longleftrightarrow> (x, y) \<in> r"
  shows "mark_before succ_of A qs = {u \<in> set qs. \<exists>a\<in>A. (u, a) \<in> r\<^sup>+}"
  using assms
proof (induction qs arbitrary: ps)
  case Nil
  show ?case by (simp add: mark_before_def)
next
  case (Cons x qs)
  have IH: "mark_before succ_of A qs = {u \<in> set qs. \<exists>a\<in>A. (u, a) \<in> r\<^sup>+}"
    by (rule Cons.IH [of "ps @ [x]"]) (use Cons.prems in auto)
  have later: "y \<in> set qs" if "(x, y) \<in> r" for y
    using topological_after [OF Cons.prems(1,2) that] Cons.prems(3) that by blast
  have hit: "(\<exists>y\<in>set (succ_of x). y \<in> A \<or> y \<in> mark_before succ_of A qs) \<longleftrightarrow> (\<exists>a\<in>A. (x, a) \<in> r\<^sup>+)"
  proof
    assume "\<exists>y\<in>set (succ_of x). y \<in> A \<or> y \<in> mark_before succ_of A qs"
    then show "\<exists>a\<in>A. (x, a) \<in> r\<^sup>+"
      unfolding IH using Cons.prems(4) [of x] by (auto intro: trancl_into_trancl2)
  next
    assume "\<exists>a\<in>A. (x, a) \<in> r\<^sup>+"
    then obtain a where a: "a \<in> A" "(x, a) \<in> r\<^sup>+" by blast
    from a(2) obtain y where "(x, y) \<in> r" "y = a \<or> (y, a) \<in> r\<^sup>+"
      by (cases rule: converse_tranclE) blast+
    then show "\<exists>y\<in>set (succ_of x). y \<in> A \<or> y \<in> mark_before succ_of A qs"
      unfolding IH using later Cons.prems(4) [of x] a(1) by auto
  qed
  have "mark_before succ_of A (x # qs) = mark_before succ_of A qs \<union>
      (if \<exists>y\<in>set (succ_of x). y \<in> A \<or> y \<in> mark_before succ_of A qs then {x} else {})"
    unfolding mark_before_def rev.simps fold_append comp_def fold_simps id_apply by auto
  also have "\<dots> = {u \<in> set (x # qs). \<exists>a\<in>A. (u, a) \<in> r\<^sup>+}"
    unfolding hit unfolding IH by auto
  finally show ?case .
qed

locale stage_sort =
  fixes wf_graph :: "'g \<Rightarrow> bool"
    and nodes :: "'g \<Rightarrow> 'n list"
    and succ_of :: "'g \<Rightarrow> 'n \<Rightarrow> 'n list"
    and sort :: "'g \<Rightarrow> 'n list option option"
  assumes succ_inside: "wf_graph g \<Longrightarrow> x \<in> set (nodes g) \<Longrightarrow> set (succ_of g x) \<subseteq> set (nodes g)"
    and sort_returns: "wf_graph g \<Longrightarrow> \<exists>r. sort g = Some r"
    and sort_sound: "wf_graph g \<Longrightarrow> sort g = Some (Some s) \<Longrightarrow>
      distinct s \<and> set s = set (nodes g) \<and>
      topological {(x, y). x \<in> set (nodes g) \<and> y \<in> set (succ_of g x)} s"
    and sort_complete: "wf_graph g \<Longrightarrow> sort g = Some None \<longleftrightarrow>
      \<not> acyclic {(x, y). x \<in> set (nodes g) \<and> y \<in> set (succ_of g x)}"
begin

definition arcs :: "'g \<Rightarrow> ('n \<times> 'n) set" where
  "arcs g = {(x, y). x \<in> set (nodes g) \<and> y \<in> set (succ_of g x)}"

lemma arcs_inside: "wf_graph g \<Longrightarrow> arcs g \<subseteq> set (nodes g) \<times> set (nodes g)"
  using succ_inside unfolding arcs_def by blast

text \<open>One forward pass over the order finds what is downstream of \<open>A\<close>, one backward pass what is upstream.\<close>

lemma forward_pass:
  assumes "wf_graph g" and "sort g = Some (Some s)" and "A \<subseteq> set s"
  shows "mark_after (succ_of g) A s = {v. \<exists>a\<in>A. (a, v) \<in> (arcs g)\<^sup>+}"
proof -
  have s: "distinct s" "set s = set (nodes g)" "topological (arcs g) s"
    using sort_sound [OF assms(1,2)] unfolding arcs_def by auto
  have "mark_after (succ_of g) A s =
      {v. \<exists>u\<in>set s. (u \<in> A \<or> (\<exists>a\<in>A. (a, u) \<in> (arcs g)\<^sup>+)) \<and> (u, v) \<in> arcs g}"
    by (rule mark_after_prefix [of _ _ "[]"]) (use s in \<open>auto simp: arcs_def\<close>)
  also have "\<dots> = {v. \<exists>a\<in>A. (a, v) \<in> (arcs g)\<^sup>+}"
  proof -
    have "\<exists>u\<in>set s. (u \<in> A \<or> (\<exists>a\<in>A. (a, u) \<in> (arcs g)\<^sup>+)) \<and> (u, v) \<in> arcs g"
      if "a \<in> A" "(a, v) \<in> (arcs g)\<^sup>+" for a v
      using that(2) by (cases rule: tranclE) (use that(1) arcs_inside [OF assms(1)] s(2) in blast)+
    then show ?thesis by (auto intro: trancl_into_trancl)
  qed
  finally show ?thesis .
qed

lemma backward_pass:
  assumes "wf_graph g" and "sort g = Some (Some s)"
  shows "mark_before (succ_of g) A s = {u. \<exists>a\<in>A. (u, a) \<in> (arcs g)\<^sup>+}"
proof -
  have s: "distinct s" "set s = set (nodes g)" "topological (arcs g) s"
    using sort_sound [OF assms] unfolding arcs_def by auto
  have "mark_before (succ_of g) A s = {u \<in> set s. \<exists>a\<in>A. (u, a) \<in> (arcs g)\<^sup>+}"
    by (rule mark_before_suffix [of _ "[]"]) (use s arcs_inside [OF assms(1)] in \<open>auto simp: arcs_def\<close>)
  also have "\<dots> = {u. \<exists>a\<in>A. (u, a) \<in> (arcs g)\<^sup>+}"
    using arcs_inside [OF assms(1)] s(2) by (auto elim: converse_tranclE)
  finally show ?thesis .
qed

text \<open>A sorted graph that is not empty has a node without predecessors and one without successors.\<close>

lemma has_source:
  assumes "wf_graph g" and "sort g = Some (Some s)" and "nodes g \<noteq> []"
  shows "\<exists>x\<in>set (nodes g). \<forall>y\<in>set (nodes g). x \<notin> set (succ_of g y)"
proof -
  have s: "set s = set (nodes g)" "topological (arcs g) s"
    using sort_sound [OF assms(1,2)] unfolding arcs_def by auto
  then obtain x xs where "s = x # xs" using assms(3) by (cases s) auto
  moreover have "(y, x) \<notin> arcs g" for y using s(2) calculation unfolding topological_def by fastforce
  ultimately show ?thesis using s(1) unfolding arcs_def by fastforce
qed

lemma has_sink:
  assumes "wf_graph g" and "sort g = Some (Some s)" and "nodes g \<noteq> []"
  shows "\<exists>x\<in>set (nodes g). succ_of g x = []"
proof -
  have s: "distinct s" "set s = set (nodes g)" "topological (arcs g) s"
    using sort_sound [OF assms(1,2)] unfolding arcs_def by auto
  then obtain x xs where x: "s = xs @ [x]" using assms(3) by (cases s rule: rev_cases) auto
  have "(x, y) \<notin> arcs g" for y
  proof
    assume y: "(x, y) \<in> arcs g"
    then have "y \<in> set s" using arcs_inside [OF assms(1)] s(2) by auto
    then have "y \<in> set []" using topological_after [of "arcs g" xs x "[]" y] s y unfolding x by blast
    then show False by simp
  qed
  moreover have "x \<in> set (nodes g)" using s(2) x by auto
  ultimately have "succ_of g x = []" by (cases "succ_of g x") (auto simp: arcs_def)
  with \<open>x \<in> set (nodes g)\<close> show ?thesis by blast
qed

end

end
