(* ===== verification/PipelineTree.thy ===== *)
theory PipelineTree
  imports OperationTree Kahn
begin

text \<open>
  The pipeline tree of \<open>lib/Analysis/PipelineTree.cpp\<close> and its header: an operation tree whose
  nodes are loops, pipelines, stages and private regions, with the token dependencies between
  stages kept beside the links. Modelled: the node classes and factories, the dependency lists,
  the construction of the tree from the IR (\<open>compute\<close>), the loop searches, and the analyses of
  the stage graph (topological sort, sources, sinks).
\<close>

section \<open>Nodes and the tree\<close>

text \<open>The subclasses of \<open>PipelineTreeNode\<close>; a stage carries its \<open>stage_id_\<close>.\<close>

datatype node_kind = RootNode | LoopNode | PipelineNode | StageNode int | PrivateNode

fun isStage :: "node_kind \<Rightarrow> bool" where
  "isStage (StageNode _) = True"
| "isStage _ = False"

type_synonym op = nat

text \<open>
  The fields of the nodes beyond the links, and the fields of the tree object: \<open>opToNode_\<close>,
  \<open>root_\<close>, and the next address that \<open>new\<close> returns. \<open>dependencies_\<close> holds node pointers that
  are null between \<open>nullifyDependency\<close> and \<open>removeNullifiedDependencies\<close>.
\<close>

record ptree = lcrs +
  kind :: "ptr \<Rightarrow> node_kind"
  operation_op :: "ptr \<Rightarrow> op option"
  template_op :: "ptr \<Rightarrow> op option"
  dependencies :: "ptr \<Rightarrow> ptr option list"
  opToNode :: "op \<Rightarrow> ptr option"
  root :: "ptr option"
  next_ptr :: ptr

definition isLoopNode :: "ptree \<Rightarrow> ptr \<Rightarrow> bool" where
  "isLoopNode T n \<longleftrightarrow> kind T n = LoopNode"

definition isPipelineNode :: "ptree \<Rightarrow> ptr \<Rightarrow> bool" where
  "isPipelineNode T n \<longleftrightarrow> kind T n = PipelineNode"

definition isPrivateNode :: "ptree \<Rightarrow> ptr \<Rightarrow> bool" where
  "isPrivateNode T n \<longleftrightarrow> kind T n = PrivateNode"

definition isStageNode :: "ptree \<Rightarrow> ptr \<Rightarrow> bool" where
  "isStageNode T n \<longleftrightarrow> isStage (kind T n)"

text \<open>\<open>materialized_\<close> is set by the constructor from the operation and never written again.\<close>

definition isMaterialized :: "ptree \<Rightarrow> ptr \<Rightarrow> bool" where
  "isMaterialized T n \<longleftrightarrow> operation_op T n \<noteq> None"

definition getOperationOrTemplate :: "ptree \<Rightarrow> ptr \<Rightarrow> op option" where
  "getOperationOrTemplate T n = (if isMaterialized T n then operation_op T n else template_op T n)"

text \<open>\<open>setTemplateOp\<close> asserts that the node has no operation.\<close>

definition setTemplateOp :: "ptree \<Rightarrow> ptr \<Rightarrow> op option \<Rightarrow> ptree option" where
  "setTemplateOp T n t =
     (if operation_op T n \<noteq> None then None
      else Some (T\<lparr>template_op := (template_op T)(n := t)\<rparr>))"

text \<open>\<open>new\<close> of a node class: a fresh address with null links and no dependencies.\<close>

definition new_node :: "node_kind \<Rightarrow> op option \<Rightarrow> ptree \<Rightarrow> ptree \<times> ptr" where
  "new_node k o' T =
     (let n = next_ptr T in
      (T\<lparr>parent_node := (parent_node T)(n := None),
         first_child := (first_child T)(n := None),
         next_sibling := (next_sibling T)(n := None),
         allocated := (allocated T)(n := True),
         kind := (kind T)(n := k),
         operation_op := (operation_op T)(n := o'),
         template_op := (template_op T)(n := None),
         dependencies := (dependencies T)(n := []),
         next_ptr := Suc n\<rparr>, n))"

text \<open>The four factories: a node, entered in \<open>opToNode_\<close> if it has an operation.\<close>

definition create_node :: "node_kind \<Rightarrow> op option \<Rightarrow> ptree \<Rightarrow> ptree \<times> ptr" where
  "create_node k o' T =
     (let (T1, n) = new_node k o' T in
      (case o' of
         None \<Rightarrow> (T1, n)
       | Some q \<Rightarrow> (T1\<lparr>opToNode := (opToNode T1)(q := Some n)\<rparr>, n)))"

definition createLoopNode :: "op option \<Rightarrow> ptree \<Rightarrow> ptree \<times> ptr" where
  "createLoopNode o' = create_node LoopNode o'"

definition createPipelineNode :: "op option \<Rightarrow> ptree \<Rightarrow> ptree \<times> ptr" where
  "createPipelineNode o' = create_node PipelineNode o'"

definition createStageNode :: "op option \<Rightarrow> int \<Rightarrow> ptree \<Rightarrow> ptree \<times> ptr" where
  "createStageNode o' stage_id = create_node (StageNode stage_id) o'"

definition createPrivateNode :: "op option \<Rightarrow> ptree \<Rightarrow> ptree \<times> ptr" where
  "createPrivateNode o' = create_node PrivateNode o'"

definition deleteNode :: "ptree \<Rightarrow> ptr option \<Rightarrow> ptree option" where
  "deleteNode T victim =
     (case victim of
        None \<Rightarrow> Some T
      | Some n \<Rightarrow>
          (let T1 = (case operation_op T n of
                       None \<Rightarrow> T
                     | Some q \<Rightarrow> T\<lparr>opToNode := (opToNode T)(q := None)\<rparr>)
           in delete_nodes [n] T1))"

definition deleteAllNodes :: "ptree \<Rightarrow> ptree option" where
  "deleteAllNodes T =
     (case root T of
        None \<Rightarrow> Some (T\<lparr>opToNode := (\<lambda>_. None)\<rparr>)
      | Some r \<Rightarrow>
          do { ns \<leftarrow> postOrderWalk T r;
               T1 \<leftarrow> delete_nodes ns (T\<lparr>root := None\<rparr>);
               Some (T1\<lparr>opToNode := (\<lambda>_. None)\<rparr>) })"

definition getNodeForOp :: "ptree \<Rightarrow> op \<Rightarrow> ptr option" where
  "getNodeForOp T q = opToNode T q"

section \<open>Dependencies between stages\<close>

definition set_deps :: "ptree \<Rightarrow> ptr \<Rightarrow> ptr option list \<Rightarrow> ptree" where
  "set_deps T n ds = T\<lparr>dependencies := (dependencies T)(n := ds)\<rparr>"

definition addDependency :: "ptree \<Rightarrow> ptr \<Rightarrow> ptr \<Rightarrow> ptree" where
  "addDependency T n target = set_deps T n (dependencies T n @ [Some target])"

text \<open>The loops over \<open>dependencies_\<close> that write the first match and return.\<close>

fun replace_first :: "'a \<Rightarrow> 'a \<Rightarrow> 'a list \<Rightarrow> 'a list" where
  "replace_first a b [] = []"
| "replace_first a b (x # xs) = (if x = a then b # xs else x # replace_first a b xs)"

definition replaceDependency :: "ptree \<Rightarrow> ptr \<Rightarrow> ptr \<Rightarrow> ptr \<Rightarrow> ptree" where
  "replaceDependency T n old_target new_target =
     set_deps T n (replace_first (Some old_target) (Some new_target) (dependencies T n))"

definition nullifyDependency :: "ptree \<Rightarrow> ptr \<Rightarrow> ptr \<Rightarrow> ptree" where
  "nullifyDependency T n target =
     set_deps T n (replace_first (Some target) None (dependencies T n))"

definition nullifyAllDependencies :: "ptree \<Rightarrow> ptr \<Rightarrow> ptree" where
  "nullifyAllDependencies T n = set_deps T n (map (\<lambda>_. None) (dependencies T n))"

definition removeNullifiedDependencies :: "ptree \<Rightarrow> ptr \<Rightarrow> ptree" where
  "removeNullifiedDependencies T n = set_deps T n (filter (\<lambda>d. d \<noteq> None) (dependencies T n))"

lemma set_deps_simps [simp]:
  "dependencies (set_deps T n ds) = (dependencies T)(n := ds)"
  "kind (set_deps T n ds) = kind T" "operation_op (set_deps T n ds) = operation_op T"
  "parent_node (set_deps T n ds) = parent_node T" "first_child (set_deps T n ds) = first_child T"
  "next_sibling (set_deps T n ds) = next_sibling T" "opToNode (set_deps T n ds) = opToNode T"
  "root (set_deps T n ds) = root T" "next_ptr (set_deps T n ds) = next_ptr T"
  "allocated (set_deps T n ds) = allocated T" "template_op (set_deps T n ds) = template_op T"
  by (simp_all add: set_deps_def)

lemma replace_first_absent [simp]: "a \<notin> set xs \<Longrightarrow> replace_first a b xs = xs"
  by (induction xs) auto

lemma replace_first_split:
  "a \<notin> set xs \<Longrightarrow> replace_first a b (xs @ a # ys) = xs @ b # ys"
  by (induction xs) auto

lemma length_replace_first [simp]: "length (replace_first a b xs) = length xs"
  by (induction xs) auto

section \<open>The children of a pipeline\<close>

partial_function (option) private_loop :: "ptree \<Rightarrow> ptr option \<Rightarrow> ptr option option" where
  "private_loop T child =
     (case child of
        None \<Rightarrow> Some None
      | Some c \<Rightarrow> (if isPrivateNode T c then Some (Some c) else private_loop T (next_sibling T c)))"

declare private_loop.simps [code]

definition getPrivateNode :: "ptree \<Rightarrow> ptr \<Rightarrow> ptr option option" where
  "getPrivateNode T n = private_loop T (first_child T n)"

partial_function (option) stages_loop :: "ptree \<Rightarrow> ptr option \<Rightarrow> ptr list \<Rightarrow> ptr list option" where
  "stages_loop T child stages =
     (case child of
        None \<Rightarrow> Some stages
      | Some c \<Rightarrow> stages_loop T (next_sibling T c) (if isStageNode T c then stages @ [c] else stages))"

declare stages_loop.simps [code]

definition getStages :: "ptree \<Rightarrow> ptr \<Rightarrow> ptr list option" where
  "getStages T n = stages_loop T (first_child T n) []"

lemma private_loop_links:
  "links (next_sibling T) p xs None \<Longrightarrow> private_loop T p = Some (find (isPrivateNode T) xs)"
  by (induction xs arbitrary: p) (auto simp: private_loop.simps)

lemma stages_loop_links:
  "links (next_sibling T) p xs None \<Longrightarrow> stages_loop T p acc = Some (acc @ filter (isStageNode T) xs)"
  by (induction xs arbitrary: p acc) (auto simp: stages_loop.simps)

lemma getPrivateNode_abs: "tree_abs T F \<Longrightarrow> getPrivateNode T n = Some (find (isPrivateNode T) (F n))"
  by (simp add: getPrivateNode_def private_loop_links tree_abs_links)

lemma getStages_abs: "tree_abs T F \<Longrightarrow> getStages T n = Some (filter (isStageNode T) (F n))"
  using stages_loop_links [OF tree_abs_links, of T F n "[]"] by (simp add: getStages_def)

section \<open>The stage graph\<close>

text \<open>\<open>current->getDependencies()\<close>; a null \<open>current\<close> cannot be dereferenced.\<close>

definition stage_succ :: "ptree \<Rightarrow> ptr option \<Rightarrow> ptr option list option" where
  "stage_succ T s = map_option (dependencies T) s"

text \<open>
  \<open>in_degree\<close> after the two counting loops. An entry that the map does not hold reads as zero.
\<close>

definition stage_in_degree :: "ptree \<Rightarrow> ptr list \<Rightarrow> ptr option \<Rightarrow> int" where
  "stage_in_degree T stages =
     fold (\<lambda>s. fold (\<lambda>dependent deg. deg(dependent := deg dependent + 1)) (dependencies T s)) stages
       (fold (\<lambda>s deg. deg(Some s := 0)) stages (\<lambda>_. 0))"

text \<open>The inner option is \<open>FailureOr\<close>.\<close>

definition topologicalSortStages :: "ptree \<Rightarrow> ptr option \<Rightarrow> ptr list option option" where
  "topologicalSortStages T pipeline =
     (case pipeline of
        None \<Rightarrow> Some None
      | Some p \<Rightarrow>
          do { stages \<leftarrow> getStages T p;
               if stages = [] then Some (Some [])
               else
                 (let in_degree = stage_in_degree T stages;
                      worklist = filter (\<lambda>s. in_degree s = 0) (map Some stages)
                  in do { result \<leftarrow> kahn_loop (stage_succ T) worklist in_degree [];
                          if length result \<noteq> length stages then Some None
                          else Some (Some (map the result)) }) })"

definition identifySourceStages :: "ptree \<Rightarrow> ptr option \<Rightarrow> ptr list option" where
  "identifySourceStages T pipeline =
     (case pipeline of
        None \<Rightarrow> Some []
      | Some p \<Rightarrow>
          do { stages \<leftarrow> getStages T p;
               let has_incoming = fold (\<lambda>s acc. fold insert (dependencies T s) acc) stages {};
               Some (filter (\<lambda>s. Some s \<notin> has_incoming) stages) })"

definition identifySinkStages :: "ptree \<Rightarrow> ptr option \<Rightarrow> ptr list option" where
  "identifySinkStages T pipeline =
     (case pipeline of
        None \<Rightarrow> Some []
      | Some p \<Rightarrow>
          do { stages \<leftarrow> getStages T p; Some (filter (\<lambda>s. dependencies T s = []) stages) })"

text \<open>
  What the analyses assume of a pipeline: its children are represented by the links, and the
  dependencies of its stages are stages of the same pipeline, none of them nullified.
\<close>

definition stages_of :: "ptree \<Rightarrow> (ptr \<Rightarrow> ptr list) \<Rightarrow> ptr \<Rightarrow> ptr list" where
  "stages_of T F p = filter (isStageNode T) (F p)"

definition deps_inside :: "ptree \<Rightarrow> ptr list \<Rightarrow> bool" where
  "deps_inside T stages \<longleftrightarrow>
     (\<forall>s\<in>set stages. set (dependencies T s) \<subseteq> Some ` set stages)"

text \<open>\<open>s\<close> unblocks \<open>t\<close>.\<close>

definition unblocks :: "ptree \<Rightarrow> ptr list \<Rightarrow> (ptr \<times> ptr) set" where
  "unblocks T stages = {(s, t). s \<in> set stages \<and> Some t \<in> set (dependencies T s)}"

lemma stage_in_degree_eq:
  assumes "distinct stages"
  shows "stage_in_degree T stages v = (\<Sum>s\<in>set stages. int (count_list (dependencies T s) v))"
proof -
  have inner: "fold (\<lambda>x deg. deg(x := deg x + 1)) ds f v = f v + int (count_list ds v)"
    for ds and f :: "ptr option \<Rightarrow> int"
    by (induction ds arbitrary: f) auto
  have outer: "fold (\<lambda>s. fold (\<lambda>x deg. deg(x := deg x + 1)) (dependencies T s)) ss f v =
      f v + (\<Sum>s\<leftarrow>ss. int (count_list (dependencies T s) v))" for ss f
    by (induction ss arbitrary: f) (simp_all add: inner)
  have zero: "fold (\<lambda>s deg. deg(Some s := 0)) ss f v = 0" if "f v = 0" for ss and f :: "ptr option \<Rightarrow> int"
    using that by (induction ss arbitrary: f) auto
  show ?thesis
    unfolding stage_in_degree_def outer zero [of "\<lambda>_. 0", OF refl]
    using assms by (simp add: sum_list_distinct_conv_sum_set)
qed

lemma stage_graph:
  assumes "distinct stages" and "deps_inside T stages"
  shows "closed_graph (map Some stages) (stage_succ T)"
    and "\<forall>v\<in>set (map Some stages). stage_in_degree T stages v =
      indeg (set (map Some stages)) (stage_succ T) v"
    and "edges (map Some stages) (stage_succ T) = map_prod Some Some ` unblocks T stages"
proof -
  show "closed_graph (map Some stages) (stage_succ T)"
    using assms by (auto simp: closed_graph_def deps_inside_def stage_succ_def distinct_map)
  show "\<forall>v\<in>set (map Some stages). stage_in_degree T stages v =
      indeg (set (map Some stages)) (stage_succ T) v"
    using assms(1) by (simp add: stage_in_degree_eq indeg_def stage_succ_def sum.reindex)
  show "edges (map Some stages) (stage_succ T) = map_prod Some Some ` unblocks T stages"
    using assms(2) by (fastforce simp: edges_def unblocks_def stage_succ_def deps_inside_def)
qed

lemma topological_map:
  assumes "inj f"
  shows "topological (map_prod f f ` r) (map f xs) \<longleftrightarrow> topological r xs"
proof (induction xs rule: rev_induct)
  case (snoc x xs)
  have "(\<forall>u. (u, f x) \<in> map_prod f f ` r \<longrightarrow> u \<in> set (map f xs)) \<longleftrightarrow> (\<forall>u. (u, x) \<in> r \<longrightarrow> u \<in> set xs)"
    using assms by (force dest: injD)
  with snoc show ?case by (simp add: topological_snoc)
qed simp

lemma acyclic_map:
  assumes "inj f"
  shows "acyclic (map_prod f f ` r) \<longleftrightarrow> acyclic r"
proof -
  have fwd: "(f x, f y) \<in> (map_prod f f ` r)\<^sup>+" if "(x, y) \<in> r\<^sup>+" for x y
    using that by (induction rule: trancl.induct) (force intro: trancl_into_trancl)+
  have bwd: "\<exists>x y. a = f x \<and> b = f y \<and> (x, y) \<in> r\<^sup>+" if "(a, b) \<in> (map_prod f f ` r)\<^sup>+" for a b
    using that
  proof (induction rule: trancl.induct)
    case (trancl_into_trancl a b c)
    then show ?case using injD [OF assms] by (force intro: trancl_into_trancl)
  qed force
  show ?thesis unfolding acyclic_def using fwd bwd injD [OF assms] by blast
qed

lemma deps_are_stages:
  assumes "deps_inside T stages" and "s \<in> set stages" and "d \<in> set (dependencies T s)"
  shows "\<exists>t\<in>set stages. d = Some t"
  using assms unfolding deps_inside_def by blast

lemma topologicalSortStages_sound:
  assumes abs: "tree_abs T F" and deps: "deps_inside T (stages_of T F p)"
  shows "\<exists>r. topologicalSortStages T (Some p) = Some r \<and>
    (r = None \<longleftrightarrow> \<not> acyclic (unblocks T (stages_of T F p))) \<and>
    (\<forall>s. r = Some s \<longrightarrow> distinct s \<and> set s = set (stages_of T F p) \<and>
      topological (unblocks T (stages_of T F p)) s)"
proof (cases "stages_of T F p = []")
  case True
  then show ?thesis
    using getStages_abs [OF abs, of p]
    by (simp add: topologicalSortStages_def stages_of_def unblocks_def acyclic_def)
next
  case False
  let ?st = "stages_of T F p"
  have dist: "distinct ?st" using tree_abs_distinct [OF abs] by (simp add: stages_of_def)
  note G = stage_graph [OF dist deps]
  obtain out where out:
    "kahn_loop (stage_succ T) (filter (\<lambda>v. stage_in_degree T ?st v = 0) (map Some ?st))
       (stage_in_degree T ?st) [] = Some out"
    "distinct out" "set out \<subseteq> set (map Some ?st)"
    "topological (edges (map Some ?st) (stage_succ T)) out"
    "acyclic (edges (map Some ?st) (stage_succ T)) \<longleftrightarrow> length out = length (map Some ?st)"
    "length out = length (map Some ?st) \<longrightarrow> set out = set (map Some ?st)"
    using kahn_correct [OF G(1,2)] .
  have eq: "topologicalSortStages T (Some p) =
      Some (if length out \<noteq> length ?st then None else Some (map the out))"
    using getStages_abs [OF abs, of p] False out(1)
    by (simp add: topologicalSortStages_def stages_of_def [symmetric] Let_def)
  have ac: "acyclic (unblocks T ?st) \<longleftrightarrow> length out = length ?st"
    using out(5) acyclic_map [of Some "unblocks T ?st"] by (simp add: G(3))
  have out_some: "map Some (map the out) = out" using out(3) by (auto simp: comp_def intro!: map_idI)
  have "distinct (map the out) \<and> set (map the out) = set ?st \<and> topological (unblocks T ?st) (map the out)"
    if "length out = length ?st"
  proof (intro conjI)
    show "distinct (map the out)" using out(2) out_some by (metis distinct_map)
    have "set out = Some ` set ?st" using out(6) that by simp
    then show "set (map the out) = set ?st" by (simp add: image_image)
    have "topological (map_prod Some Some ` unblocks T ?st) (map Some (map the out))"
      using out(4) unfolding G(3) out_some .
    then show "topological (unblocks T ?st) (map the out)"
      using topological_map [of Some] by (metis inj_Some)
  qed
  then show ?thesis unfolding eq ac by simp
qed

text \<open>The sort of the pipeline tree provides the contract its clients use.\<close>

definition pipe_graph :: "ptree \<times> ptr \<Rightarrow> bool" where
  "pipe_graph g \<longleftrightarrow> (\<exists>F. tree_abs (fst g) F \<and> deps_inside (fst g) (stages_of (fst g) F (snd g)))"

definition pipe_nodes :: "ptree \<times> ptr \<Rightarrow> ptr list" where
  "pipe_nodes g = (case getStages (fst g) (snd g) of Some st \<Rightarrow> st | None \<Rightarrow> [])"

definition pipe_succ :: "ptree \<times> ptr \<Rightarrow> ptr \<Rightarrow> ptr list" where
  "pipe_succ g s = List.map_filter id (dependencies (fst g) s)"

lemma set_pipe_succ: "t \<in> set (pipe_succ g s) \<longleftrightarrow> Some t \<in> set (dependencies (fst g) s)"
  by (force simp: pipe_succ_def List.map_filter_def)

lemma pipe_graph_props:
  assumes "pipe_graph g"
  shows "distinct (pipe_nodes g)" and "deps_inside (fst g) (pipe_nodes g)"
    and "\<exists>r. topologicalSortStages (fst g) (Some (snd g)) = Some r \<and>
      (r = None \<longleftrightarrow> \<not> acyclic (unblocks (fst g) (pipe_nodes g))) \<and>
      (\<forall>s. r = Some s \<longrightarrow> distinct s \<and> set s = set (pipe_nodes g) \<and>
        topological (unblocks (fst g) (pipe_nodes g)) s)"
    and "unblocks (fst g) (pipe_nodes g) = {(x, y). x \<in> set (pipe_nodes g) \<and> y \<in> set (pipe_succ g x)}"
proof -
  obtain F where F: "tree_abs (fst g) F" "deps_inside (fst g) (stages_of (fst g) F (snd g))"
    using assms unfolding pipe_graph_def by blast
  have n: "pipe_nodes g = stages_of (fst g) F (snd g)"
    using getStages_abs [OF F(1)] by (simp add: pipe_nodes_def stages_of_def)
  show "distinct (pipe_nodes g)" using tree_abs_distinct [OF F(1)] by (simp add: n stages_of_def)
  show "deps_inside (fst g) (pipe_nodes g)" using F(2) by (simp add: n)
  show "\<exists>r. topologicalSortStages (fst g) (Some (snd g)) = Some r \<and>
      (r = None \<longleftrightarrow> \<not> acyclic (unblocks (fst g) (pipe_nodes g))) \<and>
      (\<forall>s. r = Some s \<longrightarrow> distinct s \<and> set s = set (pipe_nodes g) \<and>
        topological (unblocks (fst g) (pipe_nodes g)) s)"
    using topologicalSortStages_sound [OF F] by (simp add: n)
  show "unblocks (fst g) (pipe_nodes g) = {(x, y). x \<in> set (pipe_nodes g) \<and> y \<in> set (pipe_succ g x)}"
    by (simp add: unblocks_def set_pipe_succ)
qed

interpretation pipe_sort: stage_sort pipe_graph pipe_nodes pipe_succ
  "\<lambda>g. topologicalSortStages (fst g) (Some (snd g))"
proof unfold_locales
  fix g :: "ptree \<times> ptr" and x s
  assume g: "pipe_graph g"
  note P = pipe_graph_props [OF g]
  show "x \<in> set (pipe_nodes g) \<Longrightarrow> set (pipe_succ g x) \<subseteq> set (pipe_nodes g)"
    using P(2) by (auto simp: set_pipe_succ dest: deps_are_stages)
  show "\<exists>r. topologicalSortStages (fst g) (Some (snd g)) = Some r" using P(3) by blast
  show "topologicalSortStages (fst g) (Some (snd g)) = Some (Some s) \<Longrightarrow>
      distinct s \<and> set s = set (pipe_nodes g) \<and>
      topological {(x, y). x \<in> set (pipe_nodes g) \<and> y \<in> set (pipe_succ g x)} s"
    using P(3) unfolding P(4) by auto
  show "(topologicalSortStages (fst g) (Some (snd g)) = Some None) =
      (\<not> acyclic {(x, y). x \<in> set (pipe_nodes g) \<and> y \<in> set (pipe_succ g x)})"
    using P(3) unfolding P(4) by auto
qed

subsection \<open>Sources and sinks\<close>

theorem identifySourceStages_abs:
  assumes "tree_abs T F"
  shows "identifySourceStages T (Some p) =
    Some (filter (\<lambda>t. \<forall>s\<in>set (stages_of T F p). Some t \<notin> set (dependencies T s)) (stages_of T F p))"
proof -
  have "fold (\<lambda>s acc. fold insert (dependencies T s) acc) ss A =
      A \<union> (\<Union>s\<in>set ss. set (dependencies T s))" for ss A
    by (induction ss arbitrary: A) (auto simp: fold_insert_set)
  then show ?thesis
    using getStages_abs [OF assms, of p]
    by (auto simp: identifySourceStages_def stages_of_def [symmetric] Let_def intro: filter_cong)
qed

lemma identifySinkStages_abs:
  assumes "tree_abs T F"
  shows "identifySinkStages T (Some p) =
    Some (filter (\<lambda>s. dependencies T s = []) (stages_of T F p))"
  using getStages_abs [OF assms, of p] by (simp add: identifySinkStages_def stages_of_def [symmetric])

section \<open>Loop searches\<close>

partial_function (option) outermost_loop ::
  "ptree \<Rightarrow> (ptr \<Rightarrow> bool) \<Rightarrow> ptr option \<Rightarrow> ptr option \<Rightarrow> ptr option option" where
  "outermost_loop T stop current outermost =
     (case current of
        None \<Rightarrow> Some outermost
      | Some c \<Rightarrow>
          (if stop c then Some outermost
           else outermost_loop T stop (parent_node T c)
                  (if isLoopNode T c then Some c else outermost)))"

declare outermost_loop.simps [code]

definition findOutermostLoop :: "ptree \<Rightarrow> ptr option \<Rightarrow> (ptr \<Rightarrow> bool) \<Rightarrow> ptr option option" where
  "findOutermostLoop T start_node stop =
     (case start_node of None \<Rightarrow> Some None | Some n \<Rightarrow> outermost_loop T stop (Some n) None)"

text \<open>
  \<open>findDeepestLoop\<close> over the children of a node; the state is \<open>(max_depth, innermost_loop)\<close>.
  At the start node itself the depth is zero, which is never deeper than \<open>max_depth\<close>.
\<close>

partial_function (option) deepest_loop ::
  "ptree \<Rightarrow> ptr option \<Rightarrow> nat \<Rightarrow> nat \<times> ptr \<Rightarrow> (nat \<times> ptr) option" where
  "deepest_loop T child current_depth best =
     (case child of
        None \<Rightarrow> Some best
      | Some c \<Rightarrow>
          (let next_depth = current_depth + (if isLoopNode T c then 1 else 0);
               best1 = (if isLoopNode T c \<and> fst best < next_depth then (next_depth, c) else best)
           in do { best2 \<leftarrow> deepest_loop T (first_child T c) next_depth best1;
                   deepest_loop T (next_sibling T c) current_depth best2 }))"

declare deepest_loop.simps [code]

definition findInnermostLoop :: "ptree \<Rightarrow> ptr option \<Rightarrow> ptr option option" where
  "findInnermostLoop T start_node =
     (case start_node of
        None \<Rightarrow> Some None
      | Some n \<Rightarrow>
          (if \<not> isLoopNode T n then Some None
           else do { best \<leftarrow> deepest_loop T (first_child T n) 0 (0, n); Some (Some (snd best)) }))"

text \<open>The loops below a node with their loop depth, in pre-order.\<close>

fun loop_depths :: "ptree \<Rightarrow> nat \<Rightarrow> rtree list \<Rightarrow> (nat \<times> ptr) list" where
  "loop_depths T d [] = []"
| "loop_depths T d (RNode c cs # ts) =
     (if isLoopNode T c then (Suc d, c) # loop_depths T (Suc d) cs else loop_depths T d cs) @
     loop_depths T d ts"

definition deeper :: "nat \<times> ptr \<Rightarrow> nat \<times> ptr \<Rightarrow> nat \<times> ptr" where
  "deeper x best = (if fst best < fst x then x else best)"

lemma deeper_pair: "deeper (d, c) best = (if fst best < d then (d, c) else best)"
  by (simp add: deeper_def)

lemma deepest_loop_rep:
  "forest_rep T p ts \<Longrightarrow> deepest_loop T p d best = Some (fold deeper (loop_depths T d ts) best)"
proof (induction T d ts arbitrary: p best rule: loop_depths.induct)
  case (2 T d c cs ts)
  then show ?case
    by (subst deepest_loop.simps) (auto simp: Let_def deeper_pair)
qed (simp add: deepest_loop.simps)

text \<open>The fold keeps the first entry of greatest depth.\<close>

lemma fold_deeper:
  "fold deeper xs b \<in> insert b (set xs) \<and> (\<forall>x\<in>insert b (set xs). fst x \<le> fst (fold deeper xs b))"
proof (induction xs arbitrary: b)
  case (Cons a xs)
  have "deeper a b \<in> {a, b}" "fst a \<le> fst (deeper a b)" "fst b \<le> fst (deeper a b)"
    by (auto simp: deeper_def)
  with Cons.IH [of "deeper a b"] show ?case by fastforce
qed simp

lemma fold_deeper_first:
  "\<exists>as bs. b # xs = as @ fold deeper xs b # bs \<and> (\<forall>x\<in>set as. fst x < fst (fold deeper xs b))"
proof (induction xs arbitrary: b)
  case Nil
  show ?case by (intro exI [of _ "[]"]) simp
next
  case (Cons x xs)
  obtain as bs where ab: "deeper x b # xs = as @ fold deeper (x # xs) b # bs"
    "\<forall>y\<in>set as. fst y < fst (fold deeper (x # xs) b)"
    using Cons.IH [of "deeper x b"] by auto
  have le: "fst b \<le> fst (fold deeper (x # xs) b)" "fst x \<le> fst (fold deeper (x # xs) b)"
    using fold_deeper [of "x # xs" b] by auto
  show ?case
  proof (cases as)
    case Nil
    with ab(1) have r: "fold deeper (x # xs) b = deeper x b" by (metis append_Nil list.inject)
    show ?thesis
    proof (cases "fst b < fst x")
      case True
      then have "deeper x b = x" by (simp add: deeper_def)
      with r True show ?thesis by (intro exI [of _ "[b]"] exI [of _ xs]) (simp del: fold_simps)
    next
      case False
      then have "deeper x b = b" by (simp add: deeper_def)
      with r show ?thesis by (intro exI [of _ "[]"] exI [of _ "x # xs"]) (simp del: fold_simps)
    qed
  next
    case (Cons a as')
    with ab(1) have a: "a = deeper x b" "xs = as' @ fold deeper (x # xs) b # bs"
      by (metis append_Cons list.inject)+
    have lt: "fst (deeper x b) < fst (fold deeper (x # xs) b)" using ab(2) Cons a by simp
    then have "fst b < fst (fold deeper (x # xs) b)" "fst x < fst (fold deeper (x # xs) b)"
      by (auto simp: deeper_def split: if_splits)
    with a ab(2) Cons show ?thesis
      by (intro exI [of _ "b # x # as'"] exI [of _ bs]) (simp del: fold_simps)
  qed
qed

theorem findInnermostLoop_rep:
  assumes "tree_rep T n t" and "isLoopNode T n"
  shows "\<exists>d m as bs. findInnermostLoop T (Some n) = Some (Some m) \<and>
    (0, n) # loop_depths T 0 (subtrees t) = as @ (d, m) # bs \<and>
    (\<forall>(e, k)\<in>set as. e < d) \<and> (\<forall>(e, k)\<in>set bs. e \<le> d)"
proof -
  let ?r = "fold deeper (loop_depths T 0 (subtrees t)) (0, n)"
  have "findInnermostLoop T (Some n) = Some (Some (snd ?r))"
    using assms deepest_loop_rep [of T "first_child T n" "subtrees t" 0 "(0, n)"]
    by (simp add: findInnermostLoop_def tree_rep_def)
  moreover obtain as bs where split: "(0, n) # loop_depths T 0 (subtrees t) = as @ ?r # bs"
    "\<forall>x\<in>set as. fst x < fst ?r"
    using fold_deeper_first [of "(0, n)" "loop_depths T 0 (subtrees t)"] by blast
  moreover have "\<forall>x\<in>set bs. fst x \<le> fst ?r"
  proof
    fix x assume "x \<in> set bs"
    then have "x \<in> set (as @ ?r # bs)" by simp
    then have "x \<in> insert (0, n) (set (loop_depths T 0 (subtrees t)))" by (simp flip: split(1))
    then show "fst x \<le> fst ?r" using fold_deeper [of "loop_depths T 0 (subtrees t)" "(0, n)"] by blast
  qed
  ultimately show ?thesis
    by (intro exI [of _ "fst ?r"] exI [of _ "snd ?r"] exI [of _ as] exI [of _ bs]) auto
qed

section \<open>Building the tree from the IR\<close>

text \<open>
  An operation of the IR: its identity, its class, the tokens of a stage, and the operations
  of its regions in order. The pipeline and stage operations belong to a dialect outside the
  repository; \<open>getDependsIn\<close> and \<open>getDependsOut\<close> are fields of the operation, and
  \<open>PipelineOp::getStages\<close> is the parameter \<open>op_stages\<close> of the construction.
\<close>

datatype op_kind = ForOp | PipelineOp | StageOp | PrivateOp | OtherOp

type_synonym token = nat

datatype irop = IrOp (op_of: op) (class_of: op_kind) (depends_in: "token list")
  (depends_out: "token list") (body_of: "irop list")

definition isOperationSelected :: "op_kind \<Rightarrow> bool" where
  "isOperationSelected k \<longleftrightarrow> k = ForOp \<or> k = PipelineOp \<or> k = StageOp \<or> k = PrivateOp"

text \<open>
  \<open>walk\<close> in pre-order; every operation comes with the chain that \<open>getParentOp\<close> climbs.
\<close>

type_synonym ancestors = "(op \<times> op_kind) list"

fun walk_pre :: "ancestors \<Rightarrow> irop \<Rightarrow> (irop \<times> ancestors) list" where
  "walk_pre anc (IrOp q k ins outs body) =
     (IrOp q k ins outs body, anc) # concat (map (walk_pre ((q, k) # anc)) body)"

fun walk_post :: "irop \<Rightarrow> irop list" where
  "walk_post (IrOp q k ins outs body) = concat (map walk_post body) @ [IrOp q k ins outs body]"

lemma walk_post_self: "st \<in> set (walk_post st)"
  by (cases st) simp

lemma walk_post_body: "i \<in> set (body_of p) \<Longrightarrow> set (walk_post i) \<subseteq> set (walk_post p)"
  by (cases p) auto

lemma walk_post_trans: "p \<in> set (walk_post st) \<Longrightarrow> set (walk_post p) \<subseteq> set (walk_post st)"
proof (induction st rule: walk_post.induct)
  case (1 q k ins outs body)
  show ?case
  proof (cases "p = IrOp q k ins outs body")
    case False
    then obtain b where b: "b \<in> set body" "p \<in> set (walk_post b)" using 1(2) by auto
    then have "set (walk_post p) \<subseteq> set (walk_post b)" using 1(1) by blast
    then show ?thesis using b(1) by auto
  qed simp
qed

text \<open>The \<open>while\<close> loop that looks for the parent; a missing entry of the map fails the assertion.\<close>

fun find_parent_node :: "(op \<Rightarrow> ptr option) \<Rightarrow> op \<Rightarrow> ptr \<Rightarrow> ancestors \<Rightarrow> ptr option" where
  "find_parent_node nodes unit_op r [] = Some r"
| "find_parent_node nodes unit_op r ((q, k) # anc) =
     (if \<not> isOperationSelected k then find_parent_node nodes unit_op r anc
      else if q = unit_op then Some r
      else nodes q)"

definition create_for :: "op_kind \<Rightarrow> op \<Rightarrow> int \<Rightarrow> ptree \<Rightarrow> ptree \<times> ptr \<times> int" where
  "create_for k q next_stage_id T =
     (case k of
        ForOp \<Rightarrow> (let (T1, n) = createLoopNode (Some q) T in (T1, n, next_stage_id))
      | PipelineOp \<Rightarrow> (let (T1, n) = createPipelineNode (Some q) T in (T1, n, next_stage_id))
      | StageOp \<Rightarrow> (let (T1, n) = createStageNode (Some q) next_stage_id T in (T1, n, next_stage_id + 1))
      | _ \<Rightarrow> (let (T1, n) = createPrivateNode (Some q) T in (T1, n, next_stage_id)))"

text \<open>The action of the first walk.\<close>

definition compute_step ::
  "op \<Rightarrow> ptr \<Rightarrow> irop \<times> ancestors \<Rightarrow> ptree \<times> int \<Rightarrow> (ptree \<times> int) option" where
  "compute_step unit_op r x s =
     (let q = op_of (fst x); k = class_of (fst x) in
      if \<not> isOperationSelected k then Some s
      else (let (T1, n, i) = create_for k q (snd s) (fst s) in
        if q = unit_op then do { T2 \<leftarrow> insertChildNode T1 r n None; Some (T2, i) }
        else do { p \<leftarrow> find_parent_node (opToNode T1) unit_op r (snd x);
                  T2 \<leftarrow> insertChildNode T1 p n None;
                  Some (T2, i) }))"

text \<open>The first pass over the stages of a pipeline: the last producer of a token wins.\<close>

definition token_producers :: "ptree \<Rightarrow> irop list \<Rightarrow> (token \<Rightarrow> ptr option) option" where
  "token_producers T stages =
     foldM (\<lambda>st m. do { n \<leftarrow> getNodeForOp T (op_of st);
                        Some (fold (\<lambda>t m. m(t := Some n)) (depends_out st) m) })
       stages (\<lambda>_. None)"

definition add_token :: "(token \<Rightarrow> ptr option) \<Rightarrow> ptr \<Rightarrow> token \<Rightarrow> ptree \<Rightarrow> ptree" where
  "add_token producers consumer t T =
     (case producers t of None \<Rightarrow> T | Some p \<Rightarrow> addDependency T p consumer)"

definition compute_deps :: "(irop \<Rightarrow> irop list) \<Rightarrow> irop \<Rightarrow> ptree \<Rightarrow> ptree option" where
  "compute_deps op_stages pl T =
     do { producers \<leftarrow> token_producers T (op_stages pl);
          foldM (\<lambda>st T. do { n \<leftarrow> getNodeForOp T (op_of st);
                             Some (fold (add_token producers n) (depends_in st) T) })
            (op_stages pl) T }"

definition ensure_root :: "ptree \<Rightarrow> ptree \<times> ptr" where
  "ensure_root T =
     (case root T of
        Some r \<Rightarrow> (T, r)
      | None \<Rightarrow> (let (T1, r) = new_node RootNode None T in (T1\<lparr>root := Some r\<rparr>, r)))"

definition compute :: "(irop \<Rightarrow> irop list) \<Rightarrow> ancestors \<Rightarrow> irop \<Rightarrow> ptree \<Rightarrow> ptree option" where
  "compute op_stages outer unit T =
     (let (T0, r) = ensure_root T in
      do { (T1, _) \<leftarrow> foldM (compute_step (op_of unit) r) (walk_pre outer unit) (T0, 0);
           foldM (compute_deps op_stages)
             (filter (\<lambda>o'. class_of o' = PipelineOp) (walk_post unit)) T1 })"

text \<open>\<open>recompute\<close> clears the nodes (not \<open>opToNode_\<close>) and computes again.\<close>

definition recompute :: "(irop \<Rightarrow> irop list) \<Rightarrow> ancestors \<Rightarrow> irop \<Rightarrow> ptree \<Rightarrow> ptree option" where
  "recompute op_stages outer unit T =
     do { (T1, r) \<leftarrow> clear T (root T); compute op_stages outer unit (T1\<lparr>root := r\<rparr>) }"

lemma same_rest_ptree:
  assumes "same_rest T (T' :: ptree)"
  shows "kind T' = kind T" "operation_op T' = operation_op T" "template_op T' = template_op T"
    "dependencies T' = dependencies T" "opToNode T' = opToNode T" "root T' = root T"
    "next_ptr T' = next_ptr T"
  using assms by (cases T; cases T'; simp add: same_rest_def)+

section \<open>New nodes\<close>

text \<open>Addresses not handed out yet are in no list and have no children.\<close>

definition fresh_above :: "ptree \<Rightarrow> bool" where
  "fresh_above T \<longleftrightarrow> (\<forall>n \<ge> next_ptr T. parent_node T n = None \<and> first_child T n = None)"

lemma fresh_child: "tree_abs T F \<Longrightarrow> fresh_above T \<Longrightarrow> c \<in> set (F n) \<Longrightarrow> c < next_ptr T"
  unfolding fresh_above_def by (metis not_le option.distinct(1) tree_abs_parent)

lemma fresh_parent: "tree_abs T F \<Longrightarrow> fresh_above T \<Longrightarrow> F n \<noteq> [] \<Longrightarrow> n < next_ptr T"
  unfolding fresh_above_def using tree_abs_leaf not_le by blast

text \<open>A new node in the tree, before it is linked: only its own fields change.\<close>

lemma create_node_fresh:
  fixes k :: node_kind
  assumes abs: "tree_abs T F" and fresh: "fresh_above T"
  defines "n \<equiv> next_ptr T" and "T1 \<equiv> fst (create_node k None T)"
  shows "create_node k None T = (T1, n)" and "tree_abs T1 F" and "parent_node T1 n = None"
    and "next_ptr T1 = Suc n" and "kind T1 = (kind T)(n := k)"
    and "operation_op T1 = (operation_op T)(n := None)" and "dependencies T1 = (dependencies T)(n := [])"
    and "template_op T1 = (template_op T)(n := None)" and "root T1 = root T"
    and "parent_node T1 = parent_node T" and "first_child T1 = first_child T"
proof -
  have p: "parent_node T n = None" "first_child T n = None"
    using fresh by (simp_all add: fresh_above_def n_def)
  have q: "next_sibling T n = None" using abs p(1) by (rule tree_abs_orphan_next)
  have links: "parent_node T1 = parent_node T" "first_child T1 = first_child T" "next_sibling T1 = next_sibling T"
    using p q by (simp_all add: T1_def n_def create_node_def new_node_def Let_def fun_upd_idem)
  show "create_node k None T = (T1, n)"
    by (simp add: T1_def n_def create_node_def new_node_def Let_def)
  show "tree_abs T1 F" using abs links by (rule tree_abs_links_cong)
  show "parent_node T1 n = None" "parent_node T1 = parent_node T" "first_child T1 = first_child T"
    using links p(1) by simp_all
  show "next_ptr T1 = Suc n" "kind T1 = (kind T)(n := k)" "root T1 = root T"
    "operation_op T1 = (operation_op T)(n := None)" "dependencies T1 = (dependencies T)(n := [])"
    "template_op T1 = (template_op T)(n := None)"
    by (simp_all add: T1_def n_def create_node_def new_node_def Let_def)
qed

section \<open>Properties\<close>

text \<open>C5: \<open>topologicalSortStages\<close> returns, fails exactly when the stage dependencies have a
  cycle, and otherwise lists every stage once, producers before consumers.\<close>

theorem topologicalSortStages_correct:
  assumes "tree_abs T F" and "deps_inside T (stages_of T F p)"
  shows "\<exists>r. topologicalSortStages T (Some p) = Some r \<and>
    (r = None \<longleftrightarrow> \<not> acyclic (unblocks T (stages_of T F p))) \<and>
    (\<forall>s. r = Some s \<longrightarrow> distinct s \<and> set s = set (stages_of T F p) \<and>
      topological (unblocks T (stages_of T F p)) s)"
  using assms by (rule topologicalSortStages_sound)

text \<open>
  A pipeline to try the operations on: node 0 is a loop around the pipeline 9, which holds a private
  node 2, the stages 3, 4 and 5, and a loop 6 with a loop 7; stage 5 feeds 3, and both feed 4.
\<close>

definition small_pipe :: ptree where
  "small_pipe = \<lparr>parent_node = [9 \<mapsto> 0, 2 \<mapsto> 9, 3 \<mapsto> 9, 4 \<mapsto> 9, 5 \<mapsto> 9, 6 \<mapsto> 9, 7 \<mapsto> 6],
     first_child = [0 \<mapsto> 9, 9 \<mapsto> 2, 6 \<mapsto> 7],
     next_sibling = [2 \<mapsto> 3, 3 \<mapsto> 4, 4 \<mapsto> 5, 5 \<mapsto> 6], allocated = (\<lambda>n. n < 10),
     kind = (\<lambda>n. if n = 9 then PipelineNode else if n = 2 then PrivateNode
       else if n \<in> {3, 4, 5} then StageNode (int n) else LoopNode),
     operation_op = (\<lambda>n. Some n), template_op = (\<lambda>_. None),
     dependencies = (\<lambda>n. if n = 5 then [Some 3, Some 4] else if n = 3 then [Some 4] else []),
     opToNode = (\<lambda>q. if q < 10 then Some q else None), root = Some 0, next_ptr = 10\<rparr>"

definition small_pipe_children :: "ptr \<Rightarrow> ptr list" where
  "small_pipe_children n = (if n = 0 then [9] else if n = 9 then [2, 3, 4, 5, 6] else if n = 6 then [7] else [])"

lemma small_pipe_fields:
  "first_child small_pipe = [0 \<mapsto> 9, 9 \<mapsto> 2, 6 \<mapsto> 7]"
  "next_sibling small_pipe = [2 \<mapsto> 3, 3 \<mapsto> 4, 4 \<mapsto> 5, 5 \<mapsto> 6]"
  "dependencies small_pipe n = (if n = 5 then [Some 3, Some 4] else if n = 3 then [Some 4] else [])"
  "kind small_pipe n = (if n = 9 then PipelineNode else if n = 2 then PrivateNode
       else if n \<in> {3, 4, 5} then StageNode (int n) else LoopNode)"
  by (simp_all add: small_pipe_def)

lemma small_pipe_abs: "tree_abs small_pipe small_pipe_children"
  by (rule tree_absI) (auto simp: small_pipe_def small_pipe_children_def split: if_splits)

lemma small_pipe_stages: "stages_of small_pipe small_pipe_children 9 = [3, 4, 5]"
  by (simp add: stages_of_def small_pipe_children_def isStageNode_def small_pipe_def)

lemma small_pipe_deps: "deps_inside small_pipe [3, 4, 5]"
  by (simp add: deps_inside_def small_pipe_def)

lemma small_pipe_unblocks: "unblocks small_pipe [3, 4, 5] = {(5, 3), (5, 4), (3, 4)}"
  by (auto simp: unblocks_def small_pipe_def split: if_splits)

lemma small_pipe_acyclic: "acyclic (unblocks small_pipe [3, 4, 5])"
proof -
  have "unblocks small_pipe [3, 4, 5] \<subseteq> inv_image less_than (\<lambda>n. if n = 5 then 0 else n)"
    by (auto simp: small_pipe_unblocks)
  then show ?thesis by (meson acyclic_subset wf_acyclic wf_inv_image wf_less_than)
qed

theorem topologicalSortStages_correct_witness:
  "\<exists>s. topologicalSortStages small_pipe (Some 9) = Some (Some s) \<and> distinct s \<and> set s = {3, 4, 5} \<and>
     topological {(5, 3), (5, 4), (3, 4)} s"
  using topologicalSortStages_correct [OF small_pipe_abs, of 9] small_pipe_acyclic
  unfolding small_pipe_stages by (simp add: small_pipe_deps small_pipe_unblocks insert_commute) blast

theorem identifySourceStages_abs_witness: "identifySourceStages small_pipe (Some 9) = Some [5]"
  using identifySourceStages_abs [OF small_pipe_abs, of 9]
  unfolding small_pipe_stages by (simp add: small_pipe_fields)

theorem findInnermostLoop_rep_witness:
  "\<exists>d m as bs. findInnermostLoop small_pipe (Some 0) = Some (Some m) \<and>
    [(0, 0), (Suc 0, 6), (Suc (Suc 0), 7)] = as @ (d, m) # bs \<and> (\<forall>(e, k)\<in>set as. e < d) \<and> (\<forall>(e, k)\<in>set bs. e \<le> d)"
  using findInnermostLoop_rep [of small_pipe 0
      "RNode 0 [RNode 9 [RNode 2 [], RNode 3 [], RNode 4 [], RNode 5 [], RNode 6 [RNode 7 []]]]"]
  by (simp add: tree_rep_def isLoopNode_def small_pipe_fields)

end
