(* ===== verification/RoutingGraph.thy ===== *)
theory RoutingGraph
  imports Prelude "HOL-Library.Word"
begin

text \<open>
  The routing graph of \<open>lib/Analysis/ArchViews/RoutingGraph.cpp\<close>: the memories, compute units and
  load/store units of a device as nodes, its datapaths as directed edges. Modelled: building the
  graph from the device IR, the queries, and the breadth-first search \<open>findShortestPath\<close>, which
  is shown to return, to find a path whenever there is one, and to find a shortest one.
\<close>

section \<open>The graph\<close>

type_synonym node_id = nat
type_synonym size_t = "64 word"

datatype resource_kind = Memory | Compute | LoadStoreUnit

record resource_node =
  rn_id :: node_id
  rn_resource :: resource
  rn_kind :: resource_kind
  total_capacity_in_bytes :: "size_t option"
  total_reserved_in_bytes :: "size_t option"

record edge_info =
  source :: node_id
  target :: node_id
  cost :: nat

text \<open>\<open>nodes_\<close> is a \<open>MapVector\<close>: entries in insertion order. The other two are hash maps.\<close>

record routing_graph =
  next_node_id :: node_id
  nodes :: "(node_id \<times> resource_node) list"
  adjacency :: "node_id \<Rightarrow> edge_info list option"
  resource_index :: "resource \<Rightarrow> node_id list option"

definition empty_graph :: routing_graph where
  "empty_graph = \<lparr>next_node_id = 0, nodes = [], adjacency = (\<lambda>_. None), resource_index = (\<lambda>_. None)\<rparr>"

text \<open>\<open>resource_index_[resource].push_back\<close> creates an empty list where there is none.\<close>

definition push_at :: "'k \<Rightarrow> 'v \<Rightarrow> ('k \<Rightarrow> 'v list option) \<Rightarrow> 'k \<Rightarrow> 'v list option" where
  "push_at k v m = m(k := Some ((case m k of None \<Rightarrow> [] | Some xs \<Rightarrow> xs) @ [v]))"

definition addNode :: "resource \<Rightarrow> resource_kind \<Rightarrow> routing_graph \<Rightarrow> routing_graph \<times> node_id" where
  "addNode res k g =
     (let n = next_node_id g;
          entry = \<lparr>rn_id = n, rn_resource = res, rn_kind = k,
                   total_capacity_in_bytes = None, total_reserved_in_bytes = None\<rparr>
      in (g\<lparr>next_node_id := Suc n,
            nodes := (if n \<in> fst ` set (nodes g) then nodes g else nodes g @ [(n, entry)]),
            resource_index := push_at res n (resource_index g)\<rparr>, n))"

definition hasNode :: "routing_graph \<Rightarrow> node_id \<Rightarrow> bool" where
  "hasNode g n \<longleftrightarrow> n \<in> fst ` set (nodes g)"

definition addEdge :: "node_id \<Rightarrow> node_id \<Rightarrow> nat \<Rightarrow> routing_graph \<Rightarrow> routing_graph option" where
  "addEdge s t c g =
     (if hasNode g s \<and> hasNode g t then
        Some (g\<lparr>adjacency := push_at s \<lparr>source = s, target = t, cost = c\<rparr> (adjacency g)\<rparr>)
      else None)"

definition getNode :: "routing_graph \<Rightarrow> node_id \<Rightarrow> resource_node option" where
  "getNode g n = map_of (nodes g) n"

definition getNeighbors :: "routing_graph \<Rightarrow> node_id \<Rightarrow> node_id list" where
  "getNeighbors g n =
     (case adjacency g n of None \<Rightarrow> [] | Some es \<Rightarrow> map target es)"

definition getEdgeInfo :: "routing_graph \<Rightarrow> node_id \<Rightarrow> node_id \<Rightarrow> edge_info option" where
  "getEdgeInfo g s t =
     (case adjacency g s of None \<Rightarrow> None | Some es \<Rightarrow> find (\<lambda>e. target e = t) es)"

text \<open>The two assertions: the resource is in the graph, and on one node only.\<close>

definition getNodeIdForResource :: "routing_graph \<Rightarrow> resource \<Rightarrow> node_id option" where
  "getNodeIdForResource g res =
     (case resource_index g res of
        None \<Rightarrow> None
      | Some ids \<Rightarrow> (if length ids = 1 then Some (hd ids) else None))"

definition getNodeIdsForResource :: "routing_graph \<Rightarrow> resource \<Rightarrow> node_id list" where
  "getNodeIdsForResource g res = (case resource_index g res of None \<Rightarrow> [] | Some ids \<Rightarrow> ids)"

definition getEdgeInfoForResources ::
  "routing_graph \<Rightarrow> resource \<Rightarrow> resource \<Rightarrow> edge_info option option" where
  "getEdgeInfoForResources g s t =
     do { source_node \<leftarrow> getNodeIdForResource g s;
          dest_node \<leftarrow> getNodeIdForResource g t;
          Some (getEdgeInfo g source_node dest_node) }"

definition getAllNodeIds :: "routing_graph \<Rightarrow> node_id list" where
  "getAllNodeIds g = map fst (nodes g)"

definition getNodeForResource :: "routing_graph \<Rightarrow> resource \<Rightarrow> resource_node option option" where
  "getNodeForResource g res = do { n \<leftarrow> getNodeIdForResource g res; Some (getNode g n) }"

definition getResourceCapacity :: "routing_graph \<Rightarrow> resource \<Rightarrow> size_t option option" where
  "getResourceCapacity g res =
     do { node \<leftarrow> getNodeForResource g res; Some (Option.bind node total_capacity_in_bytes) }"

definition getResourceReserved :: "routing_graph \<Rightarrow> resource \<Rightarrow> size_t option option" where
  "getResourceReserved g res =
     do { node \<leftarrow> getNodeForResource g res; Some (Option.bind node total_reserved_in_bytes) }"

text \<open>The subtraction is on \<open>size_t\<close>: it wraps when more is reserved than there is.\<close>

definition getResourceAvailable :: "routing_graph \<Rightarrow> resource \<Rightarrow> size_t option option" where
  "getResourceAvailable g res =
     do { capacity \<leftarrow> getResourceCapacity g res;
          reserved \<leftarrow> getResourceReserved g res;
          Some (case (capacity, reserved) of
                  (Some c, Some r) \<Rightarrow> Some (c - r)
                | _ \<Rightarrow> None) }"

definition stringifyResourceKind :: "resource_kind \<Rightarrow> string" where
  "stringifyResourceKind k =
     (case k of Memory \<Rightarrow> ''Memory'' | Compute \<Rightarrow> ''Compute'' | LoadStoreUnit \<Rightarrow> ''LoadStoreUnit'')"

section \<open>Building the graph from the device\<close>

text \<open>
  The operations of a device region, a dialect outside the repository, as data: the fields are
  what the accessors of each operation return, values are the SSA values.
\<close>

type_synonym ssa = nat

datatype dev_op =
    MemoryOp ssa "resource option" "int option" size_t
  | ExecutionUnitOp ssa "resource option" bool bool
  | GroupOp "resource option" "ssa list" "ssa list" "dev_op list" "ssa list option" "ssa list"
  | DatapathOp ssa ssa
  | OtherDevOp

record init_context =
  graph :: routing_graph
  value_to_node_id :: "ssa \<Rightarrow> node_id option"
  processed_group_kinds :: "resource set"
  node_sizes :: "node_id \<Rightarrow> size_t option"
  node_reserved :: "node_id \<Rightarrow> size_t option"

definition bind_value :: "ssa \<Rightarrow> node_id \<Rightarrow> init_context \<Rightarrow> init_context" where
  "bind_value v n ctx = ctx\<lparr>value_to_node_id := (value_to_node_id ctx)(v := Some n)\<rparr>"

definition processMemoryOp ::
  "ssa \<Rightarrow> resource option \<Rightarrow> int option \<Rightarrow> size_t \<Rightarrow> init_context \<Rightarrow> init_context option" where
  "processMemoryOp res k sz first_available ctx =
     (case k of
        None \<Rightarrow> None
      | Some kd \<Rightarrow>
          (let (g, n) = addNode kd Memory (graph ctx);
               ctx1 = bind_value res n (ctx\<lparr>graph := g\<rparr>);
               ctx2 = (case sz of
                         None \<Rightarrow> ctx1
                       | Some i \<Rightarrow> ctx1\<lparr>node_sizes := (node_sizes ctx1)(n := Some (word_of_int i))\<rparr>)
           in Some (ctx2\<lparr>node_reserved := (node_reserved ctx2)(n := Some first_available)\<rparr>)))"

definition processExecutionUnitOp ::
  "ssa \<Rightarrow> resource option \<Rightarrow> bool \<Rightarrow> bool \<Rightarrow> init_context \<Rightarrow> init_context" where
  "processExecutionUnitOp res k has_load has_store ctx =
     (let kd = (case k of None \<Rightarrow> ''exec_unit'' | Some q \<Rightarrow> q);
          is_ls = (has_load \<or> has_store);
          (g, n) = addNode kd (if is_ls then LoadStoreUnit else Compute) (graph ctx)
      in bind_value res n (ctx\<lparr>graph := g\<rparr>))"

text \<open>
  \<open>llvm::zip\<close> stops at the shorter list. A value that is not in the map fails the assertion.
\<close>

definition alias_values :: "(ssa \<times> ssa) list \<Rightarrow> init_context \<Rightarrow> init_context option" where
  "alias_values =
     foldM (\<lambda>(from, to) ctx. do { n \<leftarrow> value_to_node_id ctx from; Some (bind_value to n ctx) })"

definition skip_group :: "resource \<Rightarrow> ssa list \<Rightarrow> init_context \<Rightarrow> init_context" where
  "skip_group kd results =
     fold (\<lambda>res ctx. let (g, n) = addNode kd Compute (graph ctx) in bind_value res n (ctx\<lparr>graph := g\<rparr>))
       results"

definition processDatapathOp :: "ssa \<Rightarrow> ssa \<Rightarrow> init_context \<Rightarrow> init_context option" where
  "processDatapathOp s t ctx =
     do { source_id \<leftarrow> value_to_node_id ctx s;
          target_id \<leftarrow> value_to_node_id ctx t;
          if source_id = target_id then None
          else do { g \<leftarrow> addEdge source_id target_id 1 (graph ctx); Some (ctx\<lparr>graph := g\<rparr>) } }"

definition enter_group :: "resource option \<Rightarrow> init_context \<Rightarrow> init_context" where
  "enter_group k ctx =
     (case k of
        None \<Rightarrow> ctx
      | Some kd \<Rightarrow> ctx\<lparr>processed_group_kinds := insert kd (processed_group_kinds ctx)\<rparr>)"

definition known_group :: "resource option \<Rightarrow> init_context \<Rightarrow> resource option" where
  "known_group k ctx =
     (case k of
        None \<Rightarrow> None
      | Some kd \<Rightarrow> (if kd \<in> processed_group_kinds ctx then Some kd else None))"

fun processOp :: "dev_op \<Rightarrow> init_context \<Rightarrow> init_context option"
  and processRegion :: "dev_op list \<Rightarrow> init_context \<Rightarrow> init_context option" where
  "processOp (MemoryOp res k sz first_available) ctx = processMemoryOp res k sz first_available ctx"
| "processOp (ExecutionUnitOp res k ld st) ctx = Some (processExecutionUnitOp res k ld st ctx)"
| "processOp (GroupOp k shared block_args body yielded results) ctx =
     (case known_group k ctx of
        Some kd \<Rightarrow> Some (skip_group kd results ctx)
      | None \<Rightarrow>
          do { ctx1 \<leftarrow> alias_values (zip shared block_args) (enter_group k ctx);
               ctx2 \<leftarrow> processRegion body ctx1;
               (case yielded of
                  None \<Rightarrow> Some ctx2
                | Some operands \<Rightarrow> alias_values (zip operands results) ctx2) })"
| "processOp (DatapathOp s t) ctx = processDatapathOp s t ctx"
| "processOp OtherDevOp ctx = Some ctx"
| "processRegion [] ctx = Some ctx"
| "processRegion (x # xs) ctx = do { ctx1 \<leftarrow> processOp x ctx; processRegion xs ctx1 }"

text \<open>The sizes collected are written into the nodes; a node without a size gets no reserved bytes either.\<close>

definition apply_sizes :: "init_context \<Rightarrow> node_id \<times> resource_node \<Rightarrow> node_id \<times> resource_node" where
  "apply_sizes ctx e =
     (case node_sizes ctx (fst e) of
        None \<Rightarrow> e
      | Some sz \<Rightarrow>
          (fst e, (snd e)\<lparr>total_capacity_in_bytes := Some sz,
             total_reserved_in_bytes := Some (case node_reserved ctx (fst e) of None \<Rightarrow> 0 | Some r \<Rightarrow> r)\<rparr>))"

definition initialize :: "dev_op list \<Rightarrow> routing_graph option" where
  "initialize body =
     do { ctx \<leftarrow> processRegion body
            \<lparr>graph = empty_graph, value_to_node_id = (\<lambda>_. None), processed_group_kinds = {},
             node_sizes = (\<lambda>_. None), node_reserved = (\<lambda>_. None)\<rparr>;
          Some ((graph ctx)\<lparr>nodes := map (apply_sizes ctx) (nodes (graph ctx))\<rparr>) }"

section \<open>The shortest path\<close>

text \<open>The loop over the neighbours: visited set, predecessors, work list.\<close>

type_synonym bfs_state = "node_id set \<times> (node_id \<Rightarrow> node_id option) \<times> node_id list"

fun visit_neighbors :: "node_id \<Rightarrow> node_id list \<Rightarrow> bfs_state \<Rightarrow> bfs_state" where
  "visit_neighbors current [] s = s"
| "visit_neighbors current (n # ns) (visited, predecessor, worklist) =
     (if n \<in> visited then visit_neighbors current ns (visited, predecessor, worklist)
      else visit_neighbors current ns
             (insert n visited, predecessor(n := Some current), worklist @ [n]))"

partial_function (option) search ::
  "routing_graph \<Rightarrow> node_id \<Rightarrow> bfs_state \<Rightarrow> bfs_state option" where
  "search g goal s =
     (case snd (snd s) of
        [] \<Rightarrow> Some s
      | current # rest \<Rightarrow>
          (if current = goal then Some (fst s, fst (snd s), rest)
           else search g goal
             (visit_neighbors current (getNeighbors g current) (fst s, fst (snd s), rest))))"

declare search.simps [code]

text \<open>The loop back from the target; the inner \<open>None\<close> is \<open>nullopt\<close>.\<close>

partial_function (option) trace_back ::
  "(node_id \<Rightarrow> node_id option) \<Rightarrow> node_id \<Rightarrow> node_id \<Rightarrow> node_id list \<Rightarrow> node_id list option option" where
  "trace_back predecessor src current reversed_path =
     (if current = src then Some (Some reversed_path)
      else case predecessor current of
             None \<Rightarrow> Some None
           | Some p \<Rightarrow> trace_back predecessor src p (reversed_path @ [p]))"

declare trace_back.simps [code]

definition findShortestPath ::
  "routing_graph \<Rightarrow> node_id \<Rightarrow> node_id \<Rightarrow> node_id list option option" where
  "findShortestPath g src dst =
     (if \<not> hasNode g src \<or> \<not> hasNode g dst then Some None
      else do { s \<leftarrow> search g dst ({src}, \<lambda>_. None, [src]);
                if dst \<notin> fst s then Some None
                else do { r \<leftarrow> trace_back (fst (snd s)) src dst [dst];
                          Some (map_option rev r) } })"

section \<open>Well-formed graphs\<close>

text \<open>
  What the graph class keeps: ids are the positions in \<open>nodes_\<close>, edges connect nodes of the graph
  and are stored at their source, and the index lists, in order, the nodes of each resource.
\<close>

definition graph_wf :: "routing_graph \<Rightarrow> bool" where
  "graph_wf g \<longleftrightarrow>
     map fst (nodes g) = [0..<next_node_id g] \<and>
     (\<forall>(n, e)\<in>set (nodes g). rn_id e = n) \<and>
     (\<forall>s es. adjacency g s = Some es \<longrightarrow> hasNode g s \<and> (\<forall>e\<in>set es. source e = s \<and> hasNode g (target e))) \<and>
     (\<forall>res. getNodeIdsForResource g res = map fst (filter (\<lambda>(n, e). rn_resource e = res) (nodes g))) \<and>
     (\<forall>res. resource_index g res \<noteq> Some [])"

lemma hasNode_wf: "graph_wf g \<Longrightarrow> hasNode g n \<longleftrightarrow> n < next_node_id g"
proof -
  assume "graph_wf g"
  then have "set (map fst (nodes g)) = {0..<next_node_id g}" by (simp add: graph_wf_def)
  then show ?thesis by (simp add: hasNode_def)
qed

lemma getNeighbors_wf:
  "graph_wf g \<Longrightarrow> v \<in> set (getNeighbors g u) \<Longrightarrow> hasNode g u \<and> hasNode g v"
proof -
  assume g: "graph_wf g" and v: "v \<in> set (getNeighbors g u)"
  then obtain es e where "adjacency g u = Some es" "e \<in> set es" "v = target e"
    unfolding getNeighbors_def by (cases "adjacency g u") auto
  with g show ?thesis unfolding graph_wf_def by blast
qed

definition links_of :: "routing_graph \<Rightarrow> (node_id \<times> node_id) set" where
  "links_of g = {(u, v). v \<in> set (getNeighbors g u)}"

text \<open>A route: a list of nodes from one to the other, each linked to the following one.\<close>

definition route :: "('n \<times> 'n) set \<Rightarrow> 'n \<Rightarrow> 'n \<Rightarrow> 'n list \<Rightarrow> bool" where
  "route r a b xs \<longleftrightarrow> xs \<noteq> [] \<and> hd xs = a \<and> last xs = b \<and> successively (\<lambda>u v. (u, v) \<in> r) xs"

lemma route_single [simp]: "route r a b [x] \<longleftrightarrow> a = x \<and> b = x"
  by (auto simp: route_def)

lemma route_append:
  "route r a b (xs @ [u]) \<Longrightarrow> (u, c) \<in> r \<Longrightarrow> route r a c (xs @ [u, c])"
  by (auto simp: route_def successively_append_iff hd_append)

lemma route_reach: "route r a b xs \<Longrightarrow> (a, b) \<in> r\<^sup>*"
proof (induction xs arbitrary: a)
  case (Cons x xs)
  then show ?case
    by (cases xs) (auto simp: route_def intro: converse_rtrancl_into_rtrancl)
qed (simp add: route_def)

lemma reach_route: "(a, b) \<in> r\<^sup>* \<Longrightarrow> \<exists>xs. route r a b xs"
proof (induction rule: converse_rtrancl_induct)
  case base
  have "route r b b [b]" by simp
  then show ?case by blast
next
  case (step y z)
  then obtain xs where "route r z b xs" by blast
  with step(1) have "route r y b (y # xs)" by (cases xs) (auto simp: route_def)
  then show ?case by blast
qed

section \<open>The search is correct\<close>

lemma visit_neighbors_spec:
  "\<exists>new. visit_neighbors c ns (V, P, wl) =
       (V \<union> set ns, (\<lambda>x. if x \<in> set new then Some c else P x), wl @ new) \<and>
     distinct new \<and> set new = set ns - V"
proof (induction ns arbitrary: V P wl)
  case (Cons n ns)
  show ?case
  proof (cases "n \<in> V")
    case True
    obtain new where "visit_neighbors c ns (V, P, wl) =
       (V \<union> set ns, (\<lambda>x. if x \<in> set new then Some c else P x), wl @ new)"
      "distinct new" "set new = set ns - V"
      using Cons.IH by blast
    with True show ?thesis by (intro exI [of _ new]) auto
  next
    case False
    obtain new where "visit_neighbors c ns (insert n V, P(n := Some c), wl @ [n]) =
       (insert n V \<union> set ns, (\<lambda>x. if x \<in> set new then Some c else (P(n := Some c)) x), (wl @ [n]) @ new)"
      "distinct new" "set new = set ns - insert n V"
      using Cons.IH by blast
    with False show ?thesis by (intro exI [of _ "n # new"]) (auto simp: fun_eq_iff)
  qed
qed simp

text \<open>
  What holds at the head of the loop, for a level \<open>d\<close> of every visited node: predecessors are one
  level up, edges of finished nodes go to visited nodes at most one level down, and the work list
  is sorted by level and spans at most two levels.
\<close>

definition search_inv ::
  "routing_graph \<Rightarrow> node_id \<Rightarrow> (node_id \<Rightarrow> nat) \<Rightarrow> bfs_state \<Rightarrow> bool" where
  "search_inv g src d s \<longleftrightarrow> (case s of (V, P, wl) \<Rightarrow>
     src \<in> V \<and> d src = 0 \<and> V \<subseteq> {n. hasNode g n} \<and> distinct wl \<and> set wl \<subseteq> V \<and>
     (\<forall>v\<in>V - {src}. \<exists>u\<in>V. P v = Some u \<and> (u, v) \<in> links_of g \<and> d v = Suc (d u)) \<and>
     (\<forall>u\<in>V - set wl. \<forall>v. (u, v) \<in> links_of g \<longrightarrow> v \<in> V \<and> d v \<le> Suc (d u)) \<and>
     sorted (map d wl) \<and> (\<forall>x\<in>set wl. \<forall>y\<in>set wl. d x \<le> Suc (d y)) \<and>
     (\<forall>u\<in>V - set wl. \<forall>x\<in>set wl. d u \<le> d x))"

lemma search_step:
  assumes g: "graph_wf g" and inv: "search_inv g src d (V, P, c # rest)"
  defines "s' \<equiv> visit_neighbors c (getNeighbors g c) (V, P, rest)"
  shows "\<exists>d'. search_inv g src d' s'"
    and "card ({n. hasNode g n} - fst s') + length (snd (snd s')) <
      card ({n. hasNode g n} - V) + length (c # rest)"
proof -
  let ?N = "{n. hasNode g n}"
  note I = inv [unfolded search_inv_def, simplified]
  obtain new where new: "s' = (V \<union> set (getNeighbors g c),
      (\<lambda>x. if x \<in> set new then Some c else P x), rest @ new)"
    "distinct new" "set new = set (getNeighbors g c) - V"
    using visit_neighbors_spec unfolding s'_def by blast
  have fin: "finite ?N" using hasNode_wf [OF g] by simp
  have nbr: "set (getNeighbors g c) \<subseteq> ?N" using getNeighbors_wf [OF g] by blast
  have union: "V \<union> set (getNeighbors g c) = V \<union> set new" using new(3) by blast
  have part: "?N - V = (?N - (V \<union> set new)) \<union> set new" using nbr new(3) by auto
  have "card (?N - V) = card (?N - (V \<union> set new)) + card (set new)"
    unfolding part by (rule card_Un_disjoint) (use fin in auto)
  then have "card (?N - V) = card (?N - (V \<union> set new)) + length new"
    using new(2) by (simp add: distinct_card)
  then show "card (?N - fst s') + length (snd (snd s')) < card (?N - V) + length (c # rest)"
    unfolding new(1) by (simp add: union)
  let ?d = "\<lambda>x. if x \<in> set new then Suc (d c) else d x"
  have old: "?d x = d x" if "x \<in> V" for x using that new(3) by simp
  have cV: "c \<in> V" using I by blast
  have rest_hi: "d x \<le> Suc (d c)" if "x \<in> set rest" for x using I that by auto
  have rest_lo: "d c \<le> d x" if "x \<in> set rest" for x using I that by auto
  have V_hi: "d x \<le> Suc (d c)" if "x \<in> V" for x
  proof (cases "x \<in> set (c # rest)")
    case True
    then show ?thesis using rest_hi by auto
  next
    case False
    then have "x \<in> V - insert c (set rest)" using that by simp
    then have "d x \<le> d c" using I by blast
    then show ?thesis by simp
  qed
  have "search_inv g src ?d s'"
    unfolding search_inv_def new(1) prod.case union
  proof (intro conjI)
    show "src \<in> V \<union> set new" "?d src = 0" using I new(3) by auto
    show "V \<union> set new \<subseteq> ?N" using I nbr new(3) by auto
    show "distinct (rest @ new)" using I new(2,3) by auto
    show "set (rest @ new) \<subseteq> V \<union> set new" using I by auto
    show "\<forall>v\<in>V \<union> set new - {src}. \<exists>u\<in>V \<union> set new.
        (if v \<in> set new then Some c else P v) = Some u \<and> (u, v) \<in> links_of g \<and> ?d v = Suc (?d u)"
    proof
      fix v assume v: "v \<in> V \<union> set new - {src}"
      show "\<exists>u\<in>V \<union> set new.
        (if v \<in> set new then Some c else P v) = Some u \<and> (u, v) \<in> links_of g \<and> ?d v = Suc (?d u)"
      proof (cases "v \<in> set new")
        case True
        then show ?thesis using cV old [OF cV] new(3) by (intro bexI [of _ c]) (auto simp: links_of_def)
      next
        case False
        then have vV: "v \<in> V - {src}" using v by blast
        then obtain u where "u \<in> V" "P v = Some u" "(u, v) \<in> links_of g" "d v = Suc (d u)"
          using I by blast
        then show ?thesis using False old [of u] by (intro bexI [of _ u]) auto
      qed
    qed
    show "\<forall>u\<in>V \<union> set new - set (rest @ new). \<forall>v. (u, v) \<in> links_of g \<longrightarrow>
        v \<in> V \<union> set new \<and> ?d v \<le> Suc (?d u)"
    proof (intro ballI allI impI)
      fix u v assume u: "u \<in> V \<union> set new - set (rest @ new)" and e: "(u, v) \<in> links_of g"
      then have uV: "u \<in> V" by auto
      show "v \<in> V \<union> set new \<and> ?d v \<le> Suc (?d u)"
      proof (cases "u = c")
        case True
        then have "v \<in> V \<union> set new" using e new(3) by (auto simp: links_of_def)
        then show ?thesis using True old [OF cV] V_hi old [of v] by auto
      next
        case False
        then have "u \<in> V - set (c # rest)" using u by auto
        then have u': "u \<in> V - insert c (set rest)" by simp
        have "\<forall>u\<in>V - insert c (set rest). \<forall>v. (u, v) \<in> links_of g \<longrightarrow> v \<in> V \<and> d v \<le> Suc (d u)"
          using I by blast
        with u' e have "v \<in> V \<and> d v \<le> Suc (d u)" by blast
        then show ?thesis using old [of v] old [OF uV] by simp
      qed
    qed
    have restV: "set rest \<subseteq> V" using I by blast
    have rd: "map ?d rest = map d rest"
    proof (rule map_cong [OF refl])
      fix x assume "x \<in> set rest"
      then show "?d x = d x" using restV old by blast
    qed
    have nd: "map ?d new = replicate (length new) (Suc (d c))" by (intro nth_equalityI) auto
    have rest_sorted: "sorted (map d rest)" using I by auto
    have "sorted (map ?d rest @ map ?d new)"
      unfolding rd nd sorted_append using rest_sorted rest_hi by (simp only: set_map set_replicate_conv_if) auto
    then show "sorted (map ?d (rest @ new))" by simp
    have lo: "d c \<le> ?d x" and hi: "?d x \<le> Suc (d c)" if "x \<in> set (rest @ new)" for x
      using that rest_lo rest_hi I new(3) by auto
    then show "\<forall>x\<in>set (rest @ new). \<forall>y\<in>set (rest @ new). ?d x \<le> Suc (?d y)"
      by (meson Suc_le_mono le_trans)
    show "\<forall>u\<in>V \<union> set new - set (rest @ new). \<forall>x\<in>set (rest @ new). ?d u \<le> ?d x"
    proof (intro ballI)
      fix u x assume u: "u \<in> V \<union> set new - set (rest @ new)" and x: "x \<in> set (rest @ new)"
      then have uV: "u \<in> V" and "u = c \<or> u \<in> V - set (c # rest)" by auto
      moreover have "\<forall>u\<in>V - insert c (set rest). d u \<le> d c" using I by blast
      ultimately have "d u \<le> d c" by auto
      then show "?d u \<le> ?d x" using lo [OF x] old [OF uV] by simp
    qed
  qed
  then show "\<exists>d'. search_inv g src d' s'" by blast
qed

lemma search_returns:
  assumes g: "graph_wf g" and inv: "search_inv g src d s"
  shows "\<exists>V P wl d'. search g goal s = Some (V, P, tl wl) \<and> search_inv g src d' (V, P, wl) \<and>
    (wl = [] \<or> (\<exists>rest. wl = goal # rest))"
  using inv
proof (induction "card ({n. hasNode g n} - fst s) + length (snd (snd s))" arbitrary: s d rule: less_induct)
  case less
  obtain V P wl where s: "s = (V, P, wl)" by (cases s)
  show ?case
  proof (cases wl)
    case Nil
    then have "search g goal s = Some (V, P, tl wl)" using s by (subst search.simps) simp
    then show ?thesis using less.prems s Nil by blast
  next
    case (Cons c rest)
    show ?thesis
    proof (cases "c = goal")
      case True
      then have "search g goal s = Some (V, P, tl wl)" using s Cons by (subst search.simps) simp
      then show ?thesis using less.prems s Cons True by blast
    next
      case False
      note st = search_step [OF g less.prems [unfolded s Cons]]
      obtain d' where d': "search_inv g src d' (visit_neighbors c (getNeighbors g c) (V, P, rest))"
        using st(1) by blast
      from less.hyps [OF _ d'] st(2) s Cons False show ?thesis
        by (subst search.simps) simp
    qed
  qed
qed

text \<open>No route to the goal is shorter than its level.\<close>

lemma level_minimal:
  assumes inv: "search_inv g src d (V, P, wl)" and r: "route (links_of g) src v xs"
    and goal: "wl = [] \<or> (\<exists>rest. wl = v # rest)"
  shows "v \<in> V \<and> d v < length xs"
proof -
  note I = inv [unfolded search_inv_def, simplified]
  have fin: "x \<in> V - set wl \<and> d x \<le> i \<or> (wl \<noteq> [] \<and> d (hd wl) \<le> i)"
    if "i < length xs" "x = xs ! i" for i x
    using that
  proof (induction i arbitrary: x)
    case 0
    then have x: "x = src" using r by (simp add: route_def hd_conv_nth)
    show ?case
    proof (cases "src \<in> set wl")
      case True
      then obtain c rest where wl: "wl = c # rest" by (cases wl) auto
      have "sorted (map d wl)" using I by blast
      then have "d c \<le> d src" using True wl by auto
      then show ?thesis using wl I by simp
    next
      case False
      then show ?thesis using x I by auto
    qed
  next
    case (Suc i)
    then have "xs ! i \<in> V - set wl \<and> d (xs ! i) \<le> i \<or> (wl \<noteq> [] \<and> d (hd wl) \<le> i)" by simp
    then show ?case
    proof
      assume u: "xs ! i \<in> V - set wl \<and> d (xs ! i) \<le> i"
      have "(xs ! i, x) \<in> links_of g"
        using r Suc.prems by (simp add: route_def successively_conv_nth)
      then have x: "x \<in> V" "d x \<le> Suc i" using u I by (meson Suc_le_mono le_trans)+
      show ?case
      proof (cases "x \<in> set wl")
        case True
        then obtain c rest where wl: "wl = c # rest" by (cases wl) auto
        have "sorted (map d wl)" using I by blast
        then have "d c \<le> d x" using True wl by auto
        then show ?thesis using wl x(2) by simp
      qed (use x in blast)
    qed auto
  qed
  have l: "length xs - 1 < length xs" "v = xs ! (length xs - 1)"
    using r by (auto simp: route_def last_conv_nth)
  from fin [OF this] show ?thesis
  proof
    assume "v \<in> V - set wl \<and> d v \<le> length xs - 1"
    then show ?thesis using l(1) by auto
  next
    assume a: "wl \<noteq> [] \<and> d (hd wl) \<le> length xs - 1"
    then have "hd wl = v" using goal by auto
    then show ?thesis using a I l(1) by (metis le_less_trans list.set_sel(1) subsetD)
  qed
qed

lemma trace_back_route:
  assumes inv: "search_inv g src d (V, P, wl)" and v: "v \<in> V"
    and acc: "acc \<noteq> []" "last acc = v"
    and tail: "successively (\<lambda>u v. (u, v) \<in> links_of g) (rev acc)"
  shows "\<exists>xs. trace_back P src v acc = Some (Some xs) \<and> length xs = length acc + d v \<and>
    hd xs = hd acc \<and> last xs = src \<and> successively (\<lambda>u v. (u, v) \<in> links_of g) (rev xs)"
  using assms(2-)
proof (induction "d v" arbitrary: v acc)
  case 0
  have "v = src"
  proof (rule ccontr)
    assume "v \<noteq> src"
    then obtain u where "d v = Suc (d u)"
      using inv 0 unfolding search_inv_def prod.case by blast
    with 0 show False by simp
  qed
  then show ?case using 0 by (subst trace_back.simps) simp
next
  case (Suc n)
  have vs: "v \<noteq> src" using Suc.hyps(2) inv unfolding search_inv_def prod.case by auto
  then obtain u where u: "u \<in> V" "P v = Some u" "(u, v) \<in> links_of g" "d v = Suc (d u)"
    using inv Suc.prems(1) unfolding search_inv_def prod.case by blast
  have "rev acc \<noteq> []" "hd (rev acc) = v" using Suc.prems by (simp_all add: hd_rev)
  then have s: "successively (\<lambda>u v. (u, v) \<in> links_of g) (rev (acc @ [u]))"
    using Suc.prems(4) u(3) by (simp add: successively_Cons)
  have "trace_back P src v acc = trace_back P src u (acc @ [u])"
    using vs u(2) by (subst trace_back.simps) simp
  moreover have "n = d u" using Suc.hyps(2) u(4) by simp
  ultimately show ?case
    using Suc.hyps(1) [of u "acc @ [u]"] u(1,4) s Suc.prems(2) by (auto simp: hd_append)
qed

lemma start_inv:
  "graph_wf g \<Longrightarrow> hasNode g src \<Longrightarrow> search_inv g src (\<lambda>_. 0) ({src}, \<lambda>_. None, [src])"
  by (simp add: search_inv_def)

lemma findShortestPath_sound:
  assumes g: "graph_wf g" and s: "hasNode g src" and t: "hasNode g dst"
  shows "\<exists>r. findShortestPath g src dst = Some r \<and>
    (r = None \<longleftrightarrow> (src, dst) \<notin> (links_of g)\<^sup>*) \<and>
    (\<forall>p. r = Some p \<longrightarrow> route (links_of g) src dst p \<and>
      (\<forall>q. route (links_of g) src dst q \<longrightarrow> length p \<le> length q))"
proof -
  obtain V P wl d where r: "search g dst ({src}, \<lambda>_. None, [src]) = Some (V, P, tl wl)"
    "search_inv g src d (V, P, wl)" "wl = [] \<or> (\<exists>rest. wl = dst # rest)"
    using search_returns [OF g start_inv [OF g s], of dst] by blast
  show ?thesis
  proof (cases "dst \<in> V")
    case False
    then have "findShortestPath g src dst = Some None" using r s t by (simp add: findShortestPath_def)
    moreover have "(src, dst) \<notin> (links_of g)\<^sup>*"
      using reach_route [of src dst "links_of g"] level_minimal [OF r(2) _ r(3)] False by blast
    ultimately show ?thesis by simp
  next
    case True
    obtain xs where xs: "trace_back P src dst [dst] = Some (Some xs)" "length xs = Suc (d dst)"
      "hd xs = dst" "last xs = src" "successively (\<lambda>u v. (u, v) \<in> links_of g) (rev xs)"
      using trace_back_route [OF r(2) True, of "[dst]"] by auto
    have eq: "findShortestPath g src dst = Some (Some (rev xs))"
      using r(1) s t True xs(1) by (simp add: findShortestPath_def)
    have rt: "route (links_of g) src dst (rev xs)"
      using xs by (cases "xs = []") (auto simp: route_def hd_rev last_rev)
    have "length (rev xs) \<le> length q" if "route (links_of g) src dst q" for q
      using level_minimal [OF r(2) that r(3)] xs(2) by simp
    then show ?thesis using eq rt route_reach [OF rt] by auto
  qed
qed

section \<open>The contract of routing\<close>

text \<open>
  What the path-expansion planner relies on: a query returns a shortest route, or says that there
  is none. A shortest route visits no node twice.
\<close>

locale shortest_routes =
  fixes wf_g :: "'g \<Rightarrow> bool"
    and has_node :: "'g \<Rightarrow> 'n \<Rightarrow> bool"
    and step :: "'g \<Rightarrow> ('n \<times> 'n) set"
    and find_route :: "'g \<Rightarrow> 'n \<Rightarrow> 'n \<Rightarrow> 'n list option option"
  assumes find_returns: "wf_g g \<Longrightarrow> has_node g a \<Longrightarrow> has_node g b \<Longrightarrow> \<exists>r. find_route g a b = Some r"
    and find_complete: "wf_g g \<Longrightarrow> has_node g a \<Longrightarrow> has_node g b \<Longrightarrow>
      find_route g a b = Some None \<longleftrightarrow> (a, b) \<notin> (step g)\<^sup>*"
    and find_sound: "wf_g g \<Longrightarrow> find_route g a b = Some (Some p) \<Longrightarrow>
      has_node g a \<and> has_node g b \<and> route (step g) a b p"
    and find_shortest: "wf_g g \<Longrightarrow> find_route g a b = Some (Some p) \<Longrightarrow> route (step g) a b q \<Longrightarrow>
      length p \<le> length q"
begin

lemma route_cut:
  assumes "route (step g) a b (xs @ c # ys @ c # zs)"
  shows "route (step g) a b (xs @ c # zs)"
  using assms
  by (cases xs) (auto simp: route_def successively_append_iff successively_Cons hd_append split: if_splits)

lemma find_distinct:
  assumes "wf_g g" and "find_route g a b = Some (Some p)"
  shows "distinct p"
proof (rule ccontr)
  assume "\<not> distinct p"
  then obtain xs ys zs c where p: "p = xs @ [c] @ ys @ [c] @ zs" by (meson not_distinct_decomp)
  then have "route (step g) a b (xs @ c # zs)"
    using find_sound [OF assms] route_cut [of g a b xs c ys zs] by simp
  from find_shortest [OF assms this] p show False by simp
qed

lemma find_same:
  assumes "wf_g g" and "find_route g a a = Some (Some p)"
  shows "p = [a]"
proof -
  have r: "route (step g) a a p" using find_sound [OF assms] by blast
  have "route (step g) a a [a]" by simp
  from find_shortest [OF assms this] r show ?thesis by (cases p) (auto simp: route_def)
qed

text \<open>The nodes strictly between the ends of a route; with the ends they are the whole route.\<close>

lemma find_ends:
  assumes "wf_g g" and "find_route g a b = Some (Some p)" and "a \<noteq> b"
  shows "\<exists>hops. p = a # hops @ [b] \<and> a \<notin> set hops \<and> b \<notin> set hops \<and> distinct hops"
proof -
  have r: "route (step g) a b p" using find_sound [OF assms(1,2)] by blast
  then obtain q where q: "p = a # q" by (cases p) (auto simp: route_def)
  with r assms(3) have "q \<noteq> [] \<and> last q = b" by (auto simp: route_def split: if_splits)
  then obtain hops where "q = hops @ [b]" by (metis append_butlast_last_id)
  with q find_distinct [OF assms(1,2)] show ?thesis by auto
qed

end

interpretation arch: shortest_routes graph_wf hasNode links_of findShortestPath
proof unfold_locales
  fix g a b p q
  assume g: "graph_wf g"
  show "hasNode g a \<Longrightarrow> hasNode g b \<Longrightarrow> \<exists>r. findShortestPath g a b = Some r"
    using findShortestPath_sound [OF g] by blast
  show "hasNode g a \<Longrightarrow> hasNode g b \<Longrightarrow> (findShortestPath g a b = Some None) = ((a, b) \<notin> (links_of g)\<^sup>*)"
    using findShortestPath_sound [OF g, of a b] by auto
  assume f: "findShortestPath g a b = Some (Some p)"
  then have nodes: "hasNode g a" "hasNode g b" by (auto simp: findShortestPath_def split: if_splits)
  then show "hasNode g a \<and> hasNode g b \<and> route (links_of g) a b p"
    using findShortestPath_sound [OF g nodes] f by auto
  show "route (links_of g) a b q \<Longrightarrow> length p \<le> length q"
    using findShortestPath_sound [OF g nodes] f by auto
qed

section \<open>Initialization builds a well-formed graph\<close>

lemma addNode_wf:
  assumes "graph_wf g" and "addNode res k g = (g', n)"
  shows "graph_wf g'" and "n = next_node_id g" and "hasNode g' m \<longleftrightarrow> hasNode g m \<or> m = n"
    and "nodes g' = nodes g @ [(n, \<lparr>rn_id = n, rn_resource = res, rn_kind = k,
      total_capacity_in_bytes = None, total_reserved_in_bytes = None\<rparr>)]"
    and "links_of g' = links_of g"
proof -
  have fresh: "next_node_id g \<notin> fst ` set (nodes g)"
    using hasNode_wf [OF assms(1), of "next_node_id g"] by (simp add: hasNode_def)
  have g': "n = next_node_id g" "g' = g\<lparr>next_node_id := Suc n, nodes := nodes g @
      [(n, \<lparr>rn_id = n, rn_resource = res, rn_kind = k,
        total_capacity_in_bytes = None, total_reserved_in_bytes = None\<rparr>)],
      resource_index := push_at res n (resource_index g)\<rparr>"
    using assms(2) fresh by (auto simp: addNode_def Let_def)
  then show "n = next_node_id g" "nodes g' = nodes g @ [(n, \<lparr>rn_id = n, rn_resource = res, rn_kind = k,
      total_capacity_in_bytes = None, total_reserved_in_bytes = None\<rparr>)]" by simp_all
  show h: "hasNode g' m \<longleftrightarrow> hasNode g m \<or> m = n" for m by (auto simp: hasNode_def g'(2))
  show "links_of g' = links_of g" by (simp add: links_of_def getNeighbors_def g'(2))
  note W = assms(1) [unfolded graph_wf_def]
  show "graph_wf g'"
    unfolding graph_wf_def
  proof (intro conjI)
    show "map fst (nodes g') = [0..<next_node_id g']" using W by (simp add: g')
    show "\<forall>(n, e)\<in>set (nodes g'). rn_id e = n" using W by (simp add: g')
    show "\<forall>s es. adjacency g' s = Some es \<longrightarrow> hasNode g' s \<and> (\<forall>e\<in>set es. source e = s \<and> hasNode g' (target e))"
      using W h by (simp add: g'(2))
    show "\<forall>r. getNodeIdsForResource g' r = map fst (filter (\<lambda>(n, e). rn_resource e = r) (nodes g'))"
    proof
      fix r
      have "getNodeIdsForResource g r = map fst (filter (\<lambda>(n, e). rn_resource e = r) (nodes g))"
        using W by blast
      then show "getNodeIdsForResource g' r = map fst (filter (\<lambda>(n, e). rn_resource e = r) (nodes g'))"
        by (cases "r = res") (simp_all add: getNodeIdsForResource_def push_at_def g'(2))
    qed
    show "\<forall>r. resource_index g' r \<noteq> Some []" using W by (simp add: push_at_def g'(2))
  qed
qed

lemma addEdge_wf:
  assumes "graph_wf g" and "addEdge s t c g = Some g'"
  shows "graph_wf g'" and "hasNode g' m \<longleftrightarrow> hasNode g m" and "nodes g' = nodes g"
    and "links_of g' = insert (s, t) (links_of g)"
proof -
  have g': "hasNode g s" "hasNode g t"
    "g' = g\<lparr>adjacency := push_at s \<lparr>source = s, target = t, cost = c\<rparr> (adjacency g)\<rparr>"
    using assms(2) by (auto simp: addEdge_def split: if_splits)
  then show h: "hasNode g' m \<longleftrightarrow> hasNode g m" and "nodes g' = nodes g" for m
    by (simp_all add: hasNode_def)
  show "links_of g' = insert (s, t) (links_of g)"
  proof -
    have "getNeighbors g' u = (if u = s then getNeighbors g s @ [t] else getNeighbors g u)" for u
      by (simp add: getNeighbors_def push_at_def g'(3) split: option.split)
    then show ?thesis by (auto simp: links_of_def split: if_splits)
  qed
  note W = assms(1) [unfolded graph_wf_def]
  show "graph_wf g'"
    unfolding graph_wf_def
  proof (intro conjI)
    show "\<forall>a es. adjacency g' a = Some es \<longrightarrow> hasNode g' a \<and> (\<forall>e\<in>set es. source e = a \<and> hasNode g' (target e))"
    proof (intro allI impI)
      fix a es assume a: "adjacency g' a = Some es"
      show "hasNode g' a \<and> (\<forall>e\<in>set es. source e = a \<and> hasNode g' (target e))"
      proof (cases "a = s")
        case True
        then have es: "es = (case adjacency g s of None \<Rightarrow> [] | Some xs \<Rightarrow> xs) @ [\<lparr>source = s, target = t, cost = c\<rparr>]"
          using a by (simp add: push_at_def g'(3))
        have "\<forall>e\<in>set (case adjacency g s of None \<Rightarrow> [] | Some xs \<Rightarrow> xs). source e = s \<and> hasNode g (target e)"
          using W by (cases "adjacency g s") auto
        then show ?thesis using True es g'(1,2) h by auto
      next
        case False
        then have "adjacency g a = Some es" using a by (simp add: push_at_def g'(3))
        then show ?thesis using W h by blast
      qed
    qed
  qed (use W in \<open>simp_all add: g'(3) getNodeIdsForResource_def\<close>)
qed

text \<open>What holds of the context between two operations.\<close>

definition blank :: "resource_node \<Rightarrow> bool" where
  "blank e \<longleftrightarrow> total_capacity_in_bytes e = None \<and> total_reserved_in_bytes e = None"

definition ctx_wf :: "init_context \<Rightarrow> bool" where
  "ctx_wf ctx \<longleftrightarrow> graph_wf (graph ctx) \<and>
     (\<forall>v n. value_to_node_id ctx v = Some n \<longrightarrow> hasNode (graph ctx) n) \<and>
     (\<forall>(n, e)\<in>set (nodes (graph ctx)). blank e \<and> (node_sizes ctx n \<noteq> None \<longrightarrow> rn_kind e = Memory)) \<and>
     (\<forall>n. node_sizes ctx n \<noteq> None \<longrightarrow> hasNode (graph ctx) n) \<and>
     (\<forall>n. (n, n) \<notin> links_of (graph ctx))"

lemma bind_value_wf: "ctx_wf ctx \<Longrightarrow> hasNode (graph ctx) n \<Longrightarrow> ctx_wf (bind_value v n ctx)"
  by (auto simp: ctx_wf_def bind_value_def)

lemma new_resource_wf:
  assumes c: "ctx_wf ctx" and a: "addNode kd k (graph ctx) = (g, n)"
  shows "ctx_wf (bind_value v n (ctx\<lparr>graph := g\<rparr>))"
proof (rule bind_value_wf)
  note C = c [unfolded ctx_wf_def]
  have g: "graph_wf (graph ctx)" using C by blast
  note A = addNode_wf [OF g a]
  have n: "node_sizes ctx n = None" using C hasNode_wf [OF g] A(2) by (metis less_irrefl)
  show "ctx_wf (ctx\<lparr>graph := g\<rparr>)"
    using C A(1,3,4,5) n by (auto simp: ctx_wf_def blank_def)
  show "hasNode (graph (ctx\<lparr>graph := g\<rparr>)) n" using A(3) by simp
qed

lemma alias_values_wf: "alias_values ps ctx = Some ctx' \<Longrightarrow> ctx_wf ctx \<Longrightarrow> ctx_wf ctx'"
  unfolding alias_values_def
proof (erule foldM_invariant, assumption)
  fix x s s'
  assume "ctx_wf s" and "(case x of (from, to) \<Rightarrow> \<lambda>ctx. do { n \<leftarrow> value_to_node_id ctx from; Some (bind_value to n ctx) }) s = Some s'"
  moreover from this obtain n where "value_to_node_id s (fst x) = Some n" "s' = bind_value (snd x) n s"
    by (auto split: prod.splits Option.bind_splits)
  moreover from calculation have "hasNode (graph s) n" unfolding ctx_wf_def by blast
  ultimately show "ctx_wf s'" by (simp add: bind_value_wf)
qed

lemma skip_group_wf: "ctx_wf ctx \<Longrightarrow> ctx_wf (skip_group kd rs ctx)"
  unfolding skip_group_def
  by (induction rs arbitrary: ctx) (auto simp: Let_def new_resource_wf split: prod.split)

lemma processMemoryOp_wf:
  assumes c: "ctx_wf ctx" and p: "processMemoryOp res k sz fa ctx = Some ctx'"
  shows "ctx_wf ctx'"
proof -
  obtain kd where k: "k = Some kd" using p by (auto simp: processMemoryOp_def split: option.splits)
  obtain g n where a: "addNode kd Memory (graph ctx) = (g, n)" by (cases "addNode kd Memory (graph ctx)")
  let ?c = "bind_value res n (ctx\<lparr>graph := g\<rparr>)"
  have w: "ctx_wf ?c" using new_resource_wf [OF c a] .
  have g: "graph_wf (graph ctx)" using c by (simp add: ctx_wf_def)
  note A = addNode_wf [OF g a]
  have old: "e = e'" if "(n, e) \<in> set (nodes g)" "(n, e') \<in> set (nodes g)" for e e'
  proof -
    have "distinct (map fst (nodes g))" using A(1) by (simp add: graph_wf_def)
    then show ?thesis using that by (metis eq_key_imp_eq_value)
  qed
  have mem: "rn_kind e = Memory" if "(n, e) \<in> set (nodes g)" for e
    using old [OF that] A(4) by fastforce
  have "ctx' = (case sz of None \<Rightarrow> ?c | Some i \<Rightarrow> ?c\<lparr>node_sizes := (node_sizes ?c)(n := Some (word_of_int i))\<rparr>)
      \<lparr>node_reserved := (node_reserved ctx)(n := Some fa)\<rparr>"
    using p k a by (cases sz) (auto simp: processMemoryOp_def bind_value_def)
  then show ?thesis
    using w mem A(3) by (cases sz) (auto simp: ctx_wf_def bind_value_def split: if_splits)
qed

lemma processDatapathOp_wf:
  assumes c: "ctx_wf ctx" and p: "processDatapathOp s t ctx = Some ctx'"
  shows "ctx_wf ctx'"
proof -
  obtain a b g where ab: "value_to_node_id ctx s = Some a" "value_to_node_id ctx t = Some b" "a \<noteq> b"
    "addEdge a b 1 (graph ctx) = Some g" "ctx' = ctx\<lparr>graph := g\<rparr>"
    using p by (auto simp: processDatapathOp_def split: Option.bind_splits if_splits)
  have "graph_wf (graph ctx)" using c by (simp add: ctx_wf_def)
  from addEdge_wf [OF this ab(4)] c ab(3,5) show ?thesis by (auto simp: ctx_wf_def)
qed

lemma process_wf:
  "ctx_wf ctx \<Longrightarrow> processOp x ctx = Some ctx' \<Longrightarrow> ctx_wf ctx'"
  "ctx_wf ctx \<Longrightarrow> processRegion xs ctx = Some ctx' \<Longrightarrow> ctx_wf ctx'"
proof (induction x ctx and xs ctx arbitrary: ctx' and ctx' rule: processOp_processRegion.induct)
  case (3 k shared block_args body yielded results ctx)
  show ?case
  proof (cases "known_group k ctx")
    case (Some kd)
    then show ?thesis using 3 by (auto intro: skip_group_wf)
  next
    case None
    have e: "ctx_wf (enter_group k ctx)" using "3.prems"(1) by (auto simp: enter_group_def ctx_wf_def split: option.split)
    show ?thesis using 3 None
      by (auto split: Option.bind_splits option.splits
          intro: alias_values_wf [OF _ e] dest: alias_values_wf [OF _ e] alias_values_wf)
  qed
qed (auto simp: processExecutionUnitOp_def Let_def intro: new_resource_wf processMemoryOp_wf processDatapathOp_wf
    split: prod.splits Option.bind_splits)

lemma apply_sizes_keys: "map fst (map (apply_sizes ctx) xs) = map fst xs"
  by (induction xs) (auto simp: apply_sizes_def split: option.split)

lemma apply_sizes_fields:
  "fst (apply_sizes ctx e) = fst e" "rn_id (snd (apply_sizes ctx e)) = rn_id (snd e)"
  "rn_resource (snd (apply_sizes ctx e)) = rn_resource (snd e)" "rn_kind (snd (apply_sizes ctx e)) = rn_kind (snd e)"
  by (simp_all add: apply_sizes_def split: option.split)

lemma initialize_sound:
  assumes "initialize body = Some g"
  shows "graph_wf g \<and> (\<forall>n. (n, n) \<notin> links_of g) \<and>
    (\<forall>(n, e)\<in>set (nodes g). (total_capacity_in_bytes e \<noteq> None \<longrightarrow> rn_kind e = Memory) \<and>
      (total_reserved_in_bytes e = None \<longleftrightarrow> total_capacity_in_bytes e = None))"
proof -
  let ?c0 = "\<lparr>graph = empty_graph, value_to_node_id = (\<lambda>_. None), processed_group_kinds = {},
      node_sizes = (\<lambda>_. None), node_reserved = (\<lambda>_. None)\<rparr>"
  obtain ctx where ctx: "processRegion body ?c0 = Some ctx"
    "g = (graph ctx)\<lparr>nodes := map (apply_sizes ctx) (nodes (graph ctx))\<rparr>"
    using assms by (auto simp: initialize_def split: Option.bind_splits)
  have "ctx_wf ?c0"
    by (simp add: ctx_wf_def graph_wf_def empty_graph_def getNodeIdsForResource_def links_of_def getNeighbors_def)
  then have w: "ctx_wf ctx" using ctx(1) by (rule process_wf)
  note C = w [unfolded ctx_wf_def]
  note W = conjunct1 [OF C, unfolded graph_wf_def]
  have keys: "fst ` set (nodes g) = fst ` set (nodes (graph ctx))"
    by (simp add: ctx(2) image_image apply_sizes_fields)
  have h: "hasNode g n \<longleftrightarrow> hasNode (graph ctx) n" for n unfolding hasNode_def keys ..
  have l: "links_of g = links_of (graph ctx)" by (simp add: links_of_def getNeighbors_def ctx(2))
  have res: "map fst (filter (\<lambda>(n, e). rn_resource e = r) (map (apply_sizes ctx) xs)) =
      map fst (filter (\<lambda>(n, e). rn_resource e = r) xs)" for r xs
    by (induction xs) (auto simp: case_prod_beta apply_sizes_fields)
  have "graph_wf g"
    unfolding graph_wf_def
  proof (intro conjI)
    show "map fst (nodes g) = [0..<next_node_id g]"
      using W apply_sizes_keys [of ctx "nodes (graph ctx)"] by (simp only: ctx(2) routing_graph.simps routing_graph.surjective) simp
    show "\<forall>(n, e)\<in>set (nodes g). rn_id e = n"
      using W by (auto simp: ctx(2) case_prod_beta apply_sizes_fields)
    show "\<forall>s es. adjacency g s = Some es \<longrightarrow> hasNode g s \<and> (\<forall>e\<in>set es. source e = s \<and> hasNode g (target e))"
      using W unfolding h by (simp add: ctx(2))
    show "\<forall>r. getNodeIdsForResource g r = map fst (filter (\<lambda>(n, e). rn_resource e = r) (nodes g))"
      using W by (simp add: ctx(2) res getNodeIdsForResource_def)
    show "\<forall>r. resource_index g r \<noteq> Some []" using W by (simp add: ctx(2))
  qed
  moreover have "\<forall>(n, e)\<in>set (nodes g). (total_capacity_in_bytes e \<noteq> None \<longrightarrow> rn_kind e = Memory) \<and>
      (total_reserved_in_bytes e = None \<longleftrightarrow> total_capacity_in_bytes e = None)"
  proof (clarify)
    fix n e assume "(n, e) \<in> set (nodes g)"
    then obtain e0 where e0: "(n, e0) \<in> set (nodes (graph ctx))" "(n, e) = apply_sizes ctx (n, e0)"
      by (auto simp: ctx(2)) (metis apply_sizes_fields(1) fst_conv prod.collapse)
    then have "blank e0" "node_sizes ctx n \<noteq> None \<longrightarrow> rn_kind e0 = Memory" using C by auto
    with e0(2) show "(total_capacity_in_bytes e \<noteq> None \<longrightarrow> rn_kind e = Memory) \<and>
      (total_reserved_in_bytes e = None) = (total_capacity_in_bytes e = None)"
      by (auto simp: apply_sizes_def blank_def split: option.splits)
  qed
  ultimately show ?thesis using C l by simp
qed

section \<open>Properties\<close>

text \<open>C20: A routing graph that initialization returns is well-formed, has no self-loop, and only memories
  have sizes.\<close>

theorem initialize_well_formed:
  assumes "initialize body = Some g"
  shows "graph_wf g \<and> (\<forall>n. (n, n) \<notin> links_of g) \<and>
    (\<forall>(n, e)\<in>set (nodes g). (total_capacity_in_bytes e \<noteq> None \<longrightarrow> rn_kind e = Memory) \<and>
      (total_reserved_in_bytes e = None \<longleftrightarrow> total_capacity_in_bytes e = None))"
  using assms by (rule initialize_sound)

text \<open>C4: \<open>findShortestPath\<close> returns, answers \<open>nullopt\<close> exactly when the target
  cannot be reached, and otherwise gives a path along datapaths that no other path is shorter
  than.\<close>

theorem findShortestPath_shortest:
  assumes "graph_wf g" and "hasNode g src" and "hasNode g dst"
  shows "\<exists>r. findShortestPath g src dst = Some r \<and>
    (r = None \<longleftrightarrow> (src, dst) \<notin> (links_of g)\<^sup>*) \<and>
    (\<forall>p. r = Some p \<longrightarrow> route (links_of g) src dst p \<and>
      (\<forall>q. route (links_of g) src dst q \<longrightarrow> length p \<le> length q))"
  using assms by (rule findShortestPath_sound)

text \<open>
  A device to try the views on: the memory DDR is read by the unit MNILU, which feeds the memory
  L1 of a core; the unit L1LU reads L1 and feeds the compute unit SFU of a corelet with a memory L0.
\<close>

definition small_device :: "dev_op list" where
  "small_device =
    [MemoryOp 0 (Some ''DDR'') (Some 4096) 0, ExecutionUnitOp 1 (Some ''MNILU'') True False, DatapathOp 0 1,
     GroupOp (Some ''core'') [0] [10]
      [MemoryOp 2 (Some ''L1'') (Some 256) 16, ExecutionUnitOp 3 (Some ''L1LU'') True False,
       DatapathOp 1 2, DatapathOp 2 3,
       GroupOp (Some ''corelet'') [2] [11]
        [MemoryOp 5 (Some ''L0'') (Some 64) 0, ExecutionUnitOp 4 (Some ''SFU'') False False, DatapathOp 3 4]
        None []]
      None []]"

definition unit_entry :: "node_id \<Rightarrow> resource \<Rightarrow> resource_kind \<Rightarrow> (size_t \<times> size_t) option \<Rightarrow> node_id \<times> resource_node" where
  "unit_entry n r k sz = (n, \<lparr>rn_id = n, rn_resource = r, rn_kind = k,
     total_capacity_in_bytes = map_option fst sz, total_reserved_in_bytes = map_option snd sz\<rparr>)"

definition small_graph :: routing_graph where
  "small_graph = \<lparr>next_node_id = 6,
     nodes = [unit_entry 0 ''DDR'' Memory (Some (4096, 0)), unit_entry 1 ''MNILU'' LoadStoreUnit None,
       unit_entry 2 ''L1'' Memory (Some (256, 16)), unit_entry 3 ''L1LU'' LoadStoreUnit None,
       unit_entry 4 ''L0'' Memory (Some (64, 0)), unit_entry 5 ''SFU'' Compute None],
     adjacency = [0 \<mapsto> [\<lparr>source = 0, target = 1, cost = 1\<rparr>], 1 \<mapsto> [\<lparr>source = 1, target = 2, cost = 1\<rparr>],
       2 \<mapsto> [\<lparr>source = 2, target = 3, cost = 1\<rparr>], 3 \<mapsto> [\<lparr>source = 3, target = 5, cost = 1\<rparr>]],
     resource_index = [''DDR'' \<mapsto> [0], ''MNILU'' \<mapsto> [1], ''L1'' \<mapsto> [2], ''L1LU'' \<mapsto> [3], ''L0'' \<mapsto> [4],
       ''SFU'' \<mapsto> [5]]\<rparr>"

lemma small_graph_built: "initialize small_device = Some small_graph"
  by (simp add: initialize_def small_device_def processMemoryOp_def processExecutionUnitOp_def
      processDatapathOp_def alias_values_def known_group_def enter_group_def addNode_def addEdge_def
      hasNode_def push_at_def bind_value_def apply_sizes_def empty_graph_def small_graph_def unit_entry_def
      Let_def) (simp add: eval_nat_numeral)

lemma small_graph_wf: "graph_wf small_graph"
  using initialize_sound [OF small_graph_built] by blast

lemma small_graph_neighbors:
  "getNeighbors small_graph n =
     (if n = 0 then [1] else if n = 1 then [2] else if n = 2 then [3] else if n = 3 then [5] else [])"
  by (simp add: getNeighbors_def small_graph_def)

lemma small_graph_links: "links_of small_graph = {(0, 1), (1, 2), (2, 3), (3, 5)}"
  by (auto simp: links_of_def small_graph_neighbors split: if_splits)

lemma small_graph_nodes:
  "map_of (nodes small_graph) = map_of [unit_entry 0 ''DDR'' Memory (Some (4096, 0)), unit_entry 1 ''MNILU'' LoadStoreUnit None,
       unit_entry 2 ''L1'' Memory (Some (256, 16)), unit_entry 3 ''L1LU'' LoadStoreUnit None,
       unit_entry 4 ''L0'' Memory (Some (64, 0)), unit_entry 5 ''SFU'' Compute None]"
  "hasNode small_graph n \<longleftrightarrow> n \<in> {0, 1, 2, 3, 4, 5}"
  by (auto simp: small_graph_def hasNode_def unit_entry_def)

theorem initialize_well_formed_witness:
  "graph_wf small_graph \<and> (2, 2) \<notin> links_of small_graph"
  using initialize_well_formed [OF small_graph_built] by blast

theorem findShortestPath_shortest_witness:
  "\<exists>p. findShortestPath small_graph 0 5 = Some (Some p) \<and> route {(0, 1), (1, 2), (2, 3), (3, 5)} 0 5 p"
proof -
  have "(0, 5) \<in> (links_of small_graph)\<^sup>*"
  proof -
    have "route (links_of small_graph) 0 5 [0, 1, 2, 3, 5]" by (simp add: route_def small_graph_links)
    then show ?thesis by (rule route_reach)
  qed
  with findShortestPath_shortest [OF small_graph_wf, of 0 5] show ?thesis
    by (auto simp: small_graph_nodes small_graph_links)
qed

end
