(* ===== verification/PlanPrep.thy ===== *)
theory PlanPrep
  imports PipelineTree RoutingGraph
begin

text \<open>
  The preparation of \<open>lib/Transforms/PathExpansion/Planner.cpp\<close>: sorting the stages of a pipeline
  and telling the load side, the compute stages and the store side apart, finding the resource of
  every stage, the data that the stages pass to each other, the route of each such flow, and the
  unit that every stage runs on.
\<close>

section \<open>The operations of a stage\<close>

text \<open>
  The operations and types of the dialects, which are outside the repository, as data: what the
  accessors return that the planner calls. A stage operation is the list of operations that
  \<open>walk\<close> visits and its \<open>applicable_units\<close> attribute.
\<close>

type_synonym val = nat

datatype val_type = MemRefType "attribute option" | FifoSlotType attribute attribute | OtherType

datatype body_kind =
    DataTransferOp val val transfer_mode
  | IndDataTransferOp val val bool
  | ReadFromFifoOp val
  | WriteToFifoOp val
  | OtherBodyOp

record body_op =
  bo_op :: op
  bo_kind :: body_kind
  bo_operands :: "val list"

record stage_ir =
  body :: "body_op list"
  applicable_units :: "attribute list option"

record planner_ir =
  value_type :: "val \<Rightarrow> val_type"
  stage_op :: "op \<Rightarrow> stage_ir option"

definition isMemRef :: "planner_ir \<Rightarrow> val \<Rightarrow> bool" where
  "isMemRef ir v = (case value_type ir v of MemRefType _ \<Rightarrow> True | _ \<Rightarrow> False)"

definition isFifoSlot :: "planner_ir \<Rightarrow> val \<Rightarrow> bool" where
  "isFifoSlot ir v = (case value_type ir v of FifoSlotType _ _ \<Rightarrow> True | _ \<Rightarrow> False)"

text \<open>
  \<open>llvm::cast\<close> of a null memory space, or of one that is not a resource kind, fails its assertion.
\<close>

definition memrefMemorySpace :: "planner_ir \<Rightarrow> val \<Rightarrow> resource option option" where
  "memrefMemorySpace ir v =
     (case value_type ir v of
        MemRefType space \<Rightarrow> do { a \<leftarrow> space; r \<leftarrow> as_kind a; Some (Some r) }
      | _ \<Rightarrow> Some None)"

section \<open>What the transfers of a stage have in common\<close>

record shared_end =
  se_memory :: "resource option"
  se_unit :: "resource option"
  se_all_memref :: bool

record transfer_ends =
  num_transfers :: nat
  te_source :: shared_end
  te_dest :: shared_end

fun all_load_store :: "routing_graph \<Rightarrow> node_id list \<Rightarrow> bool option" where
  "all_load_store g [] = Some True"
| "all_load_store g (n # ns) =
     do { e \<leftarrow> getNode g n;
          if rn_kind e \<noteq> LoadStoreUnit then Some False else all_load_store g ns }"

definition unitOf :: "planner_ir \<Rightarrow> routing_graph \<Rightarrow> bool \<Rightarrow> val \<Rightarrow> resource option option" where
  "unitOf ir g stage_reads v =
     (case value_type ir v of
        FifoSlotType src dest \<Rightarrow>
          (case as_kind (if stage_reads then dest else src) of
             None \<Rightarrow> Some None
           | Some u \<Rightarrow>
               (let ids = getNodeIdsForResource g u in
                if ids = [] then Some None
                else do { b \<leftarrow> all_load_store g ids; Some (if b then Some u else None) }))
      | _ \<Rightarrow> Some None)"

definition shared_step ::
  "planner_ir \<Rightarrow> routing_graph \<Rightarrow> bool \<Rightarrow> val \<Rightarrow> shared_end \<Rightarrow> shared_end option" where
  "shared_step ir g stage_reads v shared =
     do { m \<leftarrow> memrefMemorySpace ir v;
          u \<leftarrow> unitOf ir g stage_reads v;
          Some \<lparr>se_memory = (if m \<noteq> se_memory shared then None else se_memory shared),
                se_unit = (if u \<noteq> se_unit shared then None else se_unit shared),
                se_all_memref = (isMemRef ir v \<and> se_all_memref shared)\<rparr> }"

text \<open>The list of values is not empty where it is called.\<close>

definition sharedEnd ::
  "planner_ir \<Rightarrow> routing_graph \<Rightarrow> bool \<Rightarrow> val list \<Rightarrow> shared_end option" where
  "sharedEnd ir g stage_reads vals =
     do { m \<leftarrow> memrefMemorySpace ir (hd vals);
          u \<leftarrow> unitOf ir g stage_reads (hd vals);
          foldM (shared_step ir g stage_reads) vals
            \<lparr>se_memory = m, se_unit = u, se_all_memref = True\<rparr> }"

definition indirect_operands :: "body_op list \<Rightarrow> (val \<times> val) list" where
  "indirect_operands ops =
     concat (map (\<lambda>o'. case bo_kind o' of IndDataTransferOp s d _ \<Rightarrow> [(s, d)] | _ \<Rightarrow> []) ops)"

definition plain_operands :: "body_op list \<Rightarrow> (val \<times> val) list" where
  "plain_operands ops =
     concat (map (\<lambda>o'. case bo_kind o' of DataTransferOp s d _ \<Rightarrow> [(s, d)] | _ \<Rightarrow> []) ops)"

definition transfer_operands :: "body_op list \<Rightarrow> (val \<times> val) list" where
  "transfer_operands ops =
     (if indirect_operands ops = [] then plain_operands ops else indirect_operands ops)"

definition no_end :: shared_end where
  "no_end = \<lparr>se_memory = None, se_unit = None, se_all_memref = False\<rparr>"

definition collectTransferEnds ::
  "planner_ir \<Rightarrow> routing_graph \<Rightarrow> stage_ir \<Rightarrow> transfer_ends option" where
  "collectTransferEnds ir g st =
     (let operands = transfer_operands (body st) in
      if operands = [] then Some \<lparr>num_transfers = 0, te_source = no_end, te_dest = no_end\<rparr>
      else do { s \<leftarrow> sharedEnd ir g True (map fst operands);
                d \<leftarrow> sharedEnd ir g False (map snd operands);
                Some \<lparr>num_transfers = length operands, te_source = s, te_dest = d\<rparr> })"

text \<open>The shared memory, the shared unit and the flag are what the comments of the records say.\<close>

definition common :: "('a \<Rightarrow> 'b option) \<Rightarrow> 'a list \<Rightarrow> 'b option" where
  "common f xs = (if \<exists>b. \<forall>x\<in>set xs. f x = Some b then f (hd xs) else None)"

lemma sharedEnd_common:
  assumes "vals \<noteq> []" and "\<And>v. v \<in> set vals \<Longrightarrow> memrefMemorySpace ir v = Some (m v)"
    and "\<And>v. v \<in> set vals \<Longrightarrow> unitOf ir g r v = Some (u v)"
  shows "sharedEnd ir g r vals =
    Some \<lparr>se_memory = common m vals, se_unit = common u vals, se_all_memref = list_all (isMemRef ir) vals\<rparr>"
proof -
  have step: "foldM (shared_step ir g r) vs \<lparr>se_memory = a, se_unit = b, se_all_memref = c\<rparr> =
      Some \<lparr>se_memory = (if \<forall>v\<in>set vs. m v = a then a else None),
            se_unit = (if \<forall>v\<in>set vs. u v = b then b else None),
            se_all_memref = (list_all (isMemRef ir) vs \<and> c)\<rparr>"
    if "set vs \<subseteq> set vals" for vs a b c
    using that
  proof (induction vs arbitrary: a b c)
    case (Cons v vs)
    have v: "memrefMemorySpace ir v = Some (m v)" "unitOf ir g r v = Some (u v)"
      using Cons.prems assms(2,3) by auto
    have vs: "set vs \<subseteq> set vals" using Cons.prems by simp
    have one: "shared_step ir g r v \<lparr>se_memory = a, se_unit = b, se_all_memref = c\<rparr> =
        Some \<lparr>se_memory = (if m v = a then a else None), se_unit = (if u v = b then b else None),
          se_all_memref = (isMemRef ir v \<and> c)\<rparr>"
      by (simp add: shared_step_def v)
    show ?case by (simp add: one Cons.IH [OF vs] conj_ac)
  qed simp
  have pick: "(if \<forall>v\<in>set vals. f v = f (hd vals) then f (hd vals) else None) = common f vals"
    for f :: "val \<Rightarrow> 'b option"
  proof (cases "\<exists>b. \<forall>v\<in>set vals. f v = Some b")
    case True
    then obtain b where b: "\<forall>v\<in>set vals. f v = Some b" by blast
    then have "\<forall>v\<in>set vals. f v = f (hd vals)" using assms(1) by simp
    then show ?thesis using True unfolding common_def by metis
  next
    case False
    then show ?thesis unfolding common_def by (cases "f (hd vals)") auto
  qed
  have "hd vals \<in> set vals" using assms(1) by simp
  then show ?thesis
    unfolding sharedEnd_def using assms(2,3) step [OF order_refl] pick [of m] pick [of u] by simp
qed

section \<open>The sides of the pipeline\<close>

datatype stage_side = LoadSide | ComputeSide | StoreSide

text \<open>\<open>dyn_cast_or_null<StageOp>(stage->getOperation())\<close>.\<close>

definition stage_ir_of :: "planner_ir \<Rightarrow> ptree \<Rightarrow> ptr \<Rightarrow> stage_ir option" where
  "stage_ir_of ir T s = Option.bind (operation_op T s) (stage_op ir)"

definition isComputeAnchor :: "planner_ir \<Rightarrow> routing_graph \<Rightarrow> ptree \<Rightarrow> ptr \<Rightarrow> bool option" where
  "isComputeAnchor ir g T s =
     (case Option.bind (stage_ir_of ir T s) applicable_units of
        None \<Rightarrow> Some False
      | Some units \<Rightarrow>
          if length units \<noteq> 1 then Some False
          else (case as_kind (hd units) of
                  None \<Rightarrow> Some False
                | Some u \<Rightarrow>
                    do { node \<leftarrow> getNodeForResource g u;
                         Some (case node of None \<Rightarrow> False | Some e \<Rightarrow> rn_kind e = Compute) }))"

text \<open>
  The dependencies of a stage as the pointer sets of the passes see them: a null pointer, which
  only occurs while a dependency is being nullified, is never asked for.
\<close>

definition succs :: "ptree \<Rightarrow> ptr \<Rightarrow> ptr list" where
  "succs T s = List.map_filter id (dependencies T s)"

lemma set_succs: "t \<in> set (succs T s) \<longleftrightarrow> Some t \<in> set (dependencies T s)"
  by (force simp: succs_def List.map_filter_def)

lemma pipe_succ_succs: "pipe_succ (T, p) = succs T"
  by (simp add: fun_eq_iff pipe_succ_def succs_def)

definition collect_anchors ::
  "planner_ir \<Rightarrow> routing_graph \<Rightarrow> ptree \<Rightarrow> ptr list \<Rightarrow> ptr set option" where
  "collect_anchors ir g T sorted_stages =
     foldM (\<lambda>s anchors. do { b \<leftarrow> isComputeAnchor ir g T s;
                             Some (if b then insert s anchors else anchors) }) sorted_stages {}"

definition side_step ::
  "ptr set \<Rightarrow> ptr set \<Rightarrow> ptr set \<Rightarrow> ptr \<Rightarrow> (ptr \<Rightarrow> stage_side option) \<Rightarrow>
   (ptr \<Rightarrow> stage_side option) outcome" where
  "side_step anchors after before s sides =
     (if s \<in> anchors then success (sides(s := Some ComputeSide))
      else if s \<in> before \<and> s \<in> after then failure
      else if s \<notin> before \<and> s \<notin> after then failure
      else success (sides(s := Some (if s \<in> before then LoadSide else StoreSide))))"

definition classifyStageSides ::
  "planner_ir \<Rightarrow> routing_graph \<Rightarrow> ptree \<Rightarrow> ptr list \<Rightarrow> (ptr \<Rightarrow> stage_side option) outcome" where
  "classifyStageSides ir g T sorted_stages =
     do { anchors \<leftarrow> collect_anchors ir g T sorted_stages;
          if anchors = {} then failure
          else foldA (side_step anchors (mark_after (succs T) anchors sorted_stages)
                        (mark_before (succs T) anchors sorted_stages)) sorted_stages (\<lambda>_. None) }"

definition sortAndValidateStages ::
  "planner_ir \<Rightarrow> routing_graph \<Rightarrow> ptree \<Rightarrow> ptr \<Rightarrow> (ptr list \<times> (ptr \<Rightarrow> stage_side option)) outcome" where
  "sortAndValidateStages ir g T pipeline =
     attempt (topologicalSortStages T (Some pipeline)) (\<lambda>sorted_stages.
       attempt (classifyStageSides ir g T sorted_stages) (\<lambda>sides. success (sorted_stages, sides)))"

lemma collect_anchors_eq:
  assumes "\<And>s. s \<in> set ss \<Longrightarrow> isComputeAnchor ir g T s = Some (anchor s)"
  shows "collect_anchors ir g T ss = Some {s \<in> set ss. anchor s}"
proof -
  have "foldM (\<lambda>s anchors. do { b \<leftarrow> isComputeAnchor ir g T s;
      Some (if b then insert s anchors else anchors) }) xs A = Some (A \<union> {s \<in> set xs. anchor s})"
    if "set xs \<subseteq> set ss" for xs A
    using that by (induction xs arbitrary: A) (use assms in auto)
  then show ?thesis by (simp add: collect_anchors_def)
qed

lemma side_steps:
  assumes "distinct ss"
  shows "foldA (side_step A af be) ss m =
    (if \<forall>s\<in>set ss. s \<in> A \<or> (s \<in> be) \<noteq> (s \<in> af)
     then success (\<lambda>s. if s \<in> set ss then Some (if s \<in> A then ComputeSide
                                              else if s \<in> be then LoadSide else StoreSide) else m s)
     else failure)"
  using assms
proof (induction ss arbitrary: m)
  case (Cons s ss)
  have one: "side_step A af be s m =
      (if s \<in> A \<or> (s \<in> be) \<noteq> (s \<in> af)
       then success (m(s := Some (if s \<in> A then ComputeSide else if s \<in> be then LoadSide else StoreSide)))
       else failure)"
    by (simp add: side_step_def)
  have ss: "distinct ss" "s \<notin> set ss" using Cons.prems by auto
  show ?case using ss(2) by (simp add: one Cons.IH [OF ss(1)] fun_eq_iff)
qed simp

text \<open>
  The classification in terms of the stage graph: it succeeds when there is a compute stage and
  every other stage is upstream or downstream of compute stages, and not both; the side says which.
\<close>

definition side_of :: "(ptr \<times> ptr) set \<Rightarrow> ptr set \<Rightarrow> ptr \<Rightarrow> stage_side" where
  "side_of r A s =
     (if s \<in> A then ComputeSide else if \<exists>a\<in>A. (s, a) \<in> r\<^sup>+ then LoadSide else StoreSide)"

definition sides_clear :: "(ptr \<times> ptr) set \<Rightarrow> ptr set \<Rightarrow> ptr list \<Rightarrow> bool" where
  "sides_clear r A ss \<longleftrightarrow> A \<noteq> {} \<and>
     (\<forall>s\<in>set ss. s \<in> A \<or> (\<exists>a\<in>A. (s, a) \<in> r\<^sup>+) \<noteq> (\<exists>a\<in>A. (a, s) \<in> r\<^sup>+))"

lemma sortAndValidateStages_cases:
  assumes abs: "tree_abs T F" and deps: "deps_inside T (stages_of T F p)"
    and known: "\<And>s. s \<in> set (stages_of T F p) \<Longrightarrow> isComputeAnchor ir g T s = Some (anchor s)"
  defines "A \<equiv> {s \<in> set (stages_of T F p). anchor s}" and "r \<equiv> unblocks T (stages_of T F p)"
  shows "\<exists>out. sortAndValidateStages ir g T p = Some out \<and>
    (out = None \<longleftrightarrow> \<not> (acyclic r \<and> sides_clear r A (stages_of T F p))) \<and>
    (\<forall>ss sides. out = Some (ss, sides) \<longrightarrow>
       distinct ss \<and> set ss = set (stages_of T F p) \<and> topological r ss \<and>
       sides = (\<lambda>s. if s \<in> set ss then Some (side_of r A s) else None))"
proof -
  have P: "pipe_graph (T, p)" using abs deps by (auto simp: pipe_graph_def)
  have n: "pipe_nodes (T, p) = stages_of T F p"
    using getStages_abs [OF abs] by (simp add: pipe_nodes_def stages_of_def)
  have arcs: "pipe_sort.arcs (T, p) = r"
    unfolding pipe_sort.arcs_def n r_def unblocks_def by (auto simp: set_pipe_succ)
  obtain o1 where o1: "topologicalSortStages T (Some p) = Some o1" "o1 = None \<longleftrightarrow> \<not> acyclic r"
    "\<And>s. o1 = Some s \<Longrightarrow> distinct s \<and> set s = set (stages_of T F p) \<and> topological r s"
    using topologicalSortStages_sound [OF abs deps] unfolding r_def by blast
  show ?thesis
  proof (cases o1)
    case None
    then show ?thesis using o1 by (simp add: sortAndValidateStages_def)
  next
    case (Some ss)
    then have ss: "distinct ss" "set ss = set (stages_of T F p)" "topological r ss" "acyclic r"
      using o1 by auto
    have srt: "topologicalSortStages (fst (T, p)) (Some (snd (T, p))) = Some (Some ss)"
      using o1(1) Some by simp
    have A: "A \<subseteq> set ss" unfolding A_def ss(2) by blast
    have after: "mark_after (succs T) A ss = {v. \<exists>a\<in>A. (a, v) \<in> r\<^sup>+}"
      using pipe_sort.forward_pass [OF P srt A] unfolding arcs pipe_succ_succs .
    have before: "mark_before (succs T) A ss = {u. \<exists>a\<in>A. (u, a) \<in> r\<^sup>+}"
      using pipe_sort.backward_pass [OF P srt, of A] unfolding arcs pipe_succ_succs .
    have anchors: "collect_anchors ir g T ss = Some A"
      unfolding A_def ss(2) [symmetric] using known ss(2) by (intro collect_anchors_eq) auto
    have "classifyStageSides ir g T ss =
        (if sides_clear r A ss then success (\<lambda>s. if s \<in> set ss then Some (side_of r A s) else None) else failure)"
      by (simp add: classifyStageSides_def anchors after before side_steps [OF ss(1)]
        sides_clear_def side_of_def cong: if_cong)
    moreover have "sides_clear r A ss \<longleftrightarrow> sides_clear r A (stages_of T F p)"
      by (simp add: sides_clear_def ss(2))
    ultimately show ?thesis
      using o1(1) Some ss by (simp add: sortAndValidateStages_def)
  qed
qed

section \<open>The plan\<close>

text \<open>
  \<open>StageMaterializationInfo\<close> and \<open>PathExpansionPlan\<close>, without the transfers and factories that only
  the later steps of the planner fill in. A null resource is \<open>None\<close>.
\<close>

datatype info_kind = PreserveOriginal | AdaptFifoKinds | AdaptTransfer | SyntheticTransfer

record stage_info =
  si_kind :: info_kind
  stage_resource :: "resource option"
  applicable_unit :: "resource option"

record plan =
  stage_infos :: "ptr \<Rightarrow> stage_info option"
  changed :: bool

definition default_info :: stage_info where
  "default_info = \<lparr>si_kind = PreserveOriginal, stage_resource = None, applicable_unit = None\<rparr>"

text \<open>\<open>stage_info[stage]\<close> constructs a missing entry; \<open>getStageInfo\<close> and \<open>at\<close> assert that there is one.\<close>

definition info_entry :: "plan \<Rightarrow> ptr \<Rightarrow> stage_info" where
  "info_entry P s = (case stage_infos P s of None \<Rightarrow> default_info | Some i \<Rightarrow> i)"

definition getStageInfo :: "plan \<Rightarrow> ptr \<Rightarrow> stage_info option" where
  "getStageInfo P s = stage_infos P s"

definition put_info :: "ptr \<Rightarrow> stage_info \<Rightarrow> plan \<Rightarrow> plan" where
  "put_info s i P = P\<lparr>stage_infos := (stage_infos P)(s := Some i)\<rparr>"

lemma put_info_simps [simp]:
  "stage_infos (put_info s i P) = (stage_infos P)(s := Some i)" "changed (put_info s i P) = changed P"
  by (simp_all add: put_info_def)

section \<open>The resource of every stage\<close>

text \<open>The set vector of memories; only its size and its single element are used.\<close>

definition memory_at :: "routing_graph \<Rightarrow> node_id \<Rightarrow> resource list" where
  "memory_at g n =
     (case getNode g n of
        None \<Rightarrow> []
      | Some e \<Rightarrow> (if rn_kind e = Memory then [rn_resource e] else []))"

definition memories_of_unit :: "resource \<Rightarrow> stage_side \<Rightarrow> routing_graph \<Rightarrow> resource list" where
  "memories_of_unit u side g =
     concat (map (\<lambda>unit_id.
       concat (map (memory_at g)
         (if side = LoadSide then filter (\<lambda>n. unit_id \<in> set (getNeighbors g n)) (getAllNodeIds g)
          else getNeighbors g unit_id)))
       (getNodeIdsForResource g u))"

definition memoryOfUnit :: "resource \<Rightarrow> stage_side \<Rightarrow> routing_graph \<Rightarrow> resource option" where
  "memoryOfUnit u side g =
     (let memories = first_occurrences (memories_of_unit u side g) in
      if length memories = 1 then Some (hd memories) else None)"

definition shared_memory :: "stage_side \<Rightarrow> transfer_ends \<Rightarrow> resource option" where
  "shared_memory side ends =
     (let src = se_memory (te_source ends); dst = se_memory (te_dest ends) in
      if src \<noteq> None \<and> dst \<noteq> None then (if side = LoadSide then src else dst)
      else if src \<noteq> None then src else dst)"

definition decide_resource ::
  "routing_graph \<Rightarrow> stage_side \<Rightarrow> transfer_ends \<Rightarrow> stage_info \<Rightarrow> stage_info outcome" where
  "decide_resource g side ends info =
     (let src = se_unit (te_source ends); dst = se_unit (te_dest ends);
          mem = shared_memory side ends;
          unit = (if src \<noteq> None then src else dst)
      in if src \<noteq> None \<and> dst \<noteq> None \<and> src \<noteq> dst then failure
         else if mem = None \<and> unit = None then failure
         else case unit of
                None \<Rightarrow> success (info\<lparr>stage_resource := mem\<rparr>)
              | Some u \<Rightarrow>
                  (case memoryOfUnit u side g of
                     None \<Rightarrow> failure
                   | Some m \<Rightarrow>
                       if mem \<noteq> None \<and> mem \<noteq> Some m then failure
                       else success (info\<lparr>applicable_unit := Some u, stage_resource := Some m\<rparr>)))"

definition assign_resource ::
  "planner_ir \<Rightarrow> routing_graph \<Rightarrow> ptree \<Rightarrow> (ptr \<Rightarrow> stage_side option) \<Rightarrow> ptr set \<Rightarrow> ptr \<Rightarrow> plan \<Rightarrow>
   plan outcome" where
  "assign_resource ir g T sides has_predecessor s P =
     do { st \<leftarrow> stage_ir_of ir T s;
          (case applicable_units st of
             Some units \<Rightarrow>
               if length units \<noteq> 1 then None
               else do { u \<leftarrow> as_kind (hd units);
                         success (put_info s ((info_entry P s)\<lparr>stage_resource := Some u\<rparr>) P) }
           | None \<Rightarrow>
               do { ends \<leftarrow> collectTransferEnds ir g st;
                    if num_transfers ends = 0 then None
                    else if s \<notin> has_predecessor \<and> \<not> se_all_memref (te_source ends) then None
                    else if dependencies T s = [] \<and> \<not> se_all_memref (te_dest ends) then None
                    else do { side \<leftarrow> sides s;
                              if side = ComputeSide then None
                              else attempt (decide_resource g side ends (info_entry P s))
                                     (\<lambda>info. success (put_info s info P)) } }) }"

definition assignOriginalStageResources ::
  "planner_ir \<Rightarrow> routing_graph \<Rightarrow> ptree \<Rightarrow> ptr list \<Rightarrow> (ptr \<Rightarrow> stage_side option) \<Rightarrow> plan \<Rightarrow>
   plan outcome" where
  "assignOriginalStageResources ir g T sorted_stages sides P =
     (let has_predecessor = fold (\<lambda>s. fold insert (succs T s)) sorted_stages {} in
      foldA (assign_resource ir g T sides has_predecessor) sorted_stages P)"

lemma set_memories_of_unit:
  assumes "graph_wf g"
  shows "set (memories_of_unit u side g) =
    {rn_resource e | e n k. k \<in> set (getNodeIdsForResource g u) \<and>
       (if side = LoadSide then (n, k) else (k, n)) \<in> links_of g \<and>
       getNode g n = Some e \<and> rn_kind e = Memory}"
proof -
  have all: "n \<in> set (getAllNodeIds g)" if "getNode g n = Some e" for n e
    using that by (force simp: getNode_def getAllNodeIds_def dest: map_of_SomeD)
  have mem: "r \<in> set (memory_at g n) \<longleftrightarrow> (\<exists>e. getNode g n = Some e \<and> rn_kind e = Memory \<and> r = rn_resource e)"
    for r n by (cases "getNode g n") (auto simp: memory_at_def)
  have "r \<in> set (memories_of_unit u side g) \<longleftrightarrow>
      (\<exists>n k. k \<in> set (getNodeIdsForResource g u) \<and>
        (if side = LoadSide then n \<in> set (getAllNodeIds g) \<and> k \<in> set (getNeighbors g n)
         else n \<in> set (getNeighbors g k)) \<and> r \<in> set (memory_at g n))" for r
    unfolding memories_of_unit_def by auto
  then have "r \<in> set (memories_of_unit u side g) \<longleftrightarrow>
      (\<exists>e n k. r = rn_resource e \<and> k \<in> set (getNodeIdsForResource g u) \<and>
        (if side = LoadSide then (n, k) else (k, n)) \<in> links_of g \<and>
        getNode g n = Some e \<and> rn_kind e = Memory)" for r
    unfolding mem links_of_def using all by (cases "side = LoadSide") (simp; blast)+
  then show ?thesis by blast
qed

text \<open>The memory of a unit is the only one that a datapath leads from, or to, any copy of the unit.\<close>

lemma memoryOfUnit_iff:
  assumes "graph_wf g"
  shows "memoryOfUnit u side g = Some m \<longleftrightarrow>
    {rn_resource e | e n k. k \<in> set (getNodeIdsForResource g u) \<and>
       (if side = LoadSide then (n, k) else (k, n)) \<in> links_of g \<and>
       getNode g n = Some e \<and> rn_kind e = Memory} = {m}"
proof -
  let ?ms = "first_occurrences (memories_of_unit u side g)"
  have "memoryOfUnit u side g = Some m \<longleftrightarrow> ?ms = [m]"
    by (auto simp: memoryOfUnit_def Let_def length_Suc_conv)
  also have "\<dots> \<longleftrightarrow> set ?ms = {m}"
  proof
    assume "set ?ms = {m}"
    moreover have "distinct ?ms" by simp
    ultimately show "?ms = [m]"
      by (cases ?ms rule: list.exhaust) (auto simp del: first_occurrences_simps dest!: subset_singletonD)
  qed simp
  finally show ?thesis using set_memories_of_unit [OF assms, of u side] by simp
qed

lemma decide_resource_success:
  "decide_resource g side ends info = success i \<longleftrightarrow>
     (\<exists>r. se_unit (te_source ends) = None \<and> se_unit (te_dest ends) = None \<and>
        shared_memory side ends = Some r \<and> i = info\<lparr>stage_resource := Some r\<rparr>) \<or>
     (\<exists>u r. {se_unit (te_source ends), se_unit (te_dest ends)} - {None} = {Some u} \<and>
        memoryOfUnit u side g = Some r \<and> shared_memory side ends \<in> {None, Some r} \<and>
        i = info\<lparr>applicable_unit := Some u, stage_resource := Some r\<rparr>)"
  unfolding decide_resource_def Let_def
  by (cases "se_unit (te_source ends)"; cases "se_unit (te_dest ends)"; cases "shared_memory side ends")
    (auto simp: insert_Diff_if split: option.splits)

text \<open>What the loop leaves for a stage: the pinned unit, or what the transfers decide.\<close>

definition resource_found ::
  "planner_ir \<Rightarrow> routing_graph \<Rightarrow> ptree \<Rightarrow> (ptr \<Rightarrow> stage_side option) \<Rightarrow> ptr \<Rightarrow> stage_info \<Rightarrow> bool" where
  "resource_found ir g T sides s i \<longleftrightarrow>
     (\<exists>st. stage_ir_of ir T s = Some st \<and>
       (\<exists>r. stage_resource i = Some r) \<and>
       (case applicable_units st of
          Some units \<Rightarrow> \<exists>u. units = [KindAttr u] \<and> i = default_info\<lparr>stage_resource := Some u\<rparr>
        | None \<Rightarrow> \<exists>ends side. collectTransferEnds ir g st = Some ends \<and> sides s = Some side \<and>
            side \<noteq> ComputeSide \<and> decide_resource g side ends default_info = success i))"

lemma as_kind_Some [simp]: "as_kind a = Some u \<longleftrightarrow> a = KindAttr u"
  by (cases a) (auto simp: as_kind_def)

lemma assign_resource_success:
  assumes "assign_resource ir g T sides hp s P = success P'" and "stage_infos P s = None"
  shows "\<exists>i. P' = put_info s i P \<and> resource_found ir g T sides s i"
proof -
  obtain st where st: "stage_ir_of ir T s = Some st"
    using assms(1) by (auto simp: assign_resource_def split: Option.bind_splits)
  have d: "info_entry P s = default_info" using assms(2) by (simp add: info_entry_def)
  show ?thesis
  proof (cases "applicable_units st")
    case None
    with assms(1) st d obtain ends side i where
      "collectTransferEnds ir g st = Some ends" "sides s = Some side" "side \<noteq> ComputeSide"
      "decide_resource g side ends default_info = success i" "P' = put_info s i P"
      by (auto simp: assign_resource_def split: Option.bind_splits if_splits)
    moreover from this(4) have "\<exists>r. stage_resource i = Some r"
      unfolding decide_resource_success by auto
    ultimately show ?thesis using st None unfolding resource_found_def by auto
  next
    case (Some units)
    with assms(1) st d obtain u where "length units = 1" "hd units = KindAttr u"
      "P' = put_info s (default_info\<lparr>stage_resource := Some u\<rparr>) P"
      by (auto simp: assign_resource_def split: Option.bind_splits if_splits)
    moreover from this have "units = [KindAttr u]" by (cases units) auto
    ultimately show ?thesis using st Some unfolding resource_found_def by auto
  qed
qed

lemma assignOriginalStageResources_success:
  assumes "assignOriginalStageResources ir g T ss sides P = success P'"
    and "distinct ss" and "\<And>s. s \<in> set ss \<Longrightarrow> stage_infos P s = None"
  shows "(\<forall>s\<in>set ss. \<exists>i. stage_infos P' s = Some i \<and> resource_found ir g T sides s i) \<and>
    (\<forall>s. s \<notin> set ss \<longrightarrow> stage_infos P' s = stage_infos P s) \<and> changed P' = changed P"
proof -
  have "foldA (assign_resource ir g T sides hp) xs P = success P' \<Longrightarrow> distinct xs \<Longrightarrow>
      (\<And>s. s \<in> set xs \<Longrightarrow> stage_infos P s = None) \<Longrightarrow>
      (\<forall>s\<in>set xs. \<exists>i. stage_infos P' s = Some i \<and> resource_found ir g T sides s i) \<and>
      (\<forall>s. s \<notin> set xs \<longrightarrow> stage_infos P' s = stage_infos P s) \<and> changed P' = changed P" for xs hp P
  proof (induction xs arbitrary: P)
    case (Cons x xs)
    then obtain P1 where P1: "assign_resource ir g T sides hp x P = success P1"
      "foldA (assign_resource ir g T sides hp) xs P1 = success P'" by auto
    obtain i where i: "P1 = put_info x i P" "resource_found ir g T sides x i"
      using assign_resource_success [OF P1(1)] Cons.prems(3) by auto
    have none: "stage_infos P1 s = None" if "s \<in> set xs" for s
      using that Cons.prems(2,3) i(1) by auto
    have xs: "distinct xs" using Cons.prems(2) by simp
    note IH = Cons.IH [OF P1(2) xs none]
    have "stage_infos P' x = Some i" using IH Cons.prems(2) i(1) by simp
    then show ?case using IH i by (auto simp: i(1))
  qed simp
  then show ?thesis using assms unfolding assignOriginalStageResources_def Let_def by blast
qed

section \<open>Properties\<close>

text \<open>
  A pipeline 9 with a load stage 3, which copies a DDR buffer into a FIFO, and a compute stage 4,
  which reads the FIFO and is pinned to the unit SFU of the small device.
\<close>

definition small_ir :: planner_ir where
  "small_ir = \<lparr>
     value_type = (\<lambda>v. if v = 0 then MemRefType (Some (KindAttr ''DDR''))
       else if v = 1 then FifoSlotType (KindAttr ''DDR'') (KindAttr ''SFU'') else OtherType),
     stage_op = [3 \<mapsto> \<lparr>body = [\<lparr>bo_op = 20, bo_kind = DataTransferOp 0 1 Copy, bo_operands = [0, 1]\<rparr>],
                       applicable_units = None\<rparr>,
                 4 \<mapsto> \<lparr>body = [\<lparr>bo_op = 21, bo_kind = ReadFromFifoOp 1, bo_operands = [1]\<rparr>],
                       applicable_units = Some [KindAttr ''SFU'']\<rparr>]\<rparr>"

definition pair_tree :: ptree where
  "pair_tree = \<lparr>parent_node = [3 \<mapsto> 9, 4 \<mapsto> 9], first_child = [9 \<mapsto> 3], next_sibling = [3 \<mapsto> 4],
     allocated = (\<lambda>n. n < 10),
     kind = (\<lambda>n. if n = 3 then StageNode 0 else if n = 4 then StageNode 1 else PipelineNode),
     operation_op = (\<lambda>n. Some n), template_op = (\<lambda>_. None),
     dependencies = (\<lambda>n. if n = 3 then [Some 4] else []),
     opToNode = (\<lambda>q. Some q), root = Some 9, next_ptr = 10\<rparr>"

definition pair_children :: "ptr \<Rightarrow> ptr list" where
  "pair_children n = (if n = 9 then [3, 4] else [])"

lemma pair_tree_abs: "tree_abs pair_tree pair_children"
  by (rule tree_absI) (auto simp: pair_tree_def pair_children_def split: if_splits)

lemma pair_tree_stages: "stages_of pair_tree pair_children 9 = [3, 4]"
  by (simp add: stages_of_def pair_children_def isStageNode_def pair_tree_def)

lemma pair_tree_deps: "deps_inside pair_tree [3, 4]"
  by (simp add: deps_inside_def pair_tree_def)

lemma pair_tree_unblocks: "unblocks pair_tree [3, 4] = {(3, 4)}"
  by (auto simp: unblocks_def pair_tree_def split: if_splits)

lemma pair_anchor:
  "isComputeAnchor small_ir small_graph pair_tree 3 = Some False"
  "isComputeAnchor small_ir small_graph pair_tree 4 = Some True"
  by code_simp+

text \<open>C12: The stages are accepted exactly when their graph is acyclic, some stage is pinned to a compute
  unit, and every other stage is upstream of compute stages or downstream of them but not both;
  the side recorded says which.\<close>

theorem sortAndValidateStages_sides:
  assumes "tree_abs T F" and "deps_inside T (stages_of T F p)"
    and "\<And>s. s \<in> set (stages_of T F p) \<Longrightarrow> isComputeAnchor ir g T s = Some (anchor s)"
  shows "let A = {s \<in> set (stages_of T F p). anchor s}; r = unblocks T (stages_of T F p) in
    \<exists>out. sortAndValidateStages ir g T p = Some out \<and>
      (out = None \<longleftrightarrow> \<not> (acyclic r \<and> sides_clear r A (stages_of T F p))) \<and>
      (\<forall>ss sides. out = Some (ss, sides) \<longrightarrow>
         distinct ss \<and> set ss = set (stages_of T F p) \<and> topological r ss \<and>
         sides = (\<lambda>s. if s \<in> set ss then Some (side_of r A s) else None))"
  unfolding Let_def by (rule sortAndValidateStages_cases [OF assms])

theorem sortAndValidateStages_sides_witness:
  "\<exists>ss sides. sortAndValidateStages small_ir small_graph pair_tree 9 = Some (Some (ss, sides)) \<and>
     set ss = {3, 4} \<and> topological {(3, 4)} ss \<and> sides 3 = Some LoadSide \<and> sides 4 = Some ComputeSide"
proof -
  have A: "{s \<in> set [3, 4]. s = 4} = {4 :: ptr}" by auto
  have an: "isComputeAnchor small_ir small_graph pair_tree s = Some (s = 4)" if "s \<in> set [3, 4]" for s
    using that by (auto simp: pair_anchor)
  have t: "{(3, 4)}\<^sup>+ = {(3 :: ptr, 4)}" by (simp add: trancl_insert)
  have ac: "acyclic {(3 :: ptr, 4)}" by (simp add: acyclic_def t)
  have cl: "sides_clear {(3, 4)} {4} [3 :: ptr, 4]" by (simp add: sides_clear_def t)
  have "\<exists>out. sortAndValidateStages small_ir small_graph pair_tree 9 = Some out \<and>
      (out = None \<longleftrightarrow> \<not> (acyclic {(3 :: ptr, 4 :: ptr)} \<and> sides_clear {(3, 4)} {4} [3, 4])) \<and>
      (\<forall>ss sides. out = Some (ss, sides) \<longrightarrow>
         distinct ss \<and> set ss = {3, 4} \<and> topological {(3, 4)} ss \<and>
         sides = (\<lambda>s. if s \<in> set ss then Some (side_of {(3, 4)} {4} s) else None))"
    using sortAndValidateStages_sides [OF pair_tree_abs, of 9 small_ir small_graph "\<lambda>s. s = 4"]
      an pair_tree_deps unfolding pair_tree_stages pair_tree_unblocks Let_def A by simp
  then show ?thesis using ac cl by (auto simp: side_of_def t)
qed

theorem memoryOfUnit_unique:
  assumes "graph_wf g"
  shows "memoryOfUnit u side g = Some m \<longleftrightarrow>
    {rn_resource e | e n k. k \<in> set (getNodeIdsForResource g u) \<and>
       (if side = LoadSide then (n, k) else (k, n)) \<in> links_of g \<and>
       getNode g n = Some e \<and> rn_kind e = Memory} = {m}"
  using assms by (rule memoryOfUnit_iff)

theorem memoryOfUnit_unique_witness:
  "memoryOfUnit ''L1LU'' LoadSide small_graph = Some ''L1'' \<and>
   ''L1'' \<in> {rn_resource e | e n k. k \<in> set (getNodeIdsForResource small_graph ''L1LU'') \<and>
       (n, k) \<in> links_of small_graph \<and> getNode small_graph n = Some e \<and> rn_kind e = Memory}"
proof -
  have "memoryOfUnit ''L1LU'' LoadSide small_graph = Some ''L1''" by code_simp
  with memoryOfUnit_unique [OF small_graph_wf, of "''L1LU''" LoadSide "''L1''"] show ?thesis by simp
qed

theorem decide_resource_iff:
  "decide_resource g side ends info = success i \<longleftrightarrow>
     (\<exists>r. se_unit (te_source ends) = None \<and> se_unit (te_dest ends) = None \<and>
        shared_memory side ends = Some r \<and> i = info\<lparr>stage_resource := Some r\<rparr>) \<or>
     (\<exists>u r. {se_unit (te_source ends), se_unit (te_dest ends)} - {None} = {Some u} \<and>
        memoryOfUnit u side g = Some r \<and> shared_memory side ends \<in> {None, Some r} \<and>
        i = info\<lparr>applicable_unit := Some u, stage_resource := Some r\<rparr>)"
  by (rule decide_resource_success)

end
