(* ===== verification/PlanFlows.thy ===== *)
theory PlanFlows
  imports PlanPrep
begin

text \<open>
  The data flows of \<open>lib/Transforms/PathExpansion/Planner.cpp\<close>: who writes and who reads each FIFO
  slot and each memref of a pipeline, the flows between stages that follow from it, the route of
  every flow through the device and the units at its two ends.
\<close>

section \<open>The ends of FIFO slots\<close>

record fifo_endpoint =
  fe_op :: op
  fe_stage :: ptr
  fifo_is_source :: bool

text \<open>The two \<open>MapVector\<close>s are lists of entries in insertion order.\<close>

record fifo_endpoints =
  producers :: "(val \<times> fifo_endpoint) list"
  consumers :: "(val \<times> fifo_endpoint) list"
  indirect_slots :: "val set"
  duplicate :: "(op \<times> bool) option"

definition no_endpoints :: fifo_endpoints where
  "no_endpoints = \<lparr>producers = [], consumers = [], indirect_slots = {}, duplicate = None\<rparr>"

text \<open>\<open>insert\<close> keeps the first entry of a slot; the first second one is noted.\<close>

definition note_duplicate :: "op \<Rightarrow> bool \<Rightarrow> fifo_endpoints \<Rightarrow> fifo_endpoints" where
  "note_duplicate q is_producer E =
     (if duplicate E = None then E\<lparr>duplicate := Some (q, is_producer)\<rparr> else E)"

definition record_producer :: "val \<Rightarrow> op \<Rightarrow> ptr \<Rightarrow> fifo_endpoints \<Rightarrow> fifo_endpoints" where
  "record_producer v q s E =
     (if v \<in> fst ` set (producers E) then note_duplicate q True E
      else E\<lparr>producers := producers E @ [(v, \<lparr>fe_op = q, fe_stage = s, fifo_is_source = False\<rparr>)]\<rparr>)"

definition record_consumer :: "val \<Rightarrow> op \<Rightarrow> ptr \<Rightarrow> fifo_endpoints \<Rightarrow> fifo_endpoints" where
  "record_consumer v q s E =
     (if v \<in> fst ` set (consumers E) then note_duplicate q False E
      else E\<lparr>consumers := consumers E @ [(v, \<lparr>fe_op = q, fe_stage = s, fifo_is_source = True\<rparr>)]\<rparr>)"

definition record_op :: "planner_ir \<Rightarrow> ptr \<Rightarrow> body_op \<Rightarrow> fifo_endpoints \<Rightarrow> fifo_endpoints" where
  "record_op ir s b E =
     (case bo_kind b of
        ReadFromFifoOp v \<Rightarrow> record_consumer v (bo_op b) s E
      | WriteToFifoOp v \<Rightarrow> record_producer v (bo_op b) s E
      | DataTransferOp src dst _ \<Rightarrow>
          (let E1 = (if isFifoSlot ir src then record_consumer src (bo_op b) s E else E)
           in if isFifoSlot ir dst then record_producer dst (bo_op b) s E1 else E1)
      | IndDataTransferOp src dst is_gather \<Rightarrow>
          (let fifo_side = (if is_gather then dst else src) in
           if \<not> isFifoSlot ir fifo_side then E
           else (let E1 = E\<lparr>indirect_slots := insert fifo_side (indirect_slots E)\<rparr> in
                 if is_gather then record_producer fifo_side (bo_op b) s E1
                 else record_consumer fifo_side (bo_op b) s E1))
      | OtherBodyOp \<Rightarrow> E)"

text \<open>A stage without an operation is a synthetic one; \<open>cast<StageOp>\<close> asserts the class of any other.\<close>

definition collectFifoEndpoints :: "planner_ir \<Rightarrow> ptree \<Rightarrow> ptr list \<Rightarrow> fifo_endpoints option" where
  "collectFifoEndpoints ir T stages =
     foldM (\<lambda>s E. case operation_op T s of
                    None \<Rightarrow> Some E
                  | Some q \<Rightarrow> do { st \<leftarrow> stage_op ir q; Some (fold (record_op ir s) (body st) E) })
       stages no_endpoints"

section \<open>The flows between stages\<close>

record data_flow =
  carrier :: val
  producer_op :: op
  consumer_op :: op
  producer :: ptr
  consumer :: ptr
  flow_mode :: transfer_mode
  path :: "node_id list"
  producer_end :: nat
  consumer_begin :: nat
  producer_unit :: "resource option"
  consumer_unit :: "resource option"
  chain_stages :: "ptr list"
  boundaries :: "nat list"

definition middleBegin :: "data_flow \<Rightarrow> nat" where
  "middleBegin f = producer_end f + 1"

definition middleEnd :: "data_flow \<Rightarrow> nat" where
  "middleEnd f = consumer_begin f"

definition carrierIsMemref :: "planner_ir \<Rightarrow> data_flow \<Rightarrow> bool" where
  "carrierIsMemref ir f = isMemRef ir (carrier f)"

record memref_uses =
  writers :: "(op \<times> ptr) list"
  readers :: "(op \<times> ptr) list"
  other_use :: bool

definition no_uses :: memref_uses where
  "no_uses = \<lparr>writers = [], readers = [], other_use = False\<rparr>"

text \<open>One operand of one operation; \<open>memref_uses[value]\<close> starts empty.\<close>

definition use_step ::
  "planner_ir \<Rightarrow> ptr \<Rightarrow> body_op \<Rightarrow> val \<Rightarrow> (val \<Rightarrow> memref_uses option) \<Rightarrow> val \<Rightarrow> memref_uses option" where
  "use_step ir s b v uses =
     (if \<not> isMemRef ir v then uses
      else (let u = (case uses v of None \<Rightarrow> no_uses | Some u \<Rightarrow> u) in
        uses(v := Some (case bo_kind b of
          DataTransferOp src dst _ \<Rightarrow>
            (if v = dst then u\<lparr>writers := writers u @ [(bo_op b, s)]\<rparr>
             else if v = src then u\<lparr>readers := readers u @ [(bo_op b, s)]\<rparr>
             else u\<lparr>other_use := True\<rparr>)
        | _ \<Rightarrow> u\<lparr>other_use := True\<rparr>))))"

type_synonym stage_body = "ptr \<times> body_op list"

definition memref_uses_of :: "planner_ir \<Rightarrow> stage_body list \<Rightarrow> val \<Rightarrow> memref_uses option" where
  "memref_uses_of ir sbs =
     fold (\<lambda>(s, ops). fold (\<lambda>b. fold (use_step ir s b) (bo_operands b)) ops) sbs (\<lambda>_. None)"

text \<open>A null pair is \<open>None\<close>.\<close>

definition findReader ::
  "planner_ir \<Rightarrow> fifo_endpoints \<Rightarrow> (val \<Rightarrow> memref_uses option) \<Rightarrow> val \<Rightarrow> op \<Rightarrow> (op \<times> ptr) option" where
  "findReader ir E uses v writer =
     (if isFifoSlot ir v then
        (case (map_of (producers E) v, map_of (consumers E) v) of
           (Some pr, Some co) \<Rightarrow> (if fe_op pr \<noteq> writer then None else Some (fe_op co, fe_stage co))
         | _ \<Rightarrow> None)
      else (case uses v of
              None \<Rightarrow> None
            | Some u \<Rightarrow>
                (if length (writers u) \<noteq> 1 \<or> length (readers u) \<noteq> 1 \<or> other_use u then None
                 else Some (hd (readers u)))))"

definition written_by :: "body_op \<Rightarrow> val option" where
  "written_by b =
     (case bo_kind b of
        WriteToFifoOp v \<Rightarrow> Some v
      | DataTransferOp _ dst _ \<Rightarrow> Some dst
      | IndDataTransferOp _ dst is_gather \<Rightarrow> (if is_gather then Some dst else None)
      | _ \<Rightarrow> None)"

definition mode_of :: "body_op \<Rightarrow> transfer_mode" where
  "mode_of b = (case bo_kind b of DataTransferOp _ _ m \<Rightarrow> m | _ \<Rightarrow> Copy)"

definition flow_of_op ::
  "planner_ir \<Rightarrow> fifo_endpoints \<Rightarrow> (val \<Rightarrow> memref_uses option) \<Rightarrow> ptr \<Rightarrow> body_op \<Rightarrow> data_flow option" where
  "flow_of_op ir E uses s b =
     (case written_by b of
        None \<Rightarrow> None
      | Some v \<Rightarrow>
          (case findReader ir E uses v (bo_op b) of
             None \<Rightarrow> None
           | Some (reader, c) \<Rightarrow>
               (if c = s then None
                else Some \<lparr>carrier = v, producer_op = bo_op b, consumer_op = reader, producer = s,
                           consumer = c, flow_mode = mode_of b, path = [], producer_end = 0,
                           consumer_begin = 0, producer_unit = None, consumer_unit = None,
                           chain_stages = [], boundaries = []\<rparr>)))"

definition outgoing_flows ::
  "planner_ir \<Rightarrow> fifo_endpoints \<Rightarrow> (val \<Rightarrow> memref_uses option) \<Rightarrow> stage_body \<Rightarrow> data_flow list" where
  "outgoing_flows ir E uses sb = List.map_filter (flow_of_op ir E uses (fst sb)) (snd sb)"

text \<open>\<open>stage->getOperation()\<close> is dereferenced.\<close>

definition stage_bodies :: "planner_ir \<Rightarrow> ptree \<Rightarrow> ptr list \<Rightarrow> stage_body list option" where
  "stage_bodies ir T stages =
     foldM (\<lambda>s acc. do { st \<leftarrow> stage_ir_of ir T s; Some (acc @ [(s, body st)]) }) stages []"

definition grouped_flows ::
  "planner_ir \<Rightarrow> ptree \<Rightarrow> fifo_endpoints \<Rightarrow> (val \<Rightarrow> memref_uses option) \<Rightarrow> stage_body \<Rightarrow> data_flow list" where
  "grouped_flows ir T E uses sb =
     concat (map (\<lambda>c. filter (\<lambda>f. consumer f = c) (outgoing_flows ir E uses sb))
       (first_occurrences (succs T (fst sb))))"

definition collectDataFlows :: "planner_ir \<Rightarrow> ptree \<Rightarrow> ptr list \<Rightarrow> fifo_endpoints \<Rightarrow> data_flow list option" where
  "collectDataFlows ir T sorted_stages E =
     do { sbs \<leftarrow> stage_bodies ir T sorted_stages;
          Some (concat (map (grouped_flows ir T E (memref_uses_of ir sbs)) sbs)) }"

section \<open>The ends that are found\<close>

text \<open>The FIFO slots that an operation writes and reads, in the order in which they are recorded.\<close>

definition slots_written :: "planner_ir \<Rightarrow> body_op \<Rightarrow> val list" where
  "slots_written ir b =
     (case bo_kind b of
        WriteToFifoOp v \<Rightarrow> [v]
      | DataTransferOp _ dst _ \<Rightarrow> (if isFifoSlot ir dst then [dst] else [])
      | IndDataTransferOp _ dst is_gather \<Rightarrow> (if is_gather \<and> isFifoSlot ir dst then [dst] else [])
      | _ \<Rightarrow> [])"

definition slots_read :: "planner_ir \<Rightarrow> body_op \<Rightarrow> val list" where
  "slots_read ir b =
     (case bo_kind b of
        ReadFromFifoOp v \<Rightarrow> [v]
      | DataTransferOp src _ _ \<Rightarrow> (if isFifoSlot ir src then [src] else [])
      | IndDataTransferOp src _ is_gather \<Rightarrow> (if \<not> is_gather \<and> isFifoSlot ir src then [src] else [])
      | _ \<Rightarrow> [])"

lemma slots_written_by: "v \<in> set (slots_written ir b) \<Longrightarrow> written_by b = Some v"
  by (auto simp: slots_written_def written_by_def split: body_kind.splits if_splits)

text \<open>One operation: what it adds to the two maps, and when it causes a duplicate.\<close>

definition adds_ends :: "planner_ir \<Rightarrow> ptr \<Rightarrow> body_op \<Rightarrow> fifo_endpoints \<Rightarrow> fifo_endpoints \<Rightarrow> bool" where
  "adds_ends ir s b E E' \<longleftrightarrow>
     (\<forall>(v, e)\<in>set (producers E') - set (producers E).
        v \<in> set (slots_written ir b) \<and> fe_op e = bo_op b \<and> fe_stage e = s) \<and>
     (\<forall>(v, e)\<in>set (consumers E') - set (consumers E).
        v \<in> set (slots_read ir b) \<and> fe_op e = bo_op b \<and> fe_stage e = s) \<and>
     fst ` set (producers E') = fst ` set (producers E) \<union> set (slots_written ir b) \<and>
     fst ` set (consumers E') = fst ` set (consumers E) \<union> set (slots_read ir b) \<and>
     (distinct (map fst (producers E)) \<longrightarrow> distinct (map fst (producers E'))) \<and>
     (distinct (map fst (consumers E)) \<longrightarrow> distinct (map fst (consumers E'))) \<and>
     (duplicate E' = None \<longleftrightarrow> duplicate E = None \<and>
        set (slots_written ir b) \<inter> fst ` set (producers E) = {} \<and>
        set (slots_read ir b) \<inter> fst ` set (consumers E) = {})"

lemma record_op_adds: "adds_ends ir s b E (record_op ir s b E)"
proof (cases "bo_kind b")
  case (DataTransferOp src dst m)
  then show ?thesis
    by (cases "isFifoSlot ir src"; cases "isFifoSlot ir dst")
      (auto simp: adds_ends_def record_op_def slots_written_def slots_read_def
        record_producer_def record_consumer_def note_duplicate_def Let_def)
next
  case (IndDataTransferOp src dst gather)
  then show ?thesis
    by (cases gather; cases "isFifoSlot ir src"; cases "isFifoSlot ir dst")
      (auto simp: adds_ends_def record_op_def slots_written_def slots_read_def
        record_producer_def record_consumer_def note_duplicate_def Let_def)
qed (auto simp: adds_ends_def record_op_def slots_written_def slots_read_def
      record_producer_def record_consumer_def note_duplicate_def Let_def)

text \<open>All operations of the stages, with the stage each is in.\<close>

definition located :: "stage_body list \<Rightarrow> (ptr \<times> body_op) list" where
  "located sbs = concat (map (\<lambda>(s, ops). map (Pair s) ops) sbs)"

lemma in_located: "(s, b) \<in> set (located sbs) \<longleftrightarrow> (\<exists>ops. (s, ops) \<in> set sbs \<and> b \<in> set ops)"
  by (force simp: located_def)

lemma ex_located: "(\<exists>x\<in>set (located sbs). Q (fst x) (snd x)) \<longleftrightarrow> (\<exists>sb\<in>set sbs. \<exists>b\<in>set (snd sb). Q (fst sb) b)"
  unfolding located_def by (induction sbs) (simp add: located_def, simp add: bex_Un split_def del: set_concat)

lemma fold_located: "fold (\<lambda>(s, ops). fold (f s) ops) sbs x = fold (\<lambda>(s, b). f s b) (located sbs) x"
  by (induction sbs arbitrary: x) (auto simp: located_def fold_map comp_def)

definition all_ends :: "planner_ir \<Rightarrow> (ptr \<times> body_op) list \<Rightarrow> fifo_endpoints" where
  "all_ends ir sbl = fold (\<lambda>(s, b). record_op ir s b) sbl no_endpoints"

lemma stage_bodies_eq:
  "stage_bodies ir T ss =
     (if \<forall>s\<in>set ss. stage_ir_of ir T s \<noteq> None
      then Some (map (\<lambda>s. (s, body (the (stage_ir_of ir T s)))) ss) else None)"
proof -
  have "foldM (\<lambda>s acc. do { st \<leftarrow> stage_ir_of ir T s; Some (acc @ [(s, body st)]) }) ss acc =
      (if \<forall>s\<in>set ss. stage_ir_of ir T s \<noteq> None
       then Some (acc @ map (\<lambda>s. (s, body (the (stage_ir_of ir T s)))) ss) else None)" for acc
    by (induction ss arbitrary: acc) (auto split: Option.bind_split)
  then show ?thesis by (simp add: stage_bodies_def)
qed

lemma collectFifoEndpoints_eq:
  assumes "stage_bodies ir T ss = Some sbs"
  shows "collectFifoEndpoints ir T ss = Some (all_ends ir (located sbs))"
proof -
  have all: "\<forall>s\<in>set ss. stage_ir_of ir T s \<noteq> None"
    and sbs: "sbs = map (\<lambda>s. (s, body (the (stage_ir_of ir T s)))) ss"
    using assms unfolding stage_bodies_eq by (auto split: if_splits)
  let ?f = "\<lambda>s E. case operation_op T s of
      None \<Rightarrow> Some E
    | Some q \<Rightarrow> do { st \<leftarrow> stage_op ir q; Some (fold (record_op ir s) (body st) E) }"
  have one: "?f s E = Some (fold (record_op ir s) (body (the (stage_ir_of ir T s))) E)"
    if "stage_ir_of ir T s \<noteq> None" for s E
    using that by (auto simp: stage_ir_of_def split: option.splits)
  have "foldM ?f ss E = Some (fold (\<lambda>s. fold (record_op ir s) (body (the (stage_ir_of ir T s)))) ss E)" for E
    using all by (induction ss arbitrary: E) (simp_all del: fold_simps add: one fold_simps(2) fold_simps(1))
  then have "collectFifoEndpoints ir T ss =
      Some (fold (\<lambda>s. fold (record_op ir s) (body (the (stage_ir_of ir T s)))) ss no_endpoints)"
    by (simp add: collectFifoEndpoints_def)
  also have "fold (\<lambda>s. fold (record_op ir s) (body (the (stage_ir_of ir T s)))) ss no_endpoints =
      fold (\<lambda>(s, ops). fold (record_op ir s) ops) sbs no_endpoints"
    unfolding sbs by (simp add: fold_map comp_def)
  finally show ?thesis unfolding all_ends_def fold_located .
qed

lemma extend_ends:
  assumes "\<forall>(v, e)\<in>B - A. v \<in> set (f b) \<and> fe_op e = bo_op b \<and> fe_stage e = s"
    and "\<forall>(v, e)\<in>A. \<exists>(s, b)\<in>set sbl. v \<in> set (f b) \<and> fe_op e = bo_op b \<and> fe_stage e = s"
    and "x = (s, b)"
  shows "\<forall>(v, e)\<in>B. \<exists>(s, b)\<in>set (sbl @ [x]). v \<in> set (f b) \<and> fe_op e = bo_op b \<and> fe_stage e = s"
proof clarify
  fix v e assume "(v, e) \<in> B"
  then consider "(v, e) \<in> A" | "(v, e) \<in> B - A" by blast
  then show "\<exists>(s, b)\<in>set (sbl @ [x]). v \<in> set (f b) \<and> fe_op e = bo_op b \<and> fe_stage e = s"
  proof cases
    case 1
    with assms(2) show ?thesis by fastforce
  next
    case 2
    with assms(1,3) show ?thesis by fastforce
  qed
qed

lemma all_ends_props:
  "(\<forall>(v, e)\<in>set (producers (all_ends ir sbl)). \<exists>(s, b)\<in>set sbl.
      v \<in> set (slots_written ir b) \<and> fe_op e = bo_op b \<and> fe_stage e = s) \<and>
   (\<forall>(v, e)\<in>set (consumers (all_ends ir sbl)). \<exists>(s, b)\<in>set sbl.
      v \<in> set (slots_read ir b) \<and> fe_op e = bo_op b \<and> fe_stage e = s) \<and>
   fst ` set (producers (all_ends ir sbl)) = (\<Union>(s, b)\<in>set sbl. set (slots_written ir b)) \<and>
   fst ` set (consumers (all_ends ir sbl)) = (\<Union>(s, b)\<in>set sbl. set (slots_read ir b)) \<and>
   distinct (map fst (producers (all_ends ir sbl))) \<and> distinct (map fst (consumers (all_ends ir sbl))) \<and>
   (duplicate (all_ends ir sbl) = None \<longleftrightarrow>
      distinct (concat (map (slots_written ir) (map snd sbl))) \<and>
      distinct (concat (map (slots_read ir) (map snd sbl))))"
proof (induction sbl rule: rev_induct)
  case Nil
  show ?case by (simp add: all_ends_def no_endpoints_def)
next
  case (snoc x sbl)
  obtain s b where x: "x = (s, b)" by (cases x)
  let ?E = "all_ends ir sbl"
  have E': "all_ends ir (sbl @ [x]) = record_op ir s b ?E" by (simp add: all_ends_def x)
  have A: "adds_ends ir s b ?E (record_op ir s b ?E)" by (rule record_op_adds)
  have d: "distinct (slots_written ir b)" "distinct (slots_read ir b)"
    by (auto simp: slots_written_def slots_read_def split: body_kind.splits)
  have dup: "duplicate (record_op ir s b ?E) = None \<longleftrightarrow>
      distinct (concat (map (slots_written ir) (map snd (sbl @ [x])))) \<and>
      distinct (concat (map (slots_read ir) (map snd (sbl @ [x]))))"
  proof -
    have keys: "fst ` set (producers ?E) = set (concat (map (slots_written ir) (map snd sbl)))"
      "fst ` set (consumers ?E) = set (concat (map (slots_read ir) (map snd sbl)))"
      using snoc by auto
    have old: "duplicate ?E = None \<longleftrightarrow> distinct (concat (map (slots_written ir) (map snd sbl))) \<and>
        distinct (concat (map (slots_read ir) (map snd sbl)))" using snoc by blast
    have "duplicate (record_op ir s b ?E) = None \<longleftrightarrow> duplicate ?E = None \<and>
        set (slots_written ir b) \<inter> fst ` set (producers ?E) = {} \<and>
        set (slots_read ir b) \<inter> fst ` set (consumers ?E) = {}"
      using A unfolding adds_ends_def by blast
    then show ?thesis unfolding keys old by (simp add: d x) blast
  qed
  have A1: "\<forall>(v, e)\<in>set (producers (record_op ir s b ?E)) - set (producers ?E).
        v \<in> set (slots_written ir b) \<and> fe_op e = bo_op b \<and> fe_stage e = s"
    and A2: "\<forall>(v, e)\<in>set (consumers (record_op ir s b ?E)) - set (consumers ?E).
        v \<in> set (slots_read ir b) \<and> fe_op e = bo_op b \<and> fe_stage e = s"
    using A unfolding adds_ends_def by - (elim conjE, assumption)+
  have p: "\<forall>(v, e)\<in>set (producers (record_op ir s b ?E)). \<exists>(s, b)\<in>set (sbl @ [x]).
      v \<in> set (slots_written ir b) \<and> fe_op e = bo_op b \<and> fe_stage e = s"
    by (rule extend_ends [where f = "slots_written ir", OF A1 snoc [THEN conjunct1] x])
  have c: "\<forall>(v, e)\<in>set (consumers (record_op ir s b ?E)). \<exists>(s, b)\<in>set (sbl @ [x]).
      v \<in> set (slots_read ir b) \<and> fe_op e = bo_op b \<and> fe_stage e = s"
    by (rule extend_ends [where f = "slots_read ir", OF A2 snoc [THEN conjunct2, THEN conjunct1] x])
  have k: "fst ` set (producers (record_op ir s b ?E)) = (\<Union>(s, b)\<in>set (sbl @ [x]). set (slots_written ir b))"
    "fst ` set (consumers (record_op ir s b ?E)) = (\<Union>(s, b)\<in>set (sbl @ [x]). set (slots_read ir b))"
  proof -
    have n: "fst ` set (producers (record_op ir s b ?E)) = fst ` set (producers ?E) \<union> set (slots_written ir b)"
      "fst ` set (consumers (record_op ir s b ?E)) = fst ` set (consumers ?E) \<union> set (slots_read ir b)"
      using A unfolding adds_ends_def by - (elim conjE, assumption)+
    have o': "fst ` set (producers ?E) = (\<Union>(s, b)\<in>set sbl. set (slots_written ir b))"
      "fst ` set (consumers ?E) = (\<Union>(s, b)\<in>set sbl. set (slots_read ir b))"
      using snoc by - (elim conjE, assumption)+
    show "fst ` set (producers (record_op ir s b ?E)) = (\<Union>(s, b)\<in>set (sbl @ [x]). set (slots_written ir b))"
      "fst ` set (consumers (record_op ir s b ?E)) = (\<Union>(s, b)\<in>set (sbl @ [x]). set (slots_read ir b))"
      unfolding n o' x by auto
  qed
  have m: "distinct (map fst (producers (record_op ir s b ?E))) \<and>
      distinct (map fst (consumers (record_op ir s b ?E)))"
    using A snoc unfolding adds_ends_def by (elim conjE) simp
  show ?case unfolding E' by (intro conjI p c k dup m [THEN conjunct1] m [THEN conjunct2])
qed

section \<open>The uses of memrefs\<close>

text \<open>Every operand of every operation, with its operation and stage; and how it uses the memref.\<close>

definition occurrences :: "(ptr \<times> body_op) list \<Rightarrow> ((ptr \<times> body_op) \<times> val) list" where
  "occurrences sbl = concat (map (\<lambda>x. map (Pair x) (bo_operands (snd x))) sbl)"

definition as_writer :: "body_op \<Rightarrow> val \<Rightarrow> bool" where
  "as_writer b v = (case bo_kind b of DataTransferOp src dst _ \<Rightarrow> v = dst | _ \<Rightarrow> False)"

definition as_reader :: "body_op \<Rightarrow> val \<Rightarrow> bool" where
  "as_reader b v = (case bo_kind b of DataTransferOp src dst _ \<Rightarrow> v = src \<and> v \<noteq> dst | _ \<Rightarrow> False)"

definition uses_at :: "((ptr \<times> body_op) \<times> val) list \<Rightarrow> val \<Rightarrow> (ptr \<times> body_op) list" where
  "uses_at occ v = map fst (filter (\<lambda>x. snd x = v) occ)"

definition op_at :: "ptr \<times> body_op \<Rightarrow> op \<times> ptr" where
  "op_at x = (bo_op (snd x), fst x)"

lemma uses_at_snoc: "uses_at (occ @ [(x, w)]) v = uses_at occ v @ (if w = v then [x] else [])"
  by (simp add: uses_at_def)

lemma memref_uses_of_eq:
  "memref_uses_of ir sbs v =
     (let us = uses_at (occurrences (located sbs)) v in
      if \<not> isMemRef ir v \<or> us = [] then None
      else Some \<lparr>writers = map op_at (filter (\<lambda>x. as_writer (snd x) v) us),
                 readers = map op_at (filter (\<lambda>x. as_reader (snd x) v) us),
                 other_use = (\<exists>x\<in>set us. \<not> as_writer (snd x) v \<and> \<not> as_reader (snd x) v)\<rparr>)"
proof -
  let ?f = "\<lambda>((s, b), w). use_step ir s b w"
  have "memref_uses_of ir sbs = fold ?f (occurrences (located sbs)) (\<lambda>_. None)"
  proof -
    have "fold (\<lambda>(s, b). fold (use_step ir s b) (bo_operands b)) xs m = fold ?f (occurrences xs) m" for xs m
      by (induction xs arbitrary: m) (auto simp: occurrences_def fold_map comp_def)
    then show ?thesis unfolding memref_uses_of_def
      using fold_located [of "\<lambda>s b. fold (use_step ir s b) (bo_operands b)" sbs] by simp
  qed
  moreover have "fold ?f occ (\<lambda>_. None) v =
     (let us = uses_at occ v in
      if \<not> isMemRef ir v \<or> us = [] then None
      else Some \<lparr>writers = map op_at (filter (\<lambda>x. as_writer (snd x) v) us),
                 readers = map op_at (filter (\<lambda>x. as_reader (snd x) v) us),
                 other_use = (\<exists>x\<in>set us. \<not> as_writer (snd x) v \<and> \<not> as_reader (snd x) v)\<rparr>)" for occ
  proof (induction occ rule: rev_induct)
    case Nil
    show ?case by (simp add: uses_at_def)
  next
    case (snoc y occ)
    obtain s b w where y: "y = ((s, b), w)" by (metis prod.collapse)
    have run: "fold ?f (occ @ [y]) (\<lambda>_. None) v = use_step ir s b w (fold ?f occ (\<lambda>_. None)) v"
      by (simp add: y)
    show ?case
    proof (cases "w = v \<and> isMemRef ir v")
      case False
      then have "use_step ir s b w m v = m v" for m by (auto simp: use_step_def Let_def)
      then show ?thesis unfolding run y uses_at_snoc using False snoc by (auto simp: Let_def)
    next
      case True
      have step: "use_step ir s b w m v =
          (let u = (case m v of None \<Rightarrow> no_uses | Some u \<Rightarrow> u) in
           Some (if as_writer b v then u\<lparr>writers := writers u @ [(bo_op b, s)]\<rparr>
                 else if as_reader b v then u\<lparr>readers := readers u @ [(bo_op b, s)]\<rparr>
                 else u\<lparr>other_use := True\<rparr>))" for m
        using True by (auto simp: use_step_def Let_def as_writer_def as_reader_def split: body_kind.splits)
      have ex: "\<not> (as_writer b v \<and> as_reader b v)"
        by (auto simp: as_writer_def as_reader_def split: body_kind.splits)
      show ?thesis
        unfolding run unfolding step snoc unfolding y uses_at_snoc
        using True ex by (auto simp: Let_def no_uses_def op_at_def)
    qed
  qed
  ultimately show ?thesis by simp
qed

section \<open>The flows that are found\<close>

text \<open>
  What the types of the operations and the operand lists of the dialect guarantee, and that an
  operation occurs once.
\<close>

definition op_wf :: "planner_ir \<Rightarrow> body_op \<Rightarrow> bool" where
  "op_wf ir b =
     (case bo_kind b of
        ReadFromFifoOp v \<Rightarrow> isFifoSlot ir v
      | WriteToFifoOp v \<Rightarrow> isFifoSlot ir v
      | DataTransferOp src dst _ \<Rightarrow> src \<in> set (bo_operands b) \<and> dst \<in> set (bo_operands b)
      | IndDataTransferOp src dst _ \<Rightarrow> src \<in> set (bo_operands b) \<and> dst \<in> set (bo_operands b)
      | OtherBodyOp \<Rightarrow> True)"

definition bodies_wf :: "planner_ir \<Rightarrow> (ptr \<times> body_op) list \<Rightarrow> bool" where
  "bodies_wf ir sbl \<longleftrightarrow> distinct (map (\<lambda>x. bo_op (snd x)) sbl) \<and> (\<forall>x\<in>set sbl. op_wf ir (snd x))"

text \<open>\<open>carried ir sbl v x y\<close>: the value \<open>v\<close> is a carrier that \<open>x\<close> writes and \<open>y\<close> reads.\<close>

definition carried ::
  "planner_ir \<Rightarrow> (ptr \<times> body_op) list \<Rightarrow> val \<Rightarrow> ptr \<times> body_op \<Rightarrow> ptr \<times> body_op \<Rightarrow> bool" where
  "carried ir sbl v x y \<longleftrightarrow>
     (if isFifoSlot ir v
      then x \<in> set sbl \<and> y \<in> set sbl \<and> v \<in> set (slots_written ir (snd x)) \<and> v \<in> set (slots_read ir (snd y))
      else isMemRef ir v \<and> uses_at (occurrences sbl) v \<in> {[x, y], [y, x]} \<and>
        as_writer (snd x) v \<and> as_reader (snd y) v)"

definition new_flow :: "val \<Rightarrow> ptr \<times> body_op \<Rightarrow> ptr \<times> body_op \<Rightarrow> data_flow" where
  "new_flow v x y =
     \<lparr>carrier = v, producer_op = bo_op (snd x), consumer_op = bo_op (snd y), producer = fst x,
      consumer = fst y, flow_mode = mode_of (snd x), path = [], producer_end = 0,
      consumer_begin = 0, producer_unit = None, consumer_unit = None,
      chain_stages = [], boundaries = []\<rparr>"

lemma written_slot: "op_wf ir b \<Longrightarrow> written_by b = Some v \<Longrightarrow> isFifoSlot ir v \<Longrightarrow> v \<in> set (slots_written ir b)"
  by (auto simp: op_wf_def written_by_def slots_written_def split: body_kind.splits if_splits)

lemma find_fifo_reader:
  assumes wf: "bodies_wf ir sbl" and nodup: "duplicate (all_ends ir sbl) = None"
    and x: "x \<in> set sbl" "written_by (snd x) = Some v" and v: "isFifoSlot ir v"
  shows "findReader ir (all_ends ir sbl) uses v (bo_op (snd x)) = Some z \<longleftrightarrow>
    (\<exists>y. carried ir sbl v x y \<and> z = op_at y)"
proof -
  let ?E = "all_ends ir sbl"
  note A = all_ends_props [of ir sbl]
  have w: "distinct (concat (map (\<lambda>x. slots_written ir (snd x)) sbl))"
    "distinct (concat (map (\<lambda>x. slots_read ir (snd x)) sbl))"
    using A nodup by (simp_all add: comp_def)
  have vx: "v \<in> set (slots_written ir (snd x))"
    using written_slot [OF _ x(2) v] wf x(1) unfolding bodies_wf_def by blast
  have "v \<in> fst ` set (producers ?E)"
  proof -
    have "v \<in> (\<Union>(s, b)\<in>set sbl. set (slots_written ir b))" using vx x(1) by (cases x) auto
    then show ?thesis using A by simp
  qed
  then obtain pr where pr: "map_of (producers ?E) v = Some pr"
    by (metis map_of_eq_None_iff option.exhaust)
  then have "(v, pr) \<in> set (producers ?E)" by (rule map_of_SomeD)
  then obtain x' where x': "x' \<in> set sbl" "v \<in> set (slots_written ir (snd x'))" "fe_op pr = bo_op (snd x')"
    using A [THEN conjunct1] by fastforce
  then have op: "fe_op pr = bo_op (snd x)" using distinct_concat_unique [OF w(1) x(1) x'(1) vx x'(2)] by simp
  have f: "findReader ir ?E uses v (bo_op (snd x)) =
      (case map_of (consumers ?E) v of None \<Rightarrow> None | Some co \<Rightarrow> Some (fe_op co, fe_stage co))"
    using v pr op by (simp add: findReader_def split: option.split)
  have car: "carried ir sbl v x y \<longleftrightarrow> y \<in> set sbl \<and> v \<in> set (slots_read ir (snd y))" for y
    using v x(1) vx by (simp add: carried_def)
  have co: "\<exists>y. y \<in> set sbl \<and> v \<in> set (slots_read ir (snd y)) \<and> (fe_op co, fe_stage co) = op_at y"
    if "map_of (consumers ?E) v = Some co" for co
  proof -
    have "(v, co) \<in> set (consumers ?E)" using that by (rule map_of_SomeD)
    then show ?thesis using A [THEN conjunct2, THEN conjunct1] by (fastforce simp: op_at_def)
  qed
  show ?thesis
  proof (cases "map_of (consumers ?E) v")
    case None
    then have "v \<notin> (\<Union>(s, b)\<in>set sbl. set (slots_read ir b))"
      using A by (simp add: map_of_eq_None_iff)
    then show ?thesis using None unfolding f car by auto
  next
    case (Some co)
    then obtain y where y: "y \<in> set sbl" "v \<in> set (slots_read ir (snd y))" "(fe_op co, fe_stage co) = op_at y"
      using co by blast
    have "y' = y" if "y' \<in> set sbl" "v \<in> set (slots_read ir (snd y'))" for y'
      using distinct_concat_unique [OF w(2) that(1) y(1) that(2) y(2)] .
    with y(1,2) have only: "y' \<in> set sbl \<and> v \<in> set (slots_read ir (snd y')) \<longleftrightarrow> y' = y" for y'
      by blast
    show ?thesis unfolding f car only by (simp add: Some y(3) eq_commute)
  qed
qed

lemma two_uses:
  assumes "filter P us = [a]" and "filter Q us = [c]" and "\<forall>u\<in>set us. P u \<noteq> Q u"
  shows "us \<in> {[a, c], [c, a]}"
proof -
  have "filter Q us = filter (\<lambda>u. \<not> P u) us" using assms(3) by (intro filter_cong) auto
  then have "length (filter (\<lambda>u. \<not> P u) us) = 1"
    using assms(2) by (metis One_nat_def length_Cons list.size(3))
  then have "length us = 2" using sum_length_filter_compl [of P us] assms(1) by simp
  then obtain p q where "us = [p, q]" by (auto simp: length_Suc_conv eval_nat_numeral)
  then show ?thesis using assms by (auto split: if_splits)
qed

lemma find_memref_reader:
  assumes wf: "bodies_wf ir sbl" and sbl: "sbl = located sbs"
    and x: "x \<in> set sbl" "written_by (snd x) = Some v" and v: "\<not> isFifoSlot ir v"
  shows "findReader ir E (memref_uses_of ir sbs) v (bo_op (snd x)) = Some z \<longleftrightarrow>
    (\<exists>y. carried ir sbl v x y \<and> z = op_at y)"
proof -
  let ?us = "uses_at (occurrences sbl) v"
  have wr: "op_wf ir (snd x)" using wf x(1) unfolding bodies_wf_def by blast
  have xin: "x \<in> set ?us"
  proof -
    have "v \<in> set (bo_operands (snd x))"
      using wr x(2) v by (auto simp: op_wf_def written_by_def split: body_kind.splits if_splits)
    then show ?thesis using x(1) by (force simp: uses_at_def occurrences_def)
  qed
  have notr: "\<not> as_reader (snd x) v"
    using x(2) by (auto simp: as_reader_def written_by_def split: body_kind.splits)
  have ex: "\<not> (as_writer b v \<and> as_reader b v)" for b
    by (auto simp: as_writer_def as_reader_def split: body_kind.splits)
  let ?W = "filter (\<lambda>x. as_writer (snd x) v) ?us" and ?R = "filter (\<lambda>x. as_reader (snd x) v) ?us"
  have f: "findReader ir E (memref_uses_of ir sbs) v (bo_op (snd x)) = Some z \<longleftrightarrow>
      isMemRef ir v \<and> length ?W = 1 \<and> length ?R = 1 \<and>
      (\<forall>x\<in>set ?us. as_writer (snd x) v \<or> as_reader (snd x) v) \<and> z = op_at (hd ?R)"
    using v xin unfolding findReader_def memref_uses_of_eq sbl
    by (cases "filter (\<lambda>x. as_reader (snd x) v) (uses_at (occurrences (located sbs)) v)")
      (auto simp: Let_def)
  show ?thesis
  proof
    assume "findReader ir E (memref_uses_of ir sbs) v (bo_op (snd x)) = Some z"
    then have F: "isMemRef ir v" "length ?W = 1" "length ?R = 1" "z = op_at (hd ?R)"
      "\<forall>x\<in>set ?us. as_writer (snd x) v \<or> as_reader (snd x) v" unfolding f by blast+
    obtain a where a: "?W = [a]" using F(2) by (auto simp: length_Suc_conv)
    obtain y where y: "?R = [y]" using F(3) by (auto simp: length_Suc_conv)
    have wx: "as_writer (snd x) v" using F(5) xin notr by blast
    have "x \<in> set ?W" using xin wx by simp
    then have ax: "a = x" unfolding a by simp
    have "y \<in> set ?R" unfolding y by simp
    then have ry: "as_reader (snd y) v" by simp
    have "?us \<in> {[x, y], [y, x]}"
      using two_uses [OF a y] F(5) ex unfolding ax by blast
    then have "carried ir sbl v x y" using v F(1) wx ry by (simp add: carried_def)
    moreover have "z = op_at y" using F(4) unfolding y by simp
    ultimately show "\<exists>y. carried ir sbl v x y \<and> z = op_at y" by blast
  next
    assume "\<exists>y. carried ir sbl v x y \<and> z = op_at y"
    then obtain y where c: "carried ir sbl v x y" "z = op_at y" by blast
    from c(1) v have y: "isMemRef ir v" "?us \<in> {[x, y], [y, x]}" "as_writer (snd x) v"
      "as_reader (snd y) v" unfolding carried_def by simp_all
    then show "findReader ir E (memref_uses_of ir sbs) v (bo_op (snd x)) = Some z"
      unfolding f using notr ex [of "snd y"] c(2) by auto
  qed
qed

lemma set_uses_at: "set (uses_at (occurrences sbl) v) \<subseteq> set sbl"
  by (auto simp: uses_at_def occurrences_def)

lemma carried_written: "carried ir sbl v x y \<Longrightarrow> written_by (snd x) = Some v \<and> x \<in> set sbl \<and> y \<in> set sbl"
proof -
  assume c: "carried ir sbl v x y"
  show ?thesis
  proof (cases "isFifoSlot ir v")
    case True
    then show ?thesis using c slots_written_by by (auto simp: carried_def)
  next
    case False
    then have u: "uses_at (occurrences sbl) v \<in> {[x, y], [y, x]}" "as_writer (snd x) v"
      using c unfolding carried_def by simp_all
    have "{x, y} \<subseteq> set (uses_at (occurrences sbl) v)" using u(1) by auto
    then have "x \<in> set sbl \<and> y \<in> set sbl" using set_uses_at [of sbl v] by blast
    then show ?thesis using u(2) by (auto simp: as_writer_def written_by_def split: body_kind.splits)
  qed
qed

lemma flow_of_op_iff:
  assumes wf: "bodies_wf ir (located sbs)" and nodup: "duplicate (all_ends ir (located sbs)) = None"
    and x: "x \<in> set (located sbs)"
  shows "flow_of_op ir (all_ends ir (located sbs)) (memref_uses_of ir sbs) (fst x) (snd x) = Some f \<longleftrightarrow>
    (\<exists>v y. carried ir (located sbs) v x y \<and> fst y \<noteq> fst x \<and> f = new_flow v x y)"
proof -
  let ?find = "findReader ir (all_ends ir (located sbs)) (memref_uses_of ir sbs)"
  have fr: "?find v (bo_op (snd x)) = Some z \<longleftrightarrow> (\<exists>y. carried ir (located sbs) v x y \<and> z = op_at y)"
    if "written_by (snd x) = Some v" for v z
    using find_fifo_reader [OF wf nodup x that] find_memref_reader [OF wf refl x that] by blast
  have nf: "\<lparr>carrier = v, producer_op = bo_op (snd x), consumer_op = reader, producer = fst x,
      consumer = c, flow_mode = mode_of (snd x), path = [], producer_end = 0, consumer_begin = 0,
      producer_unit = None, consumer_unit = None, chain_stages = [], boundaries = []\<rparr> = new_flow v x y
      \<and> fst y = c" if "(reader, c) = op_at y" for reader c v y
    using that by (simp add: new_flow_def op_at_def)
  show ?thesis
  proof
    assume "flow_of_op ir (all_ends ir (located sbs)) (memref_uses_of ir sbs) (fst x) (snd x) = Some f"
    then obtain v reader c where v: "written_by (snd x) = Some v" "?find v (bo_op (snd x)) = Some (reader, c)"
      "c \<noteq> fst x" "f = \<lparr>carrier = v, producer_op = bo_op (snd x), consumer_op = reader, producer = fst x,
        consumer = c, flow_mode = mode_of (snd x), path = [], producer_end = 0, consumer_begin = 0,
        producer_unit = None, consumer_unit = None, chain_stages = [], boundaries = []\<rparr>"
      unfolding flow_of_op_def by (auto split: option.splits if_splits)
    obtain y where y: "carried ir (located sbs) v x y" "(reader, c) = op_at y" using v(2) fr [OF v(1)] by blast
    show "\<exists>v y. carried ir (located sbs) v x y \<and> fst y \<noteq> fst x \<and> f = new_flow v x y"
      using y(1) v(3,4) nf [OF y(2), of v] by metis
  next
    assume "\<exists>v y. carried ir (located sbs) v x y \<and> fst y \<noteq> fst x \<and> f = new_flow v x y"
    then obtain v y where y: "carried ir (located sbs) v x y" "fst y \<noteq> fst x" "f = new_flow v x y" by blast
    have w: "written_by (snd x) = Some v" using carried_written [OF y(1)] by blast
    have "?find v (bo_op (snd x)) = Some (op_at y)" using fr [OF w] y(1) by blast
    then show "flow_of_op ir (all_ends ir (located sbs)) (memref_uses_of ir sbs) (fst x) (snd x) = Some f"
      using w y(2,3) by (simp add: flow_of_op_def new_flow_def op_at_def)
  qed
qed

lemma map_filter_set: "set (List.map_filter f xs) = {y. \<exists>x\<in>set xs. f x = Some y}"
  by (force simp: List.map_filter_def)

lemma distinct_keys_map_filter:
  assumes "distinct (map k xs)" and "\<And>x y. x \<in> set xs \<Longrightarrow> f x = Some y \<Longrightarrow> h y = k x"
  shows "distinct (map h (List.map_filter f xs))"
  using assms
proof (induction xs)
  case (Cons x xs)
  have IH: "distinct (map h (List.map_filter f xs))" by (rule Cons.IH) (use Cons.prems in auto)
  show ?case
  proof (cases "f x")
    case None
    then show ?thesis using IH by (simp add: List.map_filter_def)
  next
    case (Some y)
    have "h y \<notin> h ` set (List.map_filter f xs)"
    proof
      assume "h y \<in> h ` set (List.map_filter f xs)"
      then obtain x' y' where x': "x' \<in> set xs" "f x' = Some y'" "h y' = h y" by (auto simp: map_filter_set)
      then have "k x' = k x" using Cons.prems(2) [of x' y'] Cons.prems(2) [of x y] Some by simp
      then show False using Cons.prems(1) x'(1) by (metis distinct.simps(2) image_eqI list.set_map list.simps(9))
    qed
    moreover have "List.map_filter f (x # xs) = y # List.map_filter f xs" using Some by (simp add: List.map_filter_simps)
    ultimately show ?thesis using IH by simp
  qed
qed (simp add: List.map_filter_def)

lemma distinct_grouped:
  assumes "distinct cs" and "distinct (map h xs)"
  shows "distinct (map h (concat (map (\<lambda>c. filter (\<lambda>f. k f = c) xs) cs)))"
  using assms
proof (induction cs)
  case (Cons c cs)
  have "distinct (map h (filter (\<lambda>f. k f = c) xs))" using Cons.prems(2) by (rule distinct_map_filter)
  moreover have "inj_on h (set xs)" using Cons.prems(2) by (simp add: distinct_map)
  ultimately show ?case using Cons by (auto dest: inj_onD)
qed simp

lemma flow_of_op_parts:
  "flow_of_op ir E uses s b = Some f \<Longrightarrow> producer f = s \<and> producer_op f = bo_op b"
  by (auto simp: flow_of_op_def split: option.splits if_splits)

lemma set_outgoing: "f \<in> set (outgoing_flows ir E uses sb) \<longleftrightarrow>
    (\<exists>b\<in>set (snd sb). flow_of_op ir E uses (fst sb) b = Some f)"
  by (simp add: outgoing_flows_def map_filter_set)

lemma set_grouped: "f \<in> set (grouped_flows ir T E uses sb) \<longleftrightarrow>
    f \<in> set (outgoing_flows ir E uses sb) \<and> Some (consumer f) \<in> set (dependencies T (fst sb))"
  by (auto simp: grouped_flows_def set_succs)

lemma disjoint_mono: "A \<subseteq> A' \<Longrightarrow> B \<subseteq> B' \<Longrightarrow> A' \<inter> B' = {} \<Longrightarrow> A \<inter> B = {}"
  by blast

lemma distinct_flows:
  "distinct (map (\<lambda>x. bo_op (snd x)) (located sbs)) \<Longrightarrow>
   distinct (map producer_op (concat (map (grouped_flows ir T E uses) sbs)))"
proof (induction sbs)
  case (Cons sb sbs)
  have loc: "located (sb # sbs) = map (Pair (fst sb)) (snd sb) @ located sbs"
    by (cases sb) (simp add: located_def)
  have d: "distinct (map bo_op (snd sb))" "distinct (map (\<lambda>x. bo_op (snd x)) (located sbs))"
    "bo_op ` set (snd sb) \<inter> (\<lambda>x. bo_op (snd x)) ` set (located sbs) = {}"
    using Cons.prems unfolding loc by (auto simp: comp_def image_image)
  have "distinct (map producer_op (outgoing_flows ir E uses sb))"
    unfolding outgoing_flows_def
    by (rule distinct_keys_map_filter [OF d(1)]) (use flow_of_op_parts in blast)
  then have first: "distinct (map producer_op (grouped_flows ir T E uses sb))"
    unfolding grouped_flows_def by (intro distinct_grouped) simp_all
  have left: "producer_op f \<in> bo_op ` set (snd sb)" if "f \<in> set (grouped_flows ir T E uses sb)" for f
    using that unfolding set_grouped set_outgoing by (auto dest: flow_of_op_parts)
  have right: "producer_op f \<in> (\<lambda>x. bo_op (snd x)) ` set (located sbs)"
    if "f \<in> set (concat (map (grouped_flows ir T E uses) sbs))" for f
  proof -
    from that obtain sb' b where sb': "sb' \<in> set sbs" "b \<in> set (snd sb')" "producer_op f = bo_op b"
      unfolding set_concat set_map by (auto simp: set_grouped set_outgoing dest: flow_of_op_parts)
    then have "(fst sb', b) \<in> set (located sbs)" by (auto simp: in_located intro: exI [of _ "snd sb'"])
    then show ?thesis using sb'(3) by force
  qed
  have "producer_op ` set (grouped_flows ir T E uses sb) \<inter>
      producer_op ` set (concat (map (grouped_flows ir T E uses) sbs)) = {}"
    using disjoint_mono [OF image_subsetI [OF left] image_subsetI [OF right] d(3)] .
  then show ?case using first Cons.IH [OF d(2)] by simp
qed simp

lemma collectDataFlows_exact:
  assumes sb: "stage_bodies ir T ss = Some sbs" and wf: "bodies_wf ir (located sbs)"
    and nodup: "duplicate (all_ends ir (located sbs)) = None"
  shows "\<exists>flows. collectDataFlows ir T ss (all_ends ir (located sbs)) = Some flows \<and>
    set flows = {new_flow v x y | v x y. carried ir (located sbs) v x y \<and> fst y \<noteq> fst x \<and>
      Some (fst y) \<in> set (dependencies T (fst x))} \<and>
    distinct (map producer_op flows)"
proof -
  let ?E = "all_ends ir (located sbs)" and ?uses = "memref_uses_of ir sbs"
  let ?flows = "concat (map (grouped_flows ir T ?E ?uses) sbs)"
  have iff: "f \<in> set ?flows \<longleftrightarrow> (\<exists>x\<in>set (located sbs). flow_of_op ir ?E ?uses (fst x) (snd x) = Some f \<and>
      Some (consumer f) \<in> set (dependencies T (fst x)))" for f
    unfolding ex_located [of sbs "\<lambda>s b. flow_of_op ir ?E ?uses s b = Some f \<and>
      Some (consumer f) \<in> set (dependencies T s)"]
    by (simp add: set_grouped set_outgoing)
  have cons: "consumer (new_flow v x y) = fst y" for v x y by (simp add: new_flow_def)
  have "set ?flows = {new_flow v x y | v x y. carried ir (located sbs) v x y \<and> fst y \<noteq> fst x \<and>
      Some (fst y) \<in> set (dependencies T (fst x))}" (is "_ = ?R")
  proof (intro equalityI subsetI)
    fix f assume "f \<in> set ?flows"
    then obtain x where x: "x \<in> set (located sbs)" "flow_of_op ir ?E ?uses (fst x) (snd x) = Some f"
      "Some (consumer f) \<in> set (dependencies T (fst x))" unfolding iff by blast
    obtain v y where y: "carried ir (located sbs) v x y" "fst y \<noteq> fst x" "f = new_flow v x y"
      using x(2) unfolding flow_of_op_iff [OF wf nodup x(1)] by blast
    then show "f \<in> ?R" using x(3) unfolding y(3) cons by blast
  next
    fix f assume "f \<in> ?R"
    then obtain v x y where y: "f = new_flow v x y" "carried ir (located sbs) v x y" "fst y \<noteq> fst x"
      "Some (fst y) \<in> set (dependencies T (fst x))" by blast
    have x: "x \<in> set (located sbs)" using carried_written [OF y(2)] by blast
    have "flow_of_op ir ?E ?uses (fst x) (snd x) = Some f"
      unfolding flow_of_op_iff [OF wf nodup x] using y by blast
    then show "f \<in> set ?flows" unfolding iff using x y(1,4) cons by metis
  qed
  moreover have "distinct (map producer_op ?flows)"
    by (rule distinct_flows) (use wf in \<open>simp add: bodies_wf_def\<close>)
  moreover have "collectDataFlows ir T ss ?E = Some ?flows" by (simp add: collectDataFlows_def sb)
  ultimately show ?thesis by blast
qed

lemma carried_unique:
  assumes "duplicate (all_ends ir sbl) = None" and "carried ir sbl v x y" and "carried ir sbl v x' y'"
  shows "x = x' \<and> y = y'"
proof (cases "isFifoSlot ir v")
  case True
  have w: "distinct (concat (map (\<lambda>x. slots_written ir (snd x)) sbl))"
    "distinct (concat (map (\<lambda>x. slots_read ir (snd x)) sbl))"
    using all_ends_props [of ir sbl] assms(1) by (simp_all add: comp_def)
  show ?thesis
    using assms(2,3) True distinct_concat_unique [OF w(1), of x x' v] distinct_concat_unique [OF w(2), of y y' v]
    unfolding carried_def by simp
next
  case False
  have ex: "\<not> (as_writer b v \<and> as_reader b v)" for b
    by (auto simp: as_writer_def as_reader_def split: body_kind.splits)
  from False assms(2,3) have "{[x, y], [y, x]} \<inter> {[x', y'], [y', x']} \<noteq> {}" "as_writer (snd x) v"
    "as_reader (snd y) v" "as_writer (snd x') v" "as_reader (snd y') v"
    unfolding carried_def by auto
  then show ?thesis using ex by auto
qed

section \<open>Properties\<close>

text \<open>C10: When no FIFO slot has two producers or two consumers, the flows collected are exactly the
  carriers that one stage writes and another stage it has a dependency on reads: a FIFO slot, or
  a memref that one transfer writes, one transfer reads and nothing else uses.\<close>

theorem collectDataFlows_carriers:
  assumes "stage_bodies ir T ss = Some sbs" and "bodies_wf ir (located sbs)"
    and "distinct (concat (map (slots_written ir) (map snd (located sbs))))"
    and "distinct (concat (map (slots_read ir) (map snd (located sbs))))"
  shows "\<exists>E flows. collectFifoEndpoints ir T ss = Some E \<and> duplicate E = None \<and>
    collectDataFlows ir T ss E = Some flows \<and> distinct (map producer_op flows) \<and>
    set flows = {new_flow v x y | v x y. carried ir (located sbs) v x y \<and> fst y \<noteq> fst x \<and>
      Some (fst y) \<in> set (dependencies T (fst x))}"
proof -
  have "duplicate (all_ends ir (located sbs)) = None"
    using all_ends_props [of ir "located sbs"] assms(3,4) by (elim conjE) simp
  from collectDataFlows_exact [OF assms(1,2) this] this collectFifoEndpoints_eq [OF assms(1)]
  show ?thesis by blast
qed

text \<open>The two stages of the small pipeline.\<close>

definition load_op :: body_op where
  "load_op = \<lparr>bo_op = 20, bo_kind = DataTransferOp 0 1 Copy, bo_operands = [0, 1]\<rparr>"

definition read_op :: body_op where
  "read_op = \<lparr>bo_op = 21, bo_kind = ReadFromFifoOp 1, bo_operands = [1]\<rparr>"

lemma pair_bodies: "stage_bodies small_ir pair_tree [3, 4] = Some [(3, [load_op]), (4, [read_op])]"
  by (simp add: stage_bodies_eq stage_ir_of_def small_ir_def pair_tree_def load_op_def read_op_def)

lemma pair_located: "located [(3, [load_op]), (4, [read_op])] = [(3, load_op), (4, read_op)]"
  by (simp add: located_def)

lemma pair_bodies_wf: "bodies_wf small_ir [(3, load_op), (4, read_op)]"
  by (simp add: bodies_wf_def op_wf_def load_op_def read_op_def isFifoSlot_def small_ir_def)

lemma pair_fifo: "isFifoSlot small_ir (Suc 0)"
  by (simp add: isFifoSlot_def small_ir_def)

lemma pair_slots:
  "slots_written small_ir load_op = [1]" "slots_written small_ir read_op = []"
  "slots_read small_ir load_op = []" "slots_read small_ir read_op = [1]"
  by (simp_all add: slots_written_def slots_read_def load_op_def read_op_def isFifoSlot_def small_ir_def)

theorem collectDataFlows_carriers_witness:
  "\<exists>E flows. collectFifoEndpoints small_ir pair_tree [3, 4] = Some E \<and>
     collectDataFlows small_ir pair_tree [3, 4] E = Some flows \<and>
     new_flow 1 (3, load_op) (4, read_op) \<in> set flows"
proof -
  have "carried small_ir [(3, load_op), (4, read_op)] 1 (3, load_op) (4, read_op)"
    by (simp add: carried_def pair_fifo pair_slots)
  moreover have "Some 4 \<in> set (dependencies pair_tree 3)" by (simp add: pair_tree_def)
  ultimately have c: "new_flow 1 (3, load_op) (4, read_op) \<in>
      {new_flow v x y | v x y. carried small_ir [(3, load_op), (4, read_op)] v x y \<and> fst y \<noteq> fst x \<and>
        Some (fst y) \<in> set (dependencies pair_tree (fst x))}" by fastforce
  from collectDataFlows_carriers [OF pair_bodies] show ?thesis
    using c by (simp add: pair_located pair_bodies_wf pair_slots) blast
qed

end
