(* ===== verification/PlanRoutes.thy ===== *)
theory PlanRoutes
  imports PlanFlows
begin

text \<open>
  The routes and units of \<open>lib/Transforms/PathExpansion/Planner.cpp\<close>: the path of every data flow
  through the routing graph, the part of the path that its two stages own, the test whether the
  pipeline needs expansion, and the unit that every original stage runs on.
\<close>

section \<open>Routing the flows\<close>

definition pathNode :: "routing_graph \<Rightarrow> data_flow \<Rightarrow> nat \<Rightarrow> resource_node option" where
  "pathNode g f idx = (if idx < length (path f) then getNode g (path f ! idx) else None)"

text \<open>
  The conditions \<open>nodeAt(m).kind == Memory && nodeAt(u).kind == LoadStoreUnit\<close>, with the unit when
  they hold.
\<close>

definition unit_beside_memory :: "routing_graph \<Rightarrow> data_flow \<Rightarrow> nat \<Rightarrow> nat \<Rightarrow> resource option option" where
  "unit_beside_memory g f m u =
     do { nm \<leftarrow> pathNode g f m;
          if rn_kind nm \<noteq> Memory then Some None
          else do { nu \<leftarrow> pathNode g f u;
                    Some (if rn_kind nu = LoadStoreUnit then Some (rn_resource nu) else None) } }"

definition own_producer_end ::
  "(ptr \<Rightarrow> stage_side option) \<Rightarrow> routing_graph \<Rightarrow> nat \<Rightarrow> data_flow \<Rightarrow> data_flow option" where
  "own_producer_end sides g last_idx f =
     do { side \<leftarrow> sides (producer f);
          if side = LoadSide \<and> last_idx > 1
          then do { u \<leftarrow> unit_beside_memory g f 0 1;
                    Some (if u = None then f else f\<lparr>producer_end := 1, producer_unit := u\<rparr>) }
          else Some f }"

definition own_consumer_end ::
  "(ptr \<Rightarrow> stage_side option) \<Rightarrow> routing_graph \<Rightarrow> nat \<Rightarrow> data_flow \<Rightarrow> data_flow option" where
  "own_consumer_end sides g last_idx f =
     do { side \<leftarrow> sides (consumer f);
          if side = StoreSide \<and> last_idx > producer_end f + 1
          then do { u \<leftarrow> unit_beside_memory g f last_idx (last_idx - 1);
                    Some (if u = None then f else f\<lparr>consumer_begin := last_idx - 1, consumer_unit := u\<rparr>) }
          else Some f }"

definition resource_node_of :: "routing_graph \<Rightarrow> plan \<Rightarrow> ptr \<Rightarrow> node_id option" where
  "resource_node_of g P s =
     do { i \<leftarrow> getStageInfo P s; r \<leftarrow> stage_resource i; getNodeIdForResource g r }"

definition route_flow ::
  "(ptr \<Rightarrow> stage_side option) \<Rightarrow> routing_graph \<Rightarrow> plan \<Rightarrow> data_flow \<Rightarrow> data_flow outcome" where
  "route_flow sides g P f =
     do { a \<leftarrow> resource_node_of g P (producer f);
          b \<leftarrow> resource_node_of g P (consumer f);
          attempt (findShortestPath g a b) (\<lambda>p.
            if p = [] then failure
            else do { f1 \<leftarrow> own_producer_end sides g (length p - 1)
                              (f\<lparr>path := p, consumer_begin := length p - 1\<rparr>);
                      f2 \<leftarrow> own_consumer_end sides g (length p - 1) f1;
                      success f2 }) }"

definition routeDataFlows ::
  "(ptr \<Rightarrow> stage_side option) \<Rightarrow> routing_graph \<Rightarrow> plan \<Rightarrow> data_flow list \<Rightarrow> data_flow list outcome" where
  "routeDataFlows sides g P flows =
     foldA (\<lambda>f routed. attempt (route_flow sides g P f) (\<lambda>f'. success (routed @ [f']))) flows []"

text \<open>Whether some middle node is not a load/store unit; the loops stop at the first one.\<close>

fun any_not_load_store :: "routing_graph \<Rightarrow> data_flow \<Rightarrow> nat list \<Rightarrow> bool option" where
  "any_not_load_store g f [] = Some False"
| "any_not_load_store g f (i # is) =
     do { n \<leftarrow> pathNode g f i;
          if rn_kind n \<noteq> LoadStoreUnit then Some True else any_not_load_store g f is }"

fun needsExpansion :: "routing_graph \<Rightarrow> data_flow list \<Rightarrow> bool option" where
  "needsExpansion g [] = Some False"
| "needsExpansion g (f # fs) =
     do { b \<leftarrow> any_not_load_store g f [middleBegin f..<middleEnd f];
          if b then Some True else needsExpansion g fs }"

section \<open>What routing gives\<close>

text \<open>
  A routed flow: a shortest route between the nodes of the two resources. The second node belongs
  to the producer exactly when the producer is on the load side, the route has more than two nodes
  and starts with a memory followed by a load/store unit; the last but one belongs to the consumer
  exactly when the consumer is on the store side, there is a node between the part of the producer
  and it, and the route ends with a load/store unit followed by a memory. On a route of more than
  one node the two parts are disjoint.
\<close>

definition load_unit_at :: "routing_graph \<Rightarrow> data_flow \<Rightarrow> nat \<Rightarrow> nat \<Rightarrow> resource \<Rightarrow> bool" where
  "load_unit_at g f m u r \<longleftrightarrow>
     (\<exists>nm nu. pathNode g f m = Some nm \<and> rn_kind nm = Memory \<and> pathNode g f u = Some nu \<and>
       rn_kind nu = LoadStoreUnit \<and> rn_resource nu = r)"

definition routed ::
  "(ptr \<Rightarrow> stage_side option) \<Rightarrow> routing_graph \<Rightarrow> plan \<Rightarrow> data_flow \<Rightarrow> data_flow \<Rightarrow> bool" where
  "routed sides g P f f' \<longleftrightarrow>
     (\<exists>a b. resource_node_of g P (producer f) = Some a \<and> resource_node_of g P (consumer f) = Some b \<and>
       route (links_of g) a b (path f') \<and>
       (\<forall>q. route (links_of g) a b q \<longrightarrow> length (path f') \<le> length q)) \<and>
     f' = f\<lparr>path := path f', producer_end := producer_end f', consumer_begin := consumer_begin f',
            producer_unit := producer_unit f', consumer_unit := consumer_unit f'\<rparr> \<and>
     (case producer_unit f' of
        None \<Rightarrow> producer_end f' = 0 \<and> (sides (producer f) = Some LoadSide \<and> length (path f') > 2 \<longrightarrow>
          (\<forall>u. \<not> load_unit_at g f' 0 1 u))
      | Some u \<Rightarrow> producer_end f' = 1 \<and> length (path f') > 2 \<and> sides (producer f) = Some LoadSide \<and>
          load_unit_at g f' 0 1 u) \<and>
     (case consumer_unit f' of
        None \<Rightarrow> consumer_begin f' = length (path f') - 1 \<and>
          (sides (consumer f) = Some StoreSide \<and> length (path f') > producer_end f' + 2 \<longrightarrow>
            (\<forall>u. \<not> load_unit_at g f' (length (path f') - 1) (length (path f') - 2) u))
      | Some u \<Rightarrow> consumer_begin f' = length (path f') - 2 \<and> length (path f') > producer_end f' + 2 \<and>
          sides (consumer f) = Some StoreSide \<and>
          load_unit_at g f' (length (path f') - 1) (length (path f') - 2) u) \<and>
     producer_end f' \<le> consumer_begin f' \<and> consumer_begin f' < length (path f') \<and>
     (length (path f') \<ge> 2 \<longrightarrow> producer_end f' < consumer_begin f')"

definition unrouted :: "data_flow \<Rightarrow> bool" where
  "unrouted f \<longleftrightarrow> path f = [] \<and> producer_end f = 0 \<and> consumer_begin f = 0 \<and>
     producer_unit f = None \<and> consumer_unit f = None \<and> chain_stages f = [] \<and> boundaries f = []"

lemma pathNode_cong: "path f' = path f \<Longrightarrow> pathNode g f' i = pathNode g f i"
  by (simp add: pathNode_def)

lemma load_unit_at_cong: "path f' = path f \<Longrightarrow> load_unit_at g f' m u r = load_unit_at g f m u r"
  by (simp add: load_unit_at_def pathNode_cong [of f' f])

lemma unit_beside_memory_Some:
  "unit_beside_memory g f m u = Some (Some r) \<longleftrightarrow> load_unit_at g f m u r"
  by (auto simp: unit_beside_memory_def load_unit_at_def split: Option.bind_splits)

lemma unit_beside_memory_None:
  "unit_beside_memory g f m u = Some None \<Longrightarrow> \<not> load_unit_at g f m u r"
  by (auto simp: unit_beside_memory_Some [symmetric])

lemma own_producer_end_spec:
  assumes "own_producer_end sides g l f = Some f'" and "producer_end f = 0" and "producer_unit f = None"
    and "l = length (path f) - 1"
  shows "f' = f\<lparr>producer_end := producer_end f', producer_unit := producer_unit f'\<rparr> \<and>
    (case producer_unit f' of
        None \<Rightarrow> producer_end f' = 0 \<and> (sides (producer f) = Some LoadSide \<and> l > 1 \<longrightarrow> (\<forall>u. \<not> load_unit_at g f' 0 1 u))
      | Some u \<Rightarrow> producer_end f' = 1 \<and> l > 1 \<and> sides (producer f) = Some LoadSide \<and> load_unit_at g f' 0 1 u)"
proof -
  obtain side where side: "sides (producer f) = Some side"
    using assms(1) by (auto simp: own_producer_end_def split: Option.bind_splits)
  show ?thesis
  proof (cases "side = LoadSide \<and> l > 1")
    case True
    then obtain u where u: "unit_beside_memory g f 0 1 = Some u"
      "f' = (if u = None then f else f\<lparr>producer_end := 1, producer_unit := u\<rparr>)"
      using assms(1) side by (auto simp: own_producer_end_def split: Option.bind_splits)
    show ?thesis
    proof (cases u)
      case None
      then have "f' = f" "\<And>r. \<not> load_unit_at g f 0 1 r" using u unit_beside_memory_None by simp_all
      then show ?thesis using assms(2,3) by simp
    next
      case (Some r)
      then have "load_unit_at g f 0 1 r" using u(1) by (simp add: unit_beside_memory_Some)
      then have "load_unit_at g f' 0 1 r" using u(2) Some by (subst load_unit_at_cong [of _ f]) simp_all
      then show ?thesis using u(2) Some True side by simp
    qed
  next
    case False
    then have "f' = f" using assms(1) side by (auto simp: own_producer_end_def)
    then show ?thesis using assms(2,3) False side by auto
  qed
qed

lemma own_consumer_end_spec:
  assumes "own_consumer_end sides g l f = Some f'" and "consumer_begin f = l" and "consumer_unit f = None"
    and "l = length (path f) - 1"
  shows "f' = f\<lparr>consumer_begin := consumer_begin f', consumer_unit := consumer_unit f'\<rparr> \<and>
    (case consumer_unit f' of
        None \<Rightarrow> consumer_begin f' = l \<and> (sides (consumer f) = Some StoreSide \<and> l > producer_end f + 1 \<longrightarrow>
          (\<forall>u. \<not> load_unit_at g f' l (l - 1) u))
      | Some u \<Rightarrow> consumer_begin f' = l - 1 \<and> l > producer_end f + 1 \<and>
          sides (consumer f) = Some StoreSide \<and> load_unit_at g f' l (l - 1) u)"
proof -
  obtain side where side: "sides (consumer f) = Some side"
    using assms(1) by (auto simp: own_consumer_end_def split: Option.bind_splits)
  show ?thesis
  proof (cases "side = StoreSide \<and> l > producer_end f + 1")
    case True
    then obtain u where u: "unit_beside_memory g f l (l - 1) = Some u"
      "f' = (if u = None then f else f\<lparr>consumer_begin := l - 1, consumer_unit := u\<rparr>)"
      using assms(1) side by (auto simp: own_consumer_end_def split: Option.bind_splits)
    show ?thesis
    proof (cases u)
      case None
      then have "f' = f" "\<And>r. \<not> load_unit_at g f l (l - 1) r" using u unit_beside_memory_None by simp_all
      then show ?thesis using assms(2,3) by simp
    next
      case (Some r)
      then have "load_unit_at g f l (l - 1) r" using u(1) by (simp add: unit_beside_memory_Some)
      then have "load_unit_at g f' l (l - 1) r" using u(2) Some by (subst load_unit_at_cong [of _ f]) simp_all
      then show ?thesis using u(2) Some True side by simp
    qed
  next
    case False
    then have "f' = f" using assms(1) side by (auto simp: own_consumer_end_def)
    then show ?thesis using assms(2,3) False side by auto
  qed
qed

lemma route_flow_success:
  assumes g: "graph_wf g" and r: "route_flow sides g P f = success f'" and f: "unrouted f"
  shows "routed sides g P f f'"
proof -
  obtain a b p f1 where
    ab: "resource_node_of g P (producer f) = Some a" "resource_node_of g P (consumer f) = Some b"
    and p: "findShortestPath g a b = Some (Some p)" "p \<noteq> []"
    and f1: "own_producer_end sides g (length p - 1) (f\<lparr>path := p, consumer_begin := length p - 1\<rparr>) = Some f1"
    and f2: "own_consumer_end sides g (length p - 1) f1 = Some f'"
    using r by (auto simp: route_flow_def split: Option.bind_splits if_splits)
  let ?f0 = "f\<lparr>path := p, consumer_begin := length p - 1\<rparr>"
  have s1: "f1 = ?f0\<lparr>producer_end := producer_end f1, producer_unit := producer_unit f1\<rparr>"
    "case producer_unit f1 of None \<Rightarrow> producer_end f1 = 0 \<and>
        (sides (producer ?f0) = Some LoadSide \<and> length p - 1 > 1 \<longrightarrow> (\<forall>u. \<not> load_unit_at g f1 0 1 u))
     | Some u \<Rightarrow> producer_end f1 = 1 \<and> length p - 1 > 1 \<and> sides (producer ?f0) = Some LoadSide \<and> load_unit_at g f1 0 1 u"
    using own_producer_end_spec [OF f1] f unfolding unrouted_def by auto
  have fields: "path f1 = p" "consumer_begin f1 = length p - 1" "consumer_unit f1 = None" "consumer f1 = consumer f"
    using f by (subst s1(1); simp add: unrouted_def)+
  have s2: "f' = f1\<lparr>consumer_begin := consumer_begin f', consumer_unit := consumer_unit f'\<rparr>"
    "case consumer_unit f' of None \<Rightarrow> consumer_begin f' = length p - 1 \<and>
        (sides (consumer f1) = Some StoreSide \<and> length p - 1 > producer_end f1 + 1 \<longrightarrow>
          (\<forall>u. \<not> load_unit_at g f' (length p - 1) (length p - 1 - 1) u))
     | Some u \<Rightarrow> consumer_begin f' = length p - 1 - 1 \<and> length p - 1 > producer_end f1 + 1 \<and>
          sides (consumer f1) = Some StoreSide \<and> load_unit_at g f' (length p - 1) (length p - 1 - 1) u"
    using own_consumer_end_spec [OF f2] fields by auto
  have fields': "path f' = p" "producer_end f' = producer_end f1" "producer_unit f' = producer_unit f1"
    using fields(1) by (subst s2(1); simp)+
  have eq: "f' = f\<lparr>path := path f', producer_end := producer_end f', consumer_begin := consumer_begin f',
      producer_unit := producer_unit f', consumer_unit := consumer_unit f'\<rparr>"
    unfolding fields' by (subst s2(1), subst s1(1)) simp
  have S: "route (links_of g) a b p" using arch.find_sound [OF g p(1)] by blast
  have M: "length p \<le> length q" if "route (links_of g) a b q" for q using arch.find_shortest [OF g p(1) that] .
  have pu: "case producer_unit f' of None \<Rightarrow> producer_end f' = 0 \<and>
        (sides (producer f) = Some LoadSide \<and> length p > 2 \<longrightarrow> (\<forall>u. \<not> load_unit_at g f' 0 1 u))
     | Some u \<Rightarrow> producer_end f' = 1 \<and> length p > 2 \<and> sides (producer f) = Some LoadSide \<and> load_unit_at g f' 0 1 u"
    using s1(2) load_unit_at_cong [of f1 f'] fields fields' by (auto split: option.splits)
  have cu: "case consumer_unit f' of None \<Rightarrow> consumer_begin f' = length p - 1 \<and>
        (sides (consumer f) = Some StoreSide \<and> length p > producer_end f' + 2 \<longrightarrow>
          (\<forall>u. \<not> load_unit_at g f' (length p - 1) (length p - 2) u))
     | Some u \<Rightarrow> consumer_begin f' = length p - 2 \<and> length p > producer_end f' + 2 \<and>
          sides (consumer f) = Some StoreSide \<and> load_unit_at g f' (length p - 1) (length p - 2) u"
    using s2(2) fields fields' by (auto split: option.splits simp: numeral_2_eq_2)
  have len: "length p > 0" using p(2) by simp
  have b: "producer_end f' \<le> consumer_begin f' \<and> consumer_begin f' < length p \<and>
      (length p \<ge> 2 \<longrightarrow> producer_end f' < consumer_begin f')"
    using pu cu len by (auto split: option.splits)
  show ?thesis
    unfolding routed_def fields'(1)
    using ab S M eq pu cu b by (auto simp: fields' split: option.splits)
qed

lemma routeDataFlows_success:
  assumes "graph_wf g" and "routeDataFlows sides g P flows = success out" and "\<forall>f\<in>set flows. unrouted f"
  shows "list_all2 (routed sides g P) flows out"
proof -
  have "foldA (\<lambda>f routed. attempt (route_flow sides g P f) (\<lambda>f'. success (routed @ [f']))) fs acc = success out \<Longrightarrow>
      \<forall>f\<in>set fs. unrouted f \<Longrightarrow> \<exists>fs'. out = acc @ fs' \<and> list_all2 (routed sides g P) fs fs'" for fs acc
  proof (induction fs arbitrary: acc)
    case (Cons f fs)
    then obtain f' where f': "route_flow sides g P f = success f'"
      "foldA (\<lambda>f routed. attempt (route_flow sides g P f) (\<lambda>f'. success (routed @ [f']))) fs (acc @ [f']) = success out"
      by auto
    have "routed sides g P f f'" using route_flow_success [OF assms(1) f'(1)] Cons.prems(2) by simp
    moreover obtain fs' where "out = (acc @ [f']) @ fs'" "list_all2 (routed sides g P) fs fs'"
      using Cons.IH [OF f'(2)] Cons.prems(2) by auto
    ultimately show ?case by (intro exI [of _ "f' # fs'"]) simp
  qed simp
  from this [of flows "[]"] assms(2,3) show ?thesis by (simp add: routeDataFlows_def)
qed

text \<open>Routing returns, and fails exactly when a resource cannot be reached.\<close>

lemma getNodeIdForResource_known:
  assumes "graph_wf g" and "getNodeIdForResource g r = Some n"
  shows "\<exists>e. getNode g n = Some e \<and> rn_resource e = r \<and> getNodeIdsForResource g r = [n]"
proof -
  have ids: "getNodeIdsForResource g r = [n]"
    using assms(2) unfolding getNodeIdForResource_def getNodeIdsForResource_def
    by (auto split: option.splits if_splits simp: length_Suc_conv)
  then have "n \<in> set (map fst (filter (\<lambda>(n, e). rn_resource e = r) (nodes g)))"
    using assms(1) unfolding graph_wf_def by (metis list.set_intros(1))
  then obtain e where e: "(n, e) \<in> set (nodes g)" "rn_resource e = r" by auto
  have "distinct (map fst (nodes g))" using assms(1) by (simp add: graph_wf_def)
  then have "getNode g n = Some e" using e(1) by (simp add: getNode_def map_of_eq_Some_iff)
  then show ?thesis using e(2) ids by blast
qed

lemma getNode_hasNode: "hasNode g n \<Longrightarrow> \<exists>e. getNode g n = Some e"
  unfolding hasNode_def getNode_def by (metis map_of_eq_None_iff not_None_eq)

lemma hasNode_getNode: "getNode g n = Some e \<Longrightarrow> hasNode g n"
  unfolding hasNode_def getNode_def by (metis map_of_eq_None_iff option.distinct(1))

lemma resource_node_of_known:
  "graph_wf g \<Longrightarrow> resource_node_of g P s = Some n \<Longrightarrow> hasNode g n"
  unfolding resource_node_of_def
  by (auto split: Option.bind_splits dest: getNodeIdForResource_known hasNode_getNode)

lemma route_nodes: "graph_wf g \<Longrightarrow> hasNode g a \<Longrightarrow> route (links_of g) a b p \<Longrightarrow> n \<in> set p \<Longrightarrow> hasNode g n"
proof (induction p arbitrary: a)
  case (Cons x p)
  then show ?case
  proof (cases p)
    case (Cons y q)
    then have "(x, y) \<in> links_of g" using Cons.prems(3) by (auto simp: route_def)
    then have "hasNode g y" using getNeighbors_wf [OF Cons.prems(1)] by (auto simp: links_of_def)
    moreover have "route (links_of g) y b p" using Cons.prems(3) Cons by (simp add: route_def)
    ultimately show ?thesis
      using Cons.IH [of y] Cons.prems Cons by (auto simp: route_def)
  qed (auto simp: route_def)
qed simp

definition path_inside :: "routing_graph \<Rightarrow> data_flow \<Rightarrow> bool" where
  "path_inside g f \<longleftrightarrow> (\<forall>n\<in>set (path f). hasNode g n)"

lemma pathNode_inside: "path_inside g f \<Longrightarrow> i < length (path f) \<Longrightarrow> \<exists>n. pathNode g f i = Some n"
  unfolding path_inside_def pathNode_def using getNode_hasNode by simp

lemma unit_beside_memory_returns:
  assumes "path_inside g f" and "m < length (path f)" and "u < length (path f)"
  shows "\<exists>r. unit_beside_memory g f m u = Some r"
  using pathNode_inside [OF assms(1,2)] pathNode_inside [OF assms(1,3)]
  by (auto simp: unit_beside_memory_def)

lemma route_flow_cases:
  assumes g: "graph_wf g"
    and ab: "resource_node_of g P (producer f) = Some a" "resource_node_of g P (consumer f) = Some b"
    and sides: "sides (producer f) = Some x" "sides (consumer f) = Some y" and f: "unrouted f"
  shows "\<exists>r. route_flow sides g P f = Some r \<and> (r = None \<longleftrightarrow> (a, b) \<notin> (links_of g)\<^sup>*)"
proof -
  have n: "hasNode g a" "hasNode g b" using resource_node_of_known [OF g] ab by blast+
  obtain r where r: "findShortestPath g a b = Some r" using arch.find_returns [OF g n] by blast
  show ?thesis
  proof (cases r)
    case None
    then show ?thesis using r arch.find_complete [OF g n] ab by (simp add: route_flow_def)
  next
    case (Some p)
    with r have p: "findShortestPath g a b = Some (Some p)" by simp
    have rt: "route (links_of g) a b p" using arch.find_sound [OF g p] by blast
    then have ne: "p \<noteq> []" by (simp add: route_def)
    have inside: "path_inside g f'" if "path f' = p" for f'
      using route_nodes [OF g n(1) rt] that by (simp add: path_inside_def)
    let ?f0 = "f\<lparr>path := p, consumer_begin := length p - 1\<rparr>"
    have "\<exists>f1. own_producer_end sides g (length p - 1) ?f0 = Some f1"
    proof (cases "x = LoadSide \<and> length p - 1 > 1")
      case True
      then have "0 < length (path ?f0) \<and> 1 < length (path ?f0)" by auto
      then obtain u where "unit_beside_memory g ?f0 0 1 = Some u"
        using unit_beside_memory_returns [OF inside, of ?f0 0 1] by auto
      then show ?thesis using sides True by (simp add: own_producer_end_def)
    qed (use sides in \<open>auto simp: own_producer_end_def\<close>)
    then obtain f1 where f1: "own_producer_end sides g (length p - 1) ?f0 = Some f1" by blast
    have eq1: "f1 = ?f0\<lparr>producer_end := producer_end f1, producer_unit := producer_unit f1\<rparr>"
      using own_producer_end_spec [OF f1] f by (simp add: unrouted_def)
    have f1': "path f1 = p" "consumer f1 = consumer f" by (subst eq1; simp)+
    have "\<exists>f2. own_consumer_end sides g (length p - 1) f1 = Some f2"
    proof (cases "y = StoreSide \<and> length p - 1 > producer_end f1 + 1")
      case True
      have "length p - 1 < length (path f1) \<and> length p - 1 - 1 < length (path f1)"
        using ne f1' by (cases p) auto
      then obtain u where "unit_beside_memory g f1 (length p - 1) (length p - 1 - 1) = Some u"
        using unit_beside_memory_returns [OF inside [OF f1'(1)]] by blast
      then show ?thesis using sides True f1' by (simp add: own_consumer_end_def)
    qed (use sides f1' in \<open>auto simp: own_consumer_end_def\<close>)
    then obtain f2 where f2: "own_consumer_end sides g (length p - 1) f1 = Some f2" by blast
    have "route_flow sides g P f = success f2" using ab p ne f1 f2 by (simp add: route_flow_def)
    then show ?thesis using route_reach [OF rt] by simp
  qed
qed

lemma any_not_load_store_eq:
  assumes "\<And>i. i \<in> set is \<Longrightarrow> \<exists>n. pathNode g f i = Some n"
  shows "any_not_load_store g f is =
    Some (\<exists>i\<in>set is. \<exists>n. pathNode g f i = Some n \<and> rn_kind n \<noteq> LoadStoreUnit)"
  using assms
proof (induction "is")
  case (Cons i "is")
  obtain n where n: "pathNode g f i = Some n" using Cons.prems by force
  show ?case using Cons n by simp
qed simp

theorem needsExpansion_iff:
  assumes "\<And>f. f \<in> set fs \<Longrightarrow> path_inside g f \<and> consumer_begin f < length (path f)"
  shows "needsExpansion g fs =
    Some (\<exists>f\<in>set fs. \<exists>i. producer_end f < i \<and> i < consumer_begin f \<and>
      (\<exists>n. pathNode g f i = Some n \<and> rn_kind n \<noteq> LoadStoreUnit))"
  using assms
proof (induction fs)
  case (Cons f fs)
  have f: "path_inside g f" "consumer_begin f < length (path f)" using Cons.prems by auto
  have "any_not_load_store g f [middleBegin f..<middleEnd f] =
      Some (\<exists>i\<in>set [middleBegin f..<middleEnd f]. \<exists>n. pathNode g f i = Some n \<and> rn_kind n \<noteq> LoadStoreUnit)"
    by (rule any_not_load_store_eq) (use f pathNode_inside in \<open>auto simp: middleEnd_def\<close>)
  then show ?case
    using Cons by (auto simp: middleBegin_def middleEnd_def Suc_le_eq)
qed simp

section \<open>The unit of every original stage\<close>

definition own_unit_step :: "routing_graph \<Rightarrow> ptr \<Rightarrow> plan \<Rightarrow> plan option" where
  "own_unit_step g s P =
     do { i \<leftarrow> getStageInfo P s;
          r \<leftarrow> stage_resource i;
          node \<leftarrow> getNodeForResource g r;
          Some (case node of
                  None \<Rightarrow> P
                | Some e \<Rightarrow>
                    (if rn_kind e \<noteq> Memory then put_info s (i\<lparr>applicable_unit := Some r\<rparr>) P else P)) }"

definition setUnit :: "ptr \<Rightarrow> resource option \<Rightarrow> plan \<Rightarrow> plan outcome" where
  "setUnit s unit P =
     (case unit of
        None \<Rightarrow> success P
      | Some u \<Rightarrow>
          do { i \<leftarrow> getStageInfo P s;
               if applicable_unit i \<noteq> None \<and> applicable_unit i \<noteq> Some u then failure
               else success (put_info s (i\<lparr>applicable_unit := Some u\<rparr>) P) })"

definition set_flow_units :: "data_flow \<Rightarrow> plan \<Rightarrow> plan outcome" where
  "set_flow_units f P =
     attempt (setUnit (producer f) (producer_unit f) P) (setUnit (consumer f) (consumer_unit f))"

definition claim_unit :: "plan \<Rightarrow> ptr \<Rightarrow> (resource \<Rightarrow> ptr option) \<Rightarrow> (resource \<Rightarrow> ptr option) outcome" where
  "claim_unit P s unit_owner =
     do { i \<leftarrow> getStageInfo P s;
          (case applicable_unit i of
             None \<Rightarrow> success unit_owner
           | Some u \<Rightarrow>
               (if unit_owner u = None then success (unit_owner(u := Some s)) else failure)) }"

definition assignOriginalStageUnits ::
  "routing_graph \<Rightarrow> data_flow list \<Rightarrow> ptr list \<Rightarrow> plan \<Rightarrow> plan outcome" where
  "assignOriginalStageUnits g flows sorted_stages P =
     do { P1 \<leftarrow> foldM (own_unit_step g) sorted_stages P;
          attempt (foldA set_flow_units flows P1) (\<lambda>P2.
            attempt (foldA (claim_unit P2) sorted_stages (\<lambda>_. None)) (\<lambda>_. success P2)) }"

text \<open>The unit that a plan gives a stage.\<close>

definition unit_of :: "plan \<Rightarrow> ptr \<Rightarrow> resource option" where
  "unit_of P s = Option.bind (stage_infos P s) applicable_unit"

definition resource_of :: "plan \<Rightarrow> ptr \<Rightarrow> resource option" where
  "resource_of P s = Option.bind (stage_infos P s) stage_resource"

text \<open>Two plans that differ in units only.\<close>

definition same_but_units :: "plan \<Rightarrow> plan \<Rightarrow> bool" where
  "same_but_units P P' \<longleftrightarrow> changed P' = changed P \<and>
     (\<forall>s. map_option (\<lambda>i. i\<lparr>applicable_unit := None\<rparr>) (stage_infos P' s) =
          map_option (\<lambda>i. i\<lparr>applicable_unit := None\<rparr>) (stage_infos P s))"

lemma same_but_units_refl [simp]: "same_but_units P P"
  by (simp add: same_but_units_def)

lemma same_but_units_trans: "same_but_units P Q \<Longrightarrow> same_but_units Q R \<Longrightarrow> same_but_units P R"
  by (simp add: same_but_units_def)

lemma same_but_units_put: "stage_infos P s = Some i \<Longrightarrow> same_but_units P (put_info s (i\<lparr>applicable_unit := u\<rparr>) P)"
  by (simp add: same_but_units_def)

lemma same_but_units_resource: "same_but_units P P' \<Longrightarrow> resource_of P' s = resource_of P s"
proof -
  assume "same_but_units P P'"
  then have "map_option (\<lambda>i. i\<lparr>applicable_unit := None\<rparr>) (stage_infos P' s) =
      map_option (\<lambda>i. i\<lparr>applicable_unit := None\<rparr>) (stage_infos P s)"
    unfolding same_but_units_def by blast
  then have "map_option stage_resource (map_option (\<lambda>i. i\<lparr>applicable_unit := None\<rparr>) (stage_infos P' s)) =
      map_option stage_resource (map_option (\<lambda>i. i\<lparr>applicable_unit := None\<rparr>) (stage_infos P s))"
    by (rule arg_cong)
  then show ?thesis by (cases "stage_infos P s"; cases "stage_infos P' s") (simp_all add: resource_of_def)
qed

lemma unit_of_put [simp]:
  "unit_of (put_info s i P) t = (if t = s then applicable_unit i else unit_of P t)"
  by (simp add: unit_of_def)

lemma own_unit_step_spec:
  assumes "own_unit_step g s P = Some P'"
  shows "same_but_units P P' \<and> (\<forall>t. t \<noteq> s \<longrightarrow> unit_of P' t = unit_of P t) \<and>
    (\<exists>r node. resource_of P s = Some r \<and> getNodeForResource g r = Some node \<and>
      unit_of P' s = (case node of Some e \<Rightarrow> if rn_kind e \<noteq> Memory then Some r else unit_of P s | None \<Rightarrow> unit_of P s))"
  using assms
  by (auto simp: own_unit_step_def getStageInfo_def resource_of_def same_but_units_put
      split: Option.bind_splits option.splits if_splits)

lemma setUnit_spec:
  assumes "setUnit s u P = success P'"
  shows "same_but_units P P' \<and> (\<forall>t. t \<noteq> s \<longrightarrow> unit_of P' t = unit_of P t) \<and>
    (\<forall>v. unit_of P s = Some v \<longrightarrow> unit_of P' s = Some v) \<and>
    unit_of P' s = (if u = None then unit_of P s else u)"
proof (cases u)
  case None
  then show ?thesis using assms by (simp add: setUnit_def)
next
  case (Some r)
  then obtain i where i: "stage_infos P s = Some i" "applicable_unit i = None \<or> applicable_unit i = Some r"
    "P' = put_info s (i\<lparr>applicable_unit := Some r\<rparr>) P"
    using assms by (auto simp: setUnit_def getStageInfo_def split: Option.bind_splits if_splits)
  then show ?thesis using Some same_but_units_put [OF i(1)] by (auto simp: unit_of_def)
qed

text \<open>Later calls of \<open>setUnit\<close> never change a unit that is set.\<close>

lemma set_flow_units_loop:
  assumes "foldA set_flow_units fs P = success P'"
  shows "same_but_units P P' \<and> (\<forall>s v. unit_of P s = Some v \<longrightarrow> unit_of P' s = Some v) \<and>
    (\<forall>f\<in>set fs. (\<forall>u. producer_unit f = Some u \<longrightarrow> unit_of P' (producer f) = Some u) \<and>
                 (\<forall>u. consumer_unit f = Some u \<longrightarrow> unit_of P' (consumer f) = Some u))"
  using assms
proof (induction fs arbitrary: P)
  case (Cons f fs)
  then obtain P2 where P2: "set_flow_units f P = success P2" "foldA set_flow_units fs P2 = success P'"
    by auto
  obtain P1 where P1: "setUnit (producer f) (producer_unit f) P = success P1"
    "setUnit (consumer f) (consumer_unit f) P1 = success P2"
    using P2(1) by (auto simp: set_flow_units_def)
  note P = P1 P2(2)
  note S1 = setUnit_spec [OF P(1)] and S2 = setUnit_spec [OF P(2)] and IH = Cons.IH [OF P(3)]
  have k1: "unit_of P1 s = Some v" if "unit_of P s = Some v" for s v
    using S1 that by (cases "s = producer f") auto
  have k2: "unit_of P2 s = Some v" if "unit_of P1 s = Some v" for s v
    using S2 that by (cases "s = consumer f") auto
  have k3: "unit_of P' s = Some v" if "unit_of P2 s = Some v" for s v using IH that by blast
  have "same_but_units P P'"
    using same_but_units_trans [OF S1 [THEN conjunct1] same_but_units_trans [OF S2 [THEN conjunct1] IH [THEN conjunct1]]] .
  moreover have "unit_of P' (producer f) = Some u" if "producer_unit f = Some u" for u
    using S1 that by (intro k3 k2) simp
  moreover have "unit_of P' (consumer f) = Some u" if "consumer_unit f = Some u" for u
    using S2 that by (intro k3) simp
  ultimately show ?case using IH k1 k2 k3 by auto
qed simp

lemma claim_unit_success:
  assumes "claim_unit P s m = success m'"
  shows "(unit_of P s = None \<and> m' = m) \<or> (\<exists>u. unit_of P s = Some u \<and> m u = None \<and> m' = m(u := Some s))"
proof (cases "stage_infos P s")
  case None
  then show ?thesis using assms by (simp add: claim_unit_def getStageInfo_def)
next
  case (Some i)
  then show ?thesis
    using assms by (cases "applicable_unit i") (simp_all add: claim_unit_def getStageInfo_def unit_of_def split: if_splits)
qed

lemma claim_units:
  assumes "foldA (claim_unit P) ss m = success m'" and "distinct ss"
  shows "(\<forall>s\<in>set ss. \<forall>u. unit_of P s = Some u \<longrightarrow> m u = None \<and> m' u = Some s) \<and>
    (\<forall>u t. m u = Some t \<longrightarrow> m' u = Some t)"
  using assms
proof (induction ss arbitrary: m)
  case (Cons s ss)
  from Cons.prems(1) obtain m1 where m1: "claim_unit P s m = success m1" "foldA (claim_unit P) ss m1 = success m'"
    unfolding foldA.simps attempt_success by blast
  have "distinct ss" using Cons.prems(2) by simp
  note IH = Cons.IH [OF m1(2) this]
  have c: "(unit_of P s = None \<and> m1 = m) \<or> (\<exists>u. unit_of P s = Some u \<and> m u = None \<and> m1 = m(u := Some s))"
    using claim_unit_success [OF m1(1)] .
  from c show ?case
  proof
    assume "unit_of P s = None \<and> m1 = m"
    then show ?thesis using IH by auto
  next
    assume "\<exists>u. unit_of P s = Some u \<and> m u = None \<and> m1 = m(u := Some s)"
    then obtain v where v: "unit_of P s = Some v" "m v = None" "m1 = m(v := Some s)" by blast
    have "m' v = Some s" using IH v(3) by simp
    moreover have "m u = None \<and> m' u = Some t" if "t \<in> set ss" "unit_of P t = Some u" for t u
    proof -
      have "m1 u = None" "m' u = Some t" using IH that by blast+
      then show ?thesis using v(3) by (simp split: if_splits)
    qed
    moreover have "m' u = Some t" if "m u = Some t" for u t
    proof -
      have "m1 u = Some t" using that v(2,3) by auto
      then show ?thesis using IH by blast
    qed
    ultimately show ?thesis using v(1,2) by simp
  qed
qed simp

lemma foldM_own_units:
  assumes "foldM (own_unit_step g) ss P = Some P'" and "distinct ss"
  shows "same_but_units P P' \<and>
    (\<forall>s\<in>set ss. \<exists>r node. resource_of P s = Some r \<and> getNodeForResource g r = Some node \<and>
      unit_of P' s = (case node of Some e \<Rightarrow> if rn_kind e \<noteq> Memory then Some r else unit_of P s | None \<Rightarrow> unit_of P s)) \<and>
    (\<forall>t. t \<notin> set ss \<longrightarrow> unit_of P' t = unit_of P t)"
  using assms
proof (induction ss arbitrary: P)
  case (Cons s ss)
  then obtain P1 where P1: "own_unit_step g s P = Some P1" "foldM (own_unit_step g) ss P1 = Some P'"
    by (auto split: Option.bind_splits)
  have d: "distinct ss" "s \<notin> set ss" using Cons.prems(2) by auto
  note S = own_unit_step_spec [OF P1(1)] and IH = Cons.IH [OF P1(2) d(1)]
  have sb: "same_but_units P P1" using S by blast
  have u: "unit_of P1 t = unit_of P t" if "t \<in> set ss" for t using S that d(2) by metis
  have r: "resource_of P1 t = resource_of P t" for t by (rule same_but_units_resource [OF sb])
  have head: "unit_of P' s = unit_of P1 s" using IH d(2) by blast
  have tail: "unit_of P' t = unit_of P t" if "t \<notin> set (s # ss)" for t using IH S that by auto
  have "same_but_units P P'" by (rule same_but_units_trans [OF sb IH [THEN conjunct1]])
  moreover have "\<exists>r node. resource_of P t = Some r \<and> getNodeForResource g r = Some node \<and>
      unit_of P' t = (case node of Some e \<Rightarrow> if rn_kind e \<noteq> Memory then Some r else unit_of P t | None \<Rightarrow> unit_of P t)"
    if "t \<in> set (s # ss)" for t
  proof (cases "t = s")
    case True
    then show ?thesis using S head by metis
  next
    case False
    then have t: "t \<in> set ss" using that by simp
    then show ?thesis using IH u [OF t] r [of t] by metis
  qed
  ultimately show ?case using tail by blast
qed simp

lemma assignOriginalStageUnits_success:
  assumes a: "assignOriginalStageUnits g flows ss P = success P'" and d: "distinct ss"
  shows "same_but_units P P' \<and>
    (\<forall>s\<in>set ss. \<forall>t\<in>set ss. \<forall>u. unit_of P' s = Some u \<and> unit_of P' t = Some u \<longrightarrow> s = t) \<and>
    (\<forall>f\<in>set flows. (\<forall>u. producer_unit f = Some u \<longrightarrow> unit_of P' (producer f) = Some u) \<and>
                    (\<forall>u. consumer_unit f = Some u \<longrightarrow> unit_of P' (consumer f) = Some u)) \<and>
    (\<forall>s\<in>set ss. \<forall>r e. resource_of P s = Some r \<longrightarrow> getNodeForResource g r = Some (Some e) \<longrightarrow>
       rn_kind e \<noteq> Memory \<longrightarrow> unit_of P' s = Some r)"
proof -
  obtain P1 m' where P: "foldM (own_unit_step g) ss P = Some P1" "foldA set_flow_units flows P1 = success P'"
    "foldA (claim_unit P') ss (\<lambda>_. None) = success m'"
    using a by (auto simp: assignOriginalStageUnits_def split: Option.bind_splits)
  note O = foldM_own_units [OF P(1) d] and F = set_flow_units_loop [OF P(2)] and C = claim_units [OF P(3) d]
  have "same_but_units P P'" by (rule same_but_units_trans [OF O [THEN conjunct1] F [THEN conjunct1]])
  moreover have "s = t" if "s \<in> set ss" "t \<in> set ss" "unit_of P' s = Some u" "unit_of P' t = Some u" for s t u
    using C that by (metis option.inject)
  moreover have "unit_of P' s = Some r"
    if "s \<in> set ss" "resource_of P s = Some r" "getNodeForResource g r = Some (Some e)" "rn_kind e \<noteq> Memory" for s r e
  proof -
    have "unit_of P1 s = Some r" using O that by fastforce
    then show ?thesis using F by blast
  qed
  ultimately show ?thesis using F by blast
qed

section \<open>Properties\<close>

text \<open>C11: Routing gives every flow a shortest path between the resources of its two stages. The second
  node becomes part of the producer, as its unit, exactly when the producer is on the load side,
  the path has more than two nodes and starts with a memory followed by a load/store unit; the
  last but one becomes part of the consumer exactly when the consumer is on the store side, the
  path ends with a load/store unit followed by a memory, and a node is left between the two
  parts. On a path of more than one node the parts do not overlap.\<close>

theorem routeDataFlows_routes:
  assumes "graph_wf g" and "routeDataFlows sides g P flows = success out" and "\<forall>f\<in>set flows. unrouted f"
  shows "list_all2 (routed sides g P) flows out"
  using assms by (rule routeDataFlows_success)

text \<open>C13: After \<open>assignOriginalStageUnits\<close> no two original stages run on the same unit, a
  stage pinned to a unit runs on it, and a stage runs on the unit that every flow gives it;
  nothing but units changes in the plan.\<close>

theorem assignOriginalStageUnits_unique:
  assumes "assignOriginalStageUnits g flows ss P = success P'" and "distinct ss"
  shows "same_but_units P P' \<and>
    (\<forall>s\<in>set ss. \<forall>t\<in>set ss. \<forall>u. unit_of P' s = Some u \<and> unit_of P' t = Some u \<longrightarrow> s = t) \<and>
    (\<forall>f\<in>set flows. (\<forall>u. producer_unit f = Some u \<longrightarrow> unit_of P' (producer f) = Some u) \<and>
                    (\<forall>u. consumer_unit f = Some u \<longrightarrow> unit_of P' (consumer f) = Some u)) \<and>
    (\<forall>s\<in>set ss. \<forall>r e. resource_of P s = Some r \<longrightarrow> getNodeForResource g r = Some (Some e) \<longrightarrow>
       rn_kind e \<noteq> Memory \<longrightarrow> unit_of P' s = Some r)"
  using assms by (rule assignOriginalStageUnits_success)

text \<open>The flow of the small pipeline, before and after routing, and the plan with the two resources.\<close>

definition pair_flow :: data_flow where
  "pair_flow = new_flow 1 (3, load_op) (4, read_op)"

definition pair_routed :: data_flow where
  "pair_routed = pair_flow\<lparr>path := [0, 1, 2, 3, 5], producer_end := 1, consumer_begin := 4,
     producer_unit := Some ''MNILU''\<rparr>"

definition pair_sides :: "ptr \<Rightarrow> stage_side option" where
  "pair_sides = [3 \<mapsto> LoadSide, 4 \<mapsto> ComputeSide]"

definition pair_plan :: plan where
  "pair_plan = \<lparr>stage_infos = [3 \<mapsto> default_info\<lparr>stage_resource := Some ''DDR''\<rparr>,
     4 \<mapsto> default_info\<lparr>stage_resource := Some ''SFU''\<rparr>], changed = False\<rparr>"

lemma pair_route: "routeDataFlows pair_sides small_graph pair_plan [pair_flow] = success [pair_routed]"
proof -
  have p: "findShortestPath small_graph 0 5 = success [0, 1, 2, 3, 5]" by code_simp
  have r: "resource_node_of small_graph pair_plan 3 = Some 0" "resource_node_of small_graph pair_plan 4 = Some 5"
    by code_simp+
  have f: "producer pair_flow = 3" "consumer pair_flow = 4" by (simp_all add: pair_flow_def new_flow_def)
  have n: "getNode small_graph 0 = Some (snd (unit_entry 0 ''DDR'' Memory (Some (4096, 0))))"
    "getNode small_graph (Suc 0) = Some (snd (unit_entry 1 ''MNILU'' LoadStoreUnit None))"
    by (simp_all add: getNode_def small_graph_nodes unit_entry_def)
  show ?thesis
    by (simp add: routeDataFlows_def route_flow_def f r p own_producer_end_def own_consumer_end_def
        pair_sides_def unit_beside_memory_def pathNode_def n unit_entry_def pair_routed_def)
qed

lemma pair_units: "\<exists>P. assignOriginalStageUnits small_graph [pair_routed] [3, 4] pair_plan = success P"
proof -
  have "map_option (map_option (\<lambda>P. ())) (assignOriginalStageUnits small_graph [pair_routed] [3, 4] pair_plan) =
      Some (Some ())" by code_simp
  then show ?thesis by auto
qed

lemma pair_unrouted: "unrouted pair_flow"
  by (simp add: unrouted_def pair_flow_def new_flow_def)

theorem routeDataFlows_routes_witness:
  "list_all2 (routed pair_sides small_graph pair_plan) [pair_flow] [pair_routed]"
  by (rule routeDataFlows_routes [OF small_graph_wf pair_route]) (simp add: pair_unrouted)

theorem assignOriginalStageUnits_unique_witness:
  "\<exists>P. assignOriginalStageUnits small_graph [pair_routed] [3, 4] pair_plan = success P \<and>
     unit_of P 3 = Some ''MNILU'' \<and> unit_of P 4 = Some ''SFU''"
proof -
  obtain P where P: "assignOriginalStageUnits small_graph [pair_routed] [3, 4] pair_plan = success P"
    using pair_units by blast
  have d: "distinct [3 :: ptr, 4]" by simp
  note U = assignOriginalStageUnits_unique [OF P d]
  have "producer pair_routed = 3" "producer_unit pair_routed = Some ''MNILU''"
    by (simp_all add: pair_routed_def pair_flow_def new_flow_def)
  then have "unit_of P 3 = Some ''MNILU''"
    using U [THEN conjunct2, THEN conjunct2, THEN conjunct1] by simp
  moreover have "resource_of pair_plan 4 = Some ''SFU''" by code_simp
  moreover have "getNodeForResource small_graph ''SFU'' = Some (Some (snd (unit_entry 5 ''SFU'' Compute None)))"
    by code_simp
  ultimately show ?thesis
    using U [THEN conjunct2, THEN conjunct2, THEN conjunct2] P by (simp add: unit_entry_def)
qed

theorem needsExpansion_iff_witness: "needsExpansion small_graph [pair_routed] = Some True"
proof -
  have "path pair_routed = [0, 1, 2, 3, 5]" "producer_end pair_routed = 1" "consumer_begin pair_routed = 4"
    by (simp_all add: pair_routed_def)
  moreover have "getNode small_graph 2 = Some (snd (unit_entry 2 ''L1'' Memory (Some (256, 16))))"
    by (simp add: getNode_def small_graph_nodes unit_entry_def)
  ultimately show ?thesis
    using needsExpansion_iff [of "[pair_routed]" small_graph]
    by (auto simp: path_inside_def small_graph_nodes pathNode_def unit_entry_def intro!: exI [of _ 2])
qed

end
