(* ===== verification/PlanExpand.thy ===== *)
theory PlanExpand
  imports PlanRoutes "HOL-Library.Sublist"
begin

text \<open>
  Step 1 of the expansion in \<open>lib/Transforms/PathExpansion/Planner.cpp\<close>: the middle of every path is
  split into hops, each hop is given to the stage that runs on its unit or to a new stage, and the
  dependencies are rewired through the hop stages.
\<close>

section \<open>The state of the expansion\<close>

text \<open>
  The tree and the plan, the map \<open>unit_owner\<close>, the map \<open>insert_after\<close> (the stage after which the
  next new stage of a producer goes) and the counter \<open>next_stage_id\<close>.
\<close>

record expansion =
  ex_tree :: ptree
  ex_plan :: plan
  unit_owner :: "resource \<Rightarrow> ptr option"
  last_inserted :: "ptr \<Rightarrow> ptr option"
  next_stage_id :: int

definition own_units :: "plan \<Rightarrow> ptr list \<Rightarrow> (resource \<Rightarrow> ptr option) option" where
  "own_units P sorted_stages =
     foldM (\<lambda>s m. do { i \<leftarrow> getStageInfo P s;
                       Some (case applicable_unit i of None \<Rightarrow> m | Some u \<Rightarrow> m(u := Some s)) })
       sorted_stages (\<lambda>_. None)"

section \<open>Splitting a path into hops\<close>

text \<open>A hop: its memory, its unit, and whether it covers two nodes of the path.\<close>

type_synonym hop = "resource option \<times> resource \<times> bool"

definition hop_width :: "hop \<Rightarrow> nat" where
  "hop_width h = (if snd (snd h) then 2 else 1)"

definition next_node :: "routing_graph \<Rightarrow> data_flow \<Rightarrow> nat \<Rightarrow> resource_node option option" where
  "next_node g f i =
     (if i + 1 < middleEnd f then do { n \<leftarrow> pathNode g f (i + 1); Some (Some n) } else Some None)"

definition hop_at :: "routing_graph \<Rightarrow> data_flow \<Rightarrow> nat \<Rightarrow> hop outcome" where
  "hop_at g f i =
     do { node \<leftarrow> pathNode g f i;
          next \<leftarrow> next_node g f i;
          (case rn_kind node of
             Memory \<Rightarrow>
               (case next of
                  None \<Rightarrow> failure
                | Some n \<Rightarrow>
                    (if rn_kind n \<noteq> LoadStoreUnit then failure
                     else success (Some (rn_resource node), rn_resource n, True)))
           | LoadStoreUnit \<Rightarrow>
               (case next of
                  None \<Rightarrow> success (None, rn_resource node, False)
                | Some n \<Rightarrow>
                    (if rn_kind n = Memory then success (Some (rn_resource n), rn_resource node, True)
                     else success (None, rn_resource node, False)))
           | Compute \<Rightarrow> failure) }"

section \<open>Giving the hops to stages\<close>

definition synthetic_info :: "resource option \<Rightarrow> resource \<Rightarrow> stage_info" where
  "synthetic_info mem u =
     \<lparr>si_kind = SyntheticTransfer, stage_resource = mem, applicable_unit = Some u\<rparr>"

definition add_synthetic ::
  "ptr \<Rightarrow> data_flow \<Rightarrow> resource option \<Rightarrow> resource \<Rightarrow> expansion \<Rightarrow> (data_flow \<times> expansion) outcome" where
  "add_synthetic pipeline f mem u st =
     do { pos \<leftarrow> last_inserted st (producer f);
          let (T1, synth) = createStageNode None (next_stage_id st) (ex_tree st);
          T2 \<leftarrow> insertChildNode T1 pipeline synth (Some pos);
          success (f\<lparr>chain_stages := chain_stages f @ [synth]\<rparr>,
            st\<lparr>ex_tree := T2,
               ex_plan := put_info synth (synthetic_info mem u) (ex_plan st),
               unit_owner := (unit_owner st)(u := Some synth),
               last_inserted := (last_inserted st)(producer f := Some synth),
               next_stage_id := next_stage_id st + 1\<rparr>) }"

definition addHop ::
  "ptr \<Rightarrow> data_flow \<Rightarrow> resource option \<Rightarrow> resource \<Rightarrow> expansion \<Rightarrow> (data_flow \<times> expansion) outcome" where
  "addHop pipeline f mem u st =
     (case unit_owner st u of
        None \<Rightarrow> add_synthetic pipeline f mem u st
      | Some owner \<Rightarrow>
          (if owner = producer f \<or> owner = consumer f \<or> owner \<in> set (chain_stages f) then failure
           else do { i \<leftarrow> getStageInfo (ex_plan st) owner;
                     if stage_resource i \<noteq> mem then failure
                     else success (f\<lparr>chain_stages := chain_stages f @ [owner]\<rparr>, st) }))"

text \<open>The loop over the middle of the path, from index \<open>i\<close> to \<open>e\<close>.\<close>

function hop_loop ::
  "routing_graph \<Rightarrow> ptr \<Rightarrow> nat \<Rightarrow> nat \<Rightarrow> data_flow \<Rightarrow> expansion \<Rightarrow> (data_flow \<times> expansion) outcome" where
  "hop_loop g pipeline e i f st =
     (if i < e then
        attempt (hop_at g f i) (\<lambda>h.
          attempt (addHop pipeline f (fst h) (fst (snd h)) st) (\<lambda>(f1, st1).
            hop_loop g pipeline e (i + hop_width h)
              (f1\<lparr>boundaries := boundaries f1 @ [i + hop_width h]\<rparr>) st1))
      else success (f, st))"
  by pat_completeness auto
termination
  by (relation "measure (\<lambda>(g, p, e, i, f, st). e - i)") (auto simp: hop_width_def)

declare hop_loop.simps [simp del]

definition expand_flow ::
  "routing_graph \<Rightarrow> ptr \<Rightarrow> data_flow \<Rightarrow> expansion \<Rightarrow> (data_flow \<times> expansion) outcome" where
  "expand_flow g pipeline f st =
     (let st1 = (if last_inserted st (producer f) = None
                 then st\<lparr>last_inserted := (last_inserted st)(producer f := Some (producer f))\<rparr>
                 else st)
      in attempt (hop_loop g pipeline (middleEnd f) (middleBegin f)
                    (f\<lparr>boundaries := boundaries f @ [middleBegin f]\<rparr>) st1) (\<lambda>(f2, st2).
           success ((if chain_stages f2 = [] then f2\<lparr>boundaries := []\<rparr> else f2), st2)))"

section \<open>Rewiring the dependencies\<close>

definition add_dependency_once :: "ptr \<times> ptr \<Rightarrow> ptree \<Rightarrow> ptree" where
  "add_dependency_once e T =
     (if Some (snd e) \<in> set (dependencies T (fst e)) then T else addDependency T (fst e) (snd e))"

text \<open>The stages of a flow in order, and the dependencies along them.\<close>

definition flow_stages :: "data_flow \<Rightarrow> ptr list" where
  "flow_stages f = producer f # chain_stages f @ [consumer f]"

definition consecutive :: "'a list \<Rightarrow> ('a \<times> 'a) list" where
  "consecutive xs = zip xs (tl xs)"

definition flow_pair :: "data_flow \<Rightarrow> ptr \<times> ptr" where
  "flow_pair f = (producer f, consumer f)"

definition has_chain :: "data_flow \<Rightarrow> bool" where
  "has_chain f \<longleftrightarrow> chain_stages f \<noteq> []"

definition wire_flow :: "data_flow \<Rightarrow> ptree \<Rightarrow> ptree" where
  "wire_flow f T =
     (if has_chain f then fold add_dependency_once (consecutive (flow_stages f)) T else T)"

definition wire_pair :: "data_flow list \<Rightarrow> ptr \<times> ptr \<Rightarrow> ptree \<Rightarrow> ptree" where
  "wire_pair flows pair T =
     (let pair_flows = filter (\<lambda>f. flow_pair f = pair) flows in
      if \<not> list_ex has_chain pair_flows then T
      else (let T1 = (if list_all has_chain pair_flows
                      then removeNullifiedDependencies (nullifyDependency T (fst pair) (snd pair)) (fst pair)
                      else T)
            in fold wire_flow pair_flows T1))"

definition rewireDependencies :: "data_flow list \<Rightarrow> ptree \<Rightarrow> ptree" where
  "rewireDependencies flows = fold (wire_pair flows) (first_occurrences (map flow_pair flows))"

definition expandDataFlows ::
  "routing_graph \<Rightarrow> ptr \<Rightarrow> data_flow list \<Rightarrow> ptr list \<Rightarrow> ptree \<Rightarrow> plan \<Rightarrow> int \<Rightarrow>
   (data_flow list \<times> expansion) outcome" where
  "expandDataFlows g pipeline flows sorted_stages T P stage_id =
     do { owners \<leftarrow> own_units P sorted_stages;
          attempt (foldA (\<lambda>f (fs, st).
              attempt (expand_flow g pipeline f st) (\<lambda>(f', st'). success (fs @ [f'], st'))) flows
            ([], \<lparr>ex_tree = T, ex_plan = P, unit_owner = owners, last_inserted = (\<lambda>_. None),
                  next_stage_id = stage_id\<rparr>)) (\<lambda>(fs, st).
            success (fs, st\<lparr>ex_tree := rewireDependencies fs (ex_tree st)\<rparr>)) }"

section \<open>What one new stage changes\<close>

text \<open>The invariant of the expansion: \<open>unit_owner\<close> is exactly the map from units to their stages.\<close>

definition expanding :: "ptr \<Rightarrow> (ptr \<Rightarrow> ptr list) \<Rightarrow> expansion \<Rightarrow> bool" where
  "expanding p F st \<longleftrightarrow>
     tree_abs (ex_tree st) F \<and> fresh_above (ex_tree st) \<and>
     (\<forall>s\<in>set (stages_of (ex_tree st) F p). stage_infos (ex_plan st) s \<noteq> None) \<and>
     (\<forall>u s. unit_owner st u = Some s \<longleftrightarrow>
        s \<in> set (stages_of (ex_tree st) F p) \<and> unit_of (ex_plan st) s = Some u) \<and>
     (\<forall>q s. last_inserted st q = Some s \<longrightarrow> s \<in> set (F p))"

text \<open>New stages are synthetic children of the pipeline; nothing else changes.\<close>

definition new_stage :: "expansion \<Rightarrow> ptr \<Rightarrow> bool" where
  "new_stage st s \<longleftrightarrow> isStageNode (ex_tree st) s \<and> operation_op (ex_tree st) s = None \<and>
     dependencies (ex_tree st) s = [] \<and> (\<exists>m u. stage_infos (ex_plan st) s = Some (synthetic_info m u))"

definition grown ::
  "ptr \<Rightarrow> (ptr \<Rightarrow> ptr list) \<Rightarrow> expansion \<Rightarrow> (ptr \<Rightarrow> ptr list) \<Rightarrow> expansion \<Rightarrow> bool" where
  "grown p F st F' st' \<longleftrightarrow>
     subseq (F p) (F' p) \<and> (\<forall>m. m \<noteq> p \<longrightarrow> F' m = F m) \<and>
     next_ptr (ex_tree st) \<le> next_ptr (ex_tree st') \<and>
     (\<forall>n < next_ptr (ex_tree st). kind (ex_tree st') n = kind (ex_tree st) n \<and>
        operation_op (ex_tree st') n = operation_op (ex_tree st) n \<and>
        dependencies (ex_tree st') n = dependencies (ex_tree st) n \<and>
        stage_infos (ex_plan st') n = stage_infos (ex_plan st) n) \<and>
     (\<forall>s\<in>set (F' p) - set (F p). next_ptr (ex_tree st) \<le> s \<and> new_stage st' s)"

lemma subseq_insert_after: "subseq xs (insert_after p c xs)"
  by (induction xs) (auto intro: list_emb.intros)

lemma subseq_set: "subseq xs ys \<Longrightarrow> set xs \<subseteq> set ys"
  by (induction rule: list_emb.induct) auto

lemma expanding_member: "expanding p F st \<Longrightarrow> s \<in> set (F m) \<Longrightarrow> s < next_ptr (ex_tree st)"
  unfolding expanding_def fresh_above_def
  by (metis not_le option.distinct(1) tree_abs_parent)

lemma expanding_parent: "expanding p F st \<Longrightarrow> F m \<noteq> [] \<Longrightarrow> m < next_ptr (ex_tree st)"
  unfolding expanding_def fresh_above_def using tree_abs_leaf not_le by blast

lemma expandingI:
  assumes "ex_tree st = T" and "ex_plan st = P" and "tree_abs T F" and "fresh_above T"
    and "\<And>s. s \<in> set (stages_of T F p) \<Longrightarrow> stage_infos P s \<noteq> None"
    and "\<And>u s. unit_owner st u = Some s \<longleftrightarrow> s \<in> set (stages_of T F p) \<and> unit_of P s = Some u"
    and "\<And>q s. last_inserted st q = Some s \<Longrightarrow> s \<in> set (F p)"
  shows "expanding p F st"
  using assms by (simp add: expanding_def)

lemma grown_refl [simp]: "grown p F st F st"
  by (simp add: grown_def)

lemma new_stage_cong:
  "kind T' s = kind (ex_tree st) s \<Longrightarrow> operation_op T' s = operation_op (ex_tree st) s \<Longrightarrow>
   dependencies T' s = dependencies (ex_tree st) s \<Longrightarrow> stage_infos P' s = stage_infos (ex_plan st) s \<Longrightarrow>
   T' = ex_tree st' \<Longrightarrow> P' = ex_plan st' \<Longrightarrow> new_stage st' s = new_stage st s"
  by (simp add: new_stage_def isStageNode_def)

lemma grown_trans:
  assumes "grown p F st F1 st1" and "grown p F1 st1 F2 st2" and "expanding p F1 st1"
  shows "grown p F st F2 st2"
proof -
  note A = assms(1) [unfolded grown_def] and B = assms(2) [unfolded grown_def]
  have sub: "subseq (F p) (F2 p)" using A B subseq_order.order_trans by blast
  have old: "n < next_ptr (ex_tree st1)" if "n < next_ptr (ex_tree st)" for n using A that by simp
  have "next_ptr (ex_tree st) \<le> s \<and> new_stage st2 s" if s: "s \<in> set (F2 p)" "s \<notin> set (F p)" for s
  proof (cases "s \<in> set (F1 p)")
    case True
    then have n: "next_ptr (ex_tree st) \<le> s" "new_stage st1 s" using A s(2) by blast+
    have "s < next_ptr (ex_tree st1)" by (rule expanding_member [OF assms(3) True])
    then have "new_stage st2 s = new_stage st1 s"
      using B by (intro new_stage_cong [OF _ _ _ _ refl refl]) blast+
    then show ?thesis using n by simp
  next
    case False
    then have "next_ptr (ex_tree st1) \<le> s" "new_stage st2 s" using B s(1) by blast+
    then show ?thesis using A by (meson le_trans)
  qed
  then show ?thesis unfolding grown_def using A B sub old by auto
qed

lemma grown_infos:
  assumes "expanding p F st" and "grown p F st F' st'" and "s \<in> set (F p)"
  shows "stage_infos (ex_plan st') s = stage_infos (ex_plan st) s"
    and "isStageNode (ex_tree st') s = isStageNode (ex_tree st) s" and "s \<in> set (F' p)"
proof -
  have "s < next_ptr (ex_tree st)" using expanding_member [OF assms(1,3)] .
  then show "stage_infos (ex_plan st') s = stage_infos (ex_plan st) s"
    "isStageNode (ex_tree st') s = isStageNode (ex_tree st) s"
    using assms(2) unfolding grown_def isStageNode_def by auto
  have "subseq (F p) (F' p)" using assms(2) unfolding grown_def by blast
  then show "s \<in> set (F' p)" using assms(3) subseq_set by blast
qed

lemma add_synthetic_step:
  assumes E: "expanding p F st" and free: "unit_owner st u = None"
    and pos: "last_inserted st (producer f) = Some pos"
  shows "\<exists>st'. add_synthetic p f mem u st =
      success (f\<lparr>chain_stages := chain_stages f @ [next_ptr (ex_tree st)]\<rparr>, st') \<and>
    expanding p (F(p := insert_after pos (next_ptr (ex_tree st)) (F p))) st' \<and>
    grown p F st (F(p := insert_after pos (next_ptr (ex_tree st)) (F p))) st' \<and>
    isStageNode (ex_tree st') (next_ptr (ex_tree st)) \<and>
    stage_infos (ex_plan st') (next_ptr (ex_tree st)) = Some (synthetic_info mem u) \<and>
    last_inserted st' = (last_inserted st)(producer f := Some (next_ptr (ex_tree st)))"
proof -
  let ?T = "ex_tree st" and ?n = "next_ptr (ex_tree st)"
  let ?F = "F(p := insert_after pos ?n (F p))"
  have abs: "tree_abs ?T F" and fresh: "fresh_above ?T" using E by (simp_all add: expanding_def)
  obtain T1 where T1: "createStageNode None (next_stage_id st) ?T = (T1, ?n)" "tree_abs T1 F"
    "parent_node T1 ?n = None" "next_ptr T1 = Suc ?n" "kind T1 = (kind ?T)(?n := StageNode (next_stage_id st))"
    "operation_op T1 = (operation_op ?T)(?n := None)" "dependencies T1 = (dependencies ?T)(?n := [])"
    "parent_node T1 = parent_node ?T" "first_child T1 = first_child ?T"
    using create_node_fresh [OF abs fresh, of "StageNode (next_stage_id st)", folded createStageNode_def] by blast
  have posF: "pos \<in> set (F p)" using E pos unfolding expanding_def by blast
  then have "parent_node T1 pos = Some p" using T1(2) tree_abs_parent by blast
  from insertChildNode_after_abs [OF T1(2,3) this] obtain T2 where
    T2: "insertChildNode T1 p ?n (Some pos) = Some T2" "tree_abs T2 ?F" by blast
  note R = same_rest_ptree [OF insertChildNode_rest [OF T2(1)]]
  have mem: "set (?F p) = insert ?n (set (F p))" using set_insert_after [OF posF] by simp
  have old: "s < ?n" if "s \<in> set (F m)" for s m using expanding_member [OF E that] .
  have "F p \<noteq> []" using posF by auto
  then have pn: "p < ?n" by (rule expanding_parent [OF E])
  let ?st = "st\<lparr>ex_tree := T2, ex_plan := put_info ?n (synthetic_info mem u) (ex_plan st),
    unit_owner := (unit_owner st)(u := Some ?n),
    last_inserted := (last_inserted st)(producer f := Some ?n), next_stage_id := next_stage_id st + 1\<rparr>"
  have res: "add_synthetic p f mem u st = success (f\<lparr>chain_stages := chain_stages f @ [?n]\<rparr>, ?st)"
    using pos T1(1) T2(1) by (simp add: add_synthetic_def)
  have stage: "isStageNode T2 s = (if s = ?n then True else isStageNode ?T s)" for s
    by (simp add: isStageNode_def R(1) T1(5))
  have stages: "set (stages_of T2 ?F p) = insert ?n (set (stages_of ?T F p))"
    using mem old [of ?n p] by (auto simp: stages_of_def stage simp del: fun_upd_apply)
  have fresh2: "fresh_above T2"
    unfolding fresh_above_def
  proof (intro allI impI)
    fix m assume "next_ptr T2 \<le> m"
    then have m: "?n < m" using R(7) T1(4) by simp
    have "m \<notin> set (?F k)" for k using old [of m k] mem m by (cases "k = p") auto
    then have "parent_node T2 m = None" using tree_abs_parent [OF T2(2)] by (metis not_None_eq)
    moreover have "F m = []" using expanding_parent [OF E, of m] m by auto
    then have "?F m = []" using pn m by simp
    then have "first_child T2 m = None" using tree_abs_leaf [OF T2(2)] by blast
    ultimately show "parent_node T2 m = None \<and> first_child T2 m = None" by blast
  qed
  have unit: "unit_of (put_info ?n (synthetic_info mem u) (ex_plan st)) s =
      (if s = ?n then Some u else unit_of (ex_plan st) s)" for s
    by (simp add: synthetic_info_def)
  have owner: "unit_owner st v = Some s \<longleftrightarrow> s \<in> set (stages_of ?T F p) \<and> unit_of (ex_plan st) s = Some v" for v s
    using E unfolding expanding_def by blast
  have nst: "?n \<notin> set (stages_of ?T F p)" using old [of ?n p] by (auto simp: stages_of_def)
  have infos: "stage_infos (ex_plan st) s \<noteq> None" if "s \<in> set (stages_of ?T F p)" for s
    using E that unfolding expanding_def by blast
  have last: "s \<in> set (F p)" if "last_inserted st q = Some s" for q s
    using E that unfolding expanding_def by blast
  have "expanding p ?F ?st"
  proof (rule expandingI)
    show "ex_tree ?st = T2" "ex_plan ?st = put_info ?n (synthetic_info mem u) (ex_plan st)" by simp_all
    show "stage_infos (put_info ?n (synthetic_info mem u) (ex_plan st)) s \<noteq> None"
      if "s \<in> set (stages_of T2 ?F p)" for s
      using infos that unfolding stages by (cases "s = ?n") auto
    show "unit_owner ?st v = Some s \<longleftrightarrow> s \<in> set (stages_of T2 ?F p) \<and>
        unit_of (put_info ?n (synthetic_info mem u) (ex_plan st)) s = Some v" for v s
      unfolding stages unit using owner [of v s] owner [of u s] free nst by auto
    show "s \<in> set (?F p)" if "last_inserted ?st q = Some s" for q s
      unfolding mem using last that by (auto split: if_splits)
  qed (rule T2(2) fresh2)+
  moreover have "grown p F st ?F ?st"
  proof -
    have "subseq (F p) (?F p)" by (simp add: subseq_insert_after)
    moreover have "new_stage ?st ?n"
      using stage [of ?n] R T1 by (simp add: new_stage_def) blast
    moreover have "set (?F p) - set (F p) \<subseteq> {?n}" unfolding mem by blast
    moreover have "kind T2 m = kind ?T m \<and> operation_op T2 m = operation_op ?T m \<and>
        dependencies T2 m = dependencies ?T m \<and>
        stage_infos (put_info ?n (synthetic_info mem u) (ex_plan st)) m = stage_infos (ex_plan st) m"
      if "m < ?n" for m using that R T1 by simp
    ultimately show ?thesis unfolding grown_def using R(7) T1(4) by auto
  qed
  ultimately show ?thesis using res stage [of ?n] by (intro exI [of _ ?st]) simp
qed

section \<open>The hops cover the middle of the path\<close>

text \<open>A stage that runs a hop: its unit and its memory are those of the hop.\<close>

definition runs_hop :: "plan \<Rightarrow> hop \<Rightarrow> ptr \<Rightarrow> bool" where
  "runs_hop P h s \<longleftrightarrow> (\<exists>i. stage_infos P s = Some i \<and> stage_resource i = fst h \<and>
     applicable_unit i = Some (fst (snd h)))"

lemma runs_hop_cong: "stage_infos P' s = stage_infos P s \<Longrightarrow> runs_hop P' h s = runs_hop P h s"
  by (simp add: runs_hop_def)

text \<open>The flow may be given more stages: all it needs to keep is its ends.\<close>

definition ready :: "ptr \<Rightarrow> (ptr \<Rightarrow> ptr list) \<Rightarrow> expansion \<Rightarrow> data_flow \<Rightarrow> bool" where
  "ready p F st f \<longleftrightarrow> producer f \<in> set (F p) \<and> consumer f \<in> set (F p) \<and>
     last_inserted st (producer f) \<noteq> None \<and> distinct (chain_stages f) \<and>
     set (chain_stages f) \<subseteq> set (stages_of (ex_tree st) F p) - {producer f, consumer f}"

lemma stages_of_grown:
  "expanding p F st \<Longrightarrow> grown p F st F' st' \<Longrightarrow>
   set (stages_of (ex_tree st) F p) \<subseteq> set (stages_of (ex_tree st') F' p)"
  using grown_infos by (fastforce simp: stages_of_def)

lemma addHop_step:
  assumes E: "expanding p F st" and R: "ready p F st f" and r: "addHop p f mem u st = success (f1, st1)"
  shows "\<exists>F1 s. f1 = f\<lparr>chain_stages := chain_stages f @ [s]\<rparr> \<and> expanding p F1 st1 \<and> grown p F st F1 st1 \<and>
    ready p F1 st1 f1 \<and> runs_hop (ex_plan st1) (mem, u, b) s"
proof (cases "unit_owner st u")
  case None
  let ?n = "next_ptr (ex_tree st)"
  obtain pos where pos: "last_inserted st (producer f) = Some pos" using R unfolding ready_def by auto
  from add_synthetic_step [OF E None pos, of mem] obtain F1 st' where S:
    "add_synthetic p f mem u st = success (f\<lparr>chain_stages := chain_stages f @ [?n]\<rparr>, st')"
    "expanding p F1 st'" "grown p F st F1 st'" "isStageNode (ex_tree st') ?n"
    "stage_infos (ex_plan st') ?n = Some (synthetic_info mem u)"
    "last_inserted st' = (last_inserted st)(producer f := Some ?n)" by blast
  have eq: "f1 = f\<lparr>chain_stages := chain_stages f @ [?n]\<rparr>" "st1 = st'" using r S(1) None by (simp_all add: addHop_def)
  have old: "s < ?n" if "s \<in> set (F p)" for s using expanding_member [OF E that] .
  have "?n \<in> set (F1 p)" using S(2,6) unfolding expanding_def by (metis fun_upd_same)
  then have n: "?n \<in> set (stages_of (ex_tree st') F1 p)" using S(4) by (simp add: stages_of_def)
  have pc: "producer f \<in> set (F p)" "consumer f \<in> set (F p)" using R by (auto simp: ready_def)
  have "?n \<notin> set (chain_stages f)" using R old [of ?n] by (auto simp: ready_def stages_of_def)
  moreover have "?n \<noteq> producer f" "?n \<noteq> consumer f" using old [OF pc(1)] old [OF pc(2)] by simp_all
  moreover have "producer f \<in> set (F1 p)" "consumer f \<in> set (F1 p)" using grown_infos(3) [OF E S(3)] pc by blast+
  ultimately have "ready p F1 st' f1"
    using R n stages_of_grown [OF E S(3)] S(6) unfolding eq ready_def by auto
  moreover have "runs_hop (ex_plan st') (mem, u, b) ?n"
    using S(5) by (simp add: runs_hop_def synthetic_info_def)
  ultimately show ?thesis using eq S(2,3) by blast
next
  case (Some owner)
  then obtain i where i: "stage_infos (ex_plan st) owner = Some i" "stage_resource i = mem"
    "owner \<noteq> producer f" "owner \<noteq> consumer f" "owner \<notin> set (chain_stages f)"
    "f1 = f\<lparr>chain_stages := chain_stages f @ [owner]\<rparr>" "st1 = st"
    using r by (auto simp: addHop_def getStageInfo_def split: Option.bind_splits if_splits)
  have o': "owner \<in> set (stages_of (ex_tree st) F p)" "unit_of (ex_plan st) owner = Some u"
    using E Some unfolding expanding_def by blast+
  then have "ready p F st f1" using R i unfolding ready_def by auto
  moreover have "runs_hop (ex_plan st) (mem, u, b) owner"
    using i o'(2) by (simp add: runs_hop_def unit_of_def)
  ultimately show ?thesis using E i by (intro exI [of _ F] exI [of _ owner]) simp
qed

text \<open>The hops of a part of the path, and the boundaries after each of them.\<close>

fun splits :: "routing_graph \<Rightarrow> data_flow \<Rightarrow> nat \<Rightarrow> nat \<Rightarrow> hop list \<Rightarrow> bool" where
  "splits g f i e [] \<longleftrightarrow> e \<le> i"
| "splits g f i e (h # hs) \<longleftrightarrow> i < e \<and> hop_at g f i = success h \<and> splits g f (i + hop_width h) e hs"

fun hop_ends :: "nat \<Rightarrow> hop list \<Rightarrow> nat list" where
  "hop_ends i [] = []"
| "hop_ends i (h # hs) = (i + hop_width h) # hop_ends (i + hop_width h) hs"

lemma hop_at_cong:
  "path f' = path f \<Longrightarrow> consumer_begin f' = consumer_begin f \<Longrightarrow> hop_at g f' i = hop_at g f i"
  by (simp add: hop_at_def next_node_def middleEnd_def pathNode_cong [of f' f])

lemma splits_cong:
  "path f' = path f \<Longrightarrow> consumer_begin f' = consumer_begin f \<Longrightarrow> splits g f' i e hs = splits g f i e hs"
  by (induction hs arbitrary: i) (simp_all add: hop_at_cong [of f' f])

lemma hop_loop_spec:
  assumes "hop_loop g p e i f st = success (f', st')" and "expanding p F st" and "ready p F st f"
  shows "\<exists>F' hs ss. splits g f i e hs \<and>
    f' = f\<lparr>chain_stages := chain_stages f @ ss, boundaries := boundaries f @ hop_ends i hs\<rparr> \<and>
    list_all2 (runs_hop (ex_plan st')) hs ss \<and>
    expanding p F' st' \<and> grown p F st F' st' \<and> ready p F' st' f'"
  using assms
proof (induction g p e i f st arbitrary: F rule: hop_loop.induct)
  case (1 g p e i f st)
  show ?case
  proof (cases "i < e")
    case False
    then have "f' = f" "st' = st" using "1.prems"(1) by (simp_all add: hop_loop.simps)
    then show ?thesis
      using False "1.prems"(2,3) by (intro exI [of _ F] exI [of _ "[]"]) simp
  next
    case True
    with "1.prems"(1) obtain h f1 st1 where h: "hop_at g f i = success h"
      "addHop p f (fst h) (fst (snd h)) st = success (f1, st1)"
      "hop_loop g p e (i + hop_width h) (f1\<lparr>boundaries := boundaries f1 @ [i + hop_width h]\<rparr>) st1 = success (f', st')"
      by (subst (asm) hop_loop.simps) auto
    let ?f1 = "f1\<lparr>boundaries := boundaries f1 @ [i + hop_width h]\<rparr>"
    obtain F1 s where s: "f1 = f\<lparr>chain_stages := chain_stages f @ [s]\<rparr>" "expanding p F1 st1" "grown p F st F1 st1"
      "ready p F1 st1 f1" "runs_hop (ex_plan st1) (fst h, fst (snd h), snd (snd h)) s"
      using addHop_step [OF "1.prems"(2,3) h(2), of "snd (snd h)"] by blast
    have r1: "ready p F1 st1 ?f1" using s(4) by (simp add: ready_def)
    obtain F' hs ss where I: "splits g ?f1 (i + hop_width h) e hs"
      "f' = ?f1\<lparr>chain_stages := chain_stages ?f1 @ ss, boundaries := boundaries ?f1 @ hop_ends (i + hop_width h) hs\<rparr>"
      "list_all2 (runs_hop (ex_plan st')) hs ss" "expanding p F' st'" "grown p F1 st1 F' st'" "ready p F' st' f'"
      using "1.IH" [OF True h(1,2) refl h(3) s(2) r1] by blast
    have "s \<in> set (F1 p)" using s(1,4) by (simp add: ready_def stages_of_def)
    then have "runs_hop (ex_plan st') h s"
      using s(5) runs_hop_cong [OF grown_infos(1) [OF s(2) I(5)]] by simp
    then have "list_all2 (runs_hop (ex_plan st')) (h # hs) (s # ss)" using I(3) by simp
    moreover have "splits g f i e (h # hs)"
      using True h(1) I(1) splits_cong [of ?f1 f] s(1) by simp
    moreover have "f' = f\<lparr>chain_stages := chain_stages f @ s # ss, boundaries := boundaries f @ hop_ends i (h # hs)\<rparr>"
      using I(2) s(1) by simp
    moreover have "grown p F st F' st'" using grown_trans [OF s(3) I(5) s(2)] .
    ultimately show ?thesis using I(4,6) by blast
  qed
qed

text \<open>A flow that has been expanded.\<close>

definition covered :: "routing_graph \<Rightarrow> plan \<Rightarrow> data_flow \<Rightarrow> data_flow \<Rightarrow> bool" where
  "covered g P f f' \<longleftrightarrow>
     (\<exists>hs. splits g f (middleBegin f) (middleEnd f) hs \<and>
        f' = f\<lparr>chain_stages := chain_stages f',
               boundaries := (if hs = [] then [] else middleBegin f # hop_ends (middleBegin f) hs)\<rparr> \<and>
        list_all2 (runs_hop P) hs (chain_stages f') \<and>
        distinct (producer f # chain_stages f') \<and> consumer f \<notin> set (chain_stages f'))"

lemma expand_flow_spec:
  assumes r: "expand_flow g p f st = success (f', st')" and E: "expanding p F st"
    and f: "producer f \<in> set (F p)" "consumer f \<in> set (F p)" "chain_stages f = []" "boundaries f = []"
  shows "\<exists>F'. covered g (ex_plan st') f f' \<and> expanding p F' st' \<and> grown p F st F' st' \<and>
    set (chain_stages f') \<subseteq> set (stages_of (ex_tree st') F' p)"
proof -
  define st1 where "st1 = (if last_inserted st (producer f) = None
      then st\<lparr>last_inserted := (last_inserted st)(producer f := Some (producer f))\<rparr> else st)"
  let ?f0 = "f\<lparr>boundaries := boundaries f @ [middleBegin f]\<rparr>"
  obtain f2 where f2: "hop_loop g p (middleEnd f) (middleBegin f) ?f0 st1 = success (f2, st')"
    "f' = (if chain_stages f2 = [] then f2\<lparr>boundaries := []\<rparr> else f2)"
    using r by (auto simp: expand_flow_def st1_def)
  have same: "ex_tree st1 = ex_tree st" "ex_plan st1 = ex_plan st" by (simp_all add: st1_def)
  have E1: "expanding p F st1"
    using E f(1) by (auto simp: expanding_def st1_def)
  have R1: "ready p F st1 ?f0" using f by (simp add: ready_def st1_def)
  obtain F' hs ss where I: "splits g ?f0 (middleBegin f) (middleEnd f) hs"
    "f2 = ?f0\<lparr>chain_stages := chain_stages ?f0 @ ss, boundaries := boundaries ?f0 @ hop_ends (middleBegin f) hs\<rparr>"
    "list_all2 (runs_hop (ex_plan st')) hs ss" "expanding p F' st'" "grown p F st1 F' st'" "ready p F' st' f2"
    using hop_loop_spec [OF f2(1) E1 R1] by blast
  have ne: "hs = [] \<longleftrightarrow> ss = []" using I(3) by (cases hs; cases ss) auto
  have ch: "chain_stages f' = ss" using f2(2) I(2) f(3) by (auto split: if_splits)
  have c1: "splits g f (middleBegin f) (middleEnd f) hs" using I(1) splits_cong [of ?f0 f] by simp
  have c2: "f' = f\<lparr>chain_stages := chain_stages f',
      boundaries := (if hs = [] then [] else middleBegin f # hop_ends (middleBegin f) hs)\<rparr>"
    unfolding ch using f2(2) I(2) f(3,4) ne by (auto split: if_splits)
  have c3: "distinct (producer f # ss) \<and> consumer f \<notin> set ss"
    using I(6) I(2) f(3) by (auto simp: ready_def)
  have "covered g (ex_plan st') f f'"
    unfolding covered_def by (intro exI [of _ hs] conjI c1 c2) (use c3 I(3) ch in simp_all)
  moreover have "grown p F st F' st'" using I(5) by (simp add: grown_def same)
  moreover have "set ss \<subseteq> set (stages_of (ex_tree st') F' p)" using I(6) I(2) f(3) by (auto simp: ready_def)
  ultimately show ?thesis using I(4) ch by blast
qed

lemma covered_grown:
  assumes "covered g (ex_plan st) f f'" and "expanding p F st" and "grown p F st F' st'"
    and "set (chain_stages f') \<subseteq> set (F p)"
  shows "covered g (ex_plan st') f f'"
proof -
  have "runs_hop (ex_plan st') h s = runs_hop (ex_plan st) h s" if "s \<in> set (chain_stages f')" for h s
    using runs_hop_cong [OF grown_infos(1) [OF assms(2,3)]] assms(4) that by blast
  then have "list_all2 (runs_hop (ex_plan st')) hs (chain_stages f') =
      list_all2 (runs_hop (ex_plan st)) hs (chain_stages f')" for hs
    by (intro list.rel_cong) simp_all
  then show ?thesis using assms(1) unfolding covered_def by simp
qed

lemma hop_at_width: "hop_at g f i = success h \<Longrightarrow> i < middleEnd f \<Longrightarrow> i + hop_width h \<le> middleEnd f"
  by (auto simp: hop_at_def hop_width_def next_node_def split: Option.bind_splits if_splits resource_kind.splits)

lemma hop_width_pos [simp]: "0 < hop_width h"
  by (simp add: hop_width_def)

text \<open>The boundaries start with the first middle index and end with the first index of the consumer.\<close>

lemma splits_end: "splits g f i (middleEnd f) hs \<Longrightarrow> i \<le> middleEnd f \<Longrightarrow> last (i # hop_ends i hs) = middleEnd f"
proof (induction hs arbitrary: i)
  case (Cons h hs)
  then have "i + hop_width h \<le> middleEnd f" using hop_at_width [of g f i h] by simp
  then show ?case using Cons by simp
qed simp

lemma hop_ends_sorted: "sorted_wrt (<) (i # hop_ends i hs)"
proof (induction hs arbitrary: i)
  case (Cons h hs)
  have "i < i + hop_width h" by simp
  moreover have "sorted_wrt (<) ((i + hop_width h) # hop_ends (i + hop_width h) hs)" by (rule Cons.IH)
  ultimately show ?case by (auto dest: order.strict_trans)
qed simp

section \<open>All flows\<close>

lemma own_units_spec:
  assumes "own_units P ss = Some m"
    and "\<And>s t u. s \<in> set ss \<Longrightarrow> t \<in> set ss \<Longrightarrow> unit_of P s = Some u \<Longrightarrow> unit_of P t = Some u \<Longrightarrow> s = t"
  shows "m u = Some s \<longleftrightarrow> s \<in> set ss \<and> unit_of P s = Some u"
proof -
  let ?f = "\<lambda>s m. do { i \<leftarrow> getStageInfo P s;
      Some (case applicable_unit i of None \<Rightarrow> m | Some u \<Rightarrow> m(u := Some s)) }"
  have "foldM ?f xs k = Some k' \<Longrightarrow> set xs \<subseteq> set ss \<Longrightarrow>
      k' u = (case find (\<lambda>s. unit_of P s = Some u) xs of Some s \<Rightarrow> Some s | None \<Rightarrow> k u)" for xs k k'
  proof (induction xs arbitrary: k)
    case (Cons x xs)
    then obtain i where i: "stage_infos P x = Some i"
      "foldM ?f xs (case applicable_unit i of None \<Rightarrow> k | Some u \<Rightarrow> k(u := Some x)) = Some k'"
      by (auto simp: getStageInfo_def split: Option.bind_splits)
    let ?k = "case applicable_unit i of None \<Rightarrow> k | Some u \<Rightarrow> k(u := Some x)"
    have IH: "k' u = (case find (\<lambda>s. unit_of P s = Some u) xs of Some s \<Rightarrow> Some s | None \<Rightarrow> ?k u)"
      using Cons.IH [OF i(2)] Cons.prems(2) by simp
    have ux: "unit_of P x = applicable_unit i" using i(1) by (simp add: unit_of_def)
    show ?case
    proof (cases "unit_of P x = Some u")
      case True
      have "s = x" if "find (\<lambda>s. unit_of P s = Some u) xs = Some s" for s
      proof -
        have "s \<in> set xs" "unit_of P s = Some u" using that by (auto simp: find_Some_iff)
        then show ?thesis using assms(2) [of s x u] Cons.prems(2) True by auto
      qed
      then show ?thesis using IH True ux by (auto split: option.splits)
    next
      case False
      then have "?k u = k u" using ux by (auto split: option.splits)
      then show ?thesis using IH False by (simp cong: option.case_cong)
    qed
  qed simp
  from this [of ss "\<lambda>_. None" m] assms(1)
  have "m u = find (\<lambda>s. unit_of P s = Some u) ss" by (auto simp: own_units_def split: option.splits)
  also have "\<dots> = Some s \<longleftrightarrow> s \<in> set ss \<and> unit_of P s = Some u"
  proof
    assume "find (\<lambda>s. unit_of P s = Some u) ss = Some s"
    then show "s \<in> set ss \<and> unit_of P s = Some u" by (auto simp: find_Some_iff)
  next
    assume s: "s \<in> set ss \<and> unit_of P s = Some u"
    then have "find (\<lambda>s. unit_of P s = Some u) ss \<noteq> None" unfolding find_None_iff by blast
    then obtain t where t: "find (\<lambda>s. unit_of P s = Some u) ss = Some t" by blast
    have "t \<in> set ss" "unit_of P t = Some u" using t unfolding find_Some_iff by (metis nth_mem)+
    then show "find (\<lambda>s. unit_of P s = Some u) ss = Some s" using t assms(2) [of s t u] s by simp
  qed
  finally show ?thesis .
qed

text \<open>What a flow needs before it is expanded: its ends are children of the pipeline.\<close>

definition expandable :: "ptr list \<Rightarrow> data_flow \<Rightarrow> bool" where
  "expandable children f \<longleftrightarrow> producer f \<in> set children \<and> consumer f \<in> set children \<and>
     chain_stages f = [] \<and> boundaries f = []"

lemma expand_all:
  assumes "foldA (\<lambda>f (fs, st). attempt (expand_flow g p f st) (\<lambda>(f', st'). success (fs @ [f'], st'))) flows (acc, st)
      = success (out, st')"
    and "expanding p F st" and "\<forall>f\<in>set flows. expandable (F p) f"
  shows "\<exists>F' fs. out = acc @ fs \<and> list_all2 (covered g (ex_plan st')) flows fs \<and>
    expanding p F' st' \<and> grown p F st F' st' \<and>
    (\<forall>f\<in>set fs. set (chain_stages f) \<subseteq> set (stages_of (ex_tree st') F' p))"
  using assms
proof (induction flows arbitrary: acc st F)
  case Nil
  then show ?case by (intro exI [of _ F] exI [of _ "[]"]) simp
next
  case (Cons f flows)
  let ?body = "\<lambda>f (fs, st). attempt (expand_flow g p f st) (\<lambda>(f', st'). success (fs @ [f'], st'))"
  from Cons.prems(1) obtain f1 st1 where f1: "expand_flow g p f st = success (f1, st1)"
    "foldA ?body flows (acc @ [f1], st1) = success (out, st')" by auto
  have ff: "producer f \<in> set (F p)" "consumer f \<in> set (F p)" "chain_stages f = []" "boundaries f = []"
    using Cons.prems(3) by (auto simp: expandable_def)
  obtain F1 where F1: "covered g (ex_plan st1) f f1" "expanding p F1 st1" "grown p F st F1 st1"
    "set (chain_stages f1) \<subseteq> set (stages_of (ex_tree st1) F1 p)"
    using expand_flow_spec [OF f1(1) Cons.prems(2) ff] by blast
  have exp: "\<forall>f\<in>set flows. expandable (F1 p) f"
    using Cons.prems(3) grown_infos(3) [OF Cons.prems(2) F1(3)] by (auto simp: expandable_def)
  obtain F' fs where I: "out = (acc @ [f1]) @ fs" "list_all2 (covered g (ex_plan st')) flows fs"
    "expanding p F' st'" "grown p F1 st1 F' st'"
    "\<forall>f\<in>set fs. set (chain_stages f) \<subseteq> set (stages_of (ex_tree st') F' p)"
    using Cons.IH [OF f1(2) F1(2) exp] by blast
  have "set (chain_stages f1) \<subseteq> set (F1 p)" using F1(4) by (auto simp: stages_of_def)
  then have "covered g (ex_plan st') f f1" by (rule covered_grown [OF F1(1,2) I(4)])
  moreover have "set (chain_stages f1) \<subseteq> set (stages_of (ex_tree st') F' p)"
    using F1(4) stages_of_grown [OF F1(2) I(4)] by blast
  ultimately show ?case
    using I grown_trans [OF F1(3) I(4) F1(2)] by (intro exI [of _ F'] exI [of _ "f1 # fs"]) simp
qed

end
