(* ===== verification/PlanWire.thy ===== *)
theory PlanWire
  imports PlanExpand
begin

text \<open>
  What \<open>rewireDependencies\<close> and the whole of \<open>expandDataFlows\<close> in
  \<open>lib/Transforms/PathExpansion/Planner.cpp\<close> achieve: the dependencies run along the hop stages, a
  direct dependency is dropped once when every flow of the pair has hops, the units stay unique,
  and the middle of every path is covered by the stages of its flow.
\<close>

section \<open>Dependencies as a relation\<close>

definition has_dep :: "ptree \<Rightarrow> ptr \<times> ptr \<Rightarrow> bool" where
  "has_dep T e \<longleftrightarrow> Some (snd e) \<in> set (dependencies T (fst e))"

definition dep_count :: "ptree \<Rightarrow> ptr \<times> ptr \<Rightarrow> nat" where
  "dep_count T e = count_list (dependencies T (fst e)) (Some (snd e))"

lemma has_dep_count: "has_dep T e \<longleftrightarrow> 0 < dep_count T e"
  unfolding has_dep_def dep_count_def by (metis count_list_0_iff neq0_conv)

text \<open>The edges along the stages of a flow with hops.\<close>

definition route_edges :: "data_flow \<Rightarrow> (ptr \<times> ptr) set" where
  "route_edges f = (if has_chain f then set (consecutive (flow_stages f)) else {})"

text \<open>The pairs all of whose flows have hops.\<close>

definition dropped :: "data_flow list \<Rightarrow> (ptr \<times> ptr) set" where
  "dropped flows = {e. e \<in> flow_pair ` set flows \<and> (\<forall>f\<in>set flows. flow_pair f = e \<longrightarrow> has_chain f)}"

text \<open>The pairs whose flows are wired before those of a pair: the pairs are in the order of their first flow.\<close>

definition wired_before :: "data_flow list \<Rightarrow> ptr \<times> ptr \<Rightarrow> (ptr \<times> ptr) set" where
  "wired_before flows d = set (takeWhile (\<lambda>e. e \<noteq> d) (first_occurrences (map flow_pair flows)))"

text \<open>The number of equal entries after an entry is added once under a condition.\<close>

definition at_least_one :: "bool \<Rightarrow> nat \<Rightarrow> nat" where
  "at_least_one b c = (if b then max 1 c else c)"

lemma at_least_one_simps [simp]:
  "at_least_one False c = c" "at_least_one b (at_least_one b' c) = at_least_one (b \<or> b') c"
  "0 < at_least_one b c \<longleftrightarrow> b \<or> 0 < c"
  by (auto simp: at_least_one_def)

text \<open>Only the dependency lists change.\<close>

definition only_deps :: "ptree \<Rightarrow> ptree \<Rightarrow> bool" where
  "only_deps T T' \<longleftrightarrow> T' = T\<lparr>dependencies := dependencies T'\<rparr>"

lemma only_deps_refl [simp]: "only_deps T T"
  by (simp add: only_deps_def)

lemma only_deps_trans: "only_deps T T1 \<Longrightarrow> only_deps T1 T2 \<Longrightarrow> only_deps T T2"
  by (cases T; cases T1; cases T2) (simp add: only_deps_def)

lemma only_deps_set_deps [simp]: "only_deps T (set_deps T n ds)"
  by (simp add: only_deps_def set_deps_def)

lemma only_deps_fields:
  assumes "only_deps T T'"
  shows "kind T' = kind T" "operation_op T' = operation_op T" "next_ptr T' = next_ptr T"
    "parent_node T' = parent_node T" "first_child T' = first_child T" "next_sibling T' = next_sibling T"
    "root T' = root T" "opToNode T' = opToNode T"
  using assms by (cases T; cases T'; simp add: only_deps_def)+

lemma add_dependency_once_count:
  "dep_count (add_dependency_once e T) d = dep_count T d + (if d = e \<and> \<not> has_dep T e then 1 else 0)"
  "only_deps T (add_dependency_once e T)"
proof -
  show "dep_count (add_dependency_once e T) d = dep_count T d + (if d = e \<and> \<not> has_dep T e then 1 else 0)"
    by (cases e; cases d) (auto simp: add_dependency_once_def addDependency_def dep_count_def has_dep_def)
  show "only_deps T (add_dependency_once e T)"
    by (simp add: add_dependency_once_def addDependency_def)
qed

lemma add_dependencies:
  "only_deps T (fold add_dependency_once es T) \<and>
   dep_count (fold add_dependency_once es T) d = at_least_one (d \<in> set es) (dep_count T d)"
proof (induction es arbitrary: T)
  case (Cons e es)
  let ?T = "add_dependency_once e T"
  have "dep_count ?T d = at_least_one (d = e) (dep_count T d)"
    by (auto simp: has_dep_count add_dependency_once_count(1) at_least_one_def)
  then show ?case
    using Cons.IH [of ?T] only_deps_trans [OF add_dependency_once_count(2) [of T e]] by (simp add: disj_commute)
qed simp

lemma wire_flows:
  "only_deps T (fold wire_flow fs T) \<and>
   dep_count (fold wire_flow fs T) d = at_least_one (\<exists>f\<in>set fs. d \<in> route_edges f) (dep_count T d)"
proof (induction fs arbitrary: T)
  case (Cons f fs)
  let ?T = "wire_flow f T"
  have one: "only_deps T ?T" "dep_count ?T d = at_least_one (d \<in> route_edges f) (dep_count T d)"
    using add_dependencies [of T "consecutive (flow_stages f)" d] by (auto simp: wire_flow_def route_edges_def)
  then show ?case using Cons.IH [of ?T] only_deps_trans [OF one(1)] by (simp add: disj_commute)
qed simp

text \<open>Nullifying a dependency and removing the null entry takes away its first occurrence.\<close>

lemma filter_replace_first:
  "filter (\<lambda>d. d \<noteq> None) (replace_first (Some t) None ds) = filter (\<lambda>d. d \<noteq> None) (remove1 (Some t) ds)"
  by (induction ds) auto

lemma count_remove1: "count_list (remove1 x xs) y = count_list xs y - (if x = y then 1 else 0)"
  by (induction xs) auto

lemma count_filter_some: "count_list (filter (\<lambda>d. d \<noteq> None) ds) (Some t) = count_list ds (Some t)"
  by (induction ds) auto

lemma drop_dependency:
  "dep_count (removeNullifiedDependencies (nullifyDependency T a b) a) d =
     dep_count T d - (if d = (a, b) then 1 else 0)"
  "only_deps T (removeNullifiedDependencies (nullifyDependency T a b) a)"
proof -
  show "dep_count (removeNullifiedDependencies (nullifyDependency T a b) a) d =
     dep_count T d - (if d = (a, b) then 1 else 0)"
    by (cases d) (auto simp: dep_count_def removeNullifiedDependencies_def nullifyDependency_def
        filter_replace_first count_filter_some count_remove1 simp del: not_None_eq)
  show "only_deps T (removeNullifiedDependencies (nullifyDependency T a b) a)"
    unfolding removeNullifiedDependencies_def nullifyDependency_def
    by (rule only_deps_trans [of _ "set_deps T a (replace_first (Some b) None (dependencies T a))"]) simp_all
qed

lemma wire_pair_spec:
  assumes "e \<in> flow_pair ` set flows"
  shows "only_deps T (wire_pair flows e T)"
    and "dep_count (wire_pair flows e T) d =
      at_least_one (\<exists>f\<in>set flows. flow_pair f = e \<and> d \<in> route_edges f)
        (dep_count T d - (if d = e \<and> d \<in> dropped flows then 1 else 0))"
proof -
  let ?fs = "filter (\<lambda>f. flow_pair f = e) flows"
  let ?T1 = "if list_all has_chain ?fs
    then removeNullifiedDependencies (nullifyDependency T (fst e) (snd e)) (fst e) else T"
  have ne: "?fs \<noteq> []" using assms by (auto simp: filter_empty_conv)
  have drop: "list_all has_chain ?fs \<longleftrightarrow> e \<in> dropped flows"
    using assms by (auto simp: dropped_def list_all_iff)
  have none: "\<forall>f\<in>set flows. flow_pair f = e \<longrightarrow> route_edges f = {}" and nd: "e \<notin> dropped flows"
    if "\<not> list_ex has_chain ?fs"
  proof -
    show "\<forall>f\<in>set flows. flow_pair f = e \<longrightarrow> route_edges f = {}"
      using that by (auto simp: list_ex_iff route_edges_def)
    have "\<not> list_all has_chain ?fs" using that ne by (cases ?fs) auto
    then show "e \<notin> dropped flows" using drop by blast
  qed
  have T1: "only_deps T ?T1" "dep_count ?T1 d = dep_count T d - (if d = e \<and> e \<in> dropped flows then 1 else 0)"
    using drop_dependency [of T "fst e" "snd e"] drop by auto
  have W: "wire_pair flows e T = (if \<not> list_ex has_chain ?fs then T else fold wire_flow ?fs ?T1)"
    by (simp add: wire_pair_def Let_def)
  note F = wire_flows [of ?T1 ?fs d]
  show "only_deps T (wire_pair flows e T)"
    unfolding W using only_deps_trans [OF T1(1)] wire_flows [of ?T1 ?fs] by simp
  show "dep_count (wire_pair flows e T) d =
      at_least_one (\<exists>f\<in>set flows. flow_pair f = e \<and> d \<in> route_edges f)
        (dep_count T d - (if d = e \<and> d \<in> dropped flows then 1 else 0))"
  proof (cases "list_ex has_chain ?fs")
    case False
    then have no: "\<not> (\<exists>f\<in>set flows. flow_pair f = e \<and> d \<in> route_edges f)" using none by auto
    have "\<not> (d = e \<and> d \<in> dropped flows)" using nd [OF False] by blast
    then show ?thesis unfolding W using False no by (simp only: if_False not_False_eq_True if_True at_least_one_simps(1) diff_zero)
  next
    case True
    have "(\<exists>f\<in>set ?fs. d \<in> route_edges f) \<longleftrightarrow> (\<exists>f\<in>set flows. flow_pair f = e \<and> d \<in> route_edges f)" by auto
    then show ?thesis unfolding W using True F T1(2) by auto
  qed
qed

lemma wire_pairs:
  assumes "set es \<subseteq> flow_pair ` set flows" and "d \<notin> set es \<or> d \<notin> dropped flows"
  shows "only_deps T (fold (wire_pair flows) es T) \<and> dep_count (fold (wire_pair flows) es T) d =
    at_least_one (\<exists>f\<in>set flows. flow_pair f \<in> set es \<and> d \<in> route_edges f) (dep_count T d)"
  using assms
proof (induction es arbitrary: T)
  case (Cons e es)
  have e: "e \<in> flow_pair ` set flows" and es: "set es \<subseteq> flow_pair ` set flows" "d \<notin> set es \<or> d \<notin> dropped flows"
    using Cons.prems by auto
  note S = wire_pair_spec [OF e, where T = T]
  note I = Cons.IH [OF es, of "wire_pair flows e T"]
  have one: "dep_count (wire_pair flows e T) d =
      at_least_one (\<exists>f\<in>set flows. flow_pair f = e \<and> d \<in> route_edges f) (dep_count T d)"
    using S(2) [of d] Cons.prems(2) by auto
  have ex: "(\<exists>f\<in>set flows. flow_pair f \<in> set (e # es) \<and> d \<in> route_edges f) \<longleftrightarrow>
      (\<exists>f\<in>set flows. flow_pair f \<in> set es \<and> d \<in> route_edges f) \<or>
      (\<exists>f\<in>set flows. flow_pair f = e \<and> d \<in> route_edges f)" by auto
  show ?case unfolding ex using I one only_deps_trans [OF S(1)] by simp
qed simp

text \<open>
  A pair that is dropped: the pairs wired before it can have made it a dependency, which is then
  the one that is taken away again; the flows of the pair itself and of later pairs add it for good.
\<close>

lemma wire_pairs_dropped:
  assumes "set (pre @ d # post) \<subseteq> flow_pair ` set flows" and "distinct (pre @ d # post)" and "d \<in> dropped flows"
  shows "has_dep (fold (wire_pair flows) (pre @ d # post) T) d \<longleftrightarrow> 2 \<le> dep_count T d \<or>
    (\<exists>f\<in>set flows. d \<in> route_edges f \<and> flow_pair f \<in> set (d # post))"
proof -
  let ?T1 = "fold (wire_pair flows) pre T"
  let ?T2 = "wire_pair flows d ?T1"
  have d: "d \<in> flow_pair ` set flows" "set pre \<subseteq> flow_pair ` set flows" "set post \<subseteq> flow_pair ` set flows"
    "d \<notin> set pre" "d \<notin> set post" using assms(1,2) by auto
  obtain b where 1: "dep_count ?T1 d = at_least_one b (dep_count T d)" using wire_pairs [OF d(2)] d(4) by blast
  have 2: "0 < dep_count ?T2 d \<longleftrightarrow> (\<exists>f\<in>set flows. flow_pair f = d \<and> d \<in> route_edges f) \<or> 2 \<le> dep_count T d"
    unfolding wire_pair_spec(2) [OF d(1)] 1 using assms(3) by (auto simp: at_least_one_def)
  show ?thesis unfolding has_dep_count using wire_pairs [OF d(3), of d ?T2] d(5) 2 by auto
qed

text \<open>
  The result: a pair that is not dropped is a dependency iff it was one or lies on the route of
  a flow with hops; a pair on no route keeps its dependencies, except that a dropped pair loses one.
\<close>

lemma rewireDependencies_spec:
  shows "only_deps T (rewireDependencies flows T)"
    and "d \<notin> dropped flows \<Longrightarrow> has_dep (rewireDependencies flows T) d \<longleftrightarrow>
      has_dep T d \<or> (\<exists>f\<in>set flows. d \<in> route_edges f)"
    and "\<forall>f\<in>set flows. d \<notin> route_edges f \<Longrightarrow> dep_count (rewireDependencies flows T) d =
      dep_count T d - (if d \<in> dropped flows then 1 else 0)"
    and "d \<in> dropped flows \<Longrightarrow> has_dep (rewireDependencies flows T) d \<longleftrightarrow> 2 \<le> dep_count T d \<or>
      (\<exists>f\<in>set flows. d \<in> route_edges f \<and> flow_pair f \<notin> wired_before flows d)"
proof -
  let ?es = "first_occurrences (map flow_pair flows)"
  have es: "set ?es = flow_pair ` set flows" "distinct ?es" by simp_all
  have sub: "set ?es \<subseteq> flow_pair ` set flows" using es by simp
  show "only_deps T (rewireDependencies flows T)"
  proof -
    have "only_deps T (fold (wire_pair flows) xs T)" if "set xs \<subseteq> flow_pair ` set flows" for xs
      using that
    proof (induction xs arbitrary: T)
      case (Cons e xs)
      have "only_deps T (wire_pair flows e T)" using Cons.prems by (intro wire_pair_spec(1)) simp
      then show ?case using Cons.IH [of "wire_pair flows e T"] Cons.prems only_deps_trans by fastforce
    qed simp
    then show ?thesis unfolding rewireDependencies_def using sub by blast
  qed
  have split: "takeWhile (\<lambda>e. e \<noteq> d) ?es @ d # tl (dropWhile (\<lambda>e. e \<noteq> d) ?es) = ?es" if "d \<in> dropped flows"
  proof -
    have "d \<in> set ?es" using that unfolding es(1) dropped_def by blast
    then have "dropWhile (\<lambda>e. e \<noteq> d) ?es \<noteq> []" unfolding dropWhile_eq_Nil_conv by blast
    then obtain x xs where "dropWhile (\<lambda>e. e \<noteq> d) ?es = x # xs" by (cases "dropWhile (\<lambda>e. e \<noteq> d) ?es") auto
    moreover from this have "x = d" using hd_dropWhile [of "\<lambda>e. e \<noteq> d" ?es] by simp
    ultimately show ?thesis using takeWhile_dropWhile_id [of "\<lambda>e. e \<noteq> d" ?es] by simp
  qed
  show "d \<notin> dropped flows \<Longrightarrow> has_dep (rewireDependencies flows T) d \<longleftrightarrow>
      has_dep T d \<or> (\<exists>f\<in>set flows. d \<in> route_edges f)"
    unfolding rewireDependencies_def has_dep_count using wire_pairs [OF sub, of d T] es by auto
  show 4: "has_dep (rewireDependencies flows T) d \<longleftrightarrow> 2 \<le> dep_count T d \<or>
      (\<exists>f\<in>set flows. d \<in> route_edges f \<and> flow_pair f \<notin> wired_before flows d)" if d: "d \<in> dropped flows"
  proof -
    let ?a = "takeWhile (\<lambda>e. e \<noteq> d) ?es" and ?b = "tl (dropWhile (\<lambda>e. e \<noteq> d) ?es)"
    have abs: "set (?a @ d # ?b) \<subseteq> flow_pair ` set flows" "distinct (?a @ d # ?b)" using split [OF d] es by simp_all
    have "set ?es = set ?a \<union> set (d # ?b)" using arg_cong [OF split [OF d], of set] by auto
    then have "flow_pair f \<in> set (d # ?b) \<longleftrightarrow> flow_pair f \<notin> wired_before flows d" if "f \<in> set flows" for f
      using abs(2) es(1) that unfolding wired_before_def by auto
    then show ?thesis
      unfolding rewireDependencies_def using wire_pairs_dropped [OF abs d, of T] split [OF d] by auto
  qed
  show "dep_count (rewireDependencies flows T) d = dep_count T d - (if d \<in> dropped flows then 1 else 0)"
    if off: "\<forall>f\<in>set flows. d \<notin> route_edges f"
  proof (cases "d \<in> dropped flows")
    case False
    then show ?thesis unfolding rewireDependencies_def using wire_pairs [OF sub, of d T] off by auto
  next
    case True
    let ?a = "takeWhile (\<lambda>e. e \<noteq> d) ?es" and ?b = "tl (dropWhile (\<lambda>e. e \<noteq> d) ?es)"
    have abs: "set (?a @ d # ?b) \<subseteq> flow_pair ` set flows" "distinct (?a @ d # ?b)" using split [OF True] es by simp_all
    have 1: "dep_count (fold (wire_pair flows) ?a T) d = dep_count T d"
      using wire_pairs [of ?a flows d T] abs off by auto
    have 2: "dep_count (wire_pair flows d (fold (wire_pair flows) ?a T)) d = dep_count T d - 1"
      using wire_pair_spec(2) [of d flows "fold (wire_pair flows) ?a T" d] abs(1) off True 1 by auto
    have "dep_count (fold (wire_pair flows) (?a @ d # ?b) T) d = dep_count T d - 1"
      using wire_pairs [of ?b flows d "wire_pair flows d (fold (wire_pair flows) ?a T)"] abs off 2 by auto
    then show ?thesis unfolding rewireDependencies_def split [OF True] using True by simp
  qed
qed

section \<open>The whole of Step 1\<close>

definition unique_units :: "plan \<Rightarrow> ptr list \<Rightarrow> bool" where
  "unique_units P ss \<longleftrightarrow>
     (\<forall>s\<in>set ss. \<forall>t\<in>set ss. \<forall>u. unit_of P s = Some u \<and> unit_of P t = Some u \<longrightarrow> s = t)"

lemma expandDataFlows_success:
  assumes r: "expandDataFlows g p flows ss T P i = success (fs, st)"
    and abs: "tree_abs T F" "fresh_above T" and ss: "set ss = set (stages_of T F p)"
    and infos: "\<forall>s\<in>set ss. stage_infos P s \<noteq> None" and uniq: "unique_units P ss"
    and flows: "\<forall>f\<in>set flows. expandable (F p) f"
  shows "\<exists>F' T1. ex_tree st = rewireDependencies fs T1 \<and>
    tree_abs T1 F' \<and> tree_abs (ex_tree st) F' \<and> subseq (F p) (F' p) \<and> (\<forall>m. m \<noteq> p \<longrightarrow> F' m = F m) \<and>
    (\<forall>s\<in>set (F p). dependencies T1 s = dependencies T s) \<and>
    (\<forall>s\<in>set (F' p) - set (F p). dependencies T1 s = []) \<and>
    (\<forall>s\<in>set (F p). isStageNode (ex_tree st) s = isStageNode T s) \<and>
    (\<forall>s\<in>set (F p). operation_op (ex_tree st) s = operation_op T s) \<and>
    unique_units (ex_plan st) (stages_of (ex_tree st) F' p) \<and>
    (\<forall>s\<in>set (F p). stage_infos (ex_plan st) s = stage_infos P s) \<and>
    (\<forall>s\<in>set (F' p) - set (F p). isStageNode (ex_tree st) s \<and> operation_op (ex_tree st) s = None \<and>
      (\<exists>m u. stage_infos (ex_plan st) s = Some (synthetic_info m u))) \<and>
    list_all2 (covered g (ex_plan st)) flows fs \<and>
    (\<forall>f\<in>set fs. set (chain_stages f) \<subseteq> set (stages_of (ex_tree st) F' p))"
proof -
  obtain m st1 where m: "own_units P ss = Some m" and
    st1: "foldA (\<lambda>f (fs, st). attempt (expand_flow g p f st) (\<lambda>(f', st'). success (fs @ [f'], st'))) flows
      ([], \<lparr>ex_tree = T, ex_plan = P, unit_owner = m, last_inserted = (\<lambda>_. None), next_stage_id = i\<rparr>) = success (fs, st1)"
    "st = st1\<lparr>ex_tree := rewireDependencies fs (ex_tree st1)\<rparr>"
    using r by (auto simp: expandDataFlows_def split: Option.bind_splits)
  let ?st0 = "\<lparr>ex_tree = T, ex_plan = P, unit_owner = m, last_inserted = (\<lambda>_. None), next_stage_id = i\<rparr>"
  have owner: "m u = Some s \<longleftrightarrow> s \<in> set ss \<and> unit_of P s = Some u" for u s
    by (rule own_units_spec [OF m]) (use uniq in \<open>auto simp: unique_units_def\<close>)
  have E0: "expanding p F ?st0"
    by (rule expandingI [of _ T P]) (use abs infos owner ss in auto)
  obtain F' where X: "list_all2 (covered g (ex_plan st1)) flows fs" "expanding p F' st1" "grown p F ?st0 F' st1"
    "\<forall>f\<in>set fs. set (chain_stages f) \<subseteq> set (stages_of (ex_tree st1) F' p)"
    using expand_all [OF st1(1) E0 flows] by auto
  let ?T1 = "ex_tree st1" and ?T2 = "rewireDependencies fs (ex_tree st1)"
  note D = only_deps_fields [OF rewireDependencies_spec(1) [of ?T1 fs]]
  have T1: "tree_abs ?T1 F'" using X(2) by (simp add: expanding_def)
  then have T2: "tree_abs ?T2 F'" by (rule tree_abs_links_cong [OF _ D(4-6)])
  have "isStageNode ?T2 = isStageNode ?T1" by (rule ext) (simp add: isStageNode_def D(1))
  then have stages: "stages_of ?T2 F' p = stages_of ?T1 F' p" by (simp add: stages_of_def)
  note G = X(3) [unfolded grown_def, simplified]
  have deps: "dependencies ?T1 s = dependencies T s" if "s \<in> set (F p)" for s
    using G expanding_member [OF E0 that] by simp
  have none: "dependencies ?T1 s = []" if "s \<in> set (F' p) - set (F p)" for s
    using G that by (simp add: new_stage_def)
  have uniq': "unique_units (ex_plan st1) (stages_of ?T1 F' p)"
    using X(2) unfolding unique_units_def expanding_def by (metis option.inject)
  have new: "isStageNode ?T2 s \<and> operation_op ?T2 s = None \<and> (\<exists>m u. stage_infos (ex_plan st1) s = Some (synthetic_info m u))"
    if "s \<in> set (F' p) - set (F p)" for s
  proof -
    have "new_stage st1 s" using G that by blast
    then show ?thesis by (simp add: new_stage_def isStageNode_def D)
  qed
  have kept: "stage_infos (ex_plan st1) s = stage_infos P s" if "s \<in> set (F p)" for s
    using grown_infos(1) [OF E0 X(3) that] by simp
  have kinds: "isStageNode ?T2 s = isStageNode T s" if "s \<in> set (F p)" for s
    using G expanding_member [OF E0 that] by (simp add: isStageNode_def D)
  have ops: "operation_op ?T2 s = operation_op T s" if "s \<in> set (F p)" for s
    using G expanding_member [OF E0 that] by (simp add: D)
  have st: "ex_tree st = ?T2" "ex_plan st = ex_plan st1" using st1(2) by simp_all
  have uniq2: "unique_units (ex_plan st1) (stages_of ?T2 F' p)" unfolding stages by (rule uniq')
  have ch: "\<forall>f\<in>set fs. set (chain_stages f) \<subseteq> set (stages_of ?T2 F' p)" unfolding stages by (rule X(4))
  show ?thesis
    unfolding st
    by (intro exI [of _ F'] exI [of _ ?T1] conjI refl T1 T2 X(1) ch uniq2 ballI deps none kept kinds ops new [THEN conjunct1]
        new [THEN conjunct2, THEN conjunct1] new [THEN conjunct2, THEN conjunct2]) (use G in simp_all)
qed

section \<open>Properties\<close>

text \<open>C14: Rewiring, exactly: a pair of stages that has a flow without hops or no flow at all is a
  dependency afterwards if and only if it was one or is a step of the route of a flow with hops.
  A pair all of whose flows have hops loses one entry when its turn comes; it is a dependency
  afterwards if and only if it had two entries or it is a step of the route of a flow of that
  pair or a pair wired later. A pair on no route keeps its number of entries, less one if all of
  its flows have hops.\<close>

theorem rewireDependencies_edges:
  "only_deps T (rewireDependencies flows T) \<and>
   (\<forall>d. d \<notin> dropped flows \<longrightarrow> (has_dep (rewireDependencies flows T) d \<longleftrightarrow>
      has_dep T d \<or> (\<exists>f\<in>set flows. d \<in> route_edges f))) \<and>
   (\<forall>d. (\<forall>f\<in>set flows. d \<notin> route_edges f) \<longrightarrow> dep_count (rewireDependencies flows T) d =
      dep_count T d - (if d \<in> dropped flows then 1 else 0)) \<and>
   (\<forall>d\<in>dropped flows. has_dep (rewireDependencies flows T) d \<longleftrightarrow> 2 \<le> dep_count T d \<or>
      (\<exists>f\<in>set flows. d \<in> route_edges f \<and> flow_pair f \<notin> wired_before flows d))"
  using rewireDependencies_spec by blast

text \<open>
  Two tokens between the same two stages make two dependencies; only one of them is dropped.
\<close>

theorem rewire_keeps_second_dependency:
  assumes "d \<in> dropped flows" and "\<forall>f\<in>set flows. d \<notin> route_edges f" and "2 \<le> dep_count T d"
  shows "has_dep (rewireDependencies flows T) d"
  using rewireDependencies_spec(3) [OF assms(2), of T] assms(1,3) by (simp add: has_dep_count)

text \<open>
  A step of the route of a flow is lost when it is the direct dependency of a later pair all of
  whose flows have hops.
\<close>

lemma rewire_loses_step:
  assumes "d \<in> dropped flows" and "dep_count T d \<le> 1"
    and "\<forall>f\<in>set flows. d \<in> route_edges f \<longrightarrow> flow_pair f \<in> wired_before flows d"
  shows "\<not> has_dep (rewireDependencies flows T) d"
  using rewireDependencies_spec(4) [OF assms(1), of T] assms(2,3) by auto

definition pair_chained :: data_flow where
  "pair_chained = pair_routed\<lparr>chain_stages := [10]\<rparr>"

lemma pair_chained_edges: "route_edges pair_chained = {(3, 10), (10, 4)}" "dropped [pair_chained] = {(3, 4)}"
  by (auto simp: pair_chained_def pair_routed_def pair_flow_def new_flow_def route_edges_def has_chain_def
      flow_stages_def consecutive_def dropped_def flow_pair_def)

theorem rewireDependencies_edges_witness:
  "has_dep (rewireDependencies [pair_chained] pair_tree) (3, 10) \<and>
   has_dep (rewireDependencies [pair_chained] pair_tree) (10, 4) \<and>
   dep_count (rewireDependencies [pair_chained] pair_tree) (3, 4) = 0"
  using rewireDependencies_edges [of pair_tree "[pair_chained]"]
  by (simp add: pair_chained_edges) (simp add: dep_count_def pair_tree_def)

theorem rewire_keeps_second_dependency_witness:
  "has_dep (rewireDependencies [pair_chained] (pair_tree\<lparr>dependencies := (\<lambda>n. if n = 3 then [Some 4, Some 4] else [])\<rparr>)) (3, 4)"
  by (rule rewire_keeps_second_dependency) (simp_all add: pair_chained_edges dep_count_def)

text \<open>
  Flows 1 to 2 through the stages 3 and 4, and 3 to 4 through 5: wiring the second pair removes the step
  from 3 to 4 that the first flow needs.
\<close>

definition crossing_flows :: "data_flow list" where
  "crossing_flows = [pair_chained\<lparr>producer := 1, consumer := 2, chain_stages := [3, 4]\<rparr>,
     pair_chained\<lparr>producer := 3, consumer := 4, chain_stages := [5]\<rparr>]"

lemma crossing_flows_lose_step:
  assumes "dep_count T (3, 4) \<le> 1"
  shows "(3, 4) \<in> route_edges (hd crossing_flows) \<and> \<not> has_dep (rewireDependencies crossing_flows T) (3, 4)"
proof -
  have pairs: "map flow_pair crossing_flows = [(1, 2), (3, 4)]" by (simp add: crossing_flows_def flow_pair_def)
  have edges: "route_edges (hd crossing_flows) = {(1, 3), (3, 4), (4, 2)}" "route_edges (crossing_flows ! 1) = {(3, 5), (5, 4)}"
    by (auto simp: crossing_flows_def route_edges_def has_chain_def flow_stages_def consecutive_def)
  have fs: "set crossing_flows = {hd crossing_flows, crossing_flows ! 1}" by (simp add: crossing_flows_def)
  have drop: "(3, 4) \<in> dropped crossing_flows"
    by (auto simp: dropped_def crossing_flows_def flow_pair_def has_chain_def)
  have "flow_pair (hd crossing_flows) \<in> wired_before crossing_flows (3, 4)"
    unfolding wired_before_def pairs by (simp add: crossing_flows_def flow_pair_def first_occurrences_def)
  then have "\<forall>f\<in>set crossing_flows. (3, 4) \<in> route_edges f \<longrightarrow> flow_pair f \<in> wired_before crossing_flows (3, 4)"
    unfolding fs using edges by simp
  from rewire_loses_step [OF drop assms this] show ?thesis using edges(1) by simp
qed

end
