(* ===== verification/PlanOrder.thy ===== *)
theory PlanOrder
  imports PlanWire
begin

text \<open>
  The reordering of the stages after Step 1 of \<open>lib/Transforms/PathExpansion/Planner.cpp\<close>
  (\<open>orderStagesByDependencies\<close>), and the composition of the planner up to Step 1. The order
  found is the greedy one: at every position stands the first stage of the old order whose
  predecessors have all been placed; it exists exactly when the dependencies are acyclic, and it
  is the old order when that one respects the dependencies already.
\<close>

section \<open>The greedy order\<close>

definition pred_counts :: "('a \<Rightarrow> 'a list) \<Rightarrow> 'a list \<Rightarrow> 'a \<Rightarrow> int" where
  "pred_counts succ_of ns = fold (\<lambda>s. fold (\<lambda>d deg. deg(d := deg d + 1)) (succ_of s)) ns (\<lambda>_. 0)"

text \<open>
  The \<open>while\<close> loop; \<open>placed\<close> is the set of the elements of \<open>ordered\<close>. The counters are \<open>unsigned\<close>;
  they never go below zero, since a node is placed once.
\<close>

function order_loop ::
  "('a \<Rightarrow> 'a list) \<Rightarrow> 'a list \<Rightarrow> ('a \<Rightarrow> int) \<Rightarrow> 'a list \<Rightarrow> 'a list option" where
  "order_loop succ_of ns unplaced ordered =
     (if length ordered < length ns then
        (case find (\<lambda>s. s \<notin> set ordered \<and> unplaced s = 0) ns of
           None \<Rightarrow> None
         | Some s \<Rightarrow> order_loop succ_of ns (fold (\<lambda>d deg. deg(d := deg d - 1)) (succ_of s) unplaced)
                       (ordered @ [s]))
      else Some ordered)"
  by pat_completeness auto
termination
  by (relation "measure (\<lambda>(_, ns, _, ordered). length ns - length ordered)") auto

declare order_loop.simps [simp del]

text \<open>The first element of \<open>ns\<close> that is not placed and whose predecessors are.\<close>

definition first_ready :: "('a \<times> 'a) set \<Rightarrow> 'a list \<Rightarrow> 'a list \<Rightarrow> 'a option" where
  "first_ready r ns placed = find (\<lambda>s. s \<notin> set placed \<and> (\<forall>u. (u, s) \<in> r \<longrightarrow> u \<in> set placed)) ns"

definition greedy_prefix :: "('a \<times> 'a) set \<Rightarrow> 'a list \<Rightarrow> 'a list \<Rightarrow> bool" where
  "greedy_prefix r ns xs \<longleftrightarrow> (\<forall>as s bs. xs = as @ s # bs \<longrightarrow> first_ready r ns as = Some s)"

definition greedy_order :: "('a \<times> 'a) set \<Rightarrow> 'a list \<Rightarrow> 'a list \<Rightarrow> bool" where
  "greedy_order r ns xs \<longleftrightarrow> greedy_prefix r ns xs \<and> set xs = set ns"

lemma greedy_prefix_snoc:
  "greedy_prefix r ns (xs @ [x]) \<longleftrightarrow> greedy_prefix r ns xs \<and> first_ready r ns xs = Some x"
proof
  assume a: "greedy_prefix r ns (xs @ [x])"
  have "first_ready r ns as = Some s" if "xs = as @ s # bs" for as s bs
    using a that unfolding greedy_prefix_def by (metis append.assoc append_Cons)
  with a show "greedy_prefix r ns xs \<and> first_ready r ns xs = Some x" unfolding greedy_prefix_def by blast
next
  assume a: "greedy_prefix r ns xs \<and> first_ready r ns xs = Some x"
  show "greedy_prefix r ns (xs @ [x])"
    unfolding greedy_prefix_def
  proof (intro allI impI)
    fix as s bs assume "xs @ [x] = as @ s # bs"
    then show "first_ready r ns as = Some s"
      using a by (cases bs rule: rev_cases) (auto simp: greedy_prefix_def)
  qed
qed

lemma greedy_prefix_Nil [simp]: "greedy_prefix r ns []"
  by (simp add: greedy_prefix_def)

lemma first_ready_Some:
  "first_ready r ns xs = Some s \<Longrightarrow> s \<in> set ns \<and> s \<notin> set xs \<and> (\<forall>u. (u, s) \<in> r \<longrightarrow> u \<in> set xs)"
  by (auto simp: first_ready_def find_Some_iff)

lemma greedy_props:
  "greedy_prefix r ns xs \<Longrightarrow> distinct xs \<and> set xs \<subseteq> set ns \<and> topological r xs"
proof (induction xs rule: rev_induct)
  case (snoc x xs)
  then have "greedy_prefix r ns xs" "first_ready r ns xs = Some x" by (auto simp: greedy_prefix_snoc)
  with snoc.IH first_ready_Some [of r ns xs x] show ?case by (simp add: topological_snoc)
qed simp

text \<open>Two greedy prefixes of the same length agree.\<close>

lemma greedy_unique:
  "greedy_prefix r ns xs \<Longrightarrow> greedy_prefix r ns ys \<Longrightarrow> length xs = length ys \<Longrightarrow> xs = ys"
proof (induction xs arbitrary: ys rule: rev_induct)
  case (snoc x xs)
  then obtain zs z where ys: "ys = zs @ [z]" by (cases ys rule: rev_cases) auto
  with snoc have "xs = zs" by (simp add: greedy_prefix_snoc)
  with snoc.prems ys show ?case by (simp add: greedy_prefix_snoc)
qed simp

lemma greedy_order_length:
  assumes "greedy_order r ns xs" and "distinct ns"
  shows "length xs = length ns"
  using assms greedy_props [of r ns xs] by (metis distinct_card greedy_order_def)

text \<open>An order that respects the edges already is its own greedy order.\<close>

lemma topological_greedy:
  assumes "distinct ns" and "topological r ns"
  shows "greedy_order r ns ns"
  unfolding greedy_order_def greedy_prefix_def
proof (intro conjI allI impI refl)
  fix as s bs assume ns: "ns = as @ s # bs"
  have "\<forall>u. (u, s) \<in> r \<longrightarrow> u \<in> set as" using assms(2) ns unfolding topological_def by blast
  moreover have "s \<notin> set as" using assms(1) ns by simp
  moreover have "find P (zs @ s # bs) = Some s" if "\<forall>x\<in>set zs. \<not> P x" "P s" for P and zs
    using that by (induction zs) auto
  ultimately show "first_ready r ns as = Some s" unfolding first_ready_def ns by simp
qed

section \<open>The loop finds the greedy order\<close>

lemma decrement_all: "fold (\<lambda>d deg. deg(d := deg d - 1)) ds f v = f v - int (count_list ds v)"
  by (induction ds arbitrary: f) auto

lemma pred_counts_eq:
  assumes "distinct ns"
  shows "pred_counts succ_of ns v = indeg (set ns) (\<lambda>s. Some (succ_of s)) v"
proof -
  have inner: "fold (\<lambda>x deg. deg(x := deg x + 1)) ds f v = f v + int (count_list ds v)"
    for ds and f :: "'a \<Rightarrow> int" by (induction ds arbitrary: f) auto
  have "fold (\<lambda>s. fold (\<lambda>x deg. deg(x := deg x + 1)) (succ_of s)) ss f v =
      f v + (\<Sum>s\<leftarrow>ss. int (count_list (succ_of s) v))" for ss and f :: "'a \<Rightarrow> int"
    by (induction ss arbitrary: f) (simp_all add: inner)
  then show ?thesis using assms by (simp add: pred_counts_def indeg_def sum_list_distinct_conv_sum_set)
qed

lemma order_loop_correct:
  fixes succ_of :: "'a \<Rightarrow> 'a list"
  defines "sc \<equiv> \<lambda>s. Some (succ_of s)"
  assumes g: "closed_graph ns sc" and gr: "greedy_prefix (edges ns sc) ns ordered"
    and deg: "\<forall>v\<in>set ns. unplaced v = indeg (set ns - set ordered) sc v"
  shows "(order_loop succ_of ns unplaced ordered = None \<longleftrightarrow> \<not> acyclic (edges ns sc)) \<and>
    (\<forall>xs. order_loop succ_of ns unplaced ordered = Some xs \<longrightarrow> greedy_order (edges ns sc) ns xs)"
  using gr deg
proof (induction "length ns - length ordered" arbitrary: unplaced ordered rule: less_induct)
  case less
  let ?r = "edges ns sc"
  have d: "distinct ns" "distinct ordered" "set ordered \<subseteq> set ns" "topological ?r ordered"
    using g greedy_props [OF less.prems(1)] by (simp_all add: closed_graph_def)
  have inside: "snd ` ?r \<subseteq> set ns" using g by (fastforce simp: edges_def closed_graph_def)
  show ?case
  proof (cases "length ordered < length ns")
    case False
    have "length ordered = card (set ordered)" "length ns = card (set ns)" using d by (simp_all add: distinct_card)
    with False have "set ordered = set ns" using d(3) by (intro card_seteq) auto
    moreover have "acyclic ?r" using topological_acyclic [OF d(4)] inside calculation by simp
    ultimately show ?thesis
      using False less.prems(1) by (subst (1 2) order_loop.simps) (simp add: greedy_order_def)
  next
    case True
    have ready: "unplaced s = 0 \<longleftrightarrow> (\<forall>u. (u, s) \<in> ?r \<longrightarrow> u \<in> set ordered)" if "s \<in> set ns" for s
      using that less.prems(2) indeg_zero [of "set ns - set ordered" sc s] by (auto simp: edges_def sc_def)
    have fr: "find (\<lambda>s. s \<notin> set ordered \<and> unplaced s = 0) ns = first_ready ?r ns ordered"
      unfolding first_ready_def by (rule find_cong) (use ready in auto)
    show ?thesis
    proof (cases "first_ready ?r ns ordered")
      case None
      have "\<not> acyclic ?r"
      proof
        assume ac: "acyclic ?r"
        have "finite ?r"
          by (rule finite_subset [of _ "set ns \<times> (\<Union>u\<in>set ns. set (the (sc u)))"]) (auto simp: edges_def)
        then have wf: "wf ?r" using ac by (rule finite_acyclic_wf)
        have "set ordered \<noteq> set ns" using True d by (metis distinct_card less_irrefl)
        then obtain x where "x \<in> set ns - set ordered" using d(3) by blast
        then obtain v where v: "v \<in> set ns - set ordered"
          and m: "\<And>u. (u, v) \<in> ?r \<Longrightarrow> u \<notin> set ns - set ordered"
          using wf unfolding wf_eq_minimal by metis
        then have "\<forall>u. (u, v) \<in> ?r \<longrightarrow> u \<in> set ordered" by (auto simp: edges_def)
        then show False using None v by (auto simp: first_ready_def find_None_iff)
      qed
      then show ?thesis using True None fr by (subst (1 2) order_loop.simps) simp
    next
      case (Some s)
      let ?un = "fold (\<lambda>d deg. deg(d := deg d - 1)) (succ_of s) unplaced"
      have s: "s \<in> set ns" "s \<notin> set ordered" using first_ready_Some [OF Some] by blast+
      have step: "order_loop succ_of ns unplaced ordered = order_loop succ_of ns ?un (ordered @ [s])"
        using True Some fr by (subst order_loop.simps) simp
      have gp: "greedy_prefix ?r ns (ordered @ [s])" using less.prems(1) Some by (simp add: greedy_prefix_snoc)
      have "\<forall>v\<in>set ns. ?un v = indeg (set ns - set (ordered @ [s])) sc v"
      proof
        fix v assume "v \<in> set ns"
        moreover have "set ns - set (ordered @ [s]) = set ns - set ordered - {s}" by auto
        ultimately show "?un v = indeg (set ns - set (ordered @ [s])) sc v"
          using less.prems(2) indeg_remove [of "set ns - set ordered" s sc v] s by (simp add: decrement_all sc_def)
      qed
      moreover have "length ns - length (ordered @ [s]) < length ns - length ordered" using True by simp
      ultimately show ?thesis unfolding step using less.hyps gp by blast
    qed
  qed
qed

section \<open>Re-linking the stages\<close>

definition unlink_all :: "ptr list \<Rightarrow> ptree \<Rightarrow> ptree option" where
  "unlink_all = foldM (\<lambda>s T. unlink T s)"

definition insert_next :: "ptr \<Rightarrow> ptr \<Rightarrow> ptree \<times> ptr option \<Rightarrow> (ptree \<times> ptr option) option" where
  "insert_next pipeline s x =
     do { T1 \<leftarrow> (case snd x of
                   Some q \<Rightarrow> insertChildNode (fst x) pipeline s (Some q)
                 | None \<Rightarrow> Some (insertAsFirstChild (fst x) pipeline s));
          Some (T1, Some s) }"

definition relink :: "ptr \<Rightarrow> ptr list \<Rightarrow> ptr list \<Rightarrow> ptree \<Rightarrow> ptree option" where
  "relink pipeline stages ordered T =
     do { pos \<leftarrow> getPrevSibling T (hd stages);
          T1 \<leftarrow> unlink_all stages T;
          (T2, _) \<leftarrow> foldM (insert_next pipeline) ordered (T1, pos);
          Some T2 }"

definition orderStagesByDependencies :: "ptr \<Rightarrow> ptree \<Rightarrow> ptree outcome" where
  "orderStagesByDependencies pipeline T =
     do { stages \<leftarrow> getStages T pipeline;
          if stages = [] then success T
          else (case order_loop (succs T) stages (pred_counts (succs T) stages) [] of
                  None \<Rightarrow> failure
                | Some ordered \<Rightarrow>
                    if ordered = stages then success T
                    else do { T1 \<leftarrow> relink pipeline stages ordered T; success T1 }) }"

lemma unlink_all_abs:
  assumes "tree_abs T F" and "distinct ss" and "set ss \<subseteq> set (F n)"
  shows "\<exists>T'. unlink_all ss T = Some T' \<and> same_rest T T' \<and>
    tree_abs T' (F(n := filter (\<lambda>x. x \<notin> set ss) (F n)))"
  using assms
proof (induction ss arbitrary: T F)
  case Nil
  have "F(n := filter (\<lambda>x. x \<notin> set []) (F n)) = F" by simp
  with Nil.prems(1) show ?case by (simp add: unlink_all_def)
next
  case (Cons s ss)
  have "s \<in> set (F n)" using Cons.prems(3) by simp
  then obtain T1 where T1: "unlink T s = Some T1" "tree_abs T1 (F(n := remove1 s (F n)))"
    using op_tree.detach_law [OF Cons.prems(1)] by blast
  have d: "distinct (F n)" using Cons.prems(1) by (rule tree_abs_distinct)
  have "distinct ss" "set ss \<subseteq> set ((F(n := remove1 s (F n))) n)" using Cons.prems(2,3) d by auto
  from Cons.IH [OF T1(2) this] obtain T2 where T2: "unlink_all ss T1 = Some T2" "same_rest T1 T2"
    "tree_abs T2 ((F(n := remove1 s (F n)))(n := filter (\<lambda>x. x \<notin> set ss) ((F(n := remove1 s (F n))) n)))"
    by blast
  have "(F(n := remove1 s (F n)))(n := filter (\<lambda>x. x \<notin> set ss) ((F(n := remove1 s (F n))) n)) =
      F(n := filter (\<lambda>x. x \<notin> set (s # ss)) (F n))"
    using d by (auto simp: fun_eq_iff distinct_remove1_removeAll removeAll_filter_not_eq intro: filter_cong)
  with T2(3) have abs2: "tree_abs T2 (F(n := filter (\<lambda>x. x \<notin> set (s # ss)) (F n)))" by (simp only:)
  have "unlink_all (s # ss) T = Some T2" using T1(1) T2(1) by (simp add: unlink_all_def)
  with abs2 same_rest_trans [OF unlink_rest [OF T1(1)] T2(2)] show ?case by blast
qed

text \<open>Once there is a position, every stage goes right after the one before.\<close>

lemma insert_next_rest: "insert_next n s x = Some y \<Longrightarrow> same_rest (fst x) (fst y)"
  by (cases "snd x") (auto simp: insert_next_def intro: rest_intros split: Option.bind_splits)

lemma insert_all_rest: "foldM (insert_next n) cs x = Some y \<Longrightarrow> same_rest (fst x) (fst y)"
proof (induction cs arbitrary: x)
  case (Cons c cs)
  then obtain z where z: "insert_next n c x = Some z" "foldM (insert_next n) cs z = Some y"
    by (auto split: Option.bind_splits)
  show ?case by (rule same_rest_trans [OF insert_next_rest [OF z(1)] Cons.IH [OF z(2)]])
qed simp

lemma insert_next_placed:
  "foldM (insert_next n) cs (T, Some p) =
     map_option (map_prod id Some)
       (foldM (\<lambda>c (h, q). Option.bind (insertChildNode h n c (Some q)) (\<lambda>h1. Some (h1, c))) cs (T, p))"
proof (induction cs arbitrary: T p)
  case (Cons c cs)
  have step: "insert_next n c (T, Some p) = map_option (\<lambda>T1. (T1, Some c)) (insertChildNode T n c (Some p))"
    by (cases "insertChildNode T n c (Some p)") (simp_all add: insert_next_def)
  show ?case
    by (cases "insertChildNode T n c (Some p)") (simp_all add: step Cons.IH)
qed simp

lemma place_after:
  assumes "tree_abs T F" and "distinct cs" and "\<And>c m. c \<in> set cs \<Longrightarrow> c \<notin> set (F m)"
    and F: "F n = as @ p # bs" "p \<notin> set as"
  shows "\<exists>T'. foldM (insert_next n) cs (T, Some p) = Some (T', Some (last (p # cs))) \<and>
    tree_abs T' (F(n := as @ p # cs @ bs))"
proof -
  have p: "p \<in> set (F n)" using F by simp
  have "splice_at p (p # cs) (F n) = as @ p # cs @ bs" using F by (simp add: splice_at_split)
  with op_tree.place_law [OF assms(1-3) p] show ?thesis
    unfolding insert_next_placed by auto
qed

lemma place_first:
  assumes "tree_abs T F" and "distinct cs" and free: "\<And>c m. c \<in> set cs \<Longrightarrow> c \<notin> set (F m)"
  shows "\<exists>T' q. foldM (insert_next n) cs (T, None) = Some (T', q) \<and> tree_abs T' (F(n := cs @ F n))"
proof (cases cs)
  case Nil
  have "F(n := [] @ F n) = F" by simp
  with Nil assms(1) show ?thesis by simp
next
  case (Cons c ds)
  have "parent_node T c = None" using free Cons tree_abs_orphan_iff [OF assms(1)] by simp
  then have a: "tree_abs (insertAsFirstChild T n c) (F(n := c # F n))"
    using insertAsFirstChild_abs [OF assms(1)] by blast
  have f: "d \<notin> set ((F(n := c # F n)) m)" if "d \<in> set ds" for d m
    using that free [of d] assms(2) Cons by auto
  have "\<exists>T'. foldM (insert_next n) ds (insertAsFirstChild T n c, Some c) = Some (T', Some (last (c # ds))) \<and>
      tree_abs T' ((F(n := c # F n))(n := [] @ c # ds @ F n))"
    by (rule place_after [OF a _ f]) (use assms(2) Cons in auto)
  then show ?thesis using Cons by (auto simp: insert_next_def)
qed

text \<open>The children of the pipeline with the stages replaced, at the place of the first, by a list.\<close>

definition restaged :: "ptree \<Rightarrow> ptr list \<Rightarrow> ptr list \<Rightarrow> ptr list" where
  "restaged T ordered children =
     takeWhile (\<lambda>x. \<not> isStageNode T x) children @ ordered @
       filter (\<lambda>x. \<not> isStageNode T x) (dropWhile (\<lambda>x. \<not> isStageNode T x) children)"

lemma relink_abs:
  assumes abs: "tree_abs T F" and ne: "stages_of T F p \<noteq> []"
    and ord: "distinct ordered" "set ordered = set (stages_of T F p)"
  shows "\<exists>T'. relink p (stages_of T F p) ordered T = Some T' \<and> same_rest T T' \<and>
    tree_abs T' (F(p := restaged T ordered (F p)))"
proof -
  let ?st = "stages_of T F p" and ?no = "\<lambda>x. \<not> isStageNode T x"
  obtain f fs where st: "?st = f # fs" using ne by (cases ?st) auto
  then obtain as bs where F: "F p = as @ f # bs" "\<forall>x\<in>set as. ?no x" "isStageNode T f"
    by (auto simp: stages_of_def filter_eq_Cons_iff)
  have d: "distinct (F p)" using abs by (rule tree_abs_distinct)
  have fas: "f \<notin> set as" using d F(1) by simp
  have pos: "getPrevSibling T f = Some (if as = [] then None else Some (last as))"
  proof -
    have "parent_node T f = Some p" using F(1) tree_abs_parent [OF abs, of f p] by simp
    from getPrevSibling_abs [OF abs this] show ?thesis using left_of_split [OF fas] F(1) by simp
  qed
  have sub: "set ?st \<subseteq> set (F p)" "distinct ?st" using d by (auto simp: stages_of_def)
  obtain T1 where T1: "unlink_all ?st T = Some T1" "same_rest T T1"
    "tree_abs T1 (F(p := filter (\<lambda>x. x \<notin> set ?st) (F p)))"
    using unlink_all_abs [OF abs sub(2,1)] by blast
  let ?rest = "filter ?no bs"
  have rest: "filter (\<lambda>x. x \<notin> set ?st) (F p) = as @ ?rest"
  proof -
    have "filter (\<lambda>x. x \<notin> set ?st) (F p) = filter ?no (F p)"
      by (rule filter_cong) (simp_all add: stages_of_def)
    then show ?thesis using F by simp
  qed
  have re: "restaged T ordered (F p) = as @ ordered @ ?rest"
  proof -
    have "takeWhile ?no (as @ f # bs) = as" "dropWhile ?no (as @ f # bs) = f # bs"
      using F(2,3) by (simp_all add: takeWhile_append2 dropWhile_append2)
    then show ?thesis using F(1,3) by (simp add: restaged_def)
  qed
  let ?F1 = "F(p := as @ ?rest)"
  have abs1: "tree_abs T1 ?F1" using T1(3) unfolding rest .
  have free: "c \<notin> set (?F1 m)" if "c \<in> set ordered" for c m
  proof -
    have c: "c \<in> set ?st" "c \<in> set (F p)" using that ord(2) sub(1) by auto
    show ?thesis
    proof (cases "m = p")
      case True
      then show ?thesis using c(1) F(2) by (auto simp: stages_of_def)
    next
      case False
      then show ?thesis using tree_abs_other [OF abs c(2)] by simp
    qed
  qed
  obtain T2 q where T2: "foldM (insert_next p) ordered (T1, if as = [] then None else Some (last as)) = Some (T2, q)"
    "tree_abs T2 (F(p := restaged T ordered (F p)))"
  proof (cases "as = []")
    case True
    then have eq: "?F1(p := ordered @ ?F1 p) = F(p := restaged T ordered (F p))" using re by simp
    from place_first [OF abs1 ord(1) free, of p] obtain T2 q
      where "foldM (insert_next p) ordered (T1, None) = Some (T2, q)" "tree_abs T2 (F(p := restaged T ordered (F p)))"
      unfolding eq by blast
    then show ?thesis using that True by simp
  next
    case False
    then obtain zs z where as: "as = zs @ [z]" by (cases as rule: rev_cases) auto
    have z: "z \<notin> set zs" "?F1 p = zs @ z # ?rest" using d F(1) as by simp_all
    have eq: "?F1(p := zs @ z # ordered @ ?rest) = F(p := restaged T ordered (F p))" using re as by simp
    from place_after [OF abs1 ord(1) free z(2,1)] obtain T2
      where "foldM (insert_next p) ordered (T1, Some z) = Some (T2, Some (last (z # ordered)))"
        "tree_abs T2 (F(p := restaged T ordered (F p)))"
      unfolding eq by blast
    then show ?thesis using that as by simp
  qed
  have "relink p ?st ordered T = Some T2"
    using pos T1(1) T2(1) st by (simp add: relink_def)
  moreover have "same_rest T T2" using same_rest_trans [OF T1(2)] insert_all_rest [OF T2(1)] by simp
  ultimately show ?thesis using T2(2) by blast
qed

lemma orderStagesByDependencies_sound:
  assumes abs: "tree_abs T F" and deps: "deps_inside T (stages_of T F p)"
  defines "st \<equiv> stages_of T F p" and "r \<equiv> unblocks T (stages_of T F p)"
  shows "\<exists>out. orderStagesByDependencies p T = Some out \<and> (out = None \<longleftrightarrow> \<not> acyclic r) \<and>
    (\<forall>T'. out = Some T' \<longrightarrow> same_rest T T' \<and>
       (\<exists>ord. greedy_order r st ord \<and>
          tree_abs T' (F(p := if ord = st then F p else restaged T ord (F p)))))"
proof -
  let ?sc = "\<lambda>s. Some (succs T s)"
  have gs: "getStages T p = Some st" using getStages_abs [OF abs] by (simp add: st_def stages_of_def)
  have d: "distinct st" using tree_abs_distinct [OF abs] by (simp add: st_def stages_of_def)
  have e: "edges st ?sc = r" by (auto simp: edges_def r_def st_def unblocks_def set_succs)
  have cg: "closed_graph st ?sc"
    using deps d by (auto simp: closed_graph_def set_succs st_def dest: deps_are_stages)
  show ?thesis
  proof (cases "st = []")
    case True
    then have "r = {}" by (simp add: r_def st_def [symmetric] unblocks_def)
    moreover have "greedy_order r [] []" by (simp add: greedy_order_def)
    ultimately show ?thesis using True gs abs by (auto simp: orderStagesByDependencies_def acyclic_def)
  next
    case False
    let ?ord = "order_loop (succs T) st (pred_counts (succs T) st) []"
    have O: "?ord = None \<longleftrightarrow> \<not> acyclic r" "\<And>xs. ?ord = Some xs \<Longrightarrow> greedy_order r st xs"
      using order_loop_correct [OF cg, of "[]" "pred_counts (succs T) st"] pred_counts_eq [OF d]
      by (simp_all add: e)
    show ?thesis
    proof (cases ?ord)
      case None
      then show ?thesis using False gs O(1) by (auto simp: orderStagesByDependencies_def)
    next
      case (Some ord)
      note G = O(2) [OF Some]
      have G': "distinct ord" "set ord = set st"
        using G greedy_props [of r st ord] by (simp_all add: greedy_order_def)
      show ?thesis
      proof (cases "ord = st")
        case True
        then show ?thesis using False gs O(1) Some G abs
          by (auto simp: orderStagesByDependencies_def intro!: exI [of _ ord])
      next
        case ne: False
        obtain T' where T': "relink p st ord T = Some T'" "same_rest T T'"
          "tree_abs T' (F(p := restaged T ord (F p)))"
          using relink_abs [OF abs _ G'(1), of p] G'(2) False by (auto simp: st_def)
        then show ?thesis using False gs O(1) Some G ne
          by (auto simp: orderStagesByDependencies_def intro!: exI [of _ ord])
      qed
    qed
  qed
qed

lemma restaged_stages:
  assumes "set ordered = set (filter (isStageNode T) children)"
  shows "filter (isStageNode T) (restaged T ordered children) = ordered"
    and "set (restaged T ordered children) = set children"
proof -
  let ?no = "\<lambda>x. \<not> isStageNode T x"
  have a: "filter (isStageNode T) (takeWhile ?no children) = []" by (auto simp: filter_empty_conv dest: set_takeWhileD)
  have b: "filter (isStageNode T) ordered = ordered" using assms by (intro filter_True) auto
  show "filter (isStageNode T) (restaged T ordered children) = ordered"
    by (simp add: restaged_def a b)
  have "set children = set (takeWhile ?no children) \<union> set (dropWhile ?no children)"
    by (metis set_append takeWhile_dropWhile_id)
  moreover have "set (filter (isStageNode T) children) = set (filter (isStageNode T) (dropWhile ?no children))"
    using a by (metis append_Nil filter_append takeWhile_dropWhile_id)
  ultimately show "set (restaged T ordered children) = set children"
    using assms by (auto simp: restaged_def)
qed

section \<open>Properties\<close>

text \<open>C9: \<open>orderStagesByDependencies\<close> fails exactly on a cycle; otherwise it re-links the
  stages, at the place of the first one, in the greedy order: at every position stands the first
  stage of the old order whose predecessors have all been placed.\<close>

theorem orderStagesByDependencies_greedy:
  assumes "tree_abs T F" and "deps_inside T (stages_of T F p)"
  shows "\<exists>out. orderStagesByDependencies p T = Some out \<and>
    (out = None \<longleftrightarrow> \<not> acyclic (unblocks T (stages_of T F p))) \<and>
    (\<forall>T'. out = Some T' \<longrightarrow> same_rest T T' \<and>
       (\<exists>ord. greedy_order (unblocks T (stages_of T F p)) (stages_of T F p) ord \<and>
          tree_abs T' (F(p := if ord = stages_of T F p then F p else restaged T ord (F p)))))"
  using assms by (rule orderStagesByDependencies_sound)

theorem ordered_pipeline_kept:
  assumes "tree_abs T F" and "deps_inside T (stages_of T F p)"
    and "topological (unblocks T (stages_of T F p)) (stages_of T F p)"
  shows "orderStagesByDependencies p T = success T"
proof -
  let ?st = "stages_of T F p"
  have gs: "getStages T p = Some ?st" using getStages_abs [OF assms(1)] by (simp add: stages_of_def)
  have d: "distinct ?st" using tree_abs_distinct [OF assms(1)] by (simp add: stages_of_def)
  let ?sc = "\<lambda>s. Some (succs T s)"
  have e: "edges ?st ?sc = unblocks T ?st" by (auto simp: edges_def unblocks_def set_succs)
  have cg: "closed_graph ?st ?sc"
    using assms(2) d by (auto simp: closed_graph_def set_succs dest: deps_are_stages)
  let ?o = "order_loop (succs T) ?st (pred_counts (succs T) ?st) []"
  have O: "?o = None \<longleftrightarrow> \<not> acyclic (unblocks T ?st)" "\<And>xs. ?o = Some xs \<Longrightarrow> greedy_order (unblocks T ?st) ?st xs"
    using order_loop_correct [OF cg, of "[]" "pred_counts (succs T) ?st"] pred_counts_eq [OF d]
    by (simp_all add: e)
  have "snd ` unblocks T ?st \<subseteq> set ?st" using assms(2) by (fastforce simp: unblocks_def deps_inside_def)
  then have "acyclic (unblocks T ?st)" using topological_acyclic assms(3) by blast
  then obtain xs where xs: "?o = Some xs" "greedy_order (unblocks T ?st) ?st xs" using O by (cases ?o) simp_all
  have "xs = ?st"
    using xs(2) [unfolded greedy_order_def, THEN conjunct1]
      topological_greedy [OF d assms(3), unfolded greedy_order_def, THEN conjunct1]
      greedy_order_length [OF xs(2) d] by (rule greedy_unique)
  then show ?thesis using gs xs(1) by (simp add: orderStagesByDependencies_def)
qed

text \<open>The small pipeline with the dependency the other way round.\<close>

definition swapped_tree :: ptree where
  "swapped_tree = pair_tree\<lparr>dependencies := (\<lambda>n. if n = 4 then [Some 3] else [])\<rparr>"

lemma swapped_abs: "tree_abs swapped_tree pair_children"
  by (rule tree_abs_links_cong [OF pair_tree_abs]) (simp_all add: swapped_tree_def)

lemma swapped_stages: "stages_of swapped_tree pair_children 9 = [3, 4]"
  using pair_tree_stages by (simp add: stages_of_def isStageNode_def [abs_def] swapped_tree_def)

lemma swapped_unblocks: "unblocks swapped_tree [3, 4] = {(4, 3)}" "deps_inside swapped_tree [3, 4]"
  by (auto simp: unblocks_def swapped_tree_def deps_inside_def split: if_splits)

theorem orderStagesByDependencies_greedy_witness:
  "\<exists>T'. orderStagesByDependencies 9 swapped_tree = success T' \<and> tree_abs T' (pair_children(9 := [4, 3]))"
proof -
  have t: "{(4, 3)}\<^sup>+ = {(4 :: ptr, 3)}" by (simp add: trancl_insert)
  have ac: "acyclic {(4 :: ptr, 3)}" by (simp add: acyclic_def t)
  obtain T' ord where T': "orderStagesByDependencies 9 swapped_tree = success T'"
    "greedy_order {(4, 3)} [3, 4] ord"
    "tree_abs T' (pair_children(9 := if ord = [3, 4] then pair_children 9 else restaged swapped_tree ord (pair_children 9)))"
    using orderStagesByDependencies_greedy [OF swapped_abs, of 9] ac
    unfolding swapped_stages swapped_unblocks(1) by (auto simp: swapped_unblocks(2))
  have "greedy_prefix {(4, 3)} [3, 4] [4 :: ptr, 3]"
    using greedy_prefix_snoc [of "{(4, 3)}" "[3, 4]" "[4]" "3 :: ptr"] greedy_prefix_snoc [of "{(4, 3)}" "[3, 4]" "[]" "4 :: ptr"]
    by (simp add: first_ready_def)
  moreover have "length ord = 2" using greedy_order_length [OF T'(2)] by simp
  ultimately have "ord = [4, 3]"
    using greedy_unique [of "{(4, 3)}" "[3, 4]" ord "[4, 3]"] T'(2) by (simp add: greedy_order_def)
  moreover have "restaged swapped_tree [4, 3] (pair_children 9) = [4, 3]"
    by (simp add: restaged_def pair_children_def isStageNode_def swapped_tree_def pair_tree_def)
  ultimately have "tree_abs T' (pair_children(9 := [4, 3]))" using T'(3) by simp
  with T'(1) show ?thesis by (intro exI conjI)
qed

theorem ordered_pipeline_kept_witness: "orderStagesByDependencies 9 pair_tree = success pair_tree"
proof -
  have "topological {(3, 4)} [3 :: ptr, 4]"
    using topological_snoc [of "{(3, 4)}" "[3]" "4 :: ptr"] topological_snoc [of "{(3, 4)}" "[]" "3 :: ptr"] by simp
  then show ?thesis
    using ordered_pipeline_kept [OF pair_tree_abs, of 9] pair_tree_deps
    by (simp only: pair_tree_stages pair_tree_unblocks)
qed

end
