(* ===== verification/PlanRun.thy ===== *)
theory PlanRun
  imports PlanOrder "HOL-Library.Multiset"
begin

text \<open>
  The planner of \<open>lib/Transforms/PathExpansion/Planner.cpp\<close> from its entry point
  \<open>planPathExpansion\<close> to the end of Step 1 of \<open>buildExpansionPlan\<close>: the preparation steps, the
  expansion of the flows, the reordering, the second sort, and the check of the units. The main
  theorem composes the theorems of the parts: what holds of the tree and the plan that Step 1
  leaves. Steps 2, 2b and 3, which fill in the transfers of the stages, are in \<open>PlanTransfers\<close>, where
  \<open>planWithTransfers\<close> puts the planner together.
\<close>

section \<open>Orchestration\<close>

definition use_unit :: "plan \<Rightarrow> ptr \<Rightarrow> resource set \<Rightarrow> resource set outcome" where
  "use_unit P s used_units =
     do { i \<leftarrow> getStageInfo P s;
          (case applicable_unit i of
             None \<Rightarrow> success used_units
           | Some u \<Rightarrow> (if u \<in> used_units then failure else success (insert u used_units))) }"

text \<open>
  The result: the tree, the plan, the flows, the stages of the plan in order, and the ends of the
  FIFO slots.
\<close>

record planned =
  pl_tree :: ptree
  pl_plan :: plan
  pl_flows :: "data_flow list"
  pl_stages :: "ptr list"
  pl_ends :: fifo_endpoints

definition buildExpansionPlan ::
  "routing_graph \<Rightarrow> ptr \<Rightarrow> data_flow list \<Rightarrow> fifo_endpoints \<Rightarrow> ptr list \<Rightarrow> ptree \<Rightarrow> plan \<Rightarrow> int \<Rightarrow>
   planned outcome" where
  "buildExpansionPlan g pipeline flows E sorted_stages T P stage_id =
     (if duplicate E \<noteq> None then failure
      else attempt (expandDataFlows g pipeline flows sorted_stages T P stage_id) (\<lambda>(fs, st).
        attempt (orderStagesByDependencies pipeline (ex_tree st)) (\<lambda>T1.
        attempt (topologicalSortStages T1 (Some pipeline)) (\<lambda>expanded_stages.
        attempt (foldA (use_unit (ex_plan st)) expanded_stages {}) (\<lambda>_.
        success \<lparr>pl_tree = T1, pl_plan = ex_plan st, pl_flows = fs, pl_stages = expanded_stages,
          pl_ends = E\<rparr>)))))"

definition empty_plan :: plan where
  "empty_plan = \<lparr>stage_infos = (\<lambda>_. None), changed = False\<rparr>"

definition planPathExpansion ::
  "planner_ir \<Rightarrow> routing_graph \<Rightarrow> ptree \<Rightarrow> ptr \<Rightarrow> planned outcome" where
  "planPathExpansion ir g T pipeline =
     attempt (sortAndValidateStages ir g T pipeline) (\<lambda>(sorted_stages, sides).
     attempt (assignOriginalStageResources ir g T sorted_stages sides empty_plan) (\<lambda>P1.
     do { E \<leftarrow> collectFifoEndpoints ir T sorted_stages;
          flows \<leftarrow> collectDataFlows ir T sorted_stages E;
          attempt (routeDataFlows sides g P1 flows) (\<lambda>routed_flows.
          attempt (assignOriginalStageUnits g routed_flows sorted_stages P1) (\<lambda>P2.
          do { expand \<leftarrow> needsExpansion g routed_flows;
               if \<not> expand
               then success \<lparr>pl_tree = T, pl_plan = P2\<lparr>changed := False\<rparr>, pl_flows = routed_flows,
                             pl_stages = sorted_stages, pl_ends = E\<rparr>
               else buildExpansionPlan g pipeline routed_flows E sorted_stages T (P2\<lparr>changed := True\<rparr>)
                      (int (length sorted_stages)) })) }))"

section \<open>The pieces of a successful run\<close>

lemma sortAndValidateStages_sorted:
  assumes "sortAndValidateStages ir g T p = success (ss, sides)"
    and "tree_abs T F" and "deps_inside T (stages_of T F p)"
  shows "distinct ss \<and> set ss = set (stages_of T F p) \<and> topological (unblocks T (stages_of T F p)) ss"
proof -
  have "topologicalSortStages T (Some p) = success ss"
    using assms(1) by (auto simp: sortAndValidateStages_def)
  with topologicalSortStages_sound [OF assms(2,3)] show ?thesis by auto
qed

lemma carried_located: "carried ir sbl v x y \<Longrightarrow> x \<in> set sbl \<and> y \<in> set sbl"
proof -
  assume c: "carried ir sbl v x y"
  have "set (uses_at (occurrences sbl) v) \<subseteq> set sbl" by (auto simp: uses_at_def occurrences_def)
  with c show ?thesis unfolding carried_def by (auto split: if_splits)
qed

lemma flows_between_stages:
  assumes "collectFifoEndpoints ir T ss = Some E" and "collectDataFlows ir T ss E = Some flows"
    and sb: "stage_bodies ir T ss = Some sbs" and wf: "bodies_wf ir (located sbs)" and "duplicate E = None"
    and f: "f \<in> set flows"
  shows "producer f \<in> set ss \<and> consumer f \<in> set ss \<and> unrouted f \<and> has_dep T (flow_pair f)"
proof -
  have E: "E = all_ends ir (located sbs)" using assms(1) collectFifoEndpoints_eq [OF sb] by simp
  have nd: "duplicate (all_ends ir (located sbs)) = None" using assms(5) by (simp add: E)
  obtain v x y where f: "f = new_flow v x y" "carried ir (located sbs) v x y"
    "Some (fst y) \<in> set (dependencies T (fst x))"
    using collectDataFlows_exact [OF sb wf nd] assms(2) f unfolding E by auto
  have "s \<in> set ss" if "(s, b) \<in> set (located sbs)" for s b
    using that sb by (auto simp: in_located stage_bodies_eq split: if_splits)
  then have "fst x \<in> set ss" "fst y \<in> set ss" using carried_located [OF f(2)] by (metis prod.collapse)+
  then show ?thesis using f by (simp add: new_flow_def unrouted_def has_dep_def flow_pair_def)
qed

lemma routed_ends:
  assumes "routed sides g P f f'"
  shows "producer f' = producer f" and "consumer f' = consumer f" and "chain_stages f' = chain_stages f"
    and "boundaries f' = boundaries f"
proof -
  have "f' = f\<lparr>path := path f', producer_end := producer_end f', consumer_begin := consumer_begin f',
      producer_unit := producer_unit f', consumer_unit := consumer_unit f'\<rparr>"
    using assms unfolding routed_def by blast
  note e = arg_cong [OF this]
  show "producer f' = producer f" using e [of producer] by simp
  show "consumer f' = consumer f" using e [of consumer] by simp
  show "chain_stages f' = chain_stages f" using e [of chain_stages] by simp
  show "boundaries f' = boundaries f" using e [of boundaries] by simp
qed

lemma covered_ends:
  assumes "covered g P f f'"
  shows "producer f' = producer f" and "consumer f' = consumer f"
proof -
  obtain hs where "f' = f\<lparr>chain_stages := chain_stages f',
      boundaries := (if hs = [] then [] else middleBegin f # hop_ends (middleBegin f) hs)\<rparr>"
    using assms unfolding covered_def by blast
  note e = arg_cong [OF this]
  show "producer f' = producer f" using e [of producer] by simp
  show "consumer f' = consumer f" using e [of consumer] by simp
qed

lemma route_edges_stages:
  assumes "e \<in> route_edges f"
  shows "fst e \<in> set (flow_stages f) \<and> snd e \<in> set (flow_stages f)"
proof -
  have "e \<in> set (zip (flow_stages f) (tl (flow_stages f)))"
    using assms by (simp add: route_edges_def consecutive_def split: if_splits)
  then have "fst e \<in> set (flow_stages f)" "snd e \<in> set (tl (flow_stages f))"
    by (metis prod.collapse set_zip_leftD, metis prod.collapse set_zip_rightD)
  then show ?thesis by (simp add: flow_stages_def)
qed

lemma flows_unrouted:
  assumes "collectDataFlows ir T ss E = Some flows" and "f \<in> set flows"
  shows "unrouted f"
proof -
  have "unrouted h" if "flow_of_op ir E uses s b = Some h" for uses s b h
    using that by (auto simp: flow_of_op_def unrouted_def split: option.splits if_splits)
  moreover have "\<exists>uses s b. flow_of_op ir E uses s b = Some f"
    using assms by (auto simp: collectDataFlows_def grouped_flows_def outgoing_flows_def
        List.map_filter_def split: Option.bind_splits) blast
  ultimately show ?thesis by blast
qed

lemma flows_ends:
  assumes "collectDataFlows ir T ss E = Some flows" and "f \<in> set flows" and "deps_inside T st" and "set ss = set st"
  shows "producer f \<in> set st \<and> consumer f \<in> set st"
proof -
  obtain sbs where sb: "stage_bodies ir T ss = Some sbs"
    using assms(1) by (auto simp: collectDataFlows_def split: Option.bind_splits)
  then have fl: "flows = concat (map (grouped_flows ir T E (memref_uses_of ir sbs)) sbs)"
    using assms(1) by (simp add: collectDataFlows_def)
  then obtain s ops c where s: "(s, ops) \<in> set sbs" "c \<in> set (succs T s)" "consumer f = c"
    "f \<in> set (outgoing_flows ir E (memref_uses_of ir sbs) (s, ops))"
    using assms(2) by (auto simp: grouped_flows_def)
  then have "producer f = s"
    by (auto simp: outgoing_flows_def List.map_filter_def flow_of_op_def split: option.splits if_splits)
  moreover have "s \<in> set st" using s(1) sb assms(4) by (auto simp: stage_bodies_eq split: if_splits)
  ultimately show ?thesis using s(2,3) assms(3) deps_are_stages by (fastforce simp: set_succs)
qed

text \<open>Well-formed bodies stay so when the stages are listed in another order.\<close>

lemma bodies_wf_perm:
  assumes st: "stage_bodies ir T st = Some sbs" "bodies_wf ir (located sbs)"
    and d: "distinct st" "distinct ss" "set ss = set st"
  shows "\<exists>sbs'. stage_bodies ir T ss = Some sbs' \<and> bodies_wf ir (located sbs')"
proof -
  let ?h = "\<lambda>s. (s, body (the (stage_ir_of ir T s)))"
  let ?k = "\<lambda>s. map (Pair s) (body (the (stage_ir_of ir T s)))"
  have ok: "\<forall>s\<in>set st. stage_ir_of ir T s \<noteq> None" "sbs = map ?h st"
    using st(1) by (auto simp: stage_bodies_eq split: if_splits)
  have loc: "located (map ?h xs) = concat (map ?k xs)" for xs by (simp add: located_def comp_def)
  have "mset ss = mset st" using d by (simp add: set_eq_iff_mset_eq_distinct)
  moreover have "mset (concat (map ?k xs)) = sum_mset (image_mset (\<lambda>x. mset (?k x)) (mset xs))" for xs
    by (induction xs) simp_all
  ultimately have "mset (concat (map ?k ss)) = mset (concat (map ?k st))" by (simp only:)
  then have m: "mset (located (map ?h ss)) = mset (located (map ?h st))" by (simp only: loc)
  let ?A = "located (map ?h ss)" and ?B = "located (map ?h st)"
  have "mset (map (\<lambda>x. bo_op (snd x)) ?A) = mset (map (\<lambda>x. bo_op (snd x)) ?B)" unfolding mset_map m ..
  from mset_eq_imp_distinct_iff [OF this] mset_eq_setD [OF m] st(2) [unfolded ok(2)]
  have "bodies_wf ir ?A" unfolding bodies_wf_def by simp
  moreover have "stage_bodies ir T ss = Some (map ?h ss)" using ok(1) d(3) by (simp add: stage_bodies_eq)
  ultimately show ?thesis by blast
qed

text \<open>The rewiring leaves no null pointers behind.\<close>

lemma rewire_no_null:
  "None \<notin> set (dependencies T s) \<Longrightarrow> None \<notin> set (dependencies (rewireDependencies fs T) s)"
proof -
  have once: "None \<notin> set (dependencies (add_dependency_once e T) s)" if "None \<notin> set (dependencies T s)" for e T
    using that by (auto simp: add_dependency_once_def addDependency_def)
  have edges: "None \<notin> set (dependencies (fold add_dependency_once es T) s)" if "None \<notin> set (dependencies T s)" for es T
    using that by (induction es arbitrary: T) (simp_all add: once)
  have flow: "None \<notin> set (dependencies (wire_flow f T) s)" if "None \<notin> set (dependencies T s)" for f T
    using edges [OF that] that by (simp add: wire_flow_def)
  have flows: "None \<notin> set (dependencies (fold wire_flow gs T) s)" if "None \<notin> set (dependencies T s)" for gs T
    using that by (induction gs arbitrary: T) (simp_all add: flow)
  have drop: "None \<notin> set (dependencies (removeNullifiedDependencies (nullifyDependency T a b) a) s)"
    if "None \<notin> set (dependencies T s)" for a b T
    using that by (auto simp: removeNullifiedDependencies_def nullifyDependency_def)
  have pair: "None \<notin> set (dependencies (wire_pair fs e T) s)" if "None \<notin> set (dependencies T s)" for e T
    using that by (auto simp: wire_pair_def Let_def intro!: flows drop dest: flows drop)
  have "None \<notin> set (dependencies (fold (wire_pair fs) es T) s)" if "None \<notin> set (dependencies T s)" for es T
    using that by (induction es arbitrary: T) (simp_all add: pair)
  then show "None \<notin> set (dependencies T s) \<Longrightarrow> None \<notin> set (dependencies (rewireDependencies fs T) s)"
    by (simp add: rewireDependencies_def)
qed

text \<open>After the rewiring, the dependencies stay inside the pipeline.\<close>

lemma expanded_deps_inside:
  assumes T2: "T2 = rewireDependencies fs T1" and sub: "set (F p) \<subseteq> set (F' p)"
    and old: "\<forall>s\<in>set (F p). dependencies T1 s = dependencies T s"
    and none: "\<forall>s\<in>set (F' p) - set (F p). dependencies T1 s = []"
    and kinds: "\<forall>s\<in>set (F p). isStageNode T2 s = isStageNode T s"
    and deps: "deps_inside T (stages_of T F p)"
    and ends: "\<forall>f\<in>set fs. set (flow_stages f) \<subseteq> set (stages_of T2 F' p)"
    and nulls: "\<And>s. s \<in> set (stages_of T2 F' p) \<Longrightarrow> None \<notin> set (dependencies T2 s)"
  shows "deps_inside T2 (stages_of T2 F' p)"
  unfolding deps_inside_def
proof (intro ballI subsetI)
  fix s d assume s: "s \<in> set (stages_of T2 F' p)" and d: "d \<in> set (dependencies T2 s)"
  then obtain t where t: "d = Some t" using nulls [OF s] by (cases d) auto
  have "has_dep T2 (s, t)" using d t by (simp add: has_dep_def)
  then have "has_dep T1 (s, t) \<or> (\<exists>f\<in>set fs. (s, t) \<in> route_edges f)"
    using rewireDependencies_spec(2) [of "(s, t)" fs T1] rewireDependencies_spec(3) [of fs "(s, t)" T1]
    unfolding T2 has_dep_count by (cases "\<forall>f\<in>set fs. (s, t) \<notin> route_edges f") (simp, blast)
  then have "t \<in> set (stages_of T2 F' p)"
  proof
    assume h: "has_dep T1 (s, t)"
    have sF: "s \<in> set (F' p)" "isStageNode T2 s" using s by (auto simp: stages_of_def)
    then have sF2: "s \<in> set (F p)" using h none by (force simp: has_dep_def)
    then have "s \<in> set (stages_of T F p)" "Some t \<in> set (dependencies T s)"
      using h old kinds sF(2) by (auto simp: stages_of_def has_dep_def)
    then have "t \<in> set (stages_of T F p)" using deps unfolding deps_inside_def by blast
    then show ?thesis using sub kinds by (auto simp: stages_of_def)
  next
    assume "\<exists>f\<in>set fs. (s, t) \<in> route_edges f"
    then show ?thesis using ends route_edges_stages by fastforce
  qed
  then show "d \<in> Some ` set (stages_of T2 F' p)" using t by simp
qed

section \<open>What a successful run gives\<close>

text \<open>
  The pipeline that is left: nothing outside its children changed and no child is lost; the stages
  of the plan are its stages, in an order that respects the dependencies; every unit runs at most
  one stage; every stage has an entry; a stage that was not there before is synthetic; and a flow
  with hops has a dependency along every step of its route that no later rewiring removes. After an
  expansion the children of the pipeline are themselves in an order that respects the dependencies.

  A step is removed when it is the direct dependency of a pair of stages that is wired after the
  flow and all of whose own flows have hops.
\<close>

definition lost_step :: "data_flow list \<Rightarrow> data_flow \<Rightarrow> ptr \<times> ptr \<Rightarrow> bool" where
  "lost_step flows f e \<longleftrightarrow> e \<in> dropped flows \<and> flow_pair f \<in> wired_before flows e"

definition planned_ok :: "ptr \<Rightarrow> (ptr \<Rightarrow> ptr list) \<Rightarrow> planned \<Rightarrow> (ptr \<Rightarrow> ptr list) \<Rightarrow> bool" where
  "planned_ok p F R F' \<longleftrightarrow>
     (let st = stages_of (pl_tree R) F' p; r = unblocks (pl_tree R) st in
      tree_abs (pl_tree R) F' \<and> set (F p) \<subseteq> set (F' p) \<and> (\<forall>m. m \<noteq> p \<longrightarrow> F' m = F m) \<and>
      distinct (pl_stages R) \<and> set (pl_stages R) = set st \<and> topological r (pl_stages R) \<and>
      unique_units (pl_plan R) st \<and> (\<forall>s\<in>set st. stage_infos (pl_plan R) s \<noteq> None) \<and>
      (\<forall>s\<in>set st - set (F p). operation_op (pl_tree R) s = None \<and>
         (\<exists>m u. stage_infos (pl_plan R) s = Some (synthetic_info m u))) \<and>
      (\<forall>f\<in>set (pl_flows R). set (flow_stages f) \<subseteq> set st \<and>
         (\<forall>e\<in>route_edges f. \<not> lost_step (pl_flows R) f e \<longrightarrow> has_dep (pl_tree R) e)) \<and>
      (changed (pl_plan R) \<longrightarrow> topological r st))"

lemma same_rest_stages: "same_rest T T' \<Longrightarrow> stages_of T' F p = filter (isStageNode T) (F p)"
  "same_rest T T' \<Longrightarrow> unblocks T' ss = unblocks T ss" "same_rest T T' \<Longrightarrow> has_dep T' e = has_dep T e"
  "same_rest T T' \<Longrightarrow> deps_inside T' ss = deps_inside T ss"
  by (simp_all add: stages_of_def isStageNode_def [abs_def] unblocks_def has_dep_def deps_inside_def same_rest_ptree)

lemma unblocks_set: "set xs = set ys \<Longrightarrow> unblocks T xs = unblocks T ys"
  by (simp add: unblocks_def)

lemma unique_units_set: "set xs = set ys \<Longrightarrow> unique_units P xs = unique_units P ys"
  by (simp add: unique_units_def)

lemma expand_changed:
  assumes "expandDataFlows g p flows ss T P i = success (fs, st)"
  shows "changed (ex_plan st) = changed P"
proof -
  have syn: "changed (ex_plan st') = changed (ex_plan st)" if "add_synthetic p f m u st = success (f', st')" for p f m u st f' st'
    using that by (auto simp: add_synthetic_def Let_def split: prod.splits Option.bind_splits)
  have hop: "changed (ex_plan st') = changed (ex_plan st)" if "addHop p f m u st = success (f', st')" for p f m u st f' st'
  proof (cases "unit_owner st u")
    case None
    then show ?thesis using that syn by (simp add: addHop_def)
  next
    case (Some q)
    then show ?thesis using that by (auto simp: addHop_def split: if_splits Option.bind_splits)
  qed
  have loop: "hop_loop g p e i f st = success (f', st') \<Longrightarrow> changed (ex_plan st') = changed (ex_plan st)"
    for g p e i f st f' st'
  proof (induction g p e i f st arbitrary: f' st' rule: hop_loop.induct)
    case (1 g p e i f st)
    show ?case
    proof (cases "i < e")
      case False
      then show ?thesis using "1.prems" by (simp add: hop_loop.simps)
    next
      case True
      obtain h f1 st1 where s: "hop_at g f i = success h" "addHop p f (fst h) (fst (snd h)) st = success (f1, st1)"
        "hop_loop g p e (i + hop_width h) (f1\<lparr>boundaries := boundaries f1 @ [i + hop_width h]\<rparr>) st1 = success (f', st')"
        using "1.prems" True by (subst (asm) hop_loop.simps) auto
      have "changed (ex_plan st') = changed (ex_plan st1)" using "1.IH" [OF True, of h "(f1, st1)" f1 st1] s by simp
      moreover have "changed (ex_plan st1) = changed (ex_plan st)"
        by (rule hop [OF s(2)])
      ultimately show ?thesis by simp
    qed
  qed
  have flow: "changed (ex_plan st') = changed (ex_plan st)" if e: "expand_flow g p f st = success (f', st')" for f st f' st'
  proof -
    let ?st1 = "if last_inserted st (producer f) = None
      then st\<lparr>last_inserted := (last_inserted st)(producer f := Some (producer f))\<rparr> else st"
    obtain f2 where "hop_loop g p (middleEnd f) (middleBegin f) (f\<lparr>boundaries := boundaries f @ [middleBegin f]\<rparr>) ?st1
        = success (f2, st')"
      using e unfolding expand_flow_def Let_def attempt_success by auto
    from loop [OF this] show ?thesis by (simp split: if_splits)
  qed
  have all: "foldA (\<lambda>f (fs, st). attempt (expand_flow g p f st) (\<lambda>(f', st'). success (fs @ [f'], st'))) flows (acc, st0)
      = success (out, st') \<Longrightarrow> changed (ex_plan st') = changed (ex_plan st0)" for acc st0 out st'
  proof (induction flows arbitrary: acc st0)
    case (Cons f flows)
    then obtain f1 st1 where "expand_flow g p f st0 = success (f1, st1)"
      "foldA (\<lambda>f (fs, st). attempt (expand_flow g p f st) (\<lambda>(f', st'). success (fs @ [f'], st'))) flows (acc @ [f1], st1)
        = success (out, st')" by auto
    then show ?case using Cons.IH flow by metis
  qed simp
  show ?thesis using assms all by (fastforce simp: expandDataFlows_def split: Option.bind_splits)
qed

lemma list_all2_in: "list_all2 Q xs ys \<Longrightarrow> y \<in> set ys \<Longrightarrow> \<exists>x\<in>set xs. Q x y"
  by (induction rule: list_all2_induct) auto

lemma buildExpansionPlan_success:
  assumes run: "buildExpansionPlan g p flows E ss T P i = success R"
    and abs: "tree_abs T F" "fresh_above T" and deps: "deps_inside T (stages_of T F p)"
    and ss: "set ss = set (stages_of T F p)"
    and infos: "\<forall>s\<in>set ss. stage_infos P s \<noteq> None" and uniq: "unique_units P ss"
    and flows: "\<forall>f\<in>set flows. producer f \<in> set ss \<and> consumer f \<in> set ss \<and> chain_stages f = [] \<and> boundaries f = []"
  shows "\<exists>F'. planned_ok p F R F' \<and> changed (pl_plan R) = changed P \<and>
    list_all2 (covered g (pl_plan R)) flows (pl_flows R) \<and> pl_ends R = E \<and>
    (\<forall>s\<in>set (F p). operation_op (pl_tree R) s = operation_op T s \<and> isStageNode (pl_tree R) s = isStageNode T s)"
proof -
  obtain fs st where X: "expandDataFlows g p flows ss T P i = success (fs, st)"
    and O: "orderStagesByDependencies p (ex_tree st) = success (pl_tree R)"
    and S: "topologicalSortStages (pl_tree R) (Some p) = success (pl_stages R)"
    and R: "pl_plan R = ex_plan st" "pl_flows R = fs" "pl_ends R = E"
    using run unfolding buildExpansionPlan_def by (auto split: if_splits prod.splits)
  have ex: "\<forall>f\<in>set flows. expandable (F p) f"
    using flows ss by (auto simp: expandable_def stages_of_def)
  let ?T2 = "ex_tree st"
  obtain F1 T1 where T2: "?T2 = rewireDependencies fs T1" and A: "tree_abs T1 F1" "tree_abs ?T2 F1"
    and sub: "subseq (F p) (F1 p)" and other: "\<forall>m. m \<noteq> p \<longrightarrow> F1 m = F m"
    and old: "\<forall>s\<in>set (F p). dependencies T1 s = dependencies T s"
    and none: "\<forall>s\<in>set (F1 p) - set (F p). dependencies T1 s = []"
    and kinds: "\<forall>s\<in>set (F p). isStageNode ?T2 s = isStageNode T s"
    and ops: "\<forall>s\<in>set (F p). operation_op ?T2 s = operation_op T s"
    and uq: "unique_units (ex_plan st) (stages_of ?T2 F1 p)"
    and kept: "\<forall>s\<in>set (F p). stage_infos (ex_plan st) s = stage_infos P s"
    and new: "\<forall>s\<in>set (F1 p) - set (F p). isStageNode ?T2 s \<and> operation_op ?T2 s = None \<and>
      (\<exists>m u. stage_infos (ex_plan st) s = Some (synthetic_info m u))"
    and cov: "list_all2 (covered g (ex_plan st)) flows fs"
    and ch: "\<forall>f\<in>set fs. set (chain_stages f) \<subseteq> set (stages_of ?T2 F1 p)"
    using expandDataFlows_success [OF X abs ss infos uniq ex] by (elim exE conjE) (rule that)
  let ?st = "stages_of ?T2 F1 p"
  have sub': "set (F p) \<subseteq> set (F1 p)" using sub by (rule subseq_set)
  have oldst: "s \<in> set ?st" if "s \<in> set ss" for s
    using that ss sub' kinds by (auto simp: stages_of_def)
  have ends: "\<forall>f\<in>set fs. set (flow_stages f) \<subseteq> set ?st"
  proof
    fix f assume f: "f \<in> set fs"
    then obtain f0 where "f0 \<in> set flows" "covered g (ex_plan st) f0 f"
      using list_all2_in [OF cov] by blast
    with covered_ends flows oldst ch f show "set (flow_stages f) \<subseteq> set ?st"
      by (simp add: flow_stages_def)
  qed
  have nulls: "None \<notin> set (dependencies ?T2 s)" if "s \<in> set ?st" for s
  proof -
    have s: "s \<in> set (F1 p)" "isStageNode ?T2 s" using that by (auto simp: stages_of_def)
    have "None \<notin> set (dependencies T1 s)"
    proof (cases "s \<in> set (F p)")
      case True
      then have "s \<in> set (stages_of T F p)" using s(2) kinds by (simp add: stages_of_def)
      then show ?thesis using deps old True unfolding deps_inside_def by fastforce
    qed (use none s in simp)
    then show ?thesis unfolding T2 by (rule rewire_no_null)
  qed
  have di: "deps_inside ?T2 ?st"
    by (rule expanded_deps_inside [OF T2 sub' old none kinds deps ends nulls])
  let ?r = "unblocks ?T2 ?st"
  obtain ord where sr: "same_rest ?T2 (pl_tree R)" and G: "greedy_order ?r ?st ord"
    and B: "tree_abs (pl_tree R) (F1(p := if ord = ?st then F1 p else restaged ?T2 ord (F1 p)))"
    using orderStagesByDependencies_sound [OF A(2) di] O by auto
  let ?F' = "F1(p := if ord = ?st then F1 p else restaged ?T2 ord (F1 p))"
  have so: "set ord = set ?st" "topological ?r ord" using G greedy_props [of ?r ?st ord] by (simp_all add: greedy_order_def)
  have F'p: "stages_of (pl_tree R) ?F' p = ord" "set (?F' p) = set (F1 p)"
    using restaged_stages [of ord ?T2 "F1 p"] so(1) same_rest_stages(1) [OF sr, of ?F' p]
    by (auto simp: stages_of_def)
  have r: "unblocks (pl_tree R) ord = ?r"
    using same_rest_stages(2) [OF sr, of ord] unblocks_set [OF so(1)] by simp
  have di': "deps_inside (pl_tree R) ord"
    using di so(1) same_rest_stages(4) [OF sr, of ord] by (simp add: deps_inside_def)
  have sorted: "distinct (pl_stages R) \<and> set (pl_stages R) = set ord \<and> topological ?r (pl_stages R)"
    using topologicalSortStages_sound [OF B, of p] S di' unfolding F'p(1) r by simp
  have wired: "has_dep (pl_tree R) e" if "f \<in> set fs" "e \<in> route_edges f" "\<not> lost_step fs f e" for f e
    using rewireDependencies_spec(2) [of e fs T1] rewireDependencies_spec(4) [of e fs T1] that same_rest_stages(3) [OF sr]
    unfolding T2 lost_step_def by blast
  have op: "operation_op (pl_tree R) = operation_op ?T2" using sr by (rule same_rest_ptree(2))
  have news: "operation_op (pl_tree R) s = None \<and> (\<exists>m u. stage_infos (pl_plan R) s = Some (synthetic_info m u))"
    if "s \<in> set ord - set (F p)" for s
    using that new so(1) unfolding op R by (auto simp: stages_of_def)
  have inf: "stage_infos (pl_plan R) s \<noteq> None" if "s \<in> set ord" for s
  proof (cases "s \<in> set (F p)")
    case True
    then have "s \<in> set ss" using that so(1) kinds ss by (auto simp: stages_of_def)
    then show ?thesis using kept True infos unfolding R by simp
  next
    case False
    then show ?thesis using news [of s] that by auto
  qed
  have "planned_ok p F R ?F'"
    unfolding planned_ok_def Let_def F'p r
    by (intro conjI B sub' sorted [THEN conjunct1] sorted [THEN conjunct2, THEN conjunct1]
        sorted [THEN conjunct2, THEN conjunct2] ballI allI impI inf news [THEN conjunct1] news [THEN conjunct2] so(2))
      (use other uq unique_units_set [OF so(1)] ends so(1) wired in \<open>auto simp: R\<close>)
  moreover have "changed (pl_plan R) = changed P" using expand_changed [OF X] R by simp
  moreover have "list_all2 (covered g (pl_plan R)) flows (pl_flows R)" "pl_ends R = E" using cov R by simp_all
  moreover have "\<forall>s\<in>set (F p). operation_op (pl_tree R) s = operation_op T s \<and> isStageNode (pl_tree R) s = isStageNode T s"
    using ops op kinds same_rest_ptree(1) [OF sr] by (simp add: isStageNode_def)
  ultimately show ?thesis by blast
qed

text \<open>What the planner expects of its input.\<close>

definition plannable :: "planner_ir \<Rightarrow> routing_graph \<Rightarrow> ptree \<Rightarrow> (ptr \<Rightarrow> ptr list) \<Rightarrow> ptr \<Rightarrow> bool" where
  "plannable ir g T F p \<longleftrightarrow> graph_wf g \<and> tree_abs T F \<and> fresh_above T \<and> deps_inside T (stages_of T F p) \<and>
     (\<exists>sbs. stage_bodies ir T (stages_of T F p) = Some sbs \<and> bodies_wf ir (located sbs))"

lemma planPathExpansion_sound:
  assumes run: "planPathExpansion ir g T p = success R" and ok: "plannable ir g T F p"
  shows "\<exists>F'. planned_ok p F R F' \<and> (\<not> changed (pl_plan R) \<longrightarrow> pl_tree R = T)"
proof -
  have g: "graph_wf g" and abs: "tree_abs T F" "fresh_above T" and deps: "deps_inside T (stages_of T F p)"
    using ok by (auto simp: plannable_def)
  let ?st = "stages_of T F p"
  obtain ss sides P1 E flows fs P2 b where
    s: "sortAndValidateStages ir g T p = success (ss, sides)"
    and P1: "assignOriginalStageResources ir g T ss sides empty_plan = success P1"
    and E: "collectFifoEndpoints ir T ss = Some E" and fl: "collectDataFlows ir T ss E = Some flows"
    and ro: "routeDataFlows sides g P1 flows = success fs"
    and P2: "assignOriginalStageUnits g fs ss P1 = success P2"
    and b: "needsExpansion g fs = Some b"
    and R: "(if \<not> b
               then success \<lparr>pl_tree = T, pl_plan = P2\<lparr>changed := False\<rparr>, pl_flows = fs, pl_stages = ss,
                             pl_ends = E\<rparr>
               else buildExpansionPlan g p fs E ss T (P2\<lparr>changed := True\<rparr>) (int (length ss))) = success R"
    using run by (auto simp: planPathExpansion_def bind_eq_Some_conv simp del: not_None_eq split: prod.splits)
  have sorted: "distinct ss" "set ss = set ?st" "topological (unblocks T ?st) ss"
    using sortAndValidateStages_sorted [OF s abs(1) deps] by auto
  have infos1: "\<forall>s\<in>set ss. stage_infos P1 s \<noteq> None"
    using assignOriginalStageResources_success [OF P1 sorted(1)] by (auto simp: empty_plan_def)
  note U = assignOriginalStageUnits_success [OF P2 sorted(1)]
  have infos2: "\<forall>s\<in>set ss. stage_infos P2 s \<noteq> None"
  proof
    fix s assume "s \<in> set ss"
    then have "stage_infos P1 s \<noteq> None" using infos1 by blast
    moreover have "map_option (\<lambda>i. i\<lparr>applicable_unit := None\<rparr>) (stage_infos P2 s) =
        map_option (\<lambda>i. i\<lparr>applicable_unit := None\<rparr>) (stage_infos P1 s)"
      using U [THEN conjunct1] unfolding same_but_units_def by blast
    ultimately show "stage_infos P2 s \<noteq> None" by auto
  qed
  have uniq2: "unique_units P2 ss" using U [THEN conjunct2, THEN conjunct1] unfolding unique_units_def .
  have unr: "\<forall>f\<in>set flows. unrouted f" using flows_unrouted [OF fl] by blast
  have all: "list_all2 (routed sides g P1) flows fs" by (rule routeDataFlows_success [OF g ro unr])
  have rf: "\<exists>f0\<in>set flows. producer f = producer f0 \<and> consumer f = consumer f0 \<and> chain_stages f = [] \<and> boundaries f = []"
    if "f \<in> set fs" for f
    using list_all2_in [OF all that] routed_ends unr unfolding unrouted_def by metis
  show ?thesis
  proof (cases b)
    case False
    with R have R': "pl_tree R = T" "pl_plan R = P2\<lparr>changed := False\<rparr>" "pl_flows R = fs" "pl_stages R = ss" by auto
    have fend: "producer f0 \<in> set ?st \<and> consumer f0 \<in> set ?st" if "f0 \<in> set flows" for f0
      using flows_ends [OF fl that deps sorted(2)] .
    have "planned_ok p F R F"
      unfolding planned_ok_def Let_def R'
    proof (intro conjI)
      show "\<forall>f\<in>set fs. set (flow_stages f) \<subseteq> set ?st \<and>
          (\<forall>e\<in>route_edges f. \<not> lost_step fs f e \<longrightarrow> has_dep T e)"
      proof
        fix f assume "f \<in> set fs"
        from rf [OF this] fend show "set (flow_stages f) \<subseteq> set ?st \<and>
            (\<forall>e\<in>route_edges f. \<not> lost_step fs f e \<longrightarrow> has_dep T e)"
          by (auto simp: flow_stages_def route_edges_def has_chain_def)
      qed
      show "unique_units (P2\<lparr>changed := False\<rparr>) ?st"
        using uniq2 sorted(2) by (simp add: unique_units_def unit_of_def)
    qed (use abs sorted infos2 in \<open>auto simp: stages_of_def\<close>)
    then show ?thesis using R' by blast
  next
    case True
    then have B: "buildExpansionPlan g p fs E ss T (P2\<lparr>changed := True\<rparr>) (int (length ss)) = success R"
      using R by simp
    then have nd: "duplicate E = None" unfolding buildExpansionPlan_def by (rule contrapos_pp) simp
    obtain sbs where sb: "stage_bodies ir T ss = Some sbs" "bodies_wf ir (located sbs)"
    proof -
      obtain sbs0 where "stage_bodies ir T ?st = Some sbs0" "bodies_wf ir (located sbs0)"
        using ok by (auto simp: plannable_def)
      moreover have "distinct ?st" using tree_abs_distinct [OF abs(1)] by (simp add: stages_of_def)
      ultimately show ?thesis using bodies_wf_perm sorted(1,2) that by blast
    qed
    have flows: "\<forall>f\<in>set fs. producer f \<in> set ss \<and> consumer f \<in> set ss \<and> chain_stages f = [] \<and> boundaries f = []"
      using rf flows_between_stages [OF E fl sb nd] by metis
    have "\<forall>s\<in>set ss. stage_infos (P2\<lparr>changed := True\<rparr>) s \<noteq> None" "unique_units (P2\<lparr>changed := True\<rparr>) ss"
      using infos2 uniq2 by (simp_all add: unique_units_def unit_of_def)
    from buildExpansionPlan_success [OF B abs deps sorted(2) this flows] show ?thesis by auto
  qed
qed

section \<open>The flows of an expanded pipeline\<close>

text \<open>A flow of the plan is a carrier that one operation writes and an operation of another stage reads.\<close>

definition flow_found :: "planner_ir \<Rightarrow> (ptr \<times> body_op) list \<Rightarrow> data_flow \<Rightarrow> bool" where
  "flow_found ir sbl f \<longleftrightarrow>
     (\<exists>x y. carried ir sbl (carrier f) x y \<and> fst x \<noteq> fst y \<and> producer_op f = bo_op (snd x) \<and> producer f = fst x \<and>
        consumer_op f = bo_op (snd y) \<and> consumer f = fst y)"

definition same_data :: "data_flow \<Rightarrow> data_flow \<Rightarrow> bool" where
  "same_data f f' \<longleftrightarrow> carrier f' = carrier f \<and> producer_op f' = producer_op f \<and> consumer_op f' = consumer_op f \<and>
     producer f' = producer f \<and> consumer f' = consumer f"

lemma routed_same: "routed sides g P f f' \<Longrightarrow> same_data f f'"
proof -
  assume "routed sides g P f f'"
  then have "f' = f\<lparr>path := path f', producer_end := producer_end f', consumer_begin := consumer_begin f',
      producer_unit := producer_unit f', consumer_unit := consumer_unit f'\<rparr>" unfolding routed_def by blast
  note e = arg_cong [OF this]
  show ?thesis unfolding same_data_def using e [of carrier] e [of producer_op] e [of consumer_op] e [of producer] e [of consumer]
    by simp
qed

lemma covered_same: "covered g P f f' \<Longrightarrow> same_data f f'"
proof -
  assume "covered g P f f'"
  then obtain hs where "f' = f\<lparr>chain_stages := chain_stages f',
      boundaries := (if hs = [] then [] else middleBegin f # hop_ends (middleBegin f) hs)\<rparr>"
    unfolding covered_def by blast
  note e = arg_cong [OF this]
  show ?thesis unfolding same_data_def using e [of carrier] e [of producer_op] e [of consumer_op] e [of producer] e [of consumer]
    by simp
qed

lemma same_data_lists:
  assumes "list_all2 same_data fs gs"
  shows "map producer_op gs = map producer_op fs" and "g \<in> set gs \<Longrightarrow> \<exists>f\<in>set fs. same_data f g"
  using assms by (induction rule: list_all2_induct) (auto simp: same_data_def)

lemma planPathExpansion_flows:
  assumes run: "planPathExpansion ir g T p = success R" and ok: "plannable ir g T F p" and ch: "changed (pl_plan R)"
  shows "\<exists>ss sbs. set ss = set (stages_of T F p) \<and> stage_bodies ir T ss = Some sbs \<and> bodies_wf ir (located sbs) \<and>
    pl_ends R = all_ends ir (located sbs) \<and> duplicate (pl_ends R) = None \<and> distinct (map producer_op (pl_flows R)) \<and>
    (\<forall>f\<in>set (pl_flows R). flow_found ir (located sbs) f) \<and>
    (\<forall>s\<in>set (F p). operation_op (pl_tree R) s = operation_op T s \<and> isStageNode (pl_tree R) s = isStageNode T s)"
proof -
  have g: "graph_wf g" and abs: "tree_abs T F" "fresh_above T" and deps: "deps_inside T (stages_of T F p)"
    using ok by (auto simp: plannable_def)
  let ?st = "stages_of T F p"
  obtain ss sides P1 E flows fs P2 b where
    s: "sortAndValidateStages ir g T p = success (ss, sides)"
    and P1: "assignOriginalStageResources ir g T ss sides empty_plan = success P1"
    and E: "collectFifoEndpoints ir T ss = Some E" and fl: "collectDataFlows ir T ss E = Some flows"
    and ro: "routeDataFlows sides g P1 flows = success fs"
    and P2: "assignOriginalStageUnits g fs ss P1 = success P2"
    and R: "(if \<not> b
               then success \<lparr>pl_tree = T, pl_plan = P2\<lparr>changed := False\<rparr>, pl_flows = fs, pl_stages = ss,
                             pl_ends = E\<rparr>
               else buildExpansionPlan g p fs E ss T (P2\<lparr>changed := True\<rparr>) (int (length ss))) = success R"
    using run by (auto simp: planPathExpansion_def bind_eq_Some_conv simp del: not_None_eq split: prod.splits)
  have b: b using R ch by (auto split: if_splits)
  then have B: "buildExpansionPlan g p fs E ss T (P2\<lparr>changed := True\<rparr>) (int (length ss)) = success R" using R by simp
  then have nd: "duplicate E = None" unfolding buildExpansionPlan_def by (rule contrapos_pp) simp
  have sorted: "distinct ss" "set ss = set ?st" using sortAndValidateStages_sorted [OF s abs(1) deps] by auto
  obtain sbs where sb: "stage_bodies ir T ss = Some sbs" "bodies_wf ir (located sbs)"
  proof -
    obtain sbs0 where "stage_bodies ir T ?st = Some sbs0" "bodies_wf ir (located sbs0)"
      using ok by (auto simp: plannable_def)
    moreover have "distinct ?st" using tree_abs_distinct [OF abs(1)] by (simp add: stages_of_def)
    ultimately show ?thesis using bodies_wf_perm sorted that by blast
  qed
  have E': "E = all_ends ir (located sbs)" using E collectFifoEndpoints_eq [OF sb(1)] by simp
  have F: "flow_found ir (located sbs) f" if "f \<in> set flows" for f
    using collectDataFlows_exact [OF sb] nd fl that unfolding E' by (fastforce simp: flow_found_def new_flow_def)
  have D: "distinct (map producer_op flows)" using collectDataFlows_exact [OF sb] nd fl unfolding E' by auto
  have infos1: "\<forall>s\<in>set ss. stage_infos P1 s \<noteq> None"
    using assignOriginalStageResources_success [OF P1 sorted(1)] by (auto simp: empty_plan_def)
  note U = assignOriginalStageUnits_success [OF P2 sorted(1)]
  have infos2: "\<forall>s\<in>set ss. stage_infos (P2\<lparr>changed := True\<rparr>) s \<noteq> None"
  proof
    fix s assume "s \<in> set ss"
    then have "stage_infos P1 s \<noteq> None" using infos1 by blast
    moreover have "map_option (\<lambda>i. i\<lparr>applicable_unit := None\<rparr>) (stage_infos P2 s) =
        map_option (\<lambda>i. i\<lparr>applicable_unit := None\<rparr>) (stage_infos P1 s)"
      using U [THEN conjunct1] unfolding same_but_units_def by blast
    ultimately show "stage_infos (P2\<lparr>changed := True\<rparr>) s \<noteq> None" by auto
  qed
  have uniq2: "unique_units (P2\<lparr>changed := True\<rparr>) ss"
    using U [THEN conjunct2, THEN conjunct1] by (simp add: unique_units_def unit_of_def)
  have unr: "\<forall>f\<in>set flows. unrouted f" using flows_unrouted [OF fl] by blast
  have all: "list_all2 (routed sides g P1) flows fs" by (rule routeDataFlows_success [OF g ro unr])
  have same: "list_all2 same_data flows fs" using all by (rule list_all2_mono) (rule routed_same)
  have fsok: "producer f \<in> set ss \<and> consumer f \<in> set ss \<and> chain_stages f = [] \<and> boundaries f = []" if f: "f \<in> set fs" for f
  proof -
    obtain f0 where f0: "f0 \<in> set flows" "routed sides g P1 f0 f" using list_all2_in [OF all f] by blast
    note r = routed_ends [OF f0(2)]
    have "producer f0 \<in> set ss" "consumer f0 \<in> set ss" "unrouted f0"
      using flows_between_stages [OF E fl sb nd f0(1)] by auto
    then show ?thesis using r by (simp add: unrouted_def)
  qed
  have fs: "\<forall>f\<in>set fs. producer f \<in> set ss \<and> consumer f \<in> set ss \<and> chain_stages f = [] \<and> boundaries f = []"
    using fsok by (rule ballI)
  obtain F' where cov: "list_all2 (covered g (pl_plan R)) fs (pl_flows R)" "pl_ends R = E"
    "\<forall>s\<in>set (F p). operation_op (pl_tree R) s = operation_op T s \<and> isStageNode (pl_tree R) s = isStageNode T s"
    using buildExpansionPlan_success [OF B abs deps sorted(2) infos2 uniq2 fs] by (elim exE conjE) (rule that)
  have same2: "list_all2 same_data fs (pl_flows R)" using cov(1) by (rule list_all2_mono) (rule covered_same)
  have "distinct (map producer_op (pl_flows R))"
    using D same_data_lists(1) [OF same] same_data_lists(1) [OF same2] by simp
  moreover have "flow_found ir (located sbs) f" if f: "f \<in> set (pl_flows R)" for f
  proof -
    obtain f1 where f1: "f1 \<in> set fs" "same_data f1 f" using same_data_lists(2) [OF same2 f] by blast
    obtain f0 where f0: "f0 \<in> set flows" "same_data f0 f1" using same_data_lists(2) [OF same f1(1)] by blast
    show ?thesis using F [OF f0(1)] f0(2) f1(2) by (simp add: flow_found_def same_data_def)
  qed
  ultimately show ?thesis
    by (intro exI [of _ ss] exI [of _ sbs] conjI ballI) (use sorted(2) sb cov(2,3) nd in \<open>simp_all add: E'\<close>)
qed

section \<open>Properties\<close>


lemma pair_plannable: "plannable small_ir small_graph pair_tree pair_children 9"
proof -
  have "fresh_above pair_tree" by (auto simp: fresh_above_def pair_tree_def)
  then show ?thesis
    by (simp add: plannable_def small_graph_wf pair_tree_abs pair_tree_stages pair_tree_deps
        pair_bodies pair_located pair_bodies_wf)
qed


end
