(* ===== verification/TileSizes.thy ===== *)
theory TileSizes
  imports Prelude "HOL-Library.Signed_Division"
begin

text \<open>
  The choice of tile sizes of \<open>lib/Dialect/KTDF/Transforms/TileSizeSelection.cpp\<close> and the chunks of
  reductions of \<open>lib/Dialect/KTDF/Analysis/ReductionChunkAnalysis.cpp\<close>. The sizes are
  \<open>int64_t\<close>: here they are integers, and a step that would overflow, divide by zero or reach
  \<open>llvm_unreachable\<close> has the result \<open>None\<close>.
\<close>

section \<open>64-bit results\<close>

definition in_int64 :: "int \<Rightarrow> bool" where
  "in_int64 x \<longleftrightarrow> - (2 ^ 63) \<le> x \<and> x < 2 ^ 63"

definition ck64 :: "int \<Rightarrow> int option" where
  "ck64 x = (if in_int64 x then Some x else None)"

text \<open>The remainder of C++: undefined for a zero divisor and for the smallest value over minus one.\<close>

definition rem64 :: "int \<Rightarrow> int \<Rightarrow> int option" where
  "rem64 a b = (if b = 0 \<or> (a = - (2 ^ 63) \<and> b = - 1) then None else Some (a smod b))"

lemma smod_zero_iff: "a smod b = 0 \<longleftrightarrow> b dvd (a::int)"
proof -
  have "sgn a * (\<bar>a\<bar> mod \<bar>b\<bar>) = 0 \<longleftrightarrow> a = 0 \<or> \<bar>b\<bar> dvd \<bar>a\<bar>" by (simp add: sgn_0_0 dvd_eq_mod_eq_0)
  then show ?thesis by (auto simp: signed_modulo_int_def)
qed

section \<open>Tile sizes\<close>

text \<open>
  The users of a value, one for every use: a \<open>ceildivui\<close> with its divisor, the constant value of
  its dividend when there is one, and the users of its result; a loop knows whether the result is
  its upper bound.
\<close>

type_synonym loop_op = nat
type_synonym ssa_value = nat

datatype bound_user = ForUser loop_op bool | OtherBoundUser

datatype size_user = CeilDivUIOp "int option" ssa_value "bound_user list" | OtherSizeUser

record reserve_op =
  rs_id :: nat
  rs_result :: ssa_value
  rs_users :: "size_user list"
  rs_min_value :: int
  rs_divisibility :: int

record tile_size_info =
  reserve_size_op :: reserve_op
  associated_loops :: "(loop_op \<times> int) list"

definition kMaxCandidateTileSize :: int where
  "kMaxCandidateTileSize = 2"

definition bound_loops :: "int \<Rightarrow> bound_user list \<Rightarrow> (loop_op \<times> int) list" where
  "bound_loops total_size us = List.map_filter (\<lambda>u. case u of ForUser l True \<Rightarrow> Some (l, total_size) | _ \<Rightarrow> None) us"

definition size_user_step ::
  "ssa_value \<Rightarrow> size_user \<Rightarrow> tile_size_info \<times> nat list \<Rightarrow> tile_size_info \<times> nat list" where
  "size_user_step value u s =
     (let (ts, unresolved) = s; op = rs_id (reserve_size_op ts) in
      case u of
        CeilDivUIOp total_size_opt rhs bound_users \<Rightarrow>
          (if rhs \<noteq> value then (ts, unresolved @ [op])
           else (case total_size_opt of
                   None \<Rightarrow> (ts, unresolved @ [op])
                 | Some total_size \<Rightarrow>
                     (ts\<lparr>associated_loops := associated_loops ts @ bound_loops total_size bound_users\<rparr>, unresolved)))
      | OtherSizeUser \<Rightarrow> s)"

definition collectAssociatedLoops ::
  "ssa_value \<Rightarrow> size_user list \<Rightarrow> tile_size_info \<Rightarrow> ssa_value set \<Rightarrow> nat list \<Rightarrow> tile_size_info \<times> ssa_value set \<times> nat list" where
  "collectAssociatedLoops value users ts visited unresolved =
     (if value \<in> visited then (ts, visited, unresolved)
      else (let (ts1, unresolved1) = fold (size_user_step value) users (ts, unresolved)
            in (ts1, insert value visited, unresolved1)))"

fun evaluateCandidateTileSize :: "(loop_op \<times> int) list \<Rightarrow> int \<Rightarrow> bool option" where
  "evaluateCandidateTileSize [] candidate = Some True"
| "evaluateCandidateTileSize (l # ls) candidate =
     do { r \<leftarrow> rem64 (snd l) candidate;
          if r \<noteq> 0 then Some False else evaluateCandidateTileSize ls candidate }"

text \<open>The loop over the candidates, downwards; behind its end stands \<open>llvm_unreachable\<close>.\<close>

function candidate_loop :: "(loop_op \<times> int) list \<Rightarrow> int \<Rightarrow> int \<Rightarrow> int \<Rightarrow> int option" where
  "candidate_loop loops min_val divis candidate =
     (if candidate < min_val then None
      else
        (case (if divis > 1 then map_option (\<lambda>r. r \<noteq> 0) (rem64 candidate divis) else Some False) of
           None \<Rightarrow> None
         | Some True \<Rightarrow> (if in_int64 (candidate - 1) then candidate_loop loops min_val divis (candidate - 1) else None)
         | Some False \<Rightarrow>
             (case evaluateCandidateTileSize loops candidate of
                None \<Rightarrow> None
              | Some True \<Rightarrow> Some candidate
              | Some False \<Rightarrow>
                  (if in_int64 (candidate - 1) then candidate_loop loops min_val divis (candidate - 1) else None))))"
  by pat_completeness auto
termination by (relation "measure (\<lambda>(_, m, _, c). nat (c - m + 1))") auto

declare candidate_loop.simps [simp del]

definition chooseTileSize :: "tile_size_info \<Rightarrow> nat list \<Rightarrow> (int option \<times> nat list) option" where
  "chooseTileSize ts unresolved =
     (let min_val = rs_min_value (reserve_size_op ts); divis = rs_divisibility (reserve_size_op ts) in
      if associated_loops ts = [] then Some (None, unresolved @ [rs_id (reserve_size_op ts)])
      else do { c \<leftarrow> candidate_loop (associated_loops ts) min_val divis (max kMaxCandidateTileSize min_val);
                Some (Some c, unresolved) })"

text \<open>
  The pass: \<open>None\<close> when the numbers of sizes and of operations differ, otherwise the constants that
  replace the operations, in order, with the operations left unresolved.
\<close>

definition analyze_reserve :: "reserve_op \<Rightarrow> tile_size_info list \<times> nat list \<Rightarrow> tile_size_info list \<times> nat list" where
  "analyze_reserve r s =
     (let (analyses, unresolved) = s;
          (ts, _, unresolved1) =
            collectAssociatedLoops (rs_result r) (rs_users r) \<lparr>reserve_size_op = r, associated_loops = []\<rparr> {} unresolved
      in (analyses @ [ts], unresolved1))"

definition replace_reserve ::
  "int list \<Rightarrow> nat \<times> tile_size_info \<Rightarrow> (nat \<times> int) list \<times> nat list \<Rightarrow> ((nat \<times> int) list \<times> nat list) option" where
  "replace_reserve sizes x s =
     (let (idx, ts) = x; (constants, unresolved) = s in
      do { (chosen, unresolved1) \<leftarrow> (if sizes \<noteq> [] then Some (Some (sizes ! idx), unresolved)
                                     else chooseTileSize ts unresolved);
           (case chosen of
              None \<Rightarrow> Some (constants, unresolved1)
            | Some c \<Rightarrow> Some (constants @ [(rs_id (reserve_size_op ts), c)], unresolved1)) })"

definition selectTileSizes ::
  "bool \<Rightarrow> int list \<Rightarrow> reserve_op list \<Rightarrow> ((nat \<times> int) list \<times> nat list) outcome" where
  "selectTileSizes disabled sizes ops =
     (if disabled \<or> ops = [] then success ([], [])
      else if sizes \<noteq> [] \<and> length sizes \<noteq> length ops then failure
      else (let (analyses, unresolved) = fold analyze_reserve ops ([], []) in
            do { r \<leftarrow> foldM (replace_reserve sizes) (List.enumerate 0 analyses) ([], unresolved);
                 success r }))"

section \<open>Chunks of a reduction\<close>

text \<open>
  What the analysis reads from a \<open>linalg.generic\<close>: the reduction dimensions, the first input as a
  ranked tensor (the width of an integer or float element, whether the shape is static, the number
  of elements), and the static ranges of the loops.
\<close>

definition kDynamic :: int where
  "kDynamic = - (2 ^ 63)"

record ranked_tensor =
  element_bits :: "nat option"
  static_shape :: bool
  num_elements :: int

record generic_op =
  go_reduction_dims :: "nat list"
  first_input :: "ranked_tensor option"
  loop_ranges :: "int list"

record reduction_chunks =
  num_chunks :: nat
  rc_reduction_dims :: "nat list"
  red_dim_sizes :: "int list"

text \<open>A value of no optional is \<open>Some None\<close>; undefined behaviour is \<open>None\<close>.\<close>

fun collect_dim_sizes :: "int list \<Rightarrow> nat list \<Rightarrow> int list \<Rightarrow> int list outcome" where
  "collect_dim_sizes ranges [] acc = success acc"
| "collect_dim_sizes ranges (dim # dims) acc =
     (if dim < length ranges then
        (if ranges ! dim = kDynamic then failure else collect_dim_sizes ranges dims (acc @ [ranges ! dim]))
      else None)"

definition product64 :: "int list \<Rightarrow> int option" where
  "product64 xs = foldM (\<lambda>x acc. ck64 (acc * x)) xs 1"

text \<open>
  The search for the number of chunks; \<open>n\<close> is positive, so the division is that of integers towards
  zero. The result is \<open>inferred_n\<close>, zero when nothing was found; it is truncated to 32 bits.
\<close>

function chunk_loop :: "int \<Rightarrow> int \<Rightarrow> int \<Rightarrow> int \<Rightarrow> nat" where
  "chunk_loop total_size threshold max_n n =
     (if n \<le> max_n then
        (if total_size sdiv n \<le> threshold then nat (n mod 2 ^ 32) else chunk_loop total_size threshold max_n (n + 1))
      else 0)"
  by pat_completeness auto
termination by (relation "measure (\<lambda>(_, _, m, n). nat (m + 1 - n))") auto

declare chunk_loop.simps [simp del]

definition analyzeReductionChunks :: "generic_op \<Rightarrow> int \<Rightarrow> reduction_chunks outcome" where
  "analyzeReductionChunks g threshold =
     (if go_reduction_dims g = [] then failure
      else (case first_input g of
              None \<Rightarrow> failure
            | Some t \<Rightarrow>
                (case element_bits t of
                   None \<Rightarrow> failure
                 | Some bits \<Rightarrow>
                     (if \<not> static_shape t then failure
                      else do { total_size \<leftarrow> ck64 (int (bits div 8) * num_elements t);
                                attempt (collect_dim_sizes (loop_ranges g) (go_reduction_dims g) []) (\<lambda>sizes.
                                  do { max_n \<leftarrow> product64 sizes;
                                       (let inferred_n = chunk_loop total_size threshold max_n 1 in
                                        if inferred_n = 0 then failure
                                        else success \<lparr>num_chunks = inferred_n,
                                          rc_reduction_dims = go_reduction_dims g, red_dim_sizes = sizes\<rparr>) }) }))))"

text \<open>\<open>std::gcd\<close> takes absolute values, as \<open>gcd\<close> does.\<close>

fun chunk_dims_loop :: "int list \<Rightarrow> int \<Rightarrow> int list \<times> int" where
  "chunk_dims_loop [] remaining = ([], remaining)"
| "chunk_dims_loop (dim # dims) remaining =
     (if remaining \<le> 1 then (dim # dims, remaining)
      else if dim = kDynamic then
        (let (rest, r) = chunk_dims_loop dims remaining in (dim # rest, r))
      else (let g = gcd dim remaining; (rest, r) = chunk_dims_loop dims (remaining sdiv g)
            in (dim sdiv g # rest, r)))"

definition computeChunkDims :: "int list \<Rightarrow> int \<Rightarrow> int list outcome" where
  "computeChunkDims dims chunk_size =
     (if chunk_size < 1 then None
      else (let (new_sizes, remaining) = chunk_dims_loop dims chunk_size in
            if remaining > 1 then failure else success new_sizes))"

section \<open>The largest admissible tile size\<close>

text \<open>A size is admissible when it is a multiple of the divisibility and divides every size that is tiled.\<close>

definition divides_all :: "(loop_op \<times> int) list \<Rightarrow> int \<Rightarrow> bool" where
  "divides_all loops c \<longleftrightarrow> (\<forall>(l, size)\<in>set loops. c dvd size)"

definition admissible :: "int \<Rightarrow> (loop_op \<times> int) list \<Rightarrow> int \<Rightarrow> bool" where
  "admissible divis loops c \<longleftrightarrow> (divis > 1 \<longrightarrow> divis dvd c) \<and> divides_all loops c"

lemma evaluate_dvd: "1 \<le> c \<Longrightarrow> evaluateCandidateTileSize loops c = Some (divides_all loops c)"
  by (induction loops) (auto simp: rem64_def smod_zero_iff divides_all_def)

lemma candidate_loop_largest:
  assumes "1 \<le> m" and "c < 2 ^ 63"
  shows "case candidate_loop loops m divis c of
      None \<Rightarrow> \<forall>x. m \<le> x \<and> x \<le> c \<longrightarrow> \<not> admissible divis loops x
    | Some x \<Rightarrow> m \<le> x \<and> x \<le> c \<and> admissible divis loops x \<and> (\<forall>y. x < y \<and> y \<le> c \<longrightarrow> \<not> admissible divis loops y)"
  using assms
proof (induction loops m divis c rule: candidate_loop.induct)
  case (1 loops m divis c)
  show ?case
  proof (cases "c < m")
    case False
    then have c: "1 \<le> c" "in_int64 (c - 1)" using "1.prems" by (simp_all add: in_int64_def)
    have rem: "(if divis > 1 then map_option (\<lambda>r. r \<noteq> 0) (rem64 c divis) else Some False) = Some (divis > 1 \<and> \<not> divis dvd c)"
      by (simp add: rem64_def smod_zero_iff)
    have step: "candidate_loop loops m divis c =
        (if admissible divis loops c then Some c else candidate_loop loops m divis (c - 1))"
    proof (cases "divis > 1 \<and> \<not> divis dvd c")
      case True
      then show ?thesis
        using False c rem by (subst candidate_loop.simps) (auto simp: admissible_def)
    next
      case no: False
      have f: "(divis > 1 \<and> \<not> divis dvd c) = False" using no by simp
      show ?thesis
        by (subst candidate_loop.simps, unfold rem f)
          (use False c no in \<open>cases "divides_all loops c"; simp add: evaluate_dvd admissible_def\<close>)
    qed
    have IH: "case candidate_loop loops m divis (c - 1) of
        None \<Rightarrow> \<forall>x. m \<le> x \<and> x \<le> c - 1 \<longrightarrow> \<not> admissible divis loops x
      | Some x \<Rightarrow> m \<le> x \<and> x \<le> c - 1 \<and> admissible divis loops x \<and> (\<forall>y. x < y \<and> y \<le> c - 1 \<longrightarrow> \<not> admissible divis loops y)"
      if "\<not> admissible divis loops c"
    proof (cases "divis > 1 \<and> \<not> divis dvd c")
      case True
      then show ?thesis using "1.IH"(1) [of True] False rem c "1.prems" by simp
    next
      case no: False
      then have "\<not> divides_all loops c" using that by (auto simp: admissible_def)
      then show ?thesis using "1.IH"(2) [of False False] False rem c "1.prems" no evaluate_dvd [OF c(1), of loops] by auto
    qed
    have last: "x = c \<or> x \<le> c - 1" if "x \<le> c" for x using that by linarith
    show ?thesis
    proof (cases "admissible divis loops c")
      case True
      then show ?thesis using False step by auto
    next
      case no: False
      show ?thesis unfolding step using IH [OF no] no last
        by (auto split: option.splits)
    qed
  qed (auto simp: candidate_loop.simps)
qed

lemma candidate_loop_eq:
  assumes "1 \<le> m" and "c < 2 ^ 63"
  shows "candidate_loop loops m divis c = Some x \<longleftrightarrow>
      m \<le> x \<and> x \<le> c \<and> admissible divis loops x \<and> (\<forall>y. x < y \<and> y \<le> c \<longrightarrow> \<not> admissible divis loops y)"
    and "candidate_loop loops m divis c = None \<longleftrightarrow> (\<forall>x. m \<le> x \<and> x \<le> c \<longrightarrow> \<not> admissible divis loops x)"
  using candidate_loop_largest [OF assms, where loops = loops and divis = divis]
  by (auto split: option.splits dest: order.trans not_less_iff_gr_or_eq [THEN iffD1]) (metis linorder_neqE)+

section \<open>The loops collected\<close>

text \<open>The loops whose bound is the sz divided by the reserved tile sz, with the sz.\<close>

definition tiled_loops :: "reserve_op \<Rightarrow> (loop_op \<times> int) set" where
  "tiled_loops r = {(l, sz) | l sz us. CeilDivUIOp (Some sz) (rs_result r) us \<in> set (rs_users r) \<and> ForUser l True \<in> set us}"

lemma bound_loops_set: "set (bound_loops sz us) = {(l, sz) | l. ForUser l True \<in> set us}"
  by (induction us) (auto simp: bound_loops_def map_filter_simps split: bound_user.splits bool.splits)

lemma size_users_result:
  "\<exists>ts' u'. fold (size_user_step v) us (ts, u) = (ts', u') \<and> reserve_size_op ts' = reserve_size_op ts \<and>
     set (associated_loops ts') = set (associated_loops ts) \<union>
       {(l, sz) | l sz bs. CeilDivUIOp (Some sz) v bs \<in> set us \<and> ForUser l True \<in> set bs}"
proof (induction us arbitrary: ts u)
  case (Cons x us)
  obtain ts1 u1 where s1: "size_user_step v x (ts, u) = (ts1, u1)" by fastforce
  have ts1: "reserve_size_op ts1 = reserve_size_op ts" "set (associated_loops ts1) = set (associated_loops ts) \<union>
      {(l, sz) | l sz bs. CeilDivUIOp (Some sz) v bs = x \<and> ForUser l True \<in> set bs}"
    using s1 by (auto simp: size_user_step_def Let_def bound_loops_set split: size_user.splits if_splits option.splits)
  obtain ts' u' where "fold (size_user_step v) us (ts1, u1) = (ts', u')" "reserve_size_op ts' = reserve_size_op ts1"
    "set (associated_loops ts') = set (associated_loops ts1) \<union>
       {(l, sz) | l sz bs. CeilDivUIOp (Some sz) v bs \<in> set us \<and> ForUser l True \<in> set bs}"
    using Cons.IH [of ts1 u1] by (elim exE conjE) (rule that)
  then show ?case using s1 ts1 by (intro exI [of _ ts'] exI [of _ u']) auto
qed auto

lemma analyze_reserve_result:
  "\<exists>ts u'. analyze_reserve r (as, u) = (as @ [ts], u') \<and> reserve_size_op ts = r \<and> set (associated_loops ts) = tiled_loops r"
proof -
  obtain ts u' where "fold (size_user_step (rs_result r)) (rs_users r) (\<lparr>reserve_size_op = r, associated_loops = []\<rparr>, u) = (ts, u')"
    "reserve_size_op ts = r" "set (associated_loops ts) = tiled_loops r"
    using size_users_result [of "rs_result r" "rs_users r" "\<lparr>reserve_size_op = r, associated_loops = []\<rparr>" u]
    unfolding tiled_loops_def by auto
  then show ?thesis by (simp add: analyze_reserve_def collectAssociatedLoops_def)
qed

lemma analyze_all:
  "\<exists>tss u'. fold analyze_reserve rs (as, u) = (as @ tss, u') \<and>
     list_all2 (\<lambda>r ts. reserve_size_op ts = r \<and> set (associated_loops ts) = tiled_loops r) rs tss"
proof (induction rs arbitrary: as u)
  case (Cons r rs)
  obtain ts u1 where r: "analyze_reserve r (as, u) = (as @ [ts], u1)" "reserve_size_op ts = r"
    "set (associated_loops ts) = tiled_loops r"
    using analyze_reserve_result [of r as u] by (elim exE conjE) (rule that)
  obtain tss u' where rs: "fold analyze_reserve rs (as @ [ts], u1) = ((as @ [ts]) @ tss, u')"
    "list_all2 (\<lambda>r ts. reserve_size_op ts = r \<and> set (associated_loops ts) = tiled_loops r) rs tss"
    using Cons.IH [of "as @ [ts]" u1] by (elim exE conjE) (rule that)
  show ?case
    by (rule exI [of _ "ts # tss"], rule exI [of _ u']) (use r rs in simp)
qed simp

section \<open>The pass\<close>

text \<open>
  The largest admissible size from the minimum to the larger of two and the minimum; the
  constant of every operation with a tiled loop is this size.
\<close>

definition best_size :: "reserve_op \<Rightarrow> int \<Rightarrow> bool" where
  "best_size r c \<longleftrightarrow> rs_min_value r \<le> c \<and> c \<le> max 2 (rs_min_value r) \<and>
     (rs_divisibility r > 1 \<longrightarrow> rs_divisibility r dvd c) \<and> (\<forall>(l, sz)\<in>tiled_loops r. c dvd sz) \<and>
     (\<forall>c'. c < c' \<and> c' \<le> max 2 (rs_min_value r) \<longrightarrow>
        \<not> ((rs_divisibility r > 1 \<longrightarrow> rs_divisibility r dvd c') \<and> (\<forall>(l, sz)\<in>tiled_loops r. c' dvd sz)))"

definition size_range :: "reserve_op \<Rightarrow> bool" where
  "size_range r \<longleftrightarrow> 1 \<le> rs_min_value r \<and> rs_min_value r < 2 ^ 63"

lemma choose_best:
  assumes "size_range (reserve_size_op ts)" and "set (associated_loops ts) = tiled_loops (reserve_size_op ts)"
  shows "chooseTileSize ts u =
      (if tiled_loops (reserve_size_op ts) = {} then Some (None, u @ [rs_id (reserve_size_op ts)])
       else map_option (\<lambda>c. (Some c, u)) (candidate_loop (associated_loops ts) (rs_min_value (reserve_size_op ts))
         (rs_divisibility (reserve_size_op ts)) (max 2 (rs_min_value (reserve_size_op ts)))))"
    and "candidate_loop (associated_loops ts) (rs_min_value (reserve_size_op ts)) (rs_divisibility (reserve_size_op ts))
        (max 2 (rs_min_value (reserve_size_op ts))) = Some c \<longleftrightarrow> best_size (reserve_size_op ts) c"
proof -
  let ?r = "reserve_size_op ts"
  have e: "associated_loops ts = [] \<longleftrightarrow> tiled_loops ?r = {}" using assms(2) by (metis set_empty)
  show "chooseTileSize ts u =
      (if tiled_loops ?r = {} then Some (None, u @ [rs_id ?r])
       else map_option (\<lambda>c. (Some c, u)) (candidate_loop (associated_loops ts) (rs_min_value ?r)
         (rs_divisibility ?r) (max 2 (rs_min_value ?r))))"
    by (simp add: chooseTileSize_def e kMaxCandidateTileSize_def Let_def map_option_case Option.bind_eq_None_conv
        split: option.split)
  have "admissible (rs_divisibility ?r) (associated_loops ts) x \<longleftrightarrow>
      (rs_divisibility ?r > 1 \<longrightarrow> rs_divisibility ?r dvd x) \<and> (\<forall>(l, sz)\<in>tiled_loops ?r. x dvd sz)" for x
    by (simp add: admissible_def divides_all_def assms(2))
  then show "candidate_loop (associated_loops ts) (rs_min_value ?r) (rs_divisibility ?r) (max 2 (rs_min_value ?r)) = Some c
      \<longleftrightarrow> best_size ?r c"
    using assms(1) by (subst candidate_loop_eq(1)) (auto simp: best_size_def size_range_def)
qed

lemma best_size_unique: "best_size r c \<Longrightarrow> best_size r c' \<Longrightarrow> c = c'"
  unfolding best_size_def by (rule linorder_cases [of c c']) blast+

lemma replace_all:
  assumes "list_all2 (\<lambda>r ts. reserve_size_op ts = r \<and> set (associated_loops ts) = tiled_loops r) rs tss"
    and "\<forall>r\<in>set rs. size_range r"
  shows "case foldM (replace_reserve []) (List.enumerate k tss) (cs, u) of
      None \<Rightarrow> \<exists>r\<in>set rs. tiled_loops r \<noteq> {} \<and> (\<forall>c. \<not> best_size r c)
    | Some (cs', u') \<Rightarrow>
        cs' = cs @ map (\<lambda>r. (rs_id r, THE c. best_size r c)) (filter (\<lambda>r. tiled_loops r \<noteq> {}) rs) \<and>
        (\<forall>r\<in>set rs. tiled_loops r \<noteq> {} \<longrightarrow> (\<exists>c. best_size r c))"
  using assms
proof (induction rs tss arbitrary: k cs u rule: list_all2_induct)
  case (Cons r rs ts tss)
  have r: "reserve_size_op ts = r" "set (associated_loops ts) = tiled_loops r" "size_range r" using Cons by simp_all
  note choose = choose_best [of ts, unfolded r(1), OF r(3,2)]
  have IH: "case foldM (replace_reserve []) (List.enumerate (Suc k) tss) (cs1, u1) of
      None \<Rightarrow> \<exists>r\<in>set rs. tiled_loops r \<noteq> {} \<and> (\<forall>c. \<not> best_size r c)
    | Some (cs', u') \<Rightarrow>
        cs' = cs1 @ map (\<lambda>r. (rs_id r, THE c. best_size r c)) (filter (\<lambda>r. tiled_loops r \<noteq> {}) rs) \<and>
        (\<forall>r\<in>set rs. tiled_loops r \<noteq> {} \<longrightarrow> (\<exists>c. best_size r c))" for cs1 u1
    using Cons.IH Cons.prems by simp
  show ?case
  proof (cases "tiled_loops r = {}")
    case True
    then have "replace_reserve [] (k, ts) (cs, u) = Some (cs, u @ [rs_id r])"
      by (simp add: replace_reserve_def choose(1))
    then show ?thesis using IH [of cs "u @ [rs_id r]"] True by (auto split: option.splits)
  next
    case False
    show ?thesis
    proof (cases "\<exists>c. best_size r c")
      case True
      then obtain c where c: "best_size r c" by blast
      then have the_c: "(THE c. best_size r c) = c" using best_size_unique by blast
      have "candidate_loop (associated_loops ts) (rs_min_value r) (rs_divisibility r) (max 2 (rs_min_value r)) = Some c"
        using choose(2) c by blast
      then have "replace_reserve [] (k, ts) (cs, u) = Some (cs @ [(rs_id r, c)], u)"
        using False by (simp add: replace_reserve_def choose(1) r(1))
      then show ?thesis using IH [of "cs @ [(rs_id r, c)]" u] False c the_c by (auto split: option.splits)
    next
      case none: False
      then have "candidate_loop (associated_loops ts) (rs_min_value r) (rs_divisibility r) (max 2 (rs_min_value r)) = None"
        using choose(2) by (metis not_None_eq)
      then have "replace_reserve [] (k, ts) (cs, u) = None"
        using False by (simp add: replace_reserve_def choose(1))
      then show ?thesis using False none by auto
    qed
  qed
qed simp

section \<open>The division of a chunk over the dimensions\<close>

definition static_product :: "int list \<Rightarrow> int" where
  "static_product dims = prod_list (filter (\<lambda>d. d \<noteq> kDynamic) dims)"

definition size_dim :: "int \<Rightarrow> bool" where
  "size_dim d \<longleftrightarrow> d = kDynamic \<or> 0 \<le> d"

text \<open>How a dimension is reduced: a dynamic one is kept, a static one divided.\<close>

definition reduced_dim :: "int \<Rightarrow> int \<Rightarrow> bool" where
  "reduced_dim d n \<longleftrightarrow> (if d = kDynamic then n = kDynamic else 0 \<le> n \<and> n dvd d)"

lemma sdiv_exact: "0 \<le> (a::int) \<Longrightarrow> 0 < b \<Longrightarrow> a sdiv b = a div b"
  by (simp add: signed_divide_int_def sgn_if)

lemma gcd_split:
  fixes d r p :: int
  assumes "1 < r"
  shows "r dvd d * p \<longleftrightarrow> r div gcd d r dvd p"
proof -
  let ?g = "gcd d r"
  have g: "?g > 0" using assms by simp
  obtain d' r' where e: "d = ?g * d'" "r = ?g * r'" "coprime d' r'"
    using gcd_coprime_exists [of d r] g by (metis gcd_eq_0_iff less_irrefl mult.commute)
  have "r div ?g = r'" using e(2) g by (metis nonzero_mult_div_cancel_left less_irrefl)
  moreover have "r dvd d * p \<longleftrightarrow> r' dvd d' * p"
  proof -
    have "r dvd d * p \<longleftrightarrow> ?g * r' dvd ?g * (d' * p)" using e by (metis mult.assoc)
    then show ?thesis using g assms by auto
  qed
  moreover have "r' dvd d' * p \<longleftrightarrow> r' dvd p" using e(3) by (metis coprime_commute coprime_dvd_mult_right_iff)
  ultimately show ?thesis by simp
qed

lemma chunk_dims_loop_result:
  assumes "\<forall>d\<in>set dims. size_dim d" and "1 \<le> r"
  shows "\<exists>ns r'. chunk_dims_loop dims r = (ns, r') \<and> 1 \<le> r' \<and> r' dvd r \<and>
    list_all2 reduced_dim dims ns \<and> static_product dims = static_product ns * (r div r') \<and>
    (r' = 1 \<longleftrightarrow> r dvd static_product dims)"
  using assms
proof (induction dims arbitrary: r)
  case Nil
  then show ?case by (auto simp: static_product_def)
next
  case (Cons d dims)
  have refl: "list_all2 reduced_dim ds ds" if "\<forall>d\<in>set ds. size_dim d" for ds
    using that by (induction ds) (auto simp: reduced_dim_def size_dim_def)
  show ?case
  proof (cases "r = 1")
    case True
    then show ?thesis using refl [OF Cons.prems(1)] by simp
  next
    case False
    then have r: "1 < r" using Cons.prems(2) by simp
    show ?thesis
    proof (cases "d = kDynamic")
      case True
      obtain ns r' where IH: "chunk_dims_loop dims r = (ns, r')" "1 \<le> r'" "r' dvd r" "list_all2 reduced_dim dims ns"
        "static_product dims = static_product ns * (r div r')" "r' = 1 \<longleftrightarrow> r dvd static_product dims"
        using Cons.IH [of r] Cons.prems by auto
      moreover have "reduced_dim kDynamic kDynamic" by (simp add: reduced_dim_def)
      ultimately show ?thesis using True r by (simp add: static_product_def)
    next
      case st: False
      then have d: "0 \<le> d" using Cons.prems(1) by (simp add: size_dim_def)
      let ?g = "gcd d r"
      have g: "?g > 0" "?g dvd d" "?g dvd r" using r by simp_all
      have "?g \<le> r" using zdvd_imp_le [OF g(3)] r by simp
      then have q: "1 \<le> r div ?g" using pos_imp_zdiv_pos_iff [OF g(1), of r] by simp
      obtain ns r' where IH: "chunk_dims_loop dims (r div ?g) = (ns, r')" "1 \<le> r'" "r' dvd r div ?g" "list_all2 reduced_dim dims ns"
        "static_product dims = static_product ns * (r div ?g div r')" "r' = 1 \<longleftrightarrow> r div ?g dvd static_product dims"
        using Cons.IH [OF _ q] Cons.prems by auto
      have n: "d div ?g \<noteq> kDynamic" "0 \<le> d div ?g" using d g pos_imp_zdiv_nonneg_iff [of ?g d] by (auto simp: kDynamic_def)
      have "chunk_dims_loop (d # dims) r = (d div ?g # ns, r')"
        using r st d g IH(1) by (simp add: sdiv_exact Let_def)
      moreover have "r' dvd r" using IH(3) g(3) by (metis dvd_div_mult_self dvd_mult2)
      moreover have "list_all2 reduced_dim (d # dims) (d div ?g # ns)"
      proof -
        have "d = d div ?g * ?g" using g(2) by simp
        then have "d div ?g dvd d" by (metis dvd_triv_left)
        then show ?thesis using IH(4) st n by (simp add: reduced_dim_def)
      qed
      moreover have "static_product (d # dims) = static_product (d div ?g # ns) * (r div r')"
      proof -
        have "r div r' = ?g * (r div ?g div r')"
          using IH(3) g by (metis div_mult_swap dvd_mult_div_cancel)
        moreover have "d = d div ?g * ?g" using g(2) by simp
        ultimately have "d * static_product dims = (d div ?g) * static_product ns * (r div r')"
          using IH(5) by (metis (no_types, lifting) mult.assoc mult.commute)
        then show ?thesis using st n(1) by (simp add: static_product_def)
      qed
      moreover have "r' = 1 \<longleftrightarrow> r dvd static_product (d # dims)"
        using IH(6) gcd_split [OF r, of d "static_product dims"] st by (simp add: static_product_def)
      ultimately show ?thesis using IH(2) by blast
    qed
  qed
qed

section \<open>The number of chunks\<close>

lemma chunk_loop_result:
  assumes "1 \<le> n" and "0 \<le> bytes"
  shows "(\<exists>k. n \<le> k \<and> k \<le> max_n \<and> bytes div k \<le> limit \<and> (\<forall>j. n \<le> j \<and> j < k \<longrightarrow> limit < bytes div j) \<and>
      chunk_loop bytes limit max_n n = nat (k mod 2 ^ 32)) \<or>
    (\<forall>k. n \<le> k \<and> k \<le> max_n \<longrightarrow> limit < bytes div k) \<and> chunk_loop bytes limit max_n n = 0"
  using assms
proof (induction bytes limit max_n n rule: chunk_loop.induct)
  case (1 bytes limit max_n n)
  have d: "bytes sdiv n = bytes div n" using "1.prems" by (simp add: sdiv_exact)
  show ?case
  proof (cases "n \<le> max_n")
    case True
    show ?thesis
    proof (cases "bytes div n \<le> limit")
      case True
      then show ?thesis using \<open>n \<le> max_n\<close> d by (intro disjI1 exI [of _ n]) (simp add: chunk_loop.simps)
    next
      case False
      have step: "chunk_loop bytes limit max_n n = chunk_loop bytes limit max_n (n + 1)"
        using True False d by (simp add: chunk_loop.simps [of _ _ _ n])
      have less: "limit < bytes div j" if "n \<le> j" "j < n + 1" for j
        using False that by (metis linorder_not_less order_antisym zle_add1_eq_le)
      have "\<not> bytes sdiv n \<le> limit" "1 \<le> n + 1" using False d "1.prems"(1) by simp_all
      from "1.IH" [OF True this "1.prems"(2)] show ?thesis
      proof (elim disjE exE conjE)
        fix k assume k: "n + 1 \<le> k" "k \<le> max_n" "bytes div k \<le> limit" "\<forall>j. n + 1 \<le> j \<and> j < k \<longrightarrow> limit < bytes div j"
          "chunk_loop bytes limit max_n (n + 1) = nat (k mod 2 ^ 32)"
        have "limit < bytes div j" if "n \<le> j" "j < k" for j
          using less [of j] k(4) that by (cases "n + 1 \<le> j") auto
        then show ?thesis using k step by (intro disjI1 exI [of _ k]) simp
      next
        assume k: "\<forall>k. n + 1 \<le> k \<and> k \<le> max_n \<longrightarrow> limit < bytes div k" "chunk_loop bytes limit max_n (n + 1) = 0"
        have "limit < bytes div j" if "n \<le> j" "j \<le> max_n" for j
          using less [of j] k(1) that by (cases "n + 1 \<le> j") auto
        then show ?thesis using k(2) step by simp
      qed
    qed
  qed (simp add: chunk_loop.simps)
qed

text \<open>Sizes given on the command line are taken as they are, one for each operation.\<close>

lemma replace_given:
  assumes "sizes \<noteq> []" and "k + length tss \<le> length sizes"
  shows "foldM (replace_reserve sizes) (List.enumerate k tss) (cs, u) =
    Some (cs @ zip (map (\<lambda>ts. rs_id (reserve_size_op ts)) tss) (take (length tss) (drop k sizes)), u)"
  using assms(2)
proof (induction tss arbitrary: k cs)
  case (Cons ts tss)
  have "drop k sizes = sizes ! k # drop (Suc k) sizes" using Cons.prems by (simp add: Cons_nth_drop_Suc)
  then show ?case using Cons.IH [of "Suc k"] Cons.prems assms(1) by (simp add: replace_reserve_def)
qed simp

lemma selectTileSizes_given:
  assumes "sizes \<noteq> []" and "ops \<noteq> []"
  shows "if length sizes \<noteq> length ops then selectTileSizes False sizes ops = failure
    else \<exists>u. selectTileSizes False sizes ops = success (zip (map rs_id ops) sizes, u)"
proof -
  obtain tss u where an: "fold analyze_reserve ops ([], []) = (tss, u)"
    "list_all2 (\<lambda>r ts. reserve_size_op ts = r \<and> set (associated_loops ts) = tiled_loops r) ops tss"
    using analyze_all [of ops "[]" "[]"] by auto
  then have len: "length tss = length ops" by (simp add: list_all2_lengthD)
  have ids: "map (\<lambda>ts. rs_id (reserve_size_op ts)) tss = map rs_id ops"
    using an(2) by (induction rule: list_all2_induct) auto
  show ?thesis using assms replace_given [OF assms(1), of 0 tss "[]" u] len ids by (simp add: selectTileSizes_def an(1))
qed

lemma collect_dim_sizes_cases:
  "\<forall>d\<in>set dims. d < length ranges \<Longrightarrow> collect_dim_sizes ranges dims acc =
     (if \<forall>d\<in>set dims. ranges ! d \<noteq> kDynamic then success (acc @ map ((!) ranges) dims) else failure)"
  by (induction dims arbitrary: acc) auto

lemma product64_value: "product64 xs = Some m \<Longrightarrow> m = prod_list xs"
proof -
  have "foldM (\<lambda>x acc. ck64 (acc * x)) xs a = Some m \<Longrightarrow> m = a * prod_list xs" for a
  proof (induction xs arbitrary: a)
    case (Cons x xs)
    then have "foldM (\<lambda>x acc. ck64 (acc * x)) xs (a * x) = Some m" by (simp add: ck64_def split: if_splits)
    then show ?case using Cons.IH [of "a * x"] by (simp add: mult.assoc)
  qed simp
  then show "product64 xs = Some m \<Longrightarrow> m = prod_list xs" by (fastforce simp: product64_def)
qed

lemma collect_dim_sizes_result:
  "\<forall>d\<in>set dims. d < length ranges \<and> ranges ! d \<noteq> kDynamic \<Longrightarrow>
     collect_dim_sizes ranges dims acc = success (acc @ map ((!) ranges) dims)"
  by (induction dims arbitrary: acc) auto

text \<open>
  When the number of chunks can be computed at all: a reduced dimension, a ranked static first input with
  elements of a fixed width, and static reduced dimensions. The size of the input in bytes counts whole
  bytes per element, so elements narrower than a byte count as none.
\<close>

definition reduction_sizes :: "generic_op \<Rightarrow> int list" where
  "reduction_sizes g = map ((!) (loop_ranges g)) (go_reduction_dims g)"

definition static_reduction :: "generic_op \<Rightarrow> bool" where
  "static_reduction g \<longleftrightarrow> (\<forall>d\<in>set (go_reduction_dims g). loop_ranges g ! d \<noteq> kDynamic)"

definition tensor_bytes :: "ranked_tensor \<Rightarrow> nat \<Rightarrow> int" where
  "tensor_bytes t bits = int (bits div 8) * num_elements t"

definition chunkable :: "generic_op \<Rightarrow> ranked_tensor \<Rightarrow> nat \<Rightarrow> bool" where
  "chunkable g t bits \<longleftrightarrow> go_reduction_dims g \<noteq> [] \<and> first_input g = Some t \<and> element_bits t = Some bits \<and>
     static_shape t \<and> static_reduction g"

section \<open>Properties\<close>

text \<open>C30: Without sizes on the command line, and with minimum sizes of at least one: every reserved size
  that bounds a tiled loop gets a size that is admissible and is the best one up to the limit,
  which divides the size of each of its loops; the pass hits its unreachable exactly when some
  such reserved size has no admissible value. Sizes on the command line are taken as they are,
  one for each reserved size, and a wrong number of them is an error.\<close>

theorem selectTileSizes_best:
  assumes "ops \<noteq> []" and "\<forall>r\<in>set ops. size_range r"
  shows "(case selectTileSizes False [] ops of
      None \<Rightarrow> \<exists>r\<in>set ops. tiled_loops r \<noteq> {} \<and> (\<forall>c. \<not> best_size r c)
    | Some None \<Rightarrow> False
    | Some (Some (constants, _)) \<Rightarrow>
        list_all2 (\<lambda>r (i, c). i = rs_id r \<and> best_size r c \<and> (\<forall>(l, sz)\<in>tiled_loops r. c * ((sz + c - 1) div c) = sz))
          (filter (\<lambda>r. tiled_loops r \<noteq> {}) ops) constants) \<and>
    (\<forall>sizes. sizes \<noteq> [] \<longrightarrow> (if length sizes \<noteq> length ops then selectTileSizes False sizes ops = failure
      else \<exists>u. selectTileSizes False sizes ops = success (zip (map rs_id ops) sizes, u)))"
    (is "?chosen \<and> (\<forall>sizes. _ \<longrightarrow> ?given sizes)")
proof -
  have given: "?given sizes" if "sizes \<noteq> []" for sizes
    using selectTileSizes_given [OF that assms(1)] .

  obtain tss u where an: "fold analyze_reserve ops ([], []) = (tss, u)"
    "list_all2 (\<lambda>r ts. reserve_size_op ts = r \<and> set (associated_loops ts) = tiled_loops r) ops tss"
    using analyze_all [of ops "[]" "[]"] by auto
  have exact: "c * ((sz + c - 1) div c) = sz" if c: "best_size r c" "size_range r" "(l, sz) \<in> tiled_loops r" for r c l sz
  proof -
    have "c \<ge> 1" "c dvd sz" using c by (auto simp: best_size_def size_range_def)
    then obtain k where "sz = c * k" by blast
    then show ?thesis using \<open>c \<ge> 1\<close> by (simp add: add_diff_eq [symmetric] div_pos_pos_trivial)
  qed
  have "list_all2 (\<lambda>r (i, c). i = rs_id r \<and> best_size r c \<and> (\<forall>(l, sz)\<in>tiled_loops r. c * ((sz + c - 1) div c) = sz))
      rs (map (\<lambda>r. (rs_id r, THE c. best_size r c)) rs)"
    if "\<forall>r\<in>set rs. size_range r \<and> (\<exists>c. best_size r c)" for rs
    using that
  proof (induction rs)
    case (Cons r rs)
    then obtain c where c: "best_size r c" "size_range r" by auto
    then have "(THE c. best_size r c) = c" using best_size_unique by blast
    then show ?case using Cons c exact [OF c] by auto
  qed simp
  then have ?chosen
    using replace_all [OF an(2) assms(2), where k = 0 and cs = "[]" and u = u] assms
    by (auto simp: selectTileSizes_def an(1) split: option.splits)
  then show ?thesis using given by blast
qed

theorem selectTileSizes_unreachable:
  assumes "rs_min_value r = 1" and "rs_divisibility r > 2" and "tiled_loops r \<noteq> {}"
  shows "selectTileSizes False [] [r] = None"
proof -
  obtain ts u where an: "analyze_reserve r ([], []) = ([ts], u)" "reserve_size_op ts = r"
    "set (associated_loops ts) = tiled_loops r"
    using analyze_reserve_result [of r "[]" "[]"] by auto
  have sr: "size_range (reserve_size_op ts)" using assms(1) an(2) by (simp add: size_range_def)
  have "\<not> rs_divisibility r dvd c" if "1 \<le> c" "c \<le> 2" for c
    using zdvd_imp_le [of "rs_divisibility r" c] assms(2) that by linarith
  then have "\<not> best_size r c" for c using assms(1,2) by (auto simp: best_size_def)
  then have "candidate_loop (associated_loops ts) (rs_min_value r) (rs_divisibility r) (max 2 (rs_min_value r)) = None"
    using choose_best(2) [OF sr] an(2,3) by (metis not_None_eq)
  then have "replace_reserve [] (0, ts) ([], u) = None"
    using choose_best(1) [OF sr] an(2,3) assms(3) by (simp add: replace_reserve_def)
  then show ?thesis by (simp add: selectTileSizes_def an(1))
qed

theorem computeChunkDims_iff:
  assumes "\<forall>d\<in>set dims. size_dim d" and "1 \<le> chunk_size"
  shows "computeChunkDims dims chunk_size = failure \<and> \<not> chunk_size dvd static_product dims \<or>
    (\<exists>new_sizes. computeChunkDims dims chunk_size = success new_sizes \<and> chunk_size dvd static_product dims \<and>
      list_all2 reduced_dim dims new_sizes \<and> static_product new_sizes * chunk_size = static_product dims)"
proof -
  obtain ns r where r: "chunk_dims_loop dims chunk_size = (ns, r)" "1 \<le> r" "list_all2 reduced_dim dims ns"
    "static_product dims = static_product ns * (chunk_size div r)" "r = 1 \<longleftrightarrow> chunk_size dvd static_product dims"
    using chunk_dims_loop_result [OF assms] by (elim exE conjE) (rule that)
  show ?thesis
  proof (cases "r = 1")
    case True
    then have "computeChunkDims dims chunk_size = success ns" using r(1) assms(2) by (simp add: computeChunkDims_def)
    moreover have "static_product ns * chunk_size = static_product dims" using r(4) True by simp
    ultimately show ?thesis using r(3,5) True by blast
  next
    case False
    then show ?thesis using r assms(2) by (simp add: computeChunkDims_def)
  qed
qed

text \<open>C31: When the byte count and the product of the reduced dimensions do not overflow and the product is
  below 2^32: the analysis succeeds exactly on operations with a reduced dimension, static
  reduced dimensions and a static ranked first input with integer or float elements for which
  some number of chunks up to the product brings the bytes per chunk, rounded down, to the
  limit, and then gives the least such number. An element counts whole bytes only, so elements
  narrower than a byte count as none.\<close>

theorem analyzeReductionChunks_least:
  assumes "\<forall>d\<in>set (go_reduction_dims g). d < length (loop_ranges g)"
    and "\<And>t bits. first_input g = Some t \<Longrightarrow> element_bits t = Some bits \<Longrightarrow> static_shape t \<Longrightarrow>
      0 \<le> num_elements t \<and> in_int64 (tensor_bytes t bits)"
    and "static_reduction g \<Longrightarrow> product64 (reduction_sizes g) \<noteq> None \<and> prod_list (reduction_sizes g) < 2 ^ 32"
  shows "(\<exists>t bits n. chunkable g t bits \<and> 1 \<le> n \<and> n \<le> prod_list (reduction_sizes g) \<and>
      tensor_bytes t bits div n \<le> limit \<and> (\<forall>j. 1 \<le> j \<and> j < n \<longrightarrow> limit < tensor_bytes t bits div j) \<and>
      analyzeReductionChunks g limit = success \<lparr>num_chunks = nat n, rc_reduction_dims = go_reduction_dims g,
        red_dim_sizes = reduction_sizes g\<rparr>) \<or>
    (\<forall>t bits. chunkable g t bits \<longrightarrow> (\<forall>n. 1 \<le> n \<and> n \<le> prod_list (reduction_sizes g) \<longrightarrow> limit < tensor_bytes t bits div n)) \<and>
      analyzeReductionChunks g limit = failure"
proof (cases "\<exists>t bits. chunkable g t bits")
  case False
  have ck: "ck64 (int (bits div 8) * num_elements t) = Some (tensor_bytes t bits)"
    if "first_input g = Some t" "element_bits t = Some bits" "static_shape t" for t bits
    using assms(2) [OF that] by (simp add: ck64_def tensor_bytes_def)
  have "analyzeReductionChunks g limit = failure"
    using False ck collect_dim_sizes_cases [OF assms(1), of "[]"]
    by (auto simp: analyzeReductionChunks_def chunkable_def static_reduction_def split: option.splits)
  then show ?thesis using False by blast
next
  case True
  then obtain t bits where c: "chunkable g t bits" by blast
  then have c': "go_reduction_dims g \<noteq> []" "first_input g = Some t" "element_bits t = Some bits" "static_shape t" "static_reduction g"
    by (simp_all add: chunkable_def)
  have same: "t' = t \<and> bits' = bits" if "chunkable g t' bits'" for t' bits' using c c' that by (simp add: chunkable_def)
  let ?bytes = "tensor_bytes t bits" and ?max = "prod_list (reduction_sizes g)"
  have bytes: "0 \<le> ?bytes" "ck64 (int (bits div 8) * num_elements t) = Some ?bytes"
    using assms(2) [OF c'(2-4)] by (simp_all add: ck64_def tensor_bytes_def)
  have prod: "product64 (reduction_sizes g) = Some ?max" "?max < 2 ^ 32"
    using assms(3) [OF c'(5)] product64_value by auto
  have run: "analyzeReductionChunks g limit =
      (if chunk_loop ?bytes limit ?max 1 = 0 then failure
       else success \<lparr>num_chunks = chunk_loop ?bytes limit ?max 1, rc_reduction_dims = go_reduction_dims g,
         red_dim_sizes = reduction_sizes g\<rparr>)"
    using c' bytes(2) prod(1) collect_dim_sizes_cases [OF assms(1), of "[]"]
    by (simp add: analyzeReductionChunks_def Let_def static_reduction_def reduction_sizes_def)
  from chunk_loop_result [OF order_refl bytes(1), of ?max limit] show ?thesis
  proof (elim disjE exE conjE)
    fix k assume k: "1 \<le> k" "k \<le> ?max" "?bytes div k \<le> limit" "\<forall>j. 1 \<le> j \<and> j < k \<longrightarrow> limit < ?bytes div j"
      "chunk_loop ?bytes limit ?max 1 = nat (k mod 2 ^ 32)"
    have "k mod 2 ^ 32 = k" using k(1,2) prod(2) by simp
    then have "analyzeReductionChunks g limit = success \<lparr>num_chunks = nat k, rc_reduction_dims = go_reduction_dims g,
        red_dim_sizes = reduction_sizes g\<rparr>"
      using run k(1,5) by simp
    then show ?thesis using k c by blast
  next
    assume k: "\<forall>k. 1 \<le> k \<and> k \<le> ?max \<longrightarrow> limit < ?bytes div k" "chunk_loop ?bytes limit ?max 1 = 0"
    then show ?thesis using run same by auto
  qed
qed

section \<open>Examples\<close>

text \<open>A dimension of 12 tiled by the reserved size, and an operation that no loop uses.\<close>

definition tile_op :: "int \<Rightarrow> reserve_op" where
  "tile_op divis = \<lparr>rs_id = 1, rs_result = 7,
     rs_users = [CeilDivUIOp (Some 12) 7 [OtherBoundUser, ForUser 3 True], OtherSizeUser],
     rs_min_value = 1, rs_divisibility = divis\<rparr>"

definition lone_op :: reserve_op where
  "lone_op = \<lparr>rs_id = 2, rs_result = 8, rs_users = [CeilDivUIOp (Some 12) 7 []], rs_min_value = 1, rs_divisibility = 1\<rparr>"

theorem selectTileSizes_best_witness:
  "selectTileSizes False [] [tile_op 1, lone_op] = success ([(1, 2)], [2, 2]) \<and> best_size (tile_op 1) 2"
proof -
  have run: "selectTileSizes False [] [tile_op 1, lone_op] = success ([(1, 2)], [2, 2])" by code_simp
  have "tiled_loops (tile_op 1) = {(3, 12)}" "tiled_loops lone_op = {}"
    by (auto simp: tiled_loops_def tile_op_def lone_op_def)
  then show ?thesis
    using selectTileSizes_best [of "[tile_op 1, lone_op]"] run by (simp add: size_range_def tile_op_def lone_op_def)
qed

theorem selectTileSizes_unreachable_witness: "selectTileSizes False [] [tile_op 3] = None"
proof (rule selectTileSizes_unreachable)
  show "tiled_loops (tile_op 3) \<noteq> {}" by (auto simp: tiled_loops_def tile_op_def)
qed (simp_all add: tile_op_def)

theorem computeChunkDims_iff_witness:
  "computeChunkDims [6, kDynamic, 10] 4 = success [3, kDynamic, 5] \<and> computeChunkDims [3, 5] 2 = failure \<and>
   (4::int) dvd static_product [6, kDynamic, 10] \<and> \<not> (2::int) dvd static_product [3, 5]"
proof -
  have "computeChunkDims [6, kDynamic, 10] 4 = success [3, kDynamic, 5]" "computeChunkDims [3, 5] 2 = failure" by code_simp+
  moreover have "\<forall>d\<in>set [6, kDynamic, 10]. size_dim d" "\<forall>d\<in>set [3, 5 :: int]. size_dim d" by (simp_all add: size_dim_def)
  ultimately show ?thesis
    using computeChunkDims_iff [of "[6, kDynamic, 10]" 4] computeChunkDims_iff [of "[3, 5]" 2] by auto
qed

text \<open>Four mebibytes of floats in chunks of at most one.\<close>

definition row_sum :: generic_op where
  "row_sum = \<lparr>go_reduction_dims = [1], first_input = Some \<lparr>element_bits = Some 32, static_shape = True, num_elements = 2 ^ 20\<rparr>,
     loop_ranges = [1024, 1024]\<rparr>"

theorem analyzeReductionChunks_least_witness:
  "analyzeReductionChunks row_sum (2 ^ 20) = success \<lparr>num_chunks = 4, rc_reduction_dims = [1], red_dim_sizes = [1024]\<rparr>"
proof -
  let ?limit = "2 ^ 20 :: int"
  have p: "product64 (reduction_sizes row_sum) = Some 1024" by code_simp
  have sz: "reduction_sizes row_sum = [1024]" "prod_list (reduction_sizes row_sum) = 1024"
    by (simp_all add: reduction_sizes_def row_sum_def)
  have ch: "chunkable row_sum t bits \<longleftrightarrow> t = \<lparr>element_bits = Some 32, static_shape = True, num_elements = 2 ^ 20\<rparr> \<and> bits = 32" for t bits
    by (auto simp: chunkable_def static_reduction_def row_sum_def kDynamic_def)
  have red: "go_reduction_dims row_sum = [1]" by (simp add: row_sum_def)
  have dims: "\<forall>d\<in>set (go_reduction_dims row_sum). d < length (loop_ranges row_sum)" by (simp add: row_sum_def)
  have bound: "0 \<le> num_elements t \<and> in_int64 (tensor_bytes t bits)"
    if "first_input row_sum = Some t" "element_bits t = Some bits" "static_shape t" for t bits
    using that by (auto simp: row_sum_def tensor_bytes_def in_int64_def)
  have b: "tensor_bytes \<lparr>element_bits = Some 32, static_shape = True, num_elements = 2 ^ 20\<rparr> 32 = 4 * 2 ^ 20"
    by (simp add: tensor_bytes_def)
  have "(\<exists>n. 1 \<le> n \<and> n \<le> 1024 \<and> 4 * 2 ^ 20 div n \<le> ?limit \<and> (\<forall>j. 1 \<le> j \<and> j < n \<longrightarrow> ?limit < 4 * 2 ^ 20 div j) \<and>
      analyzeReductionChunks row_sum ?limit = success \<lparr>num_chunks = nat n, rc_reduction_dims = [1], red_dim_sizes = [1024]\<rparr>) \<or>
    (\<forall>n. 1 \<le> n \<and> n \<le> 1024 \<longrightarrow> ?limit < 4 * 2 ^ 20 div n) \<and> analyzeReductionChunks row_sum ?limit = failure"
    using analyzeReductionChunks_least [of row_sum ?limit, OF dims bound] p b by (simp add: ch sz red)
  moreover have "n = 4" if n: "1 \<le> n" "4 * 2 ^ 20 div n \<le> ?limit" "\<forall>j. 1 \<le> j \<and> j < n \<longrightarrow> ?limit < 4 * 2 ^ 20 div j" for n :: int
  proof (rule ccontr)
    assume "n \<noteq> 4"
    then consider "n = 1" | "n = 2" | "n = 3" | "4 < n" using n(1) by linarith
    then show False using n(2) n(3)[rule_format, of 4] by cases simp_all
  qed
  moreover have "\<not> (\<forall>n. 1 \<le> n \<and> n \<le> 1024 \<longrightarrow> ?limit < 4 * 2 ^ 20 div n)"
  proof
    assume "\<forall>n. 1 \<le> n \<and> n \<le> 1024 \<longrightarrow> ?limit < 4 * 2 ^ 20 div n"
    from this [rule_format, of 4] show False by simp
  qed
  ultimately show ?thesis by fastforce
qed

end
