(* ===== verification/PlanTransfers.thy ===== *)
theory PlanTransfers
  imports PlanRun TileSizes
begin

text \<open>
  Steps 2, 2b and 3 of \<open>buildExpansionPlan\<close> in \<open>lib/Transforms/PathExpansion/Planner.cpp\<close> and the
  factories of \<open>lib/Transforms/PathExpansion/PlannerFactories.cpp\<close>: the buffers and FIFOs that carry
  a flow over the boundaries of its route, the transfers of the hop stages, and the retyping of the
  FIFOs between original stages. With them the planner is complete.
\<close>

section \<open>What the plan holds\<close>

text \<open>
  The accessors of the dialects that these steps call, as data: the shape of a memref, the element
  type of a memref or slot, the size of a slot (\<open>None\<close> when it is dynamic), the operation and
  result number that define a value, the operands of the yield of a \<open>ktdf.private\<close>, the results of
  a \<open>fifo.allocate\<close>, how an operation addresses an operand, and whether an operation is in a function.
\<close>

type_synonym elem_type = string

datatype size_value = StaticSize int | DynamicSize val
datatype index_value = OfValue val | ZeroIndex
datatype subscript_map = OpMap string | IdentityMap nat

record operand_address =
  oa_indices :: "val list"
  oa_sizes :: "size_value list"
  oa_map :: "string option"

record transfer_ir =
  kind_of :: "op \<Rightarrow> body_kind"
  memref_shape :: "val \<Rightarrow> int list"
  element_type_of :: "val \<Rightarrow> elem_type"
  slot_elements :: "val \<Rightarrow> int option"
  defining_op :: "val \<Rightarrow> (op \<times> nat) option"
  private_yield :: "op \<Rightarrow> val list option"
  fifo_allocate :: "op \<Rightarrow> val list option"
  addressing :: "op \<Rightarrow> bool \<Rightarrow> operand_address"
  constant_value :: "val \<Rightarrow> int option"
  in_function :: "op \<Rightarrow> bool"

text \<open>\<open>PrivateResourceSpec\<close>; the kind \<open>kUnknown\<close> is never created. Null attributes are \<open>None\<close>.\<close>

datatype spec_kind = MemoryBuffer | FifoSpec | ExistingValue

record resource_spec =
  sp_kind :: spec_kind
  memory_resource :: "resource option"
  existing_value :: "val option"
  fifo_src :: "resource option"
  fifo_dest :: "resource option"
  elements_per_slot :: "int list"
  sp_shape :: "int list"
  sp_element_type :: "elem_type option"

text \<open>\<open>TransferSide\<close> and \<open>TransferMaterializationInfo\<close>. A pointer to an object is its position in the
  list of its owner.\<close>

record transfer_side =
  sd_resource :: "nat option"
  slot_index :: nat
  sd_indices :: "index_value list"
  sd_sizes :: "size_value list"
  sd_map :: "subscript_map option"

record transfer_info =
  ti_template :: "op option"
  hop_edge :: edge_info
  source_resource :: "resource option"
  dest_resource :: "resource option"
  ti_mode :: transfer_mode
  ti_source :: transfer_side
  ti_dest :: transfer_side

definition side :: "bool \<Rightarrow> transfer_info \<Rightarrow> transfer_side" where
  "side source_side t = (if source_side then ti_source t else ti_dest t)"

definition set_side :: "bool \<Rightarrow> transfer_side \<Rightarrow> transfer_info \<Rightarrow> transfer_info" where
  "set_side source_side d t = (if source_side then t\<lparr>ti_source := d\<rparr> else t\<lparr>ti_dest := d\<rparr>)"

definition empty_side :: transfer_side where
  "empty_side = \<lparr>sd_resource = None, slot_index = 0, sd_indices = [], sd_sizes = [], sd_map = None\<rparr>"

text \<open>
  The state of the steps: the plan, the objects of the two factories, the transfers of every stage,
  the two maps of \<open>BoundaryFifos\<close>, the carriers of every flow, and the operations before whose
  functions a constant zero was created.
\<close>

type_synonym fifo_key = "op option \<times> resource \<times> resource"

record planning =
  ps_plan :: plan
  resource_specs :: "resource_spec list"
  transfer_infos :: "transfer_info list"
  stage_transfers :: "ptr \<Rightarrow> nat list"
  key_spec :: "fifo_key \<Rightarrow> nat option"
  next_slot :: "fifo_key \<Rightarrow> nat"
  flow_carriers :: "nat \<Rightarrow> transfer_side list"
  zero_constants :: "op list"

definition start_planning :: "plan \<Rightarrow> planning" where
  "start_planning P = \<lparr>ps_plan = P, resource_specs = [], transfer_infos = [], stage_transfers = (\<lambda>_. []),
     key_spec = (\<lambda>_. None), next_slot = (\<lambda>_. 0), flow_carriers = (\<lambda>_. []), zero_constants = []\<rparr>"

section \<open>The factories\<close>

definition add_spec :: "resource_spec \<Rightarrow> planning \<Rightarrow> planning \<times> nat" where
  "add_spec sp S = (S\<lparr>resource_specs := resource_specs S @ [sp]\<rparr>, length (resource_specs S))"

definition createMemoryBuffer ::
  "resource \<Rightarrow> int list \<Rightarrow> elem_type option \<Rightarrow> planning \<Rightarrow> planning \<times> nat" where
  "createMemoryBuffer mem shp elt =
     add_spec \<lparr>sp_kind = MemoryBuffer, memory_resource = Some mem, existing_value = None, fifo_src = None,
       fifo_dest = None, elements_per_slot = [], sp_shape = shp, sp_element_type = elt\<rparr>"

definition createFifo ::
  "resource \<Rightarrow> resource \<Rightarrow> int list \<Rightarrow> elem_type option \<Rightarrow> planning \<Rightarrow> planning \<times> nat" where
  "createFifo src dest slots elt =
     add_spec \<lparr>sp_kind = FifoSpec, memory_resource = None, existing_value = None, fifo_src = Some src,
       fifo_dest = Some dest, elements_per_slot = slots, sp_shape = [], sp_element_type = elt\<rparr>"

text \<open>The casts to a memref type and of its memory space to a resource kind assert.\<close>

definition createExistingValue ::
  "planner_ir \<Rightarrow> transfer_ir \<Rightarrow> val \<Rightarrow> planning \<Rightarrow> (planning \<times> nat) option" where
  "createExistingValue ir tir v S =
     (case memrefMemorySpace ir v of
        Some (Some space) \<Rightarrow> Some (add_spec \<lparr>sp_kind = ExistingValue, memory_resource = Some space,
          existing_value = Some v, fifo_src = None, fifo_dest = None, elements_per_slot = [],
          sp_shape = memref_shape tir v, sp_element_type = Some (element_type_of tir v)\<rparr> S)
      | _ \<Rightarrow> None)"

text \<open>The values the materializer allocates for a resource; a later registration replaces an earlier one.\<close>

type_synonym allocations = "nat \<Rightarrow> val list option"

definition registerAllocation :: "nat \<Rightarrow> val list \<Rightarrow> allocations \<Rightarrow> allocations" where
  "registerAllocation sp ssa_values A = A(sp \<mapsto> ssa_values)"

definition getAllocation :: "allocations \<Rightarrow> nat \<Rightarrow> val list option" where
  "getAllocation A sp = A sp"

definition deriveSizesFromResourceSpec :: "resource_spec \<Rightarrow> nat \<Rightarrow> size_value list option" where
  "deriveSizesFromResourceSpec sp slot =
     (case sp_kind sp of
        FifoSpec \<Rightarrow> (if slot < length (elements_per_slot sp)
                     then Some [StaticSize (elements_per_slot sp ! slot)] else None)
      | MemoryBuffer \<Rightarrow> Some (map StaticSize (sp_shape sp))
      | ExistingValue \<Rightarrow> Some [])"

text \<open>The operand of a transfer on one side; \<open>cast<IndDataTransferOp>\<close> asserts the class.\<close>

definition getTemplateOperand :: "transfer_ir \<Rightarrow> op \<Rightarrow> bool \<Rightarrow> (val \<times> transfer_side) option" where
  "getTemplateOperand tir q source_side =
     (let a = addressing tir q source_side;
          d = \<lparr>sd_resource = None, slot_index = 0, sd_indices = map OfValue (oa_indices a),
               sd_sizes = oa_sizes a, sd_map = map_option OpMap (oa_map a)\<rparr>
      in case kind_of tir q of
           DataTransferOp src dst _ \<Rightarrow> Some (if source_side then src else dst, d)
         | IndDataTransferOp src dst _ \<Rightarrow> Some (if source_side then src else dst, d)
         | _ \<Rightarrow> None)"

definition describeTemplateSide :: "transfer_ir \<Rightarrow> op \<Rightarrow> bool \<Rightarrow> transfer_side option" where
  "describeTemplateSide tir q source_side = map_option snd (getTemplateOperand tir q source_side)"

text \<open>
  The zero indices of a buffer are one constant at the start of the function around the context
  operation.
\<close>

definition createIndicesForIntermediateBuffer ::
  "transfer_ir \<Rightarrow> resource_spec \<Rightarrow> op \<Rightarrow> planning \<Rightarrow> (planning \<times> index_value list) option" where
  "createIndicesForIntermediateBuffer tir sp context_op S =
     (if in_function tir context_op
      then Some (S\<lparr>zero_constants := zero_constants S @ [context_op]\<rparr>,
                 replicate (length (sp_shape sp)) ZeroIndex)
      else None)"

definition describePrivateSide ::
  "transfer_ir \<Rightarrow> nat \<Rightarrow> nat \<Rightarrow> op \<Rightarrow> planning \<Rightarrow> (planning \<times> transfer_side) option" where
  "describePrivateSide tir sp slot context_op S =
     (if sp < length (resource_specs S) then
        (let spec = resource_specs S ! sp in
         do { sizes \<leftarrow> deriveSizesFromResourceSpec spec slot;
              (let d = \<lparr>sd_resource = Some sp, slot_index = slot, sd_indices = [], sd_sizes = sizes,
                        sd_map = None\<rparr> in
               if sp_kind spec \<noteq> MemoryBuffer then Some (S, d)
               else do { (S1, ixs) \<leftarrow> createIndicesForIntermediateBuffer tir spec context_op S;
                         Some (S1, d\<lparr>sd_indices := ixs,
                                     sd_map := Some (IdentityMap (length (sp_shape spec)))\<rparr>) }) })
      else None)"

definition add_transfer :: "transfer_info \<Rightarrow> planning \<Rightarrow> planning \<times> nat" where
  "add_transfer t S = (S\<lparr>transfer_infos := transfer_infos S @ [t]\<rparr>, length (transfer_infos S))"

definition update_transfer :: "nat \<Rightarrow> (transfer_info \<Rightarrow> transfer_info) \<Rightarrow> planning \<Rightarrow> planning" where
  "update_transfer t h S = S\<lparr>transfer_infos := (transfer_infos S)[t := h (transfer_infos S ! t)]\<rparr>"

definition createFromTemplate ::
  "transfer_ir \<Rightarrow> op \<Rightarrow> edge_info \<Rightarrow> resource option \<Rightarrow> resource option \<Rightarrow> planning \<Rightarrow> (planning \<times> nat) option" where
  "createFromTemplate tir q edge src dst S =
     do { s \<leftarrow> describeTemplateSide tir q True;
          d \<leftarrow> describeTemplateSide tir q False;
          Some (add_transfer \<lparr>ti_template = Some q, hop_edge = edge, source_resource = src, dest_resource = dst,
            ti_mode = (case kind_of tir q of DataTransferOp _ _ m \<Rightarrow> m | _ \<Rightarrow> Copy),
            ti_source = s, ti_dest = d\<rparr> S) }"

definition createFromFifoOp ::
  "op \<Rightarrow> edge_info \<Rightarrow> resource option \<Rightarrow> resource option \<Rightarrow> nat \<Rightarrow> nat \<Rightarrow> bool \<Rightarrow> planning \<Rightarrow> planning \<times> nat" where
  "createFromFifoOp q edge src dst sp slot is_read =
     add_transfer (set_side is_read (empty_side\<lparr>sd_resource := Some sp, slot_index := slot\<rparr>)
       \<lparr>ti_template = Some q, hop_edge = edge, source_resource = src, dest_resource = dst,
        ti_mode = Copy, ti_source = empty_side, ti_dest = empty_side\<rparr>)"

definition retargetSide ::
  "planner_ir \<Rightarrow> transfer_ir \<Rightarrow> nat \<Rightarrow> bool \<Rightarrow> nat \<Rightarrow> nat \<Rightarrow> planning \<Rightarrow> planning option" where
  "retargetSide ir tir t source_side sp slot S =
     do { q \<leftarrow> ti_template (transfer_infos S ! t);
          (operand, _) \<leftarrow> getTemplateOperand tir q source_side;
          if sp_kind (resource_specs S ! sp) = FifoSpec \<and> isFifoSlot ir operand
          then Some (update_transfer t (\<lambda>ti. set_side source_side
                 ((side source_side ti)\<lparr>sd_resource := Some sp, slot_index := slot\<rparr>) ti) S)
          else do { (S1, d) \<leftarrow> describePrivateSide tir sp slot q S;
                    Some (update_transfer t (set_side source_side d) S1) } }"

text \<open>What a side of a synthetic transfer leaves unset is filled in.\<close>

definition fill_side :: "resource_spec list \<Rightarrow> transfer_side \<Rightarrow> transfer_side option" where
  "fill_side sps d =
     do { sp \<leftarrow> sd_resource d;
          sizes \<leftarrow> (if sd_sizes d = [] then deriveSizesFromResourceSpec (sps ! sp) (slot_index d)
                    else Some (sd_sizes d));
          Some (d\<lparr>sd_sizes := sizes,
                  sd_map := (if sd_map d = None \<and> sp_kind (sps ! sp) \<noteq> FifoSpec
                             then Some (IdentityMap (length (sp_shape (sps ! sp)))) else sd_map d)\<rparr>) }"

definition createSynthetic ::
  "edge_info \<Rightarrow> resource option \<Rightarrow> resource option \<Rightarrow> transfer_side \<Rightarrow> transfer_side \<Rightarrow> planning \<Rightarrow>
   (planning \<times> nat) option" where
  "createSynthetic edge src dst sside dside S =
     do { s \<leftarrow> fill_side (resource_specs S) sside;
          d \<leftarrow> fill_side (resource_specs S) dside;
          Some (add_transfer \<lparr>ti_template = None, hop_edge = edge, source_resource = src, dest_resource = dst,
            ti_mode = Copy, ti_source = s, ti_dest = d\<rparr> S) }"

section \<open>Boundaries and FIFOs\<close>

text \<open>\<open>BoundaryPlace\<close>: exactly one of the two alternatives is set.\<close>

datatype boundary_place = InMemory resource | InFifo resource resource

definition boundaryPlace :: "data_flow \<Rightarrow> nat \<Rightarrow> routing_graph \<Rightarrow> boundary_place option" where
  "boundaryPlace f k g =
     (if k < length (boundaries f) \<and> boundaries f ! k > 0 then
        do { sender_last \<leftarrow> pathNode g f (boundaries f ! k - 1);
             receiver_first \<leftarrow> pathNode g f (boundaries f ! k);
             Some (if rn_kind receiver_first = Memory then InMemory (rn_resource receiver_first)
                   else if rn_kind sender_last = Memory then InMemory (rn_resource sender_last)
                   else InFifo (rn_resource sender_last) (rn_resource receiver_first)) }
      else None)"

record tile =
  tl_shape :: "int list"
  tl_element_type :: "elem_type option"

definition numElements :: "tile \<Rightarrow> int option" where
  "numElements t = foldM (\<lambda>dim n. ck64 (n * dim)) (tl_shape t) 1"

definition getConstantIntValue :: "transfer_ir \<Rightarrow> size_value \<Rightarrow> int option" where
  "getConstantIntValue tir z = (case z of StaticSize n \<Rightarrow> Some n | DynamicSize v \<Rightarrow> constant_value tir v)"

fun constant_sizes :: "transfer_ir \<Rightarrow> size_value list \<Rightarrow> int list option" where
  "constant_sizes tir [] = Some []"
| "constant_sizes tir (z # zs) =
     do { n \<leftarrow> getConstantIntValue tir z; ns \<leftarrow> constant_sizes tir zs; Some (n # ns) }"

text \<open>The side that gives the tile: for a data transfer its memref side.\<close>

definition tile_side :: "planner_ir \<Rightarrow> body_kind \<Rightarrow> bool \<Rightarrow> (val \<times> bool) option" where
  "tile_side ir b replaces_source =
     (case b of
        DataTransferOp src dst _ \<Rightarrow>
          (let use_source = (if isMemRef ir (if replaces_source then src else dst) then replaces_source
                             else \<not> replaces_source)
           in Some (if use_source then src else dst, use_source))
      | IndDataTransferOp src dst _ \<Rightarrow> Some (if replaces_source then src else dst, replaces_source)
      | _ \<Rightarrow> None)"

definition tileOf :: "planner_ir \<Rightarrow> transfer_ir \<Rightarrow> op \<Rightarrow> bool \<Rightarrow> tile outcome" where
  "tileOf ir tir q replaces_source =
     do { (v, use_source) \<leftarrow> tile_side ir (kind_of tir q) replaces_source;
          if \<not> isMemRef ir v \<and> \<not> isFifoSlot ir v then None
          else (case constant_sizes tir (oa_sizes (addressing tir q use_source)) of
                  None \<Rightarrow> failure
                | Some shp \<Rightarrow> success \<lparr>tl_shape = shp, tl_element_type = Some (element_type_of tir v)\<rparr>) }"

definition isTransfer :: "body_kind \<Rightarrow> bool" where
  "isTransfer b = (case b of DataTransferOp _ _ _ \<Rightarrow> True | IndDataTransferOp _ _ _ \<Rightarrow> True | _ \<Rightarrow> False)"

definition flowTile :: "planner_ir \<Rightarrow> transfer_ir \<Rightarrow> data_flow \<Rightarrow> tile outcome" where
  "flowTile ir tir f =
     (if isTransfer (kind_of tir (producer_op f)) then tileOf ir tir (producer_op f) False
      else if isTransfer (kind_of tir (consumer_op f)) then tileOf ir tir (consumer_op f) True
      else if \<not> isFifoSlot ir (carrier f) then None
      else (case slot_elements tir (carrier f) of
              None \<Rightarrow> failure
            | Some n \<Rightarrow> success \<lparr>tl_shape = [n], tl_element_type = Some (element_type_of tir (carrier f))\<rparr>))"

text \<open>The operands of a yield are as many as the results of its operation, which the access relies on.\<close>

definition getFifoAllocateResult :: "transfer_ir \<Rightarrow> val \<Rightarrow> (op \<times> nat) option option" where
  "getFifoAllocateResult tir fifo_slot =
     (case defining_op tir fifo_slot of
        None \<Rightarrow> Some None
      | Some (q, i) \<Rightarrow>
          (case private_yield tir q of
             None \<Rightarrow> Some None
           | Some ys \<Rightarrow>
               (if i < length ys then
                  (case defining_op tir (ys ! i) of
                     None \<Rightarrow> Some None
                   | Some (r, j) \<Rightarrow> Some (if fifo_allocate tir r = None then None else Some (r, j)))
                else None)))"

text \<open>The function consists of assertions.\<close>

definition validateFifoSlotIndex :: "transfer_ir \<Rightarrow> val \<Rightarrow> nat \<Rightarrow> resource_spec \<Rightarrow> unit option" where
  "validateFifoSlotIndex tir orig assigned sp =
     do { (case defining_op tir orig of
             None \<Rightarrow> Some ()
           | Some (q, i) \<Rightarrow>
               do { ys \<leftarrow> private_yield tir q;
                    if i < length ys then
                      do { (r, j) \<leftarrow> defining_op tir (ys ! i); if assigned = j then Some () else None }
                    else None });
          if assigned < length (elements_per_slot sp) then Some () else None }"

definition push_slot :: "nat \<Rightarrow> int \<Rightarrow> planning \<Rightarrow> planning" where
  "push_slot sp n S = S\<lparr>resource_specs := (resource_specs S)[sp := (resource_specs S ! sp)
     \<lparr>elements_per_slot := elements_per_slot (resource_specs S ! sp) @ [n]\<rparr>]\<rparr>"

definition boundary_key :: "transfer_ir \<Rightarrow> data_flow \<Rightarrow> resource \<Rightarrow> resource \<Rightarrow> fifo_key option" where
  "boundary_key tir f src dest =
     do { alloc_result \<leftarrow> getFifoAllocateResult tir (carrier f);
          Some (map_option fst alloc_result, src, dest) }"

definition take_slot :: "fifo_key \<Rightarrow> int \<Rightarrow> elem_type option \<Rightarrow> planning \<Rightarrow> planning \<times> nat \<times> nat" where
  "take_slot key n elt S =
     (let (S1, sp) = (case key_spec S key of
                        None \<Rightarrow> (let (S0, sp0) = createFifo (fst (snd key)) (snd (snd key)) [n] elt S
                                in (S0\<lparr>key_spec := (key_spec S0)(key := Some sp0)\<rparr>, sp0))
                      | Some sp0 \<Rightarrow> (push_slot sp0 n S, sp0))
      in (S1\<lparr>next_slot := (next_slot S1)(key := next_slot S1 key + 1)\<rparr>, sp, next_slot S1 key))"

text \<open>\<open>BoundaryFifos::get\<close>.\<close>

definition fifo_get ::
  "planner_ir \<Rightarrow> transfer_ir \<Rightarrow> data_flow \<Rightarrow> resource \<Rightarrow> resource \<Rightarrow> tile \<Rightarrow> bool \<Rightarrow> planning \<Rightarrow>
   (planning \<times> nat \<times> nat) option" where
  "fifo_get ir tir f src dest t mirror_slot S =
     (if carrierIsMemref ir f then
        do { n \<leftarrow> numElements t;
             let (S1, sp) = createFifo src dest [n] (tl_element_type t) S;
             Some (S1, sp, 0) }
      else if \<not> isFifoSlot ir (carrier f) then None
      else do { num_elements \<leftarrow> slot_elements tir (carrier f);
                key \<leftarrow> boundary_key tir f src dest;
                let (S1, sp, slot) = take_slot key num_elements (Some (element_type_of tir (carrier f))) S;
                (if mirror_slot then validateFifoSlotIndex tir (carrier f) slot (resource_specs S1 ! sp)
                 else Some ());
                Some (S1, sp, slot) })"

definition findTransferForOp :: "planning \<Rightarrow> ptr \<Rightarrow> op \<Rightarrow> nat option" where
  "findTransferForOp S s q =
     find (\<lambda>t. ti_template (transfer_infos S ! t) = Some q) (stage_transfers S s)"

section \<open>Step 2: the ends of the flows\<close>

definition push_transfer :: "ptr \<Rightarrow> nat \<Rightarrow> planning \<Rightarrow> planning" where
  "push_transfer s t S =
     S\<lparr>stage_transfers := (stage_transfers S)(s := stage_transfers S s @ [t])\<rparr>"

definition set_carrier :: "nat \<Rightarrow> nat \<Rightarrow> transfer_side \<Rightarrow> planning \<Rightarrow> planning" where
  "set_carrier j k d S =
     S\<lparr>flow_carriers := (flow_carriers S)(j := (flow_carriers S j)[k := d])\<rparr>"

definition set_kind :: "ptr \<Rightarrow> info_kind \<Rightarrow> planning \<Rightarrow> planning" where
  "set_kind s k S =
     S\<lparr>ps_plan := put_info s ((info_entry (ps_plan S) s)\<lparr>si_kind := k\<rparr>) (ps_plan S)\<rparr>"

definition is_fifo_op :: "body_kind \<Rightarrow> bool" where
  "is_fifo_op b = (case b of ReadFromFifoOp _ \<Rightarrow> True | WriteToFifoOp _ \<Rightarrow> True | _ \<Rightarrow> False)"

definition is_ind :: "body_kind \<Rightarrow> bool" where
  "is_ind b = (case b of IndDataTransferOp _ _ _ \<Rightarrow> True | _ \<Rightarrow> False)"

definition in_memory :: "boundary_place \<Rightarrow> bool" where
  "in_memory pl = (case pl of InMemory _ \<Rightarrow> True | InFifo _ _ \<Rightarrow> False)"

text \<open>The test whether the memref of a flow is already where it has to be.\<close>

definition already_there :: "planner_ir \<Rightarrow> data_flow \<Rightarrow> boundary_place \<Rightarrow> bool option" where
  "already_there ir f place =
     (case place of
        InMemory m \<Rightarrow>
          (if carrierIsMemref ir f
           then do { space \<leftarrow> memrefMemorySpace ir (carrier f); Some (space = Some m) }
           else Some False)
      | InFifo _ _ \<Rightarrow> Some False)"

definition end_edge :: "data_flow \<Rightarrow> nat \<Rightarrow> edge_info" where
  "end_edge f k = \<lparr>source = path f ! (boundaries f ! k - 1), target = path f ! (boundaries f ! k), cost = 1\<rparr>"

definition the_other :: "boundary_place \<Rightarrow> bool \<Rightarrow> resource" where
  "the_other pl is_producer =
     (case pl of InMemory m \<Rightarrow> m | InFifo a b \<Rightarrow> (if is_producer then b else a))"

text \<open>A read or write of a FIFO slot moves to a slot of a new FIFO.\<close>

definition adapt_fifo_op ::
  "planner_ir \<Rightarrow> transfer_ir \<Rightarrow> data_flow \<Rightarrow> ptr \<Rightarrow> op \<Rightarrow> bool \<Rightarrow> resource \<times> resource \<Rightarrow> edge_info \<Rightarrow>
   resource option \<Rightarrow> resource option \<Rightarrow> planning \<Rightarrow> (planning \<times> transfer_side) option" where
  "adapt_fifo_op ir tir f stage q source_side units edge src dst S =
     do { (S1, sp, slot) \<leftarrow> fifo_get ir tir f (fst units) (snd units)
                              \<lparr>tl_shape = [], tl_element_type = None\<rparr> True S;
          let (S2, t) = createFromFifoOp q edge src dst sp slot source_side S1;
          let S3 = set_kind stage AdaptFifoKinds (push_transfer stage t S2);
          Some (S3, side source_side (transfer_infos S3 ! t)) }"

text \<open>The buffer or slot that a data transfer moves to.\<close>

definition new_operand ::
  "planner_ir \<Rightarrow> transfer_ir \<Rightarrow> data_flow \<Rightarrow> boundary_place \<Rightarrow> tile \<Rightarrow> bool \<Rightarrow> planning \<Rightarrow>
   (planning \<times> nat \<times> nat) option" where
  "new_operand ir tir f place t mirror_slot S =
     (case place of
        InMemory m \<Rightarrow> (let (S1, sp) = createMemoryBuffer m (tl_shape t) (tl_element_type t) S in Some (S1, sp, 0))
      | InFifo a b \<Rightarrow> fifo_get ir tir f a b t mirror_slot S)"

definition template_transfer ::
  "transfer_ir \<Rightarrow> ptr \<Rightarrow> op \<Rightarrow> edge_info \<Rightarrow> resource option \<Rightarrow> resource option \<Rightarrow> planning \<Rightarrow>
   (planning \<times> nat) option" where
  "template_transfer tir stage q edge src dst S =
     (case findTransferForOp S stage q of
        Some t \<Rightarrow> Some (S, t)
      | None \<Rightarrow> do { (S1, t) \<leftarrow> createFromTemplate tir q edge src dst S;
                    Some (push_transfer stage t S1, t) })"

definition adapt_transfer ::
  "planner_ir \<Rightarrow> transfer_ir \<Rightarrow> data_flow \<Rightarrow> ptr \<Rightarrow> op \<Rightarrow> bool \<Rightarrow> boundary_place \<Rightarrow> edge_info \<Rightarrow>
   resource option \<Rightarrow> resource option \<Rightarrow> tile \<Rightarrow> planning \<Rightarrow> (planning \<times> transfer_side) option" where
  "adapt_transfer ir tir f stage q source_side place edge src dst t S =
     do { (S1, sp, slot) \<leftarrow> new_operand ir tir f place t True S;
          (S2, i) \<leftarrow> template_transfer tir stage q edge src dst S1;
          S3 \<leftarrow> retargetSide ir tir i source_side sp slot S2;
          let S4 = (if si_kind (info_entry (ps_plan S3) stage) = PreserveOriginal
                    then set_kind stage AdaptTransfer S3 else S3);
          Some (S4, side source_side (transfer_infos S4 ! i)) }"

definition adaptEnd ::
  "planner_ir \<Rightarrow> transfer_ir \<Rightarrow> routing_graph \<Rightarrow> data_flow list \<Rightarrow> ptr \<Rightarrow> op \<Rightarrow> nat \<times> bool \<Rightarrow> planning \<Rightarrow>
   planning outcome" where
  "adaptEnd ir tir g flows stage q e S =
     (let (j, is_producer) = e; f = flows ! j; k = (if is_producer then 0 else length (chain_stages f));
          source_side = (\<not> is_producer) in
      do { info \<leftarrow> getStageInfo (ps_plan S) stage;
           place \<leftarrow> boundaryPlace f k g;
           there \<leftarrow> already_there ir f place;
           if there then
             do { d \<leftarrow> describeTemplateSide tir q source_side;
                  (S1, sp) \<leftarrow> createExistingValue ir tir (carrier f) S;
                  success (set_carrier j k (d\<lparr>sd_resource := Some sp\<rparr>) S1) }
           else if is_fifo_op (kind_of tir q) \<and> in_memory place \<or> is_ind (kind_of tir q) \<and> \<not> in_memory place
           then failure
           else
             (let here = stage_resource info; there = Some (the_other place is_producer);
                  src = (if is_producer then here else there); dst = (if is_producer then there else here) in
              case (is_fifo_op (kind_of tir q), place) of
                (True, InFifo a b) \<Rightarrow>
                  do { (S1, d) \<leftarrow> adapt_fifo_op ir tir f stage q source_side (a, b) (end_edge f k) src dst S;
                       success (set_carrier j k d S1) }
              | _ \<Rightarrow>
                  attempt (tileOf ir tir q source_side) (\<lambda>t.
                    do { (S1, d) \<leftarrow> adapt_transfer ir tir f stage q source_side place (end_edge f k) src dst t S;
                         success (set_carrier j k d S1) })) })"

text \<open>The flow ends of an operation, in the order in which they are pushed.\<close>

definition has_hops :: "data_flow \<Rightarrow> bool" where
  "has_hops f \<longleftrightarrow> chain_stages f \<noteq> []"

definition op_ends :: "data_flow list \<Rightarrow> op \<Rightarrow> (nat \<times> bool) list" where
  "op_ends flows q =
     concat (map (\<lambda>j. let f = flows ! j in
         if has_hops f then (if consumer_op f = q then [(j, False)] else []) @
                            (if producer_op f = q then [(j, True)] else [])
         else []) [0..<length flows])"

definition resize_carriers :: "data_flow list \<Rightarrow> planning \<Rightarrow> planning" where
  "resize_carriers flows S =
     S\<lparr>flow_carriers := (\<lambda>j. if j < length flows \<and> has_hops (flows ! j)
                             then replicate (length (chain_stages (flows ! j)) + 1) empty_side
                             else flow_carriers S j)\<rparr>"

text \<open>The three walks over the body of a stage.\<close>

definition ops_in_order :: "body_op list \<Rightarrow> op list" where
  "ops_in_order bs =
     map bo_op (filter (\<lambda>b. is_ind (bo_kind b)) bs @
                filter (\<lambda>b. isTransfer (bo_kind b) \<and> \<not> is_ind (bo_kind b)) bs @
                filter (\<lambda>b. is_fifo_op (bo_kind b)) bs)"

definition adapt_stage ::
  "planner_ir \<Rightarrow> transfer_ir \<Rightarrow> routing_graph \<Rightarrow> ptree \<Rightarrow> data_flow list \<Rightarrow> ptr \<Rightarrow> planning \<Rightarrow> planning outcome" where
  "adapt_stage ir tir g T flows s S =
     (case operation_op T s of
        None \<Rightarrow> success S
      | Some q0 \<Rightarrow>
          do { st \<leftarrow> stage_op ir q0;
               foldA (\<lambda>q. foldA (adaptEnd ir tir g flows s q) (op_ends flows q)) (ops_in_order (body st)) S })"

definition adaptFlowEnds ::
  "planner_ir \<Rightarrow> transfer_ir \<Rightarrow> routing_graph \<Rightarrow> ptree \<Rightarrow> ptr list \<Rightarrow> data_flow list \<Rightarrow> planning \<Rightarrow> planning outcome" where
  "adaptFlowEnds ir tir g T expanded_stages flows S =
     foldA (adapt_stage ir tir g T flows) expanded_stages (resize_carriers flows S)"

section \<open>Step 2b: FIFOs between original stages\<close>

definition transferRewritesFifo :: "planning \<Rightarrow> nat option \<Rightarrow> fifo_endpoint \<Rightarrow> bool" where
  "transferRewritesFifo S t ep =
     (case t of
        None \<Rightarrow> False
      | Some i \<Rightarrow> sd_resource (side (fifo_is_source ep) (transfer_infos S ! i)) \<noteq> None)"

record slot_to_retype =
  sr_slot :: val
  sr_idx :: nat
  sr_producer :: fifo_endpoint
  sr_consumer :: fifo_endpoint
  sr_expected :: "resource \<times> resource"

record alloc_to_retype =
  ar_slots :: "slot_to_retype list"
  ar_needs_retype :: bool

text \<open>\<open>operator[]\<close> of the stage infos makes a missing entry.\<close>

definition touch_info :: "ptr \<Rightarrow> planning \<Rightarrow> planning" where
  "touch_info s S = S\<lparr>ps_plan := put_info s (info_entry (ps_plan S) s) (ps_plan S)\<rparr>"

text \<open>\<open>allocs\<close> is a \<open>MapVector\<close>: its entries in insertion order.\<close>

fun alloc_add :: "op \<Rightarrow> slot_to_retype \<Rightarrow> bool \<Rightarrow> (op \<times> alloc_to_retype) list \<Rightarrow> (op \<times> alloc_to_retype) list" where
  "alloc_add q sl b [] = [(q, \<lparr>ar_slots = [sl], ar_needs_retype = b\<rparr>)]"
| "alloc_add q sl b ((r, a) # m) =
     (if r = q then (r, \<lparr>ar_slots = ar_slots a @ [sl], ar_needs_retype = (ar_needs_retype a \<or> b)\<rparr>) # m
      else (r, a) # alloc_add q sl b m)"

definition slot_types :: "planner_ir \<Rightarrow> val \<Rightarrow> (attribute \<times> attribute) option" where
  "slot_types ir v = (case value_type ir v of FifoSlotType a b \<Rightarrow> Some (a, b) | _ \<Rightarrow> None)"

text \<open>A slot both of whose ends are known and still use the original FIFO.\<close>

definition classify_units ::
  "planner_ir \<Rightarrow> transfer_ir \<Rightarrow> fifo_endpoints \<Rightarrow> val \<Rightarrow> fifo_endpoint \<Rightarrow> fifo_endpoint \<Rightarrow>
   resource \<times> resource \<Rightarrow> (op \<times> alloc_to_retype) list \<Rightarrow> (op \<times> alloc_to_retype) list outcome" where
  "classify_units ir tir E v pr co expected allocs =
     do { types \<leftarrow> slot_types ir v;
          alloc_result \<leftarrow> getFifoAllocateResult tir v;
          let needs_retype = (types \<noteq> (KindAttr (fst expected), KindAttr (snd expected)));
          case alloc_result of
            None \<Rightarrow> (if needs_retype then failure else success allocs)
          | Some (r, i) \<Rightarrow>
              (if needs_retype \<and> v \<in> indirect_slots E then failure
               else success (alloc_add r \<lparr>sr_slot = v, sr_idx = i, sr_producer = pr, sr_consumer = co,
                                        sr_expected = expected\<rparr> needs_retype allocs)) }"

text \<open>The assertion: a slot is rewritten at both ends or at none.\<close>

definition classify_slot ::
  "planner_ir \<Rightarrow> transfer_ir \<Rightarrow> fifo_endpoints \<Rightarrow> val \<times> fifo_endpoint \<Rightarrow>
   planning \<times> (op \<times> alloc_to_retype) list \<Rightarrow> (planning \<times> (op \<times> alloc_to_retype) list) outcome" where
  "classify_slot ir tir E vp st =
     (let (v, pr) = vp; (S, allocs) = st in
      case map_of (consumers E) v of
        None \<Rightarrow> success st
      | Some co \<Rightarrow>
          (let S1 = touch_info (fe_stage co) (touch_info (fe_stage pr) S);
               producer_rewritten = transferRewritesFifo S1 (findTransferForOp S1 (fe_stage pr) (fe_op pr)) pr;
               consumer_rewritten = transferRewritesFifo S1 (findTransferForOp S1 (fe_stage co) (fe_op co)) co in
           if producer_rewritten \<noteq> consumer_rewritten then None
           else if producer_rewritten then success (S1, allocs)
           else (case (applicable_unit (info_entry (ps_plan S1) (fe_stage pr)),
                       applicable_unit (info_entry (ps_plan S1) (fe_stage co))) of
                   (Some a, Some b) \<Rightarrow>
                     attempt (classify_units ir tir E v pr co (a, b) allocs) (\<lambda>allocs1. success (S1, allocs1))
                 | _ \<Rightarrow> success (S1, allocs))))"

text \<open>The sizes of the slots of an allocation and their element type, with the assertions.\<close>

definition result_sizes :: "planner_ir \<Rightarrow> transfer_ir \<Rightarrow> val list \<Rightarrow> (int list \<times> elem_type option) option" where
  "result_sizes ir tir results =
     foldM (\<lambda>v (ns, elt).
        do { n \<leftarrow> (if isFifoSlot ir v then slot_elements tir v else None);
             if elt = None \<or> elt = Some (element_type_of tir v)
             then Some (ns @ [n], Some (element_type_of tir v)) else None }) results ([], None)"

definition retarget_transfer ::
  "transfer_ir \<Rightarrow> fifo_endpoint \<Rightarrow> bool \<Rightarrow> edge_info \<Rightarrow> resource option \<Rightarrow> resource option \<Rightarrow> nat \<Rightarrow> nat \<Rightarrow> planning \<Rightarrow>
   (planning \<times> nat) option" where
  "retarget_transfer tir ep is_consumer edge src dst sp slot S =
     (case findTransferForOp S (fe_stage ep) (fe_op ep) of
        Some t \<Rightarrow> Some (S, t)
      | None \<Rightarrow>
          (case kind_of tir (fe_op ep) of
             DataTransferOp _ _ _ \<Rightarrow>
               do { (S1, t) \<leftarrow> createFromTemplate tir (fe_op ep) edge src dst S;
                    Some (push_transfer (fe_stage ep) t S1, t) }
           | _ \<Rightarrow> (let (S1, t) = createFromFifoOp (fe_op ep) edge src dst sp slot is_consumer S
                  in Some (push_transfer (fe_stage ep) t S1, t))))"

definition is_data_transfer :: "body_kind \<Rightarrow> bool" where
  "is_data_transfer b = (case b of DataTransferOp _ _ _ \<Rightarrow> True | _ \<Rightarrow> False)"

definition retargetEndpoint ::
  "transfer_ir \<Rightarrow> fifo_endpoint \<Rightarrow> bool \<Rightarrow> edge_info \<Rightarrow> resource \<times> resource \<Rightarrow> nat \<Rightarrow> nat \<Rightarrow> planning \<Rightarrow>
   planning option" where
  "retargetEndpoint tir ep is_consumer edge units sp slot S =
     (let here = stage_resource (info_entry (ps_plan S) (fe_stage ep));
          src = (if is_consumer then Some (fst units) else here);
          dst = (if is_consumer then here else Some (snd units)) in
      do { (S1, t) \<leftarrow> retarget_transfer tir ep is_consumer edge src dst sp slot S;
           let S2 = update_transfer t (\<lambda>ti. set_side is_consumer
                      ((side is_consumer ti)\<lparr>sd_resource := Some sp, slot_index := slot\<rparr>) ti) S1;
           Some (if si_kind (info_entry (ps_plan S2) (fe_stage ep)) = PreserveOriginal \<or>
                    \<not> is_data_transfer (kind_of tir (fe_op ep))
                 then set_kind (fe_stage ep) AdaptFifoKinds S2 else S2) })"

text \<open>The edge, a dummy one when the resources are not linked directly; the look-ups assert.\<close>

definition slot_edge :: "routing_graph \<Rightarrow> planning \<Rightarrow> ptr \<Rightarrow> ptr \<Rightarrow> edge_info option" where
  "slot_edge g S a b =
     do { r \<leftarrow> stage_resource (info_entry (ps_plan S) a);
          src \<leftarrow> getNodeIdForResource g r;
          r' \<leftarrow> stage_resource (info_entry (ps_plan S) b);
          dst \<leftarrow> getNodeIdForResource g r';
          Some (case getEdgeInfo g src dst of None \<Rightarrow> \<lparr>source = src, target = dst, cost = 1\<rparr> | Some e \<Rightarrow> e) }"

definition retype_slot ::
  "transfer_ir \<Rightarrow> routing_graph \<Rightarrow> resource \<times> resource \<Rightarrow> nat \<Rightarrow> slot_to_retype \<Rightarrow> planning \<Rightarrow> planning option" where
  "retype_slot tir g units sp sl S =
     do { validateFifoSlotIndex tir (sr_slot sl) (sr_idx sl) (resource_specs S ! sp);
          let S1 = touch_info (fe_stage (sr_consumer sl)) (touch_info (fe_stage (sr_producer sl)) S);
          edge \<leftarrow> slot_edge g S1 (fe_stage (sr_producer sl)) (fe_stage (sr_consumer sl));
          S2 \<leftarrow> retargetEndpoint tir (sr_producer sl) False edge units sp (sr_idx sl) S1;
          retargetEndpoint tir (sr_consumer sl) True edge units sp (sr_idx sl) S2 }"

definition retype_alloc ::
  "planner_ir \<Rightarrow> transfer_ir \<Rightarrow> routing_graph \<Rightarrow> op \<times> alloc_to_retype \<Rightarrow> planning \<Rightarrow> planning outcome" where
  "retype_alloc ir tir g qa S =
     (let (alloc_op, alloc) = qa in
      if \<not> ar_needs_retype alloc then success S
      else do { results \<leftarrow> fifo_allocate tir alloc_op;
                (let expected = sr_expected (hd (ar_slots alloc)) in
                 if length (ar_slots alloc) \<noteq> length results \<or>
                    list_ex (\<lambda>sl. sr_expected sl \<noteq> expected) (ar_slots alloc) then failure
                 else do { (ns, elt) \<leftarrow> result_sizes ir tir results;
                           let (S1, sp) = createFifo (fst expected) (snd expected) ns elt S;
                           S2 \<leftarrow> foldM (retype_slot tir g expected sp) (ar_slots alloc) S1;
                           success S2 }) })"

definition retypeFifosBetweenOriginalStages ::
  "planner_ir \<Rightarrow> transfer_ir \<Rightarrow> routing_graph \<Rightarrow> fifo_endpoints \<Rightarrow> planning \<Rightarrow> planning outcome" where
  "retypeFifosBetweenOriginalStages ir tir g E S =
     attempt (foldA (classify_slot ir tir E) (producers E) (S, []))
       (\<lambda>(S1, allocs). foldA (retype_alloc ir tir g) allocs S1)"

section \<open>Step 3: the transfers of the hop stages\<close>

definition writes_fifo :: "planning \<Rightarrow> nat \<Rightarrow> bool" where
  "writes_fifo S t =
     (case sd_resource (ti_dest (transfer_infos S ! t)) of
        None \<Rightarrow> False
      | Some sp \<Rightarrow> sp_kind (resource_specs S ! sp) = FifoSpec)"

definition set_mode :: "nat \<Rightarrow> transfer_mode \<Rightarrow> planning \<Rightarrow> planning" where
  "set_mode t m = update_transfer t (\<lambda>ti. ti\<lparr>ti_mode := m\<rparr>)"

definition assignTransferMode :: "data_flow \<Rightarrow> nat list \<Rightarrow> nat option \<Rightarrow> planning \<Rightarrow> planning" where
  "assignTransferMode f ts producer_transfer S =
     (if flow_mode f = Copy then S
      else case find (writes_fifo S) ts of
             None \<Rightarrow> S
           | Some t \<Rightarrow>
               set_mode t (flow_mode f)
                 (case producer_transfer of
                    None \<Rightarrow> S
                  | Some pt \<Rightarrow> (if pt \<noteq> t then set_mode pt Copy S else S)))"

text \<open>The carriers between two hop stages.\<close>

definition inner_carrier ::
  "planner_ir \<Rightarrow> transfer_ir \<Rightarrow> routing_graph \<Rightarrow> nat \<Rightarrow> data_flow \<Rightarrow> op \<Rightarrow> tile \<Rightarrow> nat \<Rightarrow> planning \<Rightarrow> planning option" where
  "inner_carrier ir tir g j f context_op t k S =
     do { place \<leftarrow> boundaryPlace f k g;
          (S1, sp, slot) \<leftarrow> new_operand ir tir f place t False S;
          (S2, d) \<leftarrow> describePrivateSide tir sp slot context_op S1;
          Some (set_carrier j k d S2) }"

text \<open>The transfer of the hop stage \<open>k\<close>. A carrier without a resource fails the assertion.\<close>

definition hop_transfer ::
  "routing_graph \<Rightarrow> nat \<Rightarrow> data_flow \<Rightarrow> nat \<Rightarrow> planning \<times> nat list \<Rightarrow> (planning \<times> nat list) option" where
  "hop_transfer g j f k st =
     (let (S, ts) = st; source_idx = boundaries f ! k - 1; dest_idx = boundaries f ! (k + 1) in
      do { source_node \<leftarrow> pathNode g f source_idx;
           dest_node \<leftarrow> pathNode g f dest_idx;
           (S1, t) \<leftarrow> createSynthetic
              \<lparr>source = path f ! source_idx, target = path f ! dest_idx, cost = 1\<rparr>
              (Some (rn_resource source_node)) (Some (rn_resource dest_node))
              (flow_carriers S j ! k) (flow_carriers S j ! (k + 1)) S;
           getStageInfo (ps_plan S1) (chain_stages f ! k);
           Some (push_transfer (chain_stages f ! k) t S1, ts @ [t]) })"

definition populate_flow ::
  "planner_ir \<Rightarrow> transfer_ir \<Rightarrow> routing_graph \<Rightarrow> ptree \<Rightarrow> data_flow list \<Rightarrow> nat \<Rightarrow> planning \<Rightarrow> planning outcome" where
  "populate_flow ir tir g T flows j S =
     (let f = flows ! j; n = length (chain_stages f) in
      if \<not> has_hops f then success S
      else do { context_op \<leftarrow> operation_op T (producer f);
                tile' \<leftarrow> flowTile ir tir f;
                if n > 1 \<and> tile' = None then failure
                else do { S1 \<leftarrow> (if n > 1 then foldM (inner_carrier ir tir g j f context_op (the tile')) [1..<n] S
                                else Some S);
                          getStageInfo (ps_plan S1) (producer f);
                          let producer_transfer = findTransferForOp S1 (producer f) (producer_op f);
                          (S2, ts) \<leftarrow> foldM (hop_transfer g j f) [0..<n]
                             (S1, case producer_transfer of None \<Rightarrow> [] | Some t \<Rightarrow> [t]);
                          success (assignTransferMode f ts producer_transfer S2) } })"

definition populateHopStageTransfers ::
  "planner_ir \<Rightarrow> transfer_ir \<Rightarrow> routing_graph \<Rightarrow> ptree \<Rightarrow> data_flow list \<Rightarrow> planning \<Rightarrow> planning outcome" where
  "populateHopStageTransfers ir tir g T flows = foldA (populate_flow ir tir g T flows) [0..<length flows]"

section \<open>How the plan grows\<close>

text \<open>
  A specification only gets more slots; a transfer keeps its template, and where its sides are once
  they have a resource, except for the ends listed in \<open>X\<close>; a stage keeps its transfers.
\<close>

definition same_place :: "transfer_side \<Rightarrow> transfer_side \<Rightarrow> bool" where
  "same_place d d' \<longleftrightarrow> sd_resource d' = sd_resource d \<and> slot_index d' = slot_index d"

definition spec_grows :: "resource_spec \<Rightarrow> resource_spec \<Rightarrow> bool" where
  "spec_grows sp sp' \<longleftrightarrow> (\<exists>ns. sp' = sp\<lparr>elements_per_slot := elements_per_slot sp @ ns\<rparr>)"

definition specs_grow :: "resource_spec list \<Rightarrow> resource_spec list \<Rightarrow> bool" where
  "specs_grow sps sps' \<longleftrightarrow> length sps \<le> length sps' \<and> (\<forall>i<length sps. spec_grows (sps ! i) (sps' ! i))"

definition keeps_sides :: "(op \<times> bool) set \<Rightarrow> transfer_info \<Rightarrow> transfer_info \<Rightarrow> bool" where
  "keeps_sides X t t' \<longleftrightarrow> ti_template t' = ti_template t \<and>
     (\<forall>b. sd_resource (side b t) \<noteq> None \<and> (\<forall>q. ti_template t = Some q \<longrightarrow> (q, b) \<notin> X) \<longrightarrow>
        same_place (side b t) (side b t'))"

definition infos_grow :: "(op \<times> bool) set \<Rightarrow> transfer_info list \<Rightarrow> transfer_info list \<Rightarrow> bool" where
  "infos_grow X ts ts' \<longleftrightarrow> length ts \<le> length ts' \<and> (\<forall>t<length ts. keeps_sides X (ts ! t) (ts' ! t))"

definition plan_grows :: "(op \<times> bool) set \<Rightarrow> planning \<Rightarrow> planning \<Rightarrow> bool" where
  "plan_grows X S S' \<longleftrightarrow> specs_grow (resource_specs S) (resource_specs S') \<and>
     infos_grow X (transfer_infos S) (transfer_infos S') \<and>
     (\<forall>s. prefix (stage_transfers S s) (stage_transfers S' s) \<and>
        (\<forall>t\<in>set (stage_transfers S' s) - set (stage_transfers S s). length (transfer_infos S) \<le> t))"

lemma spec_grows_refl [simp]: "spec_grows sp sp"
  unfolding spec_grows_def by (rule exI [of _ "[]"]) simp

lemma spec_grows_trans: "spec_grows a b \<Longrightarrow> spec_grows b c \<Longrightarrow> spec_grows a c"
  by (auto simp: spec_grows_def)

lemma spec_grows_fields:
  "spec_grows a b \<Longrightarrow> sp_kind b = sp_kind a \<and> memory_resource b = memory_resource a \<and>
     existing_value b = existing_value a \<and> fifo_src b = fifo_src a \<and> fifo_dest b = fifo_dest a \<and>
     sp_shape b = sp_shape a \<and> length (elements_per_slot a) \<le> length (elements_per_slot b)"
  by (auto simp: spec_grows_def)

lemma specs_grow_refl [simp]: "specs_grow sps sps"
  by (simp add: specs_grow_def)

lemma specs_grow_trans: "specs_grow a b \<Longrightarrow> specs_grow b c \<Longrightarrow> specs_grow a c"
  unfolding specs_grow_def by (meson less_le_trans order_trans spec_grows_trans)

lemma specs_grow_append [simp]: "specs_grow sps (sps @ xs)"
  by (simp add: specs_grow_def nth_append)

lemma specs_grow_update: "spec_grows (sps ! i) sp \<Longrightarrow> specs_grow sps (sps[i := sp])"
  unfolding specs_grow_def
proof (intro conjI allI impI)
  fix j assume "spec_grows (sps ! i) sp" "j < length sps"
  then show "spec_grows (sps ! j) (sps[i := sp] ! j)" by (cases "j = i") simp_all
qed simp

lemma keeps_sides_refl [simp]: "keeps_sides X t t"
  by (simp add: keeps_sides_def same_place_def)

lemma keeps_sides_trans: "keeps_sides X a b \<Longrightarrow> keeps_sides X b c \<Longrightarrow> keeps_sides X a c"
  unfolding keeps_sides_def same_place_def by metis

lemma infos_grow_refl [simp]: "infos_grow X ts ts"
  by (simp add: infos_grow_def)

lemma infos_grow_trans: "infos_grow X a b \<Longrightarrow> infos_grow X b c \<Longrightarrow> infos_grow X a c"
  unfolding infos_grow_def by (meson less_le_trans order_trans keeps_sides_trans)

lemma infos_grow_append [simp]: "infos_grow X ts (ts @ xs)"
  by (simp add: infos_grow_def nth_append)

lemma infos_grow_update: "keeps_sides X (ts ! i) t \<Longrightarrow> infos_grow X ts (ts[i := t])"
  unfolding infos_grow_def
proof (intro conjI allI impI)
  fix j assume "keeps_sides X (ts ! i) t" "j < length ts"
  then show "keeps_sides X (ts ! j) (ts[i := t] ! j)" by (cases "j = i") simp_all
qed simp

lemma infos_grow_mono: "infos_grow X a b \<Longrightarrow> X \<subseteq> Y \<Longrightarrow> infos_grow Y a b"
  unfolding infos_grow_def keeps_sides_def by blast

lemma plan_grows_refl [simp]: "plan_grows X S S"
  by (simp add: plan_grows_def)

lemma plan_grows_trans:
  assumes ab: "plan_grows X a b" and bc: "plan_grows X b c"
  shows "plan_grows X a c"
  unfolding plan_grows_def
proof (intro conjI allI ballI)
  show "specs_grow (resource_specs a) (resource_specs c)"
    using ab bc specs_grow_trans unfolding plan_grows_def by blast
  show "infos_grow X (transfer_infos a) (transfer_infos c)"
    using ab bc infos_grow_trans unfolding plan_grows_def by blast
  fix s
  show "prefix (stage_transfers a s) (stage_transfers c s)"
    using ab bc prefix_order.trans unfolding plan_grows_def by blast
  fix t assume t: "t \<in> set (stage_transfers c s) - set (stage_transfers a s)"
  have l: "length (transfer_infos a) \<le> length (transfer_infos b)"
    using ab unfolding plan_grows_def infos_grow_def by blast
  show "length (transfer_infos a) \<le> t"
  proof (cases "t \<in> set (stage_transfers b s)")
    case True
    then show ?thesis using ab t unfolding plan_grows_def by blast
  next
    case False
    then have "length (transfer_infos b) \<le> t" using bc t unfolding plan_grows_def by blast
    then show ?thesis using l by simp
  qed
qed

lemma grows_mono: "plan_grows X a b \<Longrightarrow> X \<subseteq> Y \<Longrightarrow> plan_grows Y a b"
  unfolding plan_grows_def using infos_grow_mono by blast

lemma side_set_side: "side b (set_side b' d t) = (if b = b' then d else side b t)"
  by (simp add: side_def set_side_def)

lemma set_side_template [simp]: "ti_template (set_side b d t) = ti_template t"
  by (simp add: set_side_def)

text \<open>What the single updates change.\<close>

named_theorems planning_frames "the fields that an update of the planning state leaves alone"

lemma add_spec_fields [planning_frames]:
  "resource_specs (fst (add_spec sp S)) = resource_specs S @ [sp]" "snd (add_spec sp S) = length (resource_specs S)"
  "transfer_infos (fst (add_spec sp S)) = transfer_infos S" "stage_transfers (fst (add_spec sp S)) = stage_transfers S"
  "key_spec (fst (add_spec sp S)) = key_spec S" "next_slot (fst (add_spec sp S)) = next_slot S"
  "flow_carriers (fst (add_spec sp S)) = flow_carriers S" "ps_plan (fst (add_spec sp S)) = ps_plan S"
  by (simp_all add: add_spec_def)

lemma push_slot_fields [planning_frames]:
  "transfer_infos (push_slot i n S) = transfer_infos S" "stage_transfers (push_slot i n S) = stage_transfers S"
  "key_spec (push_slot i n S) = key_spec S" "next_slot (push_slot i n S) = next_slot S"
  "flow_carriers (push_slot i n S) = flow_carriers S" "ps_plan (push_slot i n S) = ps_plan S"
  "length (resource_specs (push_slot i n S)) = length (resource_specs S)"
  by (simp_all add: push_slot_def)

lemma add_transfer_fields [planning_frames]:
  "resource_specs (fst (add_transfer t S)) = resource_specs S" "snd (add_transfer t S) = length (transfer_infos S)"
  "transfer_infos (fst (add_transfer t S)) = transfer_infos S @ [t]"
  "stage_transfers (fst (add_transfer t S)) = stage_transfers S"
  "key_spec (fst (add_transfer t S)) = key_spec S" "next_slot (fst (add_transfer t S)) = next_slot S"
  "flow_carriers (fst (add_transfer t S)) = flow_carriers S" "ps_plan (fst (add_transfer t S)) = ps_plan S"
  by (simp_all add: add_transfer_def)

lemma update_transfer_fields [planning_frames]:
  "resource_specs (update_transfer t h S) = resource_specs S"
  "stage_transfers (update_transfer t h S) = stage_transfers S"
  "key_spec (update_transfer t h S) = key_spec S" "next_slot (update_transfer t h S) = next_slot S"
  "flow_carriers (update_transfer t h S) = flow_carriers S" "ps_plan (update_transfer t h S) = ps_plan S"
  "transfer_infos (update_transfer t h S) = (transfer_infos S)[t := h (transfer_infos S ! t)]"
  by (simp_all add: update_transfer_def)

lemma push_transfer_fields [planning_frames]:
  "resource_specs (push_transfer s t S) = resource_specs S" "transfer_infos (push_transfer s t S) = transfer_infos S"
  "stage_transfers (push_transfer s t S) = (stage_transfers S)(s := stage_transfers S s @ [t])"
  "key_spec (push_transfer s t S) = key_spec S" "next_slot (push_transfer s t S) = next_slot S"
  "flow_carriers (push_transfer s t S) = flow_carriers S" "ps_plan (push_transfer s t S) = ps_plan S"
  by (simp_all add: push_transfer_def)

lemma set_kind_fields [planning_frames]:
  "resource_specs (set_kind s k S) = resource_specs S" "transfer_infos (set_kind s k S) = transfer_infos S"
  "stage_transfers (set_kind s k S) = stage_transfers S"
  "key_spec (set_kind s k S) = key_spec S" "next_slot (set_kind s k S) = next_slot S"
  "flow_carriers (set_kind s k S) = flow_carriers S"
  by (simp_all add: set_kind_def)

lemma touch_info_fields [planning_frames]:
  "resource_specs (touch_info s S) = resource_specs S" "transfer_infos (touch_info s S) = transfer_infos S"
  "stage_transfers (touch_info s S) = stage_transfers S"
  "key_spec (touch_info s S) = key_spec S" "next_slot (touch_info s S) = next_slot S"
  "flow_carriers (touch_info s S) = flow_carriers S"
  by (simp_all add: touch_info_def)

lemma set_carrier_fields [planning_frames]:
  "resource_specs (set_carrier j k d S) = resource_specs S" "transfer_infos (set_carrier j k d S) = transfer_infos S"
  "stage_transfers (set_carrier j k d S) = stage_transfers S"
  "key_spec (set_carrier j k d S) = key_spec S" "next_slot (set_carrier j k d S) = next_slot S"
  "ps_plan (set_carrier j k d S) = ps_plan S"
  "flow_carriers (set_carrier j k d S) = (flow_carriers S)(j := (flow_carriers S j)[k := d])"
  by (simp_all add: set_carrier_def)

text \<open>What of the state decides where the data of a boundary is.\<close>

definition same_objects :: "planning \<Rightarrow> planning \<Rightarrow> bool" where
  "same_objects S S' \<longleftrightarrow> transfer_infos S' = transfer_infos S \<and> stage_transfers S' = stage_transfers S \<and>
     flow_carriers S' = flow_carriers S \<and> ps_plan S' = ps_plan S"

section \<open>Buffers and slots are granted once\<close>

text \<open>The maps of \<open>BoundaryFifos\<close>: the next slot of a key is the number of slots of its FIFO.\<close>

definition key_ok :: "planning \<Rightarrow> fifo_key \<Rightarrow> bool" where
  "key_ok S key \<longleftrightarrow>
     (case key_spec S key of
        None \<Rightarrow> next_slot S key = 0
      | Some i \<Rightarrow> i < length (resource_specs S) \<and> sp_kind (resource_specs S ! i) = FifoSpec \<and>
          fifo_src (resource_specs S ! i) = Some (fst (snd key)) \<and>
          fifo_dest (resource_specs S ! i) = Some (snd (snd key)) \<and>
          next_slot S key = length (elements_per_slot (resource_specs S ! i)))"

definition fifo_maps :: "planning \<Rightarrow> bool" where
  "fifo_maps S \<longleftrightarrow> (\<forall>key. key_ok S key) \<and>
     (\<forall>k k' i. key_spec S k = Some i \<and> key_spec S k' = Some i \<longrightarrow> k = k')"

lemma fifo_maps_key: "fifo_maps S \<Longrightarrow> key_ok S key"
  unfolding fifo_maps_def by blast

lemma fifo_maps_inj: "fifo_maps S \<Longrightarrow> key_spec S k = Some i \<Longrightarrow> key_spec S k' = Some i \<Longrightarrow> k = k'"
  unfolding fifo_maps_def by blast

lemma fifo_mapsI:
  assumes "\<And>key. key_ok S key" and "\<And>k k' i. key_spec S k = Some i \<Longrightarrow> key_spec S k' = Some i \<Longrightarrow> k = k'"
  shows "fifo_maps S"
  using assms unfolding fifo_maps_def by blast

definition valid_slot :: "planning \<Rightarrow> nat \<Rightarrow> nat \<Rightarrow> bool" where
  "valid_slot S i s \<longleftrightarrow> i < length (resource_specs S) \<and>
     (sp_kind (resource_specs S ! i) = FifoSpec \<longrightarrow> s < length (elements_per_slot (resource_specs S ! i)))"

definition holds_boundary :: "boundary_place \<Rightarrow> resource_spec \<Rightarrow> bool" where
  "holds_boundary pl sp \<longleftrightarrow>
     (case pl of
        InMemory m \<Rightarrow> sp_kind sp \<noteq> FifoSpec \<and> memory_resource sp = Some m
      | InFifo a b \<Rightarrow> sp_kind sp = FifoSpec \<and> fifo_src sp = Some a \<and> fifo_dest sp = Some b)"

definition granted :: "boundary_place \<Rightarrow> planning \<Rightarrow> planning \<Rightarrow> nat \<Rightarrow> nat \<Rightarrow> bool" where
  "granted pl S S1 i s \<longleftrightarrow> specs_grow (resource_specs S) (resource_specs S1) \<and> same_objects S S1 \<and> fifo_maps S1 \<and>
     \<not> valid_slot S i s \<and> valid_slot S1 i s \<and> holds_boundary pl (resource_specs S1 ! i)"

lemma valid_slot_grows:
  "specs_grow (resource_specs S) (resource_specs S') \<Longrightarrow> valid_slot S i s \<Longrightarrow> valid_slot S' i s"
  unfolding valid_slot_def specs_grow_def using spec_grows_fields by (metis less_le_trans)

lemma holds_boundary_grows: "spec_grows a b \<Longrightarrow> holds_boundary pl a \<Longrightarrow> holds_boundary pl b"
  unfolding holds_boundary_def using spec_grows_fields [of a b] by (auto split: boundary_place.splits)

lemma key_ok_append:
  "key_ok S key \<Longrightarrow> resource_specs S' = resource_specs S @ xs \<Longrightarrow> key_spec S' key = key_spec S key \<Longrightarrow>
     next_slot S' key = next_slot S key \<Longrightarrow> key_ok S' key"
  by (auto simp: key_ok_def nth_append split: option.splits)

lemma fifo_maps_append:
  assumes "fifo_maps S" and "resource_specs S' = resource_specs S @ xs" and "key_spec S' = key_spec S"
    and "next_slot S' = next_slot S"
  shows "fifo_maps S'"
proof (rule fifo_mapsI)
  show "key_ok S' key" for key by (rule key_ok_append [OF fifo_maps_key [OF assms(1)] assms(2)]) (simp_all add: assms)
  show "key_spec S' k = Some i \<Longrightarrow> key_spec S' k' = Some i \<Longrightarrow> k = k'" for k k' i
    using fifo_maps_inj [OF assms(1)] by (simp add: assms(3))
qed

lemma fifo_maps_cong:
  assumes "fifo_maps S" and "resource_specs S' = resource_specs S" and "key_spec S' = key_spec S"
    and "next_slot S' = next_slot S"
  shows "fifo_maps S'"
  using fifo_maps_append [of S S' "[]"] assms by simp

lemma add_spec_granted:
  assumes "fifo_maps S" and "holds_boundary pl sp" and "sp_kind sp = FifoSpec \<longrightarrow> s < length (elements_per_slot sp)"
  shows "granted pl S (fst (add_spec sp S)) (snd (add_spec sp S)) s"
  using assms fifo_maps_append [OF assms(1), of "fst (add_spec sp S)" "[sp]"]
  by (simp add: granted_def valid_slot_def same_objects_def planning_frames)

lemma take_slot_granted:
  assumes run: "take_slot key n elt S = (S1, i, s)" and key: "key = (o', a, b)" and m: "fifo_maps S"
  shows "granted (InFifo a b) S S1 i s"
proof (cases "key_spec S key")
  case None
  let ?sp = "\<lparr>sp_kind = FifoSpec, memory_resource = None, existing_value = None, fifo_src = Some a,
       fifo_dest = Some b, elements_per_slot = [n], sp_shape = [], sp_element_type = elt\<rparr>"
  have n0: "next_slot S key = 0" using fifo_maps_key [OF m, of key] None by (simp add: key_ok_def)
  have i: "i = length (resource_specs S)" "s = 0"
    and S1: "resource_specs S1 = resource_specs S @ [?sp]" "key_spec S1 = (key_spec S)(key := Some i)"
      "next_slot S1 = (next_slot S)(key := 1)" "same_objects S S1"
    using run None n0 by (auto simp: take_slot_def createFifo_def add_spec_def same_objects_def key)
  have old: "j < length (resource_specs S)" if "key_spec S k = Some j" for k j
    using fifo_maps_key [OF m, of k] that by (simp add: key_ok_def)
  have "fifo_maps S1"
  proof (rule fifo_mapsI)
    show "key_ok S1 k" for k
    proof (cases "k = key")
      case True
      then show ?thesis by (simp add: key_ok_def S1 i key)
    next
      case False
      then show ?thesis using key_ok_append [OF fifo_maps_key [OF m, of k] S1(1)] by (simp add: S1)
    qed
    show "k = k'" if "key_spec S1 k = Some j" "key_spec S1 k' = Some j" for k k' j
      using that old [of k] old [of k'] fifo_maps_inj [OF m, of k j k'] unfolding S1(2) i(1)
      by (auto split: if_splits)
  qed
  then show ?thesis
    unfolding granted_def valid_slot_def holds_boundary_def using S1(4) by (simp add: S1(1) i)
next
  case (Some j)
  note old = fifo_maps_key [OF m, of key, unfolded key_ok_def Some option.simps]
  let ?l = "elements_per_slot (resource_specs S ! j)"
  have i: "i = j" "s = length ?l"
    and S1: "resource_specs S1 = (resource_specs S)[j := (resource_specs S ! j)\<lparr>elements_per_slot := ?l @ [n]\<rparr>]"
      "key_spec S1 = key_spec S" "next_slot S1 = (next_slot S)(key := Suc (length ?l))" "same_objects S S1"
    using run Some old by (auto simp: take_slot_def push_slot_def same_objects_def)
  have "fifo_maps S1"
  proof (rule fifo_mapsI)
    show "key_ok S1 k" for k
    proof (cases "k = key")
      case True
      then show ?thesis using old Some by (simp add: key_ok_def S1)
    next
      case False
      then have "key_spec S k \<noteq> Some j" using fifo_maps_inj [OF m _ Some] by blast
      then show ?thesis using fifo_maps_key [OF m, of k] False by (auto simp: key_ok_def S1 split: option.splits)
    qed
    show "k = k'" if "key_spec S1 k = Some j" "key_spec S1 k' = Some j" for k k' j
      using that fifo_maps_inj [OF m, of k j k'] by (simp add: S1(2))
  qed
  moreover have "specs_grow (resource_specs S) (resource_specs S1)"
    unfolding S1(1) by (rule specs_grow_update) (auto simp: spec_grows_def)
  ultimately show ?thesis
    using old S1(4) unfolding granted_def valid_slot_def holds_boundary_def by (simp add: S1(1) i key)
qed

lemma fifo_get_granted:
  assumes run: "fifo_get ir tir f a b t mir S = Some (S1, i, s)" and m: "fifo_maps S"
  shows "granted (InFifo a b) S S1 i s"
proof (cases "carrierIsMemref ir f")
  case True
  then obtain n where "(case createFifo a b [n] (tl_element_type t) S of (S1, sp) \<Rightarrow> Some (S1, sp, 0)) = Some (S1, i, s)"
    using run unfolding fifo_get_def by (auto simp: bind_eq_Some_conv Let_def)
  then have n: "createFifo a b [n] (tl_element_type t) S = (S1, i)" "s = 0"
    by (cases "createFifo a b [n] (tl_element_type t) S", simp)+
  then show ?thesis
    using add_spec_granted [OF m, of "InFifo a b" "\<lparr>sp_kind = FifoSpec, memory_resource = None,
       existing_value = None, fifo_src = Some a, fifo_dest = Some b, elements_per_slot = [n], sp_shape = [],
       sp_element_type = tl_element_type t\<rparr>" 0]
    by (simp add: createFifo_def holds_boundary_def)
next
  case False
  then obtain n key where k: "boundary_key tir f a b = Some key"
    "take_slot key n (Some (element_type_of tir (carrier f))) S = (S1, i, s)"
    using run unfolding fifo_get_def by (auto simp: bind_eq_Some_conv Let_def split_beta prod_eq_iff split: if_splits)
  then obtain o' where "key = (o', a, b)" by (auto simp: boundary_key_def bind_eq_Some_conv)
  then show ?thesis by (rule take_slot_granted [OF k(2) _ m])
qed

lemma new_operand_granted:
  assumes "new_operand ir tir f pl t mir S = Some (S1, i, s)" and m: "fifo_maps S"
  shows "granted pl S S1 i s"
proof (cases pl)
  case (InMemory r)
  let ?sp = "\<lparr>sp_kind = MemoryBuffer, memory_resource = Some r, existing_value = None, fifo_src = None,
       fifo_dest = None, elements_per_slot = [], sp_shape = tl_shape t, sp_element_type = tl_element_type t\<rparr>"
  have "S1 = fst (add_spec ?sp S)" "i = snd (add_spec ?sp S)" "s = 0"
    using assms(1) InMemory by (auto simp: new_operand_def createMemoryBuffer_def split: prod.splits)
  then show ?thesis using add_spec_granted [OF m, of pl ?sp s] InMemory by (simp add: holds_boundary_def)
next
  case (InFifo a b)
  then show ?thesis using assms fifo_get_granted by (simp add: new_operand_def)
qed

text \<open>The carriers that are set: each is a valid slot at the place of its boundary, and no two are the same.\<close>

definition occupied :: "planning \<Rightarrow> nat \<Rightarrow> nat \<Rightarrow> nat \<Rightarrow> nat \<Rightarrow> bool" where
  "occupied S j k i s \<longleftrightarrow> k < length (flow_carriers S j) \<and> sd_resource (flow_carriers S j ! k) = Some i \<and>
     slot_index (flow_carriers S j ! k) = s"

definition at_boundary :: "routing_graph \<Rightarrow> data_flow list \<Rightarrow> planning \<Rightarrow> nat \<Rightarrow> nat \<Rightarrow> nat \<Rightarrow> nat \<Rightarrow> bool" where
  "at_boundary g flows S j k i s \<longleftrightarrow> valid_slot S i s \<and>
     (\<exists>pl. boundaryPlace (flows ! j) k g = Some pl \<and> holds_boundary pl (resource_specs S ! i))"

definition carriers_ok :: "routing_graph \<Rightarrow> data_flow list \<Rightarrow> planning \<Rightarrow> bool" where
  "carriers_ok g flows S \<longleftrightarrow> fifo_maps S \<and>
     (\<forall>j k i s. occupied S j k i s \<longrightarrow> at_boundary g flows S j k i s) \<and>
     (\<forall>j k j' k' i s. occupied S j k i s \<and> occupied S j' k' i s \<longrightarrow> j = j' \<and> k = k') \<and>
     (\<forall>s. \<forall>t\<in>set (stage_transfers S s). t < length (transfer_infos S))"

lemma carriers_okD:
  assumes "carriers_ok g flows S"
  shows "fifo_maps S" and "occupied S j k i s \<Longrightarrow> at_boundary g flows S j k i s"
    and "occupied S j k i s \<Longrightarrow> occupied S j' k' i s \<Longrightarrow> j = j' \<and> k = k'"
    and "t \<in> set (stage_transfers S s) \<Longrightarrow> t < length (transfer_infos S)"
  using assms unfolding carriers_ok_def by blast+

lemma at_boundary_grows:
  assumes "specs_grow (resource_specs S) (resource_specs S')" and "at_boundary g flows S j k i s"
  shows "at_boundary g flows S' j k i s"
proof -
  obtain pl where pl: "boundaryPlace (flows ! j) k g = Some pl" "holds_boundary pl (resource_specs S ! i)"
    and v: "valid_slot S i s" using assms(2) unfolding at_boundary_def by blast
  have "spec_grows (resource_specs S ! i) (resource_specs S' ! i)"
    using assms(1) v unfolding specs_grow_def valid_slot_def by blast
  from holds_boundary_grows [OF this pl(2)] valid_slot_grows [OF assms(1) v] pl(1)
  show ?thesis unfolding at_boundary_def by blast
qed

lemma carriers_ok_grows:
  assumes ok: "carriers_ok g flows S" and "specs_grow (resource_specs S) (resource_specs S')" and "fifo_maps S'"
    and c: "flow_carriers S' = flow_carriers S"
    and "\<And>s t. t \<in> set (stage_transfers S' s) \<Longrightarrow> t < length (transfer_infos S')"
  shows "carriers_ok g flows S'"
proof -
  have o: "occupied S' = occupied S" by (simp add: fun_eq_iff occupied_def c)
  show ?thesis
    unfolding carriers_ok_def o
    using assms(3,5) at_boundary_grows [OF assms(2)] carriers_okD(2,3) [OF ok] by blast
qed

lemma set_carrier_ok:
  assumes ok: "carriers_ok g flows S1" and same: "\<And>j' k'. occupied S1 j' k' i s \<Longrightarrow> False"
    and new: "at_boundary g flows S1 j k i s" and d: "sd_resource d = Some i" "slot_index d = s"
  shows "carriers_ok g flows (set_carrier j k d S1)"
proof -
  let ?S = "set_carrier j k d S1"
  have occ: "occupied ?S j' k' i' s' \<Longrightarrow> (j' = j \<and> k' = k \<and> i' = i \<and> s' = s) \<or> occupied S1 j' k' i' s'" for j' k' i' s'
    using d by (cases "j' = j"; cases "k' = k") (auto simp: occupied_def planning_frames)
  have b: "at_boundary g flows ?S = at_boundary g flows S1"
    by (simp add: fun_eq_iff at_boundary_def valid_slot_def planning_frames)
  have m: "fifo_maps ?S" by (rule fifo_maps_cong [OF carriers_okD(1) [OF ok]]) (simp_all add: planning_frames)
  have i1: "at_boundary g flows ?S j' k' i' s'" if "occupied ?S j' k' i' s'" for j' k' i' s'
    using occ [OF that] new carriers_okD(2) [OF ok, of j' k' i' s'] unfolding b by blast
  have i2: "j' = j'' \<and> k' = k''" if "occupied ?S j' k' i' s'" "occupied ?S j'' k'' i' s'" for j' k' j'' k'' i' s'
    using occ [OF that(1)] occ [OF that(2)] same carriers_okD(3) [OF ok, of j' k' i' s' j'' k''] by blast
  show ?thesis
    unfolding carriers_ok_def using m i1 i2 carriers_okD(4) [OF ok] by (simp add: planning_frames) blast
qed

text \<open>Updates that leave the resources and the carriers alone.\<close>

definition same_resources :: "planning \<Rightarrow> planning \<Rightarrow> bool" where
  "same_resources S S' \<longleftrightarrow> resource_specs S' = resource_specs S \<and> key_spec S' = key_spec S \<and>
     next_slot S' = next_slot S \<and> flow_carriers S' = flow_carriers S"

lemma same_resources_refl [simp]: "same_resources S S"
  by (simp add: same_resources_def)

lemma same_resources_trans: "same_resources S S' \<Longrightarrow> same_resources S' S'' \<Longrightarrow> same_resources S S''"
  by (simp add: same_resources_def)

definition transfers_wf :: "planning \<Rightarrow> bool" where
  "transfers_wf S \<longleftrightarrow> (\<forall>s. \<forall>t\<in>set (stage_transfers S s). t < length (transfer_infos S))"

lemma carriers_ok_same:
  "carriers_ok g flows S \<Longrightarrow> same_resources S S' \<Longrightarrow> transfers_wf S' \<Longrightarrow> carriers_ok g flows S'"
  by (rule carriers_ok_grows [of g flows S])
    (auto simp: same_resources_def transfers_wf_def intro: fifo_maps_cong [OF carriers_okD(1)])

text \<open>What the factories do to the state.\<close>

lemma describePrivateSide_effect:
  assumes "describePrivateSide tir i s q S = Some (S1, d)"
  shows "same_resources S S1 \<and> same_objects S S1 \<and> sd_resource d = Some i \<and> slot_index d = s"
  using assms unfolding describePrivateSide_def createIndicesForIntermediateBuffer_def
  by (auto simp: Let_def bind_eq_Some_conv same_resources_def same_objects_def split: if_splits)

lemma createFromTemplate_effect:
  assumes "createFromTemplate tir q e src dst S = Some (S1, t)"
  shows "\<exists>ti. S1 = fst (add_transfer ti S) \<and> t = length (transfer_infos S) \<and> ti_template ti = Some q \<and>
    describeTemplateSide tir q True = Some (ti_source ti) \<and> describeTemplateSide tir q False = Some (ti_dest ti)"
  using assms unfolding createFromTemplate_def by (auto simp: bind_eq_Some_conv add_transfer_def)

lemma add_pushed:
  assumes wf: "transfers_wf S" and S': "S' = push_transfer stage (length (transfer_infos S)) (fst (add_transfer ti S))"
  shows "plan_grows X S S' \<and> same_resources S S' \<and> transfers_wf S' \<and>
    length (transfer_infos S) \<in> set (stage_transfers S' stage) \<and>
    length (transfer_infos S) < length (transfer_infos S') \<and>
    transfer_infos S' ! length (transfer_infos S) = ti"
  using wf unfolding S' plan_grows_def same_resources_def transfers_wf_def
  by (auto simp: planning_frames less_SucI)

lemma findTransferForOp_found:
  assumes "findTransferForOp S s q = Some t"
  shows "t \<in> set (stage_transfers S s) \<and> ti_template (transfer_infos S ! t) = Some q"
  using assms unfolding findTransferForOp_def by (auto simp: find_Some_iff)

text \<open>A transfer of an operation, found or new.\<close>

definition has_transfer :: "op \<Rightarrow> ptr \<Rightarrow> nat \<Rightarrow> planning \<Rightarrow> planning \<Rightarrow> bool" where
  "has_transfer q stage t S S' \<longleftrightarrow> plan_grows {} S S' \<and> same_resources S S' \<and> transfers_wf S' \<and>
     t \<in> set (stage_transfers S' stage) \<and> t < length (transfer_infos S') \<and>
     ti_template (transfer_infos S' ! t) = Some q"

lemma template_transfer_effect:
  assumes "template_transfer tir stage q e src dst S = Some (S', t)" and wf: "transfers_wf S"
  shows "has_transfer q stage t S S'"
proof (cases "findTransferForOp S stage q")
  case (Some i)
  then have "S' = S" "t = i" using assms(1) by (auto simp: template_transfer_def)
  then show ?thesis
    using findTransferForOp_found [OF Some] wf by (auto simp: has_transfer_def transfers_wf_def)
next
  case None
  then obtain S1 where "createFromTemplate tir q e src dst S = Some (S1, t)" "S' = push_transfer stage t S1"
    using assms(1) by (auto simp: template_transfer_def bind_eq_Some_conv)
  with createFromTemplate_effect obtain ti where ti: "t = length (transfer_infos S)" "ti_template ti = Some q"
    "S' = push_transfer stage (length (transfer_infos S)) (fst (add_transfer ti S))" by metis
  show ?thesis unfolding has_transfer_def using add_pushed [OF wf ti(3), of "{}"] ti(1,2) by simp
qed

lemma update_side:
  assumes wf: "transfers_wf S" and t: "t < length (transfer_infos S)" "ti_template (transfer_infos S ! t) = Some q"
    and S': "S' = update_transfer t h S" and d: "\<And>ti. h ti = set_side b (d ti) ti"
  shows "plan_grows {(q, b)} S S' \<and> same_resources S S' \<and> transfers_wf S' \<and> stage_transfers S' = stage_transfers S"
proof -
  have "keeps_sides {(q, b)} (transfer_infos S ! t) (h (transfer_infos S ! t))"
    using t(2) unfolding keeps_sides_def by (auto simp: d side_set_side same_place_def)
  then show ?thesis
    using wf unfolding S' plan_grows_def same_resources_def transfers_wf_def
    by (simp add: planning_frames infos_grow_update)
qed

lemma retargetSide_effect:
  assumes run: "retargetSide ir tir t b i s S = Some S'" and wf: "transfers_wf S"
    and t: "t < length (transfer_infos S)" "ti_template (transfer_infos S ! t) = Some q"
  shows "plan_grows {(q, b)} S S' \<and> same_resources S S' \<and> transfers_wf S' \<and> stage_transfers S' = stage_transfers S \<and>
    t < length (transfer_infos S') \<and> ti_template (transfer_infos S' ! t) = Some q \<and>
    sd_resource (side b (transfer_infos S' ! t)) = Some i \<and> slot_index (side b (transfer_infos S' ! t)) = s"
proof -
  obtain v x where v: "getTemplateOperand tir q b = Some (v, x)"
    using run t(2) by (auto simp: retargetSide_def bind_eq_Some_conv)
  show ?thesis
  proof (cases "sp_kind (resource_specs S ! i) = FifoSpec \<and> isFifoSlot ir v")
    case True
    let ?h = "\<lambda>ti. set_side b ((side b ti)\<lparr>sd_resource := Some i, slot_index := s\<rparr>) ti"
    have S': "S' = update_transfer t ?h S" using run t(2) v True by (simp add: retargetSide_def)
    show ?thesis
      using t update_side [OF wf t S' refl] unfolding S' by (simp add: planning_frames side_set_side)
  next
    case False
    obtain S1 d where d: "describePrivateSide tir i s q S = Some (S1, d)" "S' = update_transfer t (set_side b d) S1"
      using run t(2) v False by (auto simp: retargetSide_def bind_eq_Some_conv split: if_splits)
    note e = describePrivateSide_effect [OF d(1)]
    have same: "transfer_infos S1 = transfer_infos S" "stage_transfers S1 = stage_transfers S"
      "resource_specs S1 = resource_specs S"
      using e by (simp_all add: same_objects_def same_resources_def)
    have "transfers_wf S1" using wf by (simp add: transfers_wf_def same)
    then have u: "plan_grows {(q, b)} S1 S' \<and> same_resources S1 S' \<and> transfers_wf S' \<and> stage_transfers S' = stage_transfers S1"
      using update_side [OF _ _ _ d(2) refl] t by (simp add: same)
    have "same_resources S S'" using e u same_resources_trans by blast
    moreover have "plan_grows {(q, b)} S S'" using u by (simp add: plan_grows_def same)
    ultimately show ?thesis
      using t u e unfolding d(2) by (simp add: planning_frames side_set_side same)
  qed
qed

section \<open>Step 2 gives every end its carrier\<close>

definition end_index :: "data_flow \<Rightarrow> bool \<Rightarrow> nat" where
  "end_index f is_producer = (if is_producer then 0 else length (chain_stages f))"

definition end_op :: "data_flow \<Rightarrow> bool \<Rightarrow> op" where
  "end_op f is_producer = (if is_producer then producer_op f else consumer_op f)"

definition end_stage :: "data_flow \<Rightarrow> bool \<Rightarrow> ptr" where
  "end_stage f is_producer = (if is_producer then producer f else consumer f)"

text \<open>
  The end of a flow: the memref itself when it is where it has to be, and otherwise a transfer of
  the end's operation in its stage, whose side is the carrier.
\<close>

definition stays :: "data_flow \<Rightarrow> planning \<Rightarrow> transfer_side \<Rightarrow> bool" where
  "stays f S d \<longleftrightarrow> (\<exists>i<length (resource_specs S). sd_resource d = Some i \<and>
     sp_kind (resource_specs S ! i) = ExistingValue \<and> existing_value (resource_specs S ! i) = Some (carrier f))"

definition end_moved :: "data_flow \<Rightarrow> bool \<Rightarrow> planning \<Rightarrow> transfer_side \<Rightarrow> bool" where
  "end_moved f b S d \<longleftrightarrow> sd_resource d \<noteq> None \<and>
     (\<exists>t\<in>set (stage_transfers S (end_stage f b)). t < length (transfer_infos S) \<and>
        ti_template (transfer_infos S ! t) = Some (end_op f b) \<and> same_place d (side (\<not> b) (transfer_infos S ! t)))"

definition end_set :: "data_flow list \<Rightarrow> planning \<Rightarrow> nat \<Rightarrow> bool \<Rightarrow> bool" where
  "end_set flows S j b \<longleftrightarrow>
     (let f = flows ! j; d = flow_carriers S j ! end_index f b in stays f S d \<or> end_moved f b S d)"

lemma stays_grows:
  assumes "plan_grows X S S'" and "stays f S d"
  shows "stays f S' d"
proof -
  obtain i where i: "i < length (resource_specs S)" "sd_resource d = Some i"
    "sp_kind (resource_specs S ! i) = ExistingValue" "existing_value (resource_specs S ! i) = Some (carrier f)"
    using assms(2) unfolding stays_def by blast
  have l: "length (resource_specs S) \<le> length (resource_specs S')"
    and s: "spec_grows (resource_specs S ! i) (resource_specs S' ! i)"
    using assms(1) i(1) unfolding plan_grows_def specs_grow_def by auto
  show ?thesis unfolding stays_def
    by (rule exI [of _ i]) (use i l spec_grows_fields [OF s] in simp)
qed

lemma end_moved_grows:
  assumes g: "plan_grows X S S'" and m: "end_moved f b S d" and X: "(end_op f b, \<not> b) \<notin> X"
  shows "end_moved f b S' d"
proof -
  obtain t where t: "t \<in> set (stage_transfers S (end_stage f b))" "t < length (transfer_infos S)"
    "ti_template (transfer_infos S ! t) = Some (end_op f b)" "same_place d (side (\<not> b) (transfer_infos S ! t))"
    and d: "sd_resource d \<noteq> None" using m unfolding end_moved_def by blast
  have k: "keeps_sides X (transfer_infos S ! t) (transfer_infos S' ! t)" and l: "t < length (transfer_infos S')"
    using g t(2) unfolding plan_grows_def infos_grow_def by auto
  have p: "prefix (stage_transfers S (end_stage f b)) (stage_transfers S' (end_stage f b))"
    using g unfolding plan_grows_def by blast
  then have "t \<in> set (stage_transfers S' (end_stage f b))" using t(1) set_mono_prefix by blast
  moreover have "sd_resource (side (\<not> b) (transfer_infos S ! t)) \<noteq> None" using t(4) d by (simp add: same_place_def)
  then have "same_place (side (\<not> b) (transfer_infos S ! t)) (side (\<not> b) (transfer_infos S' ! t))"
    using k X t(3) unfolding keeps_sides_def by simp
  then have "same_place d (side (\<not> b) (transfer_infos S' ! t))" using t(4) by (simp add: same_place_def)
  ultimately show ?thesis using l d k t(3) unfolding end_moved_def keeps_sides_def by auto
qed

lemma end_set_grows:
  assumes "plan_grows X S S'" and "end_set flows S j b" and "(end_op (flows ! j) b, \<not> b) \<notin> X"
    and "flow_carriers S' j ! end_index (flows ! j) b = flow_carriers S j ! end_index (flows ! j) b"
  shows "end_set flows S' j b"
  using assms stays_grows end_moved_grows unfolding end_set_def Let_def by metis

lemma grows_objects:
  "granted pl S S1 i s \<Longrightarrow> plan_grows X S S1"
  by (simp add: granted_def same_objects_def plan_grows_def)

lemma carriers_ok_granted:
  assumes ok: "carriers_ok g flows S" and gr: "granted pl S S1 i s"
  shows "carriers_ok g flows S1" and "\<not> occupied S1 j' k' i s"
proof -
  show "carriers_ok g flows S1"
    by (rule carriers_ok_grows [OF ok]) (use gr carriers_okD(4) [OF ok] in \<open>auto simp: granted_def same_objects_def\<close>)
  have "occupied S1 j' k' i s = occupied S j' k' i s" using gr by (simp add: granted_def same_objects_def occupied_def)
  then show "\<not> occupied S1 j' k' i s"
    using carriers_okD(2) [OF ok] gr unfolding granted_def at_boundary_def by blast
qed

lemma carrier_granted:
  assumes ok: "carriers_ok g flows S" and gr: "granted pl S S1 i s"
    and S2: "same_resources S1 S2" "transfers_wf S2" and pl: "boundaryPlace (flows ! j) k g = Some pl"
    and d: "sd_resource d = Some i" "slot_index d = s"
  shows "carriers_ok g flows (set_carrier j k d S2)"
proof (rule set_carrier_ok [OF _ _ _ d])
  show "carriers_ok g flows S2" by (rule carriers_ok_same [OF carriers_ok_granted(1) [OF ok gr] S2])
  have o: "occupied S2 = occupied S1" using S2(1) by (simp add: fun_eq_iff occupied_def same_resources_def)
  show "False" if "occupied S2 j' k' i s" for j' k' using that carriers_ok_granted(2) [OF ok gr] unfolding o by blast
  show "at_boundary g flows S2 j k i s"
    using gr pl S2(1) unfolding at_boundary_def granted_def valid_slot_def same_resources_def by simp
qed

lemma same_set_carrier: "plan_grows X S (set_carrier j k d S') \<longleftrightarrow> plan_grows X S S'"
  by (simp add: plan_grows_def planning_frames)

lemma same_set_kind: "plan_grows X S (set_kind s k S') \<longleftrightarrow> plan_grows X S S'" "transfers_wf (set_kind s k S') = transfers_wf S'"
  "same_resources S (set_kind s k S') = same_resources S S'"
  by (simp_all add: plan_grows_def transfers_wf_def same_resources_def planning_frames)

text \<open>One end.\<close>

definition end_adapted :: "routing_graph \<Rightarrow> data_flow list \<Rightarrow> planning \<Rightarrow> nat \<Rightarrow> bool \<Rightarrow> planning \<Rightarrow> bool" where
  "end_adapted g flows S j b S' \<longleftrightarrow>
     carriers_ok g flows S' \<and> plan_grows {(end_op (flows ! j) b, \<not> b)} S S' \<and> end_set flows S' j b \<and>
     (\<exists>d. flow_carriers S' = (flow_carriers S)(j := (flow_carriers S j)[end_index (flows ! j) b := d]))"

lemma end_adaptedI:
  assumes "carriers_ok g flows (set_carrier j (end_index (flows ! j) b) d S2)"
    and "plan_grows {(end_op (flows ! j) b, \<not> b)} S S2" and "flow_carriers S2 = flow_carriers S"
    and "end_index (flows ! j) b < length (flow_carriers S j)"
    and "stays (flows ! j) S2 d \<or> end_moved (flows ! j) b S2 d"
  shows "end_adapted g flows S j b (set_carrier j (end_index (flows ! j) b) d S2)"
proof -
  have "stays (flows ! j) (set_carrier j k d S2) d = stays (flows ! j) S2 d"
    "end_moved (flows ! j) b (set_carrier j k d S2) d = end_moved (flows ! j) b S2 d" for k
    by (simp_all add: stays_def end_moved_def planning_frames)
  then show ?thesis
    using assms unfolding end_adapted_def end_set_def Let_def same_set_carrier
    by (auto simp: planning_frames)
qed

lemma adapt_fifo_op_end:
  assumes run: "adapt_fifo_op ir tir (flows ! j) (end_stage (flows ! j) b) (end_op (flows ! j) b) (\<not> b) (u, v) e src dst S
      = Some (S', d)"
    and ok: "carriers_ok g flows S" and pl: "boundaryPlace (flows ! j) (end_index (flows ! j) b) g = Some (InFifo u v)"
    and k: "end_index (flows ! j) b < length (flow_carriers S j)"
  shows "end_adapted g flows S j b (set_carrier j (end_index (flows ! j) b) d S')"
proof -
  let ?f = "flows ! j"
  let ?q = "end_op ?f b" and ?s = "end_stage ?f b"
  obtain S1 i s where F: "fifo_get ir tir ?f u v \<lparr>tl_shape = [], tl_element_type = None\<rparr> True S = Some (S1, i, s)"
    and R: "(let (S2, t) = createFromFifoOp ?q e src dst i s (\<not> b) S1;
           S3 = set_kind ?s AdaptFifoKinds (push_transfer ?s t S2)
       in Some (S3, side (\<not> b) (transfer_infos S3 ! t))) = Some (S', d)"
    using run by (auto simp: adapt_fifo_op_def bind_eq_Some_conv)
  define ti where "ti = set_side (\<not> b) (empty_side\<lparr>sd_resource := Some i, slot_index := s\<rparr>)
       \<lparr>ti_template = Some ?q, hop_edge = e, source_resource = src, dest_resource = dst,
        ti_mode = Copy, ti_source = empty_side, ti_dest = empty_side\<rparr>"
  define S2 where "S2 = push_transfer ?s (length (transfer_infos S1)) (fst (add_transfer ti S1))"
  have S': "S' = set_kind ?s AdaptFifoKinds S2" and d: "d = side (\<not> b) (transfer_infos S' ! length (transfer_infos S1))"
    using R by (auto simp: createFromFifoOp_def add_transfer_def Let_def ti_def S2_def)
  note gr = fifo_get_granted [OF F carriers_okD(1) [OF ok]]
  have wf: "transfers_wf S1"
    using carriers_okD(4) [OF carriers_ok_granted(1) [OF ok gr]] by (simp add: transfers_wf_def)
  note A = add_pushed [OF wf S2_def]
  have dd: "d = side (\<not> b) ti" using A unfolding d S' by (simp add: planning_frames)
  then have r: "sd_resource d = Some i" "slot_index d = s" by (simp_all add: ti_def side_set_side)
  have tq: "ti_template ti = Some ?q" by (simp add: ti_def)
  have "end_moved ?f b S' d"
    unfolding end_moved_def using A [of "{}"] r dd tq
    by (intro conjI bexI [of _ "length (transfer_infos S1)"]) (simp_all add: S' planning_frames same_place_def)
  moreover have "carriers_ok g flows (set_carrier j (end_index ?f b) d S')"
    by (rule carrier_granted [OF ok gr _ _ pl r]) (use A in \<open>simp_all add: S' same_set_kind\<close>)
  moreover have "plan_grows {(?q, \<not> b)} S S'"
    using plan_grows_trans [OF grows_objects [OF gr]] A by (simp add: S' same_set_kind)
  moreover have "flow_carriers S' = flow_carriers S"
    using A gr by (simp add: S' same_resources_def granted_def same_objects_def planning_frames)
  ultimately show ?thesis using end_adaptedI k by blast
qed

lemma adapt_transfer_end:
  assumes run: "adapt_transfer ir tir (flows ! j) (end_stage (flows ! j) b) (end_op (flows ! j) b) (\<not> b) pl e src dst tt S
      = Some (S', d)"
    and ok: "carriers_ok g flows S" and pl: "boundaryPlace (flows ! j) (end_index (flows ! j) b) g = Some pl"
    and k: "end_index (flows ! j) b < length (flow_carriers S j)"
  shows "end_adapted g flows S j b (set_carrier j (end_index (flows ! j) b) d S')"
proof -
  let ?f = "flows ! j"
  let ?q = "end_op ?f b" and ?s = "end_stage ?f b"
  obtain S1 i s S2 t S3 where N: "new_operand ir tir ?f pl tt True S = Some (S1, i, s)"
    and T: "template_transfer tir ?s ?q e src dst S1 = Some (S2, t)"
    and R: "retargetSide ir tir t (\<not> b) i s S2 = Some S3"
    and S': "S' = (if si_kind (info_entry (ps_plan S3) ?s) = PreserveOriginal then set_kind ?s AdaptTransfer S3 else S3)"
    and d: "d = side (\<not> b) (transfer_infos S' ! t)"
    using run by (auto simp: adapt_transfer_def bind_eq_Some_conv Let_def)
  note gr = new_operand_granted [OF N carriers_okD(1) [OF ok]]
  have wf: "transfers_wf S1"
    using carriers_okD(4) [OF carriers_ok_granted(1) [OF ok gr]] by (simp add: transfers_wf_def)
  note A = template_transfer_effect [OF T wf, unfolded has_transfer_def]
  have B: "plan_grows {(?q, \<not> b)} S2 S3 \<and> same_resources S2 S3 \<and> transfers_wf S3 \<and> stage_transfers S3 = stage_transfers S2 \<and>
    t < length (transfer_infos S3) \<and> ti_template (transfer_infos S3 ! t) = Some ?q \<and>
    sd_resource (side (\<not> b) (transfer_infos S3 ! t)) = Some i \<and> slot_index (side (\<not> b) (transfer_infos S3 ! t)) = s"
    by (rule retargetSide_effect [OF R]) (use A in simp_all)
  have f: "transfer_infos S' = transfer_infos S3" "stage_transfers S' = stage_transfers S3" "flow_carriers S' = flow_carriers S3"
    by (simp_all add: S' planning_frames)
  have r: "sd_resource d = Some i" "slot_index d = s" using B unfolding d f by simp_all
  have "end_moved ?f b S' d"
    using A B unfolding end_moved_def f d by (intro conjI bexI [of _ t]) (simp_all add: same_place_def f)
  moreover have s3: "same_resources S1 S'" "transfers_wf S'"
    using A B same_resources_trans unfolding S' by (auto simp: same_set_kind)
  have "carriers_ok g flows (set_carrier j (end_index ?f b) d S')"
    by (rule carrier_granted [OF ok gr s3 pl r])
  moreover have "plan_grows {(?q, \<not> b)} S2 S'" using B unfolding S' by (simp add: same_set_kind)
  then have "plan_grows {(?q, \<not> b)} S S'"
    using plan_grows_trans [OF plan_grows_trans [OF grows_objects [OF gr] grows_mono]] A by blast
  moreover have "flow_carriers S' = flow_carriers S"
    using s3(1) gr by (simp add: same_resources_def granted_def same_objects_def)
  ultimately show ?thesis using end_adaptedI k by blast
qed

lemma adaptEnd_end:
  assumes run: "adaptEnd ir tir g flows (end_stage (flows ! j) b) (end_op (flows ! j) b) (j, b) S = success S'"
    and ok: "carriers_ok g flows S" and k: "end_index (flows ! j) b < length (flow_carriers S j)"
  shows "end_adapted g flows S j b S'"
proof -
  let ?f = "flows ! j" and ?k = "end_index (flows ! j) b"
  let ?q = "end_op ?f b" and ?s = "end_stage ?f b"
  have kk: "(if b then 0 else length (chain_stages ?f)) = ?k" by (simp add: end_index_def)
  obtain pl th where pl: "boundaryPlace ?f ?k g = Some pl" and th: "already_there ir ?f pl = Some th"
    using run by (auto simp: adaptEnd_def Let_def kk bind_eq_Some_conv)
  note R = run [unfolded adaptEnd_def Let_def split kk pl th bind.bind_lunit]
  show ?thesis
  proof (cases th)
    case True
    then obtain m where m: "pl = InMemory m" "memrefMemorySpace ir (carrier ?f) = Some (Some m)"
      using th by (auto simp: already_there_def bind_eq_Some_conv split: boundary_place.splits if_splits)
    define sp where "sp = \<lparr>sp_kind = ExistingValue, memory_resource = Some m,
          existing_value = Some (carrier ?f), fifo_src = None, fifo_dest = None, elements_per_slot = [],
          sp_shape = memref_shape tir (carrier ?f), sp_element_type = Some (element_type_of tir (carrier ?f))\<rparr>"
    define S1 where "S1 = fst (add_spec sp S)"
    define i where "i = length (resource_specs S)"
    obtain d where d: "describeTemplateSide tir ?q (\<not> b) = Some d" and S': "S' = set_carrier j ?k (d\<lparr>sd_resource := Some i\<rparr>) S1"
      using run True pl th m(2)
      by (auto simp: adaptEnd_def Let_def kk bind_eq_Some_conv createExistingValue_def add_spec_def S1_def i_def sp_def)
    have gr: "granted pl S S1 i (slot_index d)"
      using add_spec_granted [OF carriers_okD(1) [OF ok], of pl sp "slot_index d"]
      by (simp add: S1_def i_def planning_frames sp_def m(1) holds_boundary_def)
    have wf: "transfers_wf S1"
      using carriers_okD(4) [OF carriers_ok_granted(1) [OF ok gr]] by (simp add: transfers_wf_def)
    have "carriers_ok g flows S'" unfolding S'
      by (rule carrier_granted [OF ok gr same_resources_refl wf pl]) simp_all
    moreover have "stays ?f S1 (d\<lparr>sd_resource := Some i\<rparr>)"
      by (simp add: stays_def S1_def planning_frames i_def sp_def)
    moreover have "plan_grows {(?q, \<not> b)} S S1" "flow_carriers S1 = flow_carriers S"
      using grows_objects [OF gr] by (simp_all add: S1_def planning_frames)
    ultimately show ?thesis using end_adaptedI k unfolding S' by blast
  next
    case False
    obtain info where info: "getStageInfo (ps_plan S) ?s = Some info"
      using run by (auto simp: adaptEnd_def Let_def bind_eq_Some_conv)
    let ?here = "stage_resource info" and ?there = "Some (the_other pl b)"
    let ?src = "if b then ?here else ?there" and ?dst = "if b then ?there else ?here"
    show ?thesis
    proof (cases "is_fifo_op (kind_of tir ?q)")
      case True
      then obtain u v where uv: "pl = InFifo u v"
        using run False pl th info by (cases pl) (auto simp: adaptEnd_def Let_def kk in_memory_def)
      then obtain S1 d where "adapt_fifo_op ir tir ?f ?s ?q (\<not> b) (u, v) (end_edge ?f ?k) ?src ?dst S = Some (S1, d)"
        "S' = set_carrier j ?k d S1"
        using run False True pl th info
        by (cases b) (auto simp: adaptEnd_def Let_def end_index_def in_memory_def bind_eq_Some_conv split: if_splits)
      then show ?thesis using adapt_fifo_op_end ok pl k unfolding uv by metis
    next
      case no: False
      have "\<exists>tt S1 d. adapt_transfer ir tir ?f ?s ?q (\<not> b) pl (end_edge ?f ?k) ?src ?dst tt S = Some (S1, d) \<and>
          S' = set_carrier j ?k d S1"
        using run False no pl th info
        by (cases b; cases pl) (auto simp: adaptEnd_def Let_def end_index_def in_memory_def bind_eq_Some_conv split: if_splits)
      then show ?thesis using adapt_transfer_end ok pl k by metis
    qed
  qed
qed

text \<open>The ends are met in the stages of their flows, and an operation is one end of one flow.\<close>

definition stage_ops :: "planner_ir \<Rightarrow> ptree \<Rightarrow> ptr \<Rightarrow> op list" where
  "stage_ops ir T s =
     (case operation_op T s of
        None \<Rightarrow> []
      | Some q \<Rightarrow> (case stage_op ir q of None \<Rightarrow> [] | Some st \<Rightarrow> ops_in_order (body st)))"

definition ends_wf :: "planner_ir \<Rightarrow> ptree \<Rightarrow> ptr list \<Rightarrow> data_flow list \<Rightarrow> bool" where
  "ends_wf ir T ss flows \<longleftrightarrow>
     (\<forall>f\<in>set flows. \<forall>b. has_hops f \<longrightarrow> end_stage f b \<in> set ss \<and> end_op f b \<in> set (stage_ops ir T (end_stage f b))) \<and>
     (\<forall>s\<in>set ss. \<forall>s'\<in>set ss. \<forall>q. q \<in> set (stage_ops ir T s) \<and> q \<in> set (stage_ops ir T s') \<longrightarrow> s = s') \<and>
     (\<forall>i<length flows. \<forall>j<length flows. \<forall>b. has_hops (flows ! i) \<and> has_hops (flows ! j) \<and>
        end_op (flows ! i) b = end_op (flows ! j) b \<longrightarrow> i = j)"

definition sized :: "data_flow list \<Rightarrow> planning \<Rightarrow> bool" where
  "sized flows S \<longleftrightarrow> (\<forall>j<length flows. has_hops (flows ! j) \<longrightarrow>
     length (flow_carriers S j) = length (chain_stages (flows ! j)) + 1)"

definition ends_done :: "routing_graph \<Rightarrow> data_flow list \<Rightarrow> (nat \<times> bool) set \<Rightarrow> planning \<Rightarrow> bool" where
  "ends_done g flows A S \<longleftrightarrow> carriers_ok g flows S \<and> sized flows S \<and>
     (\<forall>(j, b)\<in>A. j < length flows \<and> has_hops (flows ! j) \<and> end_set flows S j b)"

lemma in_op_ends: "(j, b) \<in> set (op_ends flows q) \<longleftrightarrow> j < length flows \<and> has_hops (flows ! j) \<and> end_op (flows ! j) b = q"
  by (cases b) (auto simp: op_ends_def Let_def end_op_def)

lemma end_index_differs: "has_hops f \<Longrightarrow> end_index f b = end_index f b' \<Longrightarrow> b = b'"
  by (cases b; cases b') (auto simp: end_index_def has_hops_def)

lemma adaptEnd_done:
  assumes wf: "ends_wf ir T ss flows" and s: "s \<in> set ss" "q \<in> set (stage_ops ir T s)" and e: "(j, b) \<in> set (op_ends flows q)"
    and A: "ends_done g flows A S" and run: "adaptEnd ir tir g flows s q (j, b) S = success S'"
  shows "ends_done g flows (A \<union> {(j, b)}) S'"
proof -
  let ?f = "flows ! j"
  have j: "j < length flows" "has_hops ?f" "end_op ?f b = q" using e by (simp_all add: in_op_ends)
  have "end_stage ?f b \<in> set ss \<and> end_op ?f b \<in> set (stage_ops ir T (end_stage ?f b))"
    using wf j(1,2) unfolding ends_wf_def by (meson nth_mem)
  then have st: "end_stage ?f b = s" using wf s j(3) unfolding ends_wf_def by blast
  have ok: "carriers_ok g flows S" and len: "length (flow_carriers S j) = length (chain_stages ?f) + 1"
    using A j(1,2) unfolding ends_done_def sized_def by auto
  have "end_adapted g flows S j b S'"
    by (rule adaptEnd_end [OF _ ok]) (use run st j(3) len in \<open>auto simp: end_index_def\<close>)
  then obtain d where E: "carriers_ok g flows S'" "plan_grows {(q, \<not> b)} S S'" "end_set flows S' j b"
    "flow_carriers S' = (flow_carriers S)(j := (flow_carriers S j)[end_index ?f b := d])"
    unfolding end_adapted_def j(3) by blast
  have "sized flows S'" using A E(4) unfolding ends_done_def sized_def by auto
  moreover have "end_set flows S' j' b'" if a: "(j', b') \<in> A" "(j', b') \<noteq> (j, b)" for j' b'
  proof (rule end_set_grows [OF E(2)])
    have j': "j' < length flows" "has_hops (flows ! j')" "end_set flows S j' b'"
      using A a(1) unfolding ends_done_def by auto
    show "end_set flows S j' b'" by (rule j'(3))
    have "end_op (flows ! j') b = end_op ?f b \<Longrightarrow> j' = j"
      using wf j(1,2) j'(1,2) unfolding ends_wf_def by blast
    then show "(end_op (flows ! j') b', \<not> b') \<notin> {(q, \<not> b)}"
      using a(2) j(3) by (cases "b' = b") auto
    show "flow_carriers S' j' ! end_index (flows ! j') b' = flow_carriers S j' ! end_index (flows ! j') b'"
    proof (cases "j' = j")
      case True
      then have "end_index ?f b \<noteq> end_index ?f b'" using a(2) end_index_differs [OF j(2), of b b'] by blast
      then show ?thesis unfolding E(4) True by simp
    qed (simp add: E(4))
  qed
  ultimately show ?thesis
    using E(1,3) A j(1,2) unfolding ends_done_def by fastforce
qed

lemma start_ok: "carriers_ok g flows (resize_carriers flows (start_planning P))"
proof -
  have "\<not> occupied (resize_carriers flows (start_planning P)) j k i s" for j k i s
    by (auto simp: occupied_def resize_carriers_def start_planning_def empty_side_def simp del: replicate_Suc split: if_splits)
  moreover have "fifo_maps (resize_carriers flows (start_planning P))"
    by (rule fifo_mapsI) (simp_all add: key_ok_def resize_carriers_def start_planning_def)
  ultimately show ?thesis unfolding carriers_ok_def by (simp add: resize_carriers_def start_planning_def)
qed

lemma adapt_stage_done:
  assumes wf: "ends_wf ir T ss flows" and s: "s \<in> set ss" and A: "ends_done g flows A S"
    and run: "adapt_stage ir tir g T flows s S = success S'"
  shows "ends_done g flows (A \<union> (\<Union>q\<in>set (stage_ops ir T s). set (op_ends flows q))) S'"
proof -
  have loop: "foldA (\<lambda>q. foldA (adaptEnd ir tir g flows s q) (op_ends flows q)) (stage_ops ir T s) S = success S'"
    using run by (auto simp: adapt_stage_def stage_ops_def bind_eq_Some_conv split: option.splits)
  show ?thesis
  proof (rule foldA_collects [where P = "ends_done g flows", OF loop A])
    fix q B S1 S2
    assume q: "q \<in> set (stage_ops ir T s)" and B: "ends_done g flows B S1"
      and inner: "foldA (adaptEnd ir tir g flows s q) (op_ends flows q) S1 = success S2"
    have "ends_done g flows (B \<union> (\<Union>e\<in>set (op_ends flows q). {e})) S2"
    proof (rule foldA_collects [where P = "ends_done g flows", OF inner B])
      fix e C S3 S4
      assume e: "e \<in> set (op_ends flows q)" "ends_done g flows C S3" "adaptEnd ir tir g flows s q e S3 = success S4"
      obtain j b where "e = (j, b)" by (cases e)
      then show "ends_done g flows (C \<union> {e}) S4" using adaptEnd_done [OF wf s q] e by blast
    qed
    then show "ends_done g flows (B \<union> set (op_ends flows q)) S2" by simp
  qed
qed

definition all_flow_ends :: "data_flow list \<Rightarrow> (nat \<times> bool) set" where
  "all_flow_ends flows = {(j, b). j < length flows \<and> has_hops (flows ! j)}"

lemma adaptFlowEnds_done:
  assumes wf: "ends_wf ir T ss flows" and run: "adaptFlowEnds ir tir g T ss flows (start_planning P) = success S'"
  shows "ends_done g flows (all_flow_ends flows) S'"
proof -
  let ?S = "resize_carriers flows (start_planning P)"
  let ?A = "\<Union>s\<in>set ss. \<Union>q\<in>set (stage_ops ir T s). set (op_ends flows q)"
  have start: "ends_done g flows {} ?S"
    using start_ok unfolding ends_done_def sized_def by (auto simp: resize_carriers_def)
  have "ends_done g flows ({} \<union> ?A) S'"
    by (rule foldA_collects [where P = "ends_done g flows", OF run [unfolded adaptFlowEnds_def] start])
      (rule adapt_stage_done [OF wf])
  moreover have "all_flow_ends flows \<subseteq> ?A"
  proof
    fix e assume "e \<in> all_flow_ends flows"
    then obtain j b where e: "e = (j, b)" "j < length flows" "has_hops (flows ! j)" by (auto simp: all_flow_ends_def)
    let ?f = "flows ! j"
    have "end_stage ?f b \<in> set ss" "end_op ?f b \<in> set (stage_ops ir T (end_stage ?f b))"
      using wf e(2,3) unfolding ends_wf_def by (meson nth_mem)+
    moreover have "e \<in> set (op_ends flows (end_op ?f b))" using e by (simp add: in_op_ends)
    ultimately show "e \<in> ?A" by blast
  qed
  ultimately show ?thesis unfolding ends_done_def by blast
qed

section \<open>Step 2b keeps the carriers\<close>

text \<open>An end of a slot that still uses the original FIFO; a step of Step 2b only moves such ends.\<close>

definition open_end :: "planning \<Rightarrow> fifo_endpoint \<Rightarrow> bool" where
  "open_end S ep \<longleftrightarrow> \<not> transferRewritesFifo S (findTransferForOp S (fe_stage ep) (fe_op ep)) ep"

definition retypes :: "planning \<Rightarrow> planning \<Rightarrow> bool" where
  "retypes S S' \<longleftrightarrow> plan_grows {} S S' \<and> flow_carriers S' = flow_carriers S \<and> fifo_maps S' \<and> transfers_wf S'"

lemma find_prefix: "find Q xs = Some x \<Longrightarrow> prefix xs ys \<Longrightarrow> find Q ys = Some x"
  by (auto simp: prefix_def find_append)

lemma find_map_cong: "(\<And>x. x \<in> set xs \<Longrightarrow> Q x = R x) \<Longrightarrow> find Q xs = find R xs"
  by (induction xs) auto

lemma findTransferForOp_grows:
  assumes g: "plan_grows X S S'" and wf: "transfers_wf S"
  shows "findTransferForOp S s q = Some t \<Longrightarrow> findTransferForOp S' s q = Some t"
    and "findTransferForOp S s q = None \<Longrightarrow> findTransferForOp S' s q = Some t \<Longrightarrow> length (transfer_infos S) \<le> t"
proof -
  have same: "ti_template (transfer_infos S' ! t) = ti_template (transfer_infos S ! t)" if "t \<in> set (stage_transfers S s)" for t
    using g wf that unfolding plan_grows_def infos_grow_def transfers_wf_def keeps_sides_def by blast
  have f: "findTransferForOp S s q = find (\<lambda>t. ti_template (transfer_infos S' ! t) = Some q) (stage_transfers S s)"
    unfolding findTransferForOp_def by (rule find_map_cong) (simp add: same)
  have p: "prefix (stage_transfers S s) (stage_transfers S' s)" using g unfolding plan_grows_def by blast
  show "findTransferForOp S s q = Some t \<Longrightarrow> findTransferForOp S' s q = Some t"
    unfolding f unfolding findTransferForOp_def using find_prefix [OF _ p] by blast
  assume n: "findTransferForOp S s q = None" and t: "findTransferForOp S' s q = Some t"
  have "t \<in> set (stage_transfers S' s)" "ti_template (transfer_infos S' ! t) = Some q"
    using findTransferForOp_found [OF t] by auto
  moreover have "t \<notin> set (stage_transfers S s)"
    using n calculation(2) unfolding f by (auto simp: find_None_iff)
  ultimately show "length (transfer_infos S) \<le> t" using g unfolding plan_grows_def by blast
qed

lemma retargetEndpoint_retypes:
  assumes run: "retargetEndpoint tir ep b e units sp slot S = Some S'"
    and S: "retypes S0 S" and wf: "transfers_wf S0" and op: "open_end S0 ep" "fifo_is_source ep = b"
  shows "retypes S0 S'"
proof -
  let ?q = "fe_op ep" and ?s = "fe_stage ep"
  have g: "plan_grows {} S0 S" and wfS: "transfers_wf S" using S by (simp_all add: retypes_def)
  obtain S1 t src dst where R: "retarget_transfer tir ep b e src dst sp slot S = Some (S1, t)"
    and S': "S' = (let S2 = update_transfer t (\<lambda>ti. set_side b ((side b ti)\<lparr>sd_resource := Some sp, slot_index := slot\<rparr>) ti) S1
      in if si_kind (info_entry (ps_plan S2) ?s) = PreserveOriginal \<or> \<not> is_data_transfer (kind_of tir ?q)
         then set_kind ?s AdaptFifoKinds S2 else S2)"
    using run unfolding retargetEndpoint_def Let_def by (auto simp: bind_eq_Some_conv)
  have T: "has_transfer ?q ?s t S S1 \<and> (t < length (transfer_infos S0) \<longrightarrow> findTransferForOp S0 ?s ?q = Some t)"
  proof (cases "findTransferForOp S ?s ?q")
    case (Some i)
    then have i: "S1 = S" "t = i" using R by (auto simp: retarget_transfer_def)
    have "has_transfer ?q ?s t S S1"
      using findTransferForOp_found [OF Some] wfS i by (auto simp: has_transfer_def transfers_wf_def)
    moreover have "findTransferForOp S0 ?s ?q = Some t" if "t < length (transfer_infos S0)"
    proof (cases "findTransferForOp S0 ?s ?q")
      case None
      then show ?thesis using findTransferForOp_grows(2) [OF g wf None Some] that i by simp
    next
      case (Some i')
      then show ?thesis using findTransferForOp_grows(1) [OF g wf Some] \<open>findTransferForOp S ?s ?q = Some i\<close> i by simp
    qed
    ultimately show ?thesis by blast
  next
    case None
    then obtain ti where ti: "t = length (transfer_infos S)" "ti_template ti = Some ?q"
      "S1 = push_transfer ?s (length (transfer_infos S)) (fst (add_transfer ti S))"
    proof -
      have "\<exists>ti. t = length (transfer_infos S) \<and> ti_template ti = Some ?q \<and>
          S1 = push_transfer ?s (length (transfer_infos S)) (fst (add_transfer ti S))"
      proof (cases "is_data_transfer (kind_of tir ?q)")
        case True
        then obtain S2 where "createFromTemplate tir ?q e src dst S = Some (S2, t)" "S1 = push_transfer ?s t S2"
          using R None by (auto simp: retarget_transfer_def is_data_transfer_def bind_eq_Some_conv split: body_kind.splits)
        then show ?thesis using createFromTemplate_effect by metis
      next
        case False
        then have "(let (S1, t) = createFromFifoOp ?q e src dst sp slot b S in Some (push_transfer ?s t S1, t)) = Some (S1, t)"
          using R None by (cases "kind_of tir ?q") (auto simp: retarget_transfer_def is_data_transfer_def)
        then show ?thesis unfolding createFromFifoOp_def add_transfer_def Let_def
          by (intro exI [of _ "set_side b (empty_side\<lparr>sd_resource := Some sp, slot_index := slot\<rparr>)
              \<lparr>ti_template = Some ?q, hop_edge = e, source_resource = src, dest_resource = dst, ti_mode = Copy,
               ti_source = empty_side, ti_dest = empty_side\<rparr>"]) auto
      qed
      then show ?thesis using that by blast
    qed
    have "length (transfer_infos S0) \<le> length (transfer_infos S)" using g by (auto simp: plan_grows_def infos_grow_def)
    then show ?thesis using add_pushed [OF wfS ti(3), of "{}"] ti(1,2) by (auto simp: has_transfer_def)
  qed
  let ?h = "\<lambda>ti. set_side b ((side b ti)\<lparr>sd_resource := Some sp, slot_index := slot\<rparr>) ti"
  note H = T [THEN conjunct1, unfolded has_transfer_def]
  define S2 where "S2 = update_transfer t ?h S1"
  have g1: "plan_grows {} S0 S1" using plan_grows_trans [OF g] H by blast
  have U: "same_resources S1 S2 \<and> transfers_wf S2 \<and> stage_transfers S2 = stage_transfers S1"
    using update_side [of S1 t ?q S2 ?h b, OF _ _ _ S2_def refl] H by blast
  have keep: "keeps_sides {} (transfer_infos S0 ! i) (transfer_infos S2 ! i)" if i: "i < length (transfer_infos S0)" for i
  proof -
    have k: "keeps_sides {} (transfer_infos S0 ! i) (transfer_infos S1 ! i)"
      using g1 i unfolding plan_grows_def infos_grow_def by blast
    show ?thesis
    proof (cases "i = t")
      case True
      then have "findTransferForOp S0 ?s ?q = Some t" using T i by blast
      then have n: "sd_resource (side b (transfer_infos S0 ! t)) = None"
        using op by (simp add: open_end_def transferRewritesFifo_def)
      have "transfer_infos S2 ! i = ?h (transfer_infos S1 ! t)"
        using H True unfolding S2_def by (simp add: planning_frames)
      then show ?thesis using k n True unfolding keeps_sides_def by (auto simp: side_set_side)
    next
      case False
      then show ?thesis using k unfolding S2_def by (simp add: planning_frames)
    qed
  qed
  have "plan_grows {} S0 S2"
    using g1 keep U unfolding plan_grows_def infos_grow_def by (simp add: S2_def planning_frames)
  moreover have "same_resources S S2" using H U same_resources_trans by blast
  then have "fifo_maps S2" "flow_carriers S2 = flow_carriers S0"
    using S fifo_maps_cong [of S S2] by (simp_all add: retypes_def same_resources_def)
  ultimately have "retypes S0 S2" using U by (simp add: retypes_def)
  then show ?thesis
    unfolding S' Let_def S2_def [symmetric]
    by (auto simp: retypes_def same_set_kind planning_frames intro: fifo_maps_cong)
qed

definition alloc_open :: "planning \<Rightarrow> op \<times> alloc_to_retype \<Rightarrow> bool" where
  "alloc_open S qa \<longleftrightarrow> (\<forall>sl\<in>set (ar_slots (snd qa)).
     open_end S (sr_producer sl) \<and> \<not> fifo_is_source (sr_producer sl) \<and>
     open_end S (sr_consumer sl) \<and> fifo_is_source (sr_consumer sl))"

lemma retypes_touch: "retypes S0 S \<Longrightarrow> retypes S0 (touch_info s S)"
  unfolding retypes_def plan_grows_def transfers_wf_def
  by (auto simp: planning_frames intro: fifo_maps_cong)

lemma retype_slot_retypes:
  assumes run: "retype_slot tir g units sp sl S = Some S'" and S: "retypes S0 S" and wf: "transfers_wf S0"
    and op: "open_end S0 (sr_producer sl)" "\<not> fifo_is_source (sr_producer sl)"
      "open_end S0 (sr_consumer sl)" "fifo_is_source (sr_consumer sl)"
  shows "retypes S0 S'"
proof -
  let ?S1 = "touch_info (fe_stage (sr_consumer sl)) (touch_info (fe_stage (sr_producer sl)) S)"
  obtain e S2 where r: "retargetEndpoint tir (sr_producer sl) False e units sp (sr_idx sl) ?S1 = Some S2"
    "retargetEndpoint tir (sr_consumer sl) True e units sp (sr_idx sl) S2 = Some S'"
    using run by (auto simp: retype_slot_def Let_def bind_eq_Some_conv)
  have "retypes S0 S2"
    by (rule retargetEndpoint_retypes [OF r(1) retypes_touch [OF retypes_touch [OF S]] wf op(1)]) (simp add: op)
  then show ?thesis by (rule retargetEndpoint_retypes [OF r(2) _ wf op(3)]) (simp add: op)
qed

lemma retypes_createFifo:
  assumes S: "retypes S0 S" and "createFifo a b ns elt S = (S', sp)"
  shows "retypes S0 S'"
proof -
  obtain spec where S': "S' = fst (add_spec spec S)" using assms(2) by (auto simp: createFifo_def add_spec_def)
  have "fifo_maps S'" by (rule fifo_maps_append [of S S' "[spec]"]) (use S in \<open>simp_all add: S' planning_frames retypes_def\<close>)
  moreover have "plan_grows {} S S'" by (simp add: plan_grows_def S' planning_frames)
  ultimately show ?thesis
    using S plan_grows_trans [of "{}" S0 S S'] by (simp add: retypes_def S' planning_frames transfers_wf_def)
qed

lemma retype_alloc_retypes:
  assumes run: "retype_alloc ir tir g qa S = success S'" and S: "retypes S0 S" and wf: "transfers_wf S0"
    and op: "alloc_open S0 qa"
  shows "retypes S0 S'"
proof (cases "ar_needs_retype (snd qa)")
  case False
  then show ?thesis using run S by (simp add: retype_alloc_def split_beta)
next
  case True
  let ?x = "sr_expected (hd (ar_slots (snd qa)))"
  obtain ns elt where "(let (S1, sp) = createFifo (fst ?x) (snd ?x) ns elt S in
      do { S2 \<leftarrow> foldM (retype_slot tir g ?x sp) (ar_slots (snd qa)) S1; success S2 }) = success S'"
    using run True by (auto simp: retype_alloc_def split_beta Let_def bind_eq_Some_conv split: if_splits)
  then obtain S1 sp where C: "createFifo (fst ?x) (snd ?x) ns elt S = (S1, sp)"
    and F: "foldM (retype_slot tir g ?x sp) (ar_slots (snd qa)) S1 = Some S'"
    by (auto simp: bind_eq_Some_conv split: prod.splits)
  show ?thesis
  proof (rule foldM_invariant [where P = "retypes S0", OF F retypes_createFifo [OF S C]])
    fix sl T T' assume "sl \<in> set (ar_slots (snd qa))" "retypes S0 T" "retype_slot tir g ?x sp sl T = Some T'"
    then show "retypes S0 T'" using retype_slot_retypes wf op unfolding alloc_open_def by blast
  qed
qed

text \<open>The classification only touches the plan, and collects slots that both stages still use.\<close>

definition classified :: "planning \<Rightarrow> planning \<times> (op \<times> alloc_to_retype) list \<Rightarrow> bool" where
  "classified S0 st \<longleftrightarrow> transfer_infos (fst st) = transfer_infos S0 \<and> stage_transfers (fst st) = stage_transfers S0 \<and>
     same_resources S0 (fst st) \<and> (\<forall>qa\<in>set (snd st). alloc_open S0 qa)"

lemma alloc_add_open:
  "(\<forall>qa\<in>set m. alloc_open S qa) \<Longrightarrow> alloc_open S (q, \<lparr>ar_slots = [sl], ar_needs_retype = b\<rparr>) \<Longrightarrow>
     \<forall>qa\<in>set (alloc_add q sl b m). alloc_open S qa"
  by (induction q sl b m rule: alloc_add.induct) (auto simp: alloc_open_def)

definition ends_sided :: "fifo_endpoints \<Rightarrow> bool" where
  "ends_sided E \<longleftrightarrow> (\<forall>(v, e)\<in>set (producers E). \<not> fifo_is_source e) \<and> (\<forall>(v, e)\<in>set (consumers E). fifo_is_source e)"

lemma classify_slot_classified:
  assumes run: "classify_slot ir tir E vp st = success st'" and vp: "vp \<in> set (producers E)" and E: "ends_sided E"
    and S: "classified S0 st"
  shows "classified S0 st'"
proof (cases "map_of (consumers E) (fst vp)")
  case None
  then show ?thesis using run S by (simp add: classify_slot_def split_beta Let_def)
next
  case (Some co)
  obtain v pr S allocs where st: "vp = (v, pr)" "st = (S, allocs)" by (cases vp, cases st)
  let ?S1 = "touch_info (fe_stage co) (touch_info (fe_stage pr) S)"
  have co: "(v, co) \<in> set (consumers E)" using Some map_of_SomeD by (simp add: st)
  have sided: "\<not> fifo_is_source pr" "fifo_is_source co"
    using E vp co unfolding ends_sided_def st by auto
  have f: "transfer_infos ?S1 = transfer_infos S0" "stage_transfers ?S1 = stage_transfers S0" "same_resources S0 ?S1"
    using S unfolding classified_def st same_resources_def by (simp_all add: planning_frames)
  have al: "\<forall>qa\<in>set allocs. alloc_open S0 qa" using S by (simp add: classified_def st)
  have fe: "transferRewritesFifo ?S1 (findTransferForOp ?S1 (fe_stage ep) (fe_op ep)) ep \<longleftrightarrow> \<not> open_end S0 ep" for ep
    unfolding open_end_def transferRewritesFifo_def findTransferForOp_def f by simp
  note R = run [unfolded classify_slot_def st Let_def prod.case fe, folded st]
  have cls: "\<forall>qa\<in>set a'. alloc_open S0 qa"
    if c: "classify_units ir tir E v pr co x allocs = success a'" and o: "open_end S0 pr" "open_end S0 co" for x a'
  proof -
    have "a' = allocs \<or> (\<exists>r i b. a' = alloc_add r \<lparr>sr_slot = v, sr_idx = i, sr_producer = pr,
        sr_consumer = co, sr_expected = x\<rparr> b allocs)"
    proof -
      obtain types ar where t: "slot_types ir v = Some types" "getFifoAllocateResult tir v = Some ar"
        using c by (auto simp: classify_units_def bind_eq_Some_conv)
      show ?thesis
      proof (cases ar)
        case None
        then show ?thesis using c t by (simp add: classify_units_def Let_def split: if_splits)
      next
        case (Some rj)
        obtain r j where "rj = (r, j)" by (cases rj)
        then have "a' = alloc_add r \<lparr>sr_slot = v, sr_idx = j, sr_producer = pr, sr_consumer = co, sr_expected = x\<rparr>
            (types \<noteq> (KindAttr (fst x), KindAttr (snd x))) allocs"
          using c t Some by (simp add: classify_units_def Let_def split: if_splits)
        then show ?thesis by blast
      qed
    qed
    then show ?thesis
    proof (elim disjE exE)
      fix r i b assume a': "a' = alloc_add r \<lparr>sr_slot = v, sr_idx = i, sr_producer = pr, sr_consumer = co, sr_expected = x\<rparr> b allocs"
      show ?thesis unfolding a' by (rule alloc_add_open [OF al]) (simp add: alloc_open_def o sided)
    qed (simp add: al)
  qed
  show ?thesis
  proof (cases "open_end S0 pr \<and> open_end S0 co")
    case True
    have "fst st' = ?S1 \<and> (snd st' = allocs \<or>
        (\<exists>x. classify_units ir tir E v pr co x allocs = success (snd st')))"
    proof (cases "applicable_unit (info_entry (ps_plan ?S1) (fe_stage pr))")
      case None
      then show ?thesis using R Some True by (auto simp: st fe)
    next
      case a: (Some a)
      then show ?thesis
        using R Some True by (cases "applicable_unit (info_entry (ps_plan ?S1) (fe_stage co))") (auto simp: st fe)
    qed
    then show ?thesis using cls True f al unfolding classified_def by auto
  next
    case False
    then have "st' = (?S1, allocs)" using R Some by (auto simp: st fe split: if_splits)
    then show ?thesis using f al unfolding classified_def by simp
  qed
qed

lemma retypeFifos_retypes:
  assumes run: "retypeFifosBetweenOriginalStages ir tir g E S = success S'" and E: "ends_sided E"
    and S: "fifo_maps S" "transfers_wf S"
  shows "retypes S S'"
proof -
  obtain S1 allocs where C: "foldA (classify_slot ir tir E) (producers E) (S, []) = success (S1, allocs)"
    and F: "foldA (retype_alloc ir tir g) allocs S1 = success S'"
    using run by (auto simp: retypeFifosBetweenOriginalStages_def)
  have "classified S (S1, allocs)"
    by (rule foldA_invariant [where P = "classified S", OF C])
      (simp add: classified_def, rule classify_slot_classified [OF _ _ E])
  then have c: "transfer_infos S1 = transfer_infos S" "stage_transfers S1 = stage_transfers S" "same_resources S S1"
    "\<forall>qa\<in>set allocs. alloc_open S qa" by (auto simp: classified_def)
  have "retypes S S1"
    using c S fifo_maps_cong [OF S(1), of S1] by (simp add: retypes_def plan_grows_def same_resources_def transfers_wf_def)
  then show ?thesis
  proof (rule foldA_invariant [where P = "retypes S", OF F])
    fix qa T T' assume "qa \<in> set allocs" "retypes S T" "retype_alloc ir tir g qa T = success T'"
    then show "retypes S T'" using retype_alloc_retypes S(2) c(4) by blast
  qed
qed

lemma retypes_done:
  assumes "retypes S S'" and "ends_done g flows A S"
  shows "ends_done g flows A S'"
proof -
  have "carriers_ok g flows S'"
    by (rule carriers_ok_grows) (use assms in \<open>auto simp: retypes_def ends_done_def plan_grows_def transfers_wf_def\<close>)
  moreover have "sized flows S'" using assms by (simp add: retypes_def ends_done_def sized_def)
  moreover have "end_set flows S' j b" if "(j, b) \<in> A" for j b
    by (rule end_set_grows [of "{}" S]) (use assms that in \<open>auto simp: retypes_def ends_done_def\<close>)
  ultimately show ?thesis using assms(2) unfolding ends_done_def by auto
qed

section \<open>Step 3 moves the data from carrier to carrier\<close>

definition carrier_set :: "planning \<Rightarrow> nat \<Rightarrow> nat \<Rightarrow> bool" where
  "carrier_set S j k \<longleftrightarrow> sd_resource (flow_carriers S j ! k) \<noteq> None"

definition hop_set :: "data_flow list \<Rightarrow> planning \<Rightarrow> nat \<Rightarrow> nat \<Rightarrow> bool" where
  "hop_set flows S j k \<longleftrightarrow> (\<exists>t\<in>set (stage_transfers S (chain_stages (flows ! j) ! k)). t < length (transfer_infos S) \<and>
     ti_template (transfer_infos S ! t) = None \<and>
     carrier_set S j k \<and> same_place (flow_carriers S j ! k) (ti_source (transfer_infos S ! t)) \<and>
     carrier_set S j (k + 1) \<and> same_place (flow_carriers S j ! (k + 1)) (ti_dest (transfer_infos S ! t)))"

definition hops_set :: "data_flow list \<Rightarrow> planning \<Rightarrow> nat \<Rightarrow> bool" where
  "hops_set flows S j \<longleftrightarrow> (has_hops (flows ! j) \<longrightarrow> (\<forall>k<length (chain_stages (flows ! j)). hop_set flows S j k))"

lemma hop_set_grows:
  assumes g: "plan_grows X S S'" and h: "hop_set flows S j k"
    and c: "flow_carriers S' j ! k = flow_carriers S j ! k" "flow_carriers S' j ! (k + 1) = flow_carriers S j ! (k + 1)"
  shows "hop_set flows S' j k"
proof -
  let ?s = "chain_stages (flows ! j) ! k"
  obtain t where t: "t \<in> set (stage_transfers S ?s)" "t < length (transfer_infos S)"
    "ti_template (transfer_infos S ! t) = None"
    "same_place (flow_carriers S j ! k) (ti_source (transfer_infos S ! t))"
    "same_place (flow_carriers S j ! (k + 1)) (ti_dest (transfer_infos S ! t))"
    and d: "carrier_set S j k" "carrier_set S j (k + 1)" using h unfolding hop_set_def by blast
  have p: "prefix (stage_transfers S ?s) (stage_transfers S' ?s)" using g unfolding plan_grows_def by blast
  have K: "keeps_sides X (transfer_infos S ! t) (transfer_infos S' ! t)" and l: "t < length (transfer_infos S')"
    using g t(2) unfolding plan_grows_def infos_grow_def by auto
  have ne: "sd_resource (side b (transfer_infos S ! t)) \<noteq> None" for b
    using t(4,5) d unfolding carrier_set_def same_place_def by (cases b) (simp_all add: side_def)
  have "same_place (side b (transfer_infos S ! t)) (side b (transfer_infos S' ! t))" for b
    using K ne [of b] t(3) unfolding keeps_sides_def by simp
  from this [of True] this [of False] show ?thesis
    unfolding hop_set_def c carrier_set_def
    using t K l d p set_mono_prefix [OF p]
    by (intro bexI [of _ t]) (auto simp: same_place_def side_def keeps_sides_def carrier_set_def)
qed

text \<open>What holds before and after each flow; \<open>D\<close> are the flows that are done.\<close>

definition hops_done :: "routing_graph \<Rightarrow> data_flow list \<Rightarrow> nat set \<Rightarrow> planning \<Rightarrow> bool" where
  "hops_done g flows D S \<longleftrightarrow> ends_done g flows (all_flow_ends flows) S \<and> (\<forall>j\<in>D. hops_set flows S j)"

lemma ends_done_wf: "ends_done g flows A S \<Longrightarrow> transfers_wf S"
  using carriers_okD(4) unfolding ends_done_def transfers_wf_def by blast

text \<open>An update that leaves the carriers of other flows and the ends of this one alone.\<close>

lemma hops_done_step:
  assumes H: "hops_done g flows D S" and g: "plan_grows {} S S'" and ok: "carriers_ok g flows S'"
    and c: "flow_carriers S' = (flow_carriers S)(j := xs)" and len: "length xs = length (flow_carriers S j)"
    and j: "j \<notin> D" and ends: "\<And>b. xs ! end_index (flows ! j) b = flow_carriers S j ! end_index (flows ! j) b"
  shows "hops_done g flows D S'"
proof -
  have E: "end_set flows S' i b" if "(i, b) \<in> all_flow_ends flows" for i b
    by (rule end_set_grows [OF g]) (use H that ends in \<open>auto simp: hops_done_def ends_done_def c\<close>)
  have "sized flows S'" using H len unfolding hops_done_def ends_done_def sized_def c by auto
  moreover have "hops_set flows S' i" if i: "i \<in> D" for i
    unfolding hops_set_def
  proof (intro impI allI)
    fix k assume "has_hops (flows ! i)" "k < length (chain_stages (flows ! i))"
    then have "hop_set flows S i k" using H i unfolding hops_done_def hops_set_def by blast
    then show "hop_set flows S' i k" by (rule hop_set_grows [OF g]) (use i j c in auto)
  qed
  ultimately show ?thesis using ok E unfolding hops_done_def ends_done_def by (auto simp: all_flow_ends_def)
qed

lemma inner_carrier_done:
  assumes run: "inner_carrier ir tir g j (flows ! j) q tt k S = Some S'"
    and H: "hops_done g flows D S \<and> (\<forall>i\<in>A. carrier_set S j i)" and j: "j \<notin> D" "j < length flows" "has_hops (flows ! j)"
    and k: "0 < k" "k < length (chain_stages (flows ! j))"
  shows "hops_done g flows D S' \<and> (\<forall>i\<in>A \<union> {k}. carrier_set S' j i)"
proof -
  let ?f = "flows ! j"
  obtain pl S1 i s S2 d where B: "boundaryPlace ?f k g = Some pl" and N: "new_operand ir tir ?f pl tt False S = Some (S1, i, s)"
    and D: "describePrivateSide tir i s q S1 = Some (S2, d)" and S': "S' = set_carrier j k d S2"
    using run by (auto simp: inner_carrier_def bind_eq_Some_conv)
  have ok: "carriers_ok g flows S" and wf: "transfers_wf S" and sz: "length (flow_carriers S j) = length (chain_stages ?f) + 1"
    using H j ends_done_wf unfolding hops_done_def ends_done_def sized_def by auto
  note gr = new_operand_granted [OF N carriers_okD(1) [OF ok]]
  note e = describePrivateSide_effect [OF D]
  have w2: "transfers_wf S2" using wf gr e by (simp add: granted_def same_objects_def transfers_wf_def)
  have ok': "carriers_ok g flows S'"
    unfolding S' by (rule carrier_granted [OF ok gr _ w2 B]) (use e in simp_all)
  have g1: "plan_grows {} S S1" by (rule grows_objects [OF gr])
  have "plan_grows {} S1 S2" using e by (simp add: plan_grows_def same_objects_def same_resources_def)
  then have g2: "plan_grows {} S S'" using plan_grows_trans [OF g1] by (simp add: S' same_set_carrier)
  have fc: "flow_carriers S2 = flow_carriers S" using gr e by (simp add: granted_def same_objects_def)
  have c: "flow_carriers S' = (flow_carriers S)(j := (flow_carriers S j)[k := d])" by (simp add: S' planning_frames fc)
  have "hops_done g flows D S'"
    by (rule hops_done_step [OF conjunct1 [OF H] g2 ok' c]) (use j k in \<open>auto simp: end_index_def\<close>)
  moreover have "carrier_set S' j k" using e sz k by (simp add: carrier_set_def c)
  moreover have "carrier_set S' j i'" if "i' \<in> A" for i'
    using H that e sz k unfolding carrier_set_def c by (cases "i' = k") auto
  ultimately show ?thesis by blast
qed

lemma fill_side_place: "fill_side sps d = Some d' \<Longrightarrow> same_place d d' \<and> sd_resource d \<noteq> None"
  by (auto simp: fill_side_def bind_eq_Some_conv same_place_def)

lemma hop_transfer_done:
  assumes run: "hop_transfer g j (flows ! j) k (S, ts) = Some (S', ts')"
    and H: "hops_done g flows D S \<and> (\<forall>i\<in>A. hop_set flows S j i)" and j: "j \<notin> D"
  shows "hops_done g flows D S' \<and> (\<forall>i\<in>A \<union> {k}. hop_set flows S' j i)"
proof -
  let ?f = "flows ! j" and ?t = "length (transfer_infos S)" and ?s = "chain_stages (flows ! j) ! k"
  obtain e src dst S1 t where C: "createSynthetic e src dst (flow_carriers S j ! k) (flow_carriers S j ! (k + 1)) S = Some (S1, t)"
    and P: "S' = push_transfer ?s t S1"
    using run by (auto simp: hop_transfer_def Let_def bind_eq_Some_conv)
  obtain d1 d2 where d: "fill_side (resource_specs S) (flow_carriers S j ! k) = Some d1"
    "fill_side (resource_specs S) (flow_carriers S j ! (k + 1)) = Some d2"
    and C2: "(S1, t) = add_transfer \<lparr>ti_template = None, hop_edge = e, source_resource = src, dest_resource = dst,
            ti_mode = Copy, ti_source = d1, ti_dest = d2\<rparr> S"
    using C by (auto simp: createSynthetic_def bind_eq_Some_conv)
  obtain ti where ti: "ti_template ti = None" "ti_source ti = d1" "ti_dest ti = d2"
    "S' = push_transfer ?s ?t (fst (add_transfer ti S))"
    using C2 P by (auto simp: add_transfer_def intro!: that [of "\<lparr>ti_template = None, hop_edge = e,
      source_resource = src, dest_resource = dst, ti_mode = Copy, ti_source = d1, ti_dest = d2\<rparr>"])
  have wf: "transfers_wf S" using H ends_done_wf unfolding hops_done_def by blast
  note a = add_pushed [OF wf ti(4), of "{}"]
  have ok: "carriers_ok g flows S'"
    by (rule carriers_ok_same) (use H a in \<open>auto simp: hops_done_def ends_done_def\<close>)
  have fc: "flow_carriers S' = flow_carriers S" using a by (simp add: same_resources_def)
  have "hops_done g flows D S'"
    by (rule hops_done_step [OF conjunct1 [OF H] _ ok, of j "flow_carriers S j"]) (use a fc j in auto)
  moreover have "hop_set flows S' j k"
    unfolding hop_set_def fc carrier_set_def
    by (rule bexI [of _ ?t]) (use a ti fill_side_place [OF d(1)] fill_side_place [OF d(2)] in auto)
  moreover have "hop_set flows S' j i" if "i \<in> A" for i
    by (rule hop_set_grows [of "{}" S]) (use H a that fc in auto)
  ultimately show ?thesis by blast
qed

lemma set_mode_same:
  "infos_grow {} (transfer_infos S) (transfer_infos (set_mode t m S)) \<and> same_resources S (set_mode t m S) \<and>
   stage_transfers (set_mode t m S) = stage_transfers S \<and>
   length (transfer_infos (set_mode t m S)) = length (transfer_infos S)"
proof -
  have "keeps_sides {} ti (ti\<lparr>ti_mode := m\<rparr>)" for ti by (simp add: keeps_sides_def side_def same_place_def)
  then show ?thesis by (simp add: set_mode_def planning_frames infos_grow_update same_resources_def)
qed

lemma assignTransferMode_same:
  "plan_grows {} S (assignTransferMode f ts pt S) \<and> same_resources S (assignTransferMode f ts pt S) \<and>
   stage_transfers (assignTransferMode f ts pt S) = stage_transfers S \<and>
   length (transfer_infos (assignTransferMode f ts pt S)) = length (transfer_infos S)"
proof -
  define ok where "ok S' \<longleftrightarrow> infos_grow {} (transfer_infos S) (transfer_infos S') \<and> same_resources S S' \<and>
    stage_transfers S' = stage_transfers S \<and> length (transfer_infos S') = length (transfer_infos S)" for S'
  have step: "ok S' \<Longrightarrow> ok (set_mode t m S')" for S' t m
    unfolding ok_def using set_mode_same [of S' t m] infos_grow_trans same_resources_trans by auto
  have "ok S" by (simp add: ok_def)
  then have "ok (assignTransferMode f ts pt S)"
    unfolding assignTransferMode_def by (auto intro: step split: option.splits)
  then show ?thesis by (simp add: ok_def plan_grows_def same_resources_def)
qed

lemma populate_flow_done:
  assumes run: "populate_flow ir tir g T flows j S = success S'" and H: "hops_done g flows D S"
    and j: "j < length flows" "j \<notin> D"
  shows "hops_done g flows (D \<union> {j}) S'"
proof (cases "has_hops (flows ! j)")
  case False
  then have "S' = S" using run by (simp add: populate_flow_def Let_def)
  then show ?thesis using H False by (simp add: hops_done_def hops_set_def)
next
  case True
  let ?f = "flows ! j"
  let ?n = "length (chain_stages ?f)"
  obtain q tt S1 S2 ts ts' pt where
    I: "(if ?n > 1 then foldM (inner_carrier ir tir g j ?f q tt) [1..<?n] S else Some S) = Some S1"
    and F: "foldM (hop_transfer g j ?f) [0..<?n] (S1, ts) = Some (S2, ts')"
    and S': "S' = assignTransferMode ?f ts' pt S2"
    using run True by (auto simp: populate_flow_def Let_def bind_eq_Some_conv split: if_splits)
  have H1: "hops_done g flows D S1"
  proof (cases "?n > 1")
    case True
    then have F1: "foldM (inner_carrier ir tir g j ?f q tt) [1..<?n] S = Some S1" using I by simp
    have "hops_done g flows D S1 \<and> (\<forall>i\<in>{} \<union> (\<Union>k\<in>set [1..<?n]. {k}). carrier_set S1 j i)"
      by (rule foldM_collects [where P = "\<lambda>A S. hops_done g flows D S \<and> (\<forall>i\<in>A. carrier_set S j i)", OF F1])
        (use H j \<open>has_hops ?f\<close> inner_carrier_done in auto)
    then show ?thesis by blast
  qed (use I H in simp)
  have "hops_done g flows D (fst (S2, ts')) \<and> (\<forall>i\<in>{} \<union> (\<Union>k\<in>set [0..<?n]. {k}). hop_set flows (fst (S2, ts')) j i)"
  proof (rule foldM_collects [where P = "\<lambda>A x. hops_done g flows D (fst x) \<and> (\<forall>i\<in>A. hop_set flows (fst x) j i)", OF F])
    show "hops_done g flows D (fst (S1, ts)) \<and> (\<forall>i\<in>{}. hop_set flows (fst (S1, ts)) j i)" using H1 by simp
    fix k B x x' assume "k \<in> set [0..<?n]" "hops_done g flows D (fst x) \<and> (\<forall>i\<in>B. hop_set flows (fst x) j i)"
      "hop_transfer g j ?f k x = Some x'"
    then show "hops_done g flows D (fst x') \<and> (\<forall>i\<in>B \<union> {k}. hop_set flows (fst x') j i)"
      using hop_transfer_done [OF _ _ j(2)] by (cases x, cases x') auto
  qed
  then have H2: "hops_done g flows D S2" "\<And>k. k < ?n \<Longrightarrow> hop_set flows S2 j k" by auto
  note m = assignTransferMode_same [of S2 ?f ts' pt, folded S']
  have ok: "carriers_ok g flows S'"
    by (rule carriers_ok_same [of _ _ S2])
      (use H2(1) m ends_done_wf [of g flows _ S2] in \<open>auto simp: hops_done_def ends_done_def transfers_wf_def\<close>)
  have fc: "flow_carriers S' = flow_carriers S2" using m by (simp add: same_resources_def)
  have "hops_done g flows D S'"
    by (rule hops_done_step [OF H2(1) _ ok, of j "flow_carriers S2 j"]) (use m fc j in auto)
  moreover have "hops_set flows S' j"
    unfolding hops_set_def
  proof (intro impI allI)
    fix k assume "k < ?n"
    then have "hop_set flows S2 j k" by (rule H2(2))
    then show "hop_set flows S' j k" using hop_set_grows [of "{}" S2 S'] m fc by simp
  qed
  ultimately show ?thesis by (simp add: hops_done_def)
qed

lemma populate_done:
  assumes run: "populateHopStageTransfers ir tir g T flows S = success S'"
    and E: "ends_done g flows (all_flow_ends flows) S"
  shows "hops_done g flows {..<length flows} S'"
proof -
  have all: "foldA (populate_flow ir tir g T flows) xs S = success S' \<Longrightarrow> hops_done g flows D S \<Longrightarrow>
      distinct xs \<Longrightarrow> set xs \<subseteq> {..<length flows} \<Longrightarrow> D \<inter> set xs = {} \<Longrightarrow> hops_done g flows (D \<union> set xs) S'" for xs D S
  proof (induction xs arbitrary: D S)
    case (Cons j xs)
    obtain S1 where S1: "populate_flow ir tir g T flows j S = success S1"
      "foldA (populate_flow ir tir g T flows) xs S1 = success S'" using Cons.prems(1) by auto
    have "hops_done g flows (D \<union> {j}) S1"
      by (rule populate_flow_done [OF S1(1) Cons.prems(2)]) (use Cons.prems in auto)
    then have "hops_done g flows (D \<union> {j} \<union> set xs) S'"
      by (rule Cons.IH [OF S1(2)]) (use Cons.prems in auto)
    then show ?case by simp
  qed simp
  have "hops_done g flows ({} \<union> set [0..<length flows]) S'"
    by (rule all [OF run [unfolded populateHopStageTransfers_def]]) (use E in \<open>auto simp: hops_done_def\<close>)
  then show ?thesis by (simp add: lessThan_atLeast0)
qed

section \<open>The planner\<close>

text \<open>Steps 2, 2b and 3 on what Step 1 leaves.\<close>

definition planTransfers ::
  "planner_ir \<Rightarrow> transfer_ir \<Rightarrow> routing_graph \<Rightarrow> planned \<Rightarrow> planning outcome" where
  "planTransfers ir tir g R =
     attempt (adaptFlowEnds ir tir g (pl_tree R) (pl_stages R) (pl_flows R) (start_planning (pl_plan R))) (\<lambda>S1.
     attempt (retypeFifosBetweenOriginalStages ir tir g (pl_ends R) S1) (\<lambda>S2.
     populateHopStageTransfers ir tir g (pl_tree R) (pl_flows R) S2))"

text \<open>The whole planner.\<close>

definition planWithTransfers ::
  "planner_ir \<Rightarrow> transfer_ir \<Rightarrow> routing_graph \<Rightarrow> ptree \<Rightarrow> ptr \<Rightarrow> (planned \<times> planning) outcome" where
  "planWithTransfers ir tir g T pipeline =
     attempt (planPathExpansion ir g T pipeline) (\<lambda>R.
       if changed (pl_plan R) then attempt (planTransfers ir tir g R) (\<lambda>S. success (R, S))
       else success (R, start_planning (pl_plan R)))"

text \<open>
  What the plan of an expanded pipeline says of the data: every boundary of a flow with hops has a
  carrier of its own, at the place of the boundary; every hop stage has a transfer from the carrier
  before it to the carrier after it; and the operations at the two ends use the first and the last
  carrier.
\<close>

definition flow_served :: "routing_graph \<Rightarrow> data_flow list \<Rightarrow> planning \<Rightarrow> nat \<Rightarrow> bool" where
  "flow_served g flows S j \<longleftrightarrow>
     (let n = length (chain_stages (flows ! j)) in
      (\<forall>k\<le>n. \<exists>i s. occupied S j k i s \<and> at_boundary g flows S j k i s) \<and>
      (\<forall>k<n. hop_set flows S j k) \<and> (\<forall>b. end_set flows S j b))"

definition carriers_apart :: "planning \<Rightarrow> bool" where
  "carriers_apart S \<longleftrightarrow> (\<forall>j k j' k' i s. occupied S j k i s \<and> occupied S j' k' i s \<longrightarrow> j = j' \<and> k = k')"

lemma hops_done_served:
  assumes H: "hops_done g flows {..<length flows} S"
  shows "carriers_apart S \<and> (\<forall>j<length flows. has_hops (flows ! j) \<longrightarrow> flow_served g flows S j)"
proof -
  have ok: "carriers_ok g flows S" using H by (simp add: hops_done_def ends_done_def)
  have "flow_served g flows S j" if j: "j < length flows" "has_hops (flows ! j)" for j
  proof -
    let ?n = "length (chain_stages (flows ! j))"
    have hops: "hop_set flows S j k" if "k < ?n" for k
      using H j that by (simp add: hops_done_def hops_set_def)
    have sz: "length (flow_carriers S j) = ?n + 1" and ends: "end_set flows S j b" for b
      using H j by (auto simp: hops_done_def ends_done_def sized_def all_flow_ends_def)
    have pos: "0 < ?n" using j(2) by (simp add: has_hops_def)
    have "carrier_set S j k" if "k \<le> ?n" for k
      using hops [of k] hops [of "k - 1"] that pos by (cases "k = ?n") (auto simp: hop_set_def)
    then have "\<exists>i s. occupied S j k i s \<and> at_boundary g flows S j k i s" if "k \<le> ?n" for k
      using that sz carriers_okD(2) [OF ok] unfolding occupied_def carrier_set_def by fastforce
    then show ?thesis using hops ends by (simp add: flow_served_def Let_def)
  qed
  moreover have "carriers_apart S" using carriers_okD(3) [OF ok] unfolding carriers_apart_def by blast
  ultimately show ?thesis by blast
qed

lemma planTransfers_served:
  assumes run: "planTransfers ir tir g R = success S" and wf: "ends_wf ir (pl_tree R) (pl_stages R) (pl_flows R)"
    and E: "ends_sided (pl_ends R)"
  shows "carriers_apart S \<and> (\<forall>j<length (pl_flows R). has_hops (pl_flows R ! j) \<longrightarrow> flow_served g (pl_flows R) S j)"
proof -
  obtain S1 S2 where
    A: "adaptFlowEnds ir tir g (pl_tree R) (pl_stages R) (pl_flows R) (start_planning (pl_plan R)) = success S1"
    and B: "retypeFifosBetweenOriginalStages ir tir g (pl_ends R) S1 = success S2"
    and C: "populateHopStageTransfers ir tir g (pl_tree R) (pl_flows R) S2 = success S"
    using run by (auto simp: planTransfers_def)
  note D = adaptFlowEnds_done [OF wf A]
  have "retypes S1 S2"
    by (rule retypeFifos_retypes [OF B E]) (use D ends_done_wf carriers_okD(1) in \<open>auto simp: ends_done_def\<close>)
  from hops_done_served [OF populate_done [OF C retypes_done [OF this D]]] show ?thesis .
qed

section \<open>The flows of the planner have well-formed ends\<close>

definition read_value :: "body_op \<Rightarrow> val option" where
  "read_value b =
     (case bo_kind b of
        ReadFromFifoOp v \<Rightarrow> Some v
      | DataTransferOp src _ _ \<Rightarrow> Some src
      | IndDataTransferOp src _ _ \<Rightarrow> Some src
      | _ \<Rightarrow> None)"

lemma carried_read: "carried ir sbl v x y \<Longrightarrow> read_value (snd y) = Some v"
proof -
  assume c: "carried ir sbl v x y"
  show ?thesis
  proof (cases "isFifoSlot ir v")
    case True
    then have "v \<in> set (slots_read ir (snd y))" using c by (simp add: carried_def)
    then show ?thesis by (auto simp: slots_read_def read_value_def split: body_kind.splits if_splits)
  next
    case False
    then have "as_reader (snd y) v" using c by (simp add: carried_def)
    then show ?thesis by (auto simp: as_reader_def read_value_def split: body_kind.splits)
  qed
qed

lemma carried_writer_unique:
  assumes "duplicate (all_ends ir sbl) = None" and c: "carried ir sbl v x y" "carried ir sbl v x' y"
    and ne: "fst x \<noteq> fst y" "fst x' \<noteq> fst y"
  shows "x = x'"
proof (cases "isFifoSlot ir v")
  case True
  then have x: "x \<in> set sbl" "x' \<in> set sbl" "v \<in> set (slots_written ir (snd x))" "v \<in> set (slots_written ir (snd x'))"
    using c by (simp_all add: carried_def)
  have "distinct (concat (map (\<lambda>x. slots_written ir (snd x)) sbl))"
    using all_ends_props [of ir sbl] assms(1) by (simp add: comp_def)
  then show ?thesis by (rule distinct_concat_unique) (rule x)+
next
  case False
  then have "uses_at (occurrences sbl) v \<in> {[x, y], [y, x]}" "uses_at (occurrences sbl) v \<in> {[x', y], [y, x']}"
    using c by (simp_all add: carried_def)
  then show ?thesis using ne by auto
qed

lemma set_ops_in_order:
  "q \<in> set (ops_in_order bs) \<longleftrightarrow> (\<exists>b\<in>set bs. bo_op b = q \<and> (isTransfer (bo_kind b) \<or> is_fifo_op (bo_kind b)))"
proof -
  have "isTransfer k \<longleftrightarrow> is_ind k \<or> (isTransfer k \<and> \<not> is_ind k)" for k
    by (cases k) (simp_all add: isTransfer_def is_ind_def)
  then show ?thesis unfolding ops_in_order_def by auto
qed

lemma written_transfers: "written_by b \<noteq> None \<Longrightarrow> isTransfer (bo_kind b) \<or> is_fifo_op (bo_kind b)"
  by (auto simp: written_by_def isTransfer_def is_fifo_op_def split: body_kind.splits)

lemma read_transfers: "read_value b \<noteq> None \<Longrightarrow> isTransfer (bo_kind b) \<or> is_fifo_op (bo_kind b)"
  by (auto simp: read_value_def isTransfer_def is_fifo_op_def split: body_kind.splits)

lemma located_same_op:
  "bodies_wf ir sbl \<Longrightarrow> x \<in> set sbl \<Longrightarrow> y \<in> set sbl \<Longrightarrow> bo_op (snd x) = bo_op (snd y) \<Longrightarrow> x = y"
  unfolding bodies_wf_def by (metis distinct_map inj_onD)

lemma record_sided: "ends_sided E \<Longrightarrow> ends_sided (record_op ir s b E)"
  by (auto simp: record_op_def record_consumer_def record_producer_def note_duplicate_def ends_sided_def Let_def
      split: body_kind.splits)

lemma all_ends_sided: "ends_sided (all_ends ir sbl)"
proof -
  have "ends_sided E \<Longrightarrow> ends_sided (fold (\<lambda>(s, b). record_op ir s b) sbl E)" for E
    by (induction sbl arbitrary: E) (auto simp: record_sided)
  moreover have "ends_sided no_endpoints" by (simp add: ends_sided_def no_endpoints_def)
  ultimately show ?thesis by (simp add: all_ends_def)
qed

lemma planned_ends_wf:
  assumes run: "planPathExpansion ir g T p = success R" and ok: "plannable ir g T F p" and ch: "changed (pl_plan R)"
  shows "ends_wf ir (pl_tree R) (pl_stages R) (pl_flows R) \<and> ends_sided (pl_ends R)"
proof -
  obtain ss sbs where ss: "set ss = set (stages_of T F p)" and sb: "stage_bodies ir T ss = Some sbs"
    and wf: "bodies_wf ir (located sbs)" and E: "pl_ends R = all_ends ir (located sbs)" "duplicate (pl_ends R) = None"
    and D: "distinct (map producer_op (pl_flows R))"
    and fl: "\<forall>f\<in>set (pl_flows R). flow_found ir (located sbs) f"
    and old: "\<forall>s\<in>set (F p). operation_op (pl_tree R) s = operation_op T s \<and> isStageNode (pl_tree R) s = isStageNode T s"
    using planPathExpansion_flows [OF run ok ch] by (elim exE conjE) (rule that)
  obtain F' where P: "planned_ok p F R F'" using planPathExpansion_sound [OF run ok] by blast
  let ?st = "stages_of (pl_tree R) F' p"
  have st: "set (pl_stages R) = set ?st" and new: "\<forall>s\<in>set ?st - set (F p). operation_op (pl_tree R) s = None"
    and fs: "\<forall>f\<in>set (pl_flows R). set (flow_stages f) \<subseteq> set ?st"
    using P unfolding planned_ok_def Let_def by auto
  have loc: "(s, b) \<in> set (located sbs) \<longleftrightarrow> s \<in> set ss \<and> b \<in> set (body (the (stage_ir_of ir T s)))" for s b
    using sb by (force simp: in_located stage_bodies_eq split: if_splits)
  have ir: "stage_ir_of ir T s \<noteq> None" if "s \<in> set ss" for s
    using sb that by (auto simp: stage_bodies_eq split: if_splits)
  have ops: "set (stage_ops ir (pl_tree R) s) = (if s \<in> set ss
      then {bo_op b | b. (s, b) \<in> set (located sbs) \<and> (isTransfer (bo_kind b) \<or> is_fifo_op (bo_kind b))} else {})"
    if s: "s \<in> set ?st" for s
  proof (cases "s \<in> set (F p)")
    case True
    then have sss: "s \<in> set ss" using s old ss by (auto simp: stages_of_def)
    then obtain q io where q: "operation_op T s = Some q" "stage_op ir q = Some io"
      using ir [of s] by (auto simp: stage_ir_of_def bind_eq_Some_conv)
    have "stage_ops ir (pl_tree R) s = ops_in_order (body io)" using True old q by (simp add: stage_ops_def)
    moreover have "(s, b) \<in> set (located sbs) \<longleftrightarrow> b \<in> set (body io)" for b
      using loc [of s b] sss q by (simp add: stage_ir_of_def)
    ultimately show ?thesis using sss by (auto simp: set_ops_in_order)
  next
    case False
    then have "s \<notin> set ss" using ss by (auto simp: stages_of_def)
    moreover have "operation_op (pl_tree R) s = None" using new s False by blast
    ultimately show ?thesis by (simp add: stage_ops_def)
  qed
  have found: "\<exists>x y. carried ir (located sbs) (carrier f) x y \<and> fst x \<noteq> fst y \<and> x \<in> set (located sbs) \<and>
      y \<in> set (located sbs) \<and> producer_op f = bo_op (snd x) \<and> producer f = fst x \<and>
      consumer_op f = bo_op (snd y) \<and> consumer f = fst y" if "f \<in> set (pl_flows R)" for f
    using fl that carried_located unfolding flow_found_def by blast
  have inst: "end_stage f b \<in> set (pl_stages R)" if "f \<in> set (pl_flows R)" for f b
    using fs that unfolding st by (auto simp: flow_stages_def end_stage_def)
  have a: "end_op f b \<in> set (stage_ops ir (pl_tree R) (end_stage f b))" if f: "f \<in> set (pl_flows R)" for f b
  proof -
    obtain x y where c: "carried ir (located sbs) (carrier f) x y" and xy: "x \<in> set (located sbs)" "y \<in> set (located sbs)"
      and e: "producer_op f = bo_op (snd x)" "producer f = fst x" "consumer_op f = bo_op (snd y)" "consumer f = fst y"
      using found [OF f] by blast
    have "isTransfer (bo_kind (snd x)) \<or> is_fifo_op (bo_kind (snd x))"
      using written_transfers carried_written [OF c] by auto
    moreover have "isTransfer (bo_kind (snd y)) \<or> is_fifo_op (bo_kind (snd y))"
      using read_transfers carried_read [OF c] by auto
    moreover have "fst x \<in> set ss" "fst y \<in> set ss" using xy loc by (metis prod.collapse)+
    moreover have "end_stage f b \<in> set ?st" using inst [OF f] st by blast
    ultimately show ?thesis
      using ops [of "end_stage f b"] xy e by (cases b) (auto simp: end_op_def end_stage_def)
  qed
  have u: "s = s'" if sst: "s \<in> set ?st" "s' \<in> set ?st" and qs: "q \<in> set (stage_ops ir (pl_tree R) s)" "q \<in> set (stage_ops ir (pl_tree R) s')"
    for s s' q
  proof -
    obtain b b' where "(s, b) \<in> set (located sbs)" "(s', b') \<in> set (located sbs)" "bo_op b = q" "bo_op b' = q"
      using qs ops [OF sst(1)] ops [OF sst(2)] by (auto split: if_splits)
    then show ?thesis using located_same_op [OF wf, of "(s, b)" "(s', b')"] by simp
  qed
  have pu: "i = j" if i: "i < length (pl_flows R)" "j < length (pl_flows R)"
    and e: "end_op (pl_flows R ! i) b = end_op (pl_flows R ! j) b" for i j b
  proof -
    have "producer_op (pl_flows R ! i) = producer_op (pl_flows R ! j)"
    proof (cases b)
      case True
      then show ?thesis using e by (simp add: end_op_def)
    next
      case False
      let ?f = "pl_flows R ! i" and ?h = "pl_flows R ! j"
      obtain x y where c: "carried ir (located sbs) (carrier ?f) x y" and xy: "fst x \<noteq> fst y" "y \<in> set (located sbs)"
        "producer_op ?f = bo_op (snd x)" "consumer_op ?f = bo_op (snd y)"
        using found [OF nth_mem [OF i(1)]] by blast
      obtain x' y' where c': "carried ir (located sbs) (carrier ?h) x' y'" and xy': "fst x' \<noteq> fst y'" "y' \<in> set (located sbs)"
        "producer_op ?h = bo_op (snd x')" "consumer_op ?h = bo_op (snd y')"
        using found [OF nth_mem [OF i(2)]] by blast
      have y: "y' = y" using located_same_op [OF wf xy(2) xy'(2)] e False xy(4) xy'(4) by (simp add: end_op_def)
      then have "carrier ?h = carrier ?f" using carried_read [OF c] carried_read [OF c'] by simp
      then have "x = x'" using carried_writer_unique [of ir "located sbs"] c c' xy(1) xy'(1) E unfolding y by metis
      then show ?thesis using xy(3) xy'(3) by simp
    qed
    then show ?thesis using D i by (simp add: distinct_conv_nth) metis
  qed
  have "ends_wf ir (pl_tree R) (pl_stages R) (pl_flows R)"
    unfolding ends_wf_def st using inst a u pu st by blast
  then show ?thesis using all_ends_sided by (simp add: E(1))
qed

lemma planWithTransfers_served:
  assumes run: "planWithTransfers ir tir g T p = success (R, S)" and ok: "plannable ir g T F p"
  shows "carriers_apart S \<and>
    (\<forall>j<length (pl_flows R). has_hops (pl_flows R ! j) \<and> changed (pl_plan R) \<longrightarrow> flow_served g (pl_flows R) S j)"
proof (cases "changed (pl_plan R)")
  case True
  then have r: "planPathExpansion ir g T p = success R" "planTransfers ir tir g R = success S"
    using run by (auto simp: planWithTransfers_def split: if_splits)
  from planTransfers_served [OF r(2)] planned_ends_wf [OF r(1) ok True] show ?thesis by blast
next
  case False
  then have "S = start_planning (pl_plan R)" using run by (auto simp: planWithTransfers_def split: if_splits)
  then show ?thesis using False by (simp add: carriers_apart_def occupied_def start_planning_def)
qed

section \<open>The mode of a flow\<close>

text \<open>
  A splat or pad ends up on the first transfer of the flow that writes a FIFO; the transfer of the
  producer gives it up, and all others keep their mode.
\<close>

lemma assignTransferMode_modes:
  assumes "find (writes_fifo S) ts = Some t" and "flow_mode f \<noteq> Copy" and "t < length (transfer_infos S)"
    and "pt \<noteq> None \<longrightarrow> the pt < length (transfer_infos S)"
  shows "ti_mode (transfer_infos (assignTransferMode f ts pt S) ! u) =
    (if u = t then flow_mode f else if pt = Some u then Copy else ti_mode (transfer_infos S ! u))"
  using assms by (cases pt) (auto simp: assignTransferMode_def set_mode_def planning_frames nth_list_update)

section \<open>Properties\<close>

text \<open>C37: When the planner with its transfers succeeds on a well-formed routing graph and pipeline tree
  with dependencies inside the pipeline and well-typed, distinct operations: in the plan of a
  pipeline that is expanded every boundary of the route of a flow with hops has a carrier, a
  buffer in the memory or a slot of a FIFO between the units that stand at that boundary, or the
  memref itself when it is there already; no two boundaries share one; every hop stage has a
  transfer from the carrier before it to the carrier after it; and the operations at the two
  ends use the first and the last carrier.\<close>

theorem planWithTransfers_carriers:
  assumes "planWithTransfers ir tir g T p = success (R, S)" and "plannable ir g T F p"
  shows "carriers_apart S \<and>
    (\<forall>j<length (pl_flows R). has_hops (pl_flows R ! j) \<and> changed (pl_plan R) \<longrightarrow> flow_served g (pl_flows R) S j)"
  using assms by (rule planWithTransfers_served)

text \<open>
  The slot of the small pipeline, of 64 elements. The load from DDR to SFU gets a buffer in L1, and
  the hop stage moves the data from the buffer to a FIFO from L1LU to SFU.
\<close>

definition small_tir :: transfer_ir where
  "small_tir = \<lparr>kind_of = (\<lambda>q. if q = 20 then DataTransferOp 0 1 Copy else if q = 21 then ReadFromFifoOp 1 else OtherBodyOp),
     memref_shape = (\<lambda>_. [64]), element_type_of = (\<lambda>_. ''f16''), slot_elements = (\<lambda>_. Some 64),
     defining_op = (\<lambda>v. if v = 1 then Some (30, 0) else if v = 7 then Some (31, 0) else None),
     private_yield = (\<lambda>q. if q = 30 then Some [7] else None),
     fifo_allocate = (\<lambda>q. if q = 31 then Some [7] else None),
     addressing = (\<lambda>_ _. \<lparr>oa_indices = [], oa_sizes = [StaticSize 64], oa_map = None\<rparr>),
     constant_value = (\<lambda>_. None), in_function = (\<lambda>_. True)\<rparr>"

theorem planWithTransfers_carriers_witness:
  "\<exists>R S. planWithTransfers small_ir small_tir small_graph pair_tree 9 = success (R, S) \<and>
     flow_served small_graph (pl_flows R) S 0 \<and> map sp_kind (resource_specs S) = [MemoryBuffer, FifoSpec] \<and>
     stage_transfers S 10 = [2] \<and> sd_resource (ti_source (transfer_infos S ! 2)) = Some 0 \<and>
     sd_resource (ti_dest (transfer_infos S ! 2)) = Some 1"
proof -
  have "map_option (map_option (\<lambda>(R, S). (changed (pl_plan R), map has_hops (pl_flows R), map sp_kind (resource_specs S),
      stage_transfers S 10, map (\<lambda>t. (sd_resource (ti_source t), sd_resource (ti_dest t))) (transfer_infos S))))
      (planWithTransfers small_ir small_tir small_graph pair_tree 9) =
    Some (Some (True, [True], [MemoryBuffer, FifoSpec], [2], [(None, Some 0), (Some 1, None), (Some 0, Some 1)]))"
    by code_simp
  then obtain R S where RS: "planWithTransfers small_ir small_tir small_graph pair_tree 9 = success (R, S)"
    "changed (pl_plan R)" "map has_hops (pl_flows R) = [True]" "map sp_kind (resource_specs S) = [MemoryBuffer, FifoSpec]"
    "stage_transfers S 10 = [2]"
    "map (\<lambda>t. (sd_resource (ti_source t), sd_resource (ti_dest t))) (transfer_infos S) =
       [(None, Some 0), (Some 1, None), (Some 0, Some 1)]" by auto
  have l: "length (pl_flows R) = 1" "length (transfer_infos S) = 3"
    using arg_cong [OF RS(3), of length] arg_cong [OF RS(6), of length] by simp_all
  have "has_hops (pl_flows R ! 0)" using arg_cong [OF RS(3), of hd] l by (cases "pl_flows R") simp_all
  then have "flow_served small_graph (pl_flows R) S 0"
    using planWithTransfers_carriers [OF RS(1) pair_plannable] RS(2) l by simp
  moreover have "(sd_resource (ti_source (transfer_infos S ! 2)), sd_resource (ti_dest (transfer_infos S ! 2))) = (Some 0, Some 1)"
    using arg_cong [OF RS(6), of "\<lambda>xs. xs ! 2"] l(2) by simp
  ultimately show ?thesis using RS(1,4,5) by (intro exI [of _ R] exI [of _ S]) simp
qed

text \<open>
  Although nothing of the original program is to change before the materializer runs, the plan of
  the small pipeline has already put a constant into the function around the load.
\<close>

lemma planning_adds_constants:
  "map_option (map_option (\<lambda>(R, S). zero_constants S)) (planWithTransfers small_ir small_tir small_graph pair_tree 9) =
     Some (Some [20])"
  by code_simp

text \<open>
  Two slots of one allocation that the load stage fills in order and the compute stage reads the
  other way round: the slot that Step 2 assigns to the first read is not the slot it has, and the
  assertion of \<open>validateFifoSlotIndex\<close> fails.
\<close>

definition two_slots_ir :: planner_ir where
  "two_slots_ir = small_ir\<lparr>
     value_type := (\<lambda>v. if v = 0 then MemRefType (Some (KindAttr ''DDR''))
       else if v = 1 \<or> v = 2 then FifoSlotType (KindAttr ''DDR'') (KindAttr ''SFU'') else OtherType),
     stage_op := [3 \<mapsto> \<lparr>body = [\<lparr>bo_op = 20, bo_kind = DataTransferOp 0 1 Copy, bo_operands = [0, 1]\<rparr>,
                                \<lparr>bo_op = 22, bo_kind = DataTransferOp 0 2 Copy, bo_operands = [0, 2]\<rparr>],
                       applicable_units = None\<rparr>,
                 4 \<mapsto> \<lparr>body = [\<lparr>bo_op = 23, bo_kind = ReadFromFifoOp 2, bo_operands = [2]\<rparr>,
                                \<lparr>bo_op = 21, bo_kind = ReadFromFifoOp 1, bo_operands = [1]\<rparr>],
                       applicable_units = Some [KindAttr ''SFU'']\<rparr>]\<rparr>"

definition two_slots_tir :: transfer_ir where
  "two_slots_tir = small_tir\<lparr>
     kind_of := (\<lambda>q. if q = 20 then DataTransferOp 0 1 Copy else if q = 22 then DataTransferOp 0 2 Copy
       else if q = 21 then ReadFromFifoOp 1 else if q = 23 then ReadFromFifoOp 2 else OtherBodyOp),
     defining_op := (\<lambda>v. if v = 1 then Some (30, 0) else if v = 2 then Some (30, 1)
       else if v = 7 then Some (31, 0) else if v = 8 then Some (31, 1) else None),
     private_yield := (\<lambda>q. if q = 30 then Some [7, 8] else None),
     fifo_allocate := (\<lambda>q. if q = 31 then Some [7, 8] else None)\<rparr>"

lemma slots_out_of_order_assert:
  "planWithTransfers two_slots_ir two_slots_tir small_graph pair_tree 9 = None"
  by code_simp

end
