(* ===== verification/PlanRetype.thy ===== *)
theory PlanRetype
  imports PlanTransfers
begin

text \<open>
  Step 2b of the planner, \<open>retypeFifosBetweenOriginalStages\<close> of
  \<open>lib/Transforms/PathExpansion/Planner.cpp\<close>: the two ends of a FIFO slot between original stages
  stay on the same slot, and the slot connects the units that the two stages run on.
\<close>

section \<open>Where an end of a slot is\<close>

text \<open>The resource and slot that an end uses instead of its operand, if any.\<close>

definition place_of :: "planning \<Rightarrow> fifo_endpoint \<Rightarrow> (nat \<times> nat) option" where
  "place_of S ep =
     (case findTransferForOp S (fe_stage ep) (fe_op ep) of
        None \<Rightarrow> None
      | Some t \<Rightarrow> (let d = side (fifo_is_source ep) (transfer_infos S ! t) in
                  map_option (\<lambda>i. (i, slot_index d)) (sd_resource d)))"

lemma open_end_place: "open_end S ep \<longleftrightarrow> place_of S ep = None"
  by (auto simp: open_end_def transferRewritesFifo_def place_of_def Let_def split: option.splits)

lemma place_of_cong:
  "transfer_infos S' = transfer_infos S \<Longrightarrow> stage_transfers S' = stage_transfers S \<Longrightarrow> place_of S' ep = place_of S ep"
  by (simp add: place_of_def findTransferForOp_def cong: option.case_cong)

text \<open>A new transfer at the end of the list of a stage is found when there was none.\<close>

lemma place_of_pushed:
  assumes wf: "transfers_wf S" and S': "S' = push_transfer stage (length (transfer_infos S)) (fst (add_transfer ti S))"
    and none: "findTransferForOp S stage q = None" and q: "ti_template ti = Some q"
    and other: "sd_resource (side (\<not> b) ti) = None"
    and st: "fe_op ep = q \<longrightarrow> fe_stage ep = stage" and ne: "\<not> (fe_op ep = q \<and> fifo_is_source ep = b)"
  shows "place_of S' ep = place_of S ep"
proof -
  have infos: "transfer_infos S' = transfer_infos S @ [ti]" by (simp add: S' planning_frames)
  have F: "findTransferForOp S' s r = (case findTransferForOp S s r of Some t \<Rightarrow> Some t
      | None \<Rightarrow> if s = stage \<and> r = q then Some (length (transfer_infos S)) else None)" for s r
  proof -
    have "find (\<lambda>t. ti_template ((transfer_infos S @ [ti]) ! t) = Some r) (stage_transfers S s) = findTransferForOp S s r"
      unfolding findTransferForOp_def
      by (rule find_map_cong) (use wf in \<open>auto simp: transfers_wf_def nth_append\<close>)
    then show ?thesis
      unfolding findTransferForOp_def [of S'] infos using q by (auto simp: S' planning_frames find_append split: option.splits)
  qed
  show ?thesis
  proof (cases "findTransferForOp S (fe_stage ep) (fe_op ep)")
    case (Some t)
    then have "t < length (transfer_infos S)" using findTransferForOp_found wf unfolding transfers_wf_def by blast
    then show ?thesis using Some by (simp add: place_of_def F infos nth_append)
  next
    case None
    then show ?thesis
      using other st ne by (cases "fifo_is_source ep"; cases b) (auto simp: place_of_def F infos)
  qed
qed

lemma retargetEndpoint_place:
  assumes run: "retargetEndpoint tir ep b e units sp slot S = Some S'" and wf: "transfers_wf S"
    and st: "fe_op ep' = fe_op ep \<longrightarrow> fe_stage ep' = fe_stage ep"
  shows "place_of S' ep' = (if fe_op ep' = fe_op ep \<and> fifo_is_source ep' = b then Some (sp, slot) else place_of S ep')"
    and "transfers_wf S'" and "same_resources S S'"
proof -
  let ?q = "fe_op ep" and ?s = "fe_stage ep"
  let ?h = "\<lambda>ti. set_side b ((side b ti)\<lparr>sd_resource := Some sp, slot_index := slot\<rparr>) ti"
  obtain S1 t src dst where R: "retarget_transfer tir ep b e src dst sp slot S = Some (S1, t)"
    and S': "S' = (let S2 = update_transfer t ?h S1
      in if si_kind (info_entry (ps_plan S2) ?s) = PreserveOriginal \<or> \<not> is_data_transfer (kind_of tir ?q)
         then set_kind ?s AdaptFifoKinds S2 else S2)"
    using run unfolding retargetEndpoint_def Let_def by (auto simp: bind_eq_Some_conv)
  have T: "has_transfer ?q ?s t S S1 \<and> findTransferForOp S1 ?s ?q = Some t \<and>
      (\<not> (fe_op ep' = ?q \<and> fifo_is_source ep' = b) \<longrightarrow> place_of S1 ep' = place_of S ep')"
  proof (cases "findTransferForOp S ?s ?q")
    case (Some i)
    then have "S1 = S" "t = i" using R by (auto simp: retarget_transfer_def)
    then show ?thesis using findTransferForOp_found [OF Some] wf Some by (auto simp: has_transfer_def transfers_wf_def)
  next
    case None
    obtain ti where ti: "t = length (transfer_infos S)" "ti_template ti = Some ?q"
      "S1 = push_transfer ?s (length (transfer_infos S)) (fst (add_transfer ti S))" "sd_resource (side (\<not> b) ti) = None"
    proof (cases "is_data_transfer (kind_of tir ?q)")
      case True
      then obtain S2 where "createFromTemplate tir ?q e src dst S = Some (S2, t)" "S1 = push_transfer ?s t S2"
        using R None by (auto simp: retarget_transfer_def is_data_transfer_def bind_eq_Some_conv split: body_kind.splits)
      with createFromTemplate_effect obtain ti where ti: "t = length (transfer_infos S)" "ti_template ti = Some ?q"
        "S1 = push_transfer ?s (length (transfer_infos S)) (fst (add_transfer ti S))"
        "describeTemplateSide tir ?q True = Some (ti_source ti)" "describeTemplateSide tir ?q False = Some (ti_dest ti)"
        by metis
      have null: "sd_resource d = None" if "describeTemplateSide tir ?q c = Some d" for c d
        using that by (auto simp: describeTemplateSide_def getTemplateOperand_def Let_def split: body_kind.splits)
      have "sd_resource (side (\<not> b) ti) = None" using null [OF ti(4)] null [OF ti(5)] by (simp add: side_def)
      then show ?thesis using that ti(1-3) by blast
    next
      case False
      define ti where "ti = set_side b (empty_side\<lparr>sd_resource := Some sp, slot_index := slot\<rparr>)
              \<lparr>ti_template = Some ?q, hop_edge = e, source_resource = src, dest_resource = dst, ti_mode = Copy,
               ti_source = empty_side, ti_dest = empty_side\<rparr>"
      have "(let (S1, t) = createFromFifoOp ?q e src dst sp slot b S in Some (push_transfer ?s t S1, t)) = Some (S1, t)"
        using R None False by (cases "kind_of tir ?q") (auto simp: retarget_transfer_def is_data_transfer_def)
      then have "t = length (transfer_infos S)"
        "S1 = push_transfer ?s (length (transfer_infos S)) (fst (add_transfer ti S))"
        unfolding createFromFifoOp_def add_transfer_def Let_def by (auto simp: ti_def)
      moreover have "ti_template ti = Some ?q" "sd_resource (side (\<not> b) ti) = None"
        by (auto simp: ti_def side_def set_side_def empty_side_def)
      ultimately show ?thesis using that by blast
    qed
    have H: "has_transfer ?q ?s t S S1" using add_pushed [OF wf ti(3), of "{}"] ti(1,2) by (auto simp: has_transfer_def)
    have "findTransferForOp S1 ?s ?q = Some t"
    proof -
      have "find (\<lambda>i. ti_template ((transfer_infos S @ [ti]) ! i) = Some ?q) (stage_transfers S ?s) = findTransferForOp S ?s ?q"
        unfolding findTransferForOp_def
        by (rule find_map_cong) (use wf in \<open>auto simp: transfers_wf_def nth_append\<close>)
      then show ?thesis using None ti(1,2) by (simp add: findTransferForOp_def ti(3) planning_frames find_append)
    qed
    then show ?thesis using H place_of_pushed [OF wf ti(3) None ti(2,4) st] by blast
  qed
  note H = T [THEN conjunct1, unfolded has_transfer_def]
  define S2 where "S2 = update_transfer t ?h S1"
  have t: "t < length (transfer_infos S1)" "ti_template (transfer_infos S1 ! t) = Some ?q" using H by blast+
  have U: "same_resources S1 S2 \<and> transfers_wf S2 \<and> stage_transfers S2 = stage_transfers S1"
    using update_side [of S1 t ?q S2 ?h b, OF _ _ _ S2_def refl] H by blast
  have infos2: "transfer_infos S2 = (transfer_infos S1)[t := ?h (transfer_infos S1 ! t)]"
    by (simp add: S2_def planning_frames)
  have F: "findTransferForOp S2 s r = findTransferForOp S1 s r" for s r
  proof -
    have "ti_template (transfer_infos S2 ! i) = ti_template (transfer_infos S1 ! i)" for i
      using t by (cases "i = t") (simp_all add: infos2)
    then show ?thesis using U by (simp add: findTransferForOp_def)
  qed
  have P2: "place_of S2 ep' = (if fe_op ep' = ?q \<and> fifo_is_source ep' = b then Some (sp, slot) else place_of S ep')"
  proof (cases "fe_op ep' = ?q")
    case True
    then have f: "findTransferForOp S1 (fe_stage ep') (fe_op ep') = Some t" using st T by simp
    show ?thesis
    proof (cases "fifo_is_source ep' = b")
      case b: True
      then show ?thesis using f True t by (simp add: place_of_def F infos2 side_set_side)
    next
      case False
      have "place_of S2 ep' = place_of S1 ep'"
        using f False t by (simp add: place_of_def F infos2 side_set_side)
      then show ?thesis using T False by simp
    qed
  next
    case False
    have "place_of S2 ep' = place_of S1 ep'"
    proof (cases "findTransferForOp S1 (fe_stage ep') (fe_op ep')")
      case (Some i)
      have "i \<noteq> t" using findTransferForOp_found [OF Some] t(2) False by auto
      then show ?thesis using Some by (simp add: place_of_def F infos2)
    qed (simp add: place_of_def F)
    then show ?thesis using T False by simp
  qed
  have eq: "place_of S' ep' = place_of S2 ep'"
    unfolding S' Let_def S2_def [symmetric] by (auto intro: place_of_cong simp: planning_frames)
  show "place_of S' ep' = (if fe_op ep' = fe_op ep \<and> fifo_is_source ep' = b then Some (sp, slot) else place_of S ep')"
    unfolding eq by (rule P2)
  have "same_resources S S2" using H U same_resources_trans by blast
  then show "same_resources S S'" "transfers_wf S'"
    using U unfolding S' Let_def S2_def [symmetric] by (auto simp: same_set_kind)
qed

section \<open>The slots of an allocation\<close>

definition slot_end :: "slot_to_retype \<Rightarrow> fifo_endpoint \<Rightarrow> bool" where
  "slot_end sl ep \<longleftrightarrow> fe_op ep = fe_op (sr_producer sl) \<and> \<not> fifo_is_source ep \<or>
     fe_op ep = fe_op (sr_consumer sl) \<and> fifo_is_source ep"

text \<open>The stage of an end is the stage of the slot's end on the same operation.\<close>

definition slot_fits :: "fifo_endpoint set \<Rightarrow> slot_to_retype \<Rightarrow> bool" where
  "slot_fits EPS sl \<longleftrightarrow> \<not> fifo_is_source (sr_producer sl) \<and> fifo_is_source (sr_consumer sl) \<and>
     (\<forall>ep\<in>EPS. (fe_op ep = fe_op (sr_producer sl) \<longrightarrow> fe_stage ep = fe_stage (sr_producer sl)) \<and>
               (fe_op ep = fe_op (sr_consumer sl) \<longrightarrow> fe_stage ep = fe_stage (sr_consumer sl)))"

lemma retype_slot_place:
  assumes run: "retype_slot tir g units sp sl S = Some S'" and wf: "transfers_wf S" and fits: "slot_fits EPS sl"
    and ep: "ep \<in> EPS"
  shows "place_of S' ep = (if slot_end sl ep then Some (sp, sr_idx sl) else place_of S ep)"
    and "transfers_wf S'" and "same_resources S S'" and "sr_idx sl < length (elements_per_slot (resource_specs S ! sp))"
proof -
  let ?S1 = "touch_info (fe_stage (sr_consumer sl)) (touch_info (fe_stage (sr_producer sl)) S)"
  obtain e S2 where v: "validateFifoSlotIndex tir (sr_slot sl) (sr_idx sl) (resource_specs S ! sp) = Some ()"
    and r: "retargetEndpoint tir (sr_producer sl) False e units sp (sr_idx sl) ?S1 = Some S2"
    "retargetEndpoint tir (sr_consumer sl) True e units sp (sr_idx sl) S2 = Some S'"
    using run by (auto simp: retype_slot_def Let_def bind_eq_Some_conv)
  have w1: "transfers_wf ?S1" using wf by (simp add: transfers_wf_def planning_frames)
  have p1: "place_of ?S1 ep = place_of S ep" by (rule place_of_cong) (simp_all add: planning_frames)
  have s: "fe_op ep = fe_op (sr_producer sl) \<longrightarrow> fe_stage ep = fe_stage (sr_producer sl)"
    "fe_op ep = fe_op (sr_consumer sl) \<longrightarrow> fe_stage ep = fe_stage (sr_consumer sl)"
    using fits ep unfolding slot_fits_def by blast+
  note A = retargetEndpoint_place [OF r(1) w1 s(1)]
  note B = retargetEndpoint_place [OF r(2) A(2) s(2)]
  show "place_of S' ep = (if slot_end sl ep then Some (sp, sr_idx sl) else place_of S ep)"
    unfolding B(1) A(1) p1 by (auto simp: slot_end_def)
  show "transfers_wf S'" by (rule B(2))
  have "same_resources S ?S1" by (simp add: same_resources_def planning_frames)
  then show "same_resources S S'" using A(3) B(3) same_resources_trans by blast
  show "sr_idx sl < length (elements_per_slot (resource_specs S ! sp))"
    using v by (auto simp: validateFifoSlotIndex_def bind_eq_Some_conv split: if_splits)
qed

definition ends_apart :: "slot_to_retype set \<Rightarrow> bool" where
  "ends_apart sls \<longleftrightarrow> (\<forall>sl\<in>sls. \<forall>sl'\<in>sls. \<forall>ep. slot_end sl ep \<and> slot_end sl' ep \<longrightarrow> sl = sl')"

lemma retype_slots_place:
  assumes "foldM (retype_slot tir g units sp) sls S = Some S'" and "transfers_wf S"
    and "\<forall>sl\<in>set sls. slot_fits EPS sl" and "ends_apart (set sls)" and "EPS \<noteq> {}"
  shows "(\<forall>sl\<in>set sls. sr_idx sl < length (elements_per_slot (resource_specs S ! sp)) \<and>
      (\<forall>ep\<in>EPS. slot_end sl ep \<longrightarrow> place_of S' ep = Some (sp, sr_idx sl))) \<and>
    (\<forall>ep\<in>EPS. (\<forall>sl\<in>set sls. \<not> slot_end sl ep) \<longrightarrow> place_of S' ep = place_of S ep) \<and>
    transfers_wf S' \<and> same_resources S S'"
  using assms
proof (induction sls arbitrary: S)
  case (Cons sl sls)
  obtain T where T: "retype_slot tir g units sp sl S = Some T" "foldM (retype_slot tir g units sp) sls T = Some S'"
    using Cons.prems(1) by (auto simp: bind_eq_Some_conv)
  obtain ep0 where "ep0 \<in> EPS" using Cons.prems(5) by blast
  have fit: "slot_fits EPS sl" using Cons.prems(3) by simp
  note R = retype_slot_place [OF T(1) Cons.prems(2) fit]
  have wT: "transfers_wf T" and sT: "same_resources S T" and idx: "sr_idx sl < length (elements_per_slot (resource_specs S ! sp))"
    using R(2-4) [OF \<open>ep0 \<in> EPS\<close>] .
  have IH: "(\<forall>sl\<in>set sls. sr_idx sl < length (elements_per_slot (resource_specs T ! sp)) \<and>
      (\<forall>ep\<in>EPS. slot_end sl ep \<longrightarrow> place_of S' ep = Some (sp, sr_idx sl))) \<and>
    (\<forall>ep\<in>EPS. (\<forall>sl\<in>set sls. \<not> slot_end sl ep) \<longrightarrow> place_of S' ep = place_of T ep) \<and>
    transfers_wf S' \<and> same_resources T S'"
    by (rule Cons.IH [OF T(2) wT _ _ Cons.prems(5)]) (use Cons.prems in \<open>auto simp: ends_apart_def\<close>)
  have sp: "resource_specs T = resource_specs S" using sT by (simp add: same_resources_def)
  have head: "place_of S' ep = Some (sp, sr_idx sl)" if ep: "ep \<in> EPS" "slot_end sl ep" for ep
  proof (cases "\<exists>sl'\<in>set sls. slot_end sl' ep")
    case True
    then obtain sl' where sl': "sl' \<in> set sls" "slot_end sl' ep" by blast
    then have "sl' = sl" using Cons.prems(4) ep(2) unfolding ends_apart_def by auto
    then show ?thesis using IH sl' ep(1) by blast
  next
    case False
    then have "place_of S' ep = place_of T ep" using IH ep(1) by blast
    then show ?thesis using R(1) [OF ep(1)] ep(2) by simp
  qed
  have other: "place_of S' ep = place_of S ep" if ep: "ep \<in> EPS" "\<forall>x\<in>set (sl # sls). \<not> slot_end x ep" for ep
  proof -
    have "place_of S' ep = place_of T ep" using IH ep by simp
    then show ?thesis using R(1) [OF ep(1)] ep(2) by simp
  qed
  show ?case
    using IH head other idx sT same_resources_trans unfolding sp by auto
qed (simp add: same_resources_def)

lemma result_sizes_elements:
  assumes "result_sizes ir tir results = Some (ns, elt)"
  shows "ns = map (\<lambda>v. the (slot_elements tir v)) results"
proof -
  have "foldM (\<lambda>v (ns, elt).
        do { n \<leftarrow> (if isFifoSlot ir v then slot_elements tir v else None);
             if elt = None \<or> elt = Some (element_type_of tir v)
             then Some (ns @ [n], Some (element_type_of tir v)) else None }) results (ms, e) = Some (ns, elt) \<Longrightarrow>
      ns = ms @ map (\<lambda>v. the (slot_elements tir v)) results" for ms e
    by (induction results arbitrary: ms e) (fastforce simp: bind_eq_Some_conv split: if_splits)+
  from this [OF assms [unfolded result_sizes_def]] show ?thesis by simp
qed

text \<open>An allocation that needs it has a new FIFO that mirrors it, and all its slots moved there.\<close>

definition alloc_moved :: "transfer_ir \<Rightarrow> fifo_endpoint set \<Rightarrow> planning \<Rightarrow> op \<times> alloc_to_retype \<Rightarrow> bool" where
  "alloc_moved tir EPS S qa \<longleftrightarrow> (ar_needs_retype (snd qa) \<longrightarrow>
     (let slots = ar_slots (snd qa); x = sr_expected (hd slots) in
      \<exists>i results. i < length (resource_specs S) \<and> fifo_allocate tir (fst qa) = Some results \<and>
        length slots = length results \<and> sp_kind (resource_specs S ! i) = FifoSpec \<and>
        fifo_src (resource_specs S ! i) = Some (fst x) \<and> fifo_dest (resource_specs S ! i) = Some (snd x) \<and>
        elements_per_slot (resource_specs S ! i) = map (\<lambda>v. the (slot_elements tir v)) results \<and>
        (\<forall>sl\<in>set slots. sr_expected sl = x \<and> sr_idx sl < length results \<and>
           (\<forall>ep\<in>EPS. slot_end sl ep \<longrightarrow> place_of S ep = Some (i, sr_idx sl)))))"

lemma retype_alloc_place:
  assumes run: "retype_alloc ir tir g qa S = success S'" and wf: "transfers_wf S"
    and fits: "\<forall>sl\<in>set (ar_slots (snd qa)). slot_fits EPS sl" and ap: "ends_apart (set (ar_slots (snd qa)))"
    and ne: "EPS \<noteq> {}"
  shows "alloc_moved tir EPS S' qa" and "transfers_wf S'" and "prefix (resource_specs S) (resource_specs S')"
    and "ep \<in> EPS \<Longrightarrow> (\<And>sl. sl \<in> set (ar_slots (snd qa)) \<Longrightarrow> ar_needs_retype (snd qa) \<Longrightarrow> \<not> slot_end sl ep) \<Longrightarrow>
      place_of S' ep = place_of S ep"
proof -
  let ?sls = "ar_slots (snd qa)"
  let ?x = "sr_expected (hd ?sls)"
  have "alloc_moved tir EPS S' qa \<and> transfers_wf S' \<and> prefix (resource_specs S) (resource_specs S') \<and>
    (\<forall>ep\<in>EPS. (\<forall>sl\<in>set ?sls. ar_needs_retype (snd qa) \<longrightarrow> \<not> slot_end sl ep) \<longrightarrow> place_of S' ep = place_of S ep)"
  proof (cases "ar_needs_retype (snd qa)")
    case False
    then have "S' = S" using run by (simp add: retype_alloc_def split_beta)
    then show ?thesis using False wf by (simp add: alloc_moved_def)
  next
    case True
    obtain results where res: "fifo_allocate tir (fst qa) = Some results" "length ?sls = length results"
      "\<not> list_ex (\<lambda>sl. sr_expected sl \<noteq> ?x) ?sls"
      using run True by (auto simp: retype_alloc_def split_beta Let_def bind_eq_Some_conv split: if_splits)
    obtain ns elt where ns: "result_sizes ir tir results = Some (ns, elt)"
      and F0: "(let (S1, sp) = createFifo (fst ?x) (snd ?x) ns elt S in
        do { S2 \<leftarrow> foldM (retype_slot tir g ?x sp) ?sls S1; success S2 }) = success S'"
      using run True res by (auto simp: retype_alloc_def split_beta Let_def bind_eq_Some_conv split: if_splits)
    define spec where "spec = \<lparr>sp_kind = FifoSpec, memory_resource = None, existing_value = None, fifo_src = Some (fst ?x),
       fifo_dest = Some (snd ?x), elements_per_slot = ns, sp_shape = [], sp_element_type = elt\<rparr>"
    define S1 where "S1 = fst (add_spec spec S)"
    let ?i = "length (resource_specs S)"
    have F: "foldM (retype_slot tir g ?x ?i) ?sls S1 = Some S'"
      using F0 by (auto simp: createFifo_def add_spec_def S1_def spec_def bind_eq_Some_conv)
    have w1: "transfers_wf S1" using wf by (simp add: transfers_wf_def S1_def planning_frames)
    note M = retype_slots_place [OF F w1 fits ap ne]
    have specs: "resource_specs S' = resource_specs S @ [spec]" using M by (simp add: same_resources_def S1_def planning_frames)
    have p1: "place_of S1 ep = place_of S ep" for ep by (rule place_of_cong) (simp_all add: S1_def planning_frames)
    have ex: "sr_expected sl = ?x" if "sl \<in> set ?sls" for sl using res(3) that by (auto simp: list_ex_iff)
    have "alloc_moved tir EPS S' qa"
      unfolding alloc_moved_def Let_def
    proof (intro impI exI [of _ ?i] exI [of _ results] conjI ballI)
      fix sl assume sl: "sl \<in> set ?sls"
      show "sr_expected sl = ?x" by (rule ex [OF sl])
      show "sr_idx sl < length results"
        using M sl result_sizes_elements [OF ns] by (auto simp: S1_def planning_frames spec_def)
      fix ep assume "ep \<in> EPS" "slot_end sl ep"
      then show "place_of S' ep = Some (?i, sr_idx sl)" using M sl by blast
    qed (use res result_sizes_elements [OF ns] in \<open>simp_all add: specs spec_def\<close>)
    then show ?thesis using M True p1 by (simp add: specs)
  qed
  then show "alloc_moved tir EPS S' qa" "transfers_wf S'" "prefix (resource_specs S) (resource_specs S')"
    "ep \<in> EPS \<Longrightarrow> (\<And>sl. sl \<in> set ?sls \<Longrightarrow> ar_needs_retype (snd qa) \<Longrightarrow> \<not> slot_end sl ep) \<Longrightarrow> place_of S' ep = place_of S ep"
    by blast+
qed

text \<open>All allocations.\<close>

definition allocs_apart :: "(op \<times> alloc_to_retype) list \<Rightarrow> bool" where
  "allocs_apart allocs \<longleftrightarrow> distinct (map fst allocs) \<and>
     (\<forall>qa\<in>set allocs. \<forall>qa'\<in>set allocs. \<forall>sl\<in>set (ar_slots (snd qa)). \<forall>sl'\<in>set (ar_slots (snd qa')). \<forall>ep.
        slot_end sl ep \<and> slot_end sl' ep \<longrightarrow> sl = sl' \<and> fst qa = fst qa')"

lemma alloc_moved_kept:
  assumes m: "alloc_moved tir EPS T qa" and p: "prefix (resource_specs T) (resource_specs S)"
    and k: "\<And>ep sl. ar_needs_retype (snd qa) \<Longrightarrow> ep \<in> EPS \<Longrightarrow> sl \<in> set (ar_slots (snd qa)) \<Longrightarrow> slot_end sl ep \<Longrightarrow>
      place_of S ep = place_of T ep"
  shows "alloc_moved tir EPS S qa"
  unfolding alloc_moved_def Let_def
proof
  let ?sls = "ar_slots (snd qa)"
  assume n: "ar_needs_retype (snd qa)"
  obtain i results where i: "i < length (resource_specs T)" "fifo_allocate tir (fst qa) = Some results"
    "length ?sls = length results" "sp_kind (resource_specs T ! i) = FifoSpec"
    "fifo_src (resource_specs T ! i) = Some (fst (sr_expected (hd ?sls)))"
    "fifo_dest (resource_specs T ! i) = Some (snd (sr_expected (hd ?sls)))"
    "elements_per_slot (resource_specs T ! i) = map (\<lambda>v. the (slot_elements tir v)) results"
    and s: "\<forall>sl\<in>set ?sls. sr_expected sl = sr_expected (hd ?sls) \<and> sr_idx sl < length results \<and>
      (\<forall>ep\<in>EPS. slot_end sl ep \<longrightarrow> place_of T ep = Some (i, sr_idx sl))"
    using m n unfolding alloc_moved_def Let_def by blast
  have e: "i < length (resource_specs S)" "resource_specs S ! i = resource_specs T ! i"
    using p i(1) by (auto simp: prefix_def nth_append)
  have s': "\<forall>sl\<in>set ?sls. sr_expected sl = sr_expected (hd ?sls) \<and> sr_idx sl < length results \<and>
      (\<forall>ep\<in>EPS. slot_end sl ep \<longrightarrow> place_of S ep = Some (i, sr_idx sl))"
    using s k [OF n] by auto
  show "\<exists>i results. i < length (resource_specs S) \<and> fifo_allocate tir (fst qa) = Some results \<and>
        length ?sls = length results \<and> sp_kind (resource_specs S ! i) = FifoSpec \<and>
        fifo_src (resource_specs S ! i) = Some (fst (sr_expected (hd ?sls))) \<and>
        fifo_dest (resource_specs S ! i) = Some (snd (sr_expected (hd ?sls))) \<and>
        elements_per_slot (resource_specs S ! i) = map (\<lambda>v. the (slot_elements tir v)) results \<and>
        (\<forall>sl\<in>set ?sls. sr_expected sl = sr_expected (hd ?sls) \<and> sr_idx sl < length results \<and>
           (\<forall>ep\<in>EPS. slot_end sl ep \<longrightarrow> place_of S ep = Some (i, sr_idx sl)))"
    by (rule exI [of _ i], rule exI [of _ results]) (use i e s' in simp)
qed

lemma retype_allocs_place:
  assumes "foldA (retype_alloc ir tir g) allocs S = success S'" and "transfers_wf S"
    and "\<forall>qa\<in>set allocs. \<forall>sl\<in>set (ar_slots (snd qa)). slot_fits EPS sl" and "allocs_apart allocs" and "EPS \<noteq> {}"
  shows "(\<forall>qa\<in>set allocs. alloc_moved tir EPS S' qa) \<and> prefix (resource_specs S) (resource_specs S') \<and>
    (\<forall>ep\<in>EPS. (\<forall>qa\<in>set allocs. \<forall>sl\<in>set (ar_slots (snd qa)). ar_needs_retype (snd qa) \<longrightarrow> \<not> slot_end sl ep) \<longrightarrow>
      place_of S' ep = place_of S ep)"
  using assms
proof (induction allocs arbitrary: S)
  case (Cons qa allocs)
  obtain T where T: "retype_alloc ir tir g qa S = success T" "foldA (retype_alloc ir tir g) allocs T = success S'"
    using Cons.prems(1) by auto
  have ap: "ends_apart (set (ar_slots (snd qa)))"
    using Cons.prems(4) unfolding allocs_apart_def ends_apart_def by (meson list.set_intros(1))
  have fit: "\<forall>sl\<in>set (ar_slots (snd qa)). slot_fits EPS sl" using Cons.prems(3) by simp
  note A = retype_alloc_place [OF T(1) Cons.prems(2) fit ap Cons.prems(5)]
  have ap2: "allocs_apart allocs"
    using Cons.prems(4) unfolding allocs_apart_def by (simp add: list.set_intros(2))
  have IH: "(\<forall>qa\<in>set allocs. alloc_moved tir EPS S' qa) \<and> prefix (resource_specs T) (resource_specs S') \<and>
    (\<forall>ep\<in>EPS. (\<forall>qa\<in>set allocs. \<forall>sl\<in>set (ar_slots (snd qa)). ar_needs_retype (snd qa) \<longrightarrow> \<not> slot_end sl ep) \<longrightarrow>
      place_of S' ep = place_of T ep)"
    by (rule Cons.IH [OF T(2) A(2) _ ap2 Cons.prems(5)]) (use Cons.prems(3) in simp)
  have keep: "place_of S' ep = place_of T ep" if ep: "ep \<in> EPS" "sl \<in> set (ar_slots (snd qa))" "slot_end sl ep" for ep sl
  proof -
    have "\<not> slot_end sl' ep" if q: "qa' \<in> set allocs" "sl' \<in> set (ar_slots (snd qa'))" for qa' sl'
    proof
      assume "slot_end sl' ep"
      then have "fst qa = fst qa'" using Cons.prems(4) ep(2,3) q unfolding allocs_apart_def by (meson list.set_intros)
      moreover have "fst qa \<notin> fst ` set allocs" using Cons.prems(4) by (simp add: allocs_apart_def)
      ultimately show False using q(1) by force
    qed
    then show ?thesis using IH ep(1) by blast
  qed
  have "alloc_moved tir EPS S' qa"
    by (rule alloc_moved_kept [OF A(1)]) (use IH keep in blast)+
  moreover have "place_of S' ep = place_of S ep"
    if ep: "ep \<in> EPS" "\<forall>qa\<in>set (qa # allocs). \<forall>sl\<in>set (ar_slots (snd qa)). ar_needs_retype (snd qa) \<longrightarrow> \<not> slot_end sl ep" for ep
  proof -
    have "place_of S' ep = place_of T ep" using IH ep by simp
    also have "place_of T ep = place_of S ep" by (rule A(4) [OF ep(1)]) (use ep(2) in simp)
    finally show ?thesis .
  qed
  moreover have "prefix (resource_specs S) (resource_specs S')" using A(3) IH prefix_order.trans by blast
  ultimately show ?case using IH by auto
qed simp

section \<open>The classification\<close>

lemma alloc_add_cases:
  "distinct (map fst m) \<Longrightarrow> distinct (map fst (alloc_add q sl b m)) \<and> fst ` set (alloc_add q sl b m) = insert q (fst ` set m) \<and>
     (\<forall>qa\<in>set (alloc_add q sl b m). qa \<in> set m \<and> fst qa \<noteq> q \<or>
        (\<exists>a. (q, a) \<in> set m \<and> qa = (q, \<lparr>ar_slots = ar_slots a @ [sl], ar_needs_retype = (ar_needs_retype a \<or> b)\<rparr>)) \<or>
        qa = (q, \<lparr>ar_slots = [sl], ar_needs_retype = b\<rparr>)) \<and>
     (\<forall>x\<in>insert sl (\<Union>qa\<in>set m. set (ar_slots (snd qa))). \<exists>qa\<in>set (alloc_add q sl b m). x \<in> set (ar_slots (snd qa)))"
proof (induction q sl b m rule: alloc_add.induct)
  case (2 q sl b r a m)
  show ?case
  proof (cases "r = q")
    case True
    then show ?thesis using "2.prems" by auto
  next
    case False
    then have IH: "distinct (map fst (alloc_add q sl b m)) \<and> fst ` set (alloc_add q sl b m) = insert q (fst ` set m) \<and>
     (\<forall>qa\<in>set (alloc_add q sl b m). qa \<in> set m \<and> fst qa \<noteq> q \<or>
        (\<exists>a. (q, a) \<in> set m \<and> qa = (q, \<lparr>ar_slots = ar_slots a @ [sl], ar_needs_retype = (ar_needs_retype a \<or> b)\<rparr>)) \<or>
        qa = (q, \<lparr>ar_slots = [sl], ar_needs_retype = b\<rparr>)) \<and>
     (\<forall>x\<in>insert sl (\<Union>qa\<in>set m. set (ar_slots (snd qa))). \<exists>qa\<in>set (alloc_add q sl b m). x \<in> set (ar_slots (snd qa)))"
      using 2 by simp
    have "r \<notin> fst ` set (alloc_add q sl b m)" using IH "2.prems" False by auto
    then show ?thesis using IH False by auto
  qed
qed simp

text \<open>The units of the stages of the two ends.\<close>

definition end_unit :: "planning \<Rightarrow> fifo_endpoint \<Rightarrow> resource option" where
  "end_unit S ep = applicable_unit (info_entry (ps_plan S) (fe_stage ep))"

definition entry_ok :: "transfer_ir \<Rightarrow> fifo_endpoints \<Rightarrow> planning \<Rightarrow> op \<Rightarrow> slot_to_retype \<Rightarrow> bool" where
  "entry_ok tir E S r sl \<longleftrightarrow> (sr_slot sl, sr_producer sl) \<in> set (producers E) \<and>
     map_of (consumers E) (sr_slot sl) = Some (sr_consumer sl) \<and>
     getFifoAllocateResult tir (sr_slot sl) = success (r, sr_idx sl) \<and>
     place_of S (sr_producer sl) = None \<and> place_of S (sr_consumer sl) = None \<and>
     end_unit S (sr_producer sl) = Some (fst (sr_expected sl)) \<and> end_unit S (sr_consumer sl) = Some (snd (sr_expected sl))"

definition typed_as :: "planner_ir \<Rightarrow> val \<Rightarrow> resource \<times> resource \<Rightarrow> bool" where
  "typed_as ir v x \<longleftrightarrow> slot_types ir v = Some (KindAttr (fst x), KindAttr (snd x))"

definition allocs_ok :: "planner_ir \<Rightarrow> transfer_ir \<Rightarrow> fifo_endpoints \<Rightarrow> planning \<Rightarrow> (op \<times> alloc_to_retype) list \<Rightarrow> bool" where
  "allocs_ok ir tir E S allocs \<longleftrightarrow> distinct (map fst allocs) \<and>
     (\<forall>qa\<in>set allocs. (\<forall>sl\<in>set (ar_slots (snd qa)). entry_ok tir E S (fst qa) sl) \<and> ar_slots (snd qa) \<noteq> [] \<and>
        (ar_needs_retype (snd qa) \<longleftrightarrow> (\<exists>sl\<in>set (ar_slots (snd qa)). \<not> typed_as ir (sr_slot sl) (sr_expected sl))))"

lemma alloc_add_ok:
  assumes ok: "allocs_ok ir tir E S m" and e: "entry_ok tir E S q sl" and b: "b \<longleftrightarrow> \<not> typed_as ir (sr_slot sl) (sr_expected sl)"
  shows "allocs_ok ir tir E S (alloc_add q sl b m)"
proof -
  have d: "distinct (map fst m)" using ok by (simp add: allocs_ok_def)
  note A = alloc_add_cases [OF d, of q sl b]
  have "(\<forall>x\<in>set (ar_slots (snd qa)). entry_ok tir E S (fst qa) x) \<and> ar_slots (snd qa) \<noteq> [] \<and>
        (ar_needs_retype (snd qa) \<longleftrightarrow> (\<exists>x\<in>set (ar_slots (snd qa)). \<not> typed_as ir (sr_slot x) (sr_expected x)))"
    if qa: "qa \<in> set (alloc_add q sl b m)" for qa
  proof -
    consider "qa \<in> set m"
      | a where "(q, a) \<in> set m" "qa = (q, \<lparr>ar_slots = ar_slots a @ [sl], ar_needs_retype = (ar_needs_retype a \<or> b)\<rparr>)"
      | "qa = (q, \<lparr>ar_slots = [sl], ar_needs_retype = b\<rparr>)"
      using A qa by blast
    then show ?thesis
    proof cases
      case 1
      then show ?thesis using ok unfolding allocs_ok_def by blast
    next
      case (2 a)
      then have "(\<forall>x\<in>set (ar_slots a). entry_ok tir E S q x) \<and>
          (ar_needs_retype a \<longleftrightarrow> (\<exists>x\<in>set (ar_slots a). \<not> typed_as ir (sr_slot x) (sr_expected x)))"
        using ok unfolding allocs_ok_def by fastforce
      then show ?thesis using 2(2) e b by auto
    next
      case 3
      then show ?thesis using e b by simp
    qed
  qed
  then show ?thesis using A unfolding allocs_ok_def by blast
qed

text \<open>What the classification has established of the slots it has seen.\<close>

definition slot_seen ::
  "planner_ir \<Rightarrow> fifo_endpoints \<Rightarrow> planning \<Rightarrow> (op \<times> alloc_to_retype) list \<Rightarrow> val \<times> fifo_endpoint \<Rightarrow> bool" where
  "slot_seen ir E S allocs vp \<longleftrightarrow> (\<forall>co. map_of (consumers E) (fst vp) = Some co \<longrightarrow>
     (place_of S (snd vp) = None \<longleftrightarrow> place_of S co = None) \<and>
     (\<forall>a b. place_of S (snd vp) = None \<and> end_unit S (snd vp) = Some a \<and> end_unit S co = Some b \<longrightarrow>
        (\<exists>qa\<in>set allocs. \<exists>sl\<in>set (ar_slots (snd qa)). sr_slot sl = fst vp) \<or> typed_as ir (fst vp) (a, b)))"

definition seen :: "planner_ir \<Rightarrow> transfer_ir \<Rightarrow> fifo_endpoints \<Rightarrow> planning \<Rightarrow> (val \<times> fifo_endpoint) set \<Rightarrow>
   planning \<times> (op \<times> alloc_to_retype) list \<Rightarrow> bool" where
  "seen ir tir E S0 D st \<longleftrightarrow> transfer_infos (fst st) = transfer_infos S0 \<and> stage_transfers (fst st) = stage_transfers S0 \<and>
     (\<forall>ep. end_unit (fst st) ep = end_unit S0 ep) \<and> allocs_ok ir tir E S0 (snd st) \<and>
     (\<forall>vp\<in>D. slot_seen ir E S0 (snd st) vp)"

lemma end_unit_touch [simp]: "end_unit (touch_info s S) ep = end_unit S ep"
  by (simp add: end_unit_def touch_info_def info_entry_def put_info_def)

lemma classify_slot_seen:
  assumes run: "classify_slot ir tir E vp st = success st'" and vp: "vp \<in> set (producers E)"
    and H: "seen ir tir E S0 D st"
  shows "seen ir tir E S0 (D \<union> {vp}) st'"
proof (cases "map_of (consumers E) (fst vp)")
  case None
  then have "st' = st" using run by (simp add: classify_slot_def split_beta Let_def)
  then show ?thesis using H None by (simp add: seen_def slot_seen_def)
next
  case (Some co)
  obtain v pr S allocs where st: "vp = (v, pr)" "st = (S, allocs)" by (cases vp, cases st)
  let ?S1 = "touch_info (fe_stage co) (touch_info (fe_stage pr) S)"
  have f: "transfer_infos ?S1 = transfer_infos S0" "stage_transfers ?S1 = stage_transfers S0"
    and eu: "\<And>ep. end_unit ?S1 ep = end_unit S0 ep"
    using H unfolding seen_def st by (simp_all add: planning_frames)
  have al: "allocs_ok ir tir E S0 allocs" and sn: "\<forall>vp\<in>D. slot_seen ir E S0 allocs vp" using H by (simp_all add: seen_def st)
  have pl: "place_of ?S1 ep = place_of S0 ep" for ep by (rule place_of_cong [OF f])
  have fe: "transferRewritesFifo ?S1 (findTransferForOp ?S1 (fe_stage ep) (fe_op ep)) ep \<longleftrightarrow> place_of S0 ep \<noteq> None" for ep
    using open_end_place [of ?S1 ep] unfolding open_end_def pl by (cases "place_of S0 ep = None") simp_all
  have co: "map_of (consumers E) v = Some co" using Some by (simp add: st)
  have un: "applicable_unit (info_entry (ps_plan ?S1) (fe_stage ep)) = end_unit S0 ep" for ep
    using eu [of ep] unfolding end_unit_def by simp
  have R: "(if (place_of S0 pr \<noteq> None) \<noteq> (place_of S0 co \<noteq> None) then None
           else if place_of S0 pr \<noteq> None then success (?S1, allocs)
           else (case (end_unit S0 pr, end_unit S0 co) of
                   (Some a, Some b) \<Rightarrow>
                     attempt (classify_units ir tir E v pr co (a, b) allocs) (\<lambda>allocs1. success (?S1, allocs1))
                 | _ \<Rightarrow> success (?S1, allocs))) = success st'"
    using run unfolding classify_slot_def st Let_def prod.case co option.case fe un .
  have iff: "place_of S0 pr = None \<longleftrightarrow> place_of S0 co = None"
    using R by (cases "place_of S0 pr"; cases "place_of S0 co") simp_all
  have keep: "slot_seen ir E S0 allocs' x" if old: "slot_seen ir E S0 allocs x"
    and sub: "\<forall>sl\<in>(\<Union>qa\<in>set allocs. set (ar_slots (snd qa))). \<exists>qa\<in>set allocs'. sl \<in> set (ar_slots (snd qa))" for allocs' x
  proof -
    have i: "(\<exists>qa\<in>set allocs. \<exists>sl\<in>set (ar_slots (snd qa)). sr_slot sl = fst x) \<longrightarrow>
        (\<exists>qa\<in>set allocs'. \<exists>sl\<in>set (ar_slots (snd qa)). sr_slot sl = fst x)"
      using sub by blast
    show ?thesis
      unfolding slot_seen_def
    proof (intro allI impI)
      fix c assume "map_of (consumers E) (fst x) = Some c"
      with old have "(place_of S0 (snd x) = None \<longleftrightarrow> place_of S0 c = None) \<and>
        (\<forall>a b. place_of S0 (snd x) = None \<and> end_unit S0 (snd x) = Some a \<and> end_unit S0 c = Some b \<longrightarrow>
          (\<exists>qa\<in>set allocs. \<exists>sl\<in>set (ar_slots (snd qa)). sr_slot sl = fst x) \<or> typed_as ir (fst x) (a, b))"
        unfolding slot_seen_def by blast
      then show "(place_of S0 (snd x) = None \<longleftrightarrow> place_of S0 c = None) \<and>
        (\<forall>a b. place_of S0 (snd x) = None \<and> end_unit S0 (snd x) = Some a \<and> end_unit S0 c = Some b \<longrightarrow>
          (\<exists>qa\<in>set allocs'. \<exists>sl\<in>set (ar_slots (snd qa)). sr_slot sl = fst x) \<or> typed_as ir (fst x) (a, b))"
        using i by blast
    qed
  qed
  have done1: "seen ir tir E S0 (D \<union> {vp}) (?S1, allocs)" if "slot_seen ir E S0 allocs (v, pr)"
    using f eu al sn that by (simp add: seen_def st)
  show ?thesis
  proof (cases "place_of S0 pr = None \<and> end_unit S0 pr \<noteq> None \<and> end_unit S0 co \<noteq> None")
    case False
    then have "st' = (?S1, allocs)" using R iff by (auto split: option.splits)
    moreover have "slot_seen ir E S0 allocs (v, pr)" using False iff by (auto simp: slot_seen_def co)
    ultimately show ?thesis using done1 by simp
  next
    case True
    then obtain a b where ab: "end_unit S0 pr = Some a" "end_unit S0 co = Some b" by auto
    then obtain allocs1 where C: "classify_units ir tir E v pr co (a, b) allocs = success allocs1" "st' = (?S1, allocs1)"
      using R True iff by auto
    then obtain types ar where t: "slot_types ir v = Some types" "getFifoAllocateResult tir v = Some ar"
      by (auto simp: classify_units_def bind_eq_Some_conv)
    have ty: "typed_as ir v (a, b) \<longleftrightarrow> types = (KindAttr a, KindAttr b)" using t(1) by (simp add: typed_as_def)
    show ?thesis
    proof (cases ar)
      case None
      then have "allocs1 = allocs \<and> typed_as ir v (a, b)"
        using C(1) t by (simp add: classify_units_def Let_def ty split: if_splits)
      moreover have "slot_seen ir E S0 allocs (v, pr)" if "typed_as ir v (a, b)"
        using that ab iff co by (simp add: slot_seen_def)
      ultimately show ?thesis using done1 C(2) by simp
    next
      case (Some rj)
      obtain r j where rj: "rj = (r, j)" by (cases rj)
      define sl where "sl = \<lparr>sr_slot = v, sr_idx = j, sr_producer = pr, sr_consumer = co, sr_expected = (a, b)\<rparr>"
      have A: "allocs1 = alloc_add r sl (\<not> typed_as ir v (a, b)) allocs"
        using C(1) t Some rj by (simp add: classify_units_def Let_def ty sl_def split: if_splits)
      have "entry_ok tir E S0 r sl"
        using vp co t Some rj True iff ab by (simp add: entry_ok_def sl_def st)
      then have ok: "allocs_ok ir tir E S0 allocs1" unfolding A by (rule alloc_add_ok [OF al]) (simp add: sl_def)
      have d: "distinct (map fst allocs)" using al by (simp add: allocs_ok_def)
      have kept: "\<forall>x\<in>insert sl (\<Union>qa\<in>set allocs. set (ar_slots (snd qa))). \<exists>qa\<in>set allocs1. x \<in> set (ar_slots (snd qa))"
        using alloc_add_cases [OF d, of r sl "\<not> typed_as ir v (a, b)"] unfolding A by blast
      then obtain qa where qa: "qa \<in> set allocs1" "sl \<in> set (ar_slots (snd qa))" by blast
      have "\<exists>qa\<in>set allocs1. \<exists>x\<in>set (ar_slots (snd qa)). sr_slot x = v"
        by (rule bexI [OF _ qa(1)], rule bexI [OF _ qa(2)]) (simp add: sl_def)
      then have "slot_seen ir E S0 allocs1 (v, pr)" using iff by (simp add: slot_seen_def co)
      moreover have "slot_seen ir E S0 allocs1 x" if "x \<in> D" for x
        by (rule keep) (use sn that kept in auto)
      ultimately show ?thesis using f eu ok unfolding C(2) by (simp add: seen_def st)
    qed
  qed
qed

section \<open>The result of Step 2b\<close>

text \<open>What the endpoints of a pipeline have: an operation is in one stage and an end of one slot.\<close>

definition end_entries :: "fifo_endpoints \<Rightarrow> (val \<times> fifo_endpoint) set" where
  "end_entries E = set (producers E) \<union> set (consumers E)"

definition ends_exact :: "fifo_endpoints \<Rightarrow> bool" where
  "ends_exact E \<longleftrightarrow> ends_sided E \<and> distinct (map fst (producers E)) \<and>
     (\<forall>x\<in>end_entries E. \<forall>y\<in>end_entries E. fe_op (snd x) = fe_op (snd y) \<longrightarrow> fe_stage (snd x) = fe_stage (snd y)) \<and>
     (\<forall>x\<in>set (producers E). \<forall>y\<in>set (producers E). fe_op (snd x) = fe_op (snd y) \<longrightarrow> fst x = fst y) \<and>
     (\<forall>x\<in>set (consumers E). \<forall>y\<in>set (consumers E). fe_op (snd x) = fe_op (snd y) \<longrightarrow> fst x = fst y)"

lemma slots_written_single: "v \<in> set (slots_written ir b) \<Longrightarrow> w \<in> set (slots_written ir b) \<Longrightarrow> v = w"
  by (auto simp: slots_written_def split: body_kind.splits if_splits)

lemma slots_read_single: "v \<in> set (slots_read ir b) \<Longrightarrow> w \<in> set (slots_read ir b) \<Longrightarrow> v = w"
  by (auto simp: slots_read_def split: body_kind.splits if_splits)

lemma all_ends_exact:
  assumes wf: "bodies_wf ir sbl"
  shows "ends_exact (all_ends ir sbl)"
proof -
  let ?E = "all_ends ir sbl"
  note A = all_ends_props [of ir sbl]
  have p: "\<exists>z\<in>set sbl. fst x \<in> set (slots_written ir (snd z)) \<and> fe_op (snd x) = bo_op (snd z) \<and> fe_stage (snd x) = fst z"
    if "x \<in> set (producers ?E)" for x
    using bspec [OF A [THEN conjunct1] that] unfolding split_beta by blast
  have c: "\<exists>z\<in>set sbl. fst x \<in> set (slots_read ir (snd z)) \<and> fe_op (snd x) = bo_op (snd z) \<and> fe_stage (snd x) = fst z"
    if "x \<in> set (consumers ?E)" for x
    using bspec [OF A [THEN conjunct2, THEN conjunct1] that] unfolding split_beta by blast
  have any: "\<exists>z\<in>set sbl. fe_op (snd x) = bo_op (snd z) \<and> fe_stage (snd x) = fst z" if "x \<in> end_entries ?E" for x
    using p [of x] c [of x] that unfolding end_entries_def by blast
  have st: "fe_stage (snd x) = fe_stage (snd y)"
    if "x \<in> end_entries ?E" "y \<in> end_entries ?E" "fe_op (snd x) = fe_op (snd y)" for x y
    using any [OF that(1)] any [OF that(2)] that(3) located_same_op [OF wf] by metis
  have pp: "fst x = fst y" if xy: "x \<in> set (producers ?E)" "y \<in> set (producers ?E)" "fe_op (snd x) = fe_op (snd y)" for x y
    using p [OF xy(1)] p [OF xy(2)] xy(3) located_same_op [OF wf] slots_written_single by metis
  have cc: "fst x = fst y" if xy: "x \<in> set (consumers ?E)" "y \<in> set (consumers ?E)" "fe_op (snd x) = fe_op (snd y)" for x y
    using c [OF xy(1)] c [OF xy(2)] xy(3) located_same_op [OF wf] slots_read_single by metis
  have d: "distinct (map fst (producers ?E))" using A by (elim conjE)
  show ?thesis unfolding ends_exact_def by (intro conjI ballI impI all_ends_sided d) (rule st pp cc; assumption)+
qed

text \<open>
  What Step 2b leaves of a slot with two ends: both ends or none use something else than the
  original FIFO; what Step 2 moved stays; an end that stays on the original FIFO has the right type
  or a stage without a unit; and a slot that moved is the slot with the same number of a FIFO with
  the same slots between the units of the two stages.
\<close>

definition mirrors :: "transfer_ir \<Rightarrow> val \<Rightarrow> resource \<Rightarrow> resource \<Rightarrow> planning \<Rightarrow> nat \<times> nat \<Rightarrow> bool" where
  "mirrors tir v a b S is \<longleftrightarrow> fst is < length (resource_specs S) \<and>
     (let sp = resource_specs S ! fst is in
      sp_kind sp = FifoSpec \<and> fifo_src sp = Some a \<and> fifo_dest sp = Some b \<and>
      (\<exists>r results. getFifoAllocateResult tir v = success (r, snd is) \<and> fifo_allocate tir r = Some results \<and>
         snd is < length results \<and> elements_per_slot sp = map (\<lambda>w. the (slot_elements tir w)) results))"

definition slot_consistent ::
  "planner_ir \<Rightarrow> transfer_ir \<Rightarrow> planning \<Rightarrow> planning \<Rightarrow> val \<Rightarrow> fifo_endpoint \<Rightarrow> fifo_endpoint \<Rightarrow> bool" where
  "slot_consistent ir tir S0 S v pr co \<longleftrightarrow>
     (place_of S pr = None \<longleftrightarrow> place_of S co = None) \<and>
     (place_of S0 pr \<noteq> None \<longrightarrow> place_of S pr = place_of S0 pr \<and> place_of S co = place_of S0 co) \<and>
     (\<forall>a b. end_unit S0 pr = Some a \<and> end_unit S0 co = Some b \<and> place_of S pr = None \<longrightarrow> typed_as ir v (a, b)) \<and>
     (\<forall>is. place_of S0 pr = None \<and> place_of S pr = Some is \<longrightarrow> place_of S co = Some is \<and>
        (\<exists>a b. end_unit S0 pr = Some a \<and> end_unit S0 co = Some b \<and> mirrors tir v a b S is))"

lemma entry_determined:
  assumes E: "ends_exact E" and e: "entry_ok tir E S r sl" "entry_ok tir E S r' sl'" and s: "sr_slot sl = sr_slot sl'"
  shows "sl = sl' \<and> r = r'"
proof -
  have "distinct (map fst (producers E))" using E by (simp add: ends_exact_def)
  then have "sr_producer sl = sr_producer sl'"
    using e s unfolding entry_ok_def by (metis map_of_is_SomeI option.inject)
  moreover have "sr_consumer sl = sr_consumer sl'" using e s unfolding entry_ok_def by (metis option.inject)
  moreover have "sr_idx sl = sr_idx sl'" "r = r'" using e s unfolding entry_ok_def by auto
  moreover have "sr_expected sl = sr_expected sl'"
    using e calculation(1,2) unfolding entry_ok_def by (metis option.inject prod.collapse)
  ultimately show ?thesis using s by (cases sl; cases sl') simp
qed

lemma entry_ends:
  assumes E: "ends_exact E" and e: "entry_ok tir E S r sl" "entry_ok tir E S r' sl'" and ep: "slot_end sl ep" "slot_end sl' ep"
  shows "sr_slot sl = sr_slot sl'"
proof -
  have p: "(sr_slot sl, sr_producer sl) \<in> set (producers E)" "(sr_slot sl', sr_producer sl') \<in> set (producers E)"
    and c: "(sr_slot sl, sr_consumer sl) \<in> set (consumers E)" "(sr_slot sl', sr_consumer sl') \<in> set (consumers E)"
    using e map_of_SomeD unfolding entry_ok_def by fast+
  have "fe_op (sr_producer sl) = fe_op (sr_producer sl') \<or> fe_op (sr_consumer sl) = fe_op (sr_consumer sl')"
    using ep unfolding slot_end_def by auto
  then show ?thesis using E p c unfolding ends_exact_def by (metis fst_conv snd_conv)
qed

lemma retypeFifos_consistent:
  assumes run: "retypeFifosBetweenOriginalStages ir tir g E S0 = success S" and E: "ends_exact E" and wf: "transfers_wf S0"
    and v: "(v, pr) \<in> set (producers E)" "map_of (consumers E) v = Some co"
  shows "slot_consistent ir tir S0 S v pr co"
proof -
  obtain S1 allocs where C: "foldA (classify_slot ir tir E) (producers E) (S0, []) = success (S1, allocs)"
    and F: "foldA (retype_alloc ir tir g) allocs S1 = success S"
    using run by (auto simp: retypeFifosBetweenOriginalStages_def)
  have "seen ir tir E S0 ({} \<union> (\<Union>x\<in>set (producers E). {x})) (S1, allocs)"
    by (rule foldA_collects [where P = "seen ir tir E S0", OF C])
      (simp add: seen_def allocs_ok_def, rule classify_slot_seen)
  then have H: "transfer_infos S1 = transfer_infos S0" "stage_transfers S1 = stage_transfers S0"
    "allocs_ok ir tir E S0 allocs" and sn: "slot_seen ir E S0 allocs (v, pr)"
    using v(1) by (auto simp: seen_def)
  have pl: "place_of S1 ep = place_of S0 ep" for ep by (rule place_of_cong [OF H(1,2)])
  have w1: "transfers_wf S1" using wf by (simp add: transfers_wf_def H)
  let ?EPS = "snd ` end_entries E"
  have cin: "(v, co) \<in> set (consumers E)" using v(2) by (rule map_of_SomeD)
  then have eps: "pr \<in> ?EPS" "co \<in> ?EPS" "?EPS \<noteq> {}" using v(1) unfolding end_entries_def by force+
  have entry: "entry_ok tir E S0 (fst qa) sl" if "qa \<in> set allocs" "sl \<in> set (ar_slots (snd qa))" for qa sl
    using H(3) that unfolding allocs_ok_def by blast
  have sided: "\<not> fifo_is_source e" if "(w, e) \<in> set (producers E)" for w e
    using E that unfolding ends_exact_def ends_sided_def by blast
  have sidedc: "fifo_is_source e" if "(w, e) \<in> set (consumers E)" for w e
    using E that unfolding ends_exact_def ends_sided_def by blast
  have fits: "slot_fits ?EPS sl" if qa: "qa \<in> set allocs" "sl \<in> set (ar_slots (snd qa))" for qa sl
  proof -
    have p: "(sr_slot sl, sr_producer sl) \<in> set (producers E)" "(sr_slot sl, sr_consumer sl) \<in> set (consumers E)"
      using entry [OF qa] map_of_SomeD unfolding entry_ok_def by fast+
    have "fe_stage ep = fe_stage (sr_producer sl)" if "ep \<in> ?EPS" "fe_op ep = fe_op (sr_producer sl)" for ep
      using E p(1) that unfolding ends_exact_def end_entries_def by (metis (no_types, lifting) UnCI imageE snd_conv)
    moreover have "fe_stage ep = fe_stage (sr_consumer sl)" if "ep \<in> ?EPS" "fe_op ep = fe_op (sr_consumer sl)" for ep
      using E p(2) that unfolding ends_exact_def end_entries_def by (metis (no_types, lifting) UnCI imageE snd_conv)
    ultimately show ?thesis using sided [OF p(1)] sidedc [OF p(2)] unfolding slot_fits_def by blast
  qed
  have apart: "allocs_apart allocs"
    unfolding allocs_apart_def
  proof (intro conjI ballI allI impI)
    show "distinct (map fst allocs)" using H(3) by (simp add: allocs_ok_def)
    fix qa qa' sl sl' ep
    assume q: "qa \<in> set allocs" "qa' \<in> set allocs" "sl \<in> set (ar_slots (snd qa))" "sl' \<in> set (ar_slots (snd qa'))"
      and ep: "slot_end sl ep \<and> slot_end sl' ep"
    note e = entry [OF q(1,3)] entry [OF q(2,4)]
    have "sr_slot sl = sr_slot sl'" by (rule entry_ends [OF E e]) (use ep in blast)+
    from entry_determined [OF E e this] show "sl = sl'" "fst qa = fst qa'" by blast+
  qed
  have M: "(\<forall>qa\<in>set allocs. alloc_moved tir ?EPS S qa) \<and> prefix (resource_specs S1) (resource_specs S) \<and>
    (\<forall>ep\<in>?EPS. (\<forall>qa\<in>set allocs. \<forall>sl\<in>set (ar_slots (snd qa)). ar_needs_retype (snd qa) \<longrightarrow> \<not> slot_end sl ep) \<longrightarrow>
      place_of S ep = place_of S1 ep)"
    by (rule retype_allocs_place [OF F w1 _ apart eps(3)]) (use fits in blast)
  have same_slot: "sr_slot sl = v" if qa: "qa \<in> set allocs" "sl \<in> set (ar_slots (snd qa))"
    and ep: "slot_end sl pr \<or> slot_end sl co" for qa sl
  proof -
    have p: "(sr_slot sl, sr_producer sl) \<in> set (producers E)" "(sr_slot sl, sr_consumer sl) \<in> set (consumers E)"
      using entry [OF qa] map_of_SomeD unfolding entry_ok_def by fast+
    have "fe_op pr = fe_op (sr_producer sl) \<or> fe_op co = fe_op (sr_consumer sl)"
      using ep sided [OF v(1)] sidedc [OF cin] unfolding slot_end_def by blast
    then show ?thesis using E p v(1) cin unfolding ends_exact_def by (metis fst_conv snd_conv)
  qed
  have prod: "sr_producer sl = pr \<and> sr_consumer sl = co" if qa: "qa \<in> set allocs" "sl \<in> set (ar_slots (snd qa))" "sr_slot sl = v" for qa sl
  proof -
    have "distinct (map fst (producers E))" using E by (simp add: ends_exact_def)
    then show ?thesis using entry [OF qa(1,2)] v qa(3) unfolding entry_ok_def by (metis map_of_is_SomeI option.inject)
  qed
  show ?thesis
  proof (cases "\<exists>qa\<in>set allocs. \<exists>sl\<in>set (ar_slots (snd qa)). sr_slot sl = v \<and> ar_needs_retype (snd qa)")
    case True
    then obtain qa sl where q: "qa \<in> set allocs" "sl \<in> set (ar_slots (snd qa))" "sr_slot sl = v" "ar_needs_retype (snd qa)"
      by blast
    note e = entry [OF q(1,2)] and ps = prod [OF q(1-3)]
    let ?x = "sr_expected (hd (ar_slots (snd qa)))"
    obtain i results where i: "i < length (resource_specs S)" "fifo_allocate tir (fst qa) = Some results"
      "sp_kind (resource_specs S ! i) = FifoSpec" "fifo_src (resource_specs S ! i) = Some (fst ?x)"
      "fifo_dest (resource_specs S ! i) = Some (snd ?x)"
      "elements_per_slot (resource_specs S ! i) = map (\<lambda>v. the (slot_elements tir v)) results"
      and sl: "\<forall>sl\<in>set (ar_slots (snd qa)). sr_expected sl = ?x \<and> sr_idx sl < length results \<and>
           (\<forall>ep\<in>?EPS. slot_end sl ep \<longrightarrow> place_of S ep = Some (i, sr_idx sl))"
      using M [THEN conjunct1, rule_format, OF q(1)] q(4) unfolding alloc_moved_def Let_def by blast
    have "slot_end sl pr" "slot_end sl co" using ps sided [OF v(1)] sidedc [OF cin] by (auto simp: slot_end_def)
    then have pos: "place_of S pr = Some (i, sr_idx sl)" "place_of S co = Some (i, sr_idx sl)"
      using sl q(2) eps by blast+
    have "mirrors tir v (fst ?x) (snd ?x) S (i, sr_idx sl)"
      using i sl q(2,3) e unfolding mirrors_def Let_def by (auto simp: entry_ok_def)
    moreover have "end_unit S0 pr = Some (fst ?x)" "end_unit S0 co = Some (snd ?x)" "place_of S0 pr = None"
      using e ps sl q(2) by (auto simp: entry_ok_def)
    ultimately show ?thesis using pos by (simp add: slot_consistent_def)
  next
    case False
    have "place_of S ep = place_of S1 ep" if "ep = pr \<or> ep = co" for ep
      using M False same_slot that eps by blast
    then have same: "place_of S pr = place_of S0 pr" "place_of S co = place_of S0 co" by (simp_all add: pl)
    have iff: "place_of S0 pr = None \<longleftrightarrow> place_of S0 co = None" using sn v(2) by (simp add: slot_seen_def)
    have "typed_as ir v (a, b)" if u: "end_unit S0 pr = Some a" "end_unit S0 co = Some b" "place_of S0 pr = None" for a b
    proof (rule ccontr)
      assume n: "\<not> typed_as ir v (a, b)"
      have "(\<exists>qa\<in>set allocs. \<exists>sl\<in>set (ar_slots (snd qa)). sr_slot sl = v) \<or> typed_as ir v (a, b)"
        using sn v(2) u iff by (simp add: slot_seen_def)
      then obtain qa sl where q: "qa \<in> set allocs" "sl \<in> set (ar_slots (snd qa))" "sr_slot sl = v"
        using n by blast
      then have "sr_expected sl = (a, b)" using entry [OF q(1,2)] prod [OF q] u by (simp add: entry_ok_def prod_eq_iff)
      moreover have "ar_needs_retype (snd qa) \<longleftrightarrow>
          (\<exists>sl\<in>set (ar_slots (snd qa)). \<not> typed_as ir (sr_slot sl) (sr_expected sl))"
        using H(3) q(1) unfolding allocs_ok_def by blast
      moreover have "\<not> typed_as ir (sr_slot sl) (sr_expected sl)" using calculation(1) q(3) n by simp
      ultimately have "ar_needs_retype (snd qa)" using q(2) by blast
      then show False using False q by blast
    qed
    then show ?thesis
      using same iff by (cases "place_of S0 pr"; cases "place_of S0 co") (simp_all add: slot_consistent_def)
  qed
qed

section \<open>Properties\<close>

text \<open>C40: When it succeeds on the ends collected from well-typed, distinct operations and a plan whose
  stages list recorded transfers, \<open>retypeFifosBetweenOriginalStages\<close> keeps the two
  ends of a FIFO slot together: both use a new slot or none; a slot that Step 2 has moved stays
  where it is; a slot left alone between two stages with units has these units in its type; and
  a slot that moves becomes the slot with the same number of a FIFO from the unit of the
  producer to that of the consumer with as many slots, of the same sizes, as the original
  allocation.\<close>

theorem retypeFifos_ends_together:
  assumes "retypeFifosBetweenOriginalStages ir tir g (all_ends ir sbl) S0 = success S" and "bodies_wf ir sbl"
    and "transfers_wf S0" and "(v, pr) \<in> set (producers (all_ends ir sbl))"
    and "map_of (consumers (all_ends ir sbl)) v = Some co"
  shows "slot_consistent ir tir S0 S v pr co"
  by (rule retypeFifos_consistent [OF assms(1) all_ends_exact [OF assms(2)] assms(3-5)])

text \<open>The slot of the small pipeline when the load runs on L1LU, which is linked with SFU.\<close>

definition pair_infos :: planning where
  "pair_infos = start_planning \<lparr>stage_infos = [3 \<mapsto> \<lparr>si_kind = PreserveOriginal, stage_resource = Some ''L1'',
       applicable_unit = Some ''L1LU''\<rparr>, 4 \<mapsto> \<lparr>si_kind = PreserveOriginal, stage_resource = Some ''SFU'',
       applicable_unit = Some ''SFU''\<rparr>], changed = True\<rparr>"

definition slot_ir :: planner_ir where
  "slot_ir = small_ir\<lparr>value_type := (\<lambda>v. if v = 7 then FifoSlotType (KindAttr ''DDR'') (KindAttr ''SFU'')
     else value_type small_ir v)\<rparr>"

theorem retypeFifos_ends_together_witness:
  "\<exists>S. retypeFifosBetweenOriginalStages slot_ir small_tir small_graph (all_ends slot_ir [(3, load_op), (4, read_op)])
       pair_infos = success S \<and>
     slot_consistent slot_ir small_tir pair_infos S 1 \<lparr>fe_op = 20, fe_stage = 3, fifo_is_source = False\<rparr>
       \<lparr>fe_op = 21, fe_stage = 4, fifo_is_source = True\<rparr> \<and>
     place_of S \<lparr>fe_op = 20, fe_stage = 3, fifo_is_source = False\<rparr> = Some (0, 0)"
proof -
  have E: "all_ends slot_ir [(3, load_op), (4, read_op)] =
      \<lparr>producers = [(1, \<lparr>fe_op = 20, fe_stage = 3, fifo_is_source = False\<rparr>)],
       consumers = [(1, \<lparr>fe_op = 21, fe_stage = 4, fifo_is_source = True\<rparr>)], indirect_slots = {}, duplicate = None\<rparr>"
    by (simp add: all_ends_def no_endpoints_def record_op_def record_producer_def record_consumer_def load_op_def read_op_def
        isFifoSlot_def slot_ir_def small_ir_def Let_def)
  have "map_option (map_option (\<lambda>S. place_of S \<lparr>fe_op = 20, fe_stage = 3, fifo_is_source = False\<rparr>))
      (retypeFifosBetweenOriginalStages slot_ir small_tir small_graph
        \<lparr>producers = [(1, \<lparr>fe_op = 20, fe_stage = 3, fifo_is_source = False\<rparr>)],
         consumers = [(1, \<lparr>fe_op = 21, fe_stage = 4, fifo_is_source = True\<rparr>)], indirect_slots = {}, duplicate = None\<rparr>
        pair_infos) = Some (Some (Some (0, 0)))" by code_simp
  then obtain S where S: "retypeFifosBetweenOriginalStages slot_ir small_tir small_graph
      (all_ends slot_ir [(3, load_op), (4, read_op)]) pair_infos = success S"
    "place_of S \<lparr>fe_op = 20, fe_stage = 3, fifo_is_source = False\<rparr> = Some (0, 0)" unfolding E by auto
  have wf: "bodies_wf slot_ir [(3, load_op), (4, read_op)]"
    by (simp add: bodies_wf_def op_wf_def load_op_def read_op_def isFifoSlot_def slot_ir_def small_ir_def)
  have "transfers_wf pair_infos" by (simp add: transfers_wf_def pair_infos_def start_planning_def)
  from retypeFifos_ends_together [OF S(1) wf this] S show ?thesis by (simp add: E)
qed

end
