(* ===== verification/PipelineBuild.thy ===== *)
theory PipelineBuild
  imports PipelineTree
begin

text \<open>
  What \<open>PipelineTree::compute\<close> builds. From an empty tree the construction returns, the node of
  the k-th selected operation is the k-th node allocated after the root, and the children of a
  node are the nodes of the operations whose nearest selected ancestor is the node's operation,
  in the pre-order of the IR. The dependency pass adds an edge for every token that a stage
  consumes and another stage of the pipeline produces.
\<close>

section \<open>The walk meets ancestors first\<close>

definition entry_id :: "irop \<times> ancestors \<Rightarrow> op \<times> op_kind" where
  "entry_id x = (op_of (fst x), class_of (fst x))"

fun anc_ok :: "(op \<times> op_kind) set \<Rightarrow> (irop \<times> ancestors) list \<Rightarrow> bool" where
  "anc_ok S [] \<longleftrightarrow> True"
| "anc_ok S (x # xs) \<longleftrightarrow> set (snd x) \<subseteq> S \<and> anc_ok (insert (entry_id x) S) xs"

lemma anc_ok_append: "anc_ok S (xs @ ys) \<longleftrightarrow> anc_ok S xs \<and> anc_ok (S \<union> entry_id ` set xs) ys"
  by (induction xs arbitrary: S) auto

lemma anc_ok_mono: "anc_ok S xs \<Longrightarrow> S \<subseteq> S' \<Longrightarrow> anc_ok S' xs"
  by (induction xs arbitrary: S S') (auto, meson insert_mono)

lemma anc_ok_concat: "(\<And>b. b \<in> set bs \<Longrightarrow> anc_ok S (f b)) \<Longrightarrow> anc_ok S (concat (map f bs))"
  by (induction bs) (auto simp: anc_ok_append intro: anc_ok_mono)

lemma anc_ok_walk: "set anc \<subseteq> S \<Longrightarrow> anc_ok S (walk_pre anc u)"
proof (induction anc u arbitrary: S rule: walk_pre.induct)
  case (1 anc q k ins outs body)
  have "anc_ok (insert (q, k) S) (concat (map (walk_pre ((q, k) # anc)) body))"
  proof (rule anc_ok_concat)
    fix b assume "b \<in> set body"
    then show "anc_ok (insert (q, k) S) (walk_pre ((q, k) # anc) b)"
      by (rule "1.IH") (use "1.prems" in auto)
  qed
  with 1 show ?case by (simp add: entry_id_def)
qed

section \<open>The shape of the tree\<close>

text \<open>The operation of the parent node, if it is not the root.\<close>

fun nearest :: "op \<Rightarrow> ancestors \<Rightarrow> op option" where
  "nearest unit_op [] = None"
| "nearest unit_op ((q, k) # anc) =
     (if \<not> isOperationSelected k then nearest unit_op anc
      else if q = unit_op then None
      else Some q)"

lemma find_parent_node_nearest:
  "find_parent_node nodes unit_op r anc =
     (case nearest unit_op anc of None \<Rightarrow> Some r | Some q \<Rightarrow> nodes q)"
  by (induction unit_op anc rule: nearest.induct) auto

lemma nearest_member: "nearest unit_op anc = Some q \<Longrightarrow> \<exists>k. (q, k) \<in> set anc \<and> isOperationSelected k"
  by (induction unit_op anc rule: nearest.induct) (auto split: if_splits)

definition entry_selected :: "irop \<times> ancestors \<Rightarrow> bool" where
  "entry_selected x \<longleftrightarrow> isOperationSelected (class_of (fst x))"

definition entry_op :: "irop \<times> ancestors \<Rightarrow> op" where
  "entry_op x = op_of (fst x)"

text \<open>The parent operation of an entry of the walk; the unit itself goes below the root.\<close>

definition entry_parent :: "op \<Rightarrow> irop \<times> ancestors \<Rightarrow> op option" where
  "entry_parent unit_op x = (if entry_op x = unit_op then None else nearest unit_op (snd x))"

text \<open>The node of an operation: its position among the selected operations, after the root.\<close>

definition node_of :: "ptr \<Rightarrow> op list \<Rightarrow> op \<Rightarrow> ptr" where
  "node_of r sel q = Suc (r + index_of sel q)"

definition parent_ptr :: "ptr \<Rightarrow> op list \<Rightarrow> op \<Rightarrow> irop \<times> ancestors \<Rightarrow> ptr" where
  "parent_ptr r sel unit_op x = (case entry_parent unit_op x of None \<Rightarrow> r | Some q \<Rightarrow> node_of r sel q)"

definition built_children ::
  "ptr \<Rightarrow> op list \<Rightarrow> op \<Rightarrow> (irop \<times> ancestors) list \<Rightarrow> ptr \<Rightarrow> ptr list" where
  "built_children r sel unit_op xs m =
     map (node_of r sel \<circ> entry_op) (filter (\<lambda>x. parent_ptr r sel unit_op x = m) xs)"

definition kind_for :: "op_kind \<Rightarrow> int \<Rightarrow> node_kind" where
  "kind_for k i = (case k of ForOp \<Rightarrow> LoopNode | PipelineOp \<Rightarrow> PipelineNode
     | StageOp \<Rightarrow> StageNode i | _ \<Rightarrow> PrivateNode)"

definition stage_count :: "(irop \<times> ancestors) list \<Rightarrow> nat" where
  "stage_count xs = length (filter (\<lambda>x. class_of (fst x) = StageOp) xs)"

text \<open>The state after the selected entries \<open>xs\<close>.\<close>

definition built :: "ptr \<Rightarrow> op list \<Rightarrow> op \<Rightarrow> (irop \<times> ancestors) list \<Rightarrow> ptree \<times> int \<Rightarrow> bool" where
  "built r sel unit_op xs s \<longleftrightarrow>
     tree_abs (fst s) (built_children r sel unit_op xs) \<and>
     opToNode (fst s) = (\<lambda>q. if q \<in> entry_op ` set xs then Some (node_of r sel q) else None) \<and>
     root (fst s) = Some r \<and>
     next_ptr (fst s) = Suc (r + length xs) \<and>
     snd s = int (stage_count xs) \<and>
     (\<forall>m. dependencies (fst s) m = []) \<and>
     (\<forall>x\<in>set xs. parent_ptr r sel unit_op x < Suc (r + length xs)) \<and>
     (\<forall>k < length xs. kind (fst s) (Suc (r + k)) =
        kind_for (class_of (fst (xs ! k))) (int (stage_count (take k xs))))"

lemma create_for_eq:
  assumes "isOperationSelected k"
  shows "create_for k q i T =
    (let (T1, n) = create_node (kind_for k i) (Some q) T in (T1, n, if k = StageOp then i + 1 else i))"
  using assms
  by (cases k) (simp_all add: create_for_def kind_for_def isOperationSelected_def createLoopNode_def
      createPipelineNode_def createStageNode_def createPrivateNode_def split: prod.splits)

lemma built_step:
  assumes inv: "built r sel unit_op xs s" and sel: "sel = map entry_op (xs @ x # ys)" "distinct sel"
    and x: "entry_selected x"
    and anc: "\<And>q. nearest unit_op (snd x) = Some q \<Longrightarrow> q \<in> entry_op ` set xs"
  shows "\<exists>s'. compute_step unit_op r x s = Some s' \<and> built r sel unit_op (xs @ [x]) s'"
proof -
  obtain T i where s: "s = (T, i)" by (cases s)
  note I = inv [unfolded built_def s fst_conv snd_conv]
  let ?n = "Suc (r + length xs)" and ?q = "entry_op x" and ?k = "class_of (fst x)"
  have nq: "node_of r sel ?q = ?n"
    using sel by (simp add: node_of_def index_of_append image_iff)
  obtain T1 where T1: "create_node (kind_for ?k i) (Some ?q) T = (T1, ?n)" and
    T1f: "parent_node T1 = (parent_node T)(?n := None)" "first_child T1 = (first_child T)(?n := None)"
      "next_sibling T1 = (next_sibling T)(?n := None)" "kind T1 = (kind T)(?n := kind_for ?k i)"
      "dependencies T1 = (dependencies T)(?n := [])" "opToNode T1 = (opToNode T)(?q := Some ?n)"
      "next_ptr T1 = Suc ?n" "root T1 = root T"
    using I by (simp add: create_node_def new_node_def Let_def)
  have low: "node_of r sel q < ?n" if "q \<in> entry_op ` set xs" for q
  proof -
    have m: "q \<in> set (map entry_op xs)" using that by simp
    then have "index_of (map entry_op xs) q < length xs"
      using index_of_less [of "map entry_op xs" q] by (simp only: length_map)
    then have "index_of sel q < length xs" using m by (simp only: sel(1) map_append index_of_append if_True)
    then show ?thesis by (simp add: node_of_def)
  qed
  have lt: "c < ?n" if "c \<in> set (built_children r sel unit_op xs m)" for c m
  proof -
    have "c \<in> (node_of r sel \<circ> entry_op) ` set (filter (\<lambda>x. parent_ptr r sel unit_op x = m) xs)"
      using that by (simp only: built_children_def set_map)
    then have "c \<in> (node_of r sel \<circ> entry_op) ` set xs"
      by (rule rev_subsetD) (rule image_mono [OF filter_is_subset])
    then obtain y where "y \<in> set xs" "c = (node_of r sel \<circ> entry_op) y" by (rule imageE)
    then show ?thesis using low [of "entry_op y"] by simp
  qed
  have orphan: "parent_node T ?n = None"
  proof (rule ccontr)
    assume "parent_node T ?n \<noteq> None"
    then obtain m where "parent_node T ?n = Some m" by blast
    then have "?n \<in> set (built_children r sel unit_op xs m)" using I tree_abs_parent by blast
    with lt show False by blast
  qed
  have "built_children r sel unit_op xs ?n = []"
    using I by (auto simp: built_children_def filter_empty_conv)
  then have leaf: "first_child T ?n = None" using I tree_abs_leaf by blast
  have absT: "tree_abs T (built_children r sel unit_op xs)" using I by blast
  then have nosib: "next_sibling T ?n = None" using orphan by (rule tree_abs_orphan_next)
  from absT have abs1: "tree_abs T1 (built_children r sel unit_op xs)"
    by (rule tree_abs_links_cong)
      (use T1f(1-3) orphan leaf nosib in \<open>simp_all add: fun_upd_idem\<close>)
  let ?p = "parent_ptr r sel unit_op x"
  obtain T2 where T2: "insertChildNode T1 ?p ?n None = Some T2"
    "tree_abs T2 ((built_children r sel unit_op xs)(?p := built_children r sel unit_op xs ?p @ [?n]))"
    using insertChildNode_last_abs [OF abs1, of ?n ?p] T1f(1) by auto
  have F2: "(built_children r sel unit_op xs)(?p := built_children r sel unit_op xs ?p @ [?n]) =
      built_children r sel unit_op (xs @ [x])"
    using nq by (auto simp: built_children_def fun_eq_iff)
  have par: "(if entry_op x = unit_op then Some r else find_parent_node (opToNode T1) unit_op r (snd x)) =
      Some ?p"
    using anc I
    by (auto simp: find_parent_node_nearest parent_ptr_def entry_parent_def T1f(6) nq split: option.split)
  have step: "compute_step unit_op r x s = Some (T2, if ?k = StageOp then i + 1 else i)"
    using x T1 T2(1) par
    by (auto simp: compute_step_def s create_for_eq entry_selected_def entry_op_def Let_def split: if_splits)
  have p_low: "?p < Suc ?n"
    using anc low by (auto simp: parent_ptr_def entry_parent_def less_Suc_eq split: option.split)
  note R = same_rest_ptree [OF insertChildNode_rest [OF T2(1)]]
  have "built r sel unit_op (xs @ [x]) (T2, if ?k = StageOp then i + 1 else i)"
    unfolding built_def fst_conv snd_conv R
  proof (intro conjI)
    show "tree_abs T2 (built_children r sel unit_op (xs @ [x]))" using T2(2) F2 by simp
    show "opToNode T1 = (\<lambda>q. if q \<in> entry_op ` set (xs @ [x]) then Some (node_of r sel q) else None)"
      using I by (auto simp: T1f(6) nq fun_eq_iff)
    show "root T1 = Some r" using I by (simp add: T1f)
    show "next_ptr T1 = Suc (r + length (xs @ [x]))" by (simp add: T1f)
    show "(if ?k = StageOp then i + 1 else i) = int (stage_count (xs @ [x]))"
      using I by (simp add: stage_count_def)
    show "\<forall>m. dependencies T1 m = []" using I by (simp add: T1f)
    show "\<forall>y\<in>set (xs @ [x]). parent_ptr r sel unit_op y < Suc (r + length (xs @ [x]))"
      using I p_low by (auto intro: less_SucI)
    show "\<forall>k<length (xs @ [x]). kind T1 (Suc (r + k)) =
        kind_for (class_of (fst ((xs @ [x]) ! k))) (int (stage_count (take k (xs @ [x]))))"
      using I by (auto simp: T1f nth_append less_Suc_eq)
  qed
  with step show ?thesis by blast
qed

lemma built_all:
  assumes "built r sel unit_op xs s" and "sel = map entry_op (xs @ filter entry_selected ys)"
    and "distinct sel"
    and "anc_ok S ys" and "\<And>q k. (q, k) \<in> S \<Longrightarrow> isOperationSelected k \<Longrightarrow> q \<in> entry_op ` set xs"
  shows "\<exists>s'. foldM (compute_step unit_op r) ys s = Some s' \<and>
    built r sel unit_op (xs @ filter entry_selected ys) s'"
  using assms
proof (induction ys arbitrary: xs s S)
  case (Cons y ys)
  show ?case
  proof (cases "entry_selected y")
    case True
    have near: "q \<in> entry_op ` set xs" if "nearest unit_op (snd y) = Some q" for q
      using nearest_member [OF that] Cons.prems(4,5) by auto
    obtain s1 where s1: "compute_step unit_op r y s = Some s1" "built r sel unit_op (xs @ [y]) s1"
      using built_step [OF Cons.prems(1), of y "filter entry_selected ys"] Cons.prems(2,3) True near
      by auto
    have S: "q \<in> entry_op ` set (xs @ [y])" if "(q, k) \<in> insert (entry_id y) S" "isOperationSelected k" for q k
      using that Cons.prems(5) by (auto simp: entry_id_def entry_op_def)
    have "anc_ok (insert (entry_id y) S) ys" using Cons.prems(4) by simp
    from Cons.IH [OF s1(2) _ Cons.prems(3) this S] Cons.prems(2) True s1(1) show ?thesis by simp
  next
    case False
    then have "compute_step unit_op r y s = Some s"
      by (simp add: compute_step_def entry_selected_def)
    moreover have S: "q \<in> entry_op ` set xs" if "(q, k) \<in> insert (entry_id y) S" "isOperationSelected k" for q k
      using that Cons.prems(5) False by (auto simp: entry_id_def entry_selected_def)
    moreover have "anc_ok (insert (entry_id y) S) ys" using Cons.prems(4) by simp
    ultimately show ?thesis
      using Cons.IH [OF Cons.prems(1) _ Cons.prems(3), of "insert (entry_id y) S"] Cons.prems(2) False by simp
  qed
qed simp

section \<open>The dependency pass\<close>

text \<open>The stage whose output token it is; of several producers the last one counts.\<close>

definition last_producer :: "irop list \<Rightarrow> token \<Rightarrow> op option" where
  "last_producer sts t = map_option op_of (find (\<lambda>st. t \<in> set (depends_out st)) (rev sts))"

text \<open>The consumers that the dependency pass appends to the list of the node \<open>m\<close>.\<close>

definition new_deps :: "(op \<Rightarrow> ptr) \<Rightarrow> irop list \<Rightarrow> ptr \<Rightarrow> ptr option list" where
  "new_deps nd sts m =
     concat (map (\<lambda>st. map (\<lambda>_. Some (nd (op_of st)))
       (filter (\<lambda>t. map_option nd (last_producer sts t) = Some m) (depends_in st))) sts)"

lemma fold_token: "fold (\<lambda>t m. m(t := Some n)) ts m = (\<lambda>t. if t \<in> set ts then Some n else m t)"
  by (induction ts arbitrary: m) (auto simp: fun_eq_iff)

lemma token_producers_eq:
  assumes "\<And>st. st \<in> set sts \<Longrightarrow> opToNode T (op_of st) = Some (nd (op_of st))"
  shows "token_producers T sts = Some (\<lambda>t. map_option nd (last_producer sts t))"
  using assms
proof (induction sts rule: rev_induct)
  case Nil
  show ?case by (simp add: token_producers_def last_producer_def)
next
  case (snoc st sts)
  have "token_producers T sts = Some (\<lambda>t. map_option nd (last_producer sts t))"
    using snoc by simp
  then show ?case
    using snoc.prems [of st]
    by (auto simp: token_producers_def foldM_append last_producer_def getNodeForOp_def fold_token fun_eq_iff)
qed

lemma add_tokens_eq:
  "fold (add_token P n) ts T =
     T\<lparr>dependencies := (\<lambda>m. dependencies T m @ map (\<lambda>_. Some n) (filter (\<lambda>t. P t = Some m) ts))\<rparr>"
proof (induction ts arbitrary: T)
  case (Cons t ts)
  show ?case
    unfolding fold_simps Cons.IH
    by (auto simp: add_token_def addDependency_def set_deps_def fun_eq_iff split: option.split)
qed simp

lemma compute_deps_eq:
  assumes "\<And>st. st \<in> set (op_stages pl) \<Longrightarrow> opToNode T (op_of st) = Some (nd (op_of st))"
  shows "compute_deps op_stages pl T =
    Some (T\<lparr>dependencies := (\<lambda>m. dependencies T m @ new_deps nd (op_stages pl) m)\<rparr>)"
proof -
  let ?P = "\<lambda>t. map_option nd (last_producer (op_stages pl) t)"
  have "foldM (\<lambda>st T. do { n \<leftarrow> getNodeForOp T (op_of st); Some (fold (add_token ?P n) (depends_in st) T) }) sts T =
      Some (T\<lparr>dependencies := (\<lambda>m. dependencies T m @ concat (map (\<lambda>st. map (\<lambda>_. Some (nd (op_of st)))
        (filter (\<lambda>t. ?P t = Some m) (depends_in st))) sts))\<rparr>)"
    if "\<And>st. st \<in> set sts \<Longrightarrow> opToNode T (op_of st) = Some (nd (op_of st))" for sts
    using that
  proof (induction sts arbitrary: T)
    case (Cons st sts)
    let ?T = "T\<lparr>dependencies := (\<lambda>m. dependencies T m @ map (\<lambda>_. Some (nd (op_of st))) (filter (\<lambda>t. ?P t = Some m) (depends_in st)))\<rparr>"
    have "foldM (\<lambda>st T. do { n \<leftarrow> getNodeForOp T (op_of st); Some (fold (add_token ?P n) (depends_in st) T) }) (st # sts) T =
        foldM (\<lambda>st T. do { n \<leftarrow> getNodeForOp T (op_of st); Some (fold (add_token ?P n) (depends_in st) T) }) sts ?T"
      using Cons.prems [of st] by (simp add: getNodeForOp_def add_tokens_eq)
    also have "\<dots> = Some (?T\<lparr>dependencies := (\<lambda>m. dependencies ?T m @ concat (map (\<lambda>st. map (\<lambda>_. Some (nd (op_of st)))
        (filter (\<lambda>t. ?P t = Some m) (depends_in st))) sts))\<rparr>)"
      by (rule Cons.IH) (use Cons.prems in simp)
    finally show ?case by simp
  qed simp
  from this [OF assms] show ?thesis
    using token_producers_eq [OF assms] by (simp add: compute_deps_def new_deps_def)
qed

section \<open>The whole construction\<close>

definition empty_tree :: "ptree \<Rightarrow> bool" where
  "empty_tree T \<longleftrightarrow> root T = None \<and> opToNode T = (\<lambda>_. None) \<and> (\<forall>n. dependencies T n = []) \<and>
     (\<forall>n. parent_node T n = None \<and> first_child T n = None \<and> next_sibling T n = None)"

definition selected_entries :: "ancestors \<Rightarrow> irop \<Rightarrow> (irop \<times> ancestors) list" where
  "selected_entries outer unit = filter entry_selected (walk_pre outer unit)"

definition pipelines_of :: "irop \<Rightarrow> irop list" where
  "pipelines_of unit = filter (\<lambda>o'. class_of o' = PipelineOp) (walk_post unit)"

text \<open>What \<open>compute\<close> expects of the IR: operations are distinct, nothing around the unit is selected, and the stages of a pipeline are stages of the unit.\<close>

definition ir_ok :: "(irop \<Rightarrow> irop list) \<Rightarrow> ancestors \<Rightarrow> irop \<Rightarrow> bool" where
  "ir_ok op_stages outer unit \<longleftrightarrow>
     distinct (map entry_op (selected_entries outer unit)) \<and>
     list_all (\<lambda>x. \<not> isOperationSelected (snd x)) outer \<and>
     list_all (\<lambda>pl. list_all (\<lambda>st. op_of st \<in> entry_op ` set (selected_entries outer unit)) (op_stages pl))
       (pipelines_of unit)"

definition built_deps :: "(irop \<Rightarrow> irop list) \<Rightarrow> (op \<Rightarrow> ptr) \<Rightarrow> irop \<Rightarrow> ptr \<Rightarrow> ptr option list" where
  "built_deps op_stages nd unit m = concat (map (\<lambda>pl. new_deps nd (op_stages pl) m) (pipelines_of unit))"

lemma deps_pass:
  assumes "\<And>pl st. pl \<in> set pls \<Longrightarrow> st \<in> set (op_stages pl) \<Longrightarrow> opToNode T (op_of st) = Some (nd (op_of st))"
  shows "foldM (compute_deps op_stages) pls T =
    Some (T\<lparr>dependencies := (\<lambda>m. dependencies T m @ concat (map (\<lambda>pl. new_deps nd (op_stages pl) m) pls))\<rparr>)"
  using assms
proof (induction pls arbitrary: T)
  case (Cons pl pls)
  let ?T = "T\<lparr>dependencies := (\<lambda>m. dependencies T m @ new_deps nd (op_stages pl) m)\<rparr>"
  have "foldM (compute_deps op_stages) (pl # pls) T = foldM (compute_deps op_stages) pls ?T"
  proof -
    have "compute_deps op_stages pl T = Some ?T" by (rule compute_deps_eq) (rule Cons.prems [of pl], simp_all)
    then show ?thesis by simp
  qed
  also have "\<dots> = Some (?T\<lparr>dependencies := (\<lambda>m. dependencies ?T m @ concat (map (\<lambda>pl. new_deps nd (op_stages pl) m) pls))\<rparr>)"
  proof (rule Cons.IH)
    fix pla st assume "pla \<in> set pls" "st \<in> set (op_stages pla)"
    then show "opToNode ?T (op_of st) = Some (nd (op_of st))" using Cons.prems [of pla st] by simp
  qed
  finally show ?case by simp
qed simp


text \<open>A function with a loop around a pipeline of two stages; the second consumes the token of the first.\<close>

definition small_unit :: irop where
  "small_unit = IrOp 10 OtherOp [] [] [IrOp 1 ForOp [] [] [IrOp 2 PipelineOp [] []
     [IrOp 3 PrivateOp [] [] [], IrOp 4 StageOp [] [7] [], IrOp 5 StageOp [7] [] []]]]"

definition body_stages :: "irop \<Rightarrow> irop list" where
  "body_stages pl = filter (\<lambda>o'. class_of o' = StageOp) (body_of pl)"

definition no_tree :: ptree where
  "no_tree = \<lparr>parent_node = \<lambda>_. None, first_child = \<lambda>_. None, next_sibling = \<lambda>_. None,
     allocated = \<lambda>_. False, kind = \<lambda>_. RootNode, operation_op = \<lambda>_. None, template_op = \<lambda>_. None,
     dependencies = \<lambda>_. [], opToNode = \<lambda>_. None, root = None, next_ptr = 0\<rparr>"

lemma small_unit_entries:
  "map entry_op (selected_entries [] small_unit) = [1, 2, 3, 4, 5]"
  "entry_op ` set (selected_entries [] small_unit) = {1, 2, 3, 4, 5}"
  "pipelines_of small_unit = [IrOp 2 PipelineOp [] []
     [IrOp 3 PrivateOp [] [] [], IrOp 4 StageOp [] [7] [], IrOp 5 StageOp [7] [] []]]"
  by (simp_all add: selected_entries_def small_unit_def entry_selected_def isOperationSelected_def
      entry_op_def pipelines_of_def)

lemma small_unit_ok: "ir_ok body_stages [] small_unit"
  by (simp add: ir_ok_def small_unit_entries body_stages_def)

lemma small_unit_children:
  "built_children 0 [1, 2, 3, 4, 5] 10 (selected_entries [] small_unit) =
     (\<lambda>m. if m = 0 then [1] else if m = 1 then [2] else if m = 2 then [3, 4, 5] else [])"
  by (rule ext) (simp add: built_children_def selected_entries_def small_unit_def entry_selected_def
      isOperationSelected_def entry_op_def parent_ptr_def entry_parent_def node_of_def)

lemma small_unit_deps:
  "built_deps body_stages (node_of 0 [1, 2, 3, 4, 5]) small_unit = (\<lambda>m. if m = 4 then [Some 5] else [])"
  by (rule ext) (simp add: built_deps_def small_unit_entries body_stages_def new_deps_def
      last_producer_def node_of_def)


end
