(* ===== verification/MemoryTree.thy ===== *)
theory MemoryTree
  imports RoutingGraph
begin

text \<open>
  The memory hierarchy of \<open>lib/Analysis/ArchViews/MemoryTree.cpp\<close> and the local-memory map of
  \<open>GroupLocalMemory.cpp\<close>. A memory defined inside a group is a child of the first memory the
  group shares. Modelled: building the tree, the aliases, and every query; the queries climb
  parents and are shown to return, to compute the ancestors, the depth and the tree path.
  The containers are hash maps: what depends on their iteration order takes it as a parameter.
\<close>

section \<open>The tree\<close>

record memory_node =
  mn_id :: node_id
  memory_resource :: resource
  mn_alias :: "resource option"
  parent :: "node_id option"
  children :: "node_id list"
  capacity_in_bytes :: "size_t option"
  reserved_in_bytes :: "size_t option"

record memory_tree =
  mt_next_node_id :: node_id
  mt_nodes :: "(node_id \<times> memory_node) list"
  resource_to_node :: "resource \<Rightarrow> node_id option"
  alias_to_node :: "resource \<Rightarrow> node_id option"

type_synonym iteration = "node_id list \<Rightarrow> node_id list"

definition empty_memory_tree :: memory_tree where
  "empty_memory_tree = \<lparr>mt_next_node_id = 0, mt_nodes = [], resource_to_node = (\<lambda>_. None),
     alias_to_node = (\<lambda>_. None)\<rparr>"

definition mt_addNode ::
  "resource \<Rightarrow> size_t option \<Rightarrow> size_t option \<Rightarrow> memory_tree \<Rightarrow> memory_tree \<times> node_id" where
  "mt_addNode res capacity reserved t =
     (let n = mt_next_node_id t;
          new = \<lparr>mn_id = n, memory_resource = res, mn_alias = None, parent = None, children = [],
                 capacity_in_bytes = capacity, reserved_in_bytes = reserved\<rparr>
      in (t\<lparr>mt_next_node_id := Suc n,
            mt_nodes := dm_insert n new (mt_nodes t),
            resource_to_node := (resource_to_node t)(res := Some n)\<rparr>, n))"

definition mt_getNode :: "memory_tree \<Rightarrow> node_id \<Rightarrow> memory_node option" where
  "mt_getNode t n = map_of (mt_nodes t) n"

text \<open>The assertions: both nodes exist. A node that is its own parent is updated twice.\<close>

definition mt_setParent :: "node_id \<Rightarrow> node_id \<Rightarrow> memory_tree \<Rightarrow> memory_tree option" where
  "mt_setParent child_id parent_id t =
     do { c \<leftarrow> mt_getNode t child_id;
          _ \<leftarrow> mt_getNode t parent_id;
          let t1 = t\<lparr>mt_nodes := dm_insert child_id (c\<lparr>parent := Some parent_id\<rparr>) (mt_nodes t)\<rparr>;
          p \<leftarrow> mt_getNode t1 parent_id;
          Some (t1\<lparr>mt_nodes := dm_insert parent_id (p\<lparr>children := children p @ [child_id]\<rparr>) (mt_nodes t1)\<rparr>) }"

definition mt_getNodeForResource :: "memory_tree \<Rightarrow> resource \<Rightarrow> memory_node option" where
  "mt_getNodeForResource t res = Option.bind (resource_to_node t res) (mt_getNode t)"

text \<open>
  \<open>nodes_.at(n)\<close> throws when the node is missing; \<open>parent_at\<close> is \<open>nodes_.at(n).parent\<close>.
\<close>

definition parent_at :: "memory_tree \<Rightarrow> node_id \<Rightarrow> node_id option option" where
  "parent_at t n = map_option parent (mt_getNode t n)"

partial_function (option) root_of_loop :: "memory_tree \<Rightarrow> memory_node \<Rightarrow> memory_node option" where
  "root_of_loop t current =
     (case parent current of
        None \<Rightarrow> Some current
      | Some p \<Rightarrow> Option.bind (mt_getNode t p) (root_of_loop t))"

declare root_of_loop.simps [code]

definition getRootOf :: "memory_tree \<Rightarrow> memory_node \<Rightarrow> memory_node option" where
  "getRootOf t n = root_of_loop t n"

definition getNodeIdForMemory :: "memory_tree \<Rightarrow> resource \<Rightarrow> node_id option" where
  "getNodeIdForMemory t res =
     (case resource_to_node t res of
        Some n \<Rightarrow> Some n
      | None \<Rightarrow> alias_to_node t res)"

definition mt_ids :: "iteration \<Rightarrow> memory_tree \<Rightarrow> node_id list" where
  "mt_ids ord t = ord (map fst (mt_nodes t))"

definition mt_getAllNodeIds :: "iteration \<Rightarrow> memory_tree \<Rightarrow> node_id list" where
  "mt_getAllNodeIds ord t = mt_ids ord t"

definition getRootNodes :: "iteration \<Rightarrow> memory_tree \<Rightarrow> node_id list" where
  "getRootNodes ord t = filter (\<lambda>n. parent_at t n = Some None) (mt_ids ord t)"

definition getLeafNodes :: "iteration \<Rightarrow> memory_tree \<Rightarrow> node_id list" where
  "getLeafNodes ord t = filter (\<lambda>n. map_option children (mt_getNode t n) = Some []) (mt_ids ord t)"

section \<open>Climbing\<close>

text \<open>\<open>source_ancestors\<close>: the loop that collects a node and its ancestors.\<close>

partial_function (option) climb_ancestors :: "memory_tree \<Rightarrow> node_id \<Rightarrow> node_id list \<Rightarrow> node_id list option" where
  "climb_ancestors t current acc =
     do { p \<leftarrow> parent_at t current;
          (case p of
             None \<Rightarrow> Some acc
           | Some q \<Rightarrow> climb_ancestors t q (acc @ [q])) }"

declare climb_ancestors.simps [code]

text \<open>The walk up from the target: it looks at a node only after it has moved to it.\<close>

partial_function (option) climb_to_common ::
  "memory_tree \<Rightarrow> node_id set \<Rightarrow> node_id \<Rightarrow> node_id list \<Rightarrow> (node_id \<times> node_id list) option" where
  "climb_to_common t source_ancestors current target_to_ancestor =
     do { p \<leftarrow> parent_at t current;
          (case p of
             None \<Rightarrow> Some (current, target_to_ancestor)
           | Some q \<Rightarrow>
               (if q \<in> source_ancestors then Some (q, target_to_ancestor @ [q])
                else climb_to_common t source_ancestors q (target_to_ancestor @ [q]))) }"

declare climb_to_common.simps [code]

partial_function (option) climb_until ::
  "memory_tree \<Rightarrow> node_id \<Rightarrow> node_id \<Rightarrow> node_id list \<Rightarrow> node_id list option" where
  "climb_until t common current path =
     (if current = common then Some path
      else do { p \<leftarrow> parent_at t current;
                (case p of
                   None \<Rightarrow> None
                 | Some q \<Rightarrow> climb_until t common q (path @ [q])) })"

declare climb_until.simps [code]

definition has_mem_node :: "memory_tree \<Rightarrow> node_id \<Rightarrow> bool" where
  "has_mem_node t n \<longleftrightarrow> mt_getNode t n \<noteq> None"

definition getPath :: "memory_tree \<Rightarrow> node_id \<Rightarrow> node_id \<Rightarrow> node_id list option" where
  "getPath t src dst =
     (if \<not> has_mem_node t src \<or> \<not> has_mem_node t dst then Some []
      else do { source_ancestors \<leftarrow> climb_ancestors t src [src];
                (current, target_to_ancestor) \<leftarrow> climb_to_common t (set source_ancestors) dst [dst];
                if current \<notin> set source_ancestors then Some []
                else do { up \<leftarrow> climb_until t current src [src];
                          Some (up @ filter (\<lambda>n. n \<noteq> current) (rev target_to_ancestor)) } })"

definition getPathForResources :: "memory_tree \<Rightarrow> resource \<Rightarrow> resource \<Rightarrow> node_id list option" where
  "getPathForResources t src dst =
     (case (getNodeIdForMemory t src, getNodeIdForMemory t dst) of
        (Some s, Some d) \<Rightarrow> getPath t s d
      | _ \<Rightarrow> Some [])"

partial_function (option) depth_loop :: "memory_tree \<Rightarrow> node_id \<Rightarrow> nat \<Rightarrow> nat option" where
  "depth_loop t current depth =
     do { p \<leftarrow> parent_at t current;
          (case p of
             None \<Rightarrow> Some depth
           | Some q \<Rightarrow> depth_loop t q (Suc depth)) }"

declare depth_loop.simps [code]

definition getNodeDepth :: "memory_tree \<Rightarrow> node_id \<Rightarrow> nat option option" where
  "getNodeDepth t n =
     (if \<not> has_mem_node t n then Some None
      else do { d \<leftarrow> depth_loop t n 0; Some (Some d) })"

definition getNodesAtDepth :: "iteration \<Rightarrow> memory_tree \<Rightarrow> nat \<Rightarrow> node_id list option" where
  "getNodesAtDepth ord t depth =
     foldM (\<lambda>n acc. do { d \<leftarrow> getNodeDepth t n; Some (if d = Some depth then acc @ [n] else acc) })
       (mt_ids ord t) []"

text \<open>\<open>current_node\<close> is an optional node: the loop ends when it is empty or has no parent.\<close>

partial_function (option) descend_loop :: "memory_tree \<Rightarrow> node_id \<Rightarrow> memory_node option \<Rightarrow> bool option" where
  "descend_loop t ancestor current_node =
     (case Option.bind current_node parent of
        None \<Rightarrow> Some False
      | Some p \<Rightarrow> (if p = ancestor then Some True else descend_loop t ancestor (mt_getNode t p)))"

declare descend_loop.simps [code]

definition isDescendantOf :: "memory_tree \<Rightarrow> node_id \<Rightarrow> node_id \<Rightarrow> bool option" where
  "isDescendantOf t descendant ancestor =
     (if \<not> has_mem_node t descendant \<or> \<not> has_mem_node t ancestor then Some False
      else descend_loop t ancestor (mt_getNode t descendant))"

definition isDescendantOfResources :: "memory_tree \<Rightarrow> resource \<Rightarrow> resource \<Rightarrow> bool option" where
  "isDescendantOfResources t descendant ancestor =
     (case (getNodeIdForMemory t descendant, getNodeIdForMemory t ancestor) of
        (Some d, Some a) \<Rightarrow> isDescendantOf t d a
      | _ \<Rightarrow> Some False)"

section \<open>Capacities and aliases\<close>

definition getCapacity :: "memory_tree \<Rightarrow> resource \<Rightarrow> size_t option" where
  "getCapacity t res = Option.bind (mt_getNodeForResource t res) capacity_in_bytes"

definition getReserved :: "memory_tree \<Rightarrow> resource \<Rightarrow> size_t option" where
  "getReserved t res = Option.bind (mt_getNodeForResource t res) reserved_in_bytes"

definition getAvailable :: "memory_tree \<Rightarrow> resource \<Rightarrow> size_t option" where
  "getAvailable t res =
     (case mt_getNodeForResource t res of
        None \<Rightarrow> None
      | Some n \<Rightarrow>
          (case capacity_in_bytes n of
             None \<Rightarrow> None
           | Some c \<Rightarrow> Some (c - (case reserved_in_bytes n of None \<Rightarrow> 0 | Some r \<Rightarrow> r))))"

definition getMemoryResourcesWithCapacity :: "iteration \<Rightarrow> memory_tree \<Rightarrow> resource list" where
  "getMemoryResourcesWithCapacity ord t =
     map (\<lambda>n. memory_resource (the (mt_getNode t n)))
       (filter (\<lambda>n. Option.bind (mt_getNode t n) capacity_in_bytes \<noteq> None) (mt_ids ord t))"

definition populateAliases :: "(resource \<times> resource) list \<Rightarrow> memory_tree \<Rightarrow> memory_tree option" where
  "populateAliases =
     foldM (\<lambda>(key, val) t.
       (case resource_to_node t val of
          None \<Rightarrow> Some t
        | Some n \<Rightarrow>
            do { e \<leftarrow> mt_getNode t n;
                 Some (t\<lparr>mt_nodes := dm_insert n (e\<lparr>mn_alias := Some key\<rparr>) (mt_nodes t),
                         alias_to_node := (alias_to_node t)(key := Some n)\<rparr>) }))"

definition areAliases :: "memory_tree \<Rightarrow> resource \<Rightarrow> resource \<Rightarrow> bool" where
  "areAliases t r1 r2 \<longleftrightarrow> r1 = r2 \<or>
     (case (getNodeIdForMemory t r1, getNodeIdForMemory t r2) of
        (Some a, Some b) \<Rightarrow> a = b
      | _ \<Rightarrow> False)"

definition getAliases :: "memory_tree \<Rightarrow> resource \<Rightarrow> resource list" where
  "getAliases t res =
     (case Option.bind (getNodeIdForMemory t res) (mt_getNode t) of
        None \<Rightarrow> [res]
      | Some n \<Rightarrow> memory_resource n # (case mn_alias n of None \<Rightarrow> [] | Some a \<Rightarrow> [a]))"

text \<open>A node whose canonical resource or alias is the resource.\<close>

definition node_matches :: "memory_tree \<Rightarrow> resource \<Rightarrow> node_id \<Rightarrow> bool" where
  "node_matches t res n \<longleftrightarrow>
     (case mt_getNode t n of
        None \<Rightarrow> False
      | Some e \<Rightarrow> memory_resource e = res \<or> mn_alias e = Some res)"

definition isGlobalMemory :: "iteration \<Rightarrow> memory_tree \<Rightarrow> resource \<Rightarrow> bool" where
  "isGlobalMemory ord t res \<longleftrightarrow> (\<exists>n\<in>set (getRootNodes ord t). node_matches t res n)"

definition isPerCoreScratchPadMemory :: "iteration \<Rightarrow> memory_tree \<Rightarrow> resource \<Rightarrow> bool option" where
  "isPerCoreScratchPadMemory ord t res =
     (if getRootNodes ord t = [] then Some False
      else do { depth1_nodes \<leftarrow> getNodesAtDepth ord t 1;
                Some (\<exists>n\<in>set depth1_nodes. node_matches t res n) })"

text \<open>The loop over the scratchpads stops at the first that is an ancestor.\<close>

fun any_descendant :: "memory_tree \<Rightarrow> node_id \<Rightarrow> node_id list \<Rightarrow> bool option" where
  "any_descendant t n [] = Some False"
| "any_descendant t n (s # ss) =
     do { b \<leftarrow> isDescendantOf t n s; if b then Some True else any_descendant t n ss }"

definition isBelowScratchPad :: "iteration \<Rightarrow> memory_tree \<Rightarrow> resource \<Rightarrow> bool option" where
  "isBelowScratchPad ord t res =
     do { depth1_nodes \<leftarrow> getNodesAtDepth ord t 1;
          (case getNodeIdForMemory t res of
             None \<Rightarrow> Some False
           | Some n \<Rightarrow> any_descendant t n depth1_nodes) }"

section \<open>Building the tree\<close>

record tree_context =
  tc_tree :: memory_tree
  value_to_node :: "ssa \<Rightarrow> node_id option"
  child_to_parent :: "(ssa \<times> ssa) list"

fun build_op :: "ssa option \<Rightarrow> dev_op \<Rightarrow> tree_context \<Rightarrow> tree_context option"
  and build_region :: "ssa option \<Rightarrow> dev_op list \<Rightarrow> tree_context \<Rightarrow> tree_context option" where
  "build_op parent_mem (MemoryOp res k sz first_available) ctx =
     (case k of
        None \<Rightarrow> None
      | Some kd \<Rightarrow>
          (let (t, n) = mt_addNode kd (map_option word_of_int sz) (Some first_available) (tc_tree ctx)
           in Some (ctx\<lparr>tc_tree := t, value_to_node := (value_to_node ctx)(res := Some n),
                        child_to_parent := (case parent_mem of
                            None \<Rightarrow> child_to_parent ctx
                          | Some p \<Rightarrow> dm_insert res p (child_to_parent ctx))\<rparr>)))"
| "build_op parent_mem (GroupOp k shared block_args body yielded results) ctx =
     build_region (case shared of [] \<Rightarrow> parent_mem | s # _ \<Rightarrow> Some s) body ctx"
| "build_op parent_mem _ ctx = Some ctx"
| "build_region parent_mem [] ctx = Some ctx"
| "build_region parent_mem (x # xs) ctx =
     do { ctx1 \<leftarrow> build_op parent_mem x ctx; build_region parent_mem xs ctx1 }"

definition link_parent :: "(ssa \<Rightarrow> node_id option) \<Rightarrow> ssa \<times> ssa \<Rightarrow> memory_tree \<Rightarrow> memory_tree option" where
  "link_parent vn e t =
     (case (vn (fst e), vn (snd e)) of
        (Some c, Some p) \<Rightarrow> mt_setParent c p t
      | _ \<Rightarrow> Some t)"

text \<open>
  \<open>ord\<close> orders the iteration over \<open>child_to_parent\<close>; the mapping of aliases is an optional
  attribute of the device.
\<close>

definition mt_initialize ::
  "((ssa \<times> ssa) list \<Rightarrow> (ssa \<times> ssa) list) \<Rightarrow> dev_op list \<Rightarrow> (resource \<times> resource) list option \<Rightarrow>
   memory_tree option" where
  "mt_initialize ord body mem_space_mapping =
     do { ctx \<leftarrow> build_region None body
            \<lparr>tc_tree = empty_memory_tree, value_to_node = (\<lambda>_. None), child_to_parent = []\<rparr>;
          t \<leftarrow> foldM (link_parent (value_to_node ctx)) (ord (child_to_parent ctx)) (tc_tree ctx);
          (case mem_space_mapping of
             None \<Rightarrow> Some t
           | Some entries \<Rightarrow> populateAliases entries t) }"

section \<open>The local memory of an execution unit\<close>

text \<open>
  \<open>GroupLocalMemory\<close>: for every unit kind, the memory kinds of its group, intersected over all
  groups that contain the unit. Groups are met in post-order, as \<open>walk\<close> does.
\<close>

fun groups_of :: "dev_op \<Rightarrow> dev_op list list"
  and groups_in :: "dev_op list \<Rightarrow> dev_op list list" where
  "groups_of (GroupOp k shared block_args body yielded results) = groups_in body @ [body]"
| "groups_of _ = []"
| "groups_in [] = []"
| "groups_in (x # xs) = groups_of x @ groups_in xs"

fun exec_kind :: "dev_op \<Rightarrow> resource option" where
  "exec_kind (ExecutionUnitOp res k ld st) = k"
| "exec_kind _ = None"

fun mem_kind :: "dev_op \<Rightarrow> resource option" where
  "mem_kind (MemoryOp res k sz fa) = k"
| "mem_kind _ = None"

type_synonym local_map = "resource \<Rightarrow> resource set option"

definition add_group :: "dev_op list \<Rightarrow> local_map \<Rightarrow> local_map" where
  "add_group body m =
     (let exec_kinds = List.map_filter exec_kind body;
          mem_kinds = set (List.map_filter mem_kind body)
      in fold (\<lambda>ek m. m(ek := Some (case m ek of None \<Rightarrow> mem_kinds | Some ks \<Rightarrow> {mk \<in> ks. mk \<in> mem_kinds})))
           exec_kinds m)"

definition glm_initialize :: "dev_op list \<Rightarrow> local_map" where
  "glm_initialize body = fold add_group (groups_in body) (\<lambda>_. None)"

definition getLocalMemoryKind :: "local_map \<Rightarrow> resource \<Rightarrow> resource option" where
  "getLocalMemoryKind m k =
     (case m k of
        None \<Rightarrow> None
      | Some ks \<Rightarrow> (if card ks = 1 then Some (the_elem ks) else None))"

text \<open>The units of a stage, if it has the attribute; every early return emits an error.\<close>

definition getLocalMemoryKindForStage :: "local_map \<Rightarrow> resource list option \<Rightarrow> resource option" where
  "getLocalMemoryKindForStage m applicable_units =
     (case applicable_units of
        Some [k] \<Rightarrow> getLocalMemoryKind m k
      | _ \<Rightarrow> None)"

section \<open>Chains of ancestors\<close>

text \<open>
  What initialization establishes: keys are distinct, a parent is a node created before its
  child, children and parents agree, and the resource maps point to nodes.
\<close>

definition par :: "memory_tree \<Rightarrow> node_id \<Rightarrow> node_id option" where
  "par t n = Option.bind (mt_getNode t n) parent"

definition tree_ok :: "memory_tree \<Rightarrow> bool" where
  "tree_ok t \<longleftrightarrow> distinct (map fst (mt_nodes t)) \<and>
     (\<forall>n e. mt_getNode t n = Some e \<longrightarrow> mn_id e = n \<and> n < mt_next_node_id t) \<and>
     (\<forall>n m. par t n = Some m \<longrightarrow> has_mem_node t m \<and> m < n) \<and>
     (\<forall>n e c. mt_getNode t n = Some e \<longrightarrow> c \<in> set (children e) \<longleftrightarrow> par t c = Some n) \<and>
     (\<forall>r n. resource_to_node t r = Some n \<longrightarrow>
        (\<exists>e. mt_getNode t n = Some e \<and> memory_resource e = r)) \<and>
     (\<forall>r n. alias_to_node t r = Some n \<longrightarrow> has_mem_node t n)"

text \<open>\<open>chain t n xs\<close>: climbing from \<open>n\<close> passes through \<open>xs\<close>, \<open>n\<close> first, and ends at a root.\<close>

definition chain :: "memory_tree \<Rightarrow> node_id \<Rightarrow> node_id list \<Rightarrow> bool" where
  "chain t n xs \<longleftrightarrow> links (par t) (Some n) xs None \<and> (\<forall>x\<in>set xs. has_mem_node t x)"

lemma tree_ok_par: "tree_ok t \<Longrightarrow> par t n = Some m \<Longrightarrow> has_mem_node t m \<and> m < n"
  by (simp add: tree_ok_def)

lemma tree_ok_resource:
  "tree_ok t \<Longrightarrow> resource_to_node t r = Some n \<Longrightarrow> \<exists>e. mt_getNode t n = Some e \<and> memory_resource e = r"
  by (simp add: tree_ok_def)

lemma chain_exists:
  assumes t: "tree_ok t" and n: "has_mem_node t n"
  shows "\<exists>anc. chain t n (n # anc)"
  using n
proof (induction n rule: less_induct)
  case (less n)
  show ?case
  proof (cases "par t n")
    case None
    with less.prems show ?thesis by (intro exI [of _ "[]"]) (simp add: chain_def)
  next
    case (Some m)
    with tree_ok_par [OF t] less.IH obtain anc where "chain t m (m # anc)" by blast
    with Some less.prems show ?thesis by (intro exI [of _ "m # anc"]) (simp add: chain_def)
  qed
qed

lemma chain_parts:
  "chain t n (x # xs) \<Longrightarrow> x = n \<and> has_mem_node t n \<and>
     (xs = [] \<and> par t n = None \<or> (\<exists>m ys. xs = m # ys \<and> par t n = Some m \<and> chain t m xs))"
  by (cases xs) (auto simp: chain_def)

lemma chain_distinct: "chain t n xs \<Longrightarrow> distinct xs"
  by (auto simp: chain_def intro: links_distinct)

lemma chain_unique: "chain t n xs \<Longrightarrow> chain t n ys \<Longrightarrow> xs = ys"
  by (auto simp: chain_def intro: links_unique)

lemma chain_suffix: "chain t n (as @ x # bs) \<Longrightarrow> chain t x (x # bs)"
  by (auto simp: chain_def)

lemma parent_at_par: "has_mem_node t n \<Longrightarrow> parent_at t n = Some (par t n)"
  by (auto simp: parent_at_def par_def has_mem_node_def)

text \<open>The loops along a chain.\<close>

lemma climb_ancestors_chain: "chain t n (n # anc) \<Longrightarrow> climb_ancestors t n acc = Some (acc @ anc)"
proof (induction anc arbitrary: n acc)
  case (Cons a anc)
  from chain_parts [OF Cons.prems] show ?case
    using Cons.IH [of a] by (subst climb_ancestors.simps) (auto simp: parent_at_par)
next
  case Nil
  from chain_parts [OF Nil] show ?case by (subst climb_ancestors.simps) (auto simp: parent_at_par)
qed

lemma depth_loop_chain: "chain t n (n # anc) \<Longrightarrow> depth_loop t n d = Some (d + length anc)"
proof (induction anc arbitrary: n d)
  case (Cons a anc)
  from chain_parts [OF Cons.prems] show ?case
    using Cons.IH [of a] by (subst depth_loop.simps) (auto simp: parent_at_par)
next
  case Nil
  from chain_parts [OF Nil] show ?case by (subst depth_loop.simps) (auto simp: parent_at_par)
qed

lemma climb_to_common_chain:
  "chain t n (n # anc) \<Longrightarrow> climb_to_common t S n acc =
     (case find (\<lambda>q. q \<in> S) anc of
        Some q \<Rightarrow> Some (q, acc @ takeWhile (\<lambda>q. q \<notin> S) anc @ [q])
      | None \<Rightarrow> Some (last (n # anc), acc @ anc))"
proof (induction anc arbitrary: n acc)
  case (Cons a anc)
  from chain_parts [OF Cons.prems] have "par t n = Some a" "has_mem_node t n" "chain t a (a # anc)" by auto
  then show ?case
    using Cons.IH [of a "acc @ [a]"]
    by (subst climb_to_common.simps) (auto simp: parent_at_par split: option.split)
next
  case Nil
  from chain_parts [OF Nil] show ?case by (subst climb_to_common.simps) (auto simp: parent_at_par)
qed

lemma climb_until_chain:
  "chain t n (n # anc) \<Longrightarrow> c \<in> set (n # anc) \<Longrightarrow>
     climb_until t c n (acc @ [n]) = Some (acc @ takeWhile (\<lambda>q. q \<noteq> c) (n # anc) @ [c])"
proof (induction anc arbitrary: n acc)
  case (Cons a anc)
  from chain_parts [OF Cons.prems(1)] have "par t n = Some a" "has_mem_node t n" "chain t a (a # anc)" by auto
  then show ?case
    using Cons.IH [of a "acc @ [n]"] Cons.prems(2)
    by (subst climb_until.simps) (auto simp: parent_at_par)
next
  case Nil
  then show ?case by (subst climb_until.simps) auto
qed

lemma descend_loop_chain:
  "chain t n (n # anc) \<Longrightarrow> descend_loop t a (mt_getNode t n) = Some (a \<in> set anc)"
proof (induction anc arbitrary: n)
  case (Cons b anc)
  from chain_parts [OF Cons.prems] have "par t n = Some b" "chain t b (b # anc)" by auto
  then show ?case
    using Cons.IH [of b] by (subst descend_loop.simps) (auto simp: par_def)
next
  case Nil
  from chain_parts [OF Nil] show ?case by (subst descend_loop.simps) (auto simp: par_def)
qed

lemma root_of_loop_chain:
  "chain t n (n # anc) \<Longrightarrow> mt_getNode t n = Some e \<Longrightarrow> root_of_loop t e = mt_getNode t (last (n # anc))"
proof (induction anc arbitrary: n e)
  case (Cons b anc)
  from chain_parts [OF Cons.prems(1)] have b: "par t n = Some b" "chain t b (b # anc)" by auto
  then obtain e' where "mt_getNode t b = Some e'" by (auto simp: chain_def has_mem_node_def)
  with b Cons.prems(2) Cons.IH [of b e'] show ?case
    by (subst root_of_loop.simps) (auto simp: par_def)
next
  case Nil
  from chain_parts [OF Nil(1)] Nil(2) show ?case by (subst root_of_loop.simps) (auto simp: par_def)
qed

section \<open>The queries\<close>

lemma getNodeDepth_chain: "chain t n (n # anc) \<Longrightarrow> getNodeDepth t n = Some (Some (length anc))"
  using chain_parts [of t n n anc] by (simp add: getNodeDepth_def depth_loop_chain)

lemma isDescendantOf_chain:
  "chain t n (n # anc) \<Longrightarrow> has_mem_node t a \<Longrightarrow> isDescendantOf t n a = Some (a \<in> set anc)"
  using chain_parts [of t n n anc] by (simp add: isDescendantOf_def descend_loop_chain)

text \<open>The path of two nodes of one tree, the target not above the source.\<close>

lemma getPath_chains:
  assumes s: "chain t src (src # sa)" and d: "chain t dst (dst # da)"
  shows "getPath t src dst =
    (case find (\<lambda>q. q \<in> set (src # sa)) da of
       Some q \<Rightarrow> Some (takeWhile (\<lambda>x. x \<noteq> q) (src # sa) @ q #
                      rev (dst # takeWhile (\<lambda>x. x \<notin> set (src # sa)) da))
     | None \<Rightarrow> (if last (dst # da) \<in> set (src # sa)
                then Some (takeWhile (\<lambda>x. x \<noteq> dst) (src # sa) @ [dst]) else Some []))"
proof -
  have n: "has_mem_node t src" "has_mem_node t dst" using s d by (auto simp: chain_def)
  note simps = getPath_def n climb_ancestors_chain [OF s] climb_to_common_chain [OF d]
  have up: "climb_until t c src [src] = Some (takeWhile (\<lambda>q. q \<noteq> c) (src # sa) @ [c])"
    if "c \<in> set (src # sa)" for c
    using climb_until_chain [OF s that, of "[]"] by simp
  have dd: "distinct (dst # da)" using d by (rule chain_distinct)
  show ?thesis
  proof (cases "find (\<lambda>q. q \<in> set (src # sa)) da")
    case None
    then have no: "\<forall>x\<in>set da. x \<notin> set (src # sa)" by (auto simp: find_None_iff)
    show ?thesis
    proof (cases "last (dst # da) \<in> set (src # sa)")
      case True
      then have "da = []" using no by (cases da rule: rev_cases) auto
      then show ?thesis using True None up [of dst] by (simp add: simps del: takeWhile.simps)
    next
      case False
      then show ?thesis using None by (simp add: simps del: takeWhile.simps)
    qed
  next
    case (Some q)
    then obtain i where q: "q \<in> set (src # sa)" "q \<in> set da" by (metis find_Some_iff nth_mem)
    have "filter (\<lambda>x. x \<noteq> q) (rev (dst # takeWhile (\<lambda>x. x \<notin> set (src # sa)) da @ [q])) =
        rev (dst # takeWhile (\<lambda>x. x \<notin> set (src # sa)) da)"
      using dd q by (auto simp: filter_id_conv dest: set_takeWhileD)
    then show ?thesis using Some q(1) up [OF q(1)] by (simp add: simps del: takeWhile.simps)
  qed
qed

definition tree_link :: "memory_tree \<Rightarrow> node_id \<Rightarrow> node_id \<Rightarrow> bool" where
  "tree_link t a b \<longleftrightarrow> par t a = Some b \<or> par t b = Some a"

lemma chain_successively: "links nx p xs q \<Longrightarrow> successively (\<lambda>a b. nx a = Some b) xs"
proof (induction xs arbitrary: p)
  case (Cons x xs)
  then show ?case by (cases xs) auto
qed simp

lemma find_split:
  "find P xs = Some q \<Longrightarrow> \<exists>ys. xs = takeWhile (\<lambda>x. \<not> P x) xs @ q # ys \<and> P q"
  by (induction xs) (auto split: if_splits)

lemma takeWhile_split: "q \<in> set xs \<Longrightarrow> \<exists>ys. xs = takeWhile (\<lambda>x. x \<noteq> q) xs @ q # ys"
  by (induction xs) auto

text \<open>C19: When the target is not the source or one of its ancestors, \<open>getPath\<close> gives the
  simple path in the tree, and the empty path exactly when the two nodes are in different trees.\<close>

theorem getPath_simple:
  assumes s: "chain t src xs" and d: "chain t dst ys" and not_above: "dst \<notin> set xs"
  shows "\<exists>p. getPath t src dst = Some p \<and> (p = [] \<longleftrightarrow> set xs \<inter> set ys = {}) \<and>
    (p \<noteq> [] \<longrightarrow> hd p = src \<and> last p = dst \<and> distinct p \<and> successively (tree_link t) p)"
proof -
  obtain sa where xs: "xs = src # sa" using s by (cases xs) (auto simp: chain_def)
  obtain da where ys: "ys = dst # da" using d by (cases ys) (auto simp: chain_def)
  note P = getPath_chains [OF s [unfolded xs] d [unfolded ys], folded xs ys]
  show ?thesis
  proof (cases "find (\<lambda>q. q \<in> set xs) da")
    case None
    then have no: "set xs \<inter> set ys = {}" using not_above by (auto simp: find_None_iff ys)
    moreover have "last ys \<in> set ys" by (simp add: ys)
    ultimately have "last ys \<notin> set xs" by blast
    with None P no show ?thesis by simp
  next
    case (Some q)
    let ?a = "takeWhile (\<lambda>x. x \<noteq> q) xs" and ?b = "takeWhile (\<lambda>x. x \<notin> set xs) da"
    let ?p = "?a @ q # rev (dst # ?b)"
    obtain bs where bs: "da = ?b @ q # bs" "q \<in> set xs" using find_split [OF Some] by auto
    then obtain as where as: "xs = ?a @ q # as" using takeWhile_split by metis
    have eq: "getPath t src dst = Some ?p" using P Some by simp
    have "q \<in> set ys" using bs(1) ys by (metis in_set_conv_decomp list.set_intros(2))
    then have ne: "set xs \<inter> set ys \<noteq> {}" using bs(2) by blast
    have dx: "distinct xs" "distinct ys" using s d by (auto dest: chain_distinct)
    have db: "distinct (dst # ?b @ [q])"
      using dx(2) bs(1) unfolding ys by (metis distinct_append append_Cons append.assoc append_Nil)
    have da': "distinct (?a @ [q])" using dx(1) as by (metis distinct_append append_Cons append.assoc append_Nil)
    have "set (dst # ?b) \<inter> set xs = {}" using not_above by (auto dest: set_takeWhileD)
    moreover have "set ?a \<subseteq> set xs" by (auto dest: set_takeWhileD)
    ultimately have dp: "distinct ?p" using db da' by auto
    have "successively (\<lambda>a b. par t a = Some b) (?a @ q # as)"
      using chain_successively s unfolding chain_def by (simp flip: as) blast
    then have up: "successively (tree_link t) (?a @ [q])"
      by (auto simp: tree_link_def successively_append_iff elim: successively_mono)
    have "successively (\<lambda>a b. par t a = Some b) ((dst # ?b @ [q]) @ bs)"
      using chain_successively d bs(1) unfolding chain_def ys by (metis append.assoc append_Cons append_Nil)
    then have "successively (\<lambda>a b. par t a = Some b) (dst # ?b @ [q])"
      by (simp only: successively_append_iff)
    then have "successively (\<lambda>a b. par t b = Some a) (rev (dst # ?b @ [q]))" by (simp only: successively_rev)
    then have down: "successively (tree_link t) (q # rev (dst # ?b))"
      by (auto simp: tree_link_def elim: successively_mono)
    have "successively (tree_link t) ?p"
      using up down by (auto simp: successively_append_iff)
    moreover have "hd ?p = src"
    proof (cases ?a)
      case Nil
      then have "xs = q # as" using as by simp
      with xs Nil show ?thesis by simp
    next
      case (Cons z zs)
      then have "z = src" using as xs by (metis append_Cons list.inject)
      with Cons show ?thesis by simp
    qed
    ultimately show ?thesis using eq ne dp by (intro exI [of _ ?p]) simp
  qed
qed

text \<open>
  A target that is the source or above it, and not a root, is overshot: the path climbs to the
  parent of the target and comes back, although \<open>takeWhile (\<lambda>x. x \<noteq> dst) xs @ [dst]\<close> is a path.
\<close>

theorem getPath_above:
  assumes s: "chain t src xs" and dst: "dst \<in> set xs" and q: "par t dst = Some q"
  shows "getPath t src dst = Some (takeWhile (\<lambda>x. x \<noteq> q) xs @ [q, dst]) \<and>
    \<not> distinct (takeWhile (\<lambda>x. x \<noteq> q) xs @ [q, dst])"
proof -
  obtain sa where xs: "xs = src # sa" using s by (cases xs) (auto simp: chain_def)
  obtain as bs where split: "xs = as @ dst # bs" "dst \<notin> set as" using dst by (meson split_at)
  then have d: "chain t dst (dst # bs)" using s chain_suffix by simp
  from chain_parts [OF d] q obtain cs where bs: "bs = q # cs" by auto
  have dist: "distinct xs" using s by (rule chain_distinct)
  have f: "find (\<lambda>x. x \<in> set xs) bs = Some q" "takeWhile (\<lambda>x. x \<notin> set xs) bs = []"
    using bs split(1) by auto
  have "takeWhile (\<lambda>x. x \<noteq> q) xs = as @ [dst]"
    using dist takeWhile_until [of q "as @ [dst]" cs] unfolding split(1) bs by simp
  then show ?thesis
    using getPath_chains [OF s [unfolded xs] d, folded xs] f by simp
qed

section \<open>Initialization builds a well-formed tree\<close>

text \<open>
  What the IR guarantees: memories have a kind, every value is defined once, and a group shares
  values defined before it (\<open>S\<close> is the set of the values defined so far).
\<close>

fun defined_in :: "dev_op \<Rightarrow> ssa set" and defined_in_region :: "dev_op list \<Rightarrow> ssa set" where
  "defined_in (MemoryOp res k sz fa) = {res}"
| "defined_in (ExecutionUnitOp res k ld st) = {res}"
| "defined_in (GroupOp k shared block_args body yielded results) =
     set block_args \<union> defined_in_region body \<union> set results"
| "defined_in _ = {}"
| "defined_in_region [] = {}"
| "defined_in_region (x # xs) = defined_in x \<union> defined_in_region xs"

fun scoped_op :: "ssa set \<Rightarrow> dev_op \<Rightarrow> bool" and scoped_region :: "ssa set \<Rightarrow> dev_op list \<Rightarrow> bool" where
  "scoped_op S (MemoryOp res k sz fa) \<longleftrightarrow> res \<notin> S \<and> k \<noteq> None"
| "scoped_op S (ExecutionUnitOp res k ld st) \<longleftrightarrow> res \<notin> S"
| "scoped_op S (GroupOp k shared block_args body yielded results) \<longleftrightarrow>
     set shared \<subseteq> S \<and> scoped_region (S \<union> set block_args) body"
| "scoped_op S _ \<longleftrightarrow> True"
| "scoped_region S [] \<longleftrightarrow> True"
| "scoped_region S (x # xs) \<longleftrightarrow> scoped_op S x \<and> scoped_region (S \<union> defined_in x) xs"

text \<open>The tree before parents are set, and the maps built beside it.\<close>

definition flat :: "memory_tree \<Rightarrow> bool" where
  "flat t \<longleftrightarrow> tree_ok t \<and> (\<forall>n e. mt_getNode t n = Some e \<longrightarrow> parent e = None)"

definition build_ok :: "ssa set \<Rightarrow> tree_context \<Rightarrow> bool" where
  "build_ok S ctx \<longleftrightarrow> flat (tc_tree ctx) \<and>
     (\<forall>v n. value_to_node ctx v = Some n \<longrightarrow> v \<in> S \<and> has_mem_node (tc_tree ctx) n) \<and>
     inj_on (value_to_node ctx) (dom (value_to_node ctx)) \<and>
     distinct (map fst (child_to_parent ctx)) \<and>
     (\<forall>(c, p)\<in>set (child_to_parent ctx). c \<in> S \<and> p \<in> S \<and> (\<exists>n. value_to_node ctx c = Some n \<and>
        (\<forall>m. value_to_node ctx p = Some m \<longrightarrow> m < n)))"

lemma build_ok_mono: "build_ok S ctx \<Longrightarrow> S \<subseteq> S' \<Longrightarrow> build_ok S' ctx"
  unfolding build_ok_def by blast

lemma mt_addNode_flat:
  assumes t: "flat t" and a: "mt_addNode res cap rsv t = (t', n)"
  shows "flat t'" and "n = mt_next_node_id t" and "has_mem_node t' m \<longleftrightarrow> has_mem_node t m \<or> m = n"
    and "\<not> has_mem_node t n" and "has_mem_node t m \<Longrightarrow> m < n"
proof -
  note T = t [unfolded flat_def tree_ok_def]
  have t': "n = mt_next_node_id t" "t' = t\<lparr>mt_next_node_id := Suc n, mt_nodes := dm_insert n
      \<lparr>mn_id = n, memory_resource = res, mn_alias = None, parent = None, children = [],
       capacity_in_bytes = cap, reserved_in_bytes = rsv\<rparr> (mt_nodes t),
      resource_to_node := (resource_to_node t)(res := Some n)\<rparr>"
    using a by (auto simp: mt_addNode_def Let_def)
  show "n = mt_next_node_id t" by (rule t'(1))
  have get: "mt_getNode t' m = (if m = n then Some \<lparr>mn_id = n, memory_resource = res, mn_alias = None,
      parent = None, children = [], capacity_in_bytes = cap, reserved_in_bytes = rsv\<rparr>
      else mt_getNode t m)" for m
    by (simp add: mt_getNode_def t'(2))
  then show has: "has_mem_node t' m \<longleftrightarrow> has_mem_node t m \<or> m = n" for m
    by (simp add: has_mem_node_def)
  show lt: "m < n" if "has_mem_node t m" for m
    using that T by (auto simp: has_mem_node_def t'(1))
  then show fresh: "\<not> has_mem_node t n" by blast
  have nopar: "par t m = None" "par t' m = None" for m
    using T get [of m] by (auto simp: par_def split: Option.bind_split)
  have nochild: "children e = []" if "mt_getNode t m = Some e" for m e
  proof (rule ccontr)
    assume "children e \<noteq> []"
    then have "hd (children e) \<in> set (children e)" by simp
    then show False using T that nopar by (metis option.distinct(1))
  qed
  show "flat t'"
    unfolding flat_def tree_ok_def
  proof (intro conjI)
    show "distinct (map fst (mt_nodes t'))" using T by (simp add: t'(2) distinct_dm_insert)
    show "\<forall>m e. mt_getNode t' m = Some e \<longrightarrow> mn_id e = m \<and> m < mt_next_node_id t'"
    proof (intro allI impI)
      fix m e assume e: "mt_getNode t' m = Some e"
      have "mt_next_node_id t' = Suc n" by (simp add: t'(2))
      then show "mn_id e = m \<and> m < mt_next_node_id t'"
        using T e t'(1) by (cases "m = n") (auto simp: get intro: less_SucI)
    qed
    show "\<forall>m k. par t' m = Some k \<longrightarrow> has_mem_node t' k \<and> k < m" by (simp add: nopar)
    show "\<forall>m e c. mt_getNode t' m = Some e \<longrightarrow> (c \<in> set (children e)) = (par t' c = Some m)"
      using nochild by (auto simp: get nopar split: if_splits)
    show "\<forall>r m. resource_to_node t' r = Some m \<longrightarrow> (\<exists>e. mt_getNode t' m = Some e \<and> memory_resource e = r)"
    proof (intro allI impI)
      fix r m assume "resource_to_node t' r = Some m"
      then have "(if r = res then Some n else resource_to_node t r) = Some m" by (simp add: t'(2))
      then show "\<exists>e. mt_getNode t' m = Some e \<and> memory_resource e = r"
      proof (cases "r = res")
        case False
        then obtain e where e: "mt_getNode t m = Some e" "memory_resource e = r"
          using tree_ok_resource [of t r m] t \<open>(if r = res then Some n else resource_to_node t r) = Some m\<close>
          unfolding flat_def by auto
        then have "m \<noteq> n" using fresh by (auto simp: has_mem_node_def)
        with e show ?thesis by (simp add: get)
      qed (simp add: get)
    qed
    have "alias_to_node t' = alias_to_node t" by (simp add: t'(2))
    then show "\<forall>r m. alias_to_node t' r = Some m \<longrightarrow> has_mem_node t' m" using T has by simp
    show "\<forall>m e. mt_getNode t' m = Some e \<longrightarrow> parent e = None" using T by (auto simp: get split: if_splits)
  qed
qed

lemma build_memory:
  assumes ok: "build_ok S ctx" and res: "res \<notin> S" and k: "k = Some kd"
    and pm: "\<And>p. parent_mem = Some p \<Longrightarrow> p \<in> S"
  shows "\<exists>ctx'. build_op parent_mem (MemoryOp res k sz fa) ctx = Some ctx' \<and> build_ok (insert res S) ctx'"
proof -
  note O = ok [unfolded build_ok_def]
  obtain t n where a: "mt_addNode kd (map_option word_of_int sz) (Some fa) (tc_tree ctx) = (t, n)"
    by (cases "mt_addNode kd (map_option word_of_int sz) (Some fa) (tc_tree ctx)")
  have fl: "flat (tc_tree ctx)" using O by blast
  note A = mt_addNode_flat [OF fl a]
  let ?ctx = "ctx\<lparr>tc_tree := t, value_to_node := (value_to_node ctx)(res := Some n),
    child_to_parent := (case parent_mem of None \<Rightarrow> child_to_parent ctx
       | Some p \<Rightarrow> dm_insert res p (child_to_parent ctx))\<rparr>"
  have new: "value_to_node ctx v \<noteq> Some n" for v using O A(4) by blast
  have small: "m < n" if "value_to_node ctx v = Some m" for v m using O A(5) that by blast
  have old: "value_to_node ctx res = None" using O res by (meson not_None_eq)
  have "build_ok (insert res S) ?ctx"
    unfolding build_ok_def
  proof (intro conjI)
    show "flat (tc_tree ?ctx)" using A(1) by simp
    show "\<forall>v m. value_to_node ?ctx v = Some m \<longrightarrow> v \<in> insert res S \<and> has_mem_node (tc_tree ?ctx) m"
      using O A(3) by auto
    show "inj_on (value_to_node ?ctx) (dom (value_to_node ?ctx))"
      using O new by (auto simp: inj_on_def dom_def split: if_splits)
    show "distinct (map fst (child_to_parent ?ctx))"
      using O by (auto simp: distinct_dm_insert split: option.split)
    show "\<forall>(c, p)\<in>set (child_to_parent ?ctx). c \<in> insert res S \<and> p \<in> insert res S \<and>
        (\<exists>n. value_to_node ?ctx c = Some n \<and> (\<forall>m. value_to_node ?ctx p = Some m \<longrightarrow> m < n))"
    proof (clarify)
      fix c p assume cp: "(c, p) \<in> set (child_to_parent ?ctx)"
      show "c \<in> insert res S \<and> p \<in> insert res S \<and>
        (\<exists>n. value_to_node ?ctx c = Some n \<and> (\<forall>m. value_to_node ?ctx p = Some m \<longrightarrow> m < n))"
      proof (cases "(c, p) \<in> set (child_to_parent ctx)")
        case True
        then have "c \<in> S" "p \<in> S" "\<exists>n. value_to_node ctx c = Some n \<and> (\<forall>m. value_to_node ctx p = Some m \<longrightarrow> m < n)"
          using O by auto
        with res show ?thesis by auto
      next
        case False
        with cp have "c = res" "parent_mem = Some p" by (auto simp: dm_insert_def split: option.splits)
        with pm [of p] res small show ?thesis by auto
      qed
    qed
  qed
  then show ?thesis using a k by auto
qed

lemma build_sound:
  "build_ok S ctx \<Longrightarrow> scoped_op S x \<Longrightarrow> (\<And>p. parent_mem = Some p \<Longrightarrow> p \<in> S) \<Longrightarrow>
     \<exists>ctx'. build_op parent_mem x ctx = Some ctx' \<and> build_ok (S \<union> defined_in x) ctx'"
  "build_ok S ctx \<Longrightarrow> scoped_region S xs \<Longrightarrow> (\<And>p. parent_mem = Some p \<Longrightarrow> p \<in> S) \<Longrightarrow>
     \<exists>ctx'. build_region parent_mem xs ctx = Some ctx' \<and> build_ok (S \<union> defined_in_region xs) ctx'"
proof (induction parent_mem x ctx and parent_mem xs ctx arbitrary: S and S rule: build_op_build_region.induct)
  case (1 parent_mem res k sz fa ctx)
  then obtain kd where "k = Some kd" by auto
  from build_memory [OF "1"(1) _ this "1"(3)] "1"(2) show ?case by simp
next
  case (2 parent_mem k shared block_args body yielded results ctx)
  let ?S = "S \<union> set block_args"
  have "build_ok ?S ctx" using build_ok_mono "2.prems"(1) by blast
  moreover have "scoped_region ?S body" using "2.prems"(2) by simp
  moreover have "p \<in> ?S" if "(case shared of [] \<Rightarrow> parent_mem | s # _ \<Rightarrow> Some s) = Some p" for p
    using that "2.prems"(2,3) by (cases shared) auto
  ultimately obtain ctx' where "build_region (case shared of [] \<Rightarrow> parent_mem | s # _ \<Rightarrow> Some s) body ctx = Some ctx'"
    "build_ok (?S \<union> defined_in_region body) ctx'"
    using "2.IH" by blast
  then show ?case by (auto intro: build_ok_mono)
next
  case (5 parent_mem x xs ctx)
  have sx: "scoped_op S x" using "5.prems"(2) by simp
  obtain ctx1 where c1: "build_op parent_mem x ctx = Some ctx1" "build_ok (S \<union> defined_in x) ctx1"
    using "5.IH"(1) [OF "5.prems"(1) sx "5.prems"(3)] by blast
  have "scoped_region (S \<union> defined_in x) xs" using "5.prems"(2) by simp
  moreover have "p \<in> S \<union> defined_in x" if "parent_mem = Some p" for p using "5.prems"(3) [OF that] by blast
  ultimately obtain ctx' where "build_region parent_mem xs ctx1 = Some ctx'"
    "build_ok (S \<union> defined_in x \<union> defined_in_region xs) ctx'"
    using "5.IH"(2) [OF c1(1,2)] by blast
  with c1(1) show ?case by (auto simp: Un_assoc)
qed (auto intro: build_ok_mono)

lemma mt_setParent_ok:
  assumes t: "tree_ok t" and c: "has_mem_node t c" and p: "has_mem_node t p" and lt: "p < c"
    and none: "par t c = None"
  shows "\<exists>t'. mt_setParent c p t = Some t' \<and> tree_ok t' \<and> par t' = (par t)(c := Some p) \<and>
    (\<forall>m. has_mem_node t' m \<longleftrightarrow> has_mem_node t m)"
proof -
  note T = t [unfolded tree_ok_def]
  obtain ec ep where e: "mt_getNode t c = Some ec" "mt_getNode t p = Some ep"
    using c p by (auto simp: has_mem_node_def)
  let ?t2 = "t\<lparr>mt_nodes := dm_insert p (ep\<lparr>children := children ep @ [c]\<rparr>)
    (dm_insert c (ec\<lparr>parent := Some p\<rparr>) (mt_nodes t))\<rparr>"
  have eq: "mt_setParent c p t = Some ?t2"
    using e lt by (simp add: mt_setParent_def mt_getNode_def)
  have get: "mt_getNode ?t2 m = (if m = p then Some (ep\<lparr>children := children ep @ [c]\<rparr>)
      else if m = c then Some (ec\<lparr>parent := Some p\<rparr>) else mt_getNode t m)" for m
    by (simp add: mt_getNode_def)
  have has: "has_mem_node ?t2 m \<longleftrightarrow> has_mem_node t m" for m
    using c p unfolding has_mem_node_def get by auto
  have par: "par ?t2 = (par t)(c := Some p)"
  proof (rule ext)
    fix m show "par ?t2 m = ((par t)(c := Some p)) m"
      using e lt by (cases "m = p"; cases "m = c") (simp_all add: par_def get)
  qed
  have "tree_ok ?t2"
    unfolding tree_ok_def
  proof (intro conjI)
    show "distinct (map fst (mt_nodes ?t2))" using T by (simp add: distinct_dm_insert)
    show "\<forall>n e. mt_getNode ?t2 n = Some e \<longrightarrow> mn_id e = n \<and> n < mt_next_node_id ?t2"
      using T e by (simp add: get)
    show "\<forall>n m. par ?t2 n = Some m \<longrightarrow> has_mem_node ?t2 m \<and> m < n"
      unfolding par has using T p lt by simp
    show "\<forall>n f d. mt_getNode ?t2 n = Some f \<longrightarrow> (d \<in> set (children f)) = (par ?t2 d = Some n)"
    proof (intro allI impI)
      fix n f d assume f: "mt_getNode ?t2 n = Some f"
      have old: "mt_getNode t n = Some g \<Longrightarrow> (d \<in> set (children g)) = (par t d = Some n)" for g
        using T by blast
      show "(d \<in> set (children f)) = (par ?t2 d = Some n)"
        unfolding par using f old e none lt by (auto simp: get split: if_splits)
    qed
    show "\<forall>r n. resource_to_node ?t2 r = Some n \<longrightarrow> (\<exists>f. mt_getNode ?t2 n = Some f \<and> memory_resource f = r)"
    proof (intro allI impI)
      fix r n assume "resource_to_node ?t2 r = Some n"
      then obtain g where "mt_getNode t n = Some g" "memory_resource g = r"
        using tree_ok_resource [OF t, of r n] by auto
      then show "\<exists>f. mt_getNode ?t2 n = Some f \<and> memory_resource f = r"
        unfolding get using e by (cases "n = p"; cases "n = c") simp_all
    qed
    show "\<forall>r n. alias_to_node ?t2 r = Some n \<longrightarrow> has_mem_node ?t2 n" unfolding has using T by simp
  qed
  with eq par has show ?thesis by blast
qed

text \<open>Entries of the form child value, parent value, still to be linked.\<close>

lemma link_parents_ok:
  assumes "tree_ok t" and "distinct (map fst es)" and "inj_on vn (dom vn)"
    and "\<And>v n. vn v = Some n \<Longrightarrow> has_mem_node t n"
    and "\<And>c p n m. (c, p) \<in> set es \<Longrightarrow> vn c = Some n \<Longrightarrow> vn p = Some m \<Longrightarrow> m < n \<and> par t n = None"
  shows "\<exists>t'. foldM (link_parent vn) es t = Some t' \<and> tree_ok t' \<and>
    (\<forall>n m. par t' n = Some m \<longleftrightarrow> par t n = Some m \<or>
       (\<exists>(c, p)\<in>set es. vn c = Some n \<and> vn p = Some m))"
  using assms
proof (induction es arbitrary: t)
  case (Cons e es)
  obtain c p where e: "e = (c, p)" by (cases e)
  show ?case
  proof (cases "\<exists>n m. vn c = Some n \<and> vn p = Some m")
    case False
    then have "link_parent vn e t = Some t" by (auto simp: link_parent_def e split: option.splits)
    moreover have "\<exists>t'. foldM (link_parent vn) es t = Some t' \<and> tree_ok t' \<and>
      (\<forall>n m. par t' n = Some m \<longleftrightarrow> par t n = Some m \<or> (\<exists>(c, p)\<in>set es. vn c = Some n \<and> vn p = Some m))"
    proof (rule Cons.IH [OF Cons.prems(1) _ Cons.prems(3,4)])
      show "y < x \<and> par t x = None" if "(c', p') \<in> set es" "vn c' = Some x" "vn p' = Some y" for c' p' x y
        using Cons.prems(5) [of c' p' x y] that by simp
    qed (use Cons.prems(2) in simp_all)
    ultimately show ?thesis using False by (auto simp: e)
  next
    case True
    then obtain n m where nm: "vn c = Some n" "vn p = Some m" by blast
    have new: "m < n" "par t n = None" using Cons.prems(5) [of c p n m] nm by (auto simp: e)
    obtain t1 where t1: "mt_setParent n m t = Some t1" "tree_ok t1" "par t1 = (par t)(n := Some m)"
      "\<And>x. has_mem_node t1 x \<longleftrightarrow> has_mem_node t x"
      using mt_setParent_ok [OF Cons.prems(1) _ _ new] Cons.prems(4) nm by blast
    have step: "link_parent vn e t = Some t1" by (simp add: link_parent_def e nm t1(1))
    have sep: "n' \<noteq> n" if "(c', p') \<in> set es" "vn c' = Some n'" for c' p' n'
    proof
      assume "n' = n"
      then have "c' = c" using Cons.prems(3) nm(1) that(2) by (auto simp: inj_on_def dom_def)
      then show False using Cons.prems(2) that(1) by (auto simp: e image_iff)
    qed
    have "\<exists>t'. foldM (link_parent vn) es t1 = Some t' \<and> tree_ok t' \<and>
      (\<forall>x y. par t' x = Some y \<longleftrightarrow> par t1 x = Some y \<or> (\<exists>(c, p)\<in>set es. vn c = Some x \<and> vn p = Some y))"
    proof (rule Cons.IH [OF t1(2)])
      show "distinct (map fst es)" using Cons.prems(2) by simp
      show "has_mem_node t1 x" if "vn v = Some x" for v x using t1(4) Cons.prems(4) that by blast
      show "y < x \<and> par t1 x = None" if "(c', p') \<in> set es" "vn c' = Some x" "vn p' = Some y" for c' p' x y
        using Cons.prems(5) [of c' p' x y] sep [OF that(1,2)] that by (simp add: t1(3))
    qed (rule Cons.prems(3))
    then obtain t' where t': "foldM (link_parent vn) es t1 = Some t'" "tree_ok t'"
      "\<And>x y. par t' x = Some y \<longleftrightarrow> par t1 x = Some y \<or> (\<exists>(c, p)\<in>set es. vn c = Some x \<and> vn p = Some y)"
      by blast
    have "par t' x = Some y \<longleftrightarrow> par t x = Some y \<or> (\<exists>(c, p)\<in>set (e # es). vn c = Some x \<and> vn p = Some y)" for x y
      unfolding t'(3) t1(3) using nm new(2) by (auto simp: e)
    with step t'(1,2) show ?thesis by auto
  qed
qed simp

lemma populateAliases_ok:
  "tree_ok t \<Longrightarrow> \<exists>t'. populateAliases es t = Some t' \<and> tree_ok t' \<and> par t' = par t \<and>
     (\<forall>m. has_mem_node t' m \<longleftrightarrow> has_mem_node t m)"
proof (induction es arbitrary: t)
  case Nil
  then show ?case by (simp add: populateAliases_def)
next
  case (Cons x es)
  obtain key val where x: "x = (key, val)" by (cases x)
  show ?case
  proof (cases "resource_to_node t val")
    case None
    with Cons show ?thesis by (simp add: populateAliases_def x)
  next
    case (Some n)
    note T = Cons.prems [unfolded tree_ok_def]
    obtain e where e: "mt_getNode t n = Some e" using T Some by blast
    let ?t = "t\<lparr>mt_nodes := dm_insert n (e\<lparr>mn_alias := Some key\<rparr>) (mt_nodes t),
      alias_to_node := (alias_to_node t)(key := Some n)\<rparr>"
    have get: "mt_getNode ?t m = (if m = n then Some (e\<lparr>mn_alias := Some key\<rparr>) else mt_getNode t m)" for m
      by (simp add: mt_getNode_def)
    have has: "has_mem_node ?t m \<longleftrightarrow> has_mem_node t m" for m using e by (auto simp: has_mem_node_def get)
    have par: "par ?t = par t" using e by (auto simp: fun_eq_iff par_def get)
    have "tree_ok ?t"
      unfolding tree_ok_def par has
    proof (intro conjI)
      show "\<forall>r m. resource_to_node ?t r = Some m \<longrightarrow> (\<exists>f. mt_getNode ?t m = Some f \<and> memory_resource f = r)"
      proof (intro allI impI)
        fix r m assume "resource_to_node ?t r = Some m"
        then obtain g where "mt_getNode t m = Some g" "memory_resource g = r"
          using tree_ok_resource [OF Cons.prems, of r m] by auto
        then show "\<exists>f. mt_getNode ?t m = Some f \<and> memory_resource f = r"
          unfolding get using e by (cases "m = n") simp_all
      qed
    qed (use T e in \<open>simp_all add: get distinct_dm_insert has_mem_node_def\<close>)
    from Cons.IH [OF this] obtain t' where "populateAliases es ?t = Some t'" "tree_ok t'" "par t' = par t"
      "\<forall>m. has_mem_node t' m \<longleftrightarrow> has_mem_node t m"
      unfolding par has by blast
    then show ?thesis using Some e by (simp add: populateAliases_def x)
  qed
qed

lemma mt_initialize_sound:
  assumes "iteration_order ord" and "scoped_region {} body"
  shows "\<exists>t. mt_initialize ord body mapping = Some t \<and> tree_ok t"
proof -
  let ?c0 = "\<lparr>tc_tree = empty_memory_tree, value_to_node = (\<lambda>_. None), child_to_parent = []\<rparr>"
  have "build_ok {} ?c0"
    by (simp add: build_ok_def flat_def tree_ok_def empty_memory_tree_def mt_getNode_def par_def)
  then obtain ctx where ctx: "build_region None body ?c0 = Some ctx" "build_ok ({} \<union> defined_in_region body) ctx"
    using build_sound(2) [of "{}" ?c0 body None] assms(2) by blast
  note B = ctx(2) [unfolded build_ok_def]
  let ?es = "ord (child_to_parent ctx)"
  have ord: "set ?es = set (child_to_parent ctx)" "distinct ?es"
    using assms(1) B by (auto simp: iteration_order_def distinct_map)
  have keys: "distinct (map fst ?es)" using B ord by (simp add: distinct_map)
  have nopar: "par (tc_tree ctx) n = None" for n
    using B by (auto simp: flat_def par_def split: Option.bind_split)
  obtain t where t: "foldM (link_parent (value_to_node ctx)) ?es (tc_tree ctx) = Some t" "tree_ok t"
  proof -
    have "tree_ok (tc_tree ctx)" using B by (simp add: flat_def)
    moreover have "m < n \<and> par (tc_tree ctx) n = None"
      if "(c, p) \<in> set ?es" "value_to_node ctx c = Some n" "value_to_node ctx p = Some m" for c p n m
      using B that nopar unfolding ord(1) by fastforce
    ultimately show ?thesis
      using link_parents_ok [of "tc_tree ctx" ?es "value_to_node ctx"] keys B that by blast
  qed
  show ?thesis
    using ctx(1) t populateAliases_ok [OF t(2)] by (cases mapping) (auto simp: mt_initialize_def)
qed

section \<open>The classification of memories by depth\<close>

lemma mt_ids_set:
  assumes "tree_ok t" and "iteration_order ord"
  shows "distinct (mt_ids ord t)" and "n \<in> set (mt_ids ord t) \<longleftrightarrow> has_mem_node t n"
proof -
  have "distinct (map fst (mt_nodes t))" using assms(1) by (simp add: tree_ok_def)
  then have "distinct (mt_ids ord t) \<and> set (mt_ids ord t) = set (map fst (mt_nodes t))"
    using assms(2) unfolding iteration_order_def mt_ids_def by blast
  then show "distinct (mt_ids ord t)" "n \<in> set (mt_ids ord t) \<longleftrightarrow> has_mem_node t n"
    by (auto simp: has_mem_node_def mt_getNode_def map_of_eq_None_iff)
qed

text \<open>The depth of a node that exists.\<close>

definition depth_of :: "memory_tree \<Rightarrow> node_id \<Rightarrow> nat" where
  "depth_of t n = the (the (getNodeDepth t n))"

lemma depth_of_chain: "chain t n (n # anc) \<Longrightarrow> depth_of t n = length anc"
  by (simp add: depth_of_def getNodeDepth_chain)

lemma getNodeDepth_exists: "tree_ok t \<Longrightarrow> has_mem_node t n \<Longrightarrow> getNodeDepth t n = Some (Some (depth_of t n))"
  using chain_exists [of t n] by (auto simp: getNodeDepth_chain depth_of_def)

lemma getNodesAtDepth_ok:
  assumes t: "tree_ok t" and ord: "iteration_order ord"
  shows "getNodesAtDepth ord t k = Some (filter (\<lambda>n. depth_of t n = k) (mt_ids ord t))"
proof -
  have "foldM (\<lambda>n acc. do { d \<leftarrow> getNodeDepth t n; Some (if d = Some k then acc @ [n] else acc) }) ns acc =
      Some (acc @ filter (\<lambda>n. depth_of t n = k) ns)" if "\<forall>n\<in>set ns. has_mem_node t n" for ns acc
    using that by (induction ns arbitrary: acc) (simp_all add: getNodeDepth_exists [OF t])
  then show ?thesis using mt_ids_set(2) [OF t ord] by (simp add: getNodesAtDepth_def)
qed

lemma getRootNodes_ok:
  assumes t: "tree_ok t" and ord: "iteration_order ord"
  shows "getRootNodes ord t = filter (\<lambda>n. depth_of t n = 0) (mt_ids ord t)"
  unfolding getRootNodes_def
proof (rule filter_cong [OF refl])
  fix n assume "n \<in> set (mt_ids ord t)"
  then have n: "has_mem_node t n" using mt_ids_set(2) [OF t ord] by blast
  then obtain anc where c: "chain t n (n # anc)" using chain_exists [OF t] by blast
  from chain_parts [OF c] show "(parent_at t n = Some None) = (depth_of t n = 0)"
    by (auto simp: parent_at_par depth_of_chain [OF c])
qed

lemma any_descendant_ok:
  assumes c: "chain t n (n # anc)" and "\<forall>s\<in>set ss. has_mem_node t s"
  shows "any_descendant t n ss = Some (\<exists>s\<in>set ss. s \<in> set anc)"
  using assms(2) by (induction ss) (auto simp: isDescendantOf_chain [OF c])

lemma chain_depths: "chain t n (n # anc) \<Longrightarrow> (\<exists>s\<in>set anc. depth_of t s = k) \<longleftrightarrow> k < length anc"
proof (induction anc arbitrary: n)
  case (Cons a anc)
  from chain_parts [OF Cons.prems] have c: "chain t a (a # anc)" by auto
  from Cons.IH [OF c] depth_of_chain [OF c] show ?case by auto
qed simp

lemma below_scratchpad_depth:
  assumes t: "tree_ok t" and ord: "iteration_order ord"
  shows "isBelowScratchPad ord t res =
    Some (case getNodeIdForMemory t res of None \<Rightarrow> False | Some n \<Rightarrow> 2 \<le> depth_of t n)"
proof (cases "getNodeIdForMemory t res")
  case None
  then show ?thesis by (simp add: isBelowScratchPad_def getNodesAtDepth_ok [OF t ord])
next
  case (Some n)
  then have "has_mem_node t n"
  proof (cases "resource_to_node t res")
    case None
    then have "alias_to_node t res = Some n" using Some by (simp add: getNodeIdForMemory_def)
    then show ?thesis using t by (simp add: tree_ok_def)
  next
    case (Some k)
    then have "k = n" using \<open>getNodeIdForMemory t res = Some n\<close> by (simp add: getNodeIdForMemory_def)
    then show ?thesis using tree_ok_resource [OF t Some] by (auto simp: has_mem_node_def)
  qed
  then obtain anc where c: "chain t n (n # anc)" using chain_exists [OF t] by blast
  let ?d1 = "filter (\<lambda>m. depth_of t m = 1) (mt_ids ord t)"
  have "\<forall>s\<in>set ?d1. has_mem_node t s" using mt_ids_set(2) [OF t ord] by simp
  then have "any_descendant t n ?d1 = Some (\<exists>s\<in>set ?d1. s \<in> set anc)" by (rule any_descendant_ok [OF c])
  moreover have "(\<exists>s\<in>set ?d1. s \<in> set anc) \<longleftrightarrow> (\<exists>s\<in>set anc. depth_of t s = 1)"
    using c mt_ids_set(2) [OF t ord] by (auto simp: chain_def)
  ultimately show ?thesis
    using Some chain_depths [OF c, of 1] depth_of_chain [OF c]
    by (auto simp: isBelowScratchPad_def getNodesAtDepth_ok [OF t ord])
qed

text \<open>No two nodes answer to the same name.\<close>

definition unique_names :: "memory_tree \<Rightarrow> bool" where
  "unique_names t \<longleftrightarrow> (\<forall>n m r. node_matches t r n \<and> node_matches t r m \<longrightarrow> n = m)"

lemma classification:
  assumes t: "tree_ok t" and ord: "iteration_order ord" and u: "unique_names t"
    and r: "resource_to_node t res = Some n"
  shows "(isGlobalMemory ord t res \<longleftrightarrow> depth_of t n = 0) \<and>
    isPerCoreScratchPadMemory ord t res = Some (depth_of t n = 1) \<and>
    isBelowScratchPad ord t res = Some (2 \<le> depth_of t n)"
proof -
  obtain e where e: "mt_getNode t n = Some e" "memory_resource e = res" using tree_ok_resource [OF t r] by blast
  then have n: "has_mem_node t n" "node_matches t res n" by (auto simp: has_mem_node_def node_matches_def)
  have only: "node_matches t res m \<longleftrightarrow> m = n" for m using u n(2) unfolding unique_names_def by blast
  have mem: "n \<in> set (mt_ids ord t)" using n(1) mt_ids_set(2) [OF t ord] by blast
  obtain anc where c: "chain t n (n # anc)" using chain_exists [OF t n(1)] by blast
  have "\<exists>m\<in>set (mt_ids ord t). depth_of t m = 0"
  proof (cases anc)
    case Nil
    then show ?thesis using depth_of_chain [OF c] mem by auto
  next
    case (Cons a as)
    then have "\<exists>s\<in>set anc. depth_of t s = 0" using chain_depths [OF c, of 0] by simp
    then show ?thesis using c mt_ids_set(2) [OF t ord] by (auto simp: chain_def)
  qed
  then have roots: "getRootNodes ord t \<noteq> []" by (auto simp: getRootNodes_ok [OF t ord] filter_empty_conv)
  have "isGlobalMemory ord t res \<longleftrightarrow> depth_of t n = 0"
    using mem by (auto simp: isGlobalMemory_def getRootNodes_ok [OF t ord] only)
  moreover have "isPerCoreScratchPadMemory ord t res = Some (depth_of t n = 1)"
    using roots mem by (auto simp: isPerCoreScratchPadMemory_def getNodesAtDepth_ok [OF t ord] only)
  moreover have "getNodeIdForMemory t res = Some n" using r by (simp add: getNodeIdForMemory_def)
  ultimately show ?thesis using below_scratchpad_depth [OF t ord, of res] by simp
qed

section \<open>The local memory map\<close>

text \<open>A unit kind maps to the memory kinds that every group with the unit contains.\<close>

definition group_units :: "dev_op list \<Rightarrow> resource set" where
  "group_units body = set (List.map_filter exec_kind body)"

definition group_memories :: "dev_op list \<Rightarrow> resource set" where
  "group_memories body = set (List.map_filter mem_kind body)"

lemma add_group_eq:
  "add_group body m k =
    (if k \<in> group_units body then
       Some (case m k of None \<Rightarrow> group_memories body | Some ks \<Rightarrow> ks \<inter> group_memories body)
     else m k)"
proof -
  have "fold (\<lambda>ek m. m(ek := Some (case m ek of None \<Rightarrow> M | Some ks \<Rightarrow> {mk \<in> ks. mk \<in> M}))) eks m k =
      (if k \<in> set eks then Some (case m k of None \<Rightarrow> M | Some ks \<Rightarrow> ks \<inter> M) else m k)" for eks M
    by (induction eks arbitrary: m) (auto split: option.split)
  from this [of "group_memories body" "List.map_filter exec_kind body"] show ?thesis
    unfolding add_group_def Let_def group_units_def group_memories_def .
qed

lemma glm_initialize_spec:
  "glm_initialize body k =
    (let gs = filter (\<lambda>g. k \<in> group_units g) (groups_in body)
     in if gs = [] then None else Some (\<Inter>g\<in>set gs. group_memories g))"
proof -
  have "fold add_group gs m k =
      (let hs = filter (\<lambda>g. k \<in> group_units g) gs in
       case m k of
         None \<Rightarrow> if hs = [] then None else Some (\<Inter>g\<in>set hs. group_memories g)
       | Some ks \<Rightarrow> Some (ks \<inter> (\<Inter>g\<in>set hs. group_memories g)))" for gs m
  proof (induction gs arbitrary: m)
    case (Cons g gs)
    show ?case
      unfolding fold_simps Cons.IH
      by (auto simp: Let_def add_group_eq Int_assoc split: option.split)
  qed (simp split: option.split)
  from this [of "groups_in body" "\<lambda>_. None"] show ?thesis by (simp add: glm_initialize_def)
qed

theorem local_memory_unique:
  "getLocalMemoryKind (glm_initialize body) k = Some mk \<Longrightarrow>
     g \<in> set (groups_in body) \<Longrightarrow> k \<in> group_units g \<Longrightarrow> mk \<in> group_memories g"
  unfolding getLocalMemoryKind_def glm_initialize_spec
  by (auto simp: Let_def card_1_singleton_iff split: if_splits option.splits)

section \<open>Properties\<close>

text \<open>C18: On a device whose memories have a kind and whose values are defined before use, building the
  memory tree returns, in any iteration order of its maps, a well-formed tree.\<close>

theorem mt_initialize_returns_tree:
  assumes "iteration_order ord" and "scoped_region {} body"
  shows "\<exists>t. mt_initialize ord body mapping = Some t \<and> tree_ok t"
  using assms by (rule mt_initialize_sound)

theorem classification_by_depth:
  assumes "tree_ok t" and "iteration_order ord" and "unique_names t" and "resource_to_node t res = Some n"
  shows "(isGlobalMemory ord t res \<longleftrightarrow> depth_of t n = 0) \<and>
    isPerCoreScratchPadMemory ord t res = Some (depth_of t n = 1) \<and>
    isBelowScratchPad ord t res = Some (2 \<le> depth_of t n)"
  using assms by (rule classification)

text \<open>The memories of the small device: L0 below L1 below DDR, which is also called gmem.\<close>

definition memory_entry ::
  "node_id \<Rightarrow> resource \<Rightarrow> resource option \<Rightarrow> node_id option \<Rightarrow> node_id list \<Rightarrow> size_t \<Rightarrow> size_t \<Rightarrow> node_id \<times> memory_node" where
  "memory_entry n r a p cs c rv = (n, \<lparr>mn_id = n, memory_resource = r, mn_alias = a, parent = p, children = cs,
     capacity_in_bytes = Some c, reserved_in_bytes = Some rv\<rparr>)"

definition small_memory :: memory_tree where
  "small_memory = \<lparr>mt_next_node_id = 3,
     mt_nodes = [memory_entry 2 ''L0'' None (Some 1) [] 64 0, memory_entry 1 ''L1'' None (Some 0) [2] 256 16,
       memory_entry 0 ''DDR'' (Some ''gmem'') None [1] 4096 0],
     resource_to_node = [''DDR'' \<mapsto> 0, ''L1'' \<mapsto> 1, ''L0'' \<mapsto> 2], alias_to_node = [''gmem'' \<mapsto> 0]\<rparr>"

lemma small_memory_built: "mt_initialize (\<lambda>xs. xs) small_device (Some [(''gmem'', ''DDR'')]) = Some small_memory"
  by (simp add: mt_initialize_def small_device_def mt_addNode_def empty_memory_tree_def Let_def
      link_parent_def mt_setParent_def mt_getNode_def dm_insert_def populateAliases_def
      small_memory_def memory_entry_def)
    (simp add: eval_nat_numeral)

lemma small_device_scoped: "scoped_region {} small_device"
  by (simp add: small_device_def)

lemma small_memory_ok: "tree_ok small_memory"
  using mt_initialize_sound [OF _ small_device_scoped, of "\<lambda>xs. xs" "Some [(''gmem'', ''DDR'')]"] small_memory_built
  by simp

lemma small_memory_nodes:
  "mt_getNode small_memory n = map_of [memory_entry 2 ''L0'' None (Some 1) [] 64 0, memory_entry 1 ''L1'' None (Some 0) [2] 256 16,
       memory_entry 0 ''DDR'' (Some ''gmem'') None [1] 4096 0] n"
  by (simp add: mt_getNode_def small_memory_def)

lemma small_memory_par: "par small_memory n = (if n = 1 then Some 0 else if n = 2 then Some 1 else None)"
  by (auto simp: par_def small_memory_nodes memory_entry_def)

lemma small_memory_chain:
  "chain small_memory 0 [0]" "chain small_memory 1 [1, 0]" "chain small_memory 2 [2, 1, 0]"
  by (simp_all add: chain_def small_memory_par has_mem_node_def small_memory_nodes memory_entry_def)

lemma small_memory_names: "unique_names small_memory"
  unfolding unique_names_def node_matches_def small_memory_nodes memory_entry_def
  by (auto split: if_splits option.splits)

theorem mt_initialize_returns_tree_witness:
  "\<exists>t. mt_initialize rev small_device None = Some t \<and> tree_ok t"
  by (rule mt_initialize_returns_tree) (simp_all add: small_device_scoped)

theorem classification_by_depth_witness:
  "\<not> isGlobalMemory rev small_memory ''L0'' \<and>
   isPerCoreScratchPadMemory rev small_memory ''L0'' = Some False \<and>
   isBelowScratchPad rev small_memory ''L0'' = Some True"
  using classification_by_depth [OF small_memory_ok _ small_memory_names, of rev "''L0''" 2]
    depth_of_chain [OF small_memory_chain(3)]
  by (simp add: small_memory_def)

theorem getPath_simple_witness:
  "\<exists>p. getPath small_memory 0 2 = Some p \<and> p \<noteq> [] \<and> hd p = 0 \<and> last p = 2 \<and> distinct p \<and>
     successively (tree_link small_memory) p"
  using getPath_simple [OF small_memory_chain(1,3)] by auto

theorem getPath_above_witness:
  "getPath small_memory 2 1 = Some [2, 1, 0, 1]"
  using getPath_above [OF small_memory_chain(3), of 1 0] by (simp add: small_memory_par)

theorem local_memory_unique_witness:
  "''L0'' \<in> group_memories [MemoryOp 5 (Some ''L0'') (Some 64) 0, ExecutionUnitOp 4 (Some ''SFU'') False False, DatapathOp 3 4]"
  by (rule local_memory_unique [of small_device "''SFU''"])
    (simp_all add: small_device_def getLocalMemoryKind_def glm_initialize_spec group_units_def
      group_memories_def List.map_filter_simps Let_def)

end
