(* ===== verification/MemoryTracker.thy ===== *)
theory MemoryTracker
  imports MemoryTree
begin

text \<open>
  The bump allocator of \<open>lib/Analysis/MemoryTracker.cpp\<close>, on 64-bit \<open>size_t\<close> arithmetic. As long as
  address plus size stay below \<open>2^64\<close>, an allocation is aligned, lies between the previous one and
  the capacity, and allocations never overlap; the theorems also show what the unchecked addition
  does beyond that bound.
\<close>

section \<open>The tracker\<close>

record tracker =
  capacities :: "resource \<Rightarrow> size_t option"
  reserved :: "resource \<Rightarrow> size_t option"
  next_address :: "resource \<Rightarrow> size_t option"

text \<open>The constructor: memories with a capacity start at their first unreserved byte.\<close>

definition add_memory :: "memory_node \<Rightarrow> tracker \<Rightarrow> tracker" where
  "add_memory n k =
     (case capacity_in_bytes n of
        None \<Rightarrow> k
      | Some c \<Rightarrow>
          (let r = (case reserved_in_bytes n of None \<Rightarrow> 0 | Some r \<Rightarrow> r)
           in k\<lparr>capacities := (capacities k)(memory_resource n := Some c),
                reserved := (reserved k)(memory_resource n := Some r),
                next_address := (next_address k)(memory_resource n := Some r)\<rparr>))"

definition new_tracker :: "iteration \<Rightarrow> memory_tree \<Rightarrow> tracker" where
  "new_tracker ord t =
     fold (\<lambda>n k. case mt_getNode t n of None \<Rightarrow> k | Some e \<Rightarrow> add_memory e k) (mt_getAllNodeIds ord t)
       \<lparr>capacities = (\<lambda>_. None), reserved = (\<lambda>_. None), next_address = (\<lambda>_. None)\<rparr>"

definition alignAddress :: "size_t \<Rightarrow> size_t \<Rightarrow> size_t" where
  "alignAddress address alignment =
     (if alignment \<le> 1 then address
      else (let remainder = address mod alignment
            in if remainder = 0 then address else address + (alignment - remainder)))"

datatype alloc_error =
    NoCapacityInformation resource
  | ExceedsCapacity size_t size_t size_t size_t

text \<open>The assertion on \<open>next_address_\<close> is the \<open>None\<close> of the result; an error leaves the tracker as it is.\<close>

definition allocate ::
  "resource \<Rightarrow> size_t \<Rightarrow> size_t \<Rightarrow> tracker \<Rightarrow> ((alloc_error + size_t) \<times> tracker) option" where
  "allocate res size_in_bytes alignment k =
     (case next_address k res of
        None \<Rightarrow> None
      | Some current_address \<Rightarrow>
          (let aligned_address = alignAddress current_address alignment;
               new_next_address = aligned_address + size_in_bytes
           in case capacities k res of
                None \<Rightarrow> Some (Inl (NoCapacityInformation res), k)
              | Some capacity \<Rightarrow>
                  (if new_next_address > capacity then
                     Some (Inl (ExceedsCapacity size_in_bytes alignment capacity
                       (current_address - (case reserved k res of None \<Rightarrow> 0 | Some r \<Rightarrow> r))), k)
                   else Some (Inr aligned_address,
                     k\<lparr>next_address := (next_address k)(res := Some new_next_address)\<rparr>))))"

definition getNextAvailableAddress :: "tracker \<Rightarrow> resource \<Rightarrow> size_t option" where
  "getNextAvailableAddress k res = next_address k res"

definition getTotalAllocated :: "tracker \<Rightarrow> resource \<Rightarrow> size_t option" where
  "getTotalAllocated k res =
     do { r \<leftarrow> reserved k res; a \<leftarrow> getNextAvailableAddress k res; Some (a - r) }"

definition reset_one :: "resource \<Rightarrow> tracker \<Rightarrow> tracker" where
  "reset_one res k =
     (case next_address k res of
        None \<Rightarrow> k
      | Some _ \<Rightarrow>
          k\<lparr>next_address := (next_address k)(res :=
              Some (case reserved k res of Some r \<Rightarrow> r | None \<Rightarrow> 0))\<rparr>)"

definition reset :: "resource list \<Rightarrow> tracker \<Rightarrow> tracker" where
  "reset = fold reset_one"

section \<open>Alignment\<close>

lemma div_known: "s < n \<Longrightarrow> (q * n + s) div n = (q :: nat)"
  by simp

text \<open>
  Rounding up to the next multiple, provided the result does not pass \<open>2^64\<close>: a multiple of the
  alignment, at least the address, and less than one alignment above it.
\<close>

lemma alignAddress_spec:
  assumes "unat address + unat alignment < 2 ^ 64"
  shows "unat (alignAddress address alignment) = (if alignment = 0 then unat address
    else (unat address + unat alignment - 1) div unat alignment * unat alignment)"
proof -
  let ?a = "unat address" and ?n = "unat alignment"
  show ?thesis
  proof (cases "alignment \<le> 1")
    case True
    then have "?n \<le> 1" by (simp add: word_le_nat_alt)
    then consider "?n = 0" | "?n = 1" by linarith
    then have "alignment = 0 \<or> alignment = 1" by cases (simp_all add: word_unat_eq_iff)
    then show ?thesis by (auto simp: alignAddress_def)
  next
    case False
    then have n: "1 < ?n" by (simp add: word_le_nat_alt)
    have rem: "unat (address mod alignment) = ?a mod ?n" by (simp add: unat_mod_distrib)
    have "unat (alignAddress address alignment) = (if ?a mod ?n = 0 then ?a else ?a + (?n - ?a mod ?n))"
    proof (cases "?a mod ?n = 0")
      case True
      then have "address mod alignment = 0" using rem by (metis unat_eq_0)
      then show ?thesis using False True by (simp add: alignAddress_def)
    next
      case nz: False
      have le: "address mod alignment \<le> alignment" using rem n by (simp add: word_le_nat_alt less_imp_le)
      have "unat (alignment - address mod alignment) = ?n - ?a mod ?n"
        using le rem by (simp add: unat_sub)
      moreover have "?a + (?n - ?a mod ?n) < 2 ^ 64" using assms by linarith
      ultimately have "unat (address + (alignment - address mod alignment)) = ?a + (?n - ?a mod ?n)"
        by (simp add: unat_word_ariths)
      moreover have "address mod alignment \<noteq> 0" using nz rem by (metis unat_0)
      ultimately show ?thesis using False nz by (simp add: alignAddress_def)
    qed
    also have "\<dots> = (?a + ?n - 1) div ?n * ?n"
    proof -
      obtain q r where qr: "?a = q * ?n + r" "r < ?n" using n by (metis div_mult_mod_eq mod_less_divisor order_less_trans zero_less_one)
      have "?a mod ?n = r" using qr by simp
      moreover have "(?a + ?n - 1) div ?n = (if r = 0 then q else Suc q)"
      proof (cases "r = 0")
        case True
        then have "?a + ?n - 1 = q * ?n + (?n - 1)" using qr n by simp
        moreover have "(q * ?n + (?n - 1)) div ?n = q" by (rule div_known) (use n in simp)
        ultimately show ?thesis using True by metis
      next
        case False
        then have e: "?a + ?n - 1 = Suc q * ?n + (r - 1)" using qr n by simp
        have "r - 1 < ?n" using qr(2) by simp
        then have "(Suc q * ?n + (r - 1)) div ?n = Suc q" by (rule div_known)
        with e show ?thesis using False by metis
      qed
      ultimately show ?thesis using qr by (cases "r = 0") simp_all
    qed
    finally show ?thesis using n by auto
  qed
qed

lemma round_up:
  assumes "0 < (n :: nat)"
  shows "n dvd (a + n - 1) div n * n" and "a \<le> (a + n - 1) div n * n" and "(a + n - 1) div n * n < a + n"
    and "n dvd b \<Longrightarrow> a \<le> b \<Longrightarrow> (a + n - 1) div n * n \<le> b"
proof -
  let ?m = "(a + n - 1) div n * n"
  have s: "?m + (a + n - 1) mod n = a + n - 1" "(a + n - 1) mod n < n" using assms by simp_all
  show "n dvd ?m" by simp
  show "a \<le> ?m" using s by linarith
  show "?m < a + n" using s assms by linarith
  show "?m \<le> b" if b: "n dvd b" "a \<le> b"
  proof -
    obtain k where k: "b = n * k" using b(1) by (rule dvdE)
    have "a + n - 1 < n * Suc k" using b(2) k assms by simp
    then have "(a + n - 1) div n < Suc k" by (simp add: div_less_iff_less_mult assms mult.commute)
    then show ?thesis using k by (simp add: mult.commute)
  qed
qed

section \<open>One allocation\<close>

text \<open>What the constructor and every operation keep, for the resources the tracker knows.\<close>

definition tracker_ok :: "tracker \<Rightarrow> bool" where
  "tracker_ok k \<longleftrightarrow> dom (capacities k) = dom (next_address k) \<and> dom (reserved k) = dom (next_address k) \<and>
     (\<forall>res a r. next_address k res = Some a \<longrightarrow> reserved k res = Some r \<longrightarrow> r \<le> a)"

lemma new_tracker_ok: "tracker_ok (new_tracker ord t)"
proof -
  have "tracker_ok (fold (\<lambda>n k. case mt_getNode t n of None \<Rightarrow> k | Some e \<Rightarrow> add_memory e k) ns k)"
    if "tracker_ok k" for ns k
    using that
  proof (induction ns arbitrary: k)
    case (Cons n ns)
    have "tracker_ok (add_memory e k)" for e
      using Cons.prems by (auto simp: tracker_ok_def add_memory_def Let_def split: option.split)
    then show ?case using Cons by (cases "mt_getNode t n") simp_all
  qed simp
  moreover have "tracker_ok \<lparr>capacities = (\<lambda>_. None), reserved = (\<lambda>_. None), next_address = (\<lambda>_. None)\<rparr>"
    by (simp add: tracker_ok_def)
  ultimately show ?thesis unfolding new_tracker_def by blast
qed

lemma tracker_known:
  assumes "tracker_ok k"
  shows "reserved k r = None \<longleftrightarrow> next_address k r = None" and "capacities k r = None \<longleftrightarrow> next_address k r = None"
  using assms unfolding tracker_ok_def by (metis domIff)+

lemma reset_keeps:
  assumes "tracker_ok k"
  shows "tracker_ok (reset rs k)" and "capacities (reset rs k) = capacities k" and "reserved (reset rs k) = reserved k"
    and "next_address (reset rs k) res = (if res \<in> set rs then reserved k res else next_address k res)"
proof -
  have one: "tracker_ok (reset_one r k) \<and> capacities (reset_one r k) = capacities k \<and>
      reserved (reset_one r k) = reserved k \<and>
      next_address (reset_one r k) = (next_address k)(r := reserved k r)" if k: "tracker_ok k" for r k
  proof (cases "next_address k r")
    case None
    then have "reserved k r = None" using tracker_known [OF k] by simp
    then show ?thesis using None k by (simp add: reset_one_def fun_upd_idem)
  next
    case (Some a)
    then obtain b where "reserved k r = Some b" using tracker_known [OF k, of r] by auto
    then show ?thesis using Some k by (auto simp: reset_one_def tracker_ok_def)
  qed
  have "tracker_ok (reset rs k) \<and> capacities (reset rs k) = capacities k \<and> reserved (reset rs k) = reserved k \<and>
      next_address (reset rs k) res = (if res \<in> set rs then reserved k res else next_address k res)"
    using assms unfolding reset_def
  proof (induction rs arbitrary: k)
    case (Cons r rs)
    from Cons.IH [of "reset_one r k"] one [OF Cons.prems, of r] show ?case by auto
  qed simp
  then show "tracker_ok (reset rs k)" "capacities (reset rs k) = capacities k" "reserved (reset rs k) = reserved k"
    "next_address (reset rs k) res = (if res \<in> set rs then reserved k res else next_address k res)" by auto
qed

text \<open>No wrap: the address, the alignment and the size together stay below \<open>2^64\<close>.\<close>

definition no_wrap :: "size_t \<Rightarrow> size_t \<Rightarrow> size_t \<Rightarrow> bool" where
  "no_wrap a size_in_bytes alignment \<longleftrightarrow> unat a + unat alignment + unat size_in_bytes < 2 ^ 64"

lemma allocate_outcome:
  assumes a: "next_address k res = Some a" and c: "capacities k res = Some cap"
    and w: "no_wrap a sz al" and al: "al \<noteq> 0"
  defines "start \<equiv> (unat a + unat al - 1) div unat al * unat al"
  shows "unat (alignAddress a al) = start"
    and "allocate res sz al k =
      (if unat cap < start + unat sz
       then Some (Inl (ExceedsCapacity sz al cap (a - (case reserved k res of None \<Rightarrow> 0 | Some r \<Rightarrow> r))), k)
       else Some (Inr (alignAddress a al),
         k\<lparr>next_address := (next_address k)(res := Some (alignAddress a al + sz))\<rparr>))"
    and "unat (alignAddress a al + sz) = start + unat sz"
proof -
  have n: "0 < unat al" using al by (simp add: unat_gt_0)
  show s: "unat (alignAddress a al) = start"
    using alignAddress_spec [of a al] w al by (simp add: start_def no_wrap_def)
  have "start < unat a + unat al" using round_up(3) [OF n] by (simp add: start_def)
  then have "unat (alignAddress a al) + unat sz < 2 ^ 64" using w s by (simp add: no_wrap_def)
  then show sum: "unat (alignAddress a al + sz) = start + unat sz" using s by (simp add: unat_word_ariths)
  then have "alignAddress a al + sz > cap \<longleftrightarrow> unat cap < start + unat sz" by (simp add: word_less_nat_alt)
  then show "allocate res sz al k =
      (if unat cap < start + unat sz
       then Some (Inl (ExceedsCapacity sz al cap (a - (case reserved k res of None \<Rightarrow> 0 | Some r \<Rightarrow> r))), k)
       else Some (Inr (alignAddress a al),
         k\<lparr>next_address := (next_address k)(res := Some (alignAddress a al + sz))\<rparr>))"
    using a c by (simp add: allocate_def Let_def)
qed

text \<open>A successful allocation takes fresh bytes below the capacity, as low as the alignment allows.\<close>

lemma allocate_success:
  assumes k: "tracker_ok k" and r: "allocate res sz al k = Some (Inr addr, k')"
    and w: "\<And>a. next_address k res = Some a \<Longrightarrow> no_wrap a sz al" and al: "al \<noteq> 0"
  shows "\<exists>a cap a'. next_address k res = Some a \<and> capacities k res = Some cap \<and>
    unat al dvd unat addr \<and> unat a \<le> unat addr \<and> unat addr + unat sz \<le> unat cap \<and>
    (\<forall>b. unat al dvd b \<and> unat a \<le> b \<longrightarrow> unat addr \<le> b) \<and>
    k' = k\<lparr>next_address := (next_address k)(res := Some a')\<rparr> \<and> unat a' = unat addr + unat sz \<and> tracker_ok k'"
proof -
  obtain a where a: "next_address k res = Some a" using r by (auto simp: allocate_def split: option.splits)
  obtain cap where c: "capacities k res = Some cap" using r a by (auto simp: allocate_def Let_def split: option.splits)
  note O = allocate_outcome [OF a c w [OF a] al]
  have n: "0 < unat al" using al by (simp add: unat_gt_0)
  have e: "addr = alignAddress a al" "k' = k\<lparr>next_address := (next_address k)(res := Some (alignAddress a al + sz))\<rparr>"
    "unat (alignAddress a al) + unat sz \<le> unat cap"
    using r O by (auto split: if_splits)
  note R = round_up [OF n, where a = "unat a"]
  have ge: "a \<le> alignAddress a al + sz" using O(1,3) R(2) by (simp add: word_le_nat_alt)
  have "tracker_ok k'"
    using k a e(2) ge unfolding tracker_ok_def by (auto split: if_splits) (meson order_trans)+
  moreover have "unat al dvd unat addr" "unat a \<le> unat addr" "unat addr + unat sz \<le> unat cap"
    "\<forall>b. unat al dvd b \<and> unat a \<le> b \<longrightarrow> unat addr \<le> b"
    "unat (alignAddress a al + sz) = unat addr + unat sz"
    using e(1,3) O(1,3) R by simp_all
  ultimately show ?thesis using a c e(2) by blast
qed

section \<open>Properties\<close>

theorem alignAddress_rounds_up:
  assumes "unat address + unat alignment < 2 ^ 64"
  shows "unat (alignAddress address alignment) = (if alignment = 0 then unat address
    else (unat address + unat alignment - 1) div unat alignment * unat alignment)"
  using assms by (rule alignAddress_spec)

text \<open>C22: Without wrap-around a successful allocation is aligned, starts at the lowest aligned address
  that is free, ends below the capacity, and moves the next address to its end.\<close>

theorem allocate_fresh_bytes:
  assumes "tracker_ok k" and "allocate res sz al k = Some (Inr addr, k')"
    and "\<And>a. next_address k res = Some a \<Longrightarrow> no_wrap a sz al" and "al \<noteq> 0"
  shows "\<exists>a cap a'. next_address k res = Some a \<and> capacities k res = Some cap \<and>
    unat al dvd unat addr \<and> unat a \<le> unat addr \<and> unat addr + unat sz \<le> unat cap \<and>
    (\<forall>b. unat al dvd b \<and> unat a \<le> b \<longrightarrow> unat addr \<le> b) \<and>
    k' = k\<lparr>next_address := (next_address k)(res := Some a')\<rparr> \<and> unat a' = unat addr + unat sz \<and> tracker_ok k'"
  using assms by (rule allocate_success)

text \<open>
  Beyond the bound the unchecked addition wraps, and a request larger than the memory is granted.
\<close>

theorem allocate_wraps:
  assumes "next_address k res = Some a" and "capacities k res = Some cap"
    and "2 ^ 64 \<le> unat a + unat sz" and "unat a + unat sz - 2 ^ 64 \<le> unat cap"
  shows "\<exists>b. allocate res sz 1 k = Some (Inr a, k\<lparr>next_address := (next_address k)(res := Some b)\<rparr>) \<and>
    unat b = unat a + unat sz - 2 ^ 64 \<and> b < a"
proof -
  have sz: "unat w < 2 ^ 64" for w :: size_t by (rule order.strict_trans2 [OF unsigned_less]) simp
  have "unat (a + sz) = (unat a + unat sz) mod 2 ^ 64" by (simp add: unat_word_ariths)
  also have "\<dots> = unat a + unat sz - 2 ^ 64" using assms(3) sz [of sz] sz [of a] by (simp add: le_mod_geq)
  finally have b: "unat (a + sz) = unat a + unat sz - 2 ^ 64" .
  then have "\<not> a + sz > cap" "a + sz < a" using assms(3,4) sz [of sz] by (simp_all add: word_less_nat_alt)
  then show ?thesis using assms(1,2) b by (intro exI [of _ "a + sz"]) (simp add: allocate_def alignAddress_def Let_def)
qed

text \<open>The tracker of the small device.\<close>

definition small_track :: tracker where
  "small_track = new_tracker (\<lambda>xs. xs) small_memory"

lemma small_memory_ids: "mt_ids (\<lambda>xs. xs) small_memory = [2, 1, 0]"
  by (simp add: mt_ids_def small_memory_def memory_entry_def)

lemma small_track_fields:
  "next_address small_track ''L1'' = Some 16" "capacities small_track ''L1'' = Some 256"
  "reserved small_track ''L1'' = Some 16"
  "next_address small_track ''DDR'' = Some 0" "capacities small_track ''DDR'' = Some 4096"
  by (simp_all add: small_track_def new_tracker_def mt_getAllNodeIds_def small_memory_ids small_memory_nodes
      memory_entry_def add_memory_def)

theorem alignAddress_rounds_up_witness: "unat (alignAddress 20 16) = 32"
  using alignAddress_rounds_up [of 20 16] by simp

theorem allocate_fresh_bytes_witness:
  "\<exists>k' a'. allocate ''L1'' 40 32 small_track = Some (Inr 32, k') \<and> next_address k' ''L1'' = Some a' \<and> unat a' = 72"
proof -
  have "\<exists>k'. allocate ''L1'' 40 32 small_track = Some (Inr 32, k')"
    by (simp add: allocate_def small_track_fields alignAddress_def Let_def word_le_nat_alt)
  then obtain k' where k': "allocate ''L1'' 40 32 small_track = Some (Inr 32, k')" by blast
  have "no_wrap a 40 32" if "next_address small_track ''L1'' = Some a" for a
    using that by (simp add: small_track_fields no_wrap_def)
  from allocate_fresh_bytes [OF new_tracker_ok [of "\<lambda>xs. xs" small_memory, folded small_track_def] k' this]
  show ?thesis using k' by auto
qed

theorem allocate_wraps_witness:
  "\<exists>k'. allocate ''L1'' (- 8) 1 small_track = Some (Inr 16, k') \<and> next_address k' ''L1'' = Some 8"
proof -
  have "unat (- 8 :: size_t) = 2 ^ 64 - 8" by simp
  with allocate_wraps [of small_track "''L1''" 16 256 "- 8"] show ?thesis
    by (auto simp: small_track_fields word_unat_eq_iff)
qed

end
