(* ===== verification/AddressAssignment.thy ===== *)
theory AddressAssignment
  imports MemoryTracker
begin

text \<open>
  The pass of \<open>lib/Transforms/AddressAssignment.cpp\<close>: the size of an allocation from its shape and
  layout with checked 64-bit arithmetic, the alignment to whole elements, and the loop over the
  programs of a module that resets the memories a program has to itself. The main result is the
  memory safety of the layout: allocations granted in one program, and in global memory over all
  programs, never overlap and stay between the reserved bytes and the capacity.
\<close>

section \<open>Allocations\<close>

text \<open>
  An allocation with what the pass reads from it: the dimensions (\<open>None\<close> for a dynamic one), the
  constant bounds that the value-bounds analysis finds for the dynamic sizes, the layout's strides
  and offset, the element size, the alignment attribute and the memory space.
\<close>

record alloc_op =
  alloc_id :: nat
  shape :: "int option list"
  dynamic_bounds :: "int option list"
  strides_and_offset :: "int list \<Rightarrow> (int list \<times> int) option"
  element_size :: "size_t option"
  align_attr :: "size_t option"
  memory_space :: "attribute option"

text \<open>
  The outer option is undefined behaviour (an operand list that is too short), the inner one is
  \<open>FailureOr\<close>.
\<close>

fun getUpperBound :: "int option list \<Rightarrow> int option list \<Rightarrow> int list option option" where
  "getUpperBound [] dynamic_sizes = Some (Some [])"
| "getUpperBound (Some dim # dims) dynamic_sizes =
     map_option (map_option (Cons dim)) (getUpperBound dims dynamic_sizes)"
| "getUpperBound (None # dims) [] = None"
| "getUpperBound (None # dims) (None # sizes) = Some None"
| "getUpperBound (None # dims) (Some b # sizes) =
     map_option (map_option (Cons b)) (getUpperBound dims sizes)"

definition getUpperShapeBound :: "alloc_op \<Rightarrow> int list option option" where
  "getUpperShapeBound a =
     (if list_all (\<lambda>d. d \<noteq> None) (shape a) then Some (Some (map the (shape a)))
      else getUpperBound (shape a) (dynamic_bounds a))"

text \<open>\<open>__builtin_mul_overflow\<close> and \<open>__builtin_add_overflow\<close> into a \<open>size_t\<close>: exact, or an overflow.\<close>

definition fit_size :: "int \<Rightarrow> size_t option" where
  "fit_size i = (if 0 \<le> i \<and> i < 2 ^ 64 then Some (word_of_int i) else None)"

fun add_extents :: "(int \<times> int) list \<Rightarrow> size_t \<Rightarrow> size_t option" where
  "add_extents [] result = Some result"
| "add_extents ((sz, stride) # rest) result =
     (case fit_size ((sz - 1) * stride) of
        None \<Rightarrow> None
      | Some temp \<Rightarrow>
          (case fit_size (uint result + uint temp) of
             None \<Rightarrow> None
           | Some r \<Rightarrow> add_extents rest r))"

definition getUpperOffsetBound :: "alloc_op \<Rightarrow> size_t option option" where
  "getUpperOffsetBound a =
     do { maybe_shape \<leftarrow> getUpperShapeBound a;
          (case maybe_shape of
             None \<Rightarrow> Some None
           | Some sh \<Rightarrow>
               (case strides_and_offset a sh of
                  None \<Rightarrow> Some None
                | Some (strides, offset) \<Rightarrow>
                    (if offset < 0 \<or> list_ex (\<lambda>s. s < 0) strides then Some None
                     else if length sh \<noteq> length strides then None
                     else Some (add_extents (zip sh strides) (word_of_int offset))))) }"

text \<open>The addition of one wraps; the product is checked.\<close>

definition getSize :: "alloc_op \<Rightarrow> size_t option option" where
  "getSize a =
     do { maybe_offset \<leftarrow> getUpperOffsetBound a;
          Some (case (maybe_offset, element_size a) of
                  (Some off, Some sz) \<Rightarrow> fit_size (uint (off + 1) * uint sz)
                | _ \<Rightarrow> None) }"

section \<open>The module and its programs\<close>

datatype ir = AllocIR alloc_op | ModuleIR "ir list" | OtherIR "ir list"

text \<open>The walk stops at a nested module; an allocation without a memory space is skipped.\<close>

fun collect :: "ir \<Rightarrow> alloc_op list" where
  "collect (AllocIR a) = (if memory_space a \<noteq> None then [a] else [])"
| "collect (ModuleIR body) = []"
| "collect (OtherIR body) = concat (map collect body)"

definition collectAllocations :: "ir list \<Rightarrow> alloc_op list" where
  "collectAllocations body = concat (map collect body)"

fun has_space :: "ir \<Rightarrow> bool" where
  "has_space (AllocIR a) = (memory_space a \<noteq> None)"
| "has_space (ModuleIR body) = list_ex has_space body"
| "has_space (OtherIR body) = list_ex has_space body"

fun module_body :: "ir \<Rightarrow> ir list option" where
  "module_body (ModuleIR body) = Some body"
| "module_body _ = None"

definition scopes_of :: "ir list \<Rightarrow> ir list list" where
  "scopes_of body = body # List.map_filter module_body body"

text \<open>What an allocation was given: its memory, first byte, size in bytes, and address in elements.\<close>

record grant =
  g_alloc :: nat
  g_memory :: resource
  g_start :: size_t
  g_size :: size_t
  g_address :: size_t

definition lcm_word :: "size_t \<Rightarrow> size_t \<Rightarrow> size_t" where
  "lcm_word x y = of_nat (lcm (unat x) (unat y))"

definition alignment_of :: "alloc_op \<Rightarrow> size_t \<Rightarrow> size_t" where
  "alignment_of a element_bytes = lcm_word (case align_attr a of None \<Rightarrow> 1 | Some n \<Rightarrow> n) element_bytes"

text \<open>
  \<open>None\<close> is a failed assertion or cast, or a division by an element size of zero; the inner
  \<open>None\<close> is a failure with an error on the allocation.
\<close>

definition processAllocation :: "alloc_op \<Rightarrow> tracker \<Rightarrow> (grant option \<times> tracker) option" where
  "processAllocation a k =
     do { maybe_size \<leftarrow> getSize a;
          (case maybe_size of
             None \<Rightarrow> Some (None, k)
           | Some sz \<Rightarrow>
               do { space \<leftarrow> Option.bind (memory_space a) as_kind;
                    element_bytes \<leftarrow> element_size a;
                    (r, k1) \<leftarrow> allocate space sz (alignment_of a element_bytes) k;
                    (case r of
                       Inl _ \<Rightarrow> Some (None, k1)
                     | Inr address \<Rightarrow>
                         (if element_bytes = 0 \<or> address mod element_bytes \<noteq> 0 then None
                          else Some (Some \<lparr>g_alloc = alloc_id a, g_memory = space, g_start = address,
                            g_size = sz, g_address = address div element_bytes\<rparr>, k1))) }) }"

text \<open>The loop over the allocations of a scope: the grants, and how many failed.\<close>

fun process_all :: "alloc_op list \<Rightarrow> tracker \<Rightarrow> (grant list \<times> nat \<times> tracker) option" where
  "process_all [] k = Some ([], 0, k)"
| "process_all (a # as) k =
     do { (g, k1) \<leftarrow> processAllocation a k;
          (gs, failed, k2) \<leftarrow> process_all as k1;
          Some (case g of None \<Rightarrow> (gs, Suc failed, k2) | Some x \<Rightarrow> (x # gs, failed, k2)) }"

text \<open>The memories of the scope that are not global; the cast asserts that a memory space is a resource.\<close>

definition reusable :: "(resource \<Rightarrow> bool) \<Rightarrow> alloc_op list \<Rightarrow> resource list option" where
  "reusable is_global allocs =
     map_option (\<lambda>spaces. remdups (filter (\<lambda>s. \<not> is_global s) spaces))
       (those (map (\<lambda>a. Option.bind (memory_space a) as_kind) allocs))"

definition run_scope :: "(resource \<Rightarrow> bool) \<Rightarrow> ir list \<Rightarrow> tracker \<Rightarrow> (grant list \<times> nat \<times> tracker) option" where
  "run_scope is_global body k =
     do { rs \<leftarrow> reusable is_global (collectAllocations body);
          process_all (collectAllocations body) (reset rs k) }"

fun run_scopes :: "(resource \<Rightarrow> bool) \<Rightarrow> ir list list \<Rightarrow> tracker \<Rightarrow> (grant list list \<times> nat \<times> tracker) option" where
  "run_scopes is_global [] k = Some ([], 0, k)"
| "run_scopes is_global (b # bs) k =
     do { (gs, failed, k1) \<leftarrow> run_scope is_global b k;
          (gss, failed', k2) \<leftarrow> run_scopes is_global bs k1;
          Some (gs # gss, failed + failed', k2) }"

text \<open>The pass: the grants per scope, whether it succeeds, the tracker it leaves.\<close>

definition runOnOperation ::
  "bool \<Rightarrow> (resource \<Rightarrow> bool) \<Rightarrow> ir list \<Rightarrow> tracker \<Rightarrow> (grant list list \<times> bool \<times> tracker) option" where
  "runOnOperation disabled is_global body k =
     (if disabled \<or> \<not> list_ex has_space body then Some ([], True, k)
      else do { (gss, num_failed, k1) \<leftarrow> run_scopes is_global (scopes_of body) k;
                Some (gss, num_failed = 0, k1) })"

section \<open>Sizes\<close>

lemma uint_word_of_int_fit: "0 \<le> i \<Longrightarrow> i < 2 ^ 64 \<Longrightarrow> uint (word_of_int i :: size_t) = i"
  by (simp add: uint_word_of_int take_bit_eq_mod)

lemma fit_size_uint: "fit_size i = Some w \<longleftrightarrow> 0 \<le> i \<and> i < 2 ^ 64 \<and> uint w = i"
  by (auto simp: fit_size_def uint_word_of_int_fit)

lemma add_extents_exact:
  "add_extents es r = Some w \<Longrightarrow> uint w = uint r + (\<Sum>(sz, stride)\<leftarrow>es. (sz - 1) * stride) \<and>
     (\<forall>(sz, stride)\<in>set es. 0 \<le> (sz - 1) * stride)"
proof (induction es arbitrary: r)
  case (Cons e es)
  obtain sz stride where e: "e = (sz, stride)" by (cases e)
  from Cons.prems obtain t q where t: "fit_size ((sz - 1) * stride) = Some t" "fit_size (uint r + uint t) = Some q"
    "add_extents es q = Some w"
    by (auto simp: e split: option.splits)
  with Cons.IH [OF t(3)] show ?case by (simp add: e fit_size_uint)
qed simp

text \<open>The size is exact: the bytes up to the end of the element with the largest offset.\<close>

theorem getSize_exact:
  assumes "getUpperShapeBound a = Some (Some sh)" and "strides_and_offset a sh = Some (strides, offset)"
    and "0 \<le> offset" "offset < 2 ^ 63" and "element_size a = Some sz" and "getSize a = Some (Some bytes)"
    and "(\<Sum>(d, st)\<leftarrow>zip sh strides. (d - 1) * st) + offset + 1 < 2 ^ 64"
  shows "uint bytes = (offset + (\<Sum>(d, st)\<leftarrow>zip sh strides. (d - 1) * st) + 1) * uint sz"
proof -
  obtain off where off: "add_extents (zip sh strides) (word_of_int offset) = Some off"
    "fit_size (uint (off + 1) * uint sz) = Some bytes"
    using assms(1-6) by (auto simp: getSize_def getUpperOffsetBound_def split: if_splits option.splits)
  have "uint (word_of_int offset :: size_t) = offset" using assms(3,4) by (simp add: uint_word_of_int_fit)
  then have o: "uint off = offset + (\<Sum>(d, st)\<leftarrow>zip sh strides. (d - 1) * st)"
    using add_extents_exact [OF off(1)] by simp
  have "uint (off + 1) = uint off + 1"
    using assms(7) o uint_ge_0 [of off] by (simp add: uint_word_ariths)
  then show ?thesis using off(2) o by (simp add: fit_size_uint)
qed

section \<open>The layout\<close>

text \<open>Bounds under which no address computation wraps.\<close>

definition small_alloc :: "alloc_op \<Rightarrow> bool" where
  "small_alloc a \<longleftrightarrow> (case getSize a of Some (Some sz) \<Rightarrow> unat sz < 2 ^ 62 | _ \<Rightarrow> True) \<and>
     (case element_size a of
        None \<Rightarrow> True
      | Some eb \<Rightarrow> 0 < eb \<and> align_attr a \<noteq> Some 0 \<and>
          lcm (unat (case align_attr a of None \<Rightarrow> 1 | Some n \<Rightarrow> n)) (unat eb) < 2 ^ 62)"

definition small_tracker :: "tracker \<Rightarrow> bool" where
  "small_tracker k \<longleftrightarrow> tracker_ok k \<and>
     (\<forall>res a. next_address k res = Some a \<longrightarrow> unat a < 2 ^ 62) \<and>
     (\<forall>res c. capacities k res = Some c \<longrightarrow> unat c < 2 ^ 62)"

definition nx :: "tracker \<Rightarrow> resource \<Rightarrow> nat" where
  "nx k res = unat (the (next_address k res))"

definition grant_end :: "grant \<Rightarrow> nat" where
  "grant_end g = unat (g_start g) + unat (g_size g)"

text \<open>Two grants in one memory: the first ends before the second starts.\<close>

definition before :: "grant \<Rightarrow> grant \<Rightarrow> bool" where
  "before g h \<longleftrightarrow> (g_memory g = g_memory h \<longrightarrow> grant_end g \<le> unat (g_start h))"

definition inside :: "tracker \<Rightarrow> grant \<Rightarrow> bool" where
  "inside k g \<longleftrightarrow> (\<exists>r c. reserved k (g_memory g) = Some r \<and> capacities k (g_memory g) = Some c \<and>
     unat r \<le> unat (g_start g) \<and> grant_end g \<le> unat c)"

lemma alignment_props:
  assumes "small_alloc a" and "element_size a = Some eb"
  defines "al \<equiv> alignment_of a eb"
  shows "al \<noteq> 0" and "unat al < 2 ^ 62" and "unat eb dvd unat al" and "0 < unat eb"
    and "\<And>n. align_attr a = Some n \<Longrightarrow> unat n dvd unat al"
proof -
  let ?n = "case align_attr a of None \<Rightarrow> 1 | Some n \<Rightarrow> n"
  have l: "lcm (unat ?n) (unat eb) < 2 ^ 62" and eb: "0 < eb" and n0: "?n \<noteq> 0"
    using assms(1,2) by (auto simp: small_alloc_def split: option.splits)
  have u: "unat al = lcm (unat ?n) (unat eb)"
    unfolding al_def alignment_of_def lcm_word_def using l by (simp add: unat_of_nat take_bit_eq_mod)
  show e: "0 < unat eb" using eb by (simp add: unat_gt_0)
  have "unat ?n \<noteq> 0" using n0 by (simp add: unat_eq_0)
  then have "unat al \<noteq> 0" unfolding u using e by (simp add: lcm_eq_0_iff)
  then show "al \<noteq> 0" by auto
  show "unat al < 2 ^ 62" unfolding u by (rule l)
  show "unat eb dvd unat al" unfolding u by simp
  show "unat n dvd unat al" if "align_attr a = Some n" for n unfolding u using that by simp
qed

lemma processAllocation_step:
  assumes k: "small_tracker k" and a: "small_alloc a" and r: "processAllocation a k = Some (g, k')"
  shows "small_tracker k'" and "capacities k' = capacities k" and "reserved k' = reserved k"
    and "\<And>res. nx k res \<le> nx k' res"
    and "\<And>x. g = Some x \<Longrightarrow> nx k (g_memory x) \<le> unat (g_start x) \<and> grant_end x \<le> nx k' (g_memory x) \<and> inside k x"
proof -
  have "small_tracker k' \<and> capacities k' = capacities k \<and> reserved k' = reserved k \<and>
    (\<forall>res. nx k res \<le> nx k' res) \<and> (\<forall>x. g = Some x \<longrightarrow> nx k (g_memory x) \<le> unat (g_start x) \<and>
       grant_end x \<le> nx k' (g_memory x) \<and> inside k x)"
  proof (cases "g = None")
    case True
    then have "k' = k"
      using r by (auto simp: processAllocation_def allocate_def Let_def split: option.splits Option.bind_splits sum.splits if_splits)
    then show ?thesis using True k by simp
  next
    case False
    then obtain x where x: "g = Some x" by blast
    obtain sz space eb where s: "getSize a = Some (Some sz)" "element_size a = Some eb"
      "allocate space sz (alignment_of a eb) k = Some (Inr (g_start x), k')"
      "g_memory x = space" "g_size x = sz"
      using r x by (auto simp: processAllocation_def split: option.splits Option.bind_splits sum.splits if_splits)
    have al: "alignment_of a eb \<noteq> 0" "unat (alignment_of a eb) < 2 ^ 62" using alignment_props [OF a s(2)] by auto
    have "unat sz < 2 ^ 62" using a s(1) by (simp add: small_alloc_def)
    then have w: "no_wrap b sz (alignment_of a eb)" if "next_address k space = Some b" for b
      using that k al(2) unfolding no_wrap_def small_tracker_def by fastforce
    have "tracker_ok k" using k by (simp add: small_tracker_def)
    from allocate_success [OF this s(3) w al(1)] obtain b cap b' where
      b: "next_address k space = Some b" "capacities k space = Some cap" "unat b \<le> unat (g_start x)"
        "unat (g_start x) + unat sz \<le> unat cap" "k' = k\<lparr>next_address := (next_address k)(space := Some b')\<rparr>"
        "unat b' = unat (g_start x) + unat sz" "tracker_ok k'"
      by auto
    obtain rv where rv: "reserved k space = Some rv" using tracker_known [OF \<open>tracker_ok k\<close>, of space] b(1) by auto
    then have "unat rv \<le> unat b" using \<open>tracker_ok k\<close> b(1) by (simp add: tracker_ok_def word_le_nat_alt)
    then have ins: "inside k x" using rv b s(4,5) by (auto simp: inside_def grant_end_def)
    have capk: "unat cap < 2 ^ 62" using k b(2) unfolding small_tracker_def by blast
    then have "small_tracker k'"
      using k b(4,5,6,7) unfolding small_tracker_def by (auto split: if_splits)
    moreover have "nx k res \<le> nx k' res" for res
      using b(1,3,5,6) by (simp add: nx_def)
    ultimately show ?thesis using x b s(4,5) ins by (simp add: nx_def grant_end_def)
  qed
  then show "small_tracker k'" "capacities k' = capacities k" "reserved k' = reserved k"
    "\<And>res. nx k res \<le> nx k' res"
    "\<And>x. g = Some x \<Longrightarrow> nx k (g_memory x) \<le> unat (g_start x) \<and> grant_end x \<le> nx k' (g_memory x) \<and> inside k x"
    by auto
qed

lemma inside_cong: "capacities k' = capacities k \<Longrightarrow> reserved k' = reserved k \<Longrightarrow> inside k' = inside k"
  by (simp add: inside_def fun_eq_iff)

lemma process_all_layout:
  assumes "small_tracker k" and "\<forall>a\<in>set as. small_alloc a" and "process_all as k = Some (gs, n, k')"
  shows "small_tracker k' \<and> capacities k' = capacities k \<and> reserved k' = reserved k \<and>
    (\<forall>res. nx k res \<le> nx k' res) \<and> sorted_wrt before gs \<and>
    (\<forall>g\<in>set gs. nx k (g_memory g) \<le> unat (g_start g) \<and> grant_end g \<le> nx k' (g_memory g) \<and> inside k g)"
  using assms
proof (induction as arbitrary: k gs n)
  case (Cons a as)
  obtain g k1 gs1 n1 where g: "processAllocation a k = Some (g, k1)" "process_all as k1 = Some (gs1, n1, k')"
    "gs = (case g of None \<Rightarrow> gs1 | Some x \<Rightarrow> x # gs1)"
    using Cons.prems(3) by (auto split: Option.bind_splits option.splits)
  have a: "small_alloc a" using Cons.prems(2) by simp
  note S = processAllocation_step [OF Cons.prems(1) a g(1)]
  have IH: "small_tracker k' \<and> capacities k' = capacities k1 \<and> reserved k' = reserved k1 \<and>
    (\<forall>res. nx k1 res \<le> nx k' res) \<and> sorted_wrt before gs1 \<and>
    (\<forall>g\<in>set gs1. nx k1 (g_memory g) \<le> unat (g_start g) \<and> grant_end g \<le> nx k' (g_memory g) \<and> inside k1 g)"
    using Cons.IH [OF S(1) _ g(2)] Cons.prems(2) by simp
  have mono: "nx k res \<le> nx k' res" for res using S(4) [of res] IH order_trans by blast
  have rest: "nx k (g_memory h) \<le> unat (g_start h) \<and> grant_end h \<le> nx k' (g_memory h) \<and> inside k h"
    if "h \<in> set gs1" for h
    using IH that S(4) [of "g_memory h"] inside_cong [OF S(2,3)] by (metis order_trans)
  show ?case
  proof (cases g)
    case None
    then show ?thesis using g(3) IH S(2,3) mono rest by simp
  next
    case (Some x)
    have x: "nx k (g_memory x) \<le> unat (g_start x)" "grant_end x \<le> nx k1 (g_memory x)" "inside k x"
      using S(5) [OF Some] by auto
    have "before x h" if "h \<in> set gs1" for h
      using IH that x(2) unfolding before_def by (metis order_trans)
    moreover have "grant_end x \<le> nx k' (g_memory x)" using x(2) IH order_trans by blast
    ultimately show ?thesis using Some g(3) IH S(2,3) mono rest x by simp
  qed
qed simp

lemma reset_small:
  assumes "small_tracker k"
  shows "small_tracker (reset rs k)" and "r \<notin> set rs \<Longrightarrow> nx (reset rs k) r = nx k r"
proof -
  have ok: "tracker_ok k" using assms by (simp add: small_tracker_def)
  note R = reset_keeps [OF ok]
  show "nx (reset rs k) r = nx k r" if "r \<notin> set rs" using R(4) that by (simp add: nx_def)
  have "unat a < 2 ^ 62" if "next_address (reset rs k) res = Some a" for res a
  proof (cases "res \<in> set rs")
    case True
    then have ra: "reserved k res = Some a" using R(4) that by simp
    then obtain b where b: "next_address k res = Some b" using tracker_known [OF ok, of res] by auto
    then have "unat a \<le> unat b" using ok ra by (simp add: tracker_ok_def word_le_nat_alt)
    also have "unat b < 2 ^ 62" using assms b unfolding small_tracker_def by blast
    finally show ?thesis .
  next
    case False
    then have "next_address k res = Some a" using R(4) that by simp
    then show ?thesis using assms unfolding small_tracker_def by blast
  qed
  then show "small_tracker (reset rs k)" using assms R(1,2) by (simp add: small_tracker_def)
qed

lemma reusable_local: "reusable is_global as = Some rs \<Longrightarrow> r \<in> set rs \<Longrightarrow> \<not> is_global r"
  by (auto simp: reusable_def)

definition before_global :: "(resource \<Rightarrow> bool) \<Rightarrow> grant \<Rightarrow> grant \<Rightarrow> bool" where
  "before_global is_global g h \<longleftrightarrow> (is_global (g_memory g) \<longrightarrow> before g h)"

lemma run_scope_layout:
  assumes k: "small_tracker k" and small: "\<forall>a\<in>set (collectAllocations b). small_alloc a"
    and r: "run_scope is_global b k = Some (gs, n, k')"
  shows "small_tracker k' \<and> capacities k' = capacities k \<and> reserved k' = reserved k \<and>
    sorted_wrt before gs \<and> (\<forall>g\<in>set gs. inside k g) \<and>
    (\<forall>res. is_global res \<longrightarrow> nx k res \<le> nx k' res) \<and>
    (\<forall>g\<in>set gs. is_global (g_memory g) \<longrightarrow> nx k (g_memory g) \<le> unat (g_start g) \<and> grant_end g \<le> nx k' (g_memory g))"
proof -
  obtain rs where rs: "reusable is_global (collectAllocations b) = Some rs"
    "process_all (collectAllocations b) (reset rs k) = Some (gs, n, k')"
    using r by (auto simp: run_scope_def split: Option.bind_splits)
  have ok: "tracker_ok k" using k by (simp add: small_tracker_def)
  note R = reset_keeps [OF ok, of rs]
  have glob: "nx (reset rs k) res = nx k res" if "is_global res" for res
    using reset_small(2) [OF k] reusable_local [OF rs(1)] that by blast
  from process_all_layout [OF reset_small(1) [OF k] small rs(2)] R(2,3) glob
    inside_cong [OF R(2,3)] show ?thesis by auto metis+
qed

lemma run_scopes_layout:
  assumes "small_tracker k" and "\<forall>b\<in>set bs. \<forall>a\<in>set (collectAllocations b). small_alloc a"
    and "run_scopes is_global bs k = Some (gss, n, k')"
  shows "(\<forall>gs\<in>set gss. sorted_wrt before gs) \<and> (\<forall>g\<in>set (concat gss). inside k g) \<and>
    sorted_wrt (before_global is_global) (concat gss) \<and>
    (\<forall>g\<in>set (concat gss). is_global (g_memory g) \<longrightarrow> nx k (g_memory g) \<le> unat (g_start g))"
  using assms
proof (induction bs arbitrary: k gss n)
  case (Cons b bs)
  obtain gs m k1 gss1 m1 where r: "run_scope is_global b k = Some (gs, m, k1)"
    "run_scopes is_global bs k1 = Some (gss1, m1, k')" "gss = gs # gss1"
    using Cons.prems(3) by (auto split: Option.bind_splits)
  have sb: "\<forall>a\<in>set (collectAllocations b). small_alloc a" using Cons.prems(2) by simp
  note S = run_scope_layout [OF Cons.prems(1) sb r(1)]
  have IH: "(\<forall>gs\<in>set gss1. sorted_wrt before gs) \<and> (\<forall>g\<in>set (concat gss1). inside k1 g) \<and>
    sorted_wrt (before_global is_global) (concat gss1) \<and>
    (\<forall>g\<in>set (concat gss1). is_global (g_memory g) \<longrightarrow> nx k1 (g_memory g) \<le> unat (g_start g))"
    using Cons.IH [of k1] Cons.prems(2) S r(2) by simp
  have in_eq: "inside k1 = inside k" using S by (intro inside_cong) auto
  have cross: "before_global is_global g h" if g: "g \<in> set gs" and h: "h \<in> set (concat gss1)" for g h
    unfolding before_global_def before_def
  proof (intro impI)
    assume "is_global (g_memory g)" and eq: "g_memory g = g_memory h"
    then have "grant_end g \<le> nx k1 (g_memory g)" using S g by blast
    also have "\<dots> \<le> unat (g_start h)"
    proof -
      have "\<forall>g\<in>set (concat gss1). is_global (g_memory g) \<longrightarrow> nx k1 (g_memory g) \<le> unat (g_start g)"
        using IH by blast
      then show ?thesis using h \<open>is_global (g_memory g)\<close> unfolding eq by blast
    qed
    finally show "grant_end g \<le> unat (g_start h)" .
  qed
  have "sorted_wrt (before_global is_global) gs"
    using S by (auto simp: before_global_def elim: sorted_wrt_mono_rel [rotated])
  then have "sorted_wrt (before_global is_global) (concat gss)"
    using IH cross r(3) by (simp add: sorted_wrt_append)
  moreover have "nx k (g_memory g) \<le> unat (g_start g)" if "g \<in> set (concat gss)" "is_global (g_memory g)" for g
  proof (cases "g \<in> set gs")
    case False
    then have "nx k1 (g_memory g) \<le> unat (g_start g)" using IH that r(3) by auto
    then show ?thesis using S that(2) order_trans by blast
  qed (use S that in blast)
  ultimately show ?case using IH S r(3) in_eq by auto
qed simp

text \<open>Under the bounds, the byte address of a grant is a multiple of the element size: no assertion fails.\<close>

lemma processAllocation_returns:
  assumes k: "small_tracker k" and a: "small_alloc a" and sz: "getSize a = Some s"
    and el: "element_size a = Some eb" and sp: "Option.bind (memory_space a) as_kind = Some res"
    and known: "next_address k res \<noteq> None"
  shows "\<exists>g k'. processAllocation a k = Some (g, k') \<and>
    (\<forall>x. g = Some x \<longrightarrow> unat (g_address x) * unat eb = unat (g_start x) \<and>
       (\<forall>n. align_attr a = Some n \<longrightarrow> unat n dvd unat (g_start x)))"
proof (cases s)
  case None
  then show ?thesis using sz by (simp add: processAllocation_def)
next
  case (Some bytes)
  note A = alignment_props [OF a el]
  let ?al = "alignment_of a eb"
  obtain b where b: "next_address k res = Some b" using known by blast
  have ok: "tracker_ok k" using k by (simp add: small_tracker_def)
  have "unat bytes < 2 ^ 62" using a sz Some by (simp add: small_alloc_def)
  then have w: "no_wrap c bytes ?al" if "next_address k res = Some c" for c
    using that k A(2) unfolding no_wrap_def small_tracker_def by fastforce
  have "allocate res bytes ?al k \<noteq> None" using b by (simp add: allocate_def Let_def split: option.split)
  then obtain r k1 where r: "allocate res bytes ?al k = Some (r, k1)" by auto
  show ?thesis
  proof (cases r)
    case (Inl e)
    then show ?thesis using sz Some el sp r by (simp add: processAllocation_def)
  next
    case (Inr addr)
    have dv: "unat ?al dvd unat addr" using allocate_success [OF ok r [unfolded Inr] w A(1)] by auto
    then have e: "unat eb dvd unat addr" using A(3) dvd_trans by blast
    then have "unat (addr mod eb) = 0" by (simp add: unat_mod_distrib)
    then have m: "addr mod eb = 0" by (metis unat_eq_zero)
    have nz: "eb \<noteq> 0" using A(4) by auto
    have "unat (addr div eb) * unat eb = unat addr" using e by (simp add: unat_div_distrib)
    moreover have "unat n dvd unat addr" if "align_attr a = Some n" for n
      using A(5) [OF that] dv dvd_trans by blast
    ultimately show ?thesis
      using sz Some el sp r Inr m nz by (simp add: processAllocation_def)
  qed
qed

text \<open>The whole pass returns when every allocation has a size, an element size and a memory the tracker knows.\<close>

definition known_alloc :: "tracker \<Rightarrow> alloc_op \<Rightarrow> bool" where
  "known_alloc k a \<longleftrightarrow> small_alloc a \<and> getSize a \<noteq> None \<and> element_size a \<noteq> None \<and>
     (\<exists>res. Option.bind (memory_space a) as_kind = Some res \<and> next_address k res \<noteq> None)"

lemma known_alloc_cong: "dom (next_address k) = dom (next_address k') \<Longrightarrow> known_alloc k = known_alloc k'"
  unfolding known_alloc_def fun_eq_iff by (metis domIff)

lemma small_tracker_dom: "small_tracker k \<Longrightarrow> dom (next_address k) = dom (capacities k)"
  by (simp add: small_tracker_def tracker_ok_def)

lemma process_all_returns:
  assumes "small_tracker k" and "\<forall>a\<in>set as. known_alloc k a"
  shows "\<exists>r. process_all as k = Some r"
  using assms
proof (induction as arbitrary: k)
  case (Cons a as)
  from Cons.prems(2) obtain s eb res where a: "small_alloc a" "getSize a = Some s" "element_size a = Some eb"
    "Option.bind (memory_space a) as_kind = Some res" "next_address k res \<noteq> None"
    by (auto simp: known_alloc_def)
  obtain g k1 where g: "processAllocation a k = Some (g, k1)"
    using processAllocation_returns [OF Cons.prems(1) a] by blast
  have "process_all [a] k = Some (case g of None \<Rightarrow> ([], 1, k1) | Some x \<Rightarrow> ([x], 0, k1))"
    using g by (simp split: option.split)
  then have "\<exists>gs n. process_all [a] k = Some (gs, n, k1)" by (cases g) auto
  then have k1: "small_tracker k1 \<and> capacities k1 = capacities k"
    using process_all_layout [OF Cons.prems(1), of "[a]"] a(1) by auto
  then have "known_alloc k1 = known_alloc k"
    using small_tracker_dom [of k1] small_tracker_dom [OF Cons.prems(1)] by (intro known_alloc_cong) simp
  then obtain r where "process_all as k1 = Some r" using Cons.IH [of k1] Cons.prems(2) k1 by auto
  then show ?case using g by (cases r; cases g) simp_all
qed simp

lemma run_scopes_returns:
  assumes "small_tracker k" and "\<forall>b\<in>set bs. \<forall>a\<in>set (collectAllocations b). known_alloc k a"
  shows "\<exists>r. run_scopes is_global bs k = Some r"
  using assms
proof (induction bs arbitrary: k)
  case (Cons b bs)
  have "\<exists>ss. those (map (\<lambda>a. Option.bind (memory_space a) as_kind) as) = Some ss"
    if "\<forall>a\<in>set as. known_alloc k a" for as
    using that by (induction as) (auto simp: known_alloc_def)
  then obtain rs where rs: "reusable is_global (collectAllocations b) = Some rs"
    using Cons.prems(2) by (fastforce simp: reusable_def)
  have ok: "tracker_ok k" using Cons.prems(1) by (simp add: small_tracker_def)
  have k0: "small_tracker (reset rs k)" "capacities (reset rs k) = capacities k"
    using reset_small(1) [OF Cons.prems(1)] reset_keeps(2) [OF ok] by simp_all
  then have "known_alloc (reset rs k) = known_alloc k"
    using small_tracker_dom [OF k0(1)] small_tracker_dom [OF Cons.prems(1)] by (intro known_alloc_cong) simp
  then obtain gs n k1 where r: "run_scope is_global b k = Some (gs, n, k1)"
    using process_all_returns [OF k0(1), of "collectAllocations b"] Cons.prems(2) rs
    by (auto simp: run_scope_def)
  have "\<forall>a\<in>set (collectAllocations b). small_alloc a" using Cons.prems(2) by (auto simp: known_alloc_def)
  from run_scope_layout [OF Cons.prems(1) this r] have k1: "small_tracker k1 \<and> capacities k1 = capacities k" by blast
  then have "known_alloc k1 = known_alloc k"
    using small_tracker_dom [of k1] small_tracker_dom [OF Cons.prems(1)] by (intro known_alloc_cong) simp
  then obtain q where "run_scopes is_global bs k1 = Some q" using Cons.IH [of k1] Cons.prems(2) k1 by auto
  then show ?case using r by (cases q) simp
qed simp

section \<open>Properties\<close>

text \<open>C2: As long as alignments and element sizes are not zero, and every size, every common multiple of
  alignment and element size, every capacity and every next address is below 2^62, so that no
  address computation wraps: the allocations that the address assignment grants within one
  program do not overlap, those in global memory do not overlap over all programs, and every one
  lies between the reserved bytes and the capacity of its memory.\<close>

theorem runOnOperation_layout:
  assumes "small_tracker k" and "\<forall>b\<in>set (scopes_of body). \<forall>a\<in>set (collectAllocations b). small_alloc a"
    and "runOnOperation disabled is_global body k = Some (gss, ok, k')"
  shows "(\<forall>gs\<in>set gss. sorted_wrt before gs) \<and> (\<forall>g\<in>set (concat gss). inside k g) \<and>
    sorted_wrt (before_global is_global) (concat gss) \<and>
    (\<forall>g\<in>set (concat gss). is_global (g_memory g) \<longrightarrow> nx k (g_memory g) \<le> unat (g_start g))"
proof (cases "disabled \<or> \<not> list_ex has_space body")
  case True
  with assms(3) show ?thesis by (simp add: runOnOperation_def)
next
  case False
  with assms(3) obtain n where "run_scopes is_global (scopes_of body) k = Some (gss, n, k')"
    by (auto simp: runOnOperation_def split: Option.bind_splits)
  from run_scopes_layout [OF assms(1,2) this] show ?thesis .
qed

text \<open>C21: The pass returns, with no failed assertion and no division by zero, on every module whose
  allocations have a size that can be computed, an element size and a memory space that names a
  memory of the tracker, with alignments and element sizes that are not zero, and all sizes,
  alignments, capacities and next addresses below 2^62.\<close>

theorem runOnOperation_returns:
  assumes "small_tracker k" and "\<forall>b\<in>set (scopes_of body). \<forall>a\<in>set (collectAllocations b). known_alloc k a"
  shows "\<exists>gss ok k'. runOnOperation disabled is_global body k = Some (gss, ok, k')"
proof -
  obtain gss n k' where "run_scopes is_global (scopes_of body) k = Some (gss, n, k')"
    using run_scopes_returns [OF assms, of is_global] by auto
  then show ?thesis by (cases "disabled \<or> \<not> list_ex has_space body") (auto simp: runOnOperation_def)
qed

theorem processAllocation_address:
  assumes "small_tracker k" and "small_alloc a" and "getSize a = Some s" and "element_size a = Some eb"
    and "Option.bind (memory_space a) as_kind = Some res" and "next_address k res \<noteq> None"
  shows "\<exists>g k'. processAllocation a k = Some (g, k') \<and>
    (\<forall>x. g = Some x \<longrightarrow> unat (g_address x) * unat eb = unat (g_start x) \<and>
       (\<forall>n. align_attr a = Some n \<longrightarrow> unat n dvd unat (g_start x)))"
  using assms by (rule processAllocation_returns)

text \<open>Buffers of 4-byte elements in row-major layout, and a module with two programs.\<close>

definition buffer_of :: "nat \<Rightarrow> resource \<Rightarrow> int \<Rightarrow> int option \<Rightarrow> size_t option \<Rightarrow> alloc_op" where
  "buffer_of i r rows cols al = \<lparr>alloc_id = i, shape = [Some rows, cols], dynamic_bounds = [Some 8],
     strides_and_offset = (\<lambda>sh. Some ([sh ! 1, 1], 0)), element_size = Some 4, align_attr = al,
     memory_space = Some (KindAttr r)\<rparr>"

definition small_module :: "ir list" where
  "small_module = [OtherIR [AllocIR (buffer_of 0 ''DDR'' 4 (Some 4) None)],
     ModuleIR [AllocIR (buffer_of 1 ''L1'' 2 (Some 3) None), AllocIR (buffer_of 2 ''L1'' 1 None (Some 32))],
     ModuleIR [OtherIR [AllocIR (buffer_of 3 ''L1'' 2 (Some 2) None), AllocIR (buffer_of 4 ''DDR'' 1 (Some 1) None)]]]"

lemma buffer_fields:
  "element_size (buffer_of i r rows cols al) = Some 4" "align_attr (buffer_of i r rows cols al) = al"
  "memory_space (buffer_of i r rows cols al) = Some (KindAttr r)"
  by (simp_all add: buffer_of_def)

lemma lcm_32_4: "lcm 32 4 = (32 :: nat)"
  by code_simp

lemma buffer_size:
  "getSize (buffer_of i r rows cols al) =
     Some (case add_extents [(rows, case cols of None \<Rightarrow> 8 | Some c \<Rightarrow> c), (case cols of None \<Rightarrow> 8 | Some c \<Rightarrow> c, 1)] 0 of
       None \<Rightarrow> None | Some off \<Rightarrow> fit_size (uint (off + 1) * 4))"
  if "0 \<le> (case cols of None \<Rightarrow> 8 | Some c \<Rightarrow> c)"
  using that by (cases cols) (auto simp: getSize_def getUpperOffsetBound_def getUpperShapeBound_def buffer_of_def
      split: option.splits)

lemma small_module_allocs:
  "\<forall>b\<in>set (scopes_of small_module). \<forall>a\<in>set (collectAllocations b). known_alloc small_track a"
  "\<forall>b\<in>set (scopes_of small_module). \<forall>a\<in>set (collectAllocations b). small_alloc a"
  by (simp_all add: small_module_def scopes_of_def collectAllocations_def List.map_filter_simps
      known_alloc_def small_alloc_def buffer_size buffer_fields fit_size_def lcm_32_4 small_track_fields
      as_kind_def)


lemma small_track_small: "small_tracker small_track"
proof -
  have "next_address small_track res = Some a \<Longrightarrow> unat a < 2 ^ 62"
    and "capacities small_track res = Some c \<Longrightarrow> unat c < 2 ^ 62" for res a c
    by (auto simp: small_track_def new_tracker_def mt_getAllNodeIds_def small_memory_ids small_memory_nodes
        memory_entry_def add_memory_def split: if_splits)
  then show ?thesis using new_tracker_ok by (simp add: small_tracker_def small_track_def)
qed

theorem runOnOperation_layout_witness:
  "\<exists>gss ok k'. runOnOperation False (\<lambda>r. r = ''DDR'') small_module small_track = Some (gss, ok, k') \<and>
     map (map (\<lambda>g. (g_alloc g, g_start g, g_size g, g_address g))) gss =
       [[(0, 0, 64, 0)], [(1, 16, 24, 4), (2, 64, 32, 16)], [(3, 16, 16, 4), (4, 64, 4, 16)]] \<and>
     sorted_wrt (before_global (\<lambda>r. r = ''DDR'')) (concat gss)"
proof -
  have "map_option (\<lambda>(gss, _, _). map (map (\<lambda>g. (g_alloc g, g_start g, g_size g, g_address g))) gss)
      (runOnOperation False (\<lambda>r. r = ''DDR'') small_module small_track) =
    Some [[(0, 0, 64, 0)], [(1, 16, 24, 4), (2, 64, 32, 16)], [(3, 16, 16, 4), (4, 64, 4, 16)]]"
    by code_simp
  then obtain gss ok k' where r: "runOnOperation False (\<lambda>r. r = ''DDR'') small_module small_track = Some (gss, ok, k')"
    "map (map (\<lambda>g. (g_alloc g, g_start g, g_size g, g_address g))) gss =
       [[(0, 0, 64, 0)], [(1, 16, 24, 4), (2, 64, 32, 16)], [(3, 16, 16, 4), (4, 64, 4, 16)]]"
    by auto
  have "sorted_wrt (before_global (\<lambda>r. r = ''DDR'')) (concat gss)"
    using runOnOperation_layout [OF small_track_small small_module_allocs(2) r(1)] by (elim conjE)
  with r show ?thesis by (intro exI conjI)
qed

theorem runOnOperation_returns_witness:
  "\<exists>gss ok k'. runOnOperation False (\<lambda>r. r = ''DDR'') small_module small_track = Some (gss, ok, k')"
  by (rule runOnOperation_returns [OF small_track_small small_module_allocs(1)])

theorem processAllocation_address_witness:
  "\<exists>g k'. processAllocation (buffer_of 2 ''L1'' 1 None (Some 32)) small_track = Some (g, k') \<and>
    (\<forall>x. g = Some x \<longrightarrow> unat (g_address x) * 4 = unat (g_start x))"
  using processAllocation_address [OF small_track_small, of "buffer_of 2 ''L1'' 1 None (Some 32)" "Some 32" 4 "''L1''"]
  by (auto simp: small_alloc_def buffer_size buffer_fields fit_size_def lcm_32_4 small_track_fields as_kind_def)

theorem getSize_exact_witness:
  "getSize (buffer_of 1 ''L1'' 2 (Some 3) None) = Some (Some 24) \<and> uint (24 :: size_t) = 24"
proof -
  let ?b = "buffer_of 1 ''L1'' 2 (Some 3) None"
  have sz: "getSize ?b = Some (Some 24)" by (simp add: buffer_size fit_size_def)
  have f: "getUpperShapeBound ?b = Some (Some [2, 3])" "strides_and_offset ?b [2, 3] = Some ([3, 1], 0)"
    "element_size ?b = Some 4" by (simp_all add: getUpperShapeBound_def buffer_of_def)
  from getSize_exact [OF f(1,2) _ _ f(3) sz] sz show ?thesis by simp
qed

end
