(* ===== verification/TreeShape.thy ===== *)
theory TreeShape
  imports OperationTree
begin

text \<open>
  The shape of the tree a store represents: the nodes below a node, ranks that grow from parent to
  child (so there is no cycle and every walk ends), and what happens to both when some children
  of a node are put under a new node. The pipeline legalizer changes trees in this way only.
\<close>

section \<open>The nodes below a node\<close>

definition child_edges :: "(ptr \<Rightarrow> ptr list) \<Rightarrow> (ptr \<times> ptr) set" where
  "child_edges F = {(a, b). b \<in> set (F a)}"

definition below :: "(ptr \<Rightarrow> ptr list) \<Rightarrow> ptr \<Rightarrow> ptr set" where
  "below F r = {n. (r, n) \<in> (child_edges F)\<^sup>*}"

lemma below_root [simp]: "r \<in> below F r"
  by (simp add: below_def)

lemma below_child: "n \<in> below F r \<Longrightarrow> c \<in> set (F n) \<Longrightarrow> c \<in> below F r"
  unfolding below_def child_edges_def by (auto intro: rtrancl_into_rtrancl)

lemma below_induct [consumes 1, case_names root child]:
  assumes "n \<in> below F r" and "P r" and "\<And>m c. m \<in> below F r \<Longrightarrow> P m \<Longrightarrow> c \<in> set (F m) \<Longrightarrow> P c"
  shows "P n"
proof -
  have "(r, n) \<in> (child_edges F)\<^sup>*" using assms(1) by (simp add: below_def)
  then show ?thesis
    by (induction rule: rtrancl_induct) (use assms(2,3) in \<open>auto simp: below_def child_edges_def\<close>)
qed

lemma below_cases: "n \<in> below F r \<Longrightarrow> n = r \<or> (\<exists>m\<in>below F r. n \<in> set (F m))"
  by (induction rule: below_induct) auto

lemma below_subset:
  assumes "r \<in> S" and "\<And>n. n \<in> S \<Longrightarrow> set (F n) \<subseteq> S"
  shows "below F r \<subseteq> S"
proof
  fix n assume "n \<in> below F r"
  then show "n \<in> S" by (induction rule: below_induct) (use assms in auto)
qed

lemma below_step: "below F n = insert n (\<Union>c\<in>set (F n). below F c)"
proof (intro equalityI subsetI)
  fix m assume "m \<in> below F n"
  then have "(n, m) \<in> (child_edges F)\<^sup>*" by (simp add: below_def)
  then show "m \<in> insert n (\<Union>c\<in>set (F n). below F c)"
    by (cases rule: converse_rtranclE) (auto simp: below_def child_edges_def)
next
  fix m assume "m \<in> insert n (\<Union>c\<in>set (F n). below F c)"
  then show "m \<in> below F n"
    by (auto simp: below_def child_edges_def intro: converse_rtrancl_into_rtrancl)
qed

section \<open>Ranks, and the walk over the nodes below\<close>

definition ranked :: "(ptr \<Rightarrow> ptr list) \<Rightarrow> (ptr \<Rightarrow> nat) \<Rightarrow> bool" where
  "ranked F rank \<longleftrightarrow> (\<forall>n. \<forall>c\<in>set (F n). rank n < rank c)"

lemma forest_of_chain:
  assumes "links (next_sibling h) p xs None"
    and "\<And>x. x \<in> set xs \<Longrightarrow> \<exists>ts. forest_rep h (first_child h x) ts \<and> insert x (set (preorder ts)) = S x"
  shows "\<exists>ts. forest_rep h p ts \<and> set (preorder ts) = (\<Union>x\<in>set xs. S x)"
  using assms
proof (induction xs arbitrary: p)
  case Nil
  then have "forest_rep h p [] \<and> set (preorder []) = (\<Union>x\<in>set []. S x)" by simp
  then show ?case ..
next
  case (Cons x xs)
  obtain us where us: "forest_rep h (first_child h x) us" "insert x (set (preorder us)) = S x"
    using Cons.prems(2) [of x] by auto
  obtain ts where ts: "forest_rep h (next_sibling h x) ts" "set (preorder ts) = (\<Union>x\<in>set xs. S x)"
    using Cons.IH [of "next_sibling h x"] Cons.prems by auto
  have "forest_rep h p (RNode x us # ts) \<and> set (preorder (RNode x us # ts)) = (\<Union>x\<in>set (x # xs). S x)"
    using us ts Cons.prems(1) by auto
  then show ?case ..
qed

lemma forest_exists:
  assumes abs: "tree_abs h F" and rk: "ranked F rank" and bound: "\<And>n c. c \<in> set (F n) \<Longrightarrow> c < N"
  shows "\<exists>ts. forest_rep h (first_child h n) ts \<and> insert n (set (preorder ts)) = below F n"
proof (induction n rule: measure_induct_rule [where f = "\<lambda>n. Max (rank ` {..N}) - rank n"])
  case (less n)
  have "\<exists>ts. forest_rep h (first_child h c) ts \<and> insert c (set (preorder ts)) = below F c"
    if c: "c \<in> set (F n)" for c
  proof (rule less.IH)
    have "rank c \<le> Max (rank ` {..N})" using bound [OF c] by (intro Max_ge) auto
    moreover have "rank n < rank c" using rk c by (simp add: ranked_def)
    ultimately show "Max (rank ` {..N}) - rank c < Max (rank ` {..N}) - rank n" by simp
  qed
  from forest_of_chain [OF tree_abs_links [OF abs] this]
  obtain ts where "forest_rep h (first_child h n) ts" "set (preorder ts) = (\<Union>x\<in>set (F n). below F x)"
    by blast
  then show ?case using below_step [of F n] by blast
qed

lemma preOrderWalk_below:
  assumes "tree_abs h F" and "ranked F rank" and "\<And>n c. c \<in> set (F n) \<Longrightarrow> c < N"
  shows "\<exists>ns. preOrderWalk h r = Some ns \<and> set ns = below F r"
proof -
  obtain ts where ts: "forest_rep h (first_child h r) ts" "insert r (set (preorder ts)) = below F r"
    using forest_exists [of h F rank N r] assms by metis
  then have "preOrderWalk h r = Some (r # preorder ts)" by (simp add: preOrderWalk_def pre_loop_rep)
  with ts(2) show ?thesis by (intro exI [of _ "r # preorder ts"]) simp
qed

section \<open>Putting children under a new node\<close>

text \<open>\<open>wraps F n G s F'\<close>: the children \<open>G\<close> of \<open>n\<close> become children of \<open>s\<close>, a new child of \<open>n\<close>.\<close>

definition wraps :: "(ptr \<Rightarrow> ptr list) \<Rightarrow> ptr \<Rightarrow> ptr set \<Rightarrow> ptr \<Rightarrow> (ptr \<Rightarrow> ptr list) \<Rightarrow> bool" where
  "wraps F n G s F' \<longleftrightarrow>
     s \<noteq> n \<and> F s = [] \<and> (\<forall>m. s \<notin> set (F m)) \<and> G \<subseteq> set (F n) \<and>
     set (F' n) = insert s (set (F n) - G) \<and> set (F' s) = G \<and> (\<forall>m. m \<noteq> n \<longrightarrow> m \<noteq> s \<longrightarrow> F' m = F m)"

lemma wraps_edges:
  assumes "wraps F n G s F'"
  shows "c \<in> set (F' m) \<longleftrightarrow>
    (if m = n then c = s \<or> c \<in> set (F n) \<and> c \<notin> G else if m = s then c \<in> G else c \<in> set (F m))"
  using assms by (auto simp: wraps_def)

lemma ranked_wraps:
  assumes "ranked F rank" and "wraps F n G s F'"
  shows "ranked F' (\<lambda>m. if m = s then Suc (2 * rank n) else 2 * rank m)"
proof -
  have w: "s \<noteq> n" "\<forall>m. s \<notin> set (F m)" "G \<subseteq> set (F n)" using assms(2) by (simp_all add: wraps_def)
  have r: "c \<in> set (F m) \<Longrightarrow> rank m < rank c" for c m using assms(1) by (simp add: ranked_def)
  have "(if m = s then Suc (2 * rank n) else 2 * rank m) < (if c = s then Suc (2 * rank n) else 2 * rank c)"
    if "c \<in> set (F' m)" for m c
    using that w r [of c m] r [of c n] unfolding wraps_edges [OF assms(2)] by (auto split: if_splits)
  then show ?thesis by (simp add: ranked_def)
qed

lemma below_wraps_mono:
  assumes w: "wraps F n G s F'" and m: "m \<in> below F r"
  shows "m \<in> below F' r"
  using m
proof (induction rule: below_induct)
  case (child m c)
  note e = wraps_edges [OF w]
  have s: "s \<noteq> n" "G \<subseteq> set (F n)" using w by (simp_all add: wraps_def)
  show ?case
  proof (cases "m = n \<and> c \<in> G")
    case True
    then have "s \<in> below F' r" using child.IH below_child [of m F' r s] by (simp add: e)
    then show ?thesis using True s below_child [of s F' r c] by (simp add: e)
  next
    case False
    moreover have "m \<noteq> s" using child.hyps w by (auto simp: wraps_def)
    ultimately have "c \<in> set (F' m)" using child.hyps by (auto simp: e)
    then show ?thesis using child.IH below_child by blast
  qed
qed simp

lemma below_wraps:
  assumes n: "n \<in> below F r" and w: "wraps F n G s F'"
  shows "below F' r = insert s (below F r)"
proof -
  note e = wraps_edges [OF w]
  have s: "s \<noteq> n" "G \<subseteq> set (F n)" using w by (simp_all add: wraps_def)
  have old: "m \<in> insert s (below F r)" if "m \<in> below F' r" for m
    using that
  proof (induction rule: below_induct)
    case (child m c)
    then show ?case using n s below_child [of m F r c] below_child [OF n, of c] unfolding e by (auto split: if_splits)
  qed simp
  have new: "m \<in> below F' r" if "m \<in> below F r" for m
    using that by (rule below_wraps_mono [OF w])
  have "s \<in> below F' r" using new [OF n] below_child [of n F' r s] by (simp add: e)
  with old new show ?thesis by blast
qed

end
