(* ===== verification/Legalizer.thy ===== *)
theory Legalizer
  imports PipelineTree TreeShape
begin

text \<open>
  The legalizer of \<open>lib/Transforms/Utils/PipelineTreeLegalizer.cpp\<close>: three rules on the shape of a
  pipeline tree, each with its check and its repair, and the loop that repairs the first violation
  and collects the violations again until there are none. Each repair is shown to put children
  under a new node; the loop is a run of a step relation in which any violation may be
  repaired first, and every run from a checkable tree has the same length.
\<close>

section \<open>The rules\<close>

datatype rule = PipelineChildrenRule | StageParentRule | PrivateMustExistRule

text \<open>A child that a pipeline may not have.\<close>

definition illegal_child :: "ptree \<Rightarrow> ptr \<Rightarrow> bool" where
  "illegal_child T c \<longleftrightarrow> \<not> isPrivateNode T c \<and> \<not> isStageNode T c"

partial_function (option) illegal_loop :: "ptree \<Rightarrow> ptr option \<Rightarrow> bool option" where
  "illegal_loop T child =
     (case child of
        None \<Rightarrow> Some False
      | Some c \<Rightarrow> (if illegal_child T c then Some True else illegal_loop T (next_sibling T c)))"

declare illegal_loop.simps [code]

definition children_isViolated :: "ptree \<Rightarrow> ptr \<Rightarrow> bool option" where
  "children_isViolated T n =
     (if \<not> isPipelineNode T n then Some False else illegal_loop T (first_child T n))"

text \<open>The assertion that a stage has a parent.\<close>

definition parent_isViolated :: "ptree \<Rightarrow> ptr \<Rightarrow> bool option" where
  "parent_isViolated T n =
     (if \<not> isStageNode T n then Some False
      else (case parent_node T n of None \<Rightarrow> None | Some p \<Rightarrow> Some (\<not> isPipelineNode T p)))"

text \<open>The \<open>continue\<close> of the loop of the third rule does not move on to the next child.\<close>

partial_function (option) deps_loop :: "ptree \<Rightarrow> ptr option \<Rightarrow> bool option" where
  "deps_loop T child =
     (case child of
        None \<Rightarrow> Some False
      | Some c \<Rightarrow>
          (if \<not> isStageNode T c then deps_loop T child
           else if dependencies T c \<noteq> [] then Some True
           else deps_loop T (next_sibling T c)))"

declare deps_loop.simps [code]

definition private_isViolated :: "ptree \<Rightarrow> ptr \<Rightarrow> bool option" where
  "private_isViolated T n =
     (if \<not> isPipelineNode T n then Some False
      else (case first_child T n of
              None \<Rightarrow> deps_loop T None
            | Some c \<Rightarrow> (if isPrivateNode T c then Some False else deps_loop T (Some c))))"

fun isViolated :: "rule \<Rightarrow> ptree \<Rightarrow> ptr \<Rightarrow> bool option" where
  "isViolated PipelineChildrenRule = children_isViolated"
| "isViolated StageParentRule = parent_isViolated"
| "isViolated PrivateMustExistRule = private_isViolated"

section \<open>The repairs\<close>

text \<open>Runs of consecutive illegal children.\<close>

partial_function (option) groups_loop ::
  "ptree \<Rightarrow> ptr option \<Rightarrow> ptr list list \<Rightarrow> ptr list \<Rightarrow> ptr list list option" where
  "groups_loop T child illegal_groups current_group =
     (case child of
        None \<Rightarrow> Some (if current_group \<noteq> [] then illegal_groups @ [current_group] else illegal_groups)
      | Some c \<Rightarrow>
          (if illegal_child T c
           then groups_loop T (next_sibling T c) illegal_groups (current_group @ [c])
           else groups_loop T (next_sibling T c)
                  (if current_group \<noteq> [] then illegal_groups @ [current_group] else illegal_groups) []))"

declare groups_loop.simps [code]

text \<open>The loops that unlink nodes and insert them as the last child of \<open>dst\<close>.\<close>

definition move_children :: "ptr \<Rightarrow> ptr list \<Rightarrow> ptree \<Rightarrow> ptree option" where
  "move_children dst = foldM (\<lambda>x h. Option.bind (unlink h x) (\<lambda>h1. insertChildNode h1 dst x None))"

definition wrap_group :: "ptr \<Rightarrow> ptr list \<Rightarrow> ptree \<times> int \<Rightarrow> (ptree \<times> int) option" where
  "wrap_group n illegal_group x =
     (case x of (T, next_stage_id) \<Rightarrow>
       (let (T1, new_stage) = createStageNode None next_stage_id T in
        do { insert_before \<leftarrow> getPrevSibling T1 (hd illegal_group);
             T2 \<leftarrow> move_children new_stage illegal_group T1;
             T3 \<leftarrow> insertChildNode T2 n new_stage insert_before;
             Some (T3, next_stage_id + 1) }))"

definition children_fix :: "ptr \<Rightarrow> ptree \<times> int \<Rightarrow> (ptree \<times> int) option" where
  "children_fix n x =
     (if \<not> isPipelineNode (fst x) n then None
      else do { illegal_groups \<leftarrow> groups_loop (fst x) (first_child (fst x) n) [] [];
                foldM (wrap_group n) illegal_groups x })"

text \<open>The search for the pipeline whose operation, or template, becomes the template.\<close>

partial_function (option) template_loop :: "ptree \<Rightarrow> ptr \<Rightarrow> ptr option \<Rightarrow> ptree option" where
  "template_loop T nested ancestor =
     (case ancestor of
        None \<Rightarrow> Some T
      | Some a \<Rightarrow>
          (if isPipelineNode T a then
             (if operation_op T a \<noteq> None then setTemplateOp T nested (operation_op T a)
              else if template_op T a = None then None
              else setTemplateOp T nested (template_op T a))
           else template_loop T nested (parent_node T a)))"

declare template_loop.simps [code]

definition parent_fix :: "ptr \<Rightarrow> ptree \<times> int \<Rightarrow> (ptree \<times> int) option" where
  "parent_fix n x =
     (case x of (T, next_stage_id) \<Rightarrow>
       (if \<not> isStageNode T n then None
        else (case parent_node T n of
          None \<Rightarrow> None
        | Some p \<Rightarrow>
            (if isPipelineNode T p then None
             else (let (T1, nested) = createPipelineNode None T in
               do { T2 \<leftarrow> template_loop T1 nested (parent_node T1 p);
                    stages_to_move \<leftarrow> stages_loop T2 (first_child T2 p) [];
                    if stages_to_move = [] then None
                    else do { insert_before \<leftarrow> getPrevSibling T2 (hd stages_to_move);
                              T3 \<leftarrow> insertChildNode T2 p nested insert_before;
                              T4 \<leftarrow> move_children nested stages_to_move T3;
                              Some (T4, next_stage_id) } })))))"

definition private_fix :: "ptr \<Rightarrow> ptree \<times> int \<Rightarrow> (ptree \<times> int) option" where
  "private_fix n x =
     (case x of (T, next_stage_id) \<Rightarrow>
       (if \<not> isPipelineNode T n then None
        else (let (T1, new_private) = createPrivateNode None T in
              Some (insertAsFirstChild T1 n new_private, next_stage_id))))"

fun fixViolation :: "rule \<Rightarrow> ptr \<Rightarrow> ptree \<times> int \<Rightarrow> (ptree \<times> int) option" where
  "fixViolation PipelineChildrenRule = children_fix"
| "fixViolation StageParentRule = parent_fix"
| "fixViolation PrivateMustExistRule = private_fix"

section \<open>The loop\<close>

definition rules :: "rule list" where
  "rules = [PipelineChildrenRule, StageParentRule, PrivateMustExistRule]"

type_synonym violation = "rule \<times> ptr"

definition check_node :: "ptree \<Rightarrow> ptr \<Rightarrow> violation list \<Rightarrow> violation list option" where
  "check_node T n =
     foldM (\<lambda>rl vs. do { b \<leftarrow> isViolated rl T n; Some (if b then vs @ [(rl, n)] else vs) }) rules"

definition collectViolations :: "ptree \<Rightarrow> violation list option" where
  "collectViolations T =
     (case root T of
        None \<Rightarrow> None
      | Some r \<Rightarrow> do { ns \<leftarrow> preOrderWalk T r; foldM (check_node T) ns [] })"

partial_function (option) fix_loop ::
  "violation list \<Rightarrow> nat \<Rightarrow> ptree \<times> int \<Rightarrow> (nat \<times> ptree \<times> int) option" where
  "fix_loop violations iteration x =
     (case violations of
        [] \<Rightarrow> Some (iteration, x)
      | (rl, n) # _ \<Rightarrow>
          do { x1 \<leftarrow> fixViolation rl n x;
               violations1 \<leftarrow> collectViolations (fst x1);
               fix_loop violations1 (iteration + 1) x1 })"

declare fix_loop.simps [code]

text \<open>The number after the largest stage id in the tree, at least zero.\<close>

fun next_stage_id_after :: "ptree \<Rightarrow> ptr \<Rightarrow> int \<Rightarrow> int" where
  "next_stage_id_after T n i =
     (case kind T n of StageNode k \<Rightarrow> (if k \<ge> i then k + 1 else i) | _ \<Rightarrow> i)"

definition findAndFixViolations :: "ptree \<Rightarrow> (nat \<times> ptree) option" where
  "findAndFixViolations T =
     (case root T of
        None \<Rightarrow> None
      | Some r \<Rightarrow>
          do { ns \<leftarrow> preOrderWalk T r;
               let i = fold (next_stage_id_after T) ns 0;
               violations \<leftarrow> collectViolations T;
               if violations = [] then Some (0, T)
               else do { (iteration, x) \<leftarrow> fix_loop violations 0 (T, i); Some (iteration, fst x) } })"

section \<open>The checks on a represented tree\<close>

lemma illegal_loop_links:
  "links (next_sibling T) p xs None \<Longrightarrow> illegal_loop T p = Some (\<exists>c\<in>set xs. illegal_child T c)"
  by (induction xs arbitrary: p) (auto simp: illegal_loop.simps)

fun deps_scan :: "ptree \<Rightarrow> ptr list \<Rightarrow> bool option" where
  "deps_scan T [] = Some False"
| "deps_scan T (c # cs) =
     (if \<not> isStageNode T c then None else if dependencies T c \<noteq> [] then Some True else deps_scan T cs)"

lemma deps_loop_stuck:
  assumes "deps_loop T child = Some b" and "child = Some c"
  shows "isStageNode T c"
proof -
  have "\<forall>c. child = Some c \<longrightarrow> isStageNode T c"
    using assms(1)
    by (rule deps_loop.raw_induct [where P = "\<lambda>T child b. \<forall>c. child = Some c \<longrightarrow> isStageNode T c", rotated])
      (auto split: option.splits if_splits)
  with assms(2) show ?thesis by blast
qed

lemma deps_loop_links: "links (next_sibling T) p xs None \<Longrightarrow> deps_loop T p = deps_scan T xs"
proof (induction xs arbitrary: p)
  case Nil
  then show ?case by (simp add: deps_loop.simps)
next
  case (Cons c cs)
  show ?case
  proof (cases "isStageNode T c")
    case True
    with Cons show ?thesis by (simp add: deps_loop.simps [of T "Some c"])
  next
    case False
    then have "deps_loop T (Some c) = None" using deps_loop_stuck by (cases "deps_loop T (Some c)") auto
    with False Cons.prems show ?thesis by simp
  qed
qed

lemma deps_scan_True: "deps_scan T cs = Some True \<Longrightarrow> \<exists>c\<in>set cs. isStageNode T c \<and> dependencies T c \<noteq> []"
  by (induction cs) (auto split: if_splits)

lemma deps_scan_False: "deps_scan T cs = Some False \<longleftrightarrow> (\<forall>c\<in>set cs. isStageNode T c \<and> dependencies T c = [])"
  by (induction cs) auto

lemma deps_scan_append:
  "deps_scan T (cs @ ds) = (if deps_scan T cs = Some False then deps_scan T ds else deps_scan T cs)"
  by (induction cs) auto

definition private_first :: "ptree \<Rightarrow> (ptr \<Rightarrow> ptr list) \<Rightarrow> ptr \<Rightarrow> bool" where
  "private_first T F n \<longleftrightarrow> F n \<noteq> [] \<and> isPrivateNode T (hd (F n))"

lemma children_isViolated_abs:
  "tree_abs T F \<Longrightarrow> children_isViolated T n = Some (isPipelineNode T n \<and> (\<exists>c\<in>set (F n). illegal_child T c))"
  by (simp add: children_isViolated_def illegal_loop_links [OF tree_abs_links])

lemma private_isViolated_abs:
  assumes "tree_abs T F"
  shows "private_isViolated T n =
    (if \<not> isPipelineNode T n \<or> private_first T F n then Some False else deps_scan T (F n))"
proof (cases "F n")
  case Nil
  then have "first_child T n = None" using tree_abs_leaf [OF assms, of n] by simp
  then show ?thesis using Nil by (simp add: private_isViolated_def private_first_def deps_loop.simps)
next
  case (Cons c cs)
  then have fc: "first_child T n = Some c" using tree_abs_first [OF assms, of n c] by blast
  then have "deps_loop T (Some c) = deps_scan T (F n)" using deps_loop_links [OF tree_abs_links [OF assms, of n]] by simp
  with Cons fc show ?thesis by (simp add: private_isViolated_def private_first_def)
qed

section \<open>The repairs put children under a new node\<close>

text \<open>A tree with its root, without cycles, and with room for new nodes.\<close>

definition sound_tree :: "ptree \<Rightarrow> (ptr \<Rightarrow> ptr list) \<Rightarrow> ptr \<Rightarrow> bool" where
  "sound_tree T F r \<longleftrightarrow> tree_abs T F \<and> fresh_above T \<and> (\<exists>rank. ranked F rank) \<and> root T = Some r \<and>
     (\<forall>m. r \<notin> set (F m)) \<and> r < next_ptr T \<and> \<not> isStageNode T r"

lemma sound_treeD:
  assumes "sound_tree T F r"
  shows "tree_abs T F" and "fresh_above T" and "\<exists>rank. ranked F rank" and "root T = Some r"
    and "r \<notin> set (F m)" and "r < next_ptr T" and "\<not> isStageNode T r"
  using assms by (simp_all add: sound_tree_def)

lemma sound_child: "sound_tree T F r \<Longrightarrow> c \<in> set (F n) \<Longrightarrow> c < next_ptr T"
  using fresh_child sound_treeD(1,2) by blast

lemma sound_below: "sound_tree T F r \<Longrightarrow> n \<in> below F r \<Longrightarrow> n < next_ptr T"
  using below_cases sound_child sound_treeD(6) by metis

text \<open>The fields of the nodes after one node of kind \<open>k\<close> has been added.\<close>

definition added :: "node_kind \<Rightarrow> ptree \<Rightarrow> ptree \<Rightarrow> bool" where
  "added k T T' \<longleftrightarrow>
     kind T' = (kind T)(next_ptr T := k) \<and> operation_op T' = (operation_op T)(next_ptr T := None) \<and>
     dependencies T' = (dependencies T)(next_ptr T := []) \<and> next_ptr T' = Suc (next_ptr T) \<and>
     root T' = root T \<and> (\<forall>m. m \<noteq> next_ptr T \<longrightarrow> template_op T' m = template_op T m)"

lemma sound_wraps:
  assumes S: "sound_tree T F r" and abs: "tree_abs T' F'" and n: "n \<in> below F r"
    and w: "wraps F n G (next_ptr T) F'" and a: "added k T T'"
  shows "sound_tree T' F' r" and "below F' r = insert (next_ptr T) (below F r)"
proof -
  let ?s = "next_ptr T"
  note e = wraps_edges [OF w]
  have nT: "n < ?s" using sound_below [OF S n] .
  have G: "G \<subseteq> set (F n)" using w by (simp add: wraps_def)
  have child: "c < Suc ?s" if "c \<in> set (F' m)" for c m
    using that sound_child [OF S, of c] G by (auto simp: e less_Suc_eq split: if_splits)
  have "F' m = []" if m: "m \<ge> Suc ?s" for m
  proof -
    have "F m = []" using m fresh_parent [OF sound_treeD(1,2) [OF S], of m] by fastforce
    then have "c \<notin> set (F' m)" for c using m nT by (auto simp: e)
    then show ?thesis by (cases "F' m") auto
  qed
  moreover have "parent_node T' m = None" if "m \<ge> Suc ?s" for m
    using that child tree_abs_orphan_iff [OF abs, of m] by (metis not_le)
  ultimately have fresh: "fresh_above T'"
    using a tree_abs_leaf [OF abs] by (simp add: fresh_above_def added_def)
  obtain rank where "ranked F rank" using sound_treeD(3) [OF S] ..
  then have rk: "\<exists>rank. ranked F' rank" using ranked_wraps [OF _ w] by blast
  have "r \<notin> set (F' m)" for m
    using sound_treeD(5,6) [OF S] G by (auto simp: e split: if_splits)
  then show "sound_tree T' F' r"
    using S abs fresh rk a by (auto simp: sound_tree_def added_def isStageNode_def)
  show "below F' r = insert ?s (below F r)" by (rule below_wraps [OF n w])
qed

lemma move_children_abs:
  assumes "tree_abs T F" and "distinct xs" and "set xs \<subseteq> set (F n)" and "n \<noteq> dst"
  shows "\<exists>T'. move_children dst xs T = Some T' \<and> same_rest T T' \<and>
    tree_abs T' (F(n := filter (\<lambda>y. y \<notin> set xs) (F n), dst := F dst @ xs))"
proof -
  obtain T' where T': "move_children dst xs T = Some T'"
    "tree_abs T' (F(n := filter (\<lambda>y. y \<notin> set xs) (F n), dst := F dst @ xs))"
    using op_tree.move_law [OF assms] unfolding move_children_def by blast
  have "same_rest T T'"
  proof (rule foldM_invariant [OF T'(1) [unfolded move_children_def], of "same_rest T"])
    fix x h h' assume "same_rest T h" and "Option.bind (unlink h x) (\<lambda>h1. insertChildNode h1 dst x None) = Some h'"
    then show "same_rest T h'"
      by (auto simp: bind_eq_Some_conv intro: same_rest_trans dest: unlink_rest insertChildNode_rest)
  qed simp
  with T' show ?thesis by blast
qed

lemma insert_after_last: "as \<noteq> [] \<Longrightarrow> distinct as \<Longrightarrow> insert_after (last as) s (as @ bs) = as @ s # bs"
proof (induction as)
  case (Cons a as)
  then show ?case by (cases "as = []") auto
qed simp

text \<open>The place of the new node: after the left neighbour, or last where there is none.\<close>

definition put_at :: "ptr list \<Rightarrow> ptr \<Rightarrow> ptr list \<Rightarrow> ptr list" where
  "put_at as s bs = (if as = [] then bs @ [s] else as @ s # bs)"

lemma set_put_at [simp]: "set (put_at as s bs) = insert s (set as \<union> set bs)"
  by (auto simp: put_at_def)

lemma insert_put_at:
  assumes "tree_abs T F" and "parent_node T s = None" and "F n = as @ bs"
  shows "\<exists>T'. insertChildNode T n s (if as = [] then None else Some (last as)) = Some T' \<and>
    same_rest T T' \<and> tree_abs T' (F(n := put_at as s bs))"
proof -
  have "distinct as" using tree_abs_distinct [OF assms(1), of n] assms(3) by simp
  then have eq: "(case (if as = [] then None else Some (last as)) of None \<Rightarrow> F n @ [s]
      | Some p \<Rightarrow> insert_after p s (F n)) = put_at as s bs"
    by (simp add: put_at_def assms(3) insert_after_last)
  have "(if as = [] then None else Some (last as)) \<in> insert None (Some ` set (F n))"
    using assms(3) by auto
  from insertChildNode_abs [OF assms(1,2) this] show ?thesis unfolding eq .
qed

lemma added_same_rest:
  assumes "create_node k None T = (T1, next_ptr T)" and "added k T T1" and "same_rest T1 T2"
  shows "added k T T2"
  using assms(2) same_rest_ptree [OF assms(3)] by (simp add: added_def)

lemma create_node_added:
  assumes "tree_abs T F" and "fresh_above T"
  shows "\<exists>T1. create_node k None T = (T1, next_ptr T) \<and> tree_abs T1 F \<and> added k T T1 \<and>
    parent_node T1 = parent_node T \<and> parent_node T1 (next_ptr T) = None \<and> F (next_ptr T) = []"
proof -
  have "F (next_ptr T) = []" using fresh_parent [OF assms, of "next_ptr T"] by fastforce
  with create_node_fresh [OF assms, of k] show ?thesis unfolding added_def
    by (intro exI [of _ "fst (create_node k None T)"]) simp
qed

lemma wrap_group_step:
  assumes S: "sound_tree T F r" and n: "n \<in> below F r" and F: "F n = as @ G @ bs" and G: "G \<noteq> []"
  defines "s \<equiv> next_ptr T"
  defines "F' \<equiv> F(n := put_at as s bs, s := G)"
  shows "\<exists>T'. wrap_group n G (T, i) = Some (T', i + 1) \<and> tree_abs T' F' \<and> added (StageNode i) T T' \<and>
    wraps F n (set G) s F'"
proof -
  note abs = sound_treeD(1) [OF S]
  have ns: "n \<noteq> s" using sound_below [OF S n] by (simp add: s_def)
  obtain T1 where T1: "createStageNode None i T = (T1, s)" "tree_abs T1 F" "added (StageNode i) T T1"
    "parent_node T1 = parent_node T" "parent_node T1 s = None" "F s = []"
    using create_node_added [OF abs sound_treeD(2) [OF S], of "StageNode i"]
    unfolding createStageNode_def s_def by blast
  obtain g G' where g: "G = g # G'" using G by (cases G) auto
  have d: "distinct (as @ G @ bs)" using tree_abs_distinct [OF abs, of n] F by simp
  have "parent_node T1 g = Some n" using tree_abs_parent [OF T1(2), of g n] F g by simp
  from getPrevSibling_abs [OF T1(2) this] have prev:
    "getPrevSibling T1 (hd G) = Some (if as = [] then None else Some (last as))"
    using left_of_split [of g as "G' @ bs"] F g d by simp
  have "filter (\<lambda>y. y \<notin> set G) as = as" "filter (\<lambda>y. y \<notin> set G) bs = bs" "filter (\<lambda>y. y \<notin> set G) G = []"
    using d by (auto simp: filter_id_conv filter_empty_conv)
  then have rest: "filter (\<lambda>y. y \<notin> set G) (F n) = as @ bs" by (simp add: F)
  let ?F2 = "F(n := as @ bs, s := G)"
  obtain T2 where T2: "move_children s G T1 = Some T2" "same_rest T1 T2" "tree_abs T2 ?F2"
  proof -
    have "distinct G" "set G \<subseteq> set (F n)" using d F by auto
    from move_children_abs [OF T1(2) this ns] show ?thesis
      unfolding rest T1(6) append_Nil using that by blast
  qed
  have "s \<notin> set (F m)" for m using sound_child [OF S, of s m] by (auto simp: s_def)
  note sF = this
  have "s \<notin> set (as @ G @ bs)" using sF [of n] unfolding F .
  then have sG: "s \<notin> set G" "s \<notin> set (as @ bs)" by auto
  have "s \<notin> set (?F2 m)" for m using sF sG by simp
  then have "parent_node T2 s = None" using tree_abs_orphan_iff [OF T2(3), of s] by blast
  from insert_put_at [OF T2(3) this, of n as bs] ns obtain T3 where
    T3: "insertChildNode T2 n s (if as = [] then None else Some (last as)) = Some T3" "same_rest T2 T3"
    "tree_abs T3 (?F2(n := put_at as s bs))" by auto
  have F': "?F2(n := put_at as s bs) = F'" using ns by (auto simp: F'_def)
  have "added (StageNode i) T T3"
    using added_same_rest [OF T1(1) [unfolded createStageNode_def s_def] T1(3) same_rest_trans [OF T2(2) T3(2)]] .
  moreover have "wraps F n (set G) s F'"
    unfolding wraps_def F'_def using ns T1(6) sF sG F d by auto
  moreover have "wrap_group n G (T, i) = Some (T3, i + 1)"
    using T1(1) prev T2(1) T3(1) by (simp add: wrap_group_def)
  ultimately show ?thesis using T3(3) unfolding F' by blast
qed

lemma private_fix_step:
  assumes S: "sound_tree T F r" and n: "n \<in> below F r" and p: "isPipelineNode T n"
  defines "s \<equiv> next_ptr T"
  defines "F' \<equiv> F(n := s # F n)"
  shows "\<exists>T'. private_fix n (T, i) = Some (T', i) \<and> tree_abs T' F' \<and> added PrivateNode T T' \<and> wraps F n {} s F'"
proof -
  have ns: "n \<noteq> s" using sound_below [OF S n] by (simp add: s_def)
  obtain T1 where T1: "createPrivateNode None T = (T1, s)" "tree_abs T1 F" "added PrivateNode T T1"
    "parent_node T1 s = None" "F s = []"
    using create_node_added [OF sound_treeD(1,2) [OF S], of PrivateNode]
    unfolding createPrivateNode_def s_def by blast
  have "tree_abs (insertAsFirstChild T1 n s) F'"
    using insertAsFirstChild_abs [OF T1(2,4)] by (simp add: F'_def)
  moreover have "added PrivateNode T (insertAsFirstChild T1 n s)"
    using added_same_rest [OF T1(1) [unfolded createPrivateNode_def s_def] T1(3) insertAsFirstChild_rest] .
  moreover have "s \<notin> set (F m)" for m using sound_child [OF S, of s m] by (auto simp: s_def)
  then have "wraps F n {} s F'" unfolding wraps_def F'_def using ns T1(5) by auto
  ultimately show ?thesis using T1(1) p by (simp add: private_fix_def)
qed

lemma template_loop_result:
  assumes abs: "tree_abs T F" and rk: "ranked F rank" and top: "\<And>m. r \<notin> set (F m)"
    and full: "\<And>a. a \<in> below F r \<Longrightarrow> isPipelineNode T a \<Longrightarrow> operation_op T a \<noteq> None \<or> template_op T a \<noteq> None"
    and s: "operation_op T s = None" and x: "x \<in> below F r"
  shows "\<exists>t. template_loop T s (Some x) = Some (T\<lparr>template_op := (template_op T)(s := t)\<rparr>) \<and>
    ((\<exists>a. isPipelineNode T a \<and> x \<in> below F a) \<longrightarrow> t \<noteq> None)"
  using x
proof (induction x rule: measure_induct_rule [where f = rank])
  case (less x)
  show ?case
  proof (cases "isPipelineNode T x")
    case True
    with full [OF less.prems] s show ?thesis
      by (subst template_loop.simps) (auto simp: setTemplateOp_def)
  next
    case False
    then have step: "template_loop T s (Some x) = template_loop T s (parent_node T x)"
      by (subst template_loop.simps) simp
    show ?thesis
    proof (cases "parent_node T x")
      case None
      then have "a = x" if "x \<in> below F a" for a
        using below_cases [OF that] tree_abs_parent [OF abs] by auto
      moreover have "template_loop T s (Some x) = Some (T\<lparr>template_op := (template_op T)(s := template_op T s)\<rparr>)"
        using None step by (simp add: template_loop.simps)
      ultimately show ?thesis using False by blast
    next
      case (Some y)
      then have y: "x \<in> set (F y)" using tree_abs_parent [OF abs] by blast
      have up: "y \<in> below F a" if "x \<in> below F a" "x \<noteq> a" for a
        using below_cases [OF that(1)] that(2) y op_tree.one_parent [OF abs] by metis
      have "x \<noteq> r" using y top by blast
      then have "y \<in> below F r" using up less.prems by blast
      moreover have "rank y < rank x" using rk y by (simp add: ranked_def)
      ultimately obtain t where t: "template_loop T s (Some y) = Some (T\<lparr>template_op := (template_op T)(s := t)\<rparr>)"
        "(\<exists>a. isPipelineNode T a \<and> y \<in> below F a) \<longrightarrow> t \<noteq> None"
        using less.IH by blast
      moreover have "\<exists>a. isPipelineNode T a \<and> y \<in> below F a" if "isPipelineNode T a" "x \<in> below F a" for a
        using that up [of a] False by blast
      ultimately show ?thesis using step [unfolded Some] by (intro exI [of _ t] conjI impI) (simp only:, blast)
    qed
  qed
qed

text \<open>What the legalizer expects of the pipelines it takes templates from.\<close>

definition templated :: "ptree \<Rightarrow> (ptr \<Rightarrow> ptr list) \<Rightarrow> ptr \<Rightarrow> bool" where
  "templated T F r \<longleftrightarrow>
     (\<forall>n\<in>below F r. isPipelineNode T n \<longrightarrow> operation_op T n \<noteq> None \<or> template_op T n \<noteq> None) \<and>
     (\<forall>q\<in>below F r. \<not> isPipelineNode T q \<longrightarrow> (\<exists>c\<in>set (F q). isStageNode T c) \<longrightarrow>
        (\<exists>a. isPipelineNode T a \<and> q \<in> below F a))"

lemma parent_fix_step:
  assumes S: "sound_tree T F r" and q: "q \<in> below F r" "\<not> isPipelineNode T q"
    and n: "n \<in> set (F q)" "isStageNode T n" and tm: "templated T F r"
  defines "s \<equiv> next_ptr T" and "as \<equiv> takeWhile (\<lambda>c. \<not> isStageNode T c) (F q)"
    and "st \<equiv> filter (isStageNode T) (F q)"
  defines "F' \<equiv> F(q := put_at as s (drop (length as) (filter (\<lambda>c. \<not> isStageNode T c) (F q))), s := st)"
  shows "\<exists>T'. parent_fix n (T, i) = Some (T', i) \<and> tree_abs T' F' \<and> added PipelineNode T T' \<and>
    wraps F q (set st) s F' \<and> template_op T' s \<noteq> None"
proof -
  note abs = sound_treeD(1) [OF S]
  have qs: "q < s" using sound_below [OF S q(1)] by (simp add: s_def)
  have sF: "s \<notin> set (F m)" for m using sound_child [OF S, of s m] by (auto simp: s_def)
  obtain T1 where T1: "createPipelineNode None T = (T1, s)" "tree_abs T1 F" "added PipelineNode T T1"
    "parent_node T1 = parent_node T" "parent_node T1 s = None" "F s = []"
    using create_node_added [OF abs sound_treeD(2) [OF S], of PipelineNode]
    unfolding createPipelineNode_def s_def by blast
  have k1: "isPipelineNode T1 a = isPipelineNode T a" "isStageNode T1 a = isStageNode T a"
    "operation_op T1 a = operation_op T a" "template_op T1 a = template_op T a" if "a < s" for a
    using T1(3) that by (simp_all add: added_def isPipelineNode_def isStageNode_def s_def)
  have par: "parent_node T n = Some q" using n(1) tree_abs_parent [OF abs] by blast
  obtain rank where rk: "ranked F rank" using sound_treeD(3) [OF S] ..
  have full: "operation_op T1 a \<noteq> None \<or> template_op T1 a \<noteq> None" if "a \<in> below F r" "isPipelineNode T1 a" for a
    using that tm sound_below [OF S that(1)] k1 by (auto simp: templated_def s_def)
  have anc: "\<exists>a. isPipelineNode T1 a \<and> q \<in> below F a"
  proof -
    obtain a where a: "isPipelineNode T a" "q \<in> below F a" using tm q n by (auto simp: templated_def)
    then have "a = q \<or> F a \<noteq> []" using below_step [of F a] by (cases "F a") auto
    then have "a < s" using qs fresh_parent [OF abs sound_treeD(2) [OF S], of a] by (auto simp: s_def)
    then show ?thesis using a k1 by blast
  qed
  obtain t T2 where T2: "template_loop T1 s (parent_node T1 q) = Some T2"
    "T2 = T1\<lparr>template_op := (template_op T1)(s := t)\<rparr>" "t \<noteq> None"
  proof -
    obtain a where a: "isPipelineNode T1 a" "q \<in> below F a" "q \<noteq> a" using anc q(2) k1(1) qs by metis
    then obtain p where p: "p \<in> below F a" "q \<in> set (F p)" using below_cases by blast
    have "q \<noteq> r" using p(2) sound_treeD(5) [OF S] by blast
    then obtain p' where "p' \<in> below F r" "q \<in> set (F p')" using below_cases [OF q(1)] by blast
    then have "p \<in> below F r" using op_tree.one_parent [OF abs p(2)] by blast
    moreover have "operation_op T1 s = None" using T1(3) by (simp add: added_def s_def)
    ultimately obtain t where "template_loop T1 s (Some p) = Some (T1\<lparr>template_op := (template_op T1)(s := t)\<rparr>)"
      "t \<noteq> None"
      using template_loop_result [OF T1(2) rk sound_treeD(5) [OF S] full, of s p] a(1) p(1) by blast
    moreover have "parent_node T1 q = Some p" using p(2) tree_abs_parent [OF T1(2)] by blast
    ultimately show ?thesis using that by simp
  qed
  have T2f: "tree_abs T2 F" "added PipelineNode T T2" "parent_node T2 s = None" "template_op T2 s \<noteq> None"
    using tree_abs_links_cong [OF T1(2), of T2] T1(3,5) T2(2,3) by (auto simp: added_def s_def)
  have kst: "isStageNode T2 c = isStageNode T c" if "c \<in> set (F q)" for c
    using T2(2) k1(2) [of c] sound_child [OF S that] by (simp add: isStageNode_def s_def)
  have stages: "stages_loop T2 (first_child T2 q) [] = Some st"
    using stages_loop_links [OF tree_abs_links [OF T2f(1)], of q "[]"] kst
    by (simp add: st_def cong: filter_cong)
  obtain g bs where F: "F q = as @ g # bs" "isStageNode T g"
  proof -
    have "dropWhile (\<lambda>c. \<not> isStageNode T c) (F q) \<noteq> []" using n by (auto simp: dropWhile_eq_Nil_conv)
    then obtain g bs where gb: "dropWhile (\<lambda>c. \<not> isStageNode T c) (F q) = g # bs" by (cases "dropWhile (\<lambda>c. \<not> isStageNode T c) (F q)") auto
    then have "isStageNode T g" using hd_dropWhile [of "\<lambda>c. \<not> isStageNode T c" "F q"] by simp
    with gb show ?thesis using that [of g bs] takeWhile_dropWhile_id [of "\<lambda>c. \<not> isStageNode T c" "F q"] by (simp add: as_def)
  qed
  have no_as: "\<forall>c\<in>set as. \<not> isStageNode T c" unfolding as_def by (auto dest: set_takeWhileD)
  then have st: "st = g # filter (isStageNode T) bs" using F by (simp add: st_def filter_empty_conv)
  have d: "distinct (as @ g # bs)" using tree_abs_distinct [OF abs, of q] F by simp
  have "parent_node T2 g = Some q" using tree_abs_parent [OF T2f(1), of g q] F by simp
  from getPrevSibling_abs [OF T2f(1) this] have prev:
    "getPrevSibling T2 (hd st) = Some (if as = [] then None else Some (last as))"
    using left_of_split [of g as bs] F d st by simp
  obtain T3 where T3: "insertChildNode T2 q s (if as = [] then None else Some (last as)) = Some T3" "same_rest T2 T3"
    "tree_abs T3 (F(q := put_at as s (g # bs)))"
    using insert_put_at [OF T2f(1,3) F(1)] by blast
  let ?F3 = "F(q := put_at as s (g # bs))"
  have sst: "s \<notin> set st" using sF [of q] by (simp add: st_def)
  obtain T4 where T4: "move_children s st T3 = Some T4" "same_rest T3 T4"
    "tree_abs T4 (?F3(q := filter (\<lambda>y. y \<notin> set st) (?F3 q), s := ?F3 s @ st))"
  proof -
    have "distinct st" "set st \<subseteq> set (?F3 q)" "q \<noteq> s" using d F qs by (auto simp: st_def)
    from move_children_abs [OF T3(3) this] show ?thesis using that by blast
  qed
  have in_st: "y \<in> set st \<longleftrightarrow> isStageNode T y" if "y \<in> set (as @ g # bs)" for y
    using that F by (auto simp: st_def)
  have fil: "filter (\<lambda>y. y \<notin> set st) as = as" "filter (\<lambda>y. y \<notin> set st) bs = filter (\<lambda>c. \<not> isStageNode T c) bs"
    using in_st no_as by (auto simp: filter_id_conv intro: filter_cong)
  have "filter (\<lambda>c. \<not> isStageNode T c) (F q) = as @ filter (\<lambda>c. \<not> isStageNode T c) bs"
    using F no_as by (simp add: filter_id_conv)
  then have F'q: "F' q = put_at as s (filter (\<lambda>c. \<not> isStageNode T c) bs)"
    using qs by (simp add: F'_def)
  have "filter (\<lambda>y. y \<notin> set st) (put_at as s (g # bs)) = put_at as s (filter (\<lambda>c. \<not> isStageNode T c) bs)"
    using fil sst st by (simp add: put_at_def)
  then have F4: "?F3(q := filter (\<lambda>y. y \<notin> set st) (?F3 q), s := ?F3 s @ st) = F'"
    using F'q T1(6) qs by (auto simp: F'_def fun_eq_iff)
  have rest: "same_rest T2 T4" using same_rest_trans [OF T3(2) T4(2)] .
  have "added PipelineNode T T4" "template_op T4 s \<noteq> None"
    using T2f(2,4) same_rest_ptree [OF rest] by (simp_all add: added_def)
  moreover have "wraps F q (set st) s F'"
    unfolding wraps_def
  proof (intro conjI allI impI)
    show "set (F' q) = insert s (set (F q) - set st)"
      unfolding F'q using F no_as in_st by (auto simp: st_def)
  qed (use qs T1(6) sF in \<open>auto simp: F'_def st_def\<close>)
  moreover have "parent_fix n (T, i) = Some (T4, i)"
    using n(2) par q(2) T1(1) T2(1) stages st prev T3(1) T4(1)
    by (simp add: parent_fix_def)
  ultimately show ?thesis using T4(3) unfolding F4 by blast
qed

section \<open>What every repair keeps\<close>

text \<open>
  \<open>grows r T F T' F'\<close>: new nodes came in below \<open>r\<close>, every old node kept its fields and is still below
  the nodes that it was below.
\<close>

definition grows ::
  "ptr \<Rightarrow> ptree \<Rightarrow> (ptr \<Rightarrow> ptr list) \<Rightarrow> ptree \<Rightarrow> (ptr \<Rightarrow> ptr list) \<Rightarrow> bool" where
  "grows r T F T' F' \<longleftrightarrow>
     sound_tree T' F' r \<and> next_ptr T \<le> next_ptr T' \<and>
     (\<forall>m<next_ptr T. kind T' m = kind T m \<and> operation_op T' m = operation_op T m \<and>
        dependencies T' m = dependencies T m \<and> template_op T' m = template_op T m) \<and>
     below F' r = below F r \<union> {next_ptr T..<next_ptr T'} \<and>
     (\<forall>a m. m \<in> below F a \<longrightarrow> m \<in> below F' a)"

lemma growsD:
  assumes "grows r T F T' F'"
  shows "sound_tree T' F' r" and "next_ptr T \<le> next_ptr T'"
    and "m < next_ptr T \<Longrightarrow> isStageNode T' m = isStageNode T m"
    and "m < next_ptr T \<Longrightarrow> isPipelineNode T' m = isPipelineNode T m"
    and "m < next_ptr T \<Longrightarrow> isPrivateNode T' m = isPrivateNode T m"
    and "m < next_ptr T \<Longrightarrow> illegal_child T' m = illegal_child T m"
    and "m < next_ptr T \<Longrightarrow> operation_op T' m = operation_op T m"
    and "m < next_ptr T \<Longrightarrow> dependencies T' m = dependencies T m"
    and "m < next_ptr T \<Longrightarrow> template_op T' m = template_op T m"
    and "below F' r = below F r \<union> {next_ptr T..<next_ptr T'}"
    and "m \<in> below F a \<Longrightarrow> m \<in> below F' a"
  using assms
  by (simp_all add: grows_def isStageNode_def isPipelineNode_def isPrivateNode_def illegal_child_def)

lemma grows_refl: "sound_tree T F r \<Longrightarrow> grows r T F T F"
  by (simp add: grows_def)

lemma grows_trans:
  assumes "grows r T F T1 F1" and "grows r T1 F1 T2 F2"
  shows "grows r T F T2 F2"
proof -
  note A = assms(1) [unfolded grows_def] and B = assms(2) [unfolded grows_def]
  have "{next_ptr T..<next_ptr T1} \<union> {next_ptr T1..<next_ptr T2} = {next_ptr T..<next_ptr T2}"
    using A B by (intro ivl_disj_un_two(3)) auto
  then have "below F2 r = below F r \<union> {next_ptr T..<next_ptr T2}"
    using A B by (metis sup_assoc)
  then show ?thesis unfolding grows_def using A B by auto
qed

lemma grows_step:
  assumes S: "sound_tree T F r" and n: "n \<in> below F r" and "tree_abs T' F'" and a: "added k T T'"
    and w: "wraps F n G (next_ptr T) F'"
  shows "grows r T F T' F'"
proof -
  note W = sound_wraps [OF S assms(3) n w a]
  have "below F' r = below F r \<union> {next_ptr T..<next_ptr T'}" using W(2) a by (auto simp: added_def)
  then show ?thesis using W(1) a below_wraps_mono [OF w] by (simp add: grows_def added_def)
qed

section \<open>Runs of illegal children\<close>

fun runs :: "(ptr \<Rightarrow> bool) \<Rightarrow> ptr list \<Rightarrow> ptr list list \<Rightarrow> ptr list \<Rightarrow> ptr list list" where
  "runs P [] gs cur = (if cur \<noteq> [] then gs @ [cur] else gs)"
| "runs P (c # cs) gs cur =
     (if P c then runs P cs gs (cur @ [c]) else runs P cs (if cur \<noteq> [] then gs @ [cur] else gs) [])"

lemma groups_loop_links:
  "links (next_sibling T) p xs None \<Longrightarrow> groups_loop T p gs cur = Some (runs (illegal_child T) xs gs cur)"
  by (induction xs arbitrary: p gs cur) (auto simp: groups_loop.simps)

text \<open>The groups are the maximal runs, in order.\<close>

inductive grouped :: "(ptr \<Rightarrow> bool) \<Rightarrow> ptr list \<Rightarrow> ptr list list \<Rightarrow> bool" for P where
  grouped_Nil: "(\<And>c. c \<in> set L \<Longrightarrow> \<not> P c) \<Longrightarrow> grouped P L []"
| grouped_Cons: "(\<And>c. c \<in> set L \<Longrightarrow> \<not> P c) \<Longrightarrow> G \<noteq> [] \<Longrightarrow> (\<And>c. c \<in> set G \<Longrightarrow> P c) \<Longrightarrow>
    grouped P xs Gs \<Longrightarrow> xs = [] \<or> \<not> P (hd xs) \<Longrightarrow> grouped P (L @ G @ xs) (G # Gs)"

lemma grouped_legal: "grouped P xs Gs \<Longrightarrow> \<not> P c \<Longrightarrow> grouped P (c # xs) Gs"
proof (induction rule: grouped.induct)
  case (grouped_Nil L)
  then show ?case by (intro grouped.grouped_Nil) auto
next
  case (grouped_Cons L G xs Gs)
  have "grouped P ((c # L) @ G @ xs) (G # Gs)"
    using grouped_Cons by (intro grouped.grouped_Cons) auto
  then show ?case by simp
qed

lemma runs_grouped:
  "(\<And>c. c \<in> set cur \<Longrightarrow> P c) \<Longrightarrow> \<exists>Gs. runs P xs gs cur = gs @ Gs \<and> grouped P (cur @ xs) Gs"
proof (induction xs arbitrary: gs cur)
  case Nil
  have nil: "grouped P [] []" by (rule grouped_Nil) simp
  show ?case
  proof (cases "cur = []")
    case False
    have "grouped P ([] @ cur @ []) [cur]" using False Nil nil by (intro grouped_Cons) auto
    then show ?thesis using False by auto
  qed (use nil in auto)
next
  case (Cons c cs)
  show ?case
  proof (cases "P c")
    case True
    then show ?thesis using Cons.IH [of "cur @ [c]" gs] Cons.prems by auto
  next
    case False
    let ?gs = "if cur \<noteq> [] then gs @ [cur] else gs"
    obtain Gs where Gs: "runs P cs ?gs [] = ?gs @ Gs" "grouped P cs Gs"
      using Cons.IH [of "[]" ?gs] by auto
    have g: "grouped P (c # cs) Gs" using Gs(2) False by (rule grouped_legal)
    show ?thesis
    proof (cases "cur = []")
      case True
      then show ?thesis using Gs g False by auto
    next
      case nonempty: False
      have "grouped P ([] @ cur @ c # cs) (cur # Gs)"
        using nonempty g False Cons.prems by (intro grouped_Cons) auto
      then show ?thesis using Gs(1) False nonempty by auto
    qed
  qed
qed

text \<open>Undoing the wrapping of a list: the new nodes, from \<open>N\<close> on, give way to their children.\<close>

definition unwrap :: "nat \<Rightarrow> (ptr \<Rightarrow> ptr list) \<Rightarrow> ptr list \<Rightarrow> ptr list" where
  "unwrap N F xs = concat (map (\<lambda>c. if c < N then [c] else F c) xs)"

lemma unwrap_old: "(\<And>c. c \<in> set xs \<Longrightarrow> c < N) \<Longrightarrow> unwrap N F xs = xs"
  by (induction xs) (auto simp: unwrap_def)

lemma unwrap_Nil [simp]: "unwrap N F [] = []"
  by (simp add: unwrap_def)

lemma unwrap_append [simp]: "unwrap N F (xs @ ys) = unwrap N F xs @ unwrap N F ys"
  by (simp add: unwrap_def)

lemma unwrap_Cons [simp]: "unwrap N F (x # xs) = (if x < N then [x] else F x) @ unwrap N F xs"
  by (simp add: unwrap_def)

lemma unwrap_Suc: "N \<notin> set xs \<Longrightarrow> unwrap (Suc N) F xs = unwrap N F xs"
  by (induction xs) (auto simp: unwrap_def less_Suc_eq)

text \<open>The new stages of a repair of the first rule.\<close>

definition coarse_stage :: "(ptr \<Rightarrow> bool) \<Rightarrow> ptree \<Rightarrow> (ptr \<Rightarrow> ptr list) \<Rightarrow> ptr \<Rightarrow> bool" where
  "coarse_stage P T F m \<longleftrightarrow>
     isStageNode T m \<and> operation_op T m = None \<and> dependencies T m = [] \<and> F m \<noteq> [] \<and> (\<forall>c\<in>set (F m). P c)"

lemma wrap_groups_in_place:
  assumes "grouped P xs Gs" and "sound_tree T F r" and "n \<in> below F r" and "F n = A @ xs @ B"
    and "A \<noteq> [] \<or> xs = [] \<or> \<not> P (hd xs)"
  shows "\<exists>T' F' ys. foldM (wrap_group n) Gs (T, i) = Some (T', i + int (length Gs)) \<and> grows r T F T' F' \<and>
    next_ptr T' = next_ptr T + length Gs \<and>
    (\<forall>m<next_ptr T. m \<noteq> n \<longrightarrow> F' m = F m) \<and> F' n = A @ ys @ B \<and>
    takeWhile (\<lambda>c. \<not> P c) xs = take (length (takeWhile (\<lambda>c. \<not> P c) xs)) ys \<and>
    set ys = {c \<in> set xs. \<not> P c} \<union> {next_ptr T..<next_ptr T'} \<and> unwrap (next_ptr T) F' ys = xs \<and>
    (\<forall>m\<in>{next_ptr T..<next_ptr T'}. coarse_stage P T' F' m)"
  using assms
proof (induction arbitrary: T F A i rule: grouped.induct)
  case (grouped_Nil L)
  have old: "c < next_ptr T" if "c \<in> set L" for c using sound_child [OF grouped_Nil.prems(1), of c n] that grouped_Nil.prems(3) by simp
  have L: "takeWhile (\<lambda>c. \<not> P c) L = L" using grouped_Nil.hyps by (simp add: takeWhile_eq_all_conv)
  show ?case
  proof (rule exI [of _ T], rule exI [of _ F], rule exI [of _ L], intro conjI)
    show "takeWhile (\<lambda>c. \<not> P c) L = take (length (takeWhile (\<lambda>c. \<not> P c) L)) L" unfolding L by simp
    show "unwrap (next_ptr T) F L = L" using old by (rule unwrap_old)
    show "grows r T F T F" using grouped_Nil.prems(1) by (rule grows_refl)
    show "set L = {c \<in> set L. \<not> P c} \<union> {next_ptr T..<next_ptr T}" using grouped_Nil.hyps by auto
  qed (use grouped_Nil.prems in simp_all)
next
  case (grouped_Cons L G xs Gs)
  let ?s = "next_ptr T"
  have AL: "A @ L \<noteq> []"
  proof
    assume "A @ L = []"
    then show False using grouped_Cons.prems(4) grouped_Cons.hyps(2,3) by (cases G) auto
  qed
  have Fn: "F n = (A @ L) @ G @ (xs @ B)" using grouped_Cons.prems(3) by simp
  let ?F1 = "F(n := put_at (A @ L) ?s (xs @ B), ?s := G)"
  obtain T1 where T1: "wrap_group n G (T, i) = Some (T1, i + 1)" "tree_abs T1 ?F1" "added (StageNode i) T T1"
    "wraps F n (set G) ?s ?F1"
    using wrap_group_step [OF grouped_Cons.prems(1,2) Fn grouped_Cons.hyps(2)] by blast
  have g1: "grows r T F T1 ?F1" by (rule grows_step [OF grouped_Cons.prems(1,2) T1(2,3,4)])
  have nx: "next_ptr T1 = Suc ?s" using T1(3) by (simp add: added_def)
  have ns: "n < ?s" by (rule sound_below [OF grouped_Cons.prems(1,2)])
  have F1n: "?F1 n = (A @ L @ [?s]) @ xs @ B" using ns AL by (auto simp: put_at_def)
  have n1: "n \<in> below ?F1 r" using growsD(10) [OF g1] grouped_Cons.prems(2) by blast
  obtain T2 F2 ys where I: "foldM (wrap_group n) Gs (T1, i + 1) = Some (T2, i + 1 + int (length Gs))"
    "grows r T1 ?F1 T2 F2" "next_ptr T2 = next_ptr T1 + length Gs"
    "\<forall>m<next_ptr T1. m \<noteq> n \<longrightarrow> F2 m = ?F1 m" "F2 n = (A @ L @ [?s]) @ ys @ B"
    "set ys = {c \<in> set xs. \<not> P c} \<union> {next_ptr T1..<next_ptr T2}" "unwrap (next_ptr T1) F2 ys = xs"
    "\<forall>m\<in>{next_ptr T1..<next_ptr T2}. coarse_stage P T2 F2 m"
  proof -
    have "A @ L @ [?s] \<noteq> [] \<or> xs = [] \<or> \<not> P (hd xs)" by simp
    from grouped_Cons.IH [OF growsD(1) [OF g1] n1 F1n this, of "i + 1"] show ?thesis
      by (elim exE conjE) (rule that)
  qed
  have old: "c < ?s" if "c \<in> set (F n)" for c using sound_child [OF grouped_Cons.prems(1) that] .
  have "?s \<notin> set ys" using I(6) old nx Fn by auto
  then have un: "unwrap ?s F2 ys = xs" using I(7) unwrap_Suc [of ?s ys F2] by (simp add: nx)
  have Ls: "unwrap ?s F2 L = L" using old Fn by (intro unwrap_old) auto
  have F2s: "F2 ?s = G" using I(4) nx ns by simp
  have tw: "takeWhile (\<lambda>c. \<not> P c) (L @ G @ xs) = L"
  proof -
    have "takeWhile (\<lambda>c. \<not> P c) L = L" using grouped_Cons.hyps(1) by (simp add: takeWhile_eq_all_conv)
    then show ?thesis using grouped_Cons.hyps(1-3) by (cases G) (simp_all add: takeWhile_append)
  qed
  have s_new: "coarse_stage P T2 F2 ?s"
    using T1(3) I(2) grouped_Cons.hyps(2,3) growsD(3,7,8) [OF I(2), of ?s] F2s nx
    by (simp add: coarse_stage_def added_def isStageNode_def)
  have rng: "{?s..<next_ptr T2} = insert ?s {next_ptr T1..<next_ptr T2}" using I(3) nx by auto
  show ?case
  proof (rule exI [of _ T2], rule exI [of _ F2], rule exI [of _ "L @ [?s] @ ys"], intro conjI)
    show "foldM (wrap_group n) (G # Gs) (T, i) = Some (T2, i + int (length (G # Gs)))" using T1(1) I(1) by (simp add: add.assoc)
    show "grows r T F T2 F2" by (rule grows_trans [OF g1 I(2)])
    show "next_ptr T2 = ?s + length (G # Gs)" using I(3) nx by simp
    show "\<forall>m<?s. m \<noteq> n \<longrightarrow> F2 m = F m" using I(4) nx by simp
    show "F2 n = A @ (L @ [?s] @ ys) @ B" using I(5) by simp
    show "takeWhile (\<lambda>c. \<not> P c) (L @ G @ xs) = take (length (takeWhile (\<lambda>c. \<not> P c) (L @ G @ xs))) (L @ [?s] @ ys)"
      unfolding tw by simp
    show "set (L @ [?s] @ ys) = {c \<in> set (L @ G @ xs). \<not> P c} \<union> {?s..<next_ptr T2}"
      using grouped_Cons.hyps(1,3) I(6) unfolding rng by auto
    show "unwrap ?s F2 (L @ [?s] @ ys) = L @ G @ xs" using un Ls F2s by simp
    show "\<forall>m\<in>{?s..<next_ptr T2}. coarse_stage P T2 F2 m" unfolding rng using I(8) s_new by simp
  qed
qed

text \<open>
  The repair of the first rule: the legal children keep their order, each run of illegal ones becomes
  the children of a new stage, in its place, except that a run at the front goes to the end.
\<close>

lemma children_fix_step:
  assumes S: "sound_tree T F r" and n: "n \<in> below F r" and p: "isPipelineNode T n"
  defines "P \<equiv> illegal_child T" and "s \<equiv> next_ptr T"
  shows "\<exists>T' F' k. children_fix n (T, i) = Some (T', i + int k) \<and> next_ptr T' = s + k \<and> grows r T F T' F' \<and>
    (\<forall>m<s. m \<noteq> n \<longrightarrow> F' m = F m) \<and>
    set (F' n) = {c \<in> set (F n). \<not> P c} \<union> {s..<s + k} \<and>
    (\<forall>m\<in>{s..<s + k}. coarse_stage P T' F' m) \<and>
    unwrap s F' (F' n) = dropWhile P (F n) @ takeWhile P (F n) \<and>
    (F n \<noteq> [] \<and> \<not> P (hd (F n)) \<longrightarrow>
      takeWhile (\<lambda>c. \<not> P c) (F n) = take (length (takeWhile (\<lambda>c. \<not> P c) (F n))) (F' n))"
proof -
  obtain Gs where Gs: "runs P (F n) [] [] = Gs" "grouped P (F n) Gs"
    using runs_grouped [of "[]" P "F n" "[]"] by auto
  have eq: "children_fix n (T, i) = foldM (wrap_group n) Gs (T, i)"
    using p groups_loop_links [OF tree_abs_links [OF sound_treeD(1) [OF S]], of n "[]" "[]"] Gs(1)
    by (simp add: children_fix_def P_def)
  show ?thesis
  proof (cases "F n = [] \<or> \<not> P (hd (F n))")
    case True
    then have "dropWhile P (F n) = F n" "takeWhile P (F n) = []" by (cases "F n"; simp)+
    moreover obtain T' F' ys where "foldM (wrap_group n) Gs (T, i) = Some (T', i + int (length Gs))" "grows r T F T' F'"
      "next_ptr T' = s + length Gs" "\<forall>m<s. m \<noteq> n \<longrightarrow> F' m = F m" "F' n = ys"
      "takeWhile (\<lambda>c. \<not> P c) (F n) = take (length (takeWhile (\<lambda>c. \<not> P c) (F n))) ys"
      "set ys = {c \<in> set (F n). \<not> P c} \<union> {s..<next_ptr T'}" "unwrap s F' ys = F n"
      "\<forall>m\<in>{s..<next_ptr T'}. coarse_stage P T' F' m"
    proof -
      have "F n = [] @ F n @ []" "[] \<noteq> ([] :: ptr list) \<or> F n = [] \<or> \<not> P (hd (F n))" using True by auto
      from wrap_groups_in_place [OF Gs(2) S n this, of i, folded s_def] show ?thesis
        unfolding append_Nil append_Nil2 by (elim exE conjE) (rule that)
    qed
    ultimately show ?thesis unfolding eq
      by (intro exI [of _ T'] exI [of _ F'] exI [of _ "length Gs"]) simp
  next
    case False
    from Gs(2) obtain G xs Hs where G: "F n = G @ xs" "Gs = G # Hs" "G \<noteq> []" "\<And>c. c \<in> set G \<Longrightarrow> P c"
      "grouped P xs Hs" "xs = [] \<or> \<not> P (hd xs)"
    proof cases
      case grouped_Nil
      then show ?thesis using False by (cases "F n") auto
    next
      case (grouped_Cons L G xs Gs')
      have "L = []" using grouped_Cons False by (cases L) auto
      then show ?thesis using that grouped_Cons by simp
    qed
    have tw: "takeWhile P (G @ xs) = G" "dropWhile P (G @ xs) = xs"
    proof -
      have "takeWhile P xs = []" "dropWhile P xs = xs" using G(6) by (cases xs; simp)+
      then show "takeWhile P (G @ xs) = G" "dropWhile P (G @ xs) = xs" using G(4) by simp_all
    qed
    let ?F1 = "F(n := put_at [] s (xs @ []), s := G)"
    have Fn: "F n = [] @ G @ xs @ []" using G(1) by simp
    obtain T1 where T1: "wrap_group n G (T, i) = Some (T1, i + 1)" "tree_abs T1 ?F1" "added (StageNode i) T T1"
      "wraps F n (set G) s ?F1"
      using wrap_group_step [OF S n Fn G(3)] unfolding s_def by blast
    have g1: "grows r T F T1 ?F1" by (rule grows_step [OF S n T1(2,3), of "set G", folded s_def]) (rule T1(4))
    have nx: "next_ptr T1 = Suc s" using T1(3) by (simp add: added_def s_def)
    have ns: "n < s" unfolding s_def by (rule sound_below [OF S n])
    have F1n: "?F1 n = [] @ xs @ [s]" using ns by (simp add: put_at_def)
    have n1: "n \<in> below ?F1 r" using growsD(10) [OF g1] n by blast
    obtain T2 F2 ys where I: "foldM (wrap_group n) Hs (T1, i + 1) = Some (T2, i + 1 + int (length Hs))"
      "grows r T1 ?F1 T2 F2" "next_ptr T2 = Suc s + length Hs"
      "\<forall>m<Suc s. m \<noteq> n \<longrightarrow> F2 m = ?F1 m" "F2 n = ys @ [s]"
      "set ys = {c \<in> set xs. \<not> P c} \<union> {Suc s..<next_ptr T2}" "unwrap (Suc s) F2 ys = xs"
      "\<forall>m\<in>{Suc s..<next_ptr T2}. coarse_stage P T2 F2 m"
    proof -
      have "[] \<noteq> ([] :: ptr list) \<or> xs = [] \<or> \<not> P (hd xs)" using G(6) by blast
      from wrap_groups_in_place [OF G(5) growsD(1) [OF g1] n1 F1n this, of "i + 1"] show ?thesis
        unfolding nx append_Nil by (elim exE conjE) (rule that)
    qed
    have old: "c < s" if "c \<in> set (F n)" for c using sound_child [OF S that] by (simp add: s_def)
    have "s \<notin> set ys" using I(6) old G(1) by auto
    then have un: "unwrap s F2 ys = xs" using I(7) unwrap_Suc [of s ys F2] by simp
    have F2s: "F2 s = G" using I(4) ns by simp
    have s_new: "coarse_stage P T2 F2 s"
      using T1(3) G(3,4) growsD(3,7,8) [OF I(2), of s] F2s nx
      by (simp add: coarse_stage_def added_def isStageNode_def s_def)
    have rng: "{s..<next_ptr T2} = insert s {Suc s..<next_ptr T2}" "next_ptr T2 = s + Suc (length Hs)"
      using I(3) by auto
    show ?thesis
    proof (rule exI [of _ T2], rule exI [of _ F2], rule exI [of _ "Suc (length Hs)"], intro conjI)
      show "children_fix n (T, i) = Some (T2, i + int (Suc (length Hs)))" unfolding eq G(2) using T1(1) I(1) by (simp add: add.assoc)
      show "next_ptr T2 = s + Suc (length Hs)" by (rule rng)
      show "grows r T F T2 F2" by (rule grows_trans [OF g1 I(2)])
      show "\<forall>m<s. m \<noteq> n \<longrightarrow> F2 m = F m" using I(4) by simp
      show "set (F2 n) = {c \<in> set (F n). \<not> P c} \<union> {s..<s + Suc (length Hs)}"
        unfolding rng(2) [symmetric] rng(1) I(5) G(1) using G(4) I(6) by auto
      show "\<forall>m\<in>{s..<s + Suc (length Hs)}. coarse_stage P T2 F2 m"
        unfolding rng(2) [symmetric] rng(1) using I(8) s_new by simp
      show "unwrap s F2 (F2 n) = dropWhile P (F n) @ takeWhile P (F n)"
        unfolding I(5) G(1) tw using un F2s by simp
    qed (use False in blast)
  qed
qed

section \<open>The work that is left\<close>

text \<open>
  A tree on which the checks return: below the root, a pipeline starts with a private node, or the
  loop of the third rule meets a stage with dependencies before it meets a child that is no stage.
\<close>

definition checkable :: "ptree \<Rightarrow> (ptr \<Rightarrow> ptr list) \<Rightarrow> ptr \<Rightarrow> bool" where
  "checkable T F n \<longleftrightarrow> isPipelineNode T n \<longrightarrow> private_first T F n \<or> deps_scan T (F n) \<noteq> None"

definition legal_tree :: "ptree \<Rightarrow> (ptr \<Rightarrow> ptr list) \<Rightarrow> ptr \<Rightarrow> bool" where
  "legal_tree T F r \<longleftrightarrow> sound_tree T F r \<and> templated T F r \<and> (\<forall>n\<in>below F r. checkable T F n)"

text \<open>
  The nodes with work: a pipeline with illegal children; a node that is no pipeline with stages below
  it, twice if one of the stages has dependencies, as a private node will be needed then; and a
  pipeline that lacks its private node.
\<close>

definition mixed :: "ptree \<Rightarrow> (ptr \<Rightarrow> ptr list) \<Rightarrow> ptr \<Rightarrow> bool" where
  "mixed T F n \<longleftrightarrow> isPipelineNode T n \<and> (\<exists>c\<in>set (F n). illegal_child T c)"

definition loose :: "ptree \<Rightarrow> (ptr \<Rightarrow> ptr list) \<Rightarrow> ptr \<Rightarrow> bool" where
  "loose T F n \<longleftrightarrow> \<not> isPipelineNode T n \<and> (\<exists>c\<in>set (F n). isStageNode T c)"

definition has_deps :: "ptree \<Rightarrow> (ptr \<Rightarrow> ptr list) \<Rightarrow> ptr \<Rightarrow> bool" where
  "has_deps T F n \<longleftrightarrow> (\<exists>c\<in>set (F n). isStageNode T c \<and> dependencies T c \<noteq> [])"

definition unprivate :: "ptree \<Rightarrow> (ptr \<Rightarrow> ptr list) \<Rightarrow> ptr \<Rightarrow> bool" where
  "unprivate T F n \<longleftrightarrow> isPipelineNode T n \<and> \<not> private_first T F n \<and> has_deps T F n"

definition at_work :: "(ptr \<Rightarrow> bool) \<Rightarrow> (ptr \<Rightarrow> ptr list) \<Rightarrow> ptr \<Rightarrow> ptr set" where
  "at_work Q F r = {n \<in> below F r. Q n}"

definition work :: "ptree \<Rightarrow> (ptr \<Rightarrow> ptr list) \<Rightarrow> ptr \<Rightarrow> nat" where
  "work T F r = card (at_work (mixed T F) F r) + card (at_work (loose T F) F r) +
     card (at_work (\<lambda>n. loose T F n \<and> has_deps T F n) F r) + card (at_work (unprivate T F) F r)"

lemma finite_at_work: "sound_tree T F r \<Longrightarrow> finite (at_work Q F r)"
  by (rule finite_subset [of _ "{..<next_ptr T}"]) (auto simp: at_work_def dest: sound_below)

lemma work_0:
  assumes "sound_tree T F r"
  shows "work T F r = 0 \<longleftrightarrow> (\<forall>n\<in>below F r. \<not> mixed T F n \<and> \<not> loose T F n \<and> \<not> unprivate T F n)"
  using finite_at_work [OF assms] by (auto simp: work_def) (auto simp: at_work_def)

text \<open>Nodes whose children stay are as before.\<close>

lemma deps_scan_cong:
  "(\<And>c. c \<in> set cs \<Longrightarrow> isStageNode T' c = isStageNode T c \<and> dependencies T' c = dependencies T c) \<Longrightarrow>
   deps_scan T' cs = deps_scan T cs"
  by (induction cs) auto

lemma kept_node:
  assumes S: "sound_tree T F r" and g: "grows r T F T' F'" and m: "m < next_ptr T" "F' m = F m"
  shows "mixed T' F' m = mixed T F m" and "loose T' F' m = loose T F m" and "has_deps T' F' m = has_deps T F m"
    and "unprivate T' F' m = unprivate T F m" and "checkable T' F' m = checkable T F m"
    and "private_first T' F' m = private_first T F m"
proof -
  have c: "c < next_ptr T" if "c \<in> set (F m)" for c using sound_child [OF S that] .
  have ds: "deps_scan T' (F m) = deps_scan T (F m)"
    using growsD(3,8) [OF g c] by (intro deps_scan_cong) simp
  note k = growsD(3,4,5,6,8) [OF g]
  show a: "mixed T' F' m = mixed T F m" "loose T' F' m = loose T F m" "has_deps T' F' m = has_deps T F m"
    using k(2) [OF m(1)] k c unfolding mixed_def loose_def has_deps_def m(2) by (simp_all cong: bex_cong)
  show p: "private_first T' F' m = private_first T F m"
    using k(3) [OF c, of "hd (F m)"] unfolding private_first_def m(2) by auto
  show "unprivate T' F' m = unprivate T F m" using a(3) p k(2) [OF m(1)] by (simp add: unprivate_def)
  show "checkable T' F' m = checkable T F m" using p k(2) [OF m(1)] ds m(2) by (simp add: checkable_def)
qed

lemma below_bound: "sound_tree T F r \<Longrightarrow> m \<in> below F a \<Longrightarrow> m < next_ptr T \<Longrightarrow> a < next_ptr T"
  using fresh_parent [OF sound_treeD(1,2)] below_step [of F a] by (cases "F a") auto

text \<open>How the nodes with work change when one node \<open>n\<close> gets new children.\<close>

lemma at_work_change:
  assumes g: "grows r T F T' F'" and n: "n \<in> below F r" and S: "sound_tree T F r"
    and same: "\<And>m. m \<in> below F r \<Longrightarrow> m \<noteq> n \<Longrightarrow> Q' m = Q m"
  shows "at_work Q' F' r = (at_work Q F r - {n}) \<union> (if Q' n then {n} else {}) \<union>
    {m \<in> {next_ptr T..<next_ptr T'}. Q' m}"
proof -
  have "m \<notin> {next_ptr T..<next_ptr T'}" if "m \<in> below F r" for m using sound_below [OF S that] by simp
  then show ?thesis unfolding at_work_def growsD(10) [OF g] using n same by auto
qed

lemma at_work_kept:
  assumes "grows r T F T' F'" and "n \<in> below F r" and "sound_tree T F r"
    and "\<And>m. m \<in> below F r \<Longrightarrow> m \<noteq> n \<Longrightarrow> Q' m = Q m" and "Q' n = Q n"
    and "\<And>m. next_ptr T \<le> m \<Longrightarrow> m < next_ptr T' \<Longrightarrow> \<not> Q' m"
  shows "at_work Q' F' r = at_work Q F r"
proof -
  have ch: "at_work Q' F' r = (at_work Q F r - {n}) \<union> (if Q' n then {n} else {}) \<union>
      {m \<in> {next_ptr T..<next_ptr T'}. Q' m}"
    by (rule at_work_change [OF assms(1-3)]) (rule assms(4))
  have "{m \<in> {next_ptr T..<next_ptr T'}. Q' m} = {}" using assms(6) by auto
  moreover have "n \<in> at_work Q F r \<longleftrightarrow> Q n" using assms(2) by (simp add: at_work_def)
  ultimately show ?thesis unfolding ch using assms(5) by auto
qed

lemma at_work_done:
  assumes "grows r T F T' F'" and "n \<in> below F r" and "sound_tree T F r"
    and "\<And>m. m \<in> below F r \<Longrightarrow> m \<noteq> n \<Longrightarrow> Q' m = Q m" and "Q n" and "\<not> Q' n"
    and "\<And>m. next_ptr T \<le> m \<Longrightarrow> m < next_ptr T' \<Longrightarrow> \<not> Q' m"
  shows "card (at_work Q F r) = Suc (card (at_work Q' F' r))"
proof -
  have ch: "at_work Q' F' r = (at_work Q F r - {n}) \<union> (if Q' n then {n} else {}) \<union>
      {m \<in> {next_ptr T..<next_ptr T'}. Q' m}"
    by (rule at_work_change [OF assms(1-3)]) (rule assms(4))
  have "{m \<in> {next_ptr T..<next_ptr T'}. Q' m} = {}" using assms(7) by auto
  then have "at_work Q' F' r = at_work Q F r - {n}" unfolding ch using assms(6) by auto
  moreover have "n \<in> at_work Q F r" using assms(2,5) by (simp add: at_work_def)
  from card.remove [OF finite_at_work [OF assms(3)] this]
  have "card (at_work Q F r) = Suc (card (at_work Q F r - {n}))" .
  ultimately show ?thesis by (simp only:)
qed

lemma at_work_new:
  assumes "grows r T F T' F'" and "n \<in> below F r" and "sound_tree T F r"
    and "\<And>m. m \<in> below F r \<Longrightarrow> m \<noteq> n \<Longrightarrow> Q' m = Q m" and "Q' n = Q n"
    and "next_ptr T' = Suc (next_ptr T)" and "Q' (next_ptr T)"
  shows "card (at_work Q' F' r) = Suc (card (at_work Q F r))"
proof -
  have ch: "at_work Q' F' r = (at_work Q F r - {n}) \<union> (if Q' n then {n} else {}) \<union>
      {m \<in> {next_ptr T..<next_ptr T'}. Q' m}"
    by (rule at_work_change [OF assms(1-3)]) (rule assms(4))
  have "{m \<in> {next_ptr T..<next_ptr T'}. Q' m} = {next_ptr T}" using assms(6,7) by auto
  moreover have "n \<in> at_work Q F r \<longleftrightarrow> Q n" using assms(2) by (simp add: at_work_def)
  ultimately have "at_work Q' F' r = insert (next_ptr T) (at_work Q F r)" unfolding ch using assms(5) by auto
  moreover have "next_ptr T \<notin> at_work Q F r" using sound_below [OF assms(3)] by (auto simp: at_work_def)
  ultimately show ?thesis using finite_at_work [OF assms(3)] by simp
qed

lemma templated_grows:
  assumes S: "sound_tree T F r" and tm: "templated T F r" and g: "grows r T F T' F'"
    and n: "n \<in> below F r" and kept: "\<forall>m<next_ptr T. m \<noteq> n \<longrightarrow> F' m = F m"
    and here: "\<not> loose T' F' n"
    and new: "\<And>m. next_ptr T \<le> m \<Longrightarrow> m < next_ptr T' \<Longrightarrow> \<not> loose T' F' m \<and> (isPipelineNode T' m \<longrightarrow> template_op T' m \<noteq> None)"
  shows "templated T' F' r"
  unfolding templated_def
proof (intro conjI ballI impI)
  fix m assume m: "m \<in> below F' r" "isPipelineNode T' m"
  show "operation_op T' m \<noteq> None \<or> template_op T' m \<noteq> None"
  proof (cases "m \<in> below F r")
    case True
    have o: "m < next_ptr T" using sound_below [OF S True] .
    show ?thesis
      using True tm m(2) growsD(4,7,9) [OF g o] by (simp add: templated_def)
  qed (use m new [of m] growsD(10) [OF g] in auto)
next
  fix q assume q: "q \<in> below F' r" "\<not> isPipelineNode T' q" "\<exists>c\<in>set (F' q). isStageNode T' c"
  then have l: "loose T' F' q" by (simp add: loose_def)
  then have old: "q \<in> below F r" "q \<noteq> n" using q(1) here new [of q] growsD(10) [OF g] by auto
  then have o: "q < next_ptr T" using sound_below [OF S] by blast
  then have "loose T F q" using l kept_node(2) [OF S g o] kept old(2) by simp
  then obtain a where a: "isPipelineNode T a" "q \<in> below F a"
    using tm old(1) unfolding templated_def loose_def by blast
  then have "isPipelineNode T' a" "q \<in> below F' a"
    using growsD(4) [OF g below_bound [OF S a(2) o]] growsD(11) [OF g] by auto
  then show "\<exists>a. isPipelineNode T' a \<and> q \<in> below F' a" by blast
qed

lemma legal_grows:
  assumes L: "legal_tree T F r" and g: "grows r T F T' F'"
    and n: "n \<in> below F r" and kept: "\<forall>m<next_ptr T. m \<noteq> n \<longrightarrow> F' m = F m"
    and here: "\<not> loose T' F' n" "checkable T' F' n"
    and new: "\<And>m. next_ptr T \<le> m \<Longrightarrow> m < next_ptr T' \<Longrightarrow>
      \<not> loose T' F' m \<and> (isPipelineNode T' m \<longrightarrow> template_op T' m \<noteq> None) \<and> checkable T' F' m"
  shows "legal_tree T' F' r"
proof -
  have S: "sound_tree T F r" and tm: "templated T F r" and ck: "\<forall>n\<in>below F r. checkable T F n"
    using L by (simp_all add: legal_tree_def)
  have "templated T' F' r" using templated_grows [OF S tm g n kept here(1)] new by blast
  moreover have "checkable T' F' m" if m: "m \<in> below F' r" for m
  proof (cases "m \<in> below F r \<and> m \<noteq> n")
    case True
    then have o: "m < next_ptr T" using sound_below [OF S] by blast
    then show ?thesis using True ck kept_node(5) [OF S g o] kept by simp
  next
    case False
    then show ?thesis using m here(2) new [of m] growsD(10) [OF g] by auto
  qed
  ultimately show ?thesis using growsD(1) [OF g] by (simp add: legal_tree_def)
qed

lemma children_progress:
  assumes L: "legal_tree T F r" and n: "n \<in> below F r" and v: "mixed T F n"
  shows "\<exists>T' F' i'. children_fix n (T, i) = Some (T', i') \<and> grows r T F T' F' \<and> legal_tree T' F' r \<and>
    work T F r = Suc (work T' F' r)"
proof -
  have S: "sound_tree T F r" and ck: "checkable T F n" using L n by (simp_all add: legal_tree_def)
  have p: "isPipelineNode T n" using v by (simp add: mixed_def)
  let ?s = "next_ptr T" and ?P = "illegal_child T" and ?tw = "takeWhile (\<lambda>c. \<not> illegal_child T c) (F n)"
  obtain T' F' k where fix1: "children_fix n (T, i) = Some (T', i + int k)" and nx: "next_ptr T' = ?s + k"
    and g: "grows r T F T' F'" and kept: "\<forall>m<?s. m \<noteq> n \<longrightarrow> F' m = F m"
    and F'n: "set (F' n) = {c \<in> set (F n). \<not> ?P c} \<union> {?s..<?s + k}"
    and new: "\<forall>m\<in>{?s..<?s + k}. coarse_stage ?P T' F' m"
    and pre: "F n \<noteq> [] \<and> \<not> ?P (hd (F n)) \<longrightarrow> ?tw = take (length ?tw) (F' n)"
    using children_fix_step [OF S n p, of i] by (elim exE conjE) (rule that)
  have o: "n < ?s" by (rule sound_below [OF S n])
  have c: "c < ?s" if "c \<in> set (F m)" for c m using sound_child [OF S that] .
  have ne: "F n \<noteq> []" using v by (auto simp: mixed_def)
  have hd: "\<not> ?P (hd (F n))" "private_first T F n \<or> isStageNode T (hd (F n))"
  proof -
    have "private_first T F n \<or> isStageNode T (hd (F n))"
      using ck p ne unfolding checkable_def by (cases "F n") (auto split: if_splits)
    then show "private_first T F n \<or> isStageNode T (hd (F n))" "\<not> ?P (hd (F n))"
      by (auto simp: private_first_def illegal_child_def)
  qed
  have tw: "?tw = take (length ?tw) (F' n)" using pre ne hd(1) by blast
  have twne: "?tw \<noteq> []" using ne hd(1) by (cases "F n") simp_all
  have F'ne: "F' n \<noteq> []" using tw twne by (metis take_Nil)
  have "hd (F' n) = hd ?tw" using tw twne by (metis hd_take length_greater_0_conv)
  also have "\<dots> = hd (F n)" using ne hd(1) by (cases "F n") auto
  finally have hd': "hd (F' n) = hd (F n)" .
  have pf: "private_first T' F' n = private_first T F n"
    using ne F'ne hd' growsD(5) [OF g c, of "hd (F n)" n] by (simp add: private_first_def)
  have p': "isPipelineNode T' n" using growsD(4) [OF g o] p by simp
  have legal: "\<not> illegal_child T' x" if "x \<in> set (F' n)" for x
    using that F'n new growsD(6) [OF g] c [of x n] by (auto simp: coarse_stage_def illegal_child_def)
  have nstage: "isStageNode T' m \<and> \<not> isPipelineNode T' m \<and> dependencies T' m = [] \<and> (\<forall>x\<in>set (F' m). \<not> isStageNode T' x)"
    if m0: "m \<in> {?s..<?s + k}" for m
  proof -
    have m: "coarse_stage ?P T' F' m" using new m0 by blast
    have "\<not> isStageNode T' x" if x: "x \<in> set (F' m)" for x
    proof -
      have px: "?P x" using m x by (simp add: coarse_stage_def)
      have xm: "x < next_ptr T'" using sound_child [OF growsD(1) [OF g] x] .
      have "x < ?s"
      proof (rule ccontr)
        assume "\<not> x < ?s"
        then have "x \<in> {?s..<?s + k}" using xm nx by simp
        then have "x \<in> set (F' n)" using F'n by blast
        then have "n = m" using x op_tree.one_parent [OF sound_treeD(1) [OF growsD(1) [OF g]]] by blast
        then show False using m0 o by simp
      qed
      then show ?thesis using px growsD(3) [OF g] by (simp add: illegal_child_def)
    qed
    with m show ?thesis by (cases "kind T' m") (auto simp: coarse_stage_def isStageNode_def isPipelineNode_def)
  qed
  have "x \<in> set (F' n) \<and> isStageNode T' x \<and> dependencies T' x \<noteq> [] \<longleftrightarrow>
      x \<in> set (F n) \<and> isStageNode T x \<and> dependencies T x \<noteq> []" for x
  proof (cases "x \<in> set (F n)")
    case True
    then show ?thesis using growsD(3,8) [OF g c [OF True]] unfolding F'n by (auto simp: illegal_child_def)
  next
    case False
    then show ?thesis using nstage unfolding F'n by blast
  qed
  then have deps: "has_deps T' F' n = has_deps T F n" unfolding has_deps_def by blast
  have ck': "checkable T' F' n"
  proof (cases "private_first T F n")
    case False
    then have scan: "deps_scan T (F n) \<noteq> None" using ck p by (simp add: checkable_def)
    obtain x where x: "x \<in> set (F n)" "?P x" using v by (auto simp: mixed_def)
    then have "dropWhile (\<lambda>c. \<not> ?P c) (F n) \<noteq> []" by auto
    then obtain y ys where y: "dropWhile (\<lambda>c. \<not> ?P c) (F n) = y # ys" by (cases "dropWhile (\<lambda>c. \<not> ?P c) (F n)") auto
    then have "?P y" using hd_dropWhile [of "\<lambda>c. \<not> ?P c" "F n"] by simp
    then have "deps_scan T (y # ys) = None" by (simp add: illegal_child_def)
    then have "deps_scan T ?tw = Some True"
      using scan deps_scan_append [of T ?tw "y # ys"] takeWhile_dropWhile_id [of "\<lambda>c. \<not> ?P c" "F n"] y
      by (cases "deps_scan T ?tw") (auto split: if_splits)
    moreover have "deps_scan T' ?tw = deps_scan T ?tw"
      using growsD(3,8) [OF g c] by (intro deps_scan_cong) (auto dest: set_takeWhileD)
    ultimately have "deps_scan T' (?tw @ drop (length ?tw) (F' n)) = Some True" by (simp add: deps_scan_append)
    moreover have "?tw @ drop (length ?tw) (F' n) = F' n" using tw append_take_drop_id by metis
    ultimately have "deps_scan T' (F' n) = Some True" by (simp only:)
    then show ?thesis by (simp add: checkable_def)
  qed (simp add: checkable_def pf)
  have L': "legal_tree T' F' r"
    by (rule legal_grows [OF L g n kept _ ck']) (use p' nstage nx in \<open>auto simp: loose_def checkable_def\<close>)
  have same: "mixed T' F' m = mixed T F m \<and> loose T' F' m = loose T F m \<and> has_deps T' F' m = has_deps T F m \<and>
      unprivate T' F' m = unprivate T F m" if "m \<in> below F r" "m \<noteq> n" for m
    using kept_node [OF S g, of m] kept that sound_below [OF S that(1)] by simp
  have no: "\<not> mixed T' F' n" "\<not> loose T' F' n" "unprivate T' F' n = unprivate T F n" "\<not> loose T F n"
    using legal p p' pf deps by (auto simp: mixed_def loose_def unprivate_def)
  have nonew: "\<not> mixed T' F' m" "\<not> loose T' F' m" "\<not> unprivate T' F' m" if "?s \<le> m" "m < next_ptr T'" for m
    using nstage [of m] that nx by (auto simp: mixed_def loose_def unprivate_def)
  have "card (at_work (mixed T F) F r) = Suc (card (at_work (mixed T' F') F' r))"
    by (rule at_work_done [OF g n S]) (use same v no(1) nonew(1) in blast)+
  moreover have "at_work (loose T' F') F' r = at_work (loose T F) F r"
    by (rule at_work_kept [OF g n S]) (use same no(2,4) nonew(2) in blast)+
  moreover have "at_work (\<lambda>n. loose T' F' n \<and> has_deps T' F' n) F' r = at_work (\<lambda>n. loose T F n \<and> has_deps T F n) F r"
    by (rule at_work_kept [OF g n S]) (use same no(2,4) nonew(2) in blast)+
  moreover have "at_work (unprivate T' F') F' r = at_work (unprivate T F) F r"
    by (rule at_work_kept [OF g n S]) (use same no(3) nonew(3) in blast)+
  ultimately have "work T F r = Suc (work T' F' r)" by (simp add: work_def)
  with fix1 g L' show ?thesis by blast
qed

lemma private_progress:
  assumes L: "legal_tree T F r" and n: "n \<in> below F r" and v: "unprivate T F n"
  shows "\<exists>T' F' i'. private_fix n (T, i) = Some (T', i') \<and> grows r T F T' F' \<and> legal_tree T' F' r \<and>
    work T F r = Suc (work T' F' r)"
proof -
  have S: "sound_tree T F r" using L by (simp add: legal_tree_def)
  have p: "isPipelineNode T n" using v by (simp add: unprivate_def)
  let ?s = "next_ptr T"
  define F' where "F' = F(n := ?s # F n)"
  obtain T' where T': "private_fix n (T, i) = Some (T', i)" "tree_abs T' F'" "added PrivateNode T T'" "wraps F n {} ?s F'"
    using private_fix_step [OF S n p] unfolding F'_def by blast
  have g: "grows r T F T' F'" by (rule grows_step [OF S n T'(2,3,4)])
  have nx: "next_ptr T' = Suc ?s" using T'(3) by (simp add: added_def)
  have o: "n < ?s" by (rule sound_below [OF S n])
  have Fs: "F ?s = []" "F' n = ?s # F n" using T'(4) by (simp_all add: wraps_def F'_def)
  have new: "isPrivateNode T' ?s" "\<not> isPipelineNode T' ?s" "\<not> isStageNode T' ?s" "F' ?s = []"
    using T'(3) Fs o by (simp_all add: F'_def added_def isPrivateNode_def isPipelineNode_def isStageNode_def)
  have p': "isPipelineNode T' n" using growsD(4) [OF g o] p by simp
  have kept: "\<forall>m<?s. m \<noteq> n \<longrightarrow> F' m = F m" by (simp add: F'_def)
  have pf: "private_first T' F' n" using new(1) Fs(2) by (simp add: private_first_def)
  have none: "\<not> mixed T' F' m \<and> \<not> loose T' F' m \<and> \<not> unprivate T' F' m \<and> \<not> isPipelineNode T' m"
    if "?s \<le> m" "m < next_ptr T'" for m
  proof -
    have "m = ?s" using that nx by simp
    then show ?thesis using new by (simp add: mixed_def loose_def unprivate_def)
  qed
  have L': "legal_tree T' F' r"
    by (rule legal_grows [OF L g n kept]) (use p' pf none in \<open>auto simp: loose_def checkable_def\<close>)
  have ch: "illegal_child T' c = illegal_child T c" if "c \<in> set (F n)" for c
    using growsD(6) [OF g sound_child [OF S that]] .
  have mx: "mixed T' F' n = mixed T F n"
    using ch p p' new unfolding mixed_def Fs(2) by (auto simp: illegal_child_def)
  have ls: "\<not> loose T' F' n" "\<not> loose T F n" "\<not> unprivate T' F' n"
    using p p' pf by (simp_all add: loose_def unprivate_def)
  have same: "mixed T' F' m = mixed T F m \<and> loose T' F' m = loose T F m \<and> has_deps T' F' m = has_deps T F m \<and>
      unprivate T' F' m = unprivate T F m" if "m \<in> below F r" "m \<noteq> n" for m
    using kept_node [OF S g, of m] kept that sound_below [OF S that(1)] by simp
  have "at_work (mixed T' F') F' r = at_work (mixed T F) F r"
    by (rule at_work_kept [OF g n S]) (use same mx none in blast)+
  moreover have "at_work (loose T' F') F' r = at_work (loose T F) F r"
    by (rule at_work_kept [OF g n S]) (use same ls none in blast)+
  moreover have "at_work (\<lambda>n. loose T' F' n \<and> has_deps T' F' n) F' r = at_work (\<lambda>n. loose T F n \<and> has_deps T F n) F r"
    by (rule at_work_kept [OF g n S]) (use same ls none in blast)+
  moreover have "card (at_work (unprivate T F) F r) = Suc (card (at_work (unprivate T' F') F' r))"
    by (rule at_work_done [OF g n S]) (use same v ls none in blast)+
  ultimately have "work T F r = Suc (work T' F' r)" by (simp add: work_def)
  with T'(1) g L' show ?thesis by blast
qed

lemma parent_progress:
  assumes L: "legal_tree T F r" and q: "q \<in> below F r" and v: "loose T F q" and n: "n \<in> set (F q)" "isStageNode T n"
  shows "\<exists>T' F' i'. parent_fix n (T, i) = Some (T', i') \<and> grows r T F T' F' \<and> legal_tree T' F' r \<and>
    work T F r = Suc (work T' F' r)"
proof -
  have S: "sound_tree T F r" and tm: "templated T F r" using L by (simp_all add: legal_tree_def)
  have p: "\<not> isPipelineNode T q" using v by (simp add: loose_def)
  let ?s = "next_ptr T" and ?st = "filter (isStageNode T) (F q)"
  obtain T' F' where T': "parent_fix n (T, i) = Some (T', i)" "tree_abs T' F'" "added PipelineNode T T'"
    "wraps F q (set ?st) ?s F'" "template_op T' ?s \<noteq> None" "F' ?s = ?st"
    using parent_fix_step [OF S q p n tm, of i] by force
  have g: "grows r T F T' F'" by (rule grows_step [OF S q T'(2,3,4)])
  have nx: "next_ptr T' = Suc ?s" using T'(3) by (simp add: added_def)
  have o: "q < ?s" by (rule sound_below [OF S q])
  have new: "isPipelineNode T' ?s" using T'(3) by (simp add: added_def isPipelineNode_def)
  have p': "\<not> isPipelineNode T' q" using growsD(4) [OF g o] p by simp
  have kept: "\<forall>m<?s. m \<noteq> q \<longrightarrow> F' m = F m" using T'(4) by (auto simp: wraps_def)
  have c: "c < ?s" if "c \<in> set (F q)" for c using sound_child [OF S that] .
  have st: "isStageNode T' x" "dependencies T' x = dependencies T x" if "x \<in> set ?st" for x
    using that growsD(3,8) [OF g c] by simp_all
  have "set (F' q) = insert ?s (set (F q) - set ?st)" using T'(4) by (simp add: wraps_def)
  then have nostage: "\<not> isStageNode T' x" if "x \<in> set (F' q)" for x
    using that growsD(3) [OF g c] T'(3) by (auto simp: added_def isStageNode_def)
  have ls: "\<not> loose T' F' q" "\<not> has_deps T' F' q" using nostage by (auto simp: loose_def has_deps_def)
  have ne: "?st \<noteq> []" using n by (auto simp: filter_empty_conv)
  have s_pf: "\<not> private_first T' F' ?s"
  proof -
    have "isStageNode T' (hd ?st)" by (rule st(1)) (rule hd_in_set [OF ne])
    then have "\<not> isPrivateNode T' (hd ?st)" by (auto simp: isStageNode_def isPrivateNode_def)
    then show ?thesis using T'(6) by (simp add: private_first_def)
  qed
  have "deps_scan T' xs \<noteq> None" if "\<forall>x\<in>set xs. isStageNode T' x" for xs using that by (induction xs) auto
  then have s_ck: "checkable T' F' ?s" using st(1) T'(6) by (simp add: checkable_def)
  have s_work: "\<not> mixed T' F' ?s" "\<not> loose T' F' ?s" "unprivate T' F' ?s \<longleftrightarrow> has_deps T F q"
    using st T'(6) new s_pf by (auto simp: mixed_def loose_def unprivate_def has_deps_def illegal_child_def)
  have none: "m = ?s" if "?s \<le> m" "m < next_ptr T'" for m using that nx by simp
  have L': "legal_tree T' F' r"
    by (rule legal_grows [OF L g q kept ls(1)])
      (use p' none s_ck s_work(2) T'(5) in \<open>auto simp: checkable_def\<close>)
  have same: "mixed T' F' m = mixed T F m \<and> loose T' F' m = loose T F m \<and> has_deps T' F' m = has_deps T F m \<and>
      unprivate T' F' m = unprivate T F m" if "m \<in> below F r" "m \<noteq> q" for m
    using kept_node [OF S g, of m] kept that sound_below [OF S that(1)] by simp
  have nq: "mixed T' F' q = mixed T F q" "unprivate T' F' q = unprivate T F q"
    using p p' by (simp_all add: mixed_def unprivate_def)
  have "at_work (mixed T' F') F' r = at_work (mixed T F) F r"
    by (rule at_work_kept [OF g q S]) (use same nq none s_work in blast)+
  moreover have "card (at_work (loose T F) F r) = Suc (card (at_work (loose T' F') F' r))"
    by (rule at_work_done [OF g q S]) (use same v ls none s_work in blast)+
  moreover have "card (at_work (\<lambda>n. loose T F n \<and> has_deps T F n) F r) + card (at_work (unprivate T F) F r) =
      card (at_work (\<lambda>n. loose T' F' n \<and> has_deps T' F' n) F' r) + card (at_work (unprivate T' F') F' r)"
  proof (cases "has_deps T F q")
    case True
    have "card (at_work (\<lambda>n. loose T F n \<and> has_deps T F n) F r) = Suc (card (at_work (\<lambda>n. loose T' F' n \<and> has_deps T' F' n) F' r))"
      by (rule at_work_done [OF g q S]) (use same v True ls none s_work in blast)+
    moreover have "card (at_work (unprivate T' F') F' r) = Suc (card (at_work (unprivate T F) F r))"
      by (rule at_work_new [OF g q S _ _ nx]) (use same nq True s_work in blast)+
    ultimately show ?thesis by simp
  next
    case False
    have "at_work (\<lambda>n. loose T' F' n \<and> has_deps T' F' n) F' r = at_work (\<lambda>n. loose T F n \<and> has_deps T F n) F r"
      by (rule at_work_kept [OF g q S]) (use same False ls none s_work in blast)+
    moreover have "at_work (unprivate T' F') F' r = at_work (unprivate T F) F r"
      by (rule at_work_kept [OF g q S]) (use same nq False none s_work in blast)+
    ultimately show ?thesis by simp
  qed
  ultimately have "work T F r = Suc (work T' F' r)" by (simp add: work_def)
  with T'(1) g L' show ?thesis by blast
qed

section \<open>The violations and the loop\<close>

lemma parent_isViolated_abs:
  assumes "legal_tree T F r" and "n \<in> below F r"
  shows "\<exists>b. parent_isViolated T n = Some b \<and>
    (b \<longleftrightarrow> isStageNode T n \<and> (\<exists>q\<in>below F r. n \<in> set (F q) \<and> loose T F q))"
proof (cases "isStageNode T n")
  case True
  have S: "sound_tree T F r" using assms(1) by (simp add: legal_tree_def)
  have "n \<noteq> r" using True sound_treeD(7) [OF S] by blast
  then obtain q where q: "q \<in> below F r" "n \<in> set (F q)" using below_cases [OF assms(2)] by blast
  then have "parent_node T n = Some q" using tree_abs_parent [OF sound_treeD(1) [OF S]] by blast
  then have "parent_isViolated T n = Some (\<not> isPipelineNode T q)" using True by (simp add: parent_isViolated_def)
  moreover have "\<not> isPipelineNode T q \<longleftrightarrow> (\<exists>q\<in>below F r. n \<in> set (F q) \<and> loose T F q)"
  proof
    assume "\<not> isPipelineNode T q"
    then show "\<exists>q\<in>below F r. n \<in> set (F q) \<and> loose T F q" using q True by (auto simp: loose_def)
  next
    assume "\<exists>q\<in>below F r. n \<in> set (F q) \<and> loose T F q"
    then obtain q' where "n \<in> set (F q')" "loose T F q'" by blast
    moreover from this have "q' = q" using q(2) op_tree.one_parent [OF sound_treeD(1) [OF S]] by blast
    ultimately show "\<not> isPipelineNode T q" by (simp add: loose_def)
  qed
  ultimately show ?thesis using True by blast
qed (intro exI [of _ False], simp add: parent_isViolated_def)

text \<open>What each rule finds, and that its repair makes progress.\<close>

lemma isViolated_legal:
  assumes L: "legal_tree T F r" and n: "n \<in> below F r"
  shows "\<exists>b. isViolated rl T n = Some b \<and> (b \<longrightarrow> (\<exists>T' F' i'. fixViolation rl n (T, i) = Some (T', i') \<and>
    grows r T F T' F' \<and> legal_tree T' F' r \<and> work T F r = Suc (work T' F' r)))"
proof (cases rl)
  case PipelineChildrenRule
  have abs: "tree_abs T F" using L by (auto simp: legal_tree_def dest: sound_treeD(1))
  show ?thesis
    using children_isViolated_abs [OF abs, of n] children_progress [OF L n, of i] PipelineChildrenRule
    by (simp add: mixed_def)
next
  case StageParentRule
  obtain b where b: "parent_isViolated T n = Some b"
    "b \<longleftrightarrow> isStageNode T n \<and> (\<exists>q\<in>below F r. n \<in> set (F q) \<and> loose T F q)"
    using parent_isViolated_abs [OF L n] by blast
  moreover have "\<exists>T' F' i'. parent_fix n (T, i) = Some (T', i') \<and>
      grows r T F T' F' \<and> legal_tree T' F' r \<and> work T F r = Suc (work T' F' r)" if b
    using that b(2) parent_progress [OF L] by blast
  ultimately show ?thesis using StageParentRule by simp
next
  case PrivateMustExistRule
  have abs: "tree_abs T F" and ck: "checkable T F n" using L n by (auto simp: legal_tree_def dest: sound_treeD(1))
  have "\<exists>b. private_isViolated T n = Some b \<and> (b \<longrightarrow> unprivate T F n)"
    using private_isViolated_abs [OF abs, of n] ck deps_scan_True [of T "F n"]
    by (auto simp: checkable_def unprivate_def has_deps_def)
  then show ?thesis using private_progress [OF L n, of i] PrivateMustExistRule by auto
qed

lemma isViolated_complete:
  assumes L: "legal_tree T F r" and n: "n \<in> below F r" and none: "\<And>rl m. m \<in> below F r \<Longrightarrow> isViolated rl T m \<noteq> Some True"
  shows "\<not> mixed T F n \<and> \<not> loose T F n \<and> \<not> unprivate T F n"
proof (intro conjI notI)
  have S: "sound_tree T F r" and abs: "tree_abs T F" using L by (auto simp: legal_tree_def dest: sound_treeD(1))
  show False if "mixed T F n"
    using none [OF n, of PipelineChildrenRule] that children_isViolated_abs [OF abs, of n] by (simp add: mixed_def)
  show False if l: "loose T F n"
  proof -
    obtain c where c: "c \<in> set (F n)" "isStageNode T c" using l by (auto simp: loose_def)
    have "c \<in> below F r" using below_child [OF n c(1)] .
    with parent_isViolated_abs [OF L this] none [OF this, of StageParentRule] c n l show False by auto
  qed
  show False if u: "unprivate T F n"
  proof -
    have "deps_scan T (F n) \<noteq> None" using u L n by (auto simp: legal_tree_def checkable_def unprivate_def)
    moreover have "deps_scan T (F n) \<noteq> Some False" using u deps_scan_False [of T "F n"] by (auto simp: unprivate_def has_deps_def)
    ultimately have "deps_scan T (F n) = Some True" by (cases "deps_scan T (F n)") auto
    then show False using none [OF n, of PrivateMustExistRule] u private_isViolated_abs [OF abs, of n]
      by (simp add: unprivate_def)
  qed
qed

lemma check_node_eq:
  assumes "\<And>rl. isViolated rl T n \<noteq> None"
  shows "check_node T n vs = Some (vs @ map (\<lambda>rl. (rl, n)) (filter (\<lambda>rl. isViolated rl T n = Some True) rules))"
proof -
  have "foldM (\<lambda>rl vs. do { b \<leftarrow> isViolated rl T n; Some (if b then vs @ [(rl, n)] else vs) }) rls vs =
      Some (vs @ map (\<lambda>rl. (rl, n)) (filter (\<lambda>rl. isViolated rl T n = Some True) rls))" for rls
  proof (induction rls arbitrary: vs)
    case (Cons rl rls)
    obtain b where "isViolated rl T n = Some b" using assms by blast
    with Cons show ?case by simp
  qed simp
  then show ?thesis by (simp add: check_node_def)
qed

lemma check_nodes_eq:
  assumes "\<And>rl n. n \<in> set ns \<Longrightarrow> isViolated rl T n \<noteq> None"
  shows "foldM (check_node T) ns vs =
    Some (vs @ concat (map (\<lambda>n. map (\<lambda>rl. (rl, n)) (filter (\<lambda>rl. isViolated rl T n = Some True) rules)) ns))"
  using assms
proof (induction ns arbitrary: vs)
  case (Cons n ns)
  have "check_node T n vs = Some (vs @ map (\<lambda>rl. (rl, n)) (filter (\<lambda>rl. isViolated rl T n = Some True) rules))"
    using Cons.prems by (intro check_node_eq) simp
  with Cons show ?case by simp
qed simp

lemma walk_legal:
  assumes "sound_tree T F r"
  shows "\<exists>ns. preOrderWalk T r = Some ns \<and> set ns = below F r"
proof -
  obtain rank where "ranked F rank" using sound_treeD(3) [OF assms] ..
  from preOrderWalk_below [OF sound_treeD(1) [OF assms] this sound_child [OF assms]] show ?thesis .
qed

lemma collectViolations_legal:
  assumes L: "legal_tree T F r"
  shows "\<exists>vs. collectViolations T = Some vs \<and> set vs = {(rl, n). n \<in> below F r \<and> isViolated rl T n = Some True} \<and>
    (vs = [] \<longleftrightarrow> work T F r = 0)"
proof -
  have S: "sound_tree T F r" using L by (simp add: legal_tree_def)
  obtain ns where ns: "preOrderWalk T r = Some ns" "set ns = below F r" using walk_legal [OF S] by blast
  have def: "isViolated rl T n \<noteq> None" if "n \<in> set ns" for rl n
    using isViolated_legal [OF L, of n rl] that ns(2) by auto
  obtain vs where vs: "foldM (check_node T) ns [] = Some vs"
    "vs = concat (map (\<lambda>n. map (\<lambda>rl. (rl, n)) (filter (\<lambda>rl. isViolated rl T n = Some True) rules)) ns)"
    using check_nodes_eq [of ns T "[]"] def by auto
  have all: "rl \<in> set rules" for rl by (cases rl) (simp_all add: rules_def)
  have set: "set vs = {(rl, n). n \<in> below F r \<and> isViolated rl T n = Some True}"
    using ns(2) all unfolding vs(2) by auto
  have "work T F r = 0" if "vs = []"
  proof -
    have "isViolated rl T m \<noteq> Some True" if "m \<in> below F r" for rl m
      using set that \<open>vs = []\<close> by auto
    then show ?thesis using isViolated_complete [OF L] work_0 [OF S] by blast
  qed
  moreover have "vs = []" if w: "work T F r = 0"
  proof (rule ccontr)
    assume "vs \<noteq> []"
    then obtain rl n where "(rl, n) \<in> set vs" by (cases vs) auto
    then have v: "n \<in> below F r" "isViolated rl T n = Some True" using set by auto
    then show False using isViolated_legal [OF L v(1), of rl] w by auto
  qed
  ultimately show ?thesis using S ns(1) vs(1) set by (auto simp: collectViolations_def sound_treeD(4))
qed

text \<open>
  One iteration of the loop, with any of the violations found instead of the first one. The loop
  of the code is one run of this relation.
\<close>

inductive legal_step :: "ptree \<times> int \<Rightarrow> ptree \<times> int \<Rightarrow> bool" where
  repair: "collectViolations (fst x) = Some vs \<Longrightarrow> (rl, n) \<in> set vs \<Longrightarrow> fixViolation rl n x = Some y \<Longrightarrow>
    legal_step x y"

inductive_cases legal_stepE: "legal_step x y"

lemma legal_step_progress:
  assumes "legal_step x y" and "legal_tree (fst x) F r"
  shows "\<exists>F'. grows r (fst x) F (fst y) F' \<and> legal_tree (fst y) F' r \<and> work (fst x) F r = Suc (work (fst y) F' r)"
  using assms(1)
proof (rule legal_stepE)
  fix vs rl n assume *: "collectViolations (fst x) = Some vs" "(rl, n) \<in> set vs" "fixViolation rl n x = Some y"
  then have v: "n \<in> below F r" "isViolated rl (fst x) n = Some True"
    using collectViolations_legal [OF assms(2)] by auto
  from isViolated_legal [OF assms(2) v(1), of rl "snd x"] v(2) *(3) show ?thesis by auto
qed

lemma legal_steps_progress:
  assumes "(legal_step ^^ k) x y" and "legal_tree (fst x) F r"
  shows "\<exists>F'. grows r (fst x) F (fst y) F' \<and> legal_tree (fst y) F' r \<and> work (fst x) F r = k + work (fst y) F' r"
  using assms(1)
proof (induction k arbitrary: y)
  case 0
  have "grows r (fst x) F (fst x) F" by (rule grows_refl) (use assms(2) in \<open>simp add: legal_tree_def\<close>)
  then show ?case using 0 assms(2) by auto
next
  case (Suc k)
  then obtain z where z: "(legal_step ^^ k) x z" "legal_step z y" by auto
  obtain F1 where F1: "grows r (fst x) F (fst z) F1" "legal_tree (fst z) F1 r" "work (fst x) F r = k + work (fst z) F1 r"
    using Suc.IH [OF z(1)] by blast
  obtain F2 where "grows r (fst z) F1 (fst y) F2" "legal_tree (fst y) F2 r" "work (fst z) F1 r = Suc (work (fst y) F2 r)"
    using legal_step_progress [OF z(2) F1(2)] by blast
  with F1 show ?case by (intro exI [of _ F2]) (auto intro: grows_trans)
qed

lemma legal_steps_end:
  assumes "(legal_step ^^ work (fst x) F r) x y" and "legal_tree (fst x) F r"
  shows "\<not> legal_step y z"
proof
  assume z: "legal_step y z"
  obtain F' where F': "legal_tree (fst y) F' r" "work (fst x) F r = work (fst x) F r + work (fst y) F' r"
    using legal_steps_progress [OF assms] by blast
  from legal_step_progress [OF z F'(1)] F'(2) show False by auto
qed

text \<open>A run can go on exactly as long as repairs are left to make.\<close>

lemma legal_steps_continue:
  assumes "(legal_step ^^ k) x y" and "legal_tree (fst x) F r"
  shows "(\<exists>z. legal_step y z) \<longleftrightarrow> k < work (fst x) F r"
proof -
  obtain F' where F': "legal_tree (fst y) F' r" "work (fst x) F r = k + work (fst y) F' r"
    using legal_steps_progress [OF assms] by blast
  have "\<exists>z. legal_step y z" if w: "work (fst y) F' r \<noteq> 0"
  proof -
    obtain vs where vs: "collectViolations (fst y) = Some vs" "vs \<noteq> []"
      "set vs = {(rl, n). n \<in> below F' r \<and> isViolated rl (fst y) n = Some True}"
      using collectViolations_legal [OF F'(1)] w by auto
    then obtain rl n where v: "(rl, n) \<in> set vs" by (cases vs) auto
    then have n: "n \<in> below F' r" "isViolated rl (fst y) n = Some True" using vs(3) by auto
    obtain z where "fixViolation rl n y = Some z"
      using isViolated_legal [OF F'(1) n(1), of rl "snd y"] n(2) by auto
    then show ?thesis using repair [OF vs(1) v] by blast
  qed
  moreover have "work (fst y) F' r \<noteq> 0" if "legal_step y z" for z
    using legal_step_progress [OF that F'(1)] by auto
  ultimately show ?thesis using F'(2) by auto
qed

lemma fix_loop_run:
  assumes "legal_tree (fst x) F r" and "collectViolations (fst x) = Some vs"
  shows "\<exists>y. fix_loop vs j x = Some (j + work (fst x) F r, y) \<and> (legal_step ^^ work (fst x) F r) x y"
  using assms
proof (induction "work (fst x) F r" arbitrary: x F vs j)
  case 0
  then have "vs = []" using collectViolations_legal [OF 0(2)] by auto
  then show ?case using 0(1) by (simp add: fix_loop.simps)
next
  case (Suc k)
  then have "vs \<noteq> []" using collectViolations_legal [OF Suc.prems(1)] by auto
  then obtain rl n vs' where vs: "vs = (rl, n) # vs'" by (cases vs) auto
  then have v: "n \<in> below F r" "isViolated rl (fst x) n = Some True"
    using collectViolations_legal [OF Suc.prems(1)] Suc.prems(2) by auto
  obtain y F' where y: "fixViolation rl n x = Some y" "legal_tree (fst y) F' r" "work (fst x) F r = Suc (work (fst y) F' r)"
    using isViolated_legal [OF Suc.prems(1) v(1), of rl "snd x"] v(2) by force
  obtain vs1 where vs1: "collectViolations (fst y) = Some vs1" using collectViolations_legal [OF y(2)] by blast
  have k: "k = work (fst y) F' r" using Suc.hyps(2) y(3) by simp
  obtain z where z: "fix_loop vs1 (j + 1) y = Some (j + 1 + k, z)" "(legal_step ^^ k) y z"
    using Suc.hyps(1) [OF k y(2) vs1, of "j + 1"] k by auto
  have "fix_loop vs j x = fix_loop vs1 (j + 1) y"
    unfolding vs by (subst fix_loop.simps) (simp add: y(1) vs1)
  moreover have "legal_step x y" using repair [OF Suc.prems(2) _ y(1)] vs by simp
  moreover from this z(2) have "(legal_step ^^ Suc k) x z" by (rule relpowp_Suc_I2)
  ultimately show ?case unfolding Suc.hyps(2) [symmetric] using z(1) by (intro exI [of _ z]) simp
qed

text \<open>A tree that satisfies the three rules.\<close>

definition legalized :: "ptree \<Rightarrow> (ptr \<Rightarrow> ptr list) \<Rightarrow> ptr \<Rightarrow> bool" where
  "legalized T F r \<longleftrightarrow> (\<forall>n\<in>below F r.
     (if isPipelineNode T n then (\<forall>c\<in>set (F n). isPrivateNode T c \<or> isStageNode T c) \<and> (has_deps T F n \<longrightarrow> private_first T F n)
      else (\<forall>c\<in>set (F n). \<not> isStageNode T c)))"

lemma legalized_work: "sound_tree T F r \<Longrightarrow> work T F r = 0 \<longleftrightarrow> legalized T F r"
  unfolding work_0 legalized_def
  by (rule ball_cong) (auto simp: mixed_def loose_def unprivate_def illegal_child_def)

lemma findAndFixViolations_run:
  assumes L: "legal_tree T F r"
  shows "\<exists>i T' i'. findAndFixViolations T = Some (work T F r, T') \<and> (legal_step ^^ work T F r) (T, i) (T', i')"
proof -
  have S: "sound_tree T F r" using L by (simp add: legal_tree_def)
  obtain ns where ns: "preOrderWalk T r = Some ns" using walk_legal [OF S] by blast
  obtain vs where vs: "collectViolations T = Some vs" "vs = [] \<longleftrightarrow> work T F r = 0"
    using collectViolations_legal [OF L] by (elim exE conjE) (rule that)
  let ?i = "fold (next_stage_id_after T) ns 0"
  obtain y where y: "fix_loop vs 0 (T, ?i) = Some (work T F r, y)" "(legal_step ^^ work T F r) (T, ?i) y"
    using fix_loop_run [of "(T, ?i)" F r vs 0] L vs(1) by auto
  have "findAndFixViolations T = Some (work T F r, fst y)"
  proof (cases "vs = []")
    case True
    then have "y = (T, ?i)" using y(1) by (simp add: fix_loop.simps)
    then show ?thesis using True ns vs sound_treeD(4) [OF S] by (simp add: findAndFixViolations_def)
  next
    case False
    then show ?thesis using y(1) ns vs(1) sound_treeD(4) [OF S] by (simp add: findAndFixViolations_def)
  qed
  with y(2) show ?thesis by (metis prod.collapse)
qed

section \<open>Properties\<close>

text \<open>C23: On a tree on which the checks return, the legalizer terminates after exactly as many iterations
  as the tree has repairs to make, and leaves a tree that satisfies the three rules, in which
  every old node is still there, below the nodes it was below, with its fields.\<close>

theorem findAndFixViolations_legalizes:
  assumes "legal_tree T F r"
  shows "\<exists>T' F'. findAndFixViolations T = Some (work T F r, T') \<and> grows r T F T' F' \<and> legalized T' F' r"
proof -
  obtain i T' i' where run: "findAndFixViolations T = Some (work T F r, T')" "(legal_step ^^ work T F r) (T, i) (T', i')"
    using findAndFixViolations_run [OF assms] by blast
  obtain F' where F': "grows r T F T' F'" "legal_tree T' F' r" "work T F r = work T F r + work T' F' r"
    using legal_steps_progress [OF run(2), of F r] assms by auto
  then have "legalized T' F' r" using legalized_work [of T' F' r] by (simp add: legal_tree_def)
  with run(1) F'(1) show ?thesis by blast
qed


text \<open>C25: The repair of the first rule relinks the tree so that only private nodes and stages are left
  under the pipeline, every new stage holds illegal children only, and replacing the new stages
  by their children gives the old children back, a run of illegal children at the front moved to
  the end; the child lists of all other old nodes stay as they are.\<close>

theorem children_fix_wraps:
  assumes "sound_tree T F r" and "n \<in> below F r" and "isPipelineNode T n"
  shows "\<exists>T' F' k. children_fix n (T, i) = Some (T', i + int k) \<and> tree_abs T' F' \<and> grows r T F T' F' \<and>
    next_ptr T' = next_ptr T + k \<and> (\<forall>m<next_ptr T. m \<noteq> n \<longrightarrow> F' m = F m) \<and>
    (\<forall>c\<in>set (F' n). isPrivateNode T' c \<or> isStageNode T' c) \<and>
    (\<forall>m\<in>{next_ptr T..<next_ptr T + k}. coarse_stage (illegal_child T) T' F' m) \<and>
    unwrap (next_ptr T) F' (F' n) = dropWhile (illegal_child T) (F n) @ takeWhile (illegal_child T) (F n)"
proof -
  obtain T' F' k where c: "children_fix n (T, i) = Some (T', i + int k)" "grows r T F T' F'"
    "next_ptr T' = next_ptr T + k" "\<forall>m<next_ptr T. m \<noteq> n \<longrightarrow> F' m = F m"
    "set (F' n) = {c \<in> set (F n). \<not> illegal_child T c} \<union> {next_ptr T..<next_ptr T + k}"
    "\<forall>m\<in>{next_ptr T..<next_ptr T + k}. coarse_stage (illegal_child T) T' F' m"
    "unwrap (next_ptr T) F' (F' n) = dropWhile (illegal_child T) (F n) @ takeWhile (illegal_child T) (F n)"
    using children_fix_step [OF assms, of i] by (elim exE conjE) (rule that)
  have "isPrivateNode T' x \<or> isStageNode T' x" if "x \<in> set (F' n)" for x
    using that c(5,6) growsD(3,5) [OF c(2) sound_child [OF assms(1)], of x n]
    by (auto simp: coarse_stage_def illegal_child_def)
  moreover have "tree_abs T' F'" using growsD(1) [OF c(2)] by (rule sound_treeD(1))
  ultimately show ?thesis using c(1-4,6,7) by blast
qed

theorem parent_fix_order:
  assumes "sound_tree T F r" and "q \<in> below F r" and "\<not> isPipelineNode T q"
    and "n \<in> set (F q)" and "isStageNode T n" and "templated T F r"
  shows "\<exists>T' F'. parent_fix n (T, i) = Some (T', i) \<and> tree_abs T' F' \<and>
    F' (next_ptr T) = filter (isStageNode T) (F q) \<and>
    F' q = (if isStageNode T (hd (F q)) then filter (\<lambda>c. \<not> isStageNode T c) (F q) @ [next_ptr T]
      else takeWhile (\<lambda>c. \<not> isStageNode T c) (F q) @ next_ptr T #
        filter (\<lambda>c. \<not> isStageNode T c) (dropWhile (\<lambda>c. \<not> isStageNode T c) (F q)))"
proof -
  let ?ns = "\<lambda>c. \<not> isStageNode T c"
  let ?tw = "takeWhile ?ns (F q)"
  obtain T' where T': "parent_fix n (T, i) = Some (T', i)"
    "tree_abs T' (F(q := put_at ?tw (next_ptr T) (drop (length ?tw) (filter ?ns (F q))),
       next_ptr T := filter (isStageNode T) (F q)))"
    using parent_fix_step [OF assms, of i] by blast
  have "F q \<noteq> []" using assms(4) by auto
  then have e: "?tw = [] \<longleftrightarrow> isStageNode T (hd (F q))" by (cases "F q") auto
  have "filter ?ns (F q) = filter ?ns ?tw @ filter ?ns (dropWhile ?ns (F q))"
    by (simp flip: filter_append)
  moreover have "filter ?ns ?tw = ?tw" by (auto simp: filter_id_conv dest: set_takeWhileD)
  ultimately have f: "filter ?ns (F q) = ?tw @ filter ?ns (dropWhile ?ns (F q))" by simp
  have d: "drop (length ?tw) (filter ?ns (F q)) = filter ?ns (dropWhile ?ns (F q))" unfolding f by simp
  have q: "q \<noteq> next_ptr T" using sound_below [OF assms(1,2)] by auto
  show ?thesis
    by (rule exI [of _ T'], rule exI, intro conjI, rule T'(1), rule T'(2))
      (use q e f in \<open>simp_all add: d put_at_def\<close>)
qed

text \<open>C26: The legalizer does not return on a tree with a pipeline that does not start with a private node
  and has a child that is no stage before every stage with dependencies.\<close>

theorem findAndFixViolations_hangs:
  assumes "sound_tree T F r" and "n \<in> below F r" and "isPipelineNode T n"
    and "F n = as @ c # bs" and "\<And>a. a \<in> set as \<Longrightarrow> isStageNode T a \<and> dependencies T a = []"
    and "\<not> isStageNode T c" and "as \<noteq> [] \<or> \<not> isPrivateNode T c"
  shows "findAndFixViolations T = None"
proof -
  have "deps_scan T as = Some False" using assms(5) deps_scan_False by blast
  then have "deps_scan T (F n) = None" using assms(4,6) by (simp add: deps_scan_append)
  moreover have "\<not> private_first T F n"
  proof (cases as)
    case (Cons a as')
    then have "isStageNode T a" using assms(5) by simp
    then have "\<not> isPrivateNode T a" by (auto simp: isStageNode_def isPrivateNode_def)
    then show ?thesis using assms(4) Cons by (simp add: private_first_def)
  qed (use assms(4,7) in \<open>simp add: private_first_def\<close>)
  ultimately have none: "isViolated PrivateMustExistRule T n = None"
    using private_isViolated_abs [OF sound_treeD(1) [OF assms(1)], of n] assms(3) by simp
  have "PrivateMustExistRule \<in> set rules" by (simp add: rules_def)
  then have stuck: "check_node T n vs = None" for vs
    unfolding check_node_def by (rule foldM_stuck) (use none in simp)
  obtain ns where ns: "preOrderWalk T r = Some ns" "set ns = below F r" using walk_legal [OF assms(1)] by blast
  have "foldM (check_node T) ns [] = None" using assms(2) stuck unfolding ns(2) [symmetric] by (rule foldM_stuck)
  then show ?thesis using ns(1) sound_treeD(4) [OF assms(1)]
    by (simp add: findAndFixViolations_def collectViolations_def)
qed

text \<open>
  A tree to legalize: the pipeline 9 has the private node 2, the stages 3, 4 and 5 and the loop 6,
  which holds the stage 7 and the loop 8; 7 unblocks 4.
\<close>

definition mixed_pipe :: ptree where
  "mixed_pipe = \<lparr>parent_node = [9 \<mapsto> 0, 2 \<mapsto> 9, 3 \<mapsto> 9, 4 \<mapsto> 9, 5 \<mapsto> 9, 6 \<mapsto> 9, 7 \<mapsto> 6, 8 \<mapsto> 6],
     first_child = [0 \<mapsto> 9, 9 \<mapsto> 2, 6 \<mapsto> 7],
     next_sibling = [2 \<mapsto> 3, 3 \<mapsto> 4, 4 \<mapsto> 5, 5 \<mapsto> 6, 7 \<mapsto> 8], allocated = (\<lambda>n. n < 10),
     kind = (\<lambda>n. if n = 0 then RootNode else if n = 9 then PipelineNode else if n = 2 then PrivateNode
       else if n \<in> {3, 4, 5, 7} then StageNode (int n) else LoopNode),
     operation_op = (\<lambda>n. Some n), template_op = (\<lambda>_. None),
     dependencies = (\<lambda>n. if n = 7 then [Some 4] else []),
     opToNode = (\<lambda>q. if q < 10 then Some q else None), root = Some 0, next_ptr = 10\<rparr>"

definition mixed_children :: "ptr \<Rightarrow> ptr list" where
  "mixed_children n =
     (if n = 0 then [9] else if n = 9 then [2, 3, 4, 5, 6] else if n = 6 then [7, 8] else [])"

lemma mixed_pipe_fields:
  "next_ptr mixed_pipe = 10" "operation_op mixed_pipe n = Some n"
  "kind mixed_pipe n = (if n = 0 then RootNode else if n = 9 then PipelineNode else if n = 2 then PrivateNode
     else if n \<in> {3, 4, 5, 7} then StageNode (int n) else LoopNode)"
  by (simp_all add: mixed_pipe_def)

lemma mixed_pipe_below: "below mixed_children 0 \<subseteq> {0, 2, 3, 4, 5, 6, 7, 8, 9}"
  by (rule below_subset) (auto simp: mixed_children_def)

lemma mixed_pipe_in: "9 \<in> below mixed_children 0" "6 \<in> below mixed_children 0" "6 \<in> below mixed_children 9"
proof -
  have 1: "9 \<in> set (mixed_children 0)" "6 \<in> set (mixed_children 9)" by (simp_all add: mixed_children_def)
  show 2: "9 \<in> below mixed_children 0" using below_child [of 0 mixed_children 0 9] 1(1) by simp
  show "6 \<in> below mixed_children 0" using below_child [of 9 mixed_children 0 6] 1(2) 2 by simp
  show "6 \<in> below mixed_children 9" using below_child [of 9 mixed_children 9 6] 1(2) by simp
qed

lemma mixed_pipe_sound: "sound_tree mixed_pipe mixed_children 0"
proof -
  have "tree_abs mixed_pipe mixed_children"
    by (rule tree_absI) (auto simp: mixed_pipe_def mixed_children_def split: if_splits)
  moreover have "fresh_above mixed_pipe" by (auto simp: fresh_above_def mixed_pipe_def)
  moreover have "ranked mixed_children (\<lambda>n. if n = 0 then 0 else if n = 9 then Suc 0 else if n \<in> {7, 8} then 3 else 2)"
    by (auto simp: ranked_def mixed_children_def)
  ultimately show ?thesis
    by (auto simp: sound_tree_def mixed_pipe_def mixed_children_def isStageNode_def split: if_splits)
qed

lemma mixed_pipe_templated: "templated mixed_pipe mixed_children 0"
  unfolding templated_def
proof (intro conjI ballI impI)
  fix q assume "\<not> isPipelineNode mixed_pipe q" "\<exists>c\<in>set (mixed_children q). isStageNode mixed_pipe c"
  then have "q = 6" by (auto simp: mixed_children_def mixed_pipe_def isPipelineNode_def isStageNode_def split: if_splits)
  moreover have "isPipelineNode mixed_pipe 9" by (simp add: mixed_pipe_def isPipelineNode_def)
  ultimately show "\<exists>a. isPipelineNode mixed_pipe a \<and> q \<in> below mixed_children a" using mixed_pipe_in(3) by blast
qed (simp add: mixed_pipe_def)

lemma mixed_pipe_legal: "legal_tree mixed_pipe mixed_children 0"
  unfolding legal_tree_def
proof (intro conjI ballI mixed_pipe_sound mixed_pipe_templated)
  fix n show "checkable mixed_pipe mixed_children n"
    by (auto simp: checkable_def private_first_def mixed_children_def mixed_pipe_def isPipelineNode_def isPrivateNode_def)
qed

theorem findAndFixViolations_legalizes_witness:
  "\<exists>T' F'. findAndFixViolations mixed_pipe = Some (3, T') \<and> grows 0 mixed_pipe mixed_children T' F' \<and>
     legalized T' F' 0 \<and> map (preOrderWalk T') [9] = [Some [9, 2, 3, 4, 5, 10, 6, 8, 11, 12, 7]]"
proof -
  have run: "map_option (\<lambda>(k, T'). (k, map (preOrderWalk T') [9])) (findAndFixViolations mixed_pipe) =
      Some (3, [Some [9, 2, 3, 4, 5, 10, 6, 8, 11, 12, 7]])" by code_simp
  obtain T' F' where *: "findAndFixViolations mixed_pipe = Some (work mixed_pipe mixed_children 0, T')"
    "grows 0 mixed_pipe mixed_children T' F'" "legalized T' F' 0"
    using findAndFixViolations_legalizes [OF mixed_pipe_legal] by blast
  show ?thesis
    by (rule exI [of _ T'], rule exI [of _ F']) (use run * in simp)
qed


theorem children_fix_wraps_witness:
  "\<exists>T' F' k. children_fix 9 (mixed_pipe, 8) = Some (T', 8 + int k) \<and> tree_abs T' F' \<and>
    unwrap 10 F' (F' 9) = [2, 3, 4, 5, 6] \<and> (\<forall>m\<in>{10..<10 + k}. isStageNode T' m)"
proof -
  have "isPipelineNode mixed_pipe 9" by (simp add: mixed_pipe_def isPipelineNode_def)
  from children_fix_wraps [OF mixed_pipe_sound mixed_pipe_in(1) this, of 8]
  obtain T' F' k where "children_fix 9 (mixed_pipe, 8) = Some (T', 8 + int k)" "tree_abs T' F'"
    "\<forall>m\<in>{10..<10 + k}. coarse_stage (illegal_child mixed_pipe) T' F' m"
    "unwrap 10 F' (F' 9) = dropWhile (illegal_child mixed_pipe) (mixed_children 9) @
       takeWhile (illegal_child mixed_pipe) (mixed_children 9)"
    by (auto simp: mixed_pipe_fields)
  moreover have "dropWhile (illegal_child mixed_pipe) (mixed_children 9) @
      takeWhile (illegal_child mixed_pipe) (mixed_children 9) = [2, 3, 4, 5, 6]"
    by (simp add: mixed_children_def illegal_child_def mixed_pipe_fields isPrivateNode_def isStageNode_def)
  ultimately show ?thesis by (auto simp: coarse_stage_def)
qed

theorem parent_fix_order_witness:
  "\<exists>T' F'. parent_fix 7 (mixed_pipe, 8) = Some (T', 8) \<and> tree_abs T' F' \<and> F' 10 = [7] \<and> F' 6 = [8, 10]"
proof -
  have "\<not> isPipelineNode mixed_pipe 6" "7 \<in> set (mixed_children 6)" "isStageNode mixed_pipe 7"
    by (simp_all add: mixed_pipe_def mixed_children_def isPipelineNode_def isStageNode_def)
  from parent_fix_order [OF mixed_pipe_sound mixed_pipe_in(2) this mixed_pipe_templated, of 8]
  show ?thesis by (simp add: mixed_children_def isStageNode_def mixed_pipe_fields)
qed

text \<open>In \<open>mixed_pipe\<close> with the private node 2 turned into a loop, the first child stops the third rule.\<close>

definition loop_pipe :: ptree where
  "loop_pipe = mixed_pipe\<lparr>kind := (kind mixed_pipe)(2 := LoopNode)\<rparr>"

theorem findAndFixViolations_hangs_witness: "findAndFixViolations loop_pipe = None"
proof (rule findAndFixViolations_hangs)
  show "sound_tree loop_pipe mixed_children 0"
  proof -
    have "tree_abs loop_pipe mixed_children"
      by (rule tree_abs_links_cong [OF sound_treeD(1) [OF mixed_pipe_sound]]) (simp_all add: loop_pipe_def)
    then show ?thesis using mixed_pipe_sound by (simp add: sound_tree_def loop_pipe_def fresh_above_def isStageNode_def)
  qed
  show "9 \<in> below mixed_children 0" by (rule mixed_pipe_in)
  show "mixed_children 9 = [] @ 2 # [3, 4, 5, 6]" by (simp add: mixed_children_def)
qed (simp_all add: loop_pipe_def mixed_pipe_def isPipelineNode_def isStageNode_def isPrivateNode_def)

end
