(* ===== verification/StageDAG.thy ===== *)
theory StageDAG
  imports PipelineTree
begin

text \<open>
  The stage graphs of \<open>lib/Dialect/KTDF/Analysis/GlobalStageDAG.cpp\<close>: the token dependencies of a
  list of stages with a depth-first check for cycles, Kahn's sort on them, and the flat graph over
  nested pipelines, whose edges go from the leaf stages of a producer to the root stages of a
  consumer. \<open>DenseMap\<close>s from operations are partial functions; their iteration order is a parameter.
\<close>

section \<open>The dependency graph of a list of stages\<close>

record stage_dag =
  predecessors :: "op \<Rightarrow> op list option"
  successors :: "op \<Rightarrow> op list option"

definition empty_dag :: stage_dag where
  "empty_dag = \<lparr>predecessors = (\<lambda>_. None), successors = (\<lambda>_. None)\<rparr>"

text \<open>\<open>m[k]\<close> and \<open>m[k].push_back(v)\<close>: a missing entry is an empty list.\<close>

definition entry :: "(op \<Rightarrow> op list option) \<Rightarrow> op \<Rightarrow> op list" where
  "entry m k = (case m k of None \<Rightarrow> [] | Some vs \<Rightarrow> vs)"

definition push_entry :: "op \<Rightarrow> op \<Rightarrow> (op \<Rightarrow> op list option) \<Rightarrow> (op \<Rightarrow> op list option)" where
  "push_entry k v m = m(k := Some (entry m k @ [v]))"

definition push_edge :: "op \<Rightarrow> op \<Rightarrow> stage_dag \<Rightarrow> stage_dag" where
  "push_edge producer consumer d =
     d\<lparr>predecessors := push_entry consumer producer (predecessors d),
       successors := push_entry producer consumer (successors d)\<rparr>"

definition init_entry :: "irop \<Rightarrow> stage_dag \<Rightarrow> stage_dag" where
  "init_entry st d =
     d\<lparr>predecessors := (predecessors d)(op_of st := Some []),
       successors := (successors d)(op_of st := Some [])\<rparr>"

definition token_producer_map :: "irop list \<Rightarrow> token \<Rightarrow> op option" where
  "token_producer_map stages =
     fold (\<lambda>st. fold (\<lambda>t m. m(t := Some (op_of st))) (depends_out st)) stages (\<lambda>_. None)"

definition connect :: "(token \<Rightarrow> op option) \<Rightarrow> irop \<Rightarrow> token \<Rightarrow> stage_dag \<Rightarrow> stage_dag" where
  "connect producers st t d =
     (case producers t of None \<Rightarrow> d | Some producer \<Rightarrow> push_edge producer (op_of st) d)"

definition collect_edges :: "irop list \<Rightarrow> stage_dag \<Rightarrow> stage_dag" where
  "collect_edges stages d =
     fold (\<lambda>st. fold (connect (token_producer_map stages) st) (depends_in st)) stages
       (fold init_entry stages d)"

text \<open>
  The recursive \<open>hasCycle\<close>: \<open>dfs succ op ss color\<close> is the rest of the loop over the successors \<open>ss\<close>
  of \<open>op\<close>. Colours: 0 white, 1 gray, 2 black; a missing entry of \<open>color\<close> reads as 0.
\<close>

partial_function (option) dfs ::
  "('a \<Rightarrow> 'a list) \<Rightarrow> 'a \<Rightarrow> 'a list \<Rightarrow> ('a \<Rightarrow> nat) \<Rightarrow> (bool \<times> ('a \<Rightarrow> nat)) option" where
  "dfs succ op ss color =
     (case ss of
        [] \<Rightarrow> Some (False, color(op := 2))
      | s # rest \<Rightarrow>
          (if color s = 1 then Some (True, color)
           else if color s = 0 then
             Option.bind (dfs succ s (succ s) (color(s := 1))) (\<lambda>r.
               if fst r then Some (True, snd r) else dfs succ op rest (snd r))
           else dfs succ op rest color))"

declare dfs.simps [code]

definition hasCycle :: "('a \<Rightarrow> 'a list) \<Rightarrow> 'a \<Rightarrow> ('a \<Rightarrow> nat) \<Rightarrow> (bool \<times> ('a \<Rightarrow> nat)) option" where
  "hasCycle succ op color = dfs succ op (succ op) (color(op := 1))"

fun check_cycles :: "('a \<Rightarrow> 'a list) \<Rightarrow> 'a list \<Rightarrow> ('a \<Rightarrow> nat) \<Rightarrow> bool option" where
  "check_cycles succ [] color = Some False"
| "check_cycles succ (op # ops) color =
     (if color op = 0 then
        Option.bind (hasCycle succ op color) (\<lambda>r.
          if fst r then Some True else check_cycles succ ops (snd r))
      else check_cycles succ ops color)"

definition analyzeStageDependencies :: "irop list \<Rightarrow> stage_dag \<Rightarrow> stage_dag outcome" where
  "analyzeStageDependencies stages d =
     (let d1 = collect_edges stages d in
      do { cyclic \<leftarrow> check_cycles (entry (successors d1)) (map op_of stages) (\<lambda>_. 0);
           if cyclic then failure else success d1 })"

section \<open>Kahn's sort\<close>

definition sortStagesByDAG :: "irop list \<Rightarrow> stage_dag \<Rightarrow> op list outcome" where
  "sortStagesByDAG stages d =
     (if stages = [] then success []
      else (let ops = map op_of stages;
                in_degree = fold (\<lambda>q deg. deg(q := int (length (entry (predecessors d) q)))) ops (\<lambda>_. 0)
            in do { sorted \<leftarrow> kahn_loop (\<lambda>q. Some (entry (successors d) q))
                      (filter (\<lambda>q. in_degree q = 0) ops) in_degree [];
                    if length sorted \<noteq> length stages then failure else success sorted }))"

section \<open>Roots and leaves of nested pipelines\<close>

text \<open>\<open>stage.walk\<close> is in post-order, and is interrupted at the first pipeline.\<close>

definition nested_pipeline :: "irop \<Rightarrow> irop option" where
  "nested_pipeline st = find (\<lambda>o'. class_of o' = PipelineOp) (walk_post st)"

definition inner_stages :: "irop \<Rightarrow> irop list" where
  "inner_stages p = filter (\<lambda>o'. class_of o' = StageOp) (body_of p)"

definition no_entries :: "(op \<Rightarrow> op list option) \<Rightarrow> irop \<Rightarrow> bool" where
  "no_entries m st \<longleftrightarrow> m (op_of st) = None \<or> m (op_of st) = Some []"

lemma walk_post_size: "p \<in> set (walk_post st) \<Longrightarrow> size p \<le> size st"
proof (induction st rule: walk_post.induct)
  case (1 q k ins outs body)
  then show ?case using size_list_estimation' [of _ body] by (fastforce simp: less_Suc_eq_le)
qed

lemma body_size: "i \<in> set (body_of p) \<Longrightarrow> size i < size p"
  by (cases p) (use size_list_estimation' [of i _ "size i" size] in \<open>fastforce simp: less_Suc_eq_le\<close>)

lemma inner_size:
  assumes "nested_pipeline st = Some p" and "i \<in> set (inner_stages p)"
  shows "size i < size st"
proof -
  have "p \<in> set (walk_post st)" using assms(1) by (auto simp: nested_pipeline_def find_Some_iff)
  then show ?thesis using walk_post_size body_size [of i p] assms(2)
    by (auto simp: inner_stages_def dest: order.strict_trans2)
qed

text \<open>The analysis always returns, so the last case of the two functions never applies.\<close>

function getRootStages :: "irop \<Rightarrow> irop list" where
  "getRootStages st =
     (case nested_pipeline st of
        None \<Rightarrow> [st]
      | Some p \<Rightarrow>
          (case analyzeStageDependencies (inner_stages p) empty_dag of
             Some (Some d) \<Rightarrow>
               concat (map (\<lambda>i. if no_entries (predecessors d) i then getRootStages i else []) (inner_stages p))
           | _ \<Rightarrow> [st]))"
  by pat_completeness auto
termination by (relation "measure size") (auto dest: inner_size)

function getLeafStages :: "irop \<Rightarrow> irop list" where
  "getLeafStages st =
     (case nested_pipeline st of
        None \<Rightarrow> [st]
      | Some p \<Rightarrow>
          (case analyzeStageDependencies (inner_stages p) empty_dag of
             Some (Some d) \<Rightarrow>
               concat (map (\<lambda>i. if no_entries (successors d) i then getLeafStages i else []) (inner_stages p))
           | _ \<Rightarrow> [st]))"
  by pat_completeness auto
termination by (relation "measure size") (auto dest: inner_size)

declare getRootStages.simps [simp del] getLeafStages.simps [simp del]

section \<open>The global graph\<close>

definition connect_ends :: "irop list \<Rightarrow> irop list \<Rightarrow> stage_dag \<Rightarrow> stage_dag" where
  "connect_ends producer_leaves consumer_roots =
     fold (\<lambda>leaf. fold (\<lambda>rt. push_edge (op_of leaf) (op_of rt)) consumer_roots) producer_leaves"

text \<open>\<open>dyn_cast<StageOp>\<close> of a key: the stage it came from.\<close>

definition stage_with :: "irop list \<Rightarrow> op \<Rightarrow> irop option" where
  "stage_with stages q = find (\<lambda>st. op_of st = q) stages"

definition connect_producer :: "irop list \<Rightarrow> stage_dag \<Rightarrow> op \<Rightarrow> stage_dag \<Rightarrow> stage_dag" where
  "connect_producer stages local_dag producer_op g =
     (case stage_with stages producer_op of
        None \<Rightarrow> g
      | Some producer_stage \<Rightarrow>
          (let producer_leaves = getLeafStages producer_stage in
           fold (\<lambda>consumer_op g.
               case stage_with stages consumer_op of
                 None \<Rightarrow> g
               | Some consumer_stage \<Rightarrow> connect_ends producer_leaves (getRootStages consumer_stage) g)
             (entry (successors local_dag) producer_op) g))"

definition connect_pipeline ::
  "(irop \<Rightarrow> irop list) \<Rightarrow> (op list \<Rightarrow> op list) \<Rightarrow> irop \<Rightarrow> stage_dag \<Rightarrow> stage_dag outcome" where
  "connect_pipeline op_stages ord pl g =
     (let direct_stages = op_stages pl in
      if direct_stages = [] then success g
      else attempt (analyzeStageDependencies direct_stages empty_dag) (\<lambda>local_dag.
        success (fold (connect_producer direct_stages local_dag) (ord (map op_of direct_stages)) g)))"

definition buildGlobalStageDAG ::
  "(irop \<Rightarrow> irop list) \<Rightarrow> (op list \<Rightarrow> op list) \<Rightarrow> irop \<Rightarrow> stage_dag \<Rightarrow> stage_dag outcome" where
  "buildGlobalStageDAG op_stages ord root_op =
     foldA (connect_pipeline op_stages ord)
       (rev (filter (\<lambda>o'. class_of o' = PipelineOp) (walk_post root_op)))"

section \<open>The edges\<close>

text \<open>\<open>next_stages stages q\<close>: the consumers of the tokens of \<open>q\<close>, in order, with repetitions.\<close>

definition next_stages :: "irop list \<Rightarrow> op \<Rightarrow> op list" where
  "next_stages stages q =
     concat (map (\<lambda>s. map (\<lambda>_. op_of s) (filter (\<lambda>t. token_producer_map stages t = Some q) (depends_in s))) stages)"

definition prev_stages :: "irop list \<Rightarrow> op \<Rightarrow> op list" where
  "prev_stages stages q =
     concat (map (\<lambda>s. if op_of s = q then List.map_filter (token_producer_map stages) (depends_in s) else []) stages)"

lemma entry_push: "entry (push_entry k v m) q = entry m q @ (if q = k then [v] else [])"
  by (simp add: push_entry_def entry_def)

lemma fold_connect:
  "entry (successors (fold (connect m st) ts d)) q =
     entry (successors d) q @ map (\<lambda>_. op_of st) (filter (\<lambda>t. m t = Some q) ts)"
  "entry (predecessors (fold (connect m st) ts d)) q =
     entry (predecessors d) q @ (if op_of st = q then List.map_filter m ts else [])"
  by (induction ts arbitrary: d)
    (auto simp: connect_def push_edge_def entry_push map_filter_simps split: option.splits)

lemma fold_stages:
  "entry (successors (fold (\<lambda>st. fold (connect m st) (depends_in st)) ss d)) q = entry (successors d) q @
     concat (map (\<lambda>s. map (\<lambda>_. op_of s) (filter (\<lambda>t. m t = Some q) (depends_in s))) ss)"
  "entry (predecessors (fold (\<lambda>st. fold (connect m st) (depends_in st)) ss d)) q = entry (predecessors d) q @
     concat (map (\<lambda>s. if op_of s = q then List.map_filter m (depends_in s) else []) ss)"
  by (induction ss arbitrary: d) (simp_all add: fold_connect)

lemma fold_init:
  "entry (successors (fold init_entry ss d)) q = (if q \<in> op_of ` set ss then [] else entry (successors d) q)"
  "entry (predecessors (fold init_entry ss d)) q = (if q \<in> op_of ` set ss then [] else entry (predecessors d) q)"
  by (induction ss arbitrary: d) (auto simp: init_entry_def entry_def)

lemma fold_tokens: "fold (\<lambda>t m. m(t := Some v)) ts m x = (if x \<in> set ts then Some v else m x)"
  by (induction ts arbitrary: m) auto

text \<open>The last stage of the list with the token among its outputs.\<close>

lemma fold_producers:
  "fold (\<lambda>st. fold (\<lambda>t m. m(t := Some (op_of st))) (depends_out st)) ss m x =
     (case find (\<lambda>st. x \<in> set (depends_out st)) (rev ss) of None \<Rightarrow> m x | Some st \<Rightarrow> Some (op_of st))"
proof (induction ss arbitrary: m)
  case (Cons a ss)
  then show ?case
    by (cases "find (\<lambda>st. x \<in> set (depends_out st)) (rev ss)") (auto simp: fold_tokens find_append simp del: fun_upd_apply)
qed simp

lemma token_producer_map_eq:
  "token_producer_map stages t = map_option op_of (find (\<lambda>st. t \<in> set (depends_out st)) (rev stages))"
  unfolding token_producer_map_def fold_producers by (simp add: map_option_case)

lemma producer_is_stage:
  "token_producer_map stages t = Some q \<Longrightarrow> \<exists>s\<in>set stages. op_of s = q \<and> t \<in> set (depends_out s)"
  using find_Some_iff [of "\<lambda>st. t \<in> set (depends_out st)" "rev stages"]
  by (auto simp: token_producer_map_eq) (metis nth_mem length_rev set_rev)

text \<open>When every token has one producer, the map finds it.\<close>

lemma producer_unique:
  assumes "s \<in> set stages" and "t \<in> set (depends_out s)"
    and "\<And>s'. s' \<in> set stages \<Longrightarrow> t \<in> set (depends_out s') \<Longrightarrow> op_of s' = op_of s"
  shows "token_producer_map stages t = Some (op_of s)"
proof -
  obtain q where "token_producer_map stages t = Some q"
    using assms(1,2) find_None_iff [of "\<lambda>st. t \<in> set (depends_out st)" "rev stages"]
    by (cases "find (\<lambda>st. t \<in> set (depends_out st)) (rev stages)") (auto simp: token_producer_map_eq)
  then show ?thesis using producer_is_stage assms(3) by metis
qed

lemma set_next_stages:
  "c \<in> set (next_stages stages q) \<longleftrightarrow>
     (\<exists>s\<in>set stages. op_of s = c \<and> (\<exists>t\<in>set (depends_in s). token_producer_map stages t = Some q))"
  unfolding next_stages_def set_concat set_map set_filter by auto

lemma set_map_filter_iff: "y \<in> set (List.map_filter f xs) \<longleftrightarrow> (\<exists>x\<in>set xs. f x = Some y)"
  by (force simp: List.map_filter_def)

lemma set_prev_stages:
  "q \<in> set (prev_stages stages c) \<longleftrightarrow> c \<in> set (next_stages stages q)"
proof -
  have "q \<in> set (prev_stages stages c) \<longleftrightarrow>
      (\<exists>s\<in>set stages. q \<in> set (if op_of s = c then List.map_filter (token_producer_map stages) (depends_in s) else []))"
    by (auto simp: prev_stages_def)
  also have "\<dots> \<longleftrightarrow> c \<in> set (next_stages stages q)"
    unfolding set_next_stages by (rule bex_cong) (auto simp: set_map_filter_iff)
  finally show ?thesis .
qed

lemma next_stages_inside: "set (next_stages stages q) \<subseteq> op_of ` set stages"
  by (auto simp: set_next_stages)

lemma next_stages_outside: "q \<notin> op_of ` set stages \<Longrightarrow> next_stages stages q = []"
  using set_next_stages [of _ stages q] producer_is_stage [of stages _ q]
  by (metis image_eqI list.set_intros(1) neq_Nil_conv)

text \<open>The two maps of a graph built from an empty one.\<close>

lemma collect_edges_entry:
  "q \<in> op_of ` set stages \<Longrightarrow> entry (successors (collect_edges stages d)) q = next_stages stages q"
  "q \<in> op_of ` set stages \<Longrightarrow> entry (predecessors (collect_edges stages d)) q = prev_stages stages q"
  by (simp_all add: collect_edges_def fold_stages fold_init next_stages_def prev_stages_def)

lemma collect_edges_empty: "entry (successors (collect_edges stages empty_dag)) q = next_stages stages q"
proof (cases "q \<in> op_of ` set stages")
  case False
  have "entry (successors (collect_edges stages empty_dag)) q = entry (successors empty_dag) q @ next_stages stages q"
    unfolding collect_edges_def fold_stages fold_init using False by (simp add: next_stages_def)
  then show ?thesis by (simp add: entry_def empty_dag_def)
qed (rule collect_edges_entry)

text \<open>Counting the edges into a stage at either end.\<close>

lemma prev_stages_length:
  assumes "distinct (map op_of stages)"
  shows "int (length (prev_stages stages v)) =
    indeg (set (map op_of stages)) (\<lambda>q. Some (next_stages stages q)) v"
proof -
  let ?m = "token_producer_map stages" and ?U = "op_of ` set stages"
  have ran: "q \<in> ?U" if "?m t = Some q" for t q using producer_is_stage [OF that] by blast
  have cnt: "count_list (map (\<lambda>_. c) xs) v = (if c = v then length xs else 0)" for c :: op and xs :: "token list"
    by (induction xs) auto
  have tok: "(\<Sum>u\<in>?U. length (filter (\<lambda>t. ?m t = Some u) ts)) = length (List.map_filter ?m ts)" for ts
  proof (induction ts)
    case (Cons t ts)
    show ?case
    proof (cases "?m t")
      case None
      then show ?thesis using Cons by (simp add: map_filter_simps)
    next
      case (Some q)
      have "length (filter (\<lambda>t. ?m t = Some u) (t # ts)) = (if u = q then 1 else 0) + length (filter (\<lambda>t. ?m t = Some u) ts)" for u
        using Some by simp
      then have "(\<Sum>u\<in>?U. length (filter (\<lambda>t. ?m t = Some u) (t # ts))) =
          (\<Sum>u\<in>?U. (if u = q then 1 else 0)) + length (List.map_filter ?m ts)"
        using Cons by (simp only: sum.distrib)
      also have "(\<Sum>u\<in>?U. (if u = q then 1 else 0)) = (1 :: nat)" using ran [OF Some] by simp
      finally show ?thesis using Some by (simp add: map_filter_simps)
    qed
  qed (simp add: map_filter_simps)
  have "(\<Sum>u\<in>?U. count_list (concat (map (\<lambda>s. map (\<lambda>_. op_of s) (filter (\<lambda>t. ?m t = Some u) (depends_in s))) ss)) v) =
      length (concat (map (\<lambda>s. if op_of s = v then List.map_filter ?m (depends_in s) else []) ss))" for ss
  proof (induction ss)
    case (Cons a ss)
    have "(\<Sum>u\<in>?U. (if op_of a = v then length (filter (\<lambda>t. ?m t = Some u) (depends_in a)) else 0)) =
        (if op_of a = v then length (List.map_filter ?m (depends_in a)) else 0)"
      using tok [of "depends_in a"] by (cases "op_of a = v") simp_all
    then show ?case using Cons by (simp add: count_list_append cnt sum.distrib)
  qed simp
  from this [of stages] show ?thesis
    by (simp add: indeg_def prev_stages_def next_stages_def flip: of_nat_sum)
qed

section \<open>The depth-first check finds the cycles\<close>

definition graph_of :: "('a \<Rightarrow> 'a list) \<Rightarrow> ('a \<times> 'a) set" where
  "graph_of succ = {(x, y). y \<in> set (succ x)}"

text \<open>No edge leaves the black nodes, and there is no cycle among them.\<close>

definition black_ok :: "('a \<Rightarrow> 'a list) \<Rightarrow> ('a \<Rightarrow> nat) \<Rightarrow> bool" where
  "black_ok succ color \<longleftrightarrow> (\<forall>x. color x = 2 \<longrightarrow> (\<forall>y\<in>set (succ x). color y = 2)) \<and>
     acyclic {(x, y). color x = 2 \<and> y \<in> set (succ x)}"

lemma acyclic_add_source:
  assumes "acyclic R" and "s \<notin> Range R" and "s \<notin> A"
  shows "acyclic (R \<union> {s} \<times> A)"
proof -
  have "(x, y) \<in> R\<^sup>+ \<and> y \<noteq> s" if "(x, y) \<in> (R \<union> {s} \<times> A)\<^sup>+" "x \<noteq> s" for x y
    using that
  proof (induction rule: trancl.induct)
    case (r_into_trancl a b)
    then show ?case using assms(2) by auto
  next
    case (trancl_into_trancl a b c)
    then have "(b, c) \<in> R" by auto
    then show ?case using trancl_into_trancl assms(2) by (auto intro: trancl.trancl_into_trancl)
  qed
  moreover have "x \<noteq> s" if "(x, x) \<in> (R \<union> {s} \<times> A)\<^sup>+" for x
    using tranclD2 [OF that] assms(2,3) by auto
  ultimately show ?thesis using assms(1) unfolding acyclic_def by blast
qed

lemma black_ok_finish:
  assumes "black_ok succ color" and "color op = 1" and "\<forall>y\<in>set (succ op). color y = 2"
  shows "black_ok succ (color(op := 2))"
proof -
  let ?R = "{(x, y). color x = 2 \<and> y \<in> set (succ x)}"
  have R: "\<forall>x. color x = 2 \<longrightarrow> (\<forall>y\<in>set (succ x). color y = 2)" "acyclic ?R"
    using assms(1) by (simp_all add: black_ok_def)
  have "op \<notin> Range ?R" "op \<notin> set (succ op)" using R(1) assms(2,3) by auto
  then have "acyclic (?R \<union> {op} \<times> set (succ op))" using acyclic_add_source [OF R(2)] by blast
  moreover have "{(x, y). (color(op := 2)) x = 2 \<and> y \<in> set (succ x)} = ?R \<union> {op} \<times> set (succ op)"
    using assms(2) by (auto split: if_splits)
  ultimately show ?thesis using R(1) assms(2,3) by (simp add: black_ok_def)
qed

text \<open>What a call leaves when it finds no cycle.\<close>

definition finished :: "('a \<Rightarrow> 'a list) \<Rightarrow> 'a \<Rightarrow> ('a \<Rightarrow> nat) \<Rightarrow> ('a \<Rightarrow> nat) \<Rightarrow> bool" where
  "finished succ op c c' \<longleftrightarrow> black_ok succ c' \<and> c' op = 2 \<and> (\<forall>x. c' x \<le> 2) \<and> (\<forall>x. c x = 2 \<longrightarrow> c' x = 2) \<and>
     (\<forall>x. c' x = 1 \<longleftrightarrow> c x = 1 \<and> x \<noteq> op) \<and> (\<forall>x. c' x = 0 \<longrightarrow> c x = 0)"

lemma finishedD:
  assumes "finished succ op c c'"
  shows "black_ok succ c'" and "c' op = 2" and "c' x \<le> 2" and "c x = 2 \<Longrightarrow> c' x = 2"
    and "c' x = 1 \<longleftrightarrow> c x = 1 \<and> x \<noteq> op" and "c' x = 0 \<Longrightarrow> c x = 0"
  using assms by (simp_all add: finished_def)

lemma finished_trans:
  assumes f: "finished succ s (c(s := 1)) c2" and g: "finished succ op c2 c'" and s: "c s = 0"
  shows "finished succ op c c'"
  unfolding finished_def
proof (intro conjI allI impI)
  show "black_ok succ c'" "c' op = 2" using finishedD(1,2) [OF g] by auto
  fix x
  show "c' x \<le> 2" by (rule finishedD(3) [OF g])
  show "c' x = 2" if "c x = 2"
  proof (rule finishedD(4) [OF g], rule finishedD(4) [OF f])
    show "(c(s := 1)) x = 2" using that s by (cases "x = s") simp_all
  qed
  show "c' x = 1 \<longleftrightarrow> c x = 1 \<and> x \<noteq> op"
    unfolding finishedD(5) [OF g] finishedD(5) [OF f] using s by (cases "x = s") simp_all
  show "c x = 0" if "c' x = 0"
    using finishedD(6) [OF f finishedD(6) [OF g that]] by (cases "x = s") (simp_all add: s)
qed

lemma dfs_returns:
  assumes fin: "finite N" and closed: "\<And>x. x \<in> N \<Longrightarrow> set (succ x) \<subseteq> N"
  shows "card {x \<in> N. c x = 0} \<le> k \<Longrightarrow> op \<in> N \<Longrightarrow> set ss \<subseteq> set (succ op) \<Longrightarrow> c op = 1 \<Longrightarrow> \<forall>x. c x \<le> 2 \<Longrightarrow>
    black_ok succ c \<Longrightarrow> \<forall>y\<in>set (succ op) - set ss. c y = 2 \<Longrightarrow> \<forall>g. c g = 1 \<longrightarrow> (g, op) \<in> (graph_of succ)\<^sup>* \<Longrightarrow>
    \<exists>b c'. dfs succ op ss c = Some (b, c') \<and> (if b then \<not> acyclic (graph_of succ) else finished succ op c c')"
proof (induction k arbitrary: op ss c rule: less_induct)
  case (less k)
  from less.prems show ?case
  proof (induction ss arbitrary: c)
    case Nil
    then have "black_ok succ (c(op := 2))" by (intro black_ok_finish) auto
    then have "finished succ op c (c(op := 2))" using Nil by (auto simp: finished_def)
    moreover have "dfs succ op [] c = Some (False, c(op := 2))" by (subst dfs.simps) simp
    ultimately have "dfs succ op [] c = Some (False, c(op := 2)) \<and>
        (if False then \<not> acyclic (graph_of succ) else finished succ op c (c(op := 2)))" by (simp only: if_False simp_thms)
    then show ?case by blast
  next
    case (Cons s rest)
    have sN: "s \<in> set (succ op)" "s \<in> N" using Cons.prems(2,3) closed by auto
    show ?case
    proof (cases "c s = 1")
      case True
      then have "(s, op) \<in> (graph_of succ)\<^sup>*" "(op, s) \<in> graph_of succ"
        using Cons.prems(8) sN by (auto simp: graph_of_def)
      then have "(s, s) \<in> (graph_of succ)\<^sup>+" by (rule rtrancl_into_trancl1)
      then have "\<not> acyclic (graph_of succ)" by (auto simp: acyclic_def)
      then show ?thesis using True by (intro exI [of _ True]) (subst dfs.simps, simp)
    next
      case gray: False
      show ?thesis
      proof (cases "c s = 0")
        case True
        let ?c = "c(s := 1)"
        have sub: "{x \<in> N. ?c x = 0} \<subset> {x \<in> N. c x = 0}" using True sN(2) by auto
        then have "card {x \<in> N. ?c x = 0} < card {x \<in> N. c x = 0}" using fin by (intro psubset_card_mono) auto
        then have lt: "card {x \<in> N. ?c x = 0} < k" using Cons.prems(1) by simp
        have black: "?c x = 2 \<longleftrightarrow> c x = 2" for x using True by auto
        have bok: "black_ok succ ?c" using Cons.prems(6) unfolding black_ok_def black .
        have gr: "\<forall>g. ?c g = 1 \<longrightarrow> (g, s) \<in> (graph_of succ)\<^sup>*"
          using Cons.prems(8) sN(1) by (auto simp: graph_of_def intro: rtrancl_into_rtrancl)
        obtain b c2 where d: "dfs succ s (succ s) ?c = Some (b, c2)"
          "if b then \<not> acyclic (graph_of succ) else finished succ s ?c c2"
        proof -
          have "?c s = 1" "\<forall>x. ?c x \<le> 2" "\<forall>y\<in>set (succ s) - set (succ s). ?c y = 2" using Cons.prems(5) by simp_all
          from less.IH [OF lt order_refl sN(2) order_refl this(1,2) bok this(3) gr] show ?thesis using that by blast
        qed
        show ?thesis
        proof (cases b)
          case True
          then show ?thesis using d gray \<open>c s = 0\<close> by (intro exI [of _ True]) (subst dfs.simps, simp)
        next
          case False
          then have f: "finished succ s ?c c2" using d(2) by simp
          have ops: "op \<noteq> s" using Cons.prems(4) True by auto
          have c2: "c2 op = 1" "\<forall>x. c2 x \<le> 2" "black_ok succ c2"
            using f Cons.prems(4) ops by (simp_all add: finished_def)
          have old: "c2 x = 2" if "c x = 2" for x
          proof (rule finishedD(4) [OF f])
            show "(c(s := 1)) x = 2" using that True by (cases "x = s") simp_all
          qed
          have old_succ: "\<forall>y\<in>set (succ op) - set rest. c2 y = 2"
          proof
            fix y assume "y \<in> set (succ op) - set rest"
            then have "y = s \<or> c y = 2" using Cons.prems(7) by auto
            then show "c2 y = 2" using old f by (auto simp: finished_def)
          qed
          have gr2: "\<forall>g. c2 g = 1 \<longrightarrow> (g, op) \<in> (graph_of succ)\<^sup>*"
            using f Cons.prems(8) by (auto simp: finished_def)
          have "{x \<in> N. c2 x = 0} \<subseteq> {x \<in> N. c x = 0}" by (auto dest!: finishedD(6) [OF f] split: if_splits)
          then have "card {x \<in> N. c2 x = 0} \<le> card {x \<in> N. c x = 0}" using fin by (intro card_mono) auto
          then have le: "card {x \<in> N. c2 x = 0} \<le> k" using Cons.prems(1) by simp
          obtain b' c' where r: "dfs succ op rest c2 = Some (b', c')"
            "if b' then \<not> acyclic (graph_of succ) else finished succ op c2 c'"
          proof -
            have "set rest \<subseteq> set (succ op)" using Cons.prems(3) by simp
            from Cons.IH [OF le Cons.prems(2) this c2 old_succ gr2] show ?thesis using that by blast
          qed
          have "if b' then \<not> acyclic (graph_of succ) else finished succ op c c'"
            using r(2) finished_trans [OF f _ True, of op c'] by presburger
          moreover have "dfs succ op (s # rest) c = Some (b', c')"
            using r(1) d(1) gray True False by (subst dfs.simps) simp
          ultimately show ?thesis by blast
        qed
      next
        case False
        then have two: "c s = 2" using gray Cons.prems(5) [rule_format, of s] by linarith
        have "\<forall>y\<in>set (succ op) - set rest. c y = 2" using Cons.prems(7) two by auto
        moreover have "set rest \<subseteq> set (succ op)" using Cons.prems(3) by simp
        moreover have "dfs succ op (s # rest) c = dfs succ op rest c" using two by (subst dfs.simps) simp
        ultimately show ?thesis using Cons.IH [OF Cons.prems(1,2) _ Cons.prems(4-6) _ Cons.prems(8)] by (simp only:)
      qed
    qed
  qed
qed

lemma check_cycles_returns:
  assumes fin: "finite N" and closed: "\<And>x. x \<in> N \<Longrightarrow> set (succ x) \<subseteq> N"
  shows "set ops \<subseteq> N \<Longrightarrow> \<forall>x. c x = 0 \<or> c x = 2 \<Longrightarrow> black_ok succ c \<Longrightarrow>
    \<exists>b. check_cycles succ ops c = Some b \<and> (if b then \<not> acyclic (graph_of succ)
      else \<exists>c'. black_ok succ c' \<and> (\<forall>x. c x = 2 \<longrightarrow> c' x = 2) \<and> (\<forall>x\<in>set ops. c' x = 2))"
proof (induction ops arbitrary: c)
  case Nil
  then show ?case by auto
next
  case (Cons op ops)
  show ?case
  proof (cases "c op = 0")
    case True
    let ?c = "c(op := 1)"
    have black: "?c x = 2 \<longleftrightarrow> c x = 2" for x using True by auto
    have bok: "black_ok succ ?c" using Cons.prems(3) unfolding black_ok_def black .
    have "\<forall>g. ?c g = 1 \<longrightarrow> (g, op) \<in> (graph_of succ)\<^sup>*" "\<forall>x. ?c x \<le> 2" "op \<in> N"
    proof -
      show "\<forall>g. ?c g = 1 \<longrightarrow> (g, op) \<in> (graph_of succ)\<^sup>*"
      proof (intro allI impI)
        fix g assume "?c g = 1"
        then have "g = op" using Cons.prems(2) by (metis fun_upd_apply one_neq_zero numeral_eq_one_iff semiring_norm(85))
        then show "(g, op) \<in> (graph_of succ)\<^sup>*" by simp
      qed
      show "\<forall>x. ?c x \<le> 2"
      proof
        fix x have "c x \<le> 2" using Cons.prems(2) by (metis le_refl zero_le)
        then show "?c x \<le> 2" by simp
      qed
      show "op \<in> N" using Cons.prems(1) by simp
    qed
    then obtain b c2 where d: "dfs succ op (succ op) ?c = Some (b, c2)"
      "if b then \<not> acyclic (graph_of succ) else finished succ op ?c c2"
      using dfs_returns [OF fin closed order_refl _ order_refl _ _ bok, of op] by auto
    show ?thesis
    proof (cases b)
      case True
      then show ?thesis using d \<open>c op = 0\<close> by (intro exI [of _ True]) (simp add: hasCycle_def)
    next
      case False
      then have f: "finished succ op ?c c2" using d(2) by simp
      have "\<forall>x. c2 x = 0 \<or> c2 x = 2"
      proof
        fix x
        have "c2 x \<le> 2" "c2 x \<noteq> 1" using f Cons.prems(2) [rule_format, of x] by (auto simp: finished_def split: if_splits)
        then show "c2 x = 0 \<or> c2 x = 2" by linarith
      qed
      note c2 = this
      have c2b: "black_ok succ c2" using f by (simp add: finished_def)
      obtain b' where b': "check_cycles succ ops c2 = Some b'" "if b' then \<not> acyclic (graph_of succ)
          else \<exists>c'. black_ok succ c' \<and> (\<forall>x. c2 x = 2 \<longrightarrow> c' x = 2) \<and> (\<forall>x\<in>set ops. c' x = 2)"
      proof -
        have "set ops \<subseteq> N" using Cons.prems(1) by simp
        from Cons.IH [OF this c2 c2b] show ?thesis using that by blast
      qed
      have "c2 op = 2" by (rule finishedD(2) [OF f])
      have old: "c2 x = 2" if "c x = 2" for x
      proof (rule finishedD(4) [OF f])
        show "(c(op := 1)) x = 2" using that True by (cases "x = op") simp_all
      qed
      have "check_cycles succ (op # ops) c = Some b'" "if b' then \<not> acyclic (graph_of succ)
          else \<exists>c'. black_ok succ c' \<and> (\<forall>x. c x = 2 \<longrightarrow> c' x = 2) \<and> (\<forall>x\<in>set (op # ops). c' x = 2)"
      proof -
        show "check_cycles succ (op # ops) c = Some b'" using b'(1) d(1) True False by (simp add: hasCycle_def)
        show "if b' then \<not> acyclic (graph_of succ)
          else \<exists>c'. black_ok succ c' \<and> (\<forall>x. c x = 2 \<longrightarrow> c' x = 2) \<and> (\<forall>x\<in>set (op # ops). c' x = 2)"
        proof (cases b')
          case False
          then obtain c' where "black_ok succ c'" "\<forall>x. c2 x = 2 \<longrightarrow> c' x = 2" "\<forall>x\<in>set ops. c' x = 2"
            using b'(2) by auto
          then show ?thesis using False \<open>c2 op = 2\<close> old
            by (simp only: if_False) (intro exI [of _ c'], simp)
        qed (use b'(2) in simp)
      qed
      then show ?thesis by blast
    qed
  next
    case False
    then have "c op = 2" using Cons.prems(2) [rule_format, of op] by auto
    moreover obtain b where "check_cycles succ ops c = Some b" "if b then \<not> acyclic (graph_of succ)
        else \<exists>c'. black_ok succ c' \<and> (\<forall>x. c x = 2 \<longrightarrow> c' x = 2) \<and> (\<forall>x\<in>set ops. c' x = 2)"
    proof -
      have "set ops \<subseteq> N" using Cons.prems(1) by simp
      from Cons.IH [OF this Cons.prems(2,3)] show ?thesis using that by blast
    qed
    ultimately show ?thesis by (cases b) auto
  qed
qed

lemma check_cycles_correct:
  assumes inside: "\<And>x. set (succ x) \<subseteq> set ops" and outside: "\<And>x. x \<notin> set ops \<Longrightarrow> succ x = []"
  shows "check_cycles succ ops (\<lambda>_. 0) = Some (\<not> acyclic (graph_of succ))"
proof -
  have "black_ok succ (\<lambda>_. 0)" by (simp add: black_ok_def acyclic_def)
  then obtain b where b: "check_cycles succ ops (\<lambda>_. 0) = Some b" "if b then \<not> acyclic (graph_of succ)
      else \<exists>c'. black_ok succ c' \<and> (\<forall>x\<in>set ops. c' x = 2)"
  proof -
    have "finite (set ops)" "\<And>x. x \<in> set ops \<Longrightarrow> set (succ x) \<subseteq> set ops" using inside by auto
    from check_cycles_returns [where N = "set ops" and succ = succ and ops = ops and c = "\<lambda>_. 0", OF this order_refl] \<open>black_ok succ (\<lambda>_. 0)\<close> obtain b where
      "check_cycles succ ops (\<lambda>_. 0) = Some b" "if b then \<not> acyclic (graph_of succ)
        else \<exists>c'. black_ok succ c' \<and> (\<forall>x. (0::nat) = 2 \<longrightarrow> c' x = 2) \<and> (\<forall>x\<in>set ops. c' x = 2)" by auto
    then show ?thesis by (intro that [of b]) (auto split: if_splits)
  qed
  have "acyclic (graph_of succ)" if c: "black_ok succ c'" "\<forall>x\<in>set ops. c' x = 2" for c'
  proof (rule acyclic_subset)
    show "acyclic {(x, y). c' x = 2 \<and> y \<in> set (succ x)}" using c(1) by (simp add: black_ok_def)
    show "graph_of succ \<subseteq> {(x, y). c' x = 2 \<and> y \<in> set (succ x)}"
    proof (clarsimp simp: graph_of_def)
      fix x y assume "y \<in> set (succ x)"
      then have "x \<in> set ops" using outside by force
      then show "c' x = 2" using c(2) by blast
    qed
  qed
  then show ?thesis using b by (cases b) auto
qed

section \<open>The analysis and the sort of a list of stages\<close>

lemma analyze_eq:
  "analyzeStageDependencies stages empty_dag =
     Some (if acyclic (graph_of (next_stages stages)) then Some (collect_edges stages empty_dag) else None)"
proof -
  have succ: "entry (successors (collect_edges stages empty_dag)) = next_stages stages"
    by (rule ext) (rule collect_edges_empty)
  have "check_cycles (next_stages stages) (map op_of stages) (\<lambda>_. 0) = Some (\<not> acyclic (graph_of (next_stages stages)))"
    using next_stages_inside next_stages_outside by (intro check_cycles_correct) auto
  then show ?thesis by (simp add: analyzeStageDependencies_def succ)
qed

lemma graph_edges:
  "edges (map op_of stages) (\<lambda>q. Some (next_stages stages q)) = graph_of (next_stages stages)"
proof -
  have "x \<in> op_of ` set stages" if "y \<in> set (next_stages stages x)" for x y
    using next_stages_outside [of x stages] that by fastforce
  then show ?thesis by (auto simp: edges_def graph_of_def)
qed

lemma sortStagesByDAG_sound:
  assumes "distinct (map op_of stages)"
  shows "\<exists>r. sortStagesByDAG stages (collect_edges stages empty_dag) = Some r \<and>
    (r = None \<longleftrightarrow> \<not> acyclic (graph_of (next_stages stages))) \<and>
    (\<forall>s. r = Some s \<longrightarrow> distinct s \<and> set s = op_of ` set stages \<and> topological (graph_of (next_stages stages)) s)"
proof (cases "stages = []")
  case True
  then show ?thesis by (simp add: sortStagesByDAG_def graph_of_def next_stages_def acyclic_def)
next
  case False
  let ?ops = "map op_of stages" and ?d = "collect_edges stages empty_dag" and ?succ = "\<lambda>q. Some (next_stages stages q)"
  let ?deg = "fold (\<lambda>q deg. deg(q := int (length (entry (predecessors ?d) q)))) ?ops (\<lambda>_. 0)"
  have fold_deg: "fold (\<lambda>q deg. deg(q := f q)) ops m v = (if v \<in> set ops then f v else m v)"
    for f and ops :: "op list" and m :: "op \<Rightarrow> int" and v
    by (induction ops arbitrary: m) auto
  have deg: "\<forall>v\<in>set ?ops. ?deg v = indeg (set ?ops) ?succ v"
    unfolding fold_deg using collect_edges_entry(2) [of _ stages empty_dag] prev_stages_length [OF assms] by simp
  have closed: "closed_graph ?ops ?succ"
    using assms next_stages_inside by (auto simp: closed_graph_def)
  obtain out where out: "kahn_loop ?succ (filter (\<lambda>v. ?deg v = 0) ?ops) ?deg [] = Some out" "distinct out"
    "set out \<subseteq> set ?ops" "topological (edges ?ops ?succ) out"
    "acyclic (edges ?ops ?succ) \<longleftrightarrow> length out = length ?ops" "length out = length ?ops \<longrightarrow> set out = set ?ops"
    using kahn_correct [OF closed deg] .
  have "(\<lambda>q. Some (entry (successors ?d) q)) = ?succ" by (simp add: collect_edges_empty)
  then have "sortStagesByDAG stages ?d = Some (if length out \<noteq> length stages then None else Some out)"
    using False out(1) by (simp add: sortStagesByDAG_def Let_def)
  then show ?thesis using out(2-6) unfolding graph_edges by auto
qed

text \<open>Analysis and sort together provide the contract of a sort of stages.\<close>

definition dag_graph :: "irop list \<Rightarrow> bool" where
  "dag_graph stages \<longleftrightarrow> distinct (map op_of stages)"

definition dag_sort :: "irop list \<Rightarrow> op list outcome" where
  "dag_sort stages = attempt (analyzeStageDependencies stages empty_dag) (sortStagesByDAG stages)"

lemma dag_sort_eq:
  assumes "dag_graph stages"
  shows "\<exists>r. dag_sort stages = Some r \<and> (r = None \<longleftrightarrow> \<not> acyclic (graph_of (next_stages stages))) \<and>
    (\<forall>s. r = Some s \<longrightarrow> distinct s \<and> set s = op_of ` set stages \<and> topological (graph_of (next_stages stages)) s)"
proof (cases "acyclic (graph_of (next_stages stages))")
  case True
  then have "dag_sort stages = sortStagesByDAG stages (collect_edges stages empty_dag)"
    by (simp add: dag_sort_def analyze_eq)
  then show ?thesis using sortStagesByDAG_sound [of stages] assms unfolding dag_graph_def by metis
next
  case False
  then show ?thesis by (simp add: dag_sort_def analyze_eq)
qed

interpretation dag_sort: stage_sort dag_graph "map op_of" next_stages dag_sort
proof unfold_locales
  fix g :: "irop list" and x s
  assume g: "dag_graph g"
  obtain r where r: "dag_sort g = Some r" "r = None \<longleftrightarrow> \<not> acyclic (graph_of (next_stages g))"
    "\<forall>s. r = Some s \<longrightarrow> distinct s \<and> set s = op_of ` set g \<and> topological (graph_of (next_stages g)) s"
    using dag_sort_eq [OF g] by blast
  have arcs: "{(x, y). x \<in> set (map op_of g) \<and> y \<in> set (next_stages g x)} = graph_of (next_stages g)"
    using graph_edges [of g] by (simp add: edges_def)
  show "set (next_stages g x) \<subseteq> set (map op_of g)" using next_stages_inside by simp
  show "\<exists>r. dag_sort g = Some r" using r(1) by blast
  show "dag_sort g = Some (Some s) \<Longrightarrow> distinct s \<and> set s = set (map op_of g) \<and>
      topological {(x, y). x \<in> set (map op_of g) \<and> y \<in> set (next_stages g x)} s"
    unfolding arcs using r(1,3) by simp
  show "(dag_sort g = Some None) = (\<not> acyclic {(x, y). x \<in> set (map op_of g) \<and> y \<in> set (next_stages g x)})"
    unfolding arcs using r(1,2) by simp
qed

section \<open>Roots and leaves\<close>

text \<open>Every pipeline inside is acyclic, its stages are distinct, and it has a stage.\<close>

definition good_pipelines :: "irop \<Rightarrow> bool" where
  "good_pipelines st \<longleftrightarrow> (\<forall>p\<in>set (walk_post st). class_of p = PipelineOp \<longrightarrow>
     dag_graph (inner_stages p) \<and> inner_stages p \<noteq> [] \<and> acyclic (graph_of (next_stages (inner_stages p))))"

lemma nested_pipeline_in: "nested_pipeline st = Some p \<Longrightarrow> p \<in> set (walk_post st) \<and> class_of p = PipelineOp"
  by (auto simp: nested_pipeline_def find_Some_iff)

lemma good_inner:
  assumes "good_pipelines st" and "nested_pipeline st = Some p" and "i \<in> set (inner_stages p)"
  shows "good_pipelines i"
proof -
  have "i \<in> set (body_of p)" using assms(3) by (simp add: inner_stages_def)
  then have "set (walk_post i) \<subseteq> set (walk_post st)"
    using walk_post_body walk_post_trans nested_pipeline_in [OF assms(2)] by blast
  then show ?thesis using assms(1) by (auto simp: good_pipelines_def)
qed

lemma no_entries_entry: "no_entries m st \<longleftrightarrow> entry m (op_of st) = []"
  by (auto simp: no_entries_def entry_def split: option.splits)

text \<open>The two functions, with the analysis replaced by its result.\<close>

lemma roots_step:
  assumes "good_pipelines st"
  shows "getRootStages st = (case nested_pipeline st of None \<Rightarrow> [st] | Some p \<Rightarrow>
      concat (map getRootStages (filter (\<lambda>i. prev_stages (inner_stages p) (op_of i) = []) (inner_stages p))))"
    and "getLeafStages st = (case nested_pipeline st of None \<Rightarrow> [st] | Some p \<Rightarrow>
      concat (map getLeafStages (filter (\<lambda>i. next_stages (inner_stages p) (op_of i) = []) (inner_stages p))))"
proof -
  have if_concat: "concat (map (\<lambda>i. if P i then f i else []) xs) = concat (map f (filter P xs))"
    for P and f :: "irop \<Rightarrow> irop list" and xs
    by (induction xs) auto
  have an: "analyzeStageDependencies (inner_stages p) empty_dag = Some (Some (collect_edges (inner_stages p) empty_dag))"
    if "nested_pipeline st = Some p" for p
    using assms nested_pipeline_in [OF that] by (simp add: analyze_eq good_pipelines_def)
  have e: "no_entries (predecessors (collect_edges (inner_stages p) empty_dag)) i \<longleftrightarrow> prev_stages (inner_stages p) (op_of i) = []"
    "no_entries (successors (collect_edges (inner_stages p) empty_dag)) i \<longleftrightarrow> next_stages (inner_stages p) (op_of i) = []"
    if "i \<in> set (inner_stages p)" for p i
    using that collect_edges_entry [of "op_of i" "inner_stages p" empty_dag] by (simp_all add: no_entries_entry)
  show "getRootStages st = (case nested_pipeline st of None \<Rightarrow> [st] | Some p \<Rightarrow>
      concat (map getRootStages (filter (\<lambda>i. prev_stages (inner_stages p) (op_of i) = []) (inner_stages p))))"
    by (subst getRootStages.simps)
      (auto simp: an if_concat e cong: filter_cong split: option.split)
  show "getLeafStages st = (case nested_pipeline st of None \<Rightarrow> [st] | Some p \<Rightarrow>
      concat (map getLeafStages (filter (\<lambda>i. next_stages (inner_stages p) (op_of i) = []) (inner_stages p))))"
    by (subst getLeafStages.simps)
      (auto simp: an if_concat e cong: filter_cong split: option.split)
qed

text \<open>
  What the two functions give, told without them. A stage feeds another one if that one awaits a token
  of it. The sources and sinks of a pipeline are its stages that no stage of it feeds, and that feed
  none. The walk stops at the first pipeline that ends, which contains no pipeline; so the ends of a
  stage are the sources and sinks of that pipeline, or the stage itself.
\<close>

definition feeds :: "irop list \<Rightarrow> irop \<Rightarrow> irop \<Rightarrow> bool" where
  "feeds ss a b \<longleftrightarrow> op_of b \<in> set (next_stages ss (op_of a))"

definition sources_of :: "irop list \<Rightarrow> irop set" where
  "sources_of ss = {i \<in> set ss. \<forall>a\<in>set ss. \<not> feeds ss a i}"

definition sinks_of :: "irop list \<Rightarrow> irop set" where
  "sinks_of ss = {i \<in> set ss. \<forall>b\<in>set ss. \<not> feeds ss i b}"

definition first_pipeline :: "irop \<Rightarrow> irop \<Rightarrow> bool" where
  "first_pipeline st p \<longleftrightarrow> (\<exists>xs ys. walk_post st = xs @ p # ys \<and> class_of p = PipelineOp \<and>
     (\<forall>x\<in>set xs. class_of x \<noteq> PipelineOp))"

definition no_pipeline :: "irop \<Rightarrow> bool" where
  "no_pipeline st \<longleftrightarrow> (\<forall>x\<in>set (walk_post st). class_of x \<noteq> PipelineOp)"

definition first_root :: "irop \<Rightarrow> irop \<Rightarrow> bool" where
  "first_root st r \<longleftrightarrow> no_pipeline st \<and> r = st \<or> (\<exists>p. first_pipeline st p \<and> r \<in> sources_of (inner_stages p))"

definition first_leaf :: "irop \<Rightarrow> irop \<Rightarrow> bool" where
  "first_leaf st l \<longleftrightarrow> no_pipeline st \<and> l = st \<or> (\<exists>p. first_pipeline st p \<and> l \<in> sinks_of (inner_stages p))"

lemma nested_pipeline_None: "nested_pipeline st = None \<longleftrightarrow> no_pipeline st"
  by (auto simp: nested_pipeline_def no_pipeline_def find_None_iff)

lemma find_first_split: "find P xs = Some x \<longleftrightarrow> (\<exists>as bs. xs = as @ x # bs \<and> P x \<and> (\<forall>a\<in>set as. \<not> P a))"
proof (induction xs)
  case (Cons y ys)
  show ?case
  proof (cases "P y")
    case True
    have "as = []" if "y # ys = as @ x # bs" "\<forall>a\<in>set as. \<not> P a" for as bs
      using that True by (cases as) auto
    then show ?thesis using True by fastforce
  next
    case False
    have "(\<exists>as bs. y # ys = as @ x # bs \<and> P x \<and> (\<forall>a\<in>set as. \<not> P a)) \<longleftrightarrow>
        (\<exists>as bs. ys = as @ x # bs \<and> P x \<and> (\<forall>a\<in>set as. \<not> P a))" (is "?L \<longleftrightarrow> ?R")
    proof
      assume ?L
      then obtain as bs where a: "y # ys = as @ x # bs" "P x" "\<forall>a\<in>set as. \<not> P a" by blast
      then obtain as' where "as = y # as'" using False by (cases as) auto
      then show ?R using a by auto
    next
      assume ?R
      then obtain as bs where "ys = as @ x # bs" "P x" "\<forall>a\<in>set as. \<not> P a" by blast
      then show ?L using False by (intro exI [of _ "y # as"] exI [of _ bs]) simp
    qed
    then show ?thesis using Cons False by simp
  qed
qed simp

lemma nested_pipeline_Some: "nested_pipeline st = Some p \<longleftrightarrow> first_pipeline st p"
  by (simp add: nested_pipeline_def first_pipeline_def find_first_split)

lemma find_concat: "find P (concat (map f xs)) = Some p \<Longrightarrow> \<exists>x\<in>set xs. find P (f x) = Some p"
  by (induction xs) (auto simp: find_append split: option.splits)

lemma first_pipeline_flat:
  "find Q (walk_post st) = Some p \<Longrightarrow> i \<in> set (body_of p) \<Longrightarrow> x \<in> set (walk_post i) \<Longrightarrow> \<not> Q x"
proof (induction st rule: walk_post.induct)
  case (1 q k ins outs body)
  show ?case
  proof (cases "find Q (concat (map walk_post body))")
    case None
    then have "p = IrOp q k ins outs body" using 1(2) by (simp add: find_append split: if_splits)
    then have "x \<in> set (concat (map walk_post body))" using 1(3,4) by auto
    then show ?thesis using None unfolding find_None_iff by blast
  next
    case (Some p')
    then have p: "find Q (concat (map walk_post body)) = Some p" using 1(2) by (simp add: find_append)
    obtain b where "b \<in> set body" "find Q (walk_post b) = Some p" using find_concat [OF p] by blast
    then show ?thesis using 1(1,3,4) by blast
  qed
qed

lemma inner_no_pipeline: "first_pipeline st p \<Longrightarrow> i \<in> set (inner_stages p) \<Longrightarrow> no_pipeline i"
  unfolding nested_pipeline_Some [symmetric] nested_pipeline_def no_pipeline_def inner_stages_def
  using first_pipeline_flat by fastforce

lemma prev_stages_empty: "prev_stages ss (op_of i) = [] \<longleftrightarrow> (\<forall>a\<in>set ss. \<not> feeds ss a i)"
proof
  assume "prev_stages ss (op_of i) = []"
  then show "\<forall>a\<in>set ss. \<not> feeds ss a i" using set_prev_stages [of _ ss "op_of i"] by (simp add: feeds_def)
next
  assume a: "\<forall>a\<in>set ss. \<not> feeds ss a i"
  have "y \<notin> set (prev_stages ss (op_of i))" for y
  proof
    assume "y \<in> set (prev_stages ss (op_of i))"
    then have y: "op_of i \<in> set (next_stages ss y)" unfolding set_prev_stages .
    then have "y \<in> op_of ` set ss" using next_stages_outside [of y ss] by (rule_tac ccontr) simp
    then show False using a y by (auto simp: feeds_def)
  qed
  then show "prev_stages ss (op_of i) = []" by (cases "prev_stages ss (op_of i)") auto
qed

lemma next_stages_empty: "next_stages ss (op_of i) = [] \<longleftrightarrow> (\<forall>b\<in>set ss. \<not> feeds ss i b)"
proof
  assume a: "\<forall>b\<in>set ss. \<not> feeds ss i b"
  have "set (next_stages ss (op_of i)) \<subseteq> op_of ` set ss" using next_stages_inside by simp
  then show "next_stages ss (op_of i) = []" using a by (cases "next_stages ss (op_of i)") (auto simp: feeds_def)
qed (simp add: feeds_def)

lemma ends_flat:
  assumes ok: "\<And>p. first_pipeline st p \<Longrightarrow> dag_graph (inner_stages p) \<and> acyclic (graph_of (next_stages (inner_stages p)))"
  shows "set (getRootStages st) = {r. first_root st r}" and "set (getLeafStages st) = {l. first_leaf st l}"
proof -
  have plain: "getRootStages i = [i]" "getLeafStages i = [i]" if "no_pipeline i" for i
    using that by (simp_all add: getRootStages.simps [of i] getLeafStages.simps [of i] nested_pipeline_None [symmetric])
  have unique: "p = q" if "first_pipeline st p" "first_pipeline st q" for p q
    using that by (simp add: nested_pipeline_Some [symmetric])
  have none: "\<not> no_pipeline st" if "first_pipeline st p" for p
    using that by (simp add: nested_pipeline_Some [symmetric] nested_pipeline_None [symmetric])
  have some: "set (getRootStages st) = sources_of (inner_stages p) \<and> set (getLeafStages st) = sinks_of (inner_stages p)"
    if p: "first_pipeline st p" for p
  proof -
    let ?in = "inner_stages p"
    have an: "analyzeStageDependencies ?in empty_dag = Some (Some (collect_edges ?in empty_dag))"
      using ok [OF p] by (simp add: analyze_eq)
    have e: "no_entries (predecessors (collect_edges ?in empty_dag)) i \<longleftrightarrow> (\<forall>a\<in>set ?in. \<not> feeds ?in a i)"
      "no_entries (successors (collect_edges ?in empty_dag)) i \<longleftrightarrow> (\<forall>b\<in>set ?in. \<not> feeds ?in i b)"
      if "i \<in> set ?in" for i
      using that collect_edges_entry [of "op_of i" ?in empty_dag]
      by (simp_all add: no_entries_entry prev_stages_empty next_stages_empty)
    have n: "nested_pipeline st = Some p" using p by (simp add: nested_pipeline_Some)
    have inner: "getRootStages i = [i]" "getLeafStages i = [i]" if "i \<in> set ?in" for i
      using plain inner_no_pipeline [OF p that] by simp_all
    show ?thesis
      unfolding getRootStages.simps [of st] getLeafStages.simps [of st] n sources_of_def sinks_of_def
      using e inner by (auto simp: an split: if_splits)
  qed
  show "set (getRootStages st) = {r. first_root st r}" "set (getLeafStages st) = {l. first_leaf st l}"
  proof -
    consider "no_pipeline st" | p where "first_pipeline st p"
      using nested_pipeline_None [of st] nested_pipeline_Some [of st] by (cases "nested_pipeline st") auto
    then have "set (getRootStages st) = {r. first_root st r} \<and> set (getLeafStages st) = {l. first_leaf st l}"
    proof cases
      case 1
      then have "\<not> first_pipeline st p" for p using none by blast
      then show ?thesis using plain [OF 1] 1 by (simp add: first_root_def first_leaf_def)
    next
      case (2 p)
      have "first_root st r \<longleftrightarrow> r \<in> sources_of (inner_stages p)" "first_leaf st r \<longleftrightarrow> r \<in> sinks_of (inner_stages p)" for r
        using 2 none [OF 2] unique [OF 2] unfolding first_root_def first_leaf_def by blast+
      then show ?thesis using some [OF 2] by simp
    qed
    then show "set (getRootStages st) = {r. first_root st r}" "set (getLeafStages st) = {l. first_leaf st l}" by simp_all
  qed
qed

text \<open>
  The roots and leaves as the comments describe them: those of the pipeline directly inside the stage,
  and of the pipelines inside its sources and sinks in turn.
\<close>

definition directly_in :: "irop \<Rightarrow> irop \<Rightarrow> bool" where
  "directly_in st p \<longleftrightarrow> p \<in> set (walk_post st) \<and> class_of p = PipelineOp \<and>
     (\<forall>q\<in>set (walk_post st). class_of q = PipelineOp \<and> p \<in> set (walk_post q) \<longrightarrow> q = p)"

inductive root_stage :: "irop \<Rightarrow> irop \<Rightarrow> bool" where
  plain_root: "no_pipeline st \<Longrightarrow> root_stage st st"
| inner_root: "directly_in st p \<Longrightarrow> i \<in> sources_of (inner_stages p) \<Longrightarrow> root_stage i r \<Longrightarrow> root_stage st r"

inductive leaf_stage :: "irop \<Rightarrow> irop \<Rightarrow> bool" where
  plain_leaf: "no_pipeline st \<Longrightarrow> leaf_stage st st"
| inner_leaf: "directly_in st p \<Longrightarrow> i \<in> sinks_of (inner_stages p) \<Longrightarrow> leaf_stage i l \<Longrightarrow> leaf_stage st l"

inductive_cases root_stageE: "root_stage st r"
inductive_cases leaf_stageE: "leaf_stage st l"

text \<open>With at most one pipeline inside the stage the two descriptions agree.\<close>

definition one_pipeline :: "irop \<Rightarrow> bool" where
  "one_pipeline st \<longleftrightarrow> (\<forall>p\<in>set (walk_post st). \<forall>q\<in>set (walk_post st).
     class_of p = PipelineOp \<and> class_of q = PipelineOp \<longrightarrow> p = q)"

lemma no_pipeline_ends:
  assumes "no_pipeline st"
  shows "root_stage st r \<longleftrightarrow> r = st" and "leaf_stage st r \<longleftrightarrow> r = st"
proof -
  note no = assms
  then have "\<not> directly_in st p" for p by (auto simp: directly_in_def no_pipeline_def)
  then show "root_stage st r \<longleftrightarrow> r = st" "leaf_stage st r \<longleftrightarrow> r = st"
    using plain_root [OF no] plain_leaf [OF no] root_stage.simps [of st r] leaf_stage.simps [of st r] by blast+
qed

lemma one_pipeline_directly: "one_pipeline st \<Longrightarrow> directly_in st p \<longleftrightarrow> first_pipeline st p"
proof
  assume one: "one_pipeline st" and p: "first_pipeline st p"
  then have "p \<in> set (walk_post st)" "class_of p = PipelineOp" by (auto simp: first_pipeline_def)
  then show "directly_in st p" using one unfolding directly_in_def one_pipeline_def by blast
next
  assume one: "one_pipeline st" and p: "directly_in st p"
  then have in_st: "p \<in> set (walk_post st)" "class_of p = PipelineOp" by (auto simp: directly_in_def)
  then obtain q where q: "first_pipeline st q"
    using nested_pipeline_None [of st] nested_pipeline_Some [of st] by (cases "nested_pipeline st") (auto simp: no_pipeline_def)
  then have "q \<in> set (walk_post st)" "class_of q = PipelineOp" by (auto simp: first_pipeline_def)
  then show "first_pipeline st p" using q one in_st unfolding one_pipeline_def by blast
qed

lemma one_pipeline_ends:
  assumes "one_pipeline st"
  shows "first_root st r \<longleftrightarrow> root_stage st r" and "first_leaf st r \<longleftrightarrow> leaf_stage st r"
proof -
  have ends: "root_stage i r \<longleftrightarrow> r = i" "leaf_stage i r \<longleftrightarrow> r = i"
    if "first_pipeline st p" "i \<in> set (inner_stages p)" for i p
    using no_pipeline_ends inner_no_pipeline [OF that] by blast+
  have sub: "sources_of ss \<subseteq> set ss" "sinks_of ss \<subseteq> set ss" for ss by (auto simp: sources_of_def sinks_of_def)
  show "first_root st r \<longleftrightarrow> root_stage st r"
  proof
    assume "first_root st r"
    then show "root_stage st r"
      unfolding first_root_def
      using plain_root [of st] inner_root [of st _ r r] one_pipeline_directly [OF assms] ends(1) sub(1) by blast
  next
    assume "root_stage st r"
    then consider "no_pipeline st" "r = st"
      | p i where "directly_in st p" "i \<in> sources_of (inner_stages p)" "root_stage i r"
      by (cases rule: root_stage.cases) auto
    then show "first_root st r"
    proof cases
      case (2 p i)
      then have p: "first_pipeline st p" using one_pipeline_directly [OF assms] by blast
      have "i \<in> set (inner_stages p)" using sub(1) 2(2) by blast
      then have "r = i" using ends(1) [OF p] 2(3) by blast
      then show ?thesis using p 2(2) by (auto simp: first_root_def)
    qed (simp add: first_root_def)
  qed
  show "first_leaf st r \<longleftrightarrow> leaf_stage st r"
  proof
    assume "first_leaf st r"
    then show "leaf_stage st r"
      unfolding first_leaf_def
      using plain_leaf [of st] inner_leaf [of st _ r r] one_pipeline_directly [OF assms] ends(2) sub(2) by blast
  next
    assume "leaf_stage st r"
    then consider "no_pipeline st" "r = st"
      | p i where "directly_in st p" "i \<in> sinks_of (inner_stages p)" "leaf_stage i r"
      by (cases rule: leaf_stage.cases) auto
    then show "first_leaf st r"
    proof cases
      case (2 p i)
      then have p: "first_pipeline st p" using one_pipeline_directly [OF assms] by blast
      have "i \<in> set (inner_stages p)" using sub(2) 2(2) by blast
      then have "r = i" using ends(2) [OF p] 2(3) by blast
      then show ?thesis using p 2(2) by (auto simp: first_leaf_def)
    qed (simp add: first_leaf_def)
  qed
qed

text \<open>An acyclic list of stages has a root and a leaf.\<close>

lemma acyclic_sorted:
  assumes "dag_graph ss" and "acyclic (graph_of (next_stages ss))"
  obtains s where "dag_sort ss = Some (Some s)"
proof -
  obtain r where "dag_sort ss = Some r" "r = None \<longleftrightarrow> \<not> acyclic (graph_of (next_stages ss))"
    using dag_sort_eq [OF assms(1)] by (elim exE conjE) (rule that)
  then show ?thesis using assms(2) that by (cases r) simp_all
qed

lemma root_exists:
  assumes "dag_graph ss" and "ss \<noteq> []" and "acyclic (graph_of (next_stages ss))"
  shows "\<exists>i\<in>set ss. prev_stages ss (op_of i) = []"
proof -
  obtain s where s: "dag_sort ss = Some (Some s)" using acyclic_sorted assms by blast
  have "map op_of ss \<noteq> []" using assms(2) by simp
  from dag_sort.has_source [OF assms(1) s this] obtain i where i: "i \<in> set ss"
    "\<forall>y\<in>set (map op_of ss). op_of i \<notin> set (next_stages ss y)"
    unfolding set_map by blast
  have "op_of i \<notin> set (next_stages ss y)" for y
  proof
    assume "op_of i \<in> set (next_stages ss y)"
    moreover from this have "y \<in> op_of ` set ss" using next_stages_outside [of y ss] by (rule_tac ccontr) simp
    ultimately show False using i(2) by simp
  qed
  then have "\<And>y. y \<notin> set (prev_stages ss (op_of i))" unfolding set_prev_stages .
  then have "prev_stages ss (op_of i) = []" by (cases "prev_stages ss (op_of i)") auto
  then show ?thesis using i(1) by auto
qed

lemma leaf_exists:
  assumes "dag_graph ss" and "ss \<noteq> []" and "acyclic (graph_of (next_stages ss))"
  shows "\<exists>i\<in>set ss. next_stages ss (op_of i) = []"
proof -
  obtain s where s: "dag_sort ss = Some (Some s)" using acyclic_sorted assms by blast
  have "map op_of ss \<noteq> []" using assms(2) by simp
  from dag_sort.has_sink [OF assms(1) s this] show ?thesis unfolding set_map by blast
qed

text \<open>Both are lists of stages without a nested pipeline, and never empty.\<close>

lemma roots_are_leaf_stages:
  assumes "good_pipelines st"
  shows "getRootStages st \<noteq> [] \<and> getLeafStages st \<noteq> [] \<and>
    (\<forall>x\<in>set (getRootStages st @ getLeafStages st). nested_pipeline x = None)"
  using assms
proof (induction st rule: measure_induct_rule [of size])
  case (less st)
  show ?case
  proof (cases "nested_pipeline st")
    case None
    then show ?thesis using roots_step [OF less.prems] by simp
  next
    case (Some p)
    let ?in = "inner_stages p"
    have IH: "getRootStages i \<noteq> [] \<and> getLeafStages i \<noteq> [] \<and>
        (\<forall>x\<in>set (getRootStages i @ getLeafStages i). nested_pipeline x = None)" if "i \<in> set ?in" for i
      using less.IH [OF inner_size [OF Some that] good_inner [OF less.prems Some that]] .
    have g: "dag_graph ?in" "?in \<noteq> []" "acyclic (graph_of (next_stages ?in))"
      using less.prems nested_pipeline_in [OF Some] by (auto simp: good_pipelines_def)
    obtain i j where i: "i \<in> set ?in" "prev_stages ?in (op_of i) = []"
      and j: "j \<in> set ?in" "next_stages ?in (op_of j) = []"
      using root_exists [OF g] leaf_exists [OF g] by blast
    have "getRootStages st \<noteq> []" "getLeafStages st \<noteq> []"
      unfolding roots_step [OF less.prems] Some using i j IH by auto
    moreover have "\<forall>x\<in>set (getRootStages st @ getLeafStages st). nested_pipeline x = None"
      unfolding roots_step [OF less.prems] Some using IH by auto
    ultimately show ?thesis by blast
  qed
qed

text \<open>The walk meets an inner pipeline before the one that encloses it.\<close>

lemma nested_pipeline_first:
  assumes "body_of st = [P]" and "body_of P = s1 # rest" and "nested_pipeline s1 = Some p"
  shows "nested_pipeline st = Some p"
proof -
  have "\<exists>xs. walk_post st = walk_post s1 @ xs" using assms(1,2) by (cases st; cases P) auto
  then show ?thesis using assms(3) by (auto simp: nested_pipeline_def find_append)
qed

section \<open>The edges of the global graph\<close>

definition dag_edges :: "stage_dag \<Rightarrow> (op \<times> op) set" where
  "dag_edges d = {(a, b). b \<in> set (entry (successors d) a)}"

text \<open>The two maps describe the same edges.\<close>

definition mirrored :: "stage_dag \<Rightarrow> bool" where
  "mirrored d \<longleftrightarrow> (\<forall>a b. a \<in> set (entry (predecessors d) b) \<longleftrightarrow> (a, b) \<in> dag_edges d)"

definition adds :: "(op \<times> op) set \<Rightarrow> stage_dag \<Rightarrow> stage_dag \<Rightarrow> bool" where
  "adds E d d' \<longleftrightarrow> dag_edges d' = dag_edges d \<union> E \<and> (mirrored d \<longrightarrow> mirrored d')"

lemma adds_none: "adds {} d d"
  by (simp add: adds_def)

lemma adds_trans: "adds E d d1 \<Longrightarrow> adds F d1 d2 \<Longrightarrow> adds (E \<union> F) d d2"
  by (auto simp: adds_def)

lemma adds_push: "adds {(a, b)} d (push_edge a b d)"
  by (auto simp: adds_def mirrored_def dag_edges_def push_edge_def entry_push)

lemma adds_fold:
  assumes "\<And>x d. x \<in> set xs \<Longrightarrow> adds (E x) d (f x d)"
  shows "adds (\<Union>x\<in>set xs. E x) d (fold f xs d)"
  using assms
proof (induction xs arbitrary: d)
  case Nil
  then show ?case by (simp add: adds_none)
next
  case (Cons x xs)
  have "adds (E x) d (f x d)" using Cons.prems [of x d] by simp
  moreover have "adds (\<Union>y\<in>set xs. E y) (f x d) (fold f xs (f x d))"
    using Cons.IH Cons.prems by simp
  ultimately show ?case using adds_trans by fastforce
qed

text \<open>The cross product of leaves and roots.\<close>

lemma adds_connect_ends:
  "adds (op_of ` set leaves \<times> op_of ` set rts) d (connect_ends leaves rts d)"
proof -
  have "adds (\<Union>l\<in>set leaves. \<Union>r\<in>set rts. {(op_of l, op_of r)}) d (connect_ends leaves rts d)"
    unfolding connect_ends_def by (intro adds_fold adds_push)
  moreover have "(\<Union>l\<in>set leaves. \<Union>r\<in>set rts. {(op_of l, op_of r)}) = op_of ` set leaves \<times> op_of ` set rts"
    by auto
  ultimately show ?thesis by simp
qed

text \<open>
  The edges of one pipeline with the direct stages \<open>ss\<close>: from every leaf of a producer of a token
  to every root of a consumer of it.
\<close>

definition stitched :: "irop list \<Rightarrow> (op \<times> op) set" where
  "stitched ss = {(op_of l, op_of r) | l r. \<exists>p\<in>set ss. \<exists>c\<in>set ss.
     op_of c \<in> set (next_stages ss (op_of p)) \<and> l \<in> set (getLeafStages p) \<and> r \<in> set (getRootStages c)}"

lemma stage_with_same:
  assumes "dag_graph ss" and "st \<in> set ss"
  shows "stage_with ss (op_of st) = Some st"
  using assms
  by (induction ss) (auto simp: stage_with_def dag_graph_def image_iff)

lemma adds_connect_producer:
  assumes "dag_graph ss" and "p \<in> set ss"
  shows "adds {(op_of l, op_of r) | l r. \<exists>c\<in>set ss. op_of c \<in> set (next_stages ss (op_of p)) \<and>
      l \<in> set (getLeafStages p) \<and> r \<in> set (getRootStages c)} g
    (connect_producer ss (collect_edges ss empty_dag) (op_of p) g)"
proof -
  let ?f = "\<lambda>q g. case stage_with ss q of None \<Rightarrow> g
    | Some c \<Rightarrow> connect_ends (getLeafStages p) (getRootStages c) g"
  let ?E = "\<lambda>q. case stage_with ss q of None \<Rightarrow> {}
    | Some c \<Rightarrow> op_of ` set (getLeafStages p) \<times> op_of ` set (getRootStages c)"
  have "adds (?E q) d (?f q d)" for q d
    by (cases "stage_with ss q") (simp_all add: adds_none adds_connect_ends)
  then have "adds (\<Union>q\<in>set (next_stages ss (op_of p)). ?E q) g (fold ?f (next_stages ss (op_of p)) g)"
    by (intro adds_fold)
  moreover have "connect_producer ss (collect_edges ss empty_dag) (op_of p) g = fold ?f (next_stages ss (op_of p)) g"
    by (simp add: connect_producer_def stage_with_same [OF assms] collect_edges_empty Let_def)
  moreover have "(\<Union>q\<in>set (next_stages ss (op_of p)). ?E q) =
      {(op_of l, op_of r) | l r. \<exists>c\<in>set ss. op_of c \<in> set (next_stages ss (op_of p)) \<and>
        l \<in> set (getLeafStages p) \<and> r \<in> set (getRootStages c)}" (is "_ = ?R")
  proof -
    have "(\<Union>q\<in>set (next_stages ss (op_of p)). ?E q) =
        (\<Union>c\<in>{c \<in> set ss. op_of c \<in> set (next_stages ss (op_of p))}. ?E (op_of c))"
      using next_stages_inside [of ss "op_of p"] by blast
    also have "\<dots> = (\<Union>c\<in>{c \<in> set ss. op_of c \<in> set (next_stages ss (op_of p))}.
        op_of ` set (getLeafStages p) \<times> op_of ` set (getRootStages c))"
      by (rule SUP_cong) (simp_all add: stage_with_same [OF assms(1)])
    also have "\<dots> = ?R" by blast
    finally show ?thesis .
  qed
  ultimately show ?thesis by simp
qed

lemma connect_pipeline_result:
  assumes "dag_graph (op_stages pl)" and "iteration_order ord"
  shows "\<exists>r. connect_pipeline op_stages ord pl g = Some r \<and>
    (r = None \<longleftrightarrow> \<not> acyclic (graph_of (next_stages (op_stages pl)))) \<and>
    (\<forall>g'. r = Some g' \<longrightarrow> adds (stitched (op_stages pl)) g g')"
proof (cases "op_stages pl = []")
  case True
  have "graph_of (next_stages []) = {}" by (simp add: graph_of_def next_stages_def)
  moreover have "stitched [] = {}" by (auto simp: stitched_def)
  ultimately show ?thesis using True by (simp add: connect_pipeline_def acyclic_def adds_none)
next
  case False
  let ?ss = "op_stages pl"
  show ?thesis
  proof (cases "acyclic (graph_of (next_stages ?ss))")
    case acyc: True
    let ?E = "\<lambda>q. \<Union>p\<in>{p \<in> set ?ss. op_of p = q}. {(op_of l, op_of r) | l r. \<exists>c\<in>set ?ss.
      op_of c \<in> set (next_stages ?ss (op_of p)) \<and> l \<in> set (getLeafStages p) \<and> r \<in> set (getRootStages c)}"
    have ops: "set (ord (map op_of ?ss)) = op_of ` set ?ss"
      using assms unfolding iteration_order_def dag_graph_def by simp
    have "adds (?E q) d (connect_producer ?ss (collect_edges ?ss empty_dag) q d)" if q: "q \<in> op_of ` set ?ss" for q d
    proof -
      obtain p where p: "p \<in> set ?ss" "op_of p = q" using q by auto
      have "{p' \<in> set ?ss. op_of p' = q} = {p}"
        using p assms(1) unfolding dag_graph_def distinct_map by (auto dest: inj_onD)
      then show ?thesis using adds_connect_producer [OF assms(1) p(1), of d] p(2) by simp
    qed
    then have "adds (\<Union>q\<in>set (ord (map op_of ?ss)). ?E q) g
        (fold (connect_producer ?ss (collect_edges ?ss empty_dag)) (ord (map op_of ?ss)) g)"
      unfolding ops [symmetric] by (rule adds_fold)
    moreover have "(\<Union>q\<in>set (ord (map op_of ?ss)). ?E q) = stitched ?ss"
      unfolding ops stitched_def by blast
    ultimately show ?thesis using False acyc by (simp add: connect_pipeline_def analyze_eq Let_def)
  next
    case cyc: False
    then show ?thesis using False by (simp add: connect_pipeline_def analyze_eq Let_def)
  qed
qed

lemma connect_pipelines_result:
  assumes "\<And>pl. pl \<in> set pls \<Longrightarrow> dag_graph (op_stages pl)" and "iteration_order ord"
  shows "\<exists>r. foldA (connect_pipeline op_stages ord) pls g = Some r \<and>
    (r = None \<longleftrightarrow> (\<exists>pl\<in>set pls. \<not> acyclic (graph_of (next_stages (op_stages pl))))) \<and>
    (\<forall>g'. r = Some g' \<longrightarrow> adds (\<Union>pl\<in>set pls. stitched (op_stages pl)) g g')"
  using assms(1)
proof (induction pls arbitrary: g)
  case Nil
  then show ?case by (simp add: adds_none)
next
  case (Cons pl pls)
  have pl: "dag_graph (op_stages pl)" using Cons.prems by simp
  obtain r where r: "connect_pipeline op_stages ord pl g = Some r"
    "r = None \<longleftrightarrow> \<not> acyclic (graph_of (next_stages (op_stages pl)))"
    "\<forall>g'. r = Some g' \<longrightarrow> adds (stitched (op_stages pl)) g g'"
    using connect_pipeline_result [of op_stages pl ord g, OF pl assms(2)] by (elim exE conjE) (rule that)
  show ?case
  proof (cases r)
    case None
    then show ?thesis using r by simp
  next
    case (Some g1)
    obtain r' where r': "foldA (connect_pipeline op_stages ord) pls g1 = Some r'"
      "r' = None \<longleftrightarrow> (\<exists>pl\<in>set pls. \<not> acyclic (graph_of (next_stages (op_stages pl))))"
      "\<forall>g'. r' = Some g' \<longrightarrow> adds (\<Union>pl\<in>set pls. stitched (op_stages pl)) g1 g'"
      using Cons.IH [of g1] Cons.prems by auto
    have "adds (stitched (op_stages pl)) g g1" using r(3) Some by simp
    then have "adds (\<Union>pl\<in>set (pl # pls). stitched (op_stages pl)) g g'" if "r' = Some g'" for g'
      using adds_trans r'(3) that by fastforce
    then show ?thesis using r r'(1,2) Some by (intro exI [of _ r']) simp
  qed
qed

section \<open>Properties\<close>

definition pipelines_in :: "irop \<Rightarrow> irop list" where
  "pipelines_in root_op = filter (\<lambda>o'. class_of o' = PipelineOp) (walk_post root_op)"

lemma build_result:
  assumes "\<forall>pl\<in>set (pipelines_in root_op). dag_graph (op_stages pl)" and "iteration_order ord"
  shows "\<exists>r. buildGlobalStageDAG op_stages ord root_op g = Some r \<and>
    (r = None \<longleftrightarrow> (\<exists>pl\<in>set (pipelines_in root_op). \<not> acyclic (graph_of (next_stages (op_stages pl))))) \<and>
    (\<forall>d. r = Some d \<longrightarrow> adds (\<Union>pl\<in>set (pipelines_in root_op). stitched (op_stages pl)) g d)"
proof -
  have g: "dag_graph (op_stages pl)" if "pl \<in> set (rev (pipelines_in root_op))" for pl
    using assms(1) that by simp
  show ?thesis
    using connect_pipelines_result [of "rev (pipelines_in root_op)" op_stages ord g, OF g assms(2)]
    by (simp only: buildGlobalStageDAG_def pipelines_in_def set_rev)
qed

text \<open>
  The edges of the pipelines of a program, for a notion of roots and leaves: from every leaf of a stage
  to every root of a stage that it feeds.
\<close>

definition joined :: "(irop \<Rightarrow> irop \<Rightarrow> bool) \<Rightarrow> (irop \<Rightarrow> irop \<Rightarrow> bool) \<Rightarrow> irop \<Rightarrow> (op \<times> op) set" where
  "joined leaf rt root_op = {(op_of l, op_of r) | l r. \<exists>pl\<in>set (pipelines_in root_op).
     \<exists>p\<in>set (inner_stages pl). \<exists>c\<in>set (inner_stages pl). feeds (inner_stages pl) p c \<and> leaf p l \<and> rt c r}"

lemma joined_cong:
  assumes "\<And>pl i r. pl \<in> set (pipelines_in root_op) \<Longrightarrow> i \<in> set (inner_stages pl) \<Longrightarrow> leaf i r \<longleftrightarrow> leaf' i r"
    and "\<And>pl i r. pl \<in> set (pipelines_in root_op) \<Longrightarrow> i \<in> set (inner_stages pl) \<Longrightarrow> rt i r \<longleftrightarrow> rt' i r"
  shows "joined leaf rt root_op = joined leaf' rt' root_op"
  unfolding joined_def using assms by (intro Collect_cong) blast

text \<open>C27: Building the global graph returns and fails exactly when the tokens of some pipeline form a
  cycle. Otherwise its edges go exactly from each leaf of a stage to each root of a stage that
  it feeds, the predecessor map holds the same edges, and the roots (leaves) of a stage are the
  stages without a predecessor (successor) in the pipeline inside it that ends first, or the
  stage itself. When every stage contains at most one pipeline these are the roots and leaves
  that the comments describe, those of the pipeline directly inside it.\<close>

theorem buildGlobalStageDAG_edges:
  assumes "\<forall>pl\<in>set (pipelines_in root_op). op_stages pl = inner_stages pl \<and> dag_graph (inner_stages pl)"
    and "iteration_order ord"
  shows "\<exists>r. buildGlobalStageDAG op_stages ord root_op empty_dag = Some r \<and>
    (r = None \<longleftrightarrow> (\<exists>pl\<in>set (pipelines_in root_op). \<not> acyclic (graph_of (next_stages (inner_stages pl))))) \<and>
    (\<forall>d. r = Some d \<longrightarrow> mirrored d \<and> dag_edges d = joined first_leaf first_root root_op \<and>
      ((\<forall>pl\<in>set (pipelines_in root_op). \<forall>st\<in>set (inner_stages pl). one_pipeline st) \<longrightarrow>
        dag_edges d = joined leaf_stage root_stage root_op))"
proof -
  have e: "mirrored empty_dag" "dag_edges empty_dag = {}"
    by (simp_all add: mirrored_def dag_edges_def empty_dag_def entry_def)
  obtain r where r: "buildGlobalStageDAG op_stages ord root_op empty_dag = Some r"
    "r = None \<longleftrightarrow> (\<exists>pl\<in>set (pipelines_in root_op). \<not> acyclic (graph_of (next_stages (op_stages pl))))"
    "\<forall>d. r = Some d \<longrightarrow> adds (\<Union>pl\<in>set (pipelines_in root_op). stitched (op_stages pl)) empty_dag d"
    using build_result [of root_op op_stages ord empty_dag] assms by (metis (no_types, lifting))
  have fail: "r = None \<longleftrightarrow> (\<exists>pl\<in>set (pipelines_in root_op). \<not> acyclic (graph_of (next_stages (inner_stages pl))))"
    unfolding r(2) using assms(1) by (intro bex_cong) simp_all
  have "mirrored d \<and> dag_edges d = joined first_leaf first_root root_op" if d: "r = Some d" for d
  proof -
    have acyc: "acyclic (graph_of (next_stages (inner_stages pl)))" if "pl \<in> set (pipelines_in root_op)" for pl
      using fail d that by auto
    have ends: "set (getRootStages i) = {x. first_root i x}" "set (getLeafStages i) = {x. first_leaf i x}"
      if pl: "pl \<in> set (pipelines_in root_op)" and i: "i \<in> set (inner_stages pl)" for pl i
    proof -
      have sub: "set (walk_post i) \<subseteq> set (walk_post root_op)"
        using walk_post_body [of i pl] walk_post_trans [of pl root_op] pl i by (auto simp: inner_stages_def pipelines_in_def)
      have "q \<in> set (pipelines_in root_op)" if "first_pipeline i q" for q
        using that sub by (auto simp: first_pipeline_def pipelines_in_def)
      then have ok: "dag_graph (inner_stages q) \<and> acyclic (graph_of (next_stages (inner_stages q)))"
        if "first_pipeline i q" for q using that assms(1) acyc by blast
      show "set (getRootStages i) = {x. first_root i x}" "set (getLeafStages i) = {x. first_leaf i x}"
        by (rule ends_flat, erule ok)+
    qed
    have "stitched (op_stages pl) = {(op_of l, op_of r) | l r. \<exists>p\<in>set (inner_stages pl). \<exists>c\<in>set (inner_stages pl).
        feeds (inner_stages pl) p c \<and> first_leaf p l \<and> first_root c r}" if pl: "pl \<in> set (pipelines_in root_op)" for pl
    proof -
      have "op_stages pl = inner_stages pl" using assms(1) pl by blast
      then show ?thesis unfolding stitched_def feeds_def by (simp add: ends [OF pl] cong: bex_cong)
    qed
    then have "(\<Union>pl\<in>set (pipelines_in root_op). stitched (op_stages pl)) = joined first_leaf first_root root_op"
      unfolding joined_def by (simp, blast)
    then show ?thesis using r(3) d e by (simp add: adds_def)
  qed
  moreover have "joined first_leaf first_root root_op = joined leaf_stage root_stage root_op"
    if "\<forall>pl\<in>set (pipelines_in root_op). \<forall>st\<in>set (inner_stages pl). one_pipeline st"
    using that by (intro joined_cong) (simp_all add: one_pipeline_ends)
  ultimately show ?thesis using r(1) fail by (intro exI [of _ r]) simp
qed

theorem global_edges_flat:
  assumes "\<forall>pl\<in>set (pipelines_in root_op). inner_stages pl = op_stages pl \<and> dag_graph (op_stages pl) \<and> op_stages pl \<noteq> []"
    and "iteration_order ord" and "buildGlobalStageDAG op_stages ord root_op empty_dag = success d"
    and "(a, b) \<in> dag_edges d"
  shows "\<exists>l r. a = op_of l \<and> b = op_of r \<and> nested_pipeline l = None \<and> nested_pipeline r = None"
proof -
  have r: "\<exists>r. buildGlobalStageDAG op_stages ord root_op empty_dag = Some r \<and>
    (r = None \<longleftrightarrow> (\<exists>pl\<in>set (pipelines_in root_op). \<not> acyclic (graph_of (next_stages (op_stages pl))))) \<and>
    (\<forall>d. r = Some d \<longrightarrow> adds (\<Union>pl\<in>set (pipelines_in root_op). stitched (op_stages pl)) empty_dag d)"
    by (rule build_result [OF _ assms(2)]) (use assms(1) in blast)
  then have acyc: "acyclic (graph_of (next_stages (op_stages pl)))" if "pl \<in> set (pipelines_in root_op)" for pl
    using assms(3) that by simp
  have "adds (\<Union>pl\<in>set (pipelines_in root_op). stitched (op_stages pl)) empty_dag d"
    using r assms(3) by simp
  then obtain pl where pl: "pl \<in> set (pipelines_in root_op)" "(a, b) \<in> stitched (op_stages pl)"
    using assms(4) by (auto simp: adds_def dag_edges_def empty_dag_def entry_def)
  then obtain l x p c where e: "a = op_of l" "b = op_of x" "p \<in> set (op_stages pl)" "c \<in> set (op_stages pl)"
    "l \<in> set (getLeafStages p)" "x \<in> set (getRootStages c)"
    unfolding stitched_def by blast
  have "good_pipelines i" if "i \<in> set (op_stages pl)" for i
  proof -
    have "i \<in> set (inner_stages pl)" using assms(1) pl(1) that by simp
    then have "set (walk_post i) \<subseteq> set (walk_post root_op)"
      using walk_post_body [of i pl] walk_post_trans [of pl root_op] pl(1)
      by (auto simp: inner_stages_def pipelines_in_def)
    then show ?thesis using assms(1) acyc unfolding good_pipelines_def pipelines_in_def by auto
  qed
  then have "nested_pipeline l = None \<and> nested_pipeline x = None"
    using roots_are_leaf_stages e(3-6) by (metis in_set_conv_decomp Un_iff set_append)
  then show ?thesis using e(1,2) by blast
qed

theorem sortStagesByDAG_correct:
  assumes "distinct (map op_of stages)"
  shows "analyzeStageDependencies stages empty_dag = failure \<and> \<not> acyclic (graph_of (next_stages stages)) \<or>
    (\<exists>d s. analyzeStageDependencies stages empty_dag = success d \<and> sortStagesByDAG stages d = success s \<and>
      acyclic (graph_of (next_stages stages)) \<and>
      distinct s \<and> set s = op_of ` set stages \<and> topological (graph_of (next_stages stages)) s)"
proof (cases "acyclic (graph_of (next_stages stages))")
  case True
  obtain r where r: "sortStagesByDAG stages (collect_edges stages empty_dag) = Some r"
    "r = None \<longleftrightarrow> \<not> acyclic (graph_of (next_stages stages))"
    "\<forall>s. r = Some s \<longrightarrow> distinct s \<and> set s = op_of ` set stages \<and> topological (graph_of (next_stages stages)) s"
    using sortStagesByDAG_sound [OF assms] by (elim exE conjE) (rule that)
  then obtain s where "r = Some s" using True by (cases r) auto
  then show ?thesis using r True by (simp add: analyze_eq)
next
  case False
  then show ?thesis by (simp add: analyze_eq)
qed

theorem getRootStages_innermost:
  assumes "body_of st = [P]" and "body_of P = s1 # rest" and "nested_pipeline s1 = Some p"
    and "acyclic (graph_of (next_stages (inner_stages p)))"
  shows "getRootStages st = getRootStages s1 \<and> getLeafStages st = getLeafStages s1"
proof -
  have "nested_pipeline st = nested_pipeline s1" using nested_pipeline_first [OF assms(1-3)] assms(3) by simp
  then show ?thesis
    using assms(3,4) by (simp add: analyze_eq getRootStages.simps [of st] getRootStages.simps [of s1]
        getLeafStages.simps [of st] getLeafStages.simps [of s1])
qed

section \<open>Examples\<close>

text \<open>
  The pipeline in the comment of the source: \<open>A \<rightarrow> B \<rightarrow> C\<close> with \<open>B1 \<rightarrow> B2\<close> and \<open>B3\<close> inside \<open>B\<close>.
\<close>

definition nested_example :: irop where
  "nested_example = IrOp 1 PipelineOp [] []
     [IrOp 2 StageOp [] [100] [],
      IrOp 3 StageOp [100] [101]
        [IrOp 4 PipelineOp [] [] [IrOp 5 StageOp [] [102] [], IrOp 6 StageOp [102] [] [], IrOp 7 StageOp [] [] []]],
      IrOp 8 StageOp [101] [] []]"

lemma nested_example_result:
  "map_option (map_option (\<lambda>d. map (entry (successors d)) [2, 3, 5, 6, 7, 8]))
     (buildGlobalStageDAG inner_stages (\<lambda>ops. ops) nested_example empty_dag) =
   Some (Some [[5, 7], [], [6], [8], [8], []])"
  by code_simp

lemma nested_example_graphs:
  "\<forall>pl\<in>set (pipelines_in nested_example). dag_graph (inner_stages pl) \<and> inner_stages pl \<noteq> []"
  by code_simp

lemma nested_example_single:
  "\<forall>pl\<in>set (pipelines_in nested_example). \<forall>st\<in>set (inner_stages pl). one_pipeline st"
  by code_simp

theorem buildGlobalStageDAG_edges_witness:
  "\<exists>d. buildGlobalStageDAG inner_stages (\<lambda>ops. ops) nested_example empty_dag = success d \<and> mirrored d \<and>
     dag_edges d = joined leaf_stage root_stage nested_example \<and> (6, 8) \<in> joined leaf_stage root_stage nested_example"
proof -
  obtain d where d: "buildGlobalStageDAG inner_stages (\<lambda>ops. ops) nested_example empty_dag = success d"
    "entry (successors d) 6 = [8]"
    using nested_example_result by auto
  then have "(6, 8) \<in> dag_edges d" by (simp add: dag_edges_def)
  moreover have "mirrored d \<and> dag_edges d = joined leaf_stage root_stage nested_example"
  proof -
    have "\<forall>pl\<in>set (pipelines_in nested_example). inner_stages pl = inner_stages pl \<and> dag_graph (inner_stages pl)"
      using nested_example_graphs by blast
    from buildGlobalStageDAG_edges [OF this, of "\<lambda>ops. ops"] obtain r where
      r: "buildGlobalStageDAG inner_stages (\<lambda>ops. ops) nested_example empty_dag = Some r"
        "\<forall>d. r = Some d \<longrightarrow> mirrored d \<and> dag_edges d = joined first_leaf first_root nested_example \<and>
          ((\<forall>pl\<in>set (pipelines_in nested_example). \<forall>st\<in>set (inner_stages pl). one_pipeline st) \<longrightarrow>
            dag_edges d = joined leaf_stage root_stage nested_example)"
      unfolding iteration_order_def by auto
    then have "r = Some d" using d(1) by simp
    then show ?thesis using r(2) nested_example_single by blast
  qed
  ultimately show ?thesis using d(1) by auto
qed

theorem global_edges_flat_witness:
  "\<exists>d l. buildGlobalStageDAG inner_stages (\<lambda>ops. ops) nested_example empty_dag = success d \<and>
     (2, 7) \<in> dag_edges d \<and> op_of l = 7 \<and> nested_pipeline l = None"
proof -
  obtain d where d: "buildGlobalStageDAG inner_stages (\<lambda>ops. ops) nested_example empty_dag = success d"
    "entry (successors d) 2 = [5, 7]"
    using nested_example_result by auto
  then have "(2, 7) \<in> dag_edges d" by (simp add: dag_edges_def)
  then show ?thesis
    using global_edges_flat [of nested_example inner_stages "\<lambda>ops. ops" d 2 7] d(1) nested_example_graphs by auto
qed

text \<open>In the cyclic pair each stage waits for the token of the other.\<close>

theorem sortStagesByDAG_correct_witness:
  "(\<exists>d s. analyzeStageDependencies (inner_stages nested_example) empty_dag = success d \<and>
      sortStagesByDAG (inner_stages nested_example) d = success s \<and> set s = {2, 3, 8}) \<and>
   \<not> acyclic (graph_of (next_stages [IrOp 1 StageOp [100] [101] [], IrOp 2 StageOp [101] [100] []]))"
proof -
  have in3: "map op_of (inner_stages nested_example) = [2, 3, 8]" by code_simp
  have "map_option (map_option (\<lambda>_. ())) (analyzeStageDependencies (inner_stages nested_example) empty_dag) = Some (Some ())"
    by code_simp
  then have "\<exists>d s. analyzeStageDependencies (inner_stages nested_example) empty_dag = success d \<and>
      sortStagesByDAG (inner_stages nested_example) d = success s \<and> set s = op_of ` set (inner_stages nested_example)"
    using sortStagesByDAG_correct [of "inner_stages nested_example"] in3 by auto
  moreover have "op_of ` set (inner_stages nested_example) = {2, 3, 8}" using in3 by (simp flip: set_map)
  moreover have "map_option (map_option (\<lambda>_. ()))
      (analyzeStageDependencies [IrOp 1 StageOp [100] [101] [], IrOp 2 StageOp [101] [100] []] empty_dag) = Some None"
    by code_simp
  ultimately show ?thesis
    using sortStagesByDAG_correct [of "[IrOp 1 StageOp [100] [101] [], IrOp 2 StageOp [101] [100] []]"] by auto
qed

text \<open>
  A stage with a pipeline \<open>3 \<rightarrow> 6\<close> whose stage 3 has a pipeline of its own: the leaf of the whole is
  stage 6, but the walk finds the inner pipeline first and the answer is its stage 5.
\<close>

theorem getRootStages_innermost_witness:
  "getLeafStages (IrOp 1 StageOp [] [] [IrOp 2 PipelineOp [] []
     [IrOp 3 StageOp [] [100] [IrOp 4 PipelineOp [] [] [IrOp 5 StageOp [] [] []]],
      IrOp 6 StageOp [100] [] []]]) = [IrOp 5 StageOp [] [] []]"
proof -
  have "nested_pipeline (IrOp 3 StageOp [] [100] [IrOp 4 PipelineOp [] [] [IrOp 5 StageOp [] [] []]]) =
      Some (IrOp 4 PipelineOp [] [] [IrOp 5 StageOp [] [] []])" by code_simp
  moreover have "acyclic (graph_of (next_stages (inner_stages (IrOp 4 PipelineOp [] [] [IrOp 5 StageOp [] [] []]))))"
    by (simp add: graph_of_def next_stages_def inner_stages_def acyclic_def)
  ultimately have "getLeafStages (IrOp 1 StageOp [] [] [IrOp 2 PipelineOp [] []
     [IrOp 3 StageOp [] [100] [IrOp 4 PipelineOp [] [] [IrOp 5 StageOp [] [] []]],
      IrOp 6 StageOp [100] [] []]]) = getLeafStages (IrOp 3 StageOp [] [100] [IrOp 4 PipelineOp [] [] [IrOp 5 StageOp [] [] []]])"
    using getRootStages_innermost by simp
  also have "\<dots> = [IrOp 5 StageOp [] [] []]" by code_simp
  finally show ?thesis .
qed

end
