(* ===== verification/StageGrouping.thy ===== *)
theory StageGrouping
  imports MemoryTree PlanPrep
begin

text \<open>
  The stage groups of \<open>lib/Dialect/KTDF/Analysis/StageGrouping.cpp\<close>: stages that use the same memory
  below the scratchpad, or FIFOs between the same ends, are coarsened together.
  \<open>llvm::EquivalenceClasses\<close> is a parameter; its documented behaviour is the predicate
  \<open>equivalence_classes\<close>. Indices of stages are unbounded (the code stores them as \<open>unsigned\<close>).
\<close>

section \<open>Shared resources\<close>

text \<open>A stage with the types of all operands of the operations inside it, in the order of \<open>walk\<close>.\<close>

record grouped_stage =
  gs_op :: op
  gs_operands :: "val_type list"

type_synonym used_resources = "resource list \<times> (attribute \<times> attribute) list"

definition analyzeValue :: "iteration \<Rightarrow> memory_tree \<Rightarrow> val_type \<Rightarrow> used_resources \<Rightarrow> used_resources option" where
  "analyzeValue ord t v u =
     (case v of
        MemRefType space \<Rightarrow>
          do { a \<leftarrow> space; mem_space \<leftarrow> as_kind a;
               below \<leftarrow> isBelowScratchPad ord t mem_space;
               Some (if below then (List.insert mem_space (fst u), snd u) else u) }
      | FifoSlotType src dest \<Rightarrow> Some (fst u, snd u @ [(src, dest)])
      | OtherType \<Rightarrow> Some u)"

definition analyze_operands :: "iteration \<Rightarrow> memory_tree \<Rightarrow> grouped_stage \<Rightarrow> used_resources option" where
  "analyze_operands ord t st = foldM (analyzeValue ord t) (gs_operands st) ([], [])"

definition shouldGroupTogether ::
  "iteration \<Rightarrow> memory_tree \<Rightarrow> grouped_stage \<Rightarrow> grouped_stage \<Rightarrow> bool option" where
  "shouldGroupTogether ord t stage1 stage2 =
     do { u1 \<leftarrow> analyze_operands ord t stage1;
          u2 \<leftarrow> analyze_operands ord t stage2;
          Some (if list_ex (\<lambda>m. m \<in> set (fst u2)) (fst u1) then True
                else list_ex (\<lambda>fifo1. list_ex (\<lambda>fifo2. fst fifo1 = fst fifo2 \<and> snd fifo1 = snd fifo2) (snd u2)) (snd u1)) }"

section \<open>The groups\<close>

record grouping =
  groups :: "op list list"
  stage_to_group :: "op \<Rightarrow> nat option"

definition no_groups :: grouping where
  "no_groups = \<lparr>groups = [], stage_to_group = (\<lambda>_. None)\<rparr>"

text \<open>
  \<open>classes n us\<close> is the list of classes, each the list of its members, that iteration over the
  leaders yields after inserting \<open>0, \<dots>, n - 1\<close> and the calls \<open>unionSets(i, j)\<close> for the pairs \<open>us\<close>.
\<close>

type_synonym class_builder = "nat \<Rightarrow> (nat \<times> nat) list \<Rightarrow> nat list list"

definition stage_pairs :: "nat \<Rightarrow> (nat \<times> nat) list" where
  "stage_pairs n = concat (map (\<lambda>i. map (Pair i) [i + 1..<n]) [0..<n])"

definition union_calls :: "iteration \<Rightarrow> memory_tree \<Rightarrow> grouped_stage list \<Rightarrow> (nat \<times> nat) list option" where
  "union_calls ord t stages =
     foldM (\<lambda>(i, j) us. do { b \<leftarrow> shouldGroupTogether ord t (stages ! i) (stages ! j);
                             Some (if b then us @ [(i, j)] else us) })
       (stage_pairs (length stages)) []"

definition add_stage_group :: "grouped_stage list \<Rightarrow> nat list \<Rightarrow> grouping \<times> nat \<Rightarrow> grouping \<times> nat" where
  "add_stage_group stages members s =
     (let (g, group_id) = s;
          grp = map (\<lambda>stage_idx. gs_op (stages ! stage_idx)) members;
          stage_map = fold (\<lambda>stage_idx m. m(gs_op (stages ! stage_idx) := Some group_id)) members (stage_to_group g)
      in (g\<lparr>groups := groups g @ [grp], stage_to_group := stage_map\<rparr>, group_id + 1))"

definition init_groups ::
  "class_builder \<Rightarrow> iteration \<Rightarrow> memory_tree \<Rightarrow> grouped_stage list \<Rightarrow> grouping option" where
  "init_groups classes ord t stages =
     (if stages = [] then Some no_groups
      else do { us \<leftarrow> union_calls ord t stages;
                Some (fst (fold (add_stage_group stages) (classes (length stages) us) (no_groups, 0))) })"

text \<open>\<open>groups_[it->second]\<close>; the bound holds for every entry of the map.\<close>

definition getGroupForStage :: "grouping \<Rightarrow> op \<Rightarrow> op list option" where
  "getGroupForStage g st =
     (case stage_to_group g st of None \<Rightarrow> None | Some k \<Rightarrow> Some (groups g ! k))"

definition areInSameGroup :: "grouping \<Rightarrow> op \<Rightarrow> op \<Rightarrow> bool" where
  "areInSameGroup g stage1 stage2 =
     (case stage_to_group g stage1 of None \<Rightarrow> False
      | Some k1 \<Rightarrow> (case stage_to_group g stage2 of None \<Rightarrow> False | Some k2 \<Rightarrow> k1 = k2))"

definition isSingleStage :: "op list \<Rightarrow> bool" where
  "isSingleStage grp \<longleftrightarrow> length grp = 1"

definition getFirstStage :: "op list \<Rightarrow> op option" where
  "getFirstStage grp = (if grp = [] then None else Some (hd grp))"

definition getLastStage :: "op list \<Rightarrow> op option" where
  "getLastStage grp = (if grp = [] then None else Some (last grp))"

section \<open>The classes\<close>

definition equivalence_classes :: "class_builder \<Rightarrow> bool" where
  "equivalence_classes classes \<longleftrightarrow> (\<forall>n us. set us \<subseteq> {..<n} \<times> {..<n} \<longrightarrow>
     distinct (concat (classes n us)) \<and> set (concat (classes n us)) = {..<n} \<and> [] \<notin> set (classes n us) \<and>
     (\<forall>i<n. \<forall>j<n. (\<exists>c\<in>set (classes n us). i \<in> set c \<and> j \<in> set c) \<longleftrightarrow> (i, j) \<in> (set us \<union> (set us)\<inverse>)\<^sup>*))"

lemma equivalence_classesD:
  assumes "equivalence_classes classes" and "set us \<subseteq> {..<n} \<times> {..<n}"
  shows "distinct (concat (classes n us))" and "set (concat (classes n us)) = {..<n}" and "[] \<notin> set (classes n us)"
    and "i < n \<Longrightarrow> j < n \<Longrightarrow>
      (\<exists>c\<in>set (classes n us). i \<in> set c \<and> j \<in> set c) \<longleftrightarrow> (i, j) \<in> (set us \<union> (set us)\<inverse>)\<^sup>*"
  using assms unfolding equivalence_classes_def by blast+

section \<open>What two stages share\<close>

definition typed_stage :: "grouped_stage \<Rightarrow> bool" where
  "typed_stage st \<longleftrightarrow> (\<forall>space. MemRefType space \<in> set (gs_operands st) \<longrightarrow> (\<exists>r. space = Some (KindAttr r)))"

text \<open>The memories at depth two or more that a stage uses, and the ends of its FIFOs.\<close>

definition deep_memories :: "memory_tree \<Rightarrow> grouped_stage \<Rightarrow> resource set" where
  "deep_memories t st = {r. MemRefType (Some (KindAttr r)) \<in> set (gs_operands st) \<and>
     (\<exists>n. getNodeIdForMemory t r = Some n \<and> 2 \<le> depth_of t n)}"

definition fifo_ends :: "grouped_stage \<Rightarrow> (attribute \<times> attribute) set" where
  "fifo_ends st = {(a, b). FifoSlotType a b \<in> set (gs_operands st)}"

definition share :: "memory_tree \<Rightarrow> grouped_stage \<Rightarrow> grouped_stage \<Rightarrow> bool" where
  "share t s1 s2 \<longleftrightarrow> deep_memories t s1 \<inter> deep_memories t s2 \<noteq> {} \<or> fifo_ends s1 \<inter> fifo_ends s2 \<noteq> {}"

lemma share_sym: "share t s1 s2 \<longleftrightarrow> share t s2 s1"
  by (auto simp: share_def)

lemma analyzeValue_result:
  assumes "tree_ok t" and "iteration_order ord" and "\<forall>space. v = MemRefType space \<longrightarrow> (\<exists>r. space = Some (KindAttr r))"
  shows "\<exists>u'. analyzeValue ord t v u = Some u' \<and>
    set (fst u') = set (fst u) \<union> {r. v = MemRefType (Some (KindAttr r)) \<and> (\<exists>n. getNodeIdForMemory t r = Some n \<and> 2 \<le> depth_of t n)} \<and>
    set (snd u') = set (snd u) \<union> {(a, b). v = FifoSlotType a b}"
proof (cases v)
  case (MemRefType space)
  then obtain r where r: "space = Some (KindAttr r)" using assms(3) by blast
  show ?thesis
    using below_scratchpad_depth [OF assms(1,2), of r]
    by (cases "getNodeIdForMemory t r")
      (auto simp: analyzeValue_def MemRefType r as_kind_def split: if_splits)
qed (auto simp: analyzeValue_def)

lemma analyze_operands_result:
  assumes "tree_ok t" and "iteration_order ord" and "typed_stage st"
  obtains u where "analyze_operands ord t st = Some u"
    and "set (fst u) = deep_memories t st" and "set (snd u) = fifo_ends st"
proof -
  have "\<exists>u'. foldM (analyzeValue ord t) vs u = Some u' \<and>
      set (fst u') = set (fst u) \<union> {r. MemRefType (Some (KindAttr r)) \<in> set vs \<and> (\<exists>n. getNodeIdForMemory t r = Some n \<and> 2 \<le> depth_of t n)} \<and>
      set (snd u') = set (snd u) \<union> {(a, b). FifoSlotType a b \<in> set vs}"
    if "\<forall>space. MemRefType space \<in> set vs \<longrightarrow> (\<exists>r. space = Some (KindAttr r))" for vs u
    using that
  proof (induction vs arbitrary: u)
    case (Cons v vs)
    have v: "\<forall>space. v = MemRefType space \<longrightarrow> (\<exists>r. space = Some (KindAttr r))" using Cons.prems by simp
    obtain u1 where u1: "analyzeValue ord t v u = Some u1"
      "set (fst u1) = set (fst u) \<union> {r. v = MemRefType (Some (KindAttr r)) \<and> (\<exists>n. getNodeIdForMemory t r = Some n \<and> 2 \<le> depth_of t n)}"
      "set (snd u1) = set (snd u) \<union> {(a, b). v = FifoSlotType a b}"
      using analyzeValue_result [of t ord v u, OF assms(1,2) v] by (elim exE conjE) (rule that)
    obtain u2 where u2: "foldM (analyzeValue ord t) vs u1 = Some u2"
      "set (fst u2) = set (fst u1) \<union> {r. MemRefType (Some (KindAttr r)) \<in> set vs \<and> (\<exists>n. getNodeIdForMemory t r = Some n \<and> 2 \<le> depth_of t n)}"
      "set (snd u2) = set (snd u1) \<union> {(a, b). FifoSlotType a b \<in> set vs}"
      using Cons.IH [of u1] Cons.prems by auto
    show ?case
    proof (intro exI conjI)
      show "foldM (analyzeValue ord t) (v # vs) u = Some u2" using u1(1) u2(1) by simp
      show "set (fst u2) = set (fst u) \<union> {r. MemRefType (Some (KindAttr r)) \<in> set (v # vs) \<and>
          (\<exists>n. getNodeIdForMemory t r = Some n \<and> 2 \<le> depth_of t n)}"
        unfolding u2(2) u1(2) by auto
      show "set (snd u2) = set (snd u) \<union> {(a, b). FifoSlotType a b \<in> set (v # vs)}"
        unfolding u2(3) u1(3) by auto
    qed
  qed simp
  from this [of "gs_operands st" "([], [])"] show ?thesis
    using assms(3) that unfolding typed_stage_def analyze_operands_def deep_memories_def fifo_ends_def by auto
qed

lemma shouldGroupTogether_result:
  assumes "tree_ok t" and "iteration_order ord" and "typed_stage s1" and "typed_stage s2"
  shows "shouldGroupTogether ord t s1 s2 = Some (share t s1 s2)"
proof -
  obtain u1 where u1: "analyze_operands ord t s1 = Some u1" "set (fst u1) = deep_memories t s1" "set (snd u1) = fifo_ends s1"
    using analyze_operands_result [OF assms(1-3)] .
  obtain u2 where u2: "analyze_operands ord t s2 = Some u2" "set (fst u2) = deep_memories t s2" "set (snd u2) = fifo_ends s2"
    using analyze_operands_result [OF assms(1,2,4)] .
  have "list_ex (\<lambda>m. m \<in> set (fst u2)) (fst u1) \<longleftrightarrow> deep_memories t s1 \<inter> deep_memories t s2 \<noteq> {}"
    unfolding list_ex_iff u1(2) u2(2) by blast
  moreover have "list_ex (\<lambda>f1. list_ex (\<lambda>f2. fst f1 = fst f2 \<and> snd f1 = snd f2) (snd u2)) (snd u1) \<longleftrightarrow>
      fifo_ends s1 \<inter> fifo_ends s2 \<noteq> {}"
    unfolding list_ex_iff u1(3) u2(3) prod_eq_iff [symmetric] by blast
  ultimately show ?thesis by (simp add: shouldGroupTogether_def u1(1) u2(1) share_def)
qed

section \<open>The grouping is the partition the sharing generates\<close>

lemma stage_pairs_set: "set (stage_pairs n) = {(i, j). i < j \<and> j < n}"
  by (auto simp: stage_pairs_def image_iff)

lemma union_calls_result:
  assumes "tree_ok t" and "iteration_order ord" and "\<forall>st\<in>set stages. typed_stage st"
  shows "union_calls ord t stages = Some (filter (\<lambda>(i, j). share t (stages ! i) (stages ! j)) (stage_pairs (length stages)))"
proof -
  have "foldM (\<lambda>(i, j) us. do { b \<leftarrow> shouldGroupTogether ord t (stages ! i) (stages ! j);
          Some (if b then us @ [(i, j)] else us) }) ps us =
      Some (us @ filter (\<lambda>(i, j). share t (stages ! i) (stages ! j)) ps)"
    if "\<forall>(i, j)\<in>set ps. i < length stages \<and> j < length stages" for ps us
    using that
  proof (induction ps arbitrary: us)
    case (Cons p ps)
    obtain i j where p: "p = (i, j)" by (cases p)
    have "typed_stage (stages ! i)" "typed_stage (stages ! j)" using Cons.prems assms(3) by (auto simp: p)
    then have "shouldGroupTogether ord t (stages ! i) (stages ! j) = Some (share t (stages ! i) (stages ! j))"
      by (rule shouldGroupTogether_result [OF assms(1,2)])
    then show ?case using Cons.IH Cons.prems by (simp add: p)
  qed simp
  from this [of "stage_pairs (length stages)" "[]"] show ?thesis
    by (auto simp: union_calls_def stage_pairs_set)
qed

text \<open>The loop that makes the groups.\<close>

lemma fold_group_map:
  "fold (\<lambda>i m. m(f i := Some k)) is m x = (if x \<in> f ` set is then Some k else m x)"
  by (induction "is" arbitrary: m) auto

lemma add_stage_groups_result:
  assumes "distinct (concat cs)" and "inj_on (\<lambda>i. gs_op (stages ! i)) (set (concat cs))"
  shows "\<exists>g. fold (add_stage_group stages) cs (no_groups, 0) = (g, length cs) \<and>
    groups g = map (map (\<lambda>i. gs_op (stages ! i))) cs \<and>
    (\<forall>k i. k < length cs \<longrightarrow> i \<in> set (cs ! k) \<longrightarrow> stage_to_group g (gs_op (stages ! i)) = Some k) \<and>
    (\<forall>q. q \<notin> (\<lambda>i. gs_op (stages ! i)) ` set (concat cs) \<longrightarrow> stage_to_group g q = None)"
  using assms
proof (induction cs rule: rev_induct)
  case Nil
  then show ?case by (simp add: no_groups_def)
next
  case (snoc c cs)
  let ?f = "\<lambda>i. gs_op (stages ! i)"
  have "inj_on ?f (set (concat cs))" using snoc.prems(2) by (auto intro: inj_on_subset)
  then obtain g where g: "fold (add_stage_group stages) cs (no_groups, 0) = (g, length cs)"
    "groups g = map (map ?f) cs"
    "\<And>k i. k < length cs \<Longrightarrow> i \<in> set (cs ! k) \<Longrightarrow> stage_to_group g (?f i) = Some k"
    "\<And>q. q \<notin> ?f ` set (concat cs) \<Longrightarrow> stage_to_group g q = None"
    using snoc.IH snoc.prems(1) by auto
  let ?g = "g\<lparr>groups := groups g @ [map ?f c],
    stage_to_group := fold (\<lambda>i m. m(?f i := Some (length cs))) c (stage_to_group g)\<rparr>"
  have "fold (add_stage_group stages) (cs @ [c]) (no_groups, 0) = (?g, length (cs @ [c]))"
    by (simp add: g(1) add_stage_group_def)
  moreover have "groups ?g = map (map ?f) (cs @ [c])" by (simp add: g(2))
  moreover have "stage_to_group ?g (?f i) = Some k" if k: "k < length (cs @ [c])" "i \<in> set ((cs @ [c]) ! k)" for k i
  proof (cases "k = length cs")
    case True
    then show ?thesis using k(2) by (simp add: fold_group_map)
  next
    case False
    then have ki: "k < length cs" "i \<in> set (cs ! k)" using k by (simp_all add: nth_append)
    then have i: "i \<in> set (concat cs)" by auto
    have "?f i \<notin> ?f ` set c"
    proof
      assume "?f i \<in> ?f ` set c"
      then obtain j where "j \<in> set c" "?f i = ?f j" by blast
      moreover from this have "i = j" using snoc.prems(2) i by (auto dest: inj_onD)
      ultimately show False using snoc.prems(1) i by auto
    qed
    then show ?thesis using g(3) [OF ki] by (simp add: fold_group_map)
  qed
  moreover have "stage_to_group ?g q = None" if "q \<notin> ?f ` set (concat (cs @ [c]))" for q
    using that g(4) [of q] by (auto simp: fold_group_map)
  ultimately show ?case by blast
qed

text \<open>A reflexive and transitive closure does not see the order of the pairs.\<close>

lemma share_closure:
  assumes "i < n" and "j < n"
  shows "(i, j) \<in> (set (filter (\<lambda>(i, j). share t (stages ! i) (stages ! j)) (stage_pairs n)) \<union>
      (set (filter (\<lambda>(i, j). share t (stages ! i) (stages ! j)) (stage_pairs n)))\<inverse>)\<^sup>* \<longleftrightarrow>
    (i, j) \<in> {(i, j). i < n \<and> j < n \<and> share t (stages ! i) (stages ! j)}\<^sup>*" (is "_ \<in> ?A\<^sup>* \<longleftrightarrow> _ \<in> ?B\<^sup>*")
proof -
  have "?A \<subseteq> ?B" using share_sym unfolding set_filter stage_pairs_set by fastforce
  moreover have "?B \<subseteq> ?A\<^sup>="
  proof
    fix p assume "p \<in> ?B"
    then obtain x y where p: "p = (x, y)" "x < n" "y < n" "share t (stages ! x) (stages ! y)" by auto
    consider "x = y" | "x < y" | "y < x" by linarith
    then show "p \<in> ?A\<^sup>="
      by cases (use p share_sym [of t "stages ! x" "stages ! y"] in \<open>auto simp: stage_pairs_set\<close>)
  qed
  ultimately have "?A\<^sup>* = ?B\<^sup>*" using rtrancl_mono [of ?A ?B] rtrancl_mono [of ?B "?A\<^sup>="] by auto
  then show ?thesis by simp
qed

section \<open>Properties\<close>

text \<open>C28: The groups partition the stages without an empty group, every stage finds its group, and two
  stages are in one group exactly when a chain of stages links them in which neighbours use a
  common memory below the scratchpad or FIFOs with the same ends.\<close>

theorem init_groups_partition:
  assumes "equivalence_classes classes" and "tree_ok t" and "iteration_order ord"
    and "\<forall>st\<in>set stages. typed_stage st" and "distinct (map gs_op stages)"
  shows "\<exists>g. init_groups classes ord t stages = Some g \<and>
    distinct (concat (groups g)) \<and> set (concat (groups g)) = gs_op ` set stages \<and> [] \<notin> set (groups g) \<and>
    (\<forall>i<length stages. \<exists>grp. getGroupForStage g (gs_op (stages ! i)) = Some grp \<and>
       grp \<in> set (groups g) \<and> gs_op (stages ! i) \<in> set grp) \<and>
    (\<forall>i<length stages. \<forall>j<length stages. areInSameGroup g (gs_op (stages ! i)) (gs_op (stages ! j)) \<longleftrightarrow>
       (i, j) \<in> {(i, j). i < length stages \<and> j < length stages \<and> share t (stages ! i) (stages ! j)}\<^sup>*)"
proof (cases "stages = []")
  case True
  then show ?thesis by (simp add: init_groups_def no_groups_def)
next
  case False
  let ?n = "length stages" and ?f = "\<lambda>i. gs_op (stages ! i)"
  let ?us = "filter (\<lambda>(i, j). share t (stages ! i) (stages ! j)) (stage_pairs ?n)"
  let ?cs = "classes ?n ?us"
  have us: "set ?us \<subseteq> {..<?n} \<times> {..<?n}" by (auto simp: stage_pairs_set)
  note C = equivalence_classesD [OF assms(1) us]
  have inj: "inj_on ?f {..<?n}"
    using assms(5) by (auto simp: inj_on_def distinct_conv_nth)
  obtain g where g: "fold (add_stage_group stages) ?cs (no_groups, 0) = (g, length ?cs)"
    "groups g = map (map ?f) ?cs"
    "\<And>k i. k < length ?cs \<Longrightarrow> i \<in> set (?cs ! k) \<Longrightarrow> stage_to_group g (?f i) = Some k"
    using add_stage_groups_result [OF C(1), of stages] inj unfolding C(2) by auto
  have "init_groups classes ord t stages = Some g"
    using False union_calls_result [OF assms(2-4)] by (simp add: init_groups_def g(1))
  moreover have cat: "concat (groups g) = map ?f (concat ?cs)" by (simp add: g(2) map_concat)
  moreover have "distinct (map ?f (concat ?cs))" using C(1,2) inj by (simp add: distinct_map)
  moreover have "set (map ?f (concat ?cs)) = gs_op ` set stages"
    unfolding set_map C(2) by (auto simp: set_conv_nth)
  moreover have "[] \<notin> set (groups g)" using C(3) by (simp add: g(2) image_iff)
  moreover have class_of_stage: "\<exists>k<length ?cs. i \<in> set (?cs ! k)" if "i < ?n" for i
  proof -
    have "i \<in> set (concat ?cs)" using C(2) that by simp
    then obtain c where "c \<in> set ?cs" "i \<in> set c" by auto
    then show ?thesis by (auto simp: in_set_conv_nth)
  qed
  moreover have "\<exists>grp. getGroupForStage g (?f i) = Some grp \<and> grp \<in> set (groups g) \<and> ?f i \<in> set grp" if i: "i < ?n" for i
  proof -
    obtain k where k: "k < length ?cs" "i \<in> set (?cs ! k)" using class_of_stage [OF i] by blast
    then show ?thesis by (simp add: getGroupForStage_def g(2) g(3) [OF k])
  qed
  moreover have "areInSameGroup g (?f i) (?f j) \<longleftrightarrow>
      (i, j) \<in> {(i, j). i < ?n \<and> j < ?n \<and> share t (stages ! i) (stages ! j)}\<^sup>*" if i: "i < ?n" and j: "j < ?n" for i j
  proof -
    obtain k where k: "k < length ?cs" "i \<in> set (?cs ! k)" using class_of_stage [OF i] by blast
    obtain l where l: "l < length ?cs" "j \<in> set (?cs ! l)" using class_of_stage [OF j] by blast
    have "areInSameGroup g (?f i) (?f j) \<longleftrightarrow> k = l"
      by (simp add: areInSameGroup_def g(3) [OF k] g(3) [OF l])
    also have "\<dots> \<longleftrightarrow> (\<exists>c\<in>set ?cs. i \<in> set c \<and> j \<in> set c)"
    proof
      assume "\<exists>c\<in>set ?cs. i \<in> set c \<and> j \<in> set c"
      then obtain c where c: "c \<in> set ?cs" "i \<in> set c" "j \<in> set c" by blast
      then obtain m where "m < length ?cs" "?cs ! m = c" unfolding in_set_conv_nth by blast
      then have m: "m < length ?cs" "i \<in> set (?cs ! m)" "j \<in> set (?cs ! m)" using c(2,3) by simp_all
      show "k = l" using g(3) [OF m(1,2)] g(3) [OF m(1,3)] g(3) [OF k] g(3) [OF l] by simp
    qed (use k l in auto)
    also have "\<dots> \<longleftrightarrow> (i, j) \<in> {(i, j). i < ?n \<and> j < ?n \<and> share t (stages ! i) (stages ! j)}\<^sup>*"
      using C(4) [OF i j] share_closure [OF i j] by simp
    finally show ?thesis .
  qed
  ultimately show ?thesis by (intro exI [of _ g]) (simp only: cat, blast)
qed

section \<open>Examples\<close>

text \<open>
  A builder of classes: every element has a label, and \<open>unionSets(i, j)\<close> gives the elements with
  the label of \<open>j\<close> the label of \<open>i\<close>.
\<close>

definition relabel :: "nat \<times> nat \<Rightarrow> (nat \<Rightarrow> nat) \<Rightarrow> nat \<Rightarrow> nat" where
  "relabel p f x = (if f x = f (snd p) then f (fst p) else f x)"

definition build_classes :: class_builder where
  "build_classes n us =
     (let f = fold relabel us (\<lambda>x. x) in
      filter (\<lambda>c. c \<noteq> []) (map (\<lambda>k. filter (\<lambda>x. f x = k) [0..<n]) [0..<n]))"

lemma labels:
  "fold relabel us (\<lambda>x. x) x = fold relabel us (\<lambda>x. x) y \<longleftrightarrow> (x, y) \<in> (set us \<union> (set us)\<inverse>)\<^sup>*"
proof (induction us arbitrary: x y rule: rev_induct)
  case (snoc p us)
  obtain i j where p: "p = (i, j)" by (cases p)
  let ?E = "set us \<union> (set us)\<inverse>" and ?f = "fold relabel us (\<lambda>x. x)"
  have E: "set (us @ [p]) \<union> (set (us @ [p]))\<inverse> = insert (i, j) (insert (j, i) ?E)" by (auto simp: p)
  have "fold relabel (us @ [p]) (\<lambda>x. x) x = fold relabel (us @ [p]) (\<lambda>x. x) y \<longleftrightarrow>
      ?f x = ?f y \<or> ?f x = ?f j \<and> ?f i = ?f y \<or> ?f x = ?f i \<and> ?f j = ?f y"
    by (auto simp: relabel_def p)
  also have "\<dots> \<longleftrightarrow> (x, y) \<in> (set (us @ [p]) \<union> (set (us @ [p]))\<inverse>)\<^sup>*"
    unfolding E rtrancl_insert by (auto simp flip: snoc.IH)
  finally show ?case .
qed simp

lemma labels_below: "set us \<subseteq> {..<n} \<times> {..<n} \<Longrightarrow> x < n \<Longrightarrow> fold relabel us (\<lambda>x. x) x < n"
proof (induction us arbitrary: x rule: rev_induct)
  case (snoc p us)
  have "fst p < n" using snoc.prems(1) by auto
  then show ?case using snoc.IH snoc.prems by (simp add: relabel_def)
qed simp

lemma build_classes_equivalence: "equivalence_classes build_classes"
  unfolding equivalence_classes_def
proof (intro allI impI)
  fix n and us :: "(nat \<times> nat) list"
  assume us: "set us \<subseteq> {..<n} \<times> {..<n}"
  let ?f = "fold relabel us (\<lambda>x. x)" and ?cs = "build_classes n us"
  let ?raw = "map (\<lambda>k. filter (\<lambda>x. ?f x = k) [0..<n])"
  have "concat (filter (\<lambda>c. c \<noteq> []) cs) = concat cs" for cs :: "nat list list" by (induction cs) auto
  then have cat: "concat ?cs = concat (?raw [0..<n])" by (simp add: build_classes_def Let_def)
  have "distinct (concat (?raw ks))" if "distinct ks" for ks
    using that by (induction ks) auto
  then have "distinct (concat ?cs)" unfolding cat by simp
  moreover have "set (concat ?cs) = {..<n}"
    unfolding cat using labels_below [OF us] by auto
  moreover have "[] \<notin> set ?cs" by (simp add: build_classes_def Let_def)
  moreover have "(\<exists>c\<in>set ?cs. i \<in> set c \<and> j \<in> set c) \<longleftrightarrow> (i, j) \<in> (set us \<union> (set us)\<inverse>)\<^sup>*"
    if ij: "i < n" "j < n" for i j
  proof -
    have "(\<exists>c\<in>set ?cs. i \<in> set c \<and> j \<in> set c) \<longleftrightarrow> ?f i = ?f j"
    proof
      assume e: "?f i = ?f j"
      let ?c = "filter (\<lambda>x. ?f x = ?f i) [0..<n]"
      have "i \<in> set ?c" "j \<in> set ?c" using ij e by simp_all
      moreover have "?c \<in> set ?cs"
        using labels_below [OF us ij(1)] ij(1) by (auto simp: build_classes_def Let_def filter_empty_conv)
      ultimately show "\<exists>c\<in>set ?cs. i \<in> set c \<and> j \<in> set c" by blast
    qed (auto simp: build_classes_def Let_def)
    then show ?thesis using labels by simp
  qed
  ultimately show "distinct (concat ?cs) \<and> set (concat ?cs) = {..<n} \<and> [] \<notin> set ?cs \<and>
      (\<forall>i<n. \<forall>j<n. (\<exists>c\<in>set ?cs. i \<in> set c \<and> j \<in> set c) \<longleftrightarrow> (i, j) \<in> (set us \<union> (set us)\<inverse>)\<^sup>*)"
    by blast
qed

text \<open>Stages 10 and 12 share L0, 12 and 13 a FIFO; stage 11 is alone.\<close>

definition four_stages :: "grouped_stage list" where
  "four_stages =
     [\<lparr>gs_op = 10, gs_operands = [MemRefType (Some (KindAttr ''L0'')), OtherType]\<rparr>,
      \<lparr>gs_op = 11, gs_operands = [MemRefType (Some (KindAttr ''L1'')), FifoSlotType (KindAttr ''A'') (KindAttr ''B'')]\<rparr>,
      \<lparr>gs_op = 12, gs_operands = [MemRefType (Some (KindAttr ''L0'')), FifoSlotType (KindAttr ''B'') (KindAttr ''C'')]\<rparr>,
      \<lparr>gs_op = 13, gs_operands = [FifoSlotType (KindAttr ''B'') (KindAttr ''C''), MemRefType (Some (KindAttr ''L1''))]\<rparr>]"

lemma four_stages_share:
  "deep_memories small_memory (four_stages ! 0) = {''L0''}" "deep_memories small_memory (four_stages ! 2) = {''L0''}"
  "fifo_ends (four_stages ! 2) = {(KindAttr ''B'', KindAttr ''C'')}" "fifo_ends (four_stages ! 3) = {(KindAttr ''B'', KindAttr ''C'')}"
  using depth_of_chain [OF small_memory_chain(3)]
  by (auto simp: four_stages_def deep_memories_def fifo_ends_def getNodeIdForMemory_def small_memory_def)

theorem init_groups_partition_witness:
  "\<exists>g. init_groups build_classes rev small_memory four_stages = Some g \<and> groups g = [[10, 12, 13], [11]] \<and>
     areInSameGroup g 10 13 \<and> set (concat (groups g)) = {10, 11, 12, 13}"
proof -
  have run: "map_option groups (init_groups build_classes rev small_memory four_stages) = Some [[10, 12, 13], [11]]"
    by code_simp
  have typed: "\<forall>st\<in>set four_stages. typed_stage st" "distinct (map gs_op four_stages)"
    by (auto simp: four_stages_def typed_stage_def)
  let ?R = "{(i, j). i < length four_stages \<and> j < length four_stages \<and> share small_memory (four_stages ! i) (four_stages ! j)}"
  have n: "length four_stages = 4" by (simp add: four_stages_def)
  have "(0, 2) \<in> ?R" "(2, 3) \<in> ?R" unfolding share_def using four_stages_share n by simp_all
  then have "(0, 3) \<in> ?R\<^sup>*" by (meson converse_rtrancl_into_rtrancl r_into_rtrancl)
  moreover obtain g where g: "init_groups build_classes rev small_memory four_stages = Some g"
    "set (concat (groups g)) = gs_op ` set four_stages"
    "\<forall>i<length four_stages. \<forall>j<length four_stages.
       areInSameGroup g (gs_op (four_stages ! i)) (gs_op (four_stages ! j)) \<longleftrightarrow> (i, j) \<in> ?R\<^sup>*"
    using init_groups_partition [OF build_classes_equivalence small_memory_ok iteration_order_id(2) typed]
    by (elim exE conjE) (rule that)
  ultimately have "areInSameGroup g (gs_op (four_stages ! 0)) (gs_op (four_stages ! 3))" using n by simp
  then show ?thesis using g(1,2) run by (simp add: four_stages_def)
qed

end
