(* ===== verification/LoopTiling.thy ===== *)
theory LoopTiling
  imports Prelude
begin

text \<open>
  The loop nests of \<open>lib/Dialect/KTDF/Analysis/LoopTiling.cpp\<close>: perfectly nested loops are cut into
  nests, and every loop gets the strategy to optimise it with. \<open>getPerfectlyNestedLoops\<close> of MLIR is
  a parameter; its documented behaviour is the predicate \<open>perfect_nesting\<close>.
\<close>

section \<open>State\<close>

datatype loop_type = ParallelLoop | OtherLoopType

type_synonym for_op = nat

text \<open>The loops in the order of the pre-order walk, their \<open>loop_type\<close> attributes and the nearest enclosing loop.\<close>

record loop_ir =
  all_loops :: "for_op list"
  loop_type_attr :: "for_op \<Rightarrow> loop_type option"
  enclosing_loop :: "for_op \<Rightarrow> for_op option"

definition isParallelLoop :: "loop_ir \<Rightarrow> for_op \<Rightarrow> bool" where
  "isParallelLoop ir l = (case loop_type_attr ir l of None \<Rightarrow> False | Some v \<Rightarrow> v = ParallelLoop)"

datatype strategy = kNone | kTiling | kStripMining

record loop_metadata =
  divisibility :: int
  min_value :: int
  lm_strategy :: strategy
  is_invalidated :: bool

definition isTilingCandidate :: "loop_metadata \<Rightarrow> bool" where
  "isTilingCandidate m \<longleftrightarrow> lm_strategy m = kTiling"

definition isStripMiningCandidate :: "loop_metadata \<Rightarrow> bool" where
  "isStripMiningCandidate m \<longleftrightarrow> lm_strategy m = kStripMining"

record tiling_info =
  loop_nests :: "for_op list list"
  loop_to_metadata :: "for_op \<Rightarrow> loop_metadata option"
  loop_to_nest_index :: "for_op \<Rightarrow> nat option"

definition no_nests :: tiling_info where
  "no_nests = \<lparr>loop_nests = [], loop_to_metadata = (\<lambda>_. None), loop_to_nest_index = (\<lambda>_. None)\<rparr>"

definition kMaxLoopNestDepth :: nat where
  "kMaxLoopNestDepth = 4"

section \<open>Queries and updates\<close>

definition getMetadataForLoop :: "tiling_info \<Rightarrow> for_op \<Rightarrow> loop_metadata option" where
  "getMetadataForLoop info l = loop_to_metadata info l"

definition getNestContainingLoop :: "tiling_info \<Rightarrow> for_op \<Rightarrow> for_op list option" where
  "getNestContainingLoop info l =
     (case loop_to_nest_index info l of None \<Rightarrow> None | Some k \<Rightarrow> Some (loop_nests info ! k))"

definition invalidateLoop :: "for_op \<Rightarrow> tiling_info \<Rightarrow> tiling_info" where
  "invalidateLoop l info =
     (case loop_to_metadata info l of
        None \<Rightarrow> info
      | Some m \<Rightarrow> info\<lparr>loop_to_metadata := (loop_to_metadata info)(l := Some (m\<lparr>is_invalidated := True\<rparr>))\<rparr>)"

definition updateMetadata :: "for_op \<Rightarrow> loop_metadata \<Rightarrow> tiling_info \<Rightarrow> tiling_info" where
  "updateMetadata l m info =
     (case loop_to_metadata info l of
        None \<Rightarrow> info
      | Some _ \<Rightarrow> info\<lparr>loop_to_metadata := (loop_to_metadata info)(l := Some m)\<rparr>)"

section \<open>The analysis\<close>

definition strategy_of :: "loop_ir \<Rightarrow> nat \<Rightarrow> nat \<Rightarrow> for_op \<Rightarrow> strategy" where
  "strategy_of ir nest_depth i l =
     (if nest_depth > 1 then kTiling
      else if nest_depth = 1 \<and> i = 0 then (if enclosing_loop ir l = None then kStripMining else kNone)
      else kNone)"

definition assignMetadata :: "loop_ir \<Rightarrow> for_op list \<Rightarrow> tiling_info \<Rightarrow> tiling_info" where
  "assignMetadata ir nest info =
     fold (\<lambda>(i, l) info. info\<lparr>loop_to_metadata := (loop_to_metadata info)(l := Some
         \<lparr>divisibility = 1, min_value = 1, lm_strategy = strategy_of ir (length nest) i l, is_invalidated = False\<rparr>)\<rparr>)
       (List.enumerate 0 nest) info"

definition split_step ::
  "loop_ir \<Rightarrow> for_op \<Rightarrow> for_op \<Rightarrow> for_op list list \<times> for_op list \<Rightarrow> for_op list list \<times> for_op list" where
  "split_step ir back l s =
     (let (sub_nests, current) = s; current1 = current @ [l] in
      if \<not> isParallelLoop ir l \<or> l = back then (sub_nests @ [current1], []) else (sub_nests, current1))"

definition split_nest :: "loop_ir \<Rightarrow> for_op list \<Rightarrow> for_op list list" where
  "split_nest ir nested_loops = fst (fold (split_step ir (last nested_loops)) nested_loops ([], []))"

definition record_nest :: "loop_ir \<Rightarrow> for_op list \<Rightarrow> tiling_info \<times> for_op set \<Rightarrow> tiling_info \<times> for_op set" where
  "record_nest ir nest s =
     (let (info, visited) = s;
          info1 = assignMetadata ir nest info;
          nest_index = length (loop_nests info1);
          info2 = info1\<lparr>loop_nests := loop_nests info1 @ [nest]\<rparr>
      in fold (\<lambda>l (info, visited).
             (info\<lparr>loop_to_nest_index := (loop_to_nest_index info)(l := Some nest_index)\<rparr>, insert l visited))
           nest (info2, visited))"

definition nest_step ::
  "(for_op \<Rightarrow> for_op list) \<Rightarrow> loop_ir \<Rightarrow> for_op \<Rightarrow> tiling_info \<times> for_op set \<Rightarrow> (tiling_info \<times> for_op set) option" where
  "nest_step perfect ir l s =
     (if l \<in> snd s then Some s
      else (let nested_loops = perfect l in
            if nested_loops = [] then None
            else Some (fold (record_nest ir)
                   (split_nest ir (if length nested_loops > kMaxLoopNestDepth
                                   then take kMaxLoopNestDepth nested_loops else nested_loops)) s)))"

definition computeLoopNests :: "(for_op \<Rightarrow> for_op list) \<Rightarrow> loop_ir \<Rightarrow> tiling_info option" where
  "computeLoopNests perfect ir = map_option fst (foldM (nest_step perfect ir) (all_loops ir) (no_nests, {}))"

section \<open>Perfectly nested loops\<close>

text \<open>
  The list starts with the loop itself and goes on with the list of the only loop of its body, when
  there is one; this inner loop comes later in the walk, and is inside one loop only.
\<close>

definition perfect_nesting :: "(for_op \<Rightarrow> for_op list) \<Rightarrow> (for_op \<Rightarrow> for_op option) \<Rightarrow> for_op list \<Rightarrow> bool" where
  "perfect_nesting perfect only_inner loops \<longleftrightarrow> distinct loops \<and>
     (\<forall>l\<in>set loops. perfect l = l # (case only_inner l of None \<Rightarrow> [] | Some c \<Rightarrow> perfect c)) \<and>
     (\<forall>l c. l \<in> set loops \<and> only_inner l = Some c \<longrightarrow> (\<exists>xs ys zs. loops = xs @ l # ys @ c # zs)) \<and>
     (\<forall>l l' c. l \<in> set loops \<and> l' \<in> set loops \<and> only_inner l = Some c \<and> only_inner l' = Some c \<longrightarrow> l = l')"

definition consecutive_loops :: "(for_op \<Rightarrow> for_op option) \<Rightarrow> for_op list \<Rightarrow> bool" where
  "consecutive_loops only_inner = successively (\<lambda>a b. only_inner a = Some b)"

lemma perfect_nestingD:
  assumes "perfect_nesting perfect inner loops"
  shows "distinct loops" and "l \<in> set loops \<Longrightarrow> perfect l = l # (case inner l of None \<Rightarrow> [] | Some c \<Rightarrow> perfect c)"
    and "l \<in> set loops \<Longrightarrow> inner l = Some c \<Longrightarrow> \<exists>xs ys zs. loops = xs @ l # ys @ c # zs"
    and "l \<in> set loops \<Longrightarrow> l' \<in> set loops \<Longrightarrow> inner l = Some c \<Longrightarrow> inner l' = Some c \<Longrightarrow> l = l'"
  using assms unfolding perfect_nesting_def by blast+

lemma perfect_list:
  assumes "perfect_nesting perfect inner loops" and "l \<in> set loops"
  shows "perfect l \<noteq> [] \<and> hd (perfect l) = l \<and> set (perfect l) \<subseteq> set loops \<and> consecutive_loops inner (perfect l)"
  using assms(2)
proof (induction "length (perfect l)" arbitrary: l rule: less_induct)
  case less
  note P = perfect_nestingD [OF assms(1)]
  show ?case
  proof (cases "inner l")
    case None
    then show ?thesis using P(2) [OF less.prems] less.prems by (simp add: consecutive_loops_def)
  next
    case (Some c)
    obtain xs ys zs where "loops = xs @ l # ys @ c # zs" using P(3) [OF less.prems Some] by blast
    then have c: "c \<in> set loops" by simp
    have e: "perfect l = l # perfect c" using P(2) [OF less.prems] Some by simp
    then have "perfect c \<noteq> [] \<and> hd (perfect c) = c \<and> set (perfect c) \<subseteq> set loops \<and> consecutive_loops inner (perfect c)"
      using less.hyps [of c] c by simp
    then show ?thesis using e Some less.prems by (auto simp: consecutive_loops_def successively_Cons)
  qed
qed

section \<open>Cutting a nest\<close>

lemma split_steps:
  assumes "\<forall>l\<in>set cur. isParallelLoop ir l"
  shows "\<exists>subs' cur'. fold (split_step ir back) ys (subs, cur) = (subs @ subs', cur') \<and> concat subs' @ cur' = cur @ ys \<and>
    (\<forall>s\<in>set subs'. s \<noteq> [] \<and> (\<forall>l\<in>set (butlast s). isParallelLoop ir l)) \<and>
    (ys \<noteq> [] \<and> last ys = back \<longrightarrow> cur' = [])"
  using assms
proof (induction ys arbitrary: subs cur)
  case (Cons l ys)
  let ?cur = "cur @ [l]"
  show ?case
  proof (cases "\<not> isParallelLoop ir l \<or> l = back")
    case True
    have e: "\<forall>l\<in>set []. isParallelLoop ir l" by simp
    obtain subs' cur' where IH: "fold (split_step ir back) ys (subs @ [?cur], []) = ((subs @ [?cur]) @ subs', cur')"
      "concat subs' @ cur' = [] @ ys" "\<forall>s\<in>set subs'. s \<noteq> [] \<and> (\<forall>l\<in>set (butlast s). isParallelLoop ir l)"
      "ys \<noteq> [] \<and> last ys = back \<longrightarrow> cur' = []"
      using Cons.IH [OF e, of "subs @ [?cur]"] by (elim exE conjE) (rule that)
    have "fold (split_step ir back) (l # ys) (subs, cur) = (subs @ ?cur # subs', cur')"
      using IH(1) True by (simp add: split_step_def)
    moreover have "concat (?cur # subs') @ cur' = cur @ l # ys" using IH(2) by simp
    moreover have "\<forall>s\<in>set (?cur # subs'). s \<noteq> [] \<and> (\<forall>l\<in>set (butlast s). isParallelLoop ir l)"
      using IH(3) Cons.prems by simp
    moreover have "last (l # ys) = back \<longrightarrow> cur' = []"
      using IH(1,4) by (cases "ys = []") simp_all
    ultimately show ?thesis by blast
  next
    case False
    then have par: "\<forall>l\<in>set ?cur. isParallelLoop ir l" using Cons.prems by simp
    obtain subs' cur' where IH: "fold (split_step ir back) ys (subs, ?cur) = (subs @ subs', cur')"
      "concat subs' @ cur' = ?cur @ ys" "\<forall>s\<in>set subs'. s \<noteq> [] \<and> (\<forall>l\<in>set (butlast s). isParallelLoop ir l)"
      "ys \<noteq> [] \<and> last ys = back \<longrightarrow> cur' = []"
      using Cons.IH [OF par, of subs] by (elim exE conjE) (rule that)
    have "fold (split_step ir back) (l # ys) (subs, cur) = (subs @ subs', cur')"
      using IH(1) False by (simp add: split_step_def)
    moreover have "concat subs' @ cur' = cur @ l # ys" using IH(2) by simp
    moreover have "last (l # ys) = back \<longrightarrow> cur' = []" using IH(4) False by (cases "ys = []") simp_all
    ultimately show ?thesis using IH(3) by blast
  qed
qed simp

lemma split_nest_result:
  assumes "loops \<noteq> []"
  shows "concat (split_nest ir loops) = loops"
    and "s \<in> set (split_nest ir loops) \<Longrightarrow> s \<noteq> [] \<and> (\<forall>l\<in>set (butlast s). isParallelLoop ir l)"
  using split_steps [of "[]" ir "last loops" loops "[]"] assms by (auto simp: split_nest_def)

section \<open>Recording a nest\<close>

lemma assignMetadata_result:
  assumes "distinct nest"
  shows "loop_nests (assignMetadata ir nest info) = loop_nests info"
    and "loop_to_nest_index (assignMetadata ir nest info) = loop_to_nest_index info"
    and "loop_to_metadata (assignMetadata ir nest info) l =
      (if l \<in> set nest then Some \<lparr>divisibility = 1, min_value = 1,
         lm_strategy = (if 1 < length nest then kTiling else if enclosing_loop ir l = None then kStripMining else kNone),
         is_invalidated = False\<rparr>
       else loop_to_metadata info l)"
proof -
  let ?m = "\<lambda>i l. \<lparr>divisibility = 1, min_value = 1, lm_strategy = strategy_of ir (length nest) i l, is_invalidated = False\<rparr>"
  let ?f = "\<lambda>(i, l) info. info\<lparr>loop_to_metadata := (loop_to_metadata info)(l := Some (?m i l))\<rparr>"
  have f: "loop_nests (fold ?f (List.enumerate k ls) info) = loop_nests info \<and>
      loop_to_nest_index (fold ?f (List.enumerate k ls) info) = loop_to_nest_index info \<and>
      (\<forall>l. l \<notin> set ls \<longrightarrow> loop_to_metadata (fold ?f (List.enumerate k ls) info) l = loop_to_metadata info l) \<and>
      (\<forall>i<length ls. loop_to_metadata (fold ?f (List.enumerate k ls) info) (ls ! i) = Some (?m (k + i) (ls ! i)))"
    if "distinct ls" for k ls info
    using that
  proof (induction ls arbitrary: k info)
    case (Cons a ls)
    let ?info = "info\<lparr>loop_to_metadata := (loop_to_metadata info)(a := Some (?m k a))\<rparr>"
    have d: "distinct ls" using Cons.prems by simp
    have IH: "loop_nests (fold ?f (List.enumerate (Suc k) ls) ?info) = loop_nests ?info"
      "loop_to_nest_index (fold ?f (List.enumerate (Suc k) ls) ?info) = loop_to_nest_index ?info"
      "\<And>l. l \<notin> set ls \<Longrightarrow> loop_to_metadata (fold ?f (List.enumerate (Suc k) ls) ?info) l = loop_to_metadata ?info l"
      "\<And>i. i < length ls \<Longrightarrow> loop_to_metadata (fold ?f (List.enumerate (Suc k) ls) ?info) (ls ! i) = Some (?m (Suc k + i) (ls ! i))"
      using Cons.IH [OF d, of "Suc k" ?info] by blast+
    have nth: "loop_to_metadata (fold ?f (List.enumerate (Suc k) ls) ?info) ((a # ls) ! i) = Some (?m (k + i) ((a # ls) ! i))"
      if "i < length (a # ls)" for i
      using that IH(3) [of a] IH(4) [of "i - 1"] Cons.prems by (cases i) auto
    have step: "fold ?f (List.enumerate k (a # ls)) info = fold ?f (List.enumerate (Suc k) ls) ?info" by simp
    show ?case
      unfolding step by (intro conjI allI impI nth) (simp_all add: IH(1-3))
  qed simp
  from f [OF assms, of 0 info]
  show "loop_nests (assignMetadata ir nest info) = loop_nests info"
    "loop_to_nest_index (assignMetadata ir nest info) = loop_to_nest_index info"
    by (simp_all add: assignMetadata_def)
  have s: "strategy_of ir (length nest) i l =
      (if 1 < length nest then kTiling else if enclosing_loop ir l = None then kStripMining else kNone)"
    if "i < length nest" for i l
    using that by (cases "length nest = 1") (auto simp: strategy_of_def)
  show "loop_to_metadata (assignMetadata ir nest info) l =
      (if l \<in> set nest then Some \<lparr>divisibility = 1, min_value = 1,
         lm_strategy = (if 1 < length nest then kTiling else if enclosing_loop ir l = None then kStripMining else kNone),
         is_invalidated = False\<rparr>
       else loop_to_metadata info l)"
  proof (cases "l \<in> set nest")
    case True
    then obtain i where i: "i < length nest" "nest ! i = l" by (auto simp: in_set_conv_nth)
    have "loop_to_metadata (assignMetadata ir nest info) (nest ! i) = Some (?m (0 + i) (nest ! i))"
      using f [OF assms, of 0 info] i(1) unfolding assignMetadata_def by blast
    then show ?thesis using True i s [OF i(1)] by simp
  next
    case False
    then show ?thesis using f [OF assms, of 0 info] by (simp add: assignMetadata_def)
  qed
qed

text \<open>What holds of the nests at every moment.\<close>

definition nests_ok :: "loop_ir \<Rightarrow> tiling_info \<Rightarrow> for_op set \<Rightarrow> bool" where
  "nests_ok ir info V \<longleftrightarrow> distinct (concat (loop_nests info)) \<and> set (concat (loop_nests info)) = V \<and>
     (\<forall>k l. k < length (loop_nests info) \<and> l \<in> set (loop_nests info ! k) \<longrightarrow>
        loop_to_nest_index info l = Some k \<and>
        loop_to_metadata info l = Some \<lparr>divisibility = 1, min_value = 1,
          lm_strategy = (if 1 < length (loop_nests info ! k) then kTiling
                         else if enclosing_loop ir l = None then kStripMining else kNone),
          is_invalidated = False\<rparr>) \<and>
     (\<forall>l. l \<notin> V \<longrightarrow> loop_to_nest_index info l = None \<and> loop_to_metadata info l = None)"

lemma record_index:
  "fold (\<lambda>l (info, visited). (info\<lparr>loop_to_nest_index := (loop_to_nest_index info)(l := Some k)\<rparr>, insert l visited)) ls (info, V) =
     (info\<lparr>loop_to_nest_index := (\<lambda>l. if l \<in> set ls then Some k else loop_to_nest_index info l)\<rparr>, V \<union> set ls)"
proof (induction ls arbitrary: info V)
  case (Cons a ls)
  show ?case
    by (simp add: Cons.IH del: fun_upd_apply) (auto simp: fun_eq_iff)
qed simp

lemma record_nest_ok:
  assumes "nests_ok ir info V" and "distinct nest" and "set nest \<inter> V = {}"
  shows "\<exists>info'. record_nest ir nest (info, V) = (info', V \<union> set nest) \<and> loop_nests info' = loop_nests info @ [nest] \<and>
    nests_ok ir info' (V \<union> set nest)"
proof -
  let ?a = "assignMetadata ir nest info"
  let ?i = "?a\<lparr>loop_nests := loop_nests ?a @ [nest],
    loop_to_nest_index := (\<lambda>l. if l \<in> set nest then Some (length (loop_nests ?a)) else loop_to_nest_index ?a l)\<rparr>"
  note A = assignMetadata_result [OF assms(2), of ir info]
  have "record_nest ir nest (info, V) = (?i, V \<union> set nest)"
    by (simp add: record_nest_def record_index Let_def cong: if_cong)
  moreover have n: "loop_nests ?i = loop_nests info @ [nest]" by (simp add: A)
  moreover have "nests_ok ir ?i (V \<union> set nest)"
  proof -
    have V: "distinct (concat (loop_nests info))" "set (concat (loop_nests info)) = V"
      "\<And>k l. k < length (loop_nests info) \<Longrightarrow> l \<in> set (loop_nests info ! k) \<Longrightarrow>
        loop_to_nest_index info l = Some k \<and>
        loop_to_metadata info l = Some \<lparr>divisibility = 1, min_value = 1,
          lm_strategy = (if 1 < length (loop_nests info ! k) then kTiling
                         else if enclosing_loop ir l = None then kStripMining else kNone),
          is_invalidated = False\<rparr>"
      "\<And>l. l \<notin> V \<Longrightarrow> loop_to_nest_index info l = None \<and> loop_to_metadata info l = None"
      using assms(1) unfolding nests_ok_def by blast+
    have out: "l \<notin> set nest" if "k < length (loop_nests info)" "l \<in> set (loop_nests info ! k)" for k l
      using V(2) assms(3) that by (metis UN_I disjoint_iff nth_mem set_concat)
    show ?thesis
      unfolding nests_ok_def n
    proof (intro conjI allI impI)
      fix k l assume "k < length (loop_nests info @ [nest]) \<and> l \<in> set ((loop_nests info @ [nest]) ! k)"
      then consider "k < length (loop_nests info)" "l \<in> set (loop_nests info ! k)" | "k = length (loop_nests info)" "l \<in> set nest"
        by (auto simp: nth_append less_Suc_eq split: if_splits)
      note cases = this
      show "loop_to_nest_index ?i l = Some k"
        using cases by cases (simp_all add: A out V(3))
      show "loop_to_metadata ?i l = Some \<lparr>divisibility = 1, min_value = 1,
          lm_strategy = (if 1 < length ((loop_nests info @ [nest]) ! k) then kTiling
                         else if enclosing_loop ir l = None then kStripMining else kNone),
          is_invalidated = False\<rparr>"
        using cases by cases (simp_all add: A out V(3) nth_append)
    qed (use V assms(2,3) in \<open>auto simp: A\<close>)
  qed
  ultimately show ?thesis by blast
qed

lemma record_nests_ok:
  assumes "nests_ok ir info V" and "distinct (concat subs)" and "set (concat subs) \<inter> V = {}"
  shows "\<exists>info'. fold (record_nest ir) subs (info, V) = (info', V \<union> set (concat subs)) \<and>
    loop_nests info' = loop_nests info @ subs \<and> nests_ok ir info' (V \<union> set (concat subs))"
  using assms
proof (induction subs arbitrary: info V)
  case (Cons nest subs)
  obtain i1 where i1: "record_nest ir nest (info, V) = (i1, V \<union> set nest)" "loop_nests i1 = loop_nests info @ [nest]"
    "nests_ok ir i1 (V \<union> set nest)"
    using record_nest_ok [OF Cons.prems(1), of nest] Cons.prems(2,3) by auto
  obtain i2 where "fold (record_nest ir) subs (i1, V \<union> set nest) = (i2, V \<union> set nest \<union> set (concat subs))"
    "loop_nests i2 = loop_nests i1 @ subs" "nests_ok ir i2 (V \<union> set nest \<union> set (concat subs))"
    using Cons.IH [OF i1(3)] Cons.prems(2,3) by auto
  then show ?case using i1(1,2) by (simp add: Un_assoc)
qed simp

section \<open>The walk over the loops\<close>

definition good_nest :: "loop_ir \<Rightarrow> (for_op \<Rightarrow> for_op option) \<Rightarrow> for_op list \<Rightarrow> bool" where
  "good_nest ir inner nest \<longleftrightarrow> nest \<noteq> [] \<and> length nest \<le> kMaxLoopNestDepth \<and> consecutive_loops inner nest \<and>
     (\<forall>l\<in>set (butlast nest). isParallelLoop ir l)"

lemma loop_chain_distinct:
  assumes "perfect_nesting perfect inner loops" and "consecutive_loops inner (x # xs)" and "set (x # xs) \<subseteq> set loops"
  shows "(\<forall>y\<in>set xs. length (perfect y) < length (perfect x)) \<and> distinct (x # xs)"
  using assms(2,3)
proof (induction xs arbitrary: x)
  case (Cons y xs)
  have xy: "inner x = Some y" "consecutive_loops inner (y # xs)"
    using Cons.prems(1) by (simp_all add: consecutive_loops_def)
  have "perfect x = x # perfect y" using perfect_nestingD(2) [OF assms(1), of x] Cons.prems(2) xy(1) by simp
  then have less: "length (perfect y) < length (perfect x)" by simp
  have "(\<forall>z\<in>set xs. length (perfect z) < length (perfect y)) \<and> distinct (y # xs)"
    using Cons.IH [OF xy(2)] Cons.prems(2) by simp
  then show ?case using less by fastforce
qed simp

lemma chain_unvisited:
  assumes "consecutive_loops inner (x # xs)" and "set (x # xs) \<subseteq> L" and "x \<notin> V"
    and "\<forall>a c. a \<in> L \<and> inner a = Some c \<and> c \<in> V \<longrightarrow> a \<in> V"
  shows "set (x # xs) \<inter> V = {}"
  using assms(1-3)
proof (induction xs arbitrary: x)
  case (Cons y xs)
  have xy: "inner x = Some y" "consecutive_loops inner (y # xs)"
    using Cons.prems(1) by (simp_all add: consecutive_loops_def)
  then have "y \<notin> V" using assms(4) Cons.prems(2,3) by auto
  then show ?case using Cons.IH [OF xy(2)] Cons.prems(2,3) by simp
qed simp

lemma chain_prev:
  assumes "consecutive_loops inner (x # xs)" and "c \<in> set xs"
  shows "\<exists>a\<in>set (x # xs). inner a = Some c"
  using assms by (induction xs arbitrary: x) (auto simp: consecutive_loops_def)

lemma consecutive_part: "consecutive_loops inner (as @ s @ bs) \<Longrightarrow> consecutive_loops inner s"
  by (simp add: consecutive_loops_def successively_append_iff)

lemma concat_part: "s \<in> set subs \<Longrightarrow> \<exists>as bs. concat subs = as @ s @ bs"
  by (metis split_list concat.simps(2) concat_append)

definition walk_ok ::
  "loop_ir \<Rightarrow> (for_op \<Rightarrow> for_op option) \<Rightarrow> for_op list \<Rightarrow> for_op list \<Rightarrow> tiling_info \<Rightarrow> for_op set \<Rightarrow> bool" where
  "walk_ok ir inner loops pre info V \<longleftrightarrow> nests_ok ir info V \<and> set pre \<subseteq> V \<and> V \<subseteq> set loops \<and>
     (\<forall>a c. a \<in> set loops \<and> inner a = Some c \<and> c \<in> V \<longrightarrow> a \<in> V) \<and>
     (\<forall>nest\<in>set (loop_nests info). good_nest ir inner nest)"

lemma nest_step_ok:
  assumes P: "perfect_nesting perfect inner loops" and loops: "loops = pre @ l # rest" and W: "walk_ok ir inner loops pre info V"
  shows "\<exists>info' V'. nest_step perfect ir l (info, V) = Some (info', V') \<and> walk_ok ir inner loops (pre @ [l]) info' V'"
proof (cases "l \<in> V")
  case True
  then show ?thesis using W by (simp add: nest_step_def walk_ok_def)
next
  case False
  have l: "l \<in> set loops" using loops by simp
  note pl = perfect_list [OF P l]
  define chain where "chain = take kMaxLoopNestDepth (perfect l)"
  obtain xs where chain: "chain = l # xs"
    using pl by (cases "perfect l") (auto simp: chain_def kMaxLoopNestDepth_def)
  have sub: "set chain \<subseteq> set loops" using pl set_take_subset [of kMaxLoopNestDepth "perfect l"] by (auto simp: chain_def)
  have con: "consecutive_loops inner chain"
    using pl consecutive_part [of inner "[]" chain "drop kMaxLoopNestDepth (perfect l)"] by (simp add: chain_def)
  have dist: "distinct chain" using loop_chain_distinct [OF P] con sub unfolding chain by blast
  have closed: "\<forall>a c. a \<in> set loops \<and> inner a = Some c \<and> c \<in> V \<longrightarrow> a \<in> V" using W by (simp add: walk_ok_def)
  have disj: "set chain \<inter> V = {}" using chain_unvisited [OF _ _ False closed] con sub unfolding chain by blast
  let ?subs = "split_nest ir chain"
  have cat: "concat ?subs = chain" using split_nest_result(1) [of chain ir] chain by simp
  obtain info' where info': "fold (record_nest ir) ?subs (info, V) = (info', V \<union> set chain)"
    "loop_nests info' = loop_nests info @ ?subs" "nests_ok ir info' (V \<union> set chain)"
    using record_nests_ok [of ir info V ?subs] W dist disj unfolding cat walk_ok_def by blast
  have step: "nest_step perfect ir l (info, V) = Some (info', V \<union> set chain)"
  proof -
    have "(if length (perfect l) > kMaxLoopNestDepth then take kMaxLoopNestDepth (perfect l) else perfect l) = chain"
      by (simp add: chain_def)
    then show ?thesis using False pl info'(1) by (simp add: nest_step_def Let_def)
  qed
  have "good_nest ir inner nest" if nest: "nest \<in> set ?subs" for nest
  proof -
    obtain as bs where "chain = as @ nest @ bs" using concat_part [OF nest] unfolding cat by blast
    moreover have "length chain \<le> kMaxLoopNestDepth" by (simp add: chain_def)
    ultimately have "consecutive_loops inner nest" "length nest \<le> kMaxLoopNestDepth"
      using con consecutive_part [of inner as nest bs] by auto
    then show ?thesis using split_nest_result(2) [OF _ nest] chain by (simp add: good_nest_def)
  qed
  moreover have "a \<in> V \<union> set chain" if a: "a \<in> set loops" "inner a = Some c" "c \<in> V \<union> set chain" for a c
  proof (cases "c \<in> V")
    case True
    then show ?thesis using closed a by blast
  next
    case notV: False
    show ?thesis
    proof (cases "c = l")
      case True
      obtain us vs ws where e: "loops = us @ a # vs @ c # ws" using perfect_nestingD(3) [OF P a(1,2)] by blast
      have "l \<notin> set pre" using perfect_nestingD(1) [OF P] unfolding loops by simp
      moreover have "l \<notin> set (us @ a # vs)" "l \<notin> set ws" using perfect_nestingD(1) [OF P] True unfolding e by auto
      ultimately have "us @ a # vs = pre"
        using e loops True append_Cons_eq_iff [of l "us @ a # vs" ws pre rest] by simp
      then have "a \<in> set pre" by auto
      then show ?thesis using W by (auto simp: walk_ok_def)
    next
      case False
      then have "c \<in> set xs" using a(3) notV chain by simp
      then obtain a' where "a' \<in> set chain" "inner a' = Some c" using chain_prev con unfolding chain by blast
      then have "a = a'" using perfect_nestingD(4) [OF P a(1) _ a(2)] sub by blast
      then show ?thesis using \<open>a' \<in> set chain\<close> by simp
    qed
  qed
  moreover have "l \<in> set chain" using chain by simp
  ultimately have "walk_ok ir inner loops (pre @ [l]) info' (V \<union> set chain)"
    using W info'(2,3) sub unfolding walk_ok_def by auto
  then show ?thesis using step by blast
qed

lemma nest_steps_ok:
  assumes P: "perfect_nesting perfect inner loops"
  shows "loops = pre @ ls \<Longrightarrow> walk_ok ir inner loops pre info V \<Longrightarrow>
    \<exists>info' V'. foldM (nest_step perfect ir) ls (info, V) = Some (info', V') \<and> walk_ok ir inner loops loops info' V'"
proof (induction ls arbitrary: pre info V)
  case (Cons l ls)
  obtain i1 V1 where s: "nest_step perfect ir l (info, V) = Some (i1, V1)" "walk_ok ir inner loops (pre @ [l]) i1 V1"
    using nest_step_ok [OF P Cons.prems] by blast
  then show ?case using Cons.IH [of "pre @ [l]" i1 V1] Cons.prems(1) by simp
qed simp

section \<open>Properties\<close>

text \<open>C32: The nests partition the loops; each is a chain of at most four loops, directly nested, of which
  all but the innermost are parallel, and every loop finds its nest and its metadata.\<close>

theorem computeLoopNests_partition:
  assumes "perfect_nesting perfect inner (all_loops ir)"
  shows "\<exists>info. computeLoopNests perfect ir = Some info \<and> distinct (concat (loop_nests info)) \<and>
    set (concat (loop_nests info)) = set (all_loops ir) \<and>
    (\<forall>nest\<in>set (loop_nests info). nest \<noteq> [] \<and> length nest \<le> 4 \<and>
       successively (\<lambda>a b. inner a = Some b) nest \<and> (\<forall>l\<in>set (butlast nest). isParallelLoop ir l)) \<and>
    (\<forall>l\<in>set (all_loops ir). \<exists>nest\<in>set (loop_nests info). l \<in> set nest \<and> getNestContainingLoop info l = Some nest \<and>
       (\<exists>m. getMetadataForLoop info l = Some m \<and> \<not> is_invalidated m \<and> divisibility m = 1 \<and> min_value m = 1 \<and>
         lm_strategy m = (if 1 < length nest then kTiling else if enclosing_loop ir l = None then kStripMining else kNone))) \<and>
    (\<forall>l. l \<notin> set (all_loops ir) \<longrightarrow> getNestContainingLoop info l = None \<and> getMetadataForLoop info l = None)"
proof -
  have "walk_ok ir inner (all_loops ir) [] no_nests {}" by (simp add: walk_ok_def nests_ok_def no_nests_def)
  then obtain info V where run: "foldM (nest_step perfect ir) (all_loops ir) (no_nests, {}) = Some (info, V)"
    "walk_ok ir inner (all_loops ir) (all_loops ir) info V"
    using nest_steps_ok [OF assms, of "[]" "all_loops ir" ir no_nests "{}"] by auto
  then have ok: "nests_ok ir info (set (all_loops ir))" "\<forall>nest\<in>set (loop_nests info). good_nest ir inner nest"
    by (auto simp: walk_ok_def)
  have N: "distinct (concat (loop_nests info))" "set (concat (loop_nests info)) = set (all_loops ir)"
    "\<And>k l. k < length (loop_nests info) \<Longrightarrow> l \<in> set (loop_nests info ! k) \<Longrightarrow>
        loop_to_nest_index info l = Some k \<and>
        loop_to_metadata info l = Some \<lparr>divisibility = 1, min_value = 1,
          lm_strategy = (if 1 < length (loop_nests info ! k) then kTiling
                         else if enclosing_loop ir l = None then kStripMining else kNone),
          is_invalidated = False\<rparr>"
    "\<And>l. l \<notin> set (all_loops ir) \<Longrightarrow> loop_to_nest_index info l = None \<and> loop_to_metadata info l = None"
    using ok(1) unfolding nests_ok_def by blast+
  have "\<exists>nest\<in>set (loop_nests info). l \<in> set nest \<and> getNestContainingLoop info l = Some nest \<and>
       (\<exists>m. getMetadataForLoop info l = Some m \<and> \<not> is_invalidated m \<and> divisibility m = 1 \<and> min_value m = 1 \<and>
         lm_strategy m = (if 1 < length nest then kTiling else if enclosing_loop ir l = None then kStripMining else kNone))"
    if l: "l \<in> set (all_loops ir)" for l
  proof -
    have "l \<in> set (concat (loop_nests info))" using l N(2) by simp
    then obtain nest where "nest \<in> set (loop_nests info)" "l \<in> set nest" by auto
    then obtain k where k: "k < length (loop_nests info)" "loop_nests info ! k = nest" "l \<in> set (loop_nests info ! k)"
      by (auto simp: in_set_conv_nth [of nest])
    show ?thesis
      by (rule bexI [of _ nest]) (use N(3) [OF k(1,3)] k in \<open>auto simp: getNestContainingLoop_def getMetadataForLoop_def\<close>)
  qed
  moreover have "\<forall>nest\<in>set (loop_nests info). nest \<noteq> [] \<and> length nest \<le> 4 \<and>
       successively (\<lambda>a b. inner a = Some b) nest \<and> (\<forall>l\<in>set (butlast nest). isParallelLoop ir l)"
    using ok(2) by (simp add: good_nest_def consecutive_loops_def kMaxLoopNestDepth_def)
  moreover have "\<forall>l. l \<notin> set (all_loops ir) \<longrightarrow> getNestContainingLoop info l = None \<and> getMetadataForLoop info l = None"
    using N(4) by (simp add: getNestContainingLoop_def getMetadataForLoop_def)
  ultimately show ?thesis using run(1) N(1,2) by (intro exI [of _ info]) (simp add: computeLoopNests_def)
qed

text \<open>
  The loop that ends a nest because it is not parallel is part of the nest: two perfectly nested
  loops, the outer parallel and the inner not, are both candidates for tiling.
\<close>

theorem sequential_loop_tiled:
  assumes "all_loops ir = [a, b]" and "perfect a = [a, b]" and "a \<noteq> b"
    and "isParallelLoop ir a" and "\<not> isParallelLoop ir b"
  shows "\<exists>info m. computeLoopNests perfect ir = Some info \<and> loop_nests info = [[a, b]] \<and>
    getMetadataForLoop info b = Some m \<and> isTilingCandidate m"
  using assms
  by (simp add: computeLoopNests_def nest_step_def split_nest_def split_step_def record_nest_def assignMetadata_def
      strategy_of_def no_nests_def kMaxLoopNestDepth_def Let_def getMetadataForLoop_def isTilingCandidate_def)

section \<open>Examples\<close>

text \<open>Loop 1 holds loop 2 alone, loop 2 holds loop 3 alone, and loop 4 stands beside loop 1; 2 is not parallel.\<close>

definition four_loops :: loop_ir where
  "four_loops = \<lparr>all_loops = [1, 2, 3, 4],
     loop_type_attr = (\<lambda>l. if l = 2 then Some OtherLoopType else if l = 4 then None else Some ParallelLoop),
     enclosing_loop = [2 \<mapsto> 1, 3 \<mapsto> 2]\<rparr>"

definition four_inner :: "for_op \<Rightarrow> for_op option" where
  "four_inner = [1 \<mapsto> 2, 2 \<mapsto> 3]"

definition four_perfect :: "for_op \<Rightarrow> for_op list" where
  "four_perfect l = (if l = 1 then [1, 2, 3] else if l = 2 then [2, 3] else [l])"

theorem computeLoopNests_partition_witness:
  "\<exists>info. computeLoopNests four_perfect four_loops = Some info \<and> loop_nests info = [[1, 2], [3], [4]] \<and>
     set (concat (loop_nests info)) = {1, 2, 3, 4}"
proof -
  have "\<exists>xs ys zs. [1, 2, 3, 4::nat] = xs @ 1 # ys @ 2 # zs" "\<exists>xs ys zs. [1, 2, 3, 4::nat] = xs @ 2 # ys @ 3 # zs"
    by (rule exI [of _ "[]"], rule exI [of _ "[]"], rule exI [of _ "[3, 4]"], simp)
      (rule exI [of _ "[1]"], rule exI [of _ "[]"], rule exI [of _ "[4]"], simp)
  then have "perfect_nesting four_perfect four_inner (all_loops four_loops)"
    by (auto simp: perfect_nesting_def four_loops_def four_perfect_def four_inner_def split: if_splits)
  moreover have "map_option loop_nests (computeLoopNests four_perfect four_loops) = Some [[1, 2], [3], [4]]"
    by code_simp
  ultimately show ?thesis using computeLoopNests_partition [of four_perfect four_inner four_loops] by auto
qed

theorem sequential_loop_tiled_witness:
  "\<exists>info m. computeLoopNests (\<lambda>l. if l = 1 then [1, 2] else [l]) (four_loops\<lparr>all_loops := [1, 2]\<rparr>) = Some info \<and>
     getMetadataForLoop info 2 = Some m \<and> isTilingCandidate m"
  using sequential_loop_tiled [of "four_loops\<lparr>all_loops := [1, 2]\<rparr>" 1 2 "\<lambda>l. if l = 1 then [1, 2] else [l]"]
  by (auto simp: isParallelLoop_def four_loops_def)

end
