(* ===== verification/Parallelize.thy ===== *)
theory Parallelize
  imports LoopTiling PipelineTree "HOL-Library.Signed_Division" "HOL-Library.Multiset"
begin

text \<open>
  The loops around a pipeline (\<open>lib/Dialect/KTDF/Analysis/PipelineScope.cpp\<close>), the units its stages
  may run on (\<open>ApplicableUnits.cpp\<close>), and the choice of the loops to distribute over the instances of
  the hardware (\<open>lib/Transforms/ParallelizeLoopsAcrossInstances.cpp\<close>): the group of the device that
  encloses all units, the number of its copies, and the loop to split. The rewriting of the loop into
  a \<open>ktdf.parallel\<close> is a sequence of MLIR builder calls and not modelled; what matters to it, that no
  loop is chosen twice, is shown.
\<close>

section \<open>The enclosing scope of a pipeline\<close>

text \<open>The operations below a root, each with the operations around it, the nearest first.\<close>

fun walk_around :: "irop list \<Rightarrow> irop \<Rightarrow> (irop \<times> irop list) list" where
  "walk_around anc (IrOp q k ins outs body) =
     (IrOp q k ins outs body, anc) # concat (map (walk_around (IrOp q k ins outs body # anc)) body)"

definition isAncestor :: "irop \<Rightarrow> irop \<Rightarrow> bool" where
  "isAncestor a b \<longleftrightarrow> op_of b \<in> op_of ` set (walk_post a)"

definition loopHasNoPeerPipeline :: "irop \<Rightarrow> irop \<Rightarrow> bool" where
  "loopHasNoPeerPipeline loop chain_member \<longleftrightarrow>
     \<not> list_ex (\<lambda>p. class_of p = PipelineOp \<and> \<not> (isAncestor chain_member p \<or> op_of chain_member = op_of p))
         (concat (map walk_post (body_of loop)))"

definition isScopeBoundary :: "irop \<Rightarrow> bool" where
  "isScopeBoundary o' \<longleftrightarrow> class_of o' \<noteq> ForOp"

fun getPipelineEnclosingScope :: "irop \<Rightarrow> irop list \<Rightarrow> irop list" where
  "getPipelineEnclosingScope current [] = []"
| "getPipelineEnclosingScope current (parent # outward) =
     (if isScopeBoundary parent then []
      else if \<not> loopHasNoPeerPipeline parent current then []
      else parent # getPipelineEnclosingScope parent outward)"

section \<open>Applicable units\<close>

text \<open>A missing or invalid attribute is a fatal error. A \<open>SetVector\<close> keeps the first occurrence.\<close>

definition add_unit :: "attribute \<Rightarrow> resource list \<Rightarrow> resource list option" where
  "add_unit a acc = do { r \<leftarrow> as_kind a; Some (if r \<in> set acc then acc else acc @ [r]) }"

definition collectPipelineApplicableUnits ::
  "(irop \<Rightarrow> irop list) \<Rightarrow> (op \<Rightarrow> attribute list option) \<Rightarrow> irop \<Rightarrow> resource list option" where
  "collectPipelineApplicableUnits op_stages units_attr pipeline =
     foldM (\<lambda>st acc. do { units \<leftarrow> units_attr (op_of st); foldM add_unit units acc }) (op_stages pipeline) []"

section \<open>The enclosing group\<close>

text \<open>
  The groups of the device, which belongs to another dialect: for every resource kind with an
  instance the group around it, whether this group is an alias of the resource
  (\<open>getEndpoint\<close> of one of its results is the resource), for every group its chain of enclosing
  groups from the group itself outwards, its kind, and the groups of its block in order.
\<close>

type_synonym dev_group = nat

record device_groups =
  has_instance :: "resource \<Rightarrow> bool"
  instance_group :: "resource \<Rightarrow> dev_group option"
  endpoint_alias :: "resource \<Rightarrow> dev_group \<Rightarrow> bool"
  group_chain :: "dev_group \<Rightarrow> dev_group list"
  group_kind :: "dev_group \<Rightarrow> string"
  block_groups :: "dev_group \<Rightarrow> dev_group list"

definition parent_group :: "device_groups \<Rightarrow> dev_group \<Rightarrow> dev_group option" where
  "parent_group d g = (case group_chain d g of _ # p # _ \<Rightarrow> Some p | _ \<Rightarrow> None)"

definition group_isAncestor :: "device_groups \<Rightarrow> dev_group \<Rightarrow> dev_group \<Rightarrow> bool" where
  "group_isAncestor d a g \<longleftrightarrow> a \<in> set (group_chain d g)"

text \<open>The \<open>while\<close> loop: up from \<open>result\<close> until it encloses the group.\<close>

fun climb_to :: "device_groups \<Rightarrow> dev_group list \<Rightarrow> dev_group \<Rightarrow> dev_group option" where
  "climb_to d [] g = None"
| "climb_to d (r # rs) g = (if group_isAncestor d r g then Some r else climb_to d rs g)"

definition scope_group :: "device_groups \<Rightarrow> resource \<Rightarrow> dev_group option" where
  "scope_group d r =
     (if \<not> has_instance d r then None
      else do { g \<leftarrow> instance_group d r;
                if endpoint_alias d r g then parent_group d g else Some g })"

definition enclose_step :: "device_groups \<Rightarrow> resource \<Rightarrow> dev_group option \<Rightarrow> dev_group option option" where
  "enclose_step d r result =
     do { g \<leftarrow> scope_group d r;
          (case result of
             None \<Rightarrow> Some (Some g)
           | Some res \<Rightarrow>
               (if group_isAncestor d g res then Some (Some g)
                else map_option Some (climb_to d (group_chain d res) g))) }"

definition findEnclosingGroup :: "device_groups \<Rightarrow> resource list \<Rightarrow> dev_group option" where
  "findEnclosingGroup d resources =
     (if resources = [] then None else Option.bind (foldM (enclose_step d) resources None) (\<lambda>r. r))"

definition getEquivalenceClass :: "device_groups \<Rightarrow> dev_group \<Rightarrow> dev_group list" where
  "getEquivalenceClass d g =
     fold (\<lambda>s acc. if group_kind d s = group_kind d g \<and> s \<notin> set acc then acc @ [s] else acc) (block_groups d g) [g]"

section \<open>The loop to split\<close>

text \<open>The static trip count of a loop is what MLIR computes, \<open>None\<close> for a dynamic one.\<close>

type_synonym trips = "for_op \<Rightarrow> int option"

definition firstMatching :: "loop_ir \<Rightarrow> trips \<Rightarrow> (int option \<Rightarrow> bool) \<Rightarrow> for_op list \<Rightarrow> for_op option" where
  "firstMatching ir trip p loops_innermost_first =
     find (\<lambda>l. isParallelLoop ir l \<and> p (trip l)) (rev loops_innermost_first)"

definition selectLoop :: "loop_ir \<Rightarrow> trips \<Rightarrow> for_op list \<Rightarrow> nat \<Rightarrow> for_op option" where
  "selectLoop ir trip loops n =
     (case firstMatching ir trip (\<lambda>t. case t of None \<Rightarrow> False | Some t \<Rightarrow> t \<ge> int n \<and> t smod int n = 0) loops of
        Some l \<Rightarrow> Some l
      | None \<Rightarrow>
          (case firstMatching ir trip (\<lambda>t. case t of None \<Rightarrow> False | Some t \<Rightarrow> t \<ge> int n) loops of
             Some l \<Rightarrow> Some l
           | None \<Rightarrow> firstMatching ir trip (\<lambda>t. t = None) loops))"

datatype balance_status = kBalanced | kUnbalanced | kBalanceUnknown

record candidate =
  cd_pipeline :: op
  cd_loop :: for_op
  trip_count :: "int option"
  cd_balance :: balance_status
  applicable_groups :: "dev_group list"

text \<open>No candidate is \<open>failure\<close>, a fatal error is \<open>None\<close>.\<close>

definition findCandidate ::
  "(irop \<Rightarrow> irop list) \<Rightarrow> (op \<Rightarrow> attribute list option) \<Rightarrow> device_groups \<Rightarrow> loop_ir \<Rightarrow> trips \<Rightarrow>
    irop \<times> irop list \<Rightarrow> candidate outcome" where
  "findCandidate op_stages units_attr d ir trip x =
     (let (pipeline, outward) = x in
      do { units \<leftarrow> collectPipelineApplicableUnits op_stages units_attr pipeline;
           (case findEnclosingGroup d units of
              None \<Rightarrow> failure
            | Some g \<Rightarrow>
                (let instances = getEquivalenceClass d g; n = length instances;
                     loops = map op_of (getPipelineEnclosingScope pipeline outward) in
                 if n < 2 then failure
                 else if loops = [] then failure
                 else (case selectLoop ir trip loops n of
                         None \<Rightarrow> failure
                       | Some l \<Rightarrow>
                           success \<lparr>cd_pipeline = op_of pipeline, cd_loop = l, trip_count = trip l,
                             cd_balance = (case trip l of None \<Rightarrow> kBalanceUnknown
                               | Some t \<Rightarrow> if t smod int n = 0 then kBalanced else kUnbalanced),
                             applicable_groups = instances\<rparr>))) })"

definition collect_candidates ::
  "(irop \<Rightarrow> irop list) \<Rightarrow> (op \<Rightarrow> attribute list option) \<Rightarrow> device_groups \<Rightarrow> loop_ir \<Rightarrow> trips \<Rightarrow> irop \<Rightarrow> candidate list option" where
  "collect_candidates op_stages units_attr d ir trip module_op =
     foldM (\<lambda>x acc. do { c \<leftarrow> findCandidate op_stages units_attr d ir trip x;
                         Some (case c of None \<Rightarrow> acc | Some c \<Rightarrow> acc @ [c]) })
       (filter (\<lambda>x. class_of (fst x) = PipelineOp) (walk_around [] module_op)) []"

section \<open>Scopes of different pipelines\<close>

text \<open>Every operation of the list holds the one before it.\<close>

fun held :: "irop \<Rightarrow> irop list \<Rightarrow> bool" where
  "held x [] \<longleftrightarrow> True"
| "held x (p # anc) \<longleftrightarrow> x \<in> set (body_of p) \<and> held p anc"

text \<open>A loop of the scope of an operation: a chain of loops without peer pipelines leads down to it.\<close>

inductive in_scope :: "irop \<Rightarrow> irop \<Rightarrow> bool" where
  scope_direct: "class_of L = ForOp \<Longrightarrow> c \<in> set (body_of L) \<Longrightarrow> loopHasNoPeerPipeline L c \<Longrightarrow> in_scope L c"
| scope_below: "class_of L = ForOp \<Longrightarrow> c \<in> set (body_of L) \<Longrightarrow> loopHasNoPeerPipeline L c \<Longrightarrow> in_scope c p \<Longrightarrow> in_scope L p"

lemma in_scope_trans: "in_scope L c \<Longrightarrow> in_scope c p \<Longrightarrow> in_scope L p"
  by (induction L c rule: in_scope.induct) (auto intro: in_scope.intros)

lemma enclosing_in_scope:
  "held x anc \<Longrightarrow> L \<in> set (getPipelineEnclosingScope x anc) \<Longrightarrow> in_scope L x"
proof (induction x anc rule: getPipelineEnclosingScope.induct)
  case (2 current parent outward)
  then have s: "class_of parent = ForOp" "loopHasNoPeerPipeline parent current"
    by (auto simp: isScopeBoundary_def split: if_splits)
  then have "in_scope parent current" using 2(2) by (auto intro: scope_direct)
  moreover have "L = parent \<or> in_scope L parent" using 2 s by (auto simp: isScopeBoundary_def)
  ultimately show ?case using in_scope_trans by blast
qed simp

lemma scope_subset: "set (getPipelineEnclosingScope x anc) \<subseteq> set anc"
  by (induction x anc rule: getPipelineEnclosingScope.induct) auto

lemma in_scope_class: "in_scope L p \<Longrightarrow> class_of L = ForOp"
  by (erule in_scope.cases) simp_all

lemma in_scope_inside: "in_scope L p \<Longrightarrow> \<exists>c\<in>set (body_of L). p \<in> set (walk_post c)"
proof (induction L p rule: in_scope.induct)
  case (scope_direct L c)
  then show ?case using walk_post_self by blast
next
  case (scope_below L c p)
  then show ?case using walk_post_body by blast
qed

text \<open>Different operations of a body have no operation below them in common.\<close>

definition distinct_ops :: "irop \<Rightarrow> bool" where
  "distinct_ops r \<longleftrightarrow> distinct (map op_of (walk_post r))"

lemma distinct_ops_inj: "distinct_ops r \<Longrightarrow> inj_on op_of (set (walk_post r))"
  by (simp add: distinct_ops_def distinct_map)

lemma distinct_ops_body:
  assumes "distinct_ops L" and "a \<in> set (body_of L)" and "b \<in> set (body_of L)"
    and "x \<in> set (walk_post a)" and "x \<in> set (walk_post b)"
  shows "a = b"
proof -
  obtain q k ins outs body where L: "L = IrOp q k ins outs body" by (cases L)
  have "distinct (concat (map walk_post body))"
    using assms(1) by (simp add: distinct_ops_def L distinct_map)
  from distinct_concat_unique [OF this _ _ assms(4,5)] show ?thesis using assms(2,3) by (simp add: L)
qed

lemma distinct_ops_part: "x \<in> set (walk_post r) \<Longrightarrow> distinct_ops r \<Longrightarrow> distinct_ops x"
proof (induction r rule: walk_post.induct)
  case (1 q k ins outs body)
  show ?case
  proof (cases "x = IrOp q k ins outs body")
    case False
    then obtain b where b: "b \<in> set body" "x \<in> set (walk_post b)" using 1(2) by auto
    obtain as bs where "body = as @ b # bs" using b(1) by (meson split_list)
    then have "distinct_ops b" using 1(3) by (simp add: distinct_ops_def)
    then show ?thesis using 1(1) b by blast
  qed (use 1(3) in simp)
qed

text \<open>A pipeline in a loop without peers is below the member of the chain.\<close>

lemma no_peer_below:
  assumes "loopHasNoPeerPipeline L c" and "distinct_ops L" and "c \<in> set (body_of L)"
    and "d \<in> set (body_of L)" and "q \<in> set (walk_post d)" and "class_of q = PipelineOp"
  shows "q \<in> set (walk_post c)"
proof -
  have q: "q \<in> set (concat (map walk_post (body_of L)))" using assms(4,5) by auto
  then have "isAncestor c q \<or> op_of c = op_of q"
    using assms(1,6) by (auto simp: loopHasNoPeerPipeline_def list_ex_iff)
  then have "op_of q \<in> op_of ` set (walk_post c)"
    using walk_post_self [of c] unfolding isAncestor_def by (metis imageI)
  then obtain y where y: "y \<in> set (walk_post c)" "op_of y = op_of q" by auto
  have "y \<in> set (walk_post L)" "q \<in> set (walk_post L)"
    using y(1) assms(3-5) walk_post_body by blast+
  then have "y = q" using distinct_ops_inj [OF assms(2)] y(2) by (auto dest: inj_onD)
  then show ?thesis using y(1) by simp
qed

text \<open>So a loop is in the scope of one pipeline only.\<close>

lemma in_scope_unique:
  assumes "in_scope L p" and "in_scope L q" and "distinct_ops L" and "class_of p = PipelineOp" and "class_of q = PipelineOp"
  shows "p = q"
  using assms
proof (induction L p rule: in_scope.induct)
  case (scope_direct L p)
  obtain d where d: "d \<in> set (body_of L)" "q \<in> set (walk_post d)" using in_scope_inside [OF scope_direct(4)] by blast
  have qp: "q \<in> set (walk_post p)"
    using no_peer_below [OF scope_direct(3,5,2) d scope_direct(7)] .
  from scope_direct(4) show ?case
  proof (cases rule: in_scope.cases)
    case scope_direct': scope_direct
    then show ?thesis
      using distinct_ops_body [OF scope_direct(5,2) _ qp walk_post_self] by blast
  next
    case (scope_below c)
    obtain e where "e \<in> set (body_of c)" "q \<in> set (walk_post e)" using in_scope_inside [OF scope_below(4)] by blast
    then have "q \<in> set (walk_post c)" using walk_post_body by blast
    then have "p = c" using distinct_ops_body [OF scope_direct(5,2) scope_below(2) qp] by blast
    then show ?thesis using in_scope_class [OF scope_below(4)] scope_direct(6) by simp
  qed
next
  case (scope_below L c p)
  obtain d where d: "d \<in> set (body_of L)" "q \<in> set (walk_post d)" using in_scope_inside [OF scope_below(6)] by blast
  have qc: "q \<in> set (walk_post c)"
    using no_peer_below [OF scope_below(3,7,2) d scope_below(9)] .
  from scope_below(6) show ?case
  proof (cases rule: in_scope.cases)
    case scope_direct
    then have "c = q" using distinct_ops_body [OF scope_below(7,2) _ qc walk_post_self] by blast
    then show ?thesis using in_scope_class [OF scope_below(4)] scope_below(9) by simp
  next
    case (scope_below c')
    obtain e where "e \<in> set (body_of c')" "q \<in> set (walk_post e)" using in_scope_inside [OF scope_below(4)] by blast
    then have "q \<in> set (walk_post c')" using walk_post_body by blast
    then have c: "c = c'"
      using distinct_ops_body [OF \<open>distinct_ops L\<close> \<open>c \<in> set (body_of L)\<close> scope_below(2) qc] by blast
    have "c \<in> set (walk_post L)" using \<open>c \<in> set (body_of L)\<close> walk_post_body walk_post_self by blast
    then have "distinct_ops c" using distinct_ops_part \<open>distinct_ops L\<close> by blast
    then show ?thesis using \<open>in_scope c q \<Longrightarrow> distinct_ops c \<Longrightarrow> class_of p = PipelineOp \<Longrightarrow> class_of q = PipelineOp \<Longrightarrow> p = q\<close>
        scope_below(4) c \<open>class_of p = PipelineOp\<close> \<open>class_of q = PipelineOp\<close> by blast
  qed
qed

section \<open>The lowest common group\<close>

text \<open>The chain of a group is the group and the chain of its parent.\<close>

definition group_tree :: "device_groups \<Rightarrow> bool" where
  "group_tree d \<longleftrightarrow> (\<forall>g. \<exists>rest. group_chain d g = g # rest \<and> (\<forall>p ps. rest = p # ps \<longrightarrow> group_chain d p = rest))"

lemma group_chain_suffix:
  assumes "group_tree d" and "a \<in> set (group_chain d g)"
  shows "\<exists>pre. group_chain d g = pre @ group_chain d a"
  using assms(2)
proof (induction "length (group_chain d g)" arbitrary: g rule: less_induct)
  case less
  obtain rest where r: "group_chain d g = g # rest" "\<And>p ps. rest = p # ps \<Longrightarrow> group_chain d p = rest"
    using assms(1) unfolding group_tree_def by blast
  show ?case
  proof (cases "a = g")
    case False
    then obtain p ps where p: "rest = p # ps" using less.prems r(1) by (cases rest) auto
    have "\<exists>pre. group_chain d p = pre @ group_chain d a"
      using less.hyps [of p] r p False less.prems by simp
    then show ?thesis using r(1) r(2) [OF p] by (metis append_Cons)
  qed simp
qed

lemma group_chain_self: "group_tree d \<Longrightarrow> g \<in> set (group_chain d g)"
  unfolding group_tree_def by (metis list.set_intros(1))

lemma group_chain_trans:
  "group_tree d \<Longrightarrow> a \<in> set (group_chain d b) \<Longrightarrow> b \<in> set (group_chain d g) \<Longrightarrow> a \<in> set (group_chain d g)"
  using group_chain_suffix [of d b g] by auto

lemma group_chain_antisym:
  assumes "group_tree d" and "a \<in> set (group_chain d b)" and "b \<in> set (group_chain d a)"
  shows "a = b"
proof -
  obtain p q where "group_chain d b = p @ group_chain d a" "group_chain d a = q @ group_chain d b"
    using group_chain_suffix [OF assms(1)] assms(2,3) by meson
  then have "group_chain d a = group_chain d b" by simp
  then show ?thesis using assms(1) unfolding group_tree_def by (metis list.inject)
qed

definition lowest_group :: "device_groups \<Rightarrow> dev_group set \<Rightarrow> dev_group \<Rightarrow> bool" where
  "lowest_group d S g \<longleftrightarrow> (\<forall>h\<in>S. g \<in> set (group_chain d h)) \<and>
     (\<forall>a. (\<forall>h\<in>S. a \<in> set (group_chain d h)) \<longrightarrow> a \<in> set (group_chain d g))"

lemma climb_to_common:
  assumes "group_tree d"
  shows "case climb_to d (group_chain d res) g of
      None \<Rightarrow> \<forall>a. \<not> (a \<in> set (group_chain d res) \<and> a \<in> set (group_chain d g))
    | Some r \<Rightarrow> r \<in> set (group_chain d res) \<and> r \<in> set (group_chain d g) \<and>
        (\<forall>a. a \<in> set (group_chain d res) \<and> a \<in> set (group_chain d g) \<longrightarrow> a \<in> set (group_chain d r))"
proof (induction "length (group_chain d res)" arbitrary: res rule: less_induct)
  case less
  obtain rest where rest: "group_chain d res = res # rest" "\<And>p ps. rest = p # ps \<Longrightarrow> group_chain d p = rest"
    using assms unfolding group_tree_def by blast
  show ?case
  proof (cases "res \<in> set (group_chain d g)")
    case True
    then show ?thesis by (simp add: rest(1) group_isAncestor_def)
  next
    case False
    show ?thesis
    proof (cases rest)
      case Nil
      then show ?thesis using False by (simp add: rest(1) group_isAncestor_def)
    next
      case (Cons p ps)
      have p: "group_chain d p = rest" using rest(2) [OF Cons] .
      have e: "climb_to d (group_chain d res) g = climb_to d (group_chain d p) g"
        using False p by (simp add: rest(1) group_isAncestor_def)
      have common: "a \<in> set (group_chain d res) \<and> a \<in> set (group_chain d g) \<longleftrightarrow>
          a \<in> set (group_chain d p) \<and> a \<in> set (group_chain d g)" for a
        using False p by (auto simp: rest(1))
      have "length (group_chain d p) < length (group_chain d res)" using p by (simp add: rest(1))
      from less.hyps [OF this] show ?thesis
        unfolding e common using p rest(1) by (auto split: option.splits)
    qed
  qed
qed

lemma lowest_group_unique: "group_tree d \<Longrightarrow> lowest_group d S a \<Longrightarrow> lowest_group d S b \<Longrightarrow> a = b"
  unfolding lowest_group_def using group_chain_antisym by blast

lemma lowest_group_insert:
  assumes T: "group_tree d" and low: "lowest_group d S r"
  shows "lowest_group d (insert h S) g \<longleftrightarrow>
    g \<in> set (group_chain d r) \<and> g \<in> set (group_chain d h) \<and>
    (\<forall>a. a \<in> set (group_chain d r) \<and> a \<in> set (group_chain d h) \<longrightarrow> a \<in> set (group_chain d g))"
proof -
  have "(\<forall>x\<in>S. a \<in> set (group_chain d x)) \<longleftrightarrow> a \<in> set (group_chain d r)" for a
    using low group_chain_trans [OF T] unfolding lowest_group_def by blast
  then show ?thesis unfolding lowest_group_def by blast
qed

lemma enclose_step_result:
  assumes T: "group_tree d" and h: "scope_group d r = Some h" and low: "lowest_group d S res"
  shows "case enclose_step d r (Some res) of
      None \<Rightarrow> \<forall>g. \<not> lowest_group d (insert h S) g
    | Some None \<Rightarrow> False
    | Some (Some g) \<Rightarrow> lowest_group d (insert h S) g"
proof (cases "group_isAncestor d h res")
  case True
  then show ?thesis
    using h group_chain_self [OF T, of h]
    by (simp add: enclose_step_def lowest_group_insert [OF T low] group_isAncestor_def)
next
  case False
  then have e: "enclose_step d r (Some res) = map_option Some (climb_to d (group_chain d res) h)"
    using h by (simp add: enclose_step_def)
  show ?thesis
    using climb_to_common [OF T, of res h] unfolding e lowest_group_insert [OF T low]
    by (cases "climb_to d (group_chain d res) h") auto
qed

lemma enclose_steps:
  assumes T: "group_tree d"
  shows "lowest_group d S res \<Longrightarrow> foldM (enclose_step d) rs (Some res) = Some x \<longleftrightarrow>
    (\<exists>g. x = Some g \<and> (\<forall>r\<in>set rs. scope_group d r \<noteq> None) \<and>
       lowest_group d (S \<union> {h. \<exists>r\<in>set rs. scope_group d r = Some h}) g)"
proof (induction rs arbitrary: S res)
  case Nil
  then show ?case using lowest_group_unique [OF T, of S] by auto
next
  case (Cons r rs)
  show ?case
  proof (cases "scope_group d r")
    case None
    then show ?thesis by (simp add: enclose_step_def)
  next
    case (Some h)
    have S: "S \<union> {h. \<exists>r'\<in>set (r # rs). scope_group d r' = Some h} = insert h S \<union> {h. \<exists>r\<in>set rs. scope_group d r = Some h}"
      using Some by auto
    note step = enclose_step_result [OF T Some Cons.prems]
    show ?thesis
    proof (cases "enclose_step d r (Some res)")
      case None
      have "\<not> lowest_group d (insert h S \<union> A) g" for A g
      proof
        assume low: "lowest_group d (insert h S \<union> A) g"
        then have common: "g \<in> set (group_chain d res)" "g \<in> set (group_chain d h)"
          using Cons.prems unfolding lowest_group_def by blast+
        have "climb_to d (group_chain d res) h = None"
          using None Some by (auto simp: enclose_step_def split: if_splits)
        then show False using climb_to_common [OF T, of res h] common by simp
      qed
      then show ?thesis using None S by simp
    next
      case (Some o1)
      then obtain g1 where g1: "o1 = Some g1" "lowest_group d (insert h S) g1" using step by (cases o1) auto
      show ?thesis unfolding S using Cons.IH [OF g1(2)] Some g1(1) \<open>scope_group d r = Some h\<close> by simp
    qed
  qed
qed

section \<open>Candidates\<close>

lemma walk_around_held: "held r anc \<Longrightarrow> (x, a) \<in> set (walk_around anc r) \<Longrightarrow> held x a"
  by (induction anc r arbitrary: x a rule: walk_around.induct) auto

lemma walk_around_above:
  "(x, a) \<in> set (walk_around anc r) \<Longrightarrow> x \<in> set (walk_post r) \<and> set a \<subseteq> set anc \<union> set (walk_post r)"
  by (induction anc r arbitrary: x a rule: walk_around.induct) fastforce

lemma walk_around_mset: "mset (map fst (walk_around anc r)) = mset (walk_post r)"
proof (induction anc r rule: walk_around.induct)
  case (1 anc q k ins outs body)
  have "mset (concat (map f bs)) = mset (concat (map g bs))" if "\<forall>b\<in>set bs. mset (f b) = mset (g b)"
    for f g :: "irop \<Rightarrow> irop list" and bs
    using that by (induction bs) auto
  then have "mset (concat (map (\<lambda>b. map fst (walk_around (IrOp q k ins outs body # anc) b)) body)) = mset (concat (map walk_post body))"
    using 1 by simp
  then show ?case by (simp add: map_concat comp_def)
qed

lemma walk_around_distinct: "distinct_ops r \<Longrightarrow> distinct (map (op_of \<circ> fst) (walk_around [] r))"
proof -
  assume "distinct_ops r"
  then have "distinct (map op_of (walk_post r))" by (simp add: distinct_ops_def)
  moreover have "mset (map op_of (map fst (walk_around [] r))) = mset (map op_of (walk_post r))"
    using walk_around_mset [of "[]" r] by (metis mset_map)
  ultimately show ?thesis by (metis map_map mset_eq_imp_distinct_iff)
qed

lemma firstMatching_Some:
  assumes "firstMatching ir trip p loops = Some l"
  shows "l \<in> set loops \<and> isParallelLoop ir l \<and> p (trip l)"
  using assms by (auto simp: firstMatching_def find_Some_iff) (metis nth_mem set_rev length_rev)

lemma firstMatching_None:
  "firstMatching ir trip p loops = None \<longleftrightarrow> (\<forall>l\<in>set loops. isParallelLoop ir l \<longrightarrow> \<not> p (trip l))"
  by (auto simp: firstMatching_def find_None_iff)

lemma smod_pos: "0 < n \<Longrightarrow> 0 \<le> (t::int) \<Longrightarrow> t smod n = t mod n"
  by (simp add: signed_modulo_int_def sgn_if)

lemma selectLoop_result:
  assumes "0 < n"
  shows "case selectLoop ir trip loops n of
      None \<Rightarrow> \<forall>l\<in>set loops. isParallelLoop ir l \<longrightarrow> (\<exists>t. trip l = Some t \<and> t < int n)
    | Some l \<Rightarrow> l \<in> set loops \<and> isParallelLoop ir l \<and>
        (case trip l of
           None \<Rightarrow> \<forall>l'\<in>set loops. isParallelLoop ir l' \<longrightarrow> (\<forall>t. trip l' = Some t \<longrightarrow> t < int n)
         | Some t \<Rightarrow> int n \<le> t \<and> (int n dvd t \<or>
             (\<forall>l'\<in>set loops. isParallelLoop ir l' \<longrightarrow> (\<forall>t'. trip l' = Some t' \<and> int n \<le> t' \<longrightarrow> \<not> int n dvd t'))))"
proof -
  let ?bal = "\<lambda>t. case t of None \<Rightarrow> False | Some t \<Rightarrow> t \<ge> int n \<and> t smod int n = 0"
  let ?imb = "\<lambda>t. case t of None \<Rightarrow> False | Some t \<Rightarrow> t \<ge> int n"
  have bal: "?bal (Some t) \<longleftrightarrow> int n \<le> t \<and> int n dvd t" for t
    using smod_pos [of "int n" t] assms by (auto simp: dvd_eq_mod_eq_0)
  show ?thesis
  proof (cases "firstMatching ir trip ?bal loops")
    case (Some l)
    then have "selectLoop ir trip loops n = Some l" by (simp add: selectLoop_def)
    then show ?thesis using firstMatching_Some [OF Some] bal by (cases "trip l") auto
  next
    case none1: None
    have nb: "\<not> (int n \<le> t \<and> int n dvd t)" if "l \<in> set loops" "isParallelLoop ir l" "trip l = Some t" for l t
      using none1 that bal unfolding firstMatching_None by fastforce
    show ?thesis
    proof (cases "firstMatching ir trip ?imb loops")
      case (Some l)
      then have "selectLoop ir trip loops n = Some l" using none1 by (simp add: selectLoop_def)
      then show ?thesis using firstMatching_Some [OF Some] nb by (cases "trip l") auto
    next
      case none2: None
      have small: "t < int n" if "l \<in> set loops" "isParallelLoop ir l" "trip l = Some t" for l t
        using none2 that unfolding firstMatching_None by fastforce
      have sel: "selectLoop ir trip loops n = firstMatching ir trip (\<lambda>t. t = None) loops"
        using none1 none2 by (simp add: selectLoop_def)
      show ?thesis
      proof (cases "firstMatching ir trip (\<lambda>t. t = None) loops")
        case None
        then have all: "\<forall>l\<in>set loops. isParallelLoop ir l \<longrightarrow> trip l \<noteq> None" unfolding firstMatching_None .
        have "\<exists>t. trip l = Some t \<and> t < int n" if "l \<in> set loops" "isParallelLoop ir l" for l
        proof -
          obtain t where "trip l = Some t" using all \<open>l \<in> set loops\<close> \<open>isParallelLoop ir l\<close> by auto
          then show ?thesis using small \<open>l \<in> set loops\<close> \<open>isParallelLoop ir l\<close> by blast
        qed
        then show ?thesis unfolding sel None by simp
      next
        case (Some l)
        then show ?thesis unfolding sel using firstMatching_Some [OF Some] small by simp
      qed
    qed
  qed
qed

lemma equivalence_class:
  "distinct (getEquivalenceClass d g)"
  "set (getEquivalenceClass d g) = insert g {s \<in> set (block_groups d g). group_kind d s = group_kind d g}"
proof -
  have "distinct acc \<Longrightarrow> distinct (fold (\<lambda>s acc. if P s \<and> s \<notin> set acc then acc @ [s] else acc) ss acc) \<and>
      set (fold (\<lambda>s acc. if P s \<and> s \<notin> set acc then acc @ [s] else acc) ss acc) = set acc \<union> {s \<in> set ss. P s}"
    for P and ss acc :: "dev_group list"
    by (induction ss arbitrary: acc) auto
  from this [of "[g]" "\<lambda>s. group_kind d s = group_kind d g" "block_groups d g"]
  show "distinct (getEquivalenceClass d g)"
    "set (getEquivalenceClass d g) = insert g {s \<in> set (block_groups d g). group_kind d s = group_kind d g}"
    by (auto simp: getEquivalenceClass_def)
qed

text \<open>What a candidate tells.\<close>

lemma findCandidate_success:
  assumes "findCandidate op_stages units_attr d ir trip (p, anc) = success c"
  shows "\<exists>units g. collectPipelineApplicableUnits op_stages units_attr p = Some units \<and>
      findEnclosingGroup d units = Some g \<and> applicable_groups c = getEquivalenceClass d g"
    and "2 \<le> length (applicable_groups c)" and "cd_pipeline c = op_of p"
    and "selectLoop ir trip (map op_of (getPipelineEnclosingScope p anc)) (length (applicable_groups c)) = Some (cd_loop c)"
    and "cd_balance c = (case trip (cd_loop c) of None \<Rightarrow> kBalanceUnknown
      | Some t \<Rightarrow> if t smod int (length (applicable_groups c)) = 0 then kBalanced else kUnbalanced)"
proof -
  obtain units where u: "collectPipelineApplicableUnits op_stages units_attr p = Some units"
    using assms by (auto simp: findCandidate_def split: Option.bind_split_asm)
  obtain g where g: "findEnclosingGroup d units = Some g"
    using assms by (auto simp: findCandidate_def u split: option.splits)
  let ?n = "length (getEquivalenceClass d g)" and ?loops = "map op_of (getPipelineEnclosingScope p anc)"
  have n: "\<not> ?n < 2" "?loops \<noteq> []" using assms by (auto simp: findCandidate_def u g Let_def split: if_splits)
  obtain l where l: "selectLoop ir trip ?loops ?n = Some l"
    using assms n by (cases "selectLoop ir trip ?loops ?n") (auto simp: findCandidate_def u g Let_def)
  have c: "c = \<lparr>cd_pipeline = op_of p, cd_loop = l, trip_count = trip l,
      cd_balance = (case trip l of None \<Rightarrow> kBalanceUnknown | Some t \<Rightarrow> if t smod int ?n = 0 then kBalanced else kUnbalanced),
      applicable_groups = getEquivalenceClass d g\<rparr>"
    using assms n l by (simp add: findCandidate_def u g Let_def)
  have ag: "applicable_groups c = getEquivalenceClass d g" by (simp add: c)
  show "\<exists>units g. collectPipelineApplicableUnits op_stages units_attr p = Some units \<and>
      findEnclosingGroup d units = Some g \<and> applicable_groups c = getEquivalenceClass d g"
    using u g ag by blast
  show "2 \<le> length (applicable_groups c)" "cd_pipeline c = op_of p"
    "selectLoop ir trip ?loops (length (applicable_groups c)) = Some (cd_loop c)"
    using n l unfolding ag by (simp_all add: c)
  show "cd_balance c = (case trip (cd_loop c) of None \<Rightarrow> kBalanceUnknown
      | Some t \<Rightarrow> if t smod int (length (applicable_groups c)) = 0 then kBalanced else kUnbalanced)"
    unfolding ag by (simp add: c)
qed

lemma collect_result:
  assumes "foldM (\<lambda>x acc. do { c \<leftarrow> f x; Some (case c of None \<Rightarrow> acc | Some c \<Rightarrow> acc @ [c]) }) xs acc = Some cs"
  shows "\<exists>cs'. cs = acc @ cs' \<and> (\<forall>x\<in>set xs. f x \<noteq> None) \<and> cs' = List.map_filter (\<lambda>x. the (f x)) xs"
  using assms
proof (induction xs arbitrary: acc)
  case (Cons x xs)
  then obtain r where r: "f x = Some r" by (auto split: Option.bind_split_asm)
  show ?case
  proof (cases r)
    case None
    then show ?thesis using Cons.IH [of acc] Cons.prems r by (simp add: map_filter_simps)
  next
    case (Some a)
    then show ?thesis using Cons.IH [of "acc @ [a]"] Cons.prems r by (simp add: map_filter_simps)
  qed
qed (simp add: map_filter_simps)

lemma distinct_map_partial:
  assumes "distinct (map k xs)"
    and "\<And>x y a b. x \<in> set xs \<Longrightarrow> y \<in> set xs \<Longrightarrow> f x = Some a \<Longrightarrow> f y = Some b \<Longrightarrow> h a = h b \<Longrightarrow> k x = k y"
  shows "distinct (map h (List.map_filter f xs))"
  using assms
proof (induction xs)
  case (Cons x xs)
  have IH: "distinct (map h (List.map_filter f xs))" using Cons.IH Cons.prems by simp
  show ?case
  proof (cases "f x")
    case (Some a)
    have "h a \<notin> h ` set (List.map_filter f xs)"
    proof
      assume "h a \<in> h ` set (List.map_filter f xs)"
      then obtain y b where "y \<in> set xs" "f y = Some b" "h a = h b" by (force simp: List.map_filter_def)
      then have "k x = k y" using Cons.prems(2) Some by simp
      then show False using Cons.prems(1) \<open>y \<in> set xs\<close> by simp
    qed
    then show ?thesis using IH Some by (simp add: map_filter_simps)
  qed (simp add: map_filter_simps IH)
qed (simp add: map_filter_simps)

section \<open>Properties\<close>

theorem findEnclosingGroup_lowest:
  assumes "group_tree d"
  shows "findEnclosingGroup d resources = Some g \<longleftrightarrow>
    resources \<noteq> [] \<and> (\<forall>r\<in>set resources. scope_group d r \<noteq> None) \<and>
    (\<forall>r\<in>set resources. \<forall>h. scope_group d r = Some h \<longrightarrow> group_isAncestor d g h) \<and>
    (\<forall>a. (\<forall>r\<in>set resources. \<forall>h. scope_group d r = Some h \<longrightarrow> group_isAncestor d a h) \<longrightarrow> group_isAncestor d a g)"
proof (cases resources)
  case Nil
  then show ?thesis by (simp add: findEnclosingGroup_def)
next
  case (Cons r rs)
  show ?thesis
  proof (cases "scope_group d r")
    case None
    then show ?thesis by (simp add: findEnclosingGroup_def Cons enclose_step_def)
  next
    case (Some h)
    have low: "lowest_group d {h} h" using group_chain_self [OF assms] by (simp add: lowest_group_def)
    have "foldM (enclose_step d) resources None = foldM (enclose_step d) rs (Some h)"
      using Some by (simp add: Cons enclose_step_def)
    then have "findEnclosingGroup d resources = Some g \<longleftrightarrow> foldM (enclose_step d) rs (Some h) = Some (Some g)"
      by (auto simp: findEnclosingGroup_def Cons split: Option.bind_split_asm)
    also have "\<dots> \<longleftrightarrow> (\<forall>r\<in>set rs. scope_group d r \<noteq> None) \<and>
        lowest_group d ({h} \<union> {h. \<exists>r\<in>set rs. scope_group d r = Some h}) g"
      using enclose_steps [OF assms low, of rs "Some g"] by auto
    also have "{h} \<union> {h. \<exists>r\<in>set rs. scope_group d r = Some h} = {h. \<exists>r\<in>set resources. scope_group d r = Some h}"
      using Some Cons by auto
    also have "lowest_group d {h. \<exists>r\<in>set resources. scope_group d r = Some h} g \<longleftrightarrow>
        (\<forall>r\<in>set resources. \<forall>h. scope_group d r = Some h \<longrightarrow> group_isAncestor d g h) \<and>
        (\<forall>a. (\<forall>r\<in>set resources. \<forall>h. scope_group d r = Some h \<longrightarrow> group_isAncestor d a h) \<longrightarrow> group_isAncestor d a g)"
      unfolding lowest_group_def group_isAncestor_def by blast
    also have "(\<forall>r\<in>set rs. scope_group d r \<noteq> None) \<longleftrightarrow> resources \<noteq> [] \<and> (\<forall>r\<in>set resources. scope_group d r \<noteq> None)"
      using Some Cons by simp
    finally show ?thesis by simp
  qed
qed

theorem collect_candidates_distinct:
  assumes "collect_candidates op_stages units_attr d ir trip module_op = Some cs" and "distinct_ops module_op"
  shows "distinct (map cd_loop cs) \<and> distinct (map cd_pipeline cs)"
proof -
  let ?ps = "filter (\<lambda>x. class_of (fst x) = PipelineOp) (walk_around [] module_op)"
  let ?f = "findCandidate op_stages units_attr d ir trip"
  have cs: "cs = List.map_filter (\<lambda>x. the (?f x)) ?ps" "\<forall>x\<in>set ?ps. ?f x \<noteq> None"
    using collect_result [of ?f ?ps "[]" cs] assms(1) by (simp_all add: collect_candidates_def)
  have dist: "distinct (map (op_of \<circ> fst) ?ps)"
    using walk_around_distinct [OF assms(2)] by (rule distinct_map_filter)
  have loop: "\<exists>L. in_scope L (fst x) \<and> op_of L = cd_loop c \<and> L \<in> set (walk_post module_op) \<and> op_of (fst x) = cd_pipeline c"
    if x: "x \<in> set ?ps" "the (?f x) = Some c" for x c
  proof -
    obtain p anc where p: "x = (p, anc)" by (cases x)
    have f: "?f (p, anc) = success c" using cs(2) x p by force
    note c = findCandidate_success [OF f]
    have "0 < length (applicable_groups c)" using c(2) by linarith
    then have "cd_loop c \<in> set (map op_of (getPipelineEnclosingScope p anc))"
      using selectLoop_result [where n = "length (applicable_groups c)" and ir = ir and trip = trip
          and loops = "map op_of (getPipelineEnclosingScope p anc)"] c(4)
      by simp
    then obtain L where L: "L \<in> set (getPipelineEnclosingScope p anc)" "op_of L = cd_loop c" by auto
    have "(p, anc) \<in> set (walk_around [] module_op)" using x p by simp
    then have "held p anc" "set anc \<subseteq> set (walk_post module_op)"
      using walk_around_held [of module_op "[]"] walk_around_above [of p anc "[]" module_op] by simp_all
    then show ?thesis using enclosing_in_scope L scope_subset c(3) p by fastforce
  qed
  have same: "(op_of \<circ> fst) x = (op_of \<circ> fst) y"
    if xy: "x \<in> set ?ps" "y \<in> set ?ps" "the (?f x) = Some a" "the (?f y) = Some b" "cd_loop a = cd_loop b" for x y a b
  proof -
    obtain L where L: "in_scope L (fst x)" "op_of L = cd_loop a" "L \<in> set (walk_post module_op)"
      using loop [OF xy(1,3)] by blast
    obtain M where M: "in_scope M (fst y)" "op_of M = cd_loop b" "M \<in> set (walk_post module_op)"
      using loop [OF xy(2,4)] by blast
    have "op_of L = op_of M" using L(2) M(2) xy(5) by simp
    then have "L = M" using inj_onD [OF distinct_ops_inj [OF assms(2)] _ L(3) M(3)] by blast
    then have "fst x = fst y"
      using in_scope_unique [of L "fst x" "fst y"] L(1,3) M(1) distinct_ops_part [OF _ assms(2)] xy(1,2) by simp
    then show ?thesis by simp
  qed
  have pipe: "(op_of \<circ> fst) x = cd_pipeline a" if xa: "x \<in> set ?ps" "the (?f x) = Some a" for x a
    using loop [OF xa] by auto
  have "distinct (map cd_loop cs)" unfolding cs(1) by (rule distinct_map_partial [OF dist same])
  moreover have "distinct (map cd_pipeline cs)"
    unfolding cs(1) by (rule distinct_map_partial [OF dist]) (simp only: pipe)
  ultimately show ?thesis by blast
qed

theorem findCandidate_choice:
  assumes "findCandidate op_stages units_attr d ir trip (p, anc) = success c"
  defines "n \<equiv> length (applicable_groups c)" and "loops \<equiv> map op_of (getPipelineEnclosingScope p anc)"
  shows "(\<exists>units g. collectPipelineApplicableUnits op_stages units_attr p = Some units \<and>
      findEnclosingGroup d units = Some g \<and> distinct (applicable_groups c) \<and>
      set (applicable_groups c) = insert g {s \<in> set (block_groups d g). group_kind d s = group_kind d g}) \<and>
    2 \<le> n \<and> cd_loop c \<in> set loops \<and> isParallelLoop ir (cd_loop c) \<and>
    (case trip (cd_loop c) of
       None \<Rightarrow> cd_balance c = kBalanceUnknown \<and>
         (\<forall>l\<in>set loops. isParallelLoop ir l \<longrightarrow> (\<forall>t. trip l = Some t \<longrightarrow> t < int n))
     | Some t \<Rightarrow> int n \<le> t \<and> (cd_balance c = kBalanced \<longleftrightarrow> int n dvd t) \<and>
         (int n dvd t \<or> (\<forall>l\<in>set loops. isParallelLoop ir l \<longrightarrow> (\<forall>t. trip l = Some t \<and> int n \<le> t \<longrightarrow> \<not> int n dvd t))))"
proof -
  note F = findCandidate_success [OF assms(1)]
  obtain units g where u: "collectPipelineApplicableUnits op_stages units_attr p = Some units"
    "findEnclosingGroup d units = Some g" "applicable_groups c = getEquivalenceClass d g"
    using F(1) by blast
  have n: "2 \<le> n" "0 < n" using F(2) unfolding n_def by linarith+
  have l: "selectLoop ir trip loops n = Some (cd_loop c)" unfolding n_def loops_def by (rule F(4))
  have bal: "cd_balance c = (case trip (cd_loop c) of None \<Rightarrow> kBalanceUnknown
      | Some t \<Rightarrow> if t smod int n = 0 then kBalanced else kUnbalanced)" unfolding n_def by (rule F(5))
  have sel: "cd_loop c \<in> set loops" "isParallelLoop ir (cd_loop c)"
    "case trip (cd_loop c) of
       None \<Rightarrow> \<forall>l'\<in>set loops. isParallelLoop ir l' \<longrightarrow> (\<forall>t. trip l' = Some t \<longrightarrow> t < int n)
     | Some t \<Rightarrow> int n \<le> t \<and> (int n dvd t \<or>
         (\<forall>l'\<in>set loops. isParallelLoop ir l' \<longrightarrow> (\<forall>t'. trip l' = Some t' \<and> int n \<le> t' \<longrightarrow> \<not> int n dvd t')))"
    using selectLoop_result [OF n(2), where ir = ir and trip = trip and loops = loops] unfolding l option.case by blast+
  have "\<exists>units g. collectPipelineApplicableUnits op_stages units_attr p = Some units \<and>
      findEnclosingGroup d units = Some g \<and> distinct (applicable_groups c) \<and>
      set (applicable_groups c) = insert g {s \<in> set (block_groups d g). group_kind d s = group_kind d g}"
    using u equivalence_class by auto
  moreover have "case trip (cd_loop c) of
       None \<Rightarrow> cd_balance c = kBalanceUnknown \<and>
         (\<forall>l\<in>set loops. isParallelLoop ir l \<longrightarrow> (\<forall>t. trip l = Some t \<longrightarrow> t < int n))
     | Some t \<Rightarrow> int n \<le> t \<and> (cd_balance c = kBalanced \<longleftrightarrow> int n dvd t) \<and>
         (int n dvd t \<or> (\<forall>l\<in>set loops. isParallelLoop ir l \<longrightarrow> (\<forall>t. trip l = Some t \<and> int n \<le> t \<longrightarrow> \<not> int n dvd t)))"
  proof (cases "trip (cd_loop c)")
    case None
    then show ?thesis using sel(3) bal by simp
  next
    case (Some t)
    then have t: "int n \<le> t" using sel(3) by simp
    have "cd_balance c = kBalanced \<longleftrightarrow> int n dvd t"
      using n(2) bal t Some smod_pos [of "int n" t] by (auto simp: dvd_eq_mod_eq_0)
    then show ?thesis using sel(3) Some by simp
  qed
  ultimately show ?thesis using n(1) sel(1,2) by blast
qed

section \<open>Examples\<close>

text \<open>
  A function with a loop nest 1, 2 around pipeline 3, whose stage 4 has a loop 5 around pipeline 6,
  and a loop 8 around two pipelines.
\<close>

definition nest_module :: irop where
  "nest_module = IrOp 0 OtherOp [] []
     [IrOp 1 ForOp [] [] [IrOp 2 ForOp [] []
        [IrOp 3 PipelineOp [] [] [IrOp 4 StageOp [] [] [IrOp 5 ForOp [] [] [IrOp 6 PipelineOp [] [] [IrOp 7 StageOp [] [] []]]]]]],
      IrOp 8 ForOp [] [] [IrOp 9 PipelineOp [] [] [IrOp 10 StageOp [] [] []], IrOp 11 PipelineOp [] [] [IrOp 12 StageOp [] [] []]]]"

text \<open>Unit A sits in the groups 2 and 3 of a chip 1, where group 2 is aliased by group 4; B sits in group 2.\<close>

definition two_core_device :: device_groups where
  "two_core_device = \<lparr>has_instance = (\<lambda>r. r = ''A'' \<or> r = ''B''),
     instance_group = [''A'' \<mapsto> 4, ''B'' \<mapsto> 2],
     endpoint_alias = (\<lambda>r g. r = ''A'' \<and> g = 4),
     group_chain = (\<lambda>g. if g = 4 then [4, 2, 1] else if g = 2 then [2, 1] else if g = 3 then [3, 1] else [g]),
     group_kind = (\<lambda>g. if g = 2 \<or> g = 3 then ''core'' else ''other''),
     block_groups = (\<lambda>g. if g = 2 \<or> g = 3 then [2, 3] else [g])\<rparr>"

definition nest_loops :: loop_ir where
  "nest_loops = \<lparr>all_loops = [1, 2, 5, 8], loop_type_attr = (\<lambda>_. Some ParallelLoop), enclosing_loop = [2 \<mapsto> 1]\<rparr>"

definition nest_trips :: trips where
  "nest_trips = [1 \<mapsto> 7, 2 \<mapsto> 6]"

definition nest_units :: "op \<Rightarrow> attribute list option" where
  "nest_units q = Some (if q = 4 then [KindAttr ''A'', KindAttr ''B''] else [KindAttr ''B''])"

lemma nest_candidates:
  "map_option (map (\<lambda>c. (cd_pipeline c, cd_loop c, cd_balance c, applicable_groups c)))
     (collect_candidates (\<lambda>p. filter (\<lambda>o'. class_of o' = StageOp) (body_of p)) nest_units two_core_device nest_loops nest_trips nest_module) =
   Some [(3, 2, kBalanced, [2, 3]), (6, 5, kBalanceUnknown, [2, 3])]"
  by code_simp

theorem findEnclosingGroup_lowest_witness:
  "findEnclosingGroup two_core_device [''A'', ''B''] = Some 2 \<and> group_isAncestor two_core_device 2 2 \<and>
   findEnclosingGroup two_core_device [''A'', ''C''] = None"
proof -
  have "group_tree two_core_device"
    unfolding group_tree_def
  proof
    fix g show "\<exists>rest. group_chain two_core_device g = g # rest \<and>
        (\<forall>p ps. rest = p # ps \<longrightarrow> group_chain two_core_device p = rest)"
      by (auto simp: two_core_device_def)
  qed
  moreover have "findEnclosingGroup two_core_device [''A'', ''B''] = Some 2"
    "findEnclosingGroup two_core_device [''A'', ''C''] = None" "scope_group two_core_device ''B'' = Some 2" by code_simp+
  ultimately show ?thesis using findEnclosingGroup_lowest [of two_core_device "[''A'', ''B'']" 2] by simp
qed

theorem collect_candidates_distinct_witness:
  "\<exists>cs. collect_candidates (\<lambda>p. filter (\<lambda>o'. class_of o' = StageOp) (body_of p)) nest_units two_core_device nest_loops
     nest_trips nest_module = Some cs \<and> length cs = 2 \<and> distinct (map cd_loop cs)"
proof -
  obtain cs where cs: "collect_candidates (\<lambda>p. filter (\<lambda>o'. class_of o' = StageOp) (body_of p)) nest_units two_core_device
      nest_loops nest_trips nest_module = Some cs" "length cs = 2"
    using nest_candidates by fastforce
  have "distinct_ops nest_module" by code_simp
  then show ?thesis using collect_candidates_distinct [OF cs(1)] cs by blast
qed

theorem findCandidate_choice_witness:
  "\<exists>c. findCandidate (\<lambda>p. filter (\<lambda>o'. class_of o' = StageOp) (body_of p)) nest_units two_core_device nest_loops nest_trips
     (IrOp 9 PipelineOp [] [] [IrOp 4 StageOp [] [] []], [IrOp 2 ForOp [] [] [IrOp 9 PipelineOp [] [] [IrOp 4 StageOp [] [] []]]]) = success c \<and>
     isParallelLoop nest_loops (cd_loop c) \<and> 2 \<le> length (applicable_groups c)"
proof -
  let ?c = "findCandidate (\<lambda>p. filter (\<lambda>o'. class_of o' = StageOp) (body_of p)) nest_units two_core_device nest_loops nest_trips
     (IrOp 9 PipelineOp [] [] [IrOp 4 StageOp [] [] []], [IrOp 2 ForOp [] [] [IrOp 9 PipelineOp [] [] [IrOp 4 StageOp [] [] []]]])"
  have "map_option (map_option cd_loop) ?c = Some (Some 2)" by code_simp
  then obtain c where c: "?c = success c" by (cases ?c) auto
  then show ?thesis using findCandidate_choice [OF c] by blast
qed

end
