(* ===== verification/Reuse.thy ===== *)
theory Reuse
  imports Prelude
begin

text \<open>
  Which transfer of a pipeline can be hoisted out of the loops around it
  (\<open>lib/Dialect/KTDF/Analysis/Reuse.cpp\<close>), with the two scans it rests on: whether a value depends on
  an induction variable (\<open>lib/Analysis/InvarianceCheck.cpp\<close>) and whether a region writes to a memref
  or a view of it (\<open>lib/Analysis/WriteSetScan.cpp\<close>). The IR is given by what the code asks of it.
\<close>

section \<open>The IR\<close>

type_synonym ssa_val = nat
type_synonym ir_op = nat

text \<open>How a value is defined: an allocation, a result of a private section (with the value that its yield gives, if any), or otherwise.\<close>

datatype def_kind = AllocDef ir_op | PrivateDef "ssa_val option" | OtherDef

text \<open>What an operation writes: a transfer its destination (when it is a memref), a store its memref, a linalg operation its outputs.\<close>

datatype write_kind = TransferWrite bool ssa_val | StoreWrite ssa_val | LinalgWrite "ssa_val list" | NoWrite

record reuse_ir =
  defining_op :: "ssa_val \<Rightarrow> ir_op option"
  op_operands :: "ir_op \<Rightarrow> ssa_val list"
  op_results :: "ir_op \<Rightarrow> ssa_val list"
  value_users :: "ssa_val \<Rightarrow> ir_op list"
  is_view_op :: "ir_op \<Rightarrow> bool"
  write_of :: "ir_op \<Rightarrow> write_kind"
  def_kind_of :: "ssa_val \<Rightarrow> def_kind"
  region_ops :: "ir_op \<Rightarrow> ir_op list"
  induction_var :: "ir_op \<Rightarrow> ssa_val"

record transfer =
  tr_op :: ir_op
  tr_source :: ssa_val
  tr_dest :: ssa_val
  tr_dest_fifo :: bool
  source_indices :: "ssa_val list"
  dest_indices :: "ssa_val list"
  source_sizes :: "ssa_val list"
  dest_sizes :: "ssa_val list"

section \<open>Dependence on an induction variable\<close>

definition def_operands :: "reuse_ir \<Rightarrow> ssa_val \<Rightarrow> ssa_val list" where
  "def_operands ir v = (case defining_op ir v of None \<Rightarrow> [] | Some q \<Rightarrow> op_operands ir q)"

text \<open>\<open>dependsOnImpl\<close> on the values of a list one after the other, as in the loop over the operands.\<close>

partial_function (option) depends_loop ::
  "(ssa_val \<Rightarrow> ssa_val list) \<Rightarrow> ssa_val \<Rightarrow> ssa_val list \<Rightarrow> ssa_val set \<Rightarrow> (bool \<times> ssa_val set) option" where
  "depends_loop opnds iv vs visited =
     (case vs of
        [] \<Rightarrow> Some (False, visited)
      | v # rest \<Rightarrow>
          (if v = iv then Some (True, visited)
           else if v \<in> visited then depends_loop opnds iv rest visited
           else Option.bind (depends_loop opnds iv (opnds v) (insert v visited)) (\<lambda>r.
             if fst r then Some (True, snd r) else depends_loop opnds iv rest (snd r))))"

declare depends_loop.simps [code]

definition dependsOnImpl :: "reuse_ir \<Rightarrow> ssa_val \<Rightarrow> ssa_val \<Rightarrow> ssa_val set \<Rightarrow> (bool \<times> ssa_val set) option" where
  "dependsOnImpl ir v iv visited = depends_loop (def_operands ir) iv [v] visited"

definition ssaDependsOn :: "reuse_ir \<Rightarrow> ssa_val \<Rightarrow> ssa_val \<Rightarrow> bool option" where
  "ssaDependsOn ir v iv = map_option fst (dependsOnImpl ir v iv {})"

fun any_depends :: "reuse_ir \<Rightarrow> ssa_val \<Rightarrow> ssa_val list \<Rightarrow> bool option" where
  "any_depends ir iv [] = Some False"
| "any_depends ir iv (v # vs) = do { b \<leftarrow> ssaDependsOn ir v iv; if b then Some True else any_depends ir iv vs }"

definition transferIsInvariantWrt :: "reuse_ir \<Rightarrow> transfer \<Rightarrow> ssa_val \<Rightarrow> bool option" where
  "transferIsInvariantWrt ir t iv =
     do { b1 \<leftarrow> any_depends ir iv (source_indices t);
          if b1 then Some False else do {
          b2 \<leftarrow> any_depends ir iv (dest_indices t);
          if b2 then Some False else do {
          b3 \<leftarrow> any_depends ir iv (source_sizes t);
          if b3 then Some False else do {
          b4 \<leftarrow> any_depends ir iv (dest_sizes t);
          Some (\<not> b4) }}}}"

section \<open>Writes of a region\<close>

definition view_results :: "reuse_ir \<Rightarrow> ssa_val \<Rightarrow> ssa_val list" where
  "view_results ir v = concat (map (\<lambda>u. if is_view_op ir u then op_results ir u else []) (value_users ir v))"

partial_function (option) alias_loop ::
  "(ssa_val \<Rightarrow> ssa_val list) \<Rightarrow> ssa_val list \<Rightarrow> ssa_val set \<Rightarrow> ssa_val set option" where
  "alias_loop views worklist aliases =
     (if worklist = [] then Some aliases
      else if last worklist \<in> aliases then alias_loop views (butlast worklist) aliases
      else alias_loop views (butlast worklist @ views (last worklist)) (insert (last worklist) aliases))"

declare alias_loop.simps [code]

definition buildAliasSet :: "reuse_ir \<Rightarrow> ssa_val \<Rightarrow> ssa_val set option" where
  "buildAliasSet ir seed = alias_loop (view_results ir) [seed] {}"

definition opIsWriter :: "reuse_ir \<Rightarrow> ir_op \<Rightarrow> ssa_val set \<Rightarrow> bool" where
  "opIsWriter ir q aliases =
     (case write_of ir q of
        TransferWrite is_memref dest \<Rightarrow> is_memref \<and> dest \<in> aliases
      | StoreWrite m \<Rightarrow> m \<in> aliases
      | LinalgWrite outs \<Rightarrow> list_ex (\<lambda>v. v \<in> aliases) outs
      | NoWrite \<Rightarrow> False)"

definition regionWritesTo :: "reuse_ir \<Rightarrow> ir_op list \<Rightarrow> ssa_val \<Rightarrow> ir_op option \<Rightarrow> bool option" where
  "regionWritesTo ir region memref ignore =
     map_option (\<lambda>aliases. list_ex (\<lambda>q. Some q \<noteq> ignore \<and> opIsWriter ir q aliases) region) (buildAliasSet ir memref)"

section \<open>Candidates\<close>

partial_function (option) findUnderlyingAlloc :: "(ssa_val \<Rightarrow> def_kind) \<Rightarrow> ssa_val \<Rightarrow> ir_op option option" where
  "findUnderlyingAlloc kinds dest =
     (case kinds dest of
        AllocDef q \<Rightarrow> Some (Some q)
      | PrivateDef y \<Rightarrow> (case y of None \<Rightarrow> Some None | Some v \<Rightarrow> findUnderlyingAlloc kinds v)
      | OtherDef \<Rightarrow> Some None)"

declare findUnderlyingAlloc.simps [code]

definition definedInsideRegion :: "reuse_ir \<Rightarrow> ssa_val \<Rightarrow> ir_op list \<Rightarrow> bool" where
  "definedInsideRegion ir v region = (case defining_op ir v of None \<Rightarrow> False | Some q \<Rightarrow> q \<in> set region)"

text \<open>The four tests on one loop, in order; a test behind one that fails is not run.\<close>

definition legal_in_loop :: "reuse_ir \<Rightarrow> transfer \<Rightarrow> ir_op \<Rightarrow> bool option" where
  "legal_in_loop ir t loop =
     do { inv \<leftarrow> transferIsInvariantWrt ir t (induction_var ir loop);
          if \<not> inv then Some False else do {
          ws \<leftarrow> regionWritesTo ir (region_ops ir loop) (tr_source t) None;
          if ws then Some False else do {
          wd \<leftarrow> regionWritesTo ir (region_ops ir loop) (tr_dest t) (Some (tr_op t));
          if wd then Some False else
          Some (\<not> definedInsideRegion ir (tr_source t) (region_ops ir loop)) }}}"

fun legal_depth :: "reuse_ir \<Rightarrow> transfer \<Rightarrow> ir_op list \<Rightarrow> int \<Rightarrow> int \<Rightarrow> int option" where
  "legal_depth ir t [] i best = Some best"
| "legal_depth ir t (loop # loops) i best =
     do { ok \<leftarrow> legal_in_loop ir t loop;
          if ok then legal_depth ir t loops (i + 1) i else Some best }"

definition findOutermostLegalTargetDepth :: "reuse_ir \<Rightarrow> transfer \<Rightarrow> ir_op list \<Rightarrow> int option" where
  "findOutermostLegalTargetDepth ir t loops = legal_depth ir t loops 0 (- 1)"

record hoist_candidate =
  hc_transfer :: transfer
  donor_stage :: ir_op
  target_loop :: ir_op

definition candidate_step ::
  "reuse_ir \<Rightarrow> ir_op list \<Rightarrow> ir_op \<times> transfer \<Rightarrow> hoist_candidate option \<times> int \<Rightarrow> (hoist_candidate option \<times> int) option" where
  "candidate_step ir loops x s =
     (let (stage, t) = x; (best_candidate, best_depth) = s in
      if tr_dest_fifo t then Some s
      else do { a \<leftarrow> findUnderlyingAlloc (def_kind_of ir) (tr_dest t);
                if a = None then Some s
                else do { depth \<leftarrow> findOutermostLegalTargetDepth ir t loops;
                          Some (if depth < 0 then s
                                else if depth > best_depth
                                then (Some \<lparr>hc_transfer = t, donor_stage = stage, target_loop = loops ! nat depth\<rparr>, depth)
                                else s) }})"

text \<open>The transfers of the stages of the pipeline in the order of the walks, each with its stage; the loops of its scope.\<close>

definition findFirstCandidate :: "reuse_ir \<Rightarrow> ir_op list \<Rightarrow> (ir_op \<times> transfer) list \<Rightarrow> hoist_candidate outcome" where
  "findFirstCandidate ir loops transfers =
     (if loops = [] then failure
      else map_option fst (foldM (candidate_step ir loops) transfers (None, - 1)))"

section \<open>Reachable values\<close>

definition value_rel :: "('a \<Rightarrow> 'a list) \<Rightarrow> ('a \<times> 'a) set" where
  "value_rel f = {(v, w). w \<in> set (f v)}"

definition reach :: "('a \<Rightarrow> 'a list) \<Rightarrow> 'a \<Rightarrow> 'a set" where
  "reach f v = {w. (v, w) \<in> (value_rel f)\<^sup>*}"

lemma reach_self: "v \<in> reach f v"
  by (simp add: reach_def)

lemma reach_step: "w \<in> reach f v \<Longrightarrow> x \<in> set (f w) \<Longrightarrow> x \<in> reach f v"
  unfolding reach_def value_rel_def by (auto intro: rtrancl_into_rtrancl)

lemma reach_first: "w \<in> set (f v) \<Longrightarrow> x \<in> reach f w \<Longrightarrow> x \<in> reach f v"
  unfolding reach_def value_rel_def by (auto intro: converse_rtrancl_into_rtrancl)

lemma reach_closed:
  assumes "v \<in> A" and "\<And>w. w \<in> A \<Longrightarrow> set (f w) \<subseteq> A"
  shows "reach f v \<subseteq> A"
proof
  fix x assume "x \<in> reach f v"
  then have "(v, x) \<in> (value_rel f)\<^sup>*" by (simp add: reach_def)
  then show "x \<in> A" using assms(1) by (induction rule: rtrancl_induct) (use assms(2) in \<open>auto simp: value_rel_def\<close>)
qed

text \<open>Only finitely many values have successors, so finitely many are reachable.\<close>

lemma finite_reach:
  assumes "finite {v. f v \<noteq> []}"
  shows "finite (reach f v)"
proof -
  have "set (f w) \<subseteq> (\<Union>u\<in>{u. f u \<noteq> []}. set (f u))" for w by (cases "f w = []") auto
  then have "reach f v \<subseteq> {v} \<union> (\<Union>w\<in>{w. f w \<noteq> []}. set (f w))"
    by (intro reach_closed) blast+
  then show ?thesis using assms by (auto intro: finite_subset)
qed

lemma depends_loop_result:
  assumes N: "finite N" "\<forall>w\<in>N. set (f w) \<subseteq> N"
  shows "V \<subseteq> N \<Longrightarrow> set vs \<subseteq> N \<Longrightarrow> \<exists>b V'. depends_loop f iv vs V = Some (b, V') \<and> V \<subseteq> V' \<and> V' \<subseteq> N \<and>
    (b \<longrightarrow> (\<exists>v\<in>set vs. iv \<in> reach f v)) \<and>
    (\<not> b \<longrightarrow> set vs \<subseteq> V' \<and> (iv \<notin> V \<longrightarrow> iv \<notin> V') \<and> (\<forall>w\<in>V' - V. set (f w) \<subseteq> V'))"
proof (induction "card (N - V)" arbitrary: vs V rule: less_induct)
  case less
  note outer = less.hyps
  show ?case using less.prems
  proof (induction vs)
    case Nil
    then show ?case by (intro exI [of _ False] exI [of _ V]) (simp add: depends_loop.simps)
  next
    case (Cons v rest)
    consider "v = iv" | "v \<noteq> iv" "v \<in> V" | "v \<noteq> iv" "v \<notin> V" by blast
    then show ?case
    proof cases
      case 1
      then have "depends_loop f iv (v # rest) V = Some (True, V)" by (subst depends_loop.simps) simp
      then show ?thesis using Cons.prems 1 reach_self [of v f] by (intro exI [of _ True] exI [of _ V]) auto
    next
      case 2
      then have "depends_loop f iv (v # rest) V = depends_loop f iv rest V" by (subst depends_loop.simps) simp
      moreover obtain b V' where "depends_loop f iv rest V = Some (b, V')" "V \<subseteq> V'" "V' \<subseteq> N"
        "b \<longrightarrow> (\<exists>v\<in>set rest. iv \<in> reach f v)"
        "\<not> b \<longrightarrow> set rest \<subseteq> V' \<and> (iv \<notin> V \<longrightarrow> iv \<notin> V') \<and> (\<forall>w\<in>V' - V. set (f w) \<subseteq> V')"
      proof -
        have "set rest \<subseteq> N" using Cons.prems(2) by simp
        from Cons.IH [OF Cons.prems(1) this] show ?thesis by (elim exE conjE) (rule that)
      qed
      ultimately show ?thesis using 2 by (intro exI [of _ b] exI [of _ V']) auto
    next
      case 3
      have v: "v \<in> N" using Cons.prems by simp
      have "N - insert v V \<subset> N - V" using v 3 by blast
      then have c1: "card (N - insert v V) < card (N - V)" using N(1) by (simp add: psubset_card_mono)
      have sub: "insert v V \<subseteq> N" "set (f v) \<subseteq> N" using v Cons.prems(1) N(2) by auto
      obtain b1 V1 where r1: "depends_loop f iv (f v) (insert v V) = Some (b1, V1)" "insert v V \<subseteq> V1" "V1 \<subseteq> N"
        "b1 \<Longrightarrow> \<exists>w\<in>set (f v). iv \<in> reach f w"
        "\<not> b1 \<Longrightarrow> set (f v) \<subseteq> V1 \<and> (iv \<notin> insert v V \<longrightarrow> iv \<notin> V1) \<and> (\<forall>w\<in>V1 - insert v V. set (f w) \<subseteq> V1)"
        using outer [OF c1 sub] by blast
      show ?thesis
      proof (cases b1)
        case True
        then have "depends_loop f iv (v # rest) V = Some (True, V1)"
          using 3 r1(1) by (simp add: depends_loop.simps [of f iv "v # rest"])
        moreover have "iv \<in> reach f v"
        proof -
          obtain w where w: "w \<in> set (f v)" "iv \<in> reach f w" using r1(4) [OF True] by blast
          then show ?thesis by (rule reach_first)
        qed
        ultimately show ?thesis using r1(2,3) by auto
      next
        case False
        have "N - V1 \<subset> N - V" using r1(2) v 3(2) by blast
        then have c2: "card (N - V1) < card (N - V)" using N(1) by (simp add: psubset_card_mono)
        obtain b2 V2 where r2: "depends_loop f iv rest V1 = Some (b2, V2)" "V1 \<subseteq> V2" "V2 \<subseteq> N"
          "b2 \<Longrightarrow> \<exists>w\<in>set rest. iv \<in> reach f w"
          "\<not> b2 \<Longrightarrow> set rest \<subseteq> V2 \<and> (iv \<notin> V1 \<longrightarrow> iv \<notin> V2) \<and> (\<forall>w\<in>V2 - V1. set (f w) \<subseteq> V2)"
          using outer [OF c2 r1(3), of rest] Cons.prems(2) by auto
        have "depends_loop f iv (v # rest) V = Some (b2, V2)"
          using 3 r1(1) False r2(1) by (simp add: depends_loop.simps [of f iv "v # rest"])
        moreover have "set (v # rest) \<subseteq> V2 \<and> (iv \<notin> V \<longrightarrow> iv \<notin> V2) \<and> (\<forall>w\<in>V2 - V. set (f w) \<subseteq> V2)" if "\<not> b2"
        proof (intro conjI ballI impI)
          show "set (v # rest) \<subseteq> V2" using r1(2) r2(2) r2(5) [OF that] by auto
          show "iv \<notin> V2" if "iv \<notin> V" using r1(5) [OF False] r2(5) [OF \<open>\<not> b2\<close>] 3(1) that by blast
          fix w assume w: "w \<in> V2 - V"
          show "set (f w) \<subseteq> V2"
            using r1(5) [OF False] r2(2) r2(5) [OF that] w by (cases "w = v"; cases "w \<in> V1") blast+
        qed
        ultimately show ?thesis using r1(2) r2(2-4) by auto
      qed
    qed
  qed
qed

lemma ssaDependsOn_result:
  assumes "finite {v. def_operands ir v \<noteq> []}"
  shows "ssaDependsOn ir v iv = Some (iv \<in> reach (def_operands ir) v)"
proof -
  let ?f = "def_operands ir"
  have N: "finite (reach ?f v)" using finite_reach [OF assms] .
  have cl: "\<forall>w\<in>reach ?f v. set (?f w) \<subseteq> reach ?f v" using reach_step by fast
  have sub: "{} \<subseteq> reach ?f v" "set [v] \<subseteq> reach ?f v" using reach_self by auto
  obtain b V' where r0: "depends_loop ?f iv [v] {} = Some (b, V')" "b \<longrightarrow> (\<exists>v\<in>set [v]. iv \<in> reach ?f v)"
    "\<not> b \<longrightarrow> set [v] \<subseteq> V' \<and> (iv \<notin> {} \<longrightarrow> iv \<notin> V') \<and> (\<forall>w\<in>V' - {}. set (?f w) \<subseteq> V')"
    using depends_loop_result [of "reach ?f v" ?f "{}" "[v]" iv, OF N cl sub] by (elim exE conjE) (rule that)
  have r: "depends_loop ?f iv [v] {} = Some (b, V')" "b \<Longrightarrow> iv \<in> reach ?f v"
    "\<not> b \<Longrightarrow> v \<in> V' \<and> iv \<notin> V' \<and> (\<forall>w\<in>V'. set (?f w) \<subseteq> V')"
    using r0 by auto
  have "iv \<notin> reach ?f v" if "\<not> b"
    using reach_closed [of v V' ?f] r(3) [OF that] by blast
  then have "b \<longleftrightarrow> iv \<in> reach ?f v" using r(2) by blast
  then show ?thesis using r(1) by (simp add: ssaDependsOn_def dependsOnImpl_def)
qed

lemma alias_loop_result:
  assumes N: "finite N" "\<forall>w\<in>N. set (f w) \<subseteq> N"
  shows "A \<subseteq> N \<Longrightarrow> set wl \<subseteq> N \<Longrightarrow> \<forall>w\<in>A. set (f w) \<subseteq> A \<union> set wl \<Longrightarrow>
    \<exists>A'. alias_loop f wl A = Some A' \<and> A \<union> set wl \<subseteq> A' \<and> A' \<subseteq> A \<union> (\<Union>v\<in>set wl. reach f v) \<and> (\<forall>w\<in>A'. set (f w) \<subseteq> A')"
proof (induction "card (N - A)" arbitrary: wl A rule: less_induct)
  case less
  note outer = less.hyps
  show ?case using less.prems
  proof (induction wl rule: rev_induct)
    case Nil
    then show ?case by (simp add: alias_loop.simps)
  next
    case (snoc v wl)
    show ?case
    proof (cases "v \<in> A")
      case True
      then have "alias_loop f (wl @ [v]) A = alias_loop f wl A" by (simp add: alias_loop.simps [of f "wl @ [v]"])
      moreover have "\<forall>w\<in>A. set (f w) \<subseteq> A \<union> set wl" using snoc.prems(3) True by auto
      then obtain A' where "alias_loop f wl A = Some A'" "A \<union> set wl \<subseteq> A'" "A' \<subseteq> A \<union> (\<Union>v\<in>set wl. reach f v)"
        "\<forall>w\<in>A'. set (f w) \<subseteq> A'"
        using snoc.IH snoc.prems(1,2) by auto
      ultimately show ?thesis using True by auto
    next
      case False
      have v: "v \<in> N" using snoc.prems(2) by simp
      have "N - insert v A \<subset> N - A" using v False by blast
      then have c: "card (N - insert v A) < card (N - A)" using N(1) by (simp add: psubset_card_mono)
      have sub: "insert v A \<subseteq> N" "set (wl @ f v) \<subseteq> N" "\<forall>w\<in>insert v A. set (f w) \<subseteq> insert v A \<union> set (wl @ f v)"
        using v snoc.prems N(2) by auto
      obtain A' where A': "alias_loop f (wl @ f v) (insert v A) = Some A'" "insert v A \<union> set (wl @ f v) \<subseteq> A'"
        "A' \<subseteq> insert v A \<union> (\<Union>w\<in>set (wl @ f v). reach f w)" "\<forall>w\<in>A'. set (f w) \<subseteq> A'"
        using outer [OF c sub] by blast
      have 1: "(\<Union>w\<in>set (f v). reach f w) \<subseteq> reach f v" using reach_first by fast
      have 2: "(\<Union>w\<in>set (wl @ f v). reach f w) = (\<Union>w\<in>set wl. reach f w) \<union> (\<Union>w\<in>set (f v). reach f w)"
        "(\<Union>w\<in>set (wl @ [v]). reach f w) = (\<Union>w\<in>set wl. reach f w) \<union> reach f v"
        by (simp_all only: set_append UN_Un list.set UN_insert UN_empty Un_empty_right)
      have "A' \<subseteq> insert v A \<union> ((\<Union>w\<in>set wl. reach f w) \<union> reach f v)" using A'(3) 1 unfolding 2(1) by (meson Un_mono order_refl order_trans)
      moreover have "B \<subseteq> insert v A \<union> (X \<union> R) \<Longrightarrow> v \<in> R \<Longrightarrow> B \<subseteq> A \<union> (X \<union> R)" for B X R by blast
      ultimately have "A' \<subseteq> A \<union> (\<Union>w\<in>set (wl @ [v]). reach f w)" unfolding 2(2) using reach_self by metis
      moreover have "alias_loop f (wl @ [v]) A = Some A'"
        using False A'(1) by (subst alias_loop.simps) simp
      moreover have "A \<union> set (wl @ [v]) \<subseteq> A'" using A'(2) by auto
      ultimately show ?thesis using A'(4) by blast
    qed
  qed
qed

lemma buildAliasSet_result:
  assumes "finite {v. view_results ir v \<noteq> []}"
  shows "buildAliasSet ir seed = Some (reach (view_results ir) seed)"
proof -
  let ?f = "view_results ir"
  have N: "finite (reach ?f seed)" using finite_reach [OF assms] .
  have cl: "\<forall>w\<in>reach ?f seed. set (?f w) \<subseteq> reach ?f seed" using reach_step by fast
  have sub: "{} \<subseteq> reach ?f seed" "set [seed] \<subseteq> reach ?f seed" "\<forall>w\<in>{}. set (?f w) \<subseteq> {} \<union> set [seed]"
    using reach_self by auto
  obtain A' where A': "alias_loop ?f [seed] {} = Some A'" "{} \<union> set [seed] \<subseteq> A'"
    "A' \<subseteq> {} \<union> (\<Union>v\<in>set [seed]. reach ?f v)" "\<forall>w\<in>A'. set (?f w) \<subseteq> A'"
    using alias_loop_result [of "reach ?f seed" ?f "{}" "[seed]", OF N cl sub] by (elim exE conjE) (rule that)
  have in': "seed \<in> A'" and out: "A' \<subseteq> reach ?f seed" using A'(2,3) by simp_all
  have "reach ?f seed \<subseteq> A'" by (rule reach_closed [OF in']) (use A'(4) in blast)
  then have "A' = reach ?f seed" using out by (rule subset_antisym [rotated])
  then show ?thesis using A'(1) by (simp add: buildAliasSet_def)
qed

section \<open>Legal loops\<close>

definition finite_ir :: "reuse_ir \<Rightarrow> bool" where
  "finite_ir ir \<longleftrightarrow> finite {v. def_operands ir v \<noteq> []} \<and> finite {v. view_results ir v \<noteq> []}"

definition writes_to :: "reuse_ir \<Rightarrow> ir_op \<Rightarrow> ssa_val \<Rightarrow> bool" where
  "writes_to ir q m \<longleftrightarrow> opIsWriter ir q (reach (view_results ir) m)"

definition invariant_values :: "transfer \<Rightarrow> ssa_val set" where
  "invariant_values t = set (source_indices t) \<union> set (dest_indices t) \<union> set (source_sizes t) \<union> set (dest_sizes t)"

definition legal :: "reuse_ir \<Rightarrow> transfer \<Rightarrow> ir_op \<Rightarrow> bool" where
  "legal ir t loop \<longleftrightarrow>
     (\<forall>v\<in>invariant_values t. induction_var ir loop \<notin> reach (def_operands ir) v) \<and>
     (\<forall>q\<in>set (region_ops ir loop). \<not> writes_to ir q (tr_source t) \<and> (q \<noteq> tr_op t \<longrightarrow> \<not> writes_to ir q (tr_dest t))) \<and>
     (\<forall>q. defining_op ir (tr_source t) = Some q \<longrightarrow> q \<notin> set (region_ops ir loop))"

lemma any_depends_result:
  "finite_ir ir \<Longrightarrow> any_depends ir iv vs = Some (\<exists>v\<in>set vs. iv \<in> reach (def_operands ir) v)"
  by (induction vs) (auto simp: ssaDependsOn_result finite_ir_def)

lemma regionWritesTo_result:
  assumes "finite_ir ir"
  shows "regionWritesTo ir region m ignore = Some (\<exists>q\<in>set region. Some q \<noteq> ignore \<and> writes_to ir q m)"
  using buildAliasSet_result [of ir m] assms
  by (simp add: regionWritesTo_def finite_ir_def writes_to_def list_ex_iff)

lemma legal_in_loop_result:
  assumes "finite_ir ir"
  shows "legal_in_loop ir t loop = Some (legal ir t loop)"
proof -
  have "transferIsInvariantWrt ir t iv = Some (\<forall>v\<in>invariant_values t. iv \<notin> reach (def_operands ir) v)" for iv
    by (auto simp: transferIsInvariantWrt_def any_depends_result [OF assms] invariant_values_def)
  then show ?thesis
    by (auto simp: legal_in_loop_def regionWritesTo_result [OF assms] legal_def definedInsideRegion_def split: option.split)
qed

lemma legal_depth_result:
  assumes "finite_ir ir"
  shows "legal_depth ir t loops (int i) (int i - 1) = Some (int (i + length (takeWhile (legal ir t) loops)) - 1)"
proof (induction loops arbitrary: i)
  case (Cons l loops)
  then show ?case using Cons.IH [of "Suc i"] by (simp add: legal_in_loop_result [OF assms] algebra_simps)
qed simp

definition depth :: "reuse_ir \<Rightarrow> ir_op list \<Rightarrow> transfer \<Rightarrow> nat" where
  "depth ir loops t = length (takeWhile (legal ir t) loops)"

lemma findOutermostLegalTargetDepth_result:
  "finite_ir ir \<Longrightarrow> findOutermostLegalTargetDepth ir t loops = Some (int (depth ir loops t) - 1)"
  using legal_depth_result [of ir t loops 0] by (simp add: findOutermostLegalTargetDepth_def depth_def)

text \<open>The allocation behind a value, through the yields of private sections.\<close>

inductive underlying :: "(ssa_val \<Rightarrow> def_kind) \<Rightarrow> ssa_val \<Rightarrow> ir_op \<Rightarrow> bool" for kinds where
  underlying_alloc: "kinds v = AllocDef q \<Longrightarrow> underlying kinds v q"
| underlying_private: "kinds v = PrivateDef (Some y) \<Longrightarrow> underlying kinds y q \<Longrightarrow> underlying kinds v q"

inductive_cases underlying_cases: "underlying kinds v q"

text \<open>A yielded value is defined in the private section, before its result.\<close>

definition ranked_yields :: "(ssa_val \<Rightarrow> def_kind) \<Rightarrow> (ssa_val \<Rightarrow> nat) \<Rightarrow> bool" where
  "ranked_yields kinds rank \<longleftrightarrow> (\<forall>v y. kinds v = PrivateDef (Some y) \<longrightarrow> rank y < rank v)"

lemma findUnderlyingAlloc_result:
  assumes "ranked_yields kinds rank"
  shows "\<exists>r. findUnderlyingAlloc kinds v = Some r \<and> (\<forall>q. r = Some q \<longleftrightarrow> underlying kinds v q)"
proof (induction "rank v" arbitrary: v rule: less_induct)
  case less
  show ?case
  proof (cases "kinds v")
    case (AllocDef q)
    then show ?thesis
      by (subst findUnderlyingAlloc.simps) (auto intro: underlying_alloc elim: underlying_cases)
  next
    case OtherDef
    then show ?thesis by (subst findUnderlyingAlloc.simps) (auto elim: underlying_cases)
  next
    case (PrivateDef y)
    show ?thesis
    proof (cases y)
      case None
      then show ?thesis using PrivateDef by (subst findUnderlyingAlloc.simps) (auto elim: underlying_cases)
    next
      case (Some x)
      have "rank x < rank v" using assms PrivateDef Some by (simp add: ranked_yields_def)
      then obtain r where "findUnderlyingAlloc kinds x = Some r" "\<forall>q. r = Some q \<longleftrightarrow> underlying kinds x q"
        using less by blast
      then show ?thesis using PrivateDef Some
        by (subst findUnderlyingAlloc.simps) (auto intro: underlying_private elim: underlying_cases)
    qed
  qed
qed

section \<open>The best candidate\<close>

definition hoistable :: "reuse_ir \<Rightarrow> ir_op list \<Rightarrow> transfer \<Rightarrow> bool" where
  "hoistable ir loops t \<longleftrightarrow> \<not> tr_dest_fifo t \<and> (\<exists>q. underlying (def_kind_of ir) (tr_dest t) q) \<and> 0 < depth ir loops t"

lemma candidate_step_result:
  assumes "finite_ir ir" and "ranked_yields (def_kind_of ir) rank" and "-1 \<le> bd"
  shows "candidate_step ir loops (st, t) (best, bd) = Some
    (if hoistable ir loops t \<and> bd < int (depth ir loops t) - 1
     then (Some \<lparr>hc_transfer = t, donor_stage = st, target_loop = loops ! (depth ir loops t - 1)\<rparr>, int (depth ir loops t) - 1)
     else (best, bd))"
proof -
  obtain r where r: "findUnderlyingAlloc (def_kind_of ir) (tr_dest t) = Some r"
    "\<forall>q. r = Some q \<longleftrightarrow> underlying (def_kind_of ir) (tr_dest t) q"
    using findUnderlyingAlloc_result [OF assms(2)] by blast
  have "r = None \<longleftrightarrow> \<not> (\<exists>q. underlying (def_kind_of ir) (tr_dest t) q)" using r(2) by (cases r) auto
  moreover have "nat (int (depth ir loops t) - 1) = depth ir loops t - 1" by simp
  ultimately show ?thesis
    using assms(3) by (auto simp: candidate_step_def hoistable_def r(1) findOutermostLegalTargetDepth_result [OF assms(1)])
qed

lemma candidate_steps:
  assumes ir: "finite_ir ir" "ranked_yields (def_kind_of ir) rank"
  shows "\<exists>best bd. foldM (candidate_step ir loops) xs (None, - 1) = Some (best, bd) \<and> - 1 \<le> bd \<and>
    (\<forall>(st, t)\<in>set xs. hoistable ir loops t \<longrightarrow> int (depth ir loops t) - 1 \<le> bd) \<and>
    (case best of
       None \<Rightarrow> bd = - 1
     | Some c \<Rightarrow> \<exists>as st t bs. xs = as @ (st, t) # bs \<and> hoistable ir loops t \<and> bd = int (depth ir loops t) - 1 \<and>
         c = \<lparr>hc_transfer = t, donor_stage = st, target_loop = loops ! (depth ir loops t - 1)\<rparr> \<and>
         (\<forall>(st', t')\<in>set as. hoistable ir loops t' \<longrightarrow> depth ir loops t' < depth ir loops t))"
proof (induction xs rule: rev_induct)
  case (snoc x xs)
  obtain st t where x: "x = (st, t)" by (cases x)
  obtain best bd where IH: "foldM (candidate_step ir loops) xs (None, - 1) = Some (best, bd)" "- 1 \<le> bd"
    "\<forall>(st, t)\<in>set xs. hoistable ir loops t \<longrightarrow> int (depth ir loops t) - 1 \<le> bd"
    "case best of
       None \<Rightarrow> bd = - 1
     | Some c \<Rightarrow> \<exists>as st t bs. xs = as @ (st, t) # bs \<and> hoistable ir loops t \<and> bd = int (depth ir loops t) - 1 \<and>
         c = \<lparr>hc_transfer = t, donor_stage = st, target_loop = loops ! (depth ir loops t - 1)\<rparr> \<and>
         (\<forall>(st', t')\<in>set as. hoistable ir loops t' \<longrightarrow> depth ir loops t' < depth ir loops t)"
    using snoc.IH by (elim exE conjE) (rule that)
  note step = candidate_step_result [OF ir IH(2), of loops st t best]
  show ?case
  proof (cases "hoistable ir loops t \<and> bd < int (depth ir loops t) - 1")
    case True
    let ?c = "\<lparr>hc_transfer = t, donor_stage = st, target_loop = loops ! (depth ir loops t - 1)\<rparr>"
    have run: "foldM (candidate_step ir loops) (xs @ [x]) (None, - 1) = Some (Some ?c, int (depth ir loops t) - 1)"
      using IH(1) step True by (simp add: x foldM_append)
    moreover have "\<forall>(st', t')\<in>set (xs @ [x]). hoistable ir loops t' \<longrightarrow> int (depth ir loops t') - 1 \<le> int (depth ir loops t) - 1"
      using IH(3) True by (fastforce simp: x)
    moreover have "\<forall>(st', t')\<in>set xs. hoistable ir loops t' \<longrightarrow> depth ir loops t' < depth ir loops t"
      using IH(3) True by fastforce
    ultimately show ?thesis
      using True x by (intro exI [of _ "Some ?c"] exI [of _ "int (depth ir loops t) - 1"]) auto
  next
    case False
    then have run: "foldM (candidate_step ir loops) (xs @ [x]) (None, - 1) = Some (best, bd)"
      using IH(1) step by (auto simp: x foldM_append)
    moreover have "\<forall>(st', t')\<in>set (xs @ [x]). hoistable ir loops t' \<longrightarrow> int (depth ir loops t') - 1 \<le> bd"
      using IH(3) False by (auto simp: x)
    moreover have "case best of
       None \<Rightarrow> bd = - 1
     | Some c \<Rightarrow> \<exists>as st t bs. xs @ [x] = as @ (st, t) # bs \<and> hoistable ir loops t \<and> bd = int (depth ir loops t) - 1 \<and>
         c = \<lparr>hc_transfer = t, donor_stage = st, target_loop = loops ! (depth ir loops t - 1)\<rparr> \<and>
         (\<forall>(st', t')\<in>set as. hoistable ir loops t' \<longrightarrow> depth ir loops t' < depth ir loops t)"
      using IH(4) by (cases best) (simp, fastforce)
    ultimately show ?thesis using IH(2) by blast
  qed
qed simp

lemma legal_split:
  assumes "0 < depth ir loops t"
  shows "\<exists>inner outer. loops = inner @ loops ! (depth ir loops t - 1) # outer \<and>
    (\<forall>loop\<in>set (inner @ [loops ! (depth ir loops t - 1)]). legal ir t loop) \<and> (outer \<noteq> [] \<longrightarrow> \<not> legal ir t (hd outer))"
proof -
  let ?T = "takeWhile (legal ir t) loops" and ?D = "dropWhile (legal ir t) loops"
  have T: "?T \<noteq> []" using assms by (auto simp: depth_def)
  then have "?T = butlast ?T @ [last ?T]" by simp
  then have split: "loops = butlast ?T @ last ?T # ?D"
    using takeWhile_dropWhile_id [of "legal ir t" loops] by (metis append.assoc append_Cons append_Nil)
  have "last ?T = loops ! (depth ir loops t - 1)"
    using T by (simp add: depth_def last_conv_nth takeWhile_nth)
  moreover have "\<forall>loop\<in>set ?T. legal ir t loop" by (auto dest: set_takeWhileD)
  then have "\<forall>loop\<in>set (butlast ?T @ [last ?T]). legal ir t loop" using T by simp
  moreover have "?D \<noteq> [] \<longrightarrow> \<not> legal ir t (hd ?D)" by (simp add: hd_dropWhile)
  ultimately show ?thesis using split by (intro exI [of _ "butlast ?T"] exI [of _ ?D]) simp
qed

section \<open>Properties\<close>

text \<open>C29: The search for a transfer to hoist returns; it finds nothing exactly when no transfer can be
  hoisted, and otherwise the first among the transfers with the outermost legal target, with
  every loop up to the target legal and the next one not.\<close>

theorem findFirstCandidate_deepest:
  assumes "finite_ir ir" and "ranked_yields (def_kind_of ir) rank"
  shows "\<exists>r. findFirstCandidate ir loops transfers = Some r \<and>
    (case r of
       None \<Rightarrow> \<forall>(st, t)\<in>set transfers. \<not> hoistable ir loops t
     | Some c \<Rightarrow> \<exists>as bs. transfers = as @ (donor_stage c, hc_transfer c) # bs \<and> hoistable ir loops (hc_transfer c) \<and>
         (\<forall>(st, t)\<in>set transfers. hoistable ir loops t \<longrightarrow> depth ir loops t \<le> depth ir loops (hc_transfer c)) \<and>
         (\<forall>(st, t)\<in>set as. hoistable ir loops t \<longrightarrow> depth ir loops t < depth ir loops (hc_transfer c)) \<and>
         (\<exists>inner outer. loops = inner @ target_loop c # outer \<and> length inner < length loops \<and>
            (\<forall>loop\<in>set (inner @ [target_loop c]). legal ir (hc_transfer c) loop) \<and>
            (outer \<noteq> [] \<longrightarrow> \<not> legal ir (hc_transfer c) (hd outer))))"
proof (cases "loops = []")
  case True
  then show ?thesis
    by (intro exI [of _ None]) (auto simp: findFirstCandidate_def hoistable_def depth_def)
next
  case False
  obtain best bd where run: "foldM (candidate_step ir loops) transfers (None, - 1) = Some (best, bd)" "- 1 \<le> bd"
    "\<forall>(st, t)\<in>set transfers. hoistable ir loops t \<longrightarrow> int (depth ir loops t) - 1 \<le> bd"
    "case best of
       None \<Rightarrow> bd = - 1
     | Some c \<Rightarrow> \<exists>as st t bs. transfers = as @ (st, t) # bs \<and> hoistable ir loops t \<and> bd = int (depth ir loops t) - 1 \<and>
         c = \<lparr>hc_transfer = t, donor_stage = st, target_loop = loops ! (depth ir loops t - 1)\<rparr> \<and>
         (\<forall>(st', t')\<in>set as. hoistable ir loops t' \<longrightarrow> depth ir loops t' < depth ir loops t)"
    using candidate_steps [OF assms, of loops transfers] by (elim exE conjE) (rule that)
  have res: "findFirstCandidate ir loops transfers = Some best" using False run(1) by (simp add: findFirstCandidate_def)
  show ?thesis
  proof (cases best)
    case None
    then have "bd = - 1" using run(4) by simp
    then have "\<forall>(st, t)\<in>set transfers. \<not> hoistable ir loops t" using run(3) by (fastforce simp: hoistable_def)
    then show ?thesis using res None by auto
  next
    case (Some c)
    then obtain as st t bs where c: "transfers = as @ (st, t) # bs" "hoistable ir loops t" "bd = int (depth ir loops t) - 1"
      "c = \<lparr>hc_transfer = t, donor_stage = st, target_loop = loops ! (depth ir loops t - 1)\<rparr>"
      "\<forall>(st', t')\<in>set as. hoistable ir loops t' \<longrightarrow> depth ir loops t' < depth ir loops t"
      using run(4) by (simp only: option.case) (elim exE conjE, rule that)
    have top: "\<forall>(st, t')\<in>set transfers. hoistable ir loops t' \<longrightarrow> depth ir loops t' \<le> depth ir loops t"
      using run(3) c(3) by fastforce
    obtain inner outer where l: "loops = inner @ target_loop c # outer" "\<forall>l\<in>set (inner @ [target_loop c]). legal ir t l"
      "outer \<noteq> [] \<longrightarrow> \<not> legal ir t (hd outer)"
      using legal_split [of ir loops t] c(2,4) by (auto simp: hoistable_def)
    have sel: "hc_transfer c = t" "donor_stage c = st" using c(4) by simp_all
    have inner: "length inner < length loops" using arg_cong [OF l(1), of length] by simp
    have split: "\<exists>inner outer. loops = inner @ target_loop c # outer \<and> length inner < length loops \<and>
      (\<forall>loop\<in>set (inner @ [target_loop c]). legal ir t loop) \<and> (outer \<noteq> [] \<longrightarrow> \<not> legal ir t (hd outer))"
      using l inner by blast
    have "\<exists>as bs. transfers = as @ (st, t) # bs \<and> hoistable ir loops t \<and>
        (\<forall>(st, t')\<in>set transfers. hoistable ir loops t' \<longrightarrow> depth ir loops t' \<le> depth ir loops t) \<and>
        (\<forall>(st, t')\<in>set as. hoistable ir loops t' \<longrightarrow> depth ir loops t' < depth ir loops t) \<and>
        (\<exists>inner outer. loops = inner @ target_loop c # outer \<and> length inner < length loops \<and>
          (\<forall>loop\<in>set (inner @ [target_loop c]). legal ir t loop) \<and> (outer \<noteq> [] \<longrightarrow> \<not> legal ir t (hd outer)))"
      by (rule exI [of _ as], rule exI [of _ bs], intro conjI) (rule c(1), rule c(2), rule top, rule c(5), rule split)
    then show ?thesis using res Some sel by (intro exI [of _ "Some c"]) (simp only: option.case simp_thms)
  qed
qed

text \<open>A write through the value that a view was taken of is not seen.\<close>

theorem base_write_missed:
  assumes "finite_ir ir" and "write_of ir q = StoreWrite base" and "view \<in> set (view_results ir base)"
    and "base \<notin> reach (view_results ir) view"
  shows "regionWritesTo ir [q] view None = Some False \<and> regionWritesTo ir [q] base None = Some True"
  using assms by (simp add: regionWritesTo_result writes_to_def opIsWriter_def reach_self)

section \<open>A witness\<close>

text \<open>
  A pipeline in two loops (operations 1 and 2, values 1 and 2), whose stage transfers the source 10, defined outside, to the
  allocation 20 at an index 5 computed from the outer variable, and the source 11 to the allocation 21, invariant in both.
\<close>

definition two_loop_ir :: reuse_ir where
  "two_loop_ir = \<lparr>defining_op = (\<lambda>v. if v = 5 then Some 7 else if v = 30 then Some 9 else None),
     op_operands = (\<lambda>q. if q = 7 then [1] else []), op_results = (\<lambda>q. if q = 9 then [30] else []),
     value_users = (\<lambda>v. if v = 21 then [9] else []), is_view_op = (\<lambda>q. q = 9),
     write_of = (\<lambda>q. if q = 3 then TransferWrite True 20 else if q = 4 then TransferWrite True 21 else
       if q = 6 then StoreWrite 21 else NoWrite),
     def_kind_of = (\<lambda>v. if v = 20 then AllocDef 8 else if v = 40 then PrivateDef (Some 21) else if v = 21 then AllocDef 12 else OtherDef),
     region_ops = (\<lambda>q. if q = 1 then [2, 3, 4] else if q = 2 then [3, 4] else []),
     induction_var = (\<lambda>q. q)\<rparr>"

definition shallow_transfer :: transfer where
  "shallow_transfer = \<lparr>tr_op = 3, tr_source = 10, tr_dest = 20, tr_dest_fifo = False, source_indices = [5], dest_indices = [],
     source_sizes = [], dest_sizes = []\<rparr>"

definition deep_transfer :: transfer where
  "deep_transfer = \<lparr>tr_op = 4, tr_source = 11, tr_dest = 40, tr_dest_fifo = False, source_indices = [], dest_indices = [],
     source_sizes = [], dest_sizes = []\<rparr>"

lemma two_loop_ir_ok:
  "finite_ir two_loop_ir" "ranked_yields (def_kind_of two_loop_ir) (\<lambda>v. if v = 40 then 1 else 0)"
proof -
  have "{v. def_operands two_loop_ir v \<noteq> []} \<subseteq> {5}" "{v. view_results two_loop_ir v \<noteq> []} \<subseteq> {21}"
    by (auto simp: def_operands_def view_results_def two_loop_ir_def split: if_splits)
  then show "finite_ir two_loop_ir" by (auto simp: finite_ir_def intro: finite_subset)
  show "ranked_yields (def_kind_of two_loop_ir) (\<lambda>v. if v = 40 then 1 else 0)"
    by (simp add: ranked_yields_def two_loop_ir_def)
qed

lemma two_loop_run:
  "findFirstCandidate two_loop_ir [2, 1] [(50, shallow_transfer), (50, deep_transfer)] =
     success \<lparr>hc_transfer = deep_transfer, donor_stage = 50, target_loop = 1\<rparr>"
  by code_simp

theorem findFirstCandidate_deepest_witness:
  "hoistable two_loop_ir [2, 1] deep_transfer \<and> legal two_loop_ir deep_transfer 1 \<and> legal two_loop_ir deep_transfer 2"
proof -
  note result = findFirstCandidate_deepest [OF two_loop_ir_ok, where loops = "[2, 1]" and transfers = "[(50, shallow_transfer), (50, deep_transfer)]"]
  show ?thesis using result unfolding two_loop_run by (auto simp: Cons_eq_append_conv)
qed

theorem base_write_missed_witness:
  "regionWritesTo two_loop_ir [6] 30 None = Some False \<and> regionWritesTo two_loop_ir [6] 21 None = Some True"
proof (rule base_write_missed)
  show "finite_ir two_loop_ir" by (rule two_loop_ir_ok)
  show "write_of two_loop_ir 6 = StoreWrite 21" "30 \<in> set (view_results two_loop_ir 21)"
    by (simp_all add: two_loop_ir_def view_results_def)
  have "reach (view_results two_loop_ir) 30 \<subseteq> {30}" by (rule reach_closed) (auto simp: two_loop_ir_def view_results_def split: if_splits)
  then show "21 \<notin> reach (view_results two_loop_ir) 30" by auto
qed

end
