(* ===== verification/SimplifyPipeline.thy ===== *)
theory SimplifyPipeline
  imports Prelude
begin

text \<open>
  Simplification of a pipeline (\<open>lib/Dialect/KTDF/Transforms/SimplifyPipeline.cpp\<close>): ordering the
  stages, giving every stage one token of its own, and the transitive reduction of the
  dependencies.

  The iterators over stage dependencies (\<open>StageGraph\<close>, \<open>ConsumerEdgeIterator\<close>), which are part of the
  dialect in a submodule, LLVM's enumeration of strongly connected components and the creation of
  tokens are parameters; what the code relies on is stated by \<open>consumer_edges\<close>, \<open>scc_listing\<close> and
  \<open>fresh_tokens\<close>. A token is created inside the private section of the pipeline, which \<open>PrivateBuilder\<close>
  makes at the front of the body when there is none, and which loses the tokens without users at the
  end; the lists of the model hold the operations that \<open>orderStages\<close> moves, and \<open>rewriteTokens\<close> leaves
  that section out of them.
\<close>

section \<open>The pipeline\<close>

text \<open>The operations of the body in order, and for each stage the tokens it awaits and outputs.\<close>

type_synonym stage_op = nat
type_synonym token_val = nat

record pipe_ir =
  sp_body :: "stage_op list"
  sp_private :: "stage_op option"
  sp_is_stage :: "stage_op \<Rightarrow> bool"
  awaits :: "stage_op \<Rightarrow> token_val list"
  outputs :: "stage_op \<Rightarrow> token_val list"
  foreign_use :: "token_val \<Rightarrow> bool"
  tokens_made :: nat

definition pipe_stages :: "pipe_ir \<Rightarrow> stage_op list" where
  "pipe_stages P = filter (sp_is_stage P) (sp_body P)"

section \<open>Order of the stages\<close>

definition earlier_consumer :: "stage_op list \<Rightarrow> stage_op list \<Rightarrow> stage_op \<Rightarrow> stage_op option \<Rightarrow> stage_op option" where
  "earlier_consumer body scc consumer earliest =
     (if consumer \<notin> set body \<or> consumer \<in> set scc then earliest
      else case earliest of None \<Rightarrow> Some consumer
           | Some e \<Rightarrow> if before_in body consumer e then Some consumer else Some e)"

definition findEarliestConsumer :: "(stage_op \<Rightarrow> stage_op list) \<Rightarrow> stage_op list \<Rightarrow> stage_op list \<Rightarrow> stage_op option" where
  "findEarliestConsumer consumers body scc =
     fold (\<lambda>member. fold (earlier_consumer body scc) (consumers member)) scc None"

definition move_step :: "(stage_op \<Rightarrow> bool) \<Rightarrow> stage_op list \<Rightarrow> stage_op \<Rightarrow> stage_op \<Rightarrow> stage_op list \<times> bool \<Rightarrow> stage_op list \<times> bool" where
  "move_step is_stage scc e q s =
     (if is_stage q \<and> q \<in> set scc then (moveOpBefore q e (fst s), True) else s)"

definition moveInFrontOfConsumers ::
  "(stage_op \<Rightarrow> bool) \<Rightarrow> (stage_op \<Rightarrow> stage_op list) \<Rightarrow> stage_op list \<Rightarrow> stage_op list \<Rightarrow> stage_op list \<times> bool" where
  "moveInFrontOfConsumers is_stage consumers body scc =
     (case findEarliestConsumer consumers body scc of
        None \<Rightarrow> (body, False)
      | Some e \<Rightarrow> fold (move_step is_stage scc e) (tl (dropWhile (\<lambda>y. y \<noteq> e) body)) (body, False))"

type_synonym order_state = "stage_op list \<times> bool \<times> stage_op list"

text \<open>The body of the pipeline, whether it has been modified, and the stages left to visit.\<close>

definition order_scc ::
  "(stage_op \<Rightarrow> bool) \<Rightarrow> (stage_op \<Rightarrow> stage_op list) \<Rightarrow> stage_op list \<Rightarrow> order_state \<Rightarrow> order_state" where
  "order_scc is_stage consumers scc s =
     (let (body, changed, worklist) = s in
      if hd scc \<notin> set worklist then s
      else let (body', moved) = moveInFrontOfConsumers is_stage consumers body scc
           in (body', changed \<or> moved, filter (\<lambda>q. q \<notin> set scc) worklist))"

partial_function (option) order_worklist ::
  "(stage_op \<Rightarrow> bool) \<Rightarrow> (stage_op \<Rightarrow> stage_op list) \<Rightarrow> (stage_op \<Rightarrow> stage_op list list) \<Rightarrow> order_state \<Rightarrow>
   (stage_op list \<times> bool) option" where
  "order_worklist is_stage consumers sccs s =
     (let (body, changed, worklist) = s in
      if worklist = [] then Some (body, changed)
      else order_worklist is_stage consumers sccs
             (fold (order_scc is_stage consumers) (sccs (hd worklist)) s))"

declare order_worklist.simps [code]

definition private_first_step :: "pipe_ir \<Rightarrow> stage_op list \<times> bool" where
  "private_first_step P =
     (case sp_private P of
        Some p \<Rightarrow> (if hd (sp_body P) \<noteq> p then (moveOpBefore p (hd (sp_body P)) (sp_body P), True) else (sp_body P, False))
      | None \<Rightarrow> (sp_body P, False))"

definition orderStages ::
  "(stage_op \<Rightarrow> stage_op list) \<Rightarrow> (stage_op \<Rightarrow> stage_op list list) \<Rightarrow> pipe_ir \<Rightarrow> (pipe_ir \<times> bool) option" where
  "orderStages consumers sccs P =
     (let (body, changed) = private_first_step P in
      map_option (\<lambda>(body', changed'). (P\<lparr>sp_body := body'\<rparr>, changed'))
        (order_worklist (sp_is_stage P) consumers sccs (body, changed, filter (sp_is_stage P) body)))"

section \<open>Tokens\<close>

definition isLocalToken :: "pipe_ir \<Rightarrow> token_val \<Rightarrow> bool" where
  "isLocalToken P t \<longleftrightarrow> \<not> foreign_use P t"

definition isUniqueTo :: "pipe_ir \<Rightarrow> token_val \<Rightarrow> stage_op \<Rightarrow> bool" where
  "isUniqueTo P t producer \<longleftrightarrow> list_all (\<lambda>s. s = producer \<or> t \<notin> set (outputs P s)) (pipe_stages P)"

definition mergeTokens :: "pipe_ir \<Rightarrow> token_val list \<Rightarrow> token_val list \<Rightarrow> token_val list" where
  "mergeTokens P current target =
     first_occurrences (filter (\<lambda>t. \<not> isLocalToken P t \<or> t \<in> set target) current @ target)"

text \<open>A map from stages to sets of stages, both with insertion order.\<close>

type_synonym producer_map = "(stage_op \<times> stage_op list) list"

definition set_vector_insert :: "'a \<Rightarrow> 'a list \<Rightarrow> 'a list" where
  "set_vector_insert x xs = (if x \<in> set xs then xs else xs @ [x])"

fun add_producer :: "stage_op \<Rightarrow> stage_op \<Rightarrow> producer_map \<Rightarrow> producer_map" where
  "add_producer consumer s [] = [(consumer, [s])]"
| "add_producer consumer s ((k, ps) # m) =
     (if k = consumer then (k, set_vector_insert s ps) # m else (k, ps) # add_producer consumer s m)"

definition edge_step :: "pipe_ir \<Rightarrow> (stage_op \<Rightarrow> stage_op \<Rightarrow> bool) \<Rightarrow> stage_op \<Rightarrow> token_val \<times> stage_op \<Rightarrow> producer_map \<Rightarrow> producer_map" where
  "edge_step P keep s e m = (if isLocalToken P (fst e) \<and> keep s (snd e) then add_producer (snd e) s m else m)"

definition collect_producers ::
  "(pipe_ir \<Rightarrow> stage_op \<Rightarrow> (token_val \<times> stage_op) list) \<Rightarrow> pipe_ir \<Rightarrow> (stage_op \<Rightarrow> stage_op \<Rightarrow> bool) \<Rightarrow> producer_map" where
  "collect_producers edges P keep = fold (\<lambda>s. fold (edge_step P keep s) (edges P s)) (pipe_stages P) []"

text \<open>The token of each producer so far and the number of tokens created.\<close>

type_synonym token_state = "(stage_op \<times> token_val) list \<times> nat"

definition claim_token :: "(nat \<Rightarrow> token_val) \<Rightarrow> pipe_ir \<Rightarrow> stage_op \<Rightarrow> token_state \<Rightarrow> token_state" where
  "claim_token new_token P producer s =
     (let (unique_out, made) = s in
      if map_of unique_out producer \<noteq> None then s
      else case find (\<lambda>t. isLocalToken P t \<and> isUniqueTo P t producer) (outputs P producer) of
             Some t \<Rightarrow> (unique_out @ [(producer, t)], made)
           | None \<Rightarrow> (unique_out @ [(producer, new_token made)], Suc made))"

definition claim_tokens :: "(nat \<Rightarrow> token_val) \<Rightarrow> pipe_ir \<Rightarrow> producer_map \<Rightarrow> token_state" where
  "claim_tokens new_token P producers =
     fold (\<lambda>entry. fold (claim_token new_token P) (snd entry)) producers ([], tokens_made P)"

text \<open>The new tokens of one stage; \<open>at\<close> of a missing producer does not return.\<close>

definition rewrite_stage ::
  "producer_map \<Rightarrow> (stage_op \<times> token_val) list \<Rightarrow> stage_op \<Rightarrow> pipe_ir \<times> bool \<Rightarrow> (pipe_ir \<times> bool) option" where
  "rewrite_stage producers unique_out stage s =
     (let (P, changed) = s;
          out_target = (case map_of unique_out stage of Some t \<Rightarrow> [t] | None \<Rightarrow> []) in
      map_option (\<lambda>in_target.
        let ins = mergeTokens P (awaits P stage) in_target;
            outs = mergeTokens P (outputs P stage) out_target in
        if ins = awaits P stage \<and> outs = outputs P stage then s
        else (P\<lparr>awaits := (awaits P)(stage := ins), outputs := (outputs P)(stage := outs)\<rparr>, True))
      (case map_of producers stage of
         Some ps \<Rightarrow> those (map (map_of unique_out) ps)
       | None \<Rightarrow> Some []))"

definition rewriteTokens ::
  "(pipe_ir \<Rightarrow> stage_op \<Rightarrow> (token_val \<times> stage_op) list) \<Rightarrow> (nat \<Rightarrow> token_val) \<Rightarrow> pipe_ir \<Rightarrow>
   (stage_op \<Rightarrow> stage_op \<Rightarrow> bool) \<Rightarrow> (pipe_ir \<times> bool) option" where
  "rewriteTokens edges new_token P keep =
     (let producers = collect_producers edges P keep;
          (unique_out, made) = claim_tokens new_token P producers in
      foldM (rewrite_stage producers unique_out) (pipe_stages P) (P\<lparr>tokens_made := made\<rparr>, False))"

definition normalizeTokens ::
  "(pipe_ir \<Rightarrow> stage_op \<Rightarrow> (token_val \<times> stage_op) list) \<Rightarrow> (nat \<Rightarrow> token_val) \<Rightarrow> pipe_ir \<Rightarrow> (pipe_ir \<times> bool) option" where
  "normalizeTokens edges new_token P = rewriteTokens edges new_token P (\<lambda>_ _. True)"

section \<open>Reduction of the dependencies\<close>

definition index_at :: "stage_op list \<Rightarrow> stage_op \<Rightarrow> nat option" where
  "index_at stages s = (if s \<in> set stages then Some (index_of stages s) else None)"

text \<open>The consumers of each stage over local tokens, by index.\<close>

definition local_node ::
  "(pipe_ir \<Rightarrow> stage_op \<Rightarrow> (token_val \<times> stage_op) list) \<Rightarrow> pipe_ir \<Rightarrow> stage_op \<Rightarrow> nat list option" where
  "local_node edges P s =
     those (map (\<lambda>e. index_at (pipe_stages P) (snd e)) (filter (\<lambda>e. isLocalToken P (fst e)) (edges P s)))"

definition local_graph ::
  "(pipe_ir \<Rightarrow> stage_op \<Rightarrow> (token_val \<times> stage_op) list) \<Rightarrow> pipe_ir \<Rightarrow> nat list list option" where
  "local_graph edges P = those (map (local_node edges P) (pipe_stages P))"

type_synonym numbering = "(nat \<Rightarrow> nat option) \<times> nat"

definition number_scc :: "nat list \<Rightarrow> numbering \<Rightarrow> numbering" where
  "number_scc scc s =
     (if fst s (hd scc) \<noteq> None then s
      else (fold (\<lambda>n f. f(n := Some (snd s))) scc (fst s), Suc (snd s)))"

definition number_sccs :: "(nat \<Rightarrow> nat list list) \<Rightarrow> nat \<Rightarrow> numbering" where
  "number_sccs sccs n =
     fold (\<lambda>root s. if fst s root \<noteq> None then s else fold number_scc (sccs root) s) [0..<n] (\<lambda>_. None, 0)"

text \<open>Bit vectors are sets of numbers.\<close>

definition add_successor :: "(nat \<Rightarrow> nat) \<Rightarrow> nat \<Rightarrow> nat \<Rightarrow> (nat \<Rightarrow> nat set) \<Rightarrow> nat \<Rightarrow> nat set" where
  "add_successor scc_of i j successors =
     (if scc_of i \<noteq> scc_of j then successors(scc_of i := insert (scc_of j) (successors (scc_of i))) else successors)"

definition scc_successors :: "nat list list \<Rightarrow> (nat \<Rightarrow> nat) \<Rightarrow> nat \<Rightarrow> nat set" where
  "scc_successors graph scc_of =
     fold (\<lambda>i. fold (add_successor scc_of i) (graph ! i)) [0..<length graph] (\<lambda>_. {})"

type_synonym reach_state = "(nat \<Rightarrow> nat set) \<times> (nat \<Rightarrow> nat set)"

definition reach_scc :: "nat \<Rightarrow> (nat \<Rightarrow> nat set) \<Rightarrow> nat \<Rightarrow> reach_state \<Rightarrow> reach_state" where
  "reach_scc num successors scc s =
     (let (implied, reachable) = s;
          im = fold (\<lambda>succ acc. acc \<union> reachable succ) (filter (\<lambda>succ. succ \<in> successors scc) [0..<num]) (implied scc)
      in (implied(scc := im), reachable(scc := im \<union> successors scc)))"

definition implied_sccs :: "nat \<Rightarrow> (nat \<Rightarrow> nat set) \<Rightarrow> reach_state" where
  "implied_sccs num successors = fold (reach_scc num successors) [0..<num] (\<lambda>_. {}, \<lambda>_. {})"

definition reduceDependencies ::
  "(pipe_ir \<Rightarrow> stage_op \<Rightarrow> (token_val \<times> stage_op) list) \<Rightarrow> ((nat \<Rightarrow> nat list) \<Rightarrow> nat \<Rightarrow> nat list list) \<Rightarrow>
   (nat \<Rightarrow> token_val) \<Rightarrow> pipe_ir \<Rightarrow> (pipe_ir \<times> bool) option" where
  "reduceDependencies edges sccs new_token P =
     do { graph \<leftarrow> local_graph edges P;
          let (scc_map, num_sccs) = number_sccs (sccs (\<lambda>i. graph ! i)) (length graph);
          let scc_of = (\<lambda>i. the (scc_map i));
          let implied = fst (implied_sccs num_sccs (scc_successors graph scc_of));
          rewriteTokens edges new_token P (\<lambda>producer consumer.
            let from = scc_of (index_of (pipe_stages P) producer);
                to' = scc_of (index_of (pipe_stages P) consumer)
            in from = to' \<or> to' \<notin> implied from) }"

section \<open>The parameters\<close>

text \<open>The edges of a pipeline over local tokens.\<close>

definition local_edges :: "pipe_ir \<Rightarrow> (stage_op \<times> stage_op) set" where
  "local_edges P = {(p, c). p \<in> set (pipe_stages P) \<and> c \<in> set (pipe_stages P) \<and>
     (\<exists>t. isLocalToken P t \<and> t \<in> set (outputs P p) \<and> t \<in> set (awaits P c))}"

text \<open>The edges of a stage over local tokens are those to the stages that await one of its tokens.\<close>

definition consumer_edges :: "(pipe_ir \<Rightarrow> stage_op \<Rightarrow> (token_val \<times> stage_op) list) \<Rightarrow> bool" where
  "consumer_edges edges \<longleftrightarrow> (\<forall>P. \<forall>s\<in>set (pipe_stages P). \<forall>t c. isLocalToken P t \<longrightarrow>
     ((t, c) \<in> set (edges P s) \<longleftrightarrow> t \<in> set (outputs P s) \<and> c \<in> set (pipe_stages P) \<and> t \<in> set (awaits P c)))"

text \<open>A created token is used nowhere yet.\<close>

definition fresh_tokens :: "(nat \<Rightarrow> token_val) \<Rightarrow> pipe_ir \<Rightarrow> bool" where
  "fresh_tokens new_token P \<longleftrightarrow> inj new_token \<and> (\<forall>n\<ge>tokens_made P. isLocalToken P (new_token n) \<and>
     (\<forall>s\<in>set (pipe_stages P). new_token n \<notin> set (outputs P s) \<and> new_token n \<notin> set (awaits P s)))"

section \<open>Collecting the producers\<close>

lemma filter_first_occurrences: "filter Q (first_occurrences xs) = first_occurrences (filter Q xs)"
  by (simp add: first_occurrences_def rev_filter remdups_filter)

lemma first_occurrences_distinct: "distinct xs \<Longrightarrow> first_occurrences xs = xs"
  by (simp add: first_occurrences_def distinct_remdups_id)

lemma first_occurrences_absorb: "distinct xs \<Longrightarrow> set ys \<subseteq> set xs \<Longrightarrow> first_occurrences (xs @ ys) = xs"
proof (induction ys rule: rev_induct)
  case (snoc y ys)
  then show ?case by (simp add: first_occurrences_def)
qed (simp add: first_occurrences_distinct)

definition producers_of :: "producer_map \<Rightarrow> stage_op \<Rightarrow> stage_op set" where
  "producers_of m c = (case map_of m c of None \<Rightarrow> {} | Some ps \<Rightarrow> set ps)"

lemma map_of_add_producer:
  "map_of (add_producer c s m) =
     (map_of m)(c \<mapsto> (case map_of m c of None \<Rightarrow> [s] | Some ps \<Rightarrow> set_vector_insert s ps))"
  by (induction c s m rule: add_producer.induct) (auto simp: fun_eq_iff)

lemma add_producer_keys: "fst ` set (add_producer c s m) = insert c (fst ` set m)"
  by (induction c s m rule: add_producer.induct) auto

lemma add_producer_distinct: "distinct (map fst m) \<Longrightarrow> distinct (map fst (add_producer c s m))"
proof (induction c s m rule: add_producer.induct)
  case (2 consumer s k ps m)
  then show ?case using add_producer_keys [of consumer s m] by (auto simp: image_iff)
qed simp

lemma producers_of_add: "producers_of (add_producer c s m) c' = producers_of m c' \<union> (if c' = c then {s} else {})"
  by (auto simp: producers_of_def map_of_add_producer set_vector_insert_def split: option.splits)

lemma producers_of_edge_step:
  "producers_of (edge_step P keep s e m) c =
     producers_of m c \<union> (if c = snd e \<and> isLocalToken P (fst e) \<and> keep s c then {s} else {})"
  by (auto simp: edge_step_def producers_of_add)

lemma edge_steps:
  "producers_of (fold (edge_step P keep s) es m) c =
     producers_of m c \<union> {s' . s' = s \<and> (\<exists>t. (t, c) \<in> set es \<and> isLocalToken P t \<and> keep s c)}"
proof (induction es arbitrary: m)
  case (Cons e es)
  show ?case by (cases e) (auto simp: Cons.IH producers_of_edge_step)
qed simp

lemma edge_steps_distinct: "distinct (map fst m) \<Longrightarrow> distinct (map fst (fold (edge_step P keep s) es m))"
  by (induction es arbitrary: m) (auto simp: edge_step_def add_producer_distinct)

lemma collect_steps:
  "producers_of (fold (\<lambda>s. fold (edge_step P keep s) (edges P s)) ss m) c =
     producers_of m c \<union> {s \<in> set ss. \<exists>t. (t, c) \<in> set (edges P s) \<and> isLocalToken P t \<and> keep s c}"
  by (induction ss arbitrary: m) (auto simp: edge_steps)

lemma collect_steps_distinct:
  "distinct (map fst m) \<Longrightarrow> distinct (map fst (fold (\<lambda>s. fold (edge_step P keep s) (edges P s)) ss m))"
  by (induction ss arbitrary: m) (auto simp: edge_steps_distinct)

lemma collect_producers_result:
  assumes "consumer_edges edges"
  shows "producers_of (collect_producers edges P keep) c = {s. (s, c) \<in> local_edges P \<and> keep s c}"
    and "distinct (map fst (collect_producers edges P keep))"
proof -
  have e: "(t, c) \<in> set (edges P s) \<longleftrightarrow> t \<in> set (outputs P s) \<and> c \<in> set (pipe_stages P) \<and> t \<in> set (awaits P c)"
    if "s \<in> set (pipe_stages P)" "isLocalToken P t" for s t
    using assms that unfolding consumer_edges_def by blast
  have "producers_of (collect_producers edges P keep) c =
      {s \<in> set (pipe_stages P). \<exists>t. (t, c) \<in> set (edges P s) \<and> isLocalToken P t \<and> keep s c}"
    by (simp add: collect_producers_def collect_steps) (simp add: producers_of_def)
  then show "producers_of (collect_producers edges P keep) c = {s. (s, c) \<in> local_edges P \<and> keep s c}"
    using e by (simp add: local_edges_def) blast
  show "distinct (map fst (collect_producers edges P keep))"
    by (simp add: collect_producers_def collect_steps_distinct)
qed

lemma set_producers: "distinct (map fst m) \<Longrightarrow> set (concat (map snd m)) = (\<Union>c. producers_of m c)"
proof -
  assume d: "distinct (map fst m)"
  show ?thesis
  proof
    show "set (concat (map snd m)) \<subseteq> (\<Union>c. producers_of m c)"
    proof
      fix x assume "x \<in> set (concat (map snd m))"
      then obtain c ps where "(c, ps) \<in> set m" "x \<in> set ps" by auto
      then have "x \<in> producers_of m c" using d by (simp add: producers_of_def)
      then show "x \<in> (\<Union>c. producers_of m c)" by blast
    qed
    show "(\<Union>c. producers_of m c) \<subseteq> set (concat (map snd m))"
    proof
      fix x assume "x \<in> (\<Union>c. producers_of m c)"
      then obtain c ps where "map_of m c = Some ps" "x \<in> set ps" by (auto simp: producers_of_def split: option.splits)
      then have "(c, ps) \<in> set m" "x \<in> set ps" by (auto dest: map_of_SomeD)
      then show "x \<in> set (concat (map snd m))" by force
    qed
  qed
qed

section \<open>Tokens of the producers\<close>

definition reusable_token :: "pipe_ir \<Rightarrow> stage_op \<Rightarrow> token_val \<Rightarrow> bool" where
  "reusable_token P p t \<longleftrightarrow> isLocalToken P t \<and> isUniqueTo P t p"

definition token_kind :: "(nat \<Rightarrow> token_val) \<Rightarrow> pipe_ir \<Rightarrow> nat \<Rightarrow> stage_op \<Rightarrow> token_val \<Rightarrow> bool" where
  "token_kind new_token P made p t \<longleftrightarrow>
     find (reusable_token P p) (outputs P p) = Some t \<or>
     find (reusable_token P p) (outputs P p) = None \<and> (\<exists>n. t = new_token n \<and> tokens_made P \<le> n \<and> n < made)"

lemma token_kind_mono: "token_kind new_token P made p t \<Longrightarrow> made \<le> made' \<Longrightarrow> token_kind new_token P made' p t"
  by (fastforce simp: token_kind_def)

definition claimed :: "(nat \<Rightarrow> token_val) \<Rightarrow> pipe_ir \<Rightarrow> stage_op set \<Rightarrow> token_state \<Rightarrow> bool" where
  "claimed new_token P ps s \<longleftrightarrow>
     dom (map_of (fst s)) = ps \<and> tokens_made P \<le> snd s \<and>
     (\<forall>p t. map_of (fst s) p = Some t \<longrightarrow> token_kind new_token P (snd s) p t) \<and>
     (\<forall>p q t. map_of (fst s) p = Some t \<longrightarrow> map_of (fst s) q = Some t \<longrightarrow> p = q)"

lemma find_Some_props: "find Q xs = Some x \<Longrightarrow> x \<in> set xs \<and> Q x"
  by (induction xs) (auto split: if_splits)

lemma find_None_iff_ball: "find Q xs = None \<longleftrightarrow> (\<forall>x\<in>set xs. \<not> Q x)"
  by (induction xs) auto

lemma map_of_snoc: "map_of m k = None \<Longrightarrow> map_of (m @ [(k, v)]) = (map_of m)(k \<mapsto> v)"
  by (auto simp: map_add_def fun_eq_iff split: option.split)

lemma claim_token_step:
  assumes fresh: "fresh_tokens new_token P" and p: "p \<in> set (pipe_stages P)" and ps: "ps \<subseteq> set (pipe_stages P)"
    and c: "claimed new_token P ps s"
  shows "claimed new_token P (insert p ps) (claim_token new_token P p s)"
proof -
  obtain uo made where s: "s = (uo, made)" by (cases s)
  show ?thesis
  proof (cases "map_of uo p")
    case (Some t)
    then have "p \<in> ps" using c s by (auto simp: claimed_def)
    then show ?thesis using c Some s by (simp add: claim_token_def insert_absorb)
  next
    case None
    define r where "r = find (reusable_token P p) (outputs P p)"
    define t where "t = (case r of Some t \<Rightarrow> t | None \<Rightarrow> new_token made)"
    define made' where "made' = (case r of Some t \<Rightarrow> made | None \<Rightarrow> Suc made)"
    have run: "claim_token new_token P p s = (uo @ [(p, t)], made')"
      using None s unfolding claim_token_def t_def made'_def r_def reusable_token_def [abs_def] by (simp split: option.split)
    have le: "made \<le> made'" "tokens_made P \<le> made" using c s by (auto simp: made'_def claimed_def split: option.split)
    have other: "map_of uo q \<noteq> Some t" for q
    proof
      assume q: "map_of uo q = Some t"
      then have "q \<in> ps" "q \<noteq> p" using c s None by (auto simp: claimed_def)
      then have qs: "q \<in> set (pipe_stages P)" using ps by blast
      from q c s consider "t \<in> set (outputs P q)" "reusable_token P q t"
        | n where "t = new_token n" "tokens_made P \<le> n" "n < made"
        by (auto simp: claimed_def token_kind_def dest!: find_Some_props)
      then show False
      proof cases
        case 1
        then have tp: "t \<notin> set (outputs P p)" using p \<open>q \<noteq> p\<close> by (auto simp: reusable_token_def isUniqueTo_def list_all_iff)
        show False
        proof (cases r)
          case None
          then have "t = new_token made" by (simp add: t_def)
          then show False using 1(1) fresh le(2) qs by (auto simp: fresh_tokens_def)
        next
          case (Some a)
          then show False using tp find_Some_props [of "reusable_token P p" "outputs P p" a] by (simp add: t_def r_def)
        qed
      next
        case (2 n)
        show False
        proof (cases r)
          case None
          then show False using 2 fresh by (auto simp: t_def fresh_tokens_def inj_def)
        next
          case (Some a)
          then have "t \<in> set (outputs P p)" using find_Some_props [of "reusable_token P p" "outputs P p" a] by (simp add: t_def r_def)
          then show False using 2 fresh p by (auto simp: fresh_tokens_def)
        qed
      qed
    qed
    have kind: "token_kind new_token P made' p t"
      using le(2) by (auto simp: token_kind_def t_def made'_def r_def split: option.split)
    have new: "map_of (uo @ [(p, t)]) = (map_of uo)(p \<mapsto> t)" by (rule map_of_snoc [OF None])
    have dom: "dom (map_of (uo @ [(p, t)])) = insert p ps" using c s unfolding new by (simp add: claimed_def)
    have kinds: "token_kind new_token P made' q u" if "map_of (uo @ [(p, t)]) q = Some u" for q u
    proof (cases "q = p")
      case True
      then show ?thesis using that kind unfolding new by simp
    next
      case False
      then have "token_kind new_token P made q u" using that c s unfolding new by (simp add: claimed_def)
      then show ?thesis using le(1) by (rule token_kind_mono)
    qed
    have inj: "q = q'" if "map_of (uo @ [(p, t)]) q = Some u" "map_of (uo @ [(p, t)]) q' = Some u" for q q' u
    proof -
      have old: "map_of uo q = Some u \<Longrightarrow> map_of uo q' = Some u \<Longrightarrow> q = q'" using c s by (simp add: claimed_def)
      show ?thesis using that other [of q] other [of q'] old unfolding new by (cases "q = p"; cases "q' = p") auto
    qed
    show ?thesis unfolding run claimed_def fst_conv snd_conv using dom kinds inj le by (simp only:) (meson le_trans)
  qed
qed

lemma claim_steps:
  assumes "fresh_tokens new_token P"
  shows "set xs \<subseteq> set (pipe_stages P) \<Longrightarrow> ps \<subseteq> set (pipe_stages P) \<Longrightarrow> claimed new_token P ps s \<Longrightarrow>
    claimed new_token P (ps \<union> set xs) (fold (claim_token new_token P) xs s)"
proof (induction xs arbitrary: ps s)
  case (Cons x xs)
  have "claimed new_token P (insert x ps) (claim_token new_token P x s)"
    using claim_token_step [OF assms _ Cons.prems(2,3)] Cons.prems(1) by simp
  from Cons.IH [OF _ _ this] Cons.prems show ?case by simp
qed simp

lemma claim_tokens_concat:
  "claim_tokens new_token P producers = fold (claim_token new_token P) (concat (map snd producers)) ([], tokens_made P)"
proof -
  have "fold (\<lambda>entry. fold (claim_token new_token P) (snd entry)) m s = fold (claim_token new_token P) (concat (map snd m)) s" for m s
    by (induction m arbitrary: s) simp_all
  then show ?thesis by (simp add: claim_tokens_def)
qed

section \<open>The rewritten tokens\<close>

lemma those_map: "\<forall>x\<in>set xs. f x \<noteq> None \<Longrightarrow> those (map f xs) = Some (map (\<lambda>x. the (f x)) xs)"
  by (induction xs) auto

definition in_target :: "producer_map \<Rightarrow> (stage_op \<times> token_val) list \<Rightarrow> stage_op \<Rightarrow> token_val list" where
  "in_target producers unique_out c =
     (case map_of producers c of Some ps \<Rightarrow> map (\<lambda>p. the (map_of unique_out p)) ps | None \<Rightarrow> [])"

definition out_target :: "(stage_op \<times> token_val) list \<Rightarrow> stage_op \<Rightarrow> token_val list" where
  "out_target unique_out s = (case map_of unique_out s of Some t \<Rightarrow> [t] | None \<Rightarrow> [])"

definition retokened :: "pipe_ir \<Rightarrow> producer_map \<Rightarrow> (stage_op \<times> token_val) list \<Rightarrow> stage_op set \<Rightarrow> pipe_ir" where
  "retokened P producers unique_out A =
     P\<lparr>awaits := (\<lambda>s. if s \<in> A then mergeTokens P (awaits P s) (in_target producers unique_out s) else awaits P s),
       outputs := (\<lambda>s. if s \<in> A then mergeTokens P (outputs P s) (out_target unique_out s) else outputs P s)\<rparr>"

lemma retokened_fields [simp]:
  "pipe_stages (retokened P producers uo A) = pipe_stages P"
  "isLocalToken (retokened P producers uo A) = isLocalToken P"
  "mergeTokens (retokened P producers uo A) = mergeTokens P"
  by (simp_all add: retokened_def pipe_stages_def isLocalToken_def mergeTokens_def fun_eq_iff)

lemma rewrite_stage_result:
  assumes "\<forall>c ps. map_of producers c = Some ps \<longrightarrow> set ps \<subseteq> dom (map_of uo)" and "s \<notin> A"
  shows "rewrite_stage producers uo s (retokened P producers uo A, ch) =
    Some (retokened P producers uo (insert s A),
      ch \<or> mergeTokens P (awaits P s) (in_target producers uo s) \<noteq> awaits P s \<or>
      mergeTokens P (outputs P s) (out_target uo s) \<noteq> outputs P s)"
proof -
  have targets: "(case map_of producers s of Some ps \<Rightarrow> those (map (map_of uo) ps) | None \<Rightarrow> Some []) = Some (in_target producers uo s)"
  proof (cases "map_of producers s")
    case (Some ps)
    then have "\<forall>p\<in>set ps. map_of uo p \<noteq> None" using assms(1) by blast
    then show ?thesis using Some by (simp add: in_target_def those_map)
  qed (simp add: in_target_def)
  have old: "awaits (retokened P producers uo A) s = awaits P s" "outputs (retokened P producers uo A) s = outputs P s"
    using assms(2) by (simp_all add: retokened_def)
  let ?ins = "mergeTokens P (awaits P s) (in_target producers uo s)" and ?outs = "mergeTokens P (outputs P s) (out_target uo s)"
  have same: "retokened P producers uo (insert s A) = retokened P producers uo A" if "?ins = awaits P s" "?outs = outputs P s"
    using that assms(2) by (simp add: retokened_def fun_eq_iff)
  have new: "retokened P producers uo (insert s A) = (retokened P producers uo A)
      \<lparr>awaits := (awaits (retokened P producers uo A))(s := ?ins), outputs := (outputs (retokened P producers uo A))(s := ?outs)\<rparr>"
    using assms(2) by (simp add: retokened_def fun_eq_iff)
  show ?thesis
    unfolding rewrite_stage_def targets Let_def prod.case old option.map retokened_fields out_target_def [symmetric]
    using same new by auto
qed

lemma rewrite_stages_result:
  assumes "\<forall>c ps. map_of producers c = Some ps \<longrightarrow> set ps \<subseteq> dom (map_of uo)"
  shows "distinct ss \<Longrightarrow> foldM (rewrite_stage producers uo) ss (retokened P producers uo {}, False) =
    Some (retokened P producers uo (set ss), \<exists>s\<in>set ss.
      mergeTokens P (awaits P s) (in_target producers uo s) \<noteq> awaits P s \<or>
      mergeTokens P (outputs P s) (out_target uo s) \<noteq> outputs P s)"
proof (induction ss rule: rev_induct)
  case (snoc s ss)
  then show ?case using rewrite_stage_result [OF assms, of s "set ss" P] by (simp add: foldM_append disj_commute)
qed simp

lemma retokened_none: "retokened P producers uo {} = P"
  by (simp add: retokened_def)

text \<open>What \<open>rewriteTokens\<close> makes of a pipeline, in terms of the edges that are kept.\<close>

lemma rewriteTokens_result:
  assumes edges: "consumer_edges edges" and fresh: "fresh_tokens new_token P" and dist: "distinct (sp_body P)"
  obtains producers uo made where
    "rewriteTokens edges new_token P keep = Some (retokened (P\<lparr>tokens_made := made\<rparr>) producers uo (set (pipe_stages P)),
       \<exists>s\<in>set (pipe_stages P). mergeTokens P (awaits P s) (in_target producers uo s) \<noteq> awaits P s \<or>
         mergeTokens P (outputs P s) (out_target uo s) \<noteq> outputs P s)"
    "\<And>c. producers_of producers c = {p. (p, c) \<in> local_edges P \<and> keep p c}"
    "dom (map_of uo) = {p. \<exists>c. (p, c) \<in> local_edges P \<and> keep p c}"
    "tokens_made P \<le> made" "\<And>p t. map_of uo p = Some t \<Longrightarrow> token_kind new_token P made p t"
    "\<And>p q t. map_of uo p = Some t \<Longrightarrow> map_of uo q = Some t \<Longrightarrow> p = q"
proof -
  let ?m = "collect_producers edges P keep"
  obtain uo made where r: "claim_tokens new_token P ?m = (uo, made)" by fastforce
  note producers = collect_producers_result [OF edges, of P keep]
  have all: "set (concat (map snd ?m)) = {p. \<exists>c. (p, c) \<in> local_edges P \<and> keep p c}"
    using set_producers [OF producers(2)] producers(1) by auto
  then have sub: "set (concat (map snd ?m)) \<subseteq> set (pipe_stages P)" by (auto simp: local_edges_def)
  have "claimed new_token P {} ([], tokens_made P)" by (simp add: claimed_def)
  from claim_steps [OF fresh sub _ this]
  have c: "claimed new_token P {p. \<exists>c. (p, c) \<in> local_edges P \<and> keep p c} (uo, made)"
    using r all by (simp add: claim_tokens_concat)
  have d: "dom (map_of uo) = {p. \<exists>c. (p, c) \<in> local_edges P \<and> keep p c}" using c by (simp add: claimed_def)
  have "\<forall>c ps. map_of ?m c = Some ps \<longrightarrow> set ps \<subseteq> dom (map_of uo)"
  proof (intro allI impI)
    fix c ps assume "map_of ?m c = Some ps"
    then have "set ps = {p. (p, c) \<in> local_edges P \<and> keep p c}" using producers(1) [of c] by (simp add: producers_of_def)
    then show "set ps \<subseteq> dom (map_of uo)" using d by blast
  qed
  note loop = rewrite_stages_result [OF this, where P = "P\<lparr>tokens_made := made\<rparr>" and ss = "pipe_stages P"]
  have merge: "mergeTokens (P\<lparr>tokens_made := made\<rparr>) = mergeTokens P"
    by (simp add: fun_eq_iff mergeTokens_def isLocalToken_def)
  have "distinct (pipe_stages P)" using dist by (simp add: pipe_stages_def)
  from loop [OF this] have "rewriteTokens edges new_token P keep = Some (retokened (P\<lparr>tokens_made := made\<rparr>) ?m uo (set (pipe_stages P)),
       \<exists>s\<in>set (pipe_stages P). mergeTokens P (awaits P s) (in_target ?m uo s) \<noteq> awaits P s \<or>
         mergeTokens P (outputs P s) (out_target uo s) \<noteq> outputs P s)"
    by (simp add: rewriteTokens_def Let_def r retokened_none merge)
  then show ?thesis
    using that [of made ?m uo] producers(1) d c by (simp add: claimed_def)
qed

text \<open>The tokens of a pipeline that \<open>rewriteTokens\<close> leaves behind.\<close>

definition own_token :: "pipe_ir \<Rightarrow> stage_op \<Rightarrow> token_val \<Rightarrow> bool" where
  "own_token P p t \<longleftrightarrow> isLocalToken P t \<and> filter (isLocalToken P) (outputs P p) = [t] \<and>
     (\<forall>q\<in>set (pipe_stages P). q \<noteq> p \<longrightarrow> t \<notin> set (outputs P q))"

definition normalized :: "pipe_ir \<Rightarrow> bool" where
  "normalized P \<longleftrightarrow> (\<forall>s\<in>set (pipe_stages P). distinct (awaits P s) \<and> distinct (outputs P s) \<and>
     (if \<exists>c. (s, c) \<in> local_edges P then \<exists>t. own_token P s t else filter (isLocalToken P) (outputs P s) = []) \<and>
     (\<forall>t\<in>set (awaits P s). isLocalToken P t \<longrightarrow> (\<exists>p. (p, s) \<in> local_edges P \<and> t \<in> set (outputs P p))))"

lemma distinct_singleton_list: "distinct xs \<Longrightarrow> set xs = {x} \<Longrightarrow> xs = [x]"
  by (cases xs) (auto simp: subset_singleton_iff)

lemma set_mergeTokens: "set (mergeTokens P cur target) = {t \<in> set cur. \<not> isLocalToken P t} \<union> set target"
  by (auto simp: mergeTokens_def)

lemma local_mergeTokens:
  assumes "\<forall>t\<in>set target. isLocalToken P t"
  shows "filter (\<lambda>t. \<not> isLocalToken P t) (mergeTokens P cur target) = first_occurrences (filter (\<lambda>t. \<not> isLocalToken P t) cur)"
proof -
  have "filter (\<lambda>t. \<not> isLocalToken P t) target = []" using assms by simp
  moreover have "filter (\<lambda>t. \<not> isLocalToken P t) (filter (\<lambda>t. \<not> isLocalToken P t \<or> t \<in> set target) cur) =
    filter (\<lambda>t. \<not> isLocalToken P t) cur"
    by (simp add: filter_filter) (rule filter_cong, auto)
  ultimately show ?thesis by (simp add: mergeTokens_def filter_first_occurrences del: filter_filter)
qed

theorem rewriteTokens_edges:
  assumes "consumer_edges edges" and "fresh_tokens new_token P" and "distinct (sp_body P)"
  shows "\<exists>P' changed. rewriteTokens edges new_token P keep = Some (P', changed) \<and>
    sp_body P' = sp_body P \<and> sp_private P' = sp_private P \<and> local_edges P' = {(p, c) \<in> local_edges P. keep p c} \<and>
    normalized P' \<and> fresh_tokens new_token P' \<and>
    (\<forall>s\<in>set (pipe_stages P).
       filter (\<lambda>t. \<not> isLocalToken P t) (awaits P' s) = first_occurrences (filter (\<lambda>t. \<not> isLocalToken P t) (awaits P s)) \<and>
       filter (\<lambda>t. \<not> isLocalToken P t) (outputs P' s) = first_occurrences (filter (\<lambda>t. \<not> isLocalToken P t) (outputs P s))) \<and>
    (\<not> changed \<longrightarrow> awaits P' = awaits P \<and> outputs P' = outputs P) \<and>
    sp_is_stage P' = sp_is_stage P \<and> foreign_use P' = foreign_use P \<and>
    (\<forall>s. s \<notin> set (pipe_stages P) \<longrightarrow> awaits P' s = awaits P s \<and> outputs P' s = outputs P s)"
proof -
  obtain producers uo made where run:
    "rewriteTokens edges new_token P keep = Some (retokened (P\<lparr>tokens_made := made\<rparr>) producers uo (set (pipe_stages P)),
       \<exists>s\<in>set (pipe_stages P). mergeTokens P (awaits P s) (in_target producers uo s) \<noteq> awaits P s \<or>
         mergeTokens P (outputs P s) (out_target uo s) \<noteq> outputs P s)"
    and prod: "\<And>c. producers_of producers c = {p. (p, c) \<in> local_edges P \<and> keep p c}"
    and dom: "dom (map_of uo) = {p. \<exists>c. (p, c) \<in> local_edges P \<and> keep p c}"
    and made: "tokens_made P \<le> made"
    and kind: "\<And>p t. map_of uo p = Some t \<Longrightarrow> token_kind new_token P made p t"
    and inj: "\<And>p q t. map_of uo p = Some t \<Longrightarrow> map_of uo q = Some t \<Longrightarrow> p = q"
    by (rule rewriteTokens_result [OF assms, of keep], rule that)
  define P' where "P' = retokened (P\<lparr>tokens_made := made\<rparr>) producers uo (set (pipe_stages P))"
  have st: "pipe_stages P' = pipe_stages P" "sp_body P' = sp_body P" "sp_private P' = sp_private P"
    "isLocalToken P' = isLocalToken P" "tokens_made P' = made"
    by (auto simp: P'_def retokened_def pipe_stages_def isLocalToken_def fun_eq_iff)
  have merge: "mergeTokens (P\<lparr>tokens_made := made\<rparr>) = mergeTokens P"
    by (simp add: fun_eq_iff mergeTokens_def isLocalToken_def)
  have new: "awaits P' s = mergeTokens P (awaits P s) (in_target producers uo s)"
    "outputs P' s = mergeTokens P (outputs P s) (out_target uo s)" if "s \<in> set (pipe_stages P)" for s
    using that by (simp_all add: P'_def retokened_def merge)
  have uo_local: "isLocalToken P t" if "map_of uo p = Some t" for p t
    using kind [OF that] assms(2) by (auto simp: token_kind_def reusable_token_def fresh_tokens_def dest!: find_Some_props)
  have dom_stage: "p \<in> set (pipe_stages P)" if "map_of uo p = Some t" for p t
    using that dom by (auto simp: local_edges_def)
  have ins: "set (in_target producers uo c) = {t. \<exists>p. (p, c) \<in> local_edges P \<and> keep p c \<and> map_of uo p = Some t}" for c
  proof -
    have "set (in_target producers uo c) = (\<lambda>p. the (map_of uo p)) ` producers_of producers c"
      by (simp add: in_target_def producers_of_def split: option.split)
    also have "\<dots> = {t. \<exists>p. (p, c) \<in> local_edges P \<and> keep p c \<and> map_of uo p = Some t}"
    proof -
      have some: "\<exists>t. map_of uo p = Some t" if "(p, c) \<in> local_edges P" "keep p c" for p using dom that by blast
      show ?thesis
      proof (intro set_eqI iffI)
        fix t assume "t \<in> (\<lambda>p. the (map_of uo p)) ` producers_of producers c"
        then obtain p where p: "(p, c) \<in> local_edges P" "keep p c" "t = the (map_of uo p)" unfolding prod by blast
        from some [OF p(1,2)] p show "t \<in> {t. \<exists>p. (p, c) \<in> local_edges P \<and> keep p c \<and> map_of uo p = Some t}" by fastforce
      next
        fix t assume "t \<in> {t. \<exists>p. (p, c) \<in> local_edges P \<and> keep p c \<and> map_of uo p = Some t}"
        then show "t \<in> (\<lambda>p. the (map_of uo p)) ` producers_of producers c" unfolding prod by force
      qed
    qed
    finally show ?thesis .
  qed
  have outs: "set (out_target uo s) = {t. map_of uo s = Some t}" for s
    by (cases "map_of uo s") (simp_all add: out_target_def)
  have local_out: "isLocalToken P t \<and> t \<in> set (outputs P' s) \<longleftrightarrow> map_of uo s = Some t" if "s \<in> set (pipe_stages P)" for s t
    using uo_local [of s t] by (auto simp: new [OF that] set_mergeTokens outs)
  have local_in: "isLocalToken P t \<and> t \<in> set (awaits P' c) \<longleftrightarrow> (\<exists>p. (p, c) \<in> local_edges P \<and> keep p c \<and> map_of uo p = Some t)"
    if "c \<in> set (pipe_stages P)" for c t
    using uo_local by (auto simp: new [OF that] set_mergeTokens ins)
  have edges': "local_edges P' = {(p, c) \<in> local_edges P. keep p c}"
  proof (intro set_eqI)
    fix e :: "stage_op \<times> stage_op"
    obtain p c where e: "e = (p, c)" by (cases e)
    show "e \<in> local_edges P' \<longleftrightarrow> e \<in> {(p, c) \<in> local_edges P. keep p c}"
    proof
      assume "e \<in> local_edges P'"
      then obtain t where t: "p \<in> set (pipe_stages P)" "c \<in> set (pipe_stages P)" "map_of uo p = Some t"
        "\<exists>q. (q, c) \<in> local_edges P \<and> keep q c \<and> map_of uo q = Some t"
        using local_out local_in unfolding e local_edges_def [of P'] st by blast
      then show "e \<in> {(p, c) \<in> local_edges P. keep p c}" using inj e by blast
    next
      assume kept: "e \<in> {(p, c) \<in> local_edges P. keep p c}"
      then have pc: "p \<in> set (pipe_stages P)" "c \<in> set (pipe_stages P)" by (auto simp: e local_edges_def)
      obtain t where t: "map_of uo p = Some t" using dom kept e by auto
      then have "isLocalToken P t \<and> t \<in> set (outputs P' p)" "isLocalToken P t \<and> t \<in> set (awaits P' c)"
        using local_out [OF pc(1)] local_in [OF pc(2)] kept e by blast+
      then show "e \<in> local_edges P'" using pc by (auto simp: e local_edges_def st)
    qed
  qed
  have fresh': "fresh_tokens new_token P'"
  proof -
    have "new_token n \<notin> set (outputs P' s) \<and> new_token n \<notin> set (awaits P' s)"
      if n: "made \<le> n" and s: "s \<in> set (pipe_stages P)" for n s
    proof -
      have unused: "map_of uo p \<noteq> Some (new_token n)" for p
      proof
        assume p: "map_of uo p = Some (new_token n)"
        then have ps: "p \<in> set (pipe_stages P)" by (rule dom_stage)
        have unused: "new_token n \<notin> set (outputs P p)" and inj_new: "inj new_token"
          using assms(2) n made ps by (auto simp: fresh_tokens_def)
        from kind [OF p] consider "new_token n \<in> set (outputs P p)" | k where "new_token n = new_token k" "k < made"
          by (auto simp: token_kind_def dest!: find_Some_props)
        then show False using unused injD [OF inj_new, of n] n by cases auto
      qed
      have "isLocalToken P (new_token n)" using assms(2) n made by (simp add: fresh_tokens_def)
      then show ?thesis using local_out [OF s] local_in [OF s] unused by blast
    qed
    then show ?thesis using assms(2) made by (simp add: fresh_tokens_def st)
  qed
  have norm: "normalized P'"
    unfolding normalized_def st
  proof (intro ballI conjI)
    fix s assume s: "s \<in> set (pipe_stages P)"
    show "distinct (awaits P' s)" "distinct (outputs P' s)" by (simp_all add: new [OF s] mergeTokens_def)
    show "if \<exists>c. (s, c) \<in> local_edges P' then \<exists>t. own_token P' s t else filter (isLocalToken P) (outputs P' s) = []"
    proof (cases "\<exists>c. (s, c) \<in> local_edges P'")
      case True
      then obtain t where t: "map_of uo s = Some t" using dom edges' by auto
      have only: "set (filter (isLocalToken P) (outputs P' s)) = {t}"
      proof -
        have "x \<in> set (filter (isLocalToken P) (outputs P' s)) \<longleftrightarrow> x = t" for x using local_out [OF s, of x] t by auto
        then show ?thesis by blast
      qed
      have "distinct (filter (isLocalToken P) (outputs P' s))" by (simp add: new [OF s] mergeTokens_def)
      then have "filter (isLocalToken P) (outputs P' s) = [t]" using only by (metis distinct_singleton_list)
      moreover have "t \<notin> set (outputs P' q)" if "q \<in> set (pipe_stages P)" "q \<noteq> s" for q
        using local_out [OF that(1)] inj [OF t] uo_local [OF t] that(2) by blast
      ultimately have "own_token P' s t" using uo_local [OF t] by (simp add: own_token_def st)
      then show ?thesis using True by auto
    next
      case False
      then have "map_of uo s = None" using dom edges' by auto
      then show ?thesis using False local_out [OF s] by (auto simp: filter_empty_conv)
    qed
    fix t assume t: "t \<in> set (awaits P' s)"
    show "isLocalToken P t \<longrightarrow> (\<exists>p. (p, s) \<in> local_edges P' \<and> t \<in> set (outputs P' p))"
    proof
      assume "isLocalToken P t"
      with t obtain p where p: "(p, s) \<in> local_edges P" "keep p s" "map_of uo p = Some t" using local_in [OF s] by blast
      then show "\<exists>p. (p, s) \<in> local_edges P' \<and> t \<in> set (outputs P' p)"
        using local_out [OF dom_stage [OF p(3)]] edges' by blast
    qed
  qed
  have foreign: "filter (\<lambda>t. \<not> isLocalToken P t) (awaits P' s) = first_occurrences (filter (\<lambda>t. \<not> isLocalToken P t) (awaits P s))"
    "filter (\<lambda>t. \<not> isLocalToken P t) (outputs P' s) = first_occurrences (filter (\<lambda>t. \<not> isLocalToken P t) (outputs P s))"
    if "s \<in> set (pipe_stages P)" for s
  proof -
    have "\<forall>t\<in>set (in_target producers uo s). isLocalToken P t" "\<forall>t\<in>set (out_target uo s). isLocalToken P t"
      using uo_local by (auto simp: ins outs)
    then show "filter (\<lambda>t. \<not> isLocalToken P t) (awaits P' s) = first_occurrences (filter (\<lambda>t. \<not> isLocalToken P t) (awaits P s))"
      "filter (\<lambda>t. \<not> isLocalToken P t) (outputs P' s) = first_occurrences (filter (\<lambda>t. \<not> isLocalToken P t) (outputs P s))"
      by (simp_all add: new [OF that] local_mergeTokens)
  qed
  define changed where "changed \<longleftrightarrow> (\<exists>s\<in>set (pipe_stages P). mergeTokens P (awaits P s) (in_target producers uo s) \<noteq> awaits P s \<or>
         mergeTokens P (outputs P s) (out_target uo s) \<noteq> outputs P s)"
  have same: "awaits P' = awaits P \<and> outputs P' = outputs P" if "\<not> changed"
    using that by (auto simp: changed_def P'_def retokened_def merge fun_eq_iff)
  have res: "rewriteTokens edges new_token P keep = Some (P', changed)" using run by (simp only: P'_def changed_def)
  show ?thesis
    by (rule exI [of _ P'], rule exI [of _ changed], intro conjI, rule res, rule st(2), rule st(3), rule edges', rule norm,
        rule fresh', use foreign in blast, use same in blast, simp_all add: P'_def retokened_def)
qed

text \<open>A pipeline in this form is left as it is.\<close>

lemma normalized_unchanged:
  assumes "consumer_edges edges" and "fresh_tokens new_token P" and "distinct (sp_body P)" and norm: "normalized P"
  shows "\<exists>P'. normalizeTokens edges new_token P = Some (P', False)"
proof -
  obtain producers uo made where run:
    "rewriteTokens edges new_token P (\<lambda>_ _. True) = Some (retokened (P\<lparr>tokens_made := made\<rparr>) producers uo (set (pipe_stages P)),
       \<exists>s\<in>set (pipe_stages P). mergeTokens P (awaits P s) (in_target producers uo s) \<noteq> awaits P s \<or>
         mergeTokens P (outputs P s) (out_target uo s) \<noteq> outputs P s)"
    and prod: "\<And>c. producers_of producers c = {p. (p, c) \<in> local_edges P \<and> True}"
    and dom: "dom (map_of uo) = {p. \<exists>c. (p, c) \<in> local_edges P \<and> True}"
    and kind: "\<And>p t. map_of uo p = Some t \<Longrightarrow> token_kind new_token P made p t"
    by (rule rewriteTokens_result [OF assms(1-3), of "\<lambda>_ _. True"], rule that)
  have own: "map_of uo p = Some t \<and> own_token P p t" if e: "(p, c) \<in> local_edges P" and t: "isLocalToken P t" "t \<in> set (outputs P p)" for p c t
  proof -
    have p: "p \<in> set (pipe_stages P)" using e by (auto simp: local_edges_def)
    obtain t' where t': "own_token P p t'" using norm p e by (auto simp: normalized_def split: if_splits)
    have "t \<in> set (filter (isLocalToken P) (outputs P p))" using t by simp
    moreover have "filter (isLocalToken P) (outputs P p) = [t']" using t' by (simp add: own_token_def)
    ultimately have [simp]: "t' = t" by (simp del: set_filter)
    obtain u where u: "map_of uo p = Some u" using dom e by auto
    have r: "reusable_token P p t" using t' by (auto simp: own_token_def reusable_token_def isUniqueTo_def list_all_iff)
    have "u = t"
    proof (cases "find (reusable_token P p) (outputs P p)")
      case None
      then have "\<forall>x\<in>set (outputs P p). \<not> reusable_token P p x" by (simp add: find_None_iff_ball)
      then show ?thesis using r t(2) by blast
    next
      case (Some v)
      then have "v = u" using kind [OF u] by (simp add: token_kind_def)
      have "isLocalToken P v" "v \<in> set (outputs P p)" using find_Some_props [OF Some] by (auto simp: reusable_token_def)
      then have "v \<in> set (filter (isLocalToken P) (outputs P p))" by simp
      moreover have "filter (isLocalToken P) (outputs P p) = [t]" using t' by (simp add: own_token_def)
      ultimately show ?thesis using \<open>v = u\<close> by (simp del: set_filter)
    qed
    then show ?thesis using u t' by simp
  qed
  have "mergeTokens P (awaits P s) (in_target producers uo s) = awaits P s \<and> mergeTokens P (outputs P s) (out_target uo s) = outputs P s"
    if s: "s \<in> set (pipe_stages P)" for s
  proof
    have d: "distinct (awaits P s)" "distinct (outputs P s)" using norm s by (auto simp: normalized_def)
    have ins: "t \<in> set (in_target producers uo s) \<longleftrightarrow> isLocalToken P t \<and> t \<in> set (awaits P s)" for t
    proof -
      have set_in: "set (in_target producers uo s) = (\<lambda>p. the (map_of uo p)) ` producers_of producers s"
        by (simp add: in_target_def producers_of_def split: option.split)
      show ?thesis
      proof
        assume "t \<in> set (in_target producers uo s)"
        then obtain p where p: "(p, s) \<in> local_edges P" "t = the (map_of uo p)" unfolding set_in prod by blast
        then obtain u where u: "isLocalToken P u" "u \<in> set (outputs P p)" "u \<in> set (awaits P s)" by (auto simp: local_edges_def)
        with own [OF p(1) u(1,2)] p(2) show "isLocalToken P t \<and> t \<in> set (awaits P s)" by simp
      next
        assume t: "isLocalToken P t \<and> t \<in> set (awaits P s)"
        then obtain p where p: "(p, s) \<in> local_edges P" "t \<in> set (outputs P p)" using norm s by (auto simp: normalized_def)
        then have "map_of uo p = Some t" using own t by blast
        then show "t \<in> set (in_target producers uo s)" unfolding set_in prod using p(1) by force
      qed
    qed
    have "filter (\<lambda>t. \<not> isLocalToken P t \<or> t \<in> set (in_target producers uo s)) (awaits P s) = awaits P s"
      by (rule filter_True) (use ins in blast)
    then show "mergeTokens P (awaits P s) (in_target producers uo s) = awaits P s"
      using first_occurrences_absorb [OF d(1), of "in_target producers uo s"] ins by (simp add: mergeTokens_def subset_iff)
    have outs: "t \<in> set (out_target uo s) \<longleftrightarrow> isLocalToken P t \<and> t \<in> set (outputs P s)" for t
    proof (cases "\<exists>c. (s, c) \<in> local_edges P")
      case True
      then obtain c t' where c: "(s, c) \<in> local_edges P" "own_token P s t'" using norm s by (auto simp: normalized_def split: if_splits)
      have t': "isLocalToken P t'" "filter (isLocalToken P) (outputs P s) = [t']" using c(2) by (auto simp: own_token_def)
      have f: "isLocalToken P t \<and> t \<in> set (outputs P s) \<longleftrightarrow> t = t'" for t
      proof -
        have "isLocalToken P t \<and> t \<in> set (outputs P s) \<longleftrightarrow> t \<in> set (filter (isLocalToken P) (outputs P s))" by auto
        then show ?thesis by (simp only: t'(2)) simp
      qed
      then have "map_of uo s = Some t'" using own [OF c(1) t'(1)] f by blast
      then show ?thesis using f by (simp add: out_target_def)
    next
      case False
      then have "map_of uo s = None" "filter (isLocalToken P) (outputs P s) = []" using dom norm s by (auto simp: normalized_def)
      then show ?thesis by (auto simp: out_target_def filter_empty_conv)
    qed
    have "filter (\<lambda>t. \<not> isLocalToken P t \<or> t \<in> set (out_target uo s)) (outputs P s) = outputs P s"
      by (rule filter_True) (use outs in blast)
    then show "mergeTokens P (outputs P s) (out_target uo s) = outputs P s"
      using first_occurrences_absorb [OF d(2), of "out_target uo s"] outs by (simp add: mergeTokens_def subset_iff)
  qed
  then show ?thesis using run by (simp add: normalizeTokens_def)
qed

section \<open>Strongly connected components\<close>

definition succ_rel :: "('a \<Rightarrow> 'a list) \<Rightarrow> ('a \<times> 'a) set" where
  "succ_rel succs = {(a, b). b \<in> set (succs a)}"

definition mutual :: "('a \<times> 'a) set \<Rightarrow> 'a \<Rightarrow> 'a \<Rightarrow> bool" where
  "mutual E a b \<longleftrightarrow> (a, b) \<in> E\<^sup>* \<and> (b, a) \<in> E\<^sup>*"

text \<open>The components reachable from a root, each after those reachable from it.\<close>

definition scc_listing :: "('a \<Rightarrow> 'a list) \<Rightarrow> 'a \<Rightarrow> 'a list list \<Rightarrow> bool" where
  "scc_listing succs root cs \<longleftrightarrow>
     set (concat cs) = {a. (root, a) \<in> (succ_rel succs)\<^sup>*} \<and>
     (\<forall>c\<in>set cs. c \<noteq> [] \<and> (\<forall>a\<in>set c. set c = {b. mutual (succ_rel succs) a b})) \<and>
     (\<forall>as c bs. cs = as @ c # bs \<longrightarrow> (\<forall>a\<in>set c. set (succs a) \<subseteq> set (concat as) \<union> set c))"

lemma mutual_refl: "mutual E a a"
  by (simp add: mutual_def)

lemma mutual_sym: "mutual E a b \<Longrightarrow> mutual E b a"
  by (simp add: mutual_def)

lemma mutual_trans: "mutual E a b \<Longrightarrow> mutual E b c \<Longrightarrow> mutual E a c"
  unfolding mutual_def by (meson rtrancl_trans)

definition num_ok :: "(nat \<Rightarrow> nat list) \<Rightarrow> numbering \<Rightarrow> bool" where
  "num_ok succs s \<longleftrightarrow>
     (\<forall>a i. fst s a = Some i \<longrightarrow> i < snd s \<and> (\<forall>b\<in>set (succs a). \<exists>j\<le>i. fst s b = Some j) \<and>
        (\<forall>b. mutual (succ_rel succs) a b \<longrightarrow> fst s b = Some i)) \<and>
     (\<forall>a b i. fst s a = Some i \<longrightarrow> fst s b = Some i \<longrightarrow> mutual (succ_rel succs) a b)"

lemma num_ok_bound: "num_ok succs s \<Longrightarrow> fst s a = Some i \<Longrightarrow> i < snd s"
  unfolding num_ok_def by blast

lemma num_ok_succ: "num_ok succs s \<Longrightarrow> fst s a = Some i \<Longrightarrow> b \<in> set (succs a) \<Longrightarrow> \<exists>j\<le>i. fst s b = Some j"
  unfolding num_ok_def by blast

lemma num_ok_mutual: "num_ok succs s \<Longrightarrow> fst s a = Some i \<Longrightarrow> mutual (succ_rel succs) a b \<Longrightarrow> fst s b = Some i"
  unfolding num_ok_def by blast

lemma num_ok_same: "num_ok succs s \<Longrightarrow> fst s a = Some i \<Longrightarrow> fst s b = Some i \<Longrightarrow> mutual (succ_rel succs) a b"
  unfolding num_ok_def by blast

lemma fold_number: "fold (\<lambda>n f. f(n := Some k)) c f = (\<lambda>n. if n \<in> set c then Some k else f n)"
  by (induction c arbitrary: f) (auto simp: fun_eq_iff)

lemma number_scc_ok:
  assumes ok: "num_ok succs s" and c: "c \<noteq> []" "\<forall>a\<in>set c. set c = {b. mutual (succ_rel succs) a b}"
    and succs: "\<forall>a\<in>set c. \<forall>b\<in>set (succs a). b \<in> set c \<or> fst s b \<noteq> None"
  shows "num_ok succs (number_scc c s) \<and> (\<forall>a\<in>set c. fst (number_scc c s) a \<noteq> None) \<and>
    (\<forall>a. fst s a \<noteq> None \<longrightarrow> fst (number_scc c s) a \<noteq> None)"
proof (cases "fst s (hd c)")
  case (Some i)
  then have run: "number_scc c s = s" by (simp add: number_scc_def)
  have "hd c \<in> set c" using c(1) by simp
  then have "set c = {b. mutual (succ_rel succs) (hd c) b}" using c(2) by blast
  then have "\<forall>a\<in>set c. fst s a = Some i" using num_ok_mutual [OF ok Some] by blast
  then show ?thesis using ok run by auto
next
  case None
  let ?f = "\<lambda>n. if n \<in> set c then Some (snd s) else fst s n"
  have run: "number_scc c s = (?f, Suc (snd s))" using None by (simp add: number_scc_def fold_number)
  have hd: "hd c \<in> set c" using c(1) by simp
  have new: "fst s a = None" if "a \<in> set c" for a
  proof (rule ccontr)
    assume "fst s a \<noteq> None"
    then obtain i where i: "fst s a = Some i" by blast
    have "mutual (succ_rel succs) a (hd c)" using c(2) that hd by blast
    then have "fst s (hd c) = Some i" by (rule num_ok_mutual [OF ok i])
    then show False using None by simp
  qed
  have "num_ok succs (?f, Suc (snd s))"
    unfolding num_ok_def fst_conv snd_conv
  proof (intro conjI allI impI)
    fix a i assume a: "?f a = Some i"
    show "i < Suc (snd s)"
    proof (cases "a \<in> set c")
      case False
      then have "i < snd s" using a by (auto intro: num_ok_bound [OF ok])
      then show ?thesis by simp
    qed (use a in simp)
    show "\<forall>b\<in>set (succs a). \<exists>j\<le>i. ?f b = Some j"
    proof
      fix b assume b: "b \<in> set (succs a)"
      show "\<exists>j\<le>i. ?f b = Some j"
      proof (cases "a \<in> set c")
        case True
        then have i: "i = snd s" using a by simp
        show ?thesis
        proof (cases "b \<in> set c")
          case False
          then obtain j where "fst s b = Some j" using succs True b by blast
          moreover from this have "j < snd s" by (rule num_ok_bound [OF ok])
          ultimately show ?thesis using False i by auto
        qed (use i in auto)
      next
        case False
        then have fa: "fst s a = Some i" using a by simp
        then obtain j where j: "j \<le> i" "fst s b = Some j" using num_ok_succ [OF ok fa b] by blast
        then have "b \<notin> set c" using new by force
        then show ?thesis using j by auto
      qed
    qed
    fix b assume m: "mutual (succ_rel succs) a b"
    show "?f b = Some i"
    proof (cases "a \<in> set c")
      case True
      then have "b \<in> set c" using c(2) m by blast
      then show ?thesis using a True by simp
    next
      case False
      then have "fst s b = Some i" using a by (intro num_ok_mutual [OF ok _ m]) simp
      moreover from this have "b \<notin> set c" using new by force
      ultimately show ?thesis by simp
    qed
  next
    fix a b i assume ab: "?f a = Some i" "?f b = Some i"
    have old: "j < snd s" if "fst s x = Some j" for x j by (rule num_ok_bound [OF ok that])
    consider "a \<in> set c" "b \<in> set c" | "a \<notin> set c" "b \<notin> set c" using ab old by (fastforce split: if_splits)
    then show "mutual (succ_rel succs) a b"
    proof cases
      case 1
      then show ?thesis using c(2) by blast
    next
      case 2
      then show ?thesis using ab by (intro num_ok_same [OF ok, of a i b]) simp_all
    qed
  qed
  then show ?thesis unfolding run by auto
qed

lemma number_listing_ok:
  assumes list: "scc_listing succs root cs" and ok: "num_ok succs s"
  shows "cs = as @ bs \<Longrightarrow> num_ok succs (fold number_scc as s) \<and>
    (\<forall>a\<in>set (concat as). fst (fold number_scc as s) a \<noteq> None) \<and> (\<forall>a. fst s a \<noteq> None \<longrightarrow> fst (fold number_scc as s) a \<noteq> None)"
proof (induction as arbitrary: bs rule: rev_induct)
  case (snoc c as)
  let ?s = "fold number_scc as s"
  have IH: "num_ok succs ?s" "\<forall>a\<in>set (concat as). fst ?s a \<noteq> None" "\<forall>a. fst s a \<noteq> None \<longrightarrow> fst ?s a \<noteq> None"
    using snoc.IH [of "c # bs"] snoc.prems by simp_all
  have cs: "cs = as @ c # bs" using snoc.prems by simp
  then have c: "c \<noteq> []" "\<forall>a\<in>set c. set c = {b. mutual (succ_rel succs) a b}" "\<forall>a\<in>set c. set (succs a) \<subseteq> set (concat as) \<union> set c"
    using list unfolding scc_listing_def by auto
  have "\<forall>a\<in>set c. \<forall>b\<in>set (succs a). b \<in> set c \<or> fst ?s b \<noteq> None" using c(3) IH(2) by blast
  from number_scc_ok [OF IH(1) c(1,2) this] show ?case using IH(2,3) by auto
qed (use ok in simp)

definition number_root :: "nat list list \<Rightarrow> nat \<Rightarrow> numbering \<Rightarrow> numbering" where
  "number_root cs root s = (if fst s root \<noteq> None then s else fold number_scc cs s)"

lemma number_root_ok:
  assumes "scc_listing succs root cs" and "num_ok succs s"
  shows "num_ok succs (number_root cs root s) \<and> fst (number_root cs root s) root \<noteq> None \<and>
    (\<forall>a. fst s a \<noteq> None \<longrightarrow> fst (number_root cs root s) a \<noteq> None)"
proof (cases "fst s root")
  case None
  have "set (concat cs) = {a. (root, a) \<in> (succ_rel succs)\<^sup>*}" using assms(1) unfolding scc_listing_def by (rule conjunct1)
  then have r: "root \<in> set (concat cs)" by simp
  have run: "number_root cs root s = fold number_scc cs s" using None by (simp add: number_root_def)
  note l = number_listing_ok [OF assms, of cs "[]", OF append_Nil2 [symmetric]]
  show ?thesis
    unfolding run
  proof (intro conjI)
    show "num_ok succs (fold number_scc cs s)" using l by (rule conjunct1)
    show "fst (fold number_scc cs s) root \<noteq> None" using bspec [OF conjunct1 [OF conjunct2 [OF l]] r] .
    show "\<forall>a. fst s a \<noteq> None \<longrightarrow> fst (fold number_scc cs s) a \<noteq> None" using conjunct2 [OF conjunct2 [OF l]] .
  qed
next
  case (Some i)
  have run: "number_root cs root s = s" using Some by (simp add: number_root_def)
  show ?thesis unfolding run using assms(2) Some by simp
qed

lemma number_sccs_ok:
  assumes "\<forall>root<n. scc_listing succs root (sccs root)"
  shows "num_ok succs (number_sccs sccs n) \<and> (\<forall>a<n. fst (number_sccs sccs n) a \<noteq> None)"
proof -
  let ?run = "\<lambda>k. fold (\<lambda>root. number_root (sccs root) root) [0..<k] (\<lambda>_. None, 0)"
  have "num_ok succs (?run k) \<and> (\<forall>a<k. fst (?run k) a \<noteq> None)" if "k \<le> n" for k
    using that
  proof (induction k)
    case 0
    then show ?case by (simp add: num_ok_def)
  next
    case (Suc k)
    have IH: "num_ok succs (?run k)" "\<forall>a<k. fst (?run k) a \<noteq> None" using Suc by simp_all
    have l: "scc_listing succs k (sccs k)" using assms Suc.prems by simp
    have run: "?run (Suc k) = number_root (sccs k) k (?run k)" by simp
    have "fst (number_root (sccs k) k (?run k)) a \<noteq> None" if "a < Suc k" for a
    proof (cases "a = k")
      case True
      then show ?thesis using number_root_ok [OF l IH(1)] by simp
    next
      case False
      then have "fst (?run k) a \<noteq> None" using that IH(2) by simp
      then show ?thesis using number_root_ok [OF l IH(1)] by blast
    qed
    then show ?case using number_root_ok [OF l IH(1)] unfolding run by blast
  qed
  then show ?thesis by (simp add: number_sccs_def number_root_def [abs_def])
qed

section \<open>Edges between components\<close>

lemma add_successors: "fold (add_successor f i) js S s = S s \<union> {t. f i = s \<and> t \<noteq> s \<and> (\<exists>j\<in>set js. f j = t)}"
  by (induction js arbitrary: S) (auto simp: add_successor_def)

lemma scc_successors_result:
  "scc_successors graph f s = {t. t \<noteq> s \<and> (\<exists>i<length graph. f i = s \<and> (\<exists>j\<in>set (graph ! i). f j = t))}"
proof -
  have "fold (\<lambda>i. fold (add_successor f i) (graph ! i)) is S s =
      S s \<union> {t. t \<noteq> s \<and> (\<exists>i\<in>set is. f i = s \<and> (\<exists>j\<in>set (graph ! i). f j = t))}" for "is" S
    by (induction "is" arbitrary: S) (auto simp: add_successors)
  then show ?thesis by (auto simp: scc_successors_def)
qed

lemma fold_union: "fold (\<lambda>x acc. acc \<union> f x) xs A = A \<union> (\<Union>x\<in>set xs. f x)"
  by (induction xs arbitrary: A) auto

lemma implied_sccs_result:
  assumes "\<forall>s<num. S s \<subseteq> {..<s}"
  shows "s < num \<Longrightarrow> fst (implied_sccs num S) s = {t. \<exists>u\<in>S s. (u, t) \<in> {(a, b). b \<in> S a}\<^sup>+}"
proof -
  let ?R = "{(a, b). b \<in> S a}"
  let ?run = "\<lambda>k. fold (reach_scc num S) [0..<k] (\<lambda>_. {}, \<lambda>_. {})"
  have "\<forall>s. fst (?run k) s = (if s < k then {t. \<exists>u\<in>S s. (u, t) \<in> ?R\<^sup>+} else {}) \<and>
      snd (?run k) s = (if s < k then {t. (s, t) \<in> ?R\<^sup>+} else {})" if "k \<le> num" for k
    using that
  proof (induction k)
    case (Suc k)
    obtain implied reachable where run: "?run k = (implied, reachable)" by fastforce
    have IH: "\<And>s. implied s = (if s < k then {t. \<exists>u\<in>S s. (u, t) \<in> ?R\<^sup>+} else {})"
      "\<And>s. reachable s = (if s < k then {t. (s, t) \<in> ?R\<^sup>+} else {})"
      using Suc run by simp_all
    have sub: "S k \<subseteq> {..<k}" using assms Suc.prems by simp
    then have set: "set (filter (\<lambda>u. u \<in> S k) [0..<num]) = S k" using Suc.prems by auto
    have im: "fold (\<lambda>u acc. acc \<union> reachable u) (filter (\<lambda>u. u \<in> S k) [0..<num]) (implied k) = {t. \<exists>u\<in>S k. (u, t) \<in> ?R\<^sup>+}"
      unfolding fold_union set IH using sub by auto
    have tr: "{t. \<exists>u\<in>S k. (u, t) \<in> ?R\<^sup>+} \<union> S k = {t. (k, t) \<in> ?R\<^sup>+}"
    proof (intro set_eqI iffI)
      fix t assume "t \<in> {t. \<exists>u\<in>S k. (u, t) \<in> ?R\<^sup>+} \<union> S k"
      then show "t \<in> {t. (k, t) \<in> ?R\<^sup>+}" by (auto intro: trancl_into_trancl2)
    next
      fix t assume "t \<in> {t. (k, t) \<in> ?R\<^sup>+}"
      then have "(k, t) \<in> ?R\<^sup>+" by simp
      then show "t \<in> {t. \<exists>u\<in>S k. (u, t) \<in> ?R\<^sup>+} \<union> S k" by (cases rule: converse_tranclE) auto
    qed
    have "?run (Suc k) = (implied(k := {t. \<exists>u\<in>S k. (u, t) \<in> ?R\<^sup>+}), reachable(k := {t. (k, t) \<in> ?R\<^sup>+}))"
      by (simp add: run reach_scc_def Let_def im tr del: fold_filter)
    then show ?case by (auto simp: IH less_Suc_eq)
  qed simp
  from this [of num] show "s < num \<Longrightarrow> fst (implied_sccs num S) s = {t. \<exists>u\<in>S s. (u, t) \<in> ?R\<^sup>+}"
    by (simp add: implied_sccs_def)
qed

text \<open>
  An abstract view: a relation with a rank that never increases along an edge and is equal within
  cycles. Dropping an edge that has another way round keeps the paths.
\<close>

definition bypassed :: "('a \<times> 'a) set \<Rightarrow> 'a \<Rightarrow> 'a \<Rightarrow> bool" where
  "bypassed E p c \<longleftrightarrow> (c, p) \<notin> E\<^sup>* \<and> (\<exists>q. (p, q) \<in> E\<^sup>* \<and> (q, c) \<in> E\<^sup>* \<and> (q, p) \<notin> E\<^sup>* \<and> (c, q) \<notin> E\<^sup>*)"

definition reduced :: "('a \<times> 'a) set \<Rightarrow> ('a \<times> 'a) set" where
  "reduced E = {(p, c) \<in> E. \<not> bypassed E p c}"

lemma rank_path:
  fixes rank :: "'a \<Rightarrow> nat"
  assumes "\<forall>(a, b)\<in>E. rank b \<le> rank a" and "(a, b) \<in> E\<^sup>*"
  shows "rank b \<le> rank a"
  using assms(2) by (induction rule: rtrancl_induct) (use assms(1) in force)+

lemma reduced_paths:
  fixes rank :: "'a \<Rightarrow> nat"
  assumes mono: "\<forall>(a, b)\<in>E. rank b \<le> rank a"
    and cyc: "\<forall>a b. (a, b) \<in> E\<^sup>* \<longrightarrow> rank a = rank b \<longrightarrow> (b, a) \<in> E\<^sup>*"
  shows "(reduced E)\<^sup>* = E\<^sup>*"
proof
  show "(reduced E)\<^sup>* \<subseteq> E\<^sup>*" by (rule rtrancl_mono) (auto simp: reduced_def)
  have "(p, c) \<in> (reduced E)\<^sup>*" if "(p, c) \<in> E\<^sup>*" "rank p - rank c \<le> d" for p c d
    using that
  proof (induction d arbitrary: p c rule: less_induct)
    case (less d)
    have edge: "(x, y) \<in> (reduced E)\<^sup>*" if xy: "(x, y) \<in> E" and d: "rank x - rank y \<le> d" for x y
    proof (cases "bypassed E x y")
      case False
      then show ?thesis using xy by (auto simp: reduced_def)
    next
      case True
      then obtain q where q: "(x, q) \<in> E\<^sup>*" "(q, y) \<in> E\<^sup>*" "(q, x) \<notin> E\<^sup>*" "(y, q) \<notin> E\<^sup>*" by (auto simp: bypassed_def)
      have "rank q \<le> rank x" "rank y \<le> rank q" using rank_path [OF mono] q(1,2) by blast+
      moreover have "rank q \<noteq> rank x" "rank y \<noteq> rank q" using cyc q by metis+
      ultimately have lt: "rank x - rank q < d" "rank q - rank y < d" using d by linarith+
      have "(x, q) \<in> (reduced E)\<^sup>*" "(q, y) \<in> (reduced E)\<^sup>*"
        using less.IH [OF lt(1) q(1)] less.IH [OF lt(2) q(2)] by simp_all
      then show ?thesis by (rule rtrancl_trans)
    qed
    have "(p, y) \<in> E\<^sup>* \<Longrightarrow> (y, c) \<in> E\<^sup>* \<Longrightarrow> (p, y) \<in> (reduced E)\<^sup>*" for y
    proof (induction rule: rtrancl_induct)
      case (step x y)
      have "(x, c) \<in> E\<^sup>*" using step.hyps(2) step.prems by (rule converse_rtrancl_into_rtrancl)
      then have px: "(p, x) \<in> (reduced E)\<^sup>*" using step.IH by blast
      have "rank x \<le> rank p" "rank c \<le> rank y" using rank_path [OF mono] step.hyps(1) step.prems by blast+
      then have "rank x - rank y \<le> d" using less.prems(2) by linarith
      then show ?case using edge [OF step.hyps(2)] px by (meson rtrancl_trans)
    qed simp
    from this [OF less.prems(1)] show ?case by simp
  qed
  then show "E\<^sup>* \<subseteq> (reduced E)\<^sup>*" by auto
qed

section \<open>The graph over indices\<close>

lemma local_graph_result:
  assumes "consumer_edges edges" and "distinct (sp_body P)"
  shows "\<exists>graph. local_graph edges P = Some graph \<and> length graph = length (pipe_stages P) \<and>
    (\<forall>s\<in>set (pipe_stages P). set (graph ! index_of (pipe_stages P) s) = index_of (pipe_stages P) ` {c. (s, c) \<in> local_edges P})"
proof -
  let ?idx = "index_of (pipe_stages P)"
  define loc where "loc = (\<lambda>s. filter (\<lambda>e. isLocalToken P (fst e)) (edges P s))"
  have e: "(t, c) \<in> set (loc s) \<longleftrightarrow> isLocalToken P t \<and> t \<in> set (outputs P s) \<and> c \<in> set (pipe_stages P) \<and> t \<in> set (awaits P c)"
    if "s \<in> set (pipe_stages P)" for s t c
    using assms(1) that unfolding consumer_edges_def loc_def by auto
  have node: "local_node edges P s = Some (map (\<lambda>e. ?idx (snd e)) (loc s))" if s: "s \<in> set (pipe_stages P)" for s
  proof -
    have "\<forall>e\<in>set (loc s). index_at (pipe_stages P) (snd e) \<noteq> None" using e [OF s] by (auto simp: index_at_def)
    moreover have "map (\<lambda>x. the (index_at (pipe_stages P) (snd x))) (loc s) = map (\<lambda>e. ?idx (snd e)) (loc s)"
      using e [OF s] by (auto simp: index_at_def)
    moreover have "local_node edges P s = those (map (\<lambda>e. index_at (pipe_stages P) (snd e)) (loc s))"
      by (simp add: local_node_def loc_def)
    ultimately show ?thesis by (simp only: those_map)
  qed
  have "local_graph edges P = Some (map (\<lambda>s. the (local_node edges P s)) (pipe_stages P))"
    unfolding local_graph_def by (rule those_map) (use node in simp)
  then have run: "local_graph edges P = Some (map (\<lambda>s. map (\<lambda>e. ?idx (snd e)) (loc s)) (pipe_stages P))"
    using node by simp
  have "set (map (\<lambda>s. map (\<lambda>e. ?idx (snd e)) (loc s)) (pipe_stages P) ! ?idx s) = ?idx ` {c. (s, c) \<in> local_edges P}"
    if s: "s \<in> set (pipe_stages P)" for s
  proof -
    have "?idx s < length (pipe_stages P)" using s by (simp add: index_of_less)
    then have "map (\<lambda>s. map (\<lambda>e. ?idx (snd e)) (loc s)) (pipe_stages P) ! ?idx s = map (\<lambda>e. ?idx (snd e)) (loc s)"
      using s by simp
    moreover have "snd ` set (loc s) = {c. (s, c) \<in> local_edges P}"
    proof (intro set_eqI iffI)
      fix c assume "c \<in> snd ` set (loc s)"
      then obtain t where "(t, c) \<in> set (loc s)" by auto
      then show "c \<in> {c. (s, c) \<in> local_edges P}" using s e [OF s, of t c] by (auto simp: local_edges_def)
    next
      fix c assume "c \<in> {c. (s, c) \<in> local_edges P}"
      then obtain t where "(t, c) \<in> set (loc s)" using e [OF s] by (auto simp: local_edges_def)
      then show "c \<in> snd ` set (loc s)" by force
    qed
    ultimately show ?thesis by (simp add: image_image [symmetric])
  qed
  then show ?thesis using run by simp
qed

text \<open>Edges of the pipeline and of the graph over indices.\<close>

definition indexed :: "stage_op list \<Rightarrow> (stage_op \<times> stage_op) set \<Rightarrow> nat list list \<Rightarrow> bool" where
  "indexed stages E graph \<longleftrightarrow> distinct stages \<and> E \<subseteq> set stages \<times> set stages \<and> length graph = length stages \<and>
     (\<forall>s\<in>set stages. set (graph ! index_of stages s) = index_of stages ` {c. (s, c) \<in> E})"

lemma index_of_inj: "a \<in> set xs \<Longrightarrow> b \<in> set xs \<Longrightarrow> index_of xs a = index_of xs b \<Longrightarrow> a = b"
  by (metis nth_index_of)

lemma index_path:
  assumes "indexed stages E graph" and "(a, b) \<in> E\<^sup>*" and "a \<in> set stages"
  shows "b \<in> set stages \<and> (index_of stages a, index_of stages b) \<in> (succ_rel ((!) graph))\<^sup>*"
  using assms(2)
proof (induction rule: rtrancl_induct)
  case (step y z)
  then have "z \<in> set stages" using assms(1) by (auto simp: indexed_def)
  moreover have "(index_of stages y, index_of stages z) \<in> succ_rel ((!) graph)"
    using step assms(1) by (auto simp: indexed_def succ_rel_def)
  ultimately show ?case using step.IH by (auto intro: rtrancl_into_rtrancl)
qed (use assms(3) in simp)

lemma path_index:
  assumes "indexed stages E graph" and "(index_of stages a, j) \<in> (succ_rel ((!) graph))\<^sup>*" and "a \<in> set stages"
  shows "\<exists>b\<in>set stages. j = index_of stages b \<and> (a, b) \<in> E\<^sup>*"
  using assms(2)
proof (induction rule: rtrancl_induct)
  case base
  then show ?case using assms(3) by blast
next
  case (step i j)
  then obtain b where b: "b \<in> set stages" "i = index_of stages b" "(a, b) \<in> E\<^sup>*" by blast
  then have "j \<in> index_of stages ` {c. (b, c) \<in> E}" using step.hyps(2) assms(1) by (auto simp: indexed_def succ_rel_def)
  then obtain c where "(b, c) \<in> E" "j = index_of stages c" by blast
  then show ?case using b(3) assms(1) by (auto simp: indexed_def intro: rtrancl_into_rtrancl)
qed

lemma path_iff_index:
  assumes "indexed stages E graph" and "a \<in> set stages" and "b \<in> set stages"
  shows "(a, b) \<in> E\<^sup>* \<longleftrightarrow> (index_of stages a, index_of stages b) \<in> (succ_rel ((!) graph))\<^sup>*"
proof
  assume "(index_of stages a, index_of stages b) \<in> (succ_rel ((!) graph))\<^sup>*"
  from path_index [OF assms(1) this assms(2)] show "(a, b) \<in> E\<^sup>*" using index_of_inj assms(3) by metis
qed (use index_path [OF assms(1) _ assms(2)] in blast)

text \<open>The test on the numbers of the components is the absence of a way round.\<close>

lemma implied_iff_bypassed:
  assumes ix: "indexed stages E graph" and list: "\<forall>root<length graph. scc_listing ((!) graph) root (sccs root)"
    and num: "number_sccs sccs (length graph) = (m, num)"
  defines "f \<equiv> \<lambda>s. the (m (index_of stages s))" and "scc_of \<equiv> \<lambda>i. the (m i)"
  shows "\<forall>(a, b)\<in>E. f b \<le> f a"
    and "\<forall>a\<in>set stages. \<forall>b\<in>set stages. f a = f b \<longleftrightarrow> mutual E a b"
    and "(p, c) \<in> E \<Longrightarrow> (f p = f c \<or> f c \<notin> fst (implied_sccs num (scc_successors graph scc_of)) (f p)) \<longleftrightarrow> \<not> bypassed E p c"
proof -
  let ?idx = "index_of stages" and ?R = "succ_rel ((!) graph)"
  have ok: "num_ok ((!) graph) (m, num)" and all: "\<forall>a<length graph. m a \<noteq> None"
    using number_sccs_ok [OF list] num by simp_all
  have len: "length graph = length stages" and E: "E \<subseteq> set stages \<times> set stages" using ix by (auto simp: indexed_def)
  have some: "m (?idx s) = Some (f s)" if "s \<in> set stages" for s
    using all that len by (auto simp: f_def index_of_less)
  have bound: "f s < num" if "s \<in> set stages" for s
    using num_ok_bound [OF ok, of "?idx s" "f s"] some [OF that] by simp
  have edge: "?idx b \<in> set (graph ! ?idx a) \<and> a \<in> set stages \<and> b \<in> set stages" if "(a, b) \<in> E" for a b
    using that ix E unfolding indexed_def by blast
  show mono: "\<forall>(a, b)\<in>E. f b \<le> f a"
  proof clarify
    fix a b assume "(a, b) \<in> E"
    then have e: "?idx b \<in> set (graph ! ?idx a)" "a \<in> set stages" "b \<in> set stages" using edge by blast+
    then show "f b \<le> f a" using num_ok_succ [OF ok _ e(1)] some [OF e(2)] some [OF e(3)] by auto
  qed
  show same: "\<forall>a\<in>set stages. \<forall>b\<in>set stages. f a = f b \<longleftrightarrow> mutual E a b"
  proof (intro ballI)
    fix a b assume ab: "a \<in> set stages" "b \<in> set stages"
    have "mutual E a b \<longleftrightarrow> mutual ?R (?idx a) (?idx b)" using path_iff_index [OF ix] ab by (simp add: mutual_def)
    also have "\<dots> \<longleftrightarrow> f a = f b"
      using num_ok_same [OF ok, of "?idx a" "f a" "?idx b"] num_ok_mutual [OF ok, of "?idx a" "f a" "?idx b"] some ab by auto
    finally show "f a = f b \<longleftrightarrow> mutual E a b" by simp
  qed
  define S where "S = scc_successors graph scc_of"
  have S: "t \<in> S s \<longleftrightarrow> t \<noteq> s \<and> (\<exists>a b. (a, b) \<in> E \<and> f a = s \<and> f b = t)" for s t
  proof
    assume "t \<in> S s"
    then obtain i j where ij: "t \<noteq> s" "i < length graph" "scc_of i = s" "j \<in> set (graph ! i)" "scc_of j = t"
      by (auto simp: S_def scc_successors_result)
    have len_i: "i < length stages" using ij(2) len by simp
    define a where "a = stages ! i"
    have a: "a \<in> set stages" "?idx a = i"
      using index_of_nth [of stages i] nth_mem [OF len_i] len_i ix by (auto simp: indexed_def a_def)
    have "j \<in> ?idx ` {c. (a, c) \<in> E}" using ix ij(4) a by (auto simp: indexed_def)
    then obtain b where "(a, b) \<in> E" "j = ?idx b" by blast
    then show "t \<noteq> s \<and> (\<exists>a b. (a, b) \<in> E \<and> f a = s \<and> f b = t)" using ij a by (auto simp: f_def scc_of_def)
  next
    assume "t \<noteq> s \<and> (\<exists>a b. (a, b) \<in> E \<and> f a = s \<and> f b = t)"
    then obtain a b where ab: "t \<noteq> s" "(a, b) \<in> E" "f a = s" "f b = t" by blast
    then have "?idx b \<in> set (graph ! ?idx a)" "?idx a < length graph" using edge [OF ab(2)] len by (auto simp: index_of_less)
    then show "t \<in> S s" using ab by (auto simp: S_def scc_successors_result f_def scc_of_def)
  qed
  let ?T = "{(a, b). b \<in> S a}"
  have below: "\<forall>s<num. S s \<subseteq> {..<s}"
  proof (intro allI impI subsetI)
    fix s t assume "t \<in> S s"
    then obtain a b where "t \<noteq> s" "(a, b) \<in> E" "f a = s" "f b = t" using S by blast
    then show "t \<in> {..<s}" using mono by fastforce
  qed
  have up: "b \<in> S a \<Longrightarrow> b < a" for a b
  proof -
    assume "b \<in> S a"
    then obtain x y where "b \<noteq> a" "(x, y) \<in> E" "f x = a" "f y = b" using S by blast
    then show "b < a" using mono by fastforce
  qed
  have lower: "t < s" if "(s, t) \<in> ?T\<^sup>+" for s t
    using that by (induction rule: trancl_induct) (use up in force)+
  have path: "\<forall>a\<in>set stages. \<forall>b\<in>set stages. f a = s \<longrightarrow> f b = t \<longrightarrow> (a, b) \<in> E\<^sup>*" if "(s, t) \<in> ?T\<^sup>+" for s t
    using that
  proof (induction rule: trancl_induct)
    case (base t)
    then obtain x y where xy: "(x, y) \<in> E" "f x = s" "f y = t" using S by blast
    then have st: "x \<in> set stages" "y \<in> set stages" using edge by blast+
    show ?case
    proof (intro ballI impI)
      fix a b assume ab: "a \<in> set stages" "b \<in> set stages" "f a = s" "f b = t"
      then have "(a, x) \<in> E\<^sup>*" "(y, b) \<in> E\<^sup>*" using same st xy(2,3) by (auto simp: mutual_def)
      then show "(a, b) \<in> E\<^sup>*" using xy(1) by (meson converse_rtrancl_into_rtrancl rtrancl_trans)
    qed
  next
    case (step u t)
    then obtain x y where xy: "(x, y) \<in> E" "f x = u" "f y = t" using S by blast
    then have st: "x \<in> set stages" "y \<in> set stages" using edge by blast+
    show ?case
    proof (intro ballI impI)
      fix a b assume ab: "a \<in> set stages" "b \<in> set stages" "f a = s" "f b = t"
      then have "(a, x) \<in> E\<^sup>*" "(y, b) \<in> E\<^sup>*" using step.IH same st xy(2,3) by (auto simp: mutual_def)
      then show "(a, b) \<in> E\<^sup>*" using xy(1) by (meson converse_rtrancl_into_rtrancl rtrancl_trans)
    qed
  qed
  have conv: "f a = f b \<or> (f a, f b) \<in> ?T\<^sup>+" if "(a, b) \<in> E\<^sup>*" for a b
    using that
  proof (induction rule: rtrancl_induct)
    case (step y z)
    show ?case
    proof (cases "f y = f z")
      case False
      then have "f z \<in> S (f y)" using S [of "f z" "f y"] step.hyps(2) by metis
      then have "(f y, f z) \<in> ?T" by simp
      then show ?thesis using step.IH by (metis r_into_trancl' trancl_into_trancl)
    qed (use step.IH in simp)
  qed simp
  assume pc: "(p, c) \<in> E"
  then have st: "p \<in> set stages" "c \<in> set stages" using edge by blast+
  have im: "fst (implied_sccs num (scc_successors graph scc_of)) (f p) = {t. \<exists>u\<in>S (f p). (u, t) \<in> ?T\<^sup>+}"
    using implied_sccs_result [OF below bound [OF st(1)]] by (simp add: S_def)
  have eq: "f p = f c \<longleftrightarrow> (c, p) \<in> E\<^sup>*" using same st pc by (auto simp: mutual_def)
  have "(\<exists>u\<in>S (f p). (u, f c) \<in> ?T\<^sup>+) \<longleftrightarrow> (\<exists>q. (p, q) \<in> E\<^sup>* \<and> (q, c) \<in> E\<^sup>* \<and> (q, p) \<notin> E\<^sup>* \<and> (c, q) \<notin> E\<^sup>*)"
  proof
    assume "\<exists>u\<in>S (f p). (u, f c) \<in> ?T\<^sup>+"
    then obtain u where u: "u \<in> S (f p)" "(u, f c) \<in> ?T\<^sup>+" by blast
    then obtain q where q: "q \<in> set stages" "f q = u" using S edge by blast
    have "(f p, u) \<in> ?T\<^sup>+" using u(1) by blast
    then have pq: "(p, q) \<in> E\<^sup>*" using path q st(1) by blast
    have qc: "(q, c) \<in> E\<^sup>*" using path [OF u(2)] q st(2) by blast
    have "f q \<noteq> f p" "f q \<noteq> f c" using up [OF u(1)] lower [OF u(2)] q(2) by auto
    then have "(q, p) \<notin> E\<^sup>*" "(c, q) \<notin> E\<^sup>*" using same q(1) st pq qc by (auto simp: mutual_def)
    then show "\<exists>q. (p, q) \<in> E\<^sup>* \<and> (q, c) \<in> E\<^sup>* \<and> (q, p) \<notin> E\<^sup>* \<and> (c, q) \<notin> E\<^sup>*" using pq qc by blast
  next
    assume "\<exists>q. (p, q) \<in> E\<^sup>* \<and> (q, c) \<in> E\<^sup>* \<and> (q, p) \<notin> E\<^sup>* \<and> (c, q) \<notin> E\<^sup>*"
    then obtain q where q: "(p, q) \<in> E\<^sup>*" "(q, c) \<in> E\<^sup>*" "(q, p) \<notin> E\<^sup>*" "(c, q) \<notin> E\<^sup>*" by blast
    then have "q \<in> set stages" using index_path [OF ix q(1) st(1)] by blast
    then have "f p \<noteq> f q" "f q \<noteq> f c" using same st q by (auto simp: mutual_def)
    then have t: "(f p, f q) \<in> ?T\<^sup>+" "(f q, f c) \<in> ?T\<^sup>+" using conv q(1,2) by blast+
    from t(1) obtain u where "u \<in> S (f p)" "u = f q \<or> (u, f q) \<in> ?T\<^sup>+" by (cases rule: converse_tranclE) auto
    then show "\<exists>u\<in>S (f p). (u, f c) \<in> ?T\<^sup>+" using t(2) by (auto intro: trancl_trans)
  qed
  then show "(f p = f c \<or> f c \<notin> fst (implied_sccs num (scc_successors graph scc_of)) (f p)) \<longleftrightarrow> \<not> bypassed E p c"
    unfolding im eq bypassed_def by blast
qed

text \<open>C7: \<open>reduceDependencies\<close> keeps exactly the local edges within one strongly connected
  component or to another one that is not reachable over an intermediate component: on the
  acyclic graph of components that is the transitive reduction, so reachability between stages
  does not change. Every stage keeps the foreign tokens it awaits and outputs, in their order
  and without repetitions.\<close>

theorem reduceDependencies_reduction:
  assumes "consumer_edges edges" and "fresh_tokens new_token P" and "distinct (sp_body P)"
    and list: "\<And>graph. local_graph edges P = Some graph \<Longrightarrow>
      \<forall>root<length graph. scc_listing ((!) graph) root (sccs ((!) graph) root)"
  shows "\<exists>P' changed. reduceDependencies edges sccs new_token P = Some (P', changed) \<and> sp_body P' = sp_body P \<and>
    normalized P' \<and> local_edges P' = reduced (local_edges P) \<and> (local_edges P')\<^sup>* = (local_edges P)\<^sup>* \<and>
    (\<forall>s\<in>set (pipe_stages P).
       filter (\<lambda>t. \<not> isLocalToken P t) (awaits P' s) = first_occurrences (filter (\<lambda>t. \<not> isLocalToken P t) (awaits P s)) \<and>
       filter (\<lambda>t. \<not> isLocalToken P t) (outputs P' s) = first_occurrences (filter (\<lambda>t. \<not> isLocalToken P t) (outputs P s)))"
proof -
  let ?E = "local_edges P" and ?idx = "index_of (pipe_stages P)"
  obtain graph where g: "local_graph edges P = Some graph" "length graph = length (pipe_stages P)"
    "\<forall>s\<in>set (pipe_stages P). set (graph ! ?idx s) = ?idx ` {c. (s, c) \<in> ?E}"
    using local_graph_result [OF assms(1,3)] by blast
  have ix: "indexed (pipe_stages P) ?E graph"
    using g(2,3) assms(3) unfolding indexed_def by (simp add: pipe_stages_def) (auto simp: local_edges_def pipe_stages_def)
  obtain m num where num: "number_sccs (sccs ((!) graph)) (length graph) = (m, num)" by fastforce
  note same = implied_iff_bypassed [OF ix list [OF g(1)] num]
  let ?keep = "\<lambda>p c. let from = the (m (?idx p)); to' = the (m (?idx c))
            in from = to' \<or> to' \<notin> fst (implied_sccs num (scc_successors graph (\<lambda>i. the (m i)))) from"
  have run: "reduceDependencies edges sccs new_token P = rewriteTokens edges new_token P ?keep"
    by (simp add: reduceDependencies_def g(1) num)
  obtain P' changed where r: "rewriteTokens edges new_token P ?keep = Some (P', changed)" "sp_body P' = sp_body P"
    "local_edges P' = {(p, c) \<in> ?E. ?keep p c}" "normalized P'"
    "\<forall>s\<in>set (pipe_stages P).
       filter (\<lambda>t. \<not> isLocalToken P t) (awaits P' s) = first_occurrences (filter (\<lambda>t. \<not> isLocalToken P t) (awaits P s)) \<and>
       filter (\<lambda>t. \<not> isLocalToken P t) (outputs P' s) = first_occurrences (filter (\<lambda>t. \<not> isLocalToken P t) (outputs P s))"
    using rewriteTokens_edges [OF assms(1-3), of ?keep] by (elim exE conjE) (rule that)
  have "local_edges P' = reduced ?E" unfolding r(3) reduced_def using same(3) by (auto simp: Let_def)
  moreover have "(reduced ?E)\<^sup>* = ?E\<^sup>*"
  proof (rule reduced_paths)
    show "\<forall>(a, b)\<in>?E. the (m (?idx b)) \<le> the (m (?idx a))" by (rule same(1))
    show "\<forall>a b. (a, b) \<in> ?E\<^sup>* \<longrightarrow> the (m (?idx a)) = the (m (?idx b)) \<longrightarrow> (b, a) \<in> ?E\<^sup>*"
    proof (intro allI impI)
      fix a b assume ab: "(a, b) \<in> ?E\<^sup>*" "the (m (?idx a)) = the (m (?idx b))"
      show "(b, a) \<in> ?E\<^sup>*"
      proof (cases "a \<in> set (pipe_stages P)")
        case True
        then have "b \<in> set (pipe_stages P)" using index_path [OF ix ab(1)] by blast
        then show ?thesis using same(2) True ab(2) by (auto simp: mutual_def)
      next
        case False
        then have "a \<notin> Domain ?E" by (auto simp: local_edges_def)
        then have "a = b" using ab(1) by (metis Not_Domain_rtrancl)
        then show ?thesis by simp
      qed
    qed
  qed
  ultimately show ?thesis using run r(1,2,4,5) by (intro exI [of _ P'] exI [of _ changed]) simp
qed

text \<open>C33: The greedy driver reaches a fixed point of the token normalization: one application keeps the
  dependency edges and leaves every producer with one token of its own, and the next application
  reports that nothing changed.\<close>

theorem normalizeTokens_converges:
  assumes "consumer_edges edges" and "fresh_tokens new_token P" and "distinct (sp_body P)"
  shows "\<exists>P' changed. normalizeTokens edges new_token P = Some (P', changed) \<and> local_edges P' = local_edges P \<and>
    normalized P' \<and> (\<exists>P''. normalizeTokens edges new_token P' = Some (P'', False))"
proof -
  obtain P' changed where r: "rewriteTokens edges new_token P (\<lambda>_ _. True) = Some (P', changed)" "sp_body P' = sp_body P"
    "local_edges P' = {(p, c) \<in> local_edges P. True}" "normalized P'" "fresh_tokens new_token P'"
    using rewriteTokens_edges [OF assms, of "\<lambda>_ _. True"] by (elim exE conjE) (rule that)
  have "distinct (sp_body P')" using r(2) assms(3) by simp
  from normalized_unchanged [OF assms(1) r(5) this r(4)] show ?thesis
    using r by (auto simp: normalizeTokens_def)
qed

section \<open>Moving stages\<close>

lemma move_steps:
  assumes "distinct (pre @ e # post)" and "e \<notin> set scc"
  shows "post = post1 @ post2 \<Longrightarrow> fold (move_step is_stage scc e) post1 (pre @ e # post, ch) =
    (pre @ filter (\<lambda>q. is_stage q \<and> q \<in> set scc) post1 @ e # filter (\<lambda>q. \<not> (is_stage q \<and> q \<in> set scc)) post1 @ post2,
     ch \<or> list_ex (\<lambda>q. is_stage q \<and> q \<in> set scc) post1)"
proof (induction post1 arbitrary: post2 rule: rev_induct)
  case (snoc q post1)
  let ?M = "\<lambda>q. is_stage q \<and> q \<in> set scc"
  have IH: "fold (move_step is_stage scc e) post1 (pre @ e # post, ch) =
    (pre @ filter ?M post1 @ e # filter (\<lambda>q. \<not> ?M q) post1 @ q # post2, ch \<or> list_ex ?M post1)"
    using snoc.IH [of "q # post2"] snoc.prems by simp
  show ?case
  proof (cases "?M q")
    case True
    have q: "q \<noteq> e" "q \<notin> set pre" "q \<notin> set post1" "q \<notin> set post2" and e: "e \<notin> set pre" "e \<notin> set post1"
      using assms snoc.prems by auto
    have same: "filter (\<lambda>y. y \<noteq> q) xs = xs" if "q \<notin> set xs" for xs :: "nat list" using that by (induction xs) auto
    have rest: "filter (\<lambda>y. y \<noteq> q) (pre @ filter ?M post1 @ e # filter (\<lambda>q. \<not> ?M q) post1 @ q # post2) =
        (pre @ filter ?M post1) @ e # filter (\<lambda>q. \<not> ?M q) post1 @ post2"
      using q by (simp add: same del: filter_filter)
    have "e \<notin> set (pre @ filter ?M post1)" using e by simp
    then have tw: "takeWhile (\<lambda>y. y \<noteq> e) ((pre @ filter ?M post1) @ e # ys) = pre @ filter ?M post1"
      "dropWhile (\<lambda>y. y \<noteq> e) ((pre @ filter ?M post1) @ e # ys) = e # ys" for ys
      by (rule takeWhile_until) (use \<open>e \<notin> set (pre @ filter ?M post1)\<close> in \<open>induction "pre @ filter ?M post1"; auto simp: dropWhile_append\<close>)
    have "moveOpBefore q e (pre @ filter ?M post1 @ e # filter (\<lambda>q. \<not> ?M q) post1 @ q # post2) =
        pre @ filter ?M (post1 @ [q]) @ e # filter (\<lambda>q. \<not> ?M q) (post1 @ [q]) @ post2"
      using True unfolding moveOpBefore_def Let_def rest tw by simp
    then show ?thesis using True unfolding fold_append fold_simps comp_apply IH by (simp add: move_step_def)
  next
    case False
    then show ?thesis unfolding fold_append fold_simps comp_apply IH by (auto simp: move_step_def)
  qed
qed simp

definition earliest_in :: "stage_op list \<Rightarrow> stage_op list \<Rightarrow> stage_op set \<Rightarrow> stage_op option \<Rightarrow> bool" where
  "earliest_in body scc C e \<longleftrightarrow> (case e of
      None \<Rightarrow> \<forall>c\<in>C. c \<in> set body \<longrightarrow> c \<in> set scc
    | Some x \<Rightarrow> x \<in> C \<and> x \<in> set body \<and> x \<notin> set scc \<and>
        (\<forall>c\<in>C. c \<in> set body \<longrightarrow> c \<notin> set scc \<longrightarrow> index_of body x \<le> index_of body c))"

lemma earliest_step:
  "earliest_in body scc C e \<Longrightarrow> earliest_in body scc (insert c C) (earlier_consumer body scc c e)"
  by (cases e) (auto simp: earliest_in_def earlier_consumer_def before_in_def)

lemma earliest_steps:
  "earliest_in body scc C e \<Longrightarrow> earliest_in body scc (C \<union> set cs) (fold (earlier_consumer body scc) cs e)"
proof (induction cs arbitrary: C e)
  case (Cons c cs)
  from Cons.IH [OF earliest_step [OF Cons.prems]] show ?case by simp
qed simp

lemma findEarliestConsumer_result:
  "earliest_in body scc (\<Union>p\<in>set scc. set (consumers p)) (findEarliestConsumer consumers body scc)"
proof -
  have "findEarliestConsumer consumers body scc = fold (earlier_consumer body scc) (concat (map consumers scc)) None"
  proof -
    have "fold (\<lambda>member. fold (earlier_consumer body scc) (consumers member)) ms e =
        fold (earlier_consumer body scc) (concat (map consumers ms)) e" for ms e
      by (induction ms arbitrary: e) simp_all
    then show ?thesis by (simp add: findEarliestConsumer_def)
  qed
  moreover have "earliest_in body scc {} None" by (simp add: earliest_in_def)
  ultimately show ?thesis using earliest_steps [of body scc "{}" None "concat (map consumers scc)"] by simp
qed

text \<open>Every stage of a component is in front of the consumers of all its stages.\<close>

definition in_front :: "(stage_op \<Rightarrow> stage_op list) \<Rightarrow> stage_op set \<Rightarrow> stage_op list \<Rightarrow> bool" where
  "in_front consumers scc body \<longleftrightarrow>
     (\<forall>p\<in>scc. \<forall>x\<in>scc. \<forall>c\<in>set (consumers x). c \<in> set body \<longrightarrow> c \<notin> scc \<longrightarrow> before_in body p c)"

lemma moveInFrontOfConsumers_result:
  assumes dist: "distinct body" and stages: "\<forall>q\<in>set scc. is_stage q \<and> q \<in> set body"
    and run: "moveInFrontOfConsumers is_stage consumers body scc = (body', ch)"
  shows "set body' = set body" "distinct body'"
    "\<forall>a\<in>set body. \<forall>b\<in>set body. (a \<in> set scc \<longleftrightarrow> b \<in> set scc) \<longrightarrow> before_in body' a b = before_in body a b"
    "in_front consumers (set scc) body'"
    "in_front consumers (set scc) body \<Longrightarrow> body' = body \<and> \<not> ch" "\<not> ch \<Longrightarrow> body' = body"
    "\<not> is_stage (hd body) \<Longrightarrow> \<forall>p\<in>set scc. \<forall>c\<in>set (consumers p). c \<in> set body \<longrightarrow> is_stage c \<Longrightarrow> hd body' = hd body"
proof -
  have "set body' = set body \<and> distinct body' \<and>
    (\<forall>a\<in>set body. \<forall>b\<in>set body. (a \<in> set scc \<longleftrightarrow> b \<in> set scc) \<longrightarrow> before_in body' a b = before_in body a b) \<and>
    in_front consumers (set scc) body' \<and>
    (in_front consumers (set scc) body \<longrightarrow> body' = body \<and> \<not> ch) \<and> (\<not> ch \<longrightarrow> body' = body) \<and>
    (\<not> is_stage (hd body) \<longrightarrow> (\<forall>p\<in>set scc. \<forall>c\<in>set (consumers p). c \<in> set body \<longrightarrow> is_stage c) \<longrightarrow> hd body' = hd body)"
  proof (cases "findEarliestConsumer consumers body scc")
    case None
    then have "\<forall>p\<in>set scc. \<forall>c\<in>set (consumers p). c \<in> set body \<longrightarrow> c \<in> set scc"
      using findEarliestConsumer_result [of body scc consumers] by (simp add: earliest_in_def)
    then show ?thesis using None run dist by (auto simp: moveInFrontOfConsumers_def in_front_def)
  next
    case (Some e)
    then obtain p0 where e: "p0 \<in> set scc" "e \<in> set (consumers p0)" "e \<in> set body" "e \<notin> set scc"
      "\<And>p c. p \<in> set scc \<Longrightarrow> c \<in> set (consumers p) \<Longrightarrow> c \<in> set body \<Longrightarrow> c \<notin> set scc \<Longrightarrow> index_of body e \<le> index_of body c"
      using findEarliestConsumer_result [of body scc consumers] by (auto simp: earliest_in_def)
    obtain pre post where body: "body = pre @ e # post" "e \<notin> set pre" using split_at [OF e(3)] by blast
    let ?Q = "\<lambda>q. q \<in> set scc" and ?M = "\<lambda>q. is_stage q \<and> q \<in> set scc"
    have M: "filter ?M post = filter ?Q post" "filter (\<lambda>q. \<not> ?M q) post = filter (\<lambda>q. \<not> ?Q q) post" "list_ex ?M post = list_ex ?Q post"
      using stages by (auto intro!: filter_cong simp: list_ex_iff)
    have after: "tl (dropWhile (\<lambda>y. y \<noteq> e) (pre @ e # post)) = post" using body by (induction pre arbitrary: body) auto
    have "fold (move_step is_stage scc e) post (pre @ e # post, False) = (pre @ filter ?M post @ e # filter (\<lambda>q. \<not> ?M q) post @ [], False \<or> list_ex ?M post)"
      by (rule move_steps [where post = post]) (use dist body(1) e(4) in simp_all)
    then have res: "body' = pre @ filter ?Q post @ e # filter (\<lambda>q. \<not> ?Q q) post" "ch = list_ex ?Q post"
      using run Some unfolding moveInFrontOfConsumers_def Some option.case unfolding body(1) after M by simp_all
    have perm: "set body' = set body" using body(1) res(1) by auto
    have d': "distinct body'" using dist body(1) res(1) by auto
    have f: "filter ?Q body' = filter ?Q body" "filter (\<lambda>q. \<not> ?Q q) body' = filter (\<lambda>q. \<not> ?Q q) body"
      using e(4) by (simp_all add: body(1) res(1))
    have rel: "before_in body' a b = before_in body a b"
      if ab: "a \<in> set body" "b \<in> set body" "a \<in> set scc \<longleftrightarrow> b \<in> set scc" for a b
    proof (cases "a \<in> set scc")
      case True
      then show ?thesis using before_in_filter [of a body' b ?Q] before_in_filter [of a body b ?Q] ab perm f by simp
    next
      case False
      then show ?thesis using before_in_filter [of a body' b "\<lambda>q. \<not> ?Q q"] before_in_filter [of a body b "\<lambda>q. \<not> ?Q q"] ab perm f by simp
    qed
    have front: "before_in body' p c" if p: "p \<in> set scc" and pc: "x \<in> set scc" "c \<in> set (consumers x)" "c \<in> set body" "c \<notin> set scc" for p x c
    proof -
      have "index_of body e \<le> index_of body c" using e(5) [OF pc] .
      then have "c \<notin> set pre" using body index_of_less [of pre c] by (auto simp: index_of_append)
      moreover have "p \<in> set (pre @ filter ?Q post)" using stages p e(4) body(1) by auto
      moreover have "c \<notin> set (pre @ filter ?Q post)" using pc(4) calculation(1) by simp
      ultimately show ?thesis using before_in_append [of p "pre @ filter ?Q post" c] res(1) by simp
    qed
    have stay: "\<not> list_ex ?Q post" if "in_front consumers (set scc) body"
    proof
      assume "list_ex ?Q post"
      then obtain q where q: "q \<in> set post" "q \<in> set scc" by (auto simp: list_ex_iff)
      have "before_in body q e" using that e(1-4) q(2) unfolding in_front_def by blast
      then show False using q(1) dist body by (auto simp: before_in_def index_of_append split: if_splits)
    qed
    have keep: "body' = body" if "\<not> list_ex ?Q post"
    proof -
      have "filter ?Q post = []" "filter (\<lambda>q. \<not> ?Q q) post = post" using that by (auto simp: filter_empty_conv filter_id_conv list_ex_iff)
      then show ?thesis using res(1) body(1) by simp
    qed
    have head: "hd body' = hd body" if "\<not> is_stage (hd body)" "\<forall>p\<in>set scc. \<forall>c\<in>set (consumers p). c \<in> set body \<longrightarrow> is_stage c"
    proof -
      have "is_stage e" using that(2) e(1-3) by blast
      then have "pre \<noteq> []" using that(1) body(1) by auto
      then show ?thesis using body(1) res(1) by simp
    qed
    show ?thesis
      using perm d' rel front stay keep head res(2) unfolding in_front_def perm by blast
  qed
  then show "set body' = set body" "distinct body'"
    "\<forall>a\<in>set body. \<forall>b\<in>set body. (a \<in> set scc \<longleftrightarrow> b \<in> set scc) \<longrightarrow> before_in body' a b = before_in body a b"
    "in_front consumers (set scc) body'"
    "in_front consumers (set scc) body \<Longrightarrow> body' = body \<and> \<not> ch" "\<not> ch \<Longrightarrow> body' = body"
    "\<not> is_stage (hd body) \<Longrightarrow> \<forall>p\<in>set scc. \<forall>c\<in>set (consumers p). c \<in> set body \<longrightarrow> is_stage c \<Longrightarrow> hd body' = hd body"
    by blast+
qed

section \<open>The loop over the components\<close>

definition component :: "(stage_op \<Rightarrow> stage_op list) \<Rightarrow> stage_op \<Rightarrow> stage_op set" where
  "component consumers a = {b. mutual (succ_rel consumers) a b}"

definition stage_set :: "(stage_op \<Rightarrow> bool) \<Rightarrow> stage_op list \<Rightarrow> stage_op set" where
  "stage_set is_stage body = {q \<in> set body. is_stage q}"

text \<open>The components are enumerated, none reaches outside the pipeline, and consumers are stages.\<close>

definition order_ok :: "(stage_op \<Rightarrow> bool) \<Rightarrow> (stage_op \<Rightarrow> stage_op list) \<Rightarrow> (stage_op \<Rightarrow> stage_op list list) \<Rightarrow> stage_op list \<Rightarrow> bool" where
  "order_ok is_stage consumers sccs body \<longleftrightarrow> distinct body \<and>
     (\<forall>s\<in>stage_set is_stage body. scc_listing consumers s (sccs s) \<and> component consumers s \<subseteq> stage_set is_stage body \<and>
        (\<forall>c\<in>set (consumers s). c \<in> set body \<longrightarrow> is_stage c))"

definition order_inv ::
  "(stage_op \<Rightarrow> bool) \<Rightarrow> (stage_op \<Rightarrow> stage_op list) \<Rightarrow> stage_op list \<Rightarrow> stage_op set \<Rightarrow> bool \<Rightarrow> order_state \<Rightarrow> bool" where
  "order_inv is_stage consumers body0 D ch0 s \<longleftrightarrow> (case s of (body, changed, worklist) \<Rightarrow>
     (set body = set body0 \<and> distinct body) \<and>
     (set worklist = stage_set is_stage body0 - D \<and> D \<subseteq> stage_set is_stage body0) \<and>
     (\<forall>a\<in>D. component consumers a \<subseteq> D \<and> set (consumers a) \<inter> stage_set is_stage body0 \<subseteq> D \<and> in_front consumers (component consumers a) body) \<and>
     (\<forall>a\<in>set body0. \<forall>b\<in>set body0. mutual (succ_rel consumers) a b \<longrightarrow> before_in body a b = before_in body0 a b) \<and>
     ((\<forall>a\<in>stage_set is_stage body0. in_front consumers (component consumers a) body0) \<longrightarrow> body = body0 \<and> changed = ch0) \<and>
     (\<not> changed \<longrightarrow> body = body0 \<and> \<not> ch0) \<and> (\<not> is_stage (hd body0) \<longrightarrow> hd body = hd body0))"

lemma component_self: "a \<in> component consumers a"
  by (simp add: component_def mutual_refl)

lemma component_eq: "b \<in> component consumers a \<Longrightarrow> component consumers b = component consumers a"
  by (auto simp: component_def intro: mutual_trans [OF mutual_sym] mutual_trans)

lemma order_scc_step:
  assumes ok: "order_ok is_stage consumers sccs body0" and inv: "order_inv is_stage consumers body0 D ch0 s"
    and c: "c \<noteq> []" "\<forall>a\<in>set c. set c = component consumers a"
    and succs: "\<forall>a\<in>set c. set (consumers a) \<inter> stage_set is_stage body0 \<subseteq> D \<union> set c"
  shows "\<exists>D'. order_inv is_stage consumers body0 D' ch0 (order_scc is_stage consumers c s) \<and>
    D \<subseteq> D' \<and> set c \<inter> stage_set is_stage body0 \<subseteq> D'"
proof -
  let ?S = "stage_set is_stage body0" and ?C = "component consumers"
  obtain body ch wl where s: "s = (body, ch, wl)" by (cases s)
  have i: "set body = set body0" "distinct body" "set wl = ?S - D" "D \<subseteq> ?S"
    "\<And>a. a \<in> D \<Longrightarrow> ?C a \<subseteq> D" "\<And>a. a \<in> D \<Longrightarrow> set (consumers a) \<inter> ?S \<subseteq> D" "\<And>a. a \<in> D \<Longrightarrow> in_front consumers (?C a) body"
    "\<forall>a\<in>set body0. \<forall>b\<in>set body0. mutual (succ_rel consumers) a b \<longrightarrow> before_in body a b = before_in body0 a b"
    "(\<forall>a\<in>?S. in_front consumers (?C a) body0) \<longrightarrow> body = body0 \<and> ch = ch0"
    "\<not> ch \<longrightarrow> body = body0 \<and> \<not> ch0" "\<not> is_stage (hd body0) \<longrightarrow> hd body = hd body0"
    using inv by (simp_all add: order_inv_def s)
  have hd: "hd c \<in> set c" using c(1) by simp
  have sub: "?C a \<subseteq> ?S" if "a \<in> ?S" for a using ok that unfolding order_ok_def by blast
  have consumer: "c' \<in> ?S" if "a \<in> ?S" "c' \<in> set (consumers a)" "c' \<in> set body0" for a c'
    using ok that unfolding order_ok_def stage_set_def by blast
  show ?thesis
  proof (cases "hd c \<in> set wl")
    case False
    have "set c \<inter> ?S \<subseteq> D"
    proof
      fix a assume a: "a \<in> set c \<inter> ?S"
      then have "hd c \<in> ?S" using sub [of a] c(2) hd by blast
      then have "hd c \<in> D" using False i(3) by blast
      then show "a \<in> D" using i(5) [of "hd c"] c(2) hd a by blast
    qed
    then show ?thesis using False inv by (auto simp: order_scc_def s)
  next
    case True
    then have hdS: "hd c \<in> ?S" "hd c \<notin> D" using i(3) by auto
    have cS: "set c \<subseteq> ?S" using sub [OF hdS(1)] c(2) hd by blast
    have cD: "set c \<inter> D = {}" using i(5) c(2) hd hdS(2) by blast
    obtain body' m where mv: "moveInFrontOfConsumers is_stage consumers body c = (body', m)" by fastforce
    have st: "\<forall>q\<in>set c. is_stage q \<and> q \<in> set body" using cS i(1) by (auto simp: stage_set_def)
    note r = moveInFrontOfConsumers_result [OF i(2) st mv]
    have run: "order_scc is_stage consumers c s = (body', ch \<or> m, filter (\<lambda>q. q \<notin> set c) wl)"
      using True mv by (simp add: order_scc_def s)
    have cons_stage: "\<forall>p\<in>set c. \<forall>c'\<in>set (consumers p). c' \<in> set body \<longrightarrow> is_stage c'"
      using consumer cS i(1) by (auto simp: stage_set_def)
    have front: "in_front consumers (?C a) body'" if a: "a \<in> D \<union> set c" for a
    proof (cases "a \<in> set c")
      case True
      then have "?C a = set c" using c(2) by simp
      then show ?thesis using r(4) by simp
    next
      case False
      then have aD: "a \<in> D" using a by simp
      show ?thesis
        unfolding in_front_def
      proof (intro ballI impI)
        fix p x c' assume h: "p \<in> ?C a" "x \<in> ?C a" "c' \<in> set (consumers x)" "c' \<in> set body'" "c' \<notin> ?C a"
        have pD: "p \<in> D" "x \<in> D" using i(5) [OF aD] h by blast+
        have "c' \<in> ?S" using consumer [of x c'] pD(2) i(4) h(3,4) r(1) i(1) by blast
        then have c'D: "c' \<in> D" using i(6) [OF pD(2)] h(3) by blast
        have "before_in body p c'" using i(7) [OF aD] h r(1) unfolding in_front_def by blast
        moreover have "p \<in> set body" "c' \<in> set body" using pD(1) c'D i(1,4) by (auto simp: stage_set_def)
        moreover have "p \<notin> set c" "c' \<notin> set c" using cD pD(1) c'D by auto
        ultimately show "before_in body' p c'" using r(3) by blast
      qed
    qed
    have rel: "before_in body' a b = before_in body0 a b"
      if ab: "a \<in> set body0" "b \<in> set body0" "mutual (succ_rel consumers) a b" for a b
    proof -
      have "a \<in> set c \<longleftrightarrow> b \<in> set c"
        using c(2) ab(3) mutual_sym [OF ab(3)] unfolding component_def by blast
      then have "before_in body' a b = before_in body a b" using r(3) ab(1,2) i(1) by blast
      then show ?thesis using i(8) ab by blast
    qed
    have stay: "body' = body0 \<and> (ch \<or> m) = ch0" if all: "\<forall>a\<in>?S. in_front consumers (?C a) body0"
    proof -
      have b: "body = body0" "ch = ch0" using i(9) all by auto
      have "in_front consumers (set c) body" using all hdS(1) c(2) hd b(1) by auto
      then show ?thesis using r(5) b by simp
    qed
    have "order_inv is_stage consumers body0 (D \<union> set c) ch0 (order_scc is_stage consumers c s)"
      unfolding order_inv_def run prod.case
    proof (intro conjI impI ballI)
      show "set body' = set body0" "distinct body'" using r(1,2) i(1) by simp_all
      show "set (filter (\<lambda>q. q \<notin> set c) wl) = ?S - (D \<union> set c)" using i(3) by auto
      show "D \<union> set c \<subseteq> ?S" using i(4) cS by blast
      show "?C a \<subseteq> D \<union> set c" "set (consumers a) \<inter> ?S \<subseteq> D \<union> set c" if "a \<in> D \<union> set c" for a
        using that i(5,6) c(2) succs by blast+
      show "in_front consumers (?C a) body'" if "a \<in> D \<union> set c" for a using front that by blast
      show "before_in body' a b = before_in body0 a b" if "a \<in> set body0" "b \<in> set body0" "mutual (succ_rel consumers) a b" for a b
        using rel that by blast
      show "body' = body0" "(ch \<or> m) = ch0" if "\<forall>a\<in>?S. in_front consumers (?C a) body0" using stay that by blast+
      show "body' = body0" "\<not> ch0" if "\<not> (ch \<or> m)" using that r(6) i(10) by auto
      show "hd body' = hd body0" if "\<not> is_stage (hd body0)" using r(7) cons_stage i(11) that by simp
    qed
    then show ?thesis by blast
  qed
qed

lemma order_listing:
  assumes ok: "order_ok is_stage consumers sccs body0" and list: "scc_listing consumers root cs"
    and inv: "order_inv is_stage consumers body0 D ch0 s"
  shows "cs = as @ bs \<Longrightarrow> \<exists>D'. order_inv is_stage consumers body0 D' ch0 (fold (order_scc is_stage consumers) as s) \<and>
    D \<subseteq> D' \<and> set (concat as) \<inter> stage_set is_stage body0 \<subseteq> D'"
proof (induction as arbitrary: bs rule: rev_induct)
  case Nil
  then show ?case using inv by auto
next
  case (snoc c as)
  let ?S = "stage_set is_stage body0" and ?s = "fold (order_scc is_stage consumers) as s"
  obtain D' where D': "order_inv is_stage consumers body0 D' ch0 ?s" "D \<subseteq> D'" "set (concat as) \<inter> ?S \<subseteq> D'"
    using snoc.IH [of "c # bs"] snoc.prems by auto
  have cs: "cs = as @ c # bs" using snoc.prems by simp
  then have c: "c \<noteq> []" "\<forall>a\<in>set c. set c = component consumers a" "\<forall>a\<in>set c. set (consumers a) \<subseteq> set (concat as) \<union> set c"
    using list unfolding scc_listing_def component_def by auto
  have "\<forall>a\<in>set c. set (consumers a) \<inter> ?S \<subseteq> D' \<union> set c" using c(3) D'(3) by blast
  from order_scc_step [OF ok D'(1) c(1,2) this] obtain D'' where
    "order_inv is_stage consumers body0 D'' ch0 (order_scc is_stage consumers c ?s)" "D' \<subseteq> D''" "set c \<inter> ?S \<subseteq> D''"
    by blast
  then show ?case using D'(2,3) by (intro exI [of _ D'']) auto
qed

lemma order_worklist_result:
  assumes ok: "order_ok is_stage consumers sccs body0"
  shows "order_inv is_stage consumers body0 D ch0 s \<Longrightarrow>
    \<exists>body' ch'. order_worklist is_stage consumers sccs s = Some (body', ch') \<and>
      order_inv is_stage consumers body0 (stage_set is_stage body0) ch0 (body', ch', [])"
proof (induction "card (stage_set is_stage body0 - D)" arbitrary: D s rule: less_induct)
  case less
  let ?S = "stage_set is_stage body0"
  obtain body ch wl where s: "s = (body, ch, wl)" by (cases s)
  have wl: "set wl = ?S - D" "D \<subseteq> ?S" using less.prems by (simp_all add: order_inv_def s)
  show ?case
  proof (cases "wl = []")
    case True
    then have "D = ?S" using wl by auto
    then show ?thesis using less.prems True by (subst order_worklist.simps) (simp add: s)
  next
    case False
    then have root: "hd wl \<in> ?S" "hd wl \<notin> D" using wl(1) hd_in_set [OF False] by auto
    have list: "scc_listing consumers (hd wl) (sccs (hd wl))" using ok root(1) unfolding order_ok_def by blast
    let ?s = "fold (order_scc is_stage consumers) (sccs (hd wl)) s"
    obtain D' where D': "order_inv is_stage consumers body0 D' ch0 ?s" "D \<subseteq> D'" "set (concat (sccs (hd wl))) \<inter> ?S \<subseteq> D'"
      using order_listing [OF ok list less.prems, of "sccs (hd wl)" "[]"] by auto
    have "set (concat (sccs (hd wl))) = {a. (hd wl, a) \<in> (succ_rel consumers)\<^sup>*}"
      using list unfolding scc_listing_def by (rule conjunct1)
    then have "hd wl \<in> D'" using D'(3) root(1) by auto
    then have "?S - D' \<subset> ?S - D" using D'(2) root by blast
    moreover have "finite ?S" by (simp add: stage_set_def)
    ultimately have "card (?S - D') < card (?S - D)" by (simp add: psubset_card_mono)
    from less.hyps [OF this D'(1)] show ?thesis
      using False by (subst order_worklist.simps) (simp add: s)
  qed
qed

lemma moveOpBefore_head:
  assumes "distinct body" and "p \<in> set body" and "hd body \<noteq> p"
  shows "moveOpBefore p (hd body) body = p # filter (\<lambda>q. q \<noteq> p) body"
proof -
  obtain x xs where "body = x # xs" using assms(2) by (cases body) auto
  then show ?thesis using assms(3) by (simp add: moveOpBefore_def)
qed

lemma orderStages_result:
  assumes ok: "order_ok (sp_is_stage P) consumers sccs (sp_body P)"
    and private_op: "\<forall>p. sp_private P = Some p \<longrightarrow> p \<in> set (sp_body P) \<and> \<not> sp_is_stage P p"
  shows "\<exists>P' changed. orderStages consumers sccs P = Some (P', changed) \<and>
    P' = P\<lparr>sp_body := sp_body P'\<rparr> \<and> distinct (sp_body P') \<and> set (sp_body P') = set (sp_body P) \<and>
    (\<forall>p. sp_private P = Some p \<longrightarrow> hd (sp_body P') = p) \<and>
    (\<forall>a\<in>set (pipe_stages P). in_front consumers (component consumers a) (sp_body P')) \<and>
    (\<forall>a\<in>set (pipe_stages P). \<forall>b\<in>component consumers a. before_in (sp_body P') a b = before_in (sp_body P) a b) \<and>
    ((\<forall>p. sp_private P = Some p \<longrightarrow> hd (sp_body P) = p) \<longrightarrow>
       (\<forall>a\<in>set (pipe_stages P). in_front consumers (component consumers a) (sp_body P)) \<longrightarrow> P' = P \<and> \<not> changed) \<and>
    (\<not> changed \<longrightarrow> P' = P)"
proof -
  have priv: "p \<in> set (sp_body P) \<and> \<not> sp_is_stage P p" if "sp_private P = Some p" for p using private_op that by blast
  let ?st = "sp_is_stage P" and ?B = "sp_body P"
  obtain body1 ch1 where first: "private_first_step P = (body1, ch1)" by fastforce
  have dist: "distinct ?B" using ok by (simp add: order_ok_def)
  have b1: "set body1 = set ?B" "distinct body1" "filter ?st body1 = filter ?st ?B"
    "\<forall>p. sp_private P = Some p \<longrightarrow> hd body1 = p" "\<not> ch1 \<longrightarrow> body1 = ?B"
    "(\<forall>p. sp_private P = Some p \<longrightarrow> hd ?B = p) \<longrightarrow> body1 = ?B \<and> \<not> ch1"
  proof -
    have "set body1 = set ?B \<and> distinct body1 \<and> filter ?st body1 = filter ?st ?B \<and>
      (\<forall>p. sp_private P = Some p \<longrightarrow> hd body1 = p) \<and> (\<not> ch1 \<longrightarrow> body1 = ?B) \<and>
      ((\<forall>p. sp_private P = Some p \<longrightarrow> hd ?B = p) \<longrightarrow> body1 = ?B \<and> \<not> ch1)"
    proof (cases "sp_private P")
      case None
      then show ?thesis using first dist by (auto simp: private_first_step_def)
    next
      case (Some p)
      have p: "p \<in> set ?B" "\<not> ?st p" using priv [OF Some] by auto
      show ?thesis
      proof (cases "hd ?B = p")
        case True
        then show ?thesis using first dist Some by (auto simp: private_first_step_def)
      next
        case False
        then have b: "body1 = p # filter (\<lambda>q. q \<noteq> p) ?B" "ch1"
          using first Some moveOpBefore_head [OF dist p(1)] by (auto simp: private_first_step_def)
        have "filter ?st (filter (\<lambda>q. q \<noteq> p) ?B) = filter ?st ?B" using p(2) by (simp add: filter_filter) (rule filter_cong, auto)
        then show ?thesis using b p dist Some False by (auto simp del: filter_filter)
      qed
    qed
    then show "set body1 = set ?B" "distinct body1" "filter ?st body1 = filter ?st ?B"
      "\<forall>p. sp_private P = Some p \<longrightarrow> hd body1 = p" "\<not> ch1 \<longrightarrow> body1 = ?B"
      "(\<forall>p. sp_private P = Some p \<longrightarrow> hd ?B = p) \<longrightarrow> body1 = ?B \<and> \<not> ch1" by blast+
  qed
  have S: "stage_set ?st body1 = set (pipe_stages P)" using b1(1) by (auto simp: stage_set_def pipe_stages_def)
  have ok1: "order_ok ?st consumers sccs body1" using ok b1(1,2) by (simp add: order_ok_def stage_set_def)
  have "order_inv ?st consumers body1 {} ch1 (body1, ch1, filter ?st body1)"
    using b1(2) by (auto simp: order_inv_def stage_set_def)
  from order_worklist_result [OF ok1 this] obtain body2 ch2 where
    run: "order_worklist ?st consumers sccs (body1, ch1, filter ?st body1) = Some (body2, ch2)"
    and inv: "order_inv ?st consumers body1 (stage_set ?st body1) ch1 (body2, ch2, [])" by blast
  have i: "set body2 = set body1" "distinct body2" "\<forall>a\<in>set (pipe_stages P). in_front consumers (component consumers a) body2"
    "\<forall>a\<in>set body1. \<forall>b\<in>set body1. mutual (succ_rel consumers) a b \<longrightarrow> before_in body2 a b = before_in body1 a b"
    "(\<forall>a\<in>set (pipe_stages P). in_front consumers (component consumers a) body1) \<longrightarrow> body2 = body1 \<and> ch2 = ch1"
    "\<not> ch2 \<longrightarrow> body2 = body1 \<and> \<not> ch1" "\<not> ?st (hd body1) \<longrightarrow> hd body2 = hd body1"
    using inv unfolding order_inv_def S by simp_all
  define P' where "P' = P\<lparr>sp_body := body2\<rparr>"
  have res: "orderStages consumers sccs P = Some (P', ch2)" by (simp add: orderStages_def first run P'_def)
  have head: "hd body2 = p" if "sp_private P = Some p" for p
    using that b1(4) i(7) priv [OF that] by auto
  have rel: "before_in body2 a b = before_in ?B a b" if a: "a \<in> set (pipe_stages P)" and b: "b \<in> component consumers a" for a b
  proof -
    have bS: "b \<in> set (pipe_stages P)" using ok1 a b unfolding order_ok_def S by blast
    have mem: "a \<in> set body1" "b \<in> set body1" "?st a" "?st b" using a bS b1(1) by (auto simp: pipe_stages_def)
    have "before_in body2 a b = before_in body1 a b" using i(4) mem b by (simp add: component_def)
    also have "\<dots> = before_in (filter ?st body1) a b" using before_in_filter [of a body1 b ?st] mem by simp
    also have "\<dots> = before_in ?B a b" using before_in_filter [of a ?B b ?st] mem b1(1,3) by simp
    finally show ?thesis .
  qed
  have same: "P' = P \<and> \<not> ch2" if "\<forall>p. sp_private P = Some p \<longrightarrow> hd ?B = p" "\<forall>a\<in>set (pipe_stages P). in_front consumers (component consumers a) ?B"
    using that b1(6) i(5) by (auto simp: P'_def)
  have unch: "P' = P" if "\<not> ch2" using that i(6) b1(5) by (simp add: P'_def)
  show ?thesis
    by (rule exI [of _ P'], rule exI [of _ ch2], intro conjI)
      (use res i(1-3) b1(1) head rel same unch in \<open>simp_all add: P'_def\<close>)
qed

text \<open>C34: \<open>orderStages\<close> returns; the result is a permutation of the body with the private
  section first in which every strongly connected component of stages stands in front of its
  consumers outside it and keeps its own order; a body already in such an order is left as it
  is, and no change is reported unless there is one.\<close>

theorem orderStages_correct:
  assumes "order_ok (sp_is_stage P) consumers sccs (sp_body P)"
    and "\<And>p. sp_private P = Some p \<Longrightarrow> p \<in> set (sp_body P) \<and> \<not> sp_is_stage P p"
  shows "\<exists>P' changed. orderStages consumers sccs P = Some (P', changed) \<and>
    P' = P\<lparr>sp_body := sp_body P'\<rparr> \<and> distinct (sp_body P') \<and> set (sp_body P') = set (sp_body P) \<and>
    (\<forall>p. sp_private P = Some p \<longrightarrow> hd (sp_body P') = p) \<and>
    (\<forall>a\<in>set (pipe_stages P). in_front consumers (component consumers a) (sp_body P')) \<and>
    (\<forall>a\<in>set (pipe_stages P). \<forall>b\<in>component consumers a. before_in (sp_body P') a b = before_in (sp_body P) a b) \<and>
    ((\<forall>p. sp_private P = Some p \<longrightarrow> hd (sp_body P) = p) \<longrightarrow>
       (\<forall>a\<in>set (pipe_stages P). in_front consumers (component consumers a) (sp_body P)) \<longrightarrow> P' = P \<and> \<not> changed) \<and>
    (\<not> changed \<longrightarrow> P' = P)"
  by (rule orderStages_result [OF assms(1)]) (use assms(2) in blast)

section \<open>A witness\<close>

text \<open>A listing of single stages, each after its consumers, enumerates the components of a graph without cycles.\<close>

lemma topological_listing:
  assumes dist: "distinct xs" and root: "root \<in> set xs" "\<forall>x\<in>set xs. (root, x) \<in> (succ_rel succs)\<^sup>*"
    and order: "\<forall>as x bs. xs = as @ x # bs \<longrightarrow> set (succs x) \<subseteq> set as"
  shows "scc_listing succs root (map (\<lambda>x. [x]) xs)"
proof -
  have step: "b \<in> set xs \<and> index_of xs b < index_of xs a" if a: "a \<in> set xs" and b: "b \<in> set (succs a)" for a b
  proof -
    obtain as bs where x: "xs = as @ a # bs" "a \<notin> set as" using split_at [OF a] by blast
    then have "b \<in> set as" using order b by blast
    then show ?thesis using x index_of_less [of as b] by (simp add: index_of_append)
  qed
  have path: "b \<in> set xs \<and> (index_of xs b < index_of xs a \<or> b = a)" if "(a, b) \<in> (succ_rel succs)\<^sup>*" "a \<in> set xs" for a b
    using that
  proof (induction rule: rtrancl_induct)
    case (step y z)
    have "y \<in> set xs" "z \<in> set (succs y)" using step by (auto simp: succ_rel_def)
    then have "z \<in> set xs \<and> index_of xs z < index_of xs y" using \<open>\<And>b a. a \<in> set xs \<Longrightarrow> b \<in> set (succs a) \<Longrightarrow> b \<in> set xs \<and> index_of xs b < index_of xs a\<close> by blast
    then show ?case using step by auto
  qed simp
  have single: "{b. mutual (succ_rel succs) a b} = {a}" if "a \<in> set xs" for a
  proof (intro set_eqI iffI)
    fix b assume "b \<in> {b. mutual (succ_rel succs) a b}"
    then have "(a, b) \<in> (succ_rel succs)\<^sup>*" "(b, a) \<in> (succ_rel succs)\<^sup>*" by (simp_all add: mutual_def)
    then show "b \<in> {a}" using path [of a b] path [of b a] that by fastforce
  qed (simp add: mutual_refl)
  have "set xs = {a. (root, a) \<in> (succ_rel succs)\<^sup>*}" using root path by blast
  moreover have "set (succs x) \<subseteq> set (concat as) \<union> set c" if cs: "map (\<lambda>x. [x]) xs = as @ c # bs" and x: "x \<in> set c" for as c bs x
  proof -
    obtain us vs where "xs = us @ vs" "as = map (\<lambda>x. [x]) us" "c # bs = map (\<lambda>x. [x]) vs"
      using iffD1 [OF map_eq_append_conv cs] by (elim exE conjE) (rule that)
    moreover from this obtain v where "vs = v # tl vs" "c = [v]" by (cases vs) auto
    ultimately have "xs = us @ x # tl vs" "set (concat as) = set us" using x by auto
    then show ?thesis using order by blast
  qed
  ultimately show ?thesis using single by (simp add: scc_listing_def)
qed

text \<open>
  Stages 3, 2 and 1 in the wrong order, with the private section 10 in between; 1 is awaited by 2 and 3, and 2 by 3; the
  token 200 is foreign.
\<close>

definition three_stages :: pipe_ir where
  "three_stages = \<lparr>sp_body = [3, 10, 2, 1], sp_private = Some 10, sp_is_stage = (\<lambda>q. q < 10),
     awaits = (\<lambda>s. if s = 3 then [101, 100] else if s = 2 then [100, 100] else [200]),
     outputs = (\<lambda>s. if s = 1 then [100] else if s = 2 then [101] else []),
     foreign_use = (\<lambda>t. t = 200), tokens_made = 0\<rparr>"

definition token_edges :: "pipe_ir \<Rightarrow> stage_op \<Rightarrow> (token_val \<times> stage_op) list" where
  "token_edges P s = concat (map (\<lambda>t. map (Pair t) (filter (\<lambda>c. t \<in> set (awaits P c)) (pipe_stages P))) (outputs P s))"

definition created_token :: "nat \<Rightarrow> token_val" where
  "created_token n = 300 + n"

definition chain_consumers :: "stage_op \<Rightarrow> stage_op list" where
  "chain_consumers s = (if s = 1 then [2, 3] else if s = 2 then [3] else [])"

definition chain_sccs :: "stage_op \<Rightarrow> stage_op list list" where
  "chain_sccs s = (if s = 3 then [[3]] else if s = 2 then [[3], [2]] else [[3], [2], [1]])"

definition index_sccs :: "(nat \<Rightarrow> nat list) \<Rightarrow> nat \<Rightarrow> nat list list" where
  "index_sccs succs i = (if i = 0 then [[0]] else if i = 1 then [[0], [1]] else [[0], [1], [2]])"

lemma three_stages_params:
  "consumer_edges token_edges" "fresh_tokens created_token three_stages" "distinct (sp_body three_stages)"
proof -
  show "consumer_edges token_edges" by (auto simp: consumer_edges_def token_edges_def)
  have s: "pipe_stages three_stages = [3, 2, 1]" by (simp add: pipe_stages_def three_stages_def)
  show "fresh_tokens created_token three_stages"
    unfolding fresh_tokens_def s by (auto simp: created_token_def three_stages_def isLocalToken_def inj_def)
  show "distinct (sp_body three_stages)" by (simp add: three_stages_def)
qed

lemma three_stages_graph: "local_graph token_edges three_stages = Some [[], [0], [0, 1]]"
  by code_simp

lemma three_stages_stages: "pipe_stages three_stages = [3, 2, 1]"
  by code_simp

lemma split_three: "[a, b, c] = as @ x # bs \<longleftrightarrow>
  as = [] \<and> x = a \<and> bs = [b, c] \<or> as = [a] \<and> x = b \<and> bs = [c] \<or> as = [a, b] \<and> x = c \<and> bs = []"
  by (auto simp: Cons_eq_append_conv)

lemma chain_listing: "s \<in> {1, 2, 3} \<Longrightarrow> scc_listing chain_consumers s (chain_sccs s)"
proof -
  have e: "(1, 2) \<in> (succ_rel chain_consumers)" "(1, 3) \<in> (succ_rel chain_consumers)" "(2, 3) \<in> (succ_rel chain_consumers)"
    by (simp_all add: succ_rel_def chain_consumers_def)
  have "scc_listing chain_consumers 3 (map (\<lambda>x. [x]) [3])"
    by (rule topological_listing) (auto simp: Cons_eq_append_conv chain_consumers_def)
  moreover have "scc_listing chain_consumers 2 (map (\<lambda>x. [x]) [3, 2])"
    by (rule topological_listing) (use e in \<open>auto simp: Cons_eq_append_conv chain_consumers_def\<close>)
  moreover have "scc_listing chain_consumers 1 (map (\<lambda>x. [x]) [3, 2, 1])"
    by (rule topological_listing) (use e in \<open>auto simp: split_three chain_consumers_def\<close>)
  ultimately show "s \<in> {1, 2, 3} \<Longrightarrow> scc_listing chain_consumers s (chain_sccs s)" by (auto simp: chain_sccs_def)
qed

lemma index_listing:
  assumes "graph = [[], [0], [0, 1]]" and "root < length graph"
  shows "scc_listing ((!) graph) root (index_sccs ((!) graph) root)"
proof -
  let ?g = "(!) [[], [0], [0, 1 :: nat]]"
  have e: "(1, 0) \<in> succ_rel ?g" "(2, 0) \<in> succ_rel ?g" "(2, 1) \<in> succ_rel ?g" by (simp_all add: succ_rel_def)
  have "scc_listing ?g 0 (map (\<lambda>x. [x]) [0])"
    by (rule topological_listing) (auto simp: Cons_eq_append_conv)
  moreover have "scc_listing ?g 1 (map (\<lambda>x. [x]) [0, 1])"
    by (rule topological_listing) (use e in \<open>auto simp: Cons_eq_append_conv\<close>)
  moreover have "scc_listing ?g 2 (map (\<lambda>x. [x]) [0, 1, 2])"
    by (rule topological_listing) (use e in \<open>auto simp: split_three\<close>)
  moreover have "root = 0 \<or> root = 1 \<or> root = 2" using assms by auto
  ultimately show ?thesis using assms(1) by (auto simp: index_sccs_def)
qed

theorem rewriteTokens_edges_witness:
  "\<exists>P' changed. rewriteTokens token_edges created_token three_stages (\<lambda>p c. c \<noteq> 3) = Some (P', changed) \<and> normalized P' \<and>
    local_edges P' = {(p, c) \<in> local_edges three_stages. c \<noteq> 3}"
  using rewriteTokens_edges [OF three_stages_params, of "\<lambda>p c. c \<noteq> 3"] by blast

theorem normalizeTokens_converges_witness:
  "\<exists>P' changed. normalizeTokens token_edges created_token three_stages = Some (P', changed) \<and>
    (\<exists>P''. normalizeTokens token_edges created_token P' = Some (P'', False))"
  using normalizeTokens_converges [OF three_stages_params] by blast

theorem reduceDependencies_reduction_witness:
  "\<exists>P' changed. reduceDependencies token_edges index_sccs created_token three_stages = Some (P', changed) \<and>
    local_edges P' = reduced (local_edges three_stages) \<and> awaits P' 3 = [101] \<and>
    filter (\<lambda>t. \<not> isLocalToken three_stages t) (awaits P' 1) = [200]"
proof -
  have "\<forall>root<length graph. scc_listing ((!) graph) root (index_sccs ((!) graph) root)"
    if "local_graph token_edges three_stages = Some graph" for graph
    using that index_listing three_stages_graph by simp
  from reduceDependencies_reduction [OF three_stages_params this] obtain P' changed where
    r: "reduceDependencies token_edges index_sccs created_token three_stages = Some (P', changed)"
    "local_edges P' = reduced (local_edges three_stages)"
    "\<forall>s\<in>set (pipe_stages three_stages). filter (\<lambda>t. \<not> isLocalToken three_stages t) (awaits P' s) =
       first_occurrences (filter (\<lambda>t. \<not> isLocalToken three_stages t) (awaits three_stages s))" by blast
  have "1 \<in> set (pipe_stages three_stages)"
    "first_occurrences (filter (\<lambda>t. \<not> isLocalToken three_stages t) (awaits three_stages 1)) = [200]" by code_simp+
  then have "filter (\<lambda>t. \<not> isLocalToken three_stages t) (awaits P' 1) = [200]" using r(3) by simp
  moreover
  have "map_option (\<lambda>(P', _). awaits P' 3) (reduceDependencies token_edges index_sccs created_token three_stages) = Some [101]"
    by code_simp
  ultimately show ?thesis using r(1,2) by auto
qed

theorem orderStages_correct_witness:
  "\<exists>P' changed. orderStages chain_consumers chain_sccs three_stages = Some (P', changed) \<and> sp_body P' = [10, 1, 2, 3] \<and>
    in_front chain_consumers (component chain_consumers 1) (sp_body P')"
proof -
  have comp: "component chain_consumers s = {s}" if "s \<in> {1, 2, 3}" for s
  proof -
    have "[s] \<in> set (chain_sccs s)" using that by (auto simp: chain_sccs_def)
    moreover have "\<forall>c\<in>set (chain_sccs s). \<forall>a\<in>set c. set c = component chain_consumers a"
      using chain_listing [OF that] unfolding scc_listing_def component_def by blast
    ultimately show ?thesis by fastforce
  qed
  have S: "stage_set (sp_is_stage three_stages) (sp_body three_stages) = {1, 2, 3}"
    by (auto simp: stage_set_def three_stages_def)
  have "order_ok (sp_is_stage three_stages) chain_consumers chain_sccs (sp_body three_stages)"
    unfolding order_ok_def S
    using chain_listing comp by (auto simp: three_stages_def chain_consumers_def)
  moreover have "sp_private three_stages = Some p \<Longrightarrow> p \<in> set (sp_body three_stages) \<and> \<not> sp_is_stage three_stages p" for p
    by (simp add: three_stages_def)
  ultimately obtain P' changed where r: "orderStages chain_consumers chain_sccs three_stages = Some (P', changed)"
    "\<forall>a\<in>set (pipe_stages three_stages). in_front chain_consumers (component chain_consumers a) (sp_body P')"
    using orderStages_correct [of three_stages chain_consumers chain_sccs] by blast
  have "map_option (\<lambda>(P', _). sp_body P') (orderStages chain_consumers chain_sccs three_stages) = Some [10, 1, 2, 3]"
    by code_simp
  then show ?thesis using r by (auto simp: three_stages_stages)
qed

end
