(* ===== verification/RelayFold.thy ===== *)
theory RelayFold
  imports SimplifyPipeline
begin

text \<open>
  Folding of FIFO relay stages (\<open>lib/Transforms/FoldFifoRelayStages.cpp\<close>): a transfer from memory
  into a FIFO slot and the transfer out of it into memory become one transfer, in the stage of
  one of them, as long as one can fold.

  The dependency graph of the stages (\<open>StageGraph\<close>) and the accessors of stages and transfers are
  part of the dialect in a submodule: the graph is a parameter, \<open>stage_graph\<close>, of which
  \<open>stage_graph_ok\<close> states what the code relies on; transfers are their operands and attributes.
\<close>

section \<open>Transfers and stages\<close>

text \<open>An operand of a transfer with its type: a memref with its memory space, or a slot with its two ends.\<close>

datatype transfer_value = MemRef nat "attribute option" | FifoSlot nat attribute attribute

datatype size_value = ConstSize int | ValueSize nat

record transfer_op =
  t_source :: transfer_value
  t_source_map :: "nat option"
  t_source_indices :: "nat list"
  t_source_sizes :: "size_value list"
  t_dest :: transfer_value
  t_dest_map :: "nat option"
  t_dest_indices :: "nat list"
  t_dest_sizes :: "size_value list"
  t_mode :: transfer_mode
  t_attrs :: "(string \<times> string) list"

datatype stage_item = TransferItem nat | OtherItem nat

text \<open>
  A pipeline with the operations of its stages. Transfers have a number; \<open>other_uses\<close> counts the
  uses of a slot that are not operands of a transfer standing directly in one of its stages.
\<close>

record relay_ir =
  pipe :: pipe_ir
  stage_body_of :: "stage_op \<Rightarrow> stage_item list"
  transfer_at :: "nat \<Rightarrow> transfer_op"
  units_attr :: "stage_op \<Rightarrow> attribute list option"
  other_uses :: "transfer_value \<Rightarrow> nat"
  const_value :: "nat \<Rightarrow> int option"
  next_transfer :: nat

record stage_graph =
  node_consumers :: "pipe_ir \<Rightarrow> stage_op \<Rightarrow> stage_op list"
  node_producers :: "pipe_ir \<Rightarrow> stage_op \<Rightarrow> stage_op list"
  node_depends_on :: "pipe_ir \<Rightarrow> stage_op \<Rightarrow> stage_op \<Rightarrow> bool"
  add_in_dependency :: "token_val \<Rightarrow> token_val list \<Rightarrow> token_val list"

record relay =
  relay_in :: nat
  relay_out :: nat
  relay_producer :: stage_op
  relay_consumer :: stage_op

record place =
  place_resource :: "attribute option"
  place_is_memory :: bool

record transfer_places =
  end_source :: place
  end_dest :: place

record anchor =
  anchor_resource :: "attribute option"
  anchor_is_source :: bool

section \<open>Anchors\<close>

fun item_transfer :: "stage_item \<Rightarrow> nat option" where
  "item_transfer (TransferItem t) = Some t"
| "item_transfer (OtherItem _) = None"

definition getTransfers :: "relay_ir \<Rightarrow> stage_op \<Rightarrow> nat list option" where
  "getTransfers R stage =
     (case those (map item_transfer (stage_body_of R stage)) of
        None \<Rightarrow> None
      | Some transfers \<Rightarrow> if transfers = [] then None else Some transfers)"

fun isMemRefValue :: "transfer_value \<Rightarrow> bool" where
  "isMemRefValue (MemRef _ _) = True"
| "isMemRefValue (FifoSlot _ _ _) = False"

fun getMemorySpace :: "transfer_value \<Rightarrow> attribute option" where
  "getMemorySpace (MemRef _ space) = space"
| "getMemorySpace (FifoSlot _ _ _) = None"

fun getPlace :: "transfer_value \<Rightarrow> bool \<Rightarrow> place" where
  "getPlace (FifoSlot _ src dst) stage_reads =
     \<lparr>place_resource = Some (if stage_reads then dst else src), place_is_memory = False\<rparr>"
| "getPlace (MemRef v space) stage_reads =
     \<lparr>place_resource = getMemorySpace (MemRef v space), place_is_memory = True\<rparr>"

definition getEnds :: "transfer_op \<Rightarrow> transfer_places" where
  "getEnds t = \<lparr>end_source = getPlace (t_source t) True, end_dest = getPlace (t_dest t) False\<rparr>"

definition shared_place :: "(transfer_places \<Rightarrow> place) \<Rightarrow> transfer_places list \<Rightarrow> place option" where
  "shared_place pick ends =
     (if list_all (\<lambda>transfer. pick transfer = pick (hd ends)) ends then Some (pick (hd ends)) else None)"

definition findAnchors :: "transfer_places list \<Rightarrow> anchor list option" where
  "findAnchors ends =
     (let source = shared_place end_source ends; dest = shared_place end_dest ends;
          anchors =
            (case source of None \<Rightarrow> []
             | Some s \<Rightarrow> if (case dest of None \<Rightarrow> True | Some d \<Rightarrow> place_is_memory s \<or> \<not> place_is_memory d)
                         then [\<lparr>anchor_resource = place_resource s, anchor_is_source = True\<rparr>] else []) @
            (case dest of None \<Rightarrow> []
             | Some d \<Rightarrow> if (case source of None \<Rightarrow> True | Some s \<Rightarrow> place_is_memory d \<or> \<not> place_is_memory s)
                         then [\<lparr>anchor_resource = place_resource d, anchor_is_source = False\<rparr>] else [])
      in if anchors = [] then None else Some anchors)"

definition getAnchors :: "relay_ir \<Rightarrow> stage_op \<Rightarrow> anchor list" where
  "getAnchors R stage =
     (case getTransfers R stage of
        None \<Rightarrow> []
      | Some transfers \<Rightarrow>
          (case findAnchors (map (\<lambda>t. getEnds (transfer_at R t)) transfers) of None \<Rightarrow> [] | Some anchors \<Rightarrow> anchors))"

section \<open>Merging\<close>

definition kNonMergeableAttrs :: "string list" where
  "kNonMergeableAttrs = [''dataflow_scheduler.throttle'']"

definition conflicting_attr :: "transfer_op \<Rightarrow> transfer_op \<Rightarrow> string \<Rightarrow> bool" where
  "conflicting_attr i out name =
     (case (map_of (t_attrs i) name, map_of (t_attrs out) name) of
        (Some a, Some b) \<Rightarrow> a \<noteq> b
      | _ \<Rightarrow> False)"

definition append_attr :: "string \<times> string \<Rightarrow> (string \<times> string) list \<Rightarrow> (string \<times> string) list" where
  "append_attr a merged = (if map_of merged (fst a) = None then merged @ [a] else merged)"

definition mergeAttrs :: "transfer_op \<Rightarrow> transfer_op \<Rightarrow> (string \<times> string) list option" where
  "mergeAttrs i out =
     (if list_ex (conflicting_attr i out) kNonMergeableAttrs then None
      else Some (fold append_attr (t_attrs out) (t_attrs i)))"

definition mergeTransferMode :: "transfer_op \<Rightarrow> transfer_op \<Rightarrow> transfer_mode option" where
  "mergeTransferMode i out =
     (if t_mode i = Copy then Some (t_mode out) else if t_mode out = Copy then Some (t_mode i) else None)"

text \<open>\<open>None\<close> says that both sets of units are given and have no unit in common.\<close>

definition mergeUnits :: "relay_ir \<Rightarrow> stage_op \<Rightarrow> stage_op \<Rightarrow> attribute list option option" where
  "mergeUnits R target donor =
     (case (units_attr R target, units_attr R donor) of
        (None, donor_units) \<Rightarrow> Some donor_units
      | (Some target_units, None) \<Rightarrow> Some (Some target_units)
      | (Some target_units, Some donor_units) \<Rightarrow>
          let common = filter (\<lambda>u. u \<in> set donor_units) target_units
          in if common = [] then None else Some (Some common))"

section \<open>Relays\<close>

text \<open>The uses of a value as operand of the transfers of the stages, with the stage and the transfer.\<close>

definition item_uses :: "relay_ir \<Rightarrow> transfer_value \<Rightarrow> stage_op \<Rightarrow> stage_item \<Rightarrow> (stage_op \<times> nat) list" where
  "item_uses R v s i =
     (case i of
        TransferItem t \<Rightarrow> replicate ((if t_source (transfer_at R t) = v then 1 else 0) +
                                     (if t_dest (transfer_at R t) = v then 1 else 0)) (s, t)
      | OtherItem _ \<Rightarrow> [])"

definition slot_users :: "relay_ir \<Rightarrow> transfer_value \<Rightarrow> (stage_op \<times> nat) list" where
  "slot_users R v = concat (map (\<lambda>s. concat (map (item_uses R v s) (stage_body_of R s))) (pipe_stages (pipe R)))"

definition hasNUses :: "relay_ir \<Rightarrow> transfer_value \<Rightarrow> nat \<Rightarrow> bool" where
  "hasNUses R v n \<longleftrightarrow> length (slot_users R v) + other_uses R v = n"

text \<open>
  With two uses, one of them by \<open>in\<close>, the other one is a transfer of a stage of this pipeline or no relay is
  found: a transfer elsewhere has no stage as parent, or one in another block.
\<close>

definition findRelay :: "relay_ir \<Rightarrow> stage_op \<Rightarrow> nat \<Rightarrow> relay option" where
  "findRelay R producer i =
     (let slot = t_dest (transfer_at R i) in
      if \<not> isMemRefValue (t_source (transfer_at R i)) \<or> isMemRefValue slot then None
      else if \<not> hasNUses R slot 2 then None
      else case filter (\<lambda>u. snd u \<noteq> i) (slot_users R slot) of
             [] \<Rightarrow> None
           | u # us \<Rightarrow>
               let (consumer, out) = last (u # us) in
               if t_source (transfer_at R out) \<noteq> slot \<or> \<not> isMemRefValue (t_dest (transfer_at R out)) then None
               else if producer = consumer \<or> getTransfers R producer = None \<or> getTransfers R consumer = None then None
               else Some \<lparr>relay_in = i, relay_out = out, relay_producer = producer, relay_consumer = consumer\<rparr>)"

definition isEqualConstantIntOrValue :: "relay_ir \<Rightarrow> size_value \<Rightarrow> size_value \<Rightarrow> bool" where
  "isEqualConstantIntOrValue R a b =
     (let const_of = (\<lambda>x. case x of ConstSize n \<Rightarrow> Some n | ValueSize v \<Rightarrow> const_value R v) in
      (case (const_of a, const_of b) of (Some m, Some n) \<Rightarrow> m = n | _ \<Rightarrow> False) \<or>
      (case (a, b) of (ValueSize v, ValueSize w) \<Rightarrow> v = w | _ \<Rightarrow> False))"

definition checkRelay :: "relay_ir \<Rightarrow> relay \<Rightarrow> (string \<times> string) list option" where
  "checkRelay R relay =
     (let i = transfer_at R (relay_in relay); out = transfer_at R (relay_out relay) in
      if getMemorySpace (t_source i) = getMemorySpace (t_dest out) then None
      else let pushed = t_dest_sizes i; popped = t_source_sizes out in
      if length pushed \<noteq> length popped \<or>
         \<not> list_all (\<lambda>p. isEqualConstantIntOrValue R (fst p) (snd p)) (zip pushed popped) then None
      else if mergeTransferMode i out = None then None
      else mergeAttrs i out)"

section \<open>Folding\<close>

definition relay_target :: "relay \<Rightarrow> bool \<Rightarrow> stage_op" where
  "relay_target relay into_producer = (if into_producer then relay_producer relay else relay_consumer relay)"

definition relay_donor :: "relay \<Rightarrow> bool \<Rightarrow> stage_op" where
  "relay_donor relay into_producer = (if into_producer then relay_consumer relay else relay_producer relay)"

definition target_half :: "relay \<Rightarrow> bool \<Rightarrow> nat" where
  "target_half relay into_producer = (if into_producer then relay_in relay else relay_out relay)"

definition donor_half :: "relay \<Rightarrow> bool \<Rightarrow> nat" where
  "donor_half relay into_producer = (if into_producer then relay_out relay else relay_in relay)"

definition tokens_allow :: "stage_graph \<Rightarrow> relay_ir \<Rightarrow> relay \<Rightarrow> bool \<Rightarrow> bool" where
  "tokens_allow G R relay into_producer =
     (if into_producer
      then node_consumers G (pipe R) (relay_consumer relay) = [] \<or>
           relay_producer relay \<in> set (node_producers G (pipe R) (relay_consumer relay))
      else list_all (\<lambda>awaiter. awaiter = relay_consumer relay) (node_consumers G (pipe R) (relay_producer relay)))"

definition forms_cycle :: "stage_graph \<Rightarrow> relay_ir \<Rightarrow> stage_op \<Rightarrow> stage_op \<Rightarrow> bool" where
  "forms_cycle G R target donor =
     list_ex (\<lambda>awaited. awaited \<noteq> target \<and> node_depends_on G (pipe R) awaited target) (node_producers G (pipe R) donor)"

definition folded_ends :: "relay_ir \<Rightarrow> relay \<Rightarrow> transfer_places" where
  "folded_ends R relay =
     \<lparr>end_source = end_source (getEnds (transfer_at R (relay_in relay))),
      end_dest = end_dest (getEnds (transfer_at R (relay_out relay)))\<rparr>"

definition ends_after :: "relay_ir \<Rightarrow> relay \<Rightarrow> bool \<Rightarrow> transfer_places list \<times> transfer_places list" where
  "ends_after R relay into_producer =
     (map (\<lambda>t. if t = target_half relay into_producer then folded_ends R relay else getEnds (transfer_at R t))
        (the (getTransfers R (relay_target relay into_producer))),
      map (\<lambda>t. getEnds (transfer_at R t))
        (filter (\<lambda>t. t \<noteq> donor_half relay into_producer) (the (getTransfers R (relay_donor relay into_producer)))))"

definition gainsTakenAnchor :: "relay_ir \<Rightarrow> anchor list \<Rightarrow> stage_op \<Rightarrow> anchor list \<Rightarrow> anchor list \<Rightarrow> bool" where
  "gainsTakenAnchor R other_anchors stage after peer =
     list_ex (\<lambda>a. a \<notin> set (getAnchors R stage) \<and> (a \<in> set other_anchors \<or> a \<in> set peer)) after"

definition canFold :: "stage_graph \<Rightarrow> relay_ir \<Rightarrow> relay \<Rightarrow> bool \<Rightarrow> attribute list option option" where
  "canFold G R relay into_producer =
     (let target = relay_target relay into_producer; donor = relay_donor relay into_producer in
      if \<not> tokens_allow G R relay into_producer then None
      else if forms_cycle G R target donor then None
      else let (target_ends, donor_ends) = ends_after R relay into_producer in
      case findAnchors target_ends of
        None \<Rightarrow> None
      | Some target_anchors \<Rightarrow>
          (case (if donor_ends = [] then Some [] else findAnchors donor_ends) of
             None \<Rightarrow> None
           | Some donor_anchors \<Rightarrow>
               let other_anchors = concat (map (getAnchors R)
                     (filter (\<lambda>stage. stage \<noteq> target \<and> stage \<noteq> donor) (pipe_stages (pipe R)))) in
               if gainsTakenAnchor R other_anchors target target_anchors donor_anchors \<or>
                  gainsTakenAnchor R other_anchors donor donor_anchors target_anchors then None
               else mergeUnits R target donor))"

definition folded_transfer :: "relay_ir \<Rightarrow> relay \<Rightarrow> (string \<times> string) list \<Rightarrow> transfer_op" where
  "folded_transfer R relay attrs =
     (let i = transfer_at R (relay_in relay); out = transfer_at R (relay_out relay) in
      \<lparr>t_source = t_source i, t_source_map = t_source_map i, t_source_indices = t_source_indices i,
       t_source_sizes = t_source_sizes i, t_dest = t_dest out, t_dest_map = t_dest_map out,
       t_dest_indices = t_dest_indices out, t_dest_sizes = t_dest_sizes out,
       t_mode = the (mergeTransferMode i out), t_attrs = attrs\<rparr>)"

text \<open>The two transfers replaced by one, at the place of the half in the target.\<close>

definition replace_halves :: "relay \<Rightarrow> bool \<Rightarrow> (string \<times> string) list \<Rightarrow> relay_ir \<Rightarrow> relay_ir" where
  "replace_halves relay into_producer attrs R =
     (let target = relay_target relay into_producer; donor = relay_donor relay into_producer; new = next_transfer R in
      R\<lparr>transfer_at := (transfer_at R)(new := folded_transfer R relay attrs), next_transfer := Suc new,
        stage_body_of := (stage_body_of R)
          (target := map (\<lambda>i. if i = TransferItem (target_half relay into_producer) then TransferItem new else i)
                       (stage_body_of R target),
           donor := filter (\<lambda>i. i \<noteq> TransferItem (donor_half relay into_producer)) (stage_body_of R donor))\<rparr>)"

definition await_donor_tokens :: "stage_op \<Rightarrow> stage_op \<Rightarrow> pipe_ir \<Rightarrow> pipe_ir" where
  "await_donor_tokens target donor P =
     P\<lparr>awaits := (awaits P)(target := awaits P target @ filter (\<lambda>t. t \<notin> set (outputs P target)) (awaits P donor))\<rparr>"

definition add_donor_tokens :: "stage_graph \<Rightarrow> stage_op \<Rightarrow> stage_op \<Rightarrow> pipe_ir \<Rightarrow> pipe_ir" where
  "add_donor_tokens G donor awaiter P =
     P\<lparr>awaits := (awaits P)(awaiter := fold (add_in_dependency G) (awaits P donor) (awaits P awaiter))\<rparr>"

definition erase_stage :: "stage_op \<Rightarrow> pipe_ir \<Rightarrow> pipe_ir" where
  "erase_stage s P =
     P\<lparr>sp_body := filter (\<lambda>q. q \<noteq> s) (sp_body P), awaits := (awaits P)(s := []), outputs := (outputs P)(s := [])\<rparr>"

definition foldRelay ::
  "stage_graph \<Rightarrow> relay_ir \<Rightarrow> relay \<Rightarrow> bool \<Rightarrow> (string \<times> string) list \<Rightarrow> attribute list option \<Rightarrow> relay_ir" where
  "foldRelay G R relay into_producer attrs units =
     (let target = relay_target relay into_producer; donor = relay_donor relay into_producer;
          R1 = replace_halves relay into_producer attrs R;
          R2 = R1\<lparr>pipe := await_donor_tokens target donor (pipe R1), units_attr := (units_attr R1)(target := units)\<rparr> in
      if stage_body_of R2 donor \<noteq> [] then R2
      else R2\<lparr>pipe := erase_stage donor
                (fold (add_donor_tokens G donor) (node_consumers G (pipe R2) donor) (pipe R2))\<rparr>)"

fun first_result :: "('a \<Rightarrow> 'b option) \<Rightarrow> 'a list \<Rightarrow> 'b option" where
  "first_result f [] = None"
| "first_result f (x # xs) = (case f x of None \<Rightarrow> first_result f xs | Some y \<Rightarrow> Some y)"

text \<open>The fold of the relay that starts at one transfer, if it can fold.\<close>

definition fold_transfer :: "stage_graph \<Rightarrow> relay_ir \<Rightarrow> stage_op \<Rightarrow> nat list \<Rightarrow> nat \<Rightarrow> relay_ir option" where
  "fold_transfer G R stage transfers i =
     (case findRelay R stage i of
        None \<Rightarrow> None
      | Some relay \<Rightarrow>
          (case checkRelay R relay of
             None \<Rightarrow> None
           | Some attrs \<Rightarrow>
               let empties_producer = (length transfers = 1);
                   empties_consumer = (length (the (getTransfers R (relay_consumer relay))) = 1);
                   consumer_first = (empties_producer \<and> \<not> empties_consumer)
               in first_result (\<lambda>into_producer. map_option (foldRelay G R relay into_producer attrs) (canFold G R relay into_producer))
                    [\<not> consumer_first, consumer_first]))"

definition foldFirstRelay :: "stage_graph \<Rightarrow> relay_ir \<Rightarrow> relay_ir option" where
  "foldFirstRelay G R =
     first_result (\<lambda>stage. case getTransfers R stage of
                             None \<Rightarrow> None
                           | Some transfers \<Rightarrow> first_result (fold_transfer G R stage transfers) transfers)
       (pipe_stages (pipe R))"

partial_function (option) fold_relays :: "stage_graph \<Rightarrow> relay_ir \<Rightarrow> nat \<Rightarrow> (relay_ir \<times> nat) option" where
  "fold_relays G R num_folded =
     (case foldFirstRelay G R of
        None \<Rightarrow> Some (R, num_folded)
      | Some R' \<Rightarrow> fold_relays G R' (Suc num_folded))"

declare fold_relays.simps [code]

section \<open>The parameters\<close>

definition stage_edges :: "pipe_ir \<Rightarrow> (stage_op \<times> stage_op) set" where
  "stage_edges P = {(p, c). \<exists>t. t \<in> set (outputs P p) \<and> t \<in> set (awaits P c)}"

definition finite_tokens :: "pipe_ir \<Rightarrow> bool" where
  "finite_tokens P \<longleftrightarrow> finite {s. awaits P s \<noteq> [] \<or> outputs P s \<noteq> []}"

text \<open>The consumers of a stage await one of its tokens; depending on another stage is transitive.\<close>

definition stage_graph_ok :: "stage_graph \<Rightarrow> bool" where
  "stage_graph_ok G \<longleftrightarrow>
     (\<forall>P. finite_tokens P \<longrightarrow> (\<forall>s c.
        (c \<in> set (node_consumers G P s) \<longleftrightarrow> (s, c) \<in> stage_edges P) \<and>
        (c \<in> set (node_producers G P s) \<longleftrightarrow> (c, s) \<in> stage_edges P) \<and>
        (s \<noteq> c \<longrightarrow> node_depends_on G P s c = ((c, s) \<in> (stage_edges P)\<^sup>+)))) \<and>
     (\<forall>t ts. set (add_in_dependency G t ts) = insert t (set ts))"

section \<open>Graphs\<close>

text \<open>A vertex taken out of a graph, its neighbours joined.\<close>

definition contract :: "'a \<Rightarrow> ('a \<times> 'a) set \<Rightarrow> ('a \<times> 'a) set" where
  "contract d E = {(x, y) \<in> E. x \<noteq> d \<and> y \<noteq> d} \<union> {(x, y). x \<noteq> d \<and> y \<noteq> d \<and> (x, d) \<in> E \<and> (d, y) \<in> E}"

lemma contract_subset: "contract d E \<subseteq> E\<^sup>+"
  by (auto simp: contract_def)

lemma contract_trancl_subset: "(contract d E)\<^sup>+ \<subseteq> E\<^sup>+"
proof
  fix p assume "p \<in> (contract d E)\<^sup>+"
  from trancl_mono [OF this contract_subset] show "p \<in> E\<^sup>+" by simp
qed

lemma contract_trancl:
  assumes "(a, b) \<in> E\<^sup>+" and "a \<noteq> d" and "(d, d) \<notin> E"
  shows "if b = d then \<exists>x. x \<noteq> d \<and> (a, x) \<in> (contract d E)\<^sup>* \<and> (x, d) \<in> E else (a, b) \<in> (contract d E)\<^sup>+"
  using assms(1)
proof (induction rule: trancl_induct)
  case (base b)
  then show ?case using assms(2) by (auto simp: contract_def)
next
  case (step b c)
  show ?case
  proof (cases "b = d")
    case True
    then obtain x where x: "x \<noteq> d" "(a, x) \<in> (contract d E)\<^sup>*" "(x, d) \<in> E" using step.IH by auto
    have "c \<noteq> d" using True step.hyps(2) assms(3) by auto
    moreover from this have "(x, c) \<in> contract d E" using x(1,3) True step.hyps(2) by (simp add: contract_def)
    ultimately show ?thesis using x(2) by (simp add: rtrancl_into_trancl1)
  next
    case False
    then have ab: "(a, b) \<in> (contract d E)\<^sup>+" using step.IH by simp
    show ?thesis
    proof (cases "c = d")
      case True
      then show ?thesis using False ab step.hyps(2) by (auto intro!: exI [of _ b] trancl_into_rtrancl)
    next
      case c: False
      then have "(b, c) \<in> contract d E" using False step.hyps(2) by (simp add: contract_def)
      then show ?thesis using c ab by (simp add: trancl_into_trancl)
    qed
  qed
qed

text \<open>New edges into one vertex that none of their sources can be reached from.\<close>

definition edges_into :: "'a \<Rightarrow> ('a \<times> 'a) set \<Rightarrow> ('a \<times> 'a) set \<Rightarrow> bool" where
  "edges_into a E N \<longleftrightarrow> (\<forall>(x, y)\<in>N. y = a \<and> x \<noteq> a \<and> (a, x) \<notin> E\<^sup>+)"

lemma edges_into_from:
  assumes "edges_into a E N"
  shows "(a, y) \<in> (E \<union> N)\<^sup>+ \<Longrightarrow> (a, y) \<in> E\<^sup>+"
proof (induction rule: trancl_induct)
  case (base y)
  then show ?case using assms by (auto simp: edges_into_def)
next
  case (step y z)
  then show ?case using assms by (auto simp: edges_into_def intro: trancl_into_trancl)
qed

lemma edges_into_trancl:
  assumes "edges_into a E N"
  shows "(x, y) \<in> (E \<union> N)\<^sup>+ \<Longrightarrow> (x, y) \<in> E\<^sup>+ \<or> (x, a) \<in> (E \<union> N)\<^sup>+ \<and> (a, y) \<in> E\<^sup>*"
proof (induction rule: trancl_induct)
  case (base y)
  then show ?case using assms by (auto simp: edges_into_def)
next
  case (step y z)
  show ?case
  proof (cases "(y, z) \<in> E")
    case True
    then show ?thesis using step.IH by (auto intro: trancl_into_trancl rtrancl_into_rtrancl)
  next
    case False
    then have "(y, z) \<in> N" using step.hyps(2) by blast
    then have "z = a" using assms by (auto simp: edges_into_def)
    then show ?thesis using step.hyps by (auto intro: trancl_into_trancl)
  qed
qed

lemma edges_into_acyclic:
  assumes "edges_into a E N" and "acyclic E"
  shows "acyclic (E \<union> N)"
  unfolding acyclic_def
proof (intro allI notI)
  fix x assume x: "(x, x) \<in> (E \<union> N)\<^sup>+"
  with edges_into_trancl [OF assms(1) this] assms(2) have cyc: "(x, a) \<in> (E \<union> N)\<^sup>+" "(a, x) \<in> E\<^sup>*"
    by (auto simp: acyclic_def)
  have "(a, x) \<in> (E \<union> N)\<^sup>*" using cyc(2) rtrancl_mono [of E "E \<union> N"] by blast
  then have "(a, a) \<in> (E \<union> N)\<^sup>+" using cyc(1) by (rule rtrancl_trancl_trancl)
  then show False using edges_into_from [OF assms(1)] assms(2) by (auto simp: acyclic_def)
qed

section \<open>Finding a relay\<close>

definition stage_transfer :: "relay_ir \<Rightarrow> stage_op \<Rightarrow> nat \<Rightarrow> bool" where
  "stage_transfer R s t \<longleftrightarrow> s \<in> set (pipe_stages (pipe R)) \<and> TransferItem t \<in> set (stage_body_of R s)"

lemma slot_users_iff:
  "(s, t) \<in> set (slot_users R v) \<longleftrightarrow>
     stage_transfer R s t \<and> (t_source (transfer_at R t) = v \<or> t_dest (transfer_at R t) = v)"
  by (auto simp: slot_users_def item_uses_def stage_transfer_def split: stage_item.splits if_splits)

lemma those_item_transfer:
  "those (map item_transfer items) = Some ts \<longleftrightarrow> items = map TransferItem ts"
proof (induction items arbitrary: ts)
  case (Cons i items)
  then show ?case by (cases i; cases ts) auto
qed auto

lemma getTransfers_Some:
  "getTransfers R s = Some ts \<longleftrightarrow> stage_body_of R s = map TransferItem ts \<and> ts \<noteq> []"
  using those_item_transfer [of "stage_body_of R s" ts] by (auto simp: getTransfers_def split: option.splits if_splits)

definition relay_found :: "relay_ir \<Rightarrow> relay \<Rightarrow> bool" where
  "relay_found R r \<longleftrightarrow>
     stage_transfer R (relay_producer r) (relay_in r) \<and> stage_transfer R (relay_consumer r) (relay_out r) \<and>
     relay_producer r \<noteq> relay_consumer r \<and>
     getTransfers R (relay_producer r) \<noteq> None \<and> getTransfers R (relay_consumer r) \<noteq> None \<and>
     isMemRefValue (t_source (transfer_at R (relay_in r))) \<and> \<not> isMemRefValue (t_dest (transfer_at R (relay_in r))) \<and>
     t_source (transfer_at R (relay_out r)) = t_dest (transfer_at R (relay_in r)) \<and>
     isMemRefValue (t_dest (transfer_at R (relay_out r))) \<and>
     (\<forall>s t. stage_transfer R s t \<longrightarrow> (t_source (transfer_at R t) = t_dest (transfer_at R (relay_in r)) \<or>
        t_dest (transfer_at R t) = t_dest (transfer_at R (relay_in r))) \<longrightarrow>
        (s = relay_producer r \<and> t = relay_in r) \<or> (s = relay_consumer r \<and> t = relay_out r))"

lemma findRelay_found:
  assumes run: "findRelay R s i = Some r" and i: "stage_transfer R s i"
  shows "relay_found R r" "relay_in r = i" "relay_producer r = s"
proof -
  let ?slot = "t_dest (transfer_at R i)" and ?others = "filter (\<lambda>u. snd u \<noteq> i) (slot_users R (t_dest (transfer_at R i)))"
  obtain u us where us: "?others = u # us"
    using run by (auto simp: findRelay_def Let_def split: if_splits list.splits)
  obtain c out where last: "last (u # us) = (c, out)" by (cases "last (u # us)")
  have r: "isMemRefValue (t_source (transfer_at R i))" "\<not> isMemRefValue ?slot" "hasNUses R ?slot 2"
    "t_source (transfer_at R out) = ?slot" "isMemRefValue (t_dest (transfer_at R out))" "s \<noteq> c"
    "getTransfers R s \<noteq> None" "getTransfers R c \<noteq> None"
    "r = \<lparr>relay_in = i, relay_out = out, relay_producer = s, relay_consumer = c\<rparr>"
    using run us last by (auto simp: findRelay_def Let_def split: if_splits)
  have "(c, out) \<in> set ?others" using us last by (metis last_in_set list.distinct(1))
  then have out: "stage_transfer R c out" "out \<noteq> i" by (auto simp: slot_users_iff)
  have "(s', t) = (s, i) \<or> (s', t) = (c, out)" if "stage_transfer R s' t" "t_source (transfer_at R t) = ?slot \<or> t_dest (transfer_at R t) = ?slot" for s' t
  proof (rule ccontr)
    assume n: "\<not> ?thesis"
    have "{(s, i), (c, out), (s', t)} \<subseteq> set (slot_users R ?slot)"
      using i out(1) that r(4) by (auto simp: slot_users_iff)
    then have "card {(s, i), (c, out), (s', t)} \<le> length (slot_users R ?slot)"
      by (meson card_length card_mono finite_set le_trans)
    moreover have "card {(s, i), (c, out), (s', t)} = 3" using n out(2) by auto
    ultimately show False using r(3) by (simp add: hasNUses_def)
  qed
  then show "relay_found R r" "relay_in r = i" "relay_producer r = s"
    using r i out(1) by (auto simp: relay_found_def)
qed

lemma first_result_Some: "first_result f xs = Some y \<Longrightarrow> \<exists>x\<in>set xs. f x = Some y"
  by (induction xs) (auto split: option.splits)

lemma first_result_None: "first_result f xs = None \<longleftrightarrow> (\<forall>x\<in>set xs. f x = None)"
  by (induction xs) (auto split: option.splits)

definition can_fold :: "stage_graph \<Rightarrow> relay_ir \<Rightarrow> relay \<Rightarrow> bool \<Rightarrow> (string \<times> string) list \<Rightarrow> attribute list option \<Rightarrow> bool" where
  "can_fold G R r into_producer attrs units \<longleftrightarrow>
     relay_found R r \<and> checkRelay R r = Some attrs \<and> canFold G R r into_producer = Some units"

lemma foldFirstRelay_Some:
  assumes "foldFirstRelay G R = Some R'"
  obtains r into_producer attrs units where
    "can_fold G R r into_producer attrs units" "R' = foldRelay G R r into_producer attrs units"
proof -
  obtain s ts where s: "s \<in> set (pipe_stages (pipe R))" "getTransfers R s = Some ts"
    "first_result (fold_transfer G R s ts) ts = Some R'"
    using assms unfolding foldFirstRelay_def by (auto dest!: first_result_Some split: option.splits)
  obtain i where i: "i \<in> set ts" "fold_transfer G R s ts i = Some R'" using first_result_Some [OF s(3)] by blast
  have st: "stage_transfer R s i" using s(1,2) i(1) by (auto simp: stage_transfer_def getTransfers_Some)
  obtain r attrs bs where r: "findRelay R s i = Some r" "checkRelay R r = Some attrs"
    "first_result (\<lambda>b. map_option (foldRelay G R r b attrs) (canFold G R r b)) bs = Some R'"
    using i(2) by (auto simp: fold_transfer_def Let_def simp del: first_result.simps split: option.splits)
  obtain b where b: "map_option (foldRelay G R r b attrs) (canFold G R r b) = Some R'"
    using first_result_Some [OF r(3)] by blast
  show ?thesis using that [of r b attrs] findRelay_found(1) [OF r(1) st] r(2) b by (auto simp: can_fold_def)
qed

section \<open>The dependencies after a fold\<close>

lemma relay_roles:
  assumes "relay_found R r"
  shows "relay_target r b \<noteq> relay_donor r b" "stage_transfer R (relay_target r b) (target_half r b)"
    "stage_transfer R (relay_donor r b) (donor_half r b)"
    "getTransfers R (relay_target r b) \<noteq> None" "getTransfers R (relay_donor r b) \<noteq> None"
    "{target_half r b, donor_half r b} = {relay_in r, relay_out r}"
    "target_half r b \<noteq> donor_half r b"
  using assms by (auto simp: relay_found_def relay_target_def relay_donor_def target_half_def donor_half_def)

text \<open>What the target comes to await, and the stages and tokens that a fold leaves.\<close>

definition awaited_edges :: "pipe_ir \<Rightarrow> stage_op \<Rightarrow> stage_op \<Rightarrow> (stage_op \<times> stage_op) set" where
  "awaited_edges P target donor =
     {(x, y). y = target \<and> (\<exists>t. t \<in> set (outputs P x) \<and> t \<in> set (awaits P donor) \<and> t \<notin> set (outputs P target))}"

lemma stage_edges_await:
  "stage_edges (await_donor_tokens target donor P) = stage_edges P \<union> awaited_edges P target donor"
  by (auto simp: stage_edges_def await_donor_tokens_def awaited_edges_def split: if_splits)

lemma fold_add_in:
  assumes "stage_graph_ok G"
  shows "set (fold (add_in_dependency G) ts xs) = set ts \<union> set xs"
  using assms by (induction ts arbitrary: xs) (auto simp: stage_graph_ok_def)

lemma add_donor_tokens_fold:
  assumes G: "stage_graph_ok G" and "donor \<notin> set cs"
  shows "awaits (fold (add_donor_tokens G donor) cs P) donor = awaits P donor \<and>
    (\<forall>s. set (awaits (fold (add_donor_tokens G donor) cs P) s) = set (awaits P s) \<union> (if s \<in> set cs then set (awaits P donor) else {})) \<and>
    outputs (fold (add_donor_tokens G donor) cs P) = outputs P \<and> sp_body (fold (add_donor_tokens G donor) cs P) = sp_body P \<and>
    sp_is_stage (fold (add_donor_tokens G donor) cs P) = sp_is_stage P \<and>
    sp_private (fold (add_donor_tokens G donor) cs P) = sp_private P \<and>
    foreign_use (fold (add_donor_tokens G donor) cs P) = foreign_use P \<and>
    tokens_made (fold (add_donor_tokens G donor) cs P) = tokens_made P"
  using assms(2)
proof (induction cs rule: rev_induct)
  case (snoc c cs)
  then show ?case by (auto simp: add_donor_tokens_def fold_add_in [OF G])
qed simp

lemma stage_edges_erased:
  assumes "stage_graph_ok G" and "finite_tokens P" and "(donor, donor) \<notin> stage_edges P"
  shows "stage_edges (erase_stage donor (fold (add_donor_tokens G donor) (node_consumers G P donor) P)) = contract donor (stage_edges P)"
proof -
  have cs: "c \<in> set (node_consumers G P donor) \<longleftrightarrow> (donor, c) \<in> stage_edges P" for c
    using assms(1,2) by (simp add: stage_graph_ok_def)
  then have "donor \<notin> set (node_consumers G P donor)" using assms(3) by simp
  from add_donor_tokens_fold [OF assms(1) this, of P] show ?thesis
    using cs by (auto simp: erase_stage_def stage_edges_def contract_def split: if_splits)
qed

definition emptied :: "relay_ir \<Rightarrow> relay \<Rightarrow> bool \<Rightarrow> bool" where
  "emptied R r b \<longleftrightarrow> filter (\<lambda>i. i \<noteq> TransferItem (donor_half r b)) (stage_body_of R (relay_donor r b)) = []"

lemma foldRelay_pipe:
  assumes "relay_target r b \<noteq> relay_donor r b"
  shows "pipe (foldRelay G R r b attrs units) =
    (let P2 = await_donor_tokens (relay_target r b) (relay_donor r b) (pipe R) in
     if emptied R r b then erase_stage (relay_donor r b)
       (fold (add_donor_tokens G (relay_donor r b)) (node_consumers G P2 (relay_donor r b)) P2) else P2)"
  using assms by (simp add: foldRelay_def replace_halves_def Let_def emptied_def)

lemma canFold_Some:
  assumes "canFold G R r b = Some units"
  shows "tokens_allow G R r b" "\<not> forms_cycle G R (relay_target r b) (relay_donor r b)"
  using assms by (auto simp: canFold_def Let_def split: if_splits)

lemma finite_tokens_await:
  assumes "finite_tokens P"
  shows "finite_tokens (await_donor_tokens target donor P)"
proof -
  have "{s. awaits (await_donor_tokens target donor P) s \<noteq> [] \<or> outputs (await_donor_tokens target donor P) s \<noteq> []} \<subseteq>
    insert target {s. awaits P s \<noteq> [] \<or> outputs P s \<noteq> []}"
    by (auto simp: await_donor_tokens_def)
  then show ?thesis using assms unfolding finite_tokens_def by (meson finite.insertI finite_subset)
qed

lemma awaited_edges_into:
  assumes G: "stage_graph_ok G" "finite_tokens (pipe R)" and "\<not> forms_cycle G R target donor"
  shows "edges_into target (stage_edges (pipe R)) (awaited_edges (pipe R) target donor)"
  unfolding edges_into_def
proof (clarsimp simp: awaited_edges_def)
  fix x t assume t: "t \<in> set (outputs (pipe R) x)" "t \<in> set (awaits (pipe R) donor)" "t \<notin> set (outputs (pipe R) target)"
  then have "x \<noteq> target" by blast
  moreover have "x \<in> set (node_producers G (pipe R) donor)"
    using G t unfolding stage_graph_ok_def by (auto simp: stage_edges_def)
  ultimately have "\<not> node_depends_on G (pipe R) x target"
    using assms(3) by (auto simp: forms_cycle_def list_ex_iff)
  then show "x \<noteq> target \<and> (target, x) \<notin> (stage_edges (pipe R))\<^sup>+"
    using G \<open>x \<noteq> target\<close> unfolding stage_graph_ok_def by blast
qed

definition grown_edges :: "relay_ir \<Rightarrow> relay \<Rightarrow> bool \<Rightarrow> (stage_op \<times> stage_op) set" where
  "grown_edges R r b = stage_edges (pipe R) \<union> awaited_edges (pipe R) (relay_target r b) (relay_donor r b)"

lemma foldRelay_edges:
  assumes G: "stage_graph_ok G" "finite_tokens (pipe R)" and fold: "can_fold G R r b attrs units"
    and acyc: "acyclic (stage_edges (pipe R))"
  shows "acyclic (grown_edges R r b)"
    "stage_edges (pipe (foldRelay G R r b attrs units)) =
      (if emptied R r b then contract (relay_donor r b) (grown_edges R r b) else grown_edges R r b)"
    "acyclic (stage_edges (pipe (foldRelay G R r b attrs units)))"
    "finite_tokens (pipe (foldRelay G R r b attrs units))"
proof -
  let ?T = "relay_target r b" and ?D = "relay_donor r b"
  let ?P2 = "await_donor_tokens ?T ?D (pipe R)"
  have found: "relay_found R r" and can: "canFold G R r b = Some units" using fold by (simp_all add: can_fold_def)
  note roles = relay_roles [OF found, of b] and ok = canFold_Some [OF can]
  show grown: "acyclic (grown_edges R r b)"
    unfolding grown_edges_def by (rule edges_into_acyclic [OF awaited_edges_into [OF G ok(2)] acyc])
  have E2: "stage_edges ?P2 = grown_edges R r b" by (simp add: stage_edges_await grown_edges_def)
  have self: "(?D, ?D) \<notin> grown_edges R r b" using grown by (auto simp: acyclic_def)
  show edges: "stage_edges (pipe (foldRelay G R r b attrs units)) =
      (if emptied R r b then contract ?D (grown_edges R r b) else grown_edges R r b)"
    using stage_edges_erased [OF G(1) finite_tokens_await [OF G(2)]] self
    by (simp add: foldRelay_pipe [OF roles(1)] Let_def E2)
  have "acyclic (contract ?D (grown_edges R r b))"
  proof -
    show ?thesis using grown contract_trancl_subset [of ?D "grown_edges R r b"] by (auto simp: acyclic_def)
  qed
  then show "acyclic (stage_edges (pipe (foldRelay G R r b attrs units)))" using grown by (simp add: edges)
  show "finite_tokens (pipe (foldRelay G R r b attrs units))"
  proof (cases "emptied R r b")
    case True
    let ?cs = "node_consumers G ?P2 ?D"
    have "?D \<notin> set ?cs" using G(1) finite_tokens_await [OF G(2)] self by (simp add: stage_graph_ok_def E2)
    note a = add_donor_tokens_fold [OF G(1) this, of ?P2]
    have sub: "{s. awaits (fold (add_donor_tokens G ?D) ?cs ?P2) s \<noteq> [] \<or> outputs (fold (add_donor_tokens G ?D) ?cs ?P2) s \<noteq> []} \<subseteq>
      {s. awaits ?P2 s \<noteq> [] \<or> outputs ?P2 s \<noteq> []} \<union> set ?cs"
      using a by (auto simp: set_empty [symmetric] simp del: set_empty split: if_splits)
    have "finite {s. awaits (fold (add_donor_tokens G ?D) ?cs ?P2) s \<noteq> [] \<or> outputs (fold (add_donor_tokens G ?D) ?cs ?P2) s \<noteq> []}"
      by (rule finite_subset [OF sub]) (use finite_tokens_await [OF G(2), of ?T ?D] in \<open>simp add: finite_tokens_def\<close>)
    then have "finite_tokens (erase_stage ?D (fold (add_donor_tokens G ?D) ?cs ?P2))"
      unfolding finite_tokens_def by (rule rev_finite_subset) (auto simp: erase_stage_def)
    then show ?thesis using True by (simp add: foldRelay_pipe [OF roles(1)] Let_def)
  next
    case False
    then show ?thesis using finite_tokens_await [OF G(2)] by (simp add: foldRelay_pipe [OF roles(1)] Let_def)
  qed
qed

section \<open>What a fold keeps\<close>

text \<open>No stage outputs a token that another stage outputs.\<close>

definition single_producers :: "pipe_ir \<Rightarrow> bool" where
  "single_producers P \<longleftrightarrow> (\<forall>t p q. t \<in> set (outputs P p) \<longrightarrow> t \<in> set (outputs P q) \<longrightarrow> p = q)"

text \<open>
  The stages that remain keep their order; a stage ordered with the read or the write of the
  relay, other than the two stages themselves, is ordered with the folded transfer in the same way.
\<close>

definition order_maintained :: "(stage_op \<times> stage_op) set \<Rightarrow> (stage_op \<times> stage_op) set \<Rightarrow> stage_op set \<Rightarrow> bool" where
  "order_maintained E E' gone \<longleftrightarrow> (\<forall>x y. x \<notin> gone \<longrightarrow> y \<notin> gone \<longrightarrow> (x, y) \<in> E\<^sup>+ \<longrightarrow> (x, y) \<in> E'\<^sup>+)"

definition transfer_ordered :: "(stage_op \<times> stage_op) set \<Rightarrow> (stage_op \<times> stage_op) set \<Rightarrow> stage_op \<Rightarrow> stage_op \<Rightarrow> bool" where
  "transfer_ordered E E' target donor \<longleftrightarrow>
     (\<forall>h\<in>{target, donor}. \<forall>x. x \<noteq> target \<longrightarrow> x \<noteq> donor \<longrightarrow>
        ((h, x) \<in> E\<^sup>+ \<longrightarrow> (target, x) \<in> E'\<^sup>+) \<and> ((x, h) \<in> E\<^sup>+ \<longrightarrow> (x, target) \<in> E'\<^sup>+))"

lemma foldRelay_order:
  assumes G: "stage_graph_ok G" "finite_tokens (pipe R)" and fold: "can_fold G R r b attrs units"
    and acyc: "acyclic (stage_edges (pipe R))"
  shows "order_maintained (stage_edges (pipe R)) (stage_edges (pipe (foldRelay G R r b attrs units)))
      (if emptied R r b then {relay_donor r b} else {})"
    "single_producers (pipe R) \<Longrightarrow> transfer_ordered (stage_edges (pipe R))
      (stage_edges (pipe (foldRelay G R r b attrs units))) (relay_target r b) (relay_donor r b)"
proof -
  let ?E = "stage_edges (pipe R)" and ?E' = "stage_edges (pipe (foldRelay G R r b attrs units))"
  let ?T = "relay_target r b" and ?D = "relay_donor r b" and ?E2 = "grown_edges R r b"
  have found: "relay_found R r" and can: "canFold G R r b = Some units" using fold by (simp_all add: can_fold_def)
  note roles = relay_roles [OF found, of b] and ok = canFold_Some [OF can]
  note edges = foldRelay_edges [OF G fold acyc]
  have self: "(?D, ?D) \<notin> ?E2" using edges(1) by (auto simp: acyclic_def)
  have keep: "(x, y) \<in> ?E'\<^sup>+" if "(x, y) \<in> ?E2\<^sup>+" "emptied R r b \<longrightarrow> x \<noteq> ?D \<and> y \<noteq> ?D" for x y
    using contract_trancl [OF that(1) _ self] that edges(2) by (auto split: if_splits)
  have grow: "(x, y) \<in> ?E2\<^sup>+" if "(x, y) \<in> ?E\<^sup>+" for x y
    using trancl_mono [OF that, of ?E2] by (simp add: grown_edges_def)
  show "order_maintained ?E ?E' (if emptied R r b then {?D} else {})"
    unfolding order_maintained_def using keep grow by auto
  assume single: "single_producers (pipe R)"
  have to_target: "(x, ?T) \<in> ?E2" if "(x, ?D) \<in> ?E" "x \<noteq> ?T" for x
    using that single unfolding single_producers_def grown_edges_def awaited_edges_def stage_edges_def by blast
  show "transfer_ordered ?E ?E' ?T ?D"
    unfolding transfer_ordered_def
  proof (intro ballI allI impI conjI)
    fix h x assume h: "h \<in> {?T, ?D}" and x: "x \<noteq> ?T" "x \<noteq> ?D"
    show "(x, ?T) \<in> ?E'\<^sup>+" if "(x, h) \<in> ?E\<^sup>+"
    proof (rule keep)
      show "emptied R r b \<longrightarrow> x \<noteq> ?D \<and> ?T \<noteq> ?D" using x roles(1) by simp
      show "(x, ?T) \<in> ?E2\<^sup>+"
      proof (cases "h = ?T")
        case True
        then show ?thesis using grow that by simp
      next
        case False
        then have "(x, ?D) \<in> ?E\<^sup>+" using h that by simp
        then obtain y where y: "(x, y) \<in> ?E\<^sup>*" "(y, ?D) \<in> ?E" by (metis tranclD2)
        show ?thesis
        proof (cases "y = ?T")
          case True
          then have "(x, ?T) \<in> ?E\<^sup>+" using y(1) x(1) by (simp add: rtrancl_eq_or_trancl)
          then show ?thesis by (rule grow)
        next
          case y': False
          have "(x, y) \<in> ?E2\<^sup>*" using y(1) rtrancl_mono [of ?E ?E2] by (auto simp: grown_edges_def)
          then show ?thesis using to_target [OF y(2) y'] by (rule rtrancl_into_trancl1)
        qed
      qed
    qed
    show "(?T, x) \<in> ?E'\<^sup>+" if hx: "(h, x) \<in> ?E\<^sup>+"
    proof (rule keep)
      show "emptied R r b \<longrightarrow> ?T \<noteq> ?D \<and> x \<noteq> ?D" using x roles(1) by simp
      show "(?T, x) \<in> ?E2\<^sup>+"
      proof (cases "h = ?T")
        case True
        then show ?thesis using grow hx by simp
      next
        case False
        then have dx: "(?D, x) \<in> ?E\<^sup>+" using h hx by simp
        then obtain y where y: "(?D, y) \<in> ?E" "(y, x) \<in> ?E\<^sup>*" by (metis tranclD)
        have G': "c \<in> set (node_consumers G (pipe R) s) \<longleftrightarrow> (s, c) \<in> ?E" "c \<in> set (node_producers G (pipe R) s) \<longleftrightarrow> (c, s) \<in> ?E" for s c
          using G by (simp_all add: stage_graph_ok_def)
        show ?thesis
        proof (cases b)
          case True
          then have roles': "?T = relay_producer r" "?D = relay_consumer r" by (simp_all add: relay_target_def relay_donor_def)
          have "y \<in> set (node_consumers G (pipe R) ?D)" using y(1) G'(1) by simp
          then have "node_consumers G (pipe R) ?D \<noteq> []" by auto
          then have "(?T, ?D) \<in> ?E" using ok(1) True roles' G'(2) by (simp add: tokens_allow_def)
          then show ?thesis using dx grow by (meson trancl_into_trancl2)
        next
          case False
          then have roles': "?T = relay_consumer r" "?D = relay_producer r" by (simp_all add: relay_target_def relay_donor_def)
          have "y = ?T" using ok(1) False roles' y(1) G'(1) by (simp add: tokens_allow_def list_all_iff)
          then show ?thesis using y(2) x(1) grow by (simp add: rtrancl_eq_or_trancl)
        qed
      qed
    qed
  qed
qed

text \<open>Transfers have numbers of their own, and each stands in one stage.\<close>

definition transfers_ok :: "relay_ir \<Rightarrow> bool" where
  "transfers_ok R \<longleftrightarrow> distinct (sp_body (pipe R)) \<and>
     (\<forall>s\<in>set (pipe_stages (pipe R)). distinct (stage_body_of R s)) \<and>
     (\<forall>s t. stage_transfer R s t \<longrightarrow> t < next_transfer R) \<and>
     (\<forall>s s' t. stage_transfer R s t \<longrightarrow> stage_transfer R s' t \<longrightarrow> s = s')"

lemma foldRelay_fields:
  assumes "relay_target r b \<noteq> relay_donor r b" and "stage_graph_ok G" and "finite_tokens (pipe R)"
    and "acyclic (grown_edges R r b)"
  shows "stage_body_of (foldRelay G R r b attrs units) = (stage_body_of R)
      (relay_target r b := map (\<lambda>i. if i = TransferItem (target_half r b) then TransferItem (next_transfer R) else i)
                       (stage_body_of R (relay_target r b)),
       relay_donor r b := filter (\<lambda>i. i \<noteq> TransferItem (donor_half r b)) (stage_body_of R (relay_donor r b)))"
    "transfer_at (foldRelay G R r b attrs units) = (transfer_at R)(next_transfer R := folded_transfer R r attrs)"
    "next_transfer (foldRelay G R r b attrs units) = Suc (next_transfer R)"
    "other_uses (foldRelay G R r b attrs units) = other_uses R"
    "sp_body (pipe (foldRelay G R r b attrs units)) =
      (if emptied R r b then filter (\<lambda>q. q \<noteq> relay_donor r b) (sp_body (pipe R)) else sp_body (pipe R))"
    "sp_is_stage (pipe (foldRelay G R r b attrs units)) = sp_is_stage (pipe R)"
    "outputs (pipe (foldRelay G R r b attrs units)) =
      (if emptied R r b then (outputs (pipe R))(relay_donor r b := []) else outputs (pipe R))"
    "sp_private (pipe (foldRelay G R r b attrs units)) = sp_private (pipe R)"
    "foreign_use (pipe (foldRelay G R r b attrs units)) = foreign_use (pipe R)"
    "tokens_made (pipe (foldRelay G R r b attrs units)) = tokens_made (pipe R)"
proof -
  let ?P2 = "await_donor_tokens (relay_target r b) (relay_donor r b) (pipe R)" and ?D = "relay_donor r b"
  have "finite_tokens ?P2" using assms(3) by (rule finite_tokens_await)
  moreover have "(?D, ?D) \<notin> stage_edges ?P2" using assms(4) by (auto simp: stage_edges_await grown_edges_def acyclic_def)
  ultimately have "?D \<notin> set (node_consumers G ?P2 ?D)" using assms(2) by (simp add: stage_graph_ok_def)
  note a = add_donor_tokens_fold [OF assms(2) this, of ?P2]
  show "stage_body_of (foldRelay G R r b attrs units) = (stage_body_of R)
      (relay_target r b := map (\<lambda>i. if i = TransferItem (target_half r b) then TransferItem (next_transfer R) else i)
                       (stage_body_of R (relay_target r b)),
       relay_donor r b := filter (\<lambda>i. i \<noteq> TransferItem (donor_half r b)) (stage_body_of R (relay_donor r b)))"
    "transfer_at (foldRelay G R r b attrs units) = (transfer_at R)(next_transfer R := folded_transfer R r attrs)"
    "next_transfer (foldRelay G R r b attrs units) = Suc (next_transfer R)"
    "other_uses (foldRelay G R r b attrs units) = other_uses R"
    by (simp_all add: foldRelay_def replace_halves_def Let_def)
  show "sp_body (pipe (foldRelay G R r b attrs units)) =
      (if emptied R r b then filter (\<lambda>q. q \<noteq> relay_donor r b) (sp_body (pipe R)) else sp_body (pipe R))"
    "sp_is_stage (pipe (foldRelay G R r b attrs units)) = sp_is_stage (pipe R)"
    "outputs (pipe (foldRelay G R r b attrs units)) =
      (if emptied R r b then (outputs (pipe R))(relay_donor r b := []) else outputs (pipe R))"
    "sp_private (pipe (foldRelay G R r b attrs units)) = sp_private (pipe R)"
    "foreign_use (pipe (foldRelay G R r b attrs units)) = foreign_use (pipe R)"
    "tokens_made (pipe (foldRelay G R r b attrs units)) = tokens_made (pipe R)"
    unfolding foldRelay_pipe [OF assms(1)] Let_def using a by (simp_all add: erase_stage_def await_donor_tokens_def)
qed

text \<open>A fold that is about to happen.\<close>

definition folding :: "stage_graph \<Rightarrow> relay_ir \<Rightarrow> relay \<Rightarrow> bool \<Rightarrow> (string \<times> string) list \<Rightarrow> attribute list option \<Rightarrow> bool" where
  "folding G R r b attrs units \<longleftrightarrow> stage_graph_ok G \<and> finite_tokens (pipe R) \<and> acyclic (stage_edges (pipe R)) \<and>
     transfers_ok R \<and> can_fold G R r b attrs units"

lemma folding_D:
  assumes "folding G R r b attrs units"
  shows "stage_graph_ok G" "finite_tokens (pipe R)" "acyclic (stage_edges (pipe R))" "transfers_ok R"
    "can_fold G R r b attrs units" "relay_found R r"
  using assms by (simp_all add: folding_def can_fold_def)

lemmas folding_roles = relay_roles [OF folding_D(6)]

lemma folding_fields_ctx:
  assumes "folding G R r b attrs units"
  shows "relay_target r b \<noteq> relay_donor r b" "stage_graph_ok G" "finite_tokens (pipe R)" "acyclic (grown_edges R r b)"
  using folding_roles(1) [OF assms, of b] folding_D [OF assms]
    foldRelay_edges(1) [OF folding_D(1) [OF assms] folding_D(2) [OF assms] folding_D(5) [OF assms] folding_D(3) [OF assms]]
  by simp_all

lemmas folding_fields =
  foldRelay_fields [OF folding_fields_ctx(1) folding_fields_ctx(2) folding_fields_ctx(3) folding_fields_ctx(4)]

lemma stages_after:
  assumes "folding G R r b attrs units"
  shows "s \<in> set (pipe_stages (pipe (foldRelay G R r b attrs units))) \<longleftrightarrow>
     s \<in> set (pipe_stages (pipe R)) \<and> (emptied R r b \<longrightarrow> s \<noteq> relay_donor r b)"
  by (auto simp: pipe_stages_def folding_fields [OF assms assms assms assms])

lemma fresh_transfer: "transfers_ok R \<Longrightarrow> stage_transfer R s t \<Longrightarrow> t \<noteq> next_transfer R"
  by (auto simp: transfers_ok_def)

lemma stage_transfer_unique: "transfers_ok R \<Longrightarrow> stage_transfer R s t \<Longrightarrow> stage_transfer R s' t \<Longrightarrow> s = s'"
  unfolding transfers_ok_def by blast

lemma replaced_item:
  "TransferItem t \<in> set (map (\<lambda>i. if i = TransferItem h then TransferItem n else i) items) \<longleftrightarrow>
     t = n \<and> TransferItem h \<in> set items \<or> t \<noteq> h \<and> TransferItem t \<in> set items"
  by (auto simp: image_iff split: if_splits)

lemma transfers_after:
  assumes ctx: "folding G R r b attrs units"
  shows "stage_transfer (foldRelay G R r b attrs units) s t \<longleftrightarrow>
     s = relay_target r b \<and> t = next_transfer R \<or> stage_transfer R s t \<and> t \<noteq> relay_in r \<and> t \<noteq> relay_out r"
proof -
  let ?T = "relay_target r b" and ?D = "relay_donor r b"
  note roles = folding_roles [OF ctx, of b] and wf = folding_D(4) [OF ctx]
    and fields = folding_fields [OF ctx ctx ctx ctx]
  have half: "t \<noteq> relay_in r \<and> t \<noteq> relay_out r \<longleftrightarrow> t \<noteq> target_half r b \<and> t \<noteq> donor_half r b"
  proof -
    have "t \<notin> {relay_in r, relay_out r} \<longleftrightarrow> t \<notin> {target_half r b, donor_half r b}" by (simp only: roles(6))
    then show ?thesis by simp
  qed
  have target: "?T \<in> set (pipe_stages (pipe R))" "TransferItem (target_half r b) \<in> set (stage_body_of R ?T)"
    using roles(2) by (simp_all add: stage_transfer_def)
  have T: "t \<noteq> donor_half r b" if "stage_transfer R ?T t" using stage_transfer_unique [OF wf that, of ?D] roles(1,3) by auto
  have D: "t \<noteq> target_half r b" if "stage_transfer R ?D t" using stage_transfer_unique [OF wf that, of ?T] roles(1,2) by auto
  consider (T) "s = ?T" | (D) "s = ?D" | (other) "s \<noteq> ?T" "s \<noteq> ?D" by blast
  then show ?thesis
  proof cases
    case T
    have "stage_transfer (foldRelay G R r b attrs units) ?T t \<longleftrightarrow>
      t = next_transfer R \<or> t \<noteq> target_half r b \<and> TransferItem t \<in> set (stage_body_of R ?T)"
      using target roles(1) by (simp add: stage_transfer_def stages_after [OF ctx] fields(1) replaced_item del: set_map)
    then show ?thesis unfolding half using T \<open>stage_transfer R ?T t \<Longrightarrow> t \<noteq> donor_half r b\<close> target(1)
      by (auto simp: stage_transfer_def)
  next
    case D
    have "emptied R r b \<Longrightarrow> stage_transfer R ?D t \<Longrightarrow> t = donor_half r b"
      by (auto simp: emptied_def stage_transfer_def filter_empty_conv)
    then show ?thesis unfolding half using D \<open>stage_transfer R ?D t \<Longrightarrow> t \<noteq> target_half r b\<close> roles(1)
      by (auto simp: stage_transfer_def stages_after [OF ctx] fields(1))
  next
    case other
    then have "stage_transfer R s t \<Longrightarrow> t \<noteq> target_half r b \<and> t \<noteq> donor_half r b"
      using stage_transfer_unique [OF wf _ roles(2)] stage_transfer_unique [OF wf _ roles(3)] by blast
    then show ?thesis unfolding half using other
      by (auto simp: stage_transfer_def stages_after [OF ctx] fields(1))
  qed
qed

lemma transfers_ok_after:
  assumes ctx: "folding G R r b attrs units"
  shows "transfers_ok (foldRelay G R r b attrs units)"
proof -
  let ?R' = "foldRelay G R r b attrs units"
  note roles = folding_roles [OF ctx, of b] and wf = folding_D(4) [OF ctx]
    and fields = folding_fields [OF ctx ctx ctx ctx] and after = transfers_after [OF ctx]
  have "distinct (stage_body_of ?R' s)" if "s \<in> set (pipe_stages (pipe ?R'))" for s
  proof -
    have d: "distinct (stage_body_of R s)" using wf that by (simp add: transfers_ok_def stages_after [OF ctx])
    have "inj_on (\<lambda>i. if i = TransferItem (target_half r b) then TransferItem (next_transfer R) else i)
      (set (stage_body_of R (relay_target r b)))"
      using fresh_transfer [OF wf] roles(2) by (auto simp: inj_on_def stage_transfer_def)
    then show ?thesis using d roles(1) by (auto simp: fields(1) distinct_map)
  qed
  moreover have "distinct (sp_body (pipe ?R'))" using wf by (simp add: fields transfers_ok_def)
  moreover have "t < next_transfer ?R'" if "stage_transfer ?R' s t" for s t
  proof -
    have "t = next_transfer R \<or> stage_transfer R s t" using that after by blast
    then show ?thesis using wf unfolding transfers_ok_def fields(3) by (auto intro: less_SucI)
  qed
  moreover have "s = s'" if "stage_transfer ?R' s t" "stage_transfer ?R' s' t" for s s' t
    using that fresh_transfer [OF wf] stage_transfer_unique [OF wf] unfolding after by blast
  ultimately show ?thesis unfolding transfers_ok_def by blast
qed

text \<open>
  What is moved from memory to memory, with the maps, indices and sizes at both ends: by one
  transfer, or by two through a slot.
\<close>

definition source_part :: "transfer_op \<Rightarrow> transfer_value \<times> nat option \<times> nat list \<times> size_value list" where
  "source_part t = (t_source t, t_source_map t, t_source_indices t, t_source_sizes t)"

definition dest_part :: "transfer_op \<Rightarrow> transfer_value \<times> nat option \<times> nat list \<times> size_value list" where
  "dest_part t = (t_dest t, t_dest_map t, t_dest_indices t, t_dest_sizes t)"

definition stage_transfers :: "relay_ir \<Rightarrow> nat set" where
  "stage_transfers R = {t. \<exists>s. stage_transfer R s t}"

definition moves_by :: "(nat \<Rightarrow> transfer_op) \<Rightarrow> nat \<Rightarrow> nat \<Rightarrow> bool" where
  "moves_by at t u \<longleftrightarrow> isMemRefValue (t_source (at t)) \<and> isMemRefValue (t_dest (at u)) \<and>
     (t = u \<or> \<not> isMemRefValue (t_dest (at t)) \<and> t_source (at u) = t_dest (at t))"

definition memory_moves ::
  "relay_ir \<Rightarrow> ((transfer_value \<times> nat option \<times> nat list \<times> size_value list) \<times>
     (transfer_value \<times> nat option \<times> nat list \<times> size_value list)) set" where
  "memory_moves R = {(source_part (transfer_at R t), dest_part (transfer_at R u)) | t u.
     t \<in> stage_transfers R \<and> u \<in> stage_transfers R \<and> moves_by (transfer_at R) t u}"

lemma memory_moves_after:
  assumes ctx: "folding G R r b attrs units"
  shows "memory_moves (foldRelay G R r b attrs units) = memory_moves R"
proof -
  let ?R' = "foldRelay G R r b attrs units" and ?n = "next_transfer R" and ?T = "stage_transfers R"
  let ?i = "relay_in r" and ?o = "relay_out r"
  note wf = folding_D(4) [OF ctx] and fields = folding_fields [OF ctx ctx ctx ctx] and after = transfers_after [OF ctx]
  have ids: "stage_transfers ?R' = insert ?n (?T - {?i, ?o})"
    unfolding stage_transfers_def using after by blast
  have n: "?n \<notin> ?T" using fresh_transfer [OF wf] by (auto simp: stage_transfers_def)
  have f: "?i \<in> ?T" "?o \<in> ?T" "isMemRefValue (t_source (transfer_at R ?i))" "\<not> isMemRefValue (t_dest (transfer_at R ?i))"
    "t_source (transfer_at R ?o) = t_dest (transfer_at R ?i)" "isMemRefValue (t_dest (transfer_at R ?o))"
    using folding_D(6) [OF ctx] by (auto simp: relay_found_def stage_transfers_def)
  have only: "t = ?i \<or> t = ?o" if "t \<in> ?T" "t_source (transfer_at R t) = t_dest (transfer_at R ?i) \<or> t_dest (transfer_at R t) = t_dest (transfer_at R ?i)" for t
    using folding_D(6) [OF ctx] that unfolding relay_found_def stage_transfers_def by blast
  have at_n: "transfer_at ?R' ?n = folded_transfer R r attrs" and at_old: "t \<noteq> ?n \<Longrightarrow> transfer_at ?R' t = transfer_at R t" for t
    by (simp_all add: fields(2))
  have parts: "source_part (transfer_at ?R' ?n) = source_part (transfer_at R ?i)" "dest_part (transfer_at ?R' ?n) = dest_part (transfer_at R ?o)"
    and mem: "isMemRefValue (t_source (transfer_at ?R' ?n))" "isMemRefValue (t_dest (transfer_at ?R' ?n))"
    using f(3,6) by (simp_all add: at_n folded_transfer_def Let_def source_part_def dest_part_def)
  have pair: "moves_by (transfer_at R) ?i ?o" using f(3-6) by (simp add: moves_by_def)
  have old: "moves_by (transfer_at ?R') t u = moves_by (transfer_at R) t u" if "t \<noteq> ?n" "u \<noteq> ?n" for t u
    using that by (simp add: moves_by_def at_old)
  have other: "{t, u} \<inter> {?i, ?o} = {} \<or> t = ?i \<and> u = ?o" if tu: "t \<in> ?T" "u \<in> ?T" "moves_by (transfer_at R) t u" for t u
  proof (cases "t \<in> {?i, ?o} \<or> u \<in> {?i, ?o}")
    case True
    have "t \<noteq> ?o" using tu(3) f(4,5) by (auto simp: moves_by_def)
    moreover have "u \<noteq> ?i" using tu(3) f(4) by (auto simp: moves_by_def)
    ultimately consider "t = ?i" "u \<noteq> ?i" | "u = ?o" "t \<noteq> ?o" using True by blast
    then show ?thesis
    proof cases
      case 1
      then have "t_source (transfer_at R u) = t_dest (transfer_at R ?i)" using tu(3) by (auto simp: moves_by_def)
      then show ?thesis using only [OF tu(2)] 1 by blast
    next
      case 2
      then have "t_dest (transfer_at R t) = t_dest (transfer_at R ?i)" using tu(3) f(5) by (auto simp: moves_by_def)
      then show ?thesis using only [OF tu(1)] 2 by blast
    qed
  qed auto
  have alone: "t = u" if "moves_by (transfer_at ?R') t u" "t = ?n \<or> u = ?n" for t u
    using that mem by (auto simp: moves_by_def)
  show ?thesis
  proof (rule set_eqI, rule iffI)
    fix p assume "p \<in> memory_moves ?R'"
    then obtain t u where p: "p = (source_part (transfer_at ?R' t), dest_part (transfer_at ?R' u))"
      "t \<in> stage_transfers ?R'" "u \<in> stage_transfers ?R'" "moves_by (transfer_at ?R') t u" unfolding memory_moves_def by blast
    show "p \<in> memory_moves R"
    proof (cases "t = ?n \<or> u = ?n")
      case True
      then have "t = ?n" "u = ?n" using alone [OF p(4)] by auto
      then have "p = (source_part (transfer_at R ?i), dest_part (transfer_at R ?o))" using p(1) parts by simp
      then show ?thesis unfolding memory_moves_def using f(1,2) pair by blast
    next
      case False
      then show ?thesis unfolding memory_moves_def using p ids old [of t u] at_old by auto
    qed
  next
    fix p assume "p \<in> memory_moves R"
    then obtain t u where p: "p = (source_part (transfer_at R t), dest_part (transfer_at R u))"
      "t \<in> ?T" "u \<in> ?T" "moves_by (transfer_at R) t u" unfolding memory_moves_def by blast
    have ne: "t \<noteq> ?n" "u \<noteq> ?n" using p(2,3) n by auto
    from other [OF p(2-4)] show "p \<in> memory_moves ?R'"
    proof
      assume "{t, u} \<inter> {?i, ?o} = {}"
      then have "t \<in> stage_transfers ?R'" "u \<in> stage_transfers ?R'" using p(2,3) ids by auto
      moreover have "p = (source_part (transfer_at ?R' t), dest_part (transfer_at ?R' u))" using p(1) at_old ne by simp
      moreover have "moves_by (transfer_at ?R') t u" using p(4) old [OF ne] by simp
      ultimately show ?thesis unfolding memory_moves_def by blast
    next
      assume "t = ?i \<and> u = ?o"
      then have "p = (source_part (transfer_at ?R' ?n), dest_part (transfer_at ?R' ?n))" using p(1) parts by simp
      moreover have "moves_by (transfer_at ?R') ?n ?n" using mem by (simp add: moves_by_def)
      ultimately show ?thesis unfolding memory_moves_def using ids by blast
    qed
  qed
qed

text \<open>No two stages share an anchor.\<close>

definition anchors_disjoint :: "relay_ir \<Rightarrow> bool" where
  "anchors_disjoint R \<longleftrightarrow> (\<forall>s\<in>set (pipe_stages (pipe R)). \<forall>s'\<in>set (pipe_stages (pipe R)). s \<noteq> s' \<longrightarrow>
     set (getAnchors R s) \<inter> set (getAnchors R s') = {})"

lemma getAnchors_of: "getTransfers R s = Some ts \<Longrightarrow>
  getAnchors R s = (case findAnchors (map (\<lambda>t. getEnds (transfer_at R t)) ts) of None \<Rightarrow> [] | Some a \<Rightarrow> a)"
  by (simp add: getAnchors_def)

lemma canFold_anchors:
  assumes "canFold G R r b = Some units"
  obtains target_ends donor_ends target_anchors donor_anchors where
    "ends_after R r b = (target_ends, donor_ends)" "findAnchors target_ends = Some target_anchors"
    "(if donor_ends = [] then Some [] else findAnchors donor_ends) = Some donor_anchors"
    "\<And>a s. a \<in> set target_anchors \<Longrightarrow> a \<notin> set (getAnchors R (relay_target r b)) \<Longrightarrow>
       a \<notin> set donor_anchors \<and> (s \<in> set (pipe_stages (pipe R)) \<longrightarrow> s \<noteq> relay_target r b \<longrightarrow> s \<noteq> relay_donor r b \<longrightarrow> a \<notin> set (getAnchors R s))"
    "\<And>a s. a \<in> set donor_anchors \<Longrightarrow> a \<notin> set (getAnchors R (relay_donor r b)) \<Longrightarrow>
       a \<notin> set target_anchors \<and> (s \<in> set (pipe_stages (pipe R)) \<longrightarrow> s \<noteq> relay_target r b \<longrightarrow> s \<noteq> relay_donor r b \<longrightarrow> a \<notin> set (getAnchors R s))"
    "mergeUnits R (relay_target r b) (relay_donor r b) = Some units"
proof -
  let ?other = "concat (map (getAnchors R) (filter (\<lambda>s. s \<noteq> relay_target r b \<and> s \<noteq> relay_donor r b) (pipe_stages (pipe R))))"
  obtain te de where ends: "ends_after R r b = (te, de)" by (cases "ends_after R r b")
  obtain ta da where a: "findAnchors te = Some ta" "(if de = [] then Some [] else findAnchors de) = Some da"
    "\<not> gainsTakenAnchor R ?other (relay_target r b) ta da" "\<not> gainsTakenAnchor R ?other (relay_donor r b) da ta"
    "mergeUnits R (relay_target r b) (relay_donor r b) = Some units"
    using assms unfolding canFold_def Let_def ends prod.case by (auto split: if_splits option.splits)
  show ?thesis
    by (rule that [OF ends a(1,2) _ _ a(5)]) (use a(3,4) in \<open>auto simp: gainsTakenAnchor_def list_ex_iff\<close>)
qed

lemma getTransfers_target:
  assumes ctx: "folding G R r b attrs units" and "getTransfers R (relay_target r b) = Some ts"
  shows "getTransfers (foldRelay G R r b attrs units) (relay_target r b) =
    Some (map (\<lambda>t. if t = target_half r b then next_transfer R else t) ts)"
proof -
  have ne: "relay_target r b \<noteq> relay_donor r b" using folding_roles(1) [OF ctx] .
  have ts: "stage_body_of R (relay_target r b) = map TransferItem ts" "ts \<noteq> []" using assms(2) by (simp_all add: getTransfers_Some)
  then show ?thesis using ne
    by (simp add: getTransfers_Some folding_fields(1) [OF ctx ctx ctx ctx] o_def)
qed

lemma getTransfers_donor:
  assumes ctx: "folding G R r b attrs units" and "getTransfers R (relay_donor r b) = Some ts"
  shows "getTransfers (foldRelay G R r b attrs units) (relay_donor r b) =
    (if emptied R r b then None else Some (filter (\<lambda>t. t \<noteq> donor_half r b) ts))"
    "emptied R r b \<longleftrightarrow> filter (\<lambda>t. t \<noteq> donor_half r b) ts = []"
proof -
  have ts: "stage_body_of R (relay_donor r b) = map TransferItem ts" using assms(2) by (simp add: getTransfers_Some)
  show e: "emptied R r b \<longleftrightarrow> filter (\<lambda>t. t \<noteq> donor_half r b) ts = []"
    by (auto simp: emptied_def ts filter_empty_conv)
  have body: "stage_body_of (foldRelay G R r b attrs units) (relay_donor r b) = map TransferItem (filter (\<lambda>t. t \<noteq> donor_half r b) ts)"
    by (simp add: folding_fields(1) [OF ctx ctx ctx ctx] ts filter_map o_def)
  show "getTransfers (foldRelay G R r b attrs units) (relay_donor r b) =
    (if emptied R r b then None else Some (filter (\<lambda>t. t \<noteq> donor_half r b) ts))"
  proof (cases "emptied R r b")
    case True
    then have "stage_body_of (foldRelay G R r b attrs units) (relay_donor r b) = []" using body e by simp
    then show ?thesis using True by (simp add: getTransfers_def)
  next
    case False
    then show ?thesis using body e by (simp add: getTransfers_Some)
  qed
qed

lemma anchors_after:
  assumes ctx: "folding G R r b attrs units" and disjoint: "anchors_disjoint R"
  shows "anchors_disjoint (foldRelay G R r b attrs units)"
proof -
  let ?R' = "foldRelay G R r b attrs units" and ?T = "relay_target r b" and ?D = "relay_donor r b"
  note wf = folding_D(4) [OF ctx] and fields = folding_fields [OF ctx ctx ctx ctx] and roles = folding_roles [OF ctx, of b]
  have can: "canFold G R r b = Some units" using folding_D(5) [OF ctx] by (simp add: can_fold_def)
  obtain ts ds where ts: "getTransfers R ?T = Some ts" "getTransfers R ?D = Some ds" using roles(4,5) by blast
  obtain te de ta da where c: "ends_after R r b = (te, de)" "findAnchors te = Some ta"
    "(if de = [] then Some [] else findAnchors de) = Some da"
    and gain: "\<And>a s. a \<in> set ta \<Longrightarrow> a \<notin> set (getAnchors R ?T) \<Longrightarrow>
       a \<notin> set da \<and> (s \<in> set (pipe_stages (pipe R)) \<longrightarrow> s \<noteq> ?T \<longrightarrow> s \<noteq> ?D \<longrightarrow> a \<notin> set (getAnchors R s))"
      "\<And>a s. a \<in> set da \<Longrightarrow> a \<notin> set (getAnchors R ?D) \<Longrightarrow>
       a \<notin> set ta \<and> (s \<in> set (pipe_stages (pipe R)) \<longrightarrow> s \<noteq> ?T \<longrightarrow> s \<noteq> ?D \<longrightarrow> a \<notin> set (getAnchors R s))"
    by (rule canFold_anchors [OF can]) (rule that)
  have in_stage: "stage_transfer R s t" if "getTransfers R s = Some us" "t \<in> set us" "s \<in> set (pipe_stages (pipe R))" for s us t
    using that by (auto simp: stage_transfer_def getTransfers_Some)
  have stages: "?T \<in> set (pipe_stages (pipe R))" "?D \<in> set (pipe_stages (pipe R))" using roles(2,3) by (simp_all add: stage_transfer_def)
  have old: "transfer_at ?R' t = transfer_at R t" if "stage_transfer R s t" for s t
    using fresh_transfer [OF wf that] by (simp add: fields(2))
  have new: "getEnds (transfer_at ?R' (next_transfer R)) = folded_ends R r"
    by (simp add: fields(2) getEnds_def folded_ends_def folded_transfer_def Let_def)
  have "map (\<lambda>t. getEnds (transfer_at ?R' t)) (map (\<lambda>t. if t = target_half r b then next_transfer R else t) ts) = te"
    using c(1) old [OF in_stage [OF ts(1) _ stages(1)]] new by (auto simp: ends_after_def ts)
  then have T: "getAnchors ?R' ?T = ta"
    using getAnchors_of [OF getTransfers_target [OF ctx ts(1)]] c(2) by simp
  have de: "map (\<lambda>t. getEnds (transfer_at ?R' t)) (filter (\<lambda>t. t \<noteq> donor_half r b) ds) = de"
    using c(1) old [OF in_stage [OF ts(2) _ stages(2)]] by (auto simp: ends_after_def ts)
  have D: "getAnchors ?R' ?D = da"
  proof (cases "emptied R r b")
    case True
    then have "de = []" using de getTransfers_donor(2) [OF ctx ts(2)] by auto
    then show ?thesis using True c(3) getTransfers_donor(1) [OF ctx ts(2)] by (simp add: getAnchors_def)
  next
    case False
    then have "getTransfers ?R' ?D = Some (filter (\<lambda>t. t \<noteq> donor_half r b) ds)" and "de \<noteq> []"
      using getTransfers_donor [OF ctx ts(2)] de by auto
    then show ?thesis using getAnchors_of de c(3) by simp
  qed
  have other: "getAnchors ?R' s = getAnchors R s" if "s \<in> set (pipe_stages (pipe R))" "s \<noteq> ?T" "s \<noteq> ?D" for s
  proof -
    have same: "getTransfers ?R' s = getTransfers R s" using that(2,3) by (simp add: getTransfers_def fields(1))
    show ?thesis
    proof (cases "getTransfers R s")
      case (Some us)
      have "map (\<lambda>t. getEnds (transfer_at ?R' t)) us = map (\<lambda>t. getEnds (transfer_at R t)) us"
        using old [OF in_stage [OF Some _ that(1)]] by simp
      then show ?thesis using same Some by (simp only: getAnchors_of)
    qed (simp add: getAnchors_def same)
  qed
  have apart: "a \<notin> set (getAnchors R s')" if "a \<in> set (getAnchors R s)" "s \<in> set (pipe_stages (pipe R))" "s' \<in> set (pipe_stages (pipe R))" "s \<noteq> s'" for a s s'
    using disjoint that unfolding anchors_disjoint_def by blast
  have TD: "set ta \<inter> set da = {}" using gain apart [OF _ stages roles(1)] by blast
  have TO: "set ta \<inter> set (getAnchors R s) = {}" if "s \<in> set (pipe_stages (pipe R))" "s \<noteq> ?T" "s \<noteq> ?D" for s
    using gain(1) apart [OF _ stages(1) that(1)] that by blast
  have DO: "set da \<inter> set (getAnchors R s) = {}" if "s \<in> set (pipe_stages (pipe R))" "s \<noteq> ?T" "s \<noteq> ?D" for s
    using gain(2) apart [OF _ stages(2) that(1)] that by blast
  show ?thesis
    unfolding anchors_disjoint_def
  proof (intro ballI impI)
    fix s s' assume s: "s \<in> set (pipe_stages (pipe ?R'))" "s' \<in> set (pipe_stages (pipe ?R'))" "s \<noteq> s'"
    have st: "s \<in> set (pipe_stages (pipe R))" "s' \<in> set (pipe_stages (pipe R))" using s by (simp_all add: stages_after [OF ctx])
    have first: "set (getAnchors ?R' x) \<inter> set (getAnchors ?R' y) = {}"
      if "x = ?T \<or> x = ?D \<and> y \<noteq> ?T \<or> x \<noteq> ?T \<and> x \<noteq> ?D \<and> y \<noteq> ?T \<and> y \<noteq> ?D" "x \<noteq> y"
        "x \<in> set (pipe_stages (pipe R))" "y \<in> set (pipe_stages (pipe R))" for x y
      using that(1)
    proof (elim disjE conjE)
      assume x: "x = ?T"
      show ?thesis
      proof (cases "y = ?D")
        case True
        then show ?thesis using x T D TD by simp
      next
        case False
        then show ?thesis using x T TO [OF that(4)] other [OF that(4)] that(2) by simp
      qed
    next
      assume "x = ?D" "y \<noteq> ?T"
      then show ?thesis using D DO [OF that(4)] other [OF that(4)] that(2) by simp
    next
      assume "x \<noteq> ?T" "x \<noteq> ?D" "y \<noteq> ?T" "y \<noteq> ?D"
      moreover have "set (getAnchors R x) \<inter> set (getAnchors R y) = {}" using apart [OF _ that(3,4,2)] by blast
      ultimately show ?thesis using other [OF that(3)] other [OF that(4)] by simp
    qed
    show "set (getAnchors ?R' s) \<inter> set (getAnchors ?R' s') = {}"
    proof (cases "s = ?T \<or> s = ?D \<and> s' \<noteq> ?T \<or> s \<noteq> ?T \<and> s \<noteq> ?D \<and> s' \<noteq> ?T \<and> s' \<noteq> ?D")
      case True
      then show ?thesis by (rule first) (use s(3) st in simp_all)
    next
      case False
      then have "s' = ?T \<or> s' = ?D \<and> s \<noteq> ?T" by blast
      then have "set (getAnchors ?R' s') \<inter> set (getAnchors ?R' s) = {}" by (intro first) (use s(3) st in auto)
      then show ?thesis by (simp only: Int_commute)
    qed
  qed
qed

section \<open>The loop\<close>

definition relay_ok :: "relay_ir \<Rightarrow> bool" where
  "relay_ok R \<longleftrightarrow> finite_tokens (pipe R) \<and> acyclic (stage_edges (pipe R)) \<and> transfers_ok R"

definition stages_gone :: "relay_ir \<Rightarrow> relay_ir \<Rightarrow> stage_op set" where
  "stages_gone R R' = set (pipe_stages (pipe R)) - set (pipe_stages (pipe R'))"

lemma order_maintained_trans:
  "order_maintained E E' A \<Longrightarrow> order_maintained E' E'' B \<Longrightarrow> order_maintained E E'' (A \<union> B)"
  unfolding order_maintained_def by blast

lemma order_maintained_mono: "order_maintained E E' A \<Longrightarrow> A \<subseteq> B \<Longrightarrow> order_maintained E E' B"
  unfolding order_maintained_def by blast

lemma finite_stage_transfers: "finite (stage_transfers R)"
proof (rule finite_subset)
  show "stage_transfers R \<subseteq> (\<Union>s\<in>set (pipe_stages (pipe R)). {t. TransferItem t \<in> set (stage_body_of R s)})"
    by (auto simp: stage_transfers_def stage_transfer_def)
  have "finite {t. TransferItem t \<in> set items}" for items
    by (rule finite_subset [of _ "(\<lambda>i. case i of TransferItem t \<Rightarrow> t | OtherItem n \<Rightarrow> n) ` set items"]) (force, simp)
  then show "finite (\<Union>s\<in>set (pipe_stages (pipe R)). {t. TransferItem t \<in> set (stage_body_of R s)})" by simp
qed

lemma foldFirstRelay_step:
  assumes G: "stage_graph_ok G" and ok: "relay_ok R" and step: "foldFirstRelay G R = Some R'"
  shows "relay_ok R'" "memory_moves R' = memory_moves R" "anchors_disjoint R \<Longrightarrow> anchors_disjoint R'"
    "card (stage_transfers R) = Suc (card (stage_transfers R'))"
    "set (pipe_stages (pipe R')) \<subseteq> set (pipe_stages (pipe R))"
    "single_producers (pipe R) \<Longrightarrow> single_producers (pipe R')"
    "order_maintained (stage_edges (pipe R)) (stage_edges (pipe R')) (stages_gone R R')"
    "\<exists>r b. relay_found R r \<and> (single_producers (pipe R) \<longrightarrow>
       transfer_ordered (stage_edges (pipe R)) (stage_edges (pipe R')) (relay_target r b) (relay_donor r b))"
proof -
  obtain r b attrs units where f: "can_fold G R r b attrs units" "R' = foldRelay G R r b attrs units"
    using foldFirstRelay_Some [OF step] by blast
  have ctx: "folding G R r b attrs units" using G ok f(1) by (simp add: folding_def relay_ok_def)
  note d = folding_D [OF ctx] and fields = folding_fields [OF ctx ctx ctx ctx] and roles = folding_roles [OF ctx, of b]
  note edges = foldRelay_edges [OF d(1,2,5,3)] and order = foldRelay_order [OF d(1,2,5,3)]
  show "relay_ok R'" using edges(3,4) transfers_ok_after [OF ctx] by (simp add: relay_ok_def f(2))
  show "memory_moves R' = memory_moves R" by (simp add: f(2) memory_moves_after [OF ctx])
  show "anchors_disjoint R'" if "anchors_disjoint R" using anchors_after [OF ctx that] by (simp add: f(2))
  have ids: "stage_transfers R' = insert (next_transfer R) (stage_transfers R - {relay_in r, relay_out r})"
    unfolding stage_transfers_def f(2) using transfers_after [OF ctx] by blast
  have "relay_in r \<in> stage_transfers R" "relay_out r \<in> stage_transfers R" "relay_in r \<noteq> relay_out r"
    using d(6) roles(6,7) by (auto simp: relay_found_def stage_transfers_def)
  then have "{relay_in r, relay_out r} \<subseteq> stage_transfers R" "card {relay_in r, relay_out r} = 2" by auto
  then have "card (stage_transfers R - {relay_in r, relay_out r}) = card (stage_transfers R) - 2" "2 \<le> card (stage_transfers R)"
    using finite_stage_transfers [of R] card_mono [of "stage_transfers R" "{relay_in r, relay_out r}"]
    by (simp_all add: card_Diff_subset)
  moreover have "next_transfer R \<notin> stage_transfers R" using fresh_transfer [OF d(4)] by (auto simp: stage_transfers_def)
  ultimately show "card (stage_transfers R) = Suc (card (stage_transfers R'))"
    using finite_stage_transfers [of R] by (simp add: ids)
  show "set (pipe_stages (pipe R')) \<subseteq> set (pipe_stages (pipe R))" using stages_after [OF ctx] by (auto simp: f(2))
  show "single_producers (pipe R')" if "single_producers (pipe R)"
    using that by (auto simp: f(2) single_producers_def fields split: if_splits)
  have "(if emptied R r b then {relay_donor r b} else {}) \<subseteq> stages_gone R R'"
    using stages_after [OF ctx] roles(3) by (auto simp: stages_gone_def f(2) stage_transfer_def)
  then show "order_maintained (stage_edges (pipe R)) (stage_edges (pipe R')) (stages_gone R R')"
    using order_maintained_mono [OF order(1)] by (simp add: f(2))
  show "\<exists>r b. relay_found R r \<and> (single_producers (pipe R) \<longrightarrow>
       transfer_ordered (stage_edges (pipe R)) (stage_edges (pipe R')) (relay_target r b) (relay_donor r b))"
    using d(6) order(2) f(2) by blast
qed

lemma fold_relays_result:
  assumes "stage_graph_ok G"
  shows "relay_ok R \<Longrightarrow> \<exists>R' k. fold_relays G R n = Some (R', n + k) \<and> card (stage_transfers R) = k + card (stage_transfers R') \<and>
    foldFirstRelay G R' = None \<and> relay_ok R' \<and> memory_moves R' = memory_moves R \<and>
    (anchors_disjoint R \<longrightarrow> anchors_disjoint R') \<and> set (pipe_stages (pipe R')) \<subseteq> set (pipe_stages (pipe R)) \<and>
    order_maintained (stage_edges (pipe R)) (stage_edges (pipe R')) (stages_gone R R')"
proof (induction "card (stage_transfers R)" arbitrary: R n)
  case 0
  have "foldFirstRelay G R = None" using foldFirstRelay_step(4) [OF assms 0(2)] 0(1) by (cases "foldFirstRelay G R") auto
  then show ?case using 0 by (subst fold_relays.simps) (auto simp: order_maintained_def stages_gone_def)
next
  case (Suc m)
  show ?case
  proof (cases "foldFirstRelay G R")
    case None
    then show ?thesis using Suc.prems by (subst fold_relays.simps) (auto simp: order_maintained_def stages_gone_def)
  next
    case (Some R1)
    note s = foldFirstRelay_step [OF assms Suc.prems Some]
    have "m = card (stage_transfers R1)" using s(4) Suc.hyps(2) by simp
    from Suc.hyps(1) [OF this s(1), of "Suc n"] obtain R' k where r: "fold_relays G R1 (Suc n) = Some (R', Suc n + k)"
      "card (stage_transfers R1) = k + card (stage_transfers R')" "foldFirstRelay G R' = None" "relay_ok R'"
      "memory_moves R' = memory_moves R1" "anchors_disjoint R1 \<longrightarrow> anchors_disjoint R'"
      "set (pipe_stages (pipe R')) \<subseteq> set (pipe_stages (pipe R1))"
      "order_maintained (stage_edges (pipe R1)) (stage_edges (pipe R')) (stages_gone R1 R')"
      by (elim exE conjE) (rule that)
    have run: "fold_relays G R n = Some (R', n + Suc k)" using r(1) Some by (subst fold_relays.simps) simp
    have "stages_gone R R1 \<union> stages_gone R1 R' \<subseteq> stages_gone R R'" using s(5) r(7) by (auto simp: stages_gone_def)
    then have ord: "order_maintained (stage_edges (pipe R)) (stage_edges (pipe R')) (stages_gone R R')"
      using order_maintained_mono [OF order_maintained_trans [OF s(7) r(8)]] by blast
    show ?thesis
      by (rule exI [of _ R'], rule exI [of _ "Suc k"]) (use run r s ord in auto)
  qed
qed

section \<open>Allocations and the pass\<close>

text \<open>
  An allocation of slots, each with whether its number of elements is dynamic, and one size for
  each dynamic slot. The slots of a shrunk allocation keep their names, as all their uses are
  replaced by those of the new one.
\<close>

record fifo_alloc =
  fa_slots :: "(transfer_value \<times> bool) list"
  fa_sizes :: "nat list"
  fa_attrs :: "(string \<times> string) list"

fun kept_slots :: "(transfer_value \<Rightarrow> bool) \<Rightarrow> (transfer_value \<times> bool) list \<Rightarrow> nat list \<Rightarrow>
  ((transfer_value \<times> bool) list \<times> nat list) option" where
  "kept_slots used [] dynamic_sizes = Some ([], [])"
| "kept_slots used ((slot, dyn) # slots) dynamic_sizes =
     (if dyn \<and> dynamic_sizes = [] then None
      else map_option (\<lambda>(kept, sizes).
             if \<not> used slot then (kept, sizes)
             else ((slot, dyn) # kept, if dyn then hd dynamic_sizes # sizes else sizes))
           (kept_slots used slots (if dyn then tl dynamic_sizes else dynamic_sizes)))"

definition shrinkFifoAllocation :: "(transfer_value \<Rightarrow> bool) \<Rightarrow> fifo_alloc \<Rightarrow> fifo_alloc option" where
  "shrinkFifoAllocation used alloc =
     (if list_all (\<lambda>s. \<not> used (fst s)) (fa_slots alloc) \<or> list_all (\<lambda>s. used (fst s)) (fa_slots alloc) then Some alloc
      else map_option (\<lambda>(kept, sizes). \<lparr>fa_slots = kept, fa_sizes = sizes, fa_attrs = fa_attrs alloc\<rparr>)
             (kept_slots used (fa_slots alloc) (fa_sizes alloc)))"

text \<open>
  One pipeline; \<open>canonicalize\<close> (of the dialect) drops the tokens and slots of the private section
  that have no users.
\<close>

definition fold_pipeline ::
  "stage_graph \<Rightarrow> (pipe_ir \<Rightarrow> stage_op \<Rightarrow> stage_op list list) \<Rightarrow> (pipe_ir \<Rightarrow> stage_op \<Rightarrow> (token_val \<times> stage_op) list) \<Rightarrow>
   (nat \<Rightarrow> token_val) \<Rightarrow> (fifo_alloc list \<Rightarrow> fifo_alloc list) \<Rightarrow> relay_ir \<Rightarrow> fifo_alloc list \<Rightarrow>
   (relay_ir \<times> fifo_alloc list) option" where
  "fold_pipeline G sccs edges new_token canonicalize R allocs =
     do { (R1, num_folded) \<leftarrow> fold_relays G R 0;
          if num_folded = 0 then Some (R, allocs)
          else do { (P1, _) \<leftarrow> orderStages (node_consumers G (pipe R1)) (sccs (pipe R1)) (pipe R1);
                    (P2, _) \<leftarrow> normalizeTokens edges new_token P1;
                    let R2 = R1\<lparr>pipe := P2\<rparr>;
                    allocs' \<leftarrow> those (map (shrinkFifoAllocation (\<lambda>slot. \<not> hasNUses R2 slot 0)) (canonicalize allocs));
                    Some (R2, allocs') } }"

text \<open>The size of each slot.\<close>

fun slot_sizes :: "(transfer_value \<times> bool) list \<Rightarrow> nat list \<Rightarrow> (transfer_value \<times> nat option) list option" where
  "slot_sizes [] sizes = (if sizes = [] then Some [] else None)"
| "slot_sizes ((slot, False) # slots) sizes = map_option (\<lambda>zs. (slot, None) # zs) (slot_sizes slots sizes)"
| "slot_sizes ((slot, True) # slots) [] = None"
| "slot_sizes ((slot, True) # slots) (n # sizes) = map_option (\<lambda>zs. (slot, Some n) # zs) (slot_sizes slots sizes)"

lemma kept_slots_sizes:
  "slot_sizes slots sizes = Some zs \<Longrightarrow>
     \<exists>kept sizes'. kept_slots used slots sizes = Some (kept, sizes') \<and> slot_sizes kept sizes' = Some (filter (\<lambda>z. used (fst z)) zs)"
proof (induction slots sizes arbitrary: zs rule: slot_sizes.induct)
  case (2 slot slots sizes)
  then obtain zs' where "slot_sizes slots sizes = Some zs'" "zs = (slot, None) # zs'" by auto
  with "2.IH" [of zs'] show ?case by auto
next
  case (4 slot slots n sizes)
  then obtain zs' where "slot_sizes slots sizes = Some zs'" "zs = (slot, Some n) # zs'" by auto
  with "4.IH" [of zs'] show ?case by auto
qed (auto split: if_splits)

lemma slot_sizes_fst: "slot_sizes slots sizes = Some zs \<Longrightarrow> map fst zs = map fst slots"
  by (induction slots sizes arbitrary: zs rule: slot_sizes.induct) (auto split: if_splits)

theorem shrinkFifoAllocation_sizes:
  assumes "slot_sizes (fa_slots alloc) (fa_sizes alloc) = Some zs"
  shows "\<exists>alloc'. shrinkFifoAllocation used alloc = Some alloc' \<and> fa_attrs alloc' = fa_attrs alloc \<and>
    slot_sizes (fa_slots alloc') (fa_sizes alloc') =
      Some (if \<exists>s\<in>set (fa_slots alloc). used (fst s) then filter (\<lambda>z. used (fst z)) zs else zs)"
proof -
  obtain kept sizes where k: "kept_slots used (fa_slots alloc) (fa_sizes alloc) = Some (kept, sizes)"
    "slot_sizes kept sizes = Some (filter (\<lambda>z. used (fst z)) zs)" using kept_slots_sizes [OF assms] by blast
  have "fst ` set zs = fst ` set (fa_slots alloc)" using slot_sizes_fst [OF assms] by (metis list.set_map)
  then have "filter (\<lambda>z. used (fst z)) zs = zs" if "\<forall>s\<in>set (fa_slots alloc). used (fst s)"
    using that by (auto simp: filter_id_conv) (metis (mono_tags) fst_conv imageE image_eqI)
  then show ?thesis using k assms by (auto simp: shrinkFifoAllocation_def list_all_iff)
qed

section \<open>Correctness of the pass\<close>

text \<open>The tokens of the stages are used by stages of the pipeline only.\<close>

definition tokens_inside :: "pipe_ir \<Rightarrow> bool" where
  "tokens_inside P \<longleftrightarrow> stage_edges P \<subseteq> set (pipe_stages P) \<times> set (pipe_stages P)"

lemma foldRelay_tokens:
  assumes ctx: "folding G R r b attrs units"
  shows "set (awaits (pipe (foldRelay G R r b attrs units)) s) \<subseteq>
     set (awaits (pipe R) s) \<union> set (awaits (pipe R) (relay_donor r b))"
    "set (outputs (pipe (foldRelay G R r b attrs units)) s) \<subseteq> set (outputs (pipe R) s)"
proof -
  let ?T = "relay_target r b" and ?D = "relay_donor r b"
  let ?P2 = "await_donor_tokens ?T ?D (pipe R)"
  note d = folding_D [OF ctx] and roles = folding_roles [OF ctx, of b] and fields = folding_fields [OF ctx ctx ctx ctx]
  have "(?D, ?D) \<notin> grown_edges R r b" using foldRelay_edges(1) [OF d(1,2,5,3)] by (auto simp: acyclic_def)
  then have "?D \<notin> set (node_consumers G ?P2 ?D)"
    using d(1) finite_tokens_await [OF d(2)] by (simp add: stage_graph_ok_def stage_edges_await grown_edges_def)
  note a = add_donor_tokens_fold [OF d(1) this, of ?P2]
  have P2: "set (awaits ?P2 s) \<subseteq> set (awaits (pipe R) s) \<union> set (awaits (pipe R) ?D)" for s
    by (auto simp: await_donor_tokens_def)
  have D2: "awaits ?P2 ?D = awaits (pipe R) ?D" using roles(1) by (simp add: await_donor_tokens_def)
  show "set (awaits (pipe (foldRelay G R r b attrs units)) s) \<subseteq> set (awaits (pipe R) s) \<union> set (awaits (pipe R) ?D)"
  proof (cases "emptied R r b")
    case True
    have "set (awaits (fold (add_donor_tokens G ?D) (node_consumers G ?P2 ?D) ?P2) s) \<subseteq> set (awaits (pipe R) s) \<union> set (awaits (pipe R) ?D)"
      using a P2 [of s] D2 by auto
    then show ?thesis using True by (auto simp: foldRelay_pipe [OF roles(1)] Let_def erase_stage_def)
  next
    case False
    then show ?thesis using P2 [of s] by (simp add: foldRelay_pipe [OF roles(1)] Let_def)
  qed
  show "set (outputs (pipe (foldRelay G R r b attrs units)) s) \<subseteq> set (outputs (pipe R) s)"
    by (simp add: fields(7))
qed

text \<open>What the later steps of the pass rely on.\<close>

definition tokens_ok :: "(nat \<Rightarrow> token_val) \<Rightarrow> pipe_ir \<Rightarrow> bool" where
  "tokens_ok new_token P \<longleftrightarrow> fresh_tokens new_token P \<and> tokens_inside P \<and>
     (\<forall>p. sp_private P = Some p \<longrightarrow> p \<in> set (sp_body P) \<and> \<not> sp_is_stage P p)"

lemma foldFirstRelay_tokens_ok:
  assumes G: "stage_graph_ok G" and ok: "relay_ok R" and step: "foldFirstRelay G R = Some R'" and tok: "tokens_ok new_token (pipe R)"
  shows "tokens_ok new_token (pipe R')"
proof -
  obtain r b attrs units where f: "can_fold G R r b attrs units" "R' = foldRelay G R r b attrs units"
    using foldFirstRelay_Some [OF step] by blast
  have ctx: "folding G R r b attrs units" using G ok f(1) by (simp add: folding_def relay_ok_def)
  note d = folding_D [OF ctx] and fields = folding_fields [OF ctx ctx ctx ctx] and roles = folding_roles [OF ctx, of b]
  note edges = foldRelay_edges [OF d(1,2,5,3)]
  let ?S = "set (pipe_stages (pipe R))" and ?D = "relay_donor r b"
  have in_S: "relay_target r b \<in> ?S" "?D \<in> ?S" using roles(2,3) by (simp_all add: stage_transfer_def)
  have inside: "stage_edges (pipe R) \<subseteq> ?S \<times> ?S" using tok by (simp add: tokens_ok_def tokens_inside_def)
  have "awaited_edges (pipe R) (relay_target r b) ?D \<subseteq> ?S \<times> ?S"
  proof (clarsimp simp: awaited_edges_def in_S)
    fix x t assume "t \<in> set (outputs (pipe R) x)" "t \<in> set (awaits (pipe R) ?D)"
    then have "(x, ?D) \<in> stage_edges (pipe R)" by (auto simp: stage_edges_def)
    then show "x \<in> ?S" using inside by blast
  qed
  then have "grown_edges R r b \<subseteq> ?S \<times> ?S" using inside by (simp add: grown_edges_def)
  then have "tokens_inside (pipe R')"
    unfolding tokens_inside_def f(2) edges(2) using stages_after [OF ctx] by (auto simp: contract_def)
  moreover have "fresh_tokens new_token (pipe R')"
  proof -
    have fr: "fresh_tokens new_token (pipe R)" using tok by (simp add: tokens_ok_def)
    have loc: "isLocalToken (pipe R') = isLocalToken (pipe R)" by (simp add: fun_eq_iff isLocalToken_def f(2) fields(9))
    have "new_token n \<notin> set (outputs (pipe R') s) \<and> new_token n \<notin> set (awaits (pipe R') s)"
      if n: "tokens_made (pipe R) \<le> n" and s: "s \<in> ?S" for n s
      using fr n s in_S(2) foldRelay_tokens [OF ctx, of s] unfolding fresh_tokens_def f(2) by blast
    then show ?thesis using fr stages_after [OF ctx]
      unfolding fresh_tokens_def loc by (simp add: f(2) fields(10))
  qed
  moreover have "p \<in> set (sp_body (pipe R')) \<and> \<not> sp_is_stage (pipe R') p" if "sp_private (pipe R') = Some p" for p
  proof -
    have "p \<in> set (sp_body (pipe R)) \<and> \<not> sp_is_stage (pipe R) p" using tok that by (simp add: tokens_ok_def f(2) fields(8))
    moreover have "sp_is_stage (pipe R) ?D" using in_S(2) by (simp add: pipe_stages_def)
    ultimately show ?thesis by (auto simp: f(2) fields(5,6))
  qed
  ultimately show ?thesis by (simp add: tokens_ok_def)
qed

lemma fold_relays_tokens_ok:
  assumes "stage_graph_ok G"
  shows "fold_relays G R n = Some (R', m) \<Longrightarrow> relay_ok R \<Longrightarrow> tokens_ok new_token (pipe R) \<Longrightarrow> tokens_ok new_token (pipe R')"
proof (induction "card (stage_transfers R)" arbitrary: R n rule: less_induct)
  case less
  show ?case
  proof (cases "foldFirstRelay G R")
    case None
    then show ?thesis using less.prems by (subst (asm) fold_relays.simps) simp
  next
    case (Some R1)
    note s = foldFirstRelay_step [OF assms less.prems(2) Some]
    have "card (stage_transfers R1) < card (stage_transfers R)" using s(4) by simp
    moreover have "fold_relays G R1 (Suc n) = Some (R', m)" using less.prems(1) Some by (subst (asm) fold_relays.simps) simp
    ultimately show ?thesis
      using less.hyps s(1) foldFirstRelay_tokens_ok [OF assms less.prems(2) Some less.prems(3)] by blast
  qed
qed

lemma shrinkFifoAllocation_returns:
  "slot_sizes (fa_slots alloc) (fa_sizes alloc) \<noteq> None \<Longrightarrow> shrinkFifoAllocation used alloc \<noteq> None"
  using kept_slots_sizes [of "fa_slots alloc" "fa_sizes alloc" _ used] by (auto simp: shrinkFifoAllocation_def)

lemma those_Some: "(\<And>x. x \<in> set xs \<Longrightarrow> f x \<noteq> None) \<Longrightarrow> \<exists>ys. those (map f xs) = Some ys"
  by (induction xs) (auto split: option.split)

text \<open>On an acyclic graph the components are the stages, and standing in front of all consumers is the order of the graph.\<close>

lemma acyclic_component:
  assumes "acyclic (succ_rel consumers)"
  shows "component consumers a = {a}"
proof -
  have "b = a" if "(a, b) \<in> (succ_rel consumers)\<^sup>*" "(b, a) \<in> (succ_rel consumers)\<^sup>*" for b
  proof (rule ccontr)
    assume "b \<noteq> a"
    then have "(a, b) \<in> (succ_rel consumers)\<^sup>+" using that(1) by (simp add: rtrancl_eq_or_trancl)
    then have "(a, a) \<in> (succ_rel consumers)\<^sup>+" using that(2) by (rule trancl_rtrancl_trancl)
    then show False using assms by (simp add: acyclic_def)
  qed
  then show ?thesis by (auto simp: component_def mutual_def)
qed

lemma in_front_paths:
  assumes acyc: "acyclic (succ_rel consumers)" and inside: "succ_rel consumers \<subseteq> S \<times> S" and body: "S \<subseteq> set body"
    and front: "\<forall>a\<in>S. in_front consumers (component consumers a) body"
  shows "(a, c) \<in> (succ_rel consumers)\<^sup>+ \<Longrightarrow> before_in body a c"
proof (induction rule: trancl_induct)
  case (base c)
  moreover from this have "a \<noteq> c" using acyc by (auto simp: acyclic_def)
  moreover have "a \<in> S" "c \<in> S" using base inside by auto
  moreover from this have "in_front consumers {a} body" using front acyclic_component [OF acyc] by metis
  ultimately show ?case using body unfolding in_front_def succ_rel_def by auto
next
  case (step b c)
  moreover from this have "b \<noteq> c" using acyc by (auto simp: acyclic_def)
  moreover have "b \<in> S" "c \<in> S" using step inside by auto
  moreover from this have "in_front consumers {b} body" using front acyclic_component [OF acyc] by metis
  ultimately have "before_in body b c" using body unfolding in_front_def succ_rel_def by auto
  with step.IH show ?case by (simp add: before_in_def)
qed

text \<open>Token normalization keeps the edges between the stages of the pipeline, over local and over foreign tokens.\<close>

lemma rewriteTokens_keeps_edges:
  assumes "consumer_edges edges" "fresh_tokens new_token P" "distinct (sp_body P)" and inside: "tokens_inside P"
  shows "\<exists>P' changed. normalizeTokens edges new_token P = Some (P', changed) \<and> sp_body P' = sp_body P \<and>
    sp_is_stage P' = sp_is_stage P \<and> stage_edges P \<subseteq> stage_edges P'"
proof -
  obtain P' changed where r: "rewriteTokens edges new_token P (\<lambda>_ _. True) = Some (P', changed)" "sp_body P' = sp_body P"
    "local_edges P' = {(p, c) \<in> local_edges P. True}"
    "\<forall>s\<in>set (pipe_stages P).
       filter (\<lambda>t. \<not> isLocalToken P t) (awaits P' s) = first_occurrences (filter (\<lambda>t. \<not> isLocalToken P t) (awaits P s)) \<and>
       filter (\<lambda>t. \<not> isLocalToken P t) (outputs P' s) = first_occurrences (filter (\<lambda>t. \<not> isLocalToken P t) (outputs P s))"
    "sp_is_stage P' = sp_is_stage P" "foreign_use P' = foreign_use P"
    using rewriteTokens_edges [OF assms(1-3), of "\<lambda>_ _. True"] by (elim exE conjE) (rule that)
  have "(p, c) \<in> stage_edges P'" if pc: "(p, c) \<in> stage_edges P" for p c
  proof -
    obtain t where t: "t \<in> set (outputs P p)" "t \<in> set (awaits P c)" using pc by (auto simp: stage_edges_def)
    have s: "p \<in> set (pipe_stages P)" "c \<in> set (pipe_stages P)" using pc inside by (auto simp: tokens_inside_def)
    show ?thesis
    proof (cases "isLocalToken P t")
      case True
      then have "(p, c) \<in> local_edges P" using t s by (auto simp: local_edges_def)
      then have "(p, c) \<in> local_edges P'" by (simp add: r(3))
      then show ?thesis unfolding local_edges_def [of P'] stage_edges_def by blast
    next
      case False
      have "set (filter (\<lambda>t. \<not> isLocalToken P t) (outputs P' p)) = set (filter (\<lambda>t. \<not> isLocalToken P t) (outputs P p))"
        "set (filter (\<lambda>t. \<not> isLocalToken P t) (awaits P' c)) = set (filter (\<lambda>t. \<not> isLocalToken P t) (awaits P c))"
        using r(4) s by (metis first_occurrences_simps(1))+
      then show ?thesis using t False unfolding stage_edges_def by auto
    qed
  qed
  then show ?thesis using r by (auto simp: normalizeTokens_def)
qed

text \<open>C6: The pass returns on every acyclic pipeline: what is moved from memory to memory stays the same,
  no two stages come to share an anchor, stages only disappear, the remaining ones stay ordered
  by their tokens as before, and after a change they stand in that order in the body.\<close>

theorem fold_pipeline_correct:
  assumes G: "stage_graph_ok G" and ok: "relay_ok R" and tok: "tokens_ok new_token (pipe R)" and edges: "consumer_edges edges"
    and listing: "\<forall>P. finite_tokens P \<longrightarrow> acyclic (stage_edges P) \<longrightarrow> (\<forall>s\<in>set (pipe_stages P). scc_listing (node_consumers G P) s (sccs P s))"
    and allocs: "\<forall>a\<in>set (canonicalize allocs). slot_sizes (fa_slots a) (fa_sizes a) \<noteq> None"
  shows "\<exists>R' allocs'. fold_pipeline G sccs edges new_token canonicalize R allocs = Some (R', allocs') \<and>
    memory_moves R' = memory_moves R \<and> (anchors_disjoint R \<longrightarrow> anchors_disjoint R') \<and>
    set (pipe_stages (pipe R')) \<subseteq> set (pipe_stages (pipe R)) \<and>
    order_maintained (stage_edges (pipe R)) (stage_edges (pipe R')) (stages_gone R R') \<and>
    (R' = R \<or> (\<forall>a\<in>set (pipe_stages (pipe R')). \<forall>c\<in>set (pipe_stages (pipe R')).
       (a, c) \<in> (stage_edges (pipe R))\<^sup>+ \<longrightarrow> before_in (sp_body (pipe R')) a c))"
proof -
  obtain R1 k where r: "fold_relays G R 0 = Some (R1, 0 + k)" "relay_ok R1" "memory_moves R1 = memory_moves R"
    "anchors_disjoint R \<longrightarrow> anchors_disjoint R1" "set (pipe_stages (pipe R1)) \<subseteq> set (pipe_stages (pipe R))"
    "order_maintained (stage_edges (pipe R)) (stage_edges (pipe R1)) (stages_gone R R1)"
    using fold_relays_result [OF G ok, of 0] by (elim exE conjE) (rule that)
  show ?thesis
  proof (cases "k = 0")
    case True
    then have "fold_pipeline G sccs edges new_token canonicalize R allocs = Some (R, allocs)"
      using r(1) by (simp add: fold_pipeline_def)
    then show ?thesis by (auto simp: order_maintained_def stages_gone_def)
  next
    case False
    let ?P = "pipe R1"
    have tok1: "tokens_ok new_token ?P" using fold_relays_tokens_ok [OF G r(1) ok tok] .
    have fin: "finite_tokens ?P" and acyc: "acyclic (stage_edges ?P)" and dist: "distinct (sp_body ?P)"
      using r(2) by (simp_all add: relay_ok_def transfers_ok_def)
    have inside: "tokens_inside ?P" using tok1 by (simp add: tokens_ok_def)
    have succ: "succ_rel (node_consumers G ?P) = stage_edges ?P"
      using G fin by (auto simp: succ_rel_def stage_graph_ok_def)
    have acyc': "acyclic (succ_rel (node_consumers G ?P))" using acyc succ by simp
    have order: "order_ok (sp_is_stage ?P) (node_consumers G ?P) (sccs ?P) (sp_body ?P)"
      unfolding order_ok_def acyclic_component [OF acyc']
    proof (intro conjI ballI impI)
      fix s assume s: "s \<in> stage_set (sp_is_stage ?P) (sp_body ?P)"
      then have st: "s \<in> set (pipe_stages ?P)" by (auto simp: stage_set_def pipe_stages_def)
      show "scc_listing (node_consumers G ?P) s (sccs ?P s)" using listing fin acyc st by blast
      show "{s} \<subseteq> stage_set (sp_is_stage ?P) (sp_body ?P)" using s by simp
      fix c assume "c \<in> set (node_consumers G ?P s)"
      then have "(s, c) \<in> stage_edges ?P" using G fin by (simp add: stage_graph_ok_def)
      then show "sp_is_stage ?P c" using inside by (auto simp: tokens_inside_def pipe_stages_def)
    qed (rule dist)
    have priv: "sp_private ?P = Some p \<Longrightarrow> p \<in> set (sp_body ?P) \<and> \<not> sp_is_stage ?P p" for p
      using tok1 by (simp add: tokens_ok_def)
    obtain P1 ch1 where o: "orderStages (node_consumers G ?P) (sccs ?P) ?P = Some (P1, ch1)" "P1 = ?P\<lparr>sp_body := sp_body P1\<rparr>"
      "distinct (sp_body P1)" "set (sp_body P1) = set (sp_body ?P)"
      "\<forall>a\<in>set (pipe_stages ?P). in_front (node_consumers G ?P) (component (node_consumers G ?P) a) (sp_body P1)"
    proof -
      have "\<forall>p. sp_private ?P = Some p \<longrightarrow> p \<in> set (sp_body ?P) \<and> \<not> sp_is_stage ?P p" using priv by blast
      from orderStages_result [OF order this] show ?thesis by (elim exE conjE) (rule that)
    qed
    have same: "outputs P1 = outputs ?P" "awaits P1 = awaits ?P" "foreign_use P1 = foreign_use ?P" "tokens_made P1 = tokens_made ?P"
      "sp_is_stage P1 = sp_is_stage ?P" by (subst o(2), simp)+
    have stages1: "set (pipe_stages P1) = set (pipe_stages ?P)" using o(4) by (simp add: pipe_stages_def same)
    have edges1: "stage_edges P1 = stage_edges ?P" by (simp add: stage_edges_def same)
    have fresh1: "fresh_tokens new_token P1"
      using tok1 by (simp add: tokens_ok_def fresh_tokens_def isLocalToken_def same stages1)
    have inside1: "tokens_inside P1" using inside by (simp add: tokens_inside_def edges1 stages1)
    obtain P2 ch2 where n: "normalizeTokens edges new_token P1 = Some (P2, ch2)" "sp_body P2 = sp_body P1"
      "sp_is_stage P2 = sp_is_stage P1" "stage_edges P1 \<subseteq> stage_edges P2"
      using rewriteTokens_keeps_edges [OF edges fresh1 o(3) inside1] by blast
    let ?R2 = "R1\<lparr>pipe := P2\<rparr>"
    obtain allocs' where a: "those (map (shrinkFifoAllocation (\<lambda>slot. \<not> hasNUses ?R2 slot 0)) (canonicalize allocs)) = Some allocs'"
      using those_Some [of "canonicalize allocs" "shrinkFifoAllocation (\<lambda>slot. \<not> hasNUses ?R2 slot 0)"]
        shrinkFifoAllocation_returns allocs by blast
    have run: "fold_pipeline G sccs edges new_token canonicalize R allocs = Some (?R2, allocs')"
      using False r(1) o(1) n(1) a by (simp add: fold_pipeline_def)
    have stages2: "set (pipe_stages P2) = set (pipe_stages ?P)" using n(2,3) stages1 by (simp add: pipe_stages_def)
    have st: "stage_transfer ?R2 = stage_transfer R1" by (simp add: fun_eq_iff stage_transfer_def stages2)
    have moves: "memory_moves ?R2 = memory_moves R1" by (simp add: memory_moves_def stage_transfers_def st)
    have anch: "anchors_disjoint ?R2 = anchors_disjoint R1"
      by (simp add: anchors_disjoint_def getAnchors_def getTransfers_def stages2 cong: option.case_cong)
    have gone: "stages_gone R ?R2 = stages_gone R R1" by (simp add: stages_gone_def stages2)
    have path: "(a, c) \<in> (stage_edges P2)\<^sup>+" if "(a, c) \<in> (stage_edges ?P)\<^sup>+" for a c
      using trancl_mono [OF that, of "stage_edges P2"] n(4) edges1 by simp
    have keep: "order_maintained (stage_edges (pipe R)) (stage_edges P2) (stages_gone R R1)"
      using r(6) path unfolding order_maintained_def by blast
    have before: "before_in (sp_body P2) a c" if "a \<in> set (pipe_stages P2)" "c \<in> set (pipe_stages P2)" "(a, c) \<in> (stage_edges (pipe R))\<^sup>+" for a c
    proof -
      have "a \<notin> stages_gone R R1" "c \<notin> stages_gone R R1" using that(1,2) by (simp_all add: stages_gone_def stages2)
      then have "(a, c) \<in> (succ_rel (node_consumers G ?P))\<^sup>+" using r(6) that(3) succ unfolding order_maintained_def by simp
      moreover have "set (pipe_stages ?P) \<subseteq> set (sp_body P1)" using o(4) by (auto simp: pipe_stages_def)
      moreover have "succ_rel (node_consumers G ?P) \<subseteq> set (pipe_stages ?P) \<times> set (pipe_stages ?P)"
        using inside succ by (simp add: tokens_inside_def)
      ultimately show ?thesis using in_front_paths [OF acyc' _ _ o(5)] n(2) by metis
    qed
    show ?thesis
      by (rule exI [of _ ?R2], rule exI [of _ allocs'])
        (use run moves anch r(3-5) gone keep before stages2 in \<open>simp\<close>)
  qed
qed

text \<open>C38: One fold keeps the dependencies acyclic, the memory-to-memory moves and the anchors disjoint;
  when no token has two producers, every other stage that was ordered with the read or the write
  of the relay is ordered with the folded transfer in the same way.\<close>

theorem foldFirstRelay_safe:
  assumes "stage_graph_ok G" and "relay_ok R" and "foldFirstRelay G R = Some R'"
  shows "relay_ok R' \<and> memory_moves R' = memory_moves R \<and> (anchors_disjoint R \<longrightarrow> anchors_disjoint R') \<and>
    order_maintained (stage_edges (pipe R)) (stage_edges (pipe R')) (stages_gone R R') \<and>
    (\<exists>r b. relay_found R r \<and> (single_producers (pipe R) \<longrightarrow>
       transfer_ordered (stage_edges (pipe R)) (stage_edges (pipe R')) (relay_target r b) (relay_donor r b)))"
  using foldFirstRelay_step [OF assms] by blast

text \<open>C39: Folding ends: every fold leaves one transfer less, and no relay that is left can fold.\<close>

theorem fold_relays_returns:
  assumes "stage_graph_ok G" and "relay_ok R"
  shows "\<exists>R' k. fold_relays G R n = Some (R', n + k) \<and> card (stage_transfers R) = k + card (stage_transfers R') \<and>
    foldFirstRelay G R' = None"
  using fold_relays_result [OF assms, of n] by blast

section \<open>Witnesses\<close>

text \<open>A graph and an enumeration of components as the theorems ask for, defined from the edges.\<close>

definition ref_graph :: stage_graph where
  "ref_graph =
     \<lparr>node_consumers = (\<lambda>P s. sorted_list_of_set {c. (s, c) \<in> stage_edges P}),
      node_producers = (\<lambda>P s. sorted_list_of_set {c. (c, s) \<in> stage_edges P}),
      node_depends_on = (\<lambda>P s c. (c, s) \<in> (stage_edges P)\<^sup>+),
      add_in_dependency = (\<lambda>t ts. ts @ [t])\<rparr>"

lemma finite_stage_edges: "finite_tokens P \<Longrightarrow> finite (stage_edges P)"
proof -
  assume f: "finite_tokens P"
  have "stage_edges P \<subseteq> {s. awaits P s \<noteq> [] \<or> outputs P s \<noteq> []} \<times> {s. awaits P s \<noteq> [] \<or> outputs P s \<noteq> []}"
    by (auto simp: stage_edges_def)
  then show ?thesis using f unfolding finite_tokens_def by (meson finite_SigmaI finite_subset)
qed

lemma ref_graph_ok: "stage_graph_ok ref_graph"
proof -
  have "finite {c. (s, c) \<in> stage_edges P}" "finite {c. (c, s) \<in> stage_edges P}" if "finite_tokens P" for P s
  proof -
    have "{c. (s, c) \<in> stage_edges P} \<subseteq> snd ` stage_edges P" "{c. (c, s) \<in> stage_edges P} \<subseteq> fst ` stage_edges P" by force+
    then show "finite {c. (s, c) \<in> stage_edges P}" "finite {c. (c, s) \<in> stage_edges P}"
      using finite_stage_edges [OF that] by (meson finite_imageI finite_subset)+
  qed
  then show ?thesis by (simp add: stage_graph_ok_def ref_graph_def)
qed

lemma topological_list:
  assumes "finite A" and "acyclic E" and "finite E"
  shows "\<exists>xs. distinct xs \<and> set xs = A \<and> (\<forall>as x bs. xs = as @ x # bs \<longrightarrow> (\<forall>y\<in>A. (x, y) \<in> E \<longrightarrow> y \<in> set as))"
  using assms(1)
proof (induction "card A" arbitrary: A)
  case 0
  then show ?case by simp
next
  case (Suc n)
  then have "A \<noteq> {}" by auto
  moreover have "wf E" using assms(2,3) by (simp add: finite_acyclic_wf)
  ultimately obtain m where m: "m \<in> A" "\<And>y. (y, m) \<in> E \<Longrightarrow> y \<notin> A" using wfE_min' [of E A] by blast
  have "n = card (A - {m})" using Suc.hyps(2) Suc.prems m(1) by simp
  from Suc.hyps(1) [OF this] obtain xs where xs: "distinct xs" "set xs = A - {m}"
    "\<And>as x bs y. xs = as @ x # bs \<Longrightarrow> y \<in> A - {m} \<Longrightarrow> (x, y) \<in> E \<Longrightarrow> y \<in> set as" using Suc.prems by (metis finite_Diff)
  show ?case
  proof (intro exI [of _ "xs @ [m]"] conjI allI impI ballI)
    show "distinct (xs @ [m])" "set (xs @ [m]) = A" using xs(1,2) m(1) by auto
    fix as x bs y assume s: "xs @ [m] = as @ x # bs" and y: "y \<in> A" "(x, y) \<in> E"
    show "y \<in> set as"
    proof (cases bs rule: rev_cases)
      case Nil
      then have e: "xs = as" "x = m" using s by auto
      have "y \<noteq> m" using y(2) assms(2) e(2) by (auto simp: acyclic_def)
      then show ?thesis using e xs(2) y(1) by auto
    next
      case (snoc bs' z)
      then have e: "xs = as @ x # bs'" using s by simp
      then have "x \<in> A" using xs(2) by auto
      then have "y \<noteq> m" using m(2) y(2) by blast
      then show ?thesis using xs(3) [OF e] y by blast
    qed
  qed
qed

definition ref_sccs :: "pipe_ir \<Rightarrow> stage_op \<Rightarrow> stage_op list list" where
  "ref_sccs P s = (SOME cs. scc_listing (node_consumers ref_graph P) s cs)"

lemma ref_listing:
  assumes "finite_tokens P" and "acyclic (stage_edges P)"
  shows "scc_listing (node_consumers ref_graph P) s (ref_sccs P s)"
proof -
  have rel: "succ_rel (node_consumers ref_graph P) = stage_edges P"
    using ref_graph_ok assms(1) by (auto simp: succ_rel_def stage_graph_ok_def)
  let ?A = "{x. (s, x) \<in> (stage_edges P)\<^sup>*}"
  have "finite ?A"
  proof (rule finite_subset)
    show "?A \<subseteq> insert s (snd ` stage_edges P)" by (auto elim: rtranclE) (metis image_eqI rtranclE snd_conv)
  qed (use finite_stage_edges [OF assms(1)] in simp)
  from topological_list [OF this assms(2) finite_stage_edges [OF assms(1)]] obtain xs where
    xs: "distinct xs" "set xs = ?A" "\<forall>as x bs. xs = as @ x # bs \<longrightarrow> (\<forall>y\<in>?A. (x, y) \<in> stage_edges P \<longrightarrow> y \<in> set as)" by blast
  have "scc_listing (node_consumers ref_graph P) s (map (\<lambda>x. [x]) xs)"
  proof (rule topological_listing [OF xs(1)])
    show "s \<in> set xs" "\<forall>x\<in>set xs. (s, x) \<in> (succ_rel (node_consumers ref_graph P))\<^sup>*" using xs(2) rel by auto
    show "\<forall>as x bs. xs = as @ x # bs \<longrightarrow> set (node_consumers ref_graph P x) \<subseteq> set as"
    proof (intro allI impI subsetI)
      fix as x bs y assume x: "xs = as @ x # bs" and "y \<in> set (node_consumers ref_graph P x)"
      then have y: "(x, y) \<in> stage_edges P" using rel by (auto simp: succ_rel_def)
      have "x \<in> ?A" using x xs(2) by auto
      then have "y \<in> ?A" using y by (simp add: rtrancl_into_rtrancl)
      then show "y \<in> set as" using xs(3) x y by blast
    qed
  qed
  then show ?thesis unfolding ref_sccs_def by (rule someI)
qed

text \<open>Stage 1 moves data into a slot and stage 2 from there into another memory; stage 3 awaits stage 2.\<close>

definition small_slot :: transfer_value where
  "small_slot = FifoSlot 5 (KindAttr ''DDR'') (KindAttr ''L1'')"

definition transfer_between :: "transfer_value \<Rightarrow> transfer_value \<Rightarrow> transfer_op" where
  "transfer_between a b =
     \<lparr>t_source = a, t_source_map = None, t_source_indices = [], t_source_sizes = [ConstSize 64],
      t_dest = b, t_dest_map = None, t_dest_indices = [], t_dest_sizes = [ConstSize 64], t_mode = Copy, t_attrs = []\<rparr>"

definition small_relay :: relay_ir where
  "small_relay =
     \<lparr>pipe = \<lparr>sp_body = [10, 1, 2, 3], sp_private = Some 10, sp_is_stage = (\<lambda>q. q < 10),
        awaits = (\<lambda>s. if s = 2 then [100] else if s = 3 then [101] else []),
        outputs = (\<lambda>s. if s = 1 then [100] else if s = 2 then [101] else []), foreign_use = (\<lambda>_. False), tokens_made = 0\<rparr>,
      stage_body_of = (\<lambda>s. if s = 1 then [TransferItem 0] else if s = 2 then [TransferItem 1] else [OtherItem 0]),
      transfer_at = (\<lambda>t. if t = 0 then transfer_between (MemRef 1 (Some (KindAttr ''DDR''))) small_slot
                         else transfer_between small_slot (MemRef 2 (Some (KindAttr ''L1'')))),
      units_attr = (\<lambda>_. None), other_uses = (\<lambda>_. 0), const_value = (\<lambda>_. None), next_transfer = 2\<rparr>"

lemma small_relay_edges: "stage_edges (pipe small_relay) = {(1, 2), (2, 3)}"
  by (auto simp: stage_edges_def small_relay_def split: if_splits)

lemma acyclic_less: "(\<And>a b. (a, b) \<in> E \<Longrightarrow> a < (b::nat)) \<Longrightarrow> acyclic E"
  by (rule acyclicI_order [where f = "\<lambda>a. - int a"]) auto

lemma small_relay_stages: "pipe_stages (pipe small_relay) = [1, 2, 3]"
  by (simp add: pipe_stages_def small_relay_def)

lemma small_relay_ok: "relay_ok small_relay"
proof -
  have "acyclic (stage_edges (pipe small_relay))" by (rule acyclic_less) (auto simp: small_relay_edges)
  moreover have "finite_tokens (pipe small_relay)"
    unfolding finite_tokens_def by (rule finite_subset [of _ "{1, 2, 3}"]) (auto simp: small_relay_def split: if_splits)
  moreover have "transfers_ok small_relay"
    unfolding transfers_ok_def stage_transfer_def small_relay_stages by (auto simp: small_relay_def split: if_splits)
  ultimately show ?thesis by (simp add: relay_ok_def)
qed

lemma small_relay_tokens: "tokens_ok (\<lambda>n. 200 + n) (pipe small_relay)"
  unfolding tokens_ok_def fresh_tokens_def tokens_inside_def small_relay_stages small_relay_edges
  by (auto simp: small_relay_def isLocalToken_def inj_def)

lemma foldFirstRelay_finds:
  assumes "s \<in> set (pipe_stages (pipe R))" and "getTransfers R s = Some ts" and "i \<in> set ts"
    and "findRelay R s i = Some r" and "checkRelay R r = Some attrs" and "canFold G R r b \<noteq> None"
  shows "foldFirstRelay G R \<noteq> None"
proof
  assume "foldFirstRelay G R = None"
  then have "first_result (fold_transfer G R s ts) ts = None"
    using assms(1,2) by (auto simp: foldFirstRelay_def first_result_None dest!: bspec)
  then have "fold_transfer G R s ts i = None" using assms(3) by (simp add: first_result_None)
  then have "map_option (foldRelay G R r c attrs) (canFold G R r c) = None" for c
    using assms(4,5)
    by (cases c; cases "length ts = Suc 0 \<and> length (the (getTransfers R (relay_consumer r))) \<noteq> Suc 0")
      (auto simp: fold_transfer_def Let_def split: option.splits if_splits)
  then show False using assms(6) by simp
qed

definition small_found :: relay where
  "small_found = \<lparr>relay_in = 0, relay_out = 1, relay_producer = 1, relay_consumer = 2\<rparr>"

lemma small_relay_folds: "foldFirstRelay ref_graph small_relay \<noteq> None"
proof (rule foldFirstRelay_finds)
  show "1 \<in> set (pipe_stages (pipe small_relay))" by (simp add: small_relay_stages)
  show "getTransfers small_relay 1 = Some [0]" by code_simp
  show "0 \<in> set [0::nat]" by simp
  show "findRelay small_relay 1 0 = Some small_found" by code_simp
  show "checkRelay small_relay small_found = Some []" by code_simp
  have "tokens_allow ref_graph small_relay small_found True"
    by (simp add: tokens_allow_def small_found_def ref_graph_def small_relay_edges)
  moreover have "\<not> forms_cycle ref_graph small_relay 1 2"
    by (simp add: forms_cycle_def ref_graph_def small_relay_edges)
  moreover have "findAnchors (fst (ends_after small_relay small_found True)) \<noteq> None" by code_simp
  moreover have "snd (ends_after small_relay small_found True) = []" by code_simp
  moreover have "\<not> gainsTakenAnchor small_relay
      (concat (map (getAnchors small_relay) (filter (\<lambda>stage. stage \<noteq> 1 \<and> stage \<noteq> 2) (pipe_stages (pipe small_relay))))) 1
      (the (findAnchors (fst (ends_after small_relay small_found True)))) []" by code_simp
  moreover have "mergeUnits small_relay 1 2 \<noteq> None" by code_simp
  moreover have "relay_target small_found True = 1" "relay_donor small_found True = 2" by code_simp+
  ultimately show "canFold ref_graph small_relay small_found True \<noteq> None"
    by (auto simp: canFold_def Let_def gainsTakenAnchor_def split: prod.splits option.splits)
qed

theorem foldFirstRelay_safe_witness:
  "\<exists>R'. foldFirstRelay ref_graph small_relay = Some R' \<and> relay_ok R' \<and> memory_moves R' = memory_moves small_relay \<and>
     order_maintained {(1, 2), (2, 3)} (stage_edges (pipe R')) (stages_gone small_relay R')"
proof -
  obtain R' where r: "foldFirstRelay ref_graph small_relay = Some R'" using small_relay_folds by blast
  show ?thesis using foldFirstRelay_safe [OF ref_graph_ok small_relay_ok r] r unfolding small_relay_edges by blast
qed

theorem fold_relays_returns_witness:
  "\<exists>R' k. fold_relays ref_graph small_relay 0 = Some (R', 0 + k) \<and> foldFirstRelay ref_graph R' = None"
  using fold_relays_returns [OF ref_graph_ok small_relay_ok, of 0] by blast

definition small_allocs :: "fifo_alloc list" where
  "small_allocs = [\<lparr>fa_slots = [(small_slot, True), (FifoSlot 6 (KindAttr ''L1'') (KindAttr ''PE''), True)], fa_sizes = [7, 8], fa_attrs = []\<rparr>]"

theorem fold_pipeline_correct_witness:
  "\<exists>R' allocs'. fold_pipeline ref_graph ref_sccs token_edges (\<lambda>n. 200 + n) (\<lambda>a. a) small_relay small_allocs = Some (R', allocs') \<and>
     memory_moves R' = memory_moves small_relay \<and>
     order_maintained {(1, 2), (2, 3)} (stage_edges (pipe R')) (stages_gone small_relay R')"
proof -
  have "\<forall>P. finite_tokens P \<longrightarrow> acyclic (stage_edges P) \<longrightarrow>
    (\<forall>s\<in>set (pipe_stages P). scc_listing (node_consumers ref_graph P) s (ref_sccs P s))" using ref_listing by blast
  moreover have "\<forall>a\<in>set ((\<lambda>a. a) small_allocs). slot_sizes (fa_slots a) (fa_sizes a) \<noteq> None" by (simp add: small_allocs_def)
  ultimately show ?thesis
    using fold_pipeline_correct [OF ref_graph_ok small_relay_ok small_relay_tokens three_stages_params(1),
      where canonicalize = "\<lambda>a. a" and allocs = small_allocs and sccs = ref_sccs] unfolding small_relay_edges by blast
qed

theorem shrinkFifoAllocation_sizes_witness:
  "\<exists>alloc'. shrinkFifoAllocation (\<lambda>s. s \<noteq> small_slot) (hd small_allocs) = Some alloc' \<and>
     slot_sizes (fa_slots alloc') (fa_sizes alloc') = Some [(FifoSlot 6 (KindAttr ''L1'') (KindAttr ''PE''), Some 8)]"
proof -
  have "slot_sizes (fa_slots (hd small_allocs)) (fa_sizes (hd small_allocs)) =
    Some [(small_slot, Some 7), (FifoSlot 6 (KindAttr ''L1'') (KindAttr ''PE''), Some 8)]" by (simp add: small_allocs_def)
  from shrinkFifoAllocation_sizes [OF this, of "\<lambda>s. s \<noteq> small_slot"] show ?thesis
    by (auto simp: small_allocs_def small_slot_def)
qed

text \<open>
  The token that stage 2 awaits is also output by stage 4. The fold into stage 1, which outputs it too, drops it: the
  write that had to follow stage 4 no longer does.
\<close>

definition shared_relay :: relay_ir where
  "shared_relay = small_relay
     \<lparr>pipe := \<lparr>sp_body = [10, 4, 1, 2], sp_private = Some 10, sp_is_stage = (\<lambda>q. q < 10),
        awaits = (\<lambda>s. if s = 2 then [100] else []), outputs = (\<lambda>s. if s = 1 \<or> s = 4 then [100] else []),
        foreign_use = (\<lambda>_. False), tokens_made = 0\<rparr>\<rparr>"

lemma shared_relay_edges: "stage_edges (pipe shared_relay) = {(1, 2), (4, 2)}"
  by (auto simp: stage_edges_def shared_relay_def split: if_splits)

lemma shared_relay_ok: "relay_ok shared_relay"
proof -
  have st: "pipe_stages (pipe shared_relay) = [4, 1, 2]" by (simp add: pipe_stages_def shared_relay_def)
  have "acyclic (stage_edges (pipe shared_relay))"
    by (rule acyclicI_order [where f = "\<lambda>a. if a = 2 then 0 else (1::int)"]) (auto simp: shared_relay_edges)
  moreover have "finite_tokens (pipe shared_relay)"
    unfolding finite_tokens_def by (rule finite_subset [of _ "{1, 2, 4}"]) (auto simp: shared_relay_def split: if_splits)
  moreover have "transfers_ok shared_relay"
    unfolding transfers_ok_def stage_transfer_def st by (auto simp: shared_relay_def small_relay_def split: if_splits)
  ultimately show ?thesis by (simp add: relay_ok_def)
qed

lemma shared_token_lost:
  "stage_graph_ok ref_graph \<and> relay_ok shared_relay \<and> can_fold ref_graph shared_relay small_found True [] None \<and>
   (4, relay_consumer small_found) \<in> stage_edges (pipe shared_relay) \<and>
   stage_edges (pipe (foldRelay ref_graph shared_relay small_found True [] None)) = {}"
proof -
  have found: "relay_found shared_relay small_found"
  proof -
    have "findRelay shared_relay 1 0 = Some small_found" by code_simp
    moreover have "stage_transfer shared_relay 1 0" by (simp add: stage_transfer_def pipe_stages_def shared_relay_def small_relay_def)
    ultimately show ?thesis by (rule findRelay_found)
  qed
  have target: "relay_target small_found True = 1" "relay_donor small_found True = 2" by code_simp+
  have "tokens_allow ref_graph shared_relay small_found True"
    by (simp add: tokens_allow_def small_found_def ref_graph_def shared_relay_edges)
  moreover have "\<not> forms_cycle ref_graph shared_relay 1 2"
  proof -
    have no: "(1, x) \<in> {(1, 2), (4, 2)}\<^sup>+ \<Longrightarrow> x = (2::nat)" for x by (induction rule: trancl_induct) auto
    have "sorted_list_of_set {c. c = (1::nat) \<or> c = 4} = [1, 4]"
    proof -
      have "{c. c = (1::nat) \<or> c = 4} = {1, 4}" by auto
      then show ?thesis by simp
    qed
    then show ?thesis using no [of 4] by (auto simp: forms_cycle_def ref_graph_def shared_relay_edges)
  qed
  moreover have "findAnchors (fst (ends_after shared_relay small_found True)) \<noteq> None" by code_simp
  moreover have "snd (ends_after shared_relay small_found True) = []" by code_simp
  moreover have "\<not> gainsTakenAnchor shared_relay
      (concat (map (getAnchors shared_relay) (filter (\<lambda>stage. stage \<noteq> 1 \<and> stage \<noteq> 2) (pipe_stages (pipe shared_relay))))) 1
      (the (findAnchors (fst (ends_after shared_relay small_found True)))) []" by code_simp
  moreover have "mergeUnits shared_relay 1 2 = Some None" by code_simp
  ultimately have "canFold ref_graph shared_relay small_found True = Some None"
    by (auto simp: canFold_def Let_def gainsTakenAnchor_def target split: prod.splits option.splits)
  moreover have "checkRelay shared_relay small_found = Some []" by code_simp
  ultimately have can: "can_fold ref_graph shared_relay small_found True [] None" using found by (simp add: can_fold_def)
  have fin: "finite_tokens (pipe shared_relay)" "acyclic (stage_edges (pipe shared_relay))"
    using shared_relay_ok by (simp_all add: relay_ok_def)
  have "awaited_edges (pipe shared_relay) 1 2 = {}" by (auto simp: awaited_edges_def shared_relay_def split: if_splits)
  moreover have "emptied shared_relay small_found True" by code_simp
  ultimately have "stage_edges (pipe (foldRelay ref_graph shared_relay small_found True [] None)) = {}"
    using foldRelay_edges(2) [OF ref_graph_ok fin(1) can fin(2)]
    by (auto simp: target grown_edges_def shared_relay_edges contract_def)
  then show ?thesis using ref_graph_ok shared_relay_ok can by (simp add: shared_relay_edges small_found_def)
qed

end
