(* ===== verification/FifoOrder.thy ===== *)
theory FifoOrder
  imports Prelude "HOL-Library.Product_Lexorder" "HOL-Library.Multiset"
begin

text \<open>
  The order in which the slots of a FIFO are written and read (\<open>lib/Transforms/OrderFifoSlotsByUse.cpp\<close>).

  A block is the list of its operations. What the pass asks of MLIR about an operation is data of
  \<open>fifo_ir\<close>; dominance is a parameter. Positions are unbounded natural numbers.
\<close>

section \<open>The IR\<close>

type_synonym blk = nat
type_synonym blocks = "blk \<Rightarrow> nat list"

text \<open>An operation that uses slots: a write, a read, a transfer with its source and destination, or another one.\<close>

datatype access_kind = FifoWrite | FifoRead | FifoTransfer nat nat | OtherUse

text \<open>A use of the value read: its owner and, for a \<open>linalg.generic\<close>, the users of the matching block argument.\<close>

record value_use =
  use_owner :: nat
  argument_users :: "nat list"

record fifo_ir =
  slot_uses :: "nat \<Rightarrow> nat list"
  access_kind_of :: "nat \<Rightarrow> access_kind"
  block_of :: "nat \<Rightarrow> blk"
  stage_of_block :: "blk \<Rightarrow> nat option"
  read_uses :: "nat \<Rightarrow> value_use list"
  findAncestorOpInBlock :: "blk \<Rightarrow> nat \<Rightarrow> nat option"
  generic_body :: "nat \<Rightarrow> blk option"
  memory_effect_free :: "nat \<Rightarrow> bool"
  operand_vals :: "nat \<Rightarrow> nat list"
  is_private_yield :: "nat \<Rightarrow> bool"
  slot_ends :: "nat \<Rightarrow> (attribute \<times> attribute) option"
  stage_producers :: "nat \<Rightarrow> nat list"
  stage_depends_on :: "nat \<Rightarrow> nat \<Rightarrow> bool"

record slot_access =
  sa_slot :: nat
  sa_writer :: nat
  sa_reader :: nat

section \<open>Accesses of a slot\<close>

definition access_step :: "fifo_ir \<Rightarrow> nat \<Rightarrow> nat \<Rightarrow> nat option \<times> nat option \<Rightarrow> (nat option \<times> nat option) option" where
  "access_step ir slot user acc =
     (let (is_write, is_read) = (case access_kind_of ir user of
          FifoWrite \<Rightarrow> (True, False) | FifoRead \<Rightarrow> (False, True)
        | FifoTransfer src dest \<Rightarrow> (dest = slot, src = slot) | OtherUse \<Rightarrow> (False, False)) in
      if is_write = is_read then None
      else if is_write then (if fst acc \<noteq> None then None else Some (Some user, snd acc))
      else (if snd acc \<noteq> None then None else Some (fst acc, Some user)))"

definition getSlotAccess :: "fifo_ir \<Rightarrow> nat \<Rightarrow> slot_access option" where
  "getSlotAccess ir slot =
     (case foldM (access_step ir slot) (slot_uses ir slot) (None, None) of
        Some (Some w, Some r) \<Rightarrow> Some \<lparr>sa_slot = slot, sa_writer = w, sa_reader = r\<rparr>
      | _ \<Rightarrow> None)"

section \<open>Where a value is consumed\<close>

definition position :: "nat list \<Rightarrow> nat \<Rightarrow> nat" where
  "position body q = (if q \<in> set body then index_of body q else 0)"

text \<open>The position in the body of a generic of the first operation that uses the argument.\<close>

definition position_in_body :: "fifo_ir \<Rightarrow> blocks \<Rightarrow> blk \<Rightarrow> value_use \<Rightarrow> nat" where
  "position_in_body ir blocks body use =
     fold (\<lambda>user m. case findAncestorOpInBlock ir body user of
         Some q \<Rightarrow> min m (index_of (blocks body) q) | None \<Rightarrow> m)
       (argument_users use) (length (blocks body))"

definition key_step ::
  "fifo_ir \<Rightarrow> blocks \<Rightarrow> blk \<Rightarrow> (nat \<Rightarrow> nat) \<Rightarrow> value_use \<Rightarrow> (nat \<times> nat) option \<Rightarrow> (nat \<times> nat) option option" where
  "key_step ir blocks b positions use key =
     (case findAncestorOpInBlock ir b (use_owner use) of
        None \<Rightarrow> None
      | Some in_block \<Rightarrow>
          let in_body = (case generic_body ir in_block of
                Some body \<Rightarrow> if in_block = use_owner use then position_in_body ir blocks body use else 0
              | None \<Rightarrow> 0);
              candidate = (positions in_block, in_body)
          in Some (case key of None \<Rightarrow> Some candidate | Some k \<Rightarrow> if candidate < k then Some candidate else Some k))"

definition getConsumptionKey :: "fifo_ir \<Rightarrow> blocks \<Rightarrow> nat \<Rightarrow> (nat \<Rightarrow> nat) \<Rightarrow> (nat \<times> nat) option" where
  "getConsumptionKey ir blocks reader positions =
     (case access_kind_of ir reader of
        FifoTransfer _ _ \<Rightarrow> Some (positions reader, 0)
      | _ \<Rightarrow> Option.bind (foldM (key_step ir blocks (block_of ir reader) positions) (read_uses ir reader) None) id)"

section \<open>Moving operations\<close>

text \<open>\<open>min_element\<close> and \<open>max_element\<close> by the order in the block.\<close>

definition first_of :: "nat list \<Rightarrow> nat list \<Rightarrow> nat" where
  "first_of body ops = fold (\<lambda>x m. if before_in body x m then x else m) (tl ops) (hd ops)"

definition last_of :: "nat list \<Rightarrow> nat list \<Rightarrow> nat" where
  "last_of body ops = fold (\<lambda>x m. if before_in body m x then x else m) (tl ops) (hd ops)"

fun place_ops :: "nat option \<Rightarrow> nat \<Rightarrow> nat list \<Rightarrow> nat list \<Rightarrow> nat list" where
  "place_ops previous first [] body = body"
| "place_ops previous first (q # ops) body =
     place_ops (Some q) first ops
       (case previous of
          None \<Rightarrow> if q \<noteq> first then moveOpBefore q first body else body
        | Some p \<Rightarrow> moveOpAfter q p body)"

text \<open>\<open>None\<close> is the result false, which leaves the IR unchanged.\<close>

definition moveIntoOrder :: "fifo_ir \<Rightarrow> (nat \<Rightarrow> nat \<Rightarrow> bool) \<Rightarrow> bool \<Rightarrow> nat list \<Rightarrow> nat list \<Rightarrow> nat list option" where
  "moveIntoOrder ir dominates keep_memory_order ops body =
     (let first = first_of body ops; last' = last_of body ops in
      if keep_memory_order \<and>
         list_ex (\<lambda>q. q \<notin> set ops \<and> \<not> memory_effect_free ir q)
           (takeWhile (\<lambda>q. q \<noteq> last') (dropWhile (\<lambda>q. q \<noteq> first) body))
      then None
      else if list_ex (\<lambda>q. list_ex (\<lambda>v. \<not> dominates v first) (operand_vals ir q)) ops then None
      else Some (place_ops None first ops body))"

section \<open>The FIFOs of a function\<close>

type_synonym ends = "attribute \<times> attribute"

definition channel_step :: "fifo_ir \<Rightarrow> nat \<Rightarrow> (ends \<Rightarrow> nat set) \<Rightarrow> ends \<Rightarrow> nat set" where
  "channel_step ir q channels =
     (if is_private_yield ir q then channels
      else fold (\<lambda>v ch. case slot_ends ir v of Some e \<Rightarrow> ch(e := insert q (ch e)) | None \<Rightarrow> ch) (operand_vals ir q) channels)"

definition collectChannelAccesses :: "fifo_ir \<Rightarrow> nat list \<Rightarrow> ends \<Rightarrow> nat set" where
  "collectChannelAccesses ir func_ops = fold (channel_step ir) func_ops (\<lambda>_. {})"

definition isOnCycle :: "fifo_ir \<Rightarrow> nat \<Rightarrow> bool" where
  "isOnCycle ir stage = list_ex (\<lambda>producer. stage_depends_on ir producer stage) (stage_producers ir stage)"

text \<open>The assertion and the unreachable end in \<open>None\<close>.\<close>

definition hasKnownProtocol :: "fifo_ir \<Rightarrow> slot_access list \<Rightarrow> nat set \<Rightarrow> bool option" where
  "hasKnownProtocol ir accesses channel =
     (let writer_block = block_of ir (sa_writer (hd accesses));
          reader_block = block_of ir (sa_reader (hd accesses));
          own = sa_writer ` set accesses \<union> sa_reader ` set accesses in
      if list_ex (\<lambda>a. block_of ir (sa_writer a) \<noteq> writer_block \<or> block_of ir (sa_reader a) \<noteq> reader_block) accesses
      then Some False
      else if card own \<noteq> card channel then Some False
      else case (stage_of_block ir writer_block, stage_of_block ir reader_block) of
             (Some ws, Some rs) \<Rightarrow>
               if isOnCycle ir ws \<or> isOnCycle ir rs then None else Some (ws \<noteq> rs)
           | _ \<Rightarrow> None)"

section \<open>Ordering a FIFO\<close>

record fifo_state =
  fs_blocks :: blocks
  num_skipped :: nat
  num_reordered :: nat

fun keyed_accesses :: "fifo_ir \<Rightarrow> blocks \<Rightarrow> (nat \<Rightarrow> nat) \<Rightarrow> slot_access list \<Rightarrow> ((nat \<times> nat) \<times> slot_access) list option" where
  "keyed_accesses ir blocks positions [] = Some []"
| "keyed_accesses ir blocks positions (a # as) =
     (case getConsumptionKey ir blocks (sa_reader a) positions of
        None \<Rightarrow> None
      | Some key \<Rightarrow> map_option (Cons (key, a)) (keyed_accesses ir blocks positions as))"

definition in_order :: "nat list \<Rightarrow> nat list \<Rightarrow> bool" where
  "in_order body ops \<longleftrightarrow> list_all (\<lambda>i. \<not> before_in body (ops ! i) (ops ! (i - 1))) [1..<length ops]"

type_synonym dominance = "blocks \<Rightarrow> nat \<Rightarrow> nat \<Rightarrow> bool"

definition orderFifo :: "fifo_ir \<Rightarrow> dominance \<Rightarrow> slot_access list \<Rightarrow> fifo_state \<Rightarrow> fifo_state option" where
  "orderFifo ir dominance accesses s =
     (let wb = block_of ir (sa_writer (hd accesses)); rb = block_of ir (sa_reader (hd accesses)) in
      case keyed_accesses ir (fs_blocks s) (position (fs_blocks s rb)) accesses of
        None \<Rightarrow> Some s
      | Some entries \<Rightarrow>
          let keyed = map snd (sort_key fst entries);
              writers = map sa_writer keyed; readers = map sa_reader keyed in
          if in_order (fs_blocks s wb) writers \<and> in_order (fs_blocks s rb) readers then Some s
          else let moved = (if in_order (fs_blocks s wb) writers then Some (fs_blocks s)
                            else map_option (\<lambda>b. (fs_blocks s)(wb := b))
                                   (moveIntoOrder ir (dominance (fs_blocks s)) True writers (fs_blocks s wb))) in
               case moved of
                 None \<Rightarrow> Some s
               | Some blocks \<Rightarrow>
                   map_option (\<lambda>blocks'. s\<lparr>fs_blocks := blocks', num_reordered := Suc (num_reordered s)\<rparr>)
                     (if in_order (blocks rb) readers then Some blocks
                      else map_option (\<lambda>b. blocks(rb := b)) (moveIntoOrder ir (dominance blocks) False readers (blocks rb))))"

text \<open>The slots of each FIFO, in the order of the results of the private section.\<close>

fun add_access :: "ends \<Rightarrow> slot_access \<Rightarrow> (ends \<times> slot_access list) list \<Rightarrow> (ends \<times> slot_access list) list" where
  "add_access e a [] = [(e, [a])]"
| "add_access e a ((e', as) # fifos) = (if e' = e then (e', as @ [a]) # fifos else (e', as) # add_access e a fifos)"

definition group_slot :: "fifo_ir \<Rightarrow> nat \<Rightarrow> (ends \<times> slot_access list) list \<Rightarrow> (ends \<times> slot_access list) list" where
  "group_slot ir slot fifos =
     (case (slot_ends ir slot, getSlotAccess ir slot) of
        (Some e, Some a) \<Rightarrow> add_access e a fifos
      | _ \<Rightarrow> fifos)"

definition order_group :: "fifo_ir \<Rightarrow> dominance \<Rightarrow> (ends \<Rightarrow> nat set) \<Rightarrow> ends \<times> slot_access list \<Rightarrow> fifo_state \<Rightarrow> fifo_state option" where
  "order_group ir dominance channels g s =
     (if length (snd g) < 2 then Some s
      else case hasKnownProtocol ir (snd g) (channels (fst g)) of
             None \<Rightarrow> None
           | Some False \<Rightarrow> Some (s\<lparr>num_skipped := Suc (num_skipped s)\<rparr>)
           | Some True \<Rightarrow> orderFifo ir dominance (snd g) s)"

definition orderPipeline :: "fifo_ir \<Rightarrow> dominance \<Rightarrow> (ends \<Rightarrow> nat set) \<Rightarrow> nat list option \<Rightarrow> fifo_state \<Rightarrow> fifo_state option" where
  "orderPipeline ir dominance channels private_results s =
     (case private_results of
        None \<Rightarrow> Some s
      | Some slots \<Rightarrow> foldM (order_group ir dominance channels) (fold (group_slot ir) slots []) s)"

text \<open>The pass: the pipelines of one function after the other, each with the results of its private section.\<close>

definition order_function :: "fifo_ir \<Rightarrow> dominance \<Rightarrow> nat list \<times> nat list option list \<Rightarrow> fifo_state \<Rightarrow> fifo_state option" where
  "order_function ir dominance func s =
     foldM (orderPipeline ir dominance (collectChannelAccesses ir (fst func))) (snd func) s"

definition orderFifoSlots :: "bool \<Rightarrow> fifo_ir \<Rightarrow> dominance \<Rightarrow> (nat list \<times> nat list option list) list \<Rightarrow> fifo_state \<Rightarrow> fifo_state option" where
  "orderFifoSlots disabled ir dominance funcs s = (if disabled then Some s else foldM (order_function ir dominance) funcs s)"

section \<open>What moving does\<close>

lemma before_in_split: "distinct (as @ x # bs) \<Longrightarrow> before_in (as @ x # bs) y x \<longleftrightarrow> y \<in> set as"
  using index_of_less [of as y] by (auto simp: before_in_def index_of_append)

lemma before_in_trans: "before_in xs a b \<Longrightarrow> before_in xs b c \<Longrightarrow> before_in xs a c"
  by (simp add: before_in_def)

lemma before_in_total: "distinct xs \<Longrightarrow> a \<in> set xs \<Longrightarrow> b \<in> set xs \<Longrightarrow> before_in xs a b \<or> a = b \<or> before_in xs b a"
  by (metis before_in_def nat_neq_iff nth_index_of)

lemma first_of_steps:
  "(fold (\<lambda>x m. if before_in body x m then x else m) xs m) \<in> insert m (set xs) \<and>
   (\<forall>y\<in>insert m (set xs). \<not> before_in body y (fold (\<lambda>x m. if before_in body x m then x else m) xs m))"
proof (induction xs arbitrary: m)
  case (Cons x xs)
  show ?case using Cons.IH [of "if before_in body x m then x else m"]
    by (auto simp: before_in_def split: if_splits)
qed (simp add: before_in_def)

lemma first_of_result:
  assumes "ops \<noteq> []"
  shows "first_of body ops \<in> set ops" "\<forall>y\<in>set ops. \<not> before_in body y (first_of body ops)"
proof -
  obtain x xs where "ops = x # xs" using assms by (cases ops) auto
  then show "first_of body ops \<in> set ops" "\<forall>y\<in>set ops. \<not> before_in body y (first_of body ops)"
    using first_of_steps [of body xs x] by (auto simp: first_of_def)
qed

lemma last_of_steps:
  "(fold (\<lambda>x m. if before_in body m x then x else m) xs m) \<in> insert m (set xs) \<and>
   (\<forall>y\<in>insert m (set xs). \<not> before_in body (fold (\<lambda>x m. if before_in body m x then x else m) xs m) y)"
proof (induction xs arbitrary: m)
  case (Cons x xs)
  show ?case using Cons.IH [of "if before_in body m x then x else m"]
    by (auto simp: before_in_def split: if_splits)
qed (simp add: before_in_def)

lemma last_of_result:
  assumes "ops \<noteq> []"
  shows "last_of body ops \<in> set ops" "\<forall>y\<in>set ops. \<not> before_in body (last_of body ops) y"
proof -
  obtain x xs where "ops = x # xs" using assms by (cases ops) auto
  then show "last_of body ops \<in> set ops" "\<forall>y\<in>set ops. \<not> before_in body (last_of body ops) y"
    using last_of_steps [of body xs x] by (auto simp: last_of_def)
qed

lemma filter_absent: "x \<notin> set xs \<Longrightarrow> filter (\<lambda>y. y \<noteq> x) xs = xs"
  by (induction xs) auto

lemma place_rest:
  assumes "distinct (pre @ rest)" and "set done \<inter> set pre = {}"
  shows "distinct (done @ ops) \<Longrightarrow> done \<noteq> [] \<Longrightarrow> set ops \<inter> set pre = {} \<Longrightarrow>
    place_ops (Some (last done)) first ops (pre @ done @ filter (\<lambda>q. q \<notin> set done) rest) =
    pre @ (done @ ops) @ filter (\<lambda>q. q \<notin> set (done @ ops)) rest"
  using assms(2)
proof (induction ops arbitrary: "done")
  case (Cons q ops)
  let ?body = "pre @ done @ filter (\<lambda>q. q \<notin> set done) rest"
  have q: "q \<notin> set pre" "q \<notin> set done" using Cons.prems by auto
  have l: "last done \<notin> set pre" "done = butlast done @ [last done]" "last done \<notin> set (butlast done)"
    using Cons.prems by (auto dest: last_in_set) (metis append_butlast_last_id distinct_append distinct_snoc not_distinct_conv_prefix)
  have "filter (\<lambda>y. y \<noteq> q) ?body = pre @ butlast done @ [last done] @ filter (\<lambda>y. y \<notin> set (done @ [q])) rest"
  proof -
    have "filter (\<lambda>y. y \<noteq> q) ?body = pre @ done @ filter (\<lambda>y. y \<notin> set (done @ [q])) rest"
      using q by (auto simp: filter_absent intro: filter_cong)
    then show ?thesis using l(2) by (metis append.assoc)
  qed
  then have move: "moveOpAfter q (last done) ?body = pre @ (done @ [q]) @ filter (\<lambda>y. y \<notin> set (done @ [q])) rest"
    using l by (simp add: moveOpAfter_def insert_after_append)
  have "place_ops (Some (last done)) first (q # ops) ?body =
      place_ops (Some (last (done @ [q]))) first ops (pre @ (done @ [q]) @ filter (\<lambda>y. y \<notin> set (done @ [q])) rest)"
    by (simp add: move [simplified])
  also have "\<dots> = pre @ ((done @ [q]) @ ops) @ filter (\<lambda>y. y \<notin> set ((done @ [q]) @ ops)) rest"
    by (rule Cons.IH) (use Cons.prems in auto)
  finally show ?case by simp
qed simp

text \<open>The operations end up next to each other, in order, at the place of the earliest; the others keep their order.\<close>

lemma place_ops_result:
  assumes body: "distinct body" "body = pre @ first # post" and ops: "distinct ops" "ops \<noteq> []" "first \<in> set ops" "set ops \<inter> set pre = {}"
    "set ops \<subseteq> set body"
  shows "place_ops None first ops body = pre @ ops @ filter (\<lambda>q. q \<notin> set ops) post"
proof -
  obtain q os where o: "ops = q # os" using ops(2) by (cases ops) auto
  have q: "q \<notin> set pre" using ops(4) o by auto
  have d: "distinct (pre @ first # post)" using body by simp
  have start: "(if q \<noteq> first then moveOpBefore q first body else body) = pre @ [q] @ filter (\<lambda>y. y \<notin> set [q]) (first # post)"
  proof (cases "q = first")
    case True
    then have "filter (\<lambda>y. y \<noteq> q) post = post" using d by (intro filter_absent) auto
    then show ?thesis using True body by simp
  next
    case False
    have "first \<notin> set pre" using d by auto
    have rest: "filter (\<lambda>y. y \<noteq> q) body = pre @ first # filter (\<lambda>y. y \<noteq> q) post" using False q by (simp add: body(2) filter_absent)
    show ?thesis using False \<open>first \<notin> set pre\<close> q unfolding moveOpBefore_def Let_def rest
      by (auto simp: takeWhile_until dropWhile_append3)
  qed
  have "place_ops None first ops body = place_ops (Some (last [q])) first os (pre @ [q] @ filter (\<lambda>y. y \<notin> set [q]) (first # post))"
    using start by (simp add: o)
  also have "\<dots> = pre @ ([q] @ os) @ filter (\<lambda>y. y \<notin> set ([q] @ os)) (first # post)"
    by (rule place_rest) (use d ops o in auto)
  finally show ?thesis using ops(3) o by auto
qed

lemma takeWhile_index: "index_of xs x < index_of xs y \<Longrightarrow> x \<in> set (takeWhile (\<lambda>q. q \<noteq> y) xs)"
  by (induction xs) (auto split: if_splits)

lemma moveIntoOrder_result:
  assumes dist: "distinct body" and ops: "distinct ops" "ops \<noteq> []" "set ops \<subseteq> set body"
    and run: "moveIntoOrder ir dominates keep ops body = Some body'"
  obtains pre post where "body = pre @ first_of body ops # post" "set ops \<inter> set pre = {}"
    "body' = pre @ ops @ filter (\<lambda>q. q \<notin> set ops) post"
    "\<forall>q\<in>set ops. \<forall>v\<in>set (operand_vals ir q). dominates v (first_of body ops)"
    "keep \<Longrightarrow> \<forall>x\<in>set post. x \<notin> set ops \<longrightarrow> \<not> memory_effect_free ir x \<longrightarrow> (\<forall>q\<in>set ops. before_in body q x)"
proof -
  let ?f = "first_of body ops" and ?l = "last_of body ops"
  have f: "?f \<in> set ops" "\<forall>y\<in>set ops. \<not> before_in body y ?f" using first_of_result [OF ops(2)] by blast+
  have l: "?l \<in> set ops" "\<forall>y\<in>set ops. \<not> before_in body ?l y" using last_of_result [OF ops(2)] by blast+
  obtain pre post where body: "body = pre @ ?f # post" "?f \<notin> set pre" using split_at [of ?f body] f(1) ops(3) by blast
  have none: "set ops \<inter> set pre = {}"
  proof (rule ccontr)
    assume "set ops \<inter> set pre \<noteq> {}"
    then obtain y where y: "y \<in> set ops" "y \<in> set pre" by blast
    then have "before_in body y ?f" using before_in_split [of pre ?f post y] dist body(1) by simp
    then show False using f(2) y(1) by blast
  qed
  have effects: "keep \<Longrightarrow> \<forall>q\<in>set (takeWhile (\<lambda>q. q \<noteq> ?l) (dropWhile (\<lambda>q. q \<noteq> ?f) body)). q \<notin> set ops \<longrightarrow> memory_effect_free ir q"
    and dom: "\<forall>q\<in>set ops. \<forall>v\<in>set (operand_vals ir q). dominates v ?f"
    and res: "body' = place_ops None ?f ops body"
    using run by (auto simp: moveIntoOrder_def Let_def list_ex_iff split: if_splits)
  have "body' = pre @ ops @ filter (\<lambda>q. q \<notin> set ops) post"
    unfolding res by (rule place_ops_result) (use dist body ops none f(1) in auto)
  moreover have "\<forall>q\<in>set ops. before_in body q x"
    if keep and x: "x \<in> set post" "x \<notin> set ops" "\<not> memory_effect_free ir x" for x
  proof -
    have dw: "dropWhile (\<lambda>q. q \<noteq> ?f) body = ?f # post"
    proof -
      have "dropWhile (\<lambda>q. q \<noteq> ?f) (pre @ ?f # post) = ?f # post" using body(2) by (subst dropWhile_append3) auto
      then show ?thesis by (simp only: body(1) [symmetric])
    qed
    have xb: "x \<in> set body" using x(1) body(1) by (metis in_set_conv_decomp append_Cons append_assoc)
    have lb: "?l \<in> set body" using l(1) ops(3) by blast
    have "before_in body ?l x"
    proof (rule ccontr)
      assume "\<not> before_in body ?l x"
      then have "before_in body x ?l" using before_in_total [OF dist xb lb] x(2) l(1) by blast
      moreover have "?l \<notin> set pre" using none l(1) by blast
      moreover have "x \<notin> set pre" using x(1) dist body(1) by (metis disjoint_iff distinct_append set_subset_Cons subsetD)
      ultimately have "index_of (?f # post) x < index_of (?f # post) ?l"
        using body(1) unfolding before_in_def by (metis index_of_append nat_add_left_cancel_less)
      then have "x \<in> set (takeWhile (\<lambda>q. q \<noteq> ?l) (?f # post))" by (rule takeWhile_index)
      then have "x \<in> set (takeWhile (\<lambda>q. q \<noteq> ?l) (dropWhile (\<lambda>q. q \<noteq> ?f) body))" by (simp only: dw)
      then show False using effects [OF \<open>keep\<close>] x(2,3) by blast
    qed
    then show ?thesis using l(2) before_in_total [OF dist _ lb] ops(3) by (metis before_in_trans subsetD)
  qed
  ultimately show ?thesis using that [of pre post] body(1) none dom by blast
qed

text \<open>The relations that a move keeps.\<close>

definition moved :: "fifo_ir \<Rightarrow> bool \<Rightarrow> nat list \<Rightarrow> nat list \<Rightarrow> nat list \<Rightarrow> bool" where
  "moved ir keep ops body body' \<longleftrightarrow>
     set body' = set body \<and> distinct body' \<and> filter (\<lambda>q. q \<in> set ops) body' = ops \<and>
     filter (\<lambda>q. q \<notin> set ops) body' = filter (\<lambda>q. q \<notin> set ops) body \<and>
     (\<forall>x\<in>set body - set ops. \<forall>q\<in>set ops. before_in body' x q \<longleftrightarrow> before_in body x (first_of body ops)) \<and>
     (\<forall>x\<in>set body - set ops. \<forall>q\<in>set ops. before_in body x (first_of body ops) \<longrightarrow> before_in body x q) \<and>
     (keep \<longrightarrow> (\<forall>x\<in>set body - set ops. \<not> memory_effect_free ir x \<longrightarrow>
        (\<forall>q\<in>set ops. before_in body' x q = before_in body x q)))"

lemma moveIntoOrder_moved:
  assumes dist: "distinct body" and ops: "distinct ops" "ops \<noteq> []" "set ops \<subseteq> set body"
    and run: "moveIntoOrder ir dominates keep ops body = Some body'"
  shows "moved ir keep ops body body'"
    and "\<forall>q\<in>set ops. \<forall>v\<in>set (operand_vals ir q). dominates v (first_of body ops)"
proof -
  let ?f = "first_of body ops"
  obtain pre post where b: "body = pre @ ?f # post" "set ops \<inter> set pre = {}"
    "body' = pre @ ops @ filter (\<lambda>q. q \<notin> set ops) post"
    and dominated: "\<forall>q\<in>set ops. \<forall>v\<in>set (operand_vals ir q). dominates v ?f"
    and effects: "keep \<Longrightarrow> \<forall>x\<in>set post. x \<notin> set ops \<longrightarrow> \<not> memory_effect_free ir x \<longrightarrow> (\<forall>q\<in>set ops. before_in body q x)"
    by (rule moveIntoOrder_result [OF assms], rule that)
  have f: "?f \<in> set ops" using first_of_result [OF ops(2)] by blast
  have body: "set body = set pre \<union> {?f} \<union> set post" "distinct pre" "distinct post" "?f \<notin> set pre" "?f \<notin> set post"
    "set pre \<inter> set post = {}"
  proof -
    have "distinct (pre @ ?f # post)" using dist b(1) by simp
    then show "distinct pre" "distinct post" "?f \<notin> set pre" "?f \<notin> set post" "set pre \<inter> set post = {}" by auto
    have "set body = set (pre @ ?f # post)" using arg_cong [OF b(1), of set] .
    then show "set body = set pre \<union> {?f} \<union> set post" by auto
  qed
  have set: "set body' = set body" using b body f ops(3) by auto
  have dist': "distinct body'" using body b(2) ops(1) unfolding b(3) by auto
  have "filter (\<lambda>q. q \<in> set ops) pre = []" "filter (\<lambda>q. q \<notin> set ops) pre = pre" using b(2) by (auto simp: filter_empty_conv filter_id_conv)
  then have fl: "filter (\<lambda>q. q \<in> set ops) body' = ops" "filter (\<lambda>q. q \<notin> set ops) body' = pre @ filter (\<lambda>q. q \<notin> set ops) post"
    unfolding b(3) by simp_all
  have fl': "filter (\<lambda>q. q \<notin> set ops) body = pre @ filter (\<lambda>q. q \<notin> set ops) post"
    using \<open>filter (\<lambda>q. q \<notin> set ops) pre = pre\<close> f by (subst b(1)) simp
  have pre: "before_in body x ?f \<longleftrightarrow> x \<in> set pre" for x
    using before_in_split [of pre ?f post x] dist b(1) by simp
  have new: "before_in body' x q \<longleftrightarrow> x \<in> set pre" if x: "x \<in> set body - set ops" and q: "q \<in> set ops" for x q
  proof (cases "x \<in> set pre")
    case True
    then show ?thesis using before_in_append [of x pre q "ops @ filter (\<lambda>q. q \<notin> set ops) post"] q b(2) unfolding b(3) by auto
  next
    case False
    then have "before_in body' q x"
      using before_in_append [of q "pre @ ops" x "filter (\<lambda>q. q \<notin> set ops) post"] q x unfolding b(3) by auto
    then show ?thesis using False by (simp add: before_in_def)
  qed
  have old: "before_in body x q" if "x \<in> set pre" "q \<in> set ops" for x q
    using before_in_append [of x pre q "?f # post"] that b(1,2) by (metis disjoint_iff)
  have eff: "before_in body' x q = before_in body x q"
    if keep and x: "x \<in> set body - set ops" and e: "\<not> memory_effect_free ir x" and q: "q \<in> set ops" for x q
  proof (cases "x \<in> set pre")
    case True
    then show ?thesis using new [OF x q] old q by blast
  next
    case False
    then have "x \<in> set post" using x body f by auto
    then have "before_in body q x" using effects [OF \<open>keep\<close>] x e q by blast
    then show ?thesis using new [OF x q] False by (simp add: before_in_def)
  qed
  show "moved ir keep ops body body'"
    unfolding moved_def pre using set dist' fl fl' new old eff by simp
  show "\<forall>q\<in>set ops. \<forall>v\<in>set (operand_vals ir q). dominates v ?f" by (rule dominated)
qed

section \<open>Both ends of a FIFO\<close>

lemma index_of_inj_on: "a \<in> set xs \<Longrightarrow> b \<in> set xs \<Longrightarrow> index_of xs a = index_of xs b \<Longrightarrow> a = b"
  by (metis nth_index_of)

lemma sorted_before_unique:
  assumes "sorted_wrt (before_in body) xs" and "sorted_wrt (before_in body) ys" and "set xs = set ys" and "set xs \<subseteq> set body"
  shows "xs = ys"
proof -
  have "sorted_wrt (<) (map (index_of body) xs)" "sorted_wrt (<) (map (index_of body) ys)"
    using assms(1,2) by (simp_all add: sorted_wrt_map before_in_def [abs_def])
  then have "map (index_of body) xs = map (index_of body) ys"
    by (intro strict_sorted_equal) (simp_all add: assms(3))
  moreover have "inj_on (index_of body) (set xs \<union> set ys)"
  proof (rule inj_onI)
    fix a b assume "a \<in> set xs \<union> set ys" "b \<in> set xs \<union> set ys" "index_of body a = index_of body b"
    moreover have "set xs \<union> set ys \<subseteq> set body" using assms(3,4) by simp
    ultimately show "a = b" by (meson index_of_inj_on subsetD)
  qed
  ultimately show ?thesis by (simp add: map_inj_on)
qed

lemma sorted_before_self: "distinct body \<Longrightarrow> sorted_wrt (before_in body) body"
  by (simp add: sorted_wrt_iff_nth_less before_in_def index_of_nth)

lemma in_order_filter:
  assumes "distinct body" and "distinct ops" and "set ops \<subseteq> set body" and "in_order body ops"
  shows "filter (\<lambda>q. q \<in> set ops) body = ops"
proof (rule sorted_before_unique [symmetric])
  have adj: "before_in body (ops ! i) (ops ! Suc i)" if i: "Suc i < length ops" for i
  proof -
    have "\<forall>i\<in>set [1..<length ops]. \<not> before_in body (ops ! i) (ops ! (i - 1))"
      using assms(4) unfolding in_order_def list_all_iff .
    then have "\<not> before_in body (ops ! Suc i) (ops ! i)" using i by (metis One_nat_def Suc_leI atLeastLessThan_iff diff_Suc_1 set_upt zero_less_Suc)
    moreover have "ops ! i \<noteq> ops ! Suc i" using assms(2) i by (simp add: nth_eq_iff_index_eq)
    ultimately show ?thesis using before_in_total [OF assms(1), of "ops ! i" "ops ! Suc i"] assms(3) i by (metis Suc_lessD nth_mem subsetD)
  qed
  have "transp (before_in body)" by (auto intro: transpI before_in_trans)
  then show "sorted_wrt (before_in body) ops"
    using adj by (simp add: sorted_wrt_iff_nth_Suc_transp)
  show "sorted_wrt (before_in body) (filter (\<lambda>q. q \<in> set ops) body)"
    by (rule sorted_wrt_filter) (rule sorted_before_self [OF assms(1)])
qed (use assms(3) in auto)

lemma index_of_map:
  "inj_on f (set xs) \<Longrightarrow> a \<in> set xs \<Longrightarrow> index_of (map f xs) (f a) = index_of xs a"
  by (induction xs) (auto simp: inj_on_def)

lemma before_in_ordered:
  assumes "distinct body" and "filter (\<lambda>q. q \<in> set (map f keyed)) body = map f keyed" and "distinct (map f keyed)"
    and "a \<in> set keyed" and "b \<in> set keyed"
  shows "before_in body (f a) (f b) = before_in keyed a b"
proof -
  have inj: "inj_on f (set keyed)" using assms(3) by (simp add: distinct_map)
  have mem: "f a \<in> set (map f keyed)" "f b \<in> set (map f keyed)" using assms(4,5) by auto
  have "set (map f keyed) \<subseteq> set body" using arg_cong [OF assms(2), of set] by auto
  then have "before_in body (f a) (f b) = before_in (filter (\<lambda>q. q \<in> set (map f keyed)) body) (f a) (f b)"
    using before_in_filter [of "f a" body "f b" "\<lambda>q. q \<in> set (map f keyed)"] mem by blast
  also have "\<dots> = before_in (map f keyed) (f a) (f b)" by (simp only: assms(2))
  also have "\<dots> = before_in keyed a b" using index_of_map [OF inj] assms(4,5) by (simp add: before_in_def)
  finally show ?thesis .
qed

text \<open>Slots whose accesses share their blocks are read in the order in which they are written.\<close>

definition in_step :: "fifo_ir \<Rightarrow> blocks \<Rightarrow> slot_access list \<Rightarrow> bool" where
  "in_step ir blocks accesses \<longleftrightarrow> (\<forall>a\<in>set accesses. \<forall>b\<in>set accesses.
     block_of ir (sa_writer a) = block_of ir (sa_writer b) \<longrightarrow> block_of ir (sa_reader a) = block_of ir (sa_reader b) \<longrightarrow>
     before_in (blocks (block_of ir (sa_writer a))) (sa_writer a) (sa_writer b) =
     before_in (blocks (block_of ir (sa_reader a))) (sa_reader a) (sa_reader b))"

definition accesses_ok :: "fifo_ir \<Rightarrow> blocks \<Rightarrow> slot_access list \<Rightarrow> bool" where
  "accesses_ok ir blocks accesses \<longleftrightarrow> accesses \<noteq> [] \<and> distinct (map sa_writer accesses) \<and> distinct (map sa_reader accesses) \<and>
     (\<forall>a\<in>set accesses. sa_writer a \<in> set (blocks (block_of ir (sa_writer a))) \<and> sa_reader a \<in> set (blocks (block_of ir (sa_reader a))))"

lemma keyed_accesses_snd: "keyed_accesses ir blocks positions accesses = Some entries \<Longrightarrow> map snd entries = accesses"
  by (induction accesses arbitrary: entries) (auto split: option.splits)

lemma keyed_accesses_fst:
  "keyed_accesses ir blocks positions accesses = Some entries \<Longrightarrow> (k, a) \<in> set entries \<Longrightarrow>
    getConsumptionKey ir blocks (sa_reader a) positions = Some k"
  by (induction accesses arbitrary: entries) (auto split: option.splits)

lemma hasKnownProtocol_True:
  assumes "hasKnownProtocol ir accesses channel = Some True"
  defines "wb \<equiv> block_of ir (sa_writer (hd accesses))" and "rb \<equiv> block_of ir (sa_reader (hd accesses))"
  shows "\<forall>a\<in>set accesses. block_of ir (sa_writer a) = wb \<and> block_of ir (sa_reader a) = rb" and "wb \<noteq> rb"
    and "card (sa_writer ` set accesses \<union> sa_reader ` set accesses) = card channel"
  using assms by (auto simp: hasKnownProtocol_def Let_def list_ex_iff split: if_splits option.splits)

lemma keyed_ops:
  assumes "accesses_ok ir blocks accesses" and "mset keyed = mset accesses"
    and "\<forall>a\<in>set accesses. block_of ir (sa_writer a) = wb \<and> block_of ir (sa_reader a) = rb"
  shows "distinct (map sa_writer keyed)" "map sa_writer keyed \<noteq> []" "set (map sa_writer keyed) \<subseteq> set (blocks wb)"
    "distinct (map sa_reader keyed)" "map sa_reader keyed \<noteq> []" "set (map sa_reader keyed) \<subseteq> set (blocks rb)"
proof -
  have "mset (map sa_writer keyed) = mset (map sa_writer accesses)" "mset (map sa_reader keyed) = mset (map sa_reader accesses)"
    using assms(2) by simp_all
  then show "distinct (map sa_writer keyed)" "distinct (map sa_reader keyed)"
    using assms(1) unfolding accesses_ok_def by (metis mset_eq_imp_distinct_iff)+
  show "map sa_writer keyed \<noteq> []" "map sa_reader keyed \<noteq> []" using assms(1,2) by (auto simp: accesses_ok_def)
  have mem: "a \<in> set accesses" if "a \<in> set keyed" for a using that assms(2) by (metis set_mset_mset)
  have "sa_writer a \<in> set (blocks wb) \<and> sa_reader a \<in> set (blocks rb)" if "a \<in> set keyed" for a
    using mem [OF that] assms(1,3) unfolding accesses_ok_def by metis
  then show "set (map sa_writer keyed) \<subseteq> set (blocks wb)" "set (map sa_reader keyed) \<subseteq> set (blocks rb)"
    by auto
qed

text \<open>What ordering one FIFO does to the blocks: nothing, or both ends follow the order of consumption.\<close>

definition ordered_by_use ::
  "fifo_ir \<Rightarrow> blocks \<Rightarrow> slot_access list \<Rightarrow> blk \<Rightarrow> blk \<Rightarrow> blocks \<Rightarrow> slot_access list \<Rightarrow> bool" where
  "ordered_by_use ir blocks accesses wb rb blocks' keyed \<longleftrightarrow>
     mset keyed = mset accesses \<and>
     sorted_wrt (\<lambda>a b. \<exists>k l. getConsumptionKey ir blocks (sa_reader a) (position (blocks rb)) = Some k \<and>
       getConsumptionKey ir blocks (sa_reader b) (position (blocks rb)) = Some l \<and> k \<le> l) keyed \<and>
     filter (\<lambda>q. q \<in> sa_writer ` set accesses) (blocks' wb) = map sa_writer keyed \<and>
     filter (\<lambda>q. q \<in> sa_reader ` set accesses) (blocks' rb) = map sa_reader keyed"

lemma orderFifo_result:
  assumes ok: "accesses_ok ir (fs_blocks s) accesses" and dist: "\<forall>b. distinct (fs_blocks s b)"
    and known: "hasKnownProtocol ir accesses channel = Some True" and run: "orderFifo ir dominance accesses s = Some s'"
  defines "wb \<equiv> block_of ir (sa_writer (hd accesses))" and "rb \<equiv> block_of ir (sa_reader (hd accesses))"
  shows "s' = s \<or>
    (\<exists>keyed. ordered_by_use ir (fs_blocks s) accesses wb rb (fs_blocks s') keyed \<and>
       (\<forall>b. b \<noteq> wb \<longrightarrow> b \<noteq> rb \<longrightarrow> fs_blocks s' b = fs_blocks s b) \<and>
       (fs_blocks s' wb = fs_blocks s wb \<or> moveIntoOrder ir (dominance (fs_blocks s)) True (map sa_writer keyed) (fs_blocks s wb) = Some (fs_blocks s' wb)) \<and>
       (fs_blocks s' rb = fs_blocks s rb \<or> (\<exists>blocks. blocks rb = fs_blocks s rb \<and>
          moveIntoOrder ir (dominance blocks) False (map sa_reader keyed) (fs_blocks s rb) = Some (fs_blocks s' rb))))"
proof (cases "keyed_accesses ir (fs_blocks s) (position (fs_blocks s rb)) accesses")
  case None
  then show ?thesis using run by (simp add: orderFifo_def Let_def rb_def)
next
  case (Some entries)
  define keyed where "keyed = map snd (sort_key fst entries)"
  note same = hasKnownProtocol_True [OF known, folded wb_def rb_def]
  have perm: "mset keyed = mset accesses"
    using keyed_accesses_snd [OF Some] by (metis keyed_def mset_map mset_sort)
  then have set: "set keyed = set accesses" by (metis set_mset_mset)
  have sorted: "sorted_wrt (\<lambda>a b. \<exists>k l. getConsumptionKey ir (fs_blocks s) (sa_reader a) (position (fs_blocks s rb)) = Some k \<and>
       getConsumptionKey ir (fs_blocks s) (sa_reader b) (position (fs_blocks s rb)) = Some l \<and> k \<le> l) keyed"
  proof -
    have k: "getConsumptionKey ir (fs_blocks s) (sa_reader (snd e)) (position (fs_blocks s rb)) = Some (fst e)" if "e \<in> set entries" for e
      using keyed_accesses_fst [OF Some, of "fst e" "snd e"] that by simp
    have "sorted_wrt (\<lambda>x y. fst x \<le> fst y) (sort_key fst entries)"
      using sorted_sort_key [of fst entries] by (simp add: sorted_wrt_map)
    then have "sorted_wrt (\<lambda>x y. \<exists>k l. getConsumptionKey ir (fs_blocks s) (sa_reader (snd x)) (position (fs_blocks s rb)) = Some k \<and>
       getConsumptionKey ir (fs_blocks s) (sa_reader (snd y)) (position (fs_blocks s rb)) = Some l \<and> k \<le> l) (sort_key fst entries)"
      by (rule sorted_wrt_mono_rel [rotated]) (use k in auto)
    then show ?thesis by (simp add: keyed_def sorted_wrt_map)
  qed
  note W = keyed_ops(1-3) [OF ok perm same(1)] and R = keyed_ops(4-6) [OF ok perm same(1)]
  let ?B = "fs_blocks s" and ?W = "map sa_writer keyed" and ?R = "map sa_reader keyed"
  have sets: "sa_writer ` set accesses = set ?W" "sa_reader ` set accesses = set ?R" by (simp_all add: set)
  have unfold_run: "Some s' = (if in_order (?B wb) ?W \<and> in_order (?B rb) ?R then Some s
      else case (if in_order (?B wb) ?W then Some ?B
                 else map_option (\<lambda>b. ?B(wb := b)) (moveIntoOrder ir (dominance ?B) True ?W (?B wb))) of
             None \<Rightarrow> Some s
           | Some blocks \<Rightarrow> map_option (\<lambda>blocks'. s\<lparr>fs_blocks := blocks', num_reordered := Suc (num_reordered s)\<rparr>)
               (if in_order (blocks rb) ?R then Some blocks
                else map_option (\<lambda>b. blocks(rb := b)) (moveIntoOrder ir (dominance blocks) False ?R (blocks rb))))"
    using run Some unfolding orderFifo_def wb_def rb_def keyed_def Let_def by simp
  consider "s' = s" | blocks where "blocks rb = ?B rb" "\<forall>b. b \<noteq> wb \<longrightarrow> blocks b = ?B b"
      "in_order (?B wb) ?W \<and> blocks wb = ?B wb \<or> moveIntoOrder ir (dominance ?B) True ?W (?B wb) = Some (blocks wb)"
      "\<forall>b. b \<noteq> rb \<longrightarrow> fs_blocks s' b = blocks b"
      "in_order (?B rb) ?R \<and> fs_blocks s' rb = ?B rb \<or> moveIntoOrder ir (dominance blocks) False ?R (?B rb) = Some (fs_blocks s' rb)"
  proof (cases "in_order (?B wb) ?W \<and> in_order (?B rb) ?R")
    case True
    then show ?thesis using unfold_run that(1) by simp
  next
    case False
    define m where "m = (if in_order (?B wb) ?W then Some ?B
                 else map_option (\<lambda>b. ?B(wb := b)) (moveIntoOrder ir (dominance ?B) True ?W (?B wb)))"
    show ?thesis
    proof (cases m)
      case None
      then show ?thesis using unfold_run False that(1) by (simp add: m_def [symmetric])
    next
      case (Some blocks)
      then have w: "blocks rb = ?B rb" "\<forall>b. b \<noteq> wb \<longrightarrow> blocks b = ?B b"
        "in_order (?B wb) ?W \<and> blocks wb = ?B wb \<or> moveIntoOrder ir (dominance ?B) True ?W (?B wb) = Some (blocks wb)"
        using same(2) by (auto simp: m_def split: if_splits)
      have r: "Some s' = map_option (\<lambda>blocks'. s\<lparr>fs_blocks := blocks', num_reordered := Suc (num_reordered s)\<rparr>)
               (if in_order (blocks rb) ?R then Some blocks
                else map_option (\<lambda>b. blocks(rb := b)) (moveIntoOrder ir (dominance blocks) False ?R (blocks rb)))"
        using unfold_run False Some by (simp add: m_def [symmetric])
      have "(\<forall>b. b \<noteq> rb \<longrightarrow> fs_blocks s' b = blocks b) \<and>
        (in_order (?B rb) ?R \<and> fs_blocks s' rb = ?B rb \<or> moveIntoOrder ir (dominance blocks) False ?R (?B rb) = Some (fs_blocks s' rb))"
      proof (cases "in_order (blocks rb) ?R")
        case True
        then show ?thesis using r w(1) by simp
      next
        case False
        then obtain b where "moveIntoOrder ir (dominance blocks) False ?R (blocks rb) = Some b"
          "s' = s\<lparr>fs_blocks := blocks(rb := b), num_reordered := Suc (num_reordered s)\<rparr>"
          using r by (cases "moveIntoOrder ir (dominance blocks) False ?R (blocks rb)") auto
        then show ?thesis using w(1) by simp
      qed
      then show ?thesis using that(2) w by blast
    qed
  qed
  then show ?thesis
  proof cases
    case 2
    have "filter (\<lambda>q. q \<in> set ?W) (blocks wb) = ?W"
      using 2(3) in_order_filter [OF _ W(1,3)] moveIntoOrder_moved(1) [OF _ W] dist by (auto simp: moved_def)
    moreover have "fs_blocks s' wb = blocks wb" using 2(4) same(2) by blast
    moreover have "filter (\<lambda>q. q \<in> set ?R) (fs_blocks s' rb) = ?R"
      using 2(5) in_order_filter [OF _ R(1,3)] moveIntoOrder_moved(1) [OF _ R] dist by (auto simp: moved_def)
    ultimately have "ordered_by_use ir ?B accesses wb rb (fs_blocks s') keyed"
      unfolding ordered_by_use_def sets using perm sorted by simp
    moreover have "\<forall>b. b \<noteq> wb \<longrightarrow> b \<noteq> rb \<longrightarrow> fs_blocks s' b = ?B b" using 2(2,4) by simp
    moreover have "fs_blocks s' wb = ?B wb \<or> moveIntoOrder ir (dominance ?B) True ?W (?B wb) = Some (fs_blocks s' wb)"
      using 2(3) \<open>fs_blocks s' wb = blocks wb\<close> by auto
    moreover have "fs_blocks s' rb = ?B rb \<or> (\<exists>blocks. blocks rb = ?B rb \<and>
          moveIntoOrder ir (dominance blocks) False ?R (?B rb) = Some (fs_blocks s' rb))"
      using 2(1,5) by blast
    ultimately show ?thesis by blast
  qed simp
qed

section \<open>All FIFOs of a pipeline\<close>

text \<open>The accesses of the slots with given ends, in the order of the slots.\<close>

definition slot_access_of :: "fifo_ir \<Rightarrow> ends \<Rightarrow> nat \<Rightarrow> slot_access list" where
  "slot_access_of ir e slot =
     (if slot_ends ir slot = Some e then (case getSlotAccess ir slot of Some a \<Rightarrow> [a] | None \<Rightarrow> []) else [])"

definition fifo_accesses :: "fifo_ir \<Rightarrow> nat list \<Rightarrow> ends \<Rightarrow> slot_access list" where
  "fifo_accesses ir slots e = concat (map (slot_access_of ir e) slots)"

lemma add_access_map: "map_of (add_access e a fifos) e' =
  (if e' = e then Some ((case map_of fifos e of Some as \<Rightarrow> as | None \<Rightarrow> []) @ [a]) else map_of fifos e')"
  by (induction e a fifos rule: add_access.induct) auto

lemma add_access_keys: "distinct (map fst fifos) \<Longrightarrow> distinct (map fst (add_access e a fifos)) \<and>
  fst ` set (add_access e a fifos) = insert e (fst ` set fifos)"
  by (induction e a fifos rule: add_access.induct) auto

lemma group_slot_step:
  assumes "distinct (map fst F)" and "map_of F e = (if A = [] then None else Some A)"
  shows "distinct (map fst (group_slot ir slot F)) \<and>
    map_of (group_slot ir slot F) e = (if A @ slot_access_of ir e slot = [] then None else Some (A @ slot_access_of ir e slot))"
proof (cases "slot_ends ir slot")
  case None
  then show ?thesis using assms by (simp add: group_slot_def slot_access_of_def)
next
  case (Some e')
  note ends = Some
  show ?thesis
  proof (cases "getSlotAccess ir slot")
    case None
    then show ?thesis using assms ends by (simp add: group_slot_def slot_access_of_def)
  next
    case (Some a)
    have run: "group_slot ir slot F = add_access e' a F" using ends Some by (simp add: group_slot_def)
    show ?thesis using assms ends Some add_access_keys [OF assms(1), of e' a] unfolding run add_access_map
      by (cases "e = e'") (simp_all add: slot_access_of_def)
  qed
qed

lemma group_slots:
  "distinct (map fst (fold (group_slot ir) slots [])) \<and>
   map_of (fold (group_slot ir) slots []) e = (if fifo_accesses ir slots e = [] then None else Some (fifo_accesses ir slots e))"
proof (induction slots rule: rev_induct)
  case (snoc slot slots)
  have "fifo_accesses ir (slots @ [slot]) e = fifo_accesses ir slots e @ slot_access_of ir e slot"
    by (simp add: fifo_accesses_def)
  then show ?case using group_slot_step [OF conjunct1 [OF snoc] conjunct2 [OF snoc], of ir slot] by simp
qed (simp add: fifo_accesses_def)

lemma groups_are_fifos:
  assumes "g \<in> set (fold (group_slot ir) slots [])"
  shows "snd g = fifo_accesses ir slots (fst g)" "snd g \<noteq> []"
proof -
  have "map_of (fold (group_slot ir) slots []) (fst g) = Some (snd g)"
    using assms conjunct1 [OF group_slots [of ir slots]] by (intro map_of_is_SomeI) simp_all
  then show "snd g = fifo_accesses ir slots (fst g)" "snd g \<noteq> []"
    using group_slots [of ir slots "fst g"] by (auto split: if_splits)
qed

text \<open>Every write and read takes one slot, no transfer goes from slot to slot, and the operations are where they belong.\<close>

definition slots_ok :: "fifo_ir \<Rightarrow> nat list \<Rightarrow> blocks \<Rightarrow> bool" where
  "slots_ok ir slots blocks \<longleftrightarrow> distinct slots \<and>
     (\<forall>q. access_kind_of ir q \<in> {FifoWrite, FifoRead} \<longrightarrow>
        (\<forall>s\<in>set slots. \<forall>s'\<in>set slots. q \<in> set (slot_uses ir s) \<longrightarrow> q \<in> set (slot_uses ir s') \<longrightarrow> s = s')) \<and>
     (\<forall>q src dest. access_kind_of ir q = FifoTransfer src dest \<longrightarrow> slot_ends ir src = None \<or> slot_ends ir dest = None) \<and>
     (\<forall>b. distinct (blocks b)) \<and>
     (\<forall>s\<in>set slots. \<forall>q\<in>set (slot_uses ir s). q \<in> set (blocks (block_of ir q)))"

definition writes_slot :: "fifo_ir \<Rightarrow> nat \<Rightarrow> nat \<Rightarrow> bool" where
  "writes_slot ir q slot \<longleftrightarrow> q \<in> set (slot_uses ir slot) \<and>
     (access_kind_of ir q = FifoWrite \<or> (\<exists>src. access_kind_of ir q = FifoTransfer src slot))"

definition reads_slot :: "fifo_ir \<Rightarrow> nat \<Rightarrow> nat \<Rightarrow> bool" where
  "reads_slot ir q slot \<longleftrightarrow> q \<in> set (slot_uses ir slot) \<and>
     (access_kind_of ir q = FifoRead \<or> (\<exists>dest. access_kind_of ir q = FifoTransfer slot dest))"

lemma access_step_result:
  "access_step ir slot u acc = Some acc' \<Longrightarrow> u \<in> set (slot_uses ir slot) \<Longrightarrow>
    (\<forall>w. fst acc = Some w \<longrightarrow> writes_slot ir w slot) \<and> (\<forall>r. snd acc = Some r \<longrightarrow> reads_slot ir r slot) \<Longrightarrow>
    (\<forall>w. fst acc' = Some w \<longrightarrow> writes_slot ir w slot) \<and> (\<forall>r. snd acc' = Some r \<longrightarrow> reads_slot ir r slot)"
  by (auto simp: access_step_def writes_slot_def reads_slot_def Let_def split: access_kind.splits if_splits)

lemma getSlotAccess_result:
  assumes "getSlotAccess ir slot = Some a"
  shows "sa_slot a = slot \<and> writes_slot ir (sa_writer a) slot \<and> reads_slot ir (sa_reader a) slot"
proof -
  obtain w r where run: "foldM (access_step ir slot) (slot_uses ir slot) (None, None) = Some (Some w, Some r)"
    "a = \<lparr>sa_slot = slot, sa_writer = w, sa_reader = r\<rparr>"
    using assms by (auto simp: getSlotAccess_def split: option.splits)
  have "(\<forall>w'. fst (Some w, Some r) = Some w' \<longrightarrow> writes_slot ir w' slot) \<and> (\<forall>r'. snd (Some w, Some r) = Some r' \<longrightarrow> reads_slot ir r' slot)"
    by (rule foldM_invariant [OF run(1), where P = "\<lambda>acc. (\<forall>w. fst acc = Some w \<longrightarrow> writes_slot ir w slot) \<and> (\<forall>r. snd acc = Some r \<longrightarrow> reads_slot ir r slot)"])
      (use access_step_result in \<open>simp, blast\<close>)
  then show ?thesis using run(2) by simp
qed

lemma in_fifo_accesses:
  "a \<in> set (fifo_accesses ir slots e) \<longleftrightarrow> (\<exists>slot\<in>set slots. slot_ends ir slot = Some e \<and> getSlotAccess ir slot = Some a)"
  by (auto simp: fifo_accesses_def slot_access_of_def split: option.splits if_splits) force

lemma writer_slot_unique:
  assumes "slots_ok ir slots blocks" and "s \<in> set slots" and "s' \<in> set slots" and "writes_slot ir q s" and "writes_slot ir q s'"
  shows "s = s'"
  using assms unfolding slots_ok_def writes_slot_def by (metis access_kind.inject access_kind.distinct(3) insert_iff)

lemma reader_slot_unique:
  assumes "slots_ok ir slots blocks" and "s \<in> set slots" and "s' \<in> set slots" and "reads_slot ir q s" and "reads_slot ir q s'"
  shows "s = s'"
  using assms unfolding slots_ok_def reads_slot_def by (metis access_kind.inject access_kind.distinct(7) insert_iff)

lemma writer_no_reader:
  assumes "slots_ok ir slots blocks" and "slot_ends ir s \<noteq> None" and "slot_ends ir s' \<noteq> None"
    and "writes_slot ir q s" and "reads_slot ir q s'"
  shows False
proof -
  have t: "slot_ends ir src = None \<or> slot_ends ir dest = None" if "access_kind_of ir q = FifoTransfer src dest" for src dest
    using assms(1) that unfolding slots_ok_def by (elim conjE) simp
  show ?thesis using assms(2-5) t unfolding writes_slot_def reads_slot_def by auto
qed

text \<open>The operations of a FIFO.\<close>

definition fifo_ops :: "fifo_ir \<Rightarrow> nat list \<Rightarrow> ends \<Rightarrow> nat set" where
  "fifo_ops ir slots e = sa_writer ` set (fifo_accesses ir slots e) \<union> sa_reader ` set (fifo_accesses ir slots e)"

lemma in_fifo_ops:
  assumes "q \<in> fifo_ops ir slots e"
  shows "\<exists>s\<in>set slots. slot_ends ir s = Some e \<and> (writes_slot ir q s \<or> reads_slot ir q s)"
proof -
  obtain a where a: "a \<in> set (fifo_accesses ir slots e)" "q = sa_writer a \<or> q = sa_reader a" using assms by (auto simp: fifo_ops_def)
  then obtain s where "s \<in> set slots" "slot_ends ir s = Some e" "getSlotAccess ir s = Some a" by (auto simp: in_fifo_accesses)
  then show ?thesis using getSlotAccess_result [of ir s a] a(2) by blast
qed

lemma fifo_ops_disjoint:
  assumes ok: "slots_ok ir slots blocks" and "e \<noteq> e'"
  shows "fifo_ops ir slots e \<inter> fifo_ops ir slots e' = {}"
proof (rule ccontr)
  assume "fifo_ops ir slots e \<inter> fifo_ops ir slots e' \<noteq> {}"
  then obtain q where q: "q \<in> fifo_ops ir slots e" "q \<in> fifo_ops ir slots e'" by blast
  obtain s where s: "s \<in> set slots" "slot_ends ir s = Some e" "writes_slot ir q s \<or> reads_slot ir q s"
    using in_fifo_ops [OF q(1)] by blast
  obtain s' where s': "s' \<in> set slots" "slot_ends ir s' = Some e'" "writes_slot ir q s' \<or> reads_slot ir q s'"
    using in_fifo_ops [OF q(2)] by blast
  have "s = s'"
    using s s' writer_slot_unique [OF ok s(1) s'(1), of q] reader_slot_unique [OF ok s(1) s'(1), of q]
      writer_no_reader [OF ok, of s s' q] writer_no_reader [OF ok, of s' s q] by auto
  then show False using s(2) s'(2) assms(2) by simp
qed

lemma fifo_accesses_ok:
  assumes ok: "slots_ok ir slots blocks0" and ne: "fifo_accesses ir slots e \<noteq> []"
    and blocks: "\<forall>b. set (blocks b) = set (blocks0 b)"
  shows "accesses_ok ir blocks (fifo_accesses ir slots e)"
proof -
  have uniq: "distinct (map f (fifo_accesses ir slots e))"
    if f: "\<And>s s' a a'. s \<in> set slots \<Longrightarrow> s' \<in> set slots \<Longrightarrow> getSlotAccess ir s = Some a \<Longrightarrow> getSlotAccess ir s' = Some a' \<Longrightarrow> f a = f a' \<Longrightarrow> s = s'"
    for f :: "slot_access \<Rightarrow> nat"
  proof -
    have "distinct ss \<Longrightarrow> set ss \<subseteq> set slots \<Longrightarrow> distinct (map f (fifo_accesses ir ss e))" for ss
    proof (induction ss)
      case (Cons s ss)
      show ?case
      proof (cases "slot_access_of ir e s")
        case Nil
        then show ?thesis using Cons by (simp add: fifo_accesses_def)
      next
        case (Cons a as)
        then have a: "getSlotAccess ir s = Some a" "as = []" by (auto simp: slot_access_of_def split: option.splits if_splits)
        have "f a \<notin> f ` set (fifo_accesses ir ss e)"
        proof
          assume "f a \<in> f ` set (fifo_accesses ir ss e)"
          then obtain a' s' where "f a = f a'" "s' \<in> set ss" "getSlotAccess ir s' = Some a'" by (auto simp: in_fifo_accesses)
          then show False using f [of s s' a a'] a(1) Cons.prems by auto
        qed
        then show ?thesis using Cons.IH Cons.prems Cons a(2) by (simp add: fifo_accesses_def)
      qed
    qed (simp add: fifo_accesses_def)
    then show ?thesis using ok by (simp add: slots_ok_def)
  qed
  have "distinct (map sa_writer (fifo_accesses ir slots e))" "distinct (map sa_reader (fifo_accesses ir slots e))"
    by (rule uniq, use getSlotAccess_result writer_slot_unique [OF ok] in metis,
        rule uniq, use getSlotAccess_result reader_slot_unique [OF ok] in metis)
  moreover have "sa_writer a \<in> set (blocks (block_of ir (sa_writer a))) \<and> sa_reader a \<in> set (blocks (block_of ir (sa_reader a)))"
    if "a \<in> set (fifo_accesses ir slots e)" for a
  proof -
    obtain s where s: "s \<in> set slots" "getSlotAccess ir s = Some a" using \<open>a \<in> _\<close> by (auto simp: in_fifo_accesses)
    then have "sa_writer a \<in> set (slot_uses ir s)" "sa_reader a \<in> set (slot_uses ir s)"
      using getSlotAccess_result [OF s(2)] by (auto simp: writes_slot_def reads_slot_def)
    then show ?thesis using ok s(1) blocks by (simp add: slots_ok_def)
  qed
  ultimately show ?thesis using ne by (simp add: accesses_ok_def)
qed

section \<open>What ordering keeps\<close>

text \<open>Operations outside a set keep their relative order.\<close>

definition order_kept :: "nat set \<Rightarrow> nat list \<Rightarrow> nat list \<Rightarrow> bool" where
  "order_kept X body body' \<longleftrightarrow> set body' = set body \<and> distinct body' \<and>
     (\<forall>x\<in>set body - X. \<forall>y\<in>set body - X. before_in body' x y = before_in body x y)"

lemma order_kept_refl: "distinct body \<Longrightarrow> order_kept X body body"
  by (simp add: order_kept_def)

lemma moved_order_kept:
  assumes "moved ir keep ops body body'" and "set ops \<subseteq> X"
  shows "order_kept X body body'"
proof -
  have m: "set body' = set body" "distinct body'" "filter (\<lambda>q. q \<notin> set ops) body' = filter (\<lambda>q. q \<notin> set ops) body"
    using assms(1) unfolding moved_def by blast+
  have "before_in body' x y = before_in body x y" if "x \<in> set body - X" "y \<in> set body - X" for x y
    using before_in_filter [of x body' y "\<lambda>q. q \<notin> set ops"] before_in_filter [of x body y "\<lambda>q. q \<notin> set ops"] m that assms(2)
    by (metis DiffD1 DiffD2 subsetD)
  then show ?thesis using m by (simp add: order_kept_def)
qed

text \<open>Definitions precede their uses within a block.\<close>

definition defs_first :: "fifo_ir \<Rightarrow> (nat \<Rightarrow> nat option) \<Rightarrow> nat list \<Rightarrow> bool" where
  "defs_first ir def_op body \<longleftrightarrow> (\<forall>q\<in>set body. \<forall>v\<in>set (operand_vals ir q). \<forall>d.
     def_op v = Some d \<longrightarrow> d \<in> set body \<longrightarrow> before_in body d q)"

definition dominance_ok :: "fifo_ir \<Rightarrow> (nat \<Rightarrow> nat option) \<Rightarrow> dominance \<Rightarrow> bool" where
  "dominance_ok ir def_op dominance \<longleftrightarrow> (\<forall>blocks v q d. dominance blocks v q \<longrightarrow> def_op v = Some d \<longrightarrow>
     d \<in> set (blocks (block_of ir q)) \<longrightarrow> before_in (blocks (block_of ir q)) d q)"

lemma moved_defs_first:
  assumes m: "moved ir keep ops body body'" and dist: "distinct body" and ops: "ops \<noteq> []" "set ops \<subseteq> set body"
    and dom: "\<forall>q\<in>set ops. \<forall>v\<in>set (operand_vals ir q). \<forall>d. def_op v = Some d \<longrightarrow> d \<in> set body \<longrightarrow> before_in body d (first_of body ops)"
    and defs: "defs_first ir def_op body"
  shows "defs_first ir def_op body'"
  unfolding defs_first_def
proof (intro ballI allI impI)
  fix q v d assume h: "q \<in> set body'" "v \<in> set (operand_vals ir q)" "def_op v = Some d" "d \<in> set body'"
  have set: "set body' = set body" and dist': "distinct body'" using m by (auto simp: moved_def)
  have old: "before_in body d q" using defs h set unfolding defs_first_def by blast
  have new: "before_in body' x y \<longleftrightarrow> before_in body x (first_of body ops)" "before_in body x (first_of body ops) \<Longrightarrow> before_in body x y"
    if "x \<in> set body - set ops" "y \<in> set ops" for x y using m that unfolding moved_def by blast+
  consider "q \<in> set ops" "d \<in> set ops" | "q \<in> set ops" "d \<notin> set ops" | "q \<notin> set ops" "d \<in> set ops" | "q \<notin> set ops" "d \<notin> set ops" by blast
  then show "before_in body' d q"
  proof cases
    case 1
    then have "before_in body d (first_of body ops)" using dom h set by blast
    then show ?thesis using first_of_result(2) [OF ops(1)] 1(2) by blast
  next
    case 2
    then have "before_in body d (first_of body ops)" using dom h set by blast
    then show ?thesis using new(1) [of d q] 2 h(4) set by blast
  next
    case 3
    have "\<not> before_in body' q d"
      using new [of q d] 3 h(1) set old by (auto simp: before_in_def)
    then show ?thesis using before_in_total [OF dist', of d q] h(1,4) 3 by auto
  next
    case 4
    then show ?thesis using moved_order_kept [OF m order_refl] old h(1,4) set by (simp add: order_kept_def)
  qed
qed

lemma orderFifo_keeps:
  assumes ok: "accesses_ok ir (fs_blocks s) accesses" and dist: "\<forall>b. distinct (fs_blocks s b)"
    and known: "hasKnownProtocol ir accesses channel = Some True" and run: "orderFifo ir dominance accesses s = Some s'"
  defines "X \<equiv> sa_writer ` set accesses \<union> sa_reader ` set accesses"
  shows "\<forall>b. order_kept X (fs_blocks s b) (fs_blocks s' b)"
    and "in_step ir (fs_blocks s) accesses \<Longrightarrow> in_step ir (fs_blocks s') accesses"
    and "\<forall>b. \<forall>x\<in>set (fs_blocks s b). x \<notin> X \<longrightarrow> \<not> memory_effect_free ir x \<longrightarrow> (\<forall>q\<in>sa_writer ` set accesses. q \<in> set (fs_blocks s b) \<longrightarrow>
      q \<notin> sa_reader ` set accesses \<longrightarrow> b = block_of ir q \<longrightarrow> before_in (fs_blocks s' b) x q = before_in (fs_blocks s b) x q)"
    and "dominance_ok ir def_op dominance \<Longrightarrow> \<forall>b. defs_first ir def_op (fs_blocks s b) \<Longrightarrow> \<forall>b. defs_first ir def_op (fs_blocks s' b)"
proof -
  let ?wb = "block_of ir (sa_writer (hd accesses))" and ?rb = "block_of ir (sa_reader (hd accesses))" and ?B = "fs_blocks s"
  note same = hasKnownProtocol_True [OF known]
  note result = orderFifo_result [OF ok dist known run]
  have conj: "(\<forall>b. order_kept X (?B b) (fs_blocks s' b)) \<and> (in_step ir ?B accesses \<longrightarrow> in_step ir (fs_blocks s') accesses) \<and>
    (\<forall>b. \<forall>x\<in>set (?B b). x \<notin> X \<longrightarrow> \<not> memory_effect_free ir x \<longrightarrow> (\<forall>q\<in>sa_writer ` set accesses. q \<in> set (?B b) \<longrightarrow>
      q \<notin> sa_reader ` set accesses \<longrightarrow> b = block_of ir q \<longrightarrow> before_in (fs_blocks s' b) x q = before_in (?B b) x q)) \<and>
    (dominance_ok ir def_op dominance \<longrightarrow> (\<forall>b. defs_first ir def_op (?B b)) \<longrightarrow> (\<forall>b. defs_first ir def_op (fs_blocks s' b)))"
    (is "?goal s'")
  proof (cases "s' = s")
    case True
    then show ?thesis using dist by (simp add: order_kept_refl)
  next
    case False
    then obtain keyed where k: "ordered_by_use ir ?B accesses ?wb ?rb (fs_blocks s') keyed"
      "\<forall>b. b \<noteq> ?wb \<longrightarrow> b \<noteq> ?rb \<longrightarrow> fs_blocks s' b = ?B b"
      "fs_blocks s' ?wb = ?B ?wb \<or> moveIntoOrder ir (dominance ?B) True (map sa_writer keyed) (?B ?wb) = Some (fs_blocks s' ?wb)"
      "fs_blocks s' ?rb = ?B ?rb \<or> (\<exists>blocks. blocks ?rb = ?B ?rb \<and>
          moveIntoOrder ir (dominance blocks) False (map sa_reader keyed) (?B ?rb) = Some (fs_blocks s' ?rb))"
      using result by blast
    have perm: "mset keyed = mset accesses" using k(1) by (simp add: ordered_by_use_def)
    then have set: "set keyed = set accesses" by (metis set_mset_mset)
    note W = keyed_ops(1-3) [OF ok perm same(1)] and R = keyed_ops(4-6) [OF ok perm same(1)]
    have sub: "set (map sa_writer keyed) \<subseteq> X" "set (map sa_reader keyed) \<subseteq> X" using set by (auto simp: X_def)
    have dw: "distinct (?B ?wb)" "distinct (?B ?rb)" using dist by simp_all
    have mw: "moved ir True (map sa_writer keyed) (?B ?wb) (fs_blocks s' ?wb) \<and>
        (\<forall>q\<in>set (map sa_writer keyed). \<forall>v\<in>set (operand_vals ir q). dominance ?B v (first_of (?B ?wb) (map sa_writer keyed)))"
      if "fs_blocks s' ?wb \<noteq> ?B ?wb"
    proof -
      have run: "moveIntoOrder ir (dominance ?B) True (map sa_writer keyed) (?B ?wb) = Some (fs_blocks s' ?wb)" using k(3) that by simp
      from moveIntoOrder_moved [OF dw(1) W run] show ?thesis by (rule conjI)
    qed
    have mr: "\<exists>blocks. blocks ?rb = ?B ?rb \<and> moved ir False (map sa_reader keyed) (?B ?rb) (fs_blocks s' ?rb) \<and>
        (\<forall>q\<in>set (map sa_reader keyed). \<forall>v\<in>set (operand_vals ir q). dominance blocks v (first_of (?B ?rb) (map sa_reader keyed)))"
      if ne: "fs_blocks s' ?rb \<noteq> ?B ?rb"
    proof -
      obtain blocks where b: "blocks ?rb = ?B ?rb"
        "moveIntoOrder ir (dominance blocks) False (map sa_reader keyed) (?B ?rb) = Some (fs_blocks s' ?rb)"
        using k(4) ne by (elim disjE exE conjE) (simp, rule that)
      from moveIntoOrder_moved [OF dw(2) R b(2)] b(1) show ?thesis by (intro exI [of _ blocks] conjI)
    qed
    have kept: "order_kept X (?B b) (fs_blocks s' b)" for b
    proof (cases "fs_blocks s' b = ?B b")
      case True
      then show ?thesis using dist by (simp add: order_kept_refl)
    next
      case False
      then consider "b = ?wb" | "b = ?rb" using k(2) by blast
      then show ?thesis
      proof cases
        case 1
        then show ?thesis using mw False moved_order_kept [OF _ sub(1)] by blast
      next
        case 2
        then show ?thesis using mr False moved_order_kept [OF _ sub(2)] by blast
      qed
    qed
    have d': "distinct (fs_blocks s' b)" for b using kept [of b] by (simp add: order_kept_def)
    have step: "in_step ir (fs_blocks s') accesses"
      unfolding in_step_def
    proof (intro ballI impI)
      fix a b assume ab: "a \<in> set accesses" "b \<in> set accesses"
      have f: "filter (\<lambda>q. q \<in> set (map sa_writer keyed)) (fs_blocks s' ?wb) = map sa_writer keyed"
        "filter (\<lambda>q. q \<in> set (map sa_reader keyed)) (fs_blocks s' ?rb) = map sa_reader keyed"
        using k(1) set by (simp_all add: ordered_by_use_def)
      have "before_in (fs_blocks s' ?wb) (sa_writer a) (sa_writer b) = before_in keyed a b"
        "before_in (fs_blocks s' ?rb) (sa_reader a) (sa_reader b) = before_in keyed a b"
        using before_in_ordered [OF d' f(1) W(1)] before_in_ordered [OF d' f(2) R(1)] ab set by blast+
      then show "before_in (fs_blocks s' (block_of ir (sa_writer a))) (sa_writer a) (sa_writer b) =
          before_in (fs_blocks s' (block_of ir (sa_reader a))) (sa_reader a) (sa_reader b)"
        using same(1) ab by simp
    qed
    have effects: "before_in (fs_blocks s' b) x q = before_in (?B b) x q"
      if h: "x \<in> set (?B b)" "x \<notin> X" "\<not> memory_effect_free ir x" "q \<in> sa_writer ` set accesses" "b = block_of ir q" for b x q
    proof -
      have b: "b = ?wb" using h(4,5) same(1) by auto
      show ?thesis
      proof (cases "fs_blocks s' ?wb = ?B ?wb")
        case False
        have "x \<in> set (?B ?wb) - set (map sa_writer keyed)" "q \<in> set (map sa_writer keyed)" using h b sub(1) set by auto
        then show ?thesis using mw [OF False] h(3) unfolding moved_def b by blast
      qed (use b in simp)
    qed
    have defs: "defs_first ir def_op (fs_blocks s' b)" if dom: "dominance_ok ir def_op dominance" and d: "\<forall>b. defs_first ir def_op (?B b)" for b
    proof (cases "fs_blocks s' b = ?B b")
      case True
      then show ?thesis using d by simp
    next
      case False
      then consider "b = ?wb" | "b = ?rb" using k(2) by blast
      then show ?thesis
      proof cases
        case 1
        have fb: "block_of ir (first_of (?B ?wb) (map sa_writer keyed)) = ?wb"
          using first_of_result(1) [OF W(2), of "?B ?wb"] same(1) set by auto
        have "\<forall>q\<in>set (map sa_writer keyed). \<forall>v\<in>set (operand_vals ir q). \<forall>d. def_op v = Some d \<longrightarrow> d \<in> set (?B ?wb) \<longrightarrow>
            before_in (?B ?wb) d (first_of (?B ?wb) (map sa_writer keyed))"
          using mw False 1 dom fb unfolding dominance_ok_def by metis
        then show ?thesis using moved_defs_first [OF _ _ W(2,3)] mw False 1 dist d by blast
      next
        case 2
        have fb: "block_of ir (first_of (?B ?rb) (map sa_reader keyed)) = ?rb"
          using first_of_result(1) [OF R(2), of "?B ?rb"] same(1) set by auto
        obtain blocks where bl: "blocks ?rb = ?B ?rb" "moved ir False (map sa_reader keyed) (?B ?rb) (fs_blocks s' ?rb)"
          "\<forall>q\<in>set (map sa_reader keyed). \<forall>v\<in>set (operand_vals ir q). dominance blocks v (first_of (?B ?rb) (map sa_reader keyed))"
          using mr False 2 by blast
        have "\<forall>q\<in>set (map sa_reader keyed). \<forall>v\<in>set (operand_vals ir q). \<forall>d. def_op v = Some d \<longrightarrow> d \<in> set (?B ?rb) \<longrightarrow>
            before_in (?B ?rb) d (first_of (?B ?rb) (map sa_reader keyed))"
          using bl(1,3) dom fb unfolding dominance_ok_def by metis
        then show ?thesis using moved_defs_first [OF bl(2) _ R(2,3)] 2 dist d by blast
      qed
    qed
    show ?thesis using kept step effects defs by blast
  qed
  show "\<forall>b. order_kept X (fs_blocks s b) (fs_blocks s' b)"
    and "in_step ir (fs_blocks s) accesses \<Longrightarrow> in_step ir (fs_blocks s') accesses"
    and "\<forall>b. \<forall>x\<in>set (fs_blocks s b). x \<notin> X \<longrightarrow> \<not> memory_effect_free ir x \<longrightarrow> (\<forall>q\<in>sa_writer ` set accesses. q \<in> set (fs_blocks s b) \<longrightarrow>
      q \<notin> sa_reader ` set accesses \<longrightarrow> b = block_of ir q \<longrightarrow> before_in (fs_blocks s' b) x q = before_in (fs_blocks s b) x q)"
    and "dominance_ok ir def_op dominance \<Longrightarrow> \<forall>b. defs_first ir def_op (fs_blocks s b) \<Longrightarrow> \<forall>b. defs_first ir def_op (fs_blocks s' b)"
    using conj by blast+
qed

section \<open>The pass on one pipeline\<close>

lemma order_kept_mono: "order_kept X body body' \<Longrightarrow> X \<subseteq> Y \<Longrightarrow> order_kept Y body body'"
  unfolding order_kept_def by blast

lemma order_kept_trans: "order_kept X a b \<Longrightarrow> order_kept X b c \<Longrightarrow> order_kept X a c"
  unfolding order_kept_def by auto

definition slot_ops :: "fifo_ir \<Rightarrow> nat list \<Rightarrow> nat set" where
  "slot_ops ir slots = (\<Union>e. fifo_ops ir slots e)"

definition slot_writers :: "fifo_ir \<Rightarrow> nat list \<Rightarrow> nat set" where
  "slot_writers ir slots = (\<Union>e. sa_writer ` set (fifo_accesses ir slots e))"

text \<open>What holds after each FIFO, relative to the blocks before the pass.\<close>

definition pipeline_inv ::
  "fifo_ir \<Rightarrow> dominance \<Rightarrow> (nat \<Rightarrow> nat option) \<Rightarrow> nat list \<Rightarrow> blocks \<Rightarrow> blocks \<Rightarrow> bool" where
  "pipeline_inv ir dominance def_op slots B T \<longleftrightarrow>
     (\<forall>b. order_kept (slot_ops ir slots) (B b) (T b)) \<and>
     (\<forall>e. in_step ir B (fifo_accesses ir slots e) \<longrightarrow> in_step ir T (fifo_accesses ir slots e)) \<and>
     (\<forall>b. \<forall>x\<in>set (B b). x \<notin> slot_ops ir slots \<longrightarrow> \<not> memory_effect_free ir x \<longrightarrow>
        (\<forall>q\<in>slot_writers ir slots. b = block_of ir q \<longrightarrow> before_in (T b) x q = before_in (B b) x q)) \<and>
     (dominance_ok ir def_op dominance \<longrightarrow> (\<forall>b. defs_first ir def_op (B b)) \<longrightarrow> (\<forall>b. defs_first ir def_op (T b)))"

lemma in_step_kept:
  assumes kept: "\<forall>b. order_kept X (T b) (T' b)" and disj: "\<forall>a\<in>set accesses. sa_writer a \<notin> X \<and> sa_reader a \<notin> X"
    and mem: "\<forall>a\<in>set accesses. sa_writer a \<in> set (T (block_of ir (sa_writer a))) \<and> sa_reader a \<in> set (T (block_of ir (sa_reader a)))"
    and step: "in_step ir T accesses"
  shows "in_step ir T' accesses"
  unfolding in_step_def
proof (intro ballI impI)
  fix a b assume ab: "a \<in> set accesses" "b \<in> set accesses" and w: "block_of ir (sa_writer a) = block_of ir (sa_writer b)"
    and r: "block_of ir (sa_reader a) = block_of ir (sa_reader b)"
  have k: "before_in (T' c) x y = before_in (T c) x y" if "x \<in> set (T c)" "y \<in> set (T c)" "x \<notin> X" "y \<notin> X" for c x y
    using kept that unfolding order_kept_def by blast
  have "before_in (T' (block_of ir (sa_writer a))) (sa_writer a) (sa_writer b) = before_in (T (block_of ir (sa_writer a))) (sa_writer a) (sa_writer b)"
    using k mem disj ab w by metis
  moreover have "before_in (T' (block_of ir (sa_reader a))) (sa_reader a) (sa_reader b) = before_in (T (block_of ir (sa_reader a))) (sa_reader a) (sa_reader b)"
    using k mem disj ab r by metis
  moreover have "before_in (T (block_of ir (sa_writer a))) (sa_writer a) (sa_writer b) = before_in (T (block_of ir (sa_reader a))) (sa_reader a) (sa_reader b)"
    using step ab w r unfolding in_step_def by blast
  ultimately show "before_in (T' (block_of ir (sa_writer a))) (sa_writer a) (sa_writer b) =
      before_in (T' (block_of ir (sa_reader a))) (sa_reader a) (sa_reader b)" by simp
qed

lemma order_group_keeps:
  assumes ok: "slots_ok ir slots B" and g: "g \<in> set (fold (group_slot ir) slots [])"
    and inv: "pipeline_inv ir dominance def_op slots B (fs_blocks s)" and run: "order_group ir dominance channels g s = Some s'"
  shows "pipeline_inv ir dominance def_op slots B (fs_blocks s')"
proof (cases "fs_blocks s' = fs_blocks s")
  case True
  then show ?thesis using inv by simp
next
  case False
  let ?T = "fs_blocks s" and ?T' = "fs_blocks s'" and ?e = "fst g"
  let ?acc = "fifo_accesses ir slots ?e"
  let ?X = "sa_writer ` set ?acc \<union> sa_reader ` set ?acc"
  note ga = groups_are_fifos [OF g]
  have known: "hasKnownProtocol ir ?acc (channels ?e) = Some True" and run': "orderFifo ir dominance ?acc s = Some s'"
    using run False unfolding order_group_def ga(1) by (auto split: if_splits option.splits bool.splits)
  have i: "\<forall>b. order_kept (slot_ops ir slots) (B b) (?T b)"
    "\<And>e. in_step ir B (fifo_accesses ir slots e) \<Longrightarrow> in_step ir ?T (fifo_accesses ir slots e)"
    "\<And>b x q. x \<in> set (B b) \<Longrightarrow> x \<notin> slot_ops ir slots \<Longrightarrow> \<not> memory_effect_free ir x \<Longrightarrow> q \<in> slot_writers ir slots \<Longrightarrow>
       b = block_of ir q \<Longrightarrow> before_in (?T b) x q = before_in (B b) x q"
    "dominance_ok ir def_op dominance \<Longrightarrow> \<forall>b. defs_first ir def_op (B b) \<Longrightarrow> \<forall>b. defs_first ir def_op (?T b)"
    using inv unfolding pipeline_inv_def by blast+
  have set: "\<forall>b. set (?T b) = set (B b)" and dist: "\<forall>b. distinct (?T b)" using i(1) by (simp_all add: order_kept_def)
  have ne: "?acc \<noteq> []" using ga by simp
  have aok: "accesses_ok ir ?T ?acc" by (rule fifo_accesses_ok [OF ok ne set])
  note keeps = orderFifo_keeps [OF aok dist known run']
  have X: "?X = fifo_ops ir slots ?e" by (simp add: fifo_ops_def)
  then have sub: "?X \<subseteq> slot_ops ir slots" unfolding slot_ops_def by blast
  have mem: "q \<in> set (?T (block_of ir q))" if "q \<in> fifo_ops ir slots e" for q e
  proof -
    have "fifo_accesses ir slots e \<noteq> []" using that by (auto simp: fifo_ops_def)
    then show ?thesis using fifo_accesses_ok [OF ok _ set, of e] that by (auto simp: accesses_ok_def fifo_ops_def)
  qed
  have kept: "order_kept (slot_ops ir slots) (B b) (?T' b)" for b
    using order_kept_trans [OF spec [OF i(1)] order_kept_mono [OF spec [OF keeps(1)] sub]] .
  have step: "in_step ir ?T' (fifo_accesses ir slots e)" if s: "in_step ir B (fifo_accesses ir slots e)" for e
  proof (cases "e = ?e")
    case True
    then show ?thesis using keeps(2) i(2) s by simp
  next
    case False
    show ?thesis
    proof (rule in_step_kept [OF keeps(1)])
      have "fifo_ops ir slots e \<inter> ?X = {}" using fifo_ops_disjoint [OF ok False] X by simp
      then show "\<forall>a\<in>set (fifo_accesses ir slots e). sa_writer a \<notin> ?X \<and> sa_reader a \<notin> ?X" unfolding fifo_ops_def by blast
      show "\<forall>a\<in>set (fifo_accesses ir slots e). sa_writer a \<in> set (?T (block_of ir (sa_writer a))) \<and> sa_reader a \<in> set (?T (block_of ir (sa_reader a)))"
        using mem [of _ e] unfolding fifo_ops_def by blast
      show "in_step ir ?T (fifo_accesses ir slots e)" using i(2) s .
    qed
  qed
  have effects: "before_in (?T' b) x q = before_in (B b) x q"
    if h: "x \<in> set (B b)" "x \<notin> slot_ops ir slots" "\<not> memory_effect_free ir x" "q \<in> slot_writers ir slots" "b = block_of ir q" for b x q
  proof -
    obtain e where e: "q \<in> sa_writer ` set (fifo_accesses ir slots e)" using h(4) by (auto simp: slot_writers_def)
    then have qe: "q \<in> fifo_ops ir slots e" by (simp add: fifo_ops_def)
    have qT: "q \<in> set (?T b)" using mem [OF qe] h(5) by simp
    have xT: "x \<in> set (?T b)" "x \<notin> ?X" using h(1,2) set sub by auto
    have "before_in (?T' b) x q = before_in (?T b) x q"
    proof (cases "e = ?e")
      case True
      obtain a where a: "a \<in> set (fifo_accesses ir slots e)" "q = sa_writer a" using e by blast
      then obtain sl where sl: "sl \<in> set slots" "slot_ends ir sl = Some e" "getSlotAccess ir sl = Some a" by (auto simp: in_fifo_accesses)
      have "q \<notin> sa_reader ` set ?acc"
      proof
        assume "q \<in> sa_reader ` set ?acc"
        then obtain a' sl' where "sl' \<in> set slots" "slot_ends ir sl' = Some ?e" "getSlotAccess ir sl' = Some a'" "q = sa_reader a'"
          by (auto simp: in_fifo_accesses)
        then show False
          using writer_no_reader [OF ok, of sl sl' q] getSlotAccess_result [of ir sl' a'] getSlotAccess_result [OF sl(3)] sl(2) a(2) by auto
      qed
      then show ?thesis using keeps(3) xT h(3,5) e True qT by blast
    next
      case False
      then have "q \<notin> ?X" using fifo_ops_disjoint [OF ok False] qe X by blast
      then show ?thesis using keeps(1) xT qT unfolding order_kept_def by blast
    qed
    then show ?thesis using i(3) [OF h] by simp
  qed
  have defs: "\<forall>b. defs_first ir def_op (?T' b)" if "dominance_ok ir def_op dominance" "\<forall>b. defs_first ir def_op (B b)"
    using keeps(4) [OF that(1) i(4) [OF that]] .
  show ?thesis unfolding pipeline_inv_def using kept step effects defs by blast
qed

lemma orderPipeline_keeps:
  assumes ok: "slots_ok ir slots (fs_blocks s)" and run: "orderPipeline ir dominance channels (Some slots) s = Some s'"
  shows "pipeline_inv ir dominance def_op slots (fs_blocks s) (fs_blocks s')"
proof -
  have "foldM (order_group ir dominance channels) (fold (group_slot ir) slots []) s = Some s'"
    using run by (simp add: orderPipeline_def)
  then show ?thesis
  proof (rule foldM_invariant [where P = "\<lambda>t. pipeline_inv ir dominance def_op slots (fs_blocks s) (fs_blocks t)"])
    show "pipeline_inv ir dominance def_op slots (fs_blocks s) (fs_blocks s)"
      using ok by (auto simp: pipeline_inv_def slots_ok_def order_kept_refl)
  qed (rule order_group_keeps [OF ok])
qed

text \<open>C8: If the writes and the reads of every FIFO of the pipeline are in the same order before the pass,
  they are after it; operations that are no slot accesses keep their order among each other, and
  no write moves past an operation with memory effects.\<close>

theorem orderPipeline_in_step:
  assumes "slots_ok ir slots (fs_blocks s)" and "orderPipeline ir dominance channels (Some slots) s = Some s'"
    and "\<forall>e. in_step ir (fs_blocks s) (fifo_accesses ir slots e)"
  shows "(\<forall>e. in_step ir (fs_blocks s') (fifo_accesses ir slots e)) \<and>
    (\<forall>b. order_kept (slot_ops ir slots) (fs_blocks s b) (fs_blocks s' b)) \<and>
    (\<forall>q\<in>slot_writers ir slots. \<forall>x\<in>set (fs_blocks s (block_of ir q)) - slot_ops ir slots. \<not> memory_effect_free ir x \<longrightarrow>
       before_in (fs_blocks s' (block_of ir q)) x q = before_in (fs_blocks s (block_of ir q)) x q)"
  using orderPipeline_keeps [OF assms(1,2), of "\<lambda>_. None"] assms(3) unfolding pipeline_inv_def by blast

text \<open>C35: If every definition stands before its uses in its block and the dominance test is that of the
  blocks, reordering keeps every definition before its uses.\<close>

theorem orderPipeline_defs_first:
  assumes "slots_ok ir slots (fs_blocks s)" and "orderPipeline ir dominance channels (Some slots) s = Some s'"
    and "dominance_ok ir def_op dominance" and "\<forall>b. defs_first ir def_op (fs_blocks s b)"
  shows "\<forall>b. defs_first ir def_op (fs_blocks s' b)"
  using orderPipeline_keeps [OF assms(1,2), of def_op] assms(3,4) unfolding pipeline_inv_def by blast

text \<open>The pass returns when reads only take their slots, which are defined above the stages, and the stages form a DAG.\<close>

definition reads_move :: "fifo_ir \<Rightarrow> dominance \<Rightarrow> nat list \<Rightarrow> bool" where
  "reads_move ir dominance slots \<longleftrightarrow>
     (\<forall>e. \<forall>a\<in>set (fifo_accesses ir slots e).
        (\<exists>st. stage_of_block ir (block_of ir (sa_writer a)) = Some st \<and> \<not> isOnCycle ir st) \<and>
        (\<exists>st. stage_of_block ir (block_of ir (sa_reader a)) = Some st \<and> \<not> isOnCycle ir st) \<and>
        (\<forall>blocks v q. v \<in> set (operand_vals ir (sa_reader a)) \<longrightarrow> block_of ir q = block_of ir (sa_reader a) \<longrightarrow> dominance blocks v q))"

lemma orderFifo_returns:
  assumes "accesses_ok ir (fs_blocks s) accesses" and "hasKnownProtocol ir accesses channel = Some True"
    and "\<forall>a\<in>set accesses. \<forall>blocks v q. v \<in> set (operand_vals ir (sa_reader a)) \<longrightarrow> block_of ir q = block_of ir (sa_reader a) \<longrightarrow> dominance blocks v q"
  shows "orderFifo ir dominance accesses s \<noteq> None"
proof (cases "keyed_accesses ir (fs_blocks s) (position (fs_blocks s (block_of ir (sa_reader (hd accesses))))) accesses")
  case None
  then show ?thesis by (simp add: orderFifo_def Let_def)
next
  case (Some entries)
  let ?wb = "block_of ir (sa_writer (hd accesses))" and ?rb = "block_of ir (sa_reader (hd accesses))"
  define keyed where "keyed = map snd (sort_key fst entries)"
  note same = hasKnownProtocol_True [OF assms(2)]
  have perm: "mset keyed = mset accesses" using keyed_accesses_snd [OF Some] by (metis keyed_def mset_map mset_sort)
  then have set: "set keyed = set accesses" by (metis set_mset_mset)
  have move: "moveIntoOrder ir (dominance blocks) False (map sa_reader keyed) body \<noteq> None" for blocks body
  proof -
    have "first_of body (map sa_reader keyed) \<in> set (map sa_reader keyed)"
      using first_of_result(1) [of "map sa_reader keyed"] keyed_ops(5) [OF assms(1) perm same(1)] by blast
    then have "block_of ir (first_of body (map sa_reader keyed)) = ?rb" using same(1) set by auto
    then have "\<forall>q\<in>set (map sa_reader keyed). \<forall>v\<in>set (operand_vals ir q). dominance blocks v (first_of body (map sa_reader keyed))"
      using assms(3) same(1) set by auto
    then show ?thesis by (auto simp: moveIntoOrder_def Let_def list_ex_iff)
  qed
  have moves: "\<exists>y. moveIntoOrder ir (dominance blocks) False (map (sa_reader \<circ> snd) (sort_key fst entries)) body = Some y" for blocks body
    using move [of blocks body] unfolding keyed_def by simp
  show ?thesis
    using Some moves by (auto simp: orderFifo_def Let_def split: option.splits if_splits)
qed

text \<open>C36: When no stage is on a cycle and the operands of every read are defined above its block, no
  assertion of the pass fails.\<close>

theorem orderPipeline_returns:
  assumes ok: "slots_ok ir slots (fs_blocks s)" and "reads_move ir dominance slots"
  shows "\<exists>s'. orderPipeline ir dominance channels (Some slots) s = Some s'"
proof -
  have "\<exists>s'. foldM (order_group ir dominance channels) gs s = Some s' \<and> (\<forall>b. set (fs_blocks s' b) = set (fs_blocks s b)) \<and> (\<forall>b. distinct (fs_blocks s' b))"
    if "set gs \<subseteq> set (fold (group_slot ir) slots [])" for gs
    using that
  proof (induction gs rule: rev_induct)
    case Nil
    then show ?case using ok by (simp add: slots_ok_def)
  next
    case (snoc g gs)
    then obtain t where t: "foldM (order_group ir dominance channels) gs s = Some t" "\<forall>b. set (fs_blocks t b) = set (fs_blocks s b)"
      "\<forall>b. distinct (fs_blocks t b)" by auto
    have g: "g \<in> set (fold (group_slot ir) slots [])" using snoc.prems by simp
    note ga = groups_are_fifos [OF g]
    let ?acc = "fifo_accesses ir slots (fst g)"
    have aok: "accesses_ok ir (fs_blocks t) ?acc" by (rule fifo_accesses_ok [OF ok _ t(2)]) (use ga in simp)
    have hd: "hd ?acc \<in> set ?acc" using ga by simp
    have "order_group ir dominance channels g t \<noteq> None"
    proof (cases "hasKnownProtocol ir ?acc (channels (fst g))")
      case None
      then show ?thesis using assms(2) hd unfolding reads_move_def hasKnownProtocol_def
        by (fastforce simp: Let_def split: if_splits option.splits)
    next
      case (Some b)
      show ?thesis
      proof (cases b)
        case True
        have "orderFifo ir dominance ?acc t \<noteq> None"
          by (rule orderFifo_returns [OF aok, of "channels (fst g)"]) (use Some True in simp, use assms(2) in \<open>unfold reads_move_def, blast\<close>)
        then show ?thesis using Some True by (simp add: order_group_def ga(1))
      next
        case False
        then show ?thesis using Some by (simp add: order_group_def ga(1))
      qed
    qed
    then obtain t' where t': "order_group ir dominance channels g t = Some t'" by blast
    have "\<forall>b. order_kept (slot_ops ir slots) (fs_blocks t b) (fs_blocks t' b)"
    proof -
      have "slots_ok ir slots (fs_blocks t)" using ok t(2,3) unfolding slots_ok_def by simp
      moreover have "pipeline_inv ir dominance (\<lambda>_. None) slots (fs_blocks t) (fs_blocks t)"
        using t(3) by (auto simp: pipeline_inv_def order_kept_refl)
      ultimately have "pipeline_inv ir dominance (\<lambda>_. None) slots (fs_blocks t) (fs_blocks t')"
        using order_group_keeps [OF _ g _ t'] by blast
      then show ?thesis unfolding pipeline_inv_def by (rule conjunct1)
    qed
    then have "order_kept (slot_ops ir slots) (fs_blocks t b) (fs_blocks t' b)" for b by (rule spec)
    then have same: "set (fs_blocks t' b) = set (fs_blocks t b)" "distinct (fs_blocks t' b)" for b
      by (simp_all only: order_kept_def)
    have "\<forall>b. set (fs_blocks t' b) = set (fs_blocks s b)" "\<forall>b. distinct (fs_blocks t' b)"
      by (simp_all only: same t(2) simp_thms)
    moreover have "foldM (order_group ir dominance channels) (gs @ [g]) s = Some t'" by (simp add: foldM_append t(1) t')
    ultimately show ?case by blast
  qed
  then show ?thesis by (simp add: orderPipeline_def) blast
qed

section \<open>Witnesses\<close>

text \<open>
  Slots 1 and 2 between the same ends, written by 10 and 11 in block 0 and read by 20 and 21 in block 1, where 22 uses the
  value of 21 and then 23 that of 20.
\<close>

definition swap_ends :: "attribute \<times> attribute" where
  "swap_ends = (KindAttr ''A'', KindAttr ''B'')"

definition swap_ir :: fifo_ir where
  "swap_ir = \<lparr>slot_uses = (\<lambda>v. if v = 1 then [10, 20] else if v = 2 then [11, 21] else []),
     access_kind_of = (\<lambda>q. if q = 10 \<or> q = 11 then FifoWrite else if q = 20 \<or> q = 21 then FifoRead else OtherUse),
     block_of = (\<lambda>q. if q < 20 then 0 else 1), stage_of_block = (\<lambda>b. Some (100 + b)),
     read_uses = (\<lambda>q. if q = 20 then [\<lparr>use_owner = 23, argument_users = []\<rparr>] else [\<lparr>use_owner = 22, argument_users = []\<rparr>]),
     findAncestorOpInBlock = (\<lambda>b q. if b = 1 \<and> 20 \<le> q then Some q else None), generic_body = (\<lambda>_. None),
     memory_effect_free = (\<lambda>_. False),
     operand_vals = (\<lambda>q. if q = 10 \<or> q = 20 then [1] else if q = 11 \<or> q = 21 then [2] else []),
     is_private_yield = (\<lambda>_. False), slot_ends = (\<lambda>v. if v = 1 \<or> v = 2 then Some swap_ends else None),
     stage_producers = (\<lambda>s. if s = 101 then [100] else []), stage_depends_on = (\<lambda>a b. a = 101 \<and> b = 100)\<rparr>"

definition swap_state :: fifo_state where
  "swap_state = \<lparr>fs_blocks = (\<lambda>b. if b = 0 then [10, 11] else if b = 1 then [20, 21, 22, 23] else []), num_skipped = 0, num_reordered = 0\<rparr>"

definition block_dominance :: "(nat \<Rightarrow> nat option) \<Rightarrow> fifo_ir \<Rightarrow> dominance" where
  "block_dominance def_op ir blocks v q =
     (case def_op v of None \<Rightarrow> True
      | Some d \<Rightarrow> d \<notin> set (blocks (block_of ir q)) \<or> before_in (blocks (block_of ir q)) d q)"

lemma swap_run:
  "map_option (\<lambda>s. (fs_blocks s 0, fs_blocks s 1, num_reordered s))
     (orderPipeline swap_ir (block_dominance (\<lambda>_. None) swap_ir) (collectChannelAccesses swap_ir [10, 11, 20, 21, 22, 23])
       (Some [1, 2]) swap_state) = Some ([11, 10], [21, 20, 22, 23], 1)"
  by code_simp

lemma swap_ok: "slots_ok swap_ir [1, 2] (fs_blocks swap_state)"
  by (auto simp: slots_ok_def swap_ir_def swap_state_def)

lemma swap_accesses:
  "fifo_accesses swap_ir [1, 2] e =
     (if e = swap_ends then [\<lparr>sa_slot = 1, sa_writer = 10, sa_reader = 20\<rparr>, \<lparr>sa_slot = 2, sa_writer = 11, sa_reader = 21\<rparr>] else [])"
proof -
  have "getSlotAccess swap_ir 1 = Some \<lparr>sa_slot = 1, sa_writer = 10, sa_reader = 20\<rparr>"
    "getSlotAccess swap_ir 2 = Some \<lparr>sa_slot = 2, sa_writer = 11, sa_reader = 21\<rparr>" by code_simp+
  then show ?thesis by (simp add: fifo_accesses_def slot_access_of_def swap_ir_def)
qed

lemma swap_in_step: "\<forall>e. in_step swap_ir (fs_blocks swap_state) (fifo_accesses swap_ir [1, 2] e)"
  unfolding swap_accesses by (auto simp: in_step_def swap_ir_def swap_state_def before_in_def)

lemma swap_reads: "reads_move swap_ir (block_dominance (\<lambda>_. None) swap_ir) [1, 2]"
  unfolding reads_move_def swap_accesses by (auto simp: swap_ir_def isOnCycle_def block_dominance_def)

theorem orderPipeline_returns_witness:
  "\<exists>s'. orderPipeline swap_ir (block_dominance (\<lambda>_. None) swap_ir) (collectChannelAccesses swap_ir [10, 11, 20, 21, 22, 23])
     (Some [1, 2]) swap_state = Some s'"
  by (rule orderPipeline_returns [OF swap_ok swap_reads])

theorem orderPipeline_in_step_witness:
  "\<exists>s'. orderPipeline swap_ir (block_dominance (\<lambda>_. None) swap_ir) (collectChannelAccesses swap_ir [10, 11, 20, 21, 22, 23])
     (Some [1, 2]) swap_state = Some s' \<and> fs_blocks s' 0 = [11, 10] \<and> in_step swap_ir (fs_blocks s') (fifo_accesses swap_ir [1, 2] swap_ends)"
proof -
  obtain s' where s: "orderPipeline swap_ir (block_dominance (\<lambda>_. None) swap_ir) (collectChannelAccesses swap_ir [10, 11, 20, 21, 22, 23])
     (Some [1, 2]) swap_state = Some s'" "fs_blocks s' 0 = [11, 10]" using swap_run by auto
  show ?thesis using orderPipeline_in_step [OF swap_ok s(1) swap_in_step] s by blast
qed

text \<open>
  The same pipeline with its values: 8 and 9 compute what 10 and 11 write (values 61 and 62), and 22 and 23 use the results
  of 21 and 20 (values 71 and 70).
\<close>

definition data_ir :: fifo_ir where
  "data_ir = swap_ir\<lparr>operand_vals := (\<lambda>q. if q = 10 then [1, 61] else if q = 11 then [2, 62] else if q = 20 then [1]
     else if q = 21 then [2] else if q = 22 then [71] else if q = 23 then [70] else [])\<rparr>"

definition data_def :: "nat \<Rightarrow> nat option" where
  "data_def v = (if v = 61 then Some 8 else if v = 62 then Some 9 else if v = 70 then Some 20 else if v = 71 then Some 21 else None)"

definition data_state :: fifo_state where
  "data_state = swap_state\<lparr>fs_blocks := (fs_blocks swap_state)(0 := [8, 9, 10, 11])\<rparr>"

lemma block_dominance_ok: "dominance_ok ir def_op (block_dominance def_op ir)"
  by (auto simp: dominance_ok_def block_dominance_def)

theorem orderPipeline_defs_first_witness:
  "\<exists>s'. orderPipeline data_ir (block_dominance data_def data_ir) (collectChannelAccesses data_ir [8, 9, 10, 11, 20, 21, 22, 23])
     (Some [1, 2]) data_state = Some s' \<and> fs_blocks s' 0 = [8, 9, 11, 10] \<and> fs_blocks s' 1 = [21, 20, 22, 23] \<and>
     (\<forall>b. defs_first data_ir data_def (fs_blocks s' b)) \<and> \<not> defs_first data_ir data_def [8, 11, 9, 10]"
proof -
  have run: "map_option (\<lambda>s. (fs_blocks s 0, fs_blocks s 1))
     (orderPipeline data_ir (block_dominance data_def data_ir) (collectChannelAccesses data_ir [8, 9, 10, 11, 20, 21, 22, 23])
       (Some [1, 2]) data_state) = Some ([8, 9, 11, 10], [21, 20, 22, 23])"
    by code_simp
  then obtain s' where s: "orderPipeline data_ir (block_dominance data_def data_ir)
     (collectChannelAccesses data_ir [8, 9, 10, 11, 20, 21, 22, 23]) (Some [1, 2]) data_state = Some s'"
    "fs_blocks s' 0 = [8, 9, 11, 10]" "fs_blocks s' 1 = [21, 20, 22, 23]" by auto
  have ok: "slots_ok data_ir [1, 2] (fs_blocks data_state)"
    by (auto simp: slots_ok_def data_ir_def swap_ir_def data_state_def swap_state_def)
  have "\<forall>b. defs_first data_ir data_def (fs_blocks data_state b)"
    by (auto simp: defs_first_def data_ir_def data_state_def swap_state_def data_def_def before_in_def)
  from orderPipeline_defs_first [OF ok s(1) block_dominance_ok this]
  have "\<forall>b. defs_first data_ir data_def (fs_blocks s' b)" .
  moreover have "\<not> defs_first data_ir data_def [8, 11, 9, 10]"
    by (auto simp: defs_first_def data_ir_def data_def_def before_in_def)
  ultimately show ?thesis using s by blast
qed

text \<open>
  The second slot is read by a transfer 21 into memory, at an index (value 60) that 24 computes after the first read: the
  writes are swapped, the reads cannot be, and the assertion that they can fails.
\<close>

definition mixed_ir :: fifo_ir where
  "mixed_ir = swap_ir\<lparr>access_kind_of := (\<lambda>q. if q = 21 then FifoTransfer 2 50 else access_kind_of swap_ir q),
     operand_vals := (\<lambda>q. if q = 21 then [2, 50, 60] else operand_vals swap_ir q)\<rparr>"

definition mixed_state :: fifo_state where
  "mixed_state = swap_state\<lparr>fs_blocks := (fs_blocks swap_state)(1 := [20, 24, 21, 22, 23])\<rparr>"

definition mixed_def :: "nat \<Rightarrow> nat option" where
  "mixed_def v = (if v = 60 then Some 24 else None)"

lemma mixed_accesses:
  "fifo_accesses mixed_ir [1, 2] e =
     (if e = swap_ends then [\<lparr>sa_slot = 1, sa_writer = 10, sa_reader = 20\<rparr>, \<lparr>sa_slot = 2, sa_writer = 11, sa_reader = 21\<rparr>] else [])"
proof -
  have "getSlotAccess mixed_ir 1 = Some \<lparr>sa_slot = 1, sa_writer = 10, sa_reader = 20\<rparr>"
    "getSlotAccess mixed_ir 2 = Some \<lparr>sa_slot = 2, sa_writer = 11, sa_reader = 21\<rparr>" by code_simp+
  then show ?thesis by (simp add: fifo_accesses_def slot_access_of_def mixed_ir_def swap_ir_def)
qed

lemma reads_cannot_move:
  "slots_ok mixed_ir [1, 2] (fs_blocks mixed_state) \<and> (\<forall>b. defs_first mixed_ir mixed_def (fs_blocks mixed_state b)) \<and>
   (\<forall>e. in_step mixed_ir (fs_blocks mixed_state) (fifo_accesses mixed_ir [1, 2] e)) \<and>
   orderPipeline mixed_ir (block_dominance mixed_def mixed_ir) (collectChannelAccesses mixed_ir [10, 11, 20, 24, 21, 22, 23])
     (Some [1, 2]) mixed_state = None"
proof (intro conjI allI)
  show "slots_ok mixed_ir [1, 2] (fs_blocks mixed_state)"
    by (auto simp: slots_ok_def mixed_ir_def swap_ir_def mixed_state_def swap_state_def)
  show "defs_first mixed_ir mixed_def (fs_blocks mixed_state b)" for b
    by (auto simp: defs_first_def mixed_ir_def swap_ir_def mixed_state_def swap_state_def mixed_def_def before_in_def)
  show "in_step mixed_ir (fs_blocks mixed_state) (fifo_accesses mixed_ir [1, 2] e)" for e
    unfolding mixed_accesses by (auto simp: in_step_def mixed_ir_def swap_ir_def mixed_state_def swap_state_def before_in_def)
  show "orderPipeline mixed_ir (block_dominance mixed_def mixed_ir) (collectChannelAccesses mixed_ir [10, 11, 20, 24, 21, 22, 23])
     (Some [1, 2]) mixed_state = None" by code_simp
qed

end
