(* ===== verification/Spec2Isabelle.thy ===== *)
theory Spec2Isabelle
  imports PlanRetype PipelineBuild AddressAssignment MemoryTree Legalizer StageDAG StageGrouping TileSizes Parallelize Reuse
    RelayFold FifoOrder
begin

text \<open>
  A verification development for the analyses and planning core of the dataflow scheduler, a set of
  MLIR passes that lower programs for a spatial accelerator. The paths below are under \<open>src/\<close>.

  \<^bold>\<open>Parts of the program and how they interact.\<close>
  A program is an MLIR module whose functions hold pipelines of stages; stages exchange data through
  FIFO slots and memory buffers and signal each other with tokens. The passes work on data
  structures built from the IR and from the device description: the operation tree and, over it,
  the pipeline tree (nodes for loops, pipelines, private sections and stages); the routing graph
  (memories, compute units, load/store units and the datapaths between them); the memory tree
  (which memory is nested in which). The path-expansion planner sorts the stages of each pipeline,
  collects the data flows between them, routes each flow in the routing graph, puts the inner units
  of a route into synthetic stages of the pipeline tree, rewires the dependencies, reorders the
  stages, and plans the buffers, FIFOs and transfers that carry each flow over its route. Address assignment sizes the allocations and places them with one bump allocator per
  memory.

  \<^bold>\<open>Theories.\<close>
  \<^item> \<open>Prelude\<close>: types, hint collections and list facts shared by all parts.
  \<^item> \<open>OperationTree\<close> (\<open>lib/Analysis/OperationTree.cpp\<close> and header): the left-child right-sibling
    tree as a store of nodes; each mutator refines an operation on the child lists; the four walks
    are the four orders of the abstract tree; clearing.
  \<^item> \<open>Kahn\<close>: the interface \<open>stage_sort\<close> of the two topological sorts in the program.
  \<^item> \<open>PipelineTree\<close> (\<open>lib/Analysis/PipelineTree.cpp\<close> and header): nodes, factories, dependencies,
    construction, topological sort, sources and sinks, loop searches. \<open>PipelineBuild\<close>: what the
    construction \<open>PipelineTree::compute\<close> yields.
  \<^item> \<open>TreeShape\<close> and \<open>Legalizer\<close> (\<open>lib/Transforms/Utils/PipelineTreeLegalizer.cpp\<close>): the rules on the
    shape of a pipeline tree, their repairs, and the repair loop as a run of a step relation whose
    length is computed from the tree.
  \<^item> \<open>RoutingGraph\<close> (\<open>lib/Analysis/ArchViews/RoutingGraph.cpp\<close>): construction, queries and the
    breadth-first search, with the interface \<open>shortest_routes\<close> the planner uses.
  \<^item> \<open>MemoryTree\<close> (\<open>lib/Analysis/ArchViews/MemoryTree.cpp\<close>, \<open>GroupLocalMemory.cpp\<close>).
  \<^item> \<open>MemoryTracker\<close> (\<open>lib/Analysis/MemoryTracker.cpp\<close>) and \<open>AddressAssignment\<close>
    (\<open>lib/Transforms/AddressAssignment.cpp\<close>): the bump allocator on 64-bit words and the pass.
  \<^item> \<open>StageDAG\<close> (\<open>lib/Dialect/KTDF/Analysis/GlobalStageDAG.cpp\<close>): token dependencies of a list of
    stages, the search for cycles, Kahn's sort, and the flat graph over nested pipelines.
    \<open>StageGrouping\<close> (\<open>lib/Dialect/KTDF/Analysis/StageGrouping.cpp\<close>): the partition of the stages
    by the memories and FIFOs they share.
  \<^item> \<open>TileSizes\<close> (\<open>lib/Dialect/KTDF/Transforms/TileSizeSelection.cpp\<close>,
    \<open>lib/Dialect/KTDF/Analysis/ReductionChunkAnalysis.cpp\<close>): the choice of tile sizes and of the
    number of chunks of a reduction, on 64-bit signed integers whose overflow is undefined.
    \<open>LoopTiling\<close> (\<open>lib/Dialect/KTDF/Analysis/LoopTiling.cpp\<close>): the partition of the loops into nests.
    \<open>Parallelize\<close> (\<open>lib/Transforms/ParallelizeLoopsAcrossInstances.cpp\<close>, with \<open>PipelineScope.cpp\<close> and
    \<open>ApplicableUnits.cpp\<close>): the choice of the loop to distribute over the instances of a group.
  \<^item> \<open>Reuse\<close> (\<open>lib/Dialect/KTDF/Analysis/Reuse.cpp\<close>, \<open>lib/Analysis/InvarianceCheck.cpp\<close>,
    \<open>WriteSetScan.cpp\<close>): which transfer can be hoisted out of which loops.
  \<^item> \<open>SimplifyPipeline\<close> (\<open>lib/Dialect/KTDF/Transforms/SimplifyPipeline.cpp\<close>): moving stages in front of
    their consumers, the normal form of the dependency tokens, the transitive reduction.
    \<open>RelayFold\<close> (\<open>lib/Transforms/FoldFifoRelayStages.cpp\<close>): folding two transfers through a slot into
    one, with the order of the stages, the moves between memories and the anchors of the stages.
    \<open>FifoOrder\<close> (\<open>lib/Transforms/OrderFifoSlotsByUse.cpp\<close>): the order of the slots of a FIFO by the
    consumption of their values.
  \<^item> \<open>PlanPrep\<close>, \<open>PlanFlows\<close>, \<open>PlanRoutes\<close>, \<open>PlanExpand\<close>, \<open>PlanWire\<close>, \<open>PlanOrder\<close>, \<open>PlanRun\<close>
    (\<open>lib/Transforms/PathExpansion/Planner.cpp\<close>): the planner in the order of the source, from
    \<open>sortAndValidateStages\<close> to the entry point \<open>planPathExpansion\<close> up to the end of its Step 1.
    \<open>PlanTransfers\<close> and \<open>PlanRetype\<close> (also \<open>PlannerFactories.cpp\<close>): Steps 2, 2b and 3, which choose what
    carries the data over the boundaries of a route and fill in the transfers of the stages; the
    factories are lists of resources and transfers that only grow, and pointers to their objects are
    positions in them. The whole planner is \<open>planWithTransfers\<close>.

  \<^bold>\<open>State and errors.\<close>
  Pointers are \<open>ptr\<close> and a null pointer is \<open>None\<close>; a tree is a store from pointers to nodes. An
  operation that can assert, dereference null or read a deleted node returns \<open>option\<close>, \<open>None\<close>
  standing for undefined behaviour or a failed assertion; errors that the code reports are values
  of the \<open>outcome\<close> or error types of the theories. Loops whose end is not structural are
  \<open>partial_function (option)\<close>, so a theorem that they return says \<open>= Some\<close>; there is no fuel.

  \<^bold>\<open>Parameters.\<close>
  The MLIR libraries are not part of the repository. What the code reads from an operation (its
  kind, operands, types, attributes, regions, uses) is data given to the definitions; iteration
  orders of hash maps are parameters, and theorems hold for every order.

  \<^bold>\<open>Not modelled.\<close>
  Printing; the rewriting of IR (the materializer, the conversions between dialects and the pattern
  rewrites), which consists of calls of MLIR builders whose meaning lies outside the repository;
  command-line tools and bindings.
\<close>

end
